(* ===== verification/Prelude.thy ===== *)
theory Prelude
  imports Main "HOL-Library.Word" "HOL-Library.Monad_Syntax"
begin

text \<open>
  What every component of the development shares: the return codes of
  \<^verbatim>\<open>src/src/common.h\<close>, the machine integers of the C code, memory blocks with their
  bounds-checked accesses, the allocator, and the C string functions the sources call.

  \<^bold>\<open>Faults.\<close> An operation whose C text can read or write outside an object, follow a
  null or dangling pointer, or run forever returns a value of an \<open>option\<close> type:
  \<open>None\<close> means that the C execution has no defined result. A theorem of the form
  \<open>f x = Some y\<close> therefore says that the code runs to its end, touches only memory it
  owns and yields \<open>y\<close>.

  \<^bold>\<open>Machine integers.\<close> Lengths, sizes and positions are \<open>nat\<close> with the wrap-around of
  the C type written out at each assignment (\<open>u32\<close> for \<open>unsigned int\<close>, \<open>u64\<close> for
  \<open>size_t\<close> and \<open>unsigned long\<close>); bytes and frame fields are words. The platform is
  the usual 64-bit one: \<open>int\<close> has 32 bits, \<open>long\<close>, pointers and \<open>size_t\<close> have 64,
  \<open>char\<close> is signed.
\<close>

unbundle bit_operations_syntax

named_theorems mem_simps \<open>evaluation of memory accesses whose bounds are known\<close>
named_theorems int_simps \<open>machine arithmetic that does not wrap\<close>

subsection \<open>Return codes\<close>

datatype ret_t =
    ret_no_sys | ret_nomem | ret_deny | ret_error | ret_ok | ret_eof
  | ret_eof_have_data | ret_not_found | ret_file_not_found | ret_eagain | ret_ok_and_sent

text \<open>The values of the enumeration: the macro \<open>lt_ok\<close> and several callers test their sign.\<close>

fun ret_code :: "ret_t \<Rightarrow> int" where
  "ret_code ret_no_sys = -4"
| "ret_code ret_nomem = -3"
| "ret_code ret_deny = -2"
| "ret_code ret_error = -1"
| "ret_code ret_ok = 0"
| "ret_code ret_eof = 1"
| "ret_code ret_eof_have_data = 2"
| "ret_code ret_not_found = 3"
| "ret_code ret_file_not_found = 4"
| "ret_code ret_eagain = 5"
| "ret_code ret_ok_and_sent = 8"

subsection \<open>Machine integers\<close>

definition u32 :: "nat \<Rightarrow> nat" where
  "u32 n = n mod 2 ^ 32"

definition u64 :: "nat \<Rightarrow> nat" where
  "u64 n = n mod 2 ^ 64"

definition sub32 :: "nat \<Rightarrow> nat \<Rightarrow> nat" where
  "sub32 a b = (a + 2 ^ 32 - b mod 2 ^ 32) mod 2 ^ 32"

definition sub64 :: "nat \<Rightarrow> nat \<Rightarrow> nat" where
  "sub64 a b = (a + 2 ^ 64 - b mod 2 ^ 64) mod 2 ^ 64"

text \<open>The value of an \<open>int\<close> variable after a 32-bit quantity is assigned to it, and the
  conversion of an \<open>int\<close> to \<open>size_t\<close>, which extends the sign.\<close>

definition s32 :: "nat \<Rightarrow> int" where
  "s32 n = (if u32 n < 2 ^ 31 then int (u32 n) else int (u32 n) - 2 ^ 32)"

definition sext64 :: "nat \<Rightarrow> nat" where
  "sext64 n = (if u32 n < 2 ^ 31 then u32 n else u32 n + (2 ^ 64 - 2 ^ 32))"

lemma u32_id [int_simps]: "n < 2 ^ 32 \<Longrightarrow> u32 n = n"
  by (simp add: u32_def)

lemma u64_id [int_simps]: "n < 2 ^ 64 \<Longrightarrow> u64 n = n"
  by (simp add: u64_def)

lemma u32_less [simp]: "u32 n < 2 ^ 32"
  by (simp add: u32_def)

lemma sub32_id [int_simps]: "b \<le> a \<Longrightarrow> a < 2 ^ 32 \<Longrightarrow> sub32 a b = a - b"
  using mod_add_self2 [of "a - b" "2 ^ 32"] by (simp add: sub32_def)

lemma sub64_id [int_simps]: "b \<le> a \<Longrightarrow> a < 2 ^ 64 \<Longrightarrow> sub64 a b = a - b"
  using mod_add_self2 [of "a - b" "2 ^ 64"] by (simp add: sub64_def)

lemma sext64_id [int_simps]: "n < 2 ^ 31 \<Longrightarrow> sext64 n = n"
  by (simp add: sext64_def u32_def)

lemma s32_id [int_simps]: "n < 2 ^ 31 \<Longrightarrow> s32 n = int n"
  by (simp add: s32_def u32_def)

subsection \<open>Bytes and literals\<close>

type_synonym byte = "8 word"
type_synonym block = "byte list"

text \<open>A character constant and a string literal of the C text, without the final zero.\<close>

definition chr :: "char \<Rightarrow> byte" where
  "chr c = word_of_nat (of_char c)"

definition lit :: "string \<Rightarrow> byte list" where
  "lit s = map chr s"

lemma length_lit [simp]: "length (lit s) = length s"
  by (simp add: lit_def)

subsection \<open>Memory blocks\<close>

text \<open>An allocated object is the list of its bytes. A read or a write that leaves it is a
  fault.\<close>

definition blk_get :: "block \<Rightarrow> nat \<Rightarrow> byte option" where
  "blk_get m i = (if i < length m then Some (m ! i) else None)"

definition blk_set :: "block \<Rightarrow> nat \<Rightarrow> byte \<Rightarrow> block option" where
  "blk_set m i v = (if i < length m then Some (m[i := v]) else None)"

definition blk_read :: "block \<Rightarrow> nat \<Rightarrow> nat \<Rightarrow> byte list option" where
  "blk_read m i n = (if i + n \<le> length m then Some (take n (drop i m)) else None)"

definition blk_write :: "block \<Rightarrow> nat \<Rightarrow> byte list \<Rightarrow> block option" where
  "blk_write m i bs =
     (if i + length bs \<le> length m then Some (take i m @ bs @ drop (i + length bs) m) else None)"

text \<open>\<open>memmove (p + dst, p + src, n)\<close> inside one block.\<close>

definition blk_move :: "block \<Rightarrow> nat \<Rightarrow> nat \<Rightarrow> nat \<Rightarrow> block option" where
  "blk_move m dst src n = do { bs \<leftarrow> blk_read m src n; blk_write m dst bs }"

lemma blk_get_in [mem_simps]: "i < length m \<Longrightarrow> blk_get m i = Some (m ! i)"
  by (simp add: blk_get_def)

lemma blk_set_in [mem_simps]: "i < length m \<Longrightarrow> blk_set m i v = Some (m[i := v])"
  by (simp add: blk_set_def)

lemma blk_read_in [mem_simps]:
  "i + n \<le> length m \<Longrightarrow> blk_read m i n = Some (take n (drop i m))"
  by (simp add: blk_read_def)

lemma blk_write_in [mem_simps]:
  "i + length bs \<le> length m \<Longrightarrow>
   blk_write m i bs = Some (take i m @ bs @ drop (i + length bs) m)"
  by (simp add: blk_write_def)

lemma blk_move_in [mem_simps]:
  "src + n \<le> length m \<Longrightarrow> dst + n \<le> length m \<Longrightarrow>
   blk_move m dst src n = Some (take dst m @ take n (drop src m) @ drop (dst + n) m)"
  by (simp add: blk_move_def blk_read_def blk_write_def)

text \<open>What a write leaves of the bytes before it: the frame facts the buffer proofs use.\<close>

lemma take_list_update_le [simp]: "n \<le> i \<Longrightarrow> take n (xs[i := v]) = take n xs"
  by (simp add: take_update_swap list_update_beyond)

lemma take_append_write:
  "i \<le> length m \<Longrightarrow> take (i + length bs) (take i m @ bs @ rest) = take i m @ bs"
  by simp

subsection \<open>The allocator\<close>

text \<open>
  \<open>malloc\<close> and \<open>realloc\<close> may refuse any request and leave fresh memory
  uninitialised: \<open>malloc_ok\<close> says which request sizes succeed and \<open>fresh\<close> what the new
  bytes happen to hold. Every theorem holds for all such environments.
\<close>

record heap =
  malloc_ok :: "nat \<Rightarrow> bool"
  fresh :: "nat \<Rightarrow> byte"

definition malloc :: "heap \<Rightarrow> nat \<Rightarrow> block option" where
  "malloc h n = (if malloc_ok h n then Some (map (fresh h) [0..<n]) else None)"

definition realloc :: "heap \<Rightarrow> block option \<Rightarrow> nat \<Rightarrow> block option" where
  "realloc h p n =
     (if malloc_ok h n
      then Some (case p of None \<Rightarrow> map (fresh h) [0..<n]
                 | Some m \<Rightarrow> take n m @ map (fresh h) [length m..<n])
      else None)"

lemma length_malloc: "malloc h n = Some m \<Longrightarrow> length m = n"
  by (auto simp: malloc_def split: if_splits)

lemma length_realloc: "realloc h p n = Some m \<Longrightarrow> length m = n"
  by (auto simp: realloc_def split: if_splits option.splits)

lemma take_realloc:
  "realloc h (Some m0) n = Some m \<Longrightarrow> k \<le> length m0 \<Longrightarrow> k \<le> n \<Longrightarrow> take k m = take k m0"
  by (auto simp: realloc_def split: if_splits)

subsection \<open>C strings\<close>

text \<open>The string that starts at \<open>i\<close>: up to the first zero byte, which has to be there.\<close>

definition cstr :: "block \<Rightarrow> nat \<Rightarrow> byte list option" where
  "cstr m i =
     (if 0 \<in> set (drop i m) then Some (takeWhile (\<lambda>c. c \<noteq> 0) (drop i m)) else None)"

text \<open>\<open>strstr\<close> and \<open>strchr\<close> as the index of the match, or none.\<close>

fun strstr :: "byte list \<Rightarrow> byte list \<Rightarrow> nat option" where
  "strstr [] pat = (if pat = [] then Some 0 else None)"
| "strstr (c # s) pat =
     (if take (length pat) (c # s) = pat then Some 0 else map_option Suc (strstr s pat))"

fun strchr :: "byte list \<Rightarrow> byte \<Rightarrow> nat option" where
  "strchr [] c = None"
| "strchr (x # s) c = (if x = c then Some 0 else map_option Suc (strchr s c))"

text \<open>\<open>strspn\<close>, \<open>strcspn\<close> and \<open>strpbrk\<close>.\<close>

definition strspn :: "byte list \<Rightarrow> byte list \<Rightarrow> nat" where
  "strspn s accept = length (takeWhile (\<lambda>c. c \<in> set accept) s)"

definition strcspn :: "byte list \<Rightarrow> byte list \<Rightarrow> nat" where
  "strcspn s reject = length (takeWhile (\<lambda>c. c \<notin> set reject) s)"

definition strpbrk :: "byte list \<Rightarrow> byte list \<Rightarrow> nat option" where
  "strpbrk s accept = (let n = strcspn s accept in if n < length s then Some n else None)"

lemma cstr_Some:
  "take n (drop i m) = s \<Longrightarrow> length s = n \<Longrightarrow> 0 \<notin> set s \<Longrightarrow> i + n < length m \<Longrightarrow>
   m ! (i + n) = 0 \<Longrightarrow> cstr m i = Some s"
proof -
  assume s: "take n (drop i m) = s" "length s = n" "0 \<notin> set s"
    and n: "i + n < length m" "m ! (i + n) = 0"
  have "drop i m = s @ 0 # drop (Suc n) (drop i m)"
    using id_take_nth_drop [of n "drop i m"] s n by simp
  moreover have "takeWhile (\<lambda>c. c \<noteq> 0) (s @ 0 # t) = s" for t :: "byte list"
    using s(3) by (induction s) auto
  ultimately show ?thesis
    unfolding cstr_def by (metis in_set_conv_decomp)
qed

lemma strstr_bound: "strstr s pat = Some k \<Longrightarrow> k + length pat \<le> length s"
proof (induction s arbitrary: k)
  case Nil
  then show ?case by (simp split: if_splits)
next
  case (Cons c s)
  show ?case
  proof (cases "take (length pat) (c # s) = pat")
    case True
    then have "length pat \<le> length (c # s)"
      by (metis length_take min.cobounded1)
    with True Cons.prems show ?thesis by simp
  next
    case False
    with Cons.prems Cons.IH show ?thesis by fastforce
  qed
qed

lemma strstr_match: "strstr s pat = Some k \<Longrightarrow> take (length pat) (drop k s) = pat"
  by (induction s arbitrary: k) (auto split: if_splits)

end
