(* ===== verification/Buffer.thy ===== *)
theory Buffer
  imports Prelude
begin

text \<open>
  The core of \<^verbatim>\<open>src/src/buffer.c\<close>: the struct \<open>http2d_buffer_t\<close>, its life cycle, the
  growth of its memory and the operations that append to it. The number, editing, escaping
  and encoding operations are in the theories \<open>Buffer_Num\<close>, \<open>Buffer_Edit\<close>,
  \<open>Buffer_Escape\<close> and \<open>Buffer_Codec\<close>.

  A buffer is a record of the three C fields: the memory chunk (\<open>None\<close> for \<open>NULL\<close>), the
  size and the length. \<open>buffer_ok\<close> is its type invariant, \<open>buf_str\<close> the text it holds and
  \<open>buf_rep b s\<close> the abstraction relation: a well-formed, zero-terminated buffer that holds
  the byte string \<open>s\<close>.
\<close>

subsection \<open>The structure\<close>

record buffer =
  buf :: "block option"
  bsize :: nat
  len :: nat

text \<open>A \<open>const char *\<close> argument: a pointer to memory of the caller, or one into the chunk of
  the very buffer the operation changes, which dangles as soon as that chunk is reallocated.\<close>

datatype cptr = Ext "byte list" | Own nat

definition REALLOC_EXTRA_SIZE :: nat where
  "REALLOC_EXTRA_SIZE = 16"

definition HTTP2D_BUF_INIT :: buffer where
  "HTTP2D_BUF_INIT = \<lparr>buf = None, bsize = 0, len = 0\<rparr>"

definition http2d_buffer_is_empty :: "buffer \<Rightarrow> bool" where
  "http2d_buffer_is_empty b \<longleftrightarrow> len b = 0"

definition http2d_buffer_init :: "buffer \<Rightarrow> ret_t \<times> buffer" where
  "http2d_buffer_init b = (ret_ok, b\<lparr>buf := None, len := 0, bsize := 0\<rparr>)"

text \<open>\<open>sizeof (http2d_buffer_t)\<close> is 16: the expansion of \<open>HTTP2D_ADD_FUNC_NEW (buffer)\<close>.\<close>

definition http2d_buffer_new :: "heap \<Rightarrow> ret_t \<times> buffer option" where
  "http2d_buffer_new h =
     (case malloc h 16 of None \<Rightarrow> (ret_nomem, None)
      | Some _ \<Rightarrow>
          (let (ret, n) = http2d_buffer_init \<lparr>buf = None, bsize = 0, len = 0\<rparr>
           in if ret \<noteq> ret_ok then (ret, None) else (ret_ok, Some n)))"

definition http2d_buffer_fake :: "block option \<Rightarrow> nat \<Rightarrow> buffer" where
  "http2d_buffer_fake str n = \<lparr>buf = str, bsize = u32 (n + 1), len = n\<rparr>"

text \<open>The macros \<open>HTTP2D_BUF_INIT_FAKE\<close> and \<open>http2d_buffer_fake_str\<close> on a string literal.\<close>

definition HTTP2D_BUF_INIT_FAKE :: "string \<Rightarrow> buffer" where
  "HTTP2D_BUF_INIT_FAKE s = \<lparr>buf = Some (lit s @ [0]), bsize = length s + 1, len = length s\<rparr>"

definition http2d_buffer_fake_str :: "string \<Rightarrow> buffer" where
  "http2d_buffer_fake_str s = http2d_buffer_fake (Some (lit s @ [0])) (length s)"

definition http2d_buffer_mrproper :: "buffer \<Rightarrow> ret_t \<times> buffer" where
  "http2d_buffer_mrproper b =
     (let b = (if buf b \<noteq> None then b\<lparr>buf := None\<rparr> else b)
      in (ret_ok, b\<lparr>len := 0, bsize := 0\<rparr>))"

definition http2d_buffer_clean :: "buffer \<Rightarrow> buffer option" where
  "http2d_buffer_clean b =
     (case buf b of None \<Rightarrow> Some (b\<lparr>len := 0\<rparr>)
      | Some m \<Rightarrow> do { m \<leftarrow> blk_set m 0 0; Some (b\<lparr>buf := Some m, len := 0\<rparr>) })"

definition http2d_buffer_swap_buffers :: "buffer \<Rightarrow> buffer \<Rightarrow> buffer \<times> buffer" where
  "http2d_buffer_swap_buffers b second =
     (let tmp_buf = buf b; tmp_len = len b; tmp_size = bsize b;
          b = b\<lparr>buf := buf second, len := len second, bsize := bsize second\<rparr>;
          second = second\<lparr>buf := tmp_buf, len := tmp_len, bsize := tmp_size\<rparr>
      in (b, second))"

definition http2d_buffer_dup :: "heap \<Rightarrow> buffer \<Rightarrow> (ret_t \<times> buffer option) option" where
  "http2d_buffer_dup h b =
     (case malloc h 16 of None \<Rightarrow> Some (ret_nomem, None)
      | Some _ \<Rightarrow>
         (case malloc h (u32 (len b + 1)) of None \<Rightarrow> Some (ret_nomem, None)
          | Some nb \<Rightarrow> do {
              m \<leftarrow> buf b;
              bs \<leftarrow> blk_read m 0 (u32 (len b + 1));
              nb \<leftarrow> blk_write nb 0 bs;
              Some (ret_ok, Some \<lparr>buf = Some nb, bsize = u32 (len b + 1), len = len b\<rparr>) }))"

subsection \<open>Growing the memory\<close>

definition realloc_inc_bufsize :: "heap \<Rightarrow> buffer \<Rightarrow> nat \<Rightarrow> ret_t \<times> buffer" where
  "realloc_inc_bufsize h b incsize =
     (let newsize = u64 (bsize b + incsize + REALLOC_EXTRA_SIZE + 1)
      in case realloc h (buf b) newsize of None \<Rightarrow> (ret_nomem, b)
         | Some pbuf \<Rightarrow> (ret_ok, b\<lparr>buf := Some pbuf, bsize := u32 newsize\<rparr>))"

definition realloc_new_bufsize :: "heap \<Rightarrow> buffer \<Rightarrow> nat \<Rightarrow> ret_t \<times> buffer" where
  "realloc_new_bufsize h b newsize =
     (let newsize = u64 (newsize + (REALLOC_EXTRA_SIZE + 1))
      in case realloc h (buf b) newsize of None \<Rightarrow> (ret_nomem, b)
         | Some pbuf \<Rightarrow> (ret_ok, b\<lparr>buf := Some pbuf, bsize := u32 newsize\<rparr>))"

definition http2d_buffer_ensure_size :: "heap \<Rightarrow> buffer \<Rightarrow> nat \<Rightarrow> ret_t \<times> buffer" where
  "http2d_buffer_ensure_size h b sz =
     (if sz \<le> bsize b then (ret_ok, b)
      else if buf b = None then
        (case malloc h sz of None \<Rightarrow> (ret_nomem, b)
         | Some m \<Rightarrow> (ret_ok, b\<lparr>buf := Some m, bsize := u32 sz\<rparr>))
      else
        (case realloc h (buf b) sz of None \<Rightarrow> (ret_nomem, b)
         | Some pbuf \<Rightarrow> (ret_ok, b\<lparr>buf := Some pbuf, bsize := u32 sz\<rparr>)))"

definition http2d_buffer_ensure_addlen :: "heap \<Rightarrow> buffer \<Rightarrow> nat \<Rightarrow> ret_t \<times> buffer" where
  "http2d_buffer_ensure_addlen h b addlen =
     (if u64 (len b + addlen) < bsize b then (ret_ok, b)
      else http2d_buffer_ensure_size h b (u64 (len b + addlen + 1)))"

subsection \<open>Appending and prepending\<close>

text \<open>The source bytes of a \<open>memcpy\<close> of \<open>n\<close> bytes to position \<open>dst\<close> of the block \<open>m\<close>. A
  pointer into the buffer's own chunk is usable only while the chunk has not been moved, and
  \<open>memcpy\<close> forbids overlapping areas.\<close>

definition memcpy_src :: "bool \<Rightarrow> block \<Rightarrow> nat \<Rightarrow> cptr \<Rightarrow> nat \<Rightarrow> byte list option" where
  "memcpy_src moved m dst p n =
     (case p of Ext bs \<Rightarrow> blk_read bs 0 n
      | Own off \<Rightarrow>
          (if moved \<or> off < dst + n \<and> dst < off + n then None else blk_read m off n))"

definition http2d_buffer_add :: "heap \<Rightarrow> buffer \<Rightarrow> cptr \<Rightarrow> nat \<Rightarrow> (ret_t \<times> buffer) option" where
  "http2d_buffer_add h b txt n =
     (if n = 0 then Some (ret_ok, b)
      else
        (let available = sub32 (bsize b) (len b);
             short = available < u64 (n + 1);
             (ret, b1) = (if short then realloc_inc_bufsize h b (sub64 n (sext64 available))
                          else (ret_ok, b))
         in if ret \<noteq> ret_ok then Some (ret_nomem, b1)
            else do {
              m \<leftarrow> buf b1;
              bs \<leftarrow> memcpy_src short m (len b1) txt n;
              m \<leftarrow> blk_write m (len b1) bs;
              m \<leftarrow> blk_set m (u32 (len b1 + n)) 0;
              Some (ret_ok, b1\<lparr>buf := Some m, len := u32 (len b1 + n)\<rparr>) }))"

text \<open>A pointer to the bytes of another buffer, whose chunk may be \<open>NULL\<close> when it is empty.\<close>

definition buf_ptr :: "buffer \<Rightarrow> cptr" where
  "buf_ptr b = Ext (case buf b of None \<Rightarrow> [] | Some m \<Rightarrow> m)"

definition http2d_buffer_add_str :: "heap \<Rightarrow> buffer \<Rightarrow> string \<Rightarrow> (ret_t \<times> buffer) option" where
  "http2d_buffer_add_str h b s = http2d_buffer_add h b (Ext (lit s @ [0])) (length s)"

definition http2d_buffer_add_buffer :: "heap \<Rightarrow> buffer \<Rightarrow> buffer \<Rightarrow> (ret_t \<times> buffer) option" where
  "http2d_buffer_add_buffer h b b2 = http2d_buffer_add h b (buf_ptr b2) (len b2)"

definition http2d_buffer_add_char :: "heap \<Rightarrow> buffer \<Rightarrow> byte \<Rightarrow> (ret_t \<times> buffer) option" where
  "http2d_buffer_add_char h b c =
     (let fast = u32 (len b + 1) < bsize b;
          (ret, b1) = (if fast then (ret_ok, b) else realloc_inc_bufsize h b 1)
      in if ret \<noteq> ret_ok then Some (ret_nomem, b1)
         else do {
           m \<leftarrow> buf b1;
           m \<leftarrow> blk_set m (len b1) c;
           m \<leftarrow> blk_set m (u32 (len b1 + 1)) 0;
           Some (ret_ok, b1\<lparr>buf := Some m, len := u32 (len b1 + 1)\<rparr>) })"

text \<open>\<open>free\<close> and \<open>num\<close> are \<open>int\<close>s here; \<open>num - free\<close> is converted to \<open>size_t\<close>.\<close>

definition http2d_buffer_add_char_n :: "heap \<Rightarrow> buffer \<Rightarrow> byte \<Rightarrow> int \<Rightarrow> (ret_t \<times> buffer) option" where
  "http2d_buffer_add_char_n h b c num =
     (let free = s32 (sub32 (bsize b) (len b))
      in if num \<le> 0 then Some (ret_ok, b)
         else
           (let (ret, b1) = (if free < num + 1
                             then realloc_inc_bufsize h b (nat ((num - free) mod 2 ^ 64))
                             else (ret_ok, b))
            in if ret \<noteq> ret_ok then Some (ret_nomem, b1)
               else do {
                 m \<leftarrow> buf b1;
                 m \<leftarrow> blk_write m (len b1) (replicate (nat num) c);
                 m \<leftarrow> blk_set m (u32 (len b1 + nat num)) 0;
                 Some (ret_ok, b1\<lparr>buf := Some m, len := u32 (len b1 + nat num)\<rparr>) }))"

definition http2d_buffer_prepend :: "heap \<Rightarrow> buffer \<Rightarrow> byte list \<Rightarrow> nat \<Rightarrow> (ret_t \<times> buffer) option" where
  "http2d_buffer_prepend h b txt n =
     (let free = sub32 (bsize b) (len b);
          (ret, b1) = (if free < u64 (n + 1) then realloc_inc_bufsize h b (sub64 n (sext64 free))
                       else (ret_ok, b))
      in if ret \<noteq> ret_ok then Some (ret_nomem, b1)
         else do {
           m \<leftarrow> buf b1;
           m \<leftarrow> blk_move m n 0 (len b1);
           bs \<leftarrow> blk_read txt 0 n;
           m \<leftarrow> blk_write m 0 bs;
           m \<leftarrow> blk_set m (u32 (len b1 + n)) 0;
           Some (ret_ok, b1\<lparr>buf := Some m, len := u32 (len b1 + n)\<rparr>) })"

subsection \<open>Type invariant and abstraction\<close>

definition buffer_ok :: "buffer \<Rightarrow> bool" where
  "buffer_ok b \<longleftrightarrow>
     (case buf b of None \<Rightarrow> bsize b = 0 \<and> len b = 0
      | Some m \<Rightarrow> len b < bsize b \<and> bsize b \<le> length m \<and> bsize b < 2 ^ 31)"

definition buffer_term :: "buffer \<Rightarrow> bool" where
  "buffer_term b \<longleftrightarrow> (case buf b of None \<Rightarrow> True | Some m \<Rightarrow> m ! len b = 0)"

definition buf_str :: "buffer \<Rightarrow> byte list" where
  "buf_str b = (case buf b of None \<Rightarrow> [] | Some m \<Rightarrow> take (len b) m)"

definition buf_rep :: "buffer \<Rightarrow> byte list \<Rightarrow> bool" where
  "buf_rep b s \<longleftrightarrow> buffer_ok b \<and> buffer_term b \<and> buf_str b = s"

text \<open>The outcome of an operation that may need memory: the new text on \<open>ret_ok\<close>, the old buffer
  untouched on \<open>ret_nomem\<close>, which only a refused request for \<open>n\<close> bytes explains.\<close>

definition grows_to :: "heap \<Rightarrow> nat \<Rightarrow> buffer \<Rightarrow> byte list \<Rightarrow> (ret_t \<times> buffer) option \<Rightarrow> bool" where
  "grows_to h n b s res \<longleftrightarrow>
     (\<exists>b'. res = Some (ret_ok, b') \<and> buf_rep b' s) \<or> res = Some (ret_nomem, b) \<and> \<not> malloc_ok h n"

subsection \<open>Facts about the representation\<close>

lemma buffer_ok_NULL: "buf b = None \<Longrightarrow> buffer_ok b \<longleftrightarrow> bsize b = 0 \<and> len b = 0"
  by (simp add: buffer_ok_def)

lemma buffer_ok_Some:
  "buf b = Some m \<Longrightarrow> buffer_ok b \<longleftrightarrow> len b < bsize b \<and> bsize b \<le> length m \<and> bsize b < 2 ^ 31"
  by (simp add: buffer_ok_def)

lemma buffer_ok_bounds: "buffer_ok b \<Longrightarrow> len b \<le> bsize b \<and> bsize b < 2 ^ 31"
  by (auto simp: buffer_ok_def split: option.splits)

lemma length_buf_str [simp]: "buffer_ok b \<Longrightarrow> length (buf_str b) = len b"
  by (auto simp: buffer_ok_def buf_str_def split: option.splits)

lemma buf_rep_len: "buf_rep b s \<Longrightarrow> len b = length s"
  by (auto simp: buf_rep_def)

lemma buf_repI:
  assumes "buf b = Some m" "len b = length s" "length s < bsize b" "bsize b \<le> length m"
    "bsize b < 2 ^ 31" "take (length s) m = s" "m ! length s = 0"
  shows "buf_rep b s"
  using assms by (simp add: buf_rep_def buffer_ok_def buffer_term_def buf_str_def)

text \<open>One growth step: a block of the wanted size that keeps the text.\<close>

lemma realloc_inc_bufsize_ok:
  assumes ok: "buffer_ok b" and n: "bsize b + n + 17 < 2 ^ 31"
    and m: "malloc_ok h (bsize b + n + 17)"
  obtains p where
    "realloc_inc_bufsize h b n = (ret_ok, b\<lparr>buf := Some p, bsize := bsize b + n + 17\<rparr>)"
    "length p = bsize b + n + 17" "take (len b) p = buf_str b"
proof -
  have sz: "u64 (bsize b + n + REALLOC_EXTRA_SIZE + 1) = bsize b + n + 17"
    "u32 (bsize b + n + 17) = bsize b + n + 17"
    using n by (simp_all add: u64_def u32_def REALLOC_EXTRA_SIZE_def)
  obtain p where p: "realloc h (buf b) (bsize b + n + 17) = Some p"
    using m by (simp add: realloc_def)
  have "take (len b) p = buf_str b"
  proof (cases "buf b")
    case None
    with ok show ?thesis by (simp add: buffer_ok_NULL buf_str_def)
  next
    case (Some m)
    with ok p show ?thesis
      using take_realloc [of h m "bsize b + n + 17" p "len b"]
      by (simp add: buffer_ok_Some buf_str_def)
  qed
  with p sz show thesis
    by (intro that [of p]) (auto simp: realloc_inc_bufsize_def length_realloc)
qed

lemma realloc_inc_bufsize_nomem:
  "bsize b + n + 17 < 2 ^ 31 \<Longrightarrow> \<not> malloc_ok h (bsize b + n + 17) \<Longrightarrow>
   realloc_inc_bufsize h b n = (ret_nomem, b)"
  by (simp add: realloc_inc_bufsize_def realloc_def REALLOC_EXTRA_SIZE_def u64_def Let_def
      add.commute)

text \<open>Writing \<open>bs\<close> and a final zero behind the text, the last lines of every append.\<close>

definition put_tail :: "block \<Rightarrow> nat \<Rightarrow> byte list \<Rightarrow> block" where
  "put_tail p k bs = (take k p @ bs @ drop (k + length bs) p)[k + length bs := 0]"

lemma put_tail_eqs:
  assumes "k + length bs < length p"
  shows "blk_write p k bs = Some (take k p @ bs @ drop (k + length bs) p)"
    and "blk_set (take k p @ bs @ drop (k + length bs) p) (k + length bs) 0 = Some (put_tail p k bs)"
  using assms by (simp_all add: put_tail_def mem_simps)

lemma put_tail_rep:
  assumes "buf b = Some p" "take (len b) p = s" "length s = len b"
    and "len b + length bs < bsize b" "bsize b \<le> length p" "bsize b < 2 ^ 31"
  shows "buf_rep (b\<lparr>buf := Some (put_tail p (len b) bs), len := len b + length bs\<rparr>) (s @ bs)"
  using assms
  by (intro buf_repI [where m = "put_tail p (len b) bs"]) (auto simp: put_tail_def nth_list_update)

text \<open>The common first half of the operations that add \<open>n\<close> bytes: memory is requested exactly
  when the free space does not hold them and their final zero.\<close>

lemma reserve:
  assumes ok: "buffer_ok b" and n: "len b + n + 17 < 2 ^ 31"
  obtains (nomem) "bsize b - len b < n + 1" "\<not> malloc_ok h (len b + n + 17)"
      "realloc_inc_bufsize h b (n - (bsize b - len b)) = (ret_nomem, b)"
  | (room) b1 p where
      "(if bsize b - len b < n + 1 then realloc_inc_bufsize h b (n - (bsize b - len b))
        else (ret_ok, b)) = (ret_ok, b1)"
      "buf b1 = Some p" "len b1 = len b" "take (len b) p = buf_str b"
      "len b + n < bsize b1" "bsize b1 \<le> length p" "bsize b1 < 2 ^ 31"
proof -
  define av where "av = bsize b - len b"
  have bb: "len b \<le> bsize b" "bsize b < 2 ^ 31" using buffer_ok_bounds [OF ok] by auto
  consider (fits) "\<not> av < n + 1" | (grow) "av < n + 1" "malloc_ok h (len b + n + 17)"
    | (none) "av < n + 1" "\<not> malloc_ok h (len b + n + 17)" by blast
  then show thesis
  proof cases
    case fits
    then obtain p where p: "buf b = Some p"
      using ok by (cases "buf b") (auto simp: av_def buffer_ok_NULL)
    with fits ok bb show thesis
      by (intro room [of b p]) (auto simp: av_def buffer_ok_Some buf_str_def)
  next
    case grow
    have inc: "bsize b + (n - av) + 17 = len b + n + 17" using grow bb by (auto simp: av_def)
    obtain p where
        "realloc_inc_bufsize h b (n - av) = (ret_ok, b\<lparr>buf := Some p, bsize := len b + n + 17\<rparr>)"
        "length p = len b + n + 17" "take (len b) p = buf_str b"
      using realloc_inc_bufsize_ok [OF ok, of "n - av" h] inc n grow(2) by metis
    with grow n show thesis
      by (intro room [of "b\<lparr>buf := Some p, bsize := len b + n + 17\<rparr>" p]) (auto simp: av_def)
  next
    case none
    have inc: "bsize b + (n - av) + 17 = len b + n + 17" using none bb by (auto simp: av_def)
    have "realloc_inc_bufsize h b (n - av) = (ret_nomem, b)"
      by (rule realloc_inc_bufsize_nomem) (use none n in \<open>simp_all only: inc not_False_eq_True\<close>)
    with none show thesis by (intro nomem) (auto simp: av_def)
  qed
qed

lemma http2d_buffer_add_grows:
  assumes ok: "buffer_ok b" and n: "0 < n" "n \<le> length bs" "len b + n + 17 < 2 ^ 31"
  shows "grows_to h (len b + n + 17) b (buf_str b @ take n bs) (http2d_buffer_add h b (Ext bs) n)"
proof -
  have bb: "len b \<le> bsize b" "bsize b < 2 ^ 31" using buffer_ok_bounds [OF ok] by auto
  have av: "sub32 (bsize b) (len b) = bsize b - len b" "u64 (Suc n) = Suc n"
      "sext64 (bsize b - len b) = bsize b - len b"
      "bsize b - len b < Suc n \<Longrightarrow> sub64 n (bsize b - len b) = n - (bsize b - len b)"
      "u32 (len b + n) = len b + n"
    using bb n by (simp_all add: int_simps)
  show ?thesis using ok n(3)
  proof (cases rule: reserve [where h = h])
    case nomem
    with n show ?thesis by (simp add: http2d_buffer_add_def av grows_to_def Let_def)
  next
    case (room b1 p)
    have rep: "buf_rep (b1\<lparr>buf := Some (put_tail p (len b) (take n bs)), len := len b + n\<rparr>)
        (buf_str b @ take n bs)"
      using put_tail_rep [of b1 p "buf_str b" "take n bs"] room ok n by simp
    show ?thesis
      using rep put_tail_eqs [of "len b" "take n bs" p] room n av
      by (cases "bsize b - len b < n + 1")
        (simp_all add: http2d_buffer_add_def Let_def memcpy_src_def blk_read_in grows_to_def)
  qed
qed

lemma http2d_buffer_add_char_n_grows:
  assumes ok: "buffer_ok b" and n: "0 < n" "len b + n + 17 < 2 ^ 31"
  shows "grows_to h (len b + n + 17) b (buf_str b @ replicate n c)
           (http2d_buffer_add_char_n h b c (int n))"
proof -
  have bb: "len b \<le> bsize b" "bsize b < 2 ^ 31" using buffer_ok_bounds [OF ok] by auto
  have av: "s32 (sub32 (bsize b) (len b)) = int (bsize b - len b)"
      "bsize b - len b < n + 1 \<Longrightarrow>
       nat ((int n - int (bsize b - len b)) mod 2 ^ 64) = n - (bsize b - len b)"
      "u32 (len b + n) = len b + n" "int (bsize b - len b) < int n + 1 \<longleftrightarrow> bsize b - len b < n + 1"
    using bb n by (simp_all add: int_simps, linarith)
  show ?thesis using ok n(2)
  proof (cases rule: reserve [where h = h])
    case nomem
    with n av(2) show ?thesis
      by (simp add: http2d_buffer_add_char_n_def av grows_to_def Let_def)
  next
    case (room b1 p)
    have rep: "buf_rep (b1\<lparr>buf := Some (put_tail p (len b) (replicate n c)), len := len b + n\<rparr>)
        (buf_str b @ replicate n c)"
      using put_tail_rep [of b1 p "buf_str b" "replicate n c"] room ok by simp
    show ?thesis
      using rep put_tail_eqs [of "len b" "replicate n c" p] room n av
      by (cases "bsize b - len b < n + 1")
        (simp_all add: http2d_buffer_add_char_n_def Let_def grows_to_def)
  qed
qed

text \<open>Making room at the front: the old text moved up by \<open>n\<close>, the new one in front of it.\<close>

lemma prepend_block:
  assumes "take k p = s" "length s = k" "k + n < length p" "length bs = n"
  obtains m m2 m3 where "blk_move p n 0 k = Some m" "blk_write m 0 bs = Some m2"
    "blk_set m2 (k + n) 0 = Some m3" "length m3 = length p" "take (k + n) m3 = bs @ s"
    "m3 ! (k + n) = 0"
  using assms by (simp add: mem_simps add.commute nth_list_update)

lemma http2d_buffer_prepend_grows:
  assumes ok: "buffer_ok b" and n: "n \<le> length txt" "len b + n + 17 < 2 ^ 31"
  shows "grows_to h (len b + n + 17) b (take n txt @ buf_str b) (http2d_buffer_prepend h b txt n)"
proof -
  have bb: "len b \<le> bsize b" "bsize b < 2 ^ 31" using buffer_ok_bounds [OF ok] by auto
  have av: "sub32 (bsize b) (len b) = bsize b - len b" "u64 (Suc n) = Suc n"
      "sext64 (bsize b - len b) = bsize b - len b"
      "bsize b - len b < Suc n \<Longrightarrow> sub64 n (bsize b - len b) = n - (bsize b - len b)"
      "u32 (len b + n) = len b + n"
    using bb n by (simp_all add: int_simps)
  show ?thesis using ok n(2)
  proof (cases rule: reserve [where h = h])
    case nomem
    with n show ?thesis by (simp add: http2d_buffer_prepend_def av grows_to_def Let_def)
  next
    case (room b1 p)
    obtain m m2 m3 where m: "blk_move p n 0 (len b) = Some m" "blk_write m 0 (take n txt) = Some m2"
        "blk_set m2 (len b + n) 0 = Some m3" "length m3 = length p"
        "take (len b + n) m3 = take n txt @ buf_str b" "m3 ! (len b + n) = 0"
      by (rule prepend_block [of "len b" p "buf_str b" n "take n txt"]) (use room ok n in auto)
    have "buf_rep (b1\<lparr>buf := Some m3, len := len b + n\<rparr>) (take n txt @ buf_str b)"
      using m room ok n by (intro buf_repI [where m = m3]) (auto simp: add.commute)
    with room m n av show ?thesis
      by (cases "bsize b - len b < n + 1")
        (simp_all add: http2d_buffer_prepend_def Let_def blk_read_in grows_to_def)
  qed
qed

lemma http2d_buffer_add_char_grows:
  assumes ok: "buffer_ok b" and n: "bsize b + 18 < 2 ^ 31"
  shows "grows_to h (bsize b + 18) b (buf_str b @ [c]) (http2d_buffer_add_char h b c)"
proof -
  have bb: "len b \<le> bsize b" using buffer_ok_bounds [OF ok] by auto
  have u: "u32 (Suc (len b)) = Suc (len b)" using bb n by (simp add: int_simps)
  have set2: "\<exists>m. blk_set p (len b) c = Some m \<and> blk_set m (Suc (len b)) 0 = Some (put_tail p (len b) [c])"
    if "Suc (len b) < length p" for p
    using that by (simp add: mem_simps put_tail_def upd_conv_take_nth_drop)
  show ?thesis
  proof (cases "Suc (len b) < bsize b")
    case True
    then obtain p where p: "buf b = Some p"
      using ok by (cases "buf b") (auto simp: buffer_ok_NULL)
    with ok True have "bsize b \<le> length p" by (simp add: buffer_ok_Some)
    with True show ?thesis
      using put_tail_rep [OF p, of "buf_str b" "[c]"] set2 [of p] ok n p
      by (auto simp: http2d_buffer_add_char_def u Let_def grows_to_def buf_str_def)
  next
    case full: False
    show ?thesis
    proof (cases "malloc_ok h (bsize b + 18)")
      case False
      with full n show ?thesis
        using realloc_inc_bufsize_nomem [of b 1 h]
        by (simp add: http2d_buffer_add_char_def u Let_def grows_to_def add.commute)
    next
      case True
      obtain p where "realloc_inc_bufsize h b 1 = (ret_ok, b\<lparr>buf := Some p, bsize := bsize b + 18\<rparr>)"
          "length p = bsize b + 18" "take (len b) p = buf_str b"
        by (rule realloc_inc_bufsize_ok [OF ok, of 1 h]) (use n True in \<open>simp_all add: add.commute\<close>)
      then show ?thesis
        using put_tail_rep [of "b\<lparr>buf := Some p, bsize := bsize b + 18\<rparr>" p "buf_str b" "[c]"]
          set2 [of p] full n ok bb
        by (auto simp: http2d_buffer_add_char_def u Let_def grows_to_def)
    qed
  qed
qed

subsection \<open>Reserving memory, emptying, copying\<close>

lemma http2d_buffer_ensure_size_ok:
  assumes ok: "buffer_ok b" and n: "n < 2 ^ 31" and m: "malloc_ok h n"
  obtains b' where "http2d_buffer_ensure_size h b n = (ret_ok, b')" "buffer_ok b'"
    "buf_str b' = buf_str b" "len b' = len b" "n \<le> bsize b'"
    "buf b \<noteq> None \<and> buffer_term b \<Longrightarrow> buffer_term b'"
    "0 < n \<or> buf b \<noteq> None \<Longrightarrow> buf b' \<noteq> None" "bsize b' = max (bsize b) n"
proof -
  have u: "u32 n = n" using n by (simp add: int_simps)
  consider (fits) "n \<le> bsize b" | (new) "bsize b < n" "buf b = None"
    | (old) p where "bsize b < n" "buf b = Some p" by force
  then show thesis
  proof cases
    case fits
    with ok show thesis
      by (intro that [of b]) (auto simp: http2d_buffer_ensure_size_def buffer_ok_def split: option.splits)
  next
    case new
    obtain p where p: "malloc h n = Some p" "length p = n"
      using m length_malloc by (auto simp: malloc_def)
    from new ok p u n show thesis
      by (intro that [of "b\<lparr>buf := Some p, bsize := n\<rparr>"])
        (auto simp: http2d_buffer_ensure_size_def buffer_ok_def buf_str_def)
  next
    case (old p)
    obtain q where q: "realloc h (Some p) n = Some q" "length q = n"
      using m length_realloc by (auto simp: realloc_def)
    have lp: "len b < bsize b" "bsize b \<le> length p" using ok old by (auto simp: buffer_ok_Some)
    have t: "take (len b) q = take (len b) p" "q ! len b = p ! len b"
      using take_realloc [OF q(1), of "len b"] take_realloc [OF q(1), of "Suc (len b)"] lp old q(2)
        nth_take [of "len b" "Suc (len b)" q] nth_take [of "len b" "Suc (len b)" p] by auto
    from old ok q u n t lp show thesis
      by (intro that [of "b\<lparr>buf := Some q, bsize := n\<rparr>"])
        (auto simp: http2d_buffer_ensure_size_def buffer_ok_def buf_str_def buffer_term_def)
  qed
qed

lemma http2d_buffer_ensure_size_nomem:
  "bsize b < n \<Longrightarrow> \<not> malloc_ok h n \<Longrightarrow> http2d_buffer_ensure_size h b n = (ret_nomem, b)"
  by (auto simp: http2d_buffer_ensure_size_def malloc_def realloc_def)

lemma http2d_buffer_ensure_addlen_ok:
  assumes ok: "buffer_ok b" and n: "len b + n + 1 < 2 ^ 31" and m: "malloc_ok h (len b + n + 1)"
  obtains b' where "http2d_buffer_ensure_addlen h b n = (ret_ok, b')" "buffer_ok b'"
    "buf_str b' = buf_str b" "len b' = len b" "len b + n < bsize b'" "buf b' \<noteq> None"
proof (cases "len b + n < bsize b")
  case True
  with ok n show thesis
    by (intro that [of b]) (auto simp: http2d_buffer_ensure_addlen_def u64_def buffer_ok_def split: option.splits)
next
  case False
  obtain b' where "http2d_buffer_ensure_size h b (len b + n + 1) = (ret_ok, b')" "buffer_ok b'"
    "buf_str b' = buf_str b" "len b' = len b" "len b + n + 1 \<le> bsize b'" "buf b' \<noteq> None"
    using http2d_buffer_ensure_size_ok [OF ok n m] by (metis add_gr_0 zero_less_one)
  with False n show thesis
    by (intro that [of b']) (auto simp: http2d_buffer_ensure_addlen_def u64_def)
qed

lemma http2d_buffer_clean_rep:
  assumes "buffer_ok b"
  obtains b' where "http2d_buffer_clean b = Some b'" "buf_rep b' []" "bsize b' = bsize b"
    "buf b' = None \<longleftrightarrow> buf b = None"
proof (cases "buf b")
  case None
  with assms show thesis
    by (intro that [of "b\<lparr>len := 0\<rparr>"])
      (auto simp: http2d_buffer_clean_def buf_rep_def buffer_ok_def buffer_term_def buf_str_def)
next
  case (Some m)
  with assms have "0 < length m" by (auto simp: buffer_ok_def)
  with Some assms show thesis
    by (intro that [of "b\<lparr>buf := Some (m[0 := 0]), len := 0\<rparr>"])
      (auto simp: http2d_buffer_clean_def buf_rep_def buffer_ok_def buffer_term_def buf_str_def mem_simps)
qed

lemma http2d_buffer_mrproper_rep: "snd (http2d_buffer_mrproper b) = HTTP2D_BUF_INIT"
  by (simp add: http2d_buffer_mrproper_def HTTP2D_BUF_INIT_def Let_def)

lemma buf_rep_INIT [simp]: "buf_rep HTTP2D_BUF_INIT []"
  by (simp add: buf_rep_def HTTP2D_BUF_INIT_def buffer_ok_def buffer_term_def buf_str_def)

lemma http2d_buffer_swap_buffers_eq: "http2d_buffer_swap_buffers a b = (b, a)"
  by (simp add: http2d_buffer_swap_buffers_def)

lemma buf_rep_lit:
  "length s < 2 ^ 31 - 1 \<Longrightarrow> buf_rep \<lparr>buf = Some (lit s @ [0]), bsize = length s + 1, len = length s\<rparr> (lit s)"
  by (intro buf_repI [where m = "lit s @ [0]"]) (auto simp: nth_append)

lemma http2d_buffer_fake_str_rep: "length s < 2 ^ 31 - 1 \<Longrightarrow> buf_rep (http2d_buffer_fake_str s) (lit s)"
  using buf_rep_lit [of s] by (simp add: http2d_buffer_fake_str_def http2d_buffer_fake_def int_simps)

lemma HTTP2D_BUF_INIT_FAKE_rep: "length s < 2 ^ 31 - 1 \<Longrightarrow> buf_rep (HTTP2D_BUF_INIT_FAKE s) (lit s)"
  using buf_rep_lit [of s] by (simp add: HTTP2D_BUF_INIT_FAKE_def)

lemma http2d_buffer_add_rep:
  assumes "buf_rep b s" "n \<le> length bs" "length s + n + 17 < 2 ^ 31"
  shows "grows_to h (length s + n + 17) b (s @ take n bs) (http2d_buffer_add h b (Ext bs) n)"
proof (cases "n = 0")
  case True
  with assms show ?thesis by (simp add: http2d_buffer_add_def grows_to_def)
next
  case False
  with assms http2d_buffer_add_grows [of b n bs h] show ?thesis
    by (auto simp: buf_rep_def)
qed

lemma grows_to_total:
  assumes "grows_to h n b s r" "malloc_ok h n"
  obtains b' where "r = Some (ret_ok, b')" "buf_rep b' s"
  using assms by (auto simp: grows_to_def)

lemma buf_rep_fun: "buf_rep b s \<Longrightarrow> buf_rep b t \<Longrightarrow> s = t"
  by (simp add: buf_rep_def)

lemma buf_rep_read:
  assumes "buf_rep b s" "buf b = Some m"
  shows "take (length s) m = s" "length s < length m" "m ! length s = 0"
  using assms by (auto simp: buf_rep_def buffer_ok_def buffer_term_def buf_str_def)

lemma buf_rep_empty: "buf_rep b s \<Longrightarrow> http2d_buffer_is_empty b \<longleftrightarrow> s = []"
  by (auto simp: http2d_buffer_is_empty_def dest: buf_rep_len)

lemma http2d_buffer_add_buffer_rep:
  assumes "buf_rep b s" "buf_rep b2 t" "length s + length t + 17 < 2 ^ 31"
  shows "grows_to h (length s + length t + 17) b (s @ t) (http2d_buffer_add_buffer h b b2)"
proof (cases "buf b2")
  case None
  with assms have "len b2 = 0" "t = []" by (auto simp: buf_rep_def buffer_ok_def buf_str_def)
  with assms show ?thesis
    by (simp add: http2d_buffer_add_buffer_def http2d_buffer_add_def grows_to_def)
next
  case (Some m)
  with assms http2d_buffer_add_rep [OF assms(1), of "length t" m h] buf_rep_read [OF assms(2)]
  show ?thesis
    by (simp add: http2d_buffer_add_buffer_def buf_ptr_def buf_rep_len)
qed

subsection \<open>The interface the other components use\<close>

text \<open>
  A text store: something that can be emptied and appended to. The clients of the buffer
  (the header parser, the header renderer of a SPDY request, the write queue of a
  connection) rely on these laws only.
\<close>

locale text_store =
  fixes rep :: "'b \<Rightarrow> byte list \<Rightarrow> bool"
    and clean :: "'b \<Rightarrow> 'b option"
    and add :: "'b \<Rightarrow> byte list \<Rightarrow> (ret_t \<times> 'b) option"
    and limit :: nat
  assumes rep_unique: "rep b s \<Longrightarrow> rep b t \<Longrightarrow> s = t"
    and clean_law: "rep b s \<Longrightarrow> \<exists>b'. clean b = Some b' \<and> rep b' []"
    and add_law: "rep b s \<Longrightarrow> length s + length t < limit \<Longrightarrow>
      \<exists>b'. add b t = Some (ret_ok, b') \<and> rep b' (s @ t)"
begin

text \<open>Replacing the text: the pair of calls the header parser makes for each field.\<close>

lemma replace_text:
  assumes "rep b s" "length t < limit"
  shows "\<exists>b1 b2. clean b = Some b1 \<and> add b1 t = Some (ret_ok, b2) \<and> rep b2 t"
proof -
  obtain b1 where b1: "clean b = Some b1" "rep b1 []" using clean_law [OF assms(1)] by blast
  then show ?thesis using add_law [of b1 "[]" t] assms(2) by auto
qed

text \<open>Appending a list of pieces one after the other, stopping at the first that fails.\<close>

fun add_all :: "'b \<Rightarrow> byte list list \<Rightarrow> 'b option" where
  "add_all b [] = Some b"
| "add_all b (t # ts) =
     (case add b t of None \<Rightarrow> None
      | Some (r, b') \<Rightarrow> if r = ret_ok then add_all b' ts else None)"

lemma add_all_concat:
  "rep b s \<Longrightarrow> length s + length (concat ts) < limit \<Longrightarrow>
   \<exists>b'. add_all b ts = Some b' \<and> rep b' (s @ concat ts)"
proof (induction ts arbitrary: b s)
  case Nil
  then show ?case by simp
next
  case (Cons t ts)
  obtain b' where b': "add b t = Some (ret_ok, b')" "rep b' (s @ t)"
    using add_law [of b s t] Cons.prems by auto
  then show ?case using Cons.IH [of b' "s @ t"] Cons.prems by auto
qed

end

text \<open>The heaps that grant every request.\<close>

definition total_heap :: "(nat \<Rightarrow> byte) \<Rightarrow> heap" where
  "total_heap f = \<lparr>malloc_ok = (\<lambda>_. True), fresh = f\<rparr>"

lemma malloc_ok_total [simp]: "malloc_ok (total_heap f) n"
  by (simp add: total_heap_def)

text \<open>Appending a whole byte string held in memory of the caller.\<close>

definition add_bytes :: "heap \<Rightarrow> buffer \<Rightarrow> byte list \<Rightarrow> (ret_t \<times> buffer) option" where
  "add_bytes h b t = http2d_buffer_add h b (Ext t) (length t)"

interpretation bstore: text_store buf_rep http2d_buffer_clean "add_bytes (total_heap f)" "2 ^ 31 - 17"
  for f
proof unfold_locales
  fix b s t
  show "s = t" if "buf_rep b s" "buf_rep b t" using that by (rule buf_rep_fun)
next
  fix b s
  show "\<exists>b'. http2d_buffer_clean b = Some b' \<and> buf_rep b' []" if "buf_rep b s"
    using that http2d_buffer_clean_rep [of b] by (metis buf_rep_def)
next
  fix b s t
  show "\<exists>b'. add_bytes (total_heap f) b t = Some (ret_ok, b') \<and> buf_rep b' (s @ t)"
    if "buf_rep b s" "length s + length t < 2 ^ 31 - 17"
    using http2d_buffer_add_rep [OF that(1), of "length t" t "total_heap f"] that(2)
    by (auto simp: add_bytes_def grows_to_def)
qed

subsection \<open>Properties\<close>

text \<open>C33: appending \<open>n\<close> bytes to a buffer that holds \<open>s\<close> (\<open>http2d_buffer_add\<close>) never touches
  memory outside the chunk and either returns \<open>ret_ok\<close> with a well-formed, zero-terminated
  buffer that holds the old text followed by the new bytes, or returns \<open>ret_nomem\<close> with the
  buffer unchanged, and that only if the allocator refused the \<open>length s + n + 17\<close> bytes asked
  for.\<close>

theorem http2d_buffer_add_correct:
  assumes "buf_rep b s" "n \<le> length bs" "length s + n + 17 < 2 ^ 31"
  shows "(\<exists>b'. http2d_buffer_add h b (Ext bs) n = Some (ret_ok, b') \<and> buf_rep b' (s @ take n bs)) \<or>
    http2d_buffer_add h b (Ext bs) n = Some (ret_nomem, b) \<and> \<not> malloc_ok h (length s + n + 17)"
  using http2d_buffer_add_rep [OF assms, of h] by (simp add: grows_to_def)

theorem http2d_buffer_add_correct_witness:
  "\<exists>b'. http2d_buffer_add (total_heap (\<lambda>_. 170)) (http2d_buffer_fake_str ''GET '') (Ext (lit ''/index.html'')) 6
     = Some (ret_ok, b') \<and> buf_rep b' (lit ''GET /index'')"
  using http2d_buffer_add_correct [OF http2d_buffer_fake_str_rep [of "''GET ''"], of 6 "lit ''/index.html''" "total_heap (\<lambda>_. 170)"]
  by (simp add: lit_def)

text \<open>prepending (\<open>http2d_buffer_prepend\<close>): the old text is moved up without being
  overwritten and the new bytes come before it, or the buffer is unchanged and memory was
  refused.\<close>

theorem http2d_buffer_prepend_correct:
  assumes "buf_rep b s" "n \<le> length bs" "length s + n + 17 < 2 ^ 31"
  shows "(\<exists>b'. http2d_buffer_prepend h b bs n = Some (ret_ok, b') \<and> buf_rep b' (take n bs @ s)) \<or>
    http2d_buffer_prepend h b bs n = Some (ret_nomem, b) \<and> \<not> malloc_ok h (length s + n + 17)"
proof -
  have "buffer_ok b" "len b = length s" "buf_str b = s"
    using assms(1) by (auto simp: buf_rep_def)
  with http2d_buffer_prepend_grows [of b n bs h] assms(2,3) show ?thesis by (simp add: grows_to_def)
qed

theorem http2d_buffer_prepend_correct_witness:
  "\<exists>b'. http2d_buffer_prepend (total_heap (\<lambda>_. 170)) (http2d_buffer_fake_str ''index'') (lit ''/'') 1
     = Some (ret_ok, b') \<and> buf_rep b' (lit ''/index'')"
  using http2d_buffer_prepend_correct [OF http2d_buffer_fake_str_rep [of "''index''"], of 1 "lit ''/''" "total_heap (\<lambda>_. 170)"]
  by (simp add: lit_def)

end
