(* ===== verification/Buffer_Edit.thy ===== *)
theory Buffer_Edit
  imports Buffer
begin

text \<open>
  The editing operations of \<^verbatim>\<open>src/src/buffer.c\<close>: slices, shifting and cutting text,
  replacing characters, comparing, trimming, inserting, comma marks, \<open>http2d_buffer_multiply\<close>
  and reading from a file descriptor. Every loop of the C text is a recursive function over
  the same index variables, with each access to the chunk checked.
\<close>

subsection \<open>Slices and queries\<close>

definition HTTP2D_BUF_SLIDE_NONE :: int where
  "HTTP2D_BUF_SLIDE_NONE = - (2 ^ 31)"

text \<open>\<open>begin\<close> and \<open>end\<close> of the C text are called \<open>beg\<close> and \<open>fin\<close>. The first \<open>None\<close> of the
  result of \<open>slice_end\<close> stands for the early \<open>return ret_ok\<close>.\<close>

definition slice_end :: "nat \<Rightarrow> int \<Rightarrow> int option" where
  "slice_end n fin =
     (if fin = HTTP2D_BUF_SLIDE_NONE then Some (int n)
      else if fin > 0 then Some fin
      else if - fin > int n then Some (int n - (- fin))
      else None)"

definition slice_begin :: "nat \<Rightarrow> int \<Rightarrow> int" where
  "slice_begin n beg =
     (if beg = HTTP2D_BUF_SLIDE_NONE then 0
      else if beg \<ge> 0 then (if beg > int n then int n else beg)
      else if - beg < int n then int n - beg
      else 0)"

definition http2d_buffer_add_buffer_slice ::
  "heap \<Rightarrow> buffer \<Rightarrow> buffer \<Rightarrow> int \<Rightarrow> int \<Rightarrow> (ret_t \<times> buffer) option" where
  "http2d_buffer_add_buffer_slice h b b2 beg fin =
     (if http2d_buffer_is_empty b2 then Some (ret_ok, b)
      else case slice_end (len b2) fin of None \<Rightarrow> Some (ret_ok, b)
        | Some pos_end \<Rightarrow>
           (let pos_begin = slice_begin (len b2) beg
            in if pos_begin < 0 \<or> pos_end < 0 \<or> pos_end > int (len b2) \<or> pos_end < pos_begin
               then Some (ret_ok, b)
               else case buf b2 of None \<Rightarrow> None
                 | Some m \<Rightarrow>
                     http2d_buffer_add h b (Ext (drop (nat pos_begin) m)) (nat (pos_end - pos_begin))))"

definition http2d_buffer_is_ending :: "buffer \<Rightarrow> byte \<Rightarrow> bool option" where
  "http2d_buffer_is_ending b c =
     (if http2d_buffer_is_empty b then Some False
      else do { m \<leftarrow> buf b; x \<leftarrow> blk_get m (len b - 1); Some (x = c) })"

definition http2d_buffer_end_char :: "buffer \<Rightarrow> byte option" where
  "http2d_buffer_end_char b =
     (case buf b of None \<Rightarrow> Some 0
      | Some m \<Rightarrow> if len b \<le> 0 then Some 0 else blk_get m (len b - 1))"

subsection \<open>Cutting\<close>

definition http2d_buffer_move_to_begin :: "buffer \<Rightarrow> nat \<Rightarrow> (ret_t \<times> buffer) option" where
  "http2d_buffer_move_to_begin b pos =
     (if pos \<ge> len b then do { b \<leftarrow> http2d_buffer_clean b; Some (ret_ok, b) }
      else do {
        m \<leftarrow> buf b;
        m \<leftarrow> blk_move m 0 pos ((len b - pos) + 1);
        Some (ret_ok, b\<lparr>buf := Some m, len := len b - pos\<rparr>) })"

definition http2d_buffer_drop_ending :: "buffer \<Rightarrow> nat \<Rightarrow> (ret_t \<times> buffer) option" where
  "http2d_buffer_drop_ending b num_chars =
     (case buf b of None \<Rightarrow> Some (ret_ok, b)
      | Some m \<Rightarrow>
          (let num = min num_chars (len b)
           in do {
             m \<leftarrow> blk_set m (len b - num) 0;
             Some (ret_ok, b\<lparr>buf := Some m, len := len b - num\<rparr>) }))"

text \<open>The count of the \<open>memmove\<close> is a pointer difference: a negative one becomes a huge
  \<open>size_t\<close>.\<close>

definition http2d_buffer_remove_chunk :: "buffer \<Rightarrow> nat \<Rightarrow> nat \<Rightarrow> (ret_t \<times> buffer) option" where
  "http2d_buffer_remove_chunk b from n =
     (if n = len b then do { b \<leftarrow> http2d_buffer_clean b; Some (ret_ok, b) }
      else do {
        m \<leftarrow> buf b;
        m \<leftarrow> blk_move m from (from + n) (nat ((int (len b) - int (from + n) + 1) mod 2 ^ 64));
        Some (ret_ok, b\<lparr>buf := Some m, len := sub32 (len b) n\<rparr>) })"

subsection \<open>Loops over the characters\<close>

text \<open>\<open>for (i=0; i < len; i++)\<close> with a conditional store to \<open>buf[i]\<close>.\<close>

function each_char :: "(byte \<Rightarrow> byte option) \<Rightarrow> block \<Rightarrow> nat \<Rightarrow> nat \<Rightarrow> block option" where
  "each_char f m i n =
     (if i < n then do {
        c \<leftarrow> blk_get m i;
        m \<leftarrow> (case f c of None \<Rightarrow> Some m | Some v \<Rightarrow> blk_set m i v);
        each_char f m (i + 1) n }
      else Some m)"
  by pat_completeness auto
termination
  by (relation "measure (\<lambda>(f, m, i, n). n - i)") auto

declare each_char.simps [simp del]

definition http2d_buffer_swap_chars :: "buffer \<Rightarrow> byte \<Rightarrow> byte \<Rightarrow> (ret_t \<times> buffer) option" where
  "http2d_buffer_swap_chars b x y =
     (case buf b of None \<Rightarrow> Some (ret_ok, b)
      | Some m \<Rightarrow> do {
          m \<leftarrow> each_char (\<lambda>c. if c = x then Some y else None) m 0 (len b);
          Some (ret_ok, b\<lparr>buf := Some m\<rparr>) })"

text \<open>\<open>char\<close> is signed, so bytes from 128 on lie below \<open>'A'\<close> and are left alone; on the
  unsigned bytes of the model the test reads the same.\<close>

definition http2d_buffer_to_lowcase :: "buffer \<Rightarrow> (ret_t \<times> buffer) option" where
  "http2d_buffer_to_lowcase b =
     (if len b = 0 then Some (ret_ok, b)
      else do {
        m \<leftarrow> buf b;
        m \<leftarrow> each_char (\<lambda>c. if chr CHR ''A'' \<le> c \<and> c \<le> chr CHR ''Z'' then Some (c + 32) else None)
               m 0 (len b);
        Some (ret_ok, b\<lparr>buf := Some m\<rparr>) })"

text \<open>The \<open>do\<close> loop of \<open>http2d_buffer_remove_dups\<close>; \<open>a\<close> is the offset of the pointer.\<close>

function remove_dups_loop :: "byte \<Rightarrow> nat \<Rightarrow> block \<Rightarrow> nat \<Rightarrow> nat \<Rightarrow> (block \<times> nat) option" where
  "remove_dups_loop c n m a offset = do {
     x \<leftarrow> blk_get m a;
     y \<leftarrow> (if x = c then blk_get m (a + (offset + 1)) else Some (c + 1));
     (m, a, offset) \<leftarrow>
       (if x = c \<and> y = c then Some (m, a, offset + 1)
        else do {
          v \<leftarrow> blk_get m (a + 1 + offset);
          m \<leftarrow> blk_set m (a + 1) v;
          Some (m, a + 1, offset) });
     (if a + offset < n \<and> offset + 1 < n then remove_dups_loop c n m a offset
      else Some (m, offset)) }"
  by pat_completeness auto
termination
  by (relation "measure (\<lambda>(c, n, m, a, offset). n - (a + offset))")
    (auto split: if_splits Option.bind_splits)

declare remove_dups_loop.simps [simp del]

definition http2d_buffer_remove_dups :: "buffer \<Rightarrow> byte \<Rightarrow> (ret_t \<times> buffer) option" where
  "http2d_buffer_remove_dups b c =
     (if len b < 2 then Some (ret_ok, b)
      else do {
        m \<leftarrow> buf b;
        (m, offset) \<leftarrow> remove_dups_loop c (len b) m 0 0;
        m \<leftarrow> blk_set m (len b - offset) 0;
        Some (ret_ok, b\<lparr>buf := Some m, len := len b - offset\<rparr>) })"

definition is_blank :: "byte \<Rightarrow> bool" where
  "is_blank c \<longleftrightarrow> c = chr CHR '' '' \<or> c = 9 \<or> c = 13 \<or> c = 10"

function trim_start :: "block \<Rightarrow> nat \<Rightarrow> nat \<Rightarrow> nat option" where
  "trim_start m n s =
     (if s < n then do {
        c \<leftarrow> blk_get m s;
        (if \<not> is_blank c then Some s else trim_start m n (s + 1)) }
      else Some s)"
  by pat_completeness auto
termination
  by (relation "measure (\<lambda>(m, n, s). n - s)") auto

function trim_end :: "block \<Rightarrow> nat \<Rightarrow> nat \<Rightarrow> nat \<Rightarrow> nat option" where
  "trim_end m n s e =
     (if e < n - s then do {
        c \<leftarrow> blk_get m (n - (e + 1));
        (if \<not> is_blank c then Some e else trim_end m n s (e + 1)) }
      else Some e)"
  by pat_completeness auto
termination
  by (relation "measure (\<lambda>(m, n, s, e). n - e)") auto

declare trim_start.simps [simp del] trim_end.simps [simp del]

definition http2d_buffer_trim :: "buffer \<Rightarrow> (ret_t \<times> buffer) option" where
  "http2d_buffer_trim b =
     (if len b \<le> 0 then Some (ret_ok, b)
      else do {
        m \<leftarrow> buf b;
        s \<leftarrow> trim_start m (len b) 0;
        e \<leftarrow> trim_end m (len b) s 0;
        (let n = len b - (s + e)
         in do {
           m \<leftarrow> blk_move m 0 s n;
           m \<leftarrow> blk_set m n 0;
           Some (ret_ok, b\<lparr>buf := Some m, len := n\<rparr>) }) })"

subsection \<open>Comparing\<close>

text \<open>\<open>strncmp\<close> on the bytes as unsigned characters, and \<open>strncasecmp\<close> in the C locale. Only
  the sign of the result is documented: the model returns \<open>-1\<close>, \<open>0\<close> or \<open>1\<close>.\<close>

definition tolower :: "byte \<Rightarrow> byte" where
  "tolower c = (if chr CHR ''A'' \<le> c \<and> c \<le> chr CHR ''Z'' then c + 32 else c)"

fun strncmp_by :: "(byte \<Rightarrow> byte) \<Rightarrow> block \<Rightarrow> block \<Rightarrow> nat \<Rightarrow> int option" where
  "strncmp_by f _ _ 0 = Some 0"
| "strncmp_by f (x # xs) (y # ys) (Suc n) =
     (if f x < f y then Some (- 1) else if f y < f x then Some 1
      else if x = 0 then Some 0 else strncmp_by f xs ys n)"
| "strncmp_by f _ _ (Suc n) = None"

text \<open>\<open>A->len - B->len\<close> is an \<open>unsigned int\<close> converted to the signed result.\<close>

definition cmp_by :: "(byte \<Rightarrow> byte) \<Rightarrow> buffer \<Rightarrow> buffer \<Rightarrow> int option" where
  "cmp_by f a b =
     (if len a > len b then Some (s32 (len a - len b))
      else if len b > len a then Some (s32 (sub32 0 (len b - len a)))
      else if len b = 0 then Some 0
      else do { x \<leftarrow> buf a; y \<leftarrow> buf b; strncmp_by f x y (len b) })"

definition http2d_buffer_cmp_buf :: "buffer \<Rightarrow> buffer \<Rightarrow> int option" where
  "http2d_buffer_cmp_buf a b = cmp_by (\<lambda>c. c) a b"

definition http2d_buffer_case_cmp_buf :: "buffer \<Rightarrow> buffer \<Rightarrow> int option" where
  "http2d_buffer_case_cmp_buf a b = cmp_by tolower a b"

definition http2d_buffer_cmp :: "buffer \<Rightarrow> block \<Rightarrow> nat \<Rightarrow> int option" where
  "http2d_buffer_cmp b str n = http2d_buffer_cmp_buf b (http2d_buffer_fake (Some str) n)"

definition http2d_buffer_case_cmp :: "buffer \<Rightarrow> block \<Rightarrow> nat \<Rightarrow> int option" where
  "http2d_buffer_case_cmp b str n = http2d_buffer_case_cmp_buf b (http2d_buffer_fake (Some str) n)"

definition http2d_buffer_cnt_spn :: "buffer \<Rightarrow> nat \<Rightarrow> byte list \<Rightarrow> nat option" where
  "http2d_buffer_cnt_spn b offset str =
     (case buf b of None \<Rightarrow> Some 0
      | Some m \<Rightarrow> if len b \<le> offset then Some 0
                  else do { s \<leftarrow> cstr m offset; Some (strspn s str) })"

definition http2d_buffer_cnt_cspn :: "buffer \<Rightarrow> nat \<Rightarrow> byte list \<Rightarrow> nat option" where
  "http2d_buffer_cnt_cspn b offset str =
     (case buf b of None \<Rightarrow> Some 0
      | Some m \<Rightarrow> if len b \<le> offset then Some 0
                  else do { s \<leftarrow> cstr m offset; Some (strcspn s str) })"

subsection \<open>Inserting and multiplying\<close>

text \<open>The result of \<open>http2d_buffer_ensure_size\<close> is not looked at: when it fails the stores below
  run on the old chunk.\<close>

definition http2d_buffer_insert ::
  "heap \<Rightarrow> buffer \<Rightarrow> block \<Rightarrow> nat \<Rightarrow> nat \<Rightarrow> (ret_t \<times> buffer) option" where
  "http2d_buffer_insert h b str txt_len pos =
     (let (_, b) = http2d_buffer_ensure_size h b (u64 (len b + txt_len + 1))
      in do {
        m \<leftarrow> buf b;
        m \<leftarrow> blk_move m (pos + txt_len) pos (sub64 (len b) pos);
        bs \<leftarrow> blk_read str 0 txt_len;
        m \<leftarrow> blk_write m pos bs;
        (let n = u32 (len b + txt_len)
         in do {
           m \<leftarrow> blk_set m n 0;
           Some (ret_ok, b\<lparr>buf := Some m, len := n\<rparr>) }) })"

definition http2d_buffer_insert_buffer ::
  "heap \<Rightarrow> buffer \<Rightarrow> buffer \<Rightarrow> nat \<Rightarrow> (ret_t \<times> buffer) option" where
  "http2d_buffer_insert_buffer h b src pos =
     http2d_buffer_insert h b (case buf src of None \<Rightarrow> [] | Some m \<Rightarrow> m) (len src) pos"

text \<open>The loop of \<open>http2d_buffer_add_comma_marks\<close>: \<open>k\<close> iterations left, \<open>p\<close> the offset of the
  pointer, \<open>n\<close> the length.\<close>

fun comma_loop :: "nat \<Rightarrow> block \<Rightarrow> nat \<Rightarrow> nat \<Rightarrow> (block \<times> nat) option" where
  "comma_loop 0 m p n = Some (m, n)"
| "comma_loop (Suc k) m p n = do {
     m \<leftarrow> blk_move m (p + 1) p (n - p);
     m \<leftarrow> blk_set m p (chr CHR '','');
     comma_loop k m (p + 4) (n + 1) }"

definition http2d_buffer_add_comma_marks :: "heap \<Rightarrow> buffer \<Rightarrow> (ret_t \<times> buffer) option" where
  "http2d_buffer_add_comma_marks h b =
     (if buf b = None \<or> len b \<le> 3 then Some (ret_ok, b)
      else
        (let num = len b div 3; off = len b mod 3;
             (_, b) = http2d_buffer_ensure_size h b (u32 (len b + num + 2));
             (p, num) = (if off = 0 then (3, num - 1) else (off, num))
         in do {
           m \<leftarrow> buf b;
           (m, n) \<leftarrow> comma_loop num m p (len b);
           m \<leftarrow> blk_set m n 0;
           Some (ret_ok, b\<lparr>buf := Some m, len := n\<rparr>) }))"

text \<open>Every turn of the loop passes a pointer into the buffer's own chunk. The result of
  \<open>http2d_buffer_add\<close> is not looked at.\<close>

fun multiply_loop :: "heap \<Rightarrow> nat \<Rightarrow> nat \<Rightarrow> buffer \<Rightarrow> buffer option" where
  "multiply_loop h 0 n b = Some b"
| "multiply_loop h (Suc k) n b = do {
     (_, b) \<leftarrow> http2d_buffer_add h b (Own 0) n;
     multiply_loop h k n b }"

definition http2d_buffer_multiply :: "heap \<Rightarrow> buffer \<Rightarrow> int \<Rightarrow> (ret_t \<times> buffer) option" where
  "http2d_buffer_multiply h b num =
     (let initial_size = len b;
          (_, b) = http2d_buffer_ensure_size h b (nat ((int (len b) * num + 1) mod 2 ^ 32))
      in do { b \<leftarrow> multiply_loop h (nat num) initial_size b; Some (ret_ok, b) })"

subsection \<open>Reading from a descriptor\<close>

text \<open>The answers of successive \<open>read\<close> calls come from the system: an error number or the
  bytes received, at most as many as were asked for.\<close>

datatype errno = EINTR | EAGAIN | EWOULDBLOCK | EPIPE | EBADF | ECONNRESET | EIO | ENOTCONN | ETIMEDOUT
  | EHOSTUNREACH | EOTHER

fun read_retry :: "(errno + byte list) list \<Rightarrow> (errno + byte list) option" where
  "read_retry [] = None"
| "read_retry (r # rs) = (if r = Inl EINTR then read_retry rs else Some r)"

definition http2d_buffer_read_from_fd ::
  "heap \<Rightarrow> buffer \<Rightarrow> (errno + byte list) list \<Rightarrow> nat \<Rightarrow> (ret_t \<times> buffer \<times> nat option) option" where
  "http2d_buffer_read_from_fd h b answers sz =
     (let (_, b) = http2d_buffer_ensure_addlen h b sz
      in do {
        r \<leftarrow> read_retry answers;
        (case r of
           Inl e \<Rightarrow>
             (case e of EAGAIN \<Rightarrow> Some (ret_eagain, b, None)
              | EWOULDBLOCK \<Rightarrow> Some (ret_eagain, b, None)
              | EPIPE \<Rightarrow> Some (ret_eof, b, None)
              | EBADF \<Rightarrow> Some (ret_eof, b, None)
              | ECONNRESET \<Rightarrow> Some (ret_eof, b, None)
              | _ \<Rightarrow> Some (ret_error, b, None))
         | Inr bs \<Rightarrow>
             (if bs = [] then Some (ret_eof, b, None)
              else do {
                m \<leftarrow> buf b;
                m \<leftarrow> blk_write m (len b) (take sz bs);
                (let n = u32 (len b + length (take sz bs))
                 in do {
                   m \<leftarrow> blk_set m n 0;
                   Some (ret_ok, b\<lparr>buf := Some m, len := n\<rparr>, Some (length (take sz bs))) }) })) })"

subsection \<open>Facts about the edits\<close>

text \<open>How the proofs below take a represented buffer apart.\<close>

lemma buf_rep_cases:
  assumes "buf_rep b s"
  obtains (NULL) "buf b = None" "bsize b = 0" "len b = 0" "s = []"
  | (chunk) m where "buf b = Some m" "len b = length s" "length s < bsize b" "bsize b \<le> length m"
      "bsize b < 2 ^ 31" "take (length s) m = s" "m ! length s = 0"
proof (cases "buf b")
  case None
  with assms show thesis
    by (intro NULL) (auto simp: buf_rep_def buffer_ok_def buf_str_def)
next
  case (Some m)
  with assms buf_rep_len [OF assms] show thesis
    by (intro chunk [of m]) (auto simp: buf_rep_def buffer_ok_def buffer_term_def buf_str_def)
qed

lemma chunk_nth: "take (length s) m = s \<Longrightarrow> i < length s \<Longrightarrow> m ! i = s ! i"
  by (metis nth_take)

text \<open>Text and terminator as the prefix of the chunk: moving text moves its zero along.\<close>

lemma chunk_prefix: "take (length s) m = s \<Longrightarrow> length s < length m \<Longrightarrow> m ! length s = 0 \<Longrightarrow> take (Suc (length s)) m = s @ [0]"
  by (simp add: take_Suc_conv_app_nth)

lemma move_to_begin_rep:
  assumes "buf_rep b s"
  shows "\<exists>b'. http2d_buffer_move_to_begin b pos = Some (ret_ok, b') \<and> buf_rep b' (drop pos s) \<and> bsize b' = bsize b"
proof (cases "pos < length s")
  case False
  have "buffer_ok b" using assms by (simp add: buf_rep_def)
  then obtain b' where "http2d_buffer_clean b = Some b'" "buf_rep b' []" "bsize b' = bsize b"
    by (rule http2d_buffer_clean_rep)
  with False buf_rep_len [OF assms] show ?thesis
    by (simp add: http2d_buffer_move_to_begin_def)
next
  case True
  with assms show ?thesis
  proof (cases rule: buf_rep_cases)
    case (chunk m)
    define k where "k = length s - pos"
    have p: "take (Suc k) (drop pos m) = drop pos s @ [0]"
      using chunk_prefix [of s m] chunk True drop_take [of pos "Suc (length s)" m]
      by (simp add: k_def Suc_diff_le)
    define m' where "m' = (drop pos s @ [0]) @ drop (Suc k) m"
    have mv: "blk_move m 0 pos (Suc k) = Some m'" "length m' = length m"
      using chunk True p by (auto simp: blk_move_in m'_def k_def)
    have "buf_rep (b\<lparr>buf := Some m', len := k\<rparr>) (drop pos s)"
      using chunk True mv(2) by (intro buf_repI [where m = m']) (auto simp: m'_def k_def nth_append)
    with True chunk mv show ?thesis by (simp add: http2d_buffer_move_to_begin_def k_def)
  qed simp
qed

lemma cut_rep:
  assumes "buf_rep b s" "buf b = Some m" "k \<le> length s"
  shows "blk_set m k 0 = Some (m[k := 0])" "buf_rep (b\<lparr>buf := Some (m[k := 0]), len := k\<rparr>) (take k s)"
proof -
  have m: "len b = length s" "length s < bsize b" "bsize b \<le> length m" "bsize b < 2 ^ 31" "take (length s) m = s"
    using assms(1,2) by (auto elim: buf_rep_cases)
  show "blk_set m k 0 = Some (m[k := 0])" using m assms(3) by (simp add: blk_set_in)
  have "take k m = take k s" using assms(3) arg_cong [OF m(5), of "take k"] by (simp add: min_def)
  then show "buf_rep (b\<lparr>buf := Some (m[k := 0]), len := k\<rparr>) (take k s)"
    using m assms(3) by (intro buf_repI [where m = "m[k := 0]"]) (simp_all add: min_def)
qed

lemma drop_ending_rep:
  assumes "buf_rep b s"
  shows "\<exists>b'. http2d_buffer_drop_ending b n = Some (ret_ok, b') \<and> buf_rep b' (take (length s - n) s)"
  using assms
proof (cases rule: buf_rep_cases)
  case NULL
  with assms show ?thesis by (simp add: http2d_buffer_drop_ending_def)
next
  case (chunk m)
  have "length s - min n (length s) = length s - n" by simp
  with chunk cut_rep [OF assms chunk(1), of "length s - n"] show ?thesis
    by (simp add: http2d_buffer_drop_ending_def Let_def)
qed

lemma each_char_spec:
  "n \<le> length m \<Longrightarrow> i \<le> n \<Longrightarrow>
   each_char f m i n = Some (take i m @ map (\<lambda>c. case f c of None \<Rightarrow> c | Some v \<Rightarrow> v) (drop i (take n m)) @ drop n m)"
proof (induction f m i n rule: each_char.induct)
  case (1 f m i n)
  show ?case
  proof (cases "i < n")
    case True
    define g where "g = (\<lambda>c. case f c of None \<Rightarrow> c | Some v \<Rightarrow> v)"
    define m1 where "m1 = m[i := g (m ! i)]"
    have st: "(case f (m ! i) of None \<Rightarrow> Some m | Some v \<Rightarrow> blk_set m i v) = Some m1"
      using True 1 by (auto simp: m1_def g_def blk_set_in split: option.splits)
    have IH: "each_char f m1 (i + 1) n = Some (take (i + 1) m1 @ map g (drop (i + 1) (take n m1)) @ drop n m1)"
      unfolding g_def by (rule "1.IH" [OF True _ st]) (use 1 True in \<open>auto simp: blk_get_in m1_def\<close>)
    have "take (i + 1) m1 = take i m @ [g (m ! i)]"
      using True 1 take_Suc_conv_app_nth [of i m1] by (simp add: m1_def)
    moreover have "drop (i + 1) (take n m1) = drop (i + 1) (take n m)"
        "drop n m1 = drop n m"
      using True 1 by (auto simp: m1_def take_update_swap)
    ultimately have pt: "take (i + 1) m1 = take i m @ [g (m ! i)]"
        "drop (i + 1) (take n m1) = drop (i + 1) (take n m)" "drop n m1 = drop n m" by auto
    have dr: "drop i (take n m) = m ! i # drop (i + 1) (take n m)"
      using True 1 Cons_nth_drop_Suc [of i "take n m"] by simp
    have "each_char f m i n = each_char f m1 (i + 1) n"
      using True 1 st by (subst each_char.simps) (simp add: blk_get_in)
    then show ?thesis unfolding IH pt dr by (simp add: g_def)
  next
    case False
    with 1 show ?thesis by (subst each_char.simps) simp
  qed
qed

text \<open>A loop over all characters maps the text.\<close>

lemma each_char_rep:
  assumes "buf_rep b s" "buf b = Some m"
  obtains m' where "each_char f m 0 (len b) = Some m'"
    "buf_rep (b\<lparr>buf := Some m'\<rparr>) (map (\<lambda>c. case f c of None \<Rightarrow> c | Some v \<Rightarrow> v) s)"
  using assms(1)
proof (cases rule: buf_rep_cases)
  case (chunk m0)
  define m' where "m' = map (\<lambda>c. case f c of None \<Rightarrow> c | Some v \<Rightarrow> v) s @ drop (length s) m"
  have "each_char f m 0 (len b) = Some m'"
    using each_char_spec [of "length s" m 0 f] chunk assms(2) by (simp add: m'_def)
  moreover have "buf_rep (b\<lparr>buf := Some m'\<rparr>) (map (\<lambda>c. case f c of None \<Rightarrow> c | Some v \<Rightarrow> v) s)"
    using chunk assms(2) by (intro buf_repI [where m = m']) (auto simp: m'_def nth_append)
  ultimately show thesis by (rule that)
qed (use assms in simp)

lemma to_lowcase_rep:
  assumes "buf_rep b s"
  shows "\<exists>b'. http2d_buffer_to_lowcase b = Some (ret_ok, b') \<and> buf_rep b' (map tolower s)"
proof (cases "len b = 0")
  case True
  with assms buf_rep_len [OF assms] show ?thesis by (simp add: http2d_buffer_to_lowcase_def)
next
  case False
  then obtain m where m: "buf b = Some m" using assms by (auto elim: buf_rep_cases)
  define f where "f = (\<lambda>c. if chr CHR ''A'' \<le> c \<and> c \<le> chr CHR ''Z'' then Some (c + 32) else None)"
  have f: "(\<lambda>c. case f c of None \<Rightarrow> c | Some v \<Rightarrow> v) = tolower" by (auto simp: f_def tolower_def)
  obtain m' where "each_char f m 0 (len b) = Some m'" "buf_rep (b\<lparr>buf := Some m'\<rparr>) (map tolower s)"
    using each_char_rep [OF assms m, of f] unfolding f by blast
  with False m show ?thesis by (simp add: http2d_buffer_to_lowcase_def f_def)
qed

lemma swap_chars_rep:
  assumes "buf_rep b s"
  shows "\<exists>b'. http2d_buffer_swap_chars b x y = Some (ret_ok, b') \<and> buf_rep b' (map (\<lambda>c. if c = x then y else c) s)"
  using assms
proof (cases rule: buf_rep_cases)
  case NULL
  with assms show ?thesis by (simp add: http2d_buffer_swap_chars_def)
next
  case (chunk m)
  define f where "f = (\<lambda>c. if c = x then Some y else None)"
  have f: "(\<lambda>c. case f c of None \<Rightarrow> c | Some v \<Rightarrow> v) = (\<lambda>c. if c = x then y else c)" by (auto simp: f_def)
  obtain m' where "each_char f m 0 (len b) = Some m'" "buf_rep (b\<lparr>buf := Some m'\<rparr>) (map (\<lambda>c. if c = x then y else c) s)"
    using each_char_rep [OF assms chunk(1), of f] unfolding f by blast
  with chunk show ?thesis by (simp add: http2d_buffer_swap_chars_def f_def)
qed

lemma remove_chunk_rep:
  assumes "buf_rep b s" "from + n \<le> length s" "buf b \<noteq> None"
  shows "\<exists>b'. http2d_buffer_remove_chunk b from n = Some (ret_ok, b') \<and> buf_rep b' (take from s @ drop (from + n) s)"
proof (cases "n = length s")
  case True
  have "buffer_ok b" using assms by (simp add: buf_rep_def)
  then obtain b' where "http2d_buffer_clean b = Some b'" "buf_rep b' []" by (rule http2d_buffer_clean_rep)
  with True assms buf_rep_len [OF assms(1)] show ?thesis by (simp add: http2d_buffer_remove_chunk_def)
next
  case False
  from assms(1) show ?thesis
  proof (cases rule: buf_rep_cases)
    case (chunk m)
    define k where "k = length s - (from + n)"
    have cnt: "nat ((int (len b) - int (from + n) + 1) mod 2 ^ 64) = Suc k"
      using chunk assms(2) by (simp add: k_def mod_pos_pos_trivial of_nat_diff)
    have p: "take (Suc k) (drop (from + n) m) = drop (from + n) s @ [0]"
      using chunk_prefix [of s m] chunk assms(2) drop_take [of "from + n" "Suc (length s)" m]
      by (simp add: k_def Suc_diff_le)
    have t: "take from m = take from s" using assms(2) arg_cong [OF chunk(6), of "take from"] by (simp add: min_def)
    define m' where "m' = take from s @ (drop (from + n) s @ [0]) @ drop (from + Suc k) m"
    have mv: "blk_move m from (from + n) (Suc k) = Some m'" "length m' = length m"
      using chunk assms(2) p t by (auto simp: blk_move_in m'_def k_def)
    have "buf_rep (b\<lparr>buf := Some m', len := length s - n\<rparr>) (take from s @ drop (from + n) s)"
      using chunk assms(2) mv(2) by (intro buf_repI [where m = m']) (auto simp: m'_def k_def nth_append)
    moreover have "sub32 (len b) n = length s - n" using chunk assms(2) by (simp add: int_simps)
    ultimately show ?thesis using False chunk mv cnt
      unfolding http2d_buffer_remove_chunk_def by simp
  qed (use assms in simp)
qed

subsection \<open>Trimming\<close>

lemma trim_start_spec:
  "take n m = s \<Longrightarrow> length s = n \<Longrightarrow> i \<le> n \<Longrightarrow>
   trim_start m n i = Some (i + length (takeWhile is_blank (drop i s)))"
proof (induction m n i rule: trim_start.induct)
  case (1 m n i)
  show ?case
  proof (cases "i < n")
    case True
    have i: "blk_get m i = Some (s ! i)" "drop i s = s ! i # drop (Suc i) s"
      using 1 True chunk_nth [of s m i] by (auto simp: blk_get_def Cons_nth_drop_Suc)
    with 1 True show ?thesis by (subst trim_start.simps) auto
  next
    case False
    with 1 show ?thesis by (subst trim_start.simps) simp
  qed
qed

lemma trim_end_spec:
  "take n m = s \<Longrightarrow> length s = n \<Longrightarrow> e \<le> n - i \<Longrightarrow> i \<le> n \<Longrightarrow>
   trim_end m n i e = Some (e + length (takeWhile is_blank (drop e (rev (drop i s)))))"
proof (induction m n i e rule: trim_end.induct)
  case (1 m n i e)
  show ?case
  proof (cases "e < n - i")
    case True
    define r where "r = rev (drop i s)"
    have el: "e < length r" "n - (e + 1) < length s" using True "1.prems" by (auto simp: r_def)
    have "r ! e = s ! (n - (e + 1))" using "1.prems"(2) True by (simp add: r_def rev_nth)
    moreover have "m ! (n - (e + 1)) = s ! (n - (e + 1))" "n - (e + 1) < length m"
      using chunk_nth [of s m "n - (e + 1)"] el "1.prems"(1,2) by (auto dest: arg_cong [of _ _ length])
    ultimately have i: "blk_get m (n - (e + 1)) = Some (r ! e)" "drop e r = r ! e # drop (Suc e) r"
      using Cons_nth_drop_Suc [OF el(1)] by (simp_all add: blk_get_in)
    have "trim_end m n i e = (if \<not> is_blank (r ! e) then Some e else trim_end m n i (e + 1))"
      using True i(1) by (subst trim_end.simps) simp
    moreover have "trim_end m n i (e + 1) = Some (e + 1 + length (takeWhile is_blank (drop (e + 1) r)))"
      if "is_blank (r ! e)"
      using "1.IH" [OF True i(1)] that "1.prems" True by (simp add: r_def)
    ultimately show ?thesis using i(2) by (simp add: r_def [symmetric])
  next
    case False
    with 1 show ?thesis by (subst trim_end.simps) simp
  qed
qed

definition trimmed :: "byte list \<Rightarrow> byte list" where
  "trimmed s = rev (dropWhile is_blank (rev (dropWhile is_blank s)))"

lemma drop_takeWhile: "drop (length (takeWhile P xs)) xs = dropWhile P xs"
  by (simp add: dropWhile_eq_drop)

lemma trim_rep:
  assumes "buf_rep b s"
  shows "\<exists>b'. http2d_buffer_trim b = Some (ret_ok, b') \<and> buf_rep b' (trimmed s)"
  using assms
proof (cases rule: buf_rep_cases)
  case NULL
  with assms show ?thesis by (simp add: http2d_buffer_trim_def trimmed_def)
next
  case (chunk m)
  show ?thesis
  proof (cases "s = []")
    case True
    with assms chunk show ?thesis by (simp add: http2d_buffer_trim_def trimmed_def)
  next
    case False
    define i where "i = length (takeWhile is_blank s)"
    define r where "r = drop i s"
    define e where "e = length (takeWhile is_blank (rev r))"
    have r: "r = dropWhile is_blank s" by (simp add: r_def i_def drop_takeWhile)
    have ile: "i \<le> length s" by (simp add: i_def length_takeWhile_le)
    have ele: "e \<le> length s - i" using length_takeWhile_le [of is_blank "rev r"] by (simp add: e_def r_def)
    have ti: "trim_start m (length s) 0 = Some i" using trim_start_spec [of "length s" m s 0] chunk by (simp add: i_def)
    have te: "trim_end m (length s) i 0 = Some e" using trim_end_spec [of "length s" m s 0 i] chunk ile by (simp add: e_def r_def)
    define n where "n = length s - (i + e)"
    have tr: "take n r = trimmed s"
    proof -
      have "rev (drop e (rev r)) = trimmed s" by (simp add: trimmed_def e_def drop_takeWhile r)
      moreover have "rev (drop e (rev r)) = take (length r - e) r" by (simp add: rev_drop)
      moreover have "length r - e = n" using ile ele by (simp add: r_def n_def)
      ultimately show ?thesis by simp
    qed
    have "take n (drop i m) = take n r"
    proof -
      have "drop i s = take (length s - i) (drop i m)" using drop_take [of i "length s" m] chunk(6) by simp
      then show ?thesis using ile ele by (simp add: r_def n_def min_def)
    qed
    then have mv: "blk_move m 0 i n = Some (trimmed s @ drop n m)"
      using chunk ile ele tr by (simp add: blk_move_in n_def)
    have "length (take n r) = n" using ile ele by (simp add: n_def r_def)
    then have ln: "length (trimmed s) = n" unfolding tr .
    define m' where "m' = (trimmed s @ drop n m)[n := 0]"
    have st: "blk_set (trimmed s @ drop n m) n 0 = Some m'"
      using chunk ln by (simp add: blk_set_def m'_def n_def)
    have "buf_rep (b\<lparr>buf := Some m', len := n\<rparr>) (trimmed s)"
      using chunk ln by (intro buf_repI [where m = m']) (auto simp: m'_def n_def)
    then show ?thesis using False chunk ti te mv st
      by (simp add: http2d_buffer_trim_def Let_def flip: n_def)
  qed
qed

subsection \<open>Collapsing runs\<close>

fun squeeze :: "byte \<Rightarrow> byte list \<Rightarrow> byte list" where
  "squeeze c (x # y # zs) = (if x = c \<and> y = c then squeeze c (y # zs) else x # squeeze c (y # zs))"
| "squeeze c xs = xs"

lemma squeeze_snoc:
  "xs \<noteq> [] \<Longrightarrow> squeeze c (xs @ [y]) = (if last xs = c \<and> y = c then squeeze c xs else squeeze c xs @ [y])"
  by (induction c xs rule: squeeze.induct) auto

lemma squeeze_last: "xs \<noteq> [] \<Longrightarrow> squeeze c xs \<noteq> [] \<and> last (squeeze c xs) = last xs"
  by (induction c xs rule: squeeze.induct) auto

text \<open>Loop invariant: after \<open>j\<close> more characters of the text have been looked at, the first
  \<open>a + 1\<close> bytes of the chunk are the collapsed prefix, everything behind \<open>a + offset\<close> is
  untouched.\<close>

lemma remove_dups_loop_spec:
  assumes "n = length s" "a + offset < n" "offset + 1 < n" "c \<noteq> 0"
    and "take (a + 1) m = squeeze c (take (a + offset + 1) s)"
    and "drop (a + offset + 1) m = drop (a + offset + 1) s @ [0] @ r" "length m = n + 1 + length r"
  shows "\<exists>m' k. remove_dups_loop c n m a offset = Some (m', k) \<and> k < n \<and> length m' = length m \<and>
     take (n - k) m' = squeeze c s"
  using assms
proof (induction "n - (a + offset)" arbitrary: m a offset rule: less_induct)
  case less
  note prems = less.prems
  define j where "j = a + offset + 1"
  have j: "j \<le> n" "a < j" "a + 1 < length m" "j < length m" using prems by (auto simp: j_def)
  have lq: "length (squeeze c (take j s)) = a + 1" using arg_cong [OF prems(5), of length] j by (simp add: j_def)
  have last: "m ! a = last (take j s)"
  proof -
    have "take j s \<noteq> []" using prems j by (auto simp: j_def)
    then have "last (squeeze c (take j s)) = last (take j s)" using squeeze_last by blast
    moreover have "last (take (a + 1) m) = m ! a" using j by (simp add: take_Suc_conv_app_nth)
    ultimately show ?thesis using prems(5) by (simp add: j_def)
  qed
  have nxt: "m ! j = (if j < n then s ! j else 0)"
  proof -
    have "m ! j = hd (drop j s @ [0] @ r)" using hd_drop_conv_nth [of j m] j prems(6) by (simp add: j_def)
    then show ?thesis using prems(1) by (simp add: hd_append hd_drop_conv_nth)
  qed
  have dr: "drop (j + 1) m = drop (j + 1) s @ [0] @ r" if "j < n"
  proof -
    have "drop j s \<noteq> []" using that prems(1) by simp
    then have "tl (drop j m) = tl (drop j s) @ [0] @ r" using prems(6) by (simp add: j_def)
    then show ?thesis by (simp add: drop_Suc tl_drop)
  qed
  have tk: "take (j + 1) s = take j s @ [s ! j]" if "j < n" using that prems(1) by (simp add: take_Suc_conv_app_nth)
  have ne: "take j s \<noteq> []" using j prems by auto
  have step: "remove_dups_loop c n m a offset =
     (if m ! a = c \<and> m ! j = c
      then if j < n \<and> offset + 2 < n then remove_dups_loop c n m a (offset + 1) else Some (m, offset + 1)
      else if j < n \<and> offset + 1 < n then remove_dups_loop c n (m[a + 1 := m ! j]) (a + 1) offset
           else Some (m[a + 1 := m ! j], offset))"
    using j by (subst remove_dups_loop.simps) (auto simp: blk_get_in blk_set_in j_def)
  show ?case
  proof (cases "m ! a = c \<and> m ! j = c")
    case True
    with nxt prems(4) have jn: "j < n" "s ! j = c" by (auto split: if_splits)
    have sq: "take (a + 1) m = squeeze c (take (j + 1) s)"
      using True jn last tk prems(5) squeeze_snoc [OF ne, of c "s ! j"] by (simp add: j_def)
    show ?thesis
    proof (cases "offset + 2 < n")
      case more: True
      have "remove_dups_loop c n m a offset = remove_dups_loop c n m a (offset + 1)"
        using step True jn more by simp
      moreover have "\<exists>m' k. remove_dups_loop c n m a (offset + 1) = Some (m', k) \<and> k < n \<and> length m' = length m \<and>
          take (n - k) m' = squeeze c s"
        by (rule less.hyps) (use True jn more sq dr prems in \<open>simp_all add: j_def\<close>)
      ultimately show ?thesis by simp
    next
      case False
      then have "a = 0" "j + 1 = n" using jn prems by (auto simp: j_def)
      then have "n - (offset + 1) = a + 1" "squeeze c (take (j + 1) s) = squeeze c s" "offset + 1 < n"
        using prems(1,3) by (auto simp: j_def)
      moreover have "remove_dups_loop c n m a offset = Some (m, offset + 1)" using step True False by simp
      ultimately show ?thesis using sq by simp
    qed
  next
    case False
    define m1 where "m1 = m[a + 1 := m ! j]"
    have t1: "take (a + 2) m1 = squeeze c (take j s) @ [m ! j]"
      using prems(5) j take_Suc_conv_app_nth [of "a + 1" m1] by (simp add: m1_def j_def)
    have d1: "drop (j + 1) m1 = drop (j + 1) m" using j by (simp add: m1_def)
    show ?thesis
    proof (cases "j < n")
      case True
      have "remove_dups_loop c n m a offset = remove_dups_loop c n m1 (a + 1) offset"
        using step False True prems(3) by (simp add: m1_def)
      moreover have "\<exists>m' k. remove_dups_loop c n m1 (a + 1) offset = Some (m', k) \<and> k < n \<and> length m' = length m1 \<and>
          take (n - k) m' = squeeze c s"
        by (rule less.hyps) (use False True t1 d1 dr tk last nxt squeeze_snoc [OF ne, of c "s ! j"] prems in
            \<open>simp_all add: j_def m1_def\<close>)
      ultimately show ?thesis by (simp add: m1_def)
    next
      case jn: False
      then have e: "j = n" using j by simp
      have "take (n - offset) m1 = squeeze c s"
      proof -
        have "n - offset = a + 1" using e by (simp add: j_def)
        moreover have "take (a + 1) m1 = take (a + 1) m" by (simp add: m1_def)
        ultimately show ?thesis using prems(1,5) e by (simp add: j_def)
      qed
      with step False jn prems(3) show ?thesis by (simp add: m1_def)
    qed
  qed
qed

lemma buf_rep_cut:
  assumes "buf_rep b s" "buf b = Some m0" "length m = length m0" "take (length t) m = t" "length t \<le> length s"
  shows "blk_set m (length t) 0 = Some (m[length t := 0])"
    "buf_rep (b\<lparr>buf := Some (m[length t := 0]), len := length t\<rparr>) t"
proof -
  have b: "length s < bsize b" "bsize b \<le> length m" "bsize b < 2 ^ 31"
    using assms(1-3) by (auto elim: buf_rep_cases)
  show "blk_set m (length t) 0 = Some (m[length t := 0])" using b assms(5) by (simp add: blk_set_in)
  show "buf_rep (b\<lparr>buf := Some (m[length t := 0]), len := length t\<rparr>) t"
    using b assms(4,5) by (intro buf_repI [where m = "m[length t := 0]"]) auto
qed

lemma remove_dups_rep:
  assumes "buf_rep b s" "c \<noteq> 0"
  shows "\<exists>b'. http2d_buffer_remove_dups b c = Some (ret_ok, b') \<and> buf_rep b' (squeeze c s)"
proof (cases "length s < 2")
  case True
  then have "squeeze c s = s" by (cases "(c, s)" rule: squeeze.cases) auto
  with True assms buf_rep_len [OF assms(1)] show ?thesis by (simp add: http2d_buffer_remove_dups_def)
next
  case False
  from assms(1) show ?thesis
  proof (cases rule: buf_rep_cases)
    case (chunk m)
    define r where "r = drop (Suc (length s)) m"
    have m: "m = s @ [0] @ r"
      using chunk id_take_nth_drop [of "length s" m] by (simp add: r_def)
    obtain m' k where lp: "remove_dups_loop c (length s) m 0 0 = Some (m', k)" "k < length s"
        "length m' = length m" "take (length s - k) m' = squeeze c s"
      using remove_dups_loop_spec [of "length s" s 0 0 c m r] False assms(2) m
      by (cases s) auto
    have l: "length (squeeze c s) = length s - k" using lp chunk by (auto dest: arg_cong [of _ _ length])
    from buf_rep_cut [OF assms(1) chunk(1) lp(3), of "squeeze c s"] lp l False chunk show ?thesis
      by (simp add: http2d_buffer_remove_dups_def)
  qed (use False in simp)
qed

subsection \<open>Comparing and counting\<close>

lemma strncmp_by_zero:
  "n \<le> length xs \<Longrightarrow> n \<le> length ys \<Longrightarrow> 0 \<notin> set (take n xs) \<Longrightarrow>
   \<exists>r. strncmp_by f xs ys n = Some r \<and> (r = 0 \<longleftrightarrow> map f (take n xs) = map f (take n ys))"
proof (induction f xs ys n rule: strncmp_by.induct)
  case (2 f x xs y ys n)
  then show ?case by (auto simp: not_less)
qed auto

lemma cmp_by_zero:
  assumes "buf_rep a s" "buf_rep b t" "0 \<notin> set s"
  shows "\<exists>r. cmp_by f a b = Some r \<and> (r = 0 \<longleftrightarrow> map f s = map f t)"
proof -
  have l: "len a = length s" "len b = length t" "length s < 2 ^ 31" "length t < 2 ^ 31"
    using assms(1,2) by (auto elim!: buf_rep_cases)
  consider "length t < length s" | "length s < length t" | "length s = length t" "t = []"
    | "length s = length t" "t \<noteq> []" by fastforce
  then show ?thesis
  proof cases
    case 1
    then have "map f s \<noteq> map f t" by (auto dest: map_eq_imp_length_eq)
    with 1 l show ?thesis by (simp add: cmp_by_def s32_id)
  next
    case 2
    define d where "d = length t - length s"
    have d: "0 < d" "d < 2 ^ 31" using 2 l by (auto simp: d_def)
    then have "sub32 0 d = 2 ^ 32 - d" by (simp add: sub32_def)
    then have "s32 (sub32 0 d) = - int d" using d by (simp add: s32_def u32_def of_nat_diff)
    moreover have "map f s \<noteq> map f t" using 2 by (auto dest: map_eq_imp_length_eq)
    ultimately show ?thesis using 2 l d by (simp add: cmp_by_def flip: d_def)
  next
    case 3
    with l show ?thesis by (simp add: cmp_by_def)
  next
    case 4
    then obtain x y where x: "buf a = Some x" "buf b = Some y" "take (length s) x = s" "take (length t) y = t"
        "length s \<le> length x" "length t \<le> length y"
      using assms(1,2) by (auto elim!: buf_rep_cases)
    with 4 l strncmp_by_zero [of "length t" x y f] assms(3) show ?thesis
      by (simp add: cmp_by_def)
  qed
qed

subsection \<open>Inserting\<close>

text \<open>Opening a gap of \<open>n\<close> bytes at \<open>pos\<close> and filling it.\<close>

lemma insert_block:
  assumes "take k p = s" "length s = k" "k + n < length p" "pos \<le> k" "length bs = n"
  obtains m m2 m3 where "blk_move p (pos + n) pos (k - pos) = Some m" "blk_write m pos bs = Some m2"
    "blk_set m2 (k + n) 0 = Some m3" "length m3 = length p"
    "take (k + n) m3 = take pos s @ bs @ drop pos s" "m3 ! (k + n) = 0"
proof -
  define m where "m = take (pos + n) p @ drop pos s @ drop (k + n) p"
  have dp: "take (k - pos) (drop pos p) = drop pos s" using assms(1,4) drop_take [of pos k p] by simp
  have m: "blk_move p (pos + n) pos (k - pos) = Some m" "length m = length p"
    using assms dp by (auto simp: blk_move_in m_def add.commute)
  define m2 where "m2 = take pos m @ bs @ drop (pos + n) m"
  have m2: "blk_write m pos bs = Some m2" using assms m by (simp add: blk_write_in m2_def)
  have tp: "take pos m = take pos s" using assms by (auto simp: m_def min_def)
  have "drop (pos + n) m = drop pos s @ drop (k + n) p" using assms by (simp add: m_def)
  then have m2': "m2 = (take pos s @ bs @ drop pos s) @ drop (k + n) p" by (simp add: m2_def tp)
  have l: "length (take pos s @ bs @ drop pos s) = k + n" using assms by simp
  have "take (length x) ((x @ y)[length x := 0]) = x" for x y :: "byte list" by simp
  then have "take (k + n) (m2[k + n := 0]) = take pos s @ bs @ drop pos s" unfolding m2' l [symmetric] .
  moreover have "length m2 = length p" using m2' assms l by simp
  ultimately show thesis using m m2 assms(3) by (intro that [of m m2 "m2[k + n := 0]"]) (auto simp: blk_set_in)
qed

lemma insert_rep:
  assumes "buf_rep b s" "pos \<le> length s" "n \<le> length str" "length s + n + 1 < 2 ^ 31" "malloc_ok h (length s + n + 1)"
  shows "\<exists>b'. http2d_buffer_insert h b str n pos = Some (ret_ok, b') \<and> buf_rep b' (take pos s @ take n str @ drop pos s)"
proof -
  have ok: "buffer_ok b" and l: "len b = length s" and st: "buf_str b = s"
    using assms(1) by (auto simp: buf_rep_def)
  obtain b1 where b1: "http2d_buffer_ensure_size h b (length s + n + 1) = (ret_ok, b1)" "buffer_ok b1"
      "buf_str b1 = s" "len b1 = length s" "length s + n + 1 \<le> bsize b1" "buf b1 \<noteq> None"
    using http2d_buffer_ensure_size_ok [OF ok assms(4,5)] st l by (metis add_gr_0 zero_less_one)
  then obtain p where p: "buf b1 = Some p" "take (length s) p = s" "bsize b1 \<le> length p" "bsize b1 < 2 ^ 31"
    by (auto simp: buffer_ok_def buf_str_def)
  obtain m m2 m3 where m: "blk_move p (pos + n) pos (length s - pos) = Some m" "blk_write m pos (take n str) = Some m2"
      "blk_set m2 (length s + n) 0 = Some m3" "length m3 = length p"
      "take (length s + n) m3 = take pos s @ take n str @ drop pos s" "m3 ! (length s + n) = 0"
    by (rule insert_block [of "length s" p s n pos "take n str"]) (use p b1 assms in auto)
  have "buf_rep (b1\<lparr>buf := Some m3, len := length s + n\<rparr>) (take pos s @ take n str @ drop pos s)"
  proof (rule buf_repI [where m = m3])
    have l: "length (take pos s @ take n str @ drop pos s) = length s + n" using assms(2,3) by simp
    show "len (b1\<lparr>buf := Some m3, len := length s + n\<rparr>) = length (take pos s @ take n str @ drop pos s)"
      "length (take pos s @ take n str @ drop pos s) < bsize (b1\<lparr>buf := Some m3, len := length s + n\<rparr>)"
      "take (length (take pos s @ take n str @ drop pos s)) m3 = take pos s @ take n str @ drop pos s"
      "m3 ! length (take pos s @ take n str @ drop pos s) = 0"
      unfolding l using m(5,6) b1(5) by simp_all
  qed (use m(4) p in simp_all)
  moreover have "u64 (length s + n + 1) = length s + n + 1" "sub64 (length s) pos = length s - pos"
      "u32 (length s + n) = length s + n"
    using assms by (simp_all add: int_simps)
  moreover have "blk_read str 0 n = Some (take n str)" using assms by (simp add: blk_read_in)
  ultimately show ?thesis using b1 p m l
    unfolding http2d_buffer_insert_def by (simp add: Let_def)
qed

lemma take_of_take: "take n m = s \<Longrightarrow> k \<le> n \<Longrightarrow> take k m = take k s"
  by (auto simp: min_def)

lemma take_split: "take (length d + length s) m = d @ s \<Longrightarrow> take (length d) m = d \<and> take (length s) (drop (length d) m) = s"
proof -
  assume t: "take (length d + length s) m = d @ s"
  then have "length d \<le> length m" by (auto dest: arg_cong [of _ _ length])
  with t show ?thesis by (simp add: append_eq_conv_conj take_add min_def)
qed

text \<open>Ending the text at \<open>k\<close>, the last statement of several operations.\<close>

lemma put_zero:
  assumes "length t = k" "k < bsize b" "bsize b \<le> length m" "bsize b < 2 ^ 31" "take k m = t"
  shows "blk_set m k 0 = Some (m[k := 0])" "buf_rep (b\<lparr>buf := Some (m[k := 0]), len := k\<rparr>) t"
  using assms by (auto simp: blk_set_in intro!: buf_repI [where m = "m[k := 0]"])

subsection \<open>Comma marks\<close>

text \<open>The reference: a comma before every further group of three.\<close>

fun comma_groups :: "nat \<Rightarrow> byte list \<Rightarrow> byte list" where
  "comma_groups 0 s = s"
| "comma_groups (Suc k) s = chr CHR '','' # take 3 s @ comma_groups k (drop 3 s)"

definition comma_marked :: "byte list \<Rightarrow> byte list" where
  "comma_marked s =
     (if length s \<le> 3 then s
      else let off = (if length s mod 3 = 0 then 3 else length s mod 3)
           in take off s @ comma_groups ((length s - off) div 3) (drop off s))"

lemma length_comma_groups: "length (comma_groups k s) = length s + k" if "3 * k \<le> length s"
  using that by (induction k s rule: comma_groups.induct) auto

lemma comma_loop_spec:
  assumes "length s = 3 * k" "length d = p" "take (p + length s) m = d @ s" "p + length s + k \<le> length m"
  shows "\<exists>m'. comma_loop k m p (p + length s) = Some (m', p + length s + k) \<and> length m' = length m \<and>
    take (p + length s + k) m' = d @ comma_groups k s"
  using assms
proof (induction k arbitrary: s d p m)
  case 0
  then show ?case by simp
next
  case (Suc k)
  define c where "c = chr CHR '',''"
  define s3 where "s3 = drop 3 s"
  have l: "length s3 = 3 * k" "length s = 3 + length s3" "take p m = d" "take (length s) (drop p m) = s" "p \<le> length m"
    using Suc.prems take_split [of d s m] by (auto simp: s3_def)
  define m1 where "m1 = d @ [c] @ s @ drop (p + 1 + length s) m"
  define m0 where "m0 = take (p + 1) m @ s @ drop (p + 1 + length s) m"
  have m0: "blk_move m (p + 1) p (length s) = Some m0"
    using Suc.prems l(4) by (simp add: blk_move_in m0_def)
  have "m0 = d @ [m ! p] @ s @ drop (p + 1 + length s) m"
    using Suc.prems l(3) by (simp add: m0_def take_Suc_conv_app_nth)
  then have m1: "blk_set m0 p c = Some m1" "length m1 = length m"
    using Suc.prems by (auto simp: blk_set_in m1_def list_update_append)
  have "\<exists>m'. comma_loop k m1 (p + 4) (p + 4 + length s3) = Some (m', p + 4 + length s3 + k) \<and> length m' = length m1 \<and>
      take (p + 4 + length s3 + k) m' = (d @ [c] @ take 3 s) @ comma_groups k s3"
  proof (rule Suc.IH)
    have "p + 4 + length s3 = length (d @ [c] @ s)" using Suc.prems l by simp
    moreover have "take (length x) (x @ y) = x" for x y :: "byte list" by simp
    note this [of "d @ [c] @ s" "drop (p + 1 + length s) m"]
    moreover have "m1 = (d @ [c] @ s) @ drop (p + 1 + length s) m" by (simp add: m1_def)
    ultimately have "take (p + 4 + length s3) m1 = d @ [c] @ s" by (simp only:)
    then show "take (p + 4 + length s3) m1 = (d @ [c] @ take 3 s) @ s3" by (simp add: s3_def)
  qed (use Suc.prems l m1 in auto)
  then obtain m' where m': "comma_loop k m1 (p + 4) (p + 4 + length s3) = Some (m', p + 4 + length s3 + k)"
      "length m' = length m1" "take (p + 4 + length s3 + k) m' = (d @ [c] @ take 3 s) @ comma_groups k s3"
    by blast
  have e: "p + 4 + length s3 = p + length s + 1" "p + length s + 1 + k = p + length s + Suc k" using l(2) by auto
  have "comma_loop (Suc k) m p (p + length s) = comma_loop k m1 (p + 4) (p + length s + 1)"
    using m0 m1(1) by (simp add: c_def)
  then show ?case using m' m1(2) unfolding e by (simp add: c_def s3_def)
qed

lemma comma_marks_rep:
  assumes "buf_rep b s" "2 * length s + 2 < 2 ^ 31" "malloc_ok h (length s + length s div 3 + 2)"
  shows "\<exists>b'. http2d_buffer_add_comma_marks h b = Some (ret_ok, b') \<and> buf_rep b' (comma_marked s)"
proof (cases "buf b = None \<or> length s \<le> 3")
  case True
  then have "comma_marked s = s" using assms(1) by (auto simp: comma_marked_def elim: buf_rep_cases)
  with True assms buf_rep_len [OF assms(1)] show ?thesis by (auto simp: http2d_buffer_add_comma_marks_def)
next
  case False
  define num where "num = length s div 3"
  define off where "off = (if length s mod 3 = 0 then 3 else length s mod 3)"
  define k where "k = (if length s mod 3 = 0 then num - 1 else num)"
  have k: "length s = off + 3 * k" "off \<le> 3" "k \<le> num" "num \<le> length s" "(length s - off) div 3 = k"
  proof -
    show "length s = off + 3 * k" using False mult_div_mod_eq [of 3 "length s"] by (auto simp: off_def k_def num_def)
    then show "(length s - off) div 3 = k" by simp
  qed (auto simp: off_def k_def num_def)
  have ok: "buffer_ok b" and l: "len b = length s" and st: "buf_str b = s"
    using assms(1) by (auto simp: buf_rep_def)
  have sz: "length s + num + 2 < 2 ^ 31" "u32 (length s + num + 2) = length s + num + 2"
    using k(4) assms(2) by (auto simp: int_simps)
  obtain b1 where b1: "http2d_buffer_ensure_size h b (length s + num + 2) = (ret_ok, b1)" "buffer_ok b1"
      "buf_str b1 = s" "len b1 = length s" "length s + num + 2 \<le> bsize b1" "buf b1 \<noteq> None"
    using http2d_buffer_ensure_size_ok [OF ok sz(1)] assms(3) st l by (metis add_gr_0 num_def zero_less_numeral)
  then obtain p where p: "buf b1 = Some p" "take (length s) p = s" "bsize b1 \<le> length p" "bsize b1 < 2 ^ 31"
    by (auto simp: buffer_ok_def buf_str_def)
  define t where "t = drop off s"
  have lt: "length t = 3 * k" "off + length t = length s" using k by (auto simp: t_def)
  obtain m where m: "comma_loop k p off (length s) = Some (m, length s + k)" "length m = length p"
      "take (length s + k) m = take off s @ comma_groups k t"
    using comma_loop_spec [of t k "take off s" off p] lt k p b1 by (auto simp: t_def)
  have cm: "comma_marked s = take off s @ comma_groups k t"
    using False k(5) unfolding comma_marked_def Let_def off_def [symmetric] t_def by simp
  have lc: "length (comma_marked s) = length s + k" using length_comma_groups [of k t] lt k by (simp add: cm)
  have "length s + k < bsize b1" "bsize b1 \<le> length m" "take (length s + k) m = comma_marked s"
    using b1(5) k(3) p(3) m cm by auto
  note pz = put_zero [OF lc this(1,2) p(4) this(3)]
  have "(if length s mod 3 = 0 then (3, num - 1) else (length s mod 3, num)) = (off, k)"
    by (simp add: off_def k_def)
  then show ?thesis using False b1(1,4) p(1) m(1) pz
    unfolding http2d_buffer_add_comma_marks_def l num_def [symmetric] Let_def sz(2) by auto
qed

lemma filter_comma_groups:
  "c \<notin> set s \<Longrightarrow> chr CHR '','' = c \<Longrightarrow> filter (\<lambda>x. x \<noteq> c) (comma_groups k s) = s"
proof (induction k s rule: comma_groups.induct)
  case (2 k s)
  then have "filter (\<lambda>x. x \<noteq> c) (take 3 s) = take 3 s" by (auto simp: filter_id_conv dest: in_set_takeD)
  moreover have "filter (\<lambda>x. x \<noteq> c) (comma_groups k (drop 3 s)) = drop 3 s"
    using 2 by (auto dest: in_set_dropD)
  ultimately show ?case using 2 by simp
qed (auto simp: filter_id_conv)

subsection \<open>Multiplying\<close>

lemma length_copies: "length (concat (replicate j s)) = length s * j"
  by (induction j) auto

text \<open>A self-append that fits is harmless; one that needs memory reads through a dangling
  pointer.\<close>

lemma add_own:
  assumes "buf_rep b s" "0 < n" "n \<le> length s" "length s + n < bsize b"
  shows "\<exists>b'. http2d_buffer_add h b (Own 0) n = Some (ret_ok, b') \<and> buf_rep b' (s @ take n s) \<and> bsize b' = bsize b"
  using assms(1)
proof (cases rule: buf_rep_cases)
  case (chunk m)
  have av: "sub32 (bsize b) (len b) = bsize b - len b" "u64 (n + 1) = n + 1" "u32 (len b + n) = len b + n"
    using chunk assms by (simp_all add: int_simps)
  have src: "memcpy_src False m (len b) (Own 0) n = Some (take n s)"
    using chunk assms take_of_take [OF chunk(6) assms(3)] by (simp add: memcpy_src_def blk_read_in)
  have "buf_rep (b\<lparr>buf := Some (put_tail m (len b) (take n s)), len := len b + n\<rparr>) (s @ take n s)"
  proof -
    have n: "length (take n s) = n" using assms(3) by simp
    have "buf_rep (b\<lparr>buf := Some (put_tail m (len b) (take n s)), len := len b + length (take n s)\<rparr>) (s @ take n s)"
    proof (rule put_tail_rep [OF chunk(1)])
      show "take (len b) m = s" unfolding chunk(2) by (rule chunk(6))
      show "len b + length (take n s) < bsize b" unfolding n chunk(2) by (rule assms(4))
    qed (rule chunk(2) [symmetric], rule chunk(4), rule chunk(5))
    then show ?thesis unfolding n .
  qed
  moreover have "length (take n s) = n" "len b + length (take n s) < length m" using assms(3,4) chunk(2,4) by auto
  note put_tail_eqs [OF this(2), unfolded this(1)]
  moreover have "\<not> bsize b - len b < n + 1" using assms(4) chunk(2) by simp
  ultimately show ?thesis using chunk(1) assms(2) av src
    unfolding http2d_buffer_add_def by (simp only: Let_def) simp
qed (use assms in simp)

lemma add_own_faults:
  assumes "buf_rep b s" "0 < n" "n \<le> length s" "bsize b \<le> length s + n" "length s + n + 17 < 2 ^ 31"
    "malloc_ok h (length s + n + 17)"
  shows "http2d_buffer_add h b (Own 0) n = None"
proof -
  have ok: "buffer_ok b" and l: "len b = length s" using assms(1) by (auto simp: buf_rep_def)
  have bb: "length s \<le> bsize b" "bsize b < 2 ^ 31" using buffer_ok_bounds [OF ok] l by auto
  have av: "sub32 (bsize b) (length s) = bsize b - length s" "u64 (n + 1) = n + 1"
      "sext64 (bsize b - length s) = bsize b - length s"
      "sub64 n (bsize b - length s) = n - (bsize b - length s)"
      "bsize b - length s < n + 1" "bsize b + (n - (bsize b - length s)) + 17 = length s + n + 17"
    using bb assms by (simp_all add: int_simps)
  obtain p where "realloc_inc_bufsize h b (n - (bsize b - length s)) = (ret_ok, b\<lparr>buf := Some p, bsize := length s + n + 17\<rparr>)"
    using realloc_inc_bufsize_ok [OF ok, of "n - (bsize b - length s)" h] assms(5,6) unfolding av(6) by blast
  then show ?thesis using assms(2) av l unfolding http2d_buffer_add_def
    by (simp add: Let_def memcpy_src_def)
qed

lemma multiply_loop_fits:
  assumes "buf_rep b (concat (replicate j s))" "s \<noteq> []" "0 < j" "length s * (j + k) < bsize b"
  shows "\<exists>b'. multiply_loop h k (length s) b = Some b' \<and> buf_rep b' (concat (replicate (j + k) s)) \<and> bsize b' = bsize b"
  using assms
proof (induction k arbitrary: b j)
  case (Suc k)
  obtain i where i: "j = Suc i" using Suc.prems(3) by (cases j) auto
  have "length s * j + length s \<le> length s * (j + Suc k)" by (simp add: algebra_simps)
  then have fit: "length (concat (replicate j s)) + length s < bsize b"
    using Suc.prems(4) unfolding length_copies by linarith
  obtain b' where b': "http2d_buffer_add h b (Own 0) (length s) = Some (ret_ok, b')"
      "buf_rep b' (concat (replicate j s) @ take (length s) (concat (replicate j s)))" "bsize b' = bsize b"
    using add_own [OF Suc.prems(1), of "length s" h] Suc.prems(2) fit i by auto
  have "concat (replicate j s) @ s = concat (replicate (Suc j) s)" by (induction j) auto
  with b' i have "buf_rep b' (concat (replicate (Suc j) s))" by simp
  with Suc.IH [of b' "Suc j"] Suc.prems b' show ?case by simp
qed simp

lemma multiply_loop_add: "multiply_loop h (j + k) n b = multiply_loop h j n b \<bind> multiply_loop h k n"
proof (induction j arbitrary: b)
  case (Suc j)
  then show ?case by (cases "http2d_buffer_add h b (Own 0) n") auto
qed simp

lemma multiply_faults:
  assumes "buf_rep b s" "s \<noteq> []" "length s * Suc k + 1 = bsize b" "length s * Suc (Suc k) + 17 < 2 ^ 31" "\<And>n. malloc_ok h n"
  shows "multiply_loop h (Suc k) (length s) b = None"
proof -
  obtain b' where b': "multiply_loop h k (length s) b = Some b'" "buf_rep b' (concat (replicate (Suc k) s))" "bsize b' = bsize b"
    using multiply_loop_fits [of b 1 s k h] assms(1-3) by auto
  have ls: "0 < length s" using assms(2) by simp
  have sz: "bsize b' \<le> length (concat (replicate (Suc k) s)) + length s"
    using assms(3) b'(3) ls unfolding length_copies by linarith
  have "http2d_buffer_add h b' (Own 0) (length s) = None"
    by (rule add_own_faults [OF b'(2)]) (use assms(4,5) ls sz in \<open>auto simp: length_copies algebra_simps\<close>)
  with b' show ?thesis using multiply_loop_add [of h k 1 "length s" b] by simp
qed

subsection \<open>Reading\<close>

lemma read_from_fd_rep:
  assumes "buf_rep b s" "length s + sz + 1 < 2 ^ 31" "malloc_ok h (length s + sz + 1)"
    and "read_retry answers = Some (Inr bs)" "bs \<noteq> []"
  shows "\<exists>b'. http2d_buffer_read_from_fd h b answers sz = Some (ret_ok, b', Some (length (take sz bs))) \<and>
    buf_rep b' (s @ take sz bs)"
proof -
  have ok: "buffer_ok b" and l: "len b = length s" and st: "buf_str b = s"
    using assms(1) by (auto simp: buf_rep_def)
  obtain b1 where b1: "http2d_buffer_ensure_addlen h b sz = (ret_ok, b1)" "buffer_ok b1"
    "buf_str b1 = s" "len b1 = length s" "length s + sz < bsize b1" "buf b1 \<noteq> None"
    using http2d_buffer_ensure_addlen_ok [OF ok, of sz h] assms(2,3) unfolding l st by metis
  then obtain p where p: "buf b1 = Some p" "take (length s) p = s" "bsize b1 \<le> length p" "bsize b1 < 2 ^ 31"
    by (auto simp: buffer_ok_def buf_str_def)
  define t where "t = take sz bs"
  have t': "take sz bs = t" "min (length bs) sz = length t" by (simp_all add: t_def)
  have t: "length s + length t < bsize b1" "length t \<le> sz" using b1(5) by (auto simp: t_def)
  then have u: "u32 (length s + length t) = length s + length t" using assms(2) by (simp add: int_simps)
  have lt: "len b1 + length t < length p" using t p(3) b1(4) by simp
  have "buf_rep (b1\<lparr>buf := Some (put_tail p (len b1) t), len := len b1 + length t\<rparr>) (s @ t)"
    by (rule put_tail_rep) (use p b1 t in auto)
  with put_tail_eqs [OF lt] show ?thesis using b1(1) p(1) assms(4,5) u
    unfolding http2d_buffer_read_from_fd_def by (simp add: b1(4) t')
qed

subsection \<open>Properties\<close>

text \<open>\<open>http2d_buffer_trim\<close> removes exactly the leading and the trailing blanks, tabs and line
  ends: what remains neither begins nor ends with one, and the text is that remainder between
  two runs of blanks.\<close>

theorem http2d_buffer_trim_correct:
  assumes "buf_rep b s"
  shows "\<exists>b' pre t post. http2d_buffer_trim b = Some (ret_ok, b') \<and> buf_rep b' t \<and> s = pre @ t @ post \<and>
    list_all is_blank (pre @ post) \<and> (t = [] \<or> \<not> is_blank (hd t) \<and> \<not> is_blank (last t))"
proof -
  obtain b' where b': "http2d_buffer_trim b = Some (ret_ok, b')" "buf_rep b' (trimmed s)"
    using trim_rep [OF assms] by blast
  define u where "u = dropWhile is_blank s"
  define post where "post = rev (takeWhile is_blank (rev u))"
  have u: "u = trimmed s @ post"
    unfolding trimmed_def post_def u_def [symmetric] rev_append [symmetric] takeWhile_dropWhile_id rev_rev_ident ..
  have s: "s = takeWhile is_blank s @ u" by (simp add: u_def)
  have "list_all is_blank (takeWhile is_blank s @ post)"
    by (auto simp: list_all_iff post_def dest: set_takeWhileD)
  moreover have "\<not> is_blank (hd (trimmed s)) \<and> \<not> is_blank (last (trimmed s))" if "trimmed s \<noteq> []"
  proof -
    have "u \<noteq> []" using that u by auto
    then have "\<not> is_blank (hd u)" using hd_dropWhile [of is_blank s] by (simp add: u_def)
    moreover have "dropWhile is_blank (rev u) \<noteq> []" using that by (simp add: trimmed_def u_def)
    then have "\<not> is_blank (hd (dropWhile is_blank (rev u)))" by (rule hd_dropWhile)
    moreover have "last (trimmed s) = hd (dropWhile is_blank (rev u))"
      using that by (simp add: trimmed_def last_rev u_def)
    moreover have "hd (trimmed s) = hd u" unfolding u using that by (rule hd_append2 [symmetric])
    ultimately show ?thesis by simp
  qed
  ultimately show ?thesis using b' s u
    by (intro exI [of _ b'] exI [of _ "takeWhile is_blank s"] exI [of _ "trimmed s"] exI [of _ post]) auto
qed

theorem http2d_buffer_trim_correct_witness:
  "\<exists>b' pre t post. http2d_buffer_trim (http2d_buffer_fake_str '' a b '') = Some (ret_ok, b') \<and> buf_rep b' t \<and>
    lit '' a b '' = pre @ t @ post \<and> list_all is_blank (pre @ post) \<and>
    (t = [] \<or> \<not> is_blank (hd t) \<and> \<not> is_blank (last t))"
  by (rule http2d_buffer_trim_correct [OF http2d_buffer_fake_str_rep]) simp

text \<open>\<open>http2d_buffer_remove_dups\<close> computes the reference \<open>squeeze\<close>: every run of the character
  becomes a single one and nothing else changes. The overlapping in-place copy reads no byte
  it has already overwritten.\<close>

theorem http2d_buffer_remove_dups_correct:
  assumes "buf_rep b s" "c \<noteq> 0"
  shows "\<exists>b'. http2d_buffer_remove_dups b c = Some (ret_ok, b') \<and> buf_rep b' (squeeze c s)"
  by (rule remove_dups_rep [OF assms])

theorem http2d_buffer_remove_dups_correct_witness:
  "\<exists>b'. http2d_buffer_remove_dups (http2d_buffer_fake_str ''//a//b/'') (chr CHR ''/'') = Some (ret_ok, b') \<and>
    buf_rep b' (lit ''/a/b/'')"
  using http2d_buffer_remove_dups_correct [OF http2d_buffer_fake_str_rep [of "''//a//b/''"], of "chr CHR ''/''"]
  by (simp add: lit_def chr_def)

text \<open>\<open>http2d_buffer_add_comma_marks\<close> puts a comma before every group of three digits from the
  right, as the reference \<open>comma_marked\<close> does, and deleting the commas gives the old text back.\<close>

theorem http2d_buffer_add_comma_marks_correct:
  assumes "buf_rep b s" "2 * length s + 2 < 2 ^ 31" "malloc_ok h (length s + length s div 3 + 2)"
    and "chr CHR '','' \<notin> set s"
  shows "\<exists>b' t. http2d_buffer_add_comma_marks h b = Some (ret_ok, b') \<and> buf_rep b' t \<and>
    t = comma_marked s \<and> filter (\<lambda>c. c \<noteq> chr CHR '','') t = s"
proof -
  have "filter (\<lambda>c. c \<noteq> chr CHR '','') (take n s) = take n s" for n
    using assms(4) by (auto simp: filter_id_conv dest: in_set_takeD)
  moreover have "filter (\<lambda>c. c \<noteq> chr CHR '','') (comma_groups k (drop n s)) = drop n s" for k n
    using assms(4) by (intro filter_comma_groups) (auto dest: in_set_dropD)
  moreover have "filter (\<lambda>c. c \<noteq> chr CHR '','') s = s" using assms(4) by (auto simp: filter_id_conv)
  ultimately have "filter (\<lambda>c. c \<noteq> chr CHR '','') (comma_marked s) = s"
    by (simp add: comma_marked_def Let_def)
  with comma_marks_rep [OF assms(1-3)] show ?thesis by blast
qed

theorem http2d_buffer_add_comma_marks_correct_witness:
  "\<exists>b'. http2d_buffer_add_comma_marks (total_heap (\<lambda>_. 170)) (http2d_buffer_fake_str ''1234567'') = Some (ret_ok, b') \<and>
    buf_rep b' (lit ''1,234,567'')"
proof -
  have "comma_marked (lit ''1234567'') = lit ''1,234,567''" "chr CHR '','' \<notin> set (lit ''1234567'')" by code_simp+
  then show ?thesis
    using http2d_buffer_add_comma_marks_correct [OF http2d_buffer_fake_str_rep [of "''1234567''"], of "total_heap (\<lambda>_. 170)"]
    by auto
qed

text \<open>\<open>http2d_buffer_add_buffer_slice\<close> never copies for a negative \<open>end\<close>: the test
  \<open>(-end) > buf2->len\<close> is the wrong way round, so every such call returns \<open>ret_ok\<close> and
  leaves the buffer as it was; for \<open>0 \<le> begin \<le> end \<le> len\<close> with \<open>0 < end\<close> the slice is
  appended.\<close>

theorem http2d_buffer_add_buffer_slice_correct:
  assumes "buf_rep b s" "buf_rep b2 t" "length s + length t + 17 < 2 ^ 31" "\<And>n. malloc_ok h n"
  shows "(fin \<le> 0 \<and> fin \<noteq> HTTP2D_BUF_SLIDE_NONE \<longrightarrow> http2d_buffer_add_buffer_slice h b b2 beg fin = Some (ret_ok, b)) \<and>
    (0 \<le> beg \<and> beg \<le> fin \<and> 0 < fin \<and> fin \<le> int (length t) \<longrightarrow>
      (\<exists>b'. http2d_buffer_add_buffer_slice h b b2 beg fin = Some (ret_ok, b') \<and>
        buf_rep b' (s @ take (nat (fin - beg)) (drop (nat beg) t))))"
proof (intro conjI impI)
  assume "fin \<le> 0 \<and> fin \<noteq> HTTP2D_BUF_SLIDE_NONE"
  then show "http2d_buffer_add_buffer_slice h b b2 beg fin = Some (ret_ok, b)"
    by (auto simp: http2d_buffer_add_buffer_slice_def slice_end_def Let_def)
next
  assume r: "0 \<le> beg \<and> beg \<le> fin \<and> 0 < fin \<and> fin \<le> int (length t)"
  from assms(2) show "\<exists>b'. http2d_buffer_add_buffer_slice h b b2 beg fin = Some (ret_ok, b') \<and>
        buf_rep b' (s @ take (nat (fin - beg)) (drop (nat beg) t))"
  proof (cases rule: buf_rep_cases)
    case (chunk m)
    define n where "n = nat (fin - beg)"
    have "slice_end (len b2) fin = Some fin" "slice_begin (len b2) beg = beg" "\<not> http2d_buffer_is_empty b2"
      using r chunk(2) by (auto simp: slice_end_def slice_begin_def HTTP2D_BUF_SLIDE_NONE_def http2d_buffer_is_empty_def)
    then have e: "http2d_buffer_add_buffer_slice h b b2 beg fin = http2d_buffer_add h b (Ext (drop (nat beg) m)) n"
      using r chunk(1,2) by (simp add: http2d_buffer_add_buffer_slice_def n_def)
    have n: "n \<le> length (drop (nat beg) m)" "length s + n + 17 < 2 ^ 31" "nat beg + n \<le> length t"
      using r chunk(3,4) assms(3) by (auto simp: n_def)
    have "take n (drop (nat beg) m) = take n (drop (nat beg) t)"
      using take_of_take [OF chunk(6) n(3)] by (metis add.commute take_drop)
    with http2d_buffer_add_rep [OF assms(1) n(1,2), of h] assms(4) e show ?thesis
      by (simp add: grows_to_def n_def)
  qed (use r in auto)
qed

theorem http2d_buffer_add_buffer_slice_correct_witness:
  "http2d_buffer_add_buffer_slice (total_heap (\<lambda>_. 170)) HTTP2D_BUF_INIT (http2d_buffer_fake_str ''index.html'') 0 (- 5)
     = Some (ret_ok, HTTP2D_BUF_INIT)"
  using http2d_buffer_add_buffer_slice_correct [OF buf_rep_INIT http2d_buffer_fake_str_rep [of "''index.html''"],
      of "total_heap (\<lambda>_. 170)" "- 5" 0]
  by (simp add: HTTP2D_BUF_SLIDE_NONE_def)

text \<open>\<open>http2d_buffer_multiply\<close> reserves memory for \<open>num\<close> copies but makes \<open>num + 1\<close>: when the
  chunk happens to be larger the text is repeated \<open>num + 1\<close> times; when it is not, the last
  self-append moves the chunk it is reading from, which is a fault.\<close>

theorem http2d_buffer_multiply_copies:
  assumes "buf_rep b s" "s \<noteq> []" "0 < num" "length s * (num + 1) + 17 < 2 ^ 31" "\<And>n. malloc_ok h n"
  shows "(length s * (num + 1) < bsize b \<longrightarrow>
      (\<exists>b'. http2d_buffer_multiply h b (int num) = Some (ret_ok, b') \<and> buf_rep b' (concat (replicate (num + 1) s)))) \<and>
    (bsize b \<le> length s * num + 1 \<longrightarrow> http2d_buffer_multiply h b (int num) = None)"
proof -
  have ok: "buffer_ok b" and l: "len b = length s" using assms(1) by (auto simp: buf_rep_def)
  have n: "length s * num + 1 < 2 ^ 31" using assms(4) by simp
  have "(int (length s) * int num + 1) mod 2 ^ 32 = int ((length s * num + 1) mod 2 ^ 32)" by (simp add: zmod_int add.commute)
  then have sz: "nat ((int (length s) * int num + 1) mod 2 ^ 32) = length s * num + 1"
    using n by (simp only: nat_int mod_less) simp
  obtain k where k: "num = Suc k" using assms(3) by (cases num) auto
  obtain b1 where b1: "http2d_buffer_ensure_size h b (length s * num + 1) = (ret_ok, b1)" "buffer_ok b1"
      "buf_str b1 = buf_str b" "buf b \<noteq> None \<and> buffer_term b \<Longrightarrow> buffer_term b1" "bsize b1 = max (bsize b) (length s * num + 1)"
    by (rule http2d_buffer_ensure_size_ok [OF ok n assms(5)], rule that; blast)
  have "buf b \<noteq> None" using assms(1,2) by (auto elim: buf_rep_cases)
  then have rep: "buf_rep b1 s" using b1 assms(1) by (simp add: buf_rep_def)
  have e: "http2d_buffer_multiply h b (int num) = multiply_loop h num (length s) b1 \<bind> (\<lambda>b. Some (ret_ok, b))"
    using sz b1(1) l by (simp add: http2d_buffer_multiply_def)
  have "\<exists>b'. multiply_loop h num (length s) b1 = Some b' \<and> buf_rep b' (concat (replicate (num + 1) s))"
    if "length s * (num + 1) < bsize b"
    using multiply_loop_fits [of b1 1 s num h] rep assms(2) that b1(5) by auto
  moreover have "multiply_loop h num (length s) b1 = None" if "bsize b \<le> length s * num + 1"
    using multiply_faults [OF rep assms(2), of k h] assms(4,5) that b1(5) k by simp
  ultimately show ?thesis unfolding e by auto
qed

theorem http2d_buffer_multiply_copies_witness:
  "http2d_buffer_multiply (total_heap (\<lambda>_. 170)) (http2d_buffer_fake_str ''ab'') 3 = None"
  using http2d_buffer_multiply_copies [OF http2d_buffer_fake_str_rep [of "''ab''"], of 3 "total_heap (\<lambda>_. 170)"]
  by (simp add: http2d_buffer_fake_str_def http2d_buffer_fake_def int_simps lit_def)

end
