(* ===== verification/Buffer_Subst.thy ===== *)
theory Buffer_Subst
  imports Buffer_Edit
begin

text \<open>
  Searching and replacing in \<^verbatim>\<open>src/src/buffer.c\<close>: \<open>http2d_buffer_remove_string\<close>,
  \<open>http2d_buffer_replace_string\<close>, \<open>http2d_buffer_substitute_string\<close> and
  \<open>http2d_buffer_split_lines\<close>. They work on the C string in the chunk and take the length
  of the pattern as a separate argument, so a wrong length, a missing terminator or an
  empty pattern shows up as a fault; the loops are \<open>partial_function\<close>s, for which running
  forever is the value \<open>None\<close> as well.
\<close>

subsection \<open>Removing\<close>

partial_function (option) remove_string_loop ::
  "byte list \<Rightarrow> nat \<Rightarrow> block \<Rightarrow> nat \<Rightarrow> (block \<times> nat) option" where
  "remove_string_loop str string_len m n = do {
     s \<leftarrow> cstr m 0;
     (case strstr s str of None \<Rightarrow> Some (m, n)
      | Some offset \<Rightarrow> do {
          m \<leftarrow> blk_move m offset (offset + string_len) (u32 (sub32 n (offset + string_len) + 1));
          remove_string_loop str string_len m (sub32 n string_len) }) }"

definition http2d_buffer_remove_string :: "buffer \<Rightarrow> byte list \<Rightarrow> nat \<Rightarrow> (ret_t \<times> buffer) option" where
  "http2d_buffer_remove_string b str string_len =
     (if len b \<le> 0 then Some (ret_ok, b)
      else do {
        m \<leftarrow> buf b;
        (m, n) \<leftarrow> remove_string_loop str string_len m (len b);
        Some (ret_ok, b\<lparr>buf := Some m, len := n\<rparr>) })"

subsection \<open>Replacing\<close>

text \<open>The value of an \<open>int\<close> expression: signed overflow has no defined result.\<close>

definition int32 :: "int \<Rightarrow> int option" where
  "int32 i = (if - (2 ^ 31) \<le> i \<and> i < 2 ^ 31 then Some i else None)"

text \<open>The first loop: where the search stopped and the length of the result.\<close>

partial_function (option) replace_length ::
  "block \<Rightarrow> byte list \<Rightarrow> nat \<Rightarrow> nat \<Rightarrow> nat \<Rightarrow> int \<Rightarrow> (nat \<times> int) option" where
  "replace_length m substring substring_length replacement_length p result_length = do {
     s \<leftarrow> cstr m p;
     (case strstr s substring of None \<Rightarrow> Some (p, result_length)
      | Some k \<Rightarrow> do {
          r \<leftarrow> int32 (result_length + (int replacement_length - int substring_length));
          replace_length m substring substring_length replacement_length (p + k + substring_length) r }) }"

text \<open>The second loop copies into the block \<open>res\<close> at \<open>pos\<close>. The length of the final piece is a
  function of its start: \<open>strlen (p)\<close> in one caller, a pointer difference in the other.\<close>

partial_function (option) replace_build ::
  "(nat \<Rightarrow> nat option) \<Rightarrow> block \<Rightarrow> byte list \<Rightarrow> nat \<Rightarrow> block \<Rightarrow> nat \<Rightarrow> nat \<Rightarrow> block \<Rightarrow> nat \<Rightarrow> (block \<times> nat) option" where
  "replace_build remaining m substring substring_length replacement replacement_length p res pos = do {
     s \<leftarrow> cstr m p;
     (case strstr s substring of
        None \<Rightarrow> do {
          n \<leftarrow> remaining p;
          bs \<leftarrow> blk_read m p n;
          res \<leftarrow> blk_write res pos bs;
          Some (res, pos + n) }
      | Some k \<Rightarrow> do {
          bs \<leftarrow> blk_read m p k;
          res \<leftarrow> blk_write res pos bs;
          rs \<leftarrow> blk_read replacement 0 replacement_length;
          res \<leftarrow> blk_write res (pos + k) rs;
          replace_build remaining m substring substring_length replacement replacement_length
            (p + k + substring_length) res (pos + k + replacement_length) }) }"

text \<open>A \<open>NULL\<close> pointer argument is \<open>None\<close>; a pattern is the C string it points to.\<close>

definition http2d_buffer_replace_string ::
  "heap \<Rightarrow> buffer \<Rightarrow> byte list option \<Rightarrow> int \<Rightarrow> block option \<Rightarrow> int \<Rightarrow> (ret_t \<times> buffer) option" where
  "http2d_buffer_replace_string h b substring substring_length replacement replacement_length =
     (if replacement = None \<and> replacement_length \<noteq> 0 then Some (ret_deny, b)
      else
        (let replacement = (case replacement of None \<Rightarrow> [0] | Some r \<Rightarrow> r)
         in case (buf b, substring) of
              (Some m, Some sub) \<Rightarrow>
                (if substring_length < 1 \<or> replacement_length < 0 then Some (ret_deny, b)
                 else do {
                   (p, result_length) \<leftarrow>
                     replace_length m sub (nat substring_length) (nat replacement_length) 0 (s32 (len b));
                   (if p = 0 then Some (ret_ok, b)
                    else if result_length < 1 then do {
                      m \<leftarrow> blk_set m 0 0;
                      Some (ret_ok, b\<lparr>buf := Some m, len := 0\<rparr>) }
                    else
                      case malloc h (nat result_length + 1) of None \<Rightarrow> Some (ret_nomem, b)
                      | Some res \<Rightarrow> do {
                          (res, pos) \<leftarrow> replace_build (\<lambda>p. map_option length (cstr m p)) m sub
                             (nat substring_length) replacement (nat replacement_length) 0 res 0;
                          res \<leftarrow> blk_set res pos 0;
                          Some (ret_ok, b\<lparr>buf := Some res, len := nat result_length,
                                          bsize := nat result_length + 1\<rparr>) }) })
            | _ \<Rightarrow> Some (ret_deny, b)))"

text \<open>The source and the destination are different buffers; the result is that of the
  destination. The return value of \<open>http2d_buffer_ensure_size\<close> is not looked at.\<close>

definition http2d_buffer_substitute_string ::
  "heap \<Rightarrow> buffer \<Rightarrow> buffer \<Rightarrow> byte list option \<Rightarrow> int \<Rightarrow> block option \<Rightarrow> int \<Rightarrow> (ret_t \<times> buffer) option" where
  "http2d_buffer_substitute_string h src dst substring substring_length replacement replacement_length =
     (case (buf src, buf dst, substring, replacement) of
        (Some m, Some d, Some sub, Some repl) \<Rightarrow>
          (if substring_length < 1 \<or> replacement_length < 0 then Some (ret_deny, dst)
           else do {
             d \<leftarrow> blk_set d 0 0;
             dst \<leftarrow> Some (dst\<lparr>buf := Some d, len := 0\<rparr>);
             (p, result_length) \<leftarrow>
               replace_length m sub (nat substring_length) (nat replacement_length) 0 (s32 (len src));
             (if p = 0 then Some (ret_not_found, dst)
              else if result_length < 1 then Some (ret_ok, dst)
              else
                (let (_, dst) = http2d_buffer_ensure_size h dst (nat result_length + 2)
                 in do {
                   d \<leftarrow> buf dst;
                   (d, pos) \<leftarrow> replace_build (\<lambda>p. if p \<le> len src then Some (len src - p) else None) m sub
                     (nat substring_length) repl (nat replacement_length) 0 d 0;
                   d \<leftarrow> blk_set d pos 0;
                   Some (ret_ok, dst\<lparr>buf := Some d, len := nat result_length\<rparr>) })) })
      | _ \<Rightarrow> Some (ret_deny, dst))"

subsection \<open>Splitting lines\<close>

text \<open>The \<open>for\<close> loop: \<open>p\<close> and \<open>prev_space\<close> are offsets into the chunk. After an insertion the C
  text recomputes \<open>p\<close> from the possibly moved chunk.\<close>

partial_function (option) split_lines_loop ::
  "heap \<Rightarrow> int \<Rightarrow> block option \<Rightarrow> nat \<Rightarrow> buffer \<Rightarrow> nat \<Rightarrow> nat option \<Rightarrow> int \<Rightarrow> buffer option" where
  "split_lines_loop h columns indent indent_len b p prev_space since_prev =
     (if \<not> p < len b then Some b
      else do {
        m \<leftarrow> buf b;
        c \<leftarrow> blk_get m p;
        (let since_prev = since_prev + 1
         in if c \<noteq> chr CHR '' '' then
              split_lines_loop h columns indent indent_len b (p + 1) prev_space since_prev
            else
              (let prev_space = (if prev_space = None \<or> since_prev \<le> columns then Some p else prev_space)
               in if \<not> since_prev \<ge> columns then
                    split_lines_loop h columns indent indent_len b (p + 1) prev_space since_prev
                  else
                    (let (latest_newline, since_prev) =
                       (case prev_space of Some q \<Rightarrow> (q, int p - int q) | None \<Rightarrow> (p, 0))
                     in do {
                       m \<leftarrow> blk_set m latest_newline 10;
                       b \<leftarrow> Some (b\<lparr>buf := Some m\<rparr>);
                       (case indent of
                          None \<Rightarrow> split_lines_loop h columns indent indent_len b (p + 1) None since_prev
                        | Some ind \<Rightarrow> do {
                            (_, b) \<leftarrow> http2d_buffer_insert h b ind indent_len (latest_newline + 1);
                            split_lines_loop h columns indent indent_len b (p + indent_len + 1) None
                              (since_prev + int indent_len) }) }))) })"

definition http2d_buffer_split_lines ::
  "heap \<Rightarrow> buffer \<Rightarrow> int \<Rightarrow> block option \<Rightarrow> (ret_t \<times> buffer) option" where
  "http2d_buffer_split_lines h b columns indent = do {
     indent_len \<leftarrow> (case indent of None \<Rightarrow> Some 0 | Some ind \<Rightarrow> map_option length (cstr ind 0));
     b \<leftarrow> split_lines_loop h columns indent indent_len b 0 None 0;
     Some (ret_ok, b) }"

subsection \<open>Reference functions\<close>

function remove_all :: "byte list \<Rightarrow> byte list \<Rightarrow> byte list" where
  "remove_all pat s =
     (if pat = [] then s
      else case strstr s pat of None \<Rightarrow> s
        | Some k \<Rightarrow> remove_all pat (take k s @ drop (k + length pat) s))"
  by pat_completeness auto
termination
proof (relation "measure (\<lambda>(pat, s). length s)")
  fix pat s :: "byte list" and k assume "pat \<noteq> []" "strstr s pat = Some k"
  with strstr_bound [of s pat k] show "((pat, take k s @ drop (k + length pat) s), (pat, s)) \<in> measure (\<lambda>(pat, s). length s)"
    by (cases pat) auto
qed simp

function replace_all :: "byte list \<Rightarrow> byte list \<Rightarrow> byte list \<Rightarrow> byte list" where
  "replace_all pat repl s =
     (if pat = [] then s
      else case strstr s pat of None \<Rightarrow> s
        | Some k \<Rightarrow> take k s @ repl @ replace_all pat repl (drop (k + length pat) s))"
  by pat_completeness auto
termination
proof (relation "measure (\<lambda>(pat, repl, s). length s)")
  fix pat repl s :: "byte list" and k assume "pat \<noteq> []" "strstr s pat = Some k"
  with strstr_bound [of s pat k] show "((pat, repl, drop (k + length pat) s), (pat, repl, s)) \<in> measure (\<lambda>(pat, repl, s). length s)"
    by (cases pat) auto
qed simp

declare remove_all.simps [simp del] replace_all.simps [simp del]

lemma remove_all_clean: "pat \<noteq> [] \<Longrightarrow> strstr (remove_all pat s) pat = None"
  by (induction pat s rule: remove_all.induct) (subst remove_all.simps, auto split: option.splits)

subsection \<open>Chunks that hold a C string\<close>

text \<open>\<open>holds m s\<close>: the chunk starts with the text \<open>s\<close>, which has no zero byte, and its zero.\<close>

definition holds :: "block \<Rightarrow> byte list \<Rightarrow> bool" where
  "holds m s \<longleftrightarrow> take (length s) m = s \<and> length s < length m \<and> m ! length s = 0 \<and> 0 \<notin> set s"

lemma buf_rep_holds:
  assumes "buf_rep b s" "buf b = Some m" "0 \<notin> set s"
  shows "holds m s" "length s < bsize b" "bsize b \<le> length m" "bsize b < 2 ^ 31" "len b = length s"
  using assms by (auto simp: holds_def elim: buf_rep_cases)

lemma holds_rep:
  assumes "holds m s" "length s < bsize b" "bsize b \<le> length m" "bsize b < 2 ^ 31"
  shows "buf_rep (b\<lparr>buf := Some m, len := length s\<rparr>) s"
  using assms by (intro buf_repI [where m = m]) (auto simp: holds_def)

lemma cstr_holds: "holds m s \<Longrightarrow> p \<le> length s \<Longrightarrow> cstr m p = Some (drop p s)"
proof -
  assume h: "holds m s" and p: "p \<le> length s"
  have "take (length s - p) (drop p m) = drop p s"
    using h p drop_take [of p "length s" m] by (simp add: holds_def)
  with h p show ?thesis
    by (intro cstr_Some [of "length s - p"]) (auto simp: holds_def dest: in_set_dropD)
qed

lemma cut_block:
  assumes "holds m s" "k + n \<le> length s"
  obtains m' where "blk_move m k (k + n) (Suc (length s - (k + n))) = Some m'"
    "holds m' (take k s @ drop (k + n) s)" "length m' = length m"
proof -
  define t where "t = take k s @ drop (k + n) s"
  define m' where "m' = t @ [0] @ drop (k + Suc (length s - (k + n))) m"
  have h: "take (length s) m = s" "length s < length m" "m ! length s = 0" "0 \<notin> set s" using assms(1) by (auto simp: holds_def)
  have p: "take (Suc (length s - (k + n))) (drop (k + n) m) = drop (k + n) s @ [0]"
    using chunk_prefix [OF h(1-3)] assms(2) drop_take [of "k + n" "Suc (length s)" m] by (simp add: Suc_diff_le)
  have tk: "take k m = take k s" by (rule take_of_take [OF h(1)]) (use assms(2) in simp)
  have "blk_move m k (k + n) (Suc (length s - (k + n))) = Some m'"
    using h(2) assms(2) p tk by (simp add: blk_move_in m'_def t_def)
  moreover have "0 \<notin> set t" using h(4) by (auto simp: t_def dest: in_set_takeD in_set_dropD)
  then have "holds m' t" by (simp add: holds_def m'_def)
  moreover have "length m' = length m" using h(2) assms(2) by (simp add: m'_def t_def)
  ultimately show thesis using that [of m'] by (simp add: t_def)
qed

lemma remove_string_loop_spec:
  assumes "holds m s" "pat \<noteq> []" "length s < 2 ^ 31"
  shows "\<exists>m'. remove_string_loop pat (length pat) m (length s) = Some (m', length (remove_all pat s)) \<and>
    holds m' (remove_all pat s) \<and> length m' = length m \<and> length (remove_all pat s) \<le> length s"
  using assms
proof (induction s arbitrary: m rule: length_induct)
  case (1 s)
  have c: "cstr m 0 = Some s" using cstr_holds [OF "1.prems"(1), of 0] by simp
  show ?case
  proof (cases "strstr s pat")
    case None
    then have "remove_all pat s = s" by (subst remove_all.simps) simp
    with None c "1.prems"(1) show ?thesis by (subst remove_string_loop.simps) simp
  next
    case (Some k)
    have kb: "k + length pat \<le> length s" by (rule strstr_bound [OF Some])
    define t where "t = take k s @ drop (k + length pat) s"
    obtain m1 where m1: "blk_move m k (k + length pat) (Suc (length s - (k + length pat))) = Some m1"
        "holds m1 t" "length m1 = length m"
      using cut_block [OF "1.prems"(1) kb] unfolding t_def by metis
    have pat: "0 < length pat" using "1.prems"(2) by simp
    have lt: "length t = length s - length pat" using kb by (simp add: t_def)
    with kb pat have lt: "length t = length s - length pat" "length t < length s" by linarith+
    have u: "u32 (sub32 (length s) (k + length pat) + 1) = Suc (length s - (k + length pat))"
        "sub32 (length s) (length pat) = length t"
      using kb "1.prems"(3) lt by (simp_all add: int_simps)
    have e: "remove_string_loop pat (length pat) m (length s) = remove_string_loop pat (length pat) m1 (length t)"
      using c Some m1(1) u by (subst remove_string_loop.simps) simp
    have r: "remove_all pat s = remove_all pat t" using Some "1.prems"(2) by (subst remove_all.simps) (simp add: t_def)
    have "\<exists>m'. remove_string_loop pat (length pat) m1 (length t) = Some (m', length (remove_all pat t)) \<and>
        holds m' (remove_all pat t) \<and> length m' = length m1 \<and> length (remove_all pat t) \<le> length t"
      using "1.IH" lt(2) m1(2) "1.prems" by auto
    then show ?thesis unfolding e r using m1(3) lt by auto
  qed
qed

lemma remove_string_rep:
  assumes "buf_rep b s" "pat \<noteq> []" "0 \<notin> set s"
  shows "\<exists>b'. http2d_buffer_remove_string b pat (length pat) = Some (ret_ok, b') \<and> buf_rep b' (remove_all pat s)"
proof (cases "s = []")
  case True
  have "strstr [] pat = None" using assms(2) by simp
  with True assms buf_rep_len [OF assms(1)] show ?thesis
    by (simp add: http2d_buffer_remove_string_def remove_all.simps)
next
  case False
  then obtain m where m: "buf b = Some m" using assms(1) by (auto elim: buf_rep_cases)
  note h = buf_rep_holds [OF assms(1) m assms(3)]
  obtain m' where m': "remove_string_loop pat (length pat) m (length s) = Some (m', length (remove_all pat s))"
      "holds m' (remove_all pat s)" "length m' = length m" "length (remove_all pat s) \<le> length s"
    using remove_string_loop_spec [OF h(1) assms(2)] h(2,4) by auto
  have "buf_rep (b\<lparr>buf := Some m', len := length (remove_all pat s)\<rparr>) (remove_all pat s)"
    by (rule holds_rep [OF m'(2)]) (use m' h in auto)
  with False m m' h show ?thesis by (simp add: http2d_buffer_remove_string_def)
qed


subsection \<open>Replacing\<close>

lemma replace_all_None: "strstr s pat = None \<Longrightarrow> replace_all pat repl s = s"
  by (subst replace_all.simps) simp

lemma replace_all_Some:
  "strstr s pat = Some k \<Longrightarrow> pat \<noteq> [] \<Longrightarrow>
   replace_all pat repl s = take k s @ repl @ replace_all pat repl (drop (k + length pat) s)"
  by (subst replace_all.simps) simp

text \<open>Both loops keep the intermediate lengths inside \<open>int\<close> when the two extremes fit.\<close>

lemma replace_length_spec:
  assumes "holds m s" "pat \<noteq> []" "p \<le> length s" "- (2 ^ 31) \<le> acc - int (length s - p)"
    and "acc + int (length s - p) * int nr < 2 ^ 31"
  shows "\<exists>p'. replace_length m pat (length pat) nr p acc =
      Some (p', acc + int (length (replace_all pat (replicate nr x) (drop p s))) - int (length s - p)) \<and>
    (p' = p \<longleftrightarrow> strstr (drop p s) pat = None) \<and> p \<le> p'"
  using assms(3-5)
proof (induction "length s - p" arbitrary: p acc rule: less_induct)
  case less
  have c: "cstr m p = Some (drop p s)" by (rule cstr_holds [OF assms(1) less.prems(1)])
  show ?case
  proof (cases "strstr (drop p s) pat")
    case None
    with c show ?thesis by (subst replace_length.simps) (simp add: replace_all_None)
  next
    case (Some k)
    define q where "q = p + k + length pat"
    have pat: "0 < length pat" using assms(2) by simp
    have kp: "k + length pat \<le> length s - p" using strstr_bound [OF Some] by simp
    with pat less.prems(1) have q: "q \<le> length s" "p < q" "length s - q < length s - p" "k + length pat \<le> length s - p"
      unfolding q_def by linarith+
    define acc1 where "acc1 = acc + (int nr - int (length pat))"
    have le: "int (length s - p) = int k + int (length pat) + int (length s - q)" using q by (simp add: q_def)
    have mono: "int nr \<le> int (length s - p) * int nr - int (length s - q) * int nr"
    proof -
      have "int (length s - p) * int nr - int (length s - q) * int nr = (int k + int (length pat)) * int nr"
        unfolding le by (simp add: algebra_simps)
      moreover have "1 * int nr \<le> (int k + int (length pat)) * int nr"
      proof (rule mult_right_mono)
        show "1 \<le> int k + int (length pat)" using pat by linarith
      qed simp
      ultimately show ?thesis by simp
    qed
    have b: "- (2 ^ 31) \<le> acc1 - int (length s - q)" "acc1 + int (length s - q) * int nr < 2 ^ 31"
        "- (2 ^ 31) \<le> acc1" "acc1 < 2 ^ 31"
    proof -
      have nn: "0 \<le> int (length s - q) * int nr" "0 < int (length pat)" using pat by simp_all
      from less.prems(2,3) le mono nn show "- (2 ^ 31) \<le> acc1 - int (length s - q)"
          "acc1 + int (length s - q) * int nr < 2 ^ 31" "- (2 ^ 31) \<le> acc1" "acc1 < 2 ^ 31"
        unfolding acc1_def by linarith+
    qed
    have e: "replace_length m pat (length pat) nr p acc = replace_length m pat (length pat) nr q acc1"
      using c Some b by (subst replace_length.simps) (simp add: int32_def q_def acc1_def)
    have r: "replace_all pat (replicate nr x) (drop p s)
        = take k (drop p s) @ replicate nr x @ replace_all pat (replicate nr x) (drop q s)"
      using replace_all_Some [OF Some assms(2)] by (simp add: q_def add.commute add.left_commute)
    obtain p' where p': "replace_length m pat (length pat) nr q acc1 =
        Some (p', acc1 + int (length (replace_all pat (replicate nr x) (drop q s))) - int (length s - q))" "q \<le> p'"
      using less.hyps [OF q(3,1) b(1,2)] by auto
    have "length (take k (drop p s)) = k" using q by simp
    then show ?thesis unfolding e using p' q(2) Some le
      by (auto simp: r acc1_def)
  qed
qed


lemma write_at:
  assumes "pos + length bs \<le> length res"
  obtains res' where "blk_write res pos bs = Some res'" "length res' = length res"
    "take (pos + length bs) res' = take pos res @ bs"
  using assms by (intro that [of "take pos res @ bs @ drop (pos + length bs) res"]) (auto simp: blk_write_in)

lemma replace_build_spec:
  assumes "holds m s" "pat \<noteq> []" "repl = take nr rblk" "nr \<le> length rblk"
    and "\<And>q. q \<le> length s \<Longrightarrow> remaining q = Some (length s - q)"
    and "p \<le> length s" "pos + length (replace_all pat repl (drop p s)) \<le> length res"
  shows "\<exists>res'. replace_build remaining m pat (length pat) rblk nr p res pos =
      Some (res', pos + length (replace_all pat repl (drop p s))) \<and> length res' = length res \<and>
    take (pos + length (replace_all pat repl (drop p s))) res' = take pos res @ replace_all pat repl (drop p s)"
  using assms(6,7)
proof (induction "length s - p" arbitrary: p pos res rule: less_induct)
  case less
  have c: "cstr m p = Some (drop p s)" by (rule cstr_holds [OF assms(1) less.prems(1)])
  have m: "take (length s) m = s" "length s < length m" using assms(1) by (auto simp: holds_def)
  have rd: "blk_read m p k = Some (take k (drop p s))" if "p + k \<le> length s" for k
  proof -
    have "take k (drop p m) = take k (drop p s)"
      using take_of_take [OF m(1) that] by (metis add.commute take_drop)
    then show ?thesis using m(2) that by (simp add: blk_read_in)
  qed
  show ?case
  proof (cases "strstr (drop p s) pat")
    case None
    then have r: "replace_all pat repl (drop p s) = drop p s" by (rule replace_all_None)
    obtain res' where "blk_write res pos (drop p s) = Some res'" "length res' = length res"
        "take (pos + length (drop p s)) res' = take pos res @ drop p s"
      using write_at [of pos "drop p s" res] less.prems(2) unfolding r by blast
    with None c rd [of "length s - p"] assms(5) [OF less.prems(1)] less.prems(1) show ?thesis
      unfolding r by (subst replace_build.simps) simp
  next
    case (Some k)
    define q where "q = p + k + length pat"
    define R where "R = replace_all pat repl (drop q s)"
    have pat: "0 < length pat" using assms(2) by simp
    have kp: "k + length pat \<le> length s - p" using strstr_bound [OF Some] by simp
    with pat less.prems(1) have q: "q \<le> length s" "p + k \<le> length s" "length s - q < length s - p"
      unfolding q_def by linarith+
    have r: "replace_all pat repl (drop p s) = take k (drop p s) @ repl @ R"
      using replace_all_Some [OF Some assms(2)] by (simp add: R_def q_def add.commute add.left_commute)
    have l: "length (take k (drop p s)) = k" "length repl = nr" using q assms(3,4) by auto
    have room: "pos + k + nr + length R \<le> length res" using less.prems(2) l by (simp add: r)
    obtain res1 where r1: "blk_write res pos (take k (drop p s)) = Some res1" "length res1 = length res"
        "take (pos + k) res1 = take pos res @ take k (drop p s)"
      using write_at [of pos "take k (drop p s)" res] room unfolding l by auto
    obtain res2 where r2: "blk_write res1 (pos + k) repl = Some res2" "length res2 = length res1"
        "take (pos + k + nr) res2 = take (pos + k) res1 @ repl"
      using write_at [of "pos + k" repl res1] room r1(2) unfolding l by auto
    have rp: "blk_read rblk 0 nr = Some repl" using assms(3,4) by (simp add: blk_read_in)
    have e: "replace_build remaining m pat (length pat) rblk nr p res pos =
        replace_build remaining m pat (length pat) rblk nr q res2 (pos + k + nr)"
      using c Some rd [OF q(2)] r1(1) r2(1) rp by (subst replace_build.simps) (simp add: q_def)
    have "\<exists>res'. replace_build remaining m pat (length pat) rblk nr q res2 (pos + k + nr) =
          Some (res', pos + k + nr + length R) \<and> length res' = length res2 \<and>
        take (pos + k + nr + length R) res' = take (pos + k + nr) res2 @ R"
      using less.hyps [OF q(3,1), of "pos + k + nr" res2] room r1(2) r2(2) by (simp add: R_def)
    moreover have le: "pos + length (replace_all pat repl (drop p s)) = pos + k + nr + length R" using l by (simp add: r)
    ultimately show ?thesis using r1(2,3) r2(2,3) unfolding e le by (auto simp: r)
  qed
qed

lemma length_replace_all_replicate:
  "length (replace_all pat repl s) = length (replace_all pat (replicate (length repl) x) s)"
proof (induction pat repl s rule: replace_all.induct)
  case (1 pat repl s)
  then show ?case
    by (subst (1 2) replace_all.simps) (auto split: option.splits)
qed

lemma length_replace_all: "length (replace_all pat repl s) \<le> length s + length s * length repl"
proof (induction pat repl s rule: replace_all.induct)
  case (1 pat repl s)
  show ?case
  proof (cases "pat = [] \<or> strstr s pat = None")
    case True
    then have "replace_all pat repl s = s" by (subst replace_all.simps) auto
    then show ?thesis by simp
  next
    case False
    then obtain k where k: "strstr s pat = Some k" "pat \<noteq> []" by auto
    define t where "t = drop (k + length pat) s"
    have pat: "0 < length pat" using k by simp
    have kb: "length s = k + length pat + length t" using strstr_bound [OF k(1)] by (simp add: t_def)
    have IH: "length (replace_all pat repl t) \<le> length t + length t * length repl" using 1 k by (simp add: t_def)
    have lk: "length (take k s) = k" using kb by simp
    have "length repl + length t * length repl = (1 + length t) * length repl" by simp
    also have "\<dots> \<le> length s * length repl" using kb pat by (intro mult_right_mono) linarith+
    finally have "length repl + length t * length repl \<le> length s * length repl" .
    with IH kb lk pat show ?thesis unfolding replace_all_Some [OF k] t_def [symmetric] length_append by linarith
  qed
qed

lemma replace_length_total:
  assumes "holds m s" "pat \<noteq> []" "length s + length s * length repl + 1 < 2 ^ 31"
  obtains p where "replace_length m pat (length pat) (length repl) 0 (s32 (length s)) =
      Some (p, int (length (replace_all pat repl s)))" "p = 0 \<longleftrightarrow> strstr s pat = None"
proof -
  have b: "length s < 2 ^ 31" "length s + length s * length repl < 2 ^ 31" using assms(3) by linarith+
  have "int (length s + length s * length repl) < int (2 ^ 31)" using b(2) by (simp only: of_nat_less_iff)
  then have "int (length s) + int (length s - 0) * int (length repl) < 2 ^ 31" by simp
  then show thesis
    using replace_length_spec [OF assms(1,2), of 0 "int (length s)" "length repl" 0] b(1) that
    by (auto simp: s32_id length_replace_all_replicate [of pat repl s 0])
qed

lemma replace_string_rep:
  assumes "buf_rep b s" "buf b = Some m" "0 \<notin> set s" "pat \<noteq> []" "nr \<le> length rblk"
    and "length s + length s * nr + 1 < 2 ^ 31" "\<And>n. malloc_ok h n"
  shows "\<exists>b'. http2d_buffer_replace_string h b (Some pat) (int (length pat)) (Some rblk) (int nr) = Some (ret_ok, b') \<and>
    buf_rep b' (replace_all pat (take nr rblk) s)"
proof -
  define repl where "repl = take nr rblk"
  define R where "R = replace_all pat repl s"
  have nr: "length repl = nr" using assms(5) by (simp add: repl_def)
  note h = buf_rep_holds [OF assms(1-3)]
  have pat: "\<not> int (length pat) < 1" using assms(4) by (cases pat) auto
  have sz: "length s + length s * length repl + 1 < 2 ^ 31" using assms(6) by (simp only: nr)
  obtain p where p: "replace_length m pat (length pat) nr 0 (s32 (length s)) = Some (p, int (length R))"
      "p = 0 \<longleftrightarrow> strstr s pat = None"
    using replace_length_total [OF h(1) assms(4) sz] unfolding R_def nr .
  have lR: "length R + 1 < 2 ^ 31" using length_replace_all [of pat repl s] sz unfolding R_def by linarith
  have e: "http2d_buffer_replace_string h b (Some pat) (int (length pat)) (Some rblk) (int nr) =
     (if p = 0 then Some (ret_ok, b)
      else if int (length R) < 1 then do { m \<leftarrow> blk_set m 0 0; Some (ret_ok, b\<lparr>buf := Some m, len := 0\<rparr>) }
      else case malloc h (length R + 1) of None \<Rightarrow> Some (ret_nomem, b)
        | Some res \<Rightarrow> do {
            (res, pos) \<leftarrow> replace_build (\<lambda>p. map_option length (cstr m p)) m pat (length pat) rblk nr 0 res 0;
            res \<leftarrow> blk_set res pos 0;
            Some (ret_ok, b\<lparr>buf := Some res, len := length R, bsize := length R + 1\<rparr>) })"
    using assms(2) pat p(1) h(5) by (simp add: http2d_buffer_replace_string_def split: option.split)
  consider "p = 0" | "p \<noteq> 0" "R = []" | "p \<noteq> 0" "R \<noteq> []" by blast
  then show ?thesis
  proof cases
    case 1
    then have "R = s" using p(2) replace_all_None unfolding R_def by blast
    with 1 assms(1) show ?thesis unfolding e R_def [symmetric] repl_def [symmetric] by simp
  next
    case 2
    have "holds (m[0 := 0]) []" using h(1) by (cases m) (auto simp: holds_def)
    then have "buf_rep (b\<lparr>buf := Some (m[0 := 0]), len := 0\<rparr>) []"
      using holds_rep [of "m[0 := 0]" "[]" b] h by simp
    moreover have "blk_set m 0 0 = Some (m[0 := 0])" using h(2,3) by (intro blk_set_in) linarith
    ultimately show ?thesis using 2 unfolding e R_def [symmetric] repl_def [symmetric] by simp
  next
    case 3
    obtain res where res: "malloc h (length R + 1) = Some res" "length res = length R + 1"
      using assms(7) length_malloc by (auto simp: malloc_def)
    have rem: "map_option length (cstr m q) = Some (length s - q)" if "q \<le> length s" for q
      using cstr_holds [OF h(1) that] by simp
    obtain res' where r': "replace_build (\<lambda>p. map_option length (cstr m p)) m pat (length pat) rblk nr 0 res 0 = Some (res', length R)"
        "length res' = length res" "take (length R) res' = R"
      using replace_build_spec [OF h(1) assms(4) repl_def assms(5), of "\<lambda>p. map_option length (cstr m p)" 0 0 res] rem res(2)
      by (auto simp: R_def)
    have "buf_rep (b\<lparr>buf := Some (res'[length R := 0]), len := length R, bsize := length R + 1\<rparr>) R"
      by (rule buf_repI [where m = "res'[length R := 0]"]) (use r' res lR in auto)
    moreover have "blk_set res' (length R) 0 = Some (res'[length R := 0])" using r'(2) res(2) by (intro blk_set_in) simp
    ultimately show ?thesis using 3 res(1) r'(1) unfolding e R_def [symmetric] repl_def [symmetric] by simp
  qed
qed

subsection \<open>Substituting into another buffer\<close>

lemma substitute_string_rep:
  assumes "buf_rep src s" "buf src = Some m" "0 \<notin> set s" "pat \<noteq> []" "nr \<le> length rblk"
    and "length s + length s * nr + 2 < 2 ^ 31" "\<And>n. malloc_ok h n" "buf_rep dst t" "buf dst = Some d"
  shows "\<exists>r b'. http2d_buffer_substitute_string h src dst (Some pat) (int (length pat)) (Some rblk) (int nr) = Some (r, b') \<and>
    (if strstr s pat = None then r = ret_not_found \<and> buf_rep b' []
     else r = ret_ok \<and> buf_rep b' (replace_all pat (take nr rblk) s))"
proof -
  define repl where "repl = take nr rblk"
  define R where "R = replace_all pat repl s"
  have nr: "length repl = nr" using assms(5) by (simp add: repl_def)
  note h = buf_rep_holds [OF assms(1-3)]
  have pat: "\<not> int (length pat) < 1" using assms(4) by (cases pat) auto
  have sz: "length s + length s * length repl + 1 < 2 ^ 31" using assms(6) unfolding nr by linarith
  obtain p where p: "replace_length m pat (length pat) nr 0 (s32 (length s)) = Some (p, int (length R))"
      "p = 0 \<longleftrightarrow> strstr s pat = None"
    using replace_length_total [OF h(1) assms(4) sz] unfolding R_def nr .
  have lR: "length R + 2 < 2 ^ 31" using length_replace_all [of pat repl s] assms(6) unfolding R_def nr by linarith
  obtain dst1 where d1: "http2d_buffer_clean dst = Some dst1" "buf_rep dst1 []" "buf dst1 = None \<longleftrightarrow> buf dst = None"
    using http2d_buffer_clean_rep [of dst] assms(8) by (metis buf_rep_def)
  have ok1: "buffer_ok dst1" "buf_str dst1 = []" using d1(2) by (auto simp: buf_rep_def)
  obtain dst2 where d2: "http2d_buffer_ensure_size h dst1 (length R + 2) = (ret_ok, dst2)" "buffer_ok dst2"
      "length R + 2 \<le> bsize dst2" "buf dst2 \<noteq> None"
    using http2d_buffer_ensure_size_ok [OF ok1(1) lR assms(7)] by (metis add_gr_0 zero_less_numeral)
  then obtain q where q: "buf dst2 = Some q" "bsize dst2 \<le> length q" "bsize dst2 < 2 ^ 31"
    by (auto simp: buffer_ok_def)
  define rem where "rem = (\<lambda>p. if p \<le> len src then Some (len src - p) else None)"
  obtain q' where q': "replace_build rem m pat (length pat) rblk nr 0 q 0 = Some (q', length R)"
      "length q' = length q" "take (length R) q' = R"
    using replace_build_spec [OF h(1) assms(4) repl_def assms(5), of rem 0 0 q] h(5) d2(3) q(2)
    by (auto simp: R_def rem_def)
  have rep: "buf_rep (dst2\<lparr>buf := Some (q'[length R := 0]), len := length R\<rparr>) R"
    by (rule put_zero) (use q' q d2 in auto)
  have st: "blk_set q' (length R) 0 = Some (q'[length R := 0])" using q' q d2 by (intro blk_set_in) linarith
  obtain d0 where d0: "blk_set d 0 0 = Some d0" "dst1 = dst\<lparr>buf := Some d0, len := 0\<rparr>"
    using d1(1) assms(9) by (auto simp: http2d_buffer_clean_def split: Option.bind_splits)
  have e: "http2d_buffer_substitute_string h src dst (Some pat) (int (length pat)) (Some rblk) (int nr) =
     (if p = 0 then Some (ret_not_found, dst1) else if int (length R) < 1 then Some (ret_ok, dst1)
      else Some (ret_ok, dst2\<lparr>buf := Some (q'[length R := 0]), len := length R\<rparr>))"
    using assms(2,9) pat p(1) h(5) d0(1) d2(1) q(1) q'(1) st
    by (simp add: http2d_buffer_substitute_string_def rem_def d0(2) [symmetric])
  show ?thesis
  proof (cases "p = 0")
    case True
    with p(2) d1(2) show ?thesis unfolding e by simp
  next
    case False
    then have "strstr s pat \<noteq> None" using p(2) by simp
    with False rep d1(2) show ?thesis unfolding e R_def [symmetric] repl_def [symmetric] by auto
  qed
qed

subsection \<open>Splitting lines\<close>

text \<open>Only blanks change, and only into line ends.\<close>

definition wrapped :: "byte list \<Rightarrow> byte list \<Rightarrow> bool" where
  "wrapped s t \<longleftrightarrow> list_all2 (\<lambda>c d. d = c \<or> c = chr CHR '' '' \<and> d = 10) s t"

lemma wrapped_refl: "wrapped s s"
  by (simp add: wrapped_def list.rel_refl)

lemma wrapped_update: "wrapped s t \<Longrightarrow> q < length t \<Longrightarrow> t ! q = chr CHR '' '' \<Longrightarrow> wrapped s (t[q := 10])"
  by (auto simp: wrapped_def list_all2_conv_all_nth nth_list_update chr_def)

lemma set_rep:
  assumes "buf_rep b t" "buf b = Some m" "q < length t"
  shows "blk_set m q v = Some (m[q := v])" "buf_rep (b\<lparr>buf := Some (m[q := v])\<rparr>) (t[q := v])"
proof -
  have m: "len b = length t" "length t < bsize b" "bsize b \<le> length m" "bsize b < 2 ^ 31" "take (length t) m = t" "m ! length t = 0"
    using assms(1,2) by (auto elim: buf_rep_cases)
  show "blk_set m q v = Some (m[q := v])" using m assms(3) by (intro blk_set_in) linarith
  have "take (length t) (m[q := v]) = t[q := v]" using m(5) by (simp add: take_update_swap)
  then show "buf_rep (b\<lparr>buf := Some (m[q := v])\<rparr>) (t[q := v])"
    using m assms(3) by (intro buf_repI [where m = "m[q := v]"]) simp_all
qed

lemma split_lines_loop_wraps:
  assumes "buf_rep b t" "wrapped s t" "p \<le> length t"
    "\<And>q. prev_space = Some q \<Longrightarrow> q < p \<and> t ! q = chr CHR '' ''"
  shows "\<exists>b' t'. split_lines_loop h columns None n b p prev_space since_prev = Some b' \<and> buf_rep b' t' \<and> wrapped s t'"
  using assms
proof (induction "length t - p" arbitrary: b t p prev_space since_prev rule: less_induct)
  case less
  show ?case
  proof (cases "p < length t")
    case False
    with less.prems show ?thesis
      by (subst split_lines_loop.simps) (auto simp: buf_rep_len [OF less.prems(1)])
  next
    case True
    then obtain m where m: "buf b = Some m" using less.prems(1) by (auto elim: buf_rep_cases)
    have g: "blk_get m p = Some (t ! p)"
      using buf_rep_read [OF less.prems(1) m] True chunk_nth [of t m p] by (simp add: blk_get_def)
    define sp where "sp = since_prev + 1"
    define ps where "ps = (if prev_space = None \<or> sp \<le> columns then Some p else prev_space)"
    define q where "q = (case ps of Some q \<Rightarrow> q | None \<Rightarrow> p)"
    define sq where "sq = (case ps of Some q \<Rightarrow> int p - int q | None \<Rightarrow> 0)"
    have IH: "\<exists>b' t'. split_lines_loop h columns None n b1 (p + 1) pr sn = Some b' \<and> buf_rep b' t' \<and> wrapped s t'"
      if "buf_rep b1 t1" "wrapped s t1" "length t1 = length t" "\<And>q. pr = Some q \<Longrightarrow> q < p + 1 \<and> t1 ! q = chr CHR '' ''"
      for b1 t1 pr sn
      using that True by (intro less.hyps [of t1]) auto
    have e: "split_lines_loop h columns None n b p prev_space since_prev =
      (if t ! p \<noteq> chr CHR '' '' then split_lines_loop h columns None n b (p + 1) prev_space sp
       else if \<not> sp \<ge> columns then split_lines_loop h columns None n b (p + 1) ps sp
       else do { m \<leftarrow> blk_set m q 10; split_lines_loop h columns None n (b\<lparr>buf := Some m\<rparr>) (p + 1) None sq })"
      using True m g by (subst split_lines_loop.simps)
        (simp add: buf_rep_len [OF less.prems(1)] Let_def sp_def ps_def q_def sq_def split: option.split)
    consider "t ! p \<noteq> chr CHR '' ''" | "t ! p = chr CHR '' ''" "\<not> sp \<ge> columns" | "t ! p = chr CHR '' ''" "sp \<ge> columns" by blast
    then show ?thesis
    proof cases
      case 1
      with IH [OF less.prems(1,2) refl, of prev_space sp] less.prems(4) show ?thesis unfolding e by fastforce
    next
      case 2
      have "q < p + 1 \<and> t ! q = chr CHR '' ''" if "ps = Some q" for q
        using that 2(1) less.prems(4) by (auto simp: ps_def split: if_splits)
      with IH [OF less.prems(1,2) refl, of ps sp] 2 show ?thesis unfolding e by simp
    next
      case 3
      have q: "q < length t" "t ! q = chr CHR '' ''"
        using 3(1) True less.prems(4) by (auto simp: q_def ps_def split: option.splits if_splits)
      with IH [OF set_rep(2) [OF less.prems(1) m q(1), of 10] wrapped_update [OF less.prems(2) q], of None sq] 3
        set_rep(1) [OF less.prems(1) m q(1), of 10]
      show ?thesis unfolding e by simp
    qed
  qed
qed

subsection \<open>Properties\<close>

text \<open>C34: \<open>http2d_buffer_replace_string\<close> replaces every occurrence of the pattern, found from left
  to right without overlaps: the length computed by the first loop is the length the second
  loop writes, so the copies stay inside the new chunk and the result is the reference
  \<open>replace_all\<close>.\<close>

theorem http2d_buffer_replace_string_correct:
  assumes "buf_rep b s" "buf b \<noteq> None" "0 \<notin> set s" "pat \<noteq> []" "nr \<le> length rblk"
    and "length s + length s * nr + 1 < 2 ^ 31" "\<And>n. malloc_ok h n"
  shows "\<exists>b'. http2d_buffer_replace_string h b (Some pat) (int (length pat)) (Some rblk) (int nr) = Some (ret_ok, b') \<and>
    buf_rep b' (replace_all pat (take nr rblk) s)"
proof -
  obtain m where "buf b = Some m" using assms(2) by auto
  then show ?thesis by (rule replace_string_rep [OF assms(1) _ assms(3-7)])
qed

theorem http2d_buffer_replace_string_correct_witness:
  "\<exists>b'. http2d_buffer_replace_string (total_heap (\<lambda>_. 170)) (http2d_buffer_fake_str ''a$b$$'') (Some (lit ''$'')) 1
      (Some (lit ''xy'')) 2 = Some (ret_ok, b') \<and> buf_rep b' (lit ''axybxyxy'')"
proof -
  have "replace_all (lit ''$'') (take 2 (lit ''xy'')) (lit ''a$b$$'') = lit ''axybxyxy''" by code_simp
  moreover have "0 \<notin> set (lit ''a$b$$'')" by code_simp
  ultimately show ?thesis
    using http2d_buffer_replace_string_correct [OF http2d_buffer_fake_str_rep [of "''a$b$$''"], of "lit ''$''" 2 "lit ''xy''" "total_heap (\<lambda>_. 170)"]
    by (simp add: http2d_buffer_fake_str_def http2d_buffer_fake_def lit_def [of "''$''"])
qed

text \<open>\<open>http2d_buffer_remove_string\<close> terminates for every non-empty pattern and leaves a text in
  which the pattern does not occur any more, not even across a place where one was cut out.\<close>

theorem http2d_buffer_remove_string_correct:
  assumes "buf_rep b s" "pat \<noteq> []" "0 \<notin> set s"
  shows "\<exists>b' t. http2d_buffer_remove_string b pat (length pat) = Some (ret_ok, b') \<and> buf_rep b' t \<and>
    strstr t pat = None \<and> t = remove_all pat s"
  using remove_string_rep [OF assms] remove_all_clean [OF assms(2)] by blast

theorem http2d_buffer_remove_string_correct_witness:
  "\<exists>b'. http2d_buffer_remove_string (http2d_buffer_fake_str ''aabbc'') (lit ''ab'') 2 = Some (ret_ok, b') \<and>
    buf_rep b' (lit ''c'')"
proof -
  have "remove_all (lit ''ab'') (lit ''aabbc'') = lit ''c''" by code_simp
  moreover have "0 \<notin> set (lit ''aabbc'')" by code_simp
  moreover have "lit ''ab'' \<noteq> []" "length (lit ''ab'') = 2" by code_simp+
  ultimately show ?thesis
    using http2d_buffer_remove_string_correct [OF http2d_buffer_fake_str_rep [of "''aabbc''"], of "lit ''ab''"]
    by (simp only:) auto
qed


text \<open>\<open>http2d_buffer_substitute_string\<close> writes the text with every occurrence replaced and
  returns \<open>ret_ok\<close>; when the pattern does not occur it returns \<open>ret_not_found\<close>, and the
  destination has been emptied although the comment above the function promises that it is
  written only if an instance is found.\<close>

theorem http2d_buffer_substitute_string_correct:
  assumes "buf_rep src s" "buf src = Some m" "0 \<notin> set s" "pat \<noteq> []" "nr \<le> length rblk"
    and "length s + length s * nr + 2 < 2 ^ 31" "\<And>n. malloc_ok h n" "buf_rep dst t" "buf dst = Some d"
  shows "\<exists>r b'. http2d_buffer_substitute_string h src dst (Some pat) (int (length pat)) (Some rblk) (int nr) = Some (r, b') \<and>
    (if strstr s pat = None then r = ret_not_found \<and> buf_rep b' []
     else r = ret_ok \<and> buf_rep b' (replace_all pat (take nr rblk) s))"
  by (rule substitute_string_rep [OF assms])

theorem http2d_buffer_substitute_string_correct_witness:
  "\<exists>b'. http2d_buffer_substitute_string (total_heap (\<lambda>_. 170)) (http2d_buffer_fake_str ''abc'') (http2d_buffer_fake_str ''keep'')
      (Some (lit ''x'')) 1 (Some (lit ''y'')) 1 = Some (ret_not_found, b') \<and> buf_rep b' []"
proof -
  have "strstr (lit ''abc'') (lit ''x'') = None" "0 \<notin> set (lit ''abc'')" "lit ''x'' \<noteq> []"
      "int (length (lit ''x'')) = 1" "1 \<le> length (lit ''y'')"
    by code_simp+
  then show ?thesis
    using http2d_buffer_substitute_string_correct [OF http2d_buffer_fake_str_rep [of "''abc''"] _ _ _ _ _ _ http2d_buffer_fake_str_rep [of "''keep''"],
        of "lit ''abc'' @ [0]" "lit ''x''" 1 "lit ''y''" "total_heap (\<lambda>_. 170)" "lit ''keep'' @ [0]"]
    by (auto simp: http2d_buffer_fake_str_def http2d_buffer_fake_def)
qed

text \<open>\<open>http2d_buffer_split_lines\<close> without indentation always comes to an end, keeps the length and
  only turns blanks into line ends, whatever the number of columns.\<close>

theorem http2d_buffer_split_lines_correct:
  assumes "buf_rep b s"
  shows "\<exists>b' t. http2d_buffer_split_lines h b columns None = Some (ret_ok, b') \<and> buf_rep b' t \<and>
    length t = length s \<and> wrapped s t"
proof -
  obtain b' t where "split_lines_loop h columns None 0 b 0 None 0 = Some b'" "buf_rep b' t" "wrapped s t"
    using split_lines_loop_wraps [OF assms wrapped_refl, of 0 None h columns 0 0] by auto
  moreover from this have "length t = length s" by (simp add: wrapped_def list_all2_lengthD)
  ultimately show ?thesis by (auto simp: http2d_buffer_split_lines_def)
qed

theorem http2d_buffer_split_lines_correct_witness:
  "\<exists>b' t. http2d_buffer_split_lines (total_heap (\<lambda>_. 170)) (http2d_buffer_fake_str ''aa bb cc'') 4 None = Some (ret_ok, b') \<and>
    buf_rep b' t \<and> length t = length (lit ''aa bb cc'') \<and> wrapped (lit ''aa bb cc'') t"
  by (rule http2d_buffer_split_lines_correct [OF http2d_buffer_fake_str_rep]) simp

end
