(* ===== verification/Buffer_Escape.thy ===== *)
theory Buffer_Escape
  imports Buffer_Subst
begin

text \<open>
  Escaping in \<^verbatim>\<open>src/src/buffer.c\<close>: the UTF-8 stepping function and
  \<open>http2d_buffer_get_utf8_len\<close>, percent escapes (\<open>http2d_buffer_unescape_uri\<close>,
  \<open>escape_with_table\<close> and its three tables) and HTML entities. The table of hexadecimal
  digits is that of \<^verbatim>\<open>src/src/util.c\<close>. \<open>utf8_chars\<close>, \<open>escape_text\<close>, \<open>unescape_text\<close> and
  \<open>html_text\<close> are the reference functions on byte strings.
\<close>

subsection \<open>UTF-8 characters\<close>

definition utf8_get_next_char :: "block \<Rightarrow> nat \<Rightarrow> nat option" where
  "utf8_get_next_char m p = do {
     c \<leftarrow> blk_get m p;
     (if c AND 0xE0 = 0xC0 then do {
        x \<leftarrow> blk_get m (p + 1);
        (if x = 0 then Some (p + 1) else Some (p + 2)) }
      else if c AND 0xF0 = 0xE0 then do {
        x \<leftarrow> blk_get m (p + 1);
        (if x = 0 then Some (p + 1) else do {
          y \<leftarrow> blk_get m (p + 2);
          (if y = 0 then Some (p + 2) else Some (p + 3)) }) }
      else if c AND 0xF8 = 0xF0 then do {
        x \<leftarrow> blk_get m (p + 1);
        (if x = 0 then Some (p + 1) else do {
          y \<leftarrow> blk_get m (p + 2);
          (if y = 0 then Some (p + 2) else do {
            z \<leftarrow> blk_get m (p + 3);
            (if z = 0 then Some (p + 3) else Some (p + 4)) }) }) }
      else Some (p + 1)) }"

lemma utf8_get_next_char_gt: "utf8_get_next_char m p = Some q \<Longrightarrow> p < q"
  by (auto simp: utf8_get_next_char_def split: if_splits Option.bind_splits)

function utf8_count :: "block \<Rightarrow> nat \<Rightarrow> nat \<Rightarrow> nat \<Rightarrow> nat option" where
  "utf8_count m fin p n = do {
     p \<leftarrow> utf8_get_next_char m p;
     (if p < fin then utf8_count m fin p (n + 1) else Some (n + 1)) }"
  by pat_completeness auto
termination
  by (relation "measure (\<lambda>(m, fin, p, n). fin - p)") (auto dest: utf8_get_next_char_gt)

definition http2d_buffer_get_utf8_len :: "buffer \<Rightarrow> (ret_t \<times> nat) option" where
  "http2d_buffer_get_utf8_len b =
     (case buf b of None \<Rightarrow> Some (ret_ok, 0)
      | Some m \<Rightarrow> if len b = 0 then Some (ret_ok, 0)
                  else do { n \<leftarrow> utf8_count m (len b) 0 0; Some (ret_ok, n) })"

subsection \<open>Percent escapes\<close>

definition hex2dec_tab :: "nat list" where
  "hex2dec_tab =
     replicate 48 0 @ [0, 1, 2, 3, 4, 5, 6, 7, 8, 9, 0, 0, 0, 0, 0, 0] @
     [0, 10, 11, 12, 13, 14, 15, 0, 0, 0, 0, 0, 0, 0, 0, 0] @ replicate 16 0 @
     [0, 10, 11, 12, 13, 14, 15, 0, 0, 0, 0, 0, 0, 0, 0, 0] @ replicate 144 0"

definition hex2dec_m2 :: "byte \<Rightarrow> byte \<Rightarrow> byte" where
  "hex2dec_m2 c1 c2 = word_of_nat (hex2dec_tab ! unat c1 * 16 + hex2dec_tab ! unat c2)"

definition isxdigit :: "byte \<Rightarrow> bool" where
  "isxdigit c \<longleftrightarrow> (48 \<le> c \<and> c \<le> 57) \<or> (65 \<le> c \<and> c \<le> 70) \<or> (97 \<le> c \<and> c \<le> 102)"

text \<open>The test \<open>psrc[0] != '%' || !isxdigit(psrc[1]) || !isxdigit(psrc[2])\<close>, negated, with its
  short circuits.\<close>

definition at_escape :: "block \<Rightarrow> nat \<Rightarrow> bool option" where
  "at_escape m i = do {
     c \<leftarrow> blk_get m i;
     (if c \<noteq> chr CHR ''%'' then Some False else do {
        x \<leftarrow> blk_get m (i + 1);
        (if \<not> isxdigit x then Some False else do {
           y \<leftarrow> blk_get m (i + 2);
           Some (isxdigit y) }) }) }"

function unescape_loop :: "block \<Rightarrow> nat \<Rightarrow> nat \<Rightarrow> int \<Rightarrow> (block \<times> nat \<times> int) option" where
  "unescape_loop m psrc ptgt n = do {
     c \<leftarrow> blk_get m psrc;
     (if c = 0 then Some (m, ptgt, n)
      else do {
        e \<leftarrow> at_escape m psrc;
        (if \<not> e then do {
           m \<leftarrow> blk_set m ptgt c;
           unescape_loop m (psrc + 1) (ptgt + 1) n }
         else do {
           x \<leftarrow> blk_get m (psrc + 1);
           y \<leftarrow> blk_get m (psrc + 2);
           (let v = hex2dec_m2 x y
            in do {
              m \<leftarrow> blk_set m ptgt (if v \<noteq> 0 then v else chr CHR '' '');
              unescape_loop m (psrc + 3) (ptgt + 1) (n - 2) }) }) }) }"
  by pat_completeness auto
termination
  by (relation "measure (\<lambda>(m, psrc, ptgt, n). length m - psrc)")
    (auto simp: blk_get_def blk_set_def split: if_splits)

definition http2d_buffer_unescape_uri :: "buffer \<Rightarrow> (ret_t \<times> buffer) option" where
  "http2d_buffer_unescape_uri b =
     (case buf b of None \<Rightarrow> Some (ret_error, b)
      | Some m \<Rightarrow> do {
          z \<leftarrow> blk_get m (len b);
          m \<leftarrow> (if z \<noteq> 0 then blk_set m (len b) 0 else Some m);
          s \<leftarrow> cstr m 0;
          (case strchr s (chr CHR ''%'') of None \<Rightarrow> Some (ret_ok, b\<lparr>buf := Some m\<rparr>)
           | Some psrc \<Rightarrow> do {
               (m, ptgt, n) \<leftarrow> unescape_loop m psrc psrc (int (len b));
               m \<leftarrow> blk_set m ptgt 0;
               Some (ret_ok, b\<lparr>buf := Some m, len := nat (n mod 2 ^ 32)\<rparr>) }) })"

text \<open>\<open>is_char_escaped[*s >> 5] & (1 << (*s & 0x1f))\<close>\<close>

definition is_char_escaped :: "32 word list \<Rightarrow> byte \<Rightarrow> bool" where
  "is_char_escaped tab c \<longleftrightarrow> bit (tab ! unat (drop_bit 5 c)) (unat (c AND 0x1f))"

definition hex_chars :: "byte list" where
  "hex_chars = lit ''0123456789abcdef''"

function escape_count :: "32 word list \<Rightarrow> block \<Rightarrow> nat \<Rightarrow> nat \<Rightarrow> nat \<Rightarrow> nat option" where
  "escape_count tab m fin s n_escape = do {
     s_next \<leftarrow> utf8_get_next_char m s;
     c \<leftarrow> blk_get m s;
     (let n_escape = (if s_next - s = 1 \<and> is_char_escaped tab c then n_escape + 1 else n_escape)
      in if s_next < fin then escape_count tab m fin s_next n_escape else Some n_escape) }"
  by pat_completeness auto
termination
  by (relation "measure (\<lambda>(tab, m, fin, s, n). fin - s)") (auto dest: utf8_get_next_char_gt)

function escape_convert ::
  "32 word list \<Rightarrow> block \<Rightarrow> nat \<Rightarrow> nat \<Rightarrow> block \<Rightarrow> nat \<Rightarrow> (block \<times> nat) option" where
  "escape_convert tab m fin s d t = do {
     s_next \<leftarrow> utf8_get_next_char m s;
     c \<leftarrow> blk_get m s;
     out \<leftarrow>
       (if s_next - s > 1 then blk_read m s (s_next - s)
        else if is_char_escaped tab c
        then Some [chr CHR ''%'', hex_chars ! unat (drop_bit 4 c), hex_chars ! unat (c AND 0xf)]
        else Some [c]);
     d \<leftarrow> blk_write d t out;
     (if s_next < fin then escape_convert tab m fin s_next d (t + length out)
      else Some (d, t + length out)) }"
  by pat_completeness auto
termination
  by (relation "measure (\<lambda>(tab, m, fin, s, d, t). fin - s)") (auto dest: utf8_get_next_char_gt)

declare utf8_count.simps [simp del] unescape_loop.simps [simp del] escape_count.simps [simp del]
  escape_convert.simps [simp del]

text \<open>The result of \<open>http2d_buffer_ensure_addlen\<close> is not looked at.\<close>

definition escape_with_table :: "heap \<Rightarrow> buffer \<Rightarrow> buffer \<Rightarrow> 32 word list \<Rightarrow> (ret_t \<times> buffer) option" where
  "escape_with_table h b src tab =
     (case buf src of None \<Rightarrow> Some (ret_error, b)
      | Some m \<Rightarrow> do {
          n_escape \<leftarrow> escape_count tab m (len src) 0 0;
          (let (_, b) = http2d_buffer_ensure_addlen h b (u32 (len src + n_escape * 3))
           in do {
             d \<leftarrow> buf b;
             (d, t) \<leftarrow> escape_convert tab m (len src) 0 d (len b);
             d \<leftarrow> blk_set d t 0;
             Some (ret_ok, b\<lparr>buf := Some d, len := u32 (len b + (len src + n_escape * 2))\<rparr>) }) })"

definition escape_uri_tab :: "32 word list" where
  "escape_uri_tab = [0xffffffff, 0x80000029, 0x00000000, 0x80000000,
                     0xffffffff, 0xffffffff, 0xffffffff, 0xffffffff]"

definition escape_uri_delims_tab :: "32 word list" where
  "escape_uri_delims_tab = [0xffffffff, 0x84000029, 0x28000001, 0x80000000,
                            0xffffffff, 0xffffffff, 0xffffffff, 0xffffffff]"

definition escape_arg_tab :: "32 word list" where
  "escape_arg_tab = [0xffffffff, 0x88000869, 0x00000000, 0x80000000,
                     0xffffffff, 0xffffffff, 0xffffffff, 0xffffffff]"

definition http2d_buffer_escape_uri :: "heap \<Rightarrow> buffer \<Rightarrow> buffer \<Rightarrow> (ret_t \<times> buffer) option" where
  "http2d_buffer_escape_uri h b src = escape_with_table h b src escape_uri_tab"

definition http2d_buffer_escape_uri_delims :: "heap \<Rightarrow> buffer \<Rightarrow> buffer \<Rightarrow> (ret_t \<times> buffer) option" where
  "http2d_buffer_escape_uri_delims h b src = escape_with_table h b src escape_uri_delims_tab"

definition http2d_buffer_escape_arg :: "heap \<Rightarrow> buffer \<Rightarrow> buffer \<Rightarrow> (ret_t \<times> buffer) option" where
  "http2d_buffer_escape_arg h b src = escape_with_table h b src escape_arg_tab"

subsection \<open>HTML entities\<close>

text \<open>The two \<open>switch\<close> statements: the extra room of a character and what is copied for it.\<close>

definition html_extra :: "byte \<Rightarrow> nat" where
  "html_extra c =
     (if c = chr CHR ''<'' \<or> c = chr CHR ''>'' then 3
      else if c = chr CHR ''&'' then 4
      else if c = chr CHR 0x22 then 5
      else if c = chr CHR ''#'' \<or> c = chr CHR 0x27 then 4
      else 0)"

definition html_entity :: "byte \<Rightarrow> byte list" where
  "html_entity c =
     (if c = chr CHR ''<'' then lit ''&lt;''
      else if c = chr CHR ''>'' then lit ''&gt;''
      else if c = chr CHR ''&'' then lit ''&amp;''
      else if c = chr CHR 0x22 then lit ''&quot;''
      else if c = chr CHR ''#'' then lit ''&#35;''
      else if c = chr CHR 0x27 then lit ''&#39;''
      else [c])"

text \<open>Both loops run over the C string that starts at \<open>p0\<close>.\<close>

fun html_count :: "byte list \<Rightarrow> nat" where
  "html_count [] = 0"
| "html_count (c # s) = html_extra c + html_count s"

fun html_copy :: "byte list \<Rightarrow> block \<Rightarrow> nat \<Rightarrow> (block \<times> nat) option" where
  "html_copy [] d p2 = Some (d, p2)"
| "html_copy (c # s) d p2 = do {
     d \<leftarrow> blk_write d p2 (html_entity c);
     html_copy s d (p2 + length (html_entity c)) }"

text \<open>The source may get its terminator repaired, so it is part of the result.\<close>

definition http2d_buffer_add_escape_html ::
  "heap \<Rightarrow> buffer \<Rightarrow> buffer \<Rightarrow> (ret_t \<times> buffer \<times> buffer) option" where
  "http2d_buffer_add_escape_html h b src =
     (case buf src of None \<Rightarrow> Some (ret_error, b, src)
      | Some m \<Rightarrow> do {
          z \<leftarrow> blk_get m (len src);
          m \<leftarrow> (if z \<noteq> 0 then blk_set m (len src) 0 else Some m);
          src \<leftarrow> Some (src\<lparr>buf := Some m\<rparr>);
          s \<leftarrow> cstr m 0;
          (case strpbrk s (lit ''<>&'' @ [chr CHR 0x22]) of
             None \<Rightarrow> do { (r, b) \<leftarrow> http2d_buffer_add_buffer h b src; Some (r, b, src) }
           | Some p0 \<Rightarrow>
               (let extra = html_count (drop p0 s)
                in if length s \<noteq> len src then Some (ret_error, b, src)
                   else
                     (let (ret, b) = http2d_buffer_ensure_addlen h b (u64 (len src + extra + 1))
                      in if ret \<noteq> ret_ok then Some (ret, b, src)
                         else do {
                           d \<leftarrow> buf b;
                           pre \<leftarrow> blk_read m 0 p0;
                           d \<leftarrow> (if p0 \<noteq> 0 then blk_write d (len b) pre else Some d);
                           (d, _) \<leftarrow> html_copy (drop p0 s) d (len b + p0);
                           (let n = u32 (len b + (len src + extra))
                            in do {
                              d \<leftarrow> blk_set d n 0;
                              Some (ret_ok, b\<lparr>buf := Some d, len := n\<rparr>, src) }) }))) })"

definition http2d_buffer_escape_html ::
  "heap \<Rightarrow> buffer \<Rightarrow> buffer \<Rightarrow> (ret_t \<times> buffer \<times> buffer) option" where
  "http2d_buffer_escape_html h b src = do {
     b \<leftarrow> http2d_buffer_clean b;
     http2d_buffer_add_escape_html h b src }"

subsection \<open>Reference functions\<close>

definition utf8_lead :: "byte \<Rightarrow> nat" where
  "utf8_lead c =
     (if c AND 0xE0 = 0xC0 then 2 else if c AND 0xF0 = 0xE0 then 3 else if c AND 0xF8 = 0xF0 then 4 else 1)"

lemma utf8_lead_pos: "0 < utf8_lead c"
  by (simp add: utf8_lead_def)

function utf8_chars :: "byte list \<Rightarrow> byte list list" where
  "utf8_chars [] = []"
| "utf8_chars (c # s) = take (utf8_lead c) (c # s) # utf8_chars (drop (utf8_lead c) (c # s))"
  by pat_completeness auto
termination
  by (relation "measure length") (auto simp: utf8_lead_pos)

definition escape_char :: "32 word list \<Rightarrow> byte list \<Rightarrow> byte list" where
  "escape_char tab u =
     (if length u = 1 \<and> is_char_escaped tab (hd u)
      then [chr CHR ''%'', hex_chars ! unat (drop_bit 4 (hd u)), hex_chars ! unat (hd u AND 0xf)]
      else u)"

definition escape_text :: "32 word list \<Rightarrow> byte list \<Rightarrow> byte list" where
  "escape_text tab s = concat (map (escape_char tab) (utf8_chars s))"

fun unescape_text :: "byte list \<Rightarrow> byte list" where
  "unescape_text (c # x # y # s) =
     (if c = chr CHR ''%'' \<and> isxdigit x \<and> isxdigit y
      then (if hex2dec_m2 x y \<noteq> 0 then hex2dec_m2 x y else chr CHR '' '') # unescape_text s
      else c # unescape_text (x # y # s))"
| "unescape_text s = s"

definition html_text :: "byte list \<Rightarrow> byte list" where
  "html_text s =
     (let k = strcspn s (lit ''<>&'' @ [chr CHR 0x22])
      in take k s @ concat (map html_entity (drop k s)))"

subsection \<open>Stepping through the text\<close>

lemma get_holds:
  assumes "holds m s"
  shows "i < length s \<Longrightarrow> blk_get m i = Some (s ! i)" "blk_get m (length s) = Some 0"
    "i < length s \<Longrightarrow> s ! i \<noteq> 0"
proof -
  show "i < length s \<Longrightarrow> blk_get m i = Some (s ! i)" "blk_get m (length s) = Some 0"
    using assms chunk_nth [of s m i] by (auto simp: holds_def blk_get_def)
  show "i < length s \<Longrightarrow> s ! i \<noteq> 0" using assms unfolding holds_def by (metis nth_mem)
qed

lemma utf8_next:
  assumes h: "holds m s" and p: "p < length s"
  shows "utf8_get_next_char m p = Some (p + min (utf8_lead (s ! p)) (length s - p))"
proof -
  note g = get_holds [OF h]
  have nxt: "blk_get m (p + i) = Some (if p + i < length s then s ! (p + i) else 0)" if "p + i \<le> length s" for i
    using g(1) [of "p + i"] g(2) that by (cases "p + i = length s") auto
  have nz: "s ! (p + i) \<noteq> 0" if "p + i < length s" for i using g(3) that by blast
  consider "length s = p + 1" | "length s = p + 2" | "length s = p + 3" | "p + 4 \<le> length s" using p by linarith
  then show ?thesis
    by cases (use g(1) [OF p] nxt [of 1] nxt [of 2] nxt [of 3] nz [of 1] nz [of 2] nz [of 3] in
        \<open>auto simp: utf8_get_next_char_def utf8_lead_def\<close>)
qed

lemma utf8_chars_drop:
  assumes "p < length s"
  shows "utf8_chars (drop p s) =
      take (utf8_lead (s ! p)) (drop p s) # utf8_chars (drop (p + utf8_lead (s ! p)) s)"
proof -
  have "drop p s = s ! p # drop (Suc p) s" using assms by (simp add: Cons_nth_drop_Suc)
  then have "utf8_chars (drop p s) =
      take (utf8_lead (s ! p)) (drop p s) # utf8_chars (drop (utf8_lead (s ! p)) (drop p s))"
    by (metis utf8_chars.simps(2))
  then show ?thesis by (simp add: add.commute)
qed

text \<open>The three loops that walk over the characters follow \<open>utf8_chars\<close>.\<close>

lemma utf8_count_spec:
  assumes "holds m s" "p < length s"
  shows "utf8_count m (length s) p n = Some (n + length (utf8_chars (drop p s)))"
  using assms
proof (induction m "length s" p n rule: utf8_count.induct)
  case (1 m p n)
  define q where "q = p + min (utf8_lead (s ! p)) (length s - p)"
  have q: "utf8_get_next_char m p = Some q" using utf8_next [OF "1.prems"] by (simp add: q_def)
  have e: "utf8_count m (length s) p n = (if q < length s then utf8_count m (length s) q (n + 1) else Some (n + 1))"
    using q by (subst utf8_count.simps) simp
  show ?case
  proof (cases "q < length s")
    case True
    then have "q = p + utf8_lead (s ! p)" by (auto simp: q_def min_def split: if_splits)
    with True e "1.hyps" [OF q True "1.prems"(1) True] "1.prems" show ?thesis by (simp add: utf8_chars_drop)
  next
    case False
    then have "drop (p + utf8_lead (s ! p)) s = []" by (auto simp: q_def min_def split: if_splits)
    with False e "1.prems" show ?thesis by (simp add: utf8_chars_drop)
  qed
qed

definition n_escaped :: "32 word list \<Rightarrow> byte list \<Rightarrow> nat" where
  "n_escaped tab s = length (filter (\<lambda>u. length u = 1 \<and> is_char_escaped tab (hd u)) (utf8_chars s))"

lemma n_escaped_drop:
  assumes "p < length s"
  shows "n_escaped tab (drop p s) =
    (if min (utf8_lead (s ! p)) (length s - p) = 1 \<and> is_char_escaped tab (s ! p) then 1 else 0) +
    n_escaped tab (drop (p + utf8_lead (s ! p)) s)"
proof -
  have "length (take (utf8_lead (s ! p)) (drop p s)) = min (utf8_lead (s ! p)) (length s - p)" by (simp add: min.commute)
  moreover have "hd (take (utf8_lead (s ! p)) (drop p s)) = s ! p"
    using assms utf8_lead_pos [of "s ! p"] by (simp add: hd_drop_conv_nth)
  ultimately show ?thesis by (simp add: n_escaped_def utf8_chars_drop [OF assms])
qed

lemma escape_count_spec:
  assumes "holds m s" "p < length s"
  shows "escape_count tab m (length s) p n = Some (n + n_escaped tab (drop p s))"
  using assms
proof (induction tab m "length s" p n rule: escape_count.induct)
  case (1 tab m p n)
  define q where "q = p + min (utf8_lead (s ! p)) (length s - p)"
  define k where "k = (if q - p = 1 \<and> is_char_escaped tab (s ! p) then n + 1 else n)"
  have q: "utf8_get_next_char m p = Some q" using utf8_next [OF "1.prems"] by (simp add: q_def)
  have g: "blk_get m p = Some (s ! p)" using get_holds [OF "1.prems"(1)] "1.prems"(2) by blast
  have e: "escape_count tab m (length s) p n = (if q < length s then escape_count tab m (length s) q k else Some k)"
    using q g by (subst escape_count.simps) (simp add: k_def Let_def)
  have k: "k + n_escaped tab (drop (p + utf8_lead (s ! p)) s) = n + n_escaped tab (drop p s)"
    unfolding n_escaped_drop [OF "1.prems"(2)] by (simp add: k_def q_def)
  show ?case
  proof (cases "q < length s")
    case True
    then have "q = p + utf8_lead (s ! p)" by (auto simp: q_def min_def split: if_splits)
    moreover have "escape_count tab m (length s) q k = Some (k + n_escaped tab (drop q s))"
      using "1.hyps" [OF q g k_def True "1.prems"(1) True] .
    ultimately show ?thesis using True e k by simp
  next
    case False
    then have "drop (p + utf8_lead (s ! p)) s = []" by (auto simp: q_def min_def split: if_splits)
    with False e k show ?thesis by (simp add: n_escaped_def)
  qed
qed

lemma escape_text_drop:
  assumes "p < length s"
  shows "escape_text tab (drop p s) =
    escape_char tab (take (utf8_lead (s ! p)) (drop p s)) @ escape_text tab (drop (p + utf8_lead (s ! p)) s)"
  by (simp add: escape_text_def utf8_chars_drop [OF assms])

lemma escape_convert_spec:
  assumes "holds m s" "p < length s" "t + length (escape_text tab (drop p s)) \<le> length d"
  shows "\<exists>d'. escape_convert tab m (length s) p d t = Some (d', t + length (escape_text tab (drop p s))) \<and>
    length d' = length d \<and>
    take (t + length (escape_text tab (drop p s))) d' = take t d @ escape_text tab (drop p s)"
  using assms
proof (induction tab m "length s" p d t rule: escape_convert.induct)
  case (1 tab m p d t)
  define q where "q = p + min (utf8_lead (s ! p)) (length s - p)"
  define u where "u = take (utf8_lead (s ! p)) (drop p s)"
  define R where "R = escape_text tab (drop (p + utf8_lead (s ! p)) s)"
  have q: "utf8_get_next_char m p = Some q" using utf8_next [OF "1.prems"(1,2)] by (simp add: q_def)
  have g: "blk_get m p = Some (s ! p)" using get_holds [OF "1.prems"(1)] "1.prems"(2) by blast
  have u: "length u = q - p" "hd u = s ! p" "q \<le> length s" "p < q" "u = take (q - p) (drop p s)"
    using "1.prems"(2) utf8_lead_pos [of "s ! p"] by (auto simp: u_def q_def hd_drop_conv_nth min.commute min_def)
  have rd: "blk_read m p (q - p) = Some u"
  proof -
    have "take q m = take q s" using "1.prems"(1) u(3) by (intro take_of_take) (auto simp: holds_def)
    then have "take (q - p) (drop p m) = u" using u(4,5) by (metis drop_take)
    then show ?thesis using "1.prems"(1) u(3,4) by (simp add: blk_read_def holds_def)
  qed
  define out where "out = escape_char tab u"
  have ne: "u \<noteq> []" using u(1,4) by auto
  have out: "(if q - p > 1 then blk_read m p (q - p)
        else if is_char_escaped tab (s ! p)
        then Some [chr CHR ''%'', hex_chars ! unat (drop_bit 4 (s ! p)), hex_chars ! unat (s ! p AND 0xf)]
        else Some [s ! p]) = Some out"
    using rd u(2) ne unfolding u(1) [symmetric] by (cases u) (auto simp: out_def escape_char_def)
  have T: "escape_text tab (drop p s) = out @ R" unfolding escape_text_drop [OF "1.prems"(2)] by (simp add: out_def u_def R_def)
  have room: "t + length out \<le> length d" using "1.prems"(3) by (simp add: T)
  obtain d1 where d1: "blk_write d t out = Some d1" "length d1 = length d" "take (t + length out) d1 = take t d @ out"
    by (rule write_at [OF room])
  have e: "escape_convert tab m (length s) p d t =
      (if q < length s then escape_convert tab m (length s) q d1 (t + length out) else Some (d1, t + length out))"
    using q g out d1(1) by (subst escape_convert.simps) simp
  show ?case
  proof (cases "q < length s")
    case True
    then have "q = p + utf8_lead (s ! p)" by (auto simp: q_def min_def split: if_splits)
    then have R: "R = escape_text tab (drop q s)" by (simp add: R_def)
    have "\<exists>d'. escape_convert tab m (length s) q d1 (t + length out) = Some (d', t + length out + length R) \<and>
        length d' = length d1 \<and> take (t + length out + length R) d' = take (t + length out) d1 @ R"
      using "1.hyps" [OF q g out d1(1) True "1.prems"(1) True] "1.prems"(3) d1(2) by (simp add: T R)
    then show ?thesis using True e d1 by (auto simp: T add.assoc)
  next
    case False
    then have "drop (p + utf8_lead (s ! p)) s = []" by (auto simp: q_def min_def split: if_splits)
    then have "R = []" by (simp add: R_def escape_text_def)
    with False e d1 show ?thesis by (simp add: T)
  qed
qed


lemma escape_char_length: "length (escape_char tab u) = length u + (if length u = 1 \<and> is_char_escaped tab (hd u) then 2 else 0)"
  by (simp add: escape_char_def)

lemma concat_utf8_chars: "concat (utf8_chars s) = s"
proof (induction s rule: utf8_chars.induct)
  case (2 c s)
  then show ?case by (simp del: drop_Cons')
qed simp

lemma utf8_chars_nonempty: "u \<in> set (utf8_chars s) \<Longrightarrow> u \<noteq> []"
proof (induction s rule: utf8_chars.induct)
  case (2 c s)
  obtain k where "utf8_lead c = Suc k" using utf8_lead_pos [of c] gr0_conv_Suc by blast
  with 2 show ?case by auto
qed simp

lemma length_escape_text: "length (escape_text tab s) = length s + 2 * n_escaped tab s"
proof -
  have "length (concat (map (escape_char tab) us)) =
      length (concat us) + 2 * length (filter (\<lambda>u. length u = 1 \<and> is_char_escaped tab (hd u)) us)" for us
    by (induction us) (auto simp: escape_char_length)
  from this [of "utf8_chars s"] show ?thesis by (simp add: escape_text_def n_escaped_def concat_utf8_chars)
qed

lemma n_escaped_le: "n_escaped tab s \<le> length s"
proof -
  have "length (filter (\<lambda>u. length u = 1 \<and> is_char_escaped tab (hd u)) us) \<le> length (concat us)" for us :: "byte list list"
    by (induction us) auto
  from this [of "utf8_chars s"] show ?thesis by (simp add: n_escaped_def concat_utf8_chars)
qed

text \<open>Escaping a non-empty text appends its reference escape.\<close>

lemma escape_with_table_rep:
  assumes "buf_rep b t" "buf_rep src s" "0 \<notin> set s" "s \<noteq> []" "length t + 4 * length s + 1 < 2 ^ 31" "\<And>n. malloc_ok h n"
  shows "\<exists>b'. escape_with_table h b src tab = Some (ret_ok, b') \<and> buf_rep b' (t @ escape_text tab s)"
proof -
  obtain m where m: "buf src = Some m" using assms(2,4) by (auto elim: buf_rep_cases)
  note h = buf_rep_holds [OF assms(2) m assms(3)]
  define k where "k = n_escaped tab s"
  define E where "E = escape_text tab s"
  have k: "k \<le> length s" "length E = length s + 2 * k" using n_escaped_le length_escape_text by (auto simp: k_def E_def)
  have cnt: "escape_count tab m (len src) 0 0 = Some k" using escape_count_spec [OF h(1), of 0 tab 0] assms(4) h(5) by (simp add: k_def)
  have ok: "buffer_ok b" and l: "len b = length t" and st: "buf_str b = t" using assms(1) by (auto simp: buf_rep_def)
  have sz: "len b + (length s + k * 3) + 1 < 2 ^ 31" using assms(5) k(1) l by linarith
  have u: "u32 (length s + k * 3) = length s + k * 3" "u32 (length t + (length s + k * 2)) = length t + length E"
    using sz l k by (simp_all add: int_simps)
  obtain b1 where b1: "http2d_buffer_ensure_addlen h b (length s + k * 3) = (ret_ok, b1)" "buffer_ok b1" "buf_str b1 = t"
      "len b1 = length t" "length t + (length s + k * 3) < bsize b1" "buf b1 \<noteq> None"
    using http2d_buffer_ensure_addlen_ok [OF ok sz assms(6)] unfolding l st by metis
  then obtain d where d: "buf b1 = Some d" "take (length t) d = t" "bsize b1 \<le> length d" "bsize b1 < 2 ^ 31"
    by (auto simp: buffer_ok_def buf_str_def)
  have le: "length t + length E < bsize b1" using b1(5) k by linarith
  obtain d' where d': "escape_convert tab m (length s) 0 d (length t) = Some (d', length t + length E)"
      "length d' = length d" "take (length t + length E) d' = t @ E"
    using escape_convert_spec [OF h(1), of 0 "length t" tab d] assms(4) le d by (auto simp: E_def)
  have "length (t @ E) = length t + length E" "bsize b1 \<le> length d'" using d d' by auto
  note pz = put_zero [OF this(1) le this(2) d(4) d'(3)]
  from pz show ?thesis using m h(5) cnt u b1(1,4) d(1) d'(1)
    unfolding escape_with_table_def E_def [symmetric] by simp
qed

subsection \<open>Round trip\<close>

lemma hex_digits_roundtrip:
  "list_all (\<lambda>n. isxdigit (hex_chars ! n) \<and> hex2dec_tab ! unat (hex_chars ! n) = n) [0..<16]"
  by code_simp

lemma hex_pair:
  "isxdigit (hex_chars ! unat (drop_bit 4 c)) \<and> isxdigit (hex_chars ! unat (c AND 0xf)) \<and>
   hex2dec_m2 (hex_chars ! unat (drop_bit 4 c)) (hex_chars ! unat (c AND 0xf)) = c"
proof -
  have hi: "unat (drop_bit 4 c) = unat c div 16" by (simp only: unat_drop_bit_eq) (simp add: drop_bit_eq_div)
  have "c AND 0xf = take_bit 4 c" by (simp add: take_bit_eq_mask mask_eq_exp_minus_1)
  then have lo: "unat (c AND 0xf) = unat c mod 16" by (simp add: unsigned_take_bit_eq take_bit_eq_mod unat_mod_distrib)
  have "unat c < 2 ^ LENGTH(8)" by (rule unsigned_less)
  then have "unat c < 256" by simp
  then have r: "unat c div 16 < 16" "unat c mod 16 < 16" by (auto simp: less_mult_imp_div_less)
  have d: "isxdigit (hex_chars ! n) \<and> hex2dec_tab ! unat (hex_chars ! n) = n" if "n < 16" for n
    using hex_digits_roundtrip that by (simp add: list_all_iff)
  from d [OF r(1)] d [OF r(2)] show ?thesis
    by (simp add: hi lo hex2dec_m2_def mult.commute [of _ 16])
qed

lemma unescape_text_plain: "chr CHR ''%'' \<notin> set u \<Longrightarrow> unescape_text (u @ s) = u @ unescape_text s"
proof (induction u)
  case (Cons c u)
  have "unescape_text (c # v) = c # unescape_text v" if "c \<noteq> chr CHR ''%''" for v
    using that by (cases v; cases "tl v") auto
  with Cons show ?case by auto
qed simp

lemma unescape_escape_char:
  assumes "is_char_escaped tab (chr CHR ''%'')" "0 \<notin> set u" "u \<noteq> []" "length u = 1 \<or> chr CHR ''%'' \<notin> set u"
  shows "unescape_text (escape_char tab u @ s) = u @ unescape_text s"
proof (cases "length u = 1 \<and> is_char_escaped tab (hd u)")
  case True
  then obtain c where "u = [c]" by (cases u) auto
  with True assms(2) hex_pair [of c] show ?thesis by (simp add: escape_char_def)
next
  case False
  then have "chr CHR ''%'' \<notin> set u" using assms(1,4) by (cases u) auto
  with False show ?thesis by (simp only: escape_char_def if_False) (rule unescape_text_plain)
qed

lemma unescape_escape_text:
  assumes "is_char_escaped tab (chr CHR ''%'')" "0 \<notin> set s"
    "\<forall>u \<in> set (utf8_chars s). length u = 1 \<or> chr CHR ''%'' \<notin> set u"
  shows "unescape_text (escape_text tab s) = s"
proof -
  have "unescape_text (concat (map (escape_char tab) us)) = concat us"
    if "\<forall>u \<in> set us. u \<noteq> [] \<and> 0 \<notin> set u \<and> (length u = 1 \<or> chr CHR ''%'' \<notin> set u)" for us
    using that
  proof (induction us)
    case (Cons u us)
    then show ?case using unescape_escape_char [OF assms(1), of u "concat (map (escape_char tab) us)"] by simp
  qed simp
  moreover have "u \<noteq> [] \<and> 0 \<notin> set u" if "u \<in> set (utf8_chars s)" for u
  proof
    show "u \<noteq> []" using that by (rule utf8_chars_nonempty)
    have "set u \<subseteq> set (concat (utf8_chars s))" using that by auto
    then show "0 \<notin> set u" using assms(2) by (auto simp: concat_utf8_chars)
  qed
  ultimately have "unescape_text (concat (map (escape_char tab) (utf8_chars s))) = concat (utf8_chars s)"
    using assms(3) by (metis (no_types, lifting))
  then show ?thesis by (simp add: escape_text_def concat_utf8_chars)
qed

subsection \<open>Unescaping in place\<close>

lemma strchr_None: "strchr s c = None \<Longrightarrow> c \<notin> set s"
  by (induction s) (auto split: if_splits)

lemma strchr_Some: "strchr s c = Some k \<Longrightarrow> k < length s \<and> c \<notin> set (take k s)"
  by (induction s arbitrary: k) (auto split: if_splits)

definition escape_head :: "byte list \<Rightarrow> bool" where
  "escape_head v = (case v of c # x # y # _ \<Rightarrow> c = chr CHR ''%'' \<and> isxdigit x \<and> isxdigit y | _ \<Rightarrow> False)"

lemma isxdigit_0: "\<not> isxdigit 0"
  by (simp add: isxdigit_def)

lemma unescape_text_Cons:
  "unescape_text (c # v) =
     (if escape_head (c # v)
      then (if hex2dec_m2 (v ! 0) (v ! 1) \<noteq> 0 then hex2dec_m2 (v ! 0) (v ! 1) else chr CHR '' '') # unescape_text (drop 2 v)
      else c # unescape_text v)"
  by (cases v; cases "tl v") (auto simp: escape_head_def)

text \<open>The bytes from \<open>i\<close> on are the rest \<open>v\<close> of the text, its zero and whatever follows.\<close>

lemma get_rest:
  assumes "drop i m = v @ 0 # r"
  shows "blk_get m (i + k) = (if k < length v then Some (v ! k) else if k = length v then Some 0 else blk_get m (i + k))"
proof (cases "k \<le> length v")
  case True
  have "length (drop i m) = length v + 1 + length r" using assms by simp
  then have i: "i + k < length m" using True by simp
  then have "m ! (i + k) = (v @ 0 # r) ! k" using assms by (metis nth_drop less_imp_le add_leE)
  with i True show ?thesis by (auto simp: blk_get_def nth_append)
qed simp

lemma at_escape_rest:
  assumes "drop i m = (c # v) @ 0 # r"
  shows "at_escape m i = Some (escape_head (c # v))"
proof -
  note g = get_rest [OF assms]
  show ?thesis
    by (cases v; cases "tl v")
      (use g [of 0] g [of 1] g [of 2] isxdigit_0 in \<open>auto simp: at_escape_def escape_head_def\<close>)
qed

lemma unescape_loop_spec:
  assumes "drop i m = v @ 0 # r" "0 \<notin> set v" "j \<le> i"
  shows "\<exists>m'. unescape_loop m i j n = Some (m', j + length (unescape_text v), n - int (length v) + int (length (unescape_text v))) \<and>
    length m' = length m \<and> take (j + length (unescape_text v)) m' = take j m @ unescape_text v"
  using assms
proof (induction v arbitrary: m i j n rule: length_induct)
  case (1 w)
  show ?case
  proof (cases w)
    case Nil
    then have "blk_get m i = Some 0" using get_rest [OF "1.prems"(1), of 0] by simp
    then show ?thesis unfolding Nil by (subst unescape_loop.simps) simp
  next
    case (Cons c v)
    define e where "e = escape_head (c # v)"
    define k where "k = (if e then 3 else 1 :: nat)"
    define x where "x = (if e then (if hex2dec_m2 (v ! 0) (v ! 1) \<noteq> 0 then hex2dec_m2 (v ! 0) (v ! 1) else chr CHR '' '') else c)"
    define v' where "v' = drop k w"
    define m1 where "m1 = m[j := x]"
    have d: "drop i m = (c # v) @ 0 # r" using "1.prems"(1) Cons by simp
    have nz: "c \<noteq> 0" using "1.prems"(2) Cons by auto
    have kl: "0 < k" "k \<le> length w" using Cons by (auto simp: k_def e_def escape_head_def split: list.splits)
    have lm: "length m = i + (length w + 1 + length r) \<or> length m \<le> i" using arg_cong [OF "1.prems"(1), of length] by auto
    have jl: "i < length m" using arg_cong [OF "1.prems"(1), of length] by (cases "i < length m") auto
    have bs: "blk_set m j x = Some m1" using "1.prems"(3) jl by (simp add: m1_def blk_set_in)
    have ut: "unescape_text w = x # unescape_text v'"
      unfolding Cons unescape_text_Cons by (simp add: x_def v'_def k_def Cons flip: e_def)
    have d1: "drop (i + k) m1 = v' @ 0 # r"
    proof -
      have "drop (i + k) m1 = drop k (drop i m)" using "1.prems"(3) kl(1) by (simp add: m1_def add.commute)
      then show ?thesis using "1.prems"(1) kl(2) by (simp add: v'_def)
    qed
    have step: "unescape_loop m i j n = unescape_loop m1 (i + k) (j + 1) (if e then n - 2 else n)"
    proof (cases e)
      case True
      then obtain y z t where v: "v = y # z # t" by (auto simp: e_def escape_head_def split: list.splits)
      have "blk_get m i = Some c" "blk_get m (i + 1) = Some y" "blk_get m (i + 2) = Some z"
        using get_rest [OF d, of 0] get_rest [OF d, of 1] get_rest [OF d, of 2] by (auto simp: v)
      moreover have "at_escape m i = Some True" using at_escape_rest [OF d] True by (simp add: e_def)
      moreover have "x = (if hex2dec_m2 y z \<noteq> 0 then hex2dec_m2 y z else chr CHR '' '')" using True by (simp add: x_def v)
      ultimately show ?thesis using nz bs True
        by (subst unescape_loop.simps) (simp add: k_def Let_def)
    next
      case False
      have "blk_get m i = Some c" using get_rest [OF d, of 0] by simp
      with False nz at_escape_rest [OF d] bs show ?thesis
        by (subst unescape_loop.simps) (simp add: e_def [symmetric] x_def k_def)
    qed
    have v': "length v' < length w" "0 \<notin> set v'" "length w = k + length v'"
      using kl "1.prems"(2) by (auto simp: v'_def dest: in_set_dropD)
    obtain m' where m': "unescape_loop m1 (i + k) (j + 1) (if e then n - 2 else n) =
          Some (m', j + 1 + length (unescape_text v'), (if e then n - 2 else n) - int (length v') + int (length (unescape_text v')))"
        "length m' = length m1" "take (j + 1 + length (unescape_text v')) m' = take (j + 1) m1 @ unescape_text v'"
      using "1.IH" [rule_format, OF v'(1) d1 v'(2), of "j + 1" "if e then n - 2 else n"] "1.prems"(3) kl(1) by auto
    have "take (j + 1) m1 = take j m @ [x]" using "1.prems"(3) jl by (simp add: m1_def take_Suc_conv_app_nth)
    moreover have "(if e then n - 2 else n) - int (length v') = n - int (length w) + 1" using v'(3) by (simp add: k_def)
    ultimately show ?thesis using m' step by (simp add: ut m1_def)
  qed
qed

lemma unescape_uri_rep:
  assumes "buf_rep b s" "buf b = Some m" "0 \<notin> set s"
  shows "\<exists>b'. http2d_buffer_unescape_uri b = Some (ret_ok, b') \<and> buf_rep b' (unescape_text s) \<and>
    length (unescape_text s) \<le> length s"
proof -
  note h = buf_rep_holds [OF assms]
  note g = get_holds [OF h(1)]
  have c: "cstr m 0 = Some s" using cstr_holds [OF h(1), of 0] by simp
  show ?thesis
  proof (cases "strchr s (chr CHR ''%'')")
    case None
    then have "unescape_text s = s" using unescape_text_plain [of s "[]"] strchr_None by simp
    moreover have "buf_rep (b\<lparr>buf := Some m\<rparr>) s"
      using assms(1,2) by (simp add: buf_rep_def buffer_ok_def buffer_term_def buf_str_def)
    ultimately show ?thesis using None assms(1,2) c g(2) h(5) by (simp add: http2d_buffer_unescape_uri_def)
  next
    case (Some k)
    define v where "v = drop k s"
    have k: "k < length s" "chr CHR ''%'' \<notin> set (take k s)" using strchr_Some [OF Some] by auto
    have u: "unescape_text s = take k s @ unescape_text v"
      using unescape_text_plain [OF k(2), of v] by (simp add: v_def)
    have m: "m = s @ 0 # drop (Suc (length s)) m"
      using h(1) id_take_nth_drop [of "length s" m] by (simp add: holds_def)
    have d: "drop k m = v @ 0 # drop (Suc (length s)) m" using k(1) by (subst m) (simp add: v_def)
    have nz: "0 \<notin> set v" using assms(3) by (auto simp: v_def dest: in_set_dropD)
    obtain m' where m': "unescape_loop m k k (int (length s)) =
          Some (m', k + length (unescape_text v), int (length s) - int (length v) + int (length (unescape_text v)))"
        "length m' = length m" "take (k + length (unescape_text v)) m' = take k m @ unescape_text v"
      using unescape_loop_spec [OF d nz, of k "int (length s)"] by auto
    have le: "length (unescape_text v) \<le> length v" by (induction v rule: unescape_text.induct) auto
    have tk: "take k m = take k s" using h(1) k(1) by (intro take_of_take) (auto simp: holds_def)
    have lu: "length (unescape_text s) = k + length (unescape_text v)" using u k(1) by simp
    have n: "nat ((int (length s) - int (length v) + int (length (unescape_text v))) mod 2 ^ 32) = length (unescape_text s)"
    proof -
      have "int (length s) - int (length v) + int (length (unescape_text v)) = int (length (unescape_text s))"
        using lu k(1) by (simp add: v_def)
      moreover have "length (unescape_text s) < 2 ^ 31" using lu le h(2,4) k(1) by (simp add: v_def)
      ultimately show ?thesis by simp
    qed
    have ul: "length (unescape_text s) \<le> length s" using lu le k(1) by (simp add: v_def)
    have "length (unescape_text s) < bsize b" "bsize b \<le> length m'" "take (length (unescape_text s)) m' = unescape_text s"
      using ul h(2,3) m' tk u lu by auto
    note pz = put_zero [OF refl this(1,2) h(4) this(3)]
    from pz m'(1) n ul show ?thesis using Some assms(2) c g(2) h(5)
      by (simp add: http2d_buffer_unescape_uri_def lu)
  qed
qed


subsection \<open>HTML\<close>

lemma html_entity_length: "length (html_entity c) = 1 + html_extra c"
  by (simp add: html_entity_def html_extra_def chr_def)

lemma html_count_length: "length (concat (map html_entity s)) = length s + html_count s"
  by (induction s) (auto simp: html_entity_length)

lemma html_copy_spec:
  "p + length (concat (map html_entity s)) \<le> length d \<Longrightarrow>
   \<exists>d'. html_copy s d p = Some (d', p + length (concat (map html_entity s))) \<and> length d' = length d \<and>
     take (p + length (concat (map html_entity s))) d' = take p d @ concat (map html_entity s)"
proof (induction s arbitrary: d p)
  case (Cons c s)
  have "p + length (html_entity c) \<le> length d" using Cons.prems by simp
  then obtain d1 where d1: "blk_write d p (html_entity c) = Some d1" "length d1 = length d"
      "take (p + length (html_entity c)) d1 = take p d @ html_entity c"
    by (rule write_at)
  with Cons.IH [of "p + length (html_entity c)" d1] Cons.prems show ?case by (auto simp: add.assoc)
qed simp

lemma html_text_clean:
  assumes "c \<in> {chr CHR ''<'', chr CHR ''>'', chr CHR 0x22}"
  shows "c \<notin> set (html_text s)"
proof -
  define q where "q = lit ''<>&'' @ [chr CHR 0x22]"
  have cq: "c \<in> set q" using assms by (auto simp: q_def lit_def)
  have e: "c \<notin> set (html_entity x)" for x
    using assms by (auto simp: html_entity_def lit_def chr_def)
  have "set (take (strcspn s q) s) \<inter> set q = {}"
    unfolding strcspn_def takeWhile_eq_take [symmetric] by (auto dest: set_takeWhileD)
  with cq e show ?thesis unfolding html_text_def Let_def q_def [symmetric] by auto
qed

lemma add_escape_html_rep:
  assumes "buf_rep b t" "buf_rep src s" "buf src = Some m" "0 \<notin> set s"
    and "length t + 6 * length s + 17 < 2 ^ 31" "\<And>n. malloc_ok h n"
  shows "\<exists>b' src'. http2d_buffer_add_escape_html h b src = Some (ret_ok, b', src') \<and> buf_rep b' (t @ html_text s) \<and>
    buf_rep src' s"
proof -
  note hs = buf_rep_holds [OF assms(2-4)]
  define q where "q = lit ''<>&'' @ [chr CHR 0x22]"
  define k where "k = strcspn s q"
  define src' where "src' = src\<lparr>buf := Some m\<rparr>"
  have src': "buf_rep src' s" "len src' = length s"
    using assms(2,3) hs(5) by (auto simp: src'_def buf_rep_def buffer_ok_def buffer_term_def buf_str_def)
  have c: "cstr m 0 = Some s" using cstr_holds [OF hs(1), of 0] by simp
  have kl: "k \<le> length s" by (simp add: k_def strcspn_def length_takeWhile_le)
  show ?thesis
  proof (cases "k < length s")
    case False
    have t: "html_text s = s" using False kl unfolding html_text_def Let_def q_def [symmetric] k_def [symmetric] by simp
    obtain b' where "http2d_buffer_add_buffer h b src' = Some (ret_ok, b')" "buf_rep b' (t @ s)"
      using http2d_buffer_add_buffer_rep [OF assms(1) src'(1), of h] assms(5,6) by (auto simp: grows_to_def)
    moreover have "strpbrk s q = None" using False by (simp add: strpbrk_def k_def)
    ultimately show ?thesis using assms(3) get_holds(2) [OF hs(1)] hs(5) c src'(1) t
      unfolding http2d_buffer_add_escape_html_def q_def [symmetric] by (simp add: src'_def)
  next
    case True
    define v where "v = drop k s"
    define H where "H = concat (map html_entity v)"
    have H: "length H = length v + html_count v" by (simp add: H_def html_count_length)
    have "html_count v \<le> 5 * length v" by (induction v) (auto simp: html_extra_def)
    then have hc: "html_count v \<le> 5 * length s" by (simp add: v_def)
    have T: "html_text s = take k s @ H" unfolding html_text_def Let_def q_def [symmetric] k_def [symmetric] by (simp add: H_def v_def)
    have lT: "length (html_text s) = length s + html_count v" using kl by (simp add: T H v_def)
    have ok: "buffer_ok b" and l: "len b = length t" and st: "buf_str b = t" using assms(1) by (auto simp: buf_rep_def)
    define n where "n = length s + html_count v + 1"
    have sz: "len b + n + 1 < 2 ^ 31" "length t + length (html_text s) < 2 ^ 31"
      using assms(5) hc l lT by (simp_all add: n_def)
    have u: "u64 n = n" "u32 (length t + (length s + html_count v)) = length t + length (html_text s)"
      using sz l lT by (simp_all add: int_simps)
    obtain b1 where b1: "http2d_buffer_ensure_addlen h b n = (ret_ok, b1)" "buffer_ok b1" "buf_str b1 = t"
        "len b1 = length t" "length t + n < bsize b1" "buf b1 \<noteq> None"
      using http2d_buffer_ensure_addlen_ok [OF ok sz(1) assms(6)] unfolding l st by metis
    then obtain d where d: "buf b1 = Some d" "take (length t) d = t" "bsize b1 \<le> length d" "bsize b1 < 2 ^ 31"
      by (auto simp: buffer_ok_def buf_str_def)
    have rd: "blk_read m 0 k = Some (take k s)"
      using hs(1) kl take_of_take [of "length s" m s k] by (simp add: holds_def blk_read_def)
    have lk: "length (take k s) = k" using kl by simp
    have "length t + length (take k s) \<le> length d" using b1(5) d(3) lk kl by (simp add: n_def)
    then obtain d1 where d1: "blk_write d (length t) (take k s) = Some d1" "length d1 = length d"
        "take (length t + length (take k s)) d1 = take (length t) d @ take k s"
      by (rule write_at)
    have w: "(if k \<noteq> 0 then blk_write d (length t) (take k s) else Some d) = Some d1"
      using d1(1) b1(5) d(3) by (auto simp: blk_write_def split: if_splits)
    have "length t + k + length H \<le> length d1" using b1(5) d(3) d1(2) H kl by (simp add: n_def v_def)
    then obtain d2 where d2: "html_copy v d1 (length t + k) = Some (d2, length t + k + length H)" "length d2 = length d"
        "take (length t + k + length H) d2 = take (length t + k) d1 @ H"
      using html_copy_spec [of "length t + k" v d1] d1(2) unfolding H_def by auto
    have e: "length t + k + length H = length t + length (html_text s)" using kl by (simp add: T)
    have "length (t @ html_text s) = length t + length (html_text s)" "length t + length (html_text s) < bsize b1"
        "bsize b1 \<le> length d2" "take (length t + length (html_text s)) d2 = t @ html_text s"
      using b1(5) lT d d2 d1(3) lk unfolding e by (auto simp: T n_def)
    note pz = put_zero [OF this(1-3) d(4) this(4)]
    have "strpbrk s q = Some k" using True by (simp add: strpbrk_def k_def)
    moreover have "k = 0 \<Longrightarrow> v = s" by (simp add: v_def)
    ultimately show ?thesis using pz w rd d2(1) b1(1,4) u assms(3) get_holds(2) [OF hs(1)] hs(5) c d(1) src'(1)
      unfolding http2d_buffer_add_escape_html_def q_def [symmetric]
      by (cases "k = 0") (simp_all add: Let_def n_def src'_def flip: v_def)
  qed
qed

lemma hex_chars_index: "unat (drop_bit 4 c) < length hex_chars" "unat (c AND 0xf) < length hex_chars" for c :: byte
proof -
  have "c AND 0xf = take_bit 4 c" by (simp add: take_bit_eq_mask mask_eq_exp_minus_1)
  then show "unat (c AND 0xf) < length hex_chars"
    by (simp add: hex_chars_def unsigned_take_bit_eq take_bit_eq_mod unat_mod_distrib)
  have "unat c < 2 ^ LENGTH(8)" by (rule unsigned_less)
  then show "unat (drop_bit 4 c) < length hex_chars"
    by (simp only: unat_drop_bit_eq) (simp add: hex_chars_def drop_bit_eq_div less_mult_imp_div_less)
qed

lemma escape_text_nonzero:
  assumes "0 \<notin> set s"
  shows "0 \<notin> set (escape_text tab s)"
proof -
  have "list_all (\<lambda>c. c \<noteq> 0) (chr CHR ''%'' # hex_chars)" by code_simp
  then have nz: "chr CHR ''%'' \<noteq> 0" "\<And>i. i < length hex_chars \<Longrightarrow> hex_chars ! i \<noteq> 0" by (auto simp: list_all_length)
  have "0 \<notin> set (escape_char tab u)" if "0 \<notin> set u" for u
    using that nz(1) nz(2) [OF hex_chars_index(1), of "hd u"] nz(2) [OF hex_chars_index(2), of "hd u"]
    by (auto simp: escape_char_def)
  moreover have "0 \<notin> set u" if "u \<in> set (utf8_chars s)" for u
    using that assms concat_utf8_chars [of s] by (metis UN_I set_concat)
  ultimately show ?thesis by (auto simp: escape_text_def)
qed

subsection \<open>Properties\<close>

text \<open>C35: percent-escaping and unescaping are inverse: escaping a non-empty text with any of the
  tables (all of them escape \<open>%\<close>) and unescaping the result in place gives the text back, if
  it has no zero byte and no \<open>%\<close> right behind the lead byte of a UTF-8 character.\<close>

theorem http2d_buffer_escape_uri_roundtrip:
  assumes "buf_rep b []" "buf_rep src s" "0 \<notin> set s" "s \<noteq> []" "4 * length s + 1 < 2 ^ 31" "\<And>n. malloc_ok h n"
    and "list_all (\<lambda>u. length u = 1 \<or> chr CHR ''%'' \<notin> set u) (utf8_chars s)"
    and "tab \<in> {escape_uri_tab, escape_uri_delims_tab, escape_arg_tab}"
  shows "\<exists>b1 b2. escape_with_table h b src tab = Some (ret_ok, b1) \<and>
    http2d_buffer_unescape_uri b1 = Some (ret_ok, b2) \<and> buf_rep b2 s"
proof -
  have "list_all (\<lambda>tab. is_char_escaped tab (chr CHR ''%'')) [escape_uri_tab, escape_uri_delims_tab, escape_arg_tab]"
    by code_simp
  then have pc: "is_char_escaped tab (chr CHR ''%'')" using assms(8) by auto
  obtain b1 where b1: "escape_with_table h b src tab = Some (ret_ok, b1)" "buf_rep b1 (escape_text tab s)"
    using escape_with_table_rep [OF assms(1-4) _ assms(6), of tab] assms(5) by auto
  have "0 < length (escape_text tab s)" using assms(4) by (simp add: length_escape_text)
  then obtain m where m: "buf b1 = Some m" using b1(2) by (auto elim: buf_rep_cases)
  have "0 \<notin> set (escape_text tab s)" by (rule escape_text_nonzero [OF assms(3)])
  with unescape_uri_rep [OF b1(2) m] unescape_escape_text [OF pc assms(3)] assms(7) b1(1) show ?thesis
    by (auto simp: list_all_iff)
qed

theorem http2d_buffer_escape_uri_roundtrip_witness:
  "\<exists>b1 b2. escape_with_table (total_heap (\<lambda>_. 170)) HTTP2D_BUF_INIT (http2d_buffer_fake_str ''/a b%20?'') escape_arg_tab
      = Some (ret_ok, b1) \<and> http2d_buffer_unescape_uri b1 = Some (ret_ok, b2) \<and> buf_rep b2 (lit ''/a b%20?'')"
proof -
  have "0 \<notin> set (lit ''/a b%20?'')" "lit ''/a b%20?'' \<noteq> []"
      "list_all (\<lambda>u. length u = 1 \<or> chr CHR ''%'' \<notin> set u) (utf8_chars (lit ''/a b%20?''))"
    by code_simp+
  then show ?thesis
    by (intro http2d_buffer_escape_uri_roundtrip [OF buf_rep_INIT http2d_buffer_fake_str_rep]) auto
qed

text \<open>escaping an empty source whose chunk is not \<open>NULL\<close> with a table that escapes the zero
  character (all three do) appends the two characters \<open>%0\<close>: the \<open>do\<close> loops run once on the
  terminating zero and write \<open>%00\<close>, but the length grows by two only, so that the text is
  not even followed by its terminating zero any more.\<close>

theorem escape_with_table_empty_source:
  assumes "buf_rep b t" "buf_rep src []" "buf src \<noteq> None" "length t + 4 < 2 ^ 31" "\<And>n. malloc_ok h n"
    and "is_char_escaped tab 0"
  shows "\<exists>b'. escape_with_table h b src tab = Some (ret_ok, b') \<and> buf_str b' = t @ lit ''%0'' \<and> \<not> buffer_term b'"
proof -
  obtain m where m: "buf src = Some m" using assms(3) by auto
  have h: "holds m []" "len src = 0" using buf_rep_holds [OF assms(2) m] by auto
  have g: "blk_get m 0 = Some 0" using get_holds(2) [OF h(1)] by simp
  then have nx: "utf8_get_next_char m 0 = Some 1" by (simp add: utf8_get_next_char_def)
  have cnt: "escape_count tab m 0 0 0 = Some 1" using nx g assms(6) by (subst escape_count.simps) simp
  define z where "z = lit ''%00''"
  have z: "[chr CHR ''%'', hex_chars ! 0, hex_chars ! 0] = z" "length z = 3" "z ! 2 \<noteq> 0" "take 2 z = lit ''%0''"
    by (simp_all add: z_def hex_chars_def lit_def chr_def)
  have ok: "buffer_ok b" and l: "len b = length t" and st: "buf_str b = t" using assms(1) by (auto simp: buf_rep_def)
  have sz: "len b + 3 + 1 < 2 ^ 31" using assms(4) l by simp
  obtain b1 where b1: "http2d_buffer_ensure_addlen h b 3 = (ret_ok, b1)" "buffer_ok b1" "buf_str b1 = t"
      "len b1 = length t" "length t + 3 < bsize b1" "buf b1 \<noteq> None"
    using http2d_buffer_ensure_addlen_ok [OF ok sz assms(5)] unfolding l st by metis
  then obtain d where d: "buf b1 = Some d" "take (length t) d = t" "bsize b1 \<le> length d"
    by (auto simp: buffer_ok_def buf_str_def)
  have "length t + length z \<le> length d" using z(2) b1(5) d(3) by simp
  then obtain d1 where d1: "blk_write d (length t) z = Some d1" "length d1 = length d"
      "take (length t + length z) d1 = take (length t) d @ z"
    by (rule write_at)
  have cv: "escape_convert tab m 0 0 d (length t) = Some (d1, length t + 3)"
    using nx g assms(6) z d1(1) by (subst escape_convert.simps) simp
  define d2 where "d2 = d1[length t + 3 := 0]"
  have d2: "blk_set d1 (length t + 3) 0 = Some d2" using d1(2) b1(5) d(3) by (simp add: blk_set_in d2_def)
  have t3: "take (length t + 3) d1 = t @ z" using d1(3) z(2) d(2) by simp
  have "d1 ! (length t + 2) = (t @ z) ! (length t + 2)" unfolding t3 [symmetric] by simp
  moreover have "(t @ z) ! (length t + 2) = z ! 2" by (rule nth_append_length_plus)
  ultimately have nt: "d2 ! (length t + 2) \<noteq> 0" using z(3) by (simp add: d2_def)
  have "take (length t + 2) d1 = take (length t + 2) (t @ z)" unfolding t3 [symmetric] by simp
  then have tx: "take (length t + 2) d2 = t @ lit ''%0''" using z(4) by (simp add: d2_def)
  have u: "u32 3 = 3" "u32 (length t + 2) = length t + 2" using assms(4) by (simp_all add: int_simps)
  define b2 where "b2 = b1\<lparr>buf := Some d2, len := length t + 2\<rparr>"
  have "escape_with_table h b src tab = Some (ret_ok, b2)"
    using m h(2) cnt b1(1,4) d(1) cv d2 u by (simp add: escape_with_table_def b2_def)
  moreover have "buf_str b2 = t @ lit ''%0''" "\<not> buffer_term b2"
    using tx nt by (simp_all add: b2_def buf_str_def buffer_term_def)
  ultimately show ?thesis by blast
qed

theorem escape_with_table_empty_source_witness:
  "\<exists>b'. escape_with_table (total_heap (\<lambda>_. 170)) HTTP2D_BUF_INIT (http2d_buffer_fake_str []) escape_uri_tab = Some (ret_ok, b') \<and>
    buf_str b' = lit ''%0'' \<and> \<not> buffer_term b'"
proof -
  have "is_char_escaped escape_uri_tab 0" by code_simp
  then show ?thesis
    using escape_with_table_empty_source [OF buf_rep_INIT, of "http2d_buffer_fake_str []" "total_heap (\<lambda>_. 170)" escape_uri_tab]
      http2d_buffer_fake_str_rep [of "[]"]
    by (simp add: http2d_buffer_fake_str_def http2d_buffer_fake_def lit_def [of "[]"])
qed

text \<open>\<open>http2d_buffer_get_utf8_len\<close> counts the UTF-8 characters of the text: the pieces counted
  are not empty and their concatenation is the text. A character cut off by the end of the
  text is counted once and nothing behind the terminating zero is read.\<close>

theorem http2d_buffer_get_utf8_len_correct:
  assumes "buf_rep b s" "0 \<notin> set s"
  shows "http2d_buffer_get_utf8_len b = Some (ret_ok, length (utf8_chars s)) \<and> concat (utf8_chars s) = s \<and>
    list_all (\<lambda>u. u \<noteq> []) (utf8_chars s)"
proof (cases "s = []")
  case True
  with buf_rep_len [OF assms(1)] show ?thesis
    by (auto simp: http2d_buffer_get_utf8_len_def split: option.splits)
next
  case False
  then obtain m where m: "buf b = Some m" using assms(1) by (auto elim: buf_rep_cases)
  note h = buf_rep_holds [OF assms(1) m assms(2)]
  from utf8_count_spec [OF h(1), of 0 0] False m h(5) concat_utf8_chars [of s] utf8_chars_nonempty [of _ s]
  show ?thesis by (auto simp: http2d_buffer_get_utf8_len_def list_all_iff)
qed

theorem http2d_buffer_get_utf8_len_correct_witness:
  "http2d_buffer_get_utf8_len \<lparr>buf = Some [0x61, 0xC3, 0xA9, 0xE2, 0x82, 0], bsize = 6, len = 5\<rparr> = Some (ret_ok, 3)"
proof -
  have n: "length (utf8_chars [0x61, 0xC3, 0xA9, 0xE2, 0x82]) = 3" "(0 :: byte) \<notin> set [0x61, 0xC3, 0xA9, 0xE2, 0x82]"
    by code_simp+
  have "buf_rep \<lparr>buf = Some [0x61, 0xC3, 0xA9, 0xE2, 0x82, 0], bsize = 6, len = 5\<rparr> [0x61, 0xC3, 0xA9, 0xE2, 0x82]"
    by (simp add: buf_rep_def buffer_ok_def buffer_term_def buf_str_def)
  from http2d_buffer_get_utf8_len_correct [OF this n(2)] n(1) show ?thesis by (simp only:)
qed

text \<open>\<open>http2d_buffer_add_escape_html\<close> appends the text with its markup characters as entities:
  what is appended contains no \<open><\<close>, no \<open>>\<close> and no double quote, and the room it computes in
  advance is exactly what the copy loop fills.\<close>

theorem http2d_buffer_add_escape_html_correct:
  assumes "buf_rep b t" "buf_rep src s" "buf src \<noteq> None" "0 \<notin> set s"
    and "length t + 6 * length s + 17 < 2 ^ 31" "\<And>n. malloc_ok h n"
  shows "\<exists>b' src'. http2d_buffer_add_escape_html h b src = Some (ret_ok, b', src') \<and> buf_rep b' (t @ html_text s) \<and>
    buf_rep src' s \<and> set (html_text s) \<inter> {chr CHR ''<'', chr CHR ''>'', chr CHR 0x22} = {}"
proof -
  obtain m where "buf src = Some m" using assms(3) by auto
  from add_escape_html_rep [OF assms(1,2) this assms(4-6)] html_text_clean [of _ s] show ?thesis by blast
qed

theorem http2d_buffer_add_escape_html_correct_witness:
  "\<exists>b' src'. http2d_buffer_add_escape_html (total_heap (\<lambda>_. 170)) HTTP2D_BUF_INIT (http2d_buffer_fake_str ''#<#>'') =
      Some (ret_ok, b', src') \<and> buf_rep b' (lit ''#&lt;&#35;&gt;'')"
proof -
  have "html_text (lit ''#<#>'') = lit ''#&lt;&#35;&gt;''" "0 \<notin> set (lit ''#<#>'')" by code_simp+
  then show ?thesis
    using http2d_buffer_add_escape_html_correct [OF buf_rep_INIT http2d_buffer_fake_str_rep [of "''#<#>''"], of "total_heap (\<lambda>_. 170)"]
    by (auto simp: http2d_buffer_fake_str_def http2d_buffer_fake_def)
qed

end
