(* ===== verification/Buffer_Num.thy ===== *)
theory Buffer_Num
  imports Buffer
begin

text \<open>
  The number rendering of \<^verbatim>\<open>src/src/buffer.c\<close>: \<open>http2d_buffer_add_long10\<close> and its
  siblings, the big-endian writers, the formatted append into the space already allocated
  (\<open>http2d_buffer_add_va_fixed\<close>) and the human-readable sizes of
  \<open>http2d_buffer_add_fsize\<close>.

  The C functions fill a local array \<open>szOutBuf\<close> of 64 characters from its end. The loops keep
  that array: a store below its start would be a fault. \<open>show_dec\<close> and \<open>show_hex\<close> are the
  reference renderings, tied to the number by \<open>dec_val\<close> and \<open>hex_val\<close>.
\<close>

definition IOS_NUMBUF :: nat where
  "IOS_NUMBUF = 64"

definition szOutBuf :: "heap \<Rightarrow> block" where
  "szOutBuf h = (map (fresh h) [0..<IOS_NUMBUF])[IOS_NUMBUF - 1 := 0]"

definition TO_HEX :: "nat \<Rightarrow> byte" where
  "TO_HEX c = word_of_nat (if c > 9 then c + 97 - 10 else c + 48)"

subsection \<open>Conversion loops\<close>

text \<open>\<open>do { szOutBuf[--i] = (char) ((ulNum % 10) + '0'); } while ((ulNum /= 10) != 0);\<close>\<close>

fun dec_loop :: "block \<Rightarrow> nat \<Rightarrow> nat \<Rightarrow> (block \<times> nat) option" where
  "dec_loop arr i n =
     (if i = 0 then None
      else do {
        arr \<leftarrow> blk_set arr (i - 1) (word_of_nat (n mod 10 + 48));
        (if n div 10 \<noteq> 0 then dec_loop arr (i - 1) (n div 10) else Some (arr, i - 1)) })"

fun hex_loop :: "block \<Rightarrow> nat \<Rightarrow> nat \<Rightarrow> (block \<times> nat) option" where
  "hex_loop arr i n =
     (if i = 0 then None
      else do {
        arr \<leftarrow> blk_set arr (i - 1) (TO_HEX (n AND 15));
        (if drop_bit 4 n \<noteq> 0 then hex_loop arr (i - 1) (drop_bit 4 n) else Some (arr, i - 1)) })"

declare dec_loop.simps [simp del] hex_loop.simps [simp del]

text \<open>The common end of the six functions: make room, \<open>strcpy\<close> the digits with their zero.\<close>

definition add_digits :: "heap \<Rightarrow> buffer \<Rightarrow> block \<Rightarrow> nat \<Rightarrow> (ret_t \<times> buffer) option" where
  "add_digits h b arr i =
     (let newlen = u32 (len b + (IOS_NUMBUF - 1 - i));
          (ret, b1) = (if newlen \<ge> bsize b then realloc_new_bufsize h b (sext64 newlen)
                       else (ret_ok, b))
      in if ret \<noteq> ret_ok then Some (ret_nomem, b1)
         else do {
           m \<leftarrow> buf b1;
           s \<leftarrow> cstr arr i;
           m \<leftarrow> blk_write m (len b1) (s @ [0]);
           Some (ret_ok, b1\<lparr>buf := Some m, len := newlen\<rparr>) })"

definition http2d_buffer_add_ulong10 :: "heap \<Rightarrow> buffer \<Rightarrow> nat \<Rightarrow> (ret_t \<times> buffer) option" where
  "http2d_buffer_add_ulong10 h b ulNum = do {
     (arr, i) \<leftarrow> dec_loop (szOutBuf h) (IOS_NUMBUF - 1) (u64 ulNum);
     add_digits h b arr i }"

definition http2d_buffer_add_ullong10 :: "heap \<Rightarrow> buffer \<Rightarrow> nat \<Rightarrow> (ret_t \<times> buffer) option" where
  "http2d_buffer_add_ullong10 h b ulNum = do {
     (arr, i) \<leftarrow> dec_loop (szOutBuf h) (IOS_NUMBUF - 1) (u64 ulNum);
     add_digits h b arr i }"

definition http2d_buffer_add_long10 :: "heap \<Rightarrow> buffer \<Rightarrow> int \<Rightarrow> (ret_t \<times> buffer) option" where
  "http2d_buffer_add_long10 h b lNum =
     (let ulNum = nat (lNum mod 2 ^ 64);
          flgNeg = lNum < 0;
          ulNum = (if flgNeg then sub64 0 ulNum else ulNum)
      in do {
        (arr, i) \<leftarrow> dec_loop (szOutBuf h) (IOS_NUMBUF - 1) ulNum;
        (if i = 0 then None
         else do {
           arr \<leftarrow> blk_set arr (i - 1) (chr CHR ''-'');
           add_digits h b arr (i - 1 + (if flgNeg then 0 else 1)) }) })"

definition http2d_buffer_add_llong10 :: "heap \<Rightarrow> buffer \<Rightarrow> int \<Rightarrow> (ret_t \<times> buffer) option" where
  "http2d_buffer_add_llong10 h b lNum =
     (let ulNum = nat (lNum mod 2 ^ 64);
          flgNeg = lNum < 0;
          ulNum = (if flgNeg then sub64 0 ulNum else ulNum)
      in do {
        (arr, i) \<leftarrow> dec_loop (szOutBuf h) (IOS_NUMBUF - 1) ulNum;
        (if i = 0 then None
         else do {
           arr \<leftarrow> blk_set arr (i - 1) (chr CHR ''-'');
           add_digits h b arr (i - 1 + (if flgNeg then 0 else 1)) }) })"

definition http2d_buffer_add_ulong16 :: "heap \<Rightarrow> buffer \<Rightarrow> nat \<Rightarrow> (ret_t \<times> buffer) option" where
  "http2d_buffer_add_ulong16 h b ulNum = do {
     (arr, i) \<leftarrow> hex_loop (szOutBuf h) (IOS_NUMBUF - 1) (u64 ulNum);
     add_digits h b arr i }"

definition http2d_buffer_add_ullong16 :: "heap \<Rightarrow> buffer \<Rightarrow> nat \<Rightarrow> (ret_t \<times> buffer) option" where
  "http2d_buffer_add_ullong16 h b ulNum = do {
     (arr, i) \<leftarrow> hex_loop (szOutBuf h) (IOS_NUMBUF - 1) (u64 ulNum);
     add_digits h b arr i }"

text \<open>\<open>htons\<close> and \<open>htonl\<close> followed by a copy of the bytes: network byte order.\<close>

definition http2d_buffer_add_uint16be :: "heap \<Rightarrow> buffer \<Rightarrow> 16 word \<Rightarrow> (ret_t \<times> buffer) option" where
  "http2d_buffer_add_uint16be h b n =
     http2d_buffer_add h b (Ext [ucast (drop_bit 8 n), ucast n]) 2"

definition http2d_buffer_add_uint32be :: "heap \<Rightarrow> buffer \<Rightarrow> 32 word \<Rightarrow> (ret_t \<times> buffer) option" where
  "http2d_buffer_add_uint32be h b n =
     http2d_buffer_add h b
       (Ext [ucast (drop_bit 24 n), ucast (drop_bit 16 n), ucast (drop_bit 8 n), ucast n]) 4"

subsection \<open>Reference renderings\<close>

fun show_dec :: "nat \<Rightarrow> byte list" where
  "show_dec n = (if n < 10 then [] else show_dec (n div 10)) @ [word_of_nat (n mod 10 + 48)]"

fun show_hex :: "nat \<Rightarrow> byte list" where
  "show_hex n = (if n < 16 then [] else show_hex (n div 16)) @ [TO_HEX (n mod 16)]"

declare show_dec.simps [simp del] show_hex.simps [simp del]

definition show_int :: "int \<Rightarrow> byte list" where
  "show_int i = (if i < 0 then chr CHR ''-'' # show_dec (nat (- i)) else show_dec (nat i))"

definition dec_val :: "byte list \<Rightarrow> nat" where
  "dec_val s = foldl (\<lambda>a c. 10 * a + (unat c - 48)) 0 s"

subsection \<open>Formatted output into the allocated space\<close>

text \<open>\<open>vsnprintf (buf->buf + buf->len, size, \<dots>)\<close> for a format whose full output is \<open>out\<close>: at most
  \<open>size - 1\<close> characters and a zero are stored, the full length is returned. When the output
  does not fit, the function reports an error after the store.\<close>

definition http2d_buffer_add_va_fixed :: "buffer \<Rightarrow> byte list \<Rightarrow> (ret_t \<times> buffer) option" where
  "http2d_buffer_add_va_fixed b out =
     (let size = s32 (sub32 (bsize b) (len b))
      in if size < 1 then Some (ret_error, b)
         else do {
           m \<leftarrow> buf b;
           m \<leftarrow> blk_write m (len b) (take (nat size - 1) out @ [0]);
           (let b1 = b\<lparr>buf := Some m\<rparr>
            in if int (length out) \<ge> size then Some (ret_error, b1)
               else Some (ret_ok, b1\<lparr>len := u32 (len b1 + length out)\<rparr>)) })"

text \<open>The loop of \<open>http2d_buffer_add_fsize\<close>: the text it formats, with \<open>*o\<close> read from
  \<open>ord[] = "KMGTPE"\<close>. A \<open>%3d\<close> conversion pads on the left with blanks.\<close>

definition pad3 :: "byte list \<Rightarrow> byte list" where
  "pad3 s = replicate (3 - length s) (chr CHR '' '') @ s"

function fsize_text :: "nat \<Rightarrow> nat \<Rightarrow> byte list option" where
  "fsize_text sz k =
     (let remain = sz AND 1023; sz' = drop_bit 10 sz
      in if sz' \<ge> 973 then fsize_text sz' (k + 1)
         else if sz' < 9 \<or> sz' = 9 \<and> remain < 973 then
           (let remain = (remain * 5 + 256) div 512;
                (sz', remain) = (if remain \<ge> 10 then (sz' + 1, 0) else (sz', remain))
            in do {
              c \<leftarrow> blk_get (lit ''KMGTPE'' @ [0]) k;
              Some (show_dec sz' @ lit ''.'' @ show_dec remain @ [c]) })
         else
           (let sz' = (if remain \<ge> 512 then sz' + 1 else sz')
            in do {
              c \<leftarrow> blk_get (lit ''KMGTPE'' @ [0]) k;
              Some (pad3 (show_dec sz') @ [c]) }))"
  by pat_completeness auto
termination
  by (relation "measure fst") (auto simp: drop_bit_eq_div)

declare fsize_text.simps [simp del]

definition http2d_buffer_add_fsize :: "heap \<Rightarrow> buffer \<Rightarrow> int \<Rightarrow> (ret_t \<times> buffer) option" where
  "http2d_buffer_add_fsize h b sz =
     (let (ret, b) = http2d_buffer_ensure_size h b (u32 (len b + 8))
      in if ret \<noteq> ret_ok then Some (ret, b)
         else if sz < 973 then http2d_buffer_add_ulong10 h b (nat (sz mod 2 ^ 64))
         else do {
           out \<leftarrow> fsize_text (nat sz) 0;
           http2d_buffer_add_va_fixed b out })"

subsection \<open>The renderings\<close>


lemma show_dec_step: "10 \<le> n \<Longrightarrow> show_dec n = show_dec (n div 10) @ [word_of_nat (n mod 10 + 48)]"
  by (subst show_dec.simps) simp

lemma show_dec_digit: "n < 10 \<Longrightarrow> show_dec n = [word_of_nat (n + 48)]"
  by (subst show_dec.simps) simp

lemma show_dec_pos [simp]: "0 < length (show_dec n)"
  by (subst show_dec.simps) simp

lemma show_hex_step: "16 \<le> n \<Longrightarrow> show_hex n = show_hex (n div 16) @ [TO_HEX (n mod 16)]"
  by (subst show_hex.simps) simp

lemma show_hex_digit: "n < 16 \<Longrightarrow> show_hex n = [TO_HEX n]"
  by (subst show_hex.simps) simp

lemma show_hex_pos [simp]: "0 < length (show_hex n)"
  by (subst show_hex.simps) simp

lemma show_dec_length: "n < 10 ^ k \<Longrightarrow> 0 < k \<Longrightarrow> length (show_dec n) \<le> k"
proof (induction k arbitrary: n)
  case (Suc k)
  show ?case
  proof (cases "n < 10")
    case True
    then show ?thesis by (simp add: show_dec_digit)
  next
    case False
    then have "n div 10 < 10 ^ k" "0 < k"
      using Suc.prems by (simp_all add: less_mult_imp_div_less mult.commute, cases k, auto)
    with False Suc.IH show ?thesis by (simp add: show_dec_step)
  qed
qed simp

lemma show_hex_length: "n < 16 ^ k \<Longrightarrow> 0 < k \<Longrightarrow> length (show_hex n) \<le> k"
proof (induction k arbitrary: n)
  case (Suc k)
  show ?case
  proof (cases "n < 16")
    case True
    then show ?thesis by (simp add: show_hex_digit)
  next
    case False
    then have "n div 16 < 16 ^ k" "0 < k"
      using Suc.prems by (simp_all add: less_mult_imp_div_less mult.commute, cases k, auto)
    with False Suc.IH show ?thesis by (simp add: show_hex_step)
  qed
qed simp

lemma drop_update_last: "0 < i \<Longrightarrow> i \<le> length xs \<Longrightarrow> drop (i - 1) (xs[i - 1 := v]) = v # drop i xs"
  by (simp add: drop_update_swap Cons_nth_drop_Suc [symmetric])

text \<open>The decimal loop fills the array downwards with exactly the digits of the number.\<close>

lemma dec_loop_spec:
  "length (show_dec n) \<le> i \<Longrightarrow> i \<le> length arr \<Longrightarrow>
   \<exists>arr'. dec_loop arr i n = Some (arr', i - length (show_dec n)) \<and> length arr' = length arr \<and>
     drop (i - length (show_dec n)) arr' = show_dec n @ drop i arr"
proof (induction arr i n rule: dec_loop.induct)
  case (1 arr i n)
  have i: "0 < i" using "1.prems"(1) show_dec_pos [of n] by linarith
  define d where "d = (word_of_nat (n mod 10 + 48) :: byte)"
  define a1 where "a1 = arr[i - 1 := d]"
  have a1: "blk_set arr (i - 1) d = Some a1" "length a1 = length arr" "drop (i - 1) a1 = d # drop i arr"
    using i "1.prems"(2) drop_update_last [of i arr d] by (auto simp: a1_def mem_simps)
  show ?case
  proof (cases "n < 10")
    case True
    with i a1 show ?thesis by (auto simp: dec_loop.simps [of arr] show_dec_digit d_def)
  next
    case False
    then have s: "show_dec n = show_dec (n div 10) @ [d]" "n div 10 \<noteq> 0"
      by (simp_all add: show_dec_step d_def)
    then have "length (show_dec (n div 10)) \<le> i - 1" "i - 1 \<le> length a1"
      using "1.prems" a1 i by auto
    then have "\<exists>arr'. dec_loop a1 (i - 1) (n div 10) = Some (arr', i - 1 - length (show_dec (n div 10))) \<and>
      length arr' = length a1 \<and> drop (i - 1 - length (show_dec (n div 10))) arr' = show_dec (n div 10) @ drop (i - 1) a1"
      using "1.IH" [of a1] i a1(1) s(2) unfolding d_def by blast
    with i a1 s show ?thesis by (auto simp: dec_loop.simps [of arr] d_def)
  qed
qed

lemma hex_loop_spec:
  "length (show_hex n) \<le> i \<Longrightarrow> i \<le> length arr \<Longrightarrow>
   \<exists>arr'. hex_loop arr i n = Some (arr', i - length (show_hex n)) \<and> length arr' = length arr \<and>
     drop (i - length (show_hex n)) arr' = show_hex n @ drop i arr"
proof (induction arr i n rule: hex_loop.induct)
  case (1 arr i n)
  have i: "0 < i" using "1.prems"(1) show_hex_pos [of n] by linarith
  have m: "n AND 15 = n mod 16" "drop_bit 4 n = n div 16"
    using and_nat_numerals take_bit_eq_mask [of 4 n] by (simp_all add: take_bit_eq_mod drop_bit_eq_div mask_eq_exp_minus_1)
  define d where "d = TO_HEX (n mod 16)"
  define a1 where "a1 = arr[i - 1 := d]"
  have a1: "blk_set arr (i - 1) d = Some a1" "length a1 = length arr" "drop (i - 1) a1 = d # drop i arr"
    using i "1.prems"(2) drop_update_last [of i arr d] by (auto simp: a1_def mem_simps)
  show ?case
  proof (cases "n < 16")
    case True
    with i a1 m show ?thesis by (auto simp: hex_loop.simps [of arr] show_hex_digit d_def)
  next
    case False
    then have s: "show_hex n = show_hex (n div 16) @ [d]" "n div 16 \<noteq> 0"
      by (simp_all add: show_hex_step d_def)
    then have "length (show_hex (n div 16)) \<le> i - 1" "i - 1 \<le> length a1"
      using "1.prems" a1 i by auto
    then have "\<exists>arr'. hex_loop a1 (i - 1) (n div 16) = Some (arr', i - 1 - length (show_hex (n div 16))) \<and>
      length arr' = length a1 \<and> drop (i - 1 - length (show_hex (n div 16))) arr' = show_hex (n div 16) @ drop (i - 1) a1"
      using "1.IH" [of a1] i a1(1) s(2) unfolding d_def m by blast
    with i a1 s m show ?thesis by (auto simp: hex_loop.simps [of arr] d_def)
  qed
qed


text \<open>The code of a decimal digit.\<close>

lemma unat_digit: "unat (word_of_nat (n mod 10 + 48) :: byte) = n mod 10 + 48"
proof -
  have "n mod 10 < 10" by simp
  then have "(n mod 10 + 48) mod 256 = n mod 10 + 48" by (intro mod_less) linarith
  then show ?thesis unfolding unat_of_nat by simp
qed

lemma show_dec_nonzero: "0 \<notin> set (show_dec n)"
proof (induction n rule: show_dec.induct)
  case (1 n)
  have "(word_of_nat (n mod 10 + 48) :: byte) \<noteq> 0"
  proof
    assume "(word_of_nat (n mod 10 + 48) :: byte) = 0"
    then have "unat (word_of_nat (n mod 10 + 48) :: byte) = 0" by simp
    then show False unfolding unat_digit by simp
  qed
  with 1 show ?case by (subst show_dec.simps) simp
qed

lemma TO_HEX_nonzero: "n < 16 \<Longrightarrow> TO_HEX n \<noteq> 0"
proof
  assume n: "n < 16" and "TO_HEX n = 0"
  then have "unat (TO_HEX n) = 0" by simp
  with n show False by (simp add: TO_HEX_def unat_of_nat split: if_splits)
qed

lemma show_hex_nonzero: "0 \<notin> set (show_hex n)"
proof (induction n rule: show_hex.induct)
  case (1 n)
  with TO_HEX_nonzero [of "n mod 16"] show ?case by (subst show_hex.simps) auto
qed

lemma dec_val_show_dec: "dec_val (show_dec n) = n"
proof (induction n rule: show_dec.induct)
  case (1 n)
  have d: "unat (word_of_nat (n mod 10 + 48) :: byte) - 48 = n mod 10"
    unfolding unat_digit by simp
  show ?case
  proof (cases "n < 10")
    case True
    with d show ?thesis by (simp add: show_dec_digit dec_val_def)
  next
    case False
    with 1 d show ?thesis by (simp add: show_dec_step dec_val_def)
  qed
qed


subsection \<open>The six number writers\<close>

lemma szOutBuf_end [simp]: "length (szOutBuf h) = 64" "drop 63 (szOutBuf h) = [0]"
proof -
  show "length (szOutBuf h) = 64" by (simp add: szOutBuf_def IOS_NUMBUF_def)
  have "drop 63 (szOutBuf h) = [szOutBuf h ! 63]"
    using Cons_nth_drop_Suc [of 63 "szOutBuf h"] by (simp add: szOutBuf_def IOS_NUMBUF_def)
  then show "drop 63 (szOutBuf h) = [0]" by (simp add: szOutBuf_def IOS_NUMBUF_def)
qed

lemma cstr_drop: "drop i arr = s @ [0] \<Longrightarrow> 0 \<notin> set s \<Longrightarrow> cstr arr i = Some s"
proof -
  assume d: "drop i arr = s @ [0]" and z: "0 \<notin> set s"
  have "takeWhile (\<lambda>c. c \<noteq> 0) (s @ [0]) = s" using z by (induction s) auto
  with d show ?thesis by (simp add: cstr_def)
qed

text \<open>Room for \<open>n\<close> more bytes by \<open>realloc_new_bufsize\<close>.\<close>

lemma reserve_new:
  assumes ok: "buffer_ok b" and n: "len b + n + 17 < 2 ^ 31"
  obtains (nomem) "bsize b \<le> len b + n" "\<not> malloc_ok h (len b + n + 17)"
      "realloc_new_bufsize h b (len b + n) = (ret_nomem, b)"
  | (room) b1 p where
      "(if bsize b \<le> len b + n then realloc_new_bufsize h b (len b + n) else (ret_ok, b)) = (ret_ok, b1)"
      "buf b1 = Some p" "len b1 = len b" "take (len b) p = buf_str b"
      "len b + n < bsize b1" "bsize b1 \<le> length p" "bsize b1 < 2 ^ 31"
proof -
  have sz: "u64 (len b + n + (REALLOC_EXTRA_SIZE + 1)) = len b + n + 17"
      "u32 (len b + n + 17) = len b + n + 17"
    using n by (simp_all add: u64_def u32_def REALLOC_EXTRA_SIZE_def)
  consider (fits) "len b + n < bsize b" | (grow) "bsize b \<le> len b + n" "malloc_ok h (len b + n + 17)"
    | (none) "bsize b \<le> len b + n" "\<not> malloc_ok h (len b + n + 17)" by fastforce
  then show thesis
  proof cases
    case fits
    then obtain p where p: "buf b = Some p" using ok by (cases "buf b") (auto simp: buffer_ok_NULL)
    with fits ok show thesis by (intro room [of b p]) (auto simp: buffer_ok_Some buf_str_def)
  next
    case grow
    then obtain p where p: "realloc h (buf b) (len b + n + 17) = Some p" by (simp add: realloc_def)
    have "take (len b) p = buf_str b"
      using take_realloc [of h _ "len b + n + 17" p "len b"] ok p
      by (cases "buf b") (auto simp: buffer_ok_NULL buffer_ok_Some buf_str_def)
    with grow p sz n show thesis
      by (intro room [of "b\<lparr>buf := Some p, bsize := len b + n + 17\<rparr>" p])
        (auto simp: realloc_new_bufsize_def length_realloc)
  next
    case none
    with sz show thesis by (intro nomem) (auto simp: realloc_new_bufsize_def realloc_def)
  qed
qed

lemma put_tail_write:
  assumes "k + length s < length p"
  shows "blk_write p k (s @ [0]) = Some (put_tail p k s)"
proof -
  define d where "d = drop (Suc (k + length s)) p"
  have "drop (k + length s) p = p ! (k + length s) # d"
    using assms by (simp add: d_def Cons_nth_drop_Suc)
  with assms show ?thesis
    by (simp add: blk_write_def put_tail_def list_update_append d_def)
qed

lemma add_digits_grows:
  assumes ok: "buffer_ok b" and n: "len b + length s + 17 < 2 ^ 31"
    and arr: "drop i arr = s @ [0]" "length arr = 64" "0 \<notin> set s"
  shows "grows_to h (len b + length s + 17) b (buf_str b @ s) (add_digits h b arr i)"
proof -
  have "length (drop i arr) = length s + 1" using arr by simp
  then have i: "IOS_NUMBUF - 1 - i = length s" using arr(2) by (simp add: IOS_NUMBUF_def)
  have u: "u32 (len b + length s) = len b + length s" "sext64 (len b + length s) = len b + length s"
    using n by (simp_all add: int_simps)
  show ?thesis using ok n
  proof (cases rule: reserve_new [where h = h])
    case nomem
    with i u show ?thesis by (simp add: add_digits_def grows_to_def Let_def)
  next
    case (room b1 p)
    have w: "blk_write p (len b) (s @ [0]) = Some (put_tail p (len b) s)"
      using put_tail_write [of "len b" s p] room by simp
    have rep: "buf_rep (b1\<lparr>buf := Some (put_tail p (len b) s), len := len b + length s\<rparr>) (buf_str b @ s)"
      using put_tail_rep [of b1 p "buf_str b" s] room ok by simp
    show ?thesis
      using rep w room i u cstr_drop [OF arr(1,3)]
      by (cases "bsize b \<le> len b + length s") (simp_all add: add_digits_def Let_def grows_to_def)
  qed
qed

lemma dec_loop_szOutBuf:
  assumes "n < 10 ^ 20"
  obtains arr where "dec_loop (szOutBuf h) (IOS_NUMBUF - 1) n = Some (arr, 63 - length (show_dec n))"
    "length arr = 64" "drop (63 - length (show_dec n)) arr = show_dec n @ [0]" "length (show_dec n) \<le> 20"
proof -
  have l: "length (show_dec n) \<le> 20" using show_dec_length [OF assms] by simp
  then show thesis
    using dec_loop_spec [of n 63 "szOutBuf h"] that by (auto simp: IOS_NUMBUF_def)
qed

lemma hex_loop_szOutBuf:
  assumes "n < 16 ^ 16"
  obtains arr where "hex_loop (szOutBuf h) (IOS_NUMBUF - 1) n = Some (arr, 63 - length (show_hex n))"
    "length arr = 64" "drop (63 - length (show_hex n)) arr = show_hex n @ [0]" "length (show_hex n) \<le> 16"
proof -
  have l: "length (show_hex n) \<le> 16" using show_hex_length [OF assms] by simp
  then show thesis
    using hex_loop_spec [of n 63 "szOutBuf h"] that by (auto simp: IOS_NUMBUF_def)
qed

lemma add_ulong10_grows:
  assumes ok: "buffer_ok b" and n: "len b + 37 < 2 ^ 31" "k < 2 ^ 64"
  shows "grows_to h (len b + length (show_dec k) + 17) b (buf_str b @ show_dec k) (http2d_buffer_add_ulong10 h b k)"
proof -
  have k: "k < 10 ^ 20" "u64 k = k" using n by (simp_all add: u64_def)
  obtain arr where a: "dec_loop (szOutBuf h) (IOS_NUMBUF - 1) k = Some (arr, 63 - length (show_dec k))"
    "length arr = 64" "drop (63 - length (show_dec k)) arr = show_dec k @ [0]" "length (show_dec k) \<le> 20"
    by (rule dec_loop_szOutBuf [OF k(1)])
  have "grows_to h (len b + length (show_dec k) + 17) b (buf_str b @ show_dec k)
      (add_digits h b arr (63 - length (show_dec k)))"
    by (rule add_digits_grows) (use ok n a show_dec_nonzero in auto)
  with a k show ?thesis by (simp add: http2d_buffer_add_ulong10_def)
qed

lemma add_ullong10_same: "http2d_buffer_add_ullong10 h b k = http2d_buffer_add_ulong10 h b k"
  by (simp add: http2d_buffer_add_ullong10_def http2d_buffer_add_ulong10_def)

lemma add_llong10_same: "http2d_buffer_add_llong10 h b k = http2d_buffer_add_long10 h b k"
  by (simp add: http2d_buffer_add_llong10_def http2d_buffer_add_long10_def)

lemma add_ulong16_grows:
  assumes ok: "buffer_ok b" and n: "len b + 33 < 2 ^ 31" "k < 2 ^ 64"
  shows "grows_to h (len b + length (show_hex k) + 17) b (buf_str b @ show_hex k) (http2d_buffer_add_ulong16 h b k)"
proof -
  have k: "k < 16 ^ 16" "u64 k = k" using n by (simp_all add: u64_def)
  obtain arr where a: "hex_loop (szOutBuf h) (IOS_NUMBUF - 1) k = Some (arr, 63 - length (show_hex k))"
    "length arr = 64" "drop (63 - length (show_hex k)) arr = show_hex k @ [0]" "length (show_hex k) \<le> 16"
    by (rule hex_loop_szOutBuf [OF k(1)])
  have "grows_to h (len b + length (show_hex k) + 17) b (buf_str b @ show_hex k)
      (add_digits h b arr (63 - length (show_hex k)))"
    by (rule add_digits_grows) (use ok n a show_hex_nonzero in auto)
  with a k show ?thesis by (simp add: http2d_buffer_add_ulong16_def)
qed

lemma chr_minus [simp]: "chr CHR ''-'' = 45"
  by (simp add: chr_def)

lemma neg_mod: "- (2 ^ 63) \<le> k \<Longrightarrow> k < 0 \<Longrightarrow> sub64 0 (nat (k mod 2 ^ 64)) = nat (- k)"
proof -
  assume k: "- (2 ^ 63) \<le> k" "k < 0"
  then have "k mod 2 ^ 64 = k + 2 ^ 64" 
    using mod_pos_pos_trivial [of "k + 2 ^ 64" "2 ^ 64"] by simp
  with k show ?thesis by (simp add: sub64_def nat_diff_distrib' flip: nat_minus_as_int)
qed

lemma add_long10_grows:
  assumes ok: "buffer_ok b" and n: "len b + 38 < 2 ^ 31" "- (2 ^ 63) \<le> k" "k < 2 ^ 63"
  shows "grows_to h (len b + length (show_int k) + 17) b (buf_str b @ show_int k) (http2d_buffer_add_long10 h b k)"
proof -
  define u where "u = nat \<bar>k\<bar>"
  have u: "(if k < 0 then sub64 0 (nat (k mod 2 ^ 64)) else nat (k mod 2 ^ 64)) = u"
    using n neg_mod [of k] by (simp add: u_def mod_pos_pos_trivial)
  have "u < 10 ^ 20" using n by (auto simp: u_def)
  then obtain arr where a: "dec_loop (szOutBuf h) (IOS_NUMBUF - 1) u = Some (arr, 63 - length (show_dec u))"
    "length arr = 64" "drop (63 - length (show_dec u)) arr = show_dec u @ [0]" "length (show_dec u) \<le> 20"
    by (rule dec_loop_szOutBuf)
  define i where "i = 63 - length (show_dec u)"
  have i: "0 < i" "i < length arr" using a by (auto simp: i_def)
  define arr1 where "arr1 = arr[i - 1 := 45]"
  have d: "drop (i - 1) arr1 = 45 # show_dec u @ [0]" "drop i arr1 = show_dec u @ [0]"
    using drop_update_last [of i arr 45] i a by (simp_all add: arr1_def i_def)
  have g: "grows_to h (len b + length s + 17) b (buf_str b @ s) (add_digits h b arr1 j)"
    if "drop j arr1 = s @ [0]" "0 \<notin> set s" "length s \<le> 21" for j s
    by (rule add_digits_grows) (use ok n a that in \<open>auto simp: arr1_def\<close>)
  have "grows_to h (len b + length (show_int k) + 17) b (buf_str b @ show_int k)
      (add_digits h b arr1 (i - 1 + (if k < 0 then 0 else 1)))"
    using g [of "i - 1" "45 # show_dec u"] g [of i "show_dec u"] d i a show_dec_nonzero [of u]
    by (auto simp: show_int_def u_def)
  then show ?thesis
    using a i unfolding http2d_buffer_add_long10_def Let_def u
    by (simp add: arr1_def blk_set_in flip: i_def)
qed


subsection \<open>Formatted sizes\<close>

lemma add_va_fixed_fits:
  assumes "buffer_ok b" "len b + length out < bsize b"
  obtains b' where "http2d_buffer_add_va_fixed b out = Some (ret_ok, b')" "buf_rep b' (buf_str b @ out)"
proof -
  obtain p where p: "buf b = Some p" using assms by (cases "buf b") (auto simp: buffer_ok_NULL)
  have bb: "len b \<le> bsize b" "bsize b < 2 ^ 31" "bsize b \<le> length p"
    using buffer_ok_bounds [OF assms(1)] assms p by (auto simp: buffer_ok_Some)
  have av: "s32 (sub32 (bsize b) (len b)) = int (bsize b - len b)" "u32 (len b + length out) = len b + length out"
    using bb assms by (simp_all add: int_simps)
  have t: "take (nat (int (bsize b - len b)) - 1) out = out" using assms by simp
  have rep: "buf_rep (b\<lparr>buf := Some (put_tail p (len b) out), len := len b + length out\<rparr>) (buf_str b @ out)"
    using put_tail_rep [of b p "buf_str b" out] assms p bb by (simp add: buf_str_def)
  have "http2d_buffer_add_va_fixed b out
      = Some (ret_ok, b\<lparr>buf := Some (put_tail p (len b) out), len := len b + length out\<rparr>)"
    unfolding http2d_buffer_add_va_fixed_def Let_def av(1) t
    using put_tail_write [of "len b" out p] assms p bb av by simp
  with rep show thesis by (rule that [rotated])
qed

text \<open>The formatted text of a size has four characters, the last of them a letter of
  \<open>KMGTPE\<close>: the index into that string stays below 6 for every 64-bit size.\<close>

lemma fsize_text_total:
  assumes "sz < 2 ^ (64 - 10 * k)" "k \<le> 5"
  shows "\<exists>out. fsize_text sz k = Some out \<and> length out = 4 \<and> last out \<in> set (lit ''KMGTPE'')"
  using assms
proof (induction sz k rule: fsize_text.induct)
  case (1 sz k)
  define s where "s = drop_bit 10 sz"
  define r where "r = sz AND 1023"
  have sr: "s = sz div 1024" "r = sz mod 1024"
    using take_bit_eq_mask [of 10 sz]
    by (simp_all add: s_def r_def take_bit_eq_mod drop_bit_eq_div mask_eq_exp_minus_1)
  have r: "r < 1024" by (simp add: sr)
  have dig: "length (show_dec n) = 1" if "n < 10" for n using that by (simp add: show_dec_digit)
  have chr_k: "\<exists>c. blk_get (lit ''KMGTPE'' @ [0]) k = Some c \<and> c \<in> set (lit ''KMGTPE'')"
    using "1.prems"(2) by (simp add: blk_get_def nth_append)
  have pad: "length (pad3 (show_dec n)) = 3" if "n < 1000" for n
    using show_dec_length [of n 3] that by (simp add: pad3_def)
  show ?case
  proof (cases "973 \<le> s")
    case True
    have "k \<noteq> 5" using "1.prems"(1) True by (auto simp: sr)
    with "1.prems"(2) have k: "Suc k \<le> 5" by simp
    then have "64 - 10 * k = 10 + (64 - 10 * Suc k)" by simp
    then have "sz < 1024 * 2 ^ (64 - 10 * Suc k)" using "1.prems"(1) by (simp only: power_add) simp
    then have "s < 2 ^ (64 - 10 * Suc k)" by (simp add: sr less_mult_imp_div_less mult.commute)
    with True k "1.IH" [OF refl refl] show ?thesis
      by (subst fsize_text.simps) (simp add: s_def)
  next
    case False
    define r' where "r' = (r * 5 + 256) div 512"
    define p where "p = (if 10 \<le> r' then (s + 1, 0) else (s, r'))"
    have p: "fst p < 10" "snd p < 10" if "s < 9 \<or> s = 9 \<and> r < 973"
      using that r by (auto simp: p_def r'_def)
    obtain c where c: "blk_get (lit ''KMGTPE'' @ [0]) k = Some c" "c \<in> set (lit ''KMGTPE'')"
      using chr_k by blast
    have t: "fsize_text sz k =
        (if s < 9 \<or> s = 9 \<and> r < 973 then Some (show_dec (fst p) @ lit ''.'' @ show_dec (snd p) @ [c])
         else Some (pad3 (show_dec (if 512 \<le> r then s + 1 else s)) @ [c]))"
      using False c by (subst fsize_text.simps) (simp add: Let_def p_def r'_def flip: s_def r_def)
    show ?thesis
    proof (cases "s < 9 \<or> s = 9 \<and> r < 973")
      case True
      with p dig c t show ?thesis by simp
    next
      case large: False
      have "length (pad3 (show_dec (if 512 \<le> r then s + 1 else s))) = 3"
        by (rule pad) (use False in simp)
      moreover have "fsize_text sz k = Some (pad3 (show_dec (if 512 \<le> r then s + 1 else s)) @ [c])"
        using t by (simp only: large if_False)
      ultimately show ?thesis using c by simp
    qed
  qed
qed

lemma add_fsize_total:
  assumes ok: "buffer_ok b" and n: "len b + 45 < 2 ^ 31" "0 \<le> sz" "sz < 2 ^ 63"
    and m: "malloc_ok h (len b + 8)"
  shows "\<exists>b' t. http2d_buffer_add_fsize h b sz = Some (ret_ok, b') \<and> buf_rep b' (buf_str b @ t) \<and> length t \<le> 4 \<and>
    (if sz < 973 then t = show_dec (nat sz) else length t = 4 \<and> last t \<in> set (lit ''KMGTPE''))"
proof -
  have u: "u32 (len b + 8) = len b + 8" "len b + 8 < 2 ^ 31" using n by (simp_all add: int_simps)
  obtain b1 where b1: "http2d_buffer_ensure_size h b (len b + 8) = (ret_ok, b1)" "buffer_ok b1"
      "buf_str b1 = buf_str b" "len b1 = len b" "len b + 8 \<le> bsize b1"
    by (rule http2d_buffer_ensure_size_ok [OF ok u(2) m])
  show ?thesis
  proof (cases "sz < 973")
    case True
    define k where "k = nat sz"
    have k: "nat (sz mod 2 ^ 64) = k" "k < 973" "k < 2 ^ 64" using True n by (simp_all add: k_def)
    have l: "length (show_dec k) \<le> 3" using show_dec_length [of k 3] k by simp
    have "k < 10 ^ 20" "u64 k = k" using k by (simp_all add: u64_def)
    then obtain arr where a: "dec_loop (szOutBuf h) (IOS_NUMBUF - 1) k = Some (arr, 63 - length (show_dec k))"
      "length arr = 64" "drop (63 - length (show_dec k)) arr = show_dec k @ [0]"
      using dec_loop_szOutBuf by metis
    have i: "IOS_NUMBUF - 1 - (63 - length (show_dec k)) = length (show_dec k)"
      using l by (simp add: IOS_NUMBUF_def)
    obtain p where p: "buf b1 = Some p" using b1 by (cases "buf b1") (auto simp: buffer_ok_NULL)
    have w: "blk_write p (len b) (show_dec k @ [0]) = Some (put_tail p (len b) (show_dec k))"
      using put_tail_write [of "len b" "show_dec k" p] b1 l p by (simp add: buffer_ok_Some)
    have rep: "buf_rep (b1\<lparr>buf := Some (put_tail p (len b) (show_dec k)), len := len b + length (show_dec k)\<rparr>)
        (buf_str b @ show_dec k)"
    proof -
      have "take (len b1) p = buf_str b" unfolding b1(3) [symmetric] by (simp add: buf_str_def p)
      then show ?thesis
        using put_tail_rep [of b1 p "buf_str b" "show_dec k"] b1 l p ok by (simp add: buffer_ok_Some)
    qed
    have "http2d_buffer_add_ulong10 h b1 k = Some (ret_ok,
       b1\<lparr>buf := Some (put_tail p (len b) (show_dec k)), len := len b + length (show_dec k)\<rparr>)"
      using a i w p b1 l n \<open>u64 k = k\<close> cstr_drop [OF a(3) show_dec_nonzero]
      by (simp add: http2d_buffer_add_ulong10_def add_digits_def Let_def u32_def)
    with rep l True b1 k u show ?thesis
      by (simp add: http2d_buffer_add_fsize_def k_def)
  next
    case False
    have "nat sz < 2 ^ (64 - 10 * 0)" using n by simp
    then obtain out where out: "fsize_text (nat sz) 0 = Some out" "length out = 4" "last out \<in> set (lit ''KMGTPE'')"
      using fsize_text_total [of "nat sz" 0] by auto
    obtain b2 where "http2d_buffer_add_va_fixed b1 out = Some (ret_ok, b2)" "buf_rep b2 (buf_str b1 @ out)"
      by (rule add_va_fixed_fits [OF b1(2), of out]) (use b1 out in auto)
    with False out b1 u show ?thesis by (auto simp: http2d_buffer_add_fsize_def)
  qed
qed

subsection \<open>Big-endian fields\<close>

lemma add_uint16be_rep:
  assumes "buf_rep b s" "length s + 19 < 2 ^ 31"
  shows "grows_to h (length s + 19) b (s @ [ucast (drop_bit 8 n), ucast n]) (http2d_buffer_add_uint16be h b n)"
  using http2d_buffer_add_rep [OF assms(1), of 2 "[ucast (drop_bit 8 n), ucast n]" h] assms(2)
  by (simp add: http2d_buffer_add_uint16be_def add.commute)

lemma add_uint32be_rep:
  assumes "buf_rep b s" "length s + 21 < 2 ^ 31"
  shows "grows_to h (length s + 21) b
    (s @ [ucast (drop_bit 24 n), ucast (drop_bit 16 n), ucast (drop_bit 8 n), ucast n]) (http2d_buffer_add_uint32be h b n)"
  using http2d_buffer_add_rep [OF assms(1), of 4 "[ucast (drop_bit 24 n), ucast (drop_bit 16 n), ucast (drop_bit 8 n), ucast n]" h] assms(2)
  by (simp add: http2d_buffer_add_uint32be_def add.commute)

subsection \<open>Properties\<close>

text \<open>\<open>http2d_buffer_add_long10\<close> appends the decimal rendering of every number of type \<open>long\<close>, the smallest included,
  whose digits read back as the number; the digits are produced inside the array of 64 characters.\<close>

theorem http2d_buffer_add_long10_correct:
  assumes "buf_rep b s" "length s + 38 < 2 ^ 31" "- (2 ^ 63) \<le> k" "k < 2 ^ 63"
    and "\<And>n. n \<le> length s + 38 \<Longrightarrow> malloc_ok h n"
  shows "\<exists>b' t. http2d_buffer_add_long10 h b k = Some (ret_ok, b') \<and> buf_rep b' (s @ t) \<and>
    (if k < 0 then hd t = chr CHR ''-'' \<and> int (dec_val (tl t)) = - k else int (dec_val t) = k)"
proof -
  define u where "u = nat \<bar>k\<bar>"
  have b: "buffer_ok b" "len b = length s" "buf_str b = s"
    using assms(1) by (auto simp: buf_rep_def)
  have "length (show_dec u) \<le> 20" using show_dec_length [of u 20] assms(3,4) by (auto simp: u_def)
  then have "malloc_ok h (length s + length (show_int k) + 17)"
    by (intro assms(5)) (auto simp: show_int_def u_def)
  with add_long10_grows [OF b(1), of k h] assms b obtain b' where
    "http2d_buffer_add_long10 h b k = Some (ret_ok, b')" "buf_rep b' (s @ show_int k)"
    by (auto simp: grows_to_def)
  then show ?thesis
    by (intro exI [of _ b'] exI [of _ "show_int k"]) (simp add: show_int_def dec_val_show_dec)
qed

theorem http2d_buffer_add_long10_correct_witness:
  "\<exists>b' t. http2d_buffer_add_long10 (total_heap (\<lambda>_. 170)) (http2d_buffer_fake_str ''n='') (- (2 ^ 63)) = Some (ret_ok, b') \<and>
    buf_rep b' (lit ''n='' @ t) \<and> hd t = chr CHR ''-'' \<and> int (dec_val (tl t)) = 2 ^ 63"
  using http2d_buffer_add_long10_correct [OF http2d_buffer_fake_str_rep [of "''n=''"], of "- (2 ^ 63)" "total_heap (\<lambda>_. 170)"]
  by simp

text \<open>\<open>http2d_buffer_add_fsize\<close> succeeds for every size that is not negative once eight more bytes are reserved: it appends
  the number itself below 973, and otherwise four characters that end in one of the letters of \<open>KMGTPE\<close>, so that its index
  into them stays in range.\<close>

theorem http2d_buffer_add_fsize_correct:
  assumes "buf_rep b s" "length s + 45 < 2 ^ 31" "0 \<le> sz" "sz < 2 ^ 63" "malloc_ok h (length s + 8)"
  shows "\<exists>b' t. http2d_buffer_add_fsize h b sz = Some (ret_ok, b') \<and> buf_rep b' (s @ t) \<and> length t \<le> 4 \<and>
    (if sz < 973 then t = show_dec (nat sz) else length t = 4 \<and> last t \<in> set (lit ''KMGTPE''))"
proof -
  have "buffer_ok b" "len b = length s" "buf_str b = s"
    using assms(1) by (auto simp: buf_rep_def)
  with add_fsize_total [of b sz h] assms(2-5) show ?thesis by simp
qed

theorem http2d_buffer_add_fsize_correct_witness:
  "\<exists>b' t. http2d_buffer_add_fsize (total_heap (\<lambda>_. 170)) HTTP2D_BUF_INIT (2 ^ 62) = Some (ret_ok, b') \<and>
    buf_rep b' t \<and> length t = 4 \<and> last t \<in> set (lit ''KMGTPE'')"
  using http2d_buffer_add_fsize_correct [OF buf_rep_INIT, of "2 ^ 62" "total_heap (\<lambda>_. 170)"]
  by auto

end
