(* ===== verification/Buffer_Codec.thy ===== *)
theory Buffer_Codec
  imports Buffer_Escape Buffer_Num
begin

text \<open>
  The encodings of \<^verbatim>\<open>src/src/buffer.c\<close>: base 64 and hexadecimal. \<open>enc64\<close>, \<open>b64_run\<close> and
  \<open>enc_hex\<close> are the reference functions on byte strings. All intermediate values of the C
  text fit in 8 bits, so the model computes them as bytes.
\<close>

subsection \<open>Base 64\<close>

definition b64_decode_tab :: "int list" where
  "b64_decode_tab =
     replicate 43 (- 1) @ [62, - 1, - 1, - 1, 63] @ map int [52..<62] @ replicate 7 (- 1) @
     map int [0..<26] @ replicate 6 (- 1) @ map int [26..<52] @ replicate 133 (- 1)"

definition base64tab :: "byte list" where
  "base64tab = lit ''ABCDEFGHIJKLMNOPQRSTUVWXYZabcdefghijklmnopqrstuvwxyz0123456789+/''"

text \<open>\<open>b64_decode_tab[(int) buf->buf[i]]\<close>: a \<open>char\<close> from 128 on is negative and the access leaves
  the table.\<close>

definition b64_lookup :: "byte \<Rightarrow> int option" where
  "b64_lookup c = (if c < 128 then Some (b64_decode_tab ! unat c) else None)"

text \<open>The \<open>switch (phase)\<close>: the next phase and the character it stores, if any.\<close>

definition b64_phase :: "nat \<Rightarrow> byte \<Rightarrow> byte \<Rightarrow> nat \<times> byte list" where
  "b64_phase phase prev_d d =
     (if phase = 0 then (1, [])
      else if phase = 1 then (2, [push_bit 2 prev_d OR drop_bit 4 (d AND 0x30)])
      else if phase = 2 then (3, [push_bit 4 (prev_d AND 0xf) OR drop_bit 2 (d AND 0x3c)])
      else (0, [push_bit 6 (prev_d AND 0x03) OR d]))"

text \<open>\<open>space\<close> is the filled part of the array \<open>space[128]\<close>, its length \<open>space_idx\<close>.\<close>

function decode_base64_loop ::
  "nat \<Rightarrow> block \<Rightarrow> nat \<Rightarrow> byte list \<Rightarrow> nat \<Rightarrow> byte \<Rightarrow> nat \<Rightarrow> (block \<times> byte list \<times> nat) option" where
  "decode_base64_loop n m i space phase prev_d buf_pos =
     (if i < n then do {
        c \<leftarrow> blk_get m i;
        d \<leftarrow> b64_lookup c;
        (let (phase, prev_d, out) =
           (if d \<noteq> - 1
            then (let d = word_of_int d; (phase, out) = b64_phase phase prev_d d in (phase, d, out))
            else (phase, prev_d, []));
             space = space @ out
         in if length space > 128 then None
            else if length space = 127 then do {
              m \<leftarrow> blk_write m buf_pos space;
              decode_base64_loop n m (i + 1) [] phase prev_d (buf_pos + 127) }
            else decode_base64_loop n m (i + 1) space phase prev_d buf_pos) }
      else Some (m, space, buf_pos))"
  by pat_completeness auto
termination
  by (relation "measure (\<lambda>(n, m, i, space, phase, prev_d, buf_pos). n - i)") auto

definition http2d_buffer_decode_base64 :: "buffer \<Rightarrow> (ret_t \<times> buffer) option" where
  "http2d_buffer_decode_base64 b = do {
     m \<leftarrow> buf b;
     (m, space, buf_pos) \<leftarrow> decode_base64_loop (len b) m 0 [] 0 0 0;
     m \<leftarrow> blk_write m buf_pos (space @ [0]);
     Some (ret_ok, b\<lparr>buf := Some m, len := buf_pos + length space\<rparr>) }"

text \<open>One turn of the encoding loop: the four characters for the bytes at \<open>i\<close>, \<open>i+1\<close>, \<open>i+2\<close>.\<close>

definition b64_quad :: "byte \<Rightarrow> byte \<Rightarrow> byte \<Rightarrow> bool \<Rightarrow> bool \<Rightarrow> byte list" where
  "b64_quad a b c has_b has_c =
     [base64tab ! unat (drop_bit 2 a),
      base64tab ! unat (push_bit 4 (a AND 3) OR drop_bit 4 b),
      (if has_b then base64tab ! unat (push_bit 2 (b AND 15) OR drop_bit 6 c) else chr CHR ''=''),
      (if has_c then base64tab ! unat (c AND 63) else chr CHR ''='')]"

function encode_base64_loop :: "nat \<Rightarrow> block \<Rightarrow> nat \<Rightarrow> block \<Rightarrow> nat \<Rightarrow> (block \<times> nat) option" where
  "encode_base64_loop inlen inp i out j =
     (if i < inlen then do {
        a \<leftarrow> blk_get inp i;
        b \<leftarrow> (if i + 1 < inlen then blk_get inp (i + 1) else Some 0);
        c \<leftarrow> (if i + 2 < inlen then blk_get inp (i + 2) else Some 0);
        out \<leftarrow> blk_write out j (b64_quad a b c (i + 1 < inlen) (i + 2 < inlen));
        encode_base64_loop inlen inp (i + 3) out (j + 4) }
      else Some (out, j))"
  by pat_completeness auto
termination
  by (relation "measure (\<lambda>(inlen, inp, i, out, j). inlen - i)") auto

declare decode_base64_loop.simps [simp del] encode_base64_loop.simps [simp del]

definition http2d_buffer_encode_base64 :: "heap \<Rightarrow> buffer \<Rightarrow> buffer \<Rightarrow> (ret_t \<times> buffer) option" where
  "http2d_buffer_encode_base64 h b encoded =
     (let inlen = len b;
          (ret, encoded) = http2d_buffer_ensure_size h encoded (u32 (u32 (u32 (len b + 4) * 4) div 3 + 1))
      in if ret \<noteq> ret_ok then Some (ret, encoded)
         else do {
           encoded \<leftarrow> http2d_buffer_clean encoded;
           out \<leftarrow> buf encoded;
           (out, j) \<leftarrow> encode_base64_loop inlen (case buf b of None \<Rightarrow> [] | Some m \<Rightarrow> m) 0 out 0;
           out \<leftarrow> blk_set out j 0;
           Some (ret_ok, encoded\<lparr>buf := Some out, len := j\<rparr>) })"

subsection \<open>Hexadecimal\<close>

fun encode_hex_loop :: "nat \<Rightarrow> block \<Rightarrow> nat \<Rightarrow> block \<Rightarrow> nat \<Rightarrow> (block \<times> nat) option" where
  "encode_hex_loop 0 inp i out j = Some (out, j)"
| "encode_hex_loop (Suc k) inp i out j = do {
     c \<leftarrow> blk_get inp i;
     out \<leftarrow> blk_set out j (TO_HEX (unat (drop_bit 4 c AND 0xf)));
     out \<leftarrow> blk_set out (j + 1) (TO_HEX (unat (c AND 0xf)));
     encode_hex_loop k inp (i + 1) out (j + 2) }"

definition http2d_buffer_encode_hex :: "heap \<Rightarrow> buffer \<Rightarrow> buffer \<Rightarrow> (ret_t \<times> buffer) option" where
  "http2d_buffer_encode_hex h b encoded =
     (let inlen = len b;
          (_, encoded) = http2d_buffer_ensure_size h encoded (u32 (inlen * 2 + 1))
      in do {
        encoded \<leftarrow> http2d_buffer_clean encoded;
        out \<leftarrow> buf encoded;
        (out, j) \<leftarrow> encode_hex_loop inlen (case buf b of None \<Rightarrow> [] | Some m \<Rightarrow> m) 0 out 0;
        out \<leftarrow> blk_set out j 0;
        Some (ret_ok, encoded\<lparr>buf := Some out, len := u32 (inlen * 2)\<rparr>) })"

definition hex_to_bin :: "int list" where
  "hex_to_bin =
     replicate 48 (- 1) @ map int [0..<10] @ replicate 7 (- 1) @ map int [10..<16] @ replicate 26 (- 1) @
     map int [10..<16] @ replicate 25 (- 1)"

text \<open>\<open>k\<close> turns are left; a digit that is not hexadecimal ends the loop.\<close>

fun decode_hex_loop :: "nat \<Rightarrow> block \<Rightarrow> nat \<Rightarrow> block option" where
  "decode_hex_loop 0 m i = Some m"
| "decode_hex_loop (Suc k) m i = do {
     x \<leftarrow> blk_get m (2 * i);
     y \<leftarrow> blk_get m (2 * i + 1);
     (let b1 = hex_to_bin ! unat (x AND 127);
          b2 = hex_to_bin ! unat (y AND 127)
      in if b1 = - 1 \<or> b2 = - 1 then Some m
         else do {
           m \<leftarrow> blk_set m i ((push_bit 4 (word_of_int b1) AND 0xF0) OR (word_of_int b2 AND 0x0F));
           decode_hex_loop k m (i + 1) }) }"

definition http2d_buffer_decode_hex :: "buffer \<Rightarrow> (ret_t \<times> buffer) option" where
  "http2d_buffer_decode_hex b = do {
     m \<leftarrow> buf b;
     m \<leftarrow> decode_hex_loop (len b div 2) m 0;
     m \<leftarrow> blk_set m (len b div 2) 0;
     Some (ret_ok, b\<lparr>buf := Some m, len := len b div 2\<rparr>) }"

subsection \<open>Reference functions\<close>

fun enc64 :: "byte list \<Rightarrow> byte list" where
  "enc64 [] = []"
| "enc64 [a] = b64_quad a 0 0 False False"
| "enc64 [a, b] = b64_quad a b 0 True False"
| "enc64 (a # b # c # s) = b64_quad a b c True True @ enc64 s"

definition b64_step :: "nat \<Rightarrow> byte \<Rightarrow> byte \<Rightarrow> nat \<times> byte \<times> byte list" where
  "b64_step phase prev_d c =
     (let d = b64_decode_tab ! unat c
      in if d \<noteq> - 1
         then (let d = word_of_int d; (phase, out) = b64_phase phase prev_d d in (phase, d, out))
         else (phase, prev_d, []))"

fun b64_run :: "nat \<Rightarrow> byte \<Rightarrow> byte list \<Rightarrow> byte list" where
  "b64_run phase prev_d [] = []"
| "b64_run phase prev_d (c # s) =
     (case b64_step phase prev_d c of (phase, prev_d, out) \<Rightarrow> out @ b64_run phase prev_d s)"

definition hex_pair_of :: "byte \<Rightarrow> byte list" where
  "hex_pair_of c = [TO_HEX (unat (drop_bit 4 c AND 0xf)), TO_HEX (unat (c AND 0xf))]"

definition enc_hex :: "byte list \<Rightarrow> byte list" where
  "enc_hex s = concat (map hex_pair_of s)"

subsection \<open>Bits\<close>

lemma less_8: "n < 8 \<longleftrightarrow> n = 0 \<or> n = 1 \<or> n = 2 \<or> n = 3 \<or> n = 4 \<or> n = 5 \<or> n = 6 \<or> n = (7 :: nat)"
  by auto

lemma byte_eqI: "(\<And>n. n \<in> {0, 1, 2, 3, 4, 5, 6, 7} \<Longrightarrow> bit a n = bit b n) \<Longrightarrow> a = b" for a b :: byte
  by (rule bit_word_eqI) (auto simp: less_8)

lemmas byte_simps = bit_simps numeral_2_eq_2 [symmetric]

lemma b64_byte_a: "push_bit 2 (drop_bit 2 a) OR drop_bit 4 ((push_bit 4 (a AND 3) OR drop_bit 4 b) AND 0x30) = a" for a b :: byte
  by (rule byte_eqI) (auto simp: byte_simps dest: bit_imp_le_length)

lemma b64_byte_b:
  "push_bit 4 ((push_bit 4 (a AND 3) OR drop_bit 4 b) AND 0xf) OR
    drop_bit 2 ((push_bit 2 (b AND 15) OR drop_bit 6 c) AND 0x3c) = b" for a b c :: byte
  by (rule byte_eqI) (auto simp: byte_simps dest: bit_imp_le_length)

lemma b64_byte_c: "push_bit 6 ((push_bit 2 (b AND 15) OR drop_bit 6 c) AND 0x03) OR (c AND 63) = c" for b c :: byte
  by (rule byte_eqI) (auto simp: byte_simps dest: bit_imp_le_length)

lemma b64_small_1: "take_bit 6 (drop_bit 2 a) = drop_bit 2 a" for a :: byte
  by (rule byte_eqI) (auto simp: byte_simps dest: bit_imp_le_length)

lemma b64_small_2: "take_bit 6 (push_bit 4 (a AND 3) OR drop_bit 4 b) = push_bit 4 (a AND 3) OR drop_bit 4 b" for a b :: byte
  by (rule byte_eqI) (auto simp: byte_simps dest: bit_imp_le_length)

lemma b64_small_3: "take_bit 6 (push_bit 2 (b AND 15) OR drop_bit 6 c) = push_bit 2 (b AND 15) OR drop_bit 6 c" for b c :: byte
  by (rule byte_eqI) (auto simp: byte_simps dest: bit_imp_le_length)

lemma b64_small_4: "take_bit 6 (c AND 63) = c AND 63" for c :: byte
  by (rule byte_eqI) (auto simp: byte_simps dest: bit_imp_le_length)

lemma base64tab_codes: "map unat base64tab = [65..<91] @ [97..<123] @ [48..<58] @ [43, 47]"
  by code_simp

lemma b64_decode_codes:
  "map (\<lambda>k. b64_decode_tab ! k) ([65..<91] @ [97..<123] @ [48..<58] @ [43, 47]) = map int [0..<64]"
  by code_simp

lemma b64_tab_pad: "b64_decode_tab ! unat (chr CHR ''='') = - 1" "chr CHR ''='' < 128" "chr CHR ''='' \<noteq> 0"
  by code_simp+

lemma b64_tab_inverse:
  assumes "k < 64"
  shows "b64_decode_tab ! unat (base64tab ! k) = int k" "base64tab ! k < 128" "base64tab ! k \<noteq> 0"
proof -
  define xs where "xs = [65..<91] @ [97..<123] @ [48..<58] @ [43, 47 :: nat]"
  have l: "length xs = 64" "length base64tab = 64" by (simp_all add: xs_def base64tab_def)
  have "map unat base64tab = xs" by (simp only: base64tab_codes xs_def)
  then have u: "unat (base64tab ! k) = xs ! k" using assms l by (metis nth_map)
  have "map (\<lambda>k. b64_decode_tab ! k) xs ! k = map int [0..<64] ! k" by (simp only: xs_def b64_decode_codes)
  then show "b64_decode_tab ! unat (base64tab ! k) = int k" using assms l u by simp
  have "list_all (\<lambda>n. 0 < n \<and> n < 128) xs" by (simp add: xs_def list_all_iff)
  then have n: "0 < xs ! k" "xs ! k < 128" using assms l by (auto simp: list_all_length)
  show "base64tab ! k < 128" using n(2) u by (simp add: word_less_nat_alt)
  show "base64tab ! k \<noteq> 0" using n(1) u by auto
qed

lemma b64_tab_char:
  fixes w :: byte
  assumes "take_bit 6 w = w"
  shows "b64_decode_tab ! unat (base64tab ! unat w) = int (unat w)" "base64tab ! unat w < 128" "base64tab ! unat w \<noteq> 0"
proof -
  have "unat w = unat (take_bit 6 w)" using assms by simp
  also have "\<dots> = unat w mod 64" by (simp only: unsigned_take_bit_eq) (simp add: take_bit_eq_mod)
  finally have "unat w < 64" by (metis mod_less_divisor zero_less_numeral)
  then show "b64_decode_tab ! unat (base64tab ! unat w) = int (unat w)" "base64tab ! unat w < 128"
      "base64tab ! unat w \<noteq> 0"
    by (rule b64_tab_inverse)+
qed

lemma b64_step_char:
  assumes "take_bit 6 w = w"
  shows "b64_step phase p (base64tab ! unat w) = (case b64_phase phase p w of (phase, out) \<Rightarrow> (phase, w, out))"
proof -
  have "0 \<le> uint w" by (rule unsigned_greater_eq)
  then have "uint w \<noteq> - 1" by linarith
  then show ?thesis using b64_tab_char(1) [OF assms] by (simp add: b64_step_def Let_def)
qed

lemma b64_step_pad: "b64_step phase p (chr CHR ''='') = (phase, p, [])"
  by (simp add: b64_step_def b64_tab_pad)

text \<open>The four sextets of a group, kept opaque.\<close>

lemma b64_quad_sextets:
  obtains w1 w2 w3 w4 where
    "\<forall>hb hc. b64_quad a b c hb hc = [base64tab ! unat w1, base64tab ! unat w2,
       if hb then base64tab ! unat w3 else chr CHR ''='', if hc then base64tab ! unat w4 else chr CHR ''='']"
    "take_bit 6 w1 = w1" "take_bit 6 w2 = w2" "take_bit 6 w3 = w3" "take_bit 6 w4 = w4"
    "push_bit 2 w1 OR drop_bit 4 (w2 AND 0x30) = a" "push_bit 4 (w2 AND 0xf) OR drop_bit 2 (w3 AND 0x3c) = b"
    "push_bit 6 (w3 AND 0x03) OR w4 = c"
proof (rule that)
  show "\<forall>hb hc. b64_quad a b c hb hc = [base64tab ! unat (drop_bit 2 a), base64tab ! unat (push_bit 4 (a AND 3) OR drop_bit 4 b),
       if hb then base64tab ! unat (push_bit 2 (b AND 15) OR drop_bit 6 c) else chr CHR ''='',
       if hc then base64tab ! unat (c AND 63) else chr CHR ''='']"
    by (simp only: b64_quad_def) blast
qed (rule b64_small_1 b64_small_2 b64_small_3 b64_small_4 b64_byte_a b64_byte_b b64_byte_c)+

text \<open>Decoding an encoded group of three gives its bytes back.\<close>

lemma b64_run_quad:
  "\<exists>d. b64_run 0 p (b64_quad a b c hb (hb \<and> hc) @ s) = [a] @ (if hb then [b] else []) @ (if hb \<and> hc then [c] else []) @
     b64_run (if hb \<and> hc then 0 else if hb then 3 else 2) d s"
proof -
  obtain w1 w2 w3 w4 where w: "\<forall>hb hc. b64_quad a b c hb hc = [base64tab ! unat w1, base64tab ! unat w2,
       if hb then base64tab ! unat w3 else chr CHR ''='', if hc then base64tab ! unat w4 else chr CHR ''='']"
    "take_bit 6 w1 = w1" "take_bit 6 w2 = w2" "take_bit 6 w3 = w3" "take_bit 6 w4 = w4"
    "push_bit 2 w1 OR drop_bit 4 (w2 AND 0x30) = a" "push_bit 4 (w2 AND 0xf) OR drop_bit 2 (w3 AND 0x3c) = b"
    "push_bit 6 (w3 AND 0x03) OR w4 = c"
    by (rule b64_quad_sextets [of a b c])
  note st = b64_step_char [OF w(2)] b64_step_char [OF w(3)] b64_step_char [OF w(4)] b64_step_char [OF w(5)] b64_step_pad
  have ph: "b64_phase 0 p w1 = (1, [])" "b64_phase 1 w1 w2 = (2, [a])" "b64_phase 2 w2 w3 = (3, [b])" "b64_phase 3 w3 w4 = (0, [c])"
    unfolding b64_phase_def w(6-8) by simp_all
  show ?thesis
    by (cases hb; cases hc) (simp_all add: w(1) st ph ph(2) [unfolded One_nat_def], blast+)
qed

lemma b64_run_enc64: "b64_run 0 p (enc64 s) = s"
proof (induction s arbitrary: p rule: enc64.induct)
  case (2 a)
  then show ?case using b64_run_quad [of p a 0 0 False False "[]"] by simp
next
  case (3 a b)
  then show ?case using b64_run_quad [of p a b 0 True False "[]"] by simp
next
  case (4 a b c s)
  then show ?case using b64_run_quad [of p a b c True True "enc64 s"] by auto
qed simp

lemma b64_quad_chars: "x \<in> set (b64_quad a b c hb hc) \<Longrightarrow> x < 128 \<and> x \<noteq> 0"
proof -
  assume x: "x \<in> set (b64_quad a b c hb hc)"
  obtain w1 w2 w3 w4 where w: "\<forall>hb hc. b64_quad a b c hb hc = [base64tab ! unat w1, base64tab ! unat w2,
       if hb then base64tab ! unat w3 else chr CHR ''='', if hc then base64tab ! unat w4 else chr CHR ''='']"
    "take_bit 6 w1 = w1" "take_bit 6 w2 = w2" "take_bit 6 w3 = w3" "take_bit 6 w4 = w4"
    "push_bit 2 w1 OR drop_bit 4 (w2 AND 0x30) = a" "push_bit 4 (w2 AND 0xf) OR drop_bit 2 (w3 AND 0x3c) = b"
    "push_bit 6 (w3 AND 0x03) OR w4 = c"
    by (rule b64_quad_sextets [of a b c])
  show ?thesis using x b64_tab_char [OF w(2)] b64_tab_char [OF w(3)] b64_tab_char [OF w(4)] b64_tab_char [OF w(5)] b64_tab_pad
    by (auto simp: w(1) split: if_splits)
qed

lemma enc64_chars: "x \<in> set (enc64 s) \<Longrightarrow> x < 128 \<and> x \<noteq> 0"
  by (induction s rule: enc64.induct) (auto dest: b64_quad_chars)

lemma length_enc64: "length (enc64 s) = 4 * ((length s + 2) div 3)"
proof (induction s rule: enc64.induct)
  case (4 a b c s)
  have "(length (a # b # c # s) + 2) div 3 = Suc ((length s + 2) div 3)" by simp
  with 4 show ?case by (simp add: b64_quad_def)
qed (simp_all add: b64_quad_def)

lemma enc64_drop:
  assumes "i < length s"
  shows "enc64 (drop i s) =
    b64_quad (s ! i) (if i + 1 < length s then s ! (i + 1) else 0) (if i + 2 < length s then s ! (i + 2) else 0)
      (i + 1 < length s) (i + 2 < length s) @ enc64 (drop (i + 3) s)"
proof -
  have d: "drop k s = s ! k # drop (Suc k) s" if "k < length s" for k using that by (simp add: Cons_nth_drop_Suc)
  consider "length s = i + 1" | "length s = i + 2" | "i + 3 \<le> length s" using assms by linarith
  then show ?thesis
  proof cases
    case 1
    with d [of i] show ?thesis by simp
  next
    case 2
    with d [of i] d [of "Suc i"] show ?thesis by simp
  next
    case 3
    with d [of i] d [of "Suc i"] d [of "Suc (Suc i)"] show ?thesis by (simp add: numeral_3_eq_3)
  qed
qed

lemma encode_base64_loop_spec:
  assumes "take (length s) inp = s" "i \<le> length s + 2" "j + length (enc64 (drop i s)) \<le> length out"
  shows "\<exists>out'. encode_base64_loop (length s) inp i out j = Some (out', j + length (enc64 (drop i s))) \<and>
    length out' = length out \<and> take (j + length (enc64 (drop i s))) out' = take j out @ enc64 (drop i s)"
  using assms
proof (induction "length s" inp i out j rule: encode_base64_loop.induct)
  case (1 inp i out j)
  show ?case
  proof (cases "i < length s")
    case False
    then show ?thesis by (subst encode_base64_loop.simps) simp
  next
    case True
    have g: "blk_get inp k = Some (s ! k)" if "k < length s" for k
      using chunk_nth [OF "1.prems"(1) that] that arg_cong [OF "1.prems"(1), of length] by (auto simp: blk_get_def)
    define b where "b = (if i + 1 < length s then s ! (i + 1) else 0)"
    define c where "c = (if i + 2 < length s then s ! (i + 2) else 0)"
    define q where "q = b64_quad (s ! i) b c (i + 1 < length s) (i + 2 < length s)"
    define R where "R = enc64 (drop (i + 3) s)"
    have e: "enc64 (drop i s) = q @ R" using enc64_drop [OF True] by (simp add: q_def R_def b_def c_def)
    have lq: "length q = 4" by (simp add: q_def b64_quad_def)
    have gs: "blk_get inp i = Some (s ! i)" "(if i + 1 < length s then blk_get inp (i + 1) else Some 0) = Some b"
        "(if i + 2 < length s then blk_get inp (i + 2) else Some 0) = Some c"
      using g True by (auto simp: b_def c_def)
    have "j + length q \<le> length out" using "1.prems"(3) by (simp add: e)
    then obtain o1 where o1: "blk_write out j q = Some o1" "length o1 = length out" "take (j + length q) o1 = take j out @ q"
      by (rule write_at)
    have st: "encode_base64_loop (length s) inp i out j = encode_base64_loop (length s) inp (i + 3) o1 (j + 4)"
      using True gs o1(1) by (subst encode_base64_loop.simps) (simp add: q_def)
    have "\<exists>out'. encode_base64_loop (length s) inp (i + 3) o1 (j + 4) = Some (out', j + 4 + length R) \<and>
        length out' = length o1 \<and> take (j + 4 + length R) out' = take (j + 4) o1 @ R"
      unfolding R_def by (rule "1.hyps" [OF True gs]) (use True o1 lq "1.prems" in \<open>auto simp: q_def e R_def\<close>)
    with st o1 lq show ?thesis by (auto simp: e add.assoc)
  qed
qed

lemma b64_step_out: "b64_step phase p c = (phase', p', out) \<Longrightarrow> length out \<le> 1"
  by (auto simp: b64_step_def b64_phase_def Let_def split: if_splits)

text \<open>The decoding loop never overtakes its input: what has been written back and what waits in
  \<open>space\<close> together are no longer than what has been read.\<close>

lemma decode_base64_loop_spec:
  assumes "\<And>c. c \<in> set s \<Longrightarrow> c < 128" "drop i m = drop i s @ r" "i \<le> length s" "bp + length space \<le> i"
    "length space < 127" "length s \<le> length m"
  shows "\<exists>m' sp bp'. decode_base64_loop (length s) m i space phase p bp = Some (m', sp, bp') \<and> length m' = length m \<and>
    length sp < 127 \<and> bp' + length sp \<le> length s \<and>
    take bp' m' @ sp = take bp m @ space @ b64_run phase p (drop i s)"
  using assms(2-6)
proof (induction "length s - i" arbitrary: m i space phase p bp rule: less_induct)
  case less
  show ?case
  proof (cases "i < length s")
    case False
    with less.prems show ?thesis by (subst decode_base64_loop.simps) simp
  next
    case True
    define c where "c = s ! i"
    have ds: "drop i s = c # drop (i + 1) s" using True by (simp add: c_def Cons_nth_drop_Suc)
    have dm: "drop i m = c # drop (i + 1) s @ r" using less.prems(1) by (simp add: ds)
    have g: "blk_get m i = Some c"
      using hd_drop_conv_nth [of i m] dm True less.prems(5) by (simp add: blk_get_def)
    have "c < 128" using assms(1) True by (simp add: c_def)
    then have lk: "b64_lookup c = Some (b64_decode_tab ! unat c)" by (simp add: b64_lookup_def)
    obtain ph pv out where st: "b64_step phase p c = (ph, pv, out)" by (cases "b64_step phase p c")
    define sp1 where "sp1 = space @ out"
    have l1: "length sp1 \<le> 127" "bp + length sp1 \<le> i + 1"
      using b64_step_out [OF st] less.prems(3,4) by (simp_all add: sp1_def)
    have e: "decode_base64_loop (length s) m i space phase p bp =
       (if length sp1 = 127 then do {
          m \<leftarrow> blk_write m bp sp1;
          decode_base64_loop (length s) m (i + 1) [] ph pv (bp + 127) }
        else decode_base64_loop (length s) m (i + 1) sp1 ph pv bp)"
      using True g lk st l1(1) unfolding b64_step_def
      by (subst decode_base64_loop.simps) (simp add: sp1_def Let_def split: if_splits prod.splits)
    have run: "b64_run phase p (drop i s) = out @ b64_run ph pv (drop (i + 1) s)" by (simp add: ds st)
    have d1: "drop (i + 1) m = drop (i + 1) s @ r" using arg_cong [OF dm, of tl] by (simp add: drop_Suc tl_drop)
    have dec: "length s - (i + 1) < length s - i" using True by simp
    show ?thesis
    proof (cases "length sp1 = 127")
      case False
      have "\<exists>m' sp bp'. decode_base64_loop (length s) m (i + 1) sp1 ph pv bp = Some (m', sp, bp') \<and> length m' = length m \<and>
          length sp < 127 \<and> bp' + length sp \<le> length s \<and> take bp' m' @ sp = take bp m @ sp1 @ b64_run ph pv (drop (i + 1) s)"
        by (rule less.hyps [OF dec d1]) (use True False l1 less.prems(5) in auto)
      with False e show ?thesis by (simp add: run sp1_def)
    next
      case True
      have "bp + length sp1 \<le> length m" using l1(2) \<open>i < length s\<close> less.prems(5) by linarith
      then obtain m1 where m1: "blk_write m bp sp1 = Some m1" "length m1 = length m" "take (bp + length sp1) m1 = take bp m @ sp1"
        by (rule write_at)
      have "m1 = take bp m @ sp1 @ drop (bp + 127) m" using m1(1) True by (simp add: blk_write_def split: if_splits)
      moreover have "length (take bp m) = bp" using l1(2) \<open>i < length s\<close> less.prems(5) by simp
      ultimately have "drop (i + 1) m1 = drop (i + 1 - (bp + 127)) (drop (bp + 127) m)" using True l1(2) by simp
      then have d2: "drop (i + 1) m1 = drop (i + 1) s @ r" using d1 l1(2) True by simp
      have "\<exists>m' sp bp'. decode_base64_loop (length s) m1 (i + 1) [] ph pv (bp + 127) = Some (m', sp, bp') \<and> length m' = length m1 \<and>
          length sp < 127 \<and> bp' + length sp \<le> length s \<and> take bp' m' @ sp = take (bp + 127) m1 @ [] @ b64_run ph pv (drop (i + 1) s)"
        by (rule less.hyps [OF dec d2]) (use \<open>i < length s\<close> True l1 m1(2) less.prems(5) in auto)
      with True e m1 show ?thesis by (simp add: run sp1_def)
    qed
  qed
qed

lemma decode_base64_rep:
  assumes "buf_rep b s" "buf b = Some m" "\<And>c. c \<in> set s \<Longrightarrow> c < 128"
  shows "\<exists>b'. http2d_buffer_decode_base64 b = Some (ret_ok, b') \<and> buf_rep b' (b64_run 0 0 s)"
proof -
  have c: "len b = length s" "length s < bsize b" "bsize b \<le> length m" "bsize b < 2 ^ 31" "take (length s) m = s"
    using assms(1,2) by (auto elim: buf_rep_cases)
  define r where "r = drop (length s) m"
  have "drop 0 m = drop 0 s @ r" using append_take_drop_id [of "length s" m] c(5) by (simp add: r_def)
  then obtain m' sp bp where lp: "decode_base64_loop (length s) m 0 [] 0 0 0 = Some (m', sp, bp)" "length m' = length m"
      "bp + length sp \<le> length s" "take bp m' @ sp = b64_run 0 0 s"
    using decode_base64_loop_spec [of s 0 m r 0 "[]" 0 0] assms(3) c by auto
  define t where "t = b64_run 0 0 s"
  have lt: "length t = bp + length sp"
    using arg_cong [OF lp(4), of length] lp(2,3) c(2,3) by (simp add: t_def)
  have "bp + length (sp @ [0]) \<le> length m'" using lp c by simp
  then obtain m2 where m2: "blk_write m' bp (sp @ [0]) = Some m2" "length m2 = length m'"
      "take (bp + length (sp @ [0])) m2 = take bp m' @ sp @ [0]"
    by (rule write_at)
  have t0: "take (Suc (length t)) m2 = t @ [0]" using m2(3) lp(4) lt by (simp add: t_def)
  have "buf_rep (b\<lparr>buf := Some m2, len := bp + length sp\<rparr>) t"
  proof (rule buf_repI [where m = m2])
    show "take (length t) m2 = t" using t0 take_of_take [OF t0, of "length t"] by simp
    have "m2 ! length t = take (Suc (length t)) m2 ! length t" by simp
    then show "m2 ! length t = 0" unfolding t0 by simp
  qed (use lt lp c m2 in auto)
  with lp(1) m2(1) c(1) assms(2) show ?thesis by (simp add: http2d_buffer_decode_base64_def t_def)
qed

lemma encode_base64_rep:
  assumes "buf_rep b s" "buf_rep encoded t" "4 * length s + 20 < 2 ^ 31" "\<And>n. malloc_ok h n"
  shows "\<exists>b'. http2d_buffer_encode_base64 h b encoded = Some (ret_ok, b') \<and> buf_rep b' (enc64 s) \<and> buf b' \<noteq> None"
proof -
  define n where "n = (length s + 4) * 4 div 3 + 1"
  have l: "len b = length s" "buffer_ok encoded" using assms(1,2) buf_rep_len by (auto simp: buf_rep_def)
  have u: "u32 (u32 (u32 (len b + 4) * 4) div 3 + 1) = n" "n < 2 ^ 31" "0 < n"
    using assms(3) l(1) by (simp_all add: n_def u32_def)
  obtain e1 where e1: "http2d_buffer_ensure_size h encoded n = (ret_ok, e1)" "buffer_ok e1" "n \<le> bsize e1" "buf e1 \<noteq> None"
    using http2d_buffer_ensure_size_ok [OF l(2) u(2) assms(4)] u(3) by metis
  obtain e2 where e2: "http2d_buffer_clean e1 = Some e2" "buf_rep e2 []" "bsize e2 = bsize e1" "buf e2 = None \<longleftrightarrow> buf e1 = None"
    by (rule http2d_buffer_clean_rep [OF e1(2)])
  then obtain out where o: "buf e2 = Some out" "bsize e2 \<le> length out" "bsize e2 < 2 ^ 31"
    using e1(4) by (auto elim: buf_rep_cases)
  define inp where "inp = (case buf b of None \<Rightarrow> [] | Some m \<Rightarrow> m)"
  have inp: "take (length s) inp = s" using assms(1) by (auto simp: inp_def elim: buf_rep_cases)
  have le: "length (enc64 s) < n" by (simp add: length_enc64 n_def)
  obtain out' where o': "encode_base64_loop (length s) inp 0 out 0 = Some (out', length (enc64 s))"
      "length out' = length out" "take (length (enc64 s)) out' = enc64 s"
    using encode_base64_loop_spec [OF inp, of 0 0 out] le e1(3) e2(3) o(2) by auto
  have "length (enc64 s) < bsize e2" "bsize e2 \<le> length out'" using le e1(3) e2(3) o(2) o'(2) by auto
  note pz = put_zero [OF refl this o(3) o'(3)]
  from pz show ?thesis using u(1) e1(1) e2(1) o(1) o'(1) l(1)
    unfolding http2d_buffer_encode_base64_def Let_def inp_def [symmetric] by simp
qed

subsection \<open>Hexadecimal digits\<close>

lemma hex_digit_inverse: "list_all (\<lambda>n. hex_to_bin ! unat (TO_HEX n AND 127) = int n) [0..<16]"
  by code_simp

lemma hex_to_bin_TO_HEX: "n < 16 \<Longrightarrow> hex_to_bin ! unat (TO_HEX n AND 127) = int n"
  using hex_digit_inverse by (simp add: list_all_iff)

lemma nibble_less: "unat (c AND 0xf) < 16" for c :: byte
proof -
  have "c AND 0xf = take_bit 4 c" by (simp add: take_bit_eq_mask mask_eq_exp_minus_1)
  then show ?thesis by (simp add: unsigned_take_bit_eq take_bit_eq_mod unat_mod_distrib)
qed

lemma nibbles_byte: "(push_bit 4 (drop_bit 4 c AND 0xf) AND 0xF0) OR ((c AND 0xf) AND 0x0F) = c" for c :: byte
  by (rule byte_eqI) (auto simp: byte_simps dest: bit_imp_le_length)

lemma encode_hex_loop_spec:
  assumes "take (i + length v) inp = u @ v" "length u = i" "j + 2 * length v \<le> length out"
  shows "\<exists>out'. encode_hex_loop (length v) inp i out j = Some (out', j + 2 * length v) \<and> length out' = length out \<and>
    take (j + 2 * length v) out' = take j out @ enc_hex v"
  using assms
proof (induction v arbitrary: i j u out)
  case (Cons c v)
  define x where "x = TO_HEX (unat (drop_bit 4 c AND 0xf))"
  define y where "y = TO_HEX (unat (c AND 0xf))"
  have g: "blk_get inp i = Some c"
  proof -
    have "take (i + length (c # v)) inp ! i = c" unfolding Cons.prems(1) using Cons.prems(2) by (simp add: nth_append)
    moreover have "i < length inp" using arg_cong [OF Cons.prems(1), of length] Cons.prems(2) by auto
    ultimately show ?thesis by (simp add: blk_get_def)
  qed
  define o2 where "o2 = out[j := x, j + 1 := y]"
  have w: "blk_set out j x = Some (out[j := x])" "blk_set (out[j := x]) (j + 1) y = Some o2"
    using Cons.prems(3) by (simp_all add: blk_set_in o2_def)
  have t: "take (j + 2) o2 = take j out @ [x, y]"
  proof -
    have "take (Suc (Suc j)) o2 = take j o2 @ [o2 ! j, o2 ! Suc j]"
      using Cons.prems(3) take_Suc_conv_app_nth [of j o2] take_Suc_conv_app_nth [of "Suc j" o2] by (simp add: o2_def)
    then show ?thesis using Cons.prems(3) by (simp add: o2_def)
  qed
  have "\<exists>out'. encode_hex_loop (length v) inp (i + 1) o2 (j + 2) = Some (out', j + 2 + 2 * length v) \<and> length out' = length o2 \<and>
      take (j + 2 + 2 * length v) out' = take (j + 2) o2 @ enc_hex v"
    by (rule Cons.IH [of _ "u @ [c]"]) (use Cons.prems in \<open>auto simp: o2_def\<close>)
  with g w t show ?case by (auto simp: x_def y_def enc_hex_def hex_pair_of_def o2_def)
qed (simp add: enc_hex_def)

lemma decode_hex_loop_spec:
  assumes "drop (2 * i) m = enc_hex v @ r" "2 * i + 2 * length v \<le> length m"
  shows "\<exists>m'. decode_hex_loop (length v) m i = Some m' \<and> length m' = length m \<and> take (i + length v) m' = take i m @ v"
  using assms
proof (induction v arbitrary: i m)
  case (Cons c v)
  define x where "x = TO_HEX (unat (drop_bit 4 c AND 0xf))"
  define y where "y = TO_HEX (unat (c AND 0xf))"
  have d: "drop (2 * i) m = x # y # enc_hex v @ r" using Cons.prems(1) by (simp add: enc_hex_def hex_pair_of_def x_def y_def)
  have g: "blk_get m (2 * i) = Some x" "blk_get m (2 * i + 1) = Some y"
    using Cons.prems(2) arg_cong [OF d, of "\<lambda>l. l ! 0"] arg_cong [OF d, of "\<lambda>l. l ! 1"] by (auto simp: blk_get_def)
  have b: "hex_to_bin ! unat (x AND 127) = int (unat (drop_bit 4 c AND 0xf))" "hex_to_bin ! unat (y AND 127) = int (unat (c AND 0xf))"
    unfolding x_def y_def by (rule hex_to_bin_TO_HEX [OF nibble_less])+
  have nn: "int (unat (drop_bit 4 c AND 0xf)) \<noteq> - 1" "int (unat (c AND 0xf)) \<noteq> - 1" by linarith+
  have v: "(push_bit 4 (word_of_int (int (unat (drop_bit 4 c AND 0xf)))) AND 0xF0) OR
      (word_of_int (int (unat (c AND 0xf))) AND 0x0F) = c"
    unfolding of_nat_unat word_of_int_uint by (rule nibbles_byte)
  have s: "blk_set m i c = Some (m[i := c])" using Cons.prems(2) by (intro blk_set_in) simp
  have e: "decode_hex_loop (length (c # v)) m i = decode_hex_loop (length v) (m[i := c]) (i + 1)"
    unfolding length_Cons decode_hex_loop.simps g bind.bind_lunit Let_def b v s using nn by simp
  have d2: "drop (2 * (i + 1)) (m[i := c]) = enc_hex v @ r"
    using arg_cong [OF d, of "drop 2"] by (simp add: numeral_2_eq_2)
  have "\<exists>m'. decode_hex_loop (length v) (m[i := c]) (i + 1) = Some m' \<and> length m' = length (m[i := c]) \<and>
      take (i + 1 + length v) m' = take (i + 1) (m[i := c]) @ v"
    by (rule Cons.IH [OF d2]) (use Cons.prems(2) in simp)
  moreover have "take (i + 1) (m[i := c]) = take i m @ [c]" using Cons.prems(2) by (simp add: take_Suc_conv_app_nth)
  ultimately show ?case unfolding e by simp
qed simp

lemma length_enc_hex: "length (enc_hex s) = 2 * length s"
  by (induction s) (auto simp: enc_hex_def hex_pair_of_def)

lemma encode_hex_rep:
  assumes "buf_rep b s" "buf_rep encoded t" "2 * length s + 1 < 2 ^ 31" "\<And>n. malloc_ok h n"
  shows "\<exists>b'. http2d_buffer_encode_hex h b encoded = Some (ret_ok, b') \<and> buf_rep b' (enc_hex s) \<and> buf b' \<noteq> None"
proof -
  define n where "n = length s * 2 + 1"
  have l: "len b = length s" "buffer_ok encoded" using assms(1,2) buf_rep_len by (auto simp: buf_rep_def)
  have u: "u32 (len b * 2 + 1) = n" "u32 (len b * 2) = 2 * length s" "n < 2 ^ 31" "0 < n"
    using assms(3) l(1) by (simp_all add: n_def u32_def)
  obtain e1 where e1: "http2d_buffer_ensure_size h encoded n = (ret_ok, e1)" "buffer_ok e1" "n \<le> bsize e1" "buf e1 \<noteq> None"
    using http2d_buffer_ensure_size_ok [OF l(2) u(3) assms(4)] u(4) by metis
  obtain e2 where e2: "http2d_buffer_clean e1 = Some e2" "buf_rep e2 []" "bsize e2 = bsize e1" "buf e2 = None \<longleftrightarrow> buf e1 = None"
    by (rule http2d_buffer_clean_rep [OF e1(2)])
  then obtain out where o: "buf e2 = Some out" "bsize e2 \<le> length out" "bsize e2 < 2 ^ 31"
    using e1(4) by (auto elim: buf_rep_cases)
  define inp where "inp = (case buf b of None \<Rightarrow> [] | Some m \<Rightarrow> m)"
  have inp: "take (0 + length s) inp = [] @ s" using assms(1) by (auto simp: inp_def elim: buf_rep_cases)
  obtain out' where o': "encode_hex_loop (length s) inp 0 out 0 = Some (out', 2 * length s)"
      "length out' = length out" "take (2 * length s) out' = enc_hex s"
    using encode_hex_loop_spec [OF inp, of 0 out] e1(3) e2(3) o(2) by (auto simp: n_def)
  have "length (enc_hex s) = 2 * length s" "2 * length s < bsize e2" "bsize e2 \<le> length out'"
    using e1(3) e2(3) o(2) o'(2) by (auto simp: n_def length_enc_hex)
  note pz = put_zero [OF this o(3) o'(3)]
  from pz show ?thesis using u(1,2) e1(1) e2(1) o(1) o'(1) l(1)
    unfolding http2d_buffer_encode_hex_def Let_def inp_def [symmetric] by simp
qed

lemma decode_hex_rep:
  assumes "buf_rep b (enc_hex s)" "buf b = Some m"
  shows "\<exists>b'. http2d_buffer_decode_hex b = Some (ret_ok, b') \<and> buf_rep b' s"
proof -
  have c: "len b = 2 * length s" "2 * length s < bsize b" "bsize b \<le> length m" "bsize b < 2 ^ 31" "take (2 * length s) m = enc_hex s"
    using assms by (auto elim!: buf_rep_cases simp: length_enc_hex)
  have d: "drop (2 * 0) m = enc_hex s @ drop (2 * length s) m"
    using append_take_drop_id [of "2 * length s" m] c(5) by simp
  obtain m' where m': "decode_hex_loop (length s) m 0 = Some m'" "length m' = length m" "take (length s) m' = s"
    using decode_hex_loop_spec [OF d] c(2,3) by auto
  have "length s < bsize b" "bsize b \<le> length m'" using c(2,3) m'(2) by auto
  note pz = put_zero [OF refl this c(4) m'(3)]
  from pz m'(1) c(1) assms(2) show ?thesis by (simp add: http2d_buffer_decode_hex_def)
qed

subsection \<open>Properties\<close>

text \<open>C36: base 64 encoding followed by decoding gives every byte string back, zero bytes included:
  the memory reserved for the encoding is enough, and the decoder, which writes over its own
  input in blocks of 127 bytes, never overtakes what it still has to read.\<close>

theorem http2d_buffer_base64_roundtrip:
  assumes "buf_rep b s" "buf_rep encoded t" "4 * length s + 20 < 2 ^ 31" "\<And>n. malloc_ok h n"
  shows "\<exists>b1 b2. http2d_buffer_encode_base64 h b encoded = Some (ret_ok, b1) \<and>
    http2d_buffer_decode_base64 b1 = Some (ret_ok, b2) \<and> buf_rep b2 s"
proof -
  obtain b1 m where b1: "http2d_buffer_encode_base64 h b encoded = Some (ret_ok, b1)" "buf_rep b1 (enc64 s)" "buf b1 = Some m"
    using encode_base64_rep [OF assms] by auto
  with decode_base64_rep [OF b1(2,3)] enc64_chars [of _ s] b64_run_enc64 [of 0 s] show ?thesis by auto
qed

theorem http2d_buffer_base64_roundtrip_witness:
  "\<exists>b1 b2. http2d_buffer_encode_base64 (total_heap (\<lambda>_. 170)) (http2d_buffer_fake_str ''ab'') HTTP2D_BUF_INIT = Some (ret_ok, b1) \<and>
    http2d_buffer_decode_base64 b1 = Some (ret_ok, b2) \<and> buf_rep b2 (lit ''ab'')"
  by (rule http2d_buffer_base64_roundtrip [OF http2d_buffer_fake_str_rep buf_rep_INIT]) auto

text \<open>\<open>http2d_buffer_decode_base64\<close> uses a signed \<open>char\<close> as the index of its table: a text that
  starts with a byte from 128 on makes it read before the table.\<close>

theorem http2d_buffer_decode_base64_high_byte:
  assumes "buf_rep b (c # s)" "128 \<le> c"
  shows "http2d_buffer_decode_base64 b = None"
proof -
  obtain m where m: "buf b = Some m" "len b = Suc (length s)" "take (length (c # s)) m = c # s" "length (c # s) < length m"
    using assms(1) by (auto elim!: buf_rep_cases)
  have g: "blk_get m 0 = Some c" using m(3,4) by (cases m) (auto simp: blk_get_def)
  have "b64_lookup c = None" using assms(2) by (simp add: b64_lookup_def)
  with g have "decode_base64_loop (len b) m 0 [] 0 0 0 = None"
    by (subst decode_base64_loop.simps) (simp add: m(2))
  with m(1) show ?thesis by (simp add: http2d_buffer_decode_base64_def)
qed

theorem http2d_buffer_decode_base64_high_byte_witness:
  "http2d_buffer_decode_base64 \<lparr>buf = Some [0xE9, 0], bsize = 2, len = 1\<rparr> = None"
proof -
  have "buf_rep \<lparr>buf = Some [0xE9, 0], bsize = 2, len = 1\<rparr> [0xE9]"
    by (simp add: buf_rep_def buffer_ok_def buffer_term_def buf_str_def)
  then show ?thesis by (rule http2d_buffer_decode_base64_high_byte) simp
qed

text \<open>hexadecimal encoding followed by decoding gives every byte string back.\<close>

theorem http2d_buffer_hex_roundtrip:
  assumes "buf_rep b s" "buf_rep encoded t" "2 * length s + 1 < 2 ^ 31" "\<And>n. malloc_ok h n"
  shows "\<exists>b1 b2. http2d_buffer_encode_hex h b encoded = Some (ret_ok, b1) \<and>
    http2d_buffer_decode_hex b1 = Some (ret_ok, b2) \<and> buf_rep b2 s"
proof -
  obtain b1 m where b1: "http2d_buffer_encode_hex h b encoded = Some (ret_ok, b1)" "buf_rep b1 (enc_hex s)" "buf b1 = Some m"
    using encode_hex_rep [OF assms] by auto
  with decode_hex_rep [OF b1(2,3)] show ?thesis by auto
qed

theorem http2d_buffer_hex_roundtrip_witness:
  "\<exists>b1 b2. http2d_buffer_encode_hex (total_heap (\<lambda>_. 170)) (http2d_buffer_fake_str ''a~'') HTTP2D_BUF_INIT = Some (ret_ok, b1) \<and>
    http2d_buffer_decode_hex b1 = Some (ret_ok, b2) \<and> buf_rep b2 (lit ''a~'')"
  by (rule http2d_buffer_hex_roundtrip [OF http2d_buffer_fake_str_rep buf_rep_INIT]) auto

end
