(* ===== verification/Spdy.thy ===== *)
theory Spdy
  imports Buffer_Codec
begin

text \<open>
  The frame headers of SPDY, \<^verbatim>\<open>src/src/spdy.c\<close> and \<^verbatim>\<open>src/src/spdy.h\<close>: big-endian integers
  in memory, the eight bytes in front of every frame, and the frames the server writes.
  \<open>ntohs\<close> and \<open>htons\<close> followed by a \<open>memcpy\<close> are written as the network byte order they give.
\<close>

subsection \<open>Constants and structures\<close>

definition SPDY_VERSION :: "16 word" where "SPDY_VERSION = 3"

datatype spdy_frame_type =
    SPDY_SYN_STREAM | SPDY_SYN_REPLY | SPDY_RST_STREAM | SPDY_SETTINGS | SPDY_NOOP | SPDY_PING
  | SPDY_GOAWAY | SPDY_HEADERS | SPDY_DATA

fun frame_type_code :: "spdy_frame_type \<Rightarrow> 16 word" where
  "frame_type_code SPDY_SYN_STREAM = 1"
| "frame_type_code SPDY_SYN_REPLY = 2"
| "frame_type_code SPDY_RST_STREAM = 3"
| "frame_type_code SPDY_SETTINGS = 4"
| "frame_type_code SPDY_NOOP = 5"
| "frame_type_code SPDY_PING = 6"
| "frame_type_code SPDY_GOAWAY = 7"
| "frame_type_code SPDY_HEADERS = 8"
| "frame_type_code SPDY_DATA = 100"

definition SPDY_CTRL_FLAG_NONE :: byte where "SPDY_CTRL_FLAG_NONE = 0"
definition SPDY_CTRL_FLAG_FIN :: byte where "SPDY_CTRL_FLAG_FIN = 1"
definition SPDY_MASK_STREAM_ID :: "32 word" where "SPDY_MASK_STREAM_ID = 0x7fffffff"
definition SPDY_MASK_LENGTH :: "32 word" where "SPDY_MASK_LENGTH = 0xffffff"
definition SPDY_MASK_VERSION :: "16 word" where "SPDY_MASK_VERSION = 0x7fff"
definition SPDY_FRAME_HEAD_LENGTH :: nat where "SPDY_FRAME_HEAD_LENGTH = 8"

text \<open>\<open>http2d_spdy_ctrl_t\<close>; the field \<open>length\<close> never exceeds 24 bits.\<close>

record spdy_ctrl =
  version :: "16 word"
  ctype :: "16 word"
  flags :: byte
  clength :: nat

record spdy_syn_stream =
  stream_id :: "32 word"
  assoc_stream_id :: "32 word"
  pri :: byte
  slot :: byte

record spdy_rst_stream =
  rst_stream_id :: "32 word"
  rst_status_code :: "32 word"

record spdy_go_away =
  last_good_id :: "32 word"
  away_status_code :: "32 word"

subsection \<open>Integers in memory\<close>

definition read_uint16 :: "block \<Rightarrow> nat \<Rightarrow> 16 word option" where
  "read_uint16 m p = do {
     a \<leftarrow> blk_get m p;
     b \<leftarrow> blk_get m (p + 1);
     Some (push_bit 8 (ucast a) OR ucast b) }"

definition read_uint32 :: "block \<Rightarrow> nat \<Rightarrow> 32 word option" where
  "read_uint32 m p = do {
     a \<leftarrow> blk_get m p;
     b \<leftarrow> blk_get m (p + 1);
     c \<leftarrow> blk_get m (p + 2);
     d \<leftarrow> blk_get m (p + 3);
     Some (push_bit 24 (ucast a) OR push_bit 16 (ucast b) OR push_bit 8 (ucast c) OR ucast d) }"

definition be16 :: "16 word \<Rightarrow> byte list" where
  "be16 n = [ucast (drop_bit 8 n), ucast n]"

definition be32 :: "32 word \<Rightarrow> byte list" where
  "be32 n = [ucast (drop_bit 24 n), ucast (drop_bit 16 n), ucast (drop_bit 8 n), ucast n]"

definition write_uint16 :: "block \<Rightarrow> nat \<Rightarrow> 16 word \<Rightarrow> block option" where
  "write_uint16 m p n = blk_write m p (be16 n)"

definition write_uint32 :: "block \<Rightarrow> nat \<Rightarrow> 32 word \<Rightarrow> block option" where
  "write_uint32 m p n = blk_write m p (be32 n)"

text \<open>An assignment such as \<open>buf[i] |= x\<close>.\<close>

definition blk_upd :: "block \<Rightarrow> nat \<Rightarrow> (byte \<Rightarrow> byte) \<Rightarrow> block option" where
  "blk_upd m i f = do { c \<leftarrow> blk_get m i; blk_set m i (f c) }"

subsection \<open>Frame headers\<close>

definition http2d_spdy_read_ctrl :: "buffer \<Rightarrow> nat \<Rightarrow> spdy_ctrl option" where
  "http2d_spdy_read_ctrl b pos = do {
     m \<leftarrow> buf b;
     v \<leftarrow> read_uint16 m pos;
     t \<leftarrow> read_uint16 m (pos + 2);
     f \<leftarrow> blk_get m (pos + 4);
     l \<leftarrow> read_uint32 m (pos + 4);
     Some \<lparr>version = v AND SPDY_MASK_VERSION, ctype = t, flags = f,
           clength = unat (l AND SPDY_MASK_LENGTH)\<rparr> }"

definition http2d_spdy_write_ctrl :: "block \<Rightarrow> 16 word \<Rightarrow> byte \<Rightarrow> 32 word \<Rightarrow> block option" where
  "http2d_spdy_write_ctrl m frame_type fl n = do {
     m \<leftarrow> write_uint16 m 0 SPDY_VERSION;
     m \<leftarrow> blk_upd m 0 (\<lambda>c. c OR push_bit 7 1);
     m \<leftarrow> write_uint16 m 2 frame_type;
     m \<leftarrow> write_uint32 m 4 n;
     blk_set m 4 fl }"

definition http2d_spdy_write_syn_reply :: "block \<Rightarrow> 32 word \<Rightarrow> byte \<Rightarrow> 32 word \<Rightarrow> block option" where
  "http2d_spdy_write_syn_reply m i fl headers_length = do {
     m \<leftarrow> http2d_spdy_write_ctrl m (frame_type_code SPDY_SYN_REPLY) fl (headers_length + 4);
     m \<leftarrow> write_uint32 m 8 i;
     blk_upd m 8 (\<lambda>c. c AND NOT (push_bit 7 1)) }"

definition http2d_spdy_write_data :: "block \<Rightarrow> 32 word \<Rightarrow> byte \<Rightarrow> 32 word \<Rightarrow> block option" where
  "http2d_spdy_write_data m i fl n = do {
     m \<leftarrow> write_uint32 m 0 i;
     m \<leftarrow> blk_upd m 0 (\<lambda>c. c AND NOT (push_bit 7 1));
     m \<leftarrow> write_uint32 m 4 n;
     blk_set m 4 fl }"

text \<open>A received frame starts with the control bit or with a stream identifier.\<close>

definition is_control :: "block \<Rightarrow> bool" where
  "is_control m \<longleftrightarrow> m \<noteq> [] \<and> bit (hd m) 7"

subsection \<open>Round trips\<close>

lemma be16_join: "push_bit 8 (ucast (ucast (drop_bit 8 n) :: byte)) OR ucast (ucast n :: byte) = n" for n :: "16 word"
  by (rule bit_word_eqI) (auto simp: bit_simps)

lemma be32_join:
  "push_bit 24 (ucast (ucast (drop_bit 24 n) :: byte)) OR push_bit 16 (ucast (ucast (drop_bit 16 n) :: byte)) OR
   push_bit 8 (ucast (ucast (drop_bit 8 n) :: byte)) OR ucast (ucast n :: byte) = n" for n :: "32 word"
proof (rule bit_word_eqI)
  fix i assume "i < LENGTH(32)"
  then consider "i < 8" | "8 \<le> i" "i < 16" | "16 \<le> i" "i < 24" | "24 \<le> i" "i < 32" by fastforce
  then show "bit (push_bit 24 (ucast (ucast (drop_bit 24 n) :: byte)) OR push_bit 16 (ucast (ucast (drop_bit 16 n) :: byte)) OR
      push_bit 8 (ucast (ucast (drop_bit 8 n) :: byte)) OR ucast (ucast n :: byte) :: 32 word) i = bit n i"
    by cases (simp_all add: bit_simps less_diff_conv2)
qed

lemma length_be [simp]: "length (be16 n) = 2" "length (be32 k) = 4"
  by (simp_all add: be16_def be32_def)

lemma read_be16: "drop p m = be16 n @ r \<Longrightarrow> read_uint16 m p = Some n"
proof -
  assume d: "drop p m = be16 n @ r"
  have g: "blk_get m (p + k) = Some (be16 n ! k)" if "k < 2" for k
    using arg_cong [OF d, of length] arg_cong [OF d, of "\<lambda>l. l ! k"] that by (auto simp: blk_get_def nth_append)
  from g [of 0] g [of 1] show ?thesis by (simp add: read_uint16_def be16_def be16_join)
qed

lemma read_be32: "drop p m = be32 n @ r \<Longrightarrow> read_uint32 m p = Some n"
proof -
  assume d: "drop p m = be32 n @ r"
  have g: "blk_get m (p + k) = Some (be32 n ! k)" if "k < 4" for k
    using arg_cong [OF d, of length] arg_cong [OF d, of "\<lambda>l. l ! k"] that by (auto simp: blk_get_def nth_append)
  from g [of 0] g [of 1] g [of 2] g [of 3] show ?thesis by (simp add: read_uint32_def be32_def be32_join)
qed

text \<open>The bytes of the three headers the server writes.\<close>

lemma write_ctrl_bytes:
  assumes "8 \<le> length m"
  shows "http2d_spdy_write_ctrl m t f n =
    Some ([0x80, 3] @ be16 t @ [f] @ tl (be32 n) @ drop 8 m)"
proof -
  obtain a b c d e g i j r where m: "m = [a, b, c, d, e, g, i, j] @ r"
    using assms by (auto simp: eval_nat_numeral Suc_le_length_iff)
  show ?thesis
    by (simp add: m http2d_spdy_write_ctrl_def write_uint16_def write_uint32_def blk_write_def blk_upd_def blk_get_def blk_set_def
        be16_def be32_def SPDY_VERSION_def)
qed


lemma be32_masked:
  "be32 (i AND SPDY_MASK_STREAM_ID) = (ucast (drop_bit 24 i) AND NOT (push_bit 7 1)) # tl (be32 i)"
  unfolding be32_def SPDY_MASK_STREAM_ID_def list.sel list.inject
  by (intro conjI refl byte_eqI) (auto simp: bit_simps)

lemma write_syn_reply_bytes:
  assumes "12 \<le> length m"
  shows "http2d_spdy_write_syn_reply m i f n =
    Some ([0x80, 3, 0, 2, f] @ tl (be32 (n + 4)) @ be32 (i AND SPDY_MASK_STREAM_ID) @ drop 12 m)"
proof -
  obtain a b c d e g i' j k l q p r where m: "m = [a, b, c, d, e, g, i', j, k, l, q, p] @ r"
    using assms by (auto simp: eval_nat_numeral Suc_le_length_iff)
  show ?thesis unfolding be32_masked http2d_spdy_write_syn_reply_def
    by (simp add: m write_ctrl_bytes write_uint32_def blk_write_def blk_upd_def blk_get_def blk_set_def
        be16_def be32_def)
qed

lemma write_data_bytes:
  assumes "8 \<le> length m"
  shows "http2d_spdy_write_data m i f n =
    Some (be32 (i AND SPDY_MASK_STREAM_ID) @ [f] @ tl (be32 n) @ drop 8 m)"
proof -
  obtain a b c d e g k j r where m: "m = [a, b, c, d, e, g, k, j] @ r"
    using assms by (auto simp: eval_nat_numeral Suc_le_length_iff)
  show ?thesis unfolding be32_masked http2d_spdy_write_data_def
    by (simp add: m write_uint32_def blk_write_def blk_upd_def blk_get_def blk_set_def be32_def)
qed

lemma mask_length_eq: "SPDY_MASK_LENGTH = mask 24"
  by (simp add: SPDY_MASK_LENGTH_def mask_eq_exp_minus_1)

lemma unat_mask_length: "unat (n AND SPDY_MASK_LENGTH) = unat n mod 2 ^ 24"
  by (metis mask_length_eq take_bit_eq_mask take_bit_eq_mod unsigned_take_bit_eq)

lemma flags_length_be32: "f # tl (be32 n) = be32 (push_bit 24 (ucast f) OR (n AND SPDY_MASK_LENGTH))"
  unfolding be32_def SPDY_MASK_LENGTH_def list.sel list.inject
  by (intro conjI refl byte_eqI) (auto simp: bit_simps)

lemma flags_length_masked:
  "(push_bit 24 (ucast f) OR (n AND SPDY_MASK_LENGTH)) AND SPDY_MASK_LENGTH = n AND SPDY_MASK_LENGTH"
  unfolding mask_length_eq by (rule bit_word_eqI) (auto simp: bit_simps)

text \<open>What a peer reads back.\<close>

lemma read_ctrl_bytes:
  assumes "buf b = Some k" "drop pos k = be16 v @ be16 t @ [f] @ tl (be32 n) @ r"
  shows "http2d_spdy_read_ctrl b pos =
    Some \<lparr>version = v AND SPDY_MASK_VERSION, ctype = t, flags = f, clength = unat (n AND SPDY_MASK_LENGTH)\<rparr>"
proof -
  let ?n = "push_bit 24 (ucast f) OR (n AND SPDY_MASK_LENGTH)"
  note t4 = flags_length_be32 [of f n]
  have d4: "drop (pos + 4) k = be32 ?n @ r"
    using arg_cong [OF assms(2), of "drop 4"] by (simp add: be16_def add.commute flip: t4)
  have d2: "drop (pos + 2) k = be16 t @ f # tl (be32 n) @ r"
    using arg_cong [OF assms(2), of "drop 2"] by (simp add: be16_def add.commute)
  have g: "blk_get k (pos + 4) = Some f"
    using arg_cong [OF d4, of length] arg_cong [OF d4, of hd] t4 [symmetric]
    by (auto simp: blk_get_def hd_drop_conv_nth)
  note n = flags_length_masked [of f n]
  show ?thesis
    using assms(1) read_be16 [OF assms(2)] read_be16 [OF d2] read_be32 [OF d4] g n
    by (simp add: http2d_spdy_read_ctrl_def)
qed


text \<open>C37: A control header written by \<open>http2d_spdy_write_ctrl\<close> into a frame of at least eight bytes leaves the
  rest of the frame alone, starts with the control bit set, and is read back by
  \<open>http2d_spdy_read_ctrl\<close>, wherever in a buffer it arrives, as version 3, the frame type and the flags
  it was written with, and the length modulo two to the power of 24.\<close>

theorem http2d_spdy_write_ctrl_roundtrip:
  assumes "8 \<le> length m"
  shows "\<exists>h. http2d_spdy_write_ctrl m t f n = Some (h @ drop 8 m) \<and> length h = 8 \<and> is_control h \<and>
    (\<forall>pre r sz l. http2d_spdy_read_ctrl \<lparr>buf = Some (pre @ h @ r), bsize = sz, len = l\<rparr> (length pre) =
      Some \<lparr>version = SPDY_VERSION, ctype = t, flags = f, clength = unat n mod 2 ^ 24\<rparr>)"
proof (intro exI conjI allI)
  let ?h = "[0x80, 3] @ be16 t @ [f] @ tl (be32 n)"
  show "http2d_spdy_write_ctrl m t f n = Some (?h @ drop 8 m)"
    using assms by (simp add: write_ctrl_bytes)
  show "length ?h = 8" by (simp add: be32_def)
  show "is_control ?h" by (simp add: is_control_def)
  show "http2d_spdy_read_ctrl \<lparr>buf = Some (pre @ ?h @ r), bsize = sz, len = l\<rparr> (length pre) =
      Some \<lparr>version = SPDY_VERSION, ctype = t, flags = f, clength = unat n mod 2 ^ 24\<rparr>" for pre r sz l
    by (subst read_ctrl_bytes [where v = "0x8003" and t = t and f = f and n = n and r = r and k = "pre @ ?h @ r"])
      (simp_all add: be16_def SPDY_VERSION_def SPDY_MASK_VERSION_def unat_mask_length)
qed

theorem http2d_spdy_write_ctrl_roundtrip_witness:
  "\<exists>h. http2d_spdy_write_ctrl (replicate 12 0) 2 SPDY_CTRL_FLAG_FIN 0x01000005 = Some (h @ drop 8 (replicate 12 0)) \<and>
    length h = 8 \<and> is_control h \<and>
    (\<forall>pre r sz l. http2d_spdy_read_ctrl \<lparr>buf = Some (pre @ h @ r), bsize = sz, len = l\<rparr> (length pre) =
      Some \<lparr>version = SPDY_VERSION, ctype = 2, flags = SPDY_CTRL_FLAG_FIN, clength = 5\<rparr>)"
  using http2d_spdy_write_ctrl_roundtrip [of "replicate 12 0" 2 SPDY_CTRL_FLAG_FIN "0x01000005"] by simp

text \<open>A SYN_REPLY header announces four bytes more than the headers that follow (the stream identifier), and
  carries the 31-bit identifier with its top bit clear; a DATA header starts with that identifier, so the
  control bit of its first byte is clear, and carries flags and length where a control header has them.\<close>

theorem http2d_spdy_reply_and_data_headers:
  assumes "12 \<le> length m" "8 \<le> length d"
  shows "\<exists>h g. http2d_spdy_write_syn_reply m i f n = Some (h @ drop 12 m) \<and> length h = 12 \<and> is_control h \<and>
    http2d_spdy_read_ctrl \<lparr>buf = Some h, bsize = sz, len = 12\<rparr> 0 =
      Some \<lparr>version = SPDY_VERSION, ctype = frame_type_code SPDY_SYN_REPLY, flags = f, clength = unat (n + 4) mod 2 ^ 24\<rparr> \<and>
    read_uint32 h 8 = Some (i AND SPDY_MASK_STREAM_ID) \<and>
    http2d_spdy_write_data d i f n = Some (g @ drop 8 d) \<and> length g = 8 \<and> \<not> is_control g \<and>
    read_uint32 g 0 = Some (i AND SPDY_MASK_STREAM_ID) \<and> blk_get g 4 = Some f \<and>
    map_option (\<lambda>l. unat (l AND SPDY_MASK_LENGTH)) (read_uint32 g 4) = Some (unat n mod 2 ^ 24)"
proof (intro exI conjI)
  let ?h = "[0x80, 3, 0, 2, f] @ tl (be32 (n + 4)) @ be32 (i AND SPDY_MASK_STREAM_ID)"
  let ?g = "be32 (i AND SPDY_MASK_STREAM_ID) @ [f] @ tl (be32 n)"
  show "http2d_spdy_write_syn_reply m i f n = Some (?h @ drop 12 m)" "length ?h = 12"
    "http2d_spdy_write_data d i f n = Some (?g @ drop 8 d)" "length ?g = 8"
    using assms by (simp_all add: write_syn_reply_bytes write_data_bytes)
  show "is_control ?h" "blk_get ?g 4 = Some f"
    by (simp_all add: is_control_def blk_get_def nth_append)
  show "\<not> is_control ?g" unfolding be32_masked by (simp add: is_control_def bit_simps)
  show "http2d_spdy_read_ctrl \<lparr>buf = Some ?h, bsize = sz, len = 12\<rparr> 0 =
      Some \<lparr>version = SPDY_VERSION, ctype = frame_type_code SPDY_SYN_REPLY, flags = f, clength = unat (n + 4) mod 2 ^ 24\<rparr>"
    by (subst read_ctrl_bytes [where v = "0x8003" and t = 2 and f = f and n = "n + 4" and k = ?h
          and r = "be32 (i AND SPDY_MASK_STREAM_ID)"])
      (simp_all add: be16_def SPDY_VERSION_def SPDY_MASK_VERSION_def unat_mask_length)
  show "read_uint32 ?h 8 = Some (i AND SPDY_MASK_STREAM_ID)"
    by (rule read_be32 [where r = "[]"]) (simp add: be32_def)
  show "read_uint32 ?g 0 = Some (i AND SPDY_MASK_STREAM_ID)"
    by (rule read_be32 [where r = "f # tl (be32 n)"]) simp
  show "map_option (\<lambda>l. unat (l AND SPDY_MASK_LENGTH)) (read_uint32 ?g 4) = Some (unat n mod 2 ^ 24)"
    using read_be32 [of 4 ?g _ "[]", OF trans [OF _ flags_length_be32 [of f n, THEN arg_cong, of "\<lambda>l. l @ []"]]]
    by (simp add: flags_length_masked) (simp add: unat_mask_length)
qed

theorem http2d_spdy_reply_and_data_headers_witness:
  "\<exists>h g. http2d_spdy_write_syn_reply (replicate 12 0) 0x80000001 0 20 = Some h \<and> length h = 12 \<and>
    read_uint32 h 8 = Some 1 \<and> http2d_spdy_write_data (replicate 8 0) 0x80000001 0 20 = Some g \<and> read_uint32 g 0 = Some 1"
  using http2d_spdy_reply_and_data_headers [of "replicate 12 0" "replicate 8 0" "0x80000001" 0 20 0]
  by (auto simp: SPDY_MASK_STREAM_ID_def)

end
