(* ===== verification/Http.thy ===== *)
theory Http
  imports Buffer_Codec
begin

text \<open>
  The vocabulary of HTTP, \<^verbatim>\<open>src/src/http.c\<close>, \<^verbatim>\<open>src/src/http.h\<close> and \<^verbatim>\<open>src/src/protocol.c\<close>: methods, response
  codes and versions with their texts. A function that returns a text through a pair of pointers returns the
  text, and the length it stores there, next to its return code.
\<close>

subsection \<open>Protocols\<close>

datatype prot_application = prot_app_unknown | prot_app_http10 | prot_app_http11 | prot_app_http20
datatype prot_session = prot_session_none | prot_session_SPDY
datatype prot_presentation = prot_presentation_none | prot_presentation_SSL

record protocol =
  application :: prot_application
  session :: prot_session
  presentation :: prot_presentation

definition http2d_protocol_init :: "protocol \<Rightarrow> ret_t \<times> protocol" where
  "http2d_protocol_init p =
     (ret_ok, p\<lparr>application := prot_app_unknown, session := prot_session_none,
               presentation := prot_presentation_none\<rparr>)"

text \<open>The first argument is the one written.\<close>

definition http2d_protocol_copy :: "protocol \<Rightarrow> protocol \<Rightarrow> ret_t \<times> protocol" where
  "http2d_protocol_copy p target = (ret_ok, target)"

definition http2d_http_version_to_string :: "prot_application \<Rightarrow> ret_t \<times> string \<times> nat" where
  "http2d_http_version_to_string v =
     (case v of prot_app_http11 \<Rightarrow> (ret_ok, ''HTTP/1.1'', 8)
      | prot_app_http10 \<Rightarrow> (ret_ok, ''HTTP/1.0'', 8)
      | prot_app_http20 \<Rightarrow> (ret_ok, ''HTTP/2.0'', 8)
      | _ \<Rightarrow> (ret_error, ''HTTP/Unknown'', 12))"

subsection \<open>Methods\<close>

datatype http_method =
    http_unknown | http_all_methods |
    http_get | http_post | http_head | http_put | http_options | http_delete | http_trace | http_connect |
    http_copy | http_lock | http_mkcol | http_move | http_notify | http_poll | http_propfind |
    http_proppatch | http_search | http_subscribe | http_unlock | http_unsubscribe | http_report |
    http_patch | http_version_control | http_checkout | http_uncheckout | http_checkin | http_update |
    http_label | http_mkworkspace | http_mkactivity | http_baseline_control | http_merge | http_invalid |
    http_purge

text \<open>The values of the enumeration: one bit each, so that a set of methods is a mask.\<close>

fun method_code :: "http_method \<Rightarrow> nat" where
  "method_code http_unknown = 0"
| "method_code http_all_methods = 0x1FFFFFFFF"
| "method_code http_get = 2 ^ 0"
| "method_code http_post = 2 ^ 1"
| "method_code http_head = 2 ^ 2"
| "method_code http_put = 2 ^ 3"
| "method_code http_options = 2 ^ 4"
| "method_code http_delete = 2 ^ 5"
| "method_code http_trace = 2 ^ 6"
| "method_code http_connect = 2 ^ 7"
| "method_code http_copy = 2 ^ 8"
| "method_code http_lock = 2 ^ 9"
| "method_code http_mkcol = 2 ^ 10"
| "method_code http_move = 2 ^ 11"
| "method_code http_notify = 2 ^ 12"
| "method_code http_poll = 2 ^ 13"
| "method_code http_propfind = 2 ^ 14"
| "method_code http_proppatch = 2 ^ 15"
| "method_code http_search = 2 ^ 16"
| "method_code http_subscribe = 2 ^ 17"
| "method_code http_unlock = 2 ^ 18"
| "method_code http_unsubscribe = 2 ^ 19"
| "method_code http_report = 2 ^ 20"
| "method_code http_patch = 2 ^ 21"
| "method_code http_version_control = 2 ^ 22"
| "method_code http_checkout = 2 ^ 23"
| "method_code http_uncheckout = 2 ^ 24"
| "method_code http_checkin = 2 ^ 25"
| "method_code http_update = 2 ^ 26"
| "method_code http_label = 2 ^ 27"
| "method_code http_mkworkspace = 2 ^ 28"
| "method_code http_mkactivity = 2 ^ 29"
| "method_code http_baseline_control = 2 ^ 30"
| "method_code http_merge = 2 ^ 31"
| "method_code http_invalid = 2 ^ 32"
| "method_code http_purge = 2 ^ 33"

text \<open>One \<open>entry\<close> of the switch per line; a method without an entry is unknown.\<close>

definition method_entries :: "(http_method \<times> string) list" where
  "method_entries = [
     (http_get, ''GET''), (http_post, ''POST''), (http_head, ''HEAD''), (http_put, ''PUT''),
     (http_options, ''OPTIONS''), (http_delete, ''DELETE''), (http_trace, ''TRACE''),
     (http_connect, ''CONNECT''), (http_copy, ''COPY''), (http_lock, ''LOCK''), (http_mkcol, ''MKCOL''),
     (http_move, ''MOVE''), (http_notify, ''NOTIFY''), (http_poll, ''POLL''), (http_propfind, ''PROPFIND''),
     (http_proppatch, ''PROPPATCH''), (http_search, ''SEARCH''), (http_subscribe, ''SUBSCRIBE''),
     (http_unlock, ''UNLOCK''), (http_unsubscribe, ''UNSUBSCRIBE''), (http_report, ''REPORT''),
     (http_patch, ''PATCH''), (http_version_control, ''VERSION_CONTROL''), (http_checkout, ''CHECKOUT''),
     (http_uncheckout, ''UNCHECKOUT''), (http_checkin, ''CHECKIN''), (http_update, ''UPDATE''),
     (http_label, ''LABEL''), (http_mkworkspace, ''MKWORKSPACE''), (http_mkactivity, ''MKACTIVITY''),
     (http_baseline_control, ''BASELINE_CONTROL''), (http_merge, ''MERGE''), (http_invalid, ''INVALID'')]"

definition http2d_http_method_to_string :: "http_method \<Rightarrow> ret_t \<times> string \<times> nat" where
  "http2d_http_method_to_string m =
     (case map_of method_entries m of Some s \<Rightarrow> (ret_ok, s, length s) | None \<Rightarrow> (ret_error, ''UNKNOWN'', 7))"

text \<open>The chain of comparisons, in the order of the code.\<close>

definition method_tests :: "(string \<times> http_method) list" where
  "method_tests = [
     (''get'', http_get), (''post'', http_post), (''head'', http_head), (''put'', http_put),
     (''options'', http_options), (''delete'', http_delete), (''trace'', http_trace),
     (''connect'', http_connect), (''copy'', http_copy), (''lock'', http_lock), (''mkcol'', http_mkcol),
     (''move'', http_move), (''notify'', http_notify), (''poll'', http_poll), (''propfind'', http_propfind),
     (''proppatch'', http_proppatch), (''search'', http_search), (''subscribe'', http_subscribe),
     (''unlock'', http_unlock), (''unsubscribe'', http_unsubscribe), (''report'', http_report),
     (''patch'', http_patch), (''version_control'', http_version_control), (''checkout'', http_checkout),
     (''uncheckout'', http_uncheckout), (''checkin'', http_checkin), (''update'', http_update),
     (''label'', http_label), (''mkworkspace'', http_mkworkspace), (''mkactivity'', http_mkactivity),
     (''baseline_control'', http_baseline_control), (''merge'', http_merge), (''invalid'', http_invalid),
     (''purge'', http_purge)]"

fun method_chain :: "buffer \<Rightarrow> (string \<times> http_method) list \<Rightarrow> (ret_t \<times> http_method) option" where
  "method_chain b [] = Some (ret_not_found, http_unknown)"
| "method_chain b ((s, m) # ts) = do {
     r \<leftarrow> http2d_buffer_case_cmp b (lit s @ [0]) (length s);
     if r = 0 then Some (ret_ok, m) else method_chain b ts }"

definition http2d_http_string_to_method :: "buffer \<Rightarrow> (ret_t \<times> http_method) option" where
  "http2d_http_string_to_method b = method_chain b method_tests"

definition http_method_with_body :: "http_method \<Rightarrow> bool" where
  "http_method_with_body m \<longleftrightarrow> m \<noteq> http_head"

definition http_method_with_input :: "http_method \<Rightarrow> bool" where
  "http_method_with_input m \<longleftrightarrow>
     m \<in> {http_post, http_put, http_mkcol, http_merge, http_search, http_report, http_checkout,
          http_propfind, http_proppatch, http_mkactivity}"

definition http_method_with_optional_input :: "http_method \<Rightarrow> bool" where
  "http_method_with_optional_input m \<longleftrightarrow> m = http_options"

subsection \<open>Response codes\<close>

datatype http_t =
    http_unset | http_continue | http_switching_protocols | http_processing | http_ok | http_created |
    http_accepted | http_non_authoritative_info | http_no_content | http_reset_content |
    http_partial_content | http_multi_status | http_im_used | http_multiple_choices |
    http_moved_permanently | http_moved_temporarily | http_see_other | http_not_modified | http_use_proxy |
    http_temporary_redirect | http_bad_request | http_unauthorized | http_payment_required |
    http_access_denied | http_not_found | http_method_not_allowed | http_not_acceptable |
    http_proxy_auth_required | http_request_timeout | http_conflict | http_gone | http_length_required |
    http_precondition_failed | http_request_entity_too_large | http_request_uri_too_long |
    http_unsupported_media_type | http_range_not_satisfiable | http_expectation_failed |
    http_unprocessable_entity | http_locked | http_failed_dependency | http_unordered_collection |
    http_upgrade_required | http_retry_with | http_internal_error | http_not_implemented | http_bad_gateway |
    http_service_unavailable | http_gateway_timeout | http_version_not_supported |
    http_variant_also_negotiates | http_insufficient_storage | http_bandwidth_limit_exceeded |
    http_not_extended

fun http_code :: "http_t \<Rightarrow> nat" where
  "http_code http_unset = 0"
| "http_code http_continue = 100"
| "http_code http_switching_protocols = 101"
| "http_code http_processing = 102"
| "http_code http_ok = 200"
| "http_code http_created = 201"
| "http_code http_accepted = 202"
| "http_code http_non_authoritative_info = 203"
| "http_code http_no_content = 204"
| "http_code http_reset_content = 205"
| "http_code http_partial_content = 206"
| "http_code http_multi_status = 207"
| "http_code http_im_used = 226"
| "http_code http_multiple_choices = 300"
| "http_code http_moved_permanently = 301"
| "http_code http_moved_temporarily = 302"
| "http_code http_see_other = 303"
| "http_code http_not_modified = 304"
| "http_code http_use_proxy = 305"
| "http_code http_temporary_redirect = 307"
| "http_code http_bad_request = 400"
| "http_code http_unauthorized = 401"
| "http_code http_payment_required = 402"
| "http_code http_access_denied = 403"
| "http_code http_not_found = 404"
| "http_code http_method_not_allowed = 405"
| "http_code http_not_acceptable = 406"
| "http_code http_proxy_auth_required = 407"
| "http_code http_request_timeout = 408"
| "http_code http_conflict = 409"
| "http_code http_gone = 410"
| "http_code http_length_required = 411"
| "http_code http_precondition_failed = 412"
| "http_code http_request_entity_too_large = 413"
| "http_code http_request_uri_too_long = 414"
| "http_code http_unsupported_media_type = 415"
| "http_code http_range_not_satisfiable = 416"
| "http_code http_expectation_failed = 417"
| "http_code http_unprocessable_entity = 422"
| "http_code http_locked = 423"
| "http_code http_failed_dependency = 424"
| "http_code http_unordered_collection = 425"
| "http_code http_upgrade_required = 426"
| "http_code http_retry_with = 449"
| "http_code http_internal_error = 500"
| "http_code http_not_implemented = 501"
| "http_code http_bad_gateway = 502"
| "http_code http_service_unavailable = 503"
| "http_code http_gateway_timeout = 504"
| "http_code http_version_not_supported = 505"
| "http_code http_variant_also_negotiates = 506"
| "http_code http_insufficient_storage = 507"
| "http_code http_bandwidth_limit_exceeded = 509"
| "http_code http_not_extended = 510"

text \<open>The string of each code.\<close>

fun http_string :: "http_t \<Rightarrow> string" where
  "http_string http_unset = []"
| "http_string http_continue = ''100 Continue''"
| "http_string http_switching_protocols = ''101 Switching Protocols''"
| "http_string http_processing = ''102 Processing''"
| "http_string http_ok = ''200 OK''"
| "http_string http_created = ''201 Created''"
| "http_string http_accepted = ''202 Accepted''"
| "http_string http_non_authoritative_info = ''203 Non-Authoritative Information''"
| "http_string http_no_content = ''204 No Content''"
| "http_string http_reset_content = ''205 Reset Content''"
| "http_string http_partial_content = ''206 Partial Content''"
| "http_string http_multi_status = ''207 Multi-Status''"
| "http_string http_im_used = ''226 IM Used''"
| "http_string http_multiple_choices = ''300 Multiple Choices''"
| "http_string http_moved_permanently = ''301 Moved Permanently''"
| "http_string http_moved_temporarily = ''302 Moved Temporarily''"
| "http_string http_see_other = ''303 See Other''"
| "http_string http_not_modified = ''304 Not Modified''"
| "http_string http_use_proxy = ''305 Use Proxy''"
| "http_string http_temporary_redirect = ''307 Temporary Redirect''"
| "http_string http_bad_request = ''400 Bad Request''"
| "http_string http_unauthorized = ''401 Authorization Required''"
| "http_string http_payment_required = ''402 Payment Required''"
| "http_string http_access_denied = ''403 Forbidden''"
| "http_string http_not_found = ''404 Not Found''"
| "http_string http_method_not_allowed = ''405 Method Not Allowed''"
| "http_string http_not_acceptable = ''406 Not Acceptable''"
| "http_string http_proxy_auth_required = ''407 Proxy Authentication Required''"
| "http_string http_request_timeout = ''408 Request Time-out''"
| "http_string http_conflict = ''409 Conflict''"
| "http_string http_gone = ''410 Gone''"
| "http_string http_length_required = ''411 Length Required''"
| "http_string http_precondition_failed = ''412 Precondition Failed''"
| "http_string http_request_entity_too_large = ''413 Request Entity too large''"
| "http_string http_request_uri_too_long = ''414 Request-URI too long''"
| "http_string http_unsupported_media_type = ''415 Unsupported Media Type''"
| "http_string http_range_not_satisfiable = ''416 Requested range not satisfiable''"
| "http_string http_expectation_failed = ''417 Expectation Failed''"
| "http_string http_unprocessable_entity = ''422 Unprocessable Entity''"
| "http_string http_locked = ''423 Locked''"
| "http_string http_failed_dependency = ''424 Failed Dependency''"
| "http_string http_unordered_collection = ''425 Unordered Collection''"
| "http_string http_upgrade_required = ''426 Upgrade Required''"
| "http_string http_retry_with = ''449 Retry With''"
| "http_string http_internal_error = ''500 Internal Server Error''"
| "http_string http_not_implemented = ''501 Not Implemented''"
| "http_string http_bad_gateway = ''502 Bad gateway''"
| "http_string http_service_unavailable = ''503 Service Unavailable''"
| "http_string http_gateway_timeout = ''504 Gateway Timeout''"
| "http_string http_version_not_supported = ''505 HTTP Version Not Supported''"
| "http_string http_variant_also_negotiates = ''506 Variant Also Negotiates''"
| "http_string http_insufficient_storage = ''507 Insufficient Storage''"
| "http_string http_bandwidth_limit_exceeded = ''509 Bandwidth Limit Exceeded''"
| "http_string http_not_extended = ''510 Not Extended''"

text \<open>The cases of the two switches: the default of both takes the rest.\<close>

definition to_string_cases :: "http_t list" where
  "to_string_cases = [
     http_ok, http_created, http_accepted, http_non_authoritative_info, http_no_content, http_reset_content,
     http_partial_content, http_multi_status, http_im_used, http_moved_permanently, http_moved_temporarily,
     http_see_other, http_not_modified, http_temporary_redirect, http_multiple_choices, http_use_proxy,
     http_bad_request, http_unauthorized, http_access_denied, http_not_found, http_method_not_allowed,
     http_not_acceptable, http_request_timeout, http_gone, http_length_required,
     http_request_entity_too_large, http_unsupported_media_type, http_request_uri_too_long,
     http_range_not_satisfiable, http_upgrade_required, http_payment_required, http_proxy_auth_required,
     http_conflict, http_precondition_failed, http_expectation_failed, http_unprocessable_entity,
     http_locked, http_failed_dependency, http_unordered_collection, http_retry_with, http_internal_error,
     http_not_implemented, http_bad_gateway, http_service_unavailable, http_gateway_timeout,
     http_version_not_supported, http_variant_also_negotiates, http_insufficient_storage,
     http_bandwidth_limit_exceeded, http_not_extended, http_continue, http_processing]"

definition copy_cases :: "http_t list" where
  "copy_cases = [
     http_ok, http_created, http_accepted, http_non_authoritative_info, http_no_content, http_reset_content,
     http_partial_content, http_multi_status, http_im_used, http_moved_permanently, http_moved_temporarily,
     http_see_other, http_not_modified, http_temporary_redirect, http_multiple_choices, http_use_proxy,
     http_bad_request, http_unauthorized, http_access_denied, http_not_found, http_method_not_allowed,
     http_not_acceptable, http_request_timeout, http_length_required, http_gone,
     http_request_entity_too_large, http_request_uri_too_long, http_unsupported_media_type,
     http_range_not_satisfiable, http_upgrade_required, http_payment_required, http_proxy_auth_required,
     http_conflict, http_precondition_failed, http_expectation_failed, http_unprocessable_entity,
     http_locked, http_failed_dependency, http_unordered_collection, http_retry_with, http_internal_error,
     http_not_implemented, http_bad_gateway, http_service_unavailable, http_gateway_timeout,
     http_version_not_supported, http_insufficient_storage, http_bandwidth_limit_exceeded, http_not_extended,
     http_variant_also_negotiates, http_continue, http_processing]"

text \<open>The default branch stores no length.\<close>

definition http2d_http_code_to_string :: "http_t \<Rightarrow> ret_t \<times> string \<times> nat option" where
  "http2d_http_code_to_string c =
     (if c \<in> set to_string_cases then (ret_ok, http_string c, Some (length (http_string c)))
      else (ret_error, ''500 Unknown error'', None))"

definition http2d_http_code_copy :: "heap \<Rightarrow> http_t \<Rightarrow> buffer \<Rightarrow> (ret_t \<times> buffer) option" where
  "http2d_http_code_copy h c b =
     (if c \<in> set copy_cases then http2d_buffer_add_str h b (http_string c)
      else do { (_, b) \<leftarrow> http2d_buffer_add_str h b (http_string http_internal_error); Some (ret_error, b) })"

definition http_type_100 :: "nat \<Rightarrow> bool" where "http_type_100 c \<longleftrightarrow> 100 \<le> c \<and> c \<le> 102"
definition http_type_200 :: "nat \<Rightarrow> bool" where "http_type_200 c \<longleftrightarrow> 200 \<le> c \<and> c \<le> 207"
definition http_type_300 :: "nat \<Rightarrow> bool" where "http_type_300 c \<longleftrightarrow> 300 \<le> c \<and> c \<le> 307"
definition http_type_400 :: "nat \<Rightarrow> bool" where "http_type_400 c \<longleftrightarrow> 400 \<le> c \<and> c \<le> 449"
definition http_type_500 :: "nat \<Rightarrow> bool" where "http_type_500 c \<longleftrightarrow> 500 \<le> c \<and> c \<le> 510"

definition http_code_with_body :: "http_t \<Rightarrow> bool" where
  "http_code_with_body c \<longleftrightarrow>
     \<not> http_type_100 (http_code c) \<and> c \<noteq> http_no_content \<and> c \<noteq> http_not_modified"

subsection \<open>Correctness of the tables\<close>

text \<open>The tests of the chain are lower-case and pairwise different, so at most one applies.\<close>

lemma method_chain_eq:
  assumes "buf_rep b t" "0 \<notin> set t" "\<forall>(s, m) \<in> set ts. length s < 2 ^ 31 - 1"
  shows "method_chain b ts = Some (case find (\<lambda>(s, m). map tolower t = map tolower (lit s)) ts of
    Some (s, m) \<Rightarrow> (ret_ok, m) | None \<Rightarrow> (ret_not_found, http_unknown))"
  using assms(3)
proof (induction ts)
  case (Cons p ts)
  obtain s m where p: "p = (s, m)" by fastforce
  have "buf_rep (http2d_buffer_fake (Some (lit s @ [0])) (length s)) (lit s)"
    using http2d_buffer_fake_str_rep [of s] Cons.prems by (simp add: p http2d_buffer_fake_str_def)
  from cmp_by_zero [OF assms(1) this assms(2), of tolower]
  obtain r where "http2d_buffer_case_cmp b (lit s @ [0]) (length s) = Some r"
    "r = 0 \<longleftrightarrow> map tolower t = map tolower (lit s)"
    unfolding http2d_buffer_case_cmp_def http2d_buffer_case_cmp_buf_def by blast
  with Cons show ?case by (simp add: p)
qed simp

definition lower :: "string \<Rightarrow> nat list" where
  "lower s = map (\<lambda>c. let n = of_char c in if 65 \<le> n \<and> n \<le> 90 then n + 32 else n) s"

lemma tolower_chr: "tolower (chr c) = word_of_nat (let n = of_char c in if 65 \<le> n \<and> n \<le> 90 then n + 32 else n)"
proof -
  have n: "of_char c < (256 :: nat)" by simp
  then have "(chr CHR ''A'' \<le> chr c) = (65 \<le> (of_char c :: nat))" "(chr c \<le> chr CHR ''Z'') = ((of_char c :: nat) \<le> 90)"
    unfolding chr_def by (simp_all add: word_le_nat_alt unat_of_nat)
  then show ?thesis by (simp add: tolower_def chr_def Let_def)
qed

lemma map_tolower_lit: "map tolower (lit s) = map word_of_nat (lower s)"
  by (simp add: lit_def lower_def tolower_chr)

lemma lower_bound: "set (lower s) \<subseteq> {..<256}"
proof -
  have "(of_char c :: nat) < 256" for c by simp
  then show ?thesis unfolding lower_def Let_def by (fastforce split: if_splits)
qed

lemma map_tolower_lit_eq: "map tolower (lit s) = map tolower (lit t) \<longleftrightarrow> lower s = lower t"
proof -
  have "inj_on (word_of_nat :: nat \<Rightarrow> byte) {..<256}"
    by (intro inj_onI) (auto simp: word_of_nat_eq_iff take_bit_eq_mod)
  then have "inj_on (word_of_nat :: nat \<Rightarrow> byte) (set (lower s) \<union> set (lower t))"
    by (rule inj_on_subset) (use lower_bound in auto)
  then show ?thesis by (simp add: map_tolower_lit inj_on_map_eq_map)
qed


text \<open>The chain tests the names of the switch, in lower case and in its order, and one more.\<close>

lemma tables_agree:
  "map (\<lambda>(s, m). (lower s, m)) method_tests = map (\<lambda>(m, s). (lower s, m)) (method_entries @ [(http_purge, ''PURGE'')])"
  by code_simp

lemma tables_distinct:
  "distinct (map (\<lambda>(s, m). lower s) method_tests)" "distinct (map fst (method_entries @ [(http_purge, ''PURGE'')]))"
  by code_simp+

lemma tests_short: "\<forall>(s, m) \<in> set method_tests. length s < 2 ^ 31 - 1"
  by (simp add: method_tests_def)

lemma find_map_of:
  "find (\<lambda>(s, m). k = f s) ts = None \<longleftrightarrow> map_of (map (\<lambda>(s, m). (f s, m)) ts) k = None"
  "map_option snd (find (\<lambda>(s, m). k = f s) ts) = map_of (map (\<lambda>(s, m). (f s, m)) ts) k"
  by (induction ts) auto

lemma string_to_method_iff:
  assumes "buf_rep b t" "0 \<notin> set t"
  shows "http2d_http_string_to_method b = Some (ret_ok, m) \<longleftrightarrow>
    (\<exists>s. (m, s) \<in> set (method_entries @ [(http_purge, ''PURGE'')]) \<and> map tolower t = map tolower (lit s))"
proof -
  let ?k = "\<lambda>s. map tolower (lit s)" and ?e = "method_entries @ [(http_purge, ''PURGE'')]"
  have e: "map (\<lambda>(s, m). (?k s, m)) method_tests = map (\<lambda>(m, s). (?k s, m)) ?e"
    using arg_cong [OF tables_agree, of "map (\<lambda>(l, m). (map word_of_nat l, m))"]
    by (simp add: map_tolower_lit case_prod_unfold comp_def)
  have i: "inj_on (\<lambda>(s, m). lower s) (set method_tests)" "distinct method_tests"
    using tables_distinct(1) by (auto simp: distinct_map)
  have "inj_on (\<lambda>(s, m). ?k s) (set method_tests)"
    using i(1) unfolding inj_on_def case_prod_unfold map_tolower_lit_eq by blast
  then have d: "distinct (map fst (map (\<lambda>(s, m). (?k s, m)) method_tests))"
    using i(2) by (simp add: distinct_map comp_inj_on_iff comp_def case_prod_unfold)
  have "http2d_http_string_to_method b = Some (ret_ok, m) \<longleftrightarrow>
      map_of (map (\<lambda>(s, m). (?k s, m)) method_tests) (map tolower t) = Some m"
    unfolding http2d_http_string_to_method_def method_chain_eq [OF assms tests_short]
    using find_map_of(2) [of "map tolower t" ?k method_tests]
    by (auto split: option.splits)
  also have "\<dots> \<longleftrightarrow> (\<exists>s. (m, s) \<in> set ?e \<and> map tolower t = ?k s)"
    unfolding map_of_eq_Some_iff [OF d] unfolding e by (auto simp: image_iff)
  finally show ?thesis .
qed

text \<open>For a buffer that holds a text without zero bytes, \<open>http2d_http_string_to_method\<close> succeeds with a method
  exactly when the text is, up to the case of its letters, the name that \<open>http2d_http_method_to_string\<close> gives for
  that method; the one exception is PURGE, which is recognised but has no name. So the two functions are
  inverse to each other, and no method has two names.\<close>

theorem http2d_http_method_roundtrip:
  assumes "buf_rep b t" "0 \<notin> set t"
  shows "http2d_http_string_to_method b = Some (ret_ok, m) \<longleftrightarrow>
    (\<exists>s. http2d_http_method_to_string m = (ret_ok, s, length s) \<and> map tolower t = map tolower (lit s)) \<or>
    m = http_purge \<and> http2d_http_method_to_string m = (ret_error, ''UNKNOWN'', 7) \<and>
      map tolower t = map tolower (lit ''PURGE'')"
proof -
  have e: "(m, s) \<in> set method_entries \<longleftrightarrow> http2d_http_method_to_string m = (ret_ok, s, length s)" for s
    using map_of_eq_Some_iff [of method_entries m] tables_distinct(2)
    by (fastforce simp: http2d_http_method_to_string_def split: option.splits)
  have p: "http2d_http_method_to_string http_purge = (ret_error, ''UNKNOWN'', 7)" by code_simp
  show ?thesis unfolding string_to_method_iff [OF assms] using e p by auto
qed

theorem http2d_http_method_roundtrip_witness:
  "http2d_http_string_to_method (http2d_buffer_fake_str ''PropFind'') = Some (ret_ok, http_propfind)"
proof -
  have "http2d_http_method_to_string http_propfind = (ret_ok, ''PROPFIND'', length ''PROPFIND'')" by code_simp
  moreover have "map tolower (lit ''PropFind'') = map tolower (lit ''PROPFIND'')"
    unfolding map_tolower_lit_eq by code_simp
  moreover have "0 \<notin> set (lit ''PropFind'')" by code_simp
  ultimately show ?thesis
    using http2d_http_method_roundtrip [OF http2d_buffer_fake_str_rep, of "''PropFind''" http_propfind] by fastforce
qed

subsection \<open>Response lines\<close>

definition all_codes :: "http_t list" where
  "all_codes = http_unset # http_switching_protocols # to_string_cases"

lemma all_codes_complete: "c \<in> set all_codes"
  by (cases c; simp add: all_codes_def to_string_cases_def)

lemma copy_cases_same: "c \<in> set copy_cases \<longleftrightarrow> c \<in> set to_string_cases"
  by (cases c; simp add: copy_cases_def to_string_cases_def)

text \<open>Every line starts with its number.\<close>

lemma code_lines: "\<forall>c \<in> set to_string_cases. take 4 (lit (http_string c)) = show_dec (http_code c) @ [32]"
  by code_simp

lemma http_string_short: "length (http_string c) \<le> 40"
  by (cases c) simp_all


lemma add_str_grows:
  assumes "buf_rep b s" "length s + length t + 17 < 2 ^ 31"
  shows "grows_to h (length s + length t + 17) b (s @ lit t) (http2d_buffer_add_str h b t)"
  using http2d_buffer_add_rep [OF assms(1), of "length t" "lit t @ [0]" h] assms(2)
  by (simp add: http2d_buffer_add_str_def)

text \<open>\<open>http2d_http_code_to_string\<close> and \<open>http2d_http_code_copy\<close> agree: for every response code but
  \<open>http_unset\<close> and \<open>http_switching_protocols\<close> the former returns a text that starts with the decimal number
  of the code and a space, together with its length, and the latter appends that very text to the buffer; for
  those two codes both report an error, and the latter appends the line of code 500. If the allocator refuses,
  the buffer is unchanged and the call does not return \<open>ret_ok\<close>.\<close>

theorem http2d_http_code_copy_correct:
  assumes "buf_rep b s" "length s + 57 < 2 ^ 31"
  shows "\<exists>t ret b' r.
    (if c = http_unset \<or> c = http_switching_protocols
     then r = ret_error \<and> http2d_http_code_to_string c = (r, ''500 Unknown error'', None) \<and> t = ''500 Internal Server Error''
     else r = ret_ok \<and> http2d_http_code_to_string c = (r, t, Some (length t)) \<and>
       take 4 (lit t) = show_dec (http_code c) @ [32]) \<and>
    http2d_http_code_copy h c b = Some (ret, b') \<and>
    (ret = r \<and> buf_rep b' (s @ lit t) \<or> ret \<noteq> ret_ok \<and> b' = b \<and> \<not> malloc_ok h (length s + length t + 17))"
proof -
  let ?bad = "c = http_unset \<or> c = http_switching_protocols"
  define t where "t = (if ?bad then ''500 Internal Server Error'' else http_string c)"
  have bad: "?bad \<longleftrightarrow> c \<notin> set to_string_cases"
    using all_codes_complete [of c] by (auto simp: all_codes_def to_string_cases_def)
  have "length s + length t + 17 < 2 ^ 31" using assms(2) http_string_short [of c] by (auto simp: t_def)
  from add_str_grows [OF assms(1) this, of h]
  obtain ret b' where add: "http2d_buffer_add_str h b t = Some (ret, b')"
    and res: "ret = ret_ok \<and> buf_rep b' (s @ lit t) \<or> ret = ret_nomem \<and> b' = b \<and> \<not> malloc_ok h (length s + length t + 17)"
    unfolding grows_to_def by blast
  show ?thesis
  proof (cases ?bad)
    case True
    then have "http2d_http_code_to_string c = (ret_error, ''500 Unknown error'', None)"
      "http2d_http_code_copy h c b = Some (ret_error, b')" "t = ''500 Internal Server Error''"
      using bad add by (auto simp: http2d_http_code_to_string_def http2d_http_code_copy_def copy_cases_same t_def)
    with True res show ?thesis by (intro exI [of _ t] exI [of _ ret_error] exI [of _ b']) auto
  next
    case False
    then have "http2d_http_code_to_string c = (ret_ok, t, Some (length t))" "http2d_http_code_copy h c b = Some (ret, b')"
      "take 4 (lit t) = show_dec (http_code c) @ [32]"
      using bad add code_lines by (auto simp: http2d_http_code_to_string_def http2d_http_code_copy_def copy_cases_same t_def)
    with False res show ?thesis by (intro exI [of _ t] exI [of _ ret] exI [of _ b'] exI [of _ ret_ok]) auto
  qed
qed

theorem http2d_http_code_copy_correct_witness:
  "\<exists>b'. http2d_http_code_copy (total_heap (\<lambda>_. 0)) http_not_found HTTP2D_BUF_INIT = Some (ret_ok, b') \<and>
    buf_rep b' (lit ''404 Not Found'')"
proof -
  have t: "http2d_http_code_to_string http_not_found = (ret_ok, ''404 Not Found'', Some 13)"
    by (simp add: http2d_http_code_to_string_def to_string_cases_def)
  show ?thesis
    using http2d_http_code_copy_correct [OF buf_rep_INIT, of http_not_found "total_heap (\<lambda>_. 0)"] unfolding t by auto
qed

end
