(* ===== verification/Header.thy ===== *)
theory Header
  imports Http
begin

text \<open>
  The header of a request, \<^verbatim>\<open>src/src/header.c\<close> and \<^verbatim>\<open>src/src/header.h\<close>: the five fields a SPDY request names with
  a leading colon, each in a buffer of its own. The diagnostic output of \<open>http2d_header_add_header\<close> is left out.
\<close>

record header =
  hdr_method :: buffer
  hdr_path :: buffer
  hdr_version :: buffer
  hdr_host :: buffer
  hdr_scheme :: buffer

definition http2d_header_init :: "header \<Rightarrow> ret_t \<times> header" where
  "http2d_header_init hdr =
     (ret_ok, \<lparr>hdr_method = snd (http2d_buffer_init (hdr_method hdr)), hdr_path = snd (http2d_buffer_init (hdr_path hdr)),
       hdr_version = snd (http2d_buffer_init (hdr_version hdr)), hdr_host = snd (http2d_buffer_init (hdr_host hdr)),
       hdr_scheme = snd (http2d_buffer_init (hdr_scheme hdr))\<rparr>)"

definition http2d_header_mrproper :: "header \<Rightarrow> ret_t \<times> header" where
  "http2d_header_mrproper hdr =
     (ret_ok, \<lparr>hdr_method = snd (http2d_buffer_mrproper (hdr_method hdr)), hdr_path = snd (http2d_buffer_mrproper (hdr_path hdr)),
       hdr_version = snd (http2d_buffer_mrproper (hdr_version hdr)), hdr_host = snd (http2d_buffer_mrproper (hdr_host hdr)),
       hdr_scheme = snd (http2d_buffer_mrproper (hdr_scheme hdr))\<rparr>)"

definition http2d_header_clean :: "header \<Rightarrow> (ret_t \<times> header) option" where
  "http2d_header_clean hdr = do {
     m \<leftarrow> http2d_buffer_clean (hdr_method hdr);
     p \<leftarrow> http2d_buffer_clean (hdr_path hdr);
     v \<leftarrow> http2d_buffer_clean (hdr_version hdr);
     h \<leftarrow> http2d_buffer_clean (hdr_host hdr);
     s \<leftarrow> http2d_buffer_clean (hdr_scheme hdr);
     Some (ret_ok, \<lparr>hdr_method = m, hdr_path = p, hdr_version = v, hdr_host = h, hdr_scheme = s\<rparr>) }"

text \<open>\<open>key_len - 1\<close> is an \<open>int\<close>, converted to \<open>size_t\<close> for the comparison with the size of the literal: a
  negative one is different from it.\<close>

definition SPDY_CMP :: "block \<Rightarrow> int \<Rightarrow> string \<Rightarrow> bool option" where
  "SPDY_CMP key key_len s = do {
     n \<leftarrow> int32 (key_len - 1);
     if n = int (length s)
     then do { r \<leftarrow> strncmp_by tolower (drop 1 key) (lit s @ [0]) (nat n); Some (r = 0) }
     else Some False }"

text \<open>The two calls of each branch; the result of the second is not looked at.\<close>

definition set_field :: "heap \<Rightarrow> buffer \<Rightarrow> block \<Rightarrow> int \<Rightarrow> buffer option" where
  "set_field h b val val_len = do {
     b \<leftarrow> http2d_buffer_clean b;
     (_, b) \<leftarrow> http2d_buffer_add h b (Ext val) (nat (val_len mod 2 ^ 64));
     Some b }"

definition http2d_header_add_header ::
  "heap \<Rightarrow> header \<Rightarrow> block \<Rightarrow> int \<Rightarrow> block \<Rightarrow> int \<Rightarrow> (ret_t \<times> header) option" where
  "http2d_header_add_header h hdr key key_len val val_len = do {
     c \<leftarrow> blk_get key 0;
     if c \<noteq> chr CHR '':'' then Some (ret_ok, hdr)
     else do {
       is_path \<leftarrow> SPDY_CMP key key_len ''path'';
       if is_path then do { b \<leftarrow> set_field h (hdr_path hdr) val val_len; Some (ret_ok, hdr\<lparr>hdr_path := b\<rparr>) }
       else do {
       is_method \<leftarrow> SPDY_CMP key key_len ''method'';
       if is_method then do { b \<leftarrow> set_field h (hdr_method hdr) val val_len; Some (ret_ok, hdr\<lparr>hdr_method := b\<rparr>) }
       else do {
       is_scheme \<leftarrow> SPDY_CMP key key_len ''scheme'';
       if is_scheme then do { b \<leftarrow> set_field h (hdr_scheme hdr) val val_len; Some (ret_ok, hdr\<lparr>hdr_scheme := b\<rparr>) }
       else do {
       is_version \<leftarrow> SPDY_CMP key key_len ''version'';
       if is_version then do { b \<leftarrow> set_field h (hdr_version hdr) val val_len; Some (ret_ok, hdr\<lparr>hdr_version := b\<rparr>) }
       else do {
       is_host \<leftarrow> SPDY_CMP key key_len ''host'';
       if is_host then do { b \<leftarrow> set_field h (hdr_host hdr) val val_len; Some (ret_ok, hdr\<lparr>hdr_host := b\<rparr>) }
       else Some (ret_ok, hdr) }}}}}}"

subsection \<open>Abstraction\<close>

text \<open>What a header says: the text of each field by the name of the field.\<close>

definition hdr_texts :: "header \<Rightarrow> (string \<times> byte list) list" where
  "hdr_texts hdr = [(''path'', buf_str (hdr_path hdr)), (''method'', buf_str (hdr_method hdr)),
     (''scheme'', buf_str (hdr_scheme hdr)), (''version'', buf_str (hdr_version hdr)), (''host'', buf_str (hdr_host hdr))]"

definition buf_wf :: "buffer \<Rightarrow> bool" where
  "buf_wf b \<longleftrightarrow> buffer_ok b \<and> buffer_term b"

definition hdr_ok :: "header \<Rightarrow> bool" where
  "hdr_ok hdr \<longleftrightarrow> buf_wf (hdr_method hdr) \<and> buf_wf (hdr_path hdr) \<and> buf_wf (hdr_version hdr) \<and>
     buf_wf (hdr_host hdr) \<and> buf_wf (hdr_scheme hdr)"

text \<open>A key names a field: a colon and the name in any letter case.\<close>

definition key_names :: "byte list \<Rightarrow> string \<Rightarrow> bool" where
  "key_names k s \<longleftrightarrow> k \<noteq> [] \<and> hd k = chr CHR '':'' \<and> map tolower (tl k) = lit s"

lemma buf_wf_rep: "buf_wf b \<longleftrightarrow> buf_rep b (buf_str b)" "buf_rep b s \<Longrightarrow> buf_wf b \<and> buf_str b = s"
  by (auto simp: buf_wf_def buf_rep_def)

subsection \<open>Comparing keys\<close>

lemma tolower_zero: "tolower c = 0 \<longleftrightarrow> c = 0"
proof -
  have "c + 32 \<noteq> 0" if "c \<le> chr CHR ''Z''"
    using that by (auto simp: chr_def word_le_nat_alt unat_eq_0 [symmetric] unat_word_ariths)
  then show ?thesis by (auto simp: tolower_def chr_def)
qed

lemma strncmp_tolower:
  "n \<le> length xs \<Longrightarrow> n \<le> length ys \<Longrightarrow> 0 \<notin> set (take n ys) \<Longrightarrow>
   \<exists>r. strncmp_by tolower xs ys n = Some r \<and> (r = 0 \<longleftrightarrow> map tolower (take n xs) = map tolower (take n ys))"
proof (induction tolower xs ys n rule: strncmp_by.induct)
  case (2 x xs y ys n)
  show ?case
  proof (cases "x = 0")
    case True
    with 2(4) tolower_zero [of x] tolower_zero [of y] show ?thesis
      by (auto simp: not_less word_gt_0)
  next
    case False
    with 2 show ?thesis by (auto simp: not_less)
  qed
qed auto

lemma SPDY_CMP_names:
  assumes "0 < n" "n \<le> length key" "n < 2 ^ 31" "hd key = chr CHR '':''" "map tolower (lit s) = lit s" "0 \<notin> set (lit s)"
  shows "SPDY_CMP key (int n) s = Some (key_names (take n key) s)"
proof -
  have i: "int32 (int n - 1) = Some (int n - 1)" using assms(1,3) by (simp add: int32_def)
  obtain c k where k: "key = c # k" using assms(1,2) by (cases key) auto
  show ?thesis
  proof (cases "n = Suc (length s)")
    case True
    from strncmp_tolower [of "length s" k "lit s @ [0]"] assms(2,6)
    obtain r where "strncmp_by tolower k (lit s @ [0]) (length s) = Some r"
      "r = 0 \<longleftrightarrow> map tolower (take (length s) k) = lit s"
      by (auto simp: k True assms(5))
    with i True assms(4) show ?thesis by (simp add: SPDY_CMP_def key_names_def k)
  next
    case False
    then have "\<not> key_names (take n key) s"
      using assms(1,2) map_eq_imp_length_eq [of tolower "tl (take n key)" "\<lambda>x. x" "lit s"]
      by (auto simp: key_names_def)
    with i False assms(1) show ?thesis by (simp add: SPDY_CMP_def)
  qed
qed

text \<open>The pair of calls of a branch is the replacement of the store interface.\<close>

lemma set_field_rep:
  assumes "buf_wf b" "n \<le> length val" "n < 2 ^ 31 - 17"
  shows "\<exists>b'. set_field (total_heap f) b val (int n) = Some b' \<and> buf_rep b' (take n val)"
proof -
  have n: "nat (int n mod 2 ^ 64) = n" using assms(3) by simp
  have l: "length (take n val) = n" using assms(2) by simp
  then have ms: "memcpy_src sh m d (Ext val) n = Some (take n val)" "memcpy_src sh m d (Ext (take n val)) n = Some (take n val)"
    for sh m d using assms(2) by (simp_all add: memcpy_src_def blk_read_def)
  have e: "http2d_buffer_add (total_heap f) b1 (Ext val) n = add_bytes (total_heap f) b1 (take n val)" for b1
    unfolding add_bytes_def http2d_buffer_add_def l ms ..
  from bstore.replace_text [of b "buf_str b" "take n val" f] assms buf_wf_rep(1) [of b]
  show ?thesis by (auto simp: set_field_def n e)
qed


lemma field_names_plain:
  "list_all (\<lambda>s. map tolower (lit s) = lit s \<and> 0 \<notin> set (lit s)) [''path'', ''method'', ''scheme'', ''version'', ''host'']"
  by code_simp

lemma field_names_distinct:
  "lit ''path'' \<noteq> lit ''method''" "lit ''path'' \<noteq> lit ''scheme''" "lit ''path'' \<noteq> lit ''version''" "lit ''path'' \<noteq> lit ''host''"
  "lit ''method'' \<noteq> lit ''scheme''" "lit ''method'' \<noteq> lit ''version''" "lit ''method'' \<noteq> lit ''host''"
  "lit ''scheme'' \<noteq> lit ''version''" "lit ''scheme'' \<noteq> lit ''host''" "lit ''version'' \<noteq> lit ''host''"
  by code_simp+

lemma header_add_rep:
  assumes "hdr_ok hdr" "0 < n" "n \<le> length key" "n < 2 ^ 31" "l \<le> length val" "l < 2 ^ 31 - 17"
  shows "\<exists>hdr'. http2d_header_add_header (total_heap f) hdr key (int n) val (int l) = Some (ret_ok, hdr') \<and> hdr_ok hdr' \<and>
    hdr_texts hdr' = map (\<lambda>(s, t). (s, if key_names (take n key) s then take l val else t)) (hdr_texts hdr)"
proof (cases "hd key = chr CHR '':''")
  case False
  then have "\<not> key_names (take n key) s" for s using assms(2,3) by (auto simp: key_names_def)
  moreover have "blk_get key 0 = Some (hd key)" using assms(2,3) by (cases key) (auto simp: blk_get_def)
  ultimately show ?thesis using False assms(1) by (simp add: http2d_header_add_header_def hdr_texts_def)
next
  case True
  have g: "blk_get key 0 = Some (chr CHR '':'')" using assms(2,3) True by (cases key) (auto simp: blk_get_def)
  have low: "map tolower (lit s) = lit s" "0 \<notin> set (lit s)"
    if "s \<in> {''path'', ''method'', ''scheme'', ''version'', ''host''}" for s
    using that field_names_plain by (auto simp: list_all_iff)
  note cmp = SPDY_CMP_names [OF assms(2-4) True low]
  let ?names = "key_names (take n key)"
  have one: "\<not> (?names s \<and> ?names t)" if "lit s \<noteq> lit t" for s t using that by (auto simp: key_names_def)
  note d = field_names_distinct
  obtain p m s v t where
    b: "set_field (total_heap f) (hdr_path hdr) val (int l) = Some p \<and> buf_rep p (take l val)"
      "set_field (total_heap f) (hdr_method hdr) val (int l) = Some m \<and> buf_rep m (take l val)"
      "set_field (total_heap f) (hdr_scheme hdr) val (int l) = Some s \<and> buf_rep s (take l val)"
      "set_field (total_heap f) (hdr_version hdr) val (int l) = Some v \<and> buf_rep v (take l val)"
      "set_field (total_heap f) (hdr_host hdr) val (int l) = Some t \<and> buf_rep t (take l val)"
    using assms(1) set_field_rep [OF _ assms(5,6)] unfolding hdr_ok_def by metis
  note w = b [THEN conjunct1] b [THEN conjunct2, THEN buf_wf_rep(2)]
  consider "?names ''path''" | "?names ''method''" | "?names ''scheme''" | "?names ''version''" | "?names ''host''"
    | "\<forall>s \<in> {''path'', ''method'', ''scheme'', ''version'', ''host''}. \<not> ?names s" by auto
  then show ?thesis
    by cases (use one [OF d(1)] one [OF d(2)] one [OF d(3)] one [OF d(4)] one [OF d(5)] one [OF d(6)] one [OF d(7)]
        one [OF d(8)] one [OF d(9)] one [OF d(10)] assms(1) in
        \<open>simp_all add: http2d_header_add_header_def g cmp w hdr_texts_def hdr_ok_def\<close>)
qed


text \<open>\<open>http2d_header_add_header\<close> with a key of \<open>n\<close> bytes that starts with a colon and names one of the five
  fields, in any letter case, replaces the text of exactly that field by the value; any other key leaves
  the header as it is. The call always succeeds while memory lasts, whatever the two byte strings hold.\<close>

theorem http2d_header_add_header_correct:
  assumes "hdr_ok hdr" "0 < n" "n \<le> length key" "n < 2 ^ 31" "l \<le> length val" "l < 2 ^ 31 - 17"
  shows "\<exists>hdr'. http2d_header_add_header (total_heap f) hdr key (int n) val (int l) = Some (ret_ok, hdr') \<and> hdr_ok hdr' \<and>
    hdr_texts hdr' = map (\<lambda>(s, t). (s, if key_names (take n key) s then take l val else t)) (hdr_texts hdr)"
  by (rule header_add_rep [OF assms])

theorem http2d_header_add_header_correct_witness:
  "\<exists>hdr. http2d_header_add_header (total_heap (\<lambda>_. 0))
      \<lparr>hdr_method = HTTP2D_BUF_INIT, hdr_path = HTTP2D_BUF_INIT, hdr_version = HTTP2D_BUF_INIT, hdr_host = HTTP2D_BUF_INIT,
       hdr_scheme = HTTP2D_BUF_INIT\<rparr> (lit '':Host@@'') 5 (lit ''example'') 4 = Some (ret_ok, hdr) \<and>
    hdr_texts hdr = [(''path'', []), (''method'', []), (''scheme'', []), (''version'', []), (''host'', lit ''exam'')]"
proof -
  let ?hdr = "\<lparr>hdr_method = HTTP2D_BUF_INIT, hdr_path = HTTP2D_BUF_INIT, hdr_version = HTTP2D_BUF_INIT,
    hdr_host = HTTP2D_BUF_INIT, hdr_scheme = HTTP2D_BUF_INIT\<rparr>"
  have ok: "hdr_ok ?hdr" using buf_wf_rep(2) [OF buf_rep_INIT] by (simp add: hdr_ok_def)
  have n: "map (\<lambda>s. key_names (take 5 (lit '':Host@@'')) s) [''path'', ''method'', ''scheme'', ''version'', ''host''] =
      [False, False, False, False, True]" by code_simp
  have v: "take 4 (lit ''example'') = lit ''exam''" by (simp add: lit_def)
  show ?thesis
    using http2d_header_add_header_correct [OF ok, of 5 "lit '':Host@@''" 4 "lit ''example''" "\<lambda>_. 0"] n v
    by (auto simp: hdr_texts_def HTTP2D_BUF_INIT_def buf_str_def)
qed

end
