(* ===== verification/Spdy_Zlib.thy ===== *)
theory Spdy_Zlib
  imports Header
begin

text \<open>
  The compression of header blocks, \<^verbatim>\<open>src/src/spdy-zlib.c\<close>. The library zlib is not part of the repository: it is
  the parameter \<open>Z\<close> of every definition, a record of the functions the code calls on a stream of an
  arbitrary type. A call of \<open>inflate\<close> or \<open>deflate\<close> takes the bytes at \<open>next_in\<close> and the room \<open>avail_out\<close>, and
  returns the code, the stream, the number of bytes it has consumed and the bytes it has written to \<open>next_out\<close>.
  What the properties need of zlib is stated in \<open>deflate_contract\<close> and \<open>inflate_contract\<close>.
\<close>

subsection \<open>The library\<close>

datatype z_ret = Z_OK | Z_STREAM_END | Z_NEED_DICT | Z_ERRNO | Z_STREAM_ERROR | Z_DATA_ERROR | Z_MEM_ERROR
  | Z_BUF_ERROR | Z_VERSION_ERROR

record 'z zlib =
  inflateInit :: "'z \<Rightarrow> z_ret \<times> 'z"
  inflate :: "'z \<Rightarrow> byte list \<Rightarrow> nat \<Rightarrow> z_ret \<times> 'z \<times> nat \<times> byte list"
  inflateSetDictionary :: "'z \<Rightarrow> byte list \<Rightarrow> z_ret \<times> 'z"
  inflateEnd :: "'z \<Rightarrow> 'z"
  deflateInit2 :: "'z \<Rightarrow> nat \<Rightarrow> nat \<Rightarrow> nat \<Rightarrow> z_ret \<times> 'z"
  deflateSetDictionary :: "'z \<Rightarrow> byte list \<Rightarrow> z_ret \<times> 'z"
  deflate :: "'z \<Rightarrow> byte list \<Rightarrow> nat \<Rightarrow> z_ret \<times> 'z \<times> nat \<times> byte list"
  deflateEnd :: "'z \<Rightarrow> z_ret \<times> 'z"

subsection \<open>Constants\<close>

definition SPDY_ZLIB_CHUNK :: nat where "SPDY_ZLIB_CHUNK = 16384"
definition COMPRESSION_LEVEL :: nat where "COMPRESSION_LEVEL = 3"
definition WINDOW_BITS :: nat where "WINDOW_BITS = 11"
definition MEM_LEVEL :: nat where "MEM_LEVEL = 1"

definition SPDY_dictionary_txt :: "byte list" where
  "SPDY_dictionary_txt = map word_of_nat [
     0, 0, 0, 7, 111, 112, 116, 105, 111, 110, 115, 0, 0, 0, 4, 104, 101, 97, 100, 0, 0, 0, 4, 112,
     111, 115, 116, 0, 0, 0, 3, 112, 117, 116, 0, 0, 0, 6, 100, 101, 108, 101, 116, 101, 0, 0, 0, 5,
     116, 114, 97, 99, 101, 0, 0, 0, 6, 97, 99, 99, 101, 112, 116, 0, 0, 0, 14, 97, 99, 99, 101, 112,
     116, 45, 99, 104, 97, 114, 115, 101, 116, 0, 0, 0, 15, 97, 99, 99, 101, 112, 116, 45, 101, 110, 99, 111,
     100, 105, 110, 103, 0, 0, 0, 15, 97, 99, 99, 101, 112, 116, 45, 108, 97, 110, 103, 117, 97, 103, 101, 0,
     0, 0, 13, 97, 99, 99, 101, 112, 116, 45, 114, 97, 110, 103, 101, 115, 0, 0, 0, 3, 97, 103, 101, 0,
     0, 0, 5, 97, 108, 108, 111, 119, 0, 0, 0, 13, 97, 117, 116, 104, 111, 114, 105, 122, 97, 116, 105, 111,
     110, 0, 0, 0, 13, 99, 97, 99, 104, 101, 45, 99, 111, 110, 116, 114, 111, 108, 0, 0, 0, 10, 99, 111,
     110, 110, 101, 99, 116, 105, 111, 110, 0, 0, 0, 12, 99, 111, 110, 116, 101, 110, 116, 45, 98, 97, 115, 101,
     0, 0, 0, 16, 99, 111, 110, 116, 101, 110, 116, 45, 101, 110, 99, 111, 100, 105, 110, 103, 0, 0, 0, 16,
     99, 111, 110, 116, 101, 110, 116, 45, 108, 97, 110, 103, 117, 97, 103, 101, 0, 0, 0, 14, 99, 111, 110, 116,
     101, 110, 116, 45, 108, 101, 110, 103, 116, 104, 0, 0, 0, 16, 99, 111, 110, 116, 101, 110, 116, 45, 108, 111,
     99, 97, 116, 105, 111, 110, 0, 0, 0, 11, 99, 111, 110, 116, 101, 110, 116, 45, 109, 100, 53, 0, 0, 0,
     13, 99, 111, 110, 116, 101, 110, 116, 45, 114, 97, 110, 103, 101, 0, 0, 0, 12, 99, 111, 110, 116, 101, 110,
     116, 45, 116, 121, 112, 101, 0, 0, 0, 4, 100, 97, 116, 101, 0, 0, 0, 4, 101, 116, 97, 103, 0, 0,
     0, 6, 101, 120, 112, 101, 99, 116, 0, 0, 0, 7, 101, 120, 112, 105, 114, 101, 115, 0, 0, 0, 4, 102,
     114, 111, 109, 0, 0, 0, 4, 104, 111, 115, 116, 0, 0, 0, 8, 105, 102, 45, 109, 97, 116, 99, 104, 0,
     0, 0, 17, 105, 102, 45, 109, 111, 100, 105, 102, 105, 101, 100, 45, 115, 105, 110, 99, 101, 0, 0, 0, 13,
     105, 102, 45, 110, 111, 110, 101, 45, 109, 97, 116, 99, 104, 0, 0, 0, 8, 105, 102, 45, 114, 97, 110, 103,
     101, 0, 0, 0, 19, 105, 102, 45, 117, 110, 109, 111, 100, 105, 102, 105, 101, 100, 45, 115, 105, 110, 99, 101,
     0, 0, 0, 13, 108, 97, 115, 116, 45, 109, 111, 100, 105, 102, 105, 101, 100, 0, 0, 0, 8, 108, 111, 99,
     97, 116, 105, 111, 110, 0, 0, 0, 12, 109, 97, 120, 45, 102, 111, 114, 119, 97, 114, 100, 115, 0, 0, 0,
     6, 112, 114, 97, 103, 109, 97, 0, 0, 0, 18, 112, 114, 111, 120, 121, 45, 97, 117, 116, 104, 101, 110, 116,
     105, 99, 97, 116, 101, 0, 0, 0, 19, 112, 114, 111, 120, 121, 45, 97, 117, 116, 104, 111, 114, 105, 122, 97,
     116, 105, 111, 110, 0, 0, 0, 5, 114, 97, 110, 103, 101, 0, 0, 0, 7, 114, 101, 102, 101, 114, 101, 114,
     0, 0, 0, 11, 114, 101, 116, 114, 121, 45, 97, 102, 116, 101, 114, 0, 0, 0, 6, 115, 101, 114, 118, 101,
     114, 0, 0, 0, 2, 116, 101, 0, 0, 0, 7, 116, 114, 97, 105, 108, 101, 114, 0, 0, 0, 17, 116, 114,
     97, 110, 115, 102, 101, 114, 45, 101, 110, 99, 111, 100, 105, 110, 103, 0, 0, 0, 7, 117, 112, 103, 114, 97,
     100, 101, 0, 0, 0, 10, 117, 115, 101, 114, 45, 97, 103, 101, 110, 116, 0, 0, 0, 4, 118, 97, 114, 121,
     0, 0, 0, 3, 118, 105, 97, 0, 0, 0, 7, 119, 97, 114, 110, 105, 110, 103, 0, 0, 0, 16, 119, 119,
     119, 45, 97, 117, 116, 104, 101, 110, 116, 105, 99, 97, 116, 101, 0, 0, 0, 6, 109, 101, 116, 104, 111, 100,
     0, 0, 0, 3, 103, 101, 116, 0, 0, 0, 6, 115, 116, 97, 116, 117, 115, 0, 0, 0, 6, 50, 48, 48,
     32, 79, 75, 0, 0, 0, 7, 118, 101, 114, 115, 105, 111, 110, 0, 0, 0, 8, 72, 84, 84, 80, 47, 49,
     46, 49, 0, 0, 0, 3, 117, 114, 108, 0, 0, 0, 6, 112, 117, 98, 108, 105, 99, 0, 0, 0, 10, 115,
     101, 116, 45, 99, 111, 111, 107, 105, 101, 0, 0, 0, 10, 107, 101, 101, 112, 45, 97, 108, 105, 118, 101, 0,
     0, 0, 6, 111, 114, 105, 103, 105, 110, 49, 48, 48, 49, 48, 49, 50, 48, 49, 50, 48, 50, 50, 48, 53,
     50, 48, 54, 51, 48, 48, 51, 48, 50, 51, 48, 51, 51, 48, 52, 51, 48, 53, 51, 48, 54, 51, 48, 55,
     52, 48, 50, 52, 48, 53, 52, 48, 54, 52, 48, 55, 52, 48, 56, 52, 48, 57, 52, 49, 48, 52, 49, 49,
     52, 49, 50, 52, 49, 51, 52, 49, 52, 52, 49, 53, 52, 49, 54, 52, 49, 55, 53, 48, 50, 53, 48, 52,
     53, 48, 53, 50, 48, 51, 32, 78, 111, 110, 45, 65, 117, 116, 104, 111, 114, 105, 116, 97, 116, 105, 118, 101,
     32, 73, 110, 102, 111, 114, 109, 97, 116, 105, 111, 110, 50, 48, 52, 32, 78, 111, 32, 67, 111, 110, 116, 101,
     110, 116, 51, 48, 49, 32, 77, 111, 118, 101, 100, 32, 80, 101, 114, 109, 97, 110, 101, 110, 116, 108, 121, 52,
     48, 48, 32, 66, 97, 100, 32, 82, 101, 113, 117, 101, 115, 116, 52, 48, 49, 32, 85, 110, 97, 117, 116, 104,
     111, 114, 105, 122, 101, 100, 52, 48, 51, 32, 70, 111, 114, 98, 105, 100, 100, 101, 110, 52, 48, 52, 32, 78,
     111, 116, 32, 70, 111, 117, 110, 100, 53, 48, 48, 32, 73, 110, 116, 101, 114, 110, 97, 108, 32, 83, 101, 114,
     118, 101, 114, 32, 69, 114, 114, 111, 114, 53, 48, 49, 32, 78, 111, 116, 32, 73, 109, 112, 108, 101, 109, 101,
     110, 116, 101, 100, 53, 48, 51, 32, 83, 101, 114, 118, 105, 99, 101, 32, 85, 110, 97, 118, 97, 105, 108, 97,
     98, 108, 101, 74, 97, 110, 32, 70, 101, 98, 32, 77, 97, 114, 32, 65, 112, 114, 32, 77, 97, 121, 32, 74,
     117, 110, 32, 74, 117, 108, 32, 65, 117, 103, 32, 83, 101, 112, 116, 32, 79, 99, 116, 32, 78, 111, 118, 32,
     68, 101, 99, 32, 48, 48, 58, 48, 48, 58, 48, 48, 32, 77, 111, 110, 44, 32, 84, 117, 101, 44, 32, 87,
     101, 100, 44, 32, 84, 104, 117, 44, 32, 70, 114, 105, 44, 32, 83, 97, 116, 44, 32, 83, 117, 110, 44, 32,
     71, 77, 84, 99, 104, 117, 110, 107, 101, 100, 44, 116, 101, 120, 116, 47, 104, 116, 109, 108, 44, 105, 109, 97,
     103, 101, 47, 112, 110, 103, 44, 105, 109, 97, 103, 101, 47, 106, 112, 103, 44, 105, 109, 97, 103, 101, 47, 103,
     105, 102, 44, 97, 112, 112, 108, 105, 99, 97, 116, 105, 111, 110, 47, 120, 109, 108, 44, 97, 112, 112, 108, 105,
     99, 97, 116, 105, 111, 110, 47, 120, 104, 116, 109, 108, 43, 120, 109, 108, 44, 116, 101, 120, 116, 47, 112, 108,
     97, 105, 110, 44, 116, 101, 120, 116, 47, 106, 97, 118, 97, 115, 99, 114, 105, 112, 116, 44, 112, 117, 98, 108,
     105, 99, 112, 114, 105, 118, 97, 116, 101, 109, 97, 120, 45, 97, 103, 101, 61, 103, 122, 105, 112, 44, 100, 101,
     102, 108, 97, 116, 101, 44, 115, 100, 99, 104, 99, 104, 97, 114, 115, 101, 116, 61, 117, 116, 102, 45, 56, 99,
     104, 97, 114, 115, 101, 116, 61, 105, 115, 111, 45, 56, 56, 53, 57, 45, 49, 44, 117, 116, 102, 45, 44, 42,
     44, 101, 110, 113, 61, 48, 46]"

subsection \<open>Streams\<close>

definition http2d_spdy_zlib_inflate_init :: "'z zlib \<Rightarrow> 'z \<Rightarrow> ret_t \<times> 'z" where
  "http2d_spdy_zlib_inflate_init Z z =
     (let (re, z) = inflateInit Z z in if re \<noteq> Z_OK then (ret_error, z) else (ret_ok, z))"

definition http2d_spdy_zlib_deflate_init :: "'z zlib \<Rightarrow> 'z \<Rightarrow> ret_t \<times> 'z" where
  "http2d_spdy_zlib_deflate_init Z z =
     (let (re, z) = deflateInit2 Z z COMPRESSION_LEVEL WINDOW_BITS MEM_LEVEL
      in if re \<noteq> Z_OK then (ret_error, z)
         else let (re, z) = deflateSetDictionary Z z SPDY_dictionary_txt
              in if re \<noteq> Z_OK then (ret_error, snd (deflateEnd Z z)) else (ret_ok, z))"

text \<open>The loop of \<open>http2d_spdy_zlib_inflate\<close>: \<open>inp\<close> is what \<open>next_in\<close> and \<open>avail_in\<close> describe. It ends only if
  zlib lets it.\<close>

partial_function (option) inflate_loop ::
  "'z zlib \<Rightarrow> heap \<Rightarrow> 'z \<Rightarrow> byte list \<Rightarrow> buffer \<Rightarrow> (ret_t \<times> 'z \<times> buffer) option" where
  "inflate_loop Z h z inp unpacked =
     (let (r, z, k, out) = inflate Z z inp SPDY_ZLIB_CHUNK; inp = drop k inp
      in case r of
           Z_OK \<Rightarrow> do {
             (_, unpacked) \<leftarrow> http2d_buffer_add h unpacked (Ext out) (length out);
             if inp = [] then Some (ret_ok, z, unpacked) else inflate_loop Z h z inp unpacked }
         | Z_STREAM_END \<Rightarrow> Some (ret_ok, z, unpacked)
         | Z_NEED_DICT \<Rightarrow>
             (let (r2, z) = inflateSetDictionary Z z SPDY_dictionary_txt
              in if r2 \<noteq> Z_OK then Some (ret_error, z, unpacked) else inflate_loop Z h z inp unpacked)
         | Z_BUF_ERROR \<Rightarrow> Some (ret_error, inflateEnd Z z, unpacked)
         | Z_DATA_ERROR \<Rightarrow> Some (ret_error, inflateEnd Z z, unpacked)
         | Z_STREAM_ERROR \<Rightarrow> Some (ret_error, inflateEnd Z z, unpacked)
         | _ \<Rightarrow> Some (ret_error, z, unpacked))"

definition http2d_spdy_zlib_inflate ::
  "'z zlib \<Rightarrow> heap \<Rightarrow> 'z \<Rightarrow> buffer \<Rightarrow> nat \<Rightarrow> buffer \<Rightarrow> (ret_t \<times> 'z \<times> buffer) option" where
  "http2d_spdy_zlib_inflate Z h z b pos unpacked = do {
     m \<leftarrow> buf b;
     inp \<leftarrow> blk_read m pos (sub32 (len b) pos);
     inflate_loop Z h z inp unpacked }"

text \<open>The array \<open>tmp\<close> has \<open>cap\<close> bytes. A stream that has ended is closed, and used again if the array was full.\<close>

partial_function (option) deflate_loop ::
  "'z zlib \<Rightarrow> heap \<Rightarrow> nat \<Rightarrow> 'z \<Rightarrow> byte list \<Rightarrow> buffer \<Rightarrow> (ret_t \<times> 'z \<times> buffer) option" where
  "deflate_loop Z h cap z inp packed =
     (let (re, z, k, out) = deflate Z z inp cap; inp = drop k inp
      in if re \<noteq> Z_OK \<and> re \<noteq> Z_STREAM_END then Some (ret_error, z, packed)
         else do {
           z \<leftarrow> Some (if re = Z_STREAM_END then snd (deflateEnd Z z) else z);
           (_, packed) \<leftarrow> http2d_buffer_add h packed (Ext out) (length out);
           if cap - length out = 0 then deflate_loop Z h cap z inp packed else Some (ret_ok, z, packed) })"

text \<open>An array of length zero has no defined behaviour.\<close>

definition http2d_spdy_zlib_deflate ::
  "'z zlib \<Rightarrow> heap \<Rightarrow> 'z \<Rightarrow> buffer \<Rightarrow> buffer \<Rightarrow> (ret_t \<times> 'z \<times> buffer) option" where
  "http2d_spdy_zlib_deflate Z h z b packed =
     (if len b = 0 then None
      else do {
        m \<leftarrow> buf b;
        inp \<leftarrow> blk_read m 0 (len b);
        deflate_loop Z h (len b) z inp packed })"

subsection \<open>What is documented of zlib\<close>

text \<open>
  \<open>yields cap z inp out z'\<close>: a synchronous flush of \<open>inp\<close> through the stream \<open>z\<close>, in calls with \<open>cap\<close> bytes of
  room each, writes the bytes \<open>out\<close> in all and leaves the stream \<open>z'\<close>. A call that does not fill its room has
  completed the flush; a call that fills it has to be repeated with what it has left of the input.
\<close>

definition deflate_contract :: "'z zlib \<Rightarrow> (nat \<Rightarrow> 'z \<Rightarrow> byte list \<Rightarrow> byte list \<Rightarrow> 'z \<Rightarrow> bool) \<Rightarrow> bool" where
  "deflate_contract Z yields \<longleftrightarrow>
     (\<forall>cap z inp out ze. 0 < cap \<longrightarrow> yields cap z inp out ze \<longrightarrow>
       (\<exists>z1 k o1 o2. deflate Z z inp cap = (Z_OK, z1, k, o1) \<and> out = o1 @ o2 \<and> length o1 \<le> cap \<and>
         (if length o1 < cap then o2 = [] \<and> z1 = ze else yields cap z1 (drop k inp) o2 ze)))"

text \<open>
  \<open>expands z inp out\<close>: the stream \<open>z\<close> turns the complete input \<open>inp\<close> into the bytes \<open>out\<close>. A call asks for the
  dictionary after it has read the identifier of the dictionary; otherwise it makes progress, and unless it
  fills its room it consumes all of the input and writes all of the output.
\<close>

definition inflate_contract :: "'z zlib \<Rightarrow> ('z \<Rightarrow> byte list \<Rightarrow> byte list \<Rightarrow> bool) \<Rightarrow> bool" where
  "inflate_contract Z expands \<longleftrightarrow>
     (\<forall>z inp out. expands z inp out \<longrightarrow>
       (\<exists>r z1 k o1 o2. inflate Z z inp SPDY_ZLIB_CHUNK = (r, z1, k, o1) \<and> k \<le> length inp \<and> out = o1 @ o2 \<and>
         (r = Z_NEED_DICT \<and> 0 < k \<and> o1 = [] \<and>
            (\<exists>z2. inflateSetDictionary Z z1 SPDY_dictionary_txt = (Z_OK, z2) \<and> expands z2 (drop k inp) o2) \<or>
          r = Z_OK \<and> (0 < k \<or> o1 \<noteq> []) \<and> length o1 \<le> SPDY_ZLIB_CHUNK \<and>
            (if length o1 < SPDY_ZLIB_CHUNK then k = length inp \<and> o2 = [] else expands z1 (drop k inp) o2))))"

lemma SPDY_dictionary_length: "length SPDY_dictionary_txt = 1423"
  unfolding SPDY_dictionary_txt_def by simp

lemma add_ext_total:
  assumes "buf_rep b s" "length s + length t + 17 < 2 ^ 31"
  obtains b' where "http2d_buffer_add (total_heap f) b (Ext t) (length t) = Some (ret_ok, b')" "buf_rep b' (s @ t)"
  using bstore.add_law [OF assms(1), of t f] assms(2) by (auto simp: add_bytes_def)

lemma deflate_loop_rep:
  assumes "deflate_contract Z yields" "0 < cap"
  shows "yields cap z inp out ze \<Longrightarrow> buf_rep packed s \<Longrightarrow> length s + length out + 17 < 2 ^ 31 \<Longrightarrow>
    \<exists>b'. deflate_loop Z (total_heap f) cap z inp packed = Some (ret_ok, ze, b') \<and> buf_rep b' (s @ out)"
proof (induction "length out" arbitrary: z inp out packed s rule: less_induct)
  case less
  obtain z1 k o1 o2 where c: "deflate Z z inp cap = (Z_OK, z1, k, o1)" "out = o1 @ o2" "length o1 \<le> cap"
    "if length o1 < cap then o2 = [] \<and> z1 = ze else yields cap z1 (drop k inp) o2 ze"
    using assms less.prems(1) unfolding deflate_contract_def by metis
  obtain b1 where b1: "http2d_buffer_add (total_heap f) packed (Ext o1) (length o1) = Some (ret_ok, b1)" "buf_rep b1 (s @ o1)"
    using add_ext_total [OF less.prems(2), of o1 f] less.prems(3) c(2) by auto
  have u: "deflate_loop Z (total_heap f) cap z inp packed =
    (if cap - length o1 = 0 then deflate_loop Z (total_heap f) cap z1 (drop k inp) b1 else Some (ret_ok, z1, b1))"
    by (subst deflate_loop.simps) (simp add: c(1) b1(1))
  show ?case
  proof (cases "length o1 < cap")
    case True
    with c b1 u show ?thesis by auto
  next
    case False
    then have "length o2 < length out" "yields cap z1 (drop k inp) o2 ze" using c assms(2) by auto
    from less.hyps [OF this b1(2)] less.prems(3) False u c(2) show ?thesis by auto
  qed
qed

lemma inflate_loop_rep:
  assumes "inflate_contract Z expands"
  shows "expands z inp out \<Longrightarrow> buf_rep u s \<Longrightarrow> length s + length out + 17 < 2 ^ 31 \<Longrightarrow>
    \<exists>z' b' n. inflate_loop Z (total_heap f) z inp u = Some (ret_ok, z', b') \<and> n \<le> length out \<and> buf_rep b' (s @ take n out) \<and>
      (length out < SPDY_ZLIB_CHUNK \<longrightarrow> n = length out)"
proof (induction "length inp + length out" arbitrary: z inp out u s rule: less_induct)
  case less
  obtain r z1 k o1 o2 where c: "inflate Z z inp SPDY_ZLIB_CHUNK = (r, z1, k, o1)" "k \<le> length inp" "out = o1 @ o2"
    and cc: "r = Z_NEED_DICT \<and> 0 < k \<and> o1 = [] \<and>
        (\<exists>z2. inflateSetDictionary Z z1 SPDY_dictionary_txt = (Z_OK, z2) \<and> expands z2 (drop k inp) o2) \<or>
      r = Z_OK \<and> (0 < k \<or> o1 \<noteq> []) \<and> length o1 \<le> SPDY_ZLIB_CHUNK \<and>
        (if length o1 < SPDY_ZLIB_CHUNK then k = length inp \<and> o2 = [] else expands z1 (drop k inp) o2)"
    using assms less.prems(1) unfolding inflate_contract_def by metis
  show ?case
  proof (cases "r = Z_NEED_DICT")
    case True
    with cc obtain z2 where z2: "0 < k" "o1 = []" "inflateSetDictionary Z z1 SPDY_dictionary_txt = (Z_OK, z2)"
      "expands z2 (drop k inp) o2" by auto
    have "inflate_loop Z (total_heap f) z inp u = inflate_loop Z (total_heap f) z2 (drop k inp) u"
      by (subst inflate_loop.simps) (simp add: c(1) True z2(3))
    with less.hyps [OF _ z2(4) less.prems(2)] less.prems(3) c z2 show ?thesis by auto
  next
    case False
    with cc have k: "r = Z_OK" "0 < k \<or> o1 \<noteq> []" "length o1 \<le> SPDY_ZLIB_CHUNK"
      "if length o1 < SPDY_ZLIB_CHUNK then k = length inp \<and> o2 = [] else expands z1 (drop k inp) o2" by auto
    obtain b1 where b1: "http2d_buffer_add (total_heap f) u (Ext o1) (length o1) = Some (ret_ok, b1)" "buf_rep b1 (s @ o1)"
      using add_ext_total [OF less.prems(2), of o1 f] less.prems(3) c(3) by auto
    have e: "inflate_loop Z (total_heap f) z inp u =
        (if drop k inp = [] then Some (ret_ok, z1, b1) else inflate_loop Z (total_heap f) z1 (drop k inp) b1)"
      by (subst inflate_loop.simps) (simp add: c(1) k(1) b1(1))
    show ?thesis
    proof (cases "drop k inp = []")
      case True
      have "length out < SPDY_ZLIB_CHUNK \<longrightarrow> length o1 = length out" using k(4) c(3) by (auto split: if_splits)
      with True e b1 c show ?thesis by (intro exI [of _ z1] exI [of _ b1] exI [of _ "length o1"]) auto
    next
      case False
      with k(4) have x: "expands z1 (drop k inp) o2" "length o1 = SPDY_ZLIB_CHUNK" using k(3) by (auto split: if_splits)
      have l: "length (drop k inp) + length o2 < length inp + length out"
        using k(2) c(2,3) by (cases o1) auto
      obtain z' b' n where "inflate_loop Z (total_heap f) z1 (drop k inp) b1 = Some (ret_ok, z', b')" "n \<le> length o2"
          "buf_rep b' ((s @ o1) @ take n o2)"
        using less.hyps [OF l x(1) b1(2)] less.prems(3) c(3) by auto
      with e False c(3) x(2) show ?thesis
        by (intro exI [of _ z'] exI [of _ b'] exI [of _ "length o1 + n"]) auto
    qed
  qed
qed


text \<open>A library that meets both contracts: it stores instead of compressing, keeps what does not fit into the
  room, and asks for the dictionary after the first byte.\<close>

definition stored_zlib :: "(bool \<times> byte list) zlib" where
  "stored_zlib = \<lparr>
     inflateInit = (\<lambda>_. (Z_OK, (False, []))),
     inflate = (\<lambda>(dict, p) inp n.
       if dict then (Z_OK, (dict, drop n (p @ inp)), length inp, take n (p @ inp)) else (Z_NEED_DICT, (dict, p), 1, [])),
     inflateSetDictionary = (\<lambda>(_, p) _. (Z_OK, (True, p))),
     inflateEnd = (\<lambda>z. z),
     deflateInit2 = (\<lambda>_ _ _ _. (Z_OK, (False, []))),
     deflateSetDictionary = (\<lambda>z _. (Z_OK, z)),
     deflate = (\<lambda>(dict, p) inp n. (Z_OK, (dict, drop n (p @ inp)), length inp, take n (p @ inp))),
     deflateEnd = (\<lambda>z. (Z_OK, z))\<rparr>"

definition stored_yields :: "nat \<Rightarrow> bool \<times> byte list \<Rightarrow> byte list \<Rightarrow> byte list \<Rightarrow> bool \<times> byte list \<Rightarrow> bool" where
  "stored_yields cap z inp out ze \<longleftrightarrow> out = snd z @ inp \<and> ze = (fst z, [])"

definition stored_expands :: "bool \<times> byte list \<Rightarrow> byte list \<Rightarrow> byte list \<Rightarrow> bool" where
  "stored_expands z inp out \<longleftrightarrow> snd z = [] \<and> length inp < SPDY_ZLIB_CHUNK \<and>
     (if fst z then inp \<noteq> [] \<and> out = inp else 1 < length inp \<and> out = tl inp)"

lemma stored_deflate: "deflate_contract stored_zlib stored_yields"
  unfolding deflate_contract_def
proof (intro allI impI)
  fix cap z inp out ze
  assume "0 < (cap :: nat)" "stored_yields cap z inp out ze"
  then show "\<exists>z1 k o1 o2. deflate stored_zlib z inp cap = (Z_OK, z1, k, o1) \<and> out = o1 @ o2 \<and> length o1 \<le> cap \<and>
      (if length o1 < cap then o2 = [] \<and> z1 = ze else stored_yields cap z1 (drop k inp) o2 ze)"
    by - (rule exI [of _ "(fst z, drop cap out)"], rule exI [of _ "length inp"], rule exI [of _ "take cap out"],
        rule exI [of _ "drop cap out"], auto simp: stored_zlib_def stored_yields_def simp del: take_append drop_append split: prod.splits)
qed

lemma stored_inflate: "inflate_contract stored_zlib stored_expands"
  unfolding inflate_contract_def
proof (intro allI impI)
  fix z inp out
  assume a: "stored_expands z inp out"
  show "\<exists>r z1 k o1 o2. inflate stored_zlib z inp SPDY_ZLIB_CHUNK = (r, z1, k, o1) \<and> k \<le> length inp \<and> out = o1 @ o2 \<and>
         (r = Z_NEED_DICT \<and> 0 < k \<and> o1 = [] \<and>
            (\<exists>z2. inflateSetDictionary stored_zlib z1 SPDY_dictionary_txt = (Z_OK, z2) \<and> stored_expands z2 (drop k inp) o2) \<or>
          r = Z_OK \<and> (0 < k \<or> o1 \<noteq> []) \<and> length o1 \<le> SPDY_ZLIB_CHUNK \<and>
            (if length o1 < SPDY_ZLIB_CHUNK then k = length inp \<and> o2 = [] else stored_expands z1 (drop k inp) o2))"
  proof (cases "fst z")
    case True
    with a have "z = (True, [])" "inp \<noteq> []" "out = inp" "length inp < SPDY_ZLIB_CHUNK"
      by (auto simp: stored_expands_def prod_eq_iff)
    then show ?thesis
      by (intro exI [of _ Z_OK] exI [of _ "(True, [])"] exI [of _ "length inp"] exI [of _ inp] exI [of _ "[]"])
        (simp add: stored_zlib_def)
  next
    case False
    with a obtain c where "z = (False, [])" "inp = c # out" "out \<noteq> []" "length inp < SPDY_ZLIB_CHUNK"
      by (cases inp) (auto simp: stored_expands_def prod_eq_iff)
    then show ?thesis
      by (intro exI [of _ Z_NEED_DICT] exI [of _ "(False, [])"] exI [of _ 1] exI [of _ "[]"] exI [of _ out])
        (simp add: stored_zlib_def stored_expands_def)
  qed
qed

subsection \<open>Properties\<close>

lemma zlib_deflate_rep:
  assumes "deflate_contract Z yields" "buf_rep b s" "s \<noteq> []" "yields (length s) z s out ze" "buf_rep packed p"
    and "length p + length out + 17 < 2 ^ 31"
  shows "\<exists>b'. http2d_spdy_zlib_deflate Z (total_heap f) z b packed = Some (ret_ok, ze, b') \<and> buf_rep b' (p @ out)"
proof -
  obtain m where m: "buf b = Some m" "len b = length s" "take (length s) m = s" "length s < length m"
    using assms(2,3) by (auto elim!: buf_rep_cases)
  then have "blk_read m 0 (len b) = Some s" by (simp add: blk_read_def)
  with m deflate_loop_rep [OF assms(1) _ assms(4-6), of f] assms(3) show ?thesis
    by (simp add: http2d_spdy_zlib_deflate_def)
qed

text \<open>C38: For any zlib that meets \<open>deflate_contract\<close>, \<open>http2d_spdy_zlib_deflate\<close> terminates and appends to its
  target the whole output of the flush, however many times the temporary array (as long as the input) fills up.\<close>

theorem http2d_spdy_zlib_deflate_correct:
  assumes "deflate_contract Z yields" "buf_rep b s" "s \<noteq> []" "yields (length s) z s out ze" "buf_rep packed p"
    and "length p + length out + 17 < 2 ^ 31"
  shows "\<exists>b'. http2d_spdy_zlib_deflate Z (total_heap f) z b packed = Some (ret_ok, ze, b') \<and> buf_rep b' (p @ out)"
  by (rule zlib_deflate_rep [OF assms])

theorem http2d_spdy_zlib_deflate_correct_witness:
  "\<exists>b'. http2d_spdy_zlib_deflate stored_zlib (total_heap (\<lambda>_. 0)) (True, [7, 8]) (http2d_buffer_fake_str ''abc'') HTTP2D_BUF_INIT =
      Some (ret_ok, (True, []), b') \<and> buf_rep b' ([7, 8] @ lit ''abc'')"
  using http2d_spdy_zlib_deflate_correct [OF stored_deflate http2d_buffer_fake_str_rep [of "''abc''"] _ _ buf_rep_INIT,
      of "(True, [7, 8])" "[7, 8] @ lit ''abc''" "(True, [])" "\<lambda>_. 0"]
  by (simp add: stored_yields_def lit_def)

lemma zlib_inflate_rep:
  assumes "inflate_contract Z expands" "buf_rep b s" "pos < length s" "expands z (drop pos s) out" "buf_rep u t"
    and "length t + length out + 17 < 2 ^ 31"
  shows "\<exists>z' b' n. http2d_spdy_zlib_inflate Z (total_heap f) z b pos u = Some (ret_ok, z', b') \<and> n \<le> length out \<and>
    buf_rep b' (t @ take n out) \<and> (length out < SPDY_ZLIB_CHUNK \<longrightarrow> n = length out)"
proof -
  obtain m where m: "buf b = Some m" "len b = length s" "take (length s) m = s" "length s < length m" "length s < 2 ^ 31"
    using assms(2,3) by (auto elim!: buf_rep_cases)
  then have "sub32 (len b) pos = length s - pos" using assms(3) by (simp add: sub32_id)
  moreover have "blk_read m pos (length s - pos) = Some (drop pos s)"
    using m assms(3) drop_take [of pos "length s" m] by (simp add: blk_read_def)
  ultimately show ?thesis
    using m inflate_loop_rep [OF assms(1) assms(4-6), of f] by (simp add: http2d_spdy_zlib_inflate_def)
qed

text \<open>C39: For any zlib that meets \<open>inflate_contract\<close>, \<open>http2d_spdy_zlib_inflate\<close> terminates with \<open>ret_ok\<close> on a
  complete compressed block, supplies the dictionary when it is asked for, and appends a prefix of the decompressed
  bytes; all of them if they are fewer than the 16384 of a chunk. (The loop ends as soon as the input is consumed,
  also when a full chunk leaves output inside zlib.)\<close>

theorem http2d_spdy_zlib_inflate_correct:
  assumes "inflate_contract Z expands" "buf_rep b s" "pos < length s" "expands z (drop pos s) out" "buf_rep u t"
    and "length t + length out + 17 < 2 ^ 31"
  shows "\<exists>z' b' n. http2d_spdy_zlib_inflate Z (total_heap f) z b pos u = Some (ret_ok, z', b') \<and> n \<le> length out \<and>
    buf_rep b' (t @ take n out) \<and> (length out < SPDY_ZLIB_CHUNK \<longrightarrow> n = length out)"
  by (rule zlib_inflate_rep [OF assms])

theorem http2d_spdy_zlib_inflate_correct_witness:
  "\<exists>z' b'. http2d_spdy_zlib_inflate stored_zlib (total_heap (\<lambda>_. 0)) (False, []) (http2d_buffer_fake_str ''?xabc'') 1 HTTP2D_BUF_INIT =
      Some (ret_ok, z', b') \<and> buf_rep b' (lit ''abc'')"
  using http2d_spdy_zlib_inflate_correct [OF stored_inflate http2d_buffer_fake_str_rep [of "''?xabc''"] _ _ buf_rep_INIT,
      of 1 "(False, [])" "lit ''abc''" "\<lambda>_. 0"]
  by (auto simp: stored_expands_def lit_def SPDY_ZLIB_CHUNK_def)

end
