(* ===== verification/Socket.thy ===== *)
theory Socket
  imports Buffer_Edit
begin

text \<open>
  Reading and writing a connected socket: the parts of \<^verbatim>\<open>src/src/socket.c\<close> and \<^verbatim>\<open>src/src/socket-ssl.c\<close> a
  connection uses after it has been accepted. The kernel and OpenSSL are not part of the repository: they are
  the parameter \<open>os\<close>, a record of the calls the code makes, on a state of an arbitrary type. The variable behind
  \<open>wanted_io\<close> is passed in and out; the bytes a read stores are returned.
\<close>

subsection \<open>The system\<close>

datatype ssl_error = SSL_ERROR_WANT_READ | SSL_ERROR_WANT_WRITE | SSL_ERROR_WANT_CONNECT | SSL_ERROR_WANT_ACCEPT
  | SSL_ERROR_ZERO_RETURN | SSL_ERROR_SSL | SSL_ERROR_SYSCALL | SSL_ERROR_OTHER

text \<open>The answer of an SSL call: data (or a count), zero, or a negative number with the code of
  \<open>SSL_get_error\<close> and the value of \<open>errno\<close>.\<close>

datatype 'a ssl_answer = SSL_done 'a | SSL_zero | SSL_failed ssl_error errno

record 'e os =
  recv :: "'e \<Rightarrow> nat \<Rightarrow> (errno + byte list) \<times> 'e"
  send :: "'e \<Rightarrow> byte list \<Rightarrow> (errno + nat) \<times> 'e"
  shutdown_wr :: "'e \<Rightarrow> errno option \<times> 'e"
  SSL_read :: "'e \<Rightarrow> nat \<Rightarrow> byte list ssl_answer \<times> 'e"
  SSL_write :: "'e \<Rightarrow> byte list \<Rightarrow> nat ssl_answer \<times> 'e"
  SSL_setup :: "'e \<Rightarrow> ret_t \<times> 'e"
  SSL_do_handshake :: "'e \<Rightarrow> unit ssl_answer \<times> 'e"

definition EV_READ :: int where "EV_READ = 1"
definition EV_WRITE :: int where "EV_WRITE = 2"

datatype init_phase = phase_init_set_up | phase_init_handshake

record socket =
  socket_fd :: int
  closed :: bool
  is_tls :: bool
  phase_init :: init_phase

definition http2d_socket_init :: "socket \<Rightarrow> ret_t \<times> socket" where
  "http2d_socket_init s =
     (ret_ok, s\<lparr>socket_fd := -1, closed := True, is_tls := False, phase_init := phase_init_set_up\<rparr>)"

subsection \<open>Calls that are repeated while a signal interrupts them\<close>

partial_function (option) recv_retry :: "'e os \<Rightarrow> 'e \<Rightarrow> nat \<Rightarrow> ((errno + byte list) \<times> 'e) option" where
  "recv_retry os e n =
     (let (r, e) = recv os e n in if r = Inl EINTR then recv_retry os e n else Some (r, e))"

partial_function (option) send_retry :: "'e os \<Rightarrow> 'e \<Rightarrow> byte list \<Rightarrow> ((errno + nat) \<times> 'e) option" where
  "send_retry os e bs =
     (let (r, e) = send os e bs in if r = Inl EINTR then send_retry os e bs else Some (r, e))"

partial_function (option) shutdown_retry :: "'e os \<Rightarrow> 'e \<Rightarrow> (errno option \<times> 'e) option" where
  "shutdown_retry os e =
     (let (r, e) = shutdown_wr os e in if r = Some EINTR then shutdown_retry os e else Some (r, e))"

definition http2d_socket_shutdown :: "'e os \<Rightarrow> 'e \<Rightarrow> socket \<Rightarrow> (ret_t \<times> 'e) option" where
  "http2d_socket_shutdown os e s =
     (if socket_fd s < 0 then Some (ret_error, e)
      else do {
        (r, e) \<leftarrow> shutdown_retry os e;
        Some (case r of None \<Rightarrow> ret_ok | Some ENOTCONN \<Rightarrow> ret_ok | Some _ \<Rightarrow> ret_error, e) })"

subsection \<open>TLS\<close>

definition http2d_socket_ssl_read :: "'e os \<Rightarrow> 'e \<Rightarrow> nat \<Rightarrow> int \<Rightarrow> ret_t \<times> byte list \<times> int \<times> 'e" where
  "http2d_socket_ssl_read os e n w =
     (let (r, e) = SSL_read os e n
      in case r of
           SSL_done bs \<Rightarrow> (ret_ok, bs, w, e)
         | SSL_zero \<Rightarrow> (ret_eof, [], w, e)
         | SSL_failed re er \<Rightarrow>
             (case re of
                SSL_ERROR_WANT_READ \<Rightarrow> (ret_eagain, [], EV_READ, e)
              | SSL_ERROR_WANT_WRITE \<Rightarrow> (ret_eagain, [], EV_WRITE, e)
              | SSL_ERROR_ZERO_RETURN \<Rightarrow> (ret_eof, [], w, e)
              | SSL_ERROR_SSL \<Rightarrow> (ret_error, [], w, e)
              | SSL_ERROR_SYSCALL \<Rightarrow>
                  (case er of EAGAIN \<Rightarrow> (ret_eagain, [], w, e)
                   | EPIPE \<Rightarrow> (ret_eof, [], w, e)
                   | ECONNRESET \<Rightarrow> (ret_eof, [], w, e)
                   | _ \<Rightarrow> (ret_error, [], w, e))
              | _ \<Rightarrow> (ret_error, [], w, e)))"

definition http2d_socket_ssl_write :: "'e os \<Rightarrow> 'e \<Rightarrow> byte list \<Rightarrow> int \<Rightarrow> ret_t \<times> nat \<times> int \<times> 'e" where
  "http2d_socket_ssl_write os e bs w =
     (let (r, e) = SSL_write os e bs
      in case r of
           SSL_done k \<Rightarrow> (if k \<noteq> length bs then (ret_error, 0, w, e) else (ret_ok, length bs, w, e))
         | SSL_zero \<Rightarrow> (ret_eof, 0, w, e)
         | SSL_failed re er \<Rightarrow>
             (case re of
                SSL_ERROR_WANT_READ \<Rightarrow> (ret_eagain, 0, EV_READ, e)
              | SSL_ERROR_WANT_WRITE \<Rightarrow> (ret_eagain, 0, EV_WRITE, e)
              | SSL_ERROR_SYSCALL \<Rightarrow>
                  (case er of EAGAIN \<Rightarrow> (ret_eagain, 0, w, e)
                   | ENOTCONN \<Rightarrow> (ret_eof, 0, w, e)
                   | EPIPE \<Rightarrow> (ret_eof, 0, w, e)
                   | ECONNRESET \<Rightarrow> (ret_eof, 0, w, e)
                   | _ \<Rightarrow> (ret_error, 0, w, e))
              | _ \<Rightarrow> (ret_error, 0, w, e)))"

text \<open>The calls of \<open>socket_initialize\<close> are all OpenSSL's but for the choice of the context: their common outcome is
  \<open>SSL_setup\<close>.\<close>

definition socket_handshake :: "'e os \<Rightarrow> 'e \<Rightarrow> int \<Rightarrow> ret_t \<times> int \<times> 'e" where
  "socket_handshake os e w =
     (let (r, e) = SSL_do_handshake os e
      in case r of
           SSL_done _ \<Rightarrow> (ret_ok, w, e)
         | SSL_zero \<Rightarrow> (ret_eof, w, e)
         | SSL_failed re er \<Rightarrow>
             (case re of
                SSL_ERROR_WANT_READ \<Rightarrow> (ret_eagain, EV_READ, e)
              | SSL_ERROR_WANT_WRITE \<Rightarrow> (ret_eagain, EV_WRITE, e)
              | SSL_ERROR_WANT_CONNECT \<Rightarrow> (ret_eagain, EV_WRITE, e)
              | SSL_ERROR_WANT_ACCEPT \<Rightarrow> (ret_eagain, EV_WRITE, e)
              | SSL_ERROR_SYSCALL \<Rightarrow> (if er = EAGAIN then ret_eagain else ret_error, w, e)
              | _ \<Rightarrow> (ret_error, w, e)))"

definition http2d_socket_ssl_init :: "'e os \<Rightarrow> 'e \<Rightarrow> socket \<Rightarrow> int \<Rightarrow> ret_t \<times> int \<times> socket \<times> 'e" where
  "http2d_socket_ssl_init os e s w =
     (let (ret, s, e) =
            (case phase_init s of
               phase_init_set_up \<Rightarrow>
                 (let (ret, e) = SSL_setup os e
                  in if ret \<noteq> ret_ok then (ret, s, e) else (ret_ok, s\<lparr>phase_init := phase_init_handshake\<rparr>, e))
             | phase_init_handshake \<Rightarrow> (ret_ok, s, e))
      in if ret \<noteq> ret_ok then (ret, w, s, e)
         else let (ret, w, e) = socket_handshake os e w in (ret, w, s, e))"

subsection \<open>Reading and writing\<close>

definition http2d_socket_read ::
  "'e os \<Rightarrow> 'e \<Rightarrow> socket \<Rightarrow> nat \<Rightarrow> int \<Rightarrow> (ret_t \<times> byte list \<times> int \<times> socket \<times> 'e) option" where
  "http2d_socket_read os e s n w =
     (if n = 0 then Some (ret_error, [], w, s, e)
      else if closed s then Some (ret_eof, [], w, s, e)
      else if \<not> is_tls s then do {
        (r, e) \<leftarrow> recv_retry os e n;
        Some (case r of
            Inr bs \<Rightarrow> if bs \<noteq> [] then (ret_ok, bs, w, s, e) else (ret_eof, [], w, s\<lparr>closed := True\<rparr>, e)
          | Inl er \<Rightarrow>
              (case er of
                 EWOULDBLOCK \<Rightarrow> (ret_eagain, [], EV_READ, s, e)
               | EAGAIN \<Rightarrow> (ret_eagain, [], EV_READ, s, e)
               | EPIPE \<Rightarrow> (ret_error, [], w, s\<lparr>closed := True\<rparr>, e)
               | ENOTCONN \<Rightarrow> (ret_error, [], w, s\<lparr>closed := True\<rparr>, e)
               | ECONNRESET \<Rightarrow> (ret_error, [], w, s\<lparr>closed := True\<rparr>, e)
               | _ \<Rightarrow> (ret_error, [], w, s, e))) }
      else
        (let (ret, bs, w, e) = http2d_socket_ssl_read os e n w
         in if ret = ret_eof then Some (ret_eof, bs, w, s\<lparr>closed := True\<rparr>, e) else Some (ret, bs, w, s, e)))"

definition http2d_socket_write ::
  "'e os \<Rightarrow> 'e \<Rightarrow> socket \<Rightarrow> byte list \<Rightarrow> int \<Rightarrow> (ret_t \<times> nat \<times> int \<times> socket \<times> 'e) option" where
  "http2d_socket_write os e s bs w =
     (if \<not> is_tls s then do {
        (r, e) \<leftarrow> send_retry os e bs;
        Some (case r of
            Inr k \<Rightarrow> if 0 < k then (ret_ok, k, w, s, e) else (ret_eagain, 0, EV_WRITE, s, e)
          | Inl er \<Rightarrow>
              (case er of
                 EWOULDBLOCK \<Rightarrow> (ret_eagain, 0, EV_WRITE, s, e)
               | EAGAIN \<Rightarrow> (ret_eagain, 0, EV_WRITE, s, e)
               | EPIPE \<Rightarrow> (ret_error, 0, w, s\<lparr>closed := True\<rparr>, e)
               | ECONNRESET \<Rightarrow> (ret_error, 0, w, s\<lparr>closed := True\<rparr>, e)
               | ENOTCONN \<Rightarrow> (ret_error, 0, w, s\<lparr>closed := True\<rparr>, e)
               | _ \<Rightarrow> (ret_error, 0, w, s, e))) }
      else
        (let (ret, k, w, e) = http2d_socket_ssl_write os e bs w
         in if ret = ret_eof then Some (ret_eof, k, w, s\<lparr>closed := True\<rparr>, e) else Some (ret, k, w, s, e)))"

text \<open>The guard \<open>buf != NULL\<close> and \<open>len > 0\<close> at the start of \<open>http2d_socket_write\<close> is checked here, where the pointer is known.\<close>

definition http2d_socket_write_buf ::
  "'e os \<Rightarrow> 'e \<Rightarrow> socket \<Rightarrow> buffer \<Rightarrow> int \<Rightarrow> (ret_t \<times> nat \<times> int \<times> socket \<times> 'e) option" where
  "http2d_socket_write_buf os e s b w =
     (case buf b of None \<Rightarrow> Some (ret_error, 0, w, s, e)
      | Some m \<Rightarrow>
          if s32 (len b) \<le> 0 then Some (ret_error, 0, w, s, e)
          else do { bs \<leftarrow> blk_read m 0 (len b); http2d_socket_write os e s bs w })"

definition http2d_socket_read_buf ::
  "heap \<Rightarrow> 'e os \<Rightarrow> 'e \<Rightarrow> socket \<Rightarrow> buffer \<Rightarrow> nat \<Rightarrow> int \<Rightarrow> (ret_t \<times> nat \<times> int \<times> buffer \<times> socket \<times> 'e) option" where
  "http2d_socket_read_buf h os e s b count w =
     (let (ret, b) = http2d_buffer_ensure_size h b (u64 (len b + count + 2))
      in if ret_code ret < ret_code ret_ok then Some (ret, 0, w, b, s, e)
         else do {
           m \<leftarrow> buf b;
           (ret, bs, w, s, e) \<leftarrow> http2d_socket_read os e s count w;
           if bs \<noteq> [] then do {
             m \<leftarrow> blk_write m (len b) bs;
             m \<leftarrow> blk_set m (u32 (len b + length bs)) 0;
             Some (ret, length bs, w, b\<lparr>buf := Some m, len := u32 (len b + length bs)\<rparr>, s, e) }
           else Some (ret, 0, w, b, s, e) })"

subsection \<open>What is documented of the system\<close>

text \<open>A call returns at most as many bytes as it was asked for, takes at most as many as it was given, and data
  means at least one byte for OpenSSL. Signals do not interrupt a call for ever: from every state the calls
  answer after a finite number of interruptions.\<close>

definition os_contract :: "'e os \<Rightarrow> bool" where
  "os_contract os \<longleftrightarrow>
     (\<forall>e n bs. fst (recv os e n) = Inr bs \<longrightarrow> length bs \<le> n) \<and>
     (\<forall>e bs k. fst (send os e bs) = Inr k \<longrightarrow> k \<le> length bs) \<and>
     (\<forall>e n bs. fst (SSL_read os e n) = SSL_done bs \<longrightarrow> bs \<noteq> [] \<and> length bs \<le> n) \<and>
     (\<forall>e bs k. fst (SSL_write os e bs) = SSL_done k \<longrightarrow> 0 < k \<and> k \<le> length bs)"

definition os_answers :: "'e os \<Rightarrow> bool" where
  "os_answers os \<longleftrightarrow>
     (\<forall>e n. \<exists>r e'. recv_retry os e n = Some (r, e')) \<and>
     (\<forall>e bs. \<exists>r e'. send_retry os e bs = Some (r, e')) \<and>
     (\<forall>e. \<exists>r e'. shutdown_retry os e = Some (r, e'))"

subsection \<open>Outcomes of the calls\<close>

lemma recv_retry_answer: "recv_retry os e n = Some (r, e') \<Longrightarrow> \<exists>e0. fst (recv os e0 n) = r"
  by (rule recv_retry.raw_induct [of "\<lambda>os e n y. \<exists>e0. fst (recv os e0 n) = fst y" os e n "(r, e')", simplified])
    (auto split: prod.splits if_splits, metis fst_conv)

lemma send_retry_answer: "send_retry os e bs = Some (r, e') \<Longrightarrow> \<exists>e0. fst (send os e0 bs) = r"
  by (rule send_retry.raw_induct [of "\<lambda>os e n y. \<exists>e0. fst (send os e0 n) = fst y" os e bs "(r, e')", simplified])
    (auto split: prod.splits if_splits, metis fst_conv)

definition io_ret :: "ret_t \<Rightarrow> bool" where
  "io_ret r \<longleftrightarrow> r \<in> {ret_ok, ret_eof, ret_eagain, ret_error}"

lemma socket_ssl_read_outcome:
  assumes "os_contract os"
  obtains ret bs w' e' where "http2d_socket_ssl_read os e n w = (ret, bs, w', e')" "length bs \<le> n"
    "ret = ret_ok \<longleftrightarrow> bs \<noteq> []" "io_ret ret"
proof -
  obtain r e1 where r: "SSL_read os e n = (r, e1)" by fastforce
  have c: "r = SSL_done bs \<Longrightarrow> bs \<noteq> [] \<and> length bs \<le> n" for bs
    using assms r unfolding os_contract_def by (metis fst_conv)
  show thesis
  proof (cases r)
    case (SSL_failed re er)
    then show thesis using r
      by (cases re; cases er) (auto simp: http2d_socket_ssl_read_def io_ret_def intro: that)
  qed (use r c in \<open>auto simp: http2d_socket_ssl_read_def io_ret_def intro: that\<close>)
qed

lemma socket_ssl_write_outcome:
  assumes "os_contract os"
  obtains ret k w' e' where "http2d_socket_ssl_write os e bs w = (ret, k, w', e')" "k \<le> length bs"
    "ret = ret_ok \<longleftrightarrow> 0 < k" "io_ret ret"
proof -
  obtain r e1 where r: "SSL_write os e bs = (r, e1)" by fastforce
  have c: "r = SSL_done k \<Longrightarrow> 0 < k \<and> k \<le> length bs" for k
    using assms r unfolding os_contract_def by (metis fst_conv)
  show thesis
  proof (cases r)
    case (SSL_failed re er)
    then show thesis using r
      by (cases re; cases er) (auto simp: http2d_socket_ssl_write_def io_ret_def intro: that)
  next
    case (SSL_done k)
    with r c show thesis
      by (cases "k = length bs") (auto simp: http2d_socket_ssl_write_def io_ret_def intro: that)
  qed (use r in \<open>auto simp: http2d_socket_ssl_write_def io_ret_def intro: that\<close>)
qed

lemma socket_read_outcome:
  assumes "os_contract os" "os_answers os"
  obtains ret bs w' s' e' where "http2d_socket_read os e s n w = Some (ret, bs, w', s', e')" "length bs \<le> n"
    "ret = ret_ok \<longleftrightarrow> bs \<noteq> []" "io_ret ret" "is_tls s' = is_tls s"
proof -
  consider "n = 0 \<or> closed s" | "0 < n" "\<not> closed s" "is_tls s" | "0 < n" "\<not> closed s" "\<not> is_tls s" by auto
  then show thesis
  proof cases
    case 1
    then show thesis by (cases "n = 0") (auto simp: http2d_socket_read_def io_ret_def intro: that)
  next
    case 2
    obtain ret bs w' e' where "http2d_socket_ssl_read os e n w = (ret, bs, w', e')" "length bs \<le> n"
      "ret = ret_ok \<longleftrightarrow> bs \<noteq> []" "io_ret ret" using socket_ssl_read_outcome [OF assms(1)] .
    with 2 show thesis by (cases "ret = ret_eof") (auto simp: http2d_socket_read_def intro: that)
  next
    case 3
    obtain r e1 where r: "recv_retry os e n = Some (r, e1)" using assms(2) unfolding os_answers_def by metis
    have c: "r = Inr bs \<Longrightarrow> length bs \<le> n" for bs
      using assms(1) recv_retry_answer [OF r] unfolding os_contract_def by metis
    show thesis
    proof (cases r)
      case (Inl er)
      with 3 r show thesis by (cases er) (auto simp: http2d_socket_read_def io_ret_def intro: that)
    next
      case (Inr bs)
      with 3 r c show thesis by (cases "bs = []") (auto simp: http2d_socket_read_def io_ret_def intro: that)
    qed
  qed
qed

lemma socket_write_outcome:
  assumes "os_contract os" "os_answers os"
  obtains ret k w' s' e' where "http2d_socket_write os e s bs w = Some (ret, k, w', s', e')" "k \<le> length bs"
    "ret = ret_ok \<longleftrightarrow> 0 < k" "io_ret ret" "is_tls s' = is_tls s"
proof (cases "is_tls s")
  case True
  obtain ret k w' e' where "http2d_socket_ssl_write os e bs w = (ret, k, w', e')" "k \<le> length bs"
    "ret = ret_ok \<longleftrightarrow> 0 < k" "io_ret ret" using socket_ssl_write_outcome [OF assms(1)] .
  with True show thesis by (cases "ret = ret_eof") (auto simp: http2d_socket_write_def intro: that)
next
  case False
  obtain r e1 where r: "send_retry os e bs = Some (r, e1)" using assms(2) unfolding os_answers_def by metis
  have c: "r = Inr k \<Longrightarrow> k \<le> length bs" for k
    using assms(1) send_retry_answer [OF r] unfolding os_contract_def by metis
  show thesis
  proof (cases r)
    case (Inl er)
    with False r show thesis by (cases er) (auto simp: http2d_socket_write_def io_ret_def intro: that)
  next
    case (Inr k)
    with False r c show thesis by (cases "k = 0") (auto simp: http2d_socket_write_def io_ret_def intro: that)
  qed
qed

text \<open>What the system delivers: the calls of \<open>recv\<close> that a signal interrupts are followed by one that answers, with data (none
  at the end of the file) or with an error; \<open>SSL_read\<close> is called once. The last argument is the state of the system after the call.\<close>

inductive interrupted :: "'e os \<Rightarrow> nat \<Rightarrow> 'e \<Rightarrow> 'e \<Rightarrow> bool" for os n where
  first_call: "interrupted os n e e"
| again: "recv os e n = (Inl EINTR, e1) \<Longrightarrow> interrupted os n e1 e2 \<Longrightarrow> interrupted os n e e2"

definition received :: "'e os \<Rightarrow> 'e \<Rightarrow> socket \<Rightarrow> nat \<Rightarrow> byte list \<Rightarrow> 'e \<Rightarrow> bool" where
  "received os e s n bs e' \<longleftrightarrow>
     (if n = 0 \<or> closed s then bs = [] \<and> e' = e
      else if is_tls s then
        SSL_read os e n = (SSL_done bs, e') \<or> bs = [] \<and> snd (SSL_read os e n) = e' \<and> (\<forall>ds. fst (SSL_read os e n) \<noteq> SSL_done ds)
      else \<exists>e0. interrupted os n e e0 \<and>
        (recv os e0 n = (Inr bs, e') \<or> bs = [] \<and> (\<exists>er. er \<noteq> EINTR \<and> recv os e0 n = (Inl er, e'))))"

lemma recv_retry_interrupted:
  assumes "recv_retry os e n = Some y"
  shows "\<exists>e0. interrupted os n e e0 \<and> recv os e0 n = y \<and> fst y \<noteq> Inl EINTR"
proof (rule recv_retry.raw_induct [where P = "\<lambda>os e n y. \<exists>e0. interrupted os n e e0 \<and> recv os e0 n = y \<and> fst y \<noteq> Inl EINTR", OF _ assms])
  fix retry and os :: "'a os" and e n y
  assume ih: "\<And>os e n y. retry os e n = Some y \<Longrightarrow> \<exists>e0. interrupted os n e e0 \<and> recv os e0 n = y \<and> fst y \<noteq> Inl EINTR"
    and b: "(let (r, e) = recv os e n in if r = Inl EINTR then retry os e n else Some (r, e)) = Some y"
  obtain r e1 where r: "recv os e n = (r, e1)" by fastforce
  show "\<exists>e0. interrupted os n e e0 \<and> recv os e0 n = y \<and> fst y \<noteq> Inl EINTR"
  proof (cases "r = Inl EINTR")
    case True
    then have "retry os e1 n = Some y" using b r by simp
    from ih [OF this] obtain e0 where "interrupted os n e1 e0" "recv os e0 n = y" "fst y \<noteq> Inl EINTR" by blast
    then show ?thesis using interrupted.again [of os e n e1 e0] r True by blast
  next
    case False
    then show ?thesis using b r interrupted.first_call [of os n e] by auto
  qed
qed

lemma socket_read_received:
  assumes "http2d_socket_read os e s n w = Some (ret, bs, w', s', e')"
  shows "received os e s n bs e'"
proof -
  consider "n = 0 \<or> closed s" | "0 < n" "\<not> closed s" "is_tls s" | "0 < n" "\<not> closed s" "\<not> is_tls s" by auto
  then show ?thesis
  proof cases
    case 1
    then show ?thesis using assms by (auto simp: http2d_socket_read_def received_def split: if_splits)
  next
    case 2
    obtain r e1 where r: "SSL_read os e n = (r, e1)" by fastforce
    have "r = SSL_done bs \<and> e1 = e' \<or> bs = [] \<and> e1 = e' \<and> (\<forall>ds. r \<noteq> SSL_done ds)"
      using assms 2 r
      by (auto simp: http2d_socket_read_def http2d_socket_ssl_read_def split: if_splits ssl_answer.splits ssl_error.splits errno.splits)
    then show ?thesis using 2 r by (auto simp: received_def)
  next
    case 3
    obtain r e1 where r: "recv_retry os e n = Some (r, e1)" using assms 3 by (auto simp: http2d_socket_read_def bind_eq_Some_conv)
    then obtain e0 where e0: "interrupted os n e e0" "recv os e0 n = (r, e1)" "r \<noteq> Inl EINTR" using recv_retry_interrupted [OF r] by auto
    have "r = Inr bs \<and> e1 = e' \<or> bs = [] \<and> e1 = e' \<and> (\<exists>er. r = Inl er)"
      using assms 3 r by (auto simp: http2d_socket_read_def split: if_splits sum.splits errno.splits)
    then show ?thesis using 3 e0 by (auto simp: received_def)
  qed
qed

lemma socket_read_buf_outcome:
  assumes "os_contract os" "os_answers os" "buffer_ok b" "len b + count + 2 < 2 ^ 31" "malloc_ok h (len b + count + 2)"
  obtains ret bs w' b' s' e' where "http2d_socket_read_buf h os e s b count w = Some (ret, length bs, w', b', s', e')"
    "length bs \<le> count" "ret = ret_ok \<longleftrightarrow> bs \<noteq> []" "io_ret ret" "is_tls s' = is_tls s"
    "buffer_ok b'" "buf_str b' = buf_str b @ bs" "bs \<noteq> [] \<Longrightarrow> buffer_term b'" "buf b' \<noteq> None" "received os e s count bs e'"
proof -
  let ?n = "len b + count + 2"
  have u: "u64 ?n = ?n" using assms(4) by (simp add: u64_def)
  obtain b1 where b1: "http2d_buffer_ensure_size h b ?n = (ret_ok, b1)" "buffer_ok b1" "buf_str b1 = buf_str b"
    "len b1 = len b" "?n \<le> bsize b1" "buf b1 \<noteq> None"
    using http2d_buffer_ensure_size_ok [OF assms(3-5)] by (metis add_gr_0 zero_less_numeral)
  obtain m where m: "buf b1 = Some m" using b1(6) by blast
  have l: "?n \<le> length m" "bsize b1 < 2 ^ 31" "take (len b) m = buf_str b" "bsize b1 \<le> length m"
    using b1 m by (auto simp: buffer_ok_def buf_str_def)
  obtain ret bs w' s' e' where r: "http2d_socket_read os e s count w = Some (ret, bs, w', s', e')" "length bs \<le> count"
    "ret = ret_ok \<longleftrightarrow> bs \<noteq> []" "io_ret ret" "is_tls s' = is_tls s"
    using socket_read_outcome [OF assms(1,2)] by metis
  note rc = socket_read_received [OF r(1)]
  show thesis
  proof (cases "bs = []")
    case True
    with r b1 m u rc show thesis
      by (intro that [of ret "[]" w' b1 s' e']) (auto simp: http2d_socket_read_buf_def)
  next
    case False
    define k where "k = len b + length bs"
    have uk: "u32 k = k" using r(2) assms(4) by (simp add: u32_def k_def)
    obtain m2 where m2: "blk_write m (len b) bs = Some m2" "length m2 = length m" "take k m2 = buf_str b @ bs"
      using l r(2) b1(4) length_buf_str [OF assms(3)] by (auto simp: blk_write_def k_def)
    have m3: "blk_set m2 k 0 = Some (m2[k := 0])" using m2(2) l(1) r(2) by (simp add: blk_set_def k_def)
    let ?b = "b1\<lparr>buf := Some (m2[k := 0]), len := k\<rparr>"
    have "http2d_socket_read_buf h os e s b count w = Some (ret, length bs, w', ?b, s', e')"
      using False b1 m m2 m3 r(1) u uk by (simp add: http2d_socket_read_buf_def k_def)
    moreover have "buffer_ok ?b" using b1(5) l m2(2) r(2) by (auto simp: buffer_ok_def k_def)
    moreover have "buffer_term ?b" using m2(2) l(1) r(2) by (simp add: buffer_term_def k_def)
    moreover have "buf_str ?b = buf_str b @ bs" using m2(3) by (simp add: buf_str_def)
    ultimately show thesis using r rc that [of ret bs w' ?b s' e'] by auto
  qed
qed


text \<open>A system that meets both contracts: the peer's bytes wait in the first component and what was sent is in the
  second; at most four bytes are taken by one call.\<close>

definition pipe_os :: "(byte list \<times> byte list) os" where
  "pipe_os = \<lparr>
     recv = (\<lambda>(i, o1) n. if i = [] then (Inl EAGAIN, (i, o1)) else (Inr (take n i), (drop n i, o1))),
     send = (\<lambda>(i, o1) bs. (Inr (min 4 (length bs)), (i, o1 @ take 4 bs))),
     shutdown_wr = (\<lambda>e. (None, e)),
     SSL_read = (\<lambda>(i, o1) n. if i = [] \<or> n = 0 then (SSL_failed SSL_ERROR_WANT_READ EAGAIN, (i, o1))
       else (SSL_done (take n i), (drop n i, o1))),
     SSL_write = (\<lambda>(i, o1) bs. if bs = [] then (SSL_zero, (i, o1)) else (SSL_done (length bs), (i, o1 @ bs))),
     SSL_setup = (\<lambda>e. (ret_ok, e)),
     SSL_do_handshake = (\<lambda>e. (SSL_done (), e))\<rparr>"

lemma pipe_os_contract: "os_contract pipe_os"
  by (auto simp: os_contract_def pipe_os_def split: if_splits)

lemma pipe_os_answers: "os_answers pipe_os"
  unfolding os_answers_def
proof (intro conjI allI)
  fix e :: "byte list \<times> byte list" and n :: nat and bs :: "byte list"
  show "\<exists>r e'. recv_retry pipe_os e n = Some (r, e')"
    by (subst recv_retry.simps) (auto simp: pipe_os_def split: prod.splits)
  show "\<exists>r e'. send_retry pipe_os e bs = Some (r, e')"
    by (subst send_retry.simps) (auto simp: pipe_os_def split: prod.splits)
  show "\<exists>r e'. shutdown_retry pipe_os e = Some (r, e')"
    by (subst shutdown_retry.simps) (auto simp: pipe_os_def)
qed

subsection \<open>Properties\<close>

text \<open>C40: For every system that meets its documented contract, \<open>http2d_socket_read_buf\<close> appends to the text of the
  buffer exactly the bytes that the system delivered (\<open>received\<close>: by the first \<open>recv\<close> that no signal interrupted, or by
  \<open>SSL_read\<close>), at most as many as asked for, inside the memory it has reserved, and reports their number; it
  returns \<open>ret_ok\<close> if and only if there were any, and then the text is zero-terminated. On end of file, an error or
  a would-block the text is unchanged.\<close>

theorem http2d_socket_read_buf_correct:
  assumes "os_contract os" "os_answers os" "buffer_ok b" "len b + count + 2 < 2 ^ 31" "malloc_ok h (len b + count + 2)"
  shows "\<exists>ret bs w' b' s' e'. http2d_socket_read_buf h os e s b count w = Some (ret, length bs, w', b', s', e') \<and>
    received os e s count bs e' \<and>
    length bs \<le> count \<and> (ret = ret_ok \<longleftrightarrow> bs \<noteq> []) \<and> ret \<in> {ret_ok, ret_eof, ret_eagain, ret_error} \<and>
    buffer_ok b' \<and> buf_str b' = buf_str b @ bs \<and> (bs \<noteq> [] \<longrightarrow> buffer_term b')"
  using socket_read_buf_outcome [OF assms] unfolding io_ret_def by metis

theorem http2d_socket_read_buf_correct_witness:
  "\<exists>w' b' s'. http2d_socket_read_buf (total_heap (\<lambda>_. 0)) pipe_os (lit ''hello'', [])
      \<lparr>socket_fd = 3, closed = False, is_tls = False, phase_init = phase_init_set_up\<rparr> HTTP2D_BUF_INIT 3 0 =
      Some (ret_ok, 3, w', b', s', (lit ''lo'', [])) \<and> buffer_ok b' \<and> buf_str b' = lit ''hel''"
proof -
  let ?s = "\<lparr>socket_fd = 3, closed = False, is_tls = False, phase_init = phase_init_set_up\<rparr>" and ?e = "(lit ''hello'', [])"
  have b: "buffer_ok HTTP2D_BUF_INIT" "len HTTP2D_BUF_INIT = 0" "buf_str HTTP2D_BUF_INIT = []"
    by (simp_all add: buffer_ok_def HTTP2D_BUF_INIT_def buf_str_def)
  have c: "len HTTP2D_BUF_INIT + 3 + 2 < 2 ^ 31" "malloc_ok (total_heap (\<lambda>_. 0)) (len HTTP2D_BUF_INIT + 3 + 2)" using b(2) by simp_all
  have i: "fst (recv pipe_os e n) \<noteq> Inl EINTR" for e n by (simp add: pipe_os_def split: prod.split)
  have e0: "e0 = e" if "interrupted pipe_os n e e0" for n e e0 using that
  proof cases
    case (again e1)
    then have "fst (recv pipe_os e n) = Inl EINTR" by simp
    then show ?thesis using i by blast
  qed simp
  have "bs = lit ''hel'' \<and> e' = (lit ''lo'', [])" if "received pipe_os ?e ?s 3 bs e'" for bs e'
    using that by (auto simp: received_def dest!: e0) (auto simp: pipe_os_def lit_def)
  with http2d_socket_read_buf_correct [OF pipe_os_contract pipe_os_answers b(1) c, of ?e ?s 0] b(3) show ?thesis by (fastforce simp: lit_def)
qed

end
