(* ===== verification/Connection.thy ===== *)
theory Connection
  imports Spdy Spdy_Zlib Socket
begin

text \<open>
  Connections, \<^verbatim>\<open>src/src/connection.c\<close> and \<^verbatim>\<open>src/src/connection.h\<close>: the state of a connection and of the requests
  it carries, and the operations both protocols share: reading, writing through the two queues, shutting down
  and the lingering read.

  A SPDY connection and its base object are one record, and so are a SPDY request and its base. The references
  to the thread, the listener and the server are left out; which list of the thread a connection is on is the
  field \<open>place\<close>. A request that has been freed but is still linked is an element \<open>None\<close> of \<open>requests\<close>: touching it
  is a fault.
\<close>

subsection \<open>State\<close>

datatype req_phase = phase_unset | phase_spdy_nothing | phase_spdy_process_header | phase_spdy_setup_request
  | phase_spdy_init | phase_spdy_reading_post | phase_spdy_add_headers | phase_spdy_stepping

text \<open>The table of virtual methods: unset, or that of \<^verbatim>\<open>request-spdy.c\<close>.\<close>

datatype req_methods = methods_NULL | methods_spdy

record request =
  rq_header :: header
  rq_phase :: req_phase
  rq_error_code :: http_t
  rq_methods :: req_methods
  rq_block :: buffer
  rq_header_num :: "32 word"

datatype conn_phase = phase_conn_spdy_handshake | phase_conn_spdy_io | phase_conn_spdy_shutdown
  | phase_conn_spdy_linger_read

text \<open>The list a connection is linked into: the thread's active or polling connections, with the events it
  waits for; or none, after it has been freed.\<close>

datatype conn_place = place_active | place_polling int | place_freed

record 'z connection =
  conn_socket :: socket
  conn_protocol :: protocol
  buffer_read :: buffer
  buffer_write :: buffer
  buffer_write_ssl :: buffer
  conn_phase :: conn_phase
  requests :: "request option list"
  place :: conn_place
  conn_ID :: "32 word"
  going_away :: bool
  zst_inflate :: 'z
  zst_deflate :: 'z

subsection \<open>Lists of the thread\<close>

definition http2d_connection_move_to_polling :: "'z connection \<Rightarrow> int \<Rightarrow> ret_t \<times> 'z connection" where
  "http2d_connection_move_to_polling c mode = (ret_ok, c\<lparr>place := place_polling mode\<rparr>)"

definition http2d_connection_move_to_active :: "'z connection \<Rightarrow> ret_t \<times> 'z connection" where
  "http2d_connection_move_to_active c = (ret_ok, c\<lparr>place := place_active\<rparr>)"

text \<open>The callback of the event loop.\<close>

definition io_cb :: "'z connection \<Rightarrow> int \<Rightarrow> 'z connection" where
  "io_cb c revents =
     (if revents AND EV_READ \<noteq> 0 \<or> revents AND EV_WRITE \<noteq> 0 then snd (http2d_connection_move_to_active c) else c)"

text \<open>\<open>http2d_thread_recycle_conn\<close> unlinks the connection and frees it.\<close>

definition http2d_thread_recycle_conn :: "'z connection \<Rightarrow> ret_t \<times> 'z connection" where
  "http2d_thread_recycle_conn c = (ret_ok, c\<lparr>place := place_freed\<rparr>)"

subsection \<open>Reading and writing\<close>

definition http2d_connection_do_read ::
  "heap \<Rightarrow> 'e os \<Rightarrow> 'e \<Rightarrow> 'z connection \<Rightarrow> int \<Rightarrow> (ret_t \<times> int \<times> 'z connection \<times> 'e) option" where
  "http2d_connection_do_read h os e c w = do {
     (ret, _, w, b, s, e) \<leftarrow> http2d_socket_read_buf h os e (conn_socket c) (buffer_read c) 16382 w;
     Some (if ret \<in> {ret_ok, ret_eof, ret_eagain} then ret else ret_ok, w,
       c\<lparr>buffer_read := b, conn_socket := s\<rparr>, e) }"

text \<open>With TLS the bytes handed to OpenSSL have to stay the same until they are accepted: new data goes to
  \<open>buffer_write\<close> while \<open>buffer_write_ssl\<close> is being sent, and the two are swapped when the latter is empty.\<close>

definition write_and_drop ::
  "'e os \<Rightarrow> 'e \<Rightarrow> socket \<Rightarrow> buffer \<Rightarrow> int \<Rightarrow> (ret_t \<times> int \<times> socket \<times> buffer \<times> 'e) option" where
  "write_and_drop os e s b w = do {
     (ret, written, w, s, e) \<leftarrow> http2d_socket_write_buf os e s b w;
     if 0 < written
     then do { (_, b) \<leftarrow> http2d_buffer_move_to_begin b (u32 written); Some (ret, w, s, b, e) }
     else Some (ret, w, s, b, e) }"

definition swap_writers :: "'z connection \<Rightarrow> 'z connection" where
  "swap_writers c =
     (if \<not> http2d_buffer_is_empty (buffer_write c) \<and> http2d_buffer_is_empty (buffer_write_ssl c)
      then let (a, b) = http2d_buffer_swap_buffers (buffer_write_ssl c) (buffer_write c)
           in c\<lparr>buffer_write_ssl := a, buffer_write := b\<rparr>
      else c)"

definition http2d_connection_do_write ::
  "'e os \<Rightarrow> 'e \<Rightarrow> 'z connection \<Rightarrow> int \<Rightarrow> (ret_t \<times> int \<times> 'z connection \<times> 'e) option" where
  "http2d_connection_do_write os e c w =
     (let ssl = is_tls (conn_socket c);
          c = (if ssl then swap_writers c else c)
      in do {
        (ret, w, s, b, e) \<leftarrow> write_and_drop os e (conn_socket c) (if ssl then buffer_write_ssl c else buffer_write c) w;
        c \<leftarrow> Some (if ssl then c\<lparr>conn_socket := s, buffer_write_ssl := b\<rparr> else c\<lparr>conn_socket := s, buffer_write := b\<rparr>);
        Some (if ret \<in> {ret_ok, ret_eof, ret_eagain} then ret else ret_error, w, c, e) })"

subsection \<open>Closing\<close>

definition http2d_connection_do_shutdown :: "'e os \<Rightarrow> 'e \<Rightarrow> 'z connection \<Rightarrow> (ret_t \<times> 'z connection \<times> 'e) option" where
  "http2d_connection_do_shutdown os e c =
     (let c = c\<lparr>conn_socket := (conn_socket c)\<lparr>is_tls := False\<rparr>,
               conn_protocol := (conn_protocol c)\<lparr>presentation := prot_presentation_none\<rparr>\<rparr>
      in do {
        (ret, e) \<leftarrow> http2d_socket_shutdown os e (conn_socket c);
        Some (if ret \<noteq> ret_ok then ret_error else ret_ok, c, e) })"

text \<open>The loop of the lingering read, with the number of retries that are left: the array has 512 bytes, 511 are
  asked for, and only a read of at least 510 is repeated.\<close>

function linger_loop ::
  "'e os \<Rightarrow> 'e \<Rightarrow> socket \<Rightarrow> int \<Rightarrow> int \<Rightarrow> (ret_t \<times> int \<times> socket \<times> 'e) option" where
  "linger_loop os e s retries w = do {
     (ret, bs, w, s, e) \<leftarrow> http2d_socket_read os e s 511 w;
     (case ret of
        ret_eof \<Rightarrow> Some (ret_eof, w, s, e)
      | ret_error \<Rightarrow> Some (ret_error, w, s, e)
      | ret_eagain \<Rightarrow> Some (ret_eagain, w, s, e)
      | ret_ok \<Rightarrow>
          (if length bs \<ge> 510 \<and> retries - 1 > 0 then linger_loop os e s (retries - 1) w
           else Some (ret_eof, w, s, e))
      | _ \<Rightarrow> Some (ret_error, w, s, e)) }"
  by pat_completeness auto

termination
  by (relation "measure (\<lambda>(os, e, s, retries, w). nat retries)") auto

declare linger_loop.simps [simp del]

definition http2d_connection_do_linger_read ::
  "'e os \<Rightarrow> 'e \<Rightarrow> 'z connection \<Rightarrow> int \<Rightarrow> (ret_t \<times> int \<times> 'z connection \<times> 'e) option" where
  "http2d_connection_do_linger_read os e c w = do {
     (ret, w, s, e) \<leftarrow> linger_loop os e (conn_socket c) 2 w;
     Some (ret, w, c\<lparr>conn_socket := s\<rparr>, e) }"

subsection \<open>The write queue\<close>

text \<open>What a connection still has to send, in order.\<close>

definition out_queue :: "'z connection \<Rightarrow> byte list" where
  "out_queue c = (if is_tls (conn_socket c) then buf_str (buffer_write_ssl c) else []) @ buf_str (buffer_write c)"

definition writers_ok :: "'z connection \<Rightarrow> bool" where
  "writers_ok c \<longleftrightarrow> buf_wf (buffer_write c) \<and> buf_wf (buffer_write_ssl c)"

lemma wf_empty: "buf_wf b \<Longrightarrow> http2d_buffer_is_empty b \<longleftrightarrow> buf_str b = []"
  using buf_rep_empty buf_wf_rep(1) by blast

lemma write_and_drop_rep:
  assumes "os_contract os" "os_answers os" "buf_rep b q" "q \<noteq> []"
  obtains ret k w' s' e' b' where "http2d_socket_write os e s q w = Some (ret, k, w', s', e')"
    "write_and_drop os e s b w = Some (ret, w', s', b', e')" "buf_rep b' (drop k q)" "k \<le> length q"
    "ret = ret_ok \<longleftrightarrow> 0 < k" "is_tls s' = is_tls s"
proof -
  obtain m where m: "buf b = Some m" "len b = length q" "take (length q) m = q" "length q < length m" "length q < 2 ^ 31"
    using assms(3,4) by (auto elim!: buf_rep_cases)
  obtain ret k w' s' e' where r: "http2d_socket_write os e s q w = Some (ret, k, w', s', e')" "k \<le> length q"
    "ret = ret_ok \<longleftrightarrow> 0 < k" "io_ret ret" "is_tls s' = is_tls s"
    by (rule socket_write_outcome [OF assms(1,2)])
  have "blk_read m 0 (len b) = Some q" using m by (simp add: blk_read_def)
  then have e: "http2d_socket_write_buf os e s b w = Some (ret, k, w', s', e')"
    using m(1,2,5) r(1) assms(4) by (simp add: http2d_socket_write_buf_def s32_id)
  have u: "u32 k = k" using r(2) m(5) by (simp add: u32_def)
  show thesis
  proof (cases "k = 0")
    case True
    with e r assms(3) show thesis by (intro that [of ret k w' s' e' b]) (simp_all add: write_and_drop_def)
  next
    case False
    obtain b' where "http2d_buffer_move_to_begin b k = Some (ret_ok, b')" "buf_rep b' (drop k q)"
      using move_to_begin_rep [OF assms(3)] by blast
    with False e r u show thesis by (intro that [of ret k w' s' e' b']) (simp_all add: write_and_drop_def)
  qed
qed

text \<open>Swapping keeps the queue and puts its first bytes where the next write looks for them.\<close>

lemma swap_writers_queue:
  assumes "writers_ok c" "is_tls (conn_socket c)" "out_queue c \<noteq> []"
  shows "writers_ok (swap_writers c)" "out_queue (swap_writers c) = out_queue c" "conn_socket (swap_writers c) = conn_socket c"
    "buf_str (buffer_write_ssl (swap_writers c)) \<noteq> []"
  using assms by (auto simp: swap_writers_def writers_ok_def wf_empty out_queue_def http2d_buffer_swap_buffers_eq)

subsection \<open>The lingering read\<close>

lemma linger_loop_outcome:
  assumes "os_contract os" "os_answers os"
  shows "\<exists>ret w' s' e'. linger_loop os e s retries w = Some (ret, w', s', e') \<and> ret \<in> {ret_eof, ret_error, ret_eagain}"
proof (induction "nat retries" arbitrary: e s retries w rule: less_induct)
  case less
  obtain ret bs w' s' e' where r: "http2d_socket_read os e s 511 w = Some (ret, bs, w', s', e')" "io_ret ret"
    using socket_read_outcome [OF assms] by metis
  show ?case
  proof (cases "ret = ret_ok \<and> 510 \<le> length bs \<and> 1 < retries")
    case True
    then have "nat (retries - 1) < nat retries" by simp
    from less [OF this] True r(1) show ?thesis by (subst linger_loop.simps) simp
  next
    case False
    with r show ?thesis by (subst linger_loop.simps) (auto simp: io_ret_def)
  qed
qed

text \<open>A connection that has just been accepted, without TLS.\<close>

definition idle_connection :: "(bool \<times> byte list) connection" where
  "idle_connection = \<lparr>
     conn_socket = \<lparr>socket_fd = 3, closed = False, is_tls = False, phase_init = phase_init_set_up\<rparr>,
     conn_protocol = \<lparr>application = prot_app_http11, session = prot_session_SPDY, presentation = prot_presentation_none\<rparr>,
     buffer_read = HTTP2D_BUF_INIT, buffer_write = HTTP2D_BUF_INIT, buffer_write_ssl = HTTP2D_BUF_INIT,
     conn_phase = phase_conn_spdy_io, requests = [], place = place_active, conn_ID = 0, going_away = False,
     zst_inflate = (False, []), zst_deflate = (False, [])\<rparr>"

subsection \<open>Properties\<close>

text \<open>C3: \<open>http2d_connection_do_write\<close> offers a prefix of the queue of unsent bytes to the system and removes from the
  queue exactly the bytes the system has taken, so that none is lost, repeated or reordered, with TLS (where the
  queue is made of two buffers that are swapped) as without. It returns \<open>ret_ok\<close> only if something was sent.\<close>

theorem http2d_connection_do_write_correct:
  assumes "os_contract os" "os_answers os" "writers_ok c" "out_queue c \<noteq> []"
  shows "\<exists>bs rest ret0 k w' s' e' ret c'. out_queue c = bs @ rest \<and> bs \<noteq> [] \<and>
    http2d_socket_write os e (conn_socket c) bs w = Some (ret0, k, w', s', e') \<and> k \<le> length bs \<and>
    http2d_connection_do_write os e c w = Some (ret, w', c', e') \<and> out_queue c' = drop k (out_queue c) \<and> writers_ok c' \<and>
    (ret = ret_ok \<longleftrightarrow> 0 < k)"
proof -
  let ?tls = "is_tls (conn_socket c)"
  define d where "d = (if ?tls then swap_writers c else c)"
  define b where "b = (if ?tls then buffer_write_ssl d else buffer_write d)"
  have d: "writers_ok d" "out_queue d = out_queue c" "conn_socket d = conn_socket c" "buf_str b \<noteq> []"
    using swap_writers_queue [OF assms(3) _ assms(4)] assms(3,4) by (auto simp: d_def b_def out_queue_def)
  define q where "q = buf_str b"
  have rep: "buf_rep b q" using d(1) buf_wf_rep(1) [of b] by (auto simp: b_def q_def writers_ok_def)
  have q: "q \<noteq> []" using d(4) by (simp add: q_def)
  obtain r k w' s' e' b' where x: "http2d_socket_write os e (conn_socket c) q w = Some (r, k, w', s', e')"
    "write_and_drop os e (conn_socket c) b w = Some (r, w', s', b', e')" "buf_rep b' (drop k q)" "k \<le> length q"
    "r = ret_ok \<longleftrightarrow> 0 < k" "is_tls s' = ?tls"
    by (rule write_and_drop_rep [OF assms(1,2) rep q])
  define c' where "c' = (if ?tls then d\<lparr>conn_socket := s', buffer_write_ssl := b'\<rparr> else d\<lparr>conn_socket := s', buffer_write := b'\<rparr>)"
  let ?ret = "if r \<in> {ret_ok, ret_eof, ret_eagain} then r else ret_error"
  have run: "http2d_connection_do_write os e c w = Some (?ret, w', c', e')"
    using x(2) d(3) unfolding http2d_connection_do_write_def Let_def d_def [symmetric] b_def [symmetric] c'_def by simp
  have wf': "buf_wf b'" "buf_str b' = drop k q" using buf_wf_rep(2) [OF x(3)] by auto
  obtain rest where rest: "out_queue d = q @ rest" "out_queue c' = drop k q @ rest" "writers_ok c'"
    using d(1) wf' x(6) by (cases ?tls) (auto simp: out_queue_def c'_def b_def q_def writers_ok_def d(3))
  have "?ret = ret_ok \<longleftrightarrow> 0 < k" using x(5) by auto
  with run rest d(2) x(1,4) q show ?thesis
    by (intro exI [of _ q] exI [of _ rest]) auto
qed

theorem http2d_connection_do_write_correct_witness:
  "\<exists>k c' w' e'. 0 < k \<and> k \<le> 4 \<and> http2d_connection_do_write pipe_os ([], [])
      (idle_connection\<lparr>buffer_write := http2d_buffer_fake_str ''hello''\<rparr>) 0 = Some (ret_ok, w', c', e') \<and>
    out_queue c' = drop k (lit ''hello'')"
proof -
  let ?c = "idle_connection\<lparr>buffer_write := http2d_buffer_fake_str ''hello''\<rparr>"
  have q: "buf_rep (http2d_buffer_fake_str ''hello'') (lit ''hello'')" by (rule http2d_buffer_fake_str_rep) simp
  then have oq: "writers_ok ?c" "out_queue ?c = lit ''hello''"
    using buf_wf_rep(2) [OF q] buf_wf_rep(2) [OF buf_rep_INIT] by (simp_all add: writers_ok_def out_queue_def idle_connection_def)
  have ne: "out_queue ?c \<noteq> []" unfolding oq(2) by (simp add: lit_def)
  have w: "http2d_socket_write pipe_os ([], []) (conn_socket ?c) bs 0 =
      (if bs = [] then Some (ret_eagain, 0, EV_WRITE, conn_socket ?c, ([], []))
       else Some (ret_ok, min 4 (length bs), 0, conn_socket ?c, ([], take 4 bs)))" for bs
    by (subst http2d_socket_write_def, subst send_retry.simps) (simp add: pipe_os_def idle_connection_def)
  obtain bs rest ret0 k w' s' e' ret c' where x: "out_queue ?c = bs @ rest" "bs \<noteq> []"
    "http2d_socket_write pipe_os ([], []) (conn_socket ?c) bs 0 = Some (ret0, k, w', s', e')"
    "http2d_connection_do_write pipe_os ([], []) ?c 0 = Some (ret, w', c', e')" "out_queue c' = drop k (out_queue ?c)"
    "ret = ret_ok \<longleftrightarrow> 0 < k"
    using http2d_connection_do_write_correct [OF pipe_os_contract pipe_os_answers oq(1) ne, of "([], [])" 0]
    by (elim exE conjE) (rule that)
  then have k: "0 < k" "k \<le> 4" using w [of bs] by auto
  with x(4-6) oq(2) show ?thesis by (intro exI [of _ k]) auto
qed

end
