(* ===== verification/Request.thy ===== *)
theory Request
  imports Connection
begin

text \<open>
  Requests, \<^verbatim>\<open>src/src/request.c\<close>, \<^verbatim>\<open>src/src/request-spdy.c\<close> and the output functions of
  \<^verbatim>\<open>src/src/request-http.c\<close>: creating a request, rendering its response header, and the steps of a SPDY request
  from its header to the reply. A method that works on the connection of the request takes and returns both.
  The name in the \<open>server\<close> header, \<open>PACKAGE_NAME\<close>, comes from the build and is the parameter \<open>pkg\<close>.
\<close>

subsection \<open>Base class\<close>

definition http2d_request_init_base :: "request \<Rightarrow> ret_t \<times> request" where
  "http2d_request_init_base r =
     (let (ret, hdr) = http2d_header_init (rq_header r)
      in if ret \<noteq> ret_ok then (ret_error, r\<lparr>rq_header := hdr\<rparr>)
         else (ret_ok, r\<lparr>rq_header := hdr, rq_phase := phase_unset, rq_error_code := http_internal_error,
                rq_methods := methods_NULL\<rparr>))"

definition http2d_request_mrproper :: "request \<Rightarrow> request" where
  "http2d_request_mrproper r = r\<lparr>rq_header := snd (http2d_header_mrproper (rq_header r))\<rparr>"

subsection \<open>SPDY requests\<close>

text \<open>The size of the structure; what fresh memory holds is irrelevant, since every field is set.\<close>

definition sizeof_request_spdy :: nat where "sizeof_request_spdy = 176"

definition raw_request :: request where
  "raw_request = \<lparr>rq_header = \<lparr>hdr_method = HTTP2D_BUF_INIT, hdr_path = HTTP2D_BUF_INIT, hdr_version = HTTP2D_BUF_INIT,
     hdr_host = HTTP2D_BUF_INIT, hdr_scheme = HTTP2D_BUF_INIT\<rparr>, rq_phase = phase_unset, rq_error_code = http_unset,
     rq_methods = methods_NULL, rq_block = HTTP2D_BUF_INIT, rq_header_num = 0\<rparr>"

definition http2d_request_spdy_new :: "heap \<Rightarrow> ret_t \<times> request option" where
  "http2d_request_spdy_new h =
     (if \<not> malloc_ok h sizeof_request_spdy then (ret_nomem, None)
      else
        (let (ret, n) = http2d_request_init_base raw_request
         in if ret \<noteq> ret_ok then (ret, None)
            else (ret_ok, Some (n\<lparr>rq_block := snd (http2d_buffer_init (rq_block n)), rq_header_num := 0,
                   rq_phase := phase_spdy_nothing, rq_methods := methods_spdy\<rparr>))))"

definition req_spdy_mrproper :: "request \<Rightarrow> request" where
  "req_spdy_mrproper r = r\<lparr>rq_block := snd (http2d_buffer_mrproper (rq_block r)), rq_header_num := 0\<rparr>"

text \<open>Appending when the caller ignores the return code.\<close>

definition add_unchecked :: "heap \<Rightarrow> buffer \<Rightarrow> cptr \<Rightarrow> nat \<Rightarrow> buffer option" where
  "add_unchecked h b p n = do { (_, b) \<leftarrow> http2d_buffer_add h b p n; Some b }"

definition req_spdy_header_add :: "heap \<Rightarrow> request \<Rightarrow> buffer \<Rightarrow> buffer \<Rightarrow> (ret_t \<times> request) option" where
  "req_spdy_header_add h r key val = do {
     b \<leftarrow> add_unchecked h (rq_block r) (Ext (be32 (word_of_nat (len key)))) 4;
     b \<leftarrow> add_unchecked h b (buf_ptr key) (len key);
     b \<leftarrow> add_unchecked h b (Ext (be32 (word_of_nat (len val)))) 4;
     b \<leftarrow> add_unchecked h b (buf_ptr val) (len val);
     Some (ret_ok, r\<lparr>rq_block := b, rq_header_num := rq_header_num r + 1\<rparr>) }"

text \<open>A pointer to a literal: the text with its final zero.\<close>

definition fake_lit :: "string \<Rightarrow> nat \<Rightarrow> buffer" where
  "fake_lit s n = http2d_buffer_fake (Some (lit s @ [0])) n"

text \<open>A length that was not stored keeps its initial value 0.\<close>

definition req_spdy_header_base :: "heap \<Rightarrow> prot_application \<Rightarrow> request \<Rightarrow> (ret_t \<times> request) option" where
  "req_spdy_header_base h app r =
     (let (ret, str, n) = http2d_http_code_to_string (rq_error_code r); str_len = (case n of None \<Rightarrow> 0 | Some n \<Rightarrow> n)
      in if ret \<noteq> ret_ok \<or> str_len = 0 then Some (ret_error, r)
         else do {
           (_, r) \<leftarrow> req_spdy_header_add h r (http2d_buffer_fake_str '':status'') (fake_lit str str_len);
           (let (ret, str, str_len) = http2d_http_version_to_string app
            in if ret \<noteq> ret_ok \<or> str_len = 0 then Some (ret_error, r)
               else do {
                 (_, r) \<leftarrow> req_spdy_header_add h r (http2d_buffer_fake_str '':version'') (fake_lit str str_len);
                 Some (ret_ok, r) }) })"

definition req_spdy_header_finish ::
  "'z zlib \<Rightarrow> heap \<Rightarrow> request \<Rightarrow> 'z connection \<Rightarrow> (ret_t \<times> request \<times> 'z connection) option" where
  "req_spdy_header_finish Z h r c = do {
     (_, b) \<leftarrow> http2d_buffer_prepend h (rq_block r) (be32 (rq_header_num r)) 4;
     (_, z, tmp) \<leftarrow> http2d_spdy_zlib_deflate Z h (zst_deflate c) b HTTP2D_BUF_INIT;
     ctrl \<leftarrow> http2d_spdy_write_syn_reply (replicate 12 0) (conn_ID c) 0 (word_of_nat (len tmp));
     w \<leftarrow> add_unchecked h (buffer_write c) (Ext ctrl) 12;
     w \<leftarrow> add_unchecked h w (buf_ptr tmp) (len tmp);
     Some (ret_ok, r\<lparr>rq_block := snd (http2d_buffer_mrproper b)\<rparr>, c\<lparr>zst_deflate := z, buffer_write := w\<rparr>) }"

definition hello_payload :: "byte list" where
  "hello_payload = lit ''Hello World!!!!!!!!!'' @ [10]"

definition TEMP_hello_world :: "heap \<Rightarrow> 'z connection \<Rightarrow> (ret_t \<times> 'z connection) option" where
  "TEMP_hello_world h c = do {
     ctrl \<leftarrow> http2d_spdy_write_data (replicate 8 0) (conn_ID c) SPDY_CTRL_FLAG_FIN (word_of_nat (length hello_payload));
     w \<leftarrow> add_unchecked h (buffer_write c) (Ext ctrl) 8;
     w \<leftarrow> add_unchecked h w (Ext (hello_payload @ [0])) (length hello_payload);
     Some (ret_ok, c\<lparr>buffer_write := w\<rparr>) }"

subsection \<open>Virtual methods\<close>

definition http2d_request_header_base :: "heap \<Rightarrow> request \<Rightarrow> 'z connection \<Rightarrow> (ret_t \<times> request) option" where
  "http2d_request_header_base h r c =
     (case rq_methods r of methods_NULL \<Rightarrow> Some (ret_error, r)
      | methods_spdy \<Rightarrow> req_spdy_header_base h (application (conn_protocol c)) r)"

definition http2d_request_header_add :: "heap \<Rightarrow> request \<Rightarrow> buffer \<Rightarrow> buffer \<Rightarrow> (ret_t \<times> request) option" where
  "http2d_request_header_add h r key val =
     (case rq_methods r of methods_NULL \<Rightarrow> Some (ret_error, r)
      | methods_spdy \<Rightarrow> req_spdy_header_add h r key val)"

definition http2d_request_header_finish ::
  "'z zlib \<Rightarrow> heap \<Rightarrow> request \<Rightarrow> 'z connection \<Rightarrow> (ret_t \<times> request \<times> 'z connection) option" where
  "http2d_request_header_finish Z h r c =
     (case rq_methods r of methods_NULL \<Rightarrow> Some (ret_error, r, c)
      | methods_spdy \<Rightarrow> req_spdy_header_finish Z h r c)"

definition http2d_request_header_add_common :: "heap \<Rightarrow> string \<Rightarrow> request \<Rightarrow> (ret_t \<times> request) option" where
  "http2d_request_header_add_common h pkg r = do {
     (_, r) \<leftarrow> http2d_request_header_add h r (HTTP2D_BUF_INIT_FAKE ''server'') (HTTP2D_BUF_INIT_FAKE pkg);
     Some (ret_ok, r) }"

text \<open>The cases of the switch fall through from every early phase to the one that answers.\<close>

definition req_spdy_step ::
  "'z zlib \<Rightarrow> heap \<Rightarrow> string \<Rightarrow> request \<Rightarrow> 'z connection \<Rightarrow> (ret_t \<times> request \<times> 'z connection) option" where
  "req_spdy_step Z h pkg r c =
     (case rq_phase r of
        phase_spdy_stepping \<Rightarrow> Some (ret_eof, r, c)
      | phase_unset \<Rightarrow> Some (ret_error, r, c)
      | _ \<Rightarrow> do {
          r \<leftarrow> Some (r\<lparr>rq_phase := phase_spdy_add_headers, rq_error_code := http_ok\<rparr>);
          (_, r) \<leftarrow> req_spdy_header_base h (application (conn_protocol c)) r;
          (_, r) \<leftarrow> http2d_request_header_add_common h pkg r;
          (_, r, c) \<leftarrow> http2d_request_header_finish Z h r c;
          (_, c) \<leftarrow> TEMP_hello_world h c;
          Some (ret_ok, r\<lparr>rq_phase := phase_spdy_stepping\<rparr>, c) })"

definition http2d_request_step ::
  "'z zlib \<Rightarrow> heap \<Rightarrow> string \<Rightarrow> request \<Rightarrow> 'z connection \<Rightarrow> (ret_t \<times> request \<times> 'z connection) option" where
  "http2d_request_step Z h pkg r c =
     (case rq_methods r of methods_NULL \<Rightarrow> Some (ret_error, r, c)
      | methods_spdy \<Rightarrow> req_spdy_step Z h pkg r c)"

text \<open>\<open>req_spdy_free\<close>: after it the request is gone.\<close>

definition http2d_request_free :: "request \<Rightarrow> request option" where
  "http2d_request_free r =
     (case rq_methods r of methods_NULL \<Rightarrow> Some r | methods_spdy \<Rightarrow> None)"

subsection \<open>HTTP output\<close>

definition req_http_header_add :: "heap \<Rightarrow> 'z connection \<Rightarrow> buffer \<Rightarrow> buffer \<Rightarrow> (ret_t \<times> 'z connection) option" where
  "req_http_header_add h c key val = do {
     (_, w) \<leftarrow> http2d_buffer_add_buffer h (buffer_write c) key;
     (_, w) \<leftarrow> http2d_buffer_add_str h w '': '';
     (_, w) \<leftarrow> http2d_buffer_add_buffer h w val;
     Some (ret_ok, c\<lparr>buffer_write := w\<rparr>) }"

definition req_http_header_add_response :: "heap \<Rightarrow> http_t \<Rightarrow> 'z connection \<Rightarrow> (ret_t \<times> 'z connection) option" where
  "req_http_header_add_response h code c =
     (let (ret, str, n) = http2d_http_code_to_string code; str_len = (case n of None \<Rightarrow> 0 | Some n \<Rightarrow> n)
      in if ret \<noteq> ret_ok \<or> str_len = 0 then Some (ret_error, c)
         else do {
           w \<leftarrow> add_unchecked h (buffer_write c) (Ext (lit str @ [0])) str_len;
           (_, w) \<leftarrow> http2d_buffer_add_char h w (chr CHR '' '');
           (let (ret, str, str_len) = http2d_http_version_to_string (application (conn_protocol c))
            in if ret \<noteq> ret_ok \<or> str_len = 0 then Some (ret_error, c\<lparr>buffer_write := w\<rparr>)
               else do {
                 w \<leftarrow> add_unchecked h w (Ext (lit str @ [0])) str_len;
                 Some (ret_ok, c\<lparr>buffer_write := w\<rparr>) }) })"

definition req_http_header_finish :: "heap \<Rightarrow> 'z connection \<Rightarrow> (ret_t \<times> 'z connection) option" where
  "req_http_header_finish h c = do {
     w \<leftarrow> add_unchecked h (buffer_write c) (Ext [13, 10, 13, 10, 0]) 4;
     Some (ret_ok, c\<lparr>buffer_write := w\<rparr>) }"

subsection \<open>The header block\<close>

text \<open>The format of a block of names and values, before compression.\<close>

definition nv_pair :: "byte list \<times> byte list \<Rightarrow> byte list" where
  "nv_pair p = be32 (word_of_nat (length (fst p))) @ fst p @ be32 (word_of_nat (length (snd p))) @ snd p"

definition nv_block :: "(byte list \<times> byte list) list \<Rightarrow> byte list" where
  "nv_block ps = be32 (word_of_nat (length ps)) @ concat (map nv_pair ps)"

text \<open>A request has collected the pairs \<open>ps\<close>.\<close>

definition rq_rep :: "request \<Rightarrow> (byte list \<times> byte list) list \<Rightarrow> bool" where
  "rq_rep r ps \<longleftrightarrow> buf_rep (rq_block r) (concat (map nv_pair ps)) \<and> rq_header_num r = word_of_nat (length ps) \<and>
     rq_methods r = methods_spdy"

subsection \<open>Rendering headers\<close>

lemma add_unchecked_rep:
  assumes "buf_rep b s" "n \<le> length bs" "length s + n + 17 < 2 ^ 31"
  obtains b' where "add_unchecked (total_heap f) b (Ext bs) n = Some b'" "buf_rep b' (s @ take n bs)"
  using http2d_buffer_add_rep [OF assms, of "total_heap f"] by (auto simp: grows_to_def add_unchecked_def)

lemma add_unchecked_buf_rep:
  assumes "buf_rep b s" "buf_rep key k" "length s + length k + 17 < 2 ^ 31"
  obtains b' where "add_unchecked (total_heap f) b (buf_ptr key) (len key) = Some b'" "buf_rep b' (s @ k)"
  using http2d_buffer_add_buffer_rep [OF assms, of "total_heap f"]
  by (auto simp: grows_to_def add_unchecked_def http2d_buffer_add_buffer_def)

definition nv_room :: "(byte list \<times> byte list) list \<Rightarrow> bool" where
  "nv_room ps \<longleftrightarrow> length (concat (map nv_pair ps)) + 40 < 2 ^ 31"

lemma req_spdy_header_add_rep:
  assumes "rq_rep r ps" "buf_rep key k" "buf_rep val v" "nv_room (ps @ [(k, v)])"
  shows "\<exists>r'. req_spdy_header_add (total_heap f) r key val = Some (ret_ok, r') \<and> rq_rep r' (ps @ [(k, v)])"
proof -
  let ?s = "concat (map nv_pair ps)"
  have room: "length ?s + length k + length v + 8 + 40 < 2 ^ 31" using assms(4) by (simp add: nv_room_def nv_pair_def)
  have l: "len key = length k" "len val = length v" using assms(2,3) buf_rep_len by auto
  have r: "buf_rep (rq_block r) ?s" "rq_header_num r = word_of_nat (length ps)" "rq_methods r = methods_spdy"
    using assms(1) by (auto simp: rq_rep_def)
  obtain b1 where b1: "add_unchecked (total_heap f) (rq_block r) (Ext (be32 (word_of_nat (length k)))) 4 = Some b1"
    "buf_rep b1 (?s @ be32 (word_of_nat (length k)))"
    using add_unchecked_rep [OF r(1), of 4 "be32 (word_of_nat (length k))" f] room by auto
  obtain b2 where b2: "add_unchecked (total_heap f) b1 (buf_ptr key) (len key) = Some b2"
    "buf_rep b2 (?s @ be32 (word_of_nat (length k)) @ k)"
    using add_unchecked_buf_rep [OF b1(2) assms(2), of f] room by auto
  obtain b3 where b3: "add_unchecked (total_heap f) b2 (Ext (be32 (word_of_nat (length v)))) 4 = Some b3"
    "buf_rep b3 (?s @ be32 (word_of_nat (length k)) @ k @ be32 (word_of_nat (length v)))"
    using add_unchecked_rep [OF b2(2), of 4 "be32 (word_of_nat (length v))" f] room by auto
  obtain b4 where b4: "add_unchecked (total_heap f) b3 (buf_ptr val) (len val) = Some b4"
    "buf_rep b4 (?s @ nv_pair (k, v))"
    using add_unchecked_buf_rep [OF b3(2) assms(3), of f] room by (auto simp: nv_pair_def)
  show ?thesis
    using b1(1) b2(1) b3(1) b4 r l by (simp add: req_spdy_header_add_def rq_rep_def add.commute)
qed

text \<open>
  What the code that fills in a response relies on: a place that collects headers in the order in which they are
  added, as long as they fit.
\<close>

locale header_sink =
  fixes rep :: "'r \<Rightarrow> (byte list \<times> byte list) list \<Rightarrow> bool"
    and add :: "'r \<Rightarrow> buffer \<Rightarrow> buffer \<Rightarrow> (ret_t \<times> 'r) option"
    and room :: "(byte list \<times> byte list) list \<Rightarrow> bool"
  assumes add_law: "rep r ps \<Longrightarrow> buf_rep key k \<Longrightarrow> buf_rep val v \<Longrightarrow> room (ps @ [(k, v)]) \<Longrightarrow>
      \<exists>r'. add r key val = Some (ret_ok, r') \<and> rep r' (ps @ [(k, v)])"
begin

text \<open>Constant names and values.\<close>

lemma add_lit:
  assumes "rep r ps" "room (ps @ [(lit k, lit v)])" "length k < 2 ^ 31 - 1" "length v < 2 ^ 31 - 1"
  shows "\<exists>r'. add r (http2d_buffer_fake_str k) (http2d_buffer_fake_str v) = Some (ret_ok, r') \<and> rep r' (ps @ [(lit k, lit v)])"
  using add_law [OF assms(1) http2d_buffer_fake_str_rep http2d_buffer_fake_str_rep assms(2)] assms(3,4) by blast

end

interpretation spdy_sink: header_sink rq_rep "req_spdy_header_add (total_heap f)" nv_room for f
proof unfold_locales
  fix r ps key k val v
  assume "rq_rep r ps" "buf_rep key k" "buf_rep val v" "nv_room (ps @ [(k, v)])"
  then show "\<exists>r'. req_spdy_header_add (total_heap f) r key val = Some (ret_ok, r') \<and> rq_rep r' (ps @ [(k, v)])"
    by (rule req_spdy_header_add_rep)
qed

text \<open>The headers of every reply.\<close>

definition version_headers :: "prot_application \<Rightarrow> (byte list \<times> byte list) list" where
  "version_headers app =
     (case http2d_http_version_to_string app of (ret, s, _) \<Rightarrow> if ret = ret_ok then [(lit '':version'', lit s)] else [])"

lemma req_spdy_header_base_rep:
  assumes "rq_rep r []" "rq_error_code r = http_ok"
  shows "\<exists>ret r'. req_spdy_header_base (total_heap f) app r = Some (ret, r') \<and>
    rq_rep r' ((lit '':status'', lit ''200 OK'') # version_headers app) \<and> (ret = ret_ok \<longleftrightarrow> app \<noteq> prot_app_unknown)"
proof -
  have c: "http2d_http_code_to_string http_ok = (ret_ok, ''200 OK'', Some 6)"
    by (simp add: http2d_http_code_to_string_def to_string_cases_def)
  have f: "fake_lit s (length s) = http2d_buffer_fake_str s" for s by (simp add: fake_lit_def http2d_buffer_fake_str_def)
  have f6: "fake_lit ''200 OK'' 6 = http2d_buffer_fake_str ''200 OK''" using f [of "''200 OK''"] by (simp add: eval_nat_numeral)
  obtain r1 where r1: "req_spdy_header_add (total_heap f) r (http2d_buffer_fake_str '':status'') (http2d_buffer_fake_str ''200 OK'') =
      Some (ret_ok, r1)" "rq_rep r1 [(lit '':status'', lit ''200 OK'')]"
    using spdy_sink.add_lit [OF assms(1), of "'':status''" "''200 OK''" f] by (auto simp: nv_room_def nv_pair_def)
  have v: "\<exists>r2. req_spdy_header_add (total_heap f) r1 (http2d_buffer_fake_str '':version'') (http2d_buffer_fake_str s) = Some (ret_ok, r2) \<and>
      rq_rep r2 [(lit '':status'', lit ''200 OK''), (lit '':version'', lit s)]" if "length s = 8" for s
    using spdy_sink.add_lit [OF r1(2), of "'':version''" s f] that by (simp add: nv_room_def nv_pair_def)
  have f8: "fake_lit s 8 = http2d_buffer_fake_str s" if "length s = 8" for s using f [of s] that by simp
  show ?thesis
    using v [of "''HTTP/1.1''"] v [of "''HTTP/1.0''"] v [of "''HTTP/2.0''"] r1
    by (cases app) (auto simp: req_spdy_header_base_def assms(2) c f6 f8 version_headers_def http2d_http_version_to_string_def)
qed


text \<open>The frames a reply is made of, as the protocol describes them.\<close>

definition syn_reply_frame :: "32 word \<Rightarrow> byte list \<Rightarrow> byte list" where
  "syn_reply_frame i out = [0x80, 3, 0, 2, 0] @ tl (be32 (word_of_nat (length out) + 4)) @ be32 (i AND SPDY_MASK_STREAM_ID) @ out"

definition data_frame :: "32 word \<Rightarrow> byte list \<Rightarrow> byte list" where
  "data_frame i bs = be32 (i AND SPDY_MASK_STREAM_ID) @ [SPDY_CTRL_FLAG_FIN] @ tl (be32 (word_of_nat (length bs))) @ bs"

lemma length_tl_be32 [simp]: "length (tl (be32 n)) = 3"
  by (simp add: be32_def)

lemma TEMP_hello_world_rep:
  assumes "buf_rep (buffer_write c) w" "length w + 100 < 2 ^ 31"
  shows "\<exists>b. TEMP_hello_world (total_heap f) c = Some (ret_ok, c\<lparr>buffer_write := b\<rparr>) \<and>
    buf_rep b (w @ data_frame (conn_ID c) hello_payload)"
proof -
  let ?ctrl = "be32 (conn_ID c AND SPDY_MASK_STREAM_ID) @ [SPDY_CTRL_FLAG_FIN] @ tl (be32 (word_of_nat (length hello_payload)))"
  have lp: "length hello_payload = 21" by (simp add: hello_payload_def)
  have c: "http2d_spdy_write_data (replicate 8 0) (conn_ID c) SPDY_CTRL_FLAG_FIN (word_of_nat (length hello_payload)) = Some ?ctrl"
    by (subst write_data_bytes) simp_all
  obtain b1 where b1: "add_unchecked (total_heap f) (buffer_write c) (Ext ?ctrl) 8 = Some b1" "buf_rep b1 (w @ ?ctrl)"
    using add_unchecked_rep [OF assms(1), of 8 ?ctrl f] assms(2) by auto
  obtain b2 where b2: "add_unchecked (total_heap f) b1 (Ext (hello_payload @ [0])) (length hello_payload) = Some b2"
    "buf_rep b2 ((w @ ?ctrl) @ hello_payload)"
    using add_unchecked_rep [OF b1(2), of "length hello_payload" "hello_payload @ [0]" f] assms(2) lp by auto
  show ?thesis using c b1(1) b2 by (intro exI [of _ b2]) (simp add: TEMP_hello_world_def data_frame_def)
qed

lemma req_spdy_header_finish_rep:
  assumes "deflate_contract Z yields" "rq_rep r ps" "nv_room ps" "length ps < 2 ^ 32"
    and "yields (length (nv_block ps)) (zst_deflate c) (nv_block ps) out ze"
    and "buf_rep (buffer_write c) w" "length w + length out + 40 < 2 ^ 31"
  shows "\<exists>r' b. req_spdy_header_finish Z (total_heap f) r c = Some (ret_ok, r', c\<lparr>zst_deflate := ze, buffer_write := b\<rparr>) \<and>
    rq_methods r' = methods_spdy \<and> buf_rep b (w @ syn_reply_frame (conn_ID c) out)"
proof -
  have r: "buf_rep (rq_block r) (concat (map nv_pair ps))" "rq_header_num r = word_of_nat (length ps)" "rq_methods r = methods_spdy"
    using assms(2) by (auto simp: rq_rep_def)
  obtain b where b: "http2d_buffer_prepend (total_heap f) (rq_block r) (be32 (rq_header_num r)) 4 = Some (ret_ok, b)"
    "buf_rep b (nv_block ps)"
    using http2d_buffer_prepend_grows [of "rq_block r" 4 "be32 (rq_header_num r)" "total_heap f"] r(1) assms(3) buf_rep_len [OF r(1)]
    by (auto simp: grows_to_def nv_block_def r(2) nv_room_def buf_rep_def)
  have ne: "nv_block ps \<noteq> []" by (simp add: nv_block_def be32_def)
  obtain tmp where tmp: "http2d_spdy_zlib_deflate Z (total_heap f) (zst_deflate c) b HTTP2D_BUF_INIT = Some (ret_ok, ze, tmp)"
    "buf_rep tmp out"
    using zlib_deflate_rep [OF assms(1) b(2) ne assms(5) buf_rep_INIT, of f] assms(7) by auto
  have lt: "len tmp = length out" using tmp(2) by (rule buf_rep_len)
  let ?ctrl = "[0x80, 3, 0, 2, 0] @ tl (be32 (word_of_nat (length out) + 4)) @ be32 (conn_ID c AND SPDY_MASK_STREAM_ID)"
  have c: "http2d_spdy_write_syn_reply (replicate 12 0) (conn_ID c) 0 (word_of_nat (len tmp)) = Some ?ctrl"
    by (subst write_syn_reply_bytes) (simp_all add: lt)
  obtain b1 where b1: "add_unchecked (total_heap f) (buffer_write c) (Ext ?ctrl) 12 = Some b1" "buf_rep b1 (w @ ?ctrl)"
    using add_unchecked_rep [OF assms(6), of 12 ?ctrl f] assms(7) by auto
  obtain b2 where b2: "add_unchecked (total_heap f) b1 (buf_ptr tmp) (len tmp) = Some b2" "buf_rep b2 ((w @ ?ctrl) @ out)"
    using add_unchecked_buf_rep [OF b1(2) tmp(2), of f] assms(7) by auto
  show ?thesis
    using b(1) tmp(1) c b1(1) b2 r(3)
    by (intro exI [of _ "r\<lparr>rq_block := snd (http2d_buffer_mrproper b)\<rparr>"] exI [of _ b2])
      (simp add: req_spdy_header_finish_def syn_reply_frame_def)
qed


text \<open>What one step of a fresh request puts into the write queue.\<close>

definition reply_headers :: "prot_application \<Rightarrow> string \<Rightarrow> (byte list \<times> byte list) list" where
  "reply_headers app pkg = (lit '':status'', lit ''200 OK'') # version_headers app @ [(lit ''server'', lit pkg)]"

definition early_phase :: "req_phase \<Rightarrow> bool" where
  "early_phase p \<longleftrightarrow> p \<noteq> phase_unset \<and> p \<noteq> phase_spdy_stepping"

lemma version_headers_size: "length (concat (map nv_pair (version_headers app))) \<le> 24" "length (version_headers app) \<le> 1"
  by (cases app; simp add: version_headers_def http2d_http_version_to_string_def nv_pair_def)+

lemma reply_room: "length pkg < 2 ^ 30 \<Longrightarrow> nv_room (reply_headers app pkg)"
  using version_headers_size [of app] by (simp add: nv_room_def reply_headers_def nv_pair_def)

lemma req_spdy_step_rep:
  assumes "deflate_contract Z yields" "rq_rep r []" "early_phase (rq_phase r)" "length pkg < 2 ^ 30"
    and "yields (length (nv_block (reply_headers (application (conn_protocol c)) pkg))) (zst_deflate c)
      (nv_block (reply_headers (application (conn_protocol c)) pkg)) out ze"
    and "buf_rep (buffer_write c) w" "length w + length out + 200 < 2 ^ 31"
  shows "\<exists>r' b. http2d_request_step Z (total_heap f) pkg r c =
      Some (ret_ok, r', c\<lparr>zst_deflate := ze, buffer_write := b\<rparr>) \<and> rq_methods r' = methods_spdy \<and> rq_phase r' = phase_spdy_stepping \<and>
    buf_rep b (w @ syn_reply_frame (conn_ID c) out @ data_frame (conn_ID c) hello_payload)"
proof -
  let ?app = "application (conn_protocol c)" and ?h = "total_heap f"
  define r0 where "r0 = r\<lparr>rq_phase := phase_spdy_add_headers, rq_error_code := http_ok\<rparr>"
  have m: "rq_methods r = methods_spdy" using assms(2) by (simp add: rq_rep_def)
  have r0: "rq_rep r0 []" "rq_error_code r0 = http_ok" using assms(2) by (simp_all add: r0_def rq_rep_def)
  obtain ret r1 where r1: "req_spdy_header_base ?h ?app r0 = Some (ret, r1)" "rq_rep r1 ((lit '':status'', lit ''200 OK'') # version_headers ?app)"
    using req_spdy_header_base_rep [OF r0] by blast
  have "nv_room (((lit '':status'', lit ''200 OK'') # version_headers ?app) @ [(lit ''server'', lit pkg)])"
    using reply_room [OF assms(4), of ?app] by (simp add: reply_headers_def)
  then obtain r2 where r2: "req_spdy_header_add ?h r1 (HTTP2D_BUF_INIT_FAKE ''server'') (HTTP2D_BUF_INIT_FAKE pkg) = Some (ret_ok, r2)"
    "rq_rep r2 (reply_headers ?app pkg)"
    using spdy_sink.add_law [OF r1(2) HTTP2D_BUF_INIT_FAKE_rep HTTP2D_BUF_INIT_FAKE_rep, of "''server''" pkg f] assms(4)
    by (auto simp: reply_headers_def)
  have m1: "rq_methods r1 = methods_spdy" "rq_methods r2 = methods_spdy" using r1(2) r2(2) by (simp_all add: rq_rep_def)
  have "length (reply_headers ?app pkg) < 2 ^ 32" using version_headers_size(2) [of ?app] by (simp add: reply_headers_def)
  then obtain r3 b where r3: "req_spdy_header_finish Z ?h r2 c = Some (ret_ok, r3, c\<lparr>zst_deflate := ze, buffer_write := b\<rparr>)"
    "rq_methods r3 = methods_spdy" "buf_rep b (w @ syn_reply_frame (conn_ID c) out)"
    using req_spdy_header_finish_rep [OF assms(1) r2(2) reply_room [OF assms(4)] _ assms(5,6), of f] assms(7) by auto
  let ?c = "c\<lparr>zst_deflate := ze, buffer_write := b\<rparr>"
  have "length (w @ syn_reply_frame (conn_ID c) out) + 100 < 2 ^ 31" using assms(7) by (simp add: syn_reply_frame_def)
  then obtain b2 where b2: "TEMP_hello_world ?h ?c = Some (ret_ok, ?c\<lparr>buffer_write := b2\<rparr>)"
    "buf_rep b2 ((w @ syn_reply_frame (conn_ID c) out) @ data_frame (conn_ID c) hello_payload)"
    using TEMP_hello_world_rep [of ?c "w @ syn_reply_frame (conn_ID c) out" f] r3(3) by auto
  have "req_spdy_step Z ?h pkg r c = Some (ret_ok, r3\<lparr>rq_phase := phase_spdy_stepping\<rparr>, ?c\<lparr>buffer_write := b2\<rparr>)"
    using assms(3) r1(1) r2(1) r3(1) b2(1) m1
    by (cases "rq_phase r")
      (simp_all add: req_spdy_step_def early_phase_def r0_def http2d_request_header_add_common_def http2d_request_header_add_def
        http2d_request_header_finish_def)
  with b2(2) r3(2) m show ?thesis
    by (intro exI [of _ "r3\<lparr>rq_phase := phase_spdy_stepping\<rparr>"] exI [of _ b2]) (simp add: http2d_request_step_def)
qed


subsection \<open>Properties\<close>

text \<open>C2: The first step of a SPDY request answers it: it appends to the write queue a SYN_REPLY frame for the stream
  of the connection, with the compressed block of the headers \<open>:status\<close>, \<open>:version\<close> (unless the version of the
  protocol is not known) and \<open>server\<close>, followed by one DATA frame with the page and the FIN flag, and nothing else;
  the compression stream is left as the flush leaves it. The second step reports \<open>ret_eof\<close>.\<close>

theorem http2d_request_step_reply:
  assumes "deflate_contract Z yields" "rq_rep r []" "early_phase (rq_phase r)" "length pkg < 2 ^ 30"
    and "yields (length (nv_block (reply_headers (application (conn_protocol c)) pkg))) (zst_deflate c)
      (nv_block (reply_headers (application (conn_protocol c)) pkg)) out ze"
    and "buf_rep (buffer_write c) w" "length w + length out + 200 < 2 ^ 31"
  shows "\<exists>r' b. http2d_request_step Z (total_heap f) pkg r c = Some (ret_ok, r', c\<lparr>zst_deflate := ze, buffer_write := b\<rparr>) \<and>
    buf_rep b (w @ syn_reply_frame (conn_ID c) out @ data_frame (conn_ID c) hello_payload) \<and>
    (\<forall>h c'. http2d_request_step Z h pkg r' c' = Some (ret_eof, r', c'))"
proof -
  obtain r' b where x: "http2d_request_step Z (total_heap f) pkg r c = Some (ret_ok, r', c\<lparr>zst_deflate := ze, buffer_write := b\<rparr>)"
    "rq_methods r' = methods_spdy" "rq_phase r' = phase_spdy_stepping"
    "buf_rep b (w @ syn_reply_frame (conn_ID c) out @ data_frame (conn_ID c) hello_payload)"
    using req_spdy_step_rep [OF assms] by blast
  then have "http2d_request_step Z h pkg r' c' = Some (ret_eof, r', c')" for h c'
    by (simp add: http2d_request_step_def req_spdy_step_def)
  with x show ?thesis by blast
qed

theorem http2d_request_step_reply_witness:
  "\<exists>r r' b out. http2d_request_spdy_new (total_heap (\<lambda>_. 0)) = (ret_ok, Some r) \<and>
    http2d_request_step stored_zlib (total_heap (\<lambda>_. 0)) ''http2d'' r idle_connection =
      Some (ret_ok, r', idle_connection\<lparr>zst_deflate := (False, []), buffer_write := b\<rparr>) \<and>
    out = nv_block [(lit '':status'', lit ''200 OK''), (lit '':version'', lit ''HTTP/1.1''), (lit ''server'', lit ''http2d'')] \<and>
    buf_rep b (syn_reply_frame 0 out @ data_frame 0 hello_payload)"
proof -
  let ?r = "raw_request\<lparr>rq_error_code := http_internal_error, rq_phase := phase_spdy_nothing, rq_methods := methods_spdy\<rparr>"
  have n: "http2d_request_spdy_new (total_heap (\<lambda>_. 0)) = (ret_ok, Some ?r)"
    by (simp add: http2d_request_spdy_new_def http2d_request_init_base_def raw_request_def http2d_header_init_def
        http2d_buffer_init_def HTTP2D_BUF_INIT_def)
  have r: "rq_rep ?r []" by (simp add: rq_rep_def raw_request_def)
  have h: "reply_headers (application (conn_protocol idle_connection)) ''http2d'' =
      [(lit '':status'', lit ''200 OK''), (lit '':version'', lit ''HTTP/1.1''), (lit ''server'', lit ''http2d'')]"
    by (simp add: reply_headers_def version_headers_def idle_connection_def http2d_http_version_to_string_def)
  have z: "zst_deflate idle_connection = (False, [])" "buffer_write idle_connection = HTTP2D_BUF_INIT" "conn_ID idle_connection = 0"
    by (simp_all add: idle_connection_def)
  let ?out = "nv_block [(lit '':status'', lit ''200 OK''), (lit '':version'', lit ''HTTP/1.1''), (lit ''server'', lit ''http2d'')]"
  have l: "length ?out < 1000" by (simp add: nv_block_def nv_pair_def)
  show ?thesis
    using http2d_request_step_reply [OF stored_deflate r, of "''http2d''" idle_connection ?out "(False, [])" "[]" "\<lambda>_. 0"] n l
    unfolding h z by (auto simp: stored_yields_def early_phase_def)
qed

end
