(* ===== verification/Connection_Spdy.thy ===== *)
theory Connection_Spdy
  imports Request
begin

text \<open>
  The SPDY engine, \<^verbatim>\<open>src/src/connection-spdy.c\<close>: decoding the header block of a SYN_STREAM frame, the handlers of the
  frame types, the loop over the read buffer, and the steps of a connection. The call of \<open>exit\<close> for a frame of an
  unknown type is an outcome of its own. Positions in a buffer are \<open>nat\<close>; the unsigned arithmetic of the
  completeness test wraps as in C.
\<close>

subsection \<open>Creation\<close>

definition http2d_connection_init_base :: "'z connection \<Rightarrow> ret_t \<times> 'z connection" where
  "http2d_connection_init_base c =
     (let (ret, s) = http2d_socket_init (conn_socket c)
      in if ret \<noteq> ret_ok then (ret_error, c\<lparr>requests := [], conn_socket := s\<rparr>)
         else (ret_ok, c\<lparr>requests := [], conn_socket := s, conn_phase := phase_conn_spdy_handshake,
                conn_protocol := snd (http2d_protocol_init (conn_protocol c)),
                buffer_read := snd (http2d_buffer_init (buffer_read c)),
                buffer_write := snd (http2d_buffer_init (buffer_write c)),
                buffer_write_ssl := snd (http2d_buffer_init (buffer_write_ssl c))\<rparr>))"

text \<open>\<open>raw\<close> is what the allocated structure happens to hold.\<close>

definition http2d_connection_spdy_new :: "'z zlib \<Rightarrow> 'z connection option \<Rightarrow> ret_t \<times> 'z connection option" where
  "http2d_connection_spdy_new Z raw =
     (case raw of None \<Rightarrow> (ret_nomem, None)
      | Some n \<Rightarrow>
          (let (ret, n) = http2d_connection_init_base n
           in if ret \<noteq> ret_ok then (ret, None)
              else let (ret, z) = http2d_spdy_zlib_inflate_init Z (zst_inflate n)
                   in if ret \<noteq> ret_ok then (ret_error, None)
                      else let (ret, z') = http2d_spdy_zlib_deflate_init Z (zst_deflate n)
                           in if ret \<noteq> ret_ok then (ret_error, None)
                              else (ret_ok, Some (n\<lparr>zst_inflate := z, zst_deflate := z', conn_ID := 0, going_away := False\<rparr>))))"

text \<open>A new request is linked in front of the others. For a connection that does not speak SPDY
  \<open>http2d_request_http_new\<close> reports success without creating anything, and a null pointer is linked.\<close>

definition http2d_connection_new_req :: "heap \<Rightarrow> 'z connection \<Rightarrow> (ret_t \<times> 'z connection) option" where
  "http2d_connection_new_req h c =
     (if session (conn_protocol c) = prot_session_SPDY
      then case http2d_request_spdy_new h of
             (ret, Some r) \<Rightarrow> if ret \<noteq> ret_ok then Some (ret_error, c) else Some (ret_ok, c\<lparr>requests := Some r # requests c\<rparr>)
           | (ret, None) \<Rightarrow> if ret \<noteq> ret_ok then Some (ret_error, c) else None
      else None)"

subsection \<open>Name/value blocks\<close>

text \<open>An access relative to a pointer with a signed offset.\<close>

definition read_uint32_at :: "block \<Rightarrow> int \<Rightarrow> 32 word option" where
  "read_uint32_at m i = (if i < 0 then None else read_uint32 m (nat i))"

text \<open>The loop of \<open>read_name_value\<close>: the pointer \<open>p\<close> is not advanced. The lengths are signed.\<close>

fun name_value_loop :: "heap \<Rightarrow> nat \<Rightarrow> block \<Rightarrow> nat \<Rightarrow> header \<Rightarrow> (ret_t \<times> header) option" where
  "name_value_loop h 0 m p hdr = Some (ret_ok, hdr)"
| "name_value_loop h (Suc n) m p hdr = do {
     lk \<leftarrow> read_uint32 m p;
     lv \<leftarrow> read_uint32_at m (int p + 4 + sint lk);
     (ret, hdr) \<leftarrow> http2d_header_add_header h hdr (drop (p + 4) m) (sint lk) (drop (nat (int p + 4 + sint lk + 4)) m) (sint lv);
     if ret \<noteq> ret_ok then Some (ret_error, hdr) else name_value_loop h n m p hdr }"

definition read_name_value ::
  "'z zlib \<Rightarrow> heap \<Rightarrow> 'z \<Rightarrow> buffer \<Rightarrow> nat \<Rightarrow> header \<Rightarrow> (ret_t \<times> 'z \<times> header) option" where
  "read_name_value Z h z b pos hdr = do {
     (ret, z, tmp) \<leftarrow> http2d_spdy_zlib_inflate Z h z b pos HTTP2D_BUF_INIT;
     if ret \<noteq> ret_ok then Some (ret, z, hdr)
     else do {
       m \<leftarrow> buf tmp;
       header_num \<leftarrow> read_uint32 m 0;
       (ret, hdr) \<leftarrow> name_value_loop h (nat (sint header_num)) m 4 hdr;
       Some (ret, z, hdr) } }"

subsection \<open>Frame handlers\<close>

definition read_syn_stream :: "block \<Rightarrow> nat \<Rightarrow> spdy_syn_stream option" where
  "read_syn_stream m p = do {
     i \<leftarrow> read_uint32 m p;
     a \<leftarrow> read_uint32 m (p + 4);
     c \<leftarrow> blk_get m (p + 8);
     s \<leftarrow> blk_get m (p + 9);
     Some \<lparr>stream_id = i AND SPDY_MASK_STREAM_ID, assoc_stream_id = a AND SPDY_MASK_STREAM_ID,
           pri = drop_bit 6 c AND 3, slot = s\<rparr> }"

text \<open>On failure the new request is freed but stays linked.\<close>

definition drop_new_req :: "'z connection \<Rightarrow> 'z connection" where
  "drop_new_req c =
     (case requests c of Some r # rs \<Rightarrow> c\<lparr>requests := http2d_request_free r # rs\<rparr> | _ \<Rightarrow> c)"

definition handle_SPDY_SYN_STREAM ::
  "'z zlib \<Rightarrow> heap \<Rightarrow> 'z connection \<Rightarrow> buffer \<Rightarrow> spdy_ctrl \<Rightarrow> nat \<Rightarrow> (ret_t \<times> 'z connection \<times> nat) option" where
  "handle_SPDY_SYN_STREAM Z h c b ctrl pos =
     (if going_away c then Some (ret_ok, c, pos)
      else do {
        (ret, c) \<leftarrow> http2d_connection_new_req h c;
        if ret \<noteq> ret_ok then Some (ret_error, c, pos)
        else do {
          m \<leftarrow> buf b;
          syn \<leftarrow> read_syn_stream m pos;
          r \<leftarrow> hd (requests c);
          (ret, z, hdr) \<leftarrow> read_name_value Z h (zst_inflate c) b (pos + 10) (rq_header r);
          c \<leftarrow> Some (c\<lparr>conn_ID := stream_id syn, zst_inflate := z, requests := Some (r\<lparr>rq_header := hdr\<rparr>) # tl (requests c)\<rparr>);
          if ret \<noteq> ret_ok then Some (ret_error, drop_new_req c, pos)
          else Some (ret_ok, c, pos + clength ctrl) } })"

definition handle_SPDY_GOAWAY ::
  "'z connection \<Rightarrow> buffer \<Rightarrow> spdy_ctrl \<Rightarrow> nat \<Rightarrow> (ret_t \<times> 'z connection \<times> nat) option" where
  "handle_SPDY_GOAWAY c b ctrl pos = do {
     m \<leftarrow> buf b;
     i \<leftarrow> read_uint32 m pos;
     s \<leftarrow> read_uint32 m (pos + 4);
     Some (ret_ok, c\<lparr>conn_phase := phase_conn_spdy_shutdown, going_away := True\<rparr>, pos + clength ctrl) }"

text \<open>Every status has the same, empty branch.\<close>

definition handle_SPDY_RST_STREAM ::
  "'z connection \<Rightarrow> buffer \<Rightarrow> spdy_ctrl \<Rightarrow> nat \<Rightarrow> (ret_t \<times> 'z connection \<times> nat) option" where
  "handle_SPDY_RST_STREAM c b ctrl pos = do {
     m \<leftarrow> buf b;
     i \<leftarrow> read_uint32 m pos;
     s \<leftarrow> read_uint32 m (pos + 4);
     Some (ret_ok, c, pos + clength ctrl) }"

subsection \<open>Frames\<close>

datatype 'a outcome = Returns 'a | Exits int

definition spdy_process_frame ::
  "'z zlib \<Rightarrow> heap \<Rightarrow> 'z connection \<Rightarrow> buffer \<Rightarrow> nat \<Rightarrow> (ret_t \<times> 'z connection \<times> nat) outcome option" where
  "spdy_process_frame Z h c b pos =
     (if len b < SPDY_FRAME_HEAD_LENGTH then Some (Returns (ret_eagain, c, pos))
      else do {
        ctrl \<leftarrow> http2d_spdy_read_ctrl b pos;
        if version ctrl \<noteq> 3 then Some (Returns (ret_error, c, pos))
        else if clength ctrl > sub32 (len b) (pos + 8) then Some (Returns (ret_ok, c, pos))
        else if ctype ctrl = frame_type_code SPDY_SYN_STREAM
             then map_option Returns (handle_SPDY_SYN_STREAM Z h c b ctrl (pos + 8))
        else if ctype ctrl = frame_type_code SPDY_RST_STREAM
             then map_option Returns (handle_SPDY_RST_STREAM c b ctrl (pos + 8))
        else if ctype ctrl = frame_type_code SPDY_GOAWAY
             then map_option Returns (handle_SPDY_GOAWAY c b ctrl (pos + 8))
        else Some (Exits 1) })"

text \<open>The loop over the buffer: \<open>pos\<close> is kept from one round to the next, although the bytes in front of it have
  been removed. It may run for ever.\<close>

partial_function (option) process_buffer_loop ::
  "'z zlib \<Rightarrow> heap \<Rightarrow> ret_t \<Rightarrow> 'z connection \<Rightarrow> buffer \<Rightarrow> nat \<Rightarrow> (ret_t \<times> 'z connection \<times> buffer) outcome option" where
  "process_buffer_loop Z h prev c b pos =
     (if len b > 8
      then do {
        out \<leftarrow> spdy_process_frame Z h c b pos;
        (case out of
           Exits k \<Rightarrow> Some (Exits k)
         | Returns (ret, c, pos) \<Rightarrow>
             (if ret = ret_ok then do {
                (_, b) \<leftarrow> http2d_buffer_move_to_begin b pos;
                process_buffer_loop Z h ret c b pos }
              else if ret = ret_eagain then Some (Returns (ret_ok, c, b))
              else Some (Returns (ret, c, b)))) }
      else Some (Returns (prev, c, b)))"

text \<open>The value of \<open>ret\<close> before the first round is never returned: the loop is entered with at least 12 bytes.\<close>

definition spdy_process_buffer ::
  "'z zlib \<Rightarrow> heap \<Rightarrow> 'z connection \<Rightarrow> buffer \<Rightarrow> (ret_t \<times> 'z connection \<times> buffer) outcome option" where
  "spdy_process_buffer Z h c b =
     (if len b < 12 then Some (Returns (ret_ok, c, b)) else process_buffer_loop Z h ret_error c b 0)"

subsection \<open>Input and output\<close>

text \<open>One round over the requests, from the first to the last; a request that is done is unlinked and freed.\<close>

fun step_requests ::
  "'z zlib \<Rightarrow> heap \<Rightarrow> string \<Rightarrow> request option list \<Rightarrow> 'z connection \<Rightarrow> (request option list \<times> 'z connection) option" where
  "step_requests Z h pkg [] c = Some ([], c)"
| "step_requests Z h pkg (None # rs) c = None"
| "step_requests Z h pkg (Some r # rs) c = do {
     (ret, r, c) \<leftarrow> http2d_request_step Z h pkg r c;
     (rs, c) \<leftarrow> step_requests Z h pkg rs c;
     Some (if ret = ret_eof then rs else Some r # rs, c) }"

definition do_io_write :: "'e os \<Rightarrow> 'e \<Rightarrow> 'z connection \<Rightarrow> int \<Rightarrow> (ret_t \<times> 'z connection \<times> 'e) option" where
  "do_io_write os e c w =
     (if http2d_buffer_is_empty (buffer_write c) \<and> http2d_buffer_is_empty (buffer_write_ssl c) then Some (ret_ok, c, e)
      else do {
        (ret, w, c, e) \<leftarrow> http2d_connection_do_write os e c w;
        Some (case ret of
            ret_eagain \<Rightarrow> (ret_ok, if w \<noteq> 0 then snd (http2d_connection_move_to_polling c w) else c, e)
          | ret_eof \<Rightarrow> (ret_ok, snd (http2d_thread_recycle_conn c), e)
          | _ \<Rightarrow> (ret_ok, c, e)) })"

text \<open>When the buffer cannot be processed the connection is freed, and the loop over its requests that follows
  touches freed memory.\<close>

definition do_io ::
  "'z zlib \<Rightarrow> heap \<Rightarrow> string \<Rightarrow> 'e os \<Rightarrow> 'e \<Rightarrow> 'z connection \<Rightarrow> (ret_t \<times> 'z connection \<times> 'e) outcome option" where
  "do_io Z h pkg os e c = do {
     (ret, w, c, e) \<leftarrow> http2d_connection_do_read h os e c 0;
     if ret = ret_eagain
     then Some (Returns (ret_ok, if w \<noteq> 0 then snd (http2d_connection_move_to_polling c w) else c, e))
     else if ret = ret_eof then Some (Returns (ret_ok, snd (http2d_thread_recycle_conn c), e))
     else do {
       out \<leftarrow> (if http2d_buffer_is_empty (buffer_read c) then Some (Returns (ret_ok, c, buffer_read c))
               else spdy_process_buffer Z h c (buffer_read c));
       (case out of
          Exits k \<Rightarrow> Some (Exits k)
        | Returns (ret, c, b) \<Rightarrow>
            (let c = c\<lparr>buffer_read := b\<rparr>
             in if ret = ret_error then None
                else if ret = ret_ok then do {
                  (rs, c) \<leftarrow> step_requests Z h pkg (requests c) c;
                  map_option Returns (do_io_write os e (c\<lparr>requests := rs\<rparr>) w) }
                else map_option Returns (do_io_write os e c w))) } }"

subsection \<open>Steps of a connection\<close>

definition conn_spdy_linger :: "'e os \<Rightarrow> 'e \<Rightarrow> 'z connection \<Rightarrow> (ret_t \<times> 'z connection \<times> 'e) option" where
  "conn_spdy_linger os e c = do {
     (ret, w, c, e) \<leftarrow> http2d_connection_do_linger_read os e c (-1);
     Some (case ret of
         ret_eagain \<Rightarrow> (if w \<noteq> -1 then (ret_ok, snd (http2d_connection_move_to_polling c w), e) else (ret_error, c, e))
       | _ \<Rightarrow> (ret_eof, c, e)) }"

text \<open>The phase is set to \<open>phase_conn_spdy_shutdown\<close> again before the lingering read.\<close>

definition conn_spdy_shutdown :: "'e os \<Rightarrow> 'e \<Rightarrow> 'z connection \<Rightarrow> (ret_t \<times> 'z connection \<times> 'e) option" where
  "conn_spdy_shutdown os e c = do {
     (ret, c, e) \<leftarrow> http2d_connection_do_shutdown os e c;
     if ret \<noteq> ret_ok then Some (ret, c, e)
     else conn_spdy_linger os e (c\<lparr>conn_phase := phase_conn_spdy_shutdown\<rparr>) }"

definition conn_spdy_io ::
  "'z zlib \<Rightarrow> heap \<Rightarrow> string \<Rightarrow> 'e os \<Rightarrow> 'e \<Rightarrow> 'z connection \<Rightarrow> (ret_t \<times> 'z connection \<times> 'e) outcome option" where
  "conn_spdy_io Z h pkg os e c = do {
     out \<leftarrow> do_io Z h pkg os e c;
     (case out of
        Exits k \<Rightarrow> Some (Exits k)
      | Returns (ret, c, e) \<Rightarrow>
          (case ret of
             ret_ok \<Rightarrow> Some (Returns (ret_ok, c, e))
           | ret_eof \<Rightarrow> map_option Returns (conn_spdy_shutdown os e c)
           | ret_eagain \<Rightarrow> Some (Returns (ret_ok, c, e))
           | _ \<Rightarrow> Some (Returns (ret_error, c, e)))) }"

definition conn_spdy_step ::
  "'z zlib \<Rightarrow> heap \<Rightarrow> string \<Rightarrow> 'e os \<Rightarrow> 'e \<Rightarrow> 'z connection \<Rightarrow> (ret_t \<times> 'z connection \<times> 'e) outcome option" where
  "conn_spdy_step Z h pkg os e c =
     (case conn_phase c of
        phase_conn_spdy_handshake \<Rightarrow>
          (let (ret, w, s, e) = (if is_tls (conn_socket c) then http2d_socket_ssl_init os e (conn_socket c) 0
                                 else (ret_ok, 0, conn_socket c, e));
               c = c\<lparr>conn_socket := s\<rparr>
           in if ret = ret_ok then conn_spdy_io Z h pkg os e (c\<lparr>conn_phase := phase_conn_spdy_io\<rparr>)
              else if ret = ret_eof then Some (Returns (ret_eof, c, e))
              else if ret = ret_eagain
                   then Some (Returns (ret_ok, if w \<noteq> 0 then snd (http2d_connection_move_to_polling c w) else c, e))
              else Some (Returns (ret_error, c, e)))
      | phase_conn_spdy_io \<Rightarrow> conn_spdy_io Z h pkg os e c
      | phase_conn_spdy_shutdown \<Rightarrow> map_option Returns (conn_spdy_shutdown os e c)
      | phase_conn_spdy_linger_read \<Rightarrow> map_option Returns (conn_spdy_linger os e c))"

subsection \<open>Decoding a header block\<close>

text \<open>The text of the fields after a pair has been stored.\<close>

definition put_pair :: "byte list \<times> byte list \<Rightarrow> (string \<times> byte list) list \<Rightarrow> (string \<times> byte list) list" where
  "put_pair p ts = map (\<lambda>(s, t). (s, if key_names (fst p) s then snd p else t)) ts"

lemma put_pair_twice: "put_pair p (put_pair p ts) = put_pair p ts"
  by (auto simp: put_pair_def case_prod_unfold)

lemma sint_small: "n < 2 ^ 31 \<Longrightarrow> sint (word_of_nat n :: 32 word) = int n"
  by (simp add: sint_uint signed_take_bit_eq_if_positive take_bit_eq_mod bit_iff_odd unsigned_of_nat zmod_int flip: of_nat_power)

lemma name_value_loop_rep:
  assumes "drop p m = nv_pair (k, v) @ r" "k \<noteq> []" "length k + length v + 100 < 2 ^ 31" "hdr_ok hdr"
  shows "\<exists>hdr'. name_value_loop (total_heap f) n m p hdr = Some (ret_ok, hdr') \<and> hdr_ok hdr' \<and>
    hdr_texts hdr' = (if n = 0 then hdr_texts hdr else put_pair (k, v) (hdr_texts hdr))"
  using assms(4)
proof (induction n arbitrary: hdr)
  case (Suc n)
  let ?k = "word_of_nat (length k) :: 32 word" and ?v = "word_of_nat (length v) :: 32 word"
  have d0: "drop p m = be32 ?k @ k @ be32 ?v @ v @ r" using assms(1) by (simp add: nv_pair_def)
  have d4: "drop (p + 4) m = k @ be32 ?v @ v @ r" using arg_cong [OF d0, of "drop 4"] by (simp add: add.commute)
  have dv: "drop (p + 4 + length k) m = be32 ?v @ v @ r"
    using arg_cong [OF d4, of "drop (length k)"] by (simp add: add_ac)
  have dv4: "drop (p + 4 + length k + 4) m = v @ r" using arg_cong [OF dv, of "drop 4"] by (simp add: add_ac)
  have sk: "sint ?k = int (length k)" "sint ?v = int (length v)" using assms(3) by (simp_all add: sint_small)
  have t: "take (length k) (drop (p + 4) m) = k" "take (length v) (drop (p + 4 + length k + 4) m) = v"
    "length k \<le> length (drop (p + 4) m)" "length v \<le> length (drop (p + 4 + length k + 4) m)"
    unfolding d4 dv4 by simp_all
  obtain h1 where h1: "http2d_header_add_header (total_heap f) hdr (drop (p + 4) m) (int (length k)) (drop (p + 4 + length k + 4) m)
      (int (length v)) = Some (ret_ok, h1)" "hdr_ok h1" "hdr_texts h1 = put_pair (k, v) (hdr_texts hdr)"
    using header_add_rep [OF Suc.prems _ t(3) _ t(4), of f] assms(2,3) unfolding t put_pair_def fst_conv snd_conv by auto
  have i: "nat (int p + 4 + int (length k)) = p + 4 + length k" "nat (8 + (int p + int (length k))) = 8 + (p + length k)" by simp_all
  have "name_value_loop (total_heap f) (Suc n) m p hdr = name_value_loop (total_heap f) n m p h1"
    using read_be32 [OF d0] read_be32 [OF dv] h1(1)
    by (simp add: read_uint32_at_def sk i)
  with Suc.IH [OF h1(2)] h1(3) put_pair_twice show ?case by auto
qed simp


lemma read_name_value_rep:
  assumes "inflate_contract Z expands" "buf_rep b s" "pos < length s" "expands z (drop pos s) (nv_block ((k, v) # ps))"
    and "length (nv_block ((k, v) # ps)) < SPDY_ZLIB_CHUNK" "k \<noteq> []" "hdr_ok hdr"
  shows "\<exists>z' hdr'. read_name_value Z (total_heap f) z b pos hdr = Some (ret_ok, z', hdr') \<and> hdr_ok hdr' \<and>
    hdr_texts hdr' = put_pair (k, v) (hdr_texts hdr)"
proof -
  let ?out = "nv_block ((k, v) # ps)"
  have l: "length ?out < 16384" using assms(5) by (simp add: SPDY_ZLIB_CHUNK_def)
  obtain z' tmp n where t: "http2d_spdy_zlib_inflate Z (total_heap f) z b pos HTTP2D_BUF_INIT = Some (ret_ok, z', tmp)"
    "buf_rep tmp (take n ?out)" "n = length ?out"
    using zlib_inflate_rep [OF assms(1-4) buf_rep_INIT, of f] assms(5) l by auto
  then have tmp: "buf_rep tmp ?out" by simp
  have ne: "?out \<noteq> []" by (simp add: nv_block_def be32_def)
  obtain m where m: "buf tmp = Some m" "take (length ?out) m = ?out" using tmp ne by (auto elim!: buf_rep_cases)
  have d0: "drop 0 m = be32 (word_of_nat (Suc (length ps))) @ nv_pair (k, v) @ concat (map nv_pair ps) @ drop (length ?out) m"
    using append_take_drop_id [of "length ?out" m] unfolding m(2) by (simp add: nv_block_def)
  have d4: "drop 4 m = nv_pair (k, v) @ concat (map nv_pair ps) @ drop (length ?out) m"
    using arg_cong [OF d0, of "drop 4"] by simp
  have ps: "length ps \<le> length (concat (map nv_pair ps))" by (induction ps) (auto simp: nv_pair_def)
  have c: "Suc (length ps) < 2 ^ 31" "length k + length v + 100 < 2 ^ 31" using l ps by (auto simp: nv_block_def nv_pair_def)
  obtain hdr' where "name_value_loop (total_heap f) (Suc (length ps)) m 4 hdr = Some (ret_ok, hdr')" "hdr_ok hdr'"
    "hdr_texts hdr' = put_pair (k, v) (hdr_texts hdr)"
    using name_value_loop_rep [OF d4 assms(6) c(2) assms(7), of f "Suc (length ps)"] by auto
  moreover have "nat (sint (word_of_nat (Suc (length ps)) :: 32 word)) = Suc (length ps)" using sint_small [OF c(1)] by simp
  ultimately show ?thesis
    using t(1) m(1) read_be32 [OF d0] by (simp add: read_name_value_def)
qed

subsection \<open>Frames in a buffer\<close>

text \<open>A control frame of version 3 as a client sends it.\<close>

definition ctrl_head :: "16 word \<Rightarrow> byte \<Rightarrow> 32 word \<Rightarrow> byte list" where
  "ctrl_head t f n = [0x80, 3] @ be16 t @ [f] @ tl (be32 n)"

definition ctrl_frame :: "16 word \<Rightarrow> byte \<Rightarrow> byte list \<Rightarrow> byte list" where
  "ctrl_frame t f body = ctrl_head t f (word_of_nat (length body)) @ body"

lemma length_ctrl_head [simp]: "length (ctrl_head t f n) = 8"
  by (simp add: ctrl_head_def)

lemma rep_drop:
  assumes "buf_rep b s" "s \<noteq> []" "pos \<le> length s"
  obtains m r where "buf b = Some m" "len b = length s" "drop pos m = drop pos s @ r" "length s < 2 ^ 31"
proof -
  obtain m where m: "buf b = Some m" "len b = length s" "take (length s) m = s" "length s < 2 ^ 31"
    using assms(1,2) by (auto elim!: buf_rep_cases)
  have "drop pos m = drop pos s @ drop (length s) m"
    using arg_cong [OF append_take_drop_id [of "length s" m], of "drop pos"] assms(3) unfolding m(3) by simp
  with m that show thesis by blast
qed

lemma read_ctrl_rep:
  assumes "buf_rep b s" "drop pos s = ctrl_head t f n @ r" "pos \<le> length s"
  shows "http2d_spdy_read_ctrl b pos = Some \<lparr>version = 3, ctype = t, flags = f, clength = unat n mod 2 ^ 24\<rparr>"
proof -
  have "s \<noteq> []" using assms(2) by (auto simp: ctrl_head_def)
  then obtain m r' where m: "buf b = Some m" "drop pos m = drop pos s @ r'" using rep_drop [OF assms(1) _ assms(3)] by metis
  have "drop pos m = be16 0x8003 @ be16 t @ [f] @ tl (be32 n) @ r @ r'" using m(2) assms(2) by (simp add: ctrl_head_def be16_def)
  from read_ctrl_bytes [OF m(1) this] show ?thesis by (simp add: SPDY_MASK_VERSION_def unat_mask_length)
qed

text \<open>A complete frame at the beginning of the buffer reaches the handler of its type.\<close>

lemma process_frame_complete:
  assumes "buf_rep b (ctrl_frame t f body @ rest)" "length body < 2 ^ 24"
  shows "spdy_process_frame Z h c b 0 =
    (let ctrl = \<lparr>version = 3, ctype = t, flags = f, clength = length body\<rparr>
     in if t = 1 then map_option Returns (handle_SPDY_SYN_STREAM Z h c b ctrl 8)
        else if t = 3 then map_option Returns (handle_SPDY_RST_STREAM c b ctrl 8)
        else if t = 7 then map_option Returns (handle_SPDY_GOAWAY c b ctrl 8)
        else Some (Exits 1))"
proof -
  let ?s = "ctrl_frame t f body @ rest"
  have r: "http2d_spdy_read_ctrl b 0 = Some \<lparr>version = 3, ctype = t, flags = f, clength = length body\<rparr>"
    using read_ctrl_rep [OF assms(1), of 0 t f "word_of_nat (length body)" "body @ rest"] assms(2)
    by (simp add: ctrl_frame_def unat_of_nat)
  have l: "len b = 8 + length body + length rest" "len b < 2 ^ 31"
    using assms(1) rep_drop [OF assms(1), of 0] buf_rep_len [OF assms(1)] by (auto simp: ctrl_frame_def elim!: buf_rep_cases)
  then have "sub32 (len b) 8 = length body + length rest" by (simp add: sub32_id)
  with r l(1) show ?thesis by (simp add: spdy_process_frame_def SPDY_FRAME_HEAD_LENGTH_def Let_def)
qed

text \<open>One round of the loop.\<close>

lemma process_buffer_round:
  assumes "buf_rep b s" "8 < length s" "spdy_process_frame Z h c b pos = Some (Returns (ret_ok, c', pos'))"
  obtains b' where "process_buffer_loop Z h prev c b pos = process_buffer_loop Z h ret_ok c' b' pos'" "buf_rep b' (drop pos' s)"
proof -
  obtain b' where b': "http2d_buffer_move_to_begin b pos' = Some (ret_ok, b')" "buf_rep b' (drop pos' s)"
    using move_to_begin_rep [OF assms(1)] by blast
  have "process_buffer_loop Z h prev c b pos = process_buffer_loop Z h ret_ok c' b' pos'"
    using assms(2,3) b'(1) buf_rep_len [OF assms(1)] by (subst process_buffer_loop.simps) simp
  with b'(2) that show thesis by blast
qed

lemma process_buffer_done:
  "buf_rep b s \<Longrightarrow> length s \<le> 8 \<Longrightarrow> process_buffer_loop Z h prev c b pos = Some (Returns (prev, c, b))"
  by (subst process_buffer_loop.simps) (simp add: buf_rep_len)

text \<open>A single accepted frame is the whole story of its buffer.\<close>

lemma process_buffer_single:
  assumes "buf_rep b s" "12 \<le> length s" "spdy_process_frame Z h c b 0 = Some (Returns (ret_ok, c', length s))"
  shows "\<exists>b'. spdy_process_buffer Z h c b = Some (Returns (ret_ok, c', b')) \<and> buf_rep b' []"
proof -
  obtain b' where b': "process_buffer_loop Z h ret_error c b 0 = process_buffer_loop Z h ret_ok c' b' (length s)" "buf_rep b' []"
    using process_buffer_round [OF assms(1) _ assms(3), of ret_error] assms(2) by auto
  with process_buffer_done [OF b'(2), of Z h ret_ok c' "length s"] assms(1,2) show ?thesis
    by (simp add: spdy_process_buffer_def buf_rep_len)
qed

text \<open>An incomplete frame leaves everything as it was, so the loop never ends.\<close>

lemma process_frame_incomplete:
  assumes "buf_rep b (ctrl_head t f n @ rest)" "length rest < unat n mod 2 ^ 24"
  shows "spdy_process_frame Z h c b 0 = Some (Returns (ret_ok, c, 0))"
proof -
  have l: "len b = 8 + length rest" "len b < 2 ^ 31"
    using buf_rep_len [OF assms(1)] assms(1) by (auto elim!: buf_rep_cases)
  then have "sub32 (len b) 8 = length rest" by (simp add: sub32_id)
  moreover have "http2d_spdy_read_ctrl b 0 = Some \<lparr>version = 3, ctype = t, flags = f, clength = unat n mod 2 ^ 24\<rparr>"
    using read_ctrl_rep [OF assms(1), of 0 t f n rest] by simp
  ultimately show ?thesis using l(1) assms(2) by (simp add: spdy_process_frame_def SPDY_FRAME_HEAD_LENGTH_def)
qed

lemma move_to_begin_0:
  assumes "buf_rep b s" "s \<noteq> []"
  shows "http2d_buffer_move_to_begin b 0 = Some (ret_ok, b)"
proof -
  obtain m where m: "buf b = Some m" "len b = length s" "length s < length m"
    using assms by (auto elim!: buf_rep_cases)
  then have "blk_move m 0 0 (Suc (len b)) = Some m" by (simp add: blk_move_def blk_read_def blk_write_def)
  moreover have "b\<lparr>buf := Some m, len := len b\<rparr> = b" using m by simp
  ultimately show ?thesis using m assms(2) by (simp add: http2d_buffer_move_to_begin_def)
qed

lemma process_buffer_stuck:
  assumes "spdy_process_frame Z h c b 0 = Some (Returns (ret_ok, c, 0))" "http2d_buffer_move_to_begin b 0 = Some (ret_ok, b)" "8 < len b"
  shows "process_buffer_loop Z h prev c b 0 = None"
proof (rule ccontr)
  assume "process_buffer_loop Z h prev c b 0 \<noteq> None"
  then obtain y where y: "process_buffer_loop Z h prev c b 0 = Some y" by blast
  let ?P = "\<lambda>Z' h' _ c' b' pos' _. \<not> (Z' = Z \<and> h' = h \<and> c' = c \<and> b' = b \<and> pos' = (0 :: nat))"
  have "?P Z h prev c b 0 y"
  proof (rule process_buffer_loop.raw_induct [of ?P, OF _ y], goal_cases)
    case (1 loop Z' h' prev' c' b' pos' y')
    show ?case
    proof (intro notI, elim conjE)
      assume eq: "Z' = Z" "h' = h" "c' = c" "b' = b" "pos' = 0"
      have "loop Z h ret_ok c b 0 = Some y'" using 1(2) assms unfolding eq by simp
      from 1(1) [OF this] show False by simp
    qed
  qed
  then show False by simp
qed

subsection \<open>The handlers\<close>

lemma read_be32_rep:
  assumes "buf_rep b s" "buf b = Some m" "drop pos s = be32 n @ r" "pos \<le> length s"
  shows "read_uint32 m pos = Some n"
proof -
  have "s \<noteq> []" using assms(3) by (auto simp: be32_def)
  then obtain r' where "drop pos m = drop pos s @ r'" using rep_drop [OF assms(1) _ assms(4)] assms(2) by (metis option.inject)
  then show ?thesis using read_be32 [of pos m n "r @ r'"] assms(3) by simp
qed

lemma get_rep:
  assumes "buf_rep b s" "buf b = Some m" "pos < length s"
  shows "blk_get m pos = Some (s ! pos)"
proof -
  have "s \<noteq> []" using assms(3) by auto
  then obtain r' where r: "drop 0 m = drop 0 s @ r'" using rep_drop [OF assms(1), of 0] assms(2) by (metis le0 option.inject)
  then show ?thesis using assms(3) by (simp add: blk_get_def nth_append)
qed

lemma handle_GOAWAY_rep:
  assumes "buf_rep b (ctrl_frame t f (be32 i @ be32 st @ ext) @ rest)"
  shows "handle_SPDY_GOAWAY c b ctrl 8 =
    Some (ret_ok, c\<lparr>conn_phase := phase_conn_spdy_shutdown, going_away := True\<rparr>, 8 + clength ctrl)"
proof -
  let ?s = "ctrl_frame t f (be32 i @ be32 st @ ext) @ rest"
  have ne: "?s \<noteq> []" by (simp add: ctrl_frame_def ctrl_head_def)
  obtain m where m: "buf b = Some m" using rep_drop [OF assms ne, of 0] by blast
  have d: "drop 8 ?s = be32 i @ be32 st @ ext @ rest" by (simp add: ctrl_frame_def)
  have d4: "drop 12 ?s = be32 st @ ext @ rest" by (simp add: ctrl_frame_def)
  have l: "8 \<le> length ?s" "12 \<le> length ?s" by (simp_all add: ctrl_frame_def)
  show ?thesis
    using read_be32_rep [OF assms m d l(1)] read_be32_rep [OF assms m d4 l(2)] m by (simp add: handle_SPDY_GOAWAY_def)
qed

lemma new_req_total:
  assumes "session (conn_protocol c) = prot_session_SPDY"
  obtains r where "http2d_connection_new_req (total_heap f) c = Some (ret_ok, c\<lparr>requests := Some r # requests c\<rparr>)"
    "rq_rep r []" "rq_phase r = phase_spdy_nothing" "hdr_ok (rq_header r)" "map snd (hdr_texts (rq_header r)) = replicate 5 []"
proof -
  let ?b = HTTP2D_BUF_INIT
  let ?r = "raw_request\<lparr>rq_error_code := http_internal_error, rq_phase := phase_spdy_nothing, rq_methods := methods_spdy\<rparr>"
  have n: "http2d_request_spdy_new (total_heap f) = (ret_ok, Some ?r)"
    by (simp add: http2d_request_spdy_new_def http2d_request_init_base_def raw_request_def http2d_header_init_def
        http2d_buffer_init_def HTTP2D_BUF_INIT_def)
  have "buf_wf ?b" "buf_str ?b = []" using buf_wf_rep(2) [OF buf_rep_INIT] by auto
  then show thesis
    using assms n by (intro that [of ?r])
      (simp_all add: http2d_connection_new_req_def rq_rep_def raw_request_def hdr_ok_def hdr_texts_def eval_nat_numeral)
qed

lemma handle_SYN_STREAM_rep:
  fixes i a :: "32 word" and pr sl :: byte
  defines "body \<equiv> \<lambda>packed. be32 i @ be32 a @ [pr, sl] @ packed"
  assumes "inflate_contract Z expands" "buf_rep b (ctrl_frame t fl (body packed))" "packed \<noteq> []"
    and "\<not> going_away c" "session (conn_protocol c) = prot_session_SPDY"
    and "expands (zst_inflate c) packed (nv_block ((k, v) # ps))" "length (nv_block ((k, v) # ps)) < SPDY_ZLIB_CHUNK" "k \<noteq> []"
  shows "\<exists>r z. handle_SPDY_SYN_STREAM Z (total_heap f) c b ctrl 8 =
      Some (ret_ok, c\<lparr>requests := Some r # requests c, conn_ID := i AND SPDY_MASK_STREAM_ID, zst_inflate := z\<rparr>, 8 + clength ctrl) \<and>
    rq_rep r [] \<and> rq_phase r = phase_spdy_nothing \<and> hdr_ok (rq_header r) \<and>
    (\<forall>s t. (s, t) \<in> set (hdr_texts (rq_header r)) \<longrightarrow> t = (if key_names k s then v else []))"
proof -
  let ?s = "ctrl_frame t fl (body packed)"
  have ne: "?s \<noteq> []" by (simp add: ctrl_frame_def ctrl_head_def)
  obtain m where m: "buf b = Some m" using rep_drop [OF assms(3) ne, of 0] by blast
  have d8: "drop 8 ?s = be32 i @ be32 a @ [pr, sl] @ packed" by (simp add: ctrl_frame_def body_def)
  have d12: "drop 12 ?s = be32 a @ [pr, sl] @ packed" by (simp add: ctrl_frame_def body_def)
  have l: "length ?s = 18 + length packed" by (simp add: ctrl_frame_def body_def)
  have d18: "drop 18 ?s = packed" using arg_cong [OF d8, of "drop 10"] by (simp add: be32_def)
  have syn: "\<exists>syn. read_syn_stream m 8 = Some syn \<and> stream_id syn = i AND SPDY_MASK_STREAM_ID"
    using read_be32_rep [OF assms(3) m d8] read_be32_rep [OF assms(3) m d12] get_rep [OF assms(3) m, of 16] get_rep [OF assms(3) m, of 17] l
    by (simp add: read_syn_stream_def)
  obtain r where r: "http2d_connection_new_req (total_heap f) c = Some (ret_ok, c\<lparr>requests := Some r # requests c\<rparr>)"
    "rq_rep r []" "rq_phase r = phase_spdy_nothing" "hdr_ok (rq_header r)" "map snd (hdr_texts (rq_header r)) = replicate 5 []"
    using new_req_total [OF assms(6)] by metis
  have x: "18 < length ?s" "expands (zst_inflate c) (drop 18 ?s) (nv_block ((k, v) # ps))" using assms(4,7) l d18 by simp_all
  obtain z hdr where h: "read_name_value Z (total_heap f) (zst_inflate c) b 18 (rq_header r) = Some (ret_ok, z, hdr)" "hdr_ok hdr"
    "hdr_texts hdr = put_pair (k, v) (hdr_texts (rq_header r))"
    using read_name_value_rep [OF assms(2,3) x assms(8,9) r(4), of f] by metis
  let ?r = "r\<lparr>rq_header := hdr\<rparr>"
  have "(s, t) \<in> set (hdr_texts hdr) \<Longrightarrow> t = (if key_names k s then v else [])" for s t
    using r(5) unfolding h(3) put_pair_def
    by (auto simp: eval_nat_numeral map_eq_Cons_conv split: if_splits)
  moreover have "rq_rep ?r []" using r(2) by (simp add: rq_rep_def)
  ultimately show ?thesis
    using syn m assms(5) r(1,3) h(1,2)
    by (intro exI [of _ ?r] exI [of _ z]) (auto simp: handle_SPDY_SYN_STREAM_def)
qed

subsection \<open>The requests of a connection\<close>

text \<open>Successive flushes of the same block through one stream.\<close>

fun flushes :: "(nat \<Rightarrow> 'z \<Rightarrow> byte list \<Rightarrow> byte list \<Rightarrow> 'z \<Rightarrow> bool) \<Rightarrow> byte list \<Rightarrow> 'z \<Rightarrow> byte list list \<Rightarrow> 'z \<Rightarrow> bool" where
  "flushes yields blk z [] ze \<longleftrightarrow> ze = z"
| "flushes yields blk z (out # outs) ze \<longleftrightarrow> (\<exists>z1. yields (length blk) z blk out z1 \<and> flushes yields blk z1 outs ze)"

definition reply :: "32 word \<Rightarrow> byte list \<Rightarrow> byte list" where
  "reply i out = syn_reply_frame i out @ data_frame i hello_payload"

lemma length_reply: "length (reply i out) = length out + 41"
  by (simp add: reply_def syn_reply_frame_def data_frame_def hello_payload_def)

definition fresh_request :: "request \<Rightarrow> bool" where
  "fresh_request r \<longleftrightarrow> rq_rep r [] \<and> early_phase (rq_phase r)"

definition done_request :: "request \<Rightarrow> bool" where
  "done_request r \<longleftrightarrow> rq_methods r = methods_spdy \<and> rq_phase r = phase_spdy_stepping"

lemma step_requests_done:
  "list_all done_request rs \<Longrightarrow> step_requests Z h pkg (map Some rs) c = Some ([], c)"
  by (induction rs) (auto simp: done_request_def http2d_request_step_def req_spdy_step_def)

lemma step_requests_fresh:
  assumes "deflate_contract Z yields" "length pkg < 2 ^ 30"
  shows "list_all fresh_request rs \<Longrightarrow> length outs = length rs \<Longrightarrow>
    flushes yields (nv_block (reply_headers (application (conn_protocol c)) pkg)) (zst_deflate c) outs ze \<Longrightarrow>
    buf_rep (buffer_write c) w \<Longrightarrow> length w + length (concat (map (reply (conn_ID c)) outs)) + 200 < 2 ^ 31 \<Longrightarrow>
    \<exists>rs' b. step_requests Z (total_heap f) pkg (map Some rs) c = Some (map Some rs', c\<lparr>zst_deflate := ze, buffer_write := b\<rparr>) \<and>
      list_all done_request rs' \<and> length rs' = length rs \<and> buf_rep b (w @ concat (map (reply (conn_ID c)) outs))"
proof (induction rs arbitrary: outs c w)
  case Nil
  have "c\<lparr>zst_deflate := ze, buffer_write := buffer_write c\<rparr> = c" using Nil by simp
  with Nil show ?case by (intro exI [of _ "[]"] exI [of _ "buffer_write c"]) simp
next
  case (Cons r rs)
  obtain out os where outs: "outs = out # os" using Cons.prems(2) by (cases outs) auto
  obtain z1 where z1: "yields (length (nv_block (reply_headers (application (conn_protocol c)) pkg))) (zst_deflate c)
      (nv_block (reply_headers (application (conn_protocol c)) pkg)) out z1"
    "flushes yields (nv_block (reply_headers (application (conn_protocol c)) pkg)) z1 os ze"
    using Cons.prems(3) by (auto simp: outs)
  have fresh: "rq_rep r []" "early_phase (rq_phase r)" using Cons.prems(1) by (auto simp: fresh_request_def)
  have room: "length w + length out + 200 < 2 ^ 31" using Cons.prems(5) by (simp add: outs length_reply)
  obtain r' b where r': "http2d_request_step Z (total_heap f) pkg r c = Some (ret_ok, r', c\<lparr>zst_deflate := z1, buffer_write := b\<rparr>)"
    "done_request r'" "buf_rep b (w @ reply (conn_ID c) out)"
    using req_spdy_step_rep [OF assms(1) fresh assms(2) z1(1) Cons.prems(4) room, of f]
    by (auto simp: done_request_def reply_def)
  let ?c = "c\<lparr>zst_deflate := z1, buffer_write := b\<rparr>"
  obtain rs' b' where rs': "step_requests Z (total_heap f) pkg (map Some rs) ?c = Some (map Some rs', ?c\<lparr>zst_deflate := ze, buffer_write := b'\<rparr>)"
    "list_all done_request rs'" "length rs' = length rs"
    "buf_rep b' ((w @ reply (conn_ID c) out) @ concat (map (reply (conn_ID c)) os))"
    using Cons.IH [of os ?c "w @ reply (conn_ID c) out"] Cons.prems(1,2,5) z1(2) r'(3) by (auto simp: outs)
  show ?case
    using r'(1,2) rs' by (intro exI [of _ "r' # rs'"] exI [of _ b']) (auto simp: outs)
qed

subsection \<open>The phases of a connection\<close>

text \<open>The lingering read is never a phase of its own, and a connection shuts down exactly when the peer has said
  GOAWAY.\<close>

definition phase_inv :: "'z connection \<Rightarrow> bool" where
  "phase_inv c \<longleftrightarrow> conn_phase c \<noteq> phase_conn_spdy_linger_read \<and> (going_away c \<longleftrightarrow> conn_phase c = phase_conn_spdy_shutdown)"

definition same_phase :: "'z connection \<Rightarrow> 'z connection \<Rightarrow> bool" where
  "same_phase c d \<longleftrightarrow> conn_phase d = conn_phase c \<and> going_away d = going_away c"

lemma same_phase_inv: "same_phase c d \<Longrightarrow> phase_inv c \<Longrightarrow> phase_inv d"
  by (simp add: same_phase_def phase_inv_def)

lemma same_phase_trans: "same_phase c d \<Longrightarrow> same_phase d e \<Longrightarrow> same_phase c e"
  by (simp add: same_phase_def)

lemma header_finish_same: "http2d_request_header_finish Z h r c = Some (ret, r', c') \<Longrightarrow> same_phase c c'"
  by (cases "rq_methods r")
    (auto simp: http2d_request_header_finish_def req_spdy_header_finish_def same_phase_def bind_eq_Some_conv)

lemma hello_world_same: "TEMP_hello_world h c = Some (ret, c') \<Longrightarrow> same_phase c c'"
  by (auto simp: TEMP_hello_world_def same_phase_def bind_eq_Some_conv)

lemma request_step_same: "http2d_request_step Z h pkg r c = Some (ret, r', c') \<Longrightarrow> same_phase c c'"
  by (cases "rq_methods r"; cases "rq_phase r")
    (auto simp: http2d_request_step_def req_spdy_step_def bind_eq_Some_conv dest!: header_finish_same hello_world_same
      intro: same_phase_trans, auto simp: same_phase_def)

lemma step_requests_same: "step_requests Z h pkg rs c = Some (rs', c') \<Longrightarrow> same_phase c c'"
proof (induction Z h pkg rs c arbitrary: rs' c' rule: step_requests.induct)
  case (3 Z h pkg r rs c)
  then show ?case by (fastforce simp: bind_eq_Some_conv dest: request_step_same intro: same_phase_trans)
qed (auto simp: same_phase_def)

lemma do_write_same:
  assumes "http2d_connection_do_write os e c w = Some (ret, w', c', e')"
  shows "same_phase c c'"
proof -
  define d where "d = (if is_tls (conn_socket c) then swap_writers c else c)"
  have "same_phase c d" by (simp add: d_def same_phase_def swap_writers_def Let_def case_prod_unfold)
  moreover have "same_phase d c'"
    using assms unfolding http2d_connection_do_write_def Let_def d_def [symmetric]
    by (cases "is_tls (conn_socket c)") (auto simp: bind_eq_Some_conv same_phase_def)
  ultimately show ?thesis by (rule same_phase_trans)
qed

lemma do_io_write_same:
  assumes "do_io_write os e c w = Some (ret, c', e')"
  shows "same_phase c c'"
proof (cases "http2d_buffer_is_empty (buffer_write c) \<and> http2d_buffer_is_empty (buffer_write_ssl c)")
  case True
  with assms show ?thesis by (simp add: do_io_write_def same_phase_def)
next
  case False
  with assms obtain q where q: "http2d_connection_do_write os e c w = Some q"
    by (cases "http2d_connection_do_write os e c w") (auto simp: do_io_write_def)
  obtain ret1 w1 c1 e1 where x: "http2d_connection_do_write os e c w = Some (ret1, w1, c1, e1)" using q by (cases q) auto
  have "c' \<in> {c1, snd (http2d_connection_move_to_polling c1 w1), snd (http2d_thread_recycle_conn c1)}"
    using assms False x by (cases ret1) (auto simp: do_io_write_def)
  then have "same_phase c1 c'"
    by (auto simp: same_phase_def http2d_connection_move_to_polling_def http2d_thread_recycle_conn_def)
  with do_write_same [OF x] show ?thesis by (rule same_phase_trans)
qed

lemma do_read_same: "http2d_connection_do_read h os e c w = Some (ret, w', c', e') \<Longrightarrow> same_phase c c'"
  by (auto simp: http2d_connection_do_read_def same_phase_def bind_eq_Some_conv)

lemma process_frame_inv:
  "spdy_process_frame Z h c b pos = Some (Returns (ret, c', pos')) \<Longrightarrow> phase_inv c \<Longrightarrow> phase_inv c'"
  by (auto simp: spdy_process_frame_def handle_SPDY_SYN_STREAM_def handle_SPDY_RST_STREAM_def handle_SPDY_GOAWAY_def
      http2d_connection_new_req_def drop_new_req_def bind_eq_Some_conv phase_inv_def
      split: if_splits prod.splits option.splits list.splits)

lemma process_buffer_loop_inv:
  "process_buffer_loop Z h prev c b pos = Some (Returns (ret, c', b')) \<Longrightarrow> phase_inv c \<Longrightarrow> phase_inv c'"
proof -
  let ?P = "\<lambda>Z h prev c b pos y. \<forall>ret c' b'. y = Returns (ret, c', b') \<longrightarrow> phase_inv c \<longrightarrow> phase_inv c'"
  assume y: "process_buffer_loop Z h prev c b pos = Some (Returns (ret, c', b'))" and i: "phase_inv c"
  have "?P Z h prev c b pos (Returns (ret, c', b'))"
  proof (rule process_buffer_loop.raw_induct [of ?P, OF _ y], goal_cases)
    case (1 loop Z h prev c b pos y)
    show ?case
    proof (intro allI impI)
      fix ret c' b' assume y: "y = Returns (ret, c', b')" and i: "phase_inv c"
      show "phase_inv c'"
      proof (cases "8 < len b")
        case True
        with 1(2) obtain x where x: "spdy_process_frame Z h c b pos = Some x" by (auto simp: bind_eq_Some_conv)
        show ?thesis
        proof (cases x)
          case (Returns t)
          obtain r d p where t: "t = (r, d, p)" by (cases t)
          have "phase_inv d" using process_frame_inv [of Z h c b pos r d p] x i by (simp add: Returns t)
          then show ?thesis
            using 1(2) True x y 1(1) by (cases "r = ret_ok"; cases "r = ret_eagain") (fastforce simp: Returns t bind_eq_Some_conv)+
        qed (use 1(2) True x y in simp)
      qed (use 1(2) y i in simp)
    qed
  qed
  with i show ?thesis by blast
qed

lemma process_buffer_inv:
  "spdy_process_buffer Z h c b = Some (Returns (ret, c', b')) \<Longrightarrow> phase_inv c \<Longrightarrow> phase_inv c'"
  by (auto simp: spdy_process_buffer_def split: if_splits dest: process_buffer_loop_inv)

lemma phase_inv_upd [simp]:
  "phase_inv (c\<lparr>buffer_read := b\<rparr>) = phase_inv c" "phase_inv (c\<lparr>requests := rs\<rparr>) = phase_inv c"
  "phase_inv (c\<lparr>place := p\<rparr>) = phase_inv c" "phase_inv (c\<lparr>conn_socket := s\<rparr>) = phase_inv c"
  by (simp_all add: phase_inv_def)

lemma do_io_write_ret:
  assumes "do_io_write os e c w = Some (ret, c', e')"
  shows "ret = ret_ok"
proof (cases "http2d_connection_do_write os e c w")
  case (Some q)
  obtain ret1 w1 c1 e1 where "q = (ret1, w1, c1, e1)" by (cases q)
  with assms Some show ?thesis by (cases ret1) (auto simp: do_io_write_def split: if_splits)
qed (use assms in \<open>auto simp: do_io_write_def split: if_splits\<close>)

text \<open>The part of \<open>do_io\<close> behind the read.\<close>

lemma do_io_processed:
  assumes "(if http2d_buffer_is_empty (buffer_read c) then Some (Returns (ret_ok, c, buffer_read c))
            else spdy_process_buffer Z h c (buffer_read c)) = Some (Returns (ret, d, b))" "phase_inv c"
  shows "phase_inv d"
  using assms process_buffer_inv by (auto split: if_splits)

lemma do_io_inv:
  assumes "do_io Z h pkg os e c = Some (Returns (ret, c', e'))" "phase_inv c"
  shows "phase_inv c' \<and> ret = ret_ok"
proof -
  obtain r w d e1 where rd: "http2d_connection_do_read h os e c 0 = Some (r, w, d, e1)"
    using assms(1) by (auto simp: do_io_def bind_eq_Some_conv)
  have d: "phase_inv d" using same_phase_inv [OF do_read_same [OF rd] assms(2)] .
  show ?thesis
  proof (cases "r = ret_eagain \<or> r = ret_eof")
    case True
    with assms(1) rd d show ?thesis
      by (auto simp: do_io_def http2d_connection_move_to_polling_def http2d_thread_recycle_conn_def)
  next
    case False
    let ?p = "if http2d_buffer_is_empty (buffer_read d) then Some (Returns (ret_ok, d, buffer_read d))
            else spdy_process_buffer Z h d (buffer_read d)"
    obtain x where x: "?p = Some x" using assms(1) rd False by (auto simp: do_io_def bind_eq_Some_conv)
    show ?thesis
    proof (cases x)
      case (Exits k)
      with assms(1) rd False x show ?thesis by (simp add: do_io_def)
    next
      case (Returns t)
      obtain r2 c2 b2 where t: "t = (r2, c2, b2)" by (cases t)
      have i: "phase_inv (c2\<lparr>buffer_read := b2\<rparr>)" using do_io_processed [of d Z h r2 c2 b2] x d by (simp add: Returns t)
      show ?thesis
      proof (cases "r2 = ret_ok")
        case True
        then obtain rs c3 where s: "step_requests Z h pkg (requests c2) (c2\<lparr>buffer_read := b2\<rparr>) = Some (rs, c3)"
          "do_io_write os e1 (c3\<lparr>requests := rs\<rparr>) w = Some (ret, c', e')"
          using assms(1) rd False x by (auto simp: do_io_def Returns t bind_eq_Some_conv)
        have "phase_inv (c3\<lparr>requests := rs\<rparr>)" using same_phase_inv [OF step_requests_same [OF s(1)] i] by simp
        then show ?thesis using same_phase_inv [OF do_io_write_same [OF s(2)]] do_io_write_ret [OF s(2)] by blast
      next
        case r2: False
        then have s: "do_io_write os e1 (c2\<lparr>buffer_read := b2\<rparr>) w = Some (ret, c', e')"
          using assms(1) rd False x by (auto simp: do_io_def Returns t Let_def split: if_splits)
        from same_phase_inv [OF do_io_write_same [OF s] i] do_io_write_ret [OF s] show ?thesis by simp
      qed
    qed
  qed
qed


lemma linger_inv: "conn_spdy_linger os e c = Some (ret, c', e') \<Longrightarrow> phase_inv c \<Longrightarrow> phase_inv c'"
proof -
  assume run: "conn_spdy_linger os e c = Some (ret, c', e')" and i: "phase_inv c"
  obtain r w s e1 where l: "linger_loop os e (conn_socket c) 2 (-1) = Some (r, w, s, e1)"
    using run by (auto simp: conn_spdy_linger_def http2d_connection_do_linger_read_def bind_eq_Some_conv)
  have "c' \<in> {c\<lparr>conn_socket := s\<rparr>, c\<lparr>conn_socket := s, place := place_polling w\<rparr>}"
    using run l by (cases r) (auto simp: conn_spdy_linger_def http2d_connection_do_linger_read_def
        http2d_connection_move_to_polling_def split: if_splits)
  with i show ?thesis by (auto simp: phase_inv_def)
qed

lemma shutdown_inv:
  assumes "conn_spdy_shutdown os e c = Some (ret, c', e')" "phase_inv c" "conn_phase c = phase_conn_spdy_shutdown"
  shows "phase_inv c'"
proof -
  obtain r d e1 where d: "http2d_connection_do_shutdown os e c = Some (r, d, e1)"
    using assms(1) by (auto simp: conn_spdy_shutdown_def bind_eq_Some_conv)
  then have s: "same_phase c d" by (auto simp: http2d_connection_do_shutdown_def bind_eq_Some_conv Let_def same_phase_def)
  then have "d\<lparr>conn_phase := phase_conn_spdy_shutdown\<rparr> = d" using assms(3) by (simp add: same_phase_def)
  with d assms(1) same_phase_inv [OF s assms(2)] show ?thesis
    by (auto simp: conn_spdy_shutdown_def split: if_splits dest: linger_inv)
qed

lemma conn_spdy_io_inv:
  assumes "conn_spdy_io Z h pkg os e c = Some (Returns (ret, c', e'))" "phase_inv c"
  shows "phase_inv c' \<and> ret = ret_ok"
proof -
  obtain x where x: "do_io Z h pkg os e c = Some x" using assms(1) by (auto simp: conn_spdy_io_def bind_eq_Some_conv)
  show ?thesis
  proof (cases x)
    case (Returns t)
    obtain r d e1 where t: "t = (r, d, e1)" by (cases t)
    have "phase_inv d" "r = ret_ok" using do_io_inv [of Z h pkg os e c r d e1] x assms(2) by (simp_all add: Returns t)
    with assms(1) x show ?thesis by (simp add: conn_spdy_io_def Returns t)
  qed (use assms(1) x in \<open>simp add: conn_spdy_io_def\<close>)
qed

lemma conn_spdy_step_inv:
  assumes "conn_spdy_step Z h pkg os e c = Some (Returns (ret, c', e'))" "phase_inv c"
  shows "phase_inv c'"
proof (cases "conn_phase c")
  case phase_conn_spdy_handshake
  obtain r w s e1 where i: "(if is_tls (conn_socket c) then http2d_socket_ssl_init os e (conn_socket c) 0
      else (ret_ok, 0, conn_socket c, e)) = (r, w, s, e1)"
    by (cases "if is_tls (conn_socket c) then http2d_socket_ssl_init os e (conn_socket c) 0 else (ret_ok, 0, conn_socket c, e)")
  have "phase_inv (c\<lparr>conn_socket := s, conn_phase := phase_conn_spdy_io\<rparr>)"
    using assms(2) phase_conn_spdy_handshake by (simp add: phase_inv_def)
  then have io: "conn_spdy_io Z h pkg os e1 (c\<lparr>conn_socket := s, conn_phase := phase_conn_spdy_io\<rparr>) = Some (Returns (ret, c', e')) \<Longrightarrow>
      phase_inv c'"
    using conn_spdy_io_inv by (metis (no_types))
  show ?thesis
    using assms phase_conn_spdy_handshake i io
    by (auto simp: conn_spdy_step_def http2d_connection_move_to_polling_def Let_def split: if_splits)
next
  case phase_conn_spdy_io
  with assms conn_spdy_io_inv show ?thesis by (fastforce simp: conn_spdy_step_def)
next
  case phase_conn_spdy_shutdown
  with assms shutdown_inv show ?thesis by (fastforce simp: conn_spdy_step_def)
next
  case phase_conn_spdy_linger_read
  with assms linger_inv show ?thesis by (fastforce simp: conn_spdy_step_def)
qed

text \<open>The life of a connection: it is accepted (the listener fills in the socket and the protocol), steps of
  its thread follow, and the event loop takes it from the polling list.\<close>

inductive conn_run :: "'z zlib \<Rightarrow> string \<Rightarrow> 'e os \<Rightarrow> 'z connection \<Rightarrow> 'e \<Rightarrow> bool" for Z pkg os where
  accepted: "http2d_connection_spdy_new Z raw = (ret_ok, Some c) \<Longrightarrow>
    conn_run Z pkg os (c\<lparr>conn_socket := s, conn_protocol := p, place := place_active\<rparr>) e"
| stepped: "conn_run Z pkg os c e \<Longrightarrow> conn_spdy_step Z h pkg os e c = Some (Returns (ret, c', e')) \<Longrightarrow> conn_run Z pkg os c' e'"
| polled: "conn_run Z pkg os c e \<Longrightarrow> conn_run Z pkg os (io_cb c revents) e'"

inductive_cases conn_run_E: "conn_run Z pkg os c e"

lemma conn_run_inv: "conn_run Z pkg os c e \<Longrightarrow> phase_inv c"
proof (induction rule: conn_run.induct)
  case (accepted raw c s p e)
  have "conn_phase c = phase_conn_spdy_handshake \<and> \<not> going_away c"
    using accepted by (cases raw)
      (auto simp: http2d_connection_spdy_new_def http2d_connection_init_base_def Let_def split: prod.splits if_splits)
  then show ?case by (simp add: phase_inv_def)
next
  case (stepped c e h ret c' e')
  from conn_spdy_step_inv [OF stepped(2) stepped(3)] show ?case .
next
  case (polled c e revents e')
  then show ?case by (auto simp: io_cb_def http2d_connection_move_to_active_def)
qed

lemma fake_bytes_rep:
  "length s < 2 ^ 31 - 1 \<Longrightarrow> buf_rep (http2d_buffer_fake (Some (s @ [0])) (length s)) s"
  by (simp add: buf_rep_def buffer_ok_def buffer_term_def buf_str_def http2d_buffer_fake_def u32_def nth_append)

subsection \<open>Properties\<close>

text \<open>C1: A complete SYN_STREAM frame alone in the read buffer creates one request in front of the others, with the
  stream identifier of the frame as that of the connection, and empties the buffer. Of the decompressed header
  block only the first name and value reach the header of the request, however many pairs \<open>ps\<close> follow: the
  loop of \<open>read_name_value\<close> never advances its pointer.\<close>

theorem spdy_process_buffer_syn_stream:
  assumes "inflate_contract Z expands" "packed \<noteq> []" "length packed + 10 < 2 ^ 24"
    and "buf_rep b (ctrl_frame 1 fl (be32 i @ be32 a @ [pr, sl] @ packed))"
    and "\<not> going_away c" "session (conn_protocol c) = prot_session_SPDY"
    and "expands (zst_inflate c) packed (nv_block ((k, v) # ps))" "length (nv_block ((k, v) # ps)) < SPDY_ZLIB_CHUNK" "k \<noteq> []"
  shows "\<exists>r z b'. spdy_process_buffer Z (total_heap f) c b =
      Some (Returns (ret_ok, c\<lparr>requests := Some r # requests c, conn_ID := i AND SPDY_MASK_STREAM_ID, zst_inflate := z\<rparr>, b')) \<and>
    buf_rep b' [] \<and> rq_rep r [] \<and> rq_phase r = phase_spdy_nothing \<and>
    (\<forall>s t. (s, t) \<in> set (hdr_texts (rq_header r)) \<longrightarrow> t = (if key_names k s then v else []))"
proof -
  let ?body = "be32 i @ be32 a @ [pr, sl] @ packed"
  let ?s = "ctrl_frame 1 fl ?body" and ?ctrl = "\<lparr>version = 3, ctype = 1, flags = fl, clength = length ?body\<rparr>"
  have l: "length ?body < 2 ^ 24" "length ?s = 8 + length ?body" "12 \<le> length ?s" using assms(3) by (simp_all add: ctrl_frame_def)
  obtain r z where h: "handle_SPDY_SYN_STREAM Z (total_heap f) c b ?ctrl 8 =
      Some (ret_ok, c\<lparr>requests := Some r # requests c, conn_ID := i AND SPDY_MASK_STREAM_ID, zst_inflate := z\<rparr>, 8 + clength ?ctrl)"
    "rq_rep r [] \<and> rq_phase r = phase_spdy_nothing \<and>
     (\<forall>s t. (s, t) \<in> set (hdr_texts (rq_header r)) \<longrightarrow> t = (if key_names k s then v else []))"
    using handle_SYN_STREAM_rep [OF assms(1,4,2,5-9), of f ?ctrl] by blast
  have "buf_rep b (?s @ [])" using assms(4) by simp
  from process_frame_complete [OF this l(1), of Z "total_heap f" c] h(1) l(2)
  have "spdy_process_frame Z (total_heap f) c b 0 = Some (Returns (ret_ok,
      c\<lparr>requests := Some r # requests c, conn_ID := i AND SPDY_MASK_STREAM_ID, zst_inflate := z\<rparr>, length ?s))" by simp
  from process_buffer_single [OF assms(4) l(3) this] h(2) show ?thesis by blast
qed

theorem spdy_process_buffer_syn_stream_witness:
  "\<exists>r z b'. spdy_process_buffer stored_zlib (total_heap (\<lambda>_. 0)) idle_connection
      (let s = ctrl_frame 1 0 (be32 5 @ be32 0 @ [0, 0] @ 1 # nv_block [(lit '':path'', lit ''/''), (lit '':host'', lit ''a'')])
       in http2d_buffer_fake (Some (s @ [0])) (length s)) =
      Some (Returns (ret_ok, idle_connection\<lparr>requests := Some r # requests idle_connection, conn_ID := 5, zst_inflate := z\<rparr>, b')) \<and>
    (\<forall>s t. (s, t) \<in> set (hdr_texts (rq_header r)) \<longrightarrow> t = (if key_names (lit '':path'') s then lit ''/'' else []))"
proof -
  let ?blk = "nv_block [(lit '':path'', lit ''/''), (lit '':host'', lit ''a'')]"
  define s where "s = ctrl_frame 1 0 (be32 5 @ be32 0 @ [0, 0] @ 1 # ?blk)"
  have l: "length ?blk = 32" by (simp add: nv_block_def nv_pair_def)
  have rep: "buf_rep (http2d_buffer_fake (Some (s @ [0])) (length s)) s"
    by (rule fake_bytes_rep) (simp add: s_def ctrl_frame_def l)
  have x: "stored_expands (zst_inflate idle_connection) (1 # ?blk) ?blk" "length ?blk < SPDY_ZLIB_CHUNK" "lit '':path'' \<noteq> []"
    "\<not> going_away idle_connection" "session (conn_protocol idle_connection) = prot_session_SPDY"
    using l by (auto simp: stored_expands_def idle_connection_def SPDY_ZLIB_CHUNK_def lit_def)
  have i: "5 AND SPDY_MASK_STREAM_ID = 5" by (simp add: SPDY_MASK_STREAM_ID_def)
  have p: "1 # ?blk \<noteq> []" "length (1 # ?blk) + 10 < 2 ^ 24" using l by simp_all
  have "s = ctrl_frame 1 0 (be32 5 @ be32 0 @ [0, 0] @ 1 # ?blk)" by (rule s_def)
  from spdy_process_buffer_syn_stream [OF stored_inflate p rep [unfolded this] x(4,5,1,2,3), of "\<lambda>_. 0", unfolded i]
  show ?thesis unfolding Let_def s_def by blast
qed

text \<open>C17: If the read buffer holds at least 12 bytes and starts with a frame whose body has not arrived completely, the
  frame is left where it is, as it should be, but \<open>spdy_process_buffer\<close> does not return: it finds the same
  frame in every round.\<close>

theorem spdy_process_buffer_incomplete:
  assumes "buf_rep b (ctrl_head t f n @ rest)" "4 \<le> length rest" "length rest < unat n mod 2 ^ 24"
  shows "spdy_process_frame Z h c b 0 = Some (Returns (ret_ok, c, 0)) \<and> http2d_buffer_move_to_begin b 0 = Some (ret_ok, b) \<and>
    spdy_process_buffer Z h c b = None"
proof -
  note fr = process_frame_incomplete [OF assms(1,3), of Z h c]
  have m: "http2d_buffer_move_to_begin b 0 = Some (ret_ok, b)" using move_to_begin_0 [OF assms(1)] by (simp add: ctrl_head_def)
  have l: "len b = 8 + length rest" using buf_rep_len [OF assms(1)] by simp
  then have "8 < len b" using assms(2) by linarith
  then have "process_buffer_loop Z h ret_error c b 0 = None" by (rule process_buffer_stuck [OF fr m])
  with fr m l assms(2) show ?thesis by (simp add: spdy_process_buffer_def)
qed

theorem spdy_process_buffer_incomplete_witness:
  "spdy_process_buffer stored_zlib (total_heap (\<lambda>_. 0)) idle_connection
    (http2d_buffer_fake (Some ((ctrl_head 1 0 6 @ [0, 0, 0, 0]) @ [0])) 12) = None"
proof -
  have "buf_rep (http2d_buffer_fake (Some ((ctrl_head 1 0 6 @ [0, 0, 0, 0]) @ [0])) 12) (ctrl_head 1 0 6 @ [0, 0, 0, 0])"
    using fake_bytes_rep [of "ctrl_head 1 0 6 @ [0, 0, 0, 0]"] by simp
  from spdy_process_buffer_incomplete [OF this, of stored_zlib "total_heap (\<lambda>_. 0)" idle_connection] show ?thesis by simp
qed

text \<open>C18: When a GOAWAY frame is followed by more than eight bytes, the frame is removed from the buffer but the position
  behind it is kept: the next header is looked for as many bytes into the rest as the frame was long, instead of
  at its start.\<close>

theorem spdy_process_buffer_stale_position:
  assumes "buf_rep b (ctrl_frame 7 fl (be32 i @ be32 st @ ext) @ rest)" "length ext + 8 < 2 ^ 24" "8 < length rest"
  shows "\<exists>b'. buf_rep b' rest \<and> spdy_process_buffer Z h c b =
    process_buffer_loop Z h ret_ok (c\<lparr>conn_phase := phase_conn_spdy_shutdown, going_away := True\<rparr>) b' (16 + length ext)"
proof -
  let ?body = "be32 i @ be32 st @ ext" and ?c = "c\<lparr>conn_phase := phase_conn_spdy_shutdown, going_away := True\<rparr>"
  have l: "length ?body < 2 ^ 24" "8 < length (ctrl_frame 7 fl ?body @ rest)" using assms(2,3) by (simp_all add: ctrl_frame_def)
  have fr: "spdy_process_frame Z h c b 0 = Some (Returns (ret_ok, ?c, 16 + length ext))"
    using process_frame_complete [OF assms(1) l(1), of Z h c] handle_GOAWAY_rep [OF assms(1), of c "\<lparr>version = 3, ctype = 7, flags = fl, clength = length ?body\<rparr>"]
    by simp
  obtain b' where b': "process_buffer_loop Z h ret_error c b 0 = process_buffer_loop Z h ret_ok ?c b' (16 + length ext)"
    "buf_rep b' (drop (16 + length ext) (ctrl_frame 7 fl ?body @ rest))"
    by (rule process_buffer_round [OF assms(1) l(2) fr])
  have r: "buf_rep b' rest" using b'(2) by (simp add: ctrl_frame_def)
  have e: "spdy_process_buffer Z h c b = process_buffer_loop Z h ret_ok ?c b' (16 + length ext)"
    using b'(1) buf_rep_len [OF assms(1)] by (simp add: spdy_process_buffer_def ctrl_frame_def)
  with r show ?thesis by blast
qed

theorem spdy_process_buffer_stale_position_witness:
  "\<exists>b'. buf_rep b' (replicate 9 7) \<and> spdy_process_buffer stored_zlib (total_heap (\<lambda>_. 0)) idle_connection
      (http2d_buffer_fake (Some ((ctrl_frame 7 0 (be32 1 @ be32 0 @ []) @ replicate 9 7) @ [0])) 25) =
    process_buffer_loop stored_zlib (total_heap (\<lambda>_. 0)) ret_ok
      (idle_connection\<lparr>conn_phase := phase_conn_spdy_shutdown, going_away := True\<rparr>) b' 16"
proof -
  have "buf_rep (http2d_buffer_fake (Some ((ctrl_frame 7 0 (be32 1 @ be32 0 @ []) @ replicate 9 7) @ [0])) 25)
      (ctrl_frame 7 0 (be32 1 @ be32 0 @ []) @ replicate 9 7)"
    using fake_bytes_rep [of "ctrl_frame 7 0 (be32 1 @ be32 0 @ []) @ replicate 9 7"] by (simp add: ctrl_frame_def)
  from spdy_process_buffer_stale_position [OF this, where c = idle_connection and Z = stored_zlib and h = "total_heap (\<lambda>_. 0)"]
  show ?thesis by simp
qed

text \<open>C4: One round over requests that have not been answered yet answers every one of them, in order, with a reply of
  its own in the write queue, and every reply is sent under the same identifier, the one of the stream opened
  last. The next round removes all of them and writes nothing.\<close>

theorem step_requests_answers:
  assumes "deflate_contract Z yields" "length pkg < 2 ^ 30" "list_all fresh_request rs" "length outs = length rs"
    and "flushes yields (nv_block (reply_headers (application (conn_protocol c)) pkg)) (zst_deflate c) outs ze"
    and "buf_rep (buffer_write c) w" "length w + length (concat (map (reply (conn_ID c)) outs)) + 200 < 2 ^ 31"
  shows "\<exists>rs' b. step_requests Z (total_heap f) pkg (map Some rs) c = Some (map Some rs', c\<lparr>zst_deflate := ze, buffer_write := b\<rparr>) \<and>
      length rs' = length rs \<and> buf_rep b (w @ concat (map (reply (conn_ID c)) outs)) \<and>
      (\<forall>h d. step_requests Z h pkg (map Some rs') d = Some ([], d))"
  using step_requests_fresh [OF assms, of f] step_requests_done by blast

theorem step_requests_answers_witness:
  "\<exists>r rs' b. fresh_request r \<and>
    step_requests stored_zlib (total_heap (\<lambda>_. 0)) [] [Some r, Some r] idle_connection =
      Some (map Some rs', idle_connection\<lparr>zst_deflate := (False, []), buffer_write := b\<rparr>) \<and> length rs' = 2 \<and>
    (\<forall>h d. step_requests stored_zlib h [] (map Some rs') d = Some ([], d))"
proof -
  let ?r = "raw_request\<lparr>rq_phase := phase_spdy_nothing, rq_methods := methods_spdy\<rparr>"
  let ?out = "nv_block (reply_headers (application (conn_protocol idle_connection)) [])"
  have r: "fresh_request ?r" by (simp add: fresh_request_def rq_rep_def early_phase_def raw_request_def)
  have fl: "flushes stored_yields ?out (zst_deflate idle_connection) [?out, ?out] (False, [])"
    by (simp add: stored_yields_def idle_connection_def)
  have len: "length ?out < 1000"
    using version_headers_size [of "application (conn_protocol idle_connection)"]
    by (simp add: nv_block_def reply_headers_def nv_pair_def)
  have w: "buf_rep (buffer_write idle_connection) []" by (simp add: idle_connection_def)
  have p: "length ([] :: string) < 2 ^ 30" "list_all fresh_request [?r, ?r]" "length [?out, ?out] = length [?r, ?r]"
    "length ([] :: 8 word list) + length (concat (map (reply (conn_ID idle_connection)) [?out, ?out])) + 200 < 2 ^ 31"
    using r len by (simp_all add: length_reply)
  have m: "map Some [?r, ?r] = [Some ?r, Some ?r]" "length [?r, ?r] = 2" by simp_all
  from step_requests_answers [OF stored_deflate p(1-3) fl w p(4), of "\<lambda>_. 0", unfolded m] r show ?thesis by blast
qed

text \<open>C5: In every state a SPDY connection can reach, the phase of the lingering read is not entered, and the connection
  is in the shutdown phase exactly when the peer has announced GOAWAY.\<close>

theorem conn_run_phases:
  assumes "conn_run Z pkg os c e"
  shows "conn_phase c \<noteq> phase_conn_spdy_linger_read \<and> (going_away c \<longleftrightarrow> conn_phase c = phase_conn_spdy_shutdown)"
  using conn_run_inv [OF assms] by (simp add: phase_inv_def)


theorem conn_run_phases_witness:
  "\<exists>c. conn_run stored_zlib [] pipe_os c ([], []) \<and> conn_phase c \<noteq> phase_conn_spdy_linger_read \<and> \<not> going_away c"
proof -
  let ?c = "idle_connection\<lparr>conn_phase := phase_conn_spdy_handshake,
    conn_socket := \<lparr>socket_fd = -1, closed = True, is_tls = False, phase_init = phase_init_set_up\<rparr>,
    conn_protocol := snd (http2d_protocol_init (conn_protocol idle_connection))\<rparr>"
  have n: "http2d_connection_spdy_new stored_zlib (Some idle_connection) = (ret_ok, Some ?c)"
    by (simp add: http2d_connection_spdy_new_def http2d_connection_init_base_def http2d_socket_init_def idle_connection_def
        http2d_buffer_init_def http2d_spdy_zlib_inflate_init_def http2d_spdy_zlib_deflate_init_def stored_zlib_def HTTP2D_BUF_INIT_def)
  let ?d = "?c\<lparr>conn_socket := conn_socket idle_connection, conn_protocol := conn_protocol idle_connection, place := place_active\<rparr>"
  have run: "conn_run stored_zlib [] pipe_os ?d ([], [])" by (rule accepted [OF n])
  have "conn_phase ?d \<noteq> phase_conn_spdy_shutdown" by simp
  with conn_run_phases [OF run] run show ?thesis by blast
qed

end
