(* ===== verification/Avl_Generic.thy ===== *)
theory Avl_Generic
  imports Prelude
begin

text \<open>
  Threaded AVL trees, \<^verbatim>\<open>src/src/avl_generic.c\<close>. The nodes live in a memory of their own, a map from addresses to
  nodes; a pointer is an address or \<open>None\<close>, the null pointer, and following it is a bind of the option monad. A
  freed node is not in the memory any more. When the flag \<open>nd_left_child\<close> of a node is unset its pointer
  \<open>nd_left\<close> is a thread to the node before it in the order of the keys, and likewise on the right.

  What a derived type adds to a node is the field \<open>nd_key\<close>, what it adds to a tree the field \<open>avl_ext\<close>; the
  virtual methods are the fields of the tree that are functions. The array \<open>path\<close> with its index is the stack of
  its first \<open>idx\<close> elements, the last one first: a push beyond \<open>MAX_HEIGHT\<close> elements is a fault. The method
  \<open>node_mrproper\<close>, which only releases the text of a key, goes with the node: \<open>node_free\<close> takes the node with its key
  out of the memory. The field \<open>nd_balance\<close> is a \<open>short\<close>; it is kept as an integer, and the trees the library builds
  keep it between -1 and 1.
\<close>

subsection \<open>Nodes and trees\<close>

type_synonym addr = nat

record ('k, 'v) avl_node =
  nd_balance :: int
  nd_left :: "addr option"
  nd_right :: "addr option"
  nd_left_child :: bool
  nd_right_child :: bool
  nd_value :: "'v option"
  nd_key :: 'k

type_synonym ('k, 'v) avl_mem = "addr \<Rightarrow> ('k, 'v) avl_node option"

record ('k, 'x) avl_generic =
  avl_root :: "addr option"
  node_cmp :: "('k \<Rightarrow> 'k \<Rightarrow> 'x \<Rightarrow> int option) option"
  node_is_empty :: "('k \<Rightarrow> bool) option"
  avl_ext :: 'x

definition MAX_HEIGHT :: nat where "MAX_HEIGHT = 45"

definition upd :: "('k, 'v) avl_mem \<Rightarrow> addr \<Rightarrow> (('k, 'v) avl_node \<Rightarrow> ('k, 'v) avl_node) \<Rightarrow> ('k, 'v) avl_mem option" where
  "upd m a f = map_option (\<lambda>n. m(a \<mapsto> f n)) (m a)"

text \<open>The result of a comparison is assigned to a \<open>short\<close>.\<close>

definition short :: "int \<Rightarrow> int" where
  "short i = sint (word_of_int i :: 16 word)"

definition call_cmp :: "('k, 'x) avl_generic \<Rightarrow> 'k \<Rightarrow> 'k \<Rightarrow> int option" where
  "call_cmp avl j k = do { f \<leftarrow> node_cmp avl; r \<leftarrow> f j k (avl_ext avl); Some (short r) }"

definition http2d_avl_generic_node_init :: "('k, 'v) avl_node \<Rightarrow> ret_t \<times> ('k, 'v) avl_node" where
  "http2d_avl_generic_node_init n =
     (ret_ok, n\<lparr>nd_balance := 0, nd_left := None, nd_right := None, nd_left_child := False, nd_right_child := False,
                nd_value := None\<rparr>)"

definition http2d_avl_generic_init :: "('k, 'x) avl_generic \<Rightarrow> ret_t \<times> ('k, 'x) avl_generic" where
  "http2d_avl_generic_init avl = (ret_ok, avl\<lparr>avl_root := None, node_cmp := None, node_is_empty := None\<rparr>)"

definition http2d_avl_is_empty :: "('k, 'x) avl_generic \<Rightarrow> bool" where
  "http2d_avl_is_empty avl \<longleftrightarrow> avl_root avl = None"

subsection \<open>Walking along the threads\<close>

partial_function (option) leftmost :: "('k, 'v) avl_mem \<Rightarrow> addr \<Rightarrow> addr option" where
  "leftmost m a = do {
     n \<leftarrow> m a;
     if nd_left_child n then do { b \<leftarrow> nd_left n; leftmost m b } else Some a }"

partial_function (option) rightmost :: "('k, 'v) avl_mem \<Rightarrow> addr \<Rightarrow> addr option" where
  "rightmost m a = do {
     n \<leftarrow> m a;
     if nd_right_child n then do { b \<leftarrow> nd_right n; rightmost m b } else Some a }"

definition node_first :: "('k, 'v) avl_mem \<Rightarrow> ('k, 'x) avl_generic \<Rightarrow> addr option option" where
  "node_first m avl = (case avl_root avl of None \<Rightarrow> Some None | Some a \<Rightarrow> map_option Some (leftmost m a))"

definition node_next :: "('k, 'v) avl_mem \<Rightarrow> addr \<Rightarrow> addr option option" where
  "node_next m a = do {
     n \<leftarrow> m a;
     if nd_right_child n then do { b \<leftarrow> nd_right n; map_option Some (leftmost m b) } else Some (nd_right n) }"

definition node_prev :: "('k, 'v) avl_mem \<Rightarrow> addr \<Rightarrow> addr option option" where
  "node_prev m a = do {
     n \<leftarrow> m a;
     if nd_left_child n then do { b \<leftarrow> nd_left n; map_option Some (rightmost m b) } else Some (nd_left n) }"

subsection \<open>Rotations\<close>

definition node_rotate_left :: "('k, 'v) avl_mem \<Rightarrow> addr \<Rightarrow> (('k, 'v) avl_mem \<times> addr) option" where
  "node_rotate_left m node = do {
     n \<leftarrow> m node;
     right \<leftarrow> nd_right n;
     r \<leftarrow> m right;
     m \<leftarrow> (if nd_left_child r then upd m node (\<lambda>n. n\<lparr>nd_right := nd_left r\<rparr>)
          else do {
            m \<leftarrow> upd m node (\<lambda>n. n\<lparr>nd_right_child := False, nd_right := Some right\<rparr>);
            upd m right (\<lambda>r. r\<lparr>nd_left_child := True\<rparr>) });
     m \<leftarrow> upd m right (\<lambda>r. r\<lparr>nd_left := Some node\<rparr>);
     n \<leftarrow> m node;
     r \<leftarrow> m right;
     (let a_bal = nd_balance n; b_bal = nd_balance r;
          r_bal = (if b_bal \<le> 0 then (if a_bal \<ge> 1 then b_bal - 1 else a_bal + b_bal - 2)
                   else (if a_bal \<le> b_bal then a_bal - 2 else b_bal - 1));
          n_bal = (if b_bal \<le> 0 then a_bal - 1 else a_bal - b_bal - 1)
      in do {
        m \<leftarrow> upd m right (\<lambda>r. r\<lparr>nd_balance := r_bal\<rparr>);
        m \<leftarrow> upd m node (\<lambda>n. n\<lparr>nd_balance := n_bal\<rparr>);
        Some (m, right) }) }"

definition node_rotate_right :: "('k, 'v) avl_mem \<Rightarrow> addr \<Rightarrow> (('k, 'v) avl_mem \<times> addr) option" where
  "node_rotate_right m node = do {
     n \<leftarrow> m node;
     left \<leftarrow> nd_left n;
     l \<leftarrow> m left;
     m \<leftarrow> (if nd_right_child l then upd m node (\<lambda>n. n\<lparr>nd_left := nd_right l\<rparr>)
          else do {
            m \<leftarrow> upd m node (\<lambda>n. n\<lparr>nd_left_child := False, nd_left := Some left\<rparr>);
            upd m left (\<lambda>l. l\<lparr>nd_right_child := True\<rparr>) });
     m \<leftarrow> upd m left (\<lambda>l. l\<lparr>nd_right := Some node\<rparr>);
     n \<leftarrow> m node;
     l \<leftarrow> m left;
     (let a_bal = nd_balance n; b_bal = nd_balance l;
          l_bal = (if b_bal \<le> 0 then (if b_bal > a_bal then b_bal + 1 else a_bal + 2)
                   else (if a_bal \<le> -1 then b_bal + 1 else a_bal + b_bal + 2));
          n_bal = (if b_bal \<le> 0 then a_bal - b_bal + 1 else a_bal + 1)
      in do {
        m \<leftarrow> upd m left (\<lambda>l. l\<lparr>nd_balance := l_bal\<rparr>);
        m \<leftarrow> upd m node (\<lambda>n. n\<lparr>nd_balance := n_bal\<rparr>);
        Some (m, left) }) }"

definition node_balance :: "('k, 'v) avl_mem \<Rightarrow> addr \<Rightarrow> (('k, 'v) avl_mem \<times> addr) option" where
  "node_balance m node = do {
     n \<leftarrow> m node;
     if nd_balance n < -1 then do {
       l \<leftarrow> nd_left n;
       ln \<leftarrow> m l;
       m \<leftarrow> (if nd_balance ln > 0
            then do { (m, l) \<leftarrow> node_rotate_left m l; upd m node (\<lambda>n. n\<lparr>nd_left := Some l\<rparr>) }
            else Some m);
       node_rotate_right m node }
     else if nd_balance n > 1 then do {
       r \<leftarrow> nd_right n;
       rn \<leftarrow> m r;
       m \<leftarrow> (if nd_balance rn < 0
            then do { (m, r) \<leftarrow> node_rotate_right m r; upd m node (\<lambda>n. n\<lparr>nd_right := Some r\<rparr>) }
            else Some m);
       node_rotate_left m node }
     else Some (m, node) }"

subsection \<open>Adding\<close>

definition push :: "addr option list \<Rightarrow> addr \<Rightarrow> addr option list option" where
  "push path a = (if length path < MAX_HEIGHT then Some (Some a # path) else None)"

text \<open>The descent of \<open>node_add\<close>: the new node is freed (\<open>Inl\<close>) or linked below \<open>node\<close> (\<open>Inr\<close>).\<close>

partial_function (option) add_descend ::
  "('k, 'x) avl_generic \<Rightarrow> ('k, 'v) avl_mem \<Rightarrow> addr \<Rightarrow> addr \<Rightarrow> addr option list \<Rightarrow>
    (('k, 'v) avl_mem + ('k, 'v) avl_mem \<times> addr \<times> addr option list) option" where
  "add_descend avl m child node path = do {
     c \<leftarrow> m child;
     n \<leftarrow> m node;
     re \<leftarrow> call_cmp avl (nd_key c) (nd_key n);
     if re < 0 then
       (if nd_left_child n
        then do { path \<leftarrow> push path node; l \<leftarrow> nd_left n; add_descend avl m child l path }
        else do {
          m \<leftarrow> upd m child (\<lambda>c. c\<lparr>nd_left := nd_left n, nd_right := Some node\<rparr>);
          m \<leftarrow> upd m node (\<lambda>n. n\<lparr>nd_left := Some child, nd_left_child := True, nd_balance := nd_balance n - 1\<rparr>);
          Some (Inr (m, node, path)) })
     else if re > 0 then
       (if nd_right_child n
        then do { path \<leftarrow> push path node; r \<leftarrow> nd_right n; add_descend avl m child r path }
        else do {
          m \<leftarrow> upd m child (\<lambda>c. c\<lparr>nd_right := nd_right n, nd_left := Some node\<rparr>);
          m \<leftarrow> upd m node (\<lambda>n. n\<lparr>nd_right := Some child, nd_right_child := True, nd_balance := nd_balance n + 1\<rparr>);
          Some (Inr (m, node, path)) })
     else Some (Inl (m(child := None))) }"

text \<open>Whether \<open>node\<close> is the left child of \<open>parent\<close>, and the store of a new child there.\<close>

definition is_left_of :: "('k, 'v) avl_mem \<Rightarrow> addr option \<Rightarrow> addr \<Rightarrow> bool option" where
  "is_left_of m parent node =
     (case parent of None \<Rightarrow> Some False | Some p \<Rightarrow> do { n \<leftarrow> m p; Some (nd_left n = Some node) })"

definition set_child ::
  "('k, 'v) avl_mem \<Rightarrow> addr option \<Rightarrow> addr option \<Rightarrow> bool \<Rightarrow> addr \<Rightarrow> (('k, 'v) avl_mem \<times> addr option) option" where
  "set_child m root parent is_left node =
     (case parent of None \<Rightarrow> Some (m, Some node)
      | Some p \<Rightarrow> do { m \<leftarrow> upd m p (\<lambda>n. if is_left then n\<lparr>nd_left := Some node\<rparr> else n\<lparr>nd_right := Some node\<rparr>);
                      Some (m, root) })"

text \<open>The first half of a round of both rebalancing loops.\<close>

definition balance_below ::
  "('k, 'v) avl_mem \<Rightarrow> addr option \<Rightarrow> addr option \<Rightarrow> bool \<Rightarrow> addr \<Rightarrow> (('k, 'v) avl_mem \<times> addr option \<times> addr) option" where
  "balance_below m root parent is_left node = do {
     n \<leftarrow> m node;
     if nd_balance n < -1 \<or> nd_balance n > 1
     then do { (m, node) \<leftarrow> node_balance m node; (m, root) \<leftarrow> set_child m root parent is_left node; Some (m, root, node) }
     else Some (m, root, node) }"

fun add_rebalance ::
  "('k, 'v) avl_mem \<Rightarrow> addr option \<Rightarrow> addr \<Rightarrow> addr option list \<Rightarrow> (('k, 'v) avl_mem \<times> addr option) option" where
  "add_rebalance m root node [] = None"
| "add_rebalance m root node (parent # path) = do {
     is_left \<leftarrow> is_left_of m parent node;
     (m, root, node) \<leftarrow> balance_below m root parent is_left node;
     n \<leftarrow> m node;
     (case parent of None \<Rightarrow> Some (m, root)
      | Some p \<Rightarrow>
          if nd_balance n = 0 then Some (m, root)
          else do {
            m \<leftarrow> upd m p (\<lambda>n. n\<lparr>nd_balance := nd_balance n + (if is_left then -1 else 1)\<rparr>);
            add_rebalance m root p path }) }"

definition node_add ::
  "('k, 'x) avl_generic \<Rightarrow> ('k, 'v) avl_mem \<Rightarrow> addr \<Rightarrow> (ret_t \<times> ('k, 'x) avl_generic \<times> ('k, 'v) avl_mem) option" where
  "node_add avl m child =
     (case avl_root avl of
        None \<Rightarrow> Some (ret_ok, avl\<lparr>avl_root := Some child\<rparr>, m)
      | Some root \<Rightarrow> do {
          out \<leftarrow> add_descend avl m child root [None];
          (case out of
             Inl m \<Rightarrow> Some (ret_error, avl, m)
           | Inr (m, node, path) \<Rightarrow> do {
               (m, root) \<leftarrow> add_rebalance m (avl_root avl) node path;
               Some (ret_ok, avl\<lparr>avl_root := root\<rparr>, m) }) })"

definition http2d_avl_generic_add ::
  "('k, 'x) avl_generic \<Rightarrow> ('k, 'v) avl_mem \<Rightarrow> addr \<Rightarrow> 'v option \<Rightarrow>
    (ret_t \<times> ('k, 'x) avl_generic \<times> ('k, 'v) avl_mem) option" where
  "http2d_avl_generic_add avl m key value = do {
     k \<leftarrow> m key;
     is_empty \<leftarrow> node_is_empty avl;
     if is_empty (nd_key k) then Some (ret_error, avl, m)
     else do {
       m \<leftarrow> upd m key (\<lambda>n. n\<lparr>nd_value := value\<rparr>);
       node_add avl m key } }"

subsection \<open>Deleting\<close>

partial_function (option) del_descend ::
  "('k, 'x) avl_generic \<Rightarrow> ('k, 'v) avl_mem \<Rightarrow> 'k \<Rightarrow> addr \<Rightarrow> addr option list \<Rightarrow> (addr \<times> addr option list) option option" where
  "del_descend avl m key node path = do {
     n \<leftarrow> m node;
     re \<leftarrow> call_cmp avl key (nd_key n);
     if re = 0 then Some (Some (node, path))
     else if re < 0 then
       (if \<not> nd_left_child n then Some None
        else do { path \<leftarrow> push path node; l \<leftarrow> nd_left n; del_descend avl m key l path })
     else
       (if \<not> nd_right_child n then Some None
        else do { path \<leftarrow> push path node; r \<leftarrow> nd_right n; del_descend avl m key r path }) }"

text \<open>The only child of the removed node, or its thread, takes its place below \<open>parent\<close>.\<close>

definition hand_over ::
  "('k, 'v) avl_mem \<Rightarrow> addr option \<Rightarrow> addr option \<Rightarrow> bool \<Rightarrow> addr option \<Rightarrow> (('k, 'v) avl_mem \<times> addr option) option" where
  "hand_over m root parent is_left q =
     (case parent of None \<Rightarrow> Some (m, q)
      | Some p \<Rightarrow> do {
          m \<leftarrow> upd m p (\<lambda>n. if is_left then n\<lparr>nd_left := q, nd_balance := nd_balance n + 1\<rparr>
                           else n\<lparr>nd_right := q, nd_balance := nd_balance n - 1\<rparr>);
          Some (m, root) })"

definition unlink_leaf ::
  "('k, 'v) avl_mem \<Rightarrow> addr option \<Rightarrow> addr option \<Rightarrow> bool \<Rightarrow> ('k, 'v) avl_node \<Rightarrow> (('k, 'v) avl_mem \<times> addr option) option" where
  "unlink_leaf m root parent is_left n =
     (case parent of None \<Rightarrow> Some (m, None)
      | Some p \<Rightarrow> do {
          m \<leftarrow> upd m p (\<lambda>q. if is_left
                then q\<lparr>nd_left_child := False, nd_left := nd_left n, nd_balance := nd_balance q + 1\<rparr>
                else q\<lparr>nd_right_child := False, nd_right := nd_right n, nd_balance := nd_balance q - 1\<rparr>);
          Some (m, root) })"

text \<open>The node after one with two children, its parent, and what has been pushed on the way; \<open>base\<close> is the number
  of elements of \<open>path\<close> below.\<close>

partial_function (option) find_next ::
  "('k, 'v) avl_mem \<Rightarrow> nat \<Rightarrow> addr \<Rightarrow> addr \<Rightarrow> addr option list \<Rightarrow> (addr \<times> addr \<times> addr option list) option" where
  "find_next m base next nextp ds = do {
     n \<leftarrow> m next;
     if nd_left_child n
     then if base + length ds < MAX_HEIGHT
          then do { l \<leftarrow> nd_left n; find_next m base l next (Some next # ds) }
          else None
     else Some (next, nextp, ds) }"

definition unlink_inner ::
  "('k, 'v) avl_mem \<Rightarrow> addr option \<Rightarrow> addr option \<Rightarrow> bool \<Rightarrow> addr \<Rightarrow> nat \<Rightarrow>
    (('k, 'v) avl_mem \<times> addr option \<times> addr option list) option" where
  "unlink_inner m root parent is_left node base =
     (if base < MAX_HEIGHT then do {
        n \<leftarrow> m node;
        prev \<leftarrow> nd_left n;
        next \<leftarrow> nd_right n;
        (next, nextp, ds) \<leftarrow> find_next m (base + 1) next node [];
        m \<leftarrow> (if nextp \<noteq> node
             then do {
               x \<leftarrow> m next;
               m \<leftarrow> upd m nextp (\<lambda>p. if nd_right_child x then p\<lparr>nd_left := nd_right x\<rparr> else p\<lparr>nd_left_child := False\<rparr>);
               m \<leftarrow> upd m nextp (\<lambda>p. p\<lparr>nd_balance := nd_balance p + 1\<rparr>);
               n \<leftarrow> m node;
               upd m next (\<lambda>x. x\<lparr>nd_right_child := True, nd_right := nd_right n\<rparr>) }
             else upd m node (\<lambda>n. n\<lparr>nd_balance := nd_balance n - 1\<rparr>));
        prev \<leftarrow> rightmost m prev;
        m \<leftarrow> upd m prev (\<lambda>p. p\<lparr>nd_right := Some next\<rparr>);
        n \<leftarrow> m node;
        m \<leftarrow> upd m next (\<lambda>x. x\<lparr>nd_left_child := True, nd_left := nd_left n, nd_balance := nd_balance n\<rparr>);
        (m, root) \<leftarrow> set_child m root parent is_left next;
        Some (m, root, ds @ [Some next]) }
      else None)"

text \<open>The four cases: the memory, the root, and the stack whose first element is \<open>pbalance\<close>.\<close>

definition unlink ::
  "('k, 'v) avl_mem \<Rightarrow> addr option \<Rightarrow> addr \<Rightarrow> addr option list \<Rightarrow> (('k, 'v) avl_mem \<times> addr option \<times> addr option list) option" where
  "unlink m root node path =
     (case path of [] \<Rightarrow> None
      | parent # _ \<Rightarrow> do {
          is_left \<leftarrow> is_left_of m parent node;
          n \<leftarrow> m node;
          if \<not> nd_left_child n then
            (if \<not> nd_right_child n
             then do { (m, root) \<leftarrow> unlink_leaf m root parent is_left n; Some (m, root, path) }
             else do {
               tmp \<leftarrow> node_next m node;
               t \<leftarrow> tmp;
               m \<leftarrow> upd m t (\<lambda>t. t\<lparr>nd_left := nd_left n\<rparr>);
               (m, root) \<leftarrow> hand_over m root parent is_left (nd_right n);
               Some (m, root, path) })
          else
            (if \<not> nd_right_child n
             then do {
               tmp \<leftarrow> node_prev m node;
               t \<leftarrow> tmp;
               m \<leftarrow> upd m t (\<lambda>t. t\<lparr>nd_right := nd_right n\<rparr>);
               (m, root) \<leftarrow> hand_over m root parent is_left (nd_left n);
               Some (m, root, path) }
             else do {
               (m, root, ds) \<leftarrow> unlink_inner m root parent is_left node (length path);
               Some (m, root, ds @ path) }) })"

fun del_rebalance ::
  "('k, 'v) avl_mem \<Rightarrow> addr option \<Rightarrow> addr \<Rightarrow> addr option list \<Rightarrow> (('k, 'v) avl_mem \<times> addr option) option" where
  "del_rebalance m root pbalance [] = None"
| "del_rebalance m root pbalance (bparent # path) = do {
     is_left \<leftarrow> is_left_of m bparent pbalance;
     (m, root, pbalance) \<leftarrow> balance_below m root bparent is_left pbalance;
     n \<leftarrow> m pbalance;
     (case bparent of None \<Rightarrow> Some (m, root)
      | Some p \<Rightarrow>
          if nd_balance n \<noteq> 0 then Some (m, root)
          else do {
            m \<leftarrow> upd m p (\<lambda>n. n\<lparr>nd_balance := nd_balance n + (if is_left then 1 else -1)\<rparr>);
            del_rebalance m root p path }) }"

text \<open>The second component of the result is what is stored through \<open>value\<close>.\<close>

definition http2d_avl_generic_del ::
  "('k, 'x) avl_generic \<Rightarrow> ('k, 'v) avl_mem \<Rightarrow> 'k \<Rightarrow>
    (ret_t \<times> 'v option option \<times> ('k, 'x) avl_generic \<times> ('k, 'v) avl_mem) option" where
  "http2d_avl_generic_del avl m key = do {
     is_empty \<leftarrow> node_is_empty avl;
     if is_empty key then Some (ret_error, None, avl, m)
     else (case avl_root avl of None \<Rightarrow> Some (ret_not_found, None, avl, m)
       | Some root \<Rightarrow> do {
           found \<leftarrow> del_descend avl m key root [None];
           (case found of None \<Rightarrow> Some (ret_not_found, None, avl, m)
            | Some (node, path) \<Rightarrow> do {
                n \<leftarrow> m node;
                (m, root, path) \<leftarrow> unlink m (avl_root avl) node path;
                (m, root) \<leftarrow> (case hd path of None \<Rightarrow> Some (m, root) | Some pbalance \<Rightarrow> del_rebalance m root pbalance (tl path));
                Some (ret_ok, Some (nd_value n), avl\<lparr>avl_root := root\<rparr>, m(node := None)) }) }) }"

subsection \<open>Looking up and iterating\<close>

partial_function (option) get_loop ::
  "('k, 'x) avl_generic \<Rightarrow> ('k, 'v) avl_mem \<Rightarrow> 'k \<Rightarrow> addr \<Rightarrow> (ret_t \<times> 'v option option) option" where
  "get_loop avl m key node = do {
     n \<leftarrow> m node;
     re \<leftarrow> call_cmp avl key (nd_key n);
     if re = 0 then Some (ret_ok, Some (nd_value n))
     else if re < 0 then
       (if \<not> nd_left_child n then Some (ret_not_found, None) else do { l \<leftarrow> nd_left n; get_loop avl m key l })
     else
       (if \<not> nd_right_child n then Some (ret_not_found, None) else do { r \<leftarrow> nd_right n; get_loop avl m key r }) }"

definition http2d_avl_generic_get ::
  "('k, 'x) avl_generic \<Rightarrow> ('k, 'v) avl_mem \<Rightarrow> 'k \<Rightarrow> (ret_t \<times> 'v option option) option" where
  "http2d_avl_generic_get avl m key = do {
     is_empty \<leftarrow> node_is_empty avl;
     if is_empty key then Some (ret_error, None)
     else (case avl_root avl of None \<Rightarrow> Some (ret_not_found, None) | Some root \<Rightarrow> get_loop avl m key root) }"

text \<open>The loop of \<open>http2d_avl_generic_while\<close> with a callback on a state \<open>s\<close>, which stands for what \<open>param\<close> points
  to. The last component is the node stored through \<open>key\<close>, whose value is stored through \<open>value\<close>.\<close>

partial_function (option) while_loop ::
  "('k, 'v) avl_mem \<Rightarrow> ('k \<Rightarrow> 'v option \<Rightarrow> 's \<Rightarrow> ret_t \<times> 's) \<Rightarrow> 's \<Rightarrow> addr option \<Rightarrow> addr option \<Rightarrow> (ret_t \<times> 's \<times> addr option) option" where
  "while_loop m func s node seen =
     (case node of None \<Rightarrow> Some (ret_ok, s, seen)
      | Some a \<Rightarrow> do {
          n \<leftarrow> m a;
          (case func (nd_key n) (nd_value n) s of (ret, s) \<Rightarrow>
             if ret \<noteq> ret_ok then Some (ret, s, Some a)
             else do { next \<leftarrow> node_next m a; while_loop m func s next (Some a) }) })"

definition http2d_avl_generic_while ::
  "('k, 'x) avl_generic \<Rightarrow> ('k, 'v) avl_mem \<Rightarrow> ('k \<Rightarrow> 'v option \<Rightarrow> 's \<Rightarrow> ret_t \<times> 's) \<Rightarrow> 's \<Rightarrow> (ret_t \<times> 's \<times> addr option) option" where
  "http2d_avl_generic_while avl m func s =
     (if avl_root avl = None then Some (ret_ok, s, None)
      else do { first \<leftarrow> node_first m avl; while_loop m func s first None })"

definition func_len_each :: "'k \<Rightarrow> 'v option \<Rightarrow> nat \<Rightarrow> ret_t \<times> nat" where
  "func_len_each key value n = (ret_ok, u64 (n + 1))"

definition http2d_avl_len :: "('k, 'x) avl_generic \<Rightarrow> ('k, 'v) avl_mem \<Rightarrow> (ret_t \<times> nat) option" where
  "http2d_avl_len avl m = do { (ret, n, _) \<leftarrow> http2d_avl_generic_while avl m func_len_each 0; Some (ret, n) }"

text \<open>The values handed to \<open>free_func\<close>, in order, are collected in \<open>vs\<close>. The root is not reset.\<close>

partial_function (option) mrproper_loop ::
  "('k, 'v) avl_mem \<Rightarrow> addr option \<Rightarrow> 'v option list \<Rightarrow> ('v option list \<times> ('k, 'v) avl_mem) option" where
  "mrproper_loop m node vs =
     (case node of None \<Rightarrow> Some (vs, m)
      | Some a \<Rightarrow> do {
          next \<leftarrow> node_next m a;
          n \<leftarrow> m a;
          mrproper_loop (m(a := None)) next (vs @ [nd_value n]) })"

definition http2d_avl_mrproper ::
  "('k, 'x) avl_generic \<Rightarrow> ('k, 'v) avl_mem \<Rightarrow> (ret_t \<times> 'v option list \<times> ('k, 'v) avl_mem) option" where
  "http2d_avl_mrproper avl m = do {
     first \<leftarrow> node_first m avl;
     (vs, m) \<leftarrow> mrproper_loop m first [];
     Some (ret_ok, vs, m) }"

text \<open>The structure of the tree is released too: the last component, where it was, is the null pointer.\<close>

definition http2d_avl_free ::
  "('k, 'x) avl_generic \<Rightarrow> ('k, 'v) avl_mem \<Rightarrow> (ret_t \<times> 'v option list \<times> ('k, 'v) avl_mem \<times> ('k, 'x) avl_generic option) option" where
  "http2d_avl_free avl m = do { (ret, vs, m) \<leftarrow> http2d_avl_mrproper avl m; Some (ret, vs, m, None) }"

subsection \<open>Checking\<close>

partial_function (option) node_height :: "('k, 'v) avl_mem \<Rightarrow> addr \<Rightarrow> int option" where
  "node_height m a = do {
     n \<leftarrow> m a;
     l \<leftarrow> (if nd_left_child n then do { b \<leftarrow> nd_left n; node_height m b } else Some 0);
     r \<leftarrow> (if nd_right_child n then do { b \<leftarrow> nd_right n; node_height m b } else Some 0);
     Some (max l r + 1) }"

text \<open>The results of the recursive calls are not looked at.\<close>

partial_function (option) node_check :: "('k, 'v) avl_mem \<Rightarrow> addr \<Rightarrow> ret_t option" where
  "node_check m a = do {
     n \<leftarrow> m a;
     ok_prev \<leftarrow> (if nd_left_child n
        then do { tmp \<leftarrow> node_prev m a; t \<leftarrow> tmp; p \<leftarrow> m t; Some (nd_right p = Some a) } else Some True);
     if \<not> ok_prev then Some ret_error
     else do {
       ok_next \<leftarrow> (if nd_right_child n
          then do { tmp \<leftarrow> node_next m a; t \<leftarrow> tmp; p \<leftarrow> m t; Some (nd_left p = Some a) } else Some True);
       if \<not> ok_next then Some ret_error
       else do {
         l \<leftarrow> (if nd_left_child n then do { b \<leftarrow> nd_left n; node_height m b } else Some 0);
         r \<leftarrow> (if nd_right_child n then do { b \<leftarrow> nd_right n; node_height m b } else Some 0);
         if r - l \<noteq> nd_balance n then Some ret_error
         else do {
           _ \<leftarrow> (if nd_left_child n then do { b \<leftarrow> nd_left n; node_check m b } else Some ret_ok);
           _ \<leftarrow> (if nd_right_child n then do { b \<leftarrow> nd_right n; node_check m b } else Some ret_ok);
           Some ret_ok } } } }"

definition http2d_avl_check :: "('k, 'x) avl_generic \<Rightarrow> ('k, 'v) avl_mem \<Rightarrow> ret_t option" where
  "http2d_avl_check avl m = (case avl_root avl of None \<Rightarrow> Some ret_ok | Some a \<Rightarrow> node_check m a)"

end
