(* ===== verification/Avl.thy ===== *)
theory Avl
  imports Avl_Generic Buffer_Edit
begin

text \<open>
  Trees whose keys are buffers, \<^verbatim>\<open>src/src/avl.c\<close>. What a node adds to the generic one is the buffer \<open>key\<close>, what the tree
  adds is the flag \<open>case_insensitive\<close>. The address that \<open>malloc\<close> returns for a new node, or none when there is no
  memory, is an argument of the functions that create one.
\<close>

type_synonym 'v avl_buf_mem = "(buffer, 'v) avl_mem"
type_synonym avl_t = "(buffer, bool) avl_generic"

abbreviation case_insensitive :: "avl_t \<Rightarrow> bool" where
  "case_insensitive \<equiv> avl_ext"

definition avl_node_cmp :: "buffer \<Rightarrow> buffer \<Rightarrow> bool \<Rightarrow> int option" where
  "avl_node_cmp a b insensitive = (if insensitive then http2d_buffer_case_cmp_buf a b else http2d_buffer_cmp_buf a b)"

definition avl_node_is_empty :: "buffer \<Rightarrow> bool" where
  "avl_node_is_empty k = http2d_buffer_is_empty k"

definition avl_node_new ::
  "heap \<Rightarrow> 'v avl_buf_mem \<Rightarrow> addr option \<Rightarrow> buffer \<Rightarrow> (ret_t \<times> addr option \<times> 'v avl_buf_mem) option" where
  "avl_node_new h m new key =
     (case new of None \<Rightarrow> Some (ret_nomem, None, m)
      | Some a \<Rightarrow> do {
          (_, k) \<leftarrow> http2d_buffer_add_buffer h HTTP2D_BUF_INIT key;
          Some (ret_ok, Some a, m(a \<mapsto> \<lparr>nd_balance = 0, nd_left = None, nd_right = None, nd_left_child = False,
                                      nd_right_child = False, nd_value = None, nd_key = k\<rparr>)) })"

definition http2d_avl_init :: "avl_t \<Rightarrow> ret_t \<times> avl_t" where
  "http2d_avl_init avl =
     (ret_ok, (snd (http2d_avl_generic_init avl))\<lparr>node_cmp := Some avl_node_cmp, node_is_empty := Some avl_node_is_empty, avl_ext := False\<rparr>)"

text \<open>The argument is the uninitialised structure that \<open>malloc\<close> returns, if it does.\<close>

definition http2d_avl_new :: "avl_t option \<Rightarrow> ret_t \<times> avl_t option" where
  "http2d_avl_new new =
     (case new of None \<Rightarrow> (ret_nomem, None) | Some n \<Rightarrow> (case http2d_avl_init n of (ret, n) \<Rightarrow> (ret, Some n)))"

definition http2d_avl_set_case :: "avl_t \<Rightarrow> bool \<Rightarrow> ret_t \<times> avl_t" where
  "http2d_avl_set_case avl insensitive = (ret_ok, avl\<lparr>avl_ext := insensitive\<rparr>)"

definition http2d_avl_add ::
  "heap \<Rightarrow> avl_t \<Rightarrow> 'v avl_buf_mem \<Rightarrow> addr option \<Rightarrow> buffer \<Rightarrow> 'v option \<Rightarrow> (ret_t \<times> avl_t \<times> 'v avl_buf_mem) option" where
  "http2d_avl_add h avl m new key value = do {
     (ret, n, m) \<leftarrow> avl_node_new h m new key;
     (case n of None \<Rightarrow> Some (ret, avl, m) | Some a \<Rightarrow> http2d_avl_generic_add avl m a value) }"

text \<open>A key on the stack that shares the text of the argument.\<close>

definition tmp_key :: "buffer \<Rightarrow> buffer" where
  "tmp_key key = http2d_buffer_fake (buf key) (len key)"

definition http2d_avl_del :: "avl_t \<Rightarrow> 'v avl_buf_mem \<Rightarrow> buffer \<Rightarrow> (ret_t \<times> 'v option option \<times> avl_t \<times> 'v avl_buf_mem) option" where
  "http2d_avl_del avl m key = http2d_avl_generic_del avl m (tmp_key key)"

definition http2d_avl_get :: "avl_t \<Rightarrow> 'v avl_buf_mem \<Rightarrow> buffer \<Rightarrow> (ret_t \<times> 'v option option) option" where
  "http2d_avl_get avl m key = http2d_avl_generic_get avl m (tmp_key key)"

definition ptr_key :: "block \<Rightarrow> buffer option" where
  "ptr_key key = do { s \<leftarrow> cstr key 0; Some (http2d_buffer_fake (Some key) (u32 (length s))) }"

definition http2d_avl_add_ptr ::
  "heap \<Rightarrow> avl_t \<Rightarrow> 'v avl_buf_mem \<Rightarrow> addr option \<Rightarrow> block \<Rightarrow> 'v option \<Rightarrow> (ret_t \<times> avl_t \<times> 'v avl_buf_mem) option" where
  "http2d_avl_add_ptr h avl m new key value = do { k \<leftarrow> ptr_key key; http2d_avl_add h avl m new k value }"

definition http2d_avl_del_ptr :: "avl_t \<Rightarrow> 'v avl_buf_mem \<Rightarrow> block \<Rightarrow> (ret_t \<times> 'v option option \<times> avl_t \<times> 'v avl_buf_mem) option" where
  "http2d_avl_del_ptr avl m key = do { k \<leftarrow> ptr_key key; http2d_avl_del avl m k }"

definition http2d_avl_get_ptr :: "avl_t \<Rightarrow> 'v avl_buf_mem \<Rightarrow> block \<Rightarrow> (ret_t \<times> 'v option option) option" where
  "http2d_avl_get_ptr avl m key = do { k \<leftarrow> ptr_key key; http2d_avl_get avl m k }"

definition while_func_wrap :: "(buffer \<Rightarrow> 'v option \<Rightarrow> 's \<Rightarrow> ret_t \<times> 's) \<Rightarrow> buffer \<Rightarrow> 'v option \<Rightarrow> 's \<Rightarrow> ret_t \<times> 's" where
  "while_func_wrap func key value s = func key value s"

definition http2d_avl_while ::
  "avl_t \<Rightarrow> 'v avl_buf_mem \<Rightarrow> (buffer \<Rightarrow> 'v option \<Rightarrow> 's \<Rightarrow> ret_t \<times> 's) \<Rightarrow> 's \<Rightarrow> (ret_t \<times> 's \<times> addr option) option" where
  "http2d_avl_while avl m func s = http2d_avl_generic_while avl m (while_func_wrap func) s"

end
