(* ===== verification/Avl_Tree.thy ===== *)
theory Avl_Tree
  imports Avl_Generic "HOL-Library.Tree"
begin

text \<open>
  What the memory of a threaded tree has to look like, and that rotations and the rebalancing loops keep it so. The
  shape of a tree is a binary tree of addresses; a context is the part of a tree around one of its subtrees, as
  the list of the nodes from there up to the root, each with the subtree on its other side.
\<close>

subsection \<open>Shapes\<close>

fun root_of :: "addr tree \<Rightarrow> addr option" where
  "root_of \<langle>\<rangle> = None"
| "root_of \<langle>l, p, r\<rangle> = Some p"

fun link :: "addr option \<Rightarrow> addr tree \<Rightarrow> addr option" where
  "link th \<langle>\<rangle> = th"
| "link th \<langle>l, p, r\<rangle> = Some p"

fun avl_bal :: "'a tree \<Rightarrow> bool" where
  "avl_bal \<langle>\<rangle> = True"
| "avl_bal \<langle>l, p, r\<rangle> = (height l \<le> height r + 1 \<and> height r \<le> height l + 1 \<and> avl_bal l \<and> avl_bal r)"

fun even_root :: "'a tree \<Rightarrow> bool" where
  "even_root \<langle>\<rangle> = True"
| "even_root \<langle>l, p, r\<rangle> = (height l = height r)"

text \<open>The content of one node of a tree whose neighbours in the order are \<open>lo\<close> and \<open>hi\<close>, and of a whole tree.\<close>

definition node_ok ::
  "('k, 'v) avl_mem \<Rightarrow> addr option \<Rightarrow> addr tree \<Rightarrow> addr \<Rightarrow> addr tree \<Rightarrow> addr option \<Rightarrow> bool" where
  "node_ok m lo l p r hi \<longleftrightarrow> (\<exists>n. m p = Some n \<and> nd_balance n = int (height r) - int (height l) \<and>
     nd_left n = link lo l \<and> nd_left_child n = (l \<noteq> \<langle>\<rangle>) \<and> nd_right n = link hi r \<and> nd_right_child n = (r \<noteq> \<langle>\<rangle>))"

fun rep :: "('k, 'v) avl_mem \<Rightarrow> addr option \<Rightarrow> addr tree \<Rightarrow> addr option \<Rightarrow> bool" where
  "rep m lo \<langle>\<rangle> hi = True"
| "rep m lo \<langle>l, p, r\<rangle> hi = (node_ok m lo l p r hi \<and> rep m lo l (Some p) \<and> rep m (Some p) r hi)"

definition payload :: "('k, 'v) avl_mem \<Rightarrow> addr \<Rightarrow> ('k \<times> 'v option) option" where
  "payload m a = map_option (\<lambda>n. (nd_key n, nd_value n)) (m a)"

definition same_outside :: "addr set \<Rightarrow> ('k, 'v) avl_mem \<Rightarrow> ('k, 'v) avl_mem \<Rightarrow> bool" where
  "same_outside S m m' \<longleftrightarrow> (\<forall>a. a \<notin> S \<longrightarrow> m' a = m a)"

lemma rep_cong: "(\<And>a. a \<in> set_tree t \<Longrightarrow> m' a = m a) \<Longrightarrow> rep m' lo t hi = rep m lo t hi"
  by (induction t arbitrary: lo hi) (auto simp: node_ok_def)

lemma rep_upd_other [simp]: "a \<notin> set_tree t \<Longrightarrow> rep (m(a := x)) lo t hi = rep m lo t hi"
  by (rule rep_cong) auto

lemma same_outside_rep: "same_outside S m m' \<Longrightarrow> S \<inter> set_tree t = {} \<Longrightarrow> rep m' lo t hi = rep m lo t hi"
  by (rule rep_cong) (auto simp: same_outside_def)

lemma same_outside_trans: "same_outside S m m' \<Longrightarrow> same_outside T m' m'' \<Longrightarrow> same_outside (S \<union> T) m m''"
  by (auto simp: same_outside_def)

lemma same_outside_mono: "same_outside S m m' \<Longrightarrow> S \<subseteq> T \<Longrightarrow> same_outside T m m'"
  by (auto simp: same_outside_def)

lemma same_outside_refl [simp]: "same_outside S m m"
  by (simp add: same_outside_def)

subsection \<open>Rotations\<close>

lemma payload_upd [simp]: "m a = Some n \<Longrightarrow> (nd_key n', nd_value n') = (nd_key n, nd_value n) \<Longrightarrow> payload (m(a \<mapsto> n')) = payload m"
  by (auto simp: payload_def fun_eq_iff)

lemma node_rotate_left_rep:
  assumes "rep m lo \<langle>l, a, \<langle>rl, b, rr\<rangle>\<rangle> hi" "distinct (inorder \<langle>l, a, \<langle>rl, b, rr\<rangle>\<rangle>)"
  shows "\<exists>m'. node_rotate_left m a = Some (m', b) \<and> rep m' lo \<langle>\<langle>l, a, rl\<rangle>, b, rr\<rangle> hi \<and>
    payload m' = payload m \<and> same_outside {a, b} m m'"
proof -
  obtain n r where n: "m a = Some n" "m b = Some r" "nd_right n = Some b" "nd_left_child r = (rl \<noteq> \<langle>\<rangle>)"
    "nd_left r = link (Some a) rl" "nd_balance n = 1 + int (max (height rl) (height rr)) - int (height l)"
    "nd_balance r = int (height rr) - int (height rl)" "nd_left n = link lo l" "nd_left_child n = (l \<noteq> \<langle>\<rangle>)"
    "nd_right_child n" "nd_right r = link hi rr" "nd_right_child r = (rr \<noteq> \<langle>\<rangle>)"
    using assms(1) by (auto simp: node_ok_def)
  have ab: "a \<noteq> b" using assms(2) by auto
  let ?n = "n\<lparr>nd_right := link (Some b) rl, nd_right_child := rl \<noteq> \<langle>\<rangle>, nd_balance := int (height rl) - int (height l)\<rparr>"
  let ?r = "r\<lparr>nd_left := Some a, nd_left_child := True, nd_balance := int (height rr) - (1 + int (max (height l) (height rl)))\<rparr>"
  let ?m = "m(a \<mapsto> ?n, b \<mapsto> ?r)"
  have "node_rotate_left m a = Some (?m, b)"
    using n ab by (cases rl) (auto simp: node_rotate_left_def upd_def Let_def fun_eq_iff max_def not_le Suc_le_eq intro!: avl_node.equality)
  moreover have "rep ?m lo t hi = rep m lo t hi" if "a \<notin> set_tree t" "b \<notin> set_tree t" for t lo hi
    using that by (intro rep_cong) auto
  then have "rep ?m lo \<langle>\<langle>l, a, rl\<rangle>, b, rr\<rangle> hi"
    using assms n ab by (auto simp: node_ok_def)
  moreover have "payload ?m = payload m" using n ab by (auto simp: payload_def fun_eq_iff)
  ultimately show ?thesis by (auto simp: same_outside_def)
qed

lemma node_rotate_right_rep:
  assumes "rep m lo \<langle>\<langle>ll, b, lr\<rangle>, a, r\<rangle> hi" "distinct (inorder \<langle>\<langle>ll, b, lr\<rangle>, a, r\<rangle>)"
  shows "\<exists>m'. node_rotate_right m a = Some (m', b) \<and> rep m' lo \<langle>ll, b, \<langle>lr, a, r\<rangle>\<rangle> hi \<and>
    payload m' = payload m \<and> same_outside {a, b} m m'"
proof -
  obtain n l where n: "m a = Some n" "m b = Some l" "nd_left n = Some b" "nd_right_child l = (lr \<noteq> \<langle>\<rangle>)"
    "nd_right l = link (Some a) lr" "nd_balance n = int (height r) - (1 + int (max (height ll) (height lr)))"
    "nd_balance l = int (height lr) - int (height ll)" "nd_right n = link hi r" "nd_right_child n = (r \<noteq> \<langle>\<rangle>)"
    "nd_left_child n" "nd_left l = link lo ll" "nd_left_child l = (ll \<noteq> \<langle>\<rangle>)"
    using assms(1) by (auto simp: node_ok_def)
  have ab: "a \<noteq> b" using assms(2) by auto
  let ?n = "n\<lparr>nd_left := link (Some b) lr, nd_left_child := lr \<noteq> \<langle>\<rangle>, nd_balance := int (height r) - int (height lr)\<rparr>"
  let ?l = "l\<lparr>nd_right := Some a, nd_right_child := True, nd_balance := 1 + int (max (height lr) (height r)) - int (height ll)\<rparr>"
  let ?m = "m(a \<mapsto> ?n, b \<mapsto> ?l)"
  have "node_rotate_right m a = Some (?m, b)"
    using n ab by (cases lr) (auto simp: node_rotate_right_def upd_def Let_def fun_eq_iff max_def not_le Suc_le_eq intro!: avl_node.equality)
  moreover have "rep ?m lo t hi = rep m lo t hi" if "a \<notin> set_tree t" "b \<notin> set_tree t" for t lo hi
    using that by (intro rep_cong) auto
  then have "rep ?m lo \<langle>ll, b, \<langle>lr, a, r\<rangle>\<rangle> hi"
    using assms n ab by (auto simp: node_ok_def)
  moreover have "payload ?m = payload m" using n ab by (auto simp: payload_def fun_eq_iff)
  ultimately show ?thesis by (auto simp: same_outside_def)
qed

subsection \<open>Restoring the balance of a node\<close>

fun rotl :: "'a tree \<Rightarrow> 'a tree" where
  "rotl \<langle>l, a, \<langle>rl, b, rr\<rangle>\<rangle> = \<langle>\<langle>l, a, rl\<rangle>, b, rr\<rangle>"
| "rotl t = t"

fun rotr :: "'a tree \<Rightarrow> 'a tree" where
  "rotr \<langle>\<langle>ll, b, lr\<rangle>, a, r\<rangle> = \<langle>ll, b, \<langle>lr, a, r\<rangle>\<rangle>"
| "rotr t = t"

fun leans_right :: "'a tree \<Rightarrow> bool" where
  "leans_right \<langle>\<rangle> = False"
| "leans_right \<langle>l, a, r\<rangle> = (height l < height r)"

fun leans_left :: "'a tree \<Rightarrow> bool" where
  "leans_left \<langle>\<rangle> = False"
| "leans_left \<langle>l, a, r\<rangle> = (height r < height l)"

fun rebalanced :: "'a tree \<Rightarrow> 'a tree" where
  "rebalanced \<langle>\<rangle> = \<langle>\<rangle>"
| "rebalanced \<langle>l, a, r\<rangle> =
     (if height r + 1 < height l then rotr \<langle>if leans_right l then rotl l else l, a, r\<rangle>
      else if height l + 1 < height r then rotl \<langle>l, a, if leans_left r then rotr r else r\<rangle>
      else \<langle>l, a, r\<rangle>)"

lemma inorder_rot [simp]: "inorder (rotl t) = inorder t" "inorder (rotr t) = inorder t"
  by (cases t rule: rotl.cases; simp) (cases t rule: rotr.cases; simp)

lemma set_rot [simp]: "set_tree (rotl t) = set_tree t" "set_tree (rotr t) = set_tree t"
  by (simp_all flip: set_inorder)

lemma inorder_rebalanced [simp]: "inorder (rebalanced t) = inorder t"
proof (cases t)
  case (Node l a r)
  have "inorder \<langle>if leans_right l then rotl l else l, a, r\<rangle> = inorder \<langle>l, a, r\<rangle>"
    "inorder \<langle>l, a, if leans_left r then rotr r else r\<rangle> = inorder \<langle>l, a, r\<rangle>" by simp_all
  with Node show ?thesis by (simp del: inorder.simps)
qed simp

lemma height_rotl_lean: "avl_bal t \<Longrightarrow> leans_right t \<Longrightarrow> height (rotl t) = height t"
  by (cases t rule: rotl.cases) auto

lemma height_rotr_lean: "avl_bal t \<Longrightarrow> leans_left t \<Longrightarrow> height (rotr t) = height t"
  by (cases t rule: rotr.cases) auto

lemma node_rotl:
  assumes "rep m lo t hi" "distinct (inorder t)" "leans_right t" "root_of t = Some p"
  shows "\<exists>m' q. node_rotate_left m p = Some (m', q) \<and> root_of (rotl t) = Some q \<and> rep m' lo (rotl t) hi \<and>
    payload m' = payload m \<and> same_outside (set_tree t) m m'"
proof -
  obtain l rl b rr where t: "t = \<langle>l, p, \<langle>rl, b, rr\<rangle>\<rangle>" using assms(3,4) by (cases t rule: rotl.cases) auto
  from node_rotate_left_rep [OF assms(1,2) [unfolded t]] obtain m' where "node_rotate_left m p = Some (m', b)"
    "rep m' lo \<langle>\<langle>l, p, rl\<rangle>, b, rr\<rangle> hi" "payload m' = payload m" "same_outside {p, b} m m'" by blast
  then show ?thesis by (auto simp: t same_outside_def)
qed

lemma node_rotr:
  assumes "rep m lo t hi" "distinct (inorder t)" "leans_left t" "root_of t = Some p"
  shows "\<exists>m' q. node_rotate_right m p = Some (m', q) \<and> root_of (rotr t) = Some q \<and> rep m' lo (rotr t) hi \<and>
    payload m' = payload m \<and> same_outside (set_tree t) m m'"
proof -
  obtain ll lr b r where t: "t = \<langle>\<langle>ll, b, lr\<rangle>, p, r\<rangle>" using assms(3,4) by (cases t rule: rotr.cases) auto
  from node_rotate_right_rep [OF assms(1,2) [unfolded t]] obtain m' where "node_rotate_right m p = Some (m', b)"
    "rep m' lo \<langle>ll, b, \<langle>lr, p, r\<rangle>\<rangle> hi" "payload m' = payload m" "same_outside {p, b} m m'" by blast
  then show ?thesis by (auto simp: t same_outside_def)
qed

lemma payload_id: "m a = Some n \<Longrightarrow> nd_key n' = nd_key n \<Longrightarrow> nd_value n' = nd_value n \<Longrightarrow> payload (m(a \<mapsto> n')) = payload m"
  by (auto simp: payload_def fun_eq_iff)

text \<open>The first rotation of a double rotation, on a child.\<close>

lemma turn_left_child:
  assumes "rep m lo \<langle>l, a, r\<rangle> hi" "distinct (inorder \<langle>l, a, r\<rangle>)" "avl_bal l" "leans_right l" "nd_left n = Some p" "m a = Some n"
  shows "\<exists>m1 q m2. node_rotate_left m p = Some (m1, q) \<and> upd m1 a (\<lambda>n. n\<lparr>nd_left := Some q\<rparr>) = Some m2 \<and>
    rep m2 lo \<langle>rotl l, a, r\<rangle> hi \<and> payload m2 = payload m \<and> same_outside (set_tree \<langle>l, a, r\<rangle>) m m2"
proof -
  have l: "rep m lo l (Some a)" "distinct (inorder l)" "l \<noteq> \<langle>\<rangle>" "root_of l = Some p"
    using assms by (auto simp: node_ok_def elim: leans_right.elims)
  obtain m1 q where m1: "node_rotate_left m p = Some (m1, q)" "root_of (rotl l) = Some q" "rep m1 lo (rotl l) (Some a)"
    "payload m1 = payload m" "same_outside (set_tree l) m m1" using node_rotl [OF l(1,2) assms(4) l(4)] by blast
  have a: "a \<notin> set_tree l" "a \<notin> set_tree r" "set_tree l \<inter> set_tree r = {}" using assms(2) by auto
  have n: "m1 a = Some n" using m1(5) a(1) assms(6) by (simp add: same_outside_def)
  let ?m = "m1(a \<mapsto> n\<lparr>nd_left := Some q\<rparr>)"
  have "rep ?m lo (rotl l) (Some a)" using m1(3) a(1) by simp
  moreover have "rep ?m (Some a) r hi" using assms(1) a m1(5) by (subst rep_cong [of r ?m m]) (auto simp: same_outside_def)
  moreover have "rotl l \<noteq> \<langle>\<rangle>" "link lo (rotl l) = Some q" using m1(2) by (cases "rotl l"; simp)+
  then have "node_ok ?m lo (rotl l) a r hi"
    using assms(1,6) l(3) height_rotl_lean [OF assms(3,4)] by (auto simp: node_ok_def)
  moreover have "payload ?m = payload m" using m1(4) n by (simp add: payload_id)
  moreover have "same_outside (set_tree \<langle>l, a, r\<rangle>) m ?m" using m1(5) by (auto simp: same_outside_def)
  ultimately show ?thesis using m1(1) n by (auto simp: upd_def)
qed

lemma turn_right_child:
  assumes "rep m lo \<langle>l, a, r\<rangle> hi" "distinct (inorder \<langle>l, a, r\<rangle>)" "avl_bal r" "leans_left r" "nd_right n = Some p" "m a = Some n"
  shows "\<exists>m1 q m2. node_rotate_right m p = Some (m1, q) \<and> upd m1 a (\<lambda>n. n\<lparr>nd_right := Some q\<rparr>) = Some m2 \<and>
    rep m2 lo \<langle>l, a, rotr r\<rangle> hi \<and> payload m2 = payload m \<and> same_outside (set_tree \<langle>l, a, r\<rangle>) m m2"
proof -
  have r: "rep m (Some a) r hi" "distinct (inorder r)" "r \<noteq> \<langle>\<rangle>" "root_of r = Some p"
    using assms by (auto simp: node_ok_def elim: leans_left.elims)
  obtain m1 q where m1: "node_rotate_right m p = Some (m1, q)" "root_of (rotr r) = Some q" "rep m1 (Some a) (rotr r) hi"
    "payload m1 = payload m" "same_outside (set_tree r) m m1" using node_rotr [OF r(1,2) assms(4) r(4)] by blast
  have a: "a \<notin> set_tree l" "a \<notin> set_tree r" "set_tree l \<inter> set_tree r = {}" using assms(2) by auto
  have n: "m1 a = Some n" using m1(5) a(2) assms(6) by (simp add: same_outside_def)
  let ?m = "m1(a \<mapsto> n\<lparr>nd_right := Some q\<rparr>)"
  have "rep ?m (Some a) (rotr r) hi" using m1(3) a(2) by simp
  moreover have "rep ?m lo l (Some a)" using assms(1) a m1(5) by (subst rep_cong [of l ?m m]) (auto simp: same_outside_def)
  moreover have "rotr r \<noteq> \<langle>\<rangle>" "link hi (rotr r) = Some q" using m1(2) by (cases "rotr r"; simp)+
  then have "node_ok ?m lo l a (rotr r) hi"
    using assms(1,6) r(3) height_rotr_lean [OF assms(3,4)] by (auto simp: node_ok_def)
  moreover have "payload ?m = payload m" using m1(4) n by (simp add: payload_id)
  moreover have "same_outside (set_tree \<langle>l, a, r\<rangle>) m ?m" using m1(5) by (auto simp: same_outside_def)
  ultimately show ?thesis using m1(1) n by (auto simp: upd_def)
qed

lemma lean_balance:
  assumes "rep m lo t hi" "root_of t = Some p" "m p = Some n"
  shows "0 < nd_balance n \<longleftrightarrow> leans_right t" "nd_balance n < 0 \<longleftrightarrow> leans_left t"
  using assms by (cases t; auto simp: node_ok_def)+

lemma node_balance_rep:
  assumes "rep m lo \<langle>l, a, r\<rangle> hi" "distinct (inorder \<langle>l, a, r\<rangle>)" "avl_bal l" "avl_bal r"
  shows "\<exists>m' q. node_balance m a = Some (m', q) \<and> root_of (rebalanced \<langle>l, a, r\<rangle>) = Some q \<and>
    rep m' lo (rebalanced \<langle>l, a, r\<rangle>) hi \<and> payload m' = payload m \<and> same_outside (set_tree \<langle>l, a, r\<rangle>) m m'"
proof -
  obtain n where n: "m a = Some n" "nd_balance n = int (height r) - int (height l)" "nd_left n = link lo l" "nd_right n = link hi r"
    using assms(1) by (auto simp: node_ok_def)
  consider "height r + 1 < height l" | "height l + 1 < height r" | "height l \<le> height r + 1" "height r \<le> height l + 1" by linarith
  then show ?thesis
  proof cases
    case 1
    then obtain p where p: "root_of l = Some p" "nd_left n = Some p" using n(3) by (cases l) auto
    obtain ln where ln: "m p = Some ln" using assms(1) p(1) by (cases l) (auto simp: node_ok_def)
    have lean: "0 < nd_balance ln \<longleftrightarrow> leans_right l" using lean_balance(1) [of m lo l "Some a", OF _ p(1) ln] assms(1) by simp
    let ?l = "if leans_right l then rotl l else l"
    have "\<exists>m2. (if 0 < nd_balance ln then do { (m, l) \<leftarrow> node_rotate_left m p; upd m a (\<lambda>n. n\<lparr>nd_left := Some l\<rparr>) } else Some m) = Some m2 \<and>
        rep m2 lo \<langle>?l, a, r\<rangle> hi \<and> payload m2 = payload m \<and> same_outside (set_tree \<langle>l, a, r\<rangle>) m m2"
      using turn_left_child [OF assms(1-3) _ p(2) n(1)] assms(1) by (auto simp: lean)
    then obtain m2 where m2: "(if 0 < nd_balance ln then do { (m, l) \<leftarrow> node_rotate_left m p; upd m a (\<lambda>n. n\<lparr>nd_left := Some l\<rparr>) } else Some m) = Some m2"
        "rep m2 lo \<langle>?l, a, r\<rangle> hi" "payload m2 = payload m" "same_outside (set_tree \<langle>l, a, r\<rangle>) m m2" by blast
    have i: "inorder \<langle>?l, a, r\<rangle> = inorder \<langle>l, a, r\<rangle>" "set_tree \<langle>?l, a, r\<rangle> = set_tree \<langle>l, a, r\<rangle>"
      by simp_all
    have "height ?l = height l" using height_rotl_lean [OF assms(3)] by simp
    then have lean2: "leans_left \<langle>?l, a, r\<rangle>" using 1 by simp
    obtain m' q where m': "node_rotate_right m2 a = Some (m', q)" "root_of (rotr \<langle>?l, a, r\<rangle>) = Some q"
      "rep m' lo (rotr \<langle>?l, a, r\<rangle>) hi" "payload m' = payload m2" "same_outside (set_tree \<langle>?l, a, r\<rangle>) m2 m'"
      using node_rotr [OF m2(2) assms(2) [folded i(1)] lean2 root_of.simps(2)] by blast
    have "node_balance m a = Some (m', q)" using 1 n(1,2) p(2) ln m2(1) m'(1) by (simp add: node_balance_def)
    moreover have "rebalanced \<langle>l, a, r\<rangle> = rotr \<langle>?l, a, r\<rangle>" using 1 by simp
    moreover have "same_outside (set_tree \<langle>l, a, r\<rangle>) m m'" using same_outside_trans [OF m2(4) m'(5) [unfolded i(2)]] by simp
    ultimately show ?thesis using m' m2(3) by metis
  next
    case 2
    then obtain p where p: "root_of r = Some p" "nd_right n = Some p" using n(4) by (cases r) auto
    obtain rn where rn: "m p = Some rn" using assms(1) p(1) by (cases r) (auto simp: node_ok_def)
    have lean: "nd_balance rn < 0 \<longleftrightarrow> leans_left r" using lean_balance(2) [of m "Some a" r hi, OF _ p(1) rn] assms(1) by simp
    let ?r = "if leans_left r then rotr r else r"
    have "\<exists>m2. (if nd_balance rn < 0 then do { (m, r) \<leftarrow> node_rotate_right m p; upd m a (\<lambda>n. n\<lparr>nd_right := Some r\<rparr>) } else Some m) = Some m2 \<and>
        rep m2 lo \<langle>l, a, ?r\<rangle> hi \<and> payload m2 = payload m \<and> same_outside (set_tree \<langle>l, a, r\<rangle>) m m2"
      using turn_right_child [OF assms(1,2,4) _ p(2) n(1)] assms(1) by (auto simp: lean)
    then obtain m2 where m2: "(if nd_balance rn < 0 then do { (m, r) \<leftarrow> node_rotate_right m p; upd m a (\<lambda>n. n\<lparr>nd_right := Some r\<rparr>) } else Some m) = Some m2"
        "rep m2 lo \<langle>l, a, ?r\<rangle> hi" "payload m2 = payload m" "same_outside (set_tree \<langle>l, a, r\<rangle>) m m2" by blast
    have i: "inorder \<langle>l, a, ?r\<rangle> = inorder \<langle>l, a, r\<rangle>" "set_tree \<langle>l, a, ?r\<rangle> = set_tree \<langle>l, a, r\<rangle>"
      by simp_all
    have "height ?r = height r" using height_rotr_lean [OF assms(4)] by simp
    then have lean2: "leans_right \<langle>l, a, ?r\<rangle>" using 2 by simp
    obtain m' q where m': "node_rotate_left m2 a = Some (m', q)" "root_of (rotl \<langle>l, a, ?r\<rangle>) = Some q"
      "rep m' lo (rotl \<langle>l, a, ?r\<rangle>) hi" "payload m' = payload m2" "same_outside (set_tree \<langle>l, a, ?r\<rangle>) m2 m'"
      using node_rotl [OF m2(2) assms(2) [folded i(1)] lean2 root_of.simps(2)] by blast
    have "node_balance m a = Some (m', q)" using 2 n(1,2) p(2) rn m2(1) m'(1) by (simp add: node_balance_def)
    moreover have "rebalanced \<langle>l, a, r\<rangle> = rotl \<langle>l, a, ?r\<rangle>" using 2 by simp
    moreover have "same_outside (set_tree \<langle>l, a, r\<rangle>) m m'" using same_outside_trans [OF m2(4) m'(5) [unfolded i(2)]] by simp
    ultimately show ?thesis using m' m2(3) by metis
  next
    case 3
    with n assms(1) show ?thesis by (simp add: node_balance_def)
  qed
qed

text \<open>The effect on heights when the two sides differ by two.\<close>

lemma rebalanced_avl:
  assumes "avl_bal l" "avl_bal r" "height l \<le> height r + 2" "height r \<le> height l + 2"
  shows "avl_bal (rebalanced \<langle>l, a, r\<rangle>)"
proof -
  consider "height l = height r + 2" | "height r = height l + 2" | "height l \<le> height r + 1" "height r \<le> height l + 1"
    using assms(3,4) by linarith
  then show ?thesis
  proof cases
    case 1
    with assms(1,2) show ?thesis by (cases l rule: rotl.cases) (auto simp: max_def split: if_splits)
  next
    case 2
    with assms(1,2) show ?thesis by (cases r rule: rotr.cases) (auto simp: max_def split: if_splits)
  next
    case 3
    with assms(1,2) show ?thesis by simp
  qed
qed

lemma rebalanced_height_left:
  assumes "avl_bal l" "avl_bal r" "height l = height r + 2"
  shows "\<not> even_root l \<Longrightarrow> height (rebalanced \<langle>l, a, r\<rangle>) = height l \<and> even_root (rebalanced \<langle>l, a, r\<rangle>)"
    and "even_root l \<Longrightarrow> height (rebalanced \<langle>l, a, r\<rangle>) = height l + 1 \<and> \<not> even_root (rebalanced \<langle>l, a, r\<rangle>)"
  using assms by (cases l rule: rotl.cases; auto simp: max_def split: if_splits)+

lemma rebalanced_height_right:
  assumes "avl_bal l" "avl_bal r" "height r = height l + 2"
  shows "\<not> even_root r \<Longrightarrow> height (rebalanced \<langle>l, a, r\<rangle>) = height r \<and> even_root (rebalanced \<langle>l, a, r\<rangle>)"
    and "even_root r \<Longrightarrow> height (rebalanced \<langle>l, a, r\<rangle>) = height r + 1 \<and> \<not> even_root (rebalanced \<langle>l, a, r\<rangle>)"
  using assms by (cases r rule: rotr.cases; auto simp: max_def split: if_splits)+

subsection \<open>Contexts\<close>

text \<open>A frame says whether the subtree is on the left, the address of the node, and the subtree on the other side.\<close>

type_synonym frame = "bool \<times> addr \<times> addr tree"

fun frame_tree :: "frame \<Rightarrow> addr tree \<Rightarrow> addr tree" where
  "frame_tree (b, p, s) t = (if b then \<langle>t, p, s\<rangle> else \<langle>s, p, t\<rangle>)"

fun plug :: "frame list \<Rightarrow> addr tree \<Rightarrow> addr tree" where
  "plug [] t = t"
| "plug (f # c) t = plug c (frame_tree f t)"

fun lo_of :: "frame list \<Rightarrow> addr option" where
  "lo_of [] = None"
| "lo_of ((b, p, s) # c) = (if b then lo_of c else Some p)"

fun hi_of :: "frame list \<Rightarrow> addr option" where
  "hi_of [] = None"
| "hi_of ((b, p, s) # c) = (if b then Some p else hi_of c)"

fun before :: "frame list \<Rightarrow> addr list" where
  "before [] = []"
| "before ((b, p, s) # c) = (if b then before c else before c @ inorder s @ [p])"

fun behind :: "frame list \<Rightarrow> addr list" where
  "behind [] = []"
| "behind ((b, p, s) # c) = (if b then p # inorder s @ behind c else behind c)"

lemma inorder_plug: "inorder (plug c t) = before c @ inorder t @ behind c"
  by (induction c t rule: plug.induct) (auto split: if_splits)

definition path_of :: "frame list \<Rightarrow> addr option list" where
  "path_of c = map (\<lambda>(b, p, s). Some p) c @ [None]"

lemma path_of_simps [simp]: "path_of [] = [None]" "path_of ((b, p, s) # c) = Some p # path_of c"
  by (simp_all add: path_of_def)

text \<open>The nodes of a context when the subtree in the hole is reached by \<open>q\<close>, is a child or not, and has had the
  height \<open>d\<close> when the balances were stored.\<close>

definition frame_ok :: "('k, 'v) avl_mem \<Rightarrow> nat \<Rightarrow> addr option \<Rightarrow> bool \<Rightarrow> frame \<Rightarrow> addr option \<Rightarrow> addr option \<Rightarrow> bool" where
  "frame_ok m d q ch f lo hi = (case f of (b, p, s) \<Rightarrow> \<exists>n. m p = Some n \<and>
     (if b then nd_balance n = int (height s) - int d \<and> nd_left n = q \<and> nd_left_child n = ch \<and>
              nd_right n = link hi s \<and> nd_right_child n = (s \<noteq> \<langle>\<rangle>) \<and> rep m (Some p) s hi
      else nd_balance n = int d - int (height s) \<and> nd_right n = q \<and> nd_right_child n = ch \<and>
              nd_left n = link lo s \<and> nd_left_child n = (s \<noteq> \<langle>\<rangle>) \<and> rep m lo s (Some p)))"

fun ctx_rep :: "('k, 'v) avl_mem \<Rightarrow> nat \<Rightarrow> addr option \<Rightarrow> bool \<Rightarrow> frame list \<Rightarrow> bool" where
  "ctx_rep m d q ch [] = True"
| "ctx_rep m d q ch ((b, p, s) # c) =
     (frame_ok m d q ch (b, p, s) (lo_of c) (hi_of c) \<and> ctx_rep m (max d (height s) + 1) (Some p) True c)"

fun hole_link :: "frame list \<Rightarrow> addr tree \<Rightarrow> addr option" where
  "hole_link [] t = root_of t"
| "hole_link ((b, p, s) # c) t = link (if b then lo_of c else hi_of c) t"

lemma hole_link_node [simp]: "hole_link c \<langle>l, p, r\<rangle> = Some p"
  by (cases "(c, \<langle>l, p, r\<rangle>)" rule: hole_link.cases) auto

lemma rep_plug:
  "rep m None (plug c t) None \<longleftrightarrow> ctx_rep m (height t) (hole_link c t) (t \<noteq> \<langle>\<rangle>) c \<and> rep m (lo_of c) t (hi_of c)"
proof (induction c t rule: plug.induct)
  case (2 f c t)
  obtain b p s where f: "f = (b, p, s)" by (cases f) auto
  show ?case
  proof (cases b)
    case True
    then show ?thesis using 2 by (auto simp: f frame_ok_def node_ok_def max.commute)
  next
    case False
    then show ?thesis using 2 by (auto simp: f frame_ok_def node_ok_def max.commute)
  qed
qed simp

fun avl_ctx :: "nat \<Rightarrow> frame list \<Rightarrow> bool" where
  "avl_ctx d [] = True"
| "avl_ctx d ((b, p, s) # c) = (avl_bal s \<and> d \<le> height s + 1 \<and> height s \<le> d + 1 \<and> avl_ctx (max d (height s) + 1) c)"

lemma avl_plug: "avl_bal (plug c t) \<longleftrightarrow> avl_ctx (height t) c \<and> avl_bal t"
  by (induction c t rule: plug.induct) (auto simp: max.commute split: if_splits)

definition ctx_set :: "frame list \<Rightarrow> addr set" where
  "ctx_set c = set (before c) \<union> set (behind c)"

lemma set_plug: "set_tree (plug c t) = ctx_set c \<union> set_tree t"
  unfolding set_inorder [symmetric] inorder_plug by (auto simp: ctx_set_def)

lemma ctx_set_simps [simp]: "ctx_set [] = {}" "ctx_set ((b, p, s) # c) = insert p (set_tree s \<union> ctx_set c)"
  by (auto simp: ctx_set_def)

lemma ctx_rep_cong: "(\<And>a. a \<in> ctx_set c \<Longrightarrow> m' a = m a) \<Longrightarrow> ctx_rep m' d q ch c = ctx_rep m d q ch c"
proof (induction m d q ch c rule: ctx_rep.induct)
  case (2 m d q ch b p s c)
  have "rep m' lo s hi = rep m lo s hi" for lo hi using 2(2) by (intro rep_cong) auto
  moreover have "m' p = m p" using 2(2) by simp
  ultimately show ?case using 2 by (simp add: frame_ok_def)
qed simp

lemma ctx_rep_upd_other [simp]: "a \<notin> ctx_set c \<Longrightarrow> ctx_rep (m(a := x)) d q ch c = ctx_rep m d q ch c"
  by (rule ctx_rep_cong) auto

lemma threads_in_ctx: "lo_of c = Some p \<Longrightarrow> p \<in> ctx_set c" "hi_of c = Some p \<Longrightarrow> p \<in> ctx_set c"
  by (induction c) (auto split: if_splits)

subsection \<open>The rebalancing loops\<close>

declare rebalanced.simps [simp del]

lemma root_plug_cons: "root_of (plug (f # c) t) = root_of (plug (f # c) t')"
proof (induction c arbitrary: f t t')
  case Nil
  then show ?case by (cases f) simp
next
  case (Cons g c)
  then show ?case by simp
qed

lemma root_plug: "c \<noteq> [] \<Longrightarrow> root_of (plug c t) = root_of (plug c t')"
  using root_plug_cons by (cases c) auto

lemma distinct_plug:
  assumes "distinct (inorder (plug c t))"
  shows "set_tree t \<inter> ctx_set c = {}" "distinct (inorder t)"
  using assms unfolding inorder_plug by (auto simp: ctx_set_def)

lemma distinct_frame:
  assumes "distinct (inorder (plug ((b, p, s) # c) t))"
  shows "p \<notin> set_tree t" "p \<notin> set_tree s" "p \<notin> ctx_set c" "set_tree s \<inter> set_tree t = {}" "set_tree t \<inter> ctx_set c = {}"
  using distinct_plug [of c "frame_tree (b, p, s) t"] assms by (auto split: if_splits)

lemma ctx_rep_hole:
  assumes "ctx_rep m d q ch ((b, p, s) # c)" "m p = Some n" "p \<notin> set_tree s" "p \<notin> ctx_set c"
  shows "ctx_rep (m(p \<mapsto> if b then n\<lparr>nd_left := q'\<rparr> else n\<lparr>nd_right := q'\<rparr>)) d q' ch ((b, p, s) # c)"
  using assms by (auto simp: frame_ok_def)

lemma is_left_of_ctx:
  assumes "ctx_rep m d (Some a) True ((b, p, s) # c)" "a \<notin> set_tree s" "a \<notin> ctx_set c"
  shows "is_left_of m (Some p) a = Some b"
proof -
  have "link (lo_of c) s \<noteq> Some a" using assms(2,3) threads_in_ctx(1) [of c a] by (cases s) auto
  with assms(1) show ?thesis by (cases b) (auto simp: is_left_of_def frame_ok_def)
qed

lemma balance_below_rep:
  assumes "rep m (lo_of c) \<langle>l, a, r\<rangle> (hi_of c)" "ctx_rep m d (Some a) True c" "distinct (inorder (plug c \<langle>l, a, r\<rangle>))"
    and "avl_bal l" "avl_bal r"
  shows "\<exists>m' q bl. is_left_of m (hd (path_of c)) a = Some bl \<and> (\<forall>b p s c'. c = (b, p, s) # c' \<longrightarrow> bl = b) \<and>
    balance_below m (root_of (plug c \<langle>l, a, r\<rangle>)) (hd (path_of c)) bl a = Some (m', root_of (plug c (rebalanced \<langle>l, a, r\<rangle>)), q) \<and>
    root_of (rebalanced \<langle>l, a, r\<rangle>) = Some q \<and> rep m' (lo_of c) (rebalanced \<langle>l, a, r\<rangle>) (hi_of c) \<and> ctx_rep m' d (Some q) True c \<and>
    payload m' = payload m \<and> same_outside (set_tree (plug c \<langle>l, a, r\<rangle>)) m m'"
proof -
  let ?t = "\<langle>l, a, r\<rangle>"
  obtain n where n: "m a = Some n" "nd_balance n = int (height r) - int (height l)" using assms(1) by (auto simp: node_ok_def)
  note d = distinct_plug [OF assms(3)]
  obtain m1 q where m1: "node_balance m a = Some (m1, q)" "root_of (rebalanced ?t) = Some q" "rep m1 (lo_of c) (rebalanced ?t) (hi_of c)"
    "payload m1 = payload m" "same_outside (set_tree ?t) m m1" using node_balance_rep [OF assms(1) d(2) assms(4,5)] by blast
  have c1: "ctx_rep m1 d (Some a) True c" using assms(2) d(1) m1(5) by (subst ctx_rep_cong [of c m1 m]) (auto simp: same_outside_def)
  have st: "set_tree (rebalanced ?t) = set_tree ?t" by (metis inorder_rebalanced set_inorder)
  have eq: "rebalanced ?t = ?t" if "\<not> (nd_balance n < - 1 \<or> nd_balance n > 1)" using that n(2) by (simp add: rebalanced.simps)
  show ?thesis
  proof (cases c)
    case Nil
    have [simp]: "Ex Not" by blast
    from Nil show ?thesis using n(1) m1 eq assms(1)
      by (cases "nd_balance n < - 1 \<or> nd_balance n > 1") (simp_all add: is_left_of_def balance_below_def set_child_def)
  next
    case (Cons f c')
    obtain b p s where c: "c = (b, p, s) # c'" using Cons by (cases f) auto
    note df = distinct_frame [OF assms(3) [unfolded c]]
    have il: "is_left_of m (Some p) a = Some b" using is_left_of_ctx [OF assms(2) [unfolded c]] df by auto
    obtain pn where pn: "m1 p = Some pn" using c1 by (auto simp: c frame_ok_def)
    let ?m = "m1(p \<mapsto> if b then pn\<lparr>nd_left := Some q\<rparr> else pn\<lparr>nd_right := Some q\<rparr>)"
    have r: "root_of (plug c (rebalanced ?t)) = root_of (plug c ?t)" by (rule root_plug) (simp add: c)
    have 2: "ctx_rep ?m d (Some q) True c" using ctx_rep_hole [OF c1 [unfolded c] pn df(2,3)] by (simp add: c)
    have 3: "rep ?m (lo_of c) (rebalanced ?t) (hi_of c)" using m1(3) df(1) st by simp
    have 4: "payload ?m = payload m" using m1(4) pn by (auto simp: payload_def fun_eq_iff)
    have 5: "same_outside (set_tree (plug c ?t)) m ?m" using m1(5) by (auto simp: same_outside_def set_plug c)
    show ?thesis
    proof (cases "nd_balance n < - 1 \<or> nd_balance n > 1")
      case True
      then have "balance_below m (root_of (plug c ?t)) (Some p) b a = Some (?m, root_of (plug c (rebalanced ?t)), q)"
        using n(1) m1(1) pn r by (simp add: balance_below_def set_child_def upd_def)
      with il m1(2) 2 3 4 5 show ?thesis by (simp add: c)
    next
      case False
      then have "balance_below m (root_of (plug c ?t)) (Some p) b a = Some (m, root_of (plug c (rebalanced ?t)), a)"
        using n(1) r by (simp add: balance_below_def)
      with il assms(1,2) eq [OF False] show ?thesis by (simp add: c)
    qed
  qed
qed

text \<open>The subtree has gained or lost a level since the balances above it were stored, and what this means for its own.\<close>

fun grown :: "nat \<Rightarrow> 'a tree \<Rightarrow> bool" where
  "grown d \<langle>\<rangle> = False"
| "grown d \<langle>l, a, r\<rangle> = (avl_bal l \<and> avl_bal r \<and>
     (height l = height r \<and> height \<langle>l, a, r\<rangle> = d \<or>
      (height l = height r + 1 \<or> height r = height l + 1) \<and> height \<langle>l, a, r\<rangle> = d + 1 \<or>
      (height l = height r + 2 \<and> \<not> even_root l \<or> height r = height l + 2 \<and> \<not> even_root r) \<and> height \<langle>l, a, r\<rangle> = d + 1))"

fun shrunk :: "nat \<Rightarrow> 'a tree \<Rightarrow> bool" where
  "shrunk d \<langle>\<rangle> = False"
| "shrunk d \<langle>l, a, r\<rangle> = (avl_bal l \<and> avl_bal r \<and>
     (height l = height r \<and> height \<langle>l, a, r\<rangle> + 1 = d \<or>
      height l \<noteq> height r \<and> height l \<le> height r + 2 \<and> height r \<le> height l + 2 \<and> height \<langle>l, a, r\<rangle> = d))"

lemma grown_rebalanced:
  assumes "grown d t"
  shows "avl_bal (rebalanced t)" "even_root (rebalanced t) \<Longrightarrow> height (rebalanced t) = d" "\<not> even_root (rebalanced t) \<Longrightarrow> height (rebalanced t) = d + 1"
proof -
  obtain l a r where t: "t = \<langle>l, a, r\<rangle>" using assms by (cases t) auto
  have "height l \<le> height r + 2" "height r \<le> height l + 2" "avl_bal l" "avl_bal r" using assms by (auto simp: t)
  then show "avl_bal (rebalanced t)" using rebalanced_avl by (simp add: t)
  consider "height l = height r + 2" | "height r = height l + 2" | "height l \<le> height r + 1" "height r \<le> height l + 1"
    using \<open>height l \<le> height r + 2\<close> \<open>height r \<le> height l + 2\<close> by linarith
  then have "(even_root (rebalanced t) \<longrightarrow> height (rebalanced t) = d) \<and> (\<not> even_root (rebalanced t) \<longrightarrow> height (rebalanced t) = d + 1)"
  proof cases
    case 1
    then have "\<not> even_root l" "height l = d" using assms by (auto simp: t)
    with rebalanced_height_left(1) [OF \<open>avl_bal l\<close> \<open>avl_bal r\<close> 1] show ?thesis by (simp add: t)
  next
    case 2
    then have "\<not> even_root r" "height r = d" using assms by (auto simp: t)
    with rebalanced_height_right(1) [OF \<open>avl_bal l\<close> \<open>avl_bal r\<close> 2] show ?thesis by (simp add: t)
  next
    case 3
    then have e: "rebalanced t = t" by (simp add: t rebalanced.simps)
    from 3 assms have "height l = height r \<and> height t = d \<or> height l \<noteq> height r \<and> height t = d + 1" unfolding t grown.simps by linarith
    then show ?thesis unfolding e by (auto simp: t)
  qed
  then show "even_root (rebalanced t) \<Longrightarrow> height (rebalanced t) = d" "\<not> even_root (rebalanced t) \<Longrightarrow> height (rebalanced t) = d + 1"
    by blast+
qed

lemma shrunk_rebalanced:
  assumes "shrunk d t"
  shows "avl_bal (rebalanced t)" "even_root (rebalanced t) \<Longrightarrow> height (rebalanced t) + 1 = d" "\<not> even_root (rebalanced t) \<Longrightarrow> height (rebalanced t) = d"
proof -
  obtain l a r where t: "t = \<langle>l, a, r\<rangle>" using assms by (cases t) auto
  have x: "height l \<le> height r + 2" "height r \<le> height l + 2" "avl_bal l" "avl_bal r" using assms by (auto simp: t)
  then show "avl_bal (rebalanced t)" using rebalanced_avl by (simp add: t)
  consider "height l = height r + 2" | "height r = height l + 2" | "height l \<le> height r + 1" "height r \<le> height l + 1"
    using x(1,2) by linarith
  then have "(even_root (rebalanced t) \<longrightarrow> height (rebalanced t) + 1 = d) \<and> (\<not> even_root (rebalanced t) \<longrightarrow> height (rebalanced t) = d)"
  proof cases
    case 1
    then have "height l + 1 = d" using assms by (auto simp: t)
    with rebalanced_height_left [OF x(3,4) 1, of a] show ?thesis by (cases "even_root l") (auto simp: t )
  next
    case 2
    then have "height r + 1 = d" using assms by (auto simp: t)
    with rebalanced_height_right [OF x(3,4) 2, of a] show ?thesis by (cases "even_root r") (auto simp: t )
  next
    case 3
    then have e: "rebalanced t = t" by (simp add: t rebalanced.simps)
    from 3 assms have "height l = height r \<and> height t + 1 = d \<or> height l \<noteq> height r \<and> height t = d" unfolding t shrunk.simps by linarith
    then show ?thesis unfolding e by (auto simp: t)
  qed
  then show "even_root (rebalanced t) \<Longrightarrow> height (rebalanced t) + 1 = d" "\<not> even_root (rebalanced t) \<Longrightarrow> height (rebalanced t) = d"
    by blast+
qed

lemma rep_even_root:
  assumes "rep m lo t hi" "root_of t = Some q" "m q = Some n"
  shows "nd_balance n = 0 \<longleftrightarrow> even_root t"
  using assms by (cases t) (auto simp: node_ok_def)

lemma rep_root_some:
  assumes "rep m lo t hi" "root_of t = Some q"
  obtains n where "m q = Some n"
  using assms by (cases t) (auto simp: node_ok_def)

text \<open>After the balance of a parent has been adjusted, the subtree of the parent fits its memory again.\<close>

lemma ctx_step:
  assumes "rep m (lo_of ((b, p, s) # c)) t (hi_of ((b, p, s) # c))" "ctx_rep m d (Some q) True ((b, p, s) # c)" "root_of t = Some q"
    and "distinct (inorder (plug ((b, p, s) # c) t))" "m p = Some n" "int (height t) = int d + e"
  shows "rep (m(p \<mapsto> n\<lparr>nd_balance := nd_balance n + (if b then - e else e)\<rparr>)) (lo_of c) (frame_tree (b, p, s) t) (hi_of c)"
    "ctx_rep (m(p \<mapsto> n\<lparr>nd_balance := nd_balance n + (if b then - e else e)\<rparr>)) (max d (height s) + 1) (Some p) True c"
proof -
  note df = distinct_frame [OF assms(4)]
  have t: "t \<noteq> \<langle>\<rangle>" "link x t = Some q" for x using assms(3) by (cases t; simp)+
  show "rep (m(p \<mapsto> n\<lparr>nd_balance := nd_balance n + (if b then - e else e)\<rparr>)) (lo_of c) (frame_tree (b, p, s) t) (hi_of c)"
    using assms(1,2,5,6) df t by (cases b) (auto simp: frame_ok_def node_ok_def)
  show "ctx_rep (m(p \<mapsto> n\<lparr>nd_balance := nd_balance n + (if b then - e else e)\<rparr>)) (max d (height s) + 1) (Some p) True c"
    using assms(2) df by simp
qed

lemma grown_frame:
  assumes "avl_bal t" "\<not> even_root t" "height t = d + 1" "avl_bal s" "d \<le> height s + 1" "height s \<le> d + 1"
  shows "grown (max d (height s) + 1) (frame_tree (b, p, s) t)"
proof -
  consider "height s = d + 1" | "height s = d" | "d = height s + 1" using assms(5,6) by linarith
  then show ?thesis using assms(1-4) by cases auto
qed

lemma shrunk_frame:
  assumes "avl_bal t" "height t + 1 = d" "avl_bal s" "d \<le> height s + 1" "height s \<le> d + 1"
  shows "shrunk (max d (height s) + 1) (frame_tree (b, p, s) t)"
proof -
  consider "height s = d + 1" | "height s = d" | "d = height s + 1" using assms(4,5) by linarith
  then show ?thesis using assms(1-3) by cases auto
qed

lemma plug_done:
  assumes "rep m (lo_of c) t (hi_of c)" "ctx_rep m (height t) (Some q) True c" "root_of t = Some q" "avl_bal t" "avl_ctx (height t) c"
  shows "rep m None (plug c t) None" "avl_bal (plug c t)"
proof -
  have t: "t \<noteq> \<langle>\<rangle>" "hole_link c t = Some q" using assms(3) by (cases t; simp)+
  show "rep m None (plug c t) None" unfolding rep_plug using assms(1,2) t by simp
  show "avl_bal (plug c t)" unfolding avl_plug using assms(4,5) by simp
qed

definition finished :: "('k, 'v) avl_mem \<Rightarrow> addr tree \<Rightarrow> ('k, 'v) avl_mem \<Rightarrow> addr tree \<Rightarrow> bool" where
  "finished m T m' T' \<longleftrightarrow> rep m' None T' None \<and> avl_bal T' \<and> inorder T' = inorder T \<and> payload m' = payload m \<and>
     same_outside (set_tree T) m m'"

lemma finished_trans:
  assumes "payload m1 = payload m" "same_outside (set_tree T) m m1" "inorder T1 = inorder T" "finished m1 T1 m' T'"
  shows "finished m T m' T'"
proof -
  have "set_tree T1 = set_tree T" using assms(3) by (metis set_inorder)
  with assms show ?thesis by (auto simp: finished_def same_outside_def)
qed

lemma inorder_rebalanced_plug [simp]: "inorder (plug c (rebalanced t)) = inorder (plug c t)"
  by (simp add: inorder_plug)

lemma add_rebalance_rep:
  assumes "rep m (lo_of c) t (hi_of c)" "ctx_rep m d (Some a) True c" "root_of t = Some a" "distinct (inorder (plug c t))"
    and "grown d t" "avl_ctx d c"
  shows "\<exists>m' T. add_rebalance m (root_of (plug c t)) a (path_of c) = Some (m', root_of T) \<and> finished m (plug c t) m' T"
  using assms
proof (induction c arbitrary: m d t a)
  case Nil
  obtain l r where t: "t = \<langle>l, a, r\<rangle>" using Nil.prems(3) by (cases t) auto
  have av: "avl_bal l" "avl_bal r" using Nil.prems(5) by (simp_all add: t)
  obtain m' q where x: "is_left_of m None a = Some False" "balance_below m (root_of t) None False a = Some (m', root_of (rebalanced t), q)"
    "root_of (rebalanced t) = Some q" "rep m' None (rebalanced t) None" "payload m' = payload m" "same_outside (set_tree t) m m'"
    using balance_below_rep [OF Nil.prems(1,2,4) [unfolded t] av, folded t] by (auto simp: is_left_of_def)
  obtain n where n: "m' q = Some n" using rep_root_some [OF x(4,3)] .
  have "finished m t m' (rebalanced t)" using x grown_rebalanced(1) [OF Nil.prems(5)] by (simp add: finished_def)
  then show ?case using x n by (auto intro: exI [of _ "rebalanced t"])
next
  case (Cons f c)
  obtain b p s where f: "f = (b, p, s)" by (cases f) auto
  obtain l r where t: "t = \<langle>l, a, r\<rangle>" using Cons.prems(3) by (cases t) auto
  have av: "avl_bal l" "avl_bal r" using Cons.prems(5) by (simp_all add: t)
  let ?c = "(b, p, s) # c" and ?t = "rebalanced t"
  note g = grown_rebalanced [OF Cons.prems(5)]
  have s: "avl_bal s" "d \<le> height s + 1" "height s \<le> d + 1" "avl_ctx (max d (height s) + 1) c" using Cons.prems(6) by (simp_all add: f)
  obtain m1 q where x: "is_left_of m (Some p) a = Some b" "balance_below m (root_of (plug ?c t)) (Some p) b a = Some (m1, root_of (plug ?c ?t), q)"
    "root_of ?t = Some q" "rep m1 (lo_of ?c) ?t (hi_of ?c)" "ctx_rep m1 d (Some q) True ?c" "payload m1 = payload m"
    "same_outside (set_tree (plug ?c t)) m m1"
    using balance_below_rep [OF Cons.prems(1,2,4) [unfolded t f] av, folded t] by auto
  obtain n where n: "m1 q = Some n" using rep_root_some [OF x(4,3)] .
  note ev = rep_even_root [OF x(4,3) n]
  obtain pn where pn: "m1 p = Some pn" using x(5) by (auto simp: frame_ok_def)
  show ?case
  proof (cases "even_root ?t")
    case True
    have "finished m (plug ?c t) m1 (plug ?c ?t)"
      using plug_done [OF x(4) _ x(3) g(1)] x(5-7) g(2) [OF True] Cons.prems(6) by (simp add: finished_def f del: plug.simps)
    moreover have "add_rebalance m (root_of (plug ?c t)) a (path_of ?c) = Some (m1, root_of (plug ?c ?t))"
      using x(1,2) n ev True by (simp del: plug.simps)
    ultimately show ?thesis unfolding f by blast
  next
    case False
    let ?m = "m1(p \<mapsto> pn\<lparr>nd_balance := nd_balance pn + (if b then - 1 else 1)\<rparr>)"
    have i: "inorder (plug ?c ?t) = inorder (plug ?c t)" by (rule inorder_rebalanced_plug)
    have h: "int (height ?t) = int d + 1" using g(3) [OF False] by simp
    note st = ctx_step [OF x(4,5,3) Cons.prems(4) [unfolded f, folded i] pn h]
    have rt: "root_of (frame_tree (b, p, s) ?t) = Some p" by simp
    have di: "distinct (inorder (plug c (frame_tree (b, p, s) ?t)))" using Cons.prems(4) i by (simp add: f)
    obtain m' T where m': "add_rebalance ?m (root_of (plug c (frame_tree (b, p, s) ?t))) p (path_of c) = Some (m', root_of T)"
        "finished ?m (plug c (frame_tree (b, p, s) ?t)) m' T"
      using Cons.IH [OF st rt di grown_frame [OF g(1) False g(3) [OF False] s(1-3)] s(4)] by blast
    have "add_rebalance m (root_of (plug ?c t)) a (path_of ?c) = Some (m', root_of T)"
      using x(1,2) n ev False pn m'(1) by (simp add: upd_def)
    moreover have "finished m (plug ?c t) m' T"
    proof (rule finished_trans [OF _ _ _ m'(2)])
      show "payload ?m = payload m" using x(6) pn by (simp add: payload_id)
      show "same_outside (set_tree (plug ?c t)) m ?m" using x(7) by (auto simp: same_outside_def set_plug simp del: plug.simps)
      show "inorder (plug c (frame_tree (b, p, s) ?t)) = inorder (plug ?c t)" using i by simp
    qed
    ultimately show ?thesis unfolding f by blast
  qed
qed

lemma del_rebalance_rep:
  assumes "rep m (lo_of c) t (hi_of c)" "ctx_rep m d (Some a) True c" "root_of t = Some a" "distinct (inorder (plug c t))"
    and "shrunk d t" "avl_ctx d c"
  shows "\<exists>m' T. del_rebalance m (root_of (plug c t)) a (path_of c) = Some (m', root_of T) \<and> finished m (plug c t) m' T"
  using assms
proof (induction c arbitrary: m d t a)
  case Nil
  obtain l r where t: "t = \<langle>l, a, r\<rangle>" using Nil.prems(3) by (cases t) auto
  have av: "avl_bal l" "avl_bal r" using Nil.prems(5) by (simp_all add: t)
  obtain m' q where x: "is_left_of m None a = Some False" "balance_below m (root_of t) None False a = Some (m', root_of (rebalanced t), q)"
    "root_of (rebalanced t) = Some q" "rep m' None (rebalanced t) None" "payload m' = payload m" "same_outside (set_tree t) m m'"
    using balance_below_rep [OF Nil.prems(1,2,4) [unfolded t] av, folded t] by (auto simp: is_left_of_def)
  obtain n where n: "m' q = Some n" using rep_root_some [OF x(4,3)] .
  have "finished m t m' (rebalanced t)" using x shrunk_rebalanced(1) [OF Nil.prems(5)] by (simp add: finished_def)
  then show ?case using x n by (auto intro: exI [of _ "rebalanced t"])
next
  case (Cons f c)
  obtain b p s where f: "f = (b, p, s)" by (cases f) auto
  obtain l r where t: "t = \<langle>l, a, r\<rangle>" using Cons.prems(3) by (cases t) auto
  have av: "avl_bal l" "avl_bal r" using Cons.prems(5) by (simp_all add: t)
  let ?c = "(b, p, s) # c" and ?t = "rebalanced t"
  note g = shrunk_rebalanced [OF Cons.prems(5)]
  have s: "avl_bal s" "d \<le> height s + 1" "height s \<le> d + 1" "avl_ctx (max d (height s) + 1) c" using Cons.prems(6) by (simp_all add: f)
  obtain m1 q where x: "is_left_of m (Some p) a = Some b" "balance_below m (root_of (plug ?c t)) (Some p) b a = Some (m1, root_of (plug ?c ?t), q)"
    "root_of ?t = Some q" "rep m1 (lo_of ?c) ?t (hi_of ?c)" "ctx_rep m1 d (Some q) True ?c" "payload m1 = payload m"
    "same_outside (set_tree (plug ?c t)) m m1"
    using balance_below_rep [OF Cons.prems(1,2,4) [unfolded t f] av, folded t] by auto
  obtain n where n: "m1 q = Some n" using rep_root_some [OF x(4,3)] .
  note ev = rep_even_root [OF x(4,3) n]
  obtain pn where pn: "m1 p = Some pn" using x(5) by (auto simp: frame_ok_def)
  show ?case
  proof (cases "\<not> even_root ?t")
    case True
    have "finished m (plug ?c t) m1 (plug ?c ?t)"
      using plug_done [OF x(4) _ x(3) g(1)] x(5-7) g(3) [OF True] Cons.prems(6) by (simp add: finished_def f del: plug.simps)
    moreover have "del_rebalance m (root_of (plug ?c t)) a (path_of ?c) = Some (m1, root_of (plug ?c ?t))"
      using x(1,2) n ev True by (simp del: plug.simps)
    ultimately show ?thesis unfolding f by blast
  next
    case False
    let ?m = "m1(p \<mapsto> pn\<lparr>nd_balance := nd_balance pn + (if b then 1 else - 1)\<rparr>)"
    have i: "inorder (plug ?c ?t) = inorder (plug ?c t)" by (rule inorder_rebalanced_plug)
    have False': "even_root ?t" using False by simp
    have h: "int (height ?t) = int d + (- 1)" using g(2) [OF False'] by simp
    have e: "(if b then - (- 1) else - 1) = (if b then 1 else - 1 :: int)" by simp
    note st = ctx_step [OF x(4,5,3) Cons.prems(4) [unfolded f, folded i] pn h, unfolded e]
    have rt: "root_of (frame_tree (b, p, s) ?t) = Some p" by simp
    have di: "distinct (inorder (plug c (frame_tree (b, p, s) ?t)))" using Cons.prems(4) i by (simp add: f)
    obtain m' T where m': "del_rebalance ?m (root_of (plug c (frame_tree (b, p, s) ?t))) p (path_of c) = Some (m', root_of T)"
        "finished ?m (plug c (frame_tree (b, p, s) ?t)) m' T"
      using Cons.IH [OF st rt di shrunk_frame [OF g(1) g(2) [OF False'] s(1-3)] s(4)] by blast
    have "del_rebalance m (root_of (plug ?c t)) a (path_of ?c) = Some (m', root_of T)"
      using x(1,2) n ev False pn m'(1) by (simp add: upd_def)
    moreover have "finished m (plug ?c t) m' T"
    proof (rule finished_trans [OF _ _ _ m'(2)])
      show "payload ?m = payload m" using x(6) pn by (simp add: payload_id)
      show "same_outside (set_tree (plug ?c t)) m ?m" using x(7) by (auto simp: same_outside_def set_plug simp del: plug.simps)
      show "inorder (plug c (frame_tree (b, p, s) ?t)) = inorder (plug ?c t)" using i by simp
    qed
    ultimately show ?thesis unfolding f by blast
  qed
qed

end
