(* ===== verification/Avl_Search.thy ===== *)
theory Avl_Search
  imports Avl_Tree
begin

text \<open>
  Looking up, adding and iterating in a threaded tree. The order of the keys is an interface, the locale
  \<open>key_order\<close>: a comparison that agrees with a linear order on the keys that are valid. Under it a tree stands for a
  finite map, \<open>dict_of\<close>, and the operations of \<^verbatim>\<open>src/src/avl_generic.c\<close> are the operations on that map.
\<close>

subsection \<open>The height of a tree\<close>

text \<open>The least number of nodes of a tree of a given height, and of the next one.\<close>

fun least_nodes :: "nat \<Rightarrow> nat \<times> nat" where
  "least_nodes 0 = (0, 1)"
| "least_nodes (Suc n) = (case least_nodes n of (a, b) \<Rightarrow> (b, a + b + 1))"

lemma least_nodes_step: "fst (least_nodes (Suc n)) = snd (least_nodes n)" "snd (least_nodes (Suc n)) = fst (least_nodes n) + snd (least_nodes n) + 1"
  by (simp_all split: prod.split)

lemma least_nodes_mono: "i \<le> j \<Longrightarrow> fst (least_nodes i) \<le> fst (least_nodes j)"
proof (induction j)
  case (Suc j)
  have "fst (least_nodes n) \<le> snd (least_nodes n)" for n by (induction n) (simp_all add: least_nodes_step del: least_nodes.simps(2))
  then have "fst (least_nodes j) \<le> fst (least_nodes (Suc j))" unfolding least_nodes_step .
  with Suc show ?case by (cases "i = Suc j") (auto simp del: least_nodes.simps)
qed simp

lemma avl_size: "avl_bal t \<Longrightarrow> fst (least_nodes (height t)) \<le> size t"
proof (induction t)
  case (Node l a r)
  let ?f = "\<lambda>n. fst (least_nodes n)"
  define h where "h = max (height l) (height r)"
  have ih: "?f (height l) \<le> size l" "?f (height r) \<le> size r" using Node by auto
  show ?case
  proof (cases h)
    case 0
    then show ?thesis by (simp add: h_def)
  next
    case (Suc k)
    have "height l \<ge> k" "height r \<ge> k" "height l = Suc k \<or> height r = Suc k" using Suc Node.prems by (auto simp: h_def max_def split: if_splits)
    then have "?f (Suc k) + ?f k \<le> size l + size r"
      using ih least_nodes_mono [of k "height l"] least_nodes_mono [of k "height r"] by (auto simp del: least_nodes.simps)
    moreover have "?f (height \<langle>l, a, r\<rangle>) = ?f k + ?f (Suc k) + 1"
      using Suc by (simp add: h_def least_nodes_step del: least_nodes.simps)
    ultimately show ?thesis by simp
  qed
qed simp

lemma least_nodes_numeral: "least_nodes (numeral k) = (case least_nodes (pred_numeral k) of (a, b) \<Rightarrow> (b, a + b + 1))"
  by (simp add: numeral_eq_Suc)

lemma least_nodes_1: "least_nodes 1 = (1, 2)"
  by simp

lemma least_nodes_46: "fst (least_nodes 46) = 4807526975"
  by (simp add: least_nodes_numeral least_nodes_1 del: One_nat_def)

lemma avl_height:
  assumes "avl_bal t" "size t < 2 ^ 32"
  shows "height t \<le> MAX_HEIGHT"
proof (rule ccontr)
  assume "\<not> height t \<le> MAX_HEIGHT"
  then have "fst (least_nodes 46) \<le> fst (least_nodes (height t))" by (intro least_nodes_mono) (simp add: MAX_HEIGHT_def)
  then show False using avl_size [OF assms(1)] assms(2) unfolding least_nodes_46 by simp
qed

subsection \<open>Descending\<close>

text \<open>Where the search for a key ends: \<open>f\<close> is the result of the comparison with the key of a node.\<close>

fun locate :: "(addr \<Rightarrow> int) \<Rightarrow> frame list \<Rightarrow> addr tree \<Rightarrow> frame list \<times> addr tree" where
  "locate f c \<langle>\<rangle> = (c, \<langle>\<rangle>)"
| "locate f c \<langle>l, p, r\<rangle> =
     (if f p < 0 then locate f ((True, p, r) # c) l else if f p > 0 then locate f ((False, p, l) # c) r else (c, \<langle>l, p, r\<rangle>))"

lemma plug_locate: "locate f c t = (c', t') \<Longrightarrow> plug c' t' = plug c t"
  by (induction f c t rule: locate.induct) (auto split: if_splits)

lemma locate_depth: "locate f c t = (c', t') \<Longrightarrow> length c' + height t' \<le> length c + height t"
  by (induction f c t rule: locate.induct) (fastforce split: if_splits)+

lemma locate_length: "locate f c t = (c', t') \<Longrightarrow> length c \<le> length c'"
  by (induction f c t rule: locate.induct) (auto split: if_splits)

lemma locate_leaf: "locate f c t = (c', \<langle>\<rangle>) \<Longrightarrow> t \<noteq> \<langle>\<rangle> \<Longrightarrow> c' \<noteq> []"
  using locate_length [of f] by (cases t) (fastforce split: if_splits)+

lemma locate_found: "locate f c t = (c', \<langle>l, p, r\<rangle>) \<Longrightarrow> f p = 0"
  by (induction f c t rule: locate.induct) (auto split: if_splits)

text \<open>What the search knows about the order, for keys of a linear order.\<close>

definition between :: "(addr \<Rightarrow> 'o :: linorder) \<Rightarrow> 'o \<Rightarrow> frame list \<Rightarrow> bool" where
  "between K k c \<longleftrightarrow> (\<forall>q \<in> set (before c). K q < k) \<and> (\<forall>q \<in> set (behind c). k < K q)"

lemma locate_between:
  assumes "locate f c t = (c', t')" "between K k c" "sorted_wrt (<) (map K (inorder t))"
    and "\<And>p. p \<in> set_tree t \<Longrightarrow> (f p < 0 \<longleftrightarrow> k < K p) \<and> (f p > 0 \<longleftrightarrow> K p < k)"
  shows "between K k c'"
  using assms
proof (induction f c t rule: locate.induct)
  case (2 f c l p r)
  note IH = 2(1,2) and loc = 2(3) and bt = 2(4) and ord = 2(6)
  have fp: "f p < 0 \<longleftrightarrow> k < K p" "f p > 0 \<longleftrightarrow> K p < k" using 2(6) [of p] by simp_all
  have s: "sorted_wrt (<) (map K (inorder l))" "sorted_wrt (<) (map K (inorder r))" "\<forall>q \<in> set_tree r. K p < K q" "\<forall>q \<in> set_tree l. K q < K p"
    using 2(5) by (auto simp: sorted_wrt_append)
  consider "f p < 0" | "f p > 0" | "f p = 0" by linarith
  then show ?case
  proof cases
    case 1
    then have "between K k ((True, p, r) # c)" using bt fp s(3) by (fastforce simp: between_def)
    then show ?thesis using IH(1) [OF 1 _ _ s(1)] loc ord 1 by simp
  next
    case 2
    then have "between K k ((False, p, l) # c)" using bt fp s(4) by (fastforce simp: between_def)
    note b = this
    from 2 have "\<not> f p < 0" by simp
    from IH(2) [OF this 2 _ b s(2)] loc ord this 2 show ?thesis by simp
  next
    case 3
    then show ?thesis using loc bt by simp
  qed
qed simp

subsection \<open>Adding\<close>

definition hang :: "('k, 'v) avl_mem \<Rightarrow> bool \<Rightarrow> addr \<Rightarrow> addr \<Rightarrow> ('k, 'v) avl_mem option" where
  "hang m b child p = do {
     n \<leftarrow> m p;
     m \<leftarrow> upd m child (\<lambda>c. if b then c\<lparr>nd_left := nd_left n, nd_right := Some p\<rparr> else c\<lparr>nd_right := nd_right n, nd_left := Some p\<rparr>);
     upd m p (\<lambda>n. if b then n\<lparr>nd_left := Some child, nd_left_child := True, nd_balance := nd_balance n - 1\<rparr>
                  else n\<lparr>nd_right := Some child, nd_right_child := True, nd_balance := nd_balance n + 1\<rparr>) }"

definition compares :: "('k, 'x) avl_generic \<Rightarrow> ('k, 'v) avl_mem \<Rightarrow> 'k \<Rightarrow> addr set \<Rightarrow> (addr \<Rightarrow> int) \<Rightarrow> bool" where
  "compares A m k S f \<longleftrightarrow> (\<forall>q \<in> S. \<exists>n. m q = Some n \<and> call_cmp A k (nd_key n) = Some (f q))"

lemma compares_node: "compares A m k (set_tree \<langle>l, p, r\<rangle>) f \<Longrightarrow> m p = Some n \<Longrightarrow> call_cmp A k (nd_key n) = Some (f p)"
  "compares A m k (set_tree \<langle>l, p, r\<rangle>) f \<Longrightarrow> compares A m k (set_tree l) f"
  "compares A m k (set_tree \<langle>l, p, r\<rangle>) f \<Longrightarrow> compares A m k (set_tree r) f"
  by (auto simp: compares_def)

lemma push_path:
  assumes "length c + height t \<le> MAX_HEIGHT" "height t > 1"
  shows "push (path_of c) p = Some (path_of ((b, p, s) # c))"
  using assms by (simp add: push_def path_of_def)

lemma add_descend_locate:
  assumes "rep m (lo_of c) t (hi_of c)" "root_of t = Some a" "m child = Some cn" "compares A m (nd_key cn) (set_tree t) f"
    and "length c + height t \<le> MAX_HEIGHT" "locate f c t = (c', t')"
  shows "add_descend A m child a (path_of c) =
    (case t' of \<langle>\<rangle> \<Rightarrow> (case c' of (b, p, s) # c'' \<Rightarrow> map_option (\<lambda>m'. Inr (m', p, path_of c'')) (hang m b child p) | [] \<Rightarrow> None)
     | \<langle>_, _, _\<rangle> \<Rightarrow> Some (Inl (m(child := None))))"
  using assms
proof (induction t arbitrary: c a)
  case (Node l p r)
  have a: "a = p" using Node.prems(2) by simp
  obtain n where n: "m p = Some n" "nd_left n = link (lo_of c) l" "nd_left_child n = (l \<noteq> \<langle>\<rangle>)" "nd_right n = link (hi_of c) r"
    "nd_right_child n = (r \<noteq> \<langle>\<rangle>)" using Node.prems(1) by (auto simp: node_ok_def)
  note cmp = compares_node(1) [OF Node.prems(4) n(1)] and cl = compares_node(2,3) [OF Node.prems(4)]
  have rl: "rep m (lo_of ((True, p, r) # c)) l (hi_of ((True, p, r) # c))" "rep m (lo_of ((False, p, l) # c)) r (hi_of ((False, p, l) # c))"
    using Node.prems(1) by simp_all
  have len: "length ((True, p, r) # c) + height l \<le> MAX_HEIGHT" "length ((False, p, l) # c) + height r \<le> MAX_HEIGHT"
    using Node.prems(5) by auto
  consider "f p < 0" "l = \<langle>\<rangle>" | "f p < 0" "l \<noteq> \<langle>\<rangle>" | "f p > 0" "r = \<langle>\<rangle>" | "f p > 0" "r \<noteq> \<langle>\<rangle>" | "f p = 0" by linarith
  then show ?case
  proof cases
    case 1
    with Node.prems(3,6) n cmp show ?thesis
      by (auto simp: a hang_def upd_def add_descend.simps [of A m child p])
  next
    case 2
    then obtain b where b: "root_of l = Some b" "nd_left n = Some b" using n(2) by (cases l) auto
    have "push (path_of c) p = Some (path_of ((True, p, r) # c))" using 2 by (intro push_path [OF Node.prems(5)]) (cases l; simp)
    moreover have "locate f ((True, p, r) # c) l = (c', t')" using Node.prems(6) 2 by simp
    ultimately show ?thesis using Node.IH(1) [OF rl(1) b(1) Node.prems(3) cl(1) len(1)] 2 n(1,3) b(2) cmp Node.prems(3)
      by (simp add: a add_descend.simps [of A m child p])
  next
    case 3
    with Node.prems(3,6) n cmp show ?thesis
      by (auto simp: a hang_def upd_def add_descend.simps [of A m child p])
  next
    case 4
    then obtain b where b: "root_of r = Some b" "nd_right n = Some b" using n(4) by (cases r) auto
    have "push (path_of c) p = Some (path_of ((False, p, l) # c))" using 4 by (intro push_path [OF Node.prems(5)]) (cases r; simp)
    moreover have "locate f ((False, p, l) # c) r = (c', t')" using Node.prems(6) 4 by simp
    ultimately show ?thesis using Node.IH(2) [OF rl(2) b(1) Node.prems(3) cl(2) len(2)] 4 n(1,5) b(2) cmp Node.prems(3)
      by (simp add: a add_descend.simps [of A m child p])
  next
    case 5
    with Node.prems(3,6) n cmp show ?thesis by (auto simp: a add_descend.simps [of A m child p])
  qed
qed simp

definition fresh_node :: "('k, 'v) avl_node \<Rightarrow> bool" where
  "fresh_node n \<longleftrightarrow> nd_balance n = 0 \<and> \<not> nd_left_child n \<and> \<not> nd_right_child n \<and> nd_left n = None \<and> nd_right n = None"

lemma hang_rep:
  assumes "rep m None (plug ((b, p, s) # c) \<langle>\<rangle>) None" "distinct (inorder (plug ((b, p, s) # c) \<langle>\<rangle>))" "m child = Some cn"
    and "fresh_node cn" "child \<notin> set_tree (plug ((b, p, s) # c) \<langle>\<rangle>)"
  shows "\<exists>m'. hang m b child p = Some m' \<and> rep m' (lo_of c) (frame_tree (b, p, s) \<langle>\<langle>\<rangle>, child, \<langle>\<rangle>\<rangle>) (hi_of c) \<and>
    ctx_rep m' (height (frame_tree (b, p, s) \<langle>\<rangle>)) (Some p) True c \<and> payload m' = payload m \<and> same_outside {child, p} m m'"
proof -
  have r: "rep m (lo_of c) (frame_tree (b, p, s) \<langle>\<rangle>) (hi_of c)" "ctx_rep m (height (frame_tree (b, p, s) \<langle>\<rangle>)) (Some p) True c"
    using assms(1) rep_plug [of m c "frame_tree (b, p, s) \<langle>\<rangle>"] by (cases b; simp)+
  then obtain n where n: "m p = Some n" by (cases b) (auto simp: node_ok_def)
  have d: "child \<noteq> p" "child \<notin> set_tree s" "child \<notin> ctx_set c" "p \<notin> set_tree s" "p \<notin> ctx_set c"
    using assms(5) distinct_frame(2,3) [OF assms(2)] by (cases b; auto simp: set_plug)+
  let ?c = "if b then cn\<lparr>nd_left := nd_left n, nd_right := Some p\<rparr> else cn\<lparr>nd_right := nd_right n, nd_left := Some p\<rparr>"
  let ?n = "if b then n\<lparr>nd_left := Some child, nd_left_child := True, nd_balance := nd_balance n - 1\<rparr>
                  else n\<lparr>nd_right := Some child, nd_right_child := True, nd_balance := nd_balance n + 1\<rparr>"
  let ?m = "m(child \<mapsto> ?c, p \<mapsto> ?n)"
  have "hang m b child p = Some ?m" using n assms(3) d(1) by (auto simp: hang_def upd_def)
  moreover have "rep ?m (lo_of c) (frame_tree (b, p, s) \<langle>\<langle>\<rangle>, child, \<langle>\<rangle>\<rangle>) (hi_of c)"
    using r(1) n d assms(4) by (cases b) (auto simp: node_ok_def fresh_node_def)
  moreover have "ctx_rep ?m (height (frame_tree (b, p, s) \<langle>\<rangle>)) (Some p) True c" using r(2) d by simp
  moreover have "payload ?m = payload m" using n assms(3) d(1) by (auto simp: payload_def fun_eq_iff)
  ultimately show ?thesis by (auto simp: same_outside_def)
qed

lemma grown_leaf: "avl_bal (frame_tree (b, p, s) \<langle>\<rangle>) \<Longrightarrow> grown (height (frame_tree (b, p, s) \<langle>\<rangle>)) (frame_tree (b, p, s) \<langle>\<langle>\<rangle>, child, \<langle>\<rangle>\<rangle>)"
  by (cases b; cases s) (auto simp: max_def split: if_splits)

lemma node_add_rep:
  assumes "rep m None t None" "avl_bal t" "distinct (inorder t)" "avl_root A = root_of t" "height t \<le> MAX_HEIGHT"
    and "m child = Some cn" "fresh_node cn" "child \<notin> set_tree t" "compares A m (nd_key cn) (set_tree t) f" "locate f [] t = (c, s)"
  shows "s \<noteq> \<langle>\<rangle> \<Longrightarrow> node_add A m child = Some (ret_error, A, m(child := None))"
    and "s = \<langle>\<rangle> \<Longrightarrow> \<exists>m' T. node_add A m child = Some (ret_ok, A\<lparr>avl_root := root_of T\<rparr>, m') \<and> rep m' None T None \<and> avl_bal T \<and>
      inorder T = before c @ child # behind c \<and> payload m' = payload m \<and> same_outside (insert child (set_tree t)) m m'"
proof -
  have ne: "t \<noteq> \<langle>\<rangle>" if "s \<noteq> \<langle>\<rangle>" using that assms(10) by auto
  have desc: "add_descend A m child a [None] =
    (case s of \<langle>\<rangle> \<Rightarrow> (case c of (b, p, s) # c'' \<Rightarrow> map_option (\<lambda>m'. Inr (m', p, path_of c'')) (hang m b child p) | [] \<Rightarrow> None)
     | \<langle>_, _, _\<rangle> \<Rightarrow> Some (Inl (m(child := None))))" if "root_of t = Some a" for a
    using add_descend_locate [OF _ that assms(6,9) _ assms(10)] assms(1,5) by simp
  show "node_add A m child = Some (ret_error, A, m(child := None))" if "s \<noteq> \<langle>\<rangle>"
    using ne [OF that] desc that by (cases t; cases s) (auto simp: node_add_def assms(4))
  assume s: "s = \<langle>\<rangle>"
  show "\<exists>m' T. node_add A m child = Some (ret_ok, A\<lparr>avl_root := root_of T\<rparr>, m') \<and> rep m' None T None \<and> avl_bal T \<and>
      inorder T = before c @ child # behind c \<and> payload m' = payload m \<and> same_outside (insert child (set_tree t)) m m'"
  proof (cases t)
    case Leaf
    then have "c = []" using assms(10) by simp
    have "rep m None \<langle>\<langle>\<rangle>, child, \<langle>\<rangle>\<rangle> None" using assms(6,7) by (simp add: node_ok_def fresh_node_def)
    then show ?thesis using Leaf \<open>c = []\<close> by (intro exI [of _ m] exI [of _ "\<langle>\<langle>\<rangle>, child, \<langle>\<rangle>\<rangle>"]) (simp add: node_add_def assms(4))
  next
    case (Node l a r)
    then obtain b p s' c' where c: "c = (b, p, s') # c'" using locate_leaf [of f "[]" t c] assms(10) s by (cases c) auto
    have pl: "plug ((b, p, s') # c') \<langle>\<rangle> = t" using plug_locate [OF assms(10)] s by (simp add: c)
    obtain m1 where m1: "hang m b child p = Some m1" "rep m1 (lo_of c') (frame_tree (b, p, s') \<langle>\<langle>\<rangle>, child, \<langle>\<rangle>\<rangle>) (hi_of c')"
      "ctx_rep m1 (height (frame_tree (b, p, s') \<langle>\<rangle>)) (Some p) True c'" "payload m1 = payload m" "same_outside {child, p} m m1"
      using hang_rep [of m b p s' c' child cn, unfolded pl] assms(1,3,6-8) by blast
    have av: "avl_ctx (height (frame_tree (b, p, s') \<langle>\<rangle>)) c'" "avl_bal (frame_tree (b, p, s') \<langle>\<rangle>)"
      using assms(2) avl_plug [of c' "frame_tree (b, p, s') \<langle>\<rangle>"] pl by simp_all
    let ?T = "plug c' (frame_tree (b, p, s') \<langle>\<langle>\<rangle>, child, \<langle>\<rangle>\<rangle>)"
    have "p \<in> set_tree t" unfolding pl [symmetric] set_plug by simp
    have io: "inorder ?T = before c @ child # behind c" "inorder t = before c @ behind c"
      using inorder_plug [of c "\<langle>\<langle>\<rangle>, child, \<langle>\<rangle>\<rangle>"] inorder_plug [of c "\<langle>\<rangle>"] pl by (simp_all add: c)
    have st: "set_tree ?T = insert child (set_tree t)" using io by (metis Un_insert_right list.simps(15) set_append set_inorder)
    have di: "distinct (inorder ?T)" using assms(3,8) io by (auto simp flip: set_inorder)
    have rt: "root_of (frame_tree (b, p, s') \<langle>\<langle>\<rangle>, child, \<langle>\<rangle>\<rangle>) = Some p" by simp
    have root: "root_of ?T = Some a" using root_plug [of "(b, p, s') # c'" "\<langle>\<langle>\<rangle>, child, \<langle>\<rangle>\<rangle>" "\<langle>\<rangle>"] pl Node by simp
    obtain m' T where m': "add_rebalance m1 (Some a) p (path_of c') = Some (m', root_of T)" "finished m1 ?T m' T"
      using add_rebalance_rep [OF m1(2,3) rt di grown_leaf [OF av(2)] av(1)] root by auto
    have "node_add A m child = Some (ret_ok, A\<lparr>avl_root := root_of T\<rparr>, m')"
      using desc [of a] m1(1) m'(1) by (simp add: node_add_def assms(4) Node s c)
    moreover have "same_outside (insert child (set_tree t)) m m'"
      using m1(5) m'(2) \<open>p \<in> set_tree t\<close> unfolding finished_def st by (auto simp: same_outside_def)
    ultimately show ?thesis using m'(2) m1(4) io by (auto simp: finished_def)
  qed
qed

subsection \<open>Search trees\<close>

definition key_at :: "('k, 'v) avl_mem \<Rightarrow> addr \<Rightarrow> 'k" where
  "key_at m p = fst (the (payload m p))"

definition val_at :: "('k, 'v) avl_mem \<Rightarrow> addr \<Rightarrow> 'v option" where
  "val_at m p = snd (the (payload m p))"

definition search_tree ::
  "('k \<Rightarrow> 'o :: linorder) \<Rightarrow> ('k \<Rightarrow> bool) \<Rightarrow> ('k, 'x) avl_generic \<Rightarrow> ('k, 'v) avl_mem \<Rightarrow> addr tree \<Rightarrow> bool" where
  "search_tree ord valid A m t \<longleftrightarrow> avl_root A = root_of t \<and> rep m None t None \<and> avl_bal t \<and>
     sorted_wrt (<) (map (\<lambda>p. ord (key_at m p)) (inorder t)) \<and> (\<forall>p \<in> set_tree t. valid (key_at m p))"

text \<open>The finite map a tree stands for.\<close>

definition dict_of :: "('k \<Rightarrow> 'o :: linorder) \<Rightarrow> ('k, 'v) avl_mem \<Rightarrow> addr tree \<Rightarrow> 'o \<Rightarrow> 'v option option" where
  "dict_of ord m t = map_of (map (\<lambda>p. (ord (key_at m p), val_at m p)) (inorder t))"

lemma rep_mem: "rep m lo t hi \<Longrightarrow> p \<in> set_tree t \<Longrightarrow> \<exists>n. m p = Some n"
  by (induction t arbitrary: lo hi) (auto simp: node_ok_def)

lemma at_node [simp]: "m p = Some n \<Longrightarrow> key_at m p = nd_key n" "m p = Some n \<Longrightarrow> val_at m p = nd_value n"
  by (simp_all add: key_at_def val_at_def payload_def)

lemma sorted_distinct: "sorted_wrt (<) (map K xs :: 'o :: linorder list) \<Longrightarrow> distinct xs"
  by (induction xs) auto

lemma map_of_insert: "k \<notin> fst ` set xs \<Longrightarrow> map_of (xs @ (k, v) # ys) = (map_of (xs @ ys))(k \<mapsto> v)"
  by (induction xs) (auto simp: fun_eq_iff)

lemma before_behind_sorted:
  assumes "between K k c" "sorted_wrt (<) (map K (before c @ behind c))" "K p = k"
  shows "sorted_wrt (<) (map K (before c @ p # behind c))"
  using assms by (fastforce simp: between_def sorted_wrt_append)

lemma dict_cong:
  assumes "\<And>p. p \<in> set_tree t \<Longrightarrow> key_at m' p = key_at m p \<and> val_at m' p = val_at m p"
  shows "dict_of ord m' t = dict_of ord m t"
proof -
  have "map (\<lambda>p. (ord (key_at m' p), val_at m' p)) (inorder t) = map (\<lambda>p. (ord (key_at m p), val_at m p)) (inorder t)"
    using assms by simp
  then show ?thesis by (simp only: dict_of_def)
qed

text \<open>An order of the keys that the comparison agrees with.\<close>

locale key_order =
  fixes cmp :: "'k \<Rightarrow> 'k \<Rightarrow> int option" and ord :: "'k \<Rightarrow> 'o :: linorder" and valid :: "'k \<Rightarrow> bool"
  assumes cmp_sign: "valid j \<Longrightarrow> valid k \<Longrightarrow> \<exists>x. cmp j k = Some x \<and> (x < 0 \<longleftrightarrow> ord j < ord k) \<and> (x > 0 \<longleftrightarrow> ord k < ord j)"
begin

definition sign :: "'k \<Rightarrow> ('k, 'v) avl_mem \<Rightarrow> addr \<Rightarrow> int" where
  "sign k m p = the (cmp k (key_at m p))"

lemma sign_order:
  assumes "valid k" "valid (key_at m p)"
  shows "cmp k (key_at m p) = Some (sign k m p)" "sign k m p < 0 \<longleftrightarrow> ord k < ord (key_at m p)" "sign k m p > 0 \<longleftrightarrow> ord (key_at m p) < ord k"
  using cmp_sign [OF assms] by (auto simp: sign_def)

lemma sign_compares:
  assumes "search_tree ord valid A m t" "call_cmp A = cmp" "valid k"
  shows "compares A m k (set_tree t) (sign k m)"
  unfolding compares_def
proof
  fix q assume q: "q \<in> set_tree t"
  then obtain n where n: "m q = Some n" using assms(1) rep_mem by (fastforce simp: search_tree_def)
  moreover have "valid (key_at m q)" using assms(1) q by (simp add: search_tree_def)
  ultimately show "\<exists>n. m q = Some n \<and> call_cmp A k (nd_key n) = Some (sign k m q)"
    using sign_order(1) [OF assms(3), of m q] assms(2) by simp
qed

lemma locate_search:
  assumes "search_tree ord valid A m t" "valid k" "locate (sign k m) [] t = (c, s)"
  shows "between (\<lambda>p. ord (key_at m p)) (ord k) c"
    and "s = \<langle>l, p, r\<rangle> \<Longrightarrow> ord (key_at m p) = ord k"
proof -
  have v: "valid (key_at m p)" if "p \<in> set_tree t" for p using assms(1) that by (simp add: search_tree_def)
  show "between (\<lambda>p. ord (key_at m p)) (ord k) c"
    using assms(1) sign_order(2,3) [OF assms(2) v] by (intro locate_between [OF assms(3)]) (auto simp: between_def search_tree_def)
  assume s: "s = \<langle>l, p, r\<rangle>"
  then have "p \<in> set_tree t" using plug_locate [OF assms(3)] set_plug [of c s] by auto
  then show "ord (key_at m p) = ord k"
    using locate_found [OF assms(3) [unfolded s]] sign_order(2,3) [OF assms(2) v] by force
qed

text \<open>Whether the key is in the tree.\<close>

lemma locate_dict:
  assumes "search_tree ord valid A m t" "valid k" "locate (sign k m) [] t = (c, s)"
  shows "s = \<langle>\<rangle> \<Longrightarrow> dict_of ord m t (ord k) = None" "s = \<langle>l, p, r\<rangle> \<Longrightarrow> dict_of ord m t (ord k) = Some (val_at m p)"
proof -
  note bt = locate_search [OF assms]
  have t: "inorder t = before c @ inorder s @ behind c" using plug_locate [OF assms(3)] inorder_plug [of c s] by simp
  have out: "ord k \<notin> (\<lambda>q. ord (key_at m q)) ` set (before c)" "ord k \<notin> (\<lambda>q. ord (key_at m q)) ` set (behind c)"
    using bt(1) by (auto simp: between_def)
  show "dict_of ord m t (ord k) = None" if "s = \<langle>\<rangle>"
    using out unfolding dict_of_def t by (auto simp: that map_of_eq_None_iff image_image)
  assume s: "s = \<langle>l, p, r\<rangle>"
  have so: "sorted_wrt (<) (map (\<lambda>p. ord (key_at m p)) (inorder t))" using assms(1) by (simp add: search_tree_def)
  have k: "ord (key_at m p) = ord k" by (rule bt(2) [OF s])
  have "p \<in> set (inorder t)" unfolding t s by simp
  moreover have "distinct (map fst (map (\<lambda>p. (ord (key_at m p), val_at m p)) (inorder t)))"
    using strict_sorted_iff so by (auto simp: comp_def)
  ultimately show "dict_of ord m t (ord k) = Some (val_at m p)"
    unfolding dict_of_def k [symmetric] by (intro map_of_is_SomeI) auto
qed

lemma get_loop_locate:
  assumes "rep m lo t hi" "root_of t = Some a" "compares A m k (set_tree t) f" "locate f c t = (c', s)"
  shows "get_loop A m k a = Some (case s of \<langle>\<rangle> \<Rightarrow> (ret_not_found, None) | \<langle>_, p, _\<rangle> \<Rightarrow> (ret_ok, Some (val_at m p)))"
  using assms
proof (induction t arbitrary: lo hi a c)
  case (Node l p r)
  have a: "a = p" using Node.prems(2) by simp
  obtain n where n: "m p = Some n" "nd_left n = link lo l" "nd_left_child n = (l \<noteq> \<langle>\<rangle>)" "nd_right n = link hi r"
    "nd_right_child n = (r \<noteq> \<langle>\<rangle>)" using Node.prems(1) by (auto simp: node_ok_def)
  note cmp = compares_node(1) [OF Node.prems(3) n(1)] and cl = compares_node(2,3) [OF Node.prems(3)]
  have rl: "rep m lo l (Some p)" "rep m (Some p) r hi" using Node.prems(1) by simp_all
  consider "f p < 0" | "f p > 0" | "f p = 0" by linarith
  then show ?case
  proof cases
    case 1
    then have "locate f ((True, p, r) # c) l = (c', s)" using Node.prems(4) by simp
    then show ?thesis using Node.IH(1) [OF rl(1) _ cl(1)] 1 n(1-3) cmp by (cases l) (auto simp: a get_loop.simps [of A m k p])
  next
    case 2
    then have "locate f ((False, p, l) # c) r = (c', s)" using Node.prems(4) by simp
    then show ?thesis using Node.IH(2) [OF rl(2) _ cl(2)] 2 n(1,4,5) cmp by (cases r) (auto simp: a get_loop.simps [of A m k p])
  next
    case 3
    then show ?thesis using Node.prems(4) n(1) cmp by (auto simp: a get_loop.simps [of A m k p])
  qed
qed simp

lemma generic_get:
  assumes "search_tree ord valid A m t" "call_cmp A = cmp" "valid k" "node_is_empty A = Some e" "\<not> e k"
  shows "http2d_avl_generic_get A m k =
    Some (case dict_of ord m t (ord k) of None \<Rightarrow> (ret_not_found, None) | Some v \<Rightarrow> (ret_ok, Some v))"
proof -
  obtain c s where ls: "locate (sign k m) [] t = (c, s)" by fastforce
  note d = locate_dict [OF assms(1,3) ls]
  have rt: "avl_root A = root_of t" "rep m None t None" using assms(1) by (simp_all add: search_tree_def)
  show ?thesis
  proof (cases t)
    case Leaf
    then show ?thesis using assms(4,5) rt d ls by (simp add: http2d_avl_generic_get_def)
  next
    case (Node l p r)
    then have "get_loop A m k p = Some (case s of \<langle>\<rangle> \<Rightarrow> (ret_not_found, None) | \<langle>_, p, _\<rangle> \<Rightarrow> (ret_ok, Some (val_at m p)))"
      using get_loop_locate [OF rt(2) _ sign_compares [OF assms(1-3)] ls, of p] by simp
    then show ?thesis using assms(4,5) rt(1) d Node by (cases s) (auto simp: http2d_avl_generic_get_def)
  qed
qed

end

context key_order
begin

lemma payload_at: "payload m' = payload m \<Longrightarrow> key_at m' = key_at m \<and> val_at m' = val_at m"
  by (auto simp: key_at_def val_at_def)

lemma generic_add:
  assumes "search_tree ord valid A m t" "call_cmp A = cmp" "valid k" "node_is_empty A = Some e" "\<not> e k"
    and "size t < 2 ^ 32" "m child = Some cn" "fresh_node cn" "nd_key cn = k" "child \<notin> set_tree t"
  shows "dict_of ord m t (ord k) \<noteq> None \<Longrightarrow> \<exists>m'. http2d_avl_generic_add A m child v = Some (ret_error, A, m') \<and>
      search_tree ord valid A m' t \<and> dict_of ord m' t = dict_of ord m t \<and> m' child = None \<and> same_outside {child} m m'"
    and "dict_of ord m t (ord k) = None \<Longrightarrow> \<exists>m' T. http2d_avl_generic_add A m child v = Some (ret_ok, A\<lparr>avl_root := root_of T\<rparr>, m') \<and>
      search_tree ord valid (A\<lparr>avl_root := root_of T\<rparr>) m' T \<and> set_tree T = insert child (set_tree t) \<and>
      dict_of ord m' T = (dict_of ord m t)(ord k \<mapsto> v) \<and> same_outside (insert child (set_tree t)) m m'"
proof -
  define m1 where "m1 = m(child \<mapsto> cn\<lparr>nd_value := v\<rparr>)"
  let ?K = "\<lambda>p. ord (key_at m1 p)"
  have kv: "key_at m1 = key_at m" "val_at m1 child = v" "key_at m1 child = k"
    "p \<noteq> child \<Longrightarrow> val_at m1 p = val_at m p" for p
    using assms(7,9) by (auto simp: m1_def fun_eq_iff key_at_def val_at_def payload_def)
  have add: "http2d_avl_generic_add A m child v = node_add A m1 child"
    using assms(4,5,7,9) by (simp add: http2d_avl_generic_add_def upd_def m1_def)
  have st: "search_tree ord valid A m1 t" using assms(1,10) kv(1) by (simp add: search_tree_def m1_def)
  have d1: "dict_of ord m1 t = dict_of ord m t"
    using assms(10) kv(1,4) by (intro dict_cong) metis
  obtain c s where ls: "locate (sign k m1) [] t = (c, s)" by fastforce
  note dl = locate_dict [OF st assms(3) ls]
  have cn: "m1 child = Some (cn\<lparr>nd_value := v\<rparr>)" "fresh_node (cn\<lparr>nd_value := v\<rparr>)" using assms(8) by (simp_all add: m1_def fresh_node_def)
  have base: "rep m1 None t None" "avl_bal t" "distinct (inorder t)" "avl_root A = root_of t" "height t \<le> MAX_HEIGHT"
    using st avl_height assms(6) sorted_distinct by (auto simp: search_tree_def)
  have cmp: "compares A m1 (nd_key (cn\<lparr>nd_value := v\<rparr>)) (set_tree t) (sign k m1)"
    using sign_compares [OF st assms(2,3)] assms(9) by simp
  note na = node_add_rep [OF base cn assms(10) cmp ls]
  show "\<exists>m'. http2d_avl_generic_add A m child v = Some (ret_error, A, m') \<and>
      search_tree ord valid A m' t \<and> dict_of ord m' t = dict_of ord m t \<and> m' child = None \<and> same_outside {child} m m'"
    if "dict_of ord m t (ord k) \<noteq> None"
  proof -
    have "s \<noteq> \<langle>\<rangle>" using dl(1) that d1 by auto
    let ?m = "m1(child := None)"
    have e: "http2d_avl_generic_add A m child v = Some (ret_error, A, ?m)" using na(1) [OF \<open>s \<noteq> \<langle>\<rangle>\<close>] add by simp
    have k: "key_at ?m p = key_at m1 p" "val_at ?m p = val_at m1 p" if "p \<in> set (inorder t)" for p
      using that assms(10) by (auto simp: key_at_def val_at_def payload_def)
    have e1: "map (\<lambda>p. ord (key_at ?m p)) (inorder t) = map ?K (inorder t)" and e2: "dict_of ord ?m t = dict_of ord m t"
      using k unfolding d1 [symmetric] by (simp, intro dict_cong, simp)
    have "search_tree ord valid A ?m t" using st k assms(10) unfolding search_tree_def e1 by simp
    then show ?thesis using e e2 by (auto simp: same_outside_def m1_def)
  qed
  assume "dict_of ord m t (ord k) = None"
  then have s: "s = \<langle>\<rangle>" using dl(2) d1 by (cases s) auto
  obtain m' T where m': "node_add A m1 child = Some (ret_ok, A\<lparr>avl_root := root_of T\<rparr>, m')" "rep m' None T None" "avl_bal T"
    "inorder T = before c @ child # behind c" "payload m' = payload m1" "same_outside (insert child (set_tree t)) m1 m'"
    using na(2) [OF s] by blast
  have t: "inorder t = before c @ behind c" using plug_locate [OF ls] inorder_plug [of c s] s by simp
  have bt: "between ?K (ord k) c" by (rule locate_search(1) [OF st assms(3) ls])
  have set: "set_tree T = insert child (set_tree t)" unfolding set_inorder [symmetric] m'(4) t by simp
  have kv': "key_at m' = key_at m1" "val_at m' = val_at m1" using payload_at [OF m'(5)] by auto
  have "sorted_wrt (<) (map ?K (inorder T))"
    unfolding m'(4) using st kv(3) by (intro before_behind_sorted [OF bt]) (simp_all add: search_tree_def t)
  then have "search_tree ord valid (A\<lparr>avl_root := root_of T\<rparr>) m' T"
    using m'(2,3) st set kv(3) assms(3) by (simp add: search_tree_def kv')
  moreover have "dict_of ord m' T = (dict_of ord m1 t)(ord k \<mapsto> v)"
    unfolding dict_of_def kv' m'(4) t map_append list.map(2) kv(2,3) using bt by (intro map_of_insert) (auto simp: between_def)
  moreover have "same_outside (insert child (set_tree t)) m m'" using m'(6) by (auto simp: same_outside_def m1_def)
  ultimately show "\<exists>m' T. http2d_avl_generic_add A m child v = Some (ret_ok, A\<lparr>avl_root := root_of T\<rparr>, m') \<and>
      search_tree ord valid (A\<lparr>avl_root := root_of T\<rparr>) m' T \<and> set_tree T = insert child (set_tree t) \<and>
      dict_of ord m' T = (dict_of ord m t)(ord k \<mapsto> v) \<and> same_outside (insert child (set_tree t)) m m'"
    using add m'(1) set d1 by auto
qed

end

subsection \<open>Iterating\<close>

definition head :: "addr option \<Rightarrow> addr list \<Rightarrow> addr option" where
  "head d xs = (case xs of [] \<Rightarrow> d | x # _ \<Rightarrow> Some x)"

lemma head_simps [simp]: "head d [] = d" "head d (x # xs) = Some x" "head d (xs @ y # ys) = head (Some y) xs"
  by (auto simp: head_def split: list.splits)

lemma leftmost_rep:
  "rep m lo t hi \<Longrightarrow> root_of t = Some a \<Longrightarrow> (\<And>b. b \<in> set_tree t \<Longrightarrow> m' b = m b) \<Longrightarrow> leftmost m' a = head None (inorder t) \<and> leftmost m' a \<noteq> None"
proof (induction t arbitrary: lo hi a)
  case (Node l p r)
  obtain n where n: "m' p = Some n" "nd_left n = link lo l" "nd_left_child n = (l \<noteq> \<langle>\<rangle>)" using Node.prems(1,3) by (auto simp: node_ok_def)
  show ?case
  proof (cases "l = \<langle>\<rangle>")
    case True
    then have "leftmost m' p = Some p" using n by (subst leftmost.simps) simp
    then show ?thesis using Node.prems(2) True by auto
  next
    case False
    then obtain b where b: "root_of l = Some b" "nd_left n = Some b" using n(2) by (cases l) auto
    have ih: "leftmost m' b = head None (inorder l) \<and> leftmost m' b \<noteq> None" using Node.prems by (intro Node.IH(1) [OF _ b(1)]) auto
    moreover have "leftmost m' a = leftmost m' b" using Node.prems(2) n(1,3) b(2) False by (subst leftmost.simps) simp
    ultimately show ?thesis by (cases "inorder l") auto
  qed
qed simp

lemma split_unique:
  assumes "distinct (as @ q # bs)" "p \<in> set as" "as @ q # bs = xs @ p # ys"
  shows "\<exists>zs. as = xs @ p # zs \<and> ys = zs @ q # bs"
proof -
  obtain us vs where as: "as = us @ p # vs" using assms(2) by (meson split_list)
  then have "us @ p # (vs @ q # bs) = xs @ p # ys" "p \<notin> set us" "p \<notin> set (vs @ q # bs)" using assms by auto
  then have "us = xs" "vs @ q # bs = ys" using append_Cons_eq_iff by metis+
  with as show ?thesis by auto
qed

lemma split_unique2:
  assumes "distinct (as @ q # bs)" "p \<in> set bs" "as @ q # bs = xs @ p # ys"
  shows "\<exists>zs. bs = zs @ p # ys \<and> xs = as @ q # zs"
proof -
  obtain us vs where bs: "bs = us @ p # vs" using assms(2) by (meson split_list)
  then have "(as @ q # us) @ p # vs = xs @ p # ys" "p \<notin> set (as @ q # us)" "p \<notin> set vs" using assms by auto
  then have "as @ q # us = xs" "vs = ys" using append_Cons_eq_iff by metis+
  with bs show ?thesis by auto
qed

text \<open>The next node is the one behind in the order; only nodes from there on are read.\<close>

lemma node_next_rep:
  "rep m lo t hi \<Longrightarrow> inorder t = xs @ p # ys \<Longrightarrow> distinct (inorder t) \<Longrightarrow> (\<And>b. b \<in> set (p # ys) \<Longrightarrow> m' b = m b) \<Longrightarrow>
   node_next m' p = Some (head hi ys)"
proof (induction t arbitrary: lo hi xs ys)
  case (Node l q r)
  have "p \<in> set (inorder \<langle>l, q, r\<rangle>)" unfolding Node.prems(2) by simp
  then consider "p = q" | "p \<in> set_tree l" | "p \<in> set_tree r" by auto
  then show ?case
  proof cases
    case 1
    have e: "xs = inorder l" "ys = inorder r"
      using Node.prems(2,3) 1 append_Cons_eq_iff [of p xs ys "inorder l" "inorder r"] by auto
    obtain n where n: "m' p = Some n" "nd_right n = link hi r" "nd_right_child n = (r \<noteq> \<langle>\<rangle>)"
      using Node.prems(1,4) 1 by (auto simp: node_ok_def)
    show ?thesis
    proof (cases "r = \<langle>\<rangle>")
      case True
      then show ?thesis using n e by (simp add: node_next_def)
    next
      case False
      then obtain b where b: "root_of r = Some b" "nd_right n = Some b" using n(2) by (cases r) auto
      have "leftmost m' b = head None (inorder r) \<and> leftmost m' b \<noteq> None"
        using Node.prems(1,4) e(2) by (intro leftmost_rep [OF _ b(1), of m "Some q" hi]) auto
      then show ?thesis using n(1,3) b(2) False e(2) by (cases "inorder r") (auto simp: node_next_def)
    qed
  next
    case 2
    then obtain ys' where l: "inorder l = xs @ p # ys'" "ys = ys' @ q # inorder r"
      using split_unique [OF Node.prems(3) [unfolded inorder.simps append_Cons append_Nil] _ Node.prems(2) [unfolded inorder.simps append_Cons append_Nil]] by auto
    have "rep m lo l (Some q)" "distinct (inorder l)" using Node.prems(1,3) by auto
    then have "node_next m' p = Some (head (Some q) ys')" using Node.prems(4) by (intro Node.IH(1) [OF _ l(1)]) (auto simp: l(2))
    then show ?thesis by (simp add: l(2))
  next
    case 3
    then obtain xs' where r: "inorder r = xs' @ p # ys" "xs = inorder l @ q # xs'"
      using split_unique2 [OF Node.prems(3) [unfolded inorder.simps append_Cons append_Nil] _ Node.prems(2) [unfolded inorder.simps append_Cons append_Nil]] by auto
    have "rep m (Some q) r hi" "distinct (inorder r)" using Node.prems(1,3) by auto
    then show ?thesis using Node.IH(2) [of "Some q" hi xs' ys] r Node.prems(4) by simp
  qed
qed simp

fun visit :: "('k, 'v) avl_mem \<Rightarrow> ('k \<Rightarrow> 'v option \<Rightarrow> 's \<Rightarrow> ret_t \<times> 's) \<Rightarrow> 's \<Rightarrow> addr list \<Rightarrow> ret_t \<times> 's" where
  "visit m func s [] = (ret_ok, s)"
| "visit m func s (a # as) =
     (case func (key_at m a) (val_at m a) s of (ret, s) \<Rightarrow> if ret \<noteq> ret_ok then (ret, s) else visit m func s as)"

lemma while_loop_rep:
  assumes "rep m None t None" "distinct (inorder t)"
  shows "inorder t = xs @ ys \<Longrightarrow> \<exists>z. while_loop m func s (head None ys) seen = Some (fst (visit m func s ys), snd (visit m func s ys), z)"
proof (induction ys arbitrary: xs s seen)
  case Nil
  then show ?case by (simp add: while_loop.simps [of m func s None])
next
  case (Cons a ys)
  have nx: "node_next m a = Some (head None ys)" using node_next_rep [OF assms(1) Cons.prems assms(2), of m] by simp
  have "a \<in> set_tree t" using Cons.prems by (metis in_set_conv_decomp set_inorder)
  then obtain n where n: "m a = Some n" using rep_mem [OF assms(1)] by blast
  obtain ret s' where f: "func (nd_key n) (nd_value n) s = (ret, s')" by fastforce
  show ?case using Cons.IH [of "xs @ [a]" s' "Some a"] Cons.prems n f nx by (auto simp: while_loop.simps [of m func s "Some a"])
qed

lemma node_first_rep:
  assumes "rep m None t None" "avl_root A = root_of t"
  shows "node_first m A = Some (head None (inorder t))"
proof (cases t)
  case (Node l p r)
  have lm: "leftmost m p = head None (inorder t) \<and> leftmost m p \<noteq> None" using Node by (intro leftmost_rep [OF assms(1)]) auto
  then obtain z where "leftmost m p = Some z" by blast
  moreover from this lm have "head None (inorder t) = Some z" by (simp only:)
  ultimately have "map_option Some (leftmost m p) = Some (head None (inorder t))" by (simp only: option.map(2))
  then show ?thesis using Node assms(2) by (simp add: node_first_def)
qed (use assms(2) in \<open>simp add: node_first_def\<close>)

lemma generic_while_rep:
  assumes "rep m None t None" "distinct (inorder t)" "avl_root A = root_of t"
  shows "\<exists>z. http2d_avl_generic_while A m func s = Some (fst (visit m func s (inorder t)), snd (visit m func s (inorder t)), z)"
proof (cases t)
  case Leaf
  then show ?thesis using assms(3) by (simp add: http2d_avl_generic_while_def)
next
  case (Node l p r)
  then show ?thesis using node_first_rep [OF assms(1,3)] while_loop_rep [OF assms(1,2), of "[]" "inorder t" func s None] assms(3)
    by (auto simp: http2d_avl_generic_while_def)
qed

lemma visit_len: "visit m func_len_each n as = (ret_ok, if as = [] then n else u64 (n + length as))"
  by (induction as arbitrary: n) (auto simp: func_len_each_def u64_def mod_simps)

lemma avl_len_rep:
  assumes "rep m None t None" "distinct (inorder t)" "avl_root A = root_of t" "size t < 2 ^ 64"
  shows "http2d_avl_len A m = Some (ret_ok, size t)"
  using generic_while_rep [OF assms(1-3), of func_len_each 0] assms(4)
  by (auto simp: http2d_avl_len_def visit_len u64_def)

lemma mrproper_loop_rep:
  assumes "rep m None t None" "distinct (inorder t)"
  shows "inorder t = xs @ ys \<Longrightarrow> (\<And>a. m' a = (if a \<in> set xs then None else m a)) \<Longrightarrow>
    mrproper_loop m' (head None ys) vs = Some (vs @ map (val_at m) ys, \<lambda>a. if a \<in> set_tree t then None else m a)"
proof (induction ys arbitrary: xs m' vs)
  case Nil
  then have "m' = (\<lambda>a. if a \<in> set_tree t then None else m a)" by (auto simp: fun_eq_iff simp flip: set_inorder)
  moreover have "mrproper_loop m' None vs = Some (vs, m')" by (subst mrproper_loop.simps) simp
  ultimately show ?case by simp
next
  case (Cons a ys)
  have d: "a \<notin> set xs" "set ys \<inter> set xs = {}" using assms(2) Cons.prems(1) by auto
  have nx: "node_next m' a = Some (head None ys)"
    using d Cons.prems(2) by (intro node_next_rep [OF assms(1) Cons.prems(1) assms(2)]) (metis disjoint_iff set_ConsD)
  have "a \<in> set_tree t" using Cons.prems(1) by (metis in_set_conv_decomp set_inorder)
  then obtain n where n: "m a = Some n" using rep_mem [OF assms(1)] by blast
  have "mrproper_loop (m'(a := None)) (head None ys) (vs @ [nd_value n]) =
      Some ((vs @ [nd_value n]) @ map (val_at m) ys, \<lambda>a. if a \<in> set_tree t then None else m a)"
    using Cons.prems by (intro Cons.IH [of "xs @ [a]"]) auto
  then show ?case using n nx Cons.prems(2) [of a] d(1) by (simp add: mrproper_loop.simps [of m' "Some a"])
qed

lemma avl_mrproper_rep:
  assumes "rep m None t None" "distinct (inorder t)" "avl_root A = root_of t"
  shows "http2d_avl_mrproper A m = Some (ret_ok, map (val_at m) (inorder t), \<lambda>a. if a \<in> set_tree t then None else m a)"
  using node_first_rep [OF assms(1,3)] mrproper_loop_rep [OF assms(1,2), of "[]" "inorder t" m "[]"]
  by (simp add: http2d_avl_mrproper_def)

subsection \<open>Checking\<close>

lemma node_height_rep: "rep m lo t hi \<Longrightarrow> root_of t = Some a \<Longrightarrow> node_height m a = Some (int (height t))"
proof (induction t arbitrary: lo hi a)
  case (Node l p r)
  obtain n where n: "m p = Some n" "nd_left n = link lo l" "nd_left_child n = (l \<noteq> \<langle>\<rangle>)" "nd_right n = link hi r"
    "nd_right_child n = (r \<noteq> \<langle>\<rangle>)" using Node.prems(1) by (auto simp: node_ok_def)
  have "(if nd_left_child n then do { b \<leftarrow> nd_left n; node_height m b } else Some 0) = Some (int (height l))"
    using Node.IH(1) [of lo "Some p"] Node.prems(1) n(2,3) by (cases l) auto
  moreover have "(if nd_right_child n then do { b \<leftarrow> nd_right n; node_height m b } else Some 0) = Some (int (height r))"
    using Node.IH(2) [of "Some p" hi] Node.prems(1) n(4,5) by (cases r) auto
  ultimately show ?case using Node.prems(2) n(1) by (subst node_height.simps) (simp add: max.commute)
qed simp

lemma ends_rep:
  assumes "rep m lo t hi" "root_of t = Some a"
  shows "\<exists>z n. leftmost m a = Some z \<and> m z = Some n \<and> nd_left n = lo"
    and "\<exists>z n. rightmost m a = Some z \<and> m z = Some n \<and> nd_right n = hi"
proof -
  show "\<exists>z n. leftmost m a = Some z \<and> m z = Some n \<and> nd_left n = lo"
    using assms
  proof (induction t arbitrary: hi a)
    case (Node l p r)
    then obtain n where n: "m p = Some n" "nd_left n = link lo l" "nd_left_child n = (l \<noteq> \<langle>\<rangle>)" by (auto simp: node_ok_def)
    show ?case using Node.IH(1) [of "Some p"] Node.prems n by (subst leftmost.simps, cases l) auto
  qed simp
  show "\<exists>z n. rightmost m a = Some z \<and> m z = Some n \<and> nd_right n = hi"
    using assms
  proof (induction t arbitrary: lo a)
    case (Node l p r)
    then obtain n where n: "m p = Some n" "nd_right n = link hi r" "nd_right_child n = (r \<noteq> \<langle>\<rangle>)" by (auto simp: node_ok_def)
    show ?case using Node.IH(2) [of "Some p"] Node.prems n by (subst rightmost.simps, cases r) auto
  qed simp
qed

lemma node_check_rep: "rep m lo t hi \<Longrightarrow> root_of t = Some a \<Longrightarrow> node_check m a = Some ret_ok"
proof (induction t arbitrary: lo hi a)
  case (Node l p r)
  obtain n where n: "m p = Some n" "nd_left n = link lo l" "nd_left_child n = (l \<noteq> \<langle>\<rangle>)" "nd_right n = link hi r"
    "nd_right_child n = (r \<noteq> \<langle>\<rangle>)" "nd_balance n = int (height r) - int (height l)" using Node.prems(1) by (auto simp: node_ok_def)
  have a: "a = p" using Node.prems(2) by simp
  have rl: "rep m lo l (Some p)" "rep m (Some p) r hi" using Node.prems(1) by auto
  have "(if nd_left_child n then do { tmp \<leftarrow> node_prev m p; t \<leftarrow> tmp; q \<leftarrow> m t; Some (nd_right q = Some p) } else Some True) = Some True"
    using n(1-3) ends_rep(2) [OF rl(1)] by (cases l) (auto simp: node_prev_def)
  moreover have "(if nd_right_child n then do { tmp \<leftarrow> node_next m p; t \<leftarrow> tmp; q \<leftarrow> m t; Some (nd_left q = Some p) } else Some True) = Some True"
    using n(1,4,5) ends_rep(1) [OF rl(2)] by (cases r) (auto simp: node_next_def)
  moreover have "(if nd_left_child n then do { b \<leftarrow> nd_left n; node_height m b } else Some 0) = Some (int (height l))"
    using node_height_rep [OF rl(1)] n(2,3) by (cases l) auto
  moreover have "(if nd_right_child n then do { b \<leftarrow> nd_right n; node_height m b } else Some 0) = Some (int (height r))"
    using node_height_rep [OF rl(2)] n(4,5) by (cases r) auto
  moreover have "(if nd_left_child n then do { b \<leftarrow> nd_left n; node_check m b } else Some ret_ok) = Some ret_ok"
    using Node.IH(1) [OF rl(1)] n(2,3) by (cases l) auto
  moreover have "(if nd_right_child n then do { b \<leftarrow> nd_right n; node_check m b } else Some ret_ok) = Some ret_ok"
    using Node.IH(2) [OF rl(2)] n(4,5) by (cases r) auto
  ultimately show ?case unfolding a using n(1,6) by (subst node_check.simps) simp
qed simp

end
