(* ===== verification/Avl_Delete.thy ===== *)
theory Avl_Delete
  imports Avl_Search
begin

text \<open>
  Deleting from a threaded tree: unlinking a node with at most one child, replacing a node with two children by the
  one behind it, and the rebalancing that follows.
\<close>

subsection \<open>Unlinking a node\<close>

text \<open>What is left after a node has been unlinked: a tree, or a subtree that has lost a level in its context.\<close>

definition unlinked ::
  "('k, 'v) avl_mem \<Rightarrow> addr tree \<Rightarrow> addr \<Rightarrow> ('k, 'v) avl_mem \<Rightarrow> addr option \<Rightarrow> addr option list \<Rightarrow> bool" where
  "unlinked m T p m1 root path \<longleftrightarrow> payload m1 = payload m \<and> same_outside (set_tree T) m m1 \<and>
     (path = [None] \<and> (\<exists>T1. root = root_of T1 \<and> rep m1 None T1 None \<and> avl_bal T1 \<and> inorder T1 = remove1 p (inorder T)) \<or>
      (\<exists>q c t d. path = Some q # path_of c \<and> root = root_of (plug c t) \<and> rep m1 (lo_of c) t (hi_of c) \<and>
         ctx_rep m1 d (Some q) True c \<and> root_of t = Some q \<and> shrunk d t \<and> avl_ctx d c \<and> inorder (plug c t) = remove1 p (inorder T)))"

text \<open>A shorter subtree takes the place of the one in the hole.\<close>

definition refilled :: "bool \<Rightarrow> addr option \<Rightarrow> bool \<Rightarrow> ('k, 'v) avl_node \<Rightarrow> ('k, 'v) avl_node" where
  "refilled b q ch n =
     (if b then n\<lparr>nd_left := q, nd_left_child := ch, nd_balance := nd_balance n + 1\<rparr>
      else n\<lparr>nd_right := q, nd_right_child := ch, nd_balance := nd_balance n - 1\<rparr>)"

lemma ctx_refill:
  assumes "ctx_rep m (height s0 + 1) q ch ((b, p, s) # c)" "m p = Some n" "rep m (lo_of ((b, p, s) # c)) s0 (hi_of ((b, p, s) # c))"
    and "p \<notin> set_tree s" "p \<notin> ctx_set c" "p \<notin> set_tree s0"
  shows "rep (m(p \<mapsto> refilled b (hole_link ((b, p, s) # c) s0) (s0 \<noteq> \<langle>\<rangle>) n)) (lo_of c) (frame_tree (b, p, s) s0) (hi_of c)"
    "ctx_rep (m(p \<mapsto> refilled b (hole_link ((b, p, s) # c) s0) (s0 \<noteq> \<langle>\<rangle>) n)) (max (height s0 + 1) (height s) + 1) (Some p) True c"
  using assms by (cases b; auto simp: frame_ok_def node_ok_def refilled_def)+

lemma refilled_keeps: "m p = Some n \<Longrightarrow> payload (m(p \<mapsto> refilled b q ch n)) = payload m"
  by (auto simp: refilled_def payload_def fun_eq_iff)

text \<open>The common end of the cases with at most one child: \<open>s0\<close> takes the place of the node \<open>p\<close>.\<close>

lemma unlinked_small:
  assumes "ctx_rep m (height s0 + 1) (Some p) True c" "avl_ctx (height s0 + 1) c" "avl_bal s0" "rep m (lo_of c) s0 (hi_of c)"
    and "distinct (inorder (plug c s0))" "inorder (plug c s0) = remove1 p (inorder T)" "set_tree (plug c s0) \<subseteq> set_tree T"
    and "payload m = payload m0" "same_outside (set_tree T) m0 m"
  shows "c = [] \<Longrightarrow> unlinked m0 T p m (root_of s0) [None]"
    and "c = (b, q, s) # c' \<Longrightarrow> m q = Some n \<Longrightarrow>
      unlinked m0 T p (m(q \<mapsto> refilled b (hole_link c s0) (s0 \<noteq> \<langle>\<rangle>) n)) (root_of (plug c s0)) (path_of c)"
proof -
  show "unlinked m0 T p m (root_of s0) [None]" if "c = []" using that assms by (auto simp: unlinked_def)
  assume c: "c = (b, q, s) # c'" and n: "m q = Some n"
  let ?m = "m(q \<mapsto> refilled b (hole_link c s0) (s0 \<noteq> \<langle>\<rangle>) n)"
  note df = distinct_frame [OF assms(5) [unfolded c]]
  have r: "rep ?m (lo_of c') (frame_tree (b, q, s) s0) (hi_of c')" "ctx_rep ?m (max (height s0 + 1) (height s) + 1) (Some q) True c'"
    using ctx_refill [OF assms(1) [unfolded c] n assms(4) [unfolded c] df(2,3,1)] by (simp_all add: c)
  have sh: "shrunk (max (height s0 + 1) (height s) + 1) (frame_tree (b, q, s) s0)" "avl_ctx (max (height s0 + 1) (height s) + 1) c'"
    using shrunk_frame [OF assms(3) refl, of s] assms(2) by (simp_all add: c del: frame_tree.simps)
  have "q \<in> set_tree T" using assms(7) by (auto simp: set_plug c)
  then have "payload ?m = payload m0" "same_outside (set_tree T) m0 ?m"
    using assms(8,9) refilled_keeps [of m q n] n by (auto simp: same_outside_def)
  moreover have "root_of (frame_tree (b, q, s) s0) = Some q" by simp
  moreover have "inorder (plug c' (frame_tree (b, q, s) s0)) = remove1 p (inorder T)" using assms(6) by (simp add: c)
  ultimately show "unlinked m0 T p ?m (root_of (plug c s0)) (path_of c)"
    unfolding unlinked_def using r sh by (intro conjI disjI2 exI [of _ q] exI [of _ c'] exI [of _ "frame_tree (b, q, s) s0"]
      exI [of _ "max (height s0 + 1) (height s) + 1"]) (simp_all add: c)
qed

lemma avl_single:
  assumes "avl_bal \<langle>l, p, r\<rangle>"
  shows "l = \<langle>\<rangle> \<Longrightarrow> r \<noteq> \<langle>\<rangle> \<Longrightarrow> \<exists>x. r = \<langle>\<langle>\<rangle>, x, \<langle>\<rangle>\<rangle>" "r = \<langle>\<rangle> \<Longrightarrow> l \<noteq> \<langle>\<rangle> \<Longrightarrow> \<exists>x. l = \<langle>\<langle>\<rangle>, x, \<langle>\<rangle>\<rangle>"
  using assms by (cases r; cases l; auto)+

lemma remove1_middle: "p \<notin> set xs \<Longrightarrow> remove1 p (xs @ p # ys) = xs @ ys"
  by (simp add: remove1_append)

text \<open>The memory after the thread of the only child has been redirected, before the parent is touched.\<close>

lemma redirect_child:
  assumes "rep m (lo_of c) \<langle>l, p, r\<rangle> (hi_of c)" "ctx_rep m (height \<langle>l, p, r\<rangle>) (Some p) True c" "avl_bal \<langle>l, p, r\<rangle>" "l = \<langle>\<rangle> \<or> r = \<langle>\<rangle>"
    and "set_tree \<langle>l, p, r\<rangle> \<inter> ctx_set c = {}" "m p = Some n" "s0 = (if l = \<langle>\<rangle> then r else l)"
  obtains m1 where "rep m1 (lo_of c) s0 (hi_of c)" "ctx_rep m1 (height s0 + 1) (Some p) True c" "payload m1 = payload m"
    "same_outside (set_tree (plug c \<langle>l, p, r\<rangle>)) m m1" "s0 = \<langle>\<rangle> \<Longrightarrow> m1 = m"
    "l = \<langle>\<rangle> \<Longrightarrow> r \<noteq> \<langle>\<rangle> \<Longrightarrow> do { tmp \<leftarrow> node_next m p; t \<leftarrow> tmp; upd m t (\<lambda>t. t\<lparr>nd_left := nd_left n\<rparr>) } = Some m1"
    "l \<noteq> \<langle>\<rangle> \<Longrightarrow> do { tmp \<leftarrow> node_prev m p; t \<leftarrow> tmp; upd m t (\<lambda>t. t\<lparr>nd_right := nd_right n\<rparr>) } = Some m1"
proof -
  note rp = assms(1,2)
  have h: "height \<langle>l, p, r\<rangle> = height s0 + 1" using assms(4) by (auto simp: assms(7))
  have n: "m p = Some n" "nd_left n = link (lo_of c) l" "nd_left_child n = (l \<noteq> \<langle>\<rangle>)" "nd_right n = link (hi_of c) r"
    "nd_right_child n = (r \<noteq> \<langle>\<rangle>)" using rp(1) assms(6) by (auto simp: node_ok_def)
  show ?thesis
  proof (cases "s0 = \<langle>\<rangle>")
    case True
    then show ?thesis using rp(2) h assms(4,7) by (intro that [of m]) (auto split: if_splits)
  next
    case False
    then obtain x where x: "s0 = \<langle>\<langle>\<rangle>, x, \<langle>\<rangle>\<rangle>" using avl_single [OF assms(3)] assms(4,7) by (auto split: if_splits)
    have xt: "x \<in> set_tree \<langle>l, p, r\<rangle>" using x assms(4,7) by (auto split: if_splits)
    then have xc: "x \<notin> ctx_set c" using assms(5) by blast
    show ?thesis
    proof (cases "l = \<langle>\<rangle>")
      case True
      then have r: "r = \<langle>\<langle>\<rangle>, x, \<langle>\<rangle>\<rangle>" using x assms(7) by simp
      obtain xn where xn: "m x = Some xn" "nd_balance xn = 0" "nd_left_child xn = False" "nd_right_child xn = False" "nd_right xn = hi_of c"
        using rp(1) by (auto simp: r node_ok_def)
      show ?thesis using rp n xn x xt xc h True
        by (intro that [of "m(x \<mapsto> xn\<lparr>nd_left := nd_left n\<rparr>)"])
          (auto simp: r node_ok_def payload_id same_outside_def set_plug node_next_def leftmost.simps [of m x] upd_def)
    next
      case False
      then have l: "l = \<langle>\<langle>\<rangle>, x, \<langle>\<rangle>\<rangle>" "r = \<langle>\<rangle>" using x assms(4,7) by simp_all
      obtain xn where xn: "m x = Some xn" "nd_balance xn = 0" "nd_left_child xn = False" "nd_right_child xn = False" "nd_left xn = lo_of c"
        using rp(1) by (auto simp: l node_ok_def)
      show ?thesis using rp n xn x xt xc h False
        by (intro that [of "m(x \<mapsto> xn\<lparr>nd_right := nd_right n\<rparr>)"])
          (auto simp: l node_ok_def payload_id same_outside_def set_plug node_prev_def rightmost.simps [of m x] upd_def)
    qed
  qed
qed

lemma unlink_small:
  assumes "rep m None (plug c \<langle>l, p, r\<rangle>) None" "avl_bal (plug c \<langle>l, p, r\<rangle>)" "distinct (inorder (plug c \<langle>l, p, r\<rangle>))" "l = \<langle>\<rangle> \<or> r = \<langle>\<rangle>"
  shows "\<exists>m1 root path. unlink m (root_of (plug c \<langle>l, p, r\<rangle>)) p (path_of c) = Some (m1, root, path) \<and>
    unlinked m (plug c \<langle>l, p, r\<rangle>) p m1 root path"
proof -
  let ?t = "\<langle>l, p, r\<rangle>" and ?T = "plug c \<langle>l, p, r\<rangle>"
  define s0 where "s0 = (if l = \<langle>\<rangle> then r else l)"
  have rp: "rep m (lo_of c) ?t (hi_of c)" "ctx_rep m (height ?t) (Some p) True c" using assms(1) rep_plug [of m c ?t] by auto
  have av: "avl_ctx (height ?t) c" "avl_bal ?t" using assms(2) avl_plug by auto
  have h: "height ?t = height s0 + 1" "avl_bal s0" using assms(4) av(2) by (auto simp: s0_def)
  have io: "inorder ?T = before c @ inorder l @ p # inorder r @ behind c" by (simp add: inorder_plug)
  have i0: "inorder (plug c s0) = remove1 p (inorder ?T)"
    using assms(3,4) remove1_middle [of p "before c @ inorder l" "inorder r @ behind c"] by (auto simp: io inorder_plug s0_def)
  have d0: "distinct (inorder (plug c s0))" unfolding i0 using assms(3) by simp
  have sub: "set_tree (plug c s0) \<subseteq> set_tree ?T" using assms(4) by (auto simp: set_plug s0_def)
  obtain n where n: "m p = Some n" "nd_left n = link (lo_of c) l" "nd_left_child n = (l \<noteq> \<langle>\<rangle>)" "nd_right n = link (hi_of c) r"
    "nd_right_child n = (r \<noteq> \<langle>\<rangle>)" using rp(1) by (auto simp: node_ok_def)
  have dp: "set_tree ?t \<inter> ctx_set c = {}" by (rule distinct_plug(1) [OF assms(3)])
  from redirect_child [OF rp av(2) assms(4) dp n(1) s0_def] obtain m1 where m1:
      "rep m1 (lo_of c) s0 (hi_of c)" "ctx_rep m1 (height s0 + 1) (Some p) True c" "payload m1 = payload m"
      "same_outside (set_tree ?T) m m1" "s0 = \<langle>\<rangle> \<Longrightarrow> m1 = m"
      "l = \<langle>\<rangle> \<Longrightarrow> r \<noteq> \<langle>\<rangle> \<Longrightarrow> do { tmp \<leftarrow> node_next m p; t \<leftarrow> tmp; upd m t (\<lambda>t. t\<lparr>nd_left := nd_left n\<rparr>) } = Some m1"
      "l \<noteq> \<langle>\<rangle> \<Longrightarrow> do { tmp \<leftarrow> node_prev m p; t \<leftarrow> tmp; upd m t (\<lambda>t. t\<lparr>nd_right := nd_right n\<rparr>) } = Some m1"
    by blast
  note us = unlinked_small [OF m1(2) av(1) [unfolded h(1)] h(2) m1(1) d0 i0 sub m1(3,4)]
  show ?thesis
  proof (cases c)
    case Nil
    have "unlink m (Some p) p [None] = Some (m1, root_of s0, [None])"
    proof (cases "l = \<langle>\<rangle>")
      case True
      then show ?thesis using n m1(5,6)
        by (cases "r = \<langle>\<rangle>") (auto simp: unlink_def is_left_of_def unlink_leaf_def hand_over_def s0_def Option.bind_eq_Some_conv neq_Leaf_iff)
    next
      case False
      then show ?thesis using n m1(7) assms(4)
        by (auto simp: unlink_def is_left_of_def hand_over_def s0_def Option.bind_eq_Some_conv neq_Leaf_iff)
    qed
    then show ?thesis using us(1) [OF Nil] Nil by auto
  next
    case (Cons f c')
    then obtain b q s where c: "c = (b, q, s) # c'" by (cases f) auto
    note df = distinct_frame [OF assms(3) [unfolded c]]
    have il: "is_left_of m (Some q) p = Some b" using is_left_of_ctx [OF rp(2) [unfolded c]] df by auto
    obtain qn where qn: "m1 q = Some qn" using m1(2) by (auto simp: c frame_ok_def)
    have qf: "if b then nd_left_child qn else nd_right_child qn" using m1(2) qn by (auto simp: c frame_ok_def)
    let ?m = "m1(q \<mapsto> refilled b (hole_link c s0) (s0 \<noteq> \<langle>\<rangle>) qn)"
    have hl: "hole_link c \<langle>\<rangle> = (if b then nd_left n else nd_right n)" if "s0 = \<langle>\<rangle>"
      using that n(2,4) assms(4) by (auto simp: c s0_def split: if_splits)
    have rt: "root_of (plug c s0) = root_of ?T" by (rule root_plug) (simp add: c)
    have re: "refilled b (Some y) True qn = (if b then qn\<lparr>nd_left := Some y, nd_balance := nd_balance qn + 1\<rparr>
        else qn\<lparr>nd_right := Some y, nd_balance := nd_balance qn - 1\<rparr>)" for y
      using qf by (auto simp: refilled_def)
    have "unlink m (root_of ?T) p (path_of c) = Some (?m, root_of (plug c s0), path_of c)"
    proof (cases "l = \<langle>\<rangle>")
      case True
      show ?thesis
      proof (cases "r = \<langle>\<rangle>")
        case r: True
        then have e: "s0 = \<langle>\<rangle>" "m1 = m" using True m1(5) by (auto simp: s0_def)
        show ?thesis unfolding rt unlink_def using il n(1,3,5) True r qn hl [OF e(1)] e
          by (auto simp: c unlink_leaf_def upd_def refilled_def)
      next
        case False
        then obtain y where y: "root_of r = Some y" "nd_right n = Some y" "hole_link c s0 = Some y" "s0 \<noteq> \<langle>\<rangle>"
          using n(4) True by (cases r) (auto simp: s0_def)
        from m1(6) [OF True False] obtain t where t: "node_next m p = Some (Some t)" "upd m t (\<lambda>t. t\<lparr>nd_left := nd_left n\<rparr>) = Some m1"
          by (auto simp: Option.bind_eq_Some_conv)
        show ?thesis unfolding rt unlink_def using il n(1,3,5) True False qn y t re
          by (auto simp: c hand_over_def upd_def)
      qed
    next
      case False
      then have r: "r = \<langle>\<rangle>" using assms(4) by simp
      obtain y where y: "root_of l = Some y" "nd_left n = Some y" "hole_link c s0 = Some y" "s0 \<noteq> \<langle>\<rangle>"
        using n(2) False by (cases l) (auto simp: s0_def)
      from m1(7) [OF False] obtain t where t: "node_prev m p = Some (Some t)" "upd m t (\<lambda>t. t\<lparr>nd_right := nd_right n\<rparr>) = Some m1"
        by (auto simp: Option.bind_eq_Some_conv)
      show ?thesis unfolding rt unlink_def using il n(1,3,5) False r qn y t re
        by (auto simp: c hand_over_def upd_def)
    qed
    then show ?thesis using us(2) [OF c qn] by blast
  qed
qed

text \<open>The way to the first node of a subtree.\<close>

fun first_ctx :: "frame list \<Rightarrow> addr tree \<Rightarrow> frame list \<times> addr tree" where
  "first_ctx c \<langle>\<rangle> = (c, \<langle>\<rangle>)"
| "first_ctx c \<langle>l, p, r\<rangle> = (if l = \<langle>\<rangle> then (c, \<langle>l, p, r\<rangle>) else first_ctx ((True, p, r) # c) l)"

definition all_left :: "frame list \<Rightarrow> bool" where
  "all_left c \<longleftrightarrow> (\<forall>(b, p, s) \<in> set c. b)"

lemma first_ctx_props:
  assumes "first_ctx c t = (c', t')" "t \<noteq> \<langle>\<rangle>" "all_left c"
  shows "plug c' t' = plug c t \<and> all_left c' \<and> (\<exists>x xr. t' = \<langle>\<langle>\<rangle>, x, xr\<rangle>)"
  using assms by (induction c t rule: first_ctx.induct) (auto simp: all_left_def split: if_splits)

lemma plug_append: "plug (a @ b) t = plug b (plug a t)"
  by (induction a t rule: plug.induct) auto

fun parent_of :: "frame list \<Rightarrow> addr \<Rightarrow> addr" where
  "parent_of [] p = p"
| "parent_of ((b, q, s) # c) p = q"

lemma find_next_ctx:
  assumes "rep m lo t hi" "root_of t = Some a" "first_ctx ds t = (ds', \<langle>\<langle>\<rangle>, x, xr\<rangle>)" "base + length ds + height t \<le> MAX_HEIGHT + 1"
  shows "find_next m base a (parent_of ds p) (map (\<lambda>(b, p, s). Some p) ds) =
    Some (x, parent_of ds' p, map (\<lambda>(b, p, s). Some p) ds')"
  using assms
proof (induction t arbitrary: lo hi a ds)
  case (Node l q r)
  obtain n where n: "m q = Some n" "nd_left n = link lo l" "nd_left_child n = (l \<noteq> \<langle>\<rangle>)" using Node.prems(1) by (auto simp: node_ok_def)
  show ?case
  proof (cases "l = \<langle>\<rangle>")
    case True
    then show ?thesis using Node.prems(2,3) n by (subst find_next.simps) auto
  next
    case False
    then obtain b where b: "root_of l = Some b" "nd_left n = Some b" using n(2) by (cases l) auto
    have "height l > 0" using False by (cases l) auto
    then have "base + length ds < MAX_HEIGHT" using Node.prems(4) by auto
    moreover have "find_next m base b (parent_of ((True, q, r) # ds) p) (map (\<lambda>(b, p, s). Some p) ((True, q, r) # ds)) =
        Some (x, parent_of ds' p, map (\<lambda>(b, p, s). Some p) ds')"
      using Node.prems False by (intro Node.IH(1) [OF _ b(1)]) auto
    ultimately show ?thesis using Node.prems(2) n(1,3) b(2) False by (subst find_next.simps) auto
  qed
qed simp

text \<open>Redirecting the thread at the right end of a subtree.\<close>

lemma rightmost_rethread:
  assumes "rep m lo t hi" "root_of t = Some a" "distinct (inorder t)"
  shows "\<exists>z n. rightmost m a = Some z \<and> z \<in> set_tree t \<and> m z = Some n \<and> rep (m(z \<mapsto> n\<lparr>nd_right := hi'\<rparr>)) lo t hi'"
  using assms
proof (induction t arbitrary: lo a)
  case (Node l q r)
  obtain n where n: "m q = Some n" "nd_right n = link hi r" "nd_right_child n = (r \<noteq> \<langle>\<rangle>)" using Node.prems(1) by (auto simp: node_ok_def)
  have d: "q \<notin> set_tree l" "q \<notin> set_tree r" "set_tree l \<inter> set_tree r = {}" "distinct (inorder r)" using Node.prems(3) by auto
  show ?case
  proof (cases "r = \<langle>\<rangle>")
    case True
    have "rep (m(q \<mapsto> n\<lparr>nd_right := hi'\<rparr>)) lo \<langle>l, q, r\<rangle> hi'" using Node.prems(1) n d True by (auto simp: node_ok_def)
    moreover have "rightmost m q = Some q" using n True by (subst rightmost.simps) simp
    ultimately show ?thesis using Node.prems(2) n(1) by (intro exI [of _ q] exI [of _ n]) (simp del: rep.simps fun_upd_apply)
  next
    case False
    then obtain b where b: "root_of r = Some b" "nd_right n = Some b" using n(2) by (cases r) auto
    obtain z zn where z: "rightmost m b = Some z" "z \<in> set_tree r" "m z = Some zn" "rep (m(z \<mapsto> zn\<lparr>nd_right := hi'\<rparr>)) (Some q) r hi'"
      using Node.IH(2) [of "Some q", OF _ b(1) d(4)] Node.prems(1) unfolding rep.simps by blast
    have "z \<noteq> q" "z \<notin> set_tree l" using z(2) d by auto
    moreover have "link hi' r = link hi r" using False by (cases r) auto
    ultimately have "rep (m(z \<mapsto> zn\<lparr>nd_right := hi'\<rparr>)) lo \<langle>l, q, r\<rangle> hi'" using Node.prems(1) z(4) by (auto simp: node_ok_def)
    moreover have "rightmost m q = Some z" using n(1,3) b(2) z(1) False by (subst rightmost.simps) simp
    ultimately show ?thesis using Node.prems(2) z(2,3) by (intro exI [of _ z] exI [of _ zn]) (simp del: rep.simps fun_upd_apply)
  qed
qed simp

lemma ctx_swap:
  assumes "ctx_rep m d q True (ds @ (False, p, l) # c)" "all_left ds" "\<And>a. a \<in> ctx_set ds \<Longrightarrow> m' a = m a"
    and "\<And>d q. ctx_rep m d q True ((False, p, l) # c) \<Longrightarrow> ctx_rep m' d q True ((False, x, l) # c)"
  shows "ctx_rep m' d q True (ds @ (False, x, l) # c)"
  using assms(1-3)
proof (induction ds arbitrary: d q)
  case Nil
  show ?case using assms(4) [OF Nil.prems(1) [unfolded append_Nil]] by (simp only: append_Nil)
next
  case (Cons f ds)
  obtain e s where f: "f = (True, e, s)" using Cons.prems(2) by (cases f) (auto simp: all_left_def)
  have hi: "hi_of (ds @ (False, x, l) # c) = hi_of (ds @ (False, p, l) # c)"
    using Cons.prems(2) by (cases ds) (auto simp: all_left_def)
  have "rep m' lo s hi = rep m lo s hi" for lo hi using Cons.prems(3) by (intro rep_cong) (auto simp: f)
  moreover have "m' e = m e" using Cons.prems(3) by (simp add: f)
  ultimately have "frame_ok m' d q True f (lo_of (ds @ (False, x, l) # c)) (hi_of (ds @ (False, x, l) # c))"
    using Cons.prems(1) hi by (auto simp: f frame_ok_def)
  then show ?case using Cons by (auto simp: f all_left_def)
qed

lemma avl_ctx_swap: "avl_ctx d (ds @ (False, p, l) # c) = avl_ctx d (ds @ (False, x, l) # c)"
  by (induction d ds rule: avl_ctx.induct) auto

lemma lo_hi_left:
  assumes "all_left ds"
  shows "lo_of (ds @ (False, x, l) # c) = Some x" "hi_of (ds @ (False, x, l) # c) = hi_of (ds @ (False, p, l) # c)"
  using assms by (induction ds) (auto simp: all_left_def)

lemma before_behind_append: "before (a @ b) = before b @ before a" "behind (a @ b) = behind a @ behind b"
  by (induction a) auto

lemma ctx_set_append: "ctx_set (a @ b) = ctx_set a \<union> ctx_set b"
  by (auto simp: ctx_set_def before_behind_append)

lemma before_left: "all_left ds \<Longrightarrow> before ds = []"
  by (induction ds) (auto simp: all_left_def)

text \<open>A node with two children is replaced by the node after it. First the memory when that node is the child \<open>x\<close>
  itself, then when it is further down.\<close>

lemma set_child_ctx:
  assumes "ctx_rep m d (Some p) True c" "distinct (inorder (plug c t))" "\<forall>b q s c'. c = (b, q, s) # c' \<longrightarrow> bl = b"
  shows "\<exists>m'. set_child m root (hd (path_of c)) bl x = Some (m', if c = [] then Some x else root) \<and>
    (\<forall>d. ctx_rep m d (Some p) True c \<longrightarrow> ctx_rep m' d (Some x) True c) \<and>
    payload m' = payload m \<and> same_outside (ctx_set c) m m'"
proof (cases c)
  case Nil
  then show ?thesis by (simp add: set_child_def)
next
  case (Cons f c')
  then obtain b q s where c: "c = (b, q, s) # c'" by (cases f) auto
  note df = distinct_frame [OF assms(2) [unfolded c]]
  obtain n where n: "m q = Some n" using assms(1) by (auto simp: c frame_ok_def)
  let ?m = "m(q \<mapsto> if b then n\<lparr>nd_left := Some x\<rparr> else n\<lparr>nd_right := Some x\<rparr>)"
  have "ctx_rep ?m d (Some x) True c" if "ctx_rep m d (Some p) True c" for d
    using ctx_rep_hole [OF that [unfolded c] n df(2,3)] by (simp add: c)
  moreover have "set_child m root (Some q) bl x = Some (?m, root)" using n assms(3) c by (simp add: set_child_def upd_def)
  moreover have "payload ?m = payload m" using n by (auto simp: payload_def fun_eq_iff)
  ultimately show ?thesis by (auto simp: c same_outside_def)
qed

lemma is_left_hd:
  assumes "ctx_rep m d (Some a) True c" "distinct (inorder (plug c t))" "a \<in> set_tree t"
  shows "\<exists>bl. is_left_of m (hd (path_of c)) a = Some bl \<and> (\<forall>b q s c'. c = (b, q, s) # c' \<longrightarrow> bl = b)"
proof (cases c)
  case Nil
  then show ?thesis by (auto simp: is_left_of_def)
next
  case (Cons f c')
  then obtain b q s where c: "c = (b, q, s) # c'" by (cases f) auto
  note df = distinct_frame [OF assms(2) [unfolded c]]
  have "is_left_of m (Some q) a = Some b" using is_left_of_ctx [OF assms(1) [unfolded c]] df assms(3) by auto
  then show ?thesis by (simp add: c)
qed

text \<open>The fields the replacing node takes over from the removed one.\<close>

definition heir :: "('k, 'v) avl_node \<Rightarrow> ('k, 'v) avl_node \<Rightarrow> ('k, 'v) avl_node" where
  "heir n x = x\<lparr>nd_left_child := True, nd_left := nd_left n, nd_balance := nd_balance n\<rparr>"

lemma unlink_inner_near:
  assumes "rep m None (plug c \<langle>l, p, \<langle>\<langle>\<rangle>, x, xr\<rangle>\<rangle>) None" "distinct (inorder (plug c \<langle>l, p, \<langle>\<langle>\<rangle>, x, xr\<rangle>\<rangle>))" "l \<noteq> \<langle>\<rangle>"
    and "base + 1 \<le> MAX_HEIGHT" "\<forall>b q s c'. c = (b, q, s) # c' \<longrightarrow> bl = b"
  shows "\<exists>m1. unlink_inner m (root_of (plug c \<langle>l, p, \<langle>\<langle>\<rangle>, x, xr\<rangle>\<rangle>)) (hd (path_of c)) bl p base =
      Some (m1, root_of (plug c \<langle>l, x, xr\<rangle>), [Some x]) \<and> rep m1 (lo_of c) \<langle>l, x, xr\<rangle> (hi_of c) \<and>
    ctx_rep m1 (height \<langle>l, p, \<langle>\<langle>\<rangle>, x, xr\<rangle>\<rangle>) (Some x) True c \<and> payload m1 = payload m \<and>
    same_outside (set_tree (plug c \<langle>l, p, \<langle>\<langle>\<rangle>, x, xr\<rangle>\<rangle>)) m m1"
proof -
  let ?t = "\<langle>l, p, \<langle>\<langle>\<rangle>, x, xr\<rangle>\<rangle>"
  have rp: "rep m (lo_of c) ?t (hi_of c)" "ctx_rep m (height ?t) (Some p) True c" using assms(1) rep_plug [of m c ?t] by auto
  have dp: "set_tree ?t \<inter> ctx_set c = {}" "distinct (inorder ?t)" using distinct_plug [OF assms(2)] by auto
  obtain n xn a where n: "m p = Some n" "nd_left n = Some a" "root_of l = Some a" "nd_right n = Some x" "m x = Some xn"
    "nd_left_child xn = False" "nd_balance n = 1 + int (height xr) - int (height l)" "nd_right xn = link (hi_of c) xr"
    "nd_right_child xn = (xr \<noteq> \<langle>\<rangle>)" using rp(1) assms(3) by (cases l) (auto simp: node_ok_def)
  have ds: "p \<noteq> x" "p \<notin> set_tree l" "x \<notin> set_tree l" "p \<notin> set_tree xr" "x \<notin> set_tree xr" "distinct (inorder l)" "set_tree l \<inter> set_tree xr = {}"
    "p \<notin> ctx_set c" "x \<notin> ctx_set c" "set_tree l \<inter> ctx_set c = {}" "set_tree xr \<inter> ctx_set c = {}"
    using dp by auto
  let ?n = "n\<lparr>nd_balance := nd_balance n - 1\<rparr>"
  let ?m1 = "m(p \<mapsto> ?n)"
  have l1: "rep ?m1 (lo_of c) l (Some p)" using rp(1) ds(2) by simp
  obtain z zn where z: "rightmost ?m1 a = Some z" "z \<in> set_tree l" "?m1 z = Some zn" "rep (?m1(z \<mapsto> zn\<lparr>nd_right := Some x\<rparr>)) (lo_of c) l (Some x)"
    using rightmost_rethread [OF l1 n(3) ds(6)] by blast
  let ?m2 = "?m1(z \<mapsto> zn\<lparr>nd_right := Some x\<rparr>)"
  let ?m3 = "?m2(x \<mapsto> heir ?n xn)"
  have zs: "z \<noteq> p" "z \<noteq> x" "z \<notin> set_tree xr" "z \<notin> ctx_set c" using z(2) ds by auto
  have c3: "ctx_rep ?m3 (height ?t) (Some p) True c" using rp(2) ds zs by simp
  obtain m4 where m4: "set_child ?m3 (root_of (plug c ?t)) (hd (path_of c)) bl x = Some (m4, if c = [] then Some x else root_of (plug c ?t))"
    "ctx_rep m4 (height ?t) (Some x) True c" "payload m4 = payload ?m3" "same_outside (ctx_set c) ?m3 m4"
    using set_child_ctx [OF c3 assms(2,5), where root = "root_of (plug c ?t)" and x = x] c3 by blast
  have rt: "(if c = [] then Some x else root_of (plug c ?t)) = root_of (plug c \<langle>l, x, xr\<rangle>)" using root_plug [of c ?t "\<langle>l, x, xr\<rangle>"] by simp
  have "find_next m (base + 1) x p [] = Some (x, p, [])" using n(5,6) by (subst find_next.simps) simp
  then have e: "unlink_inner m (root_of (plug c ?t)) (hd (path_of c)) bl p base = Some (m4, root_of (plug c \<langle>l, x, xr\<rangle>), [Some x])"
    using assms(4) n(1,2,4,5) z(1,3) zs m4(1) ds(1) rt
    by (simp add: unlink_inner_def upd_def heir_def)
  have "rep ?m3 (lo_of c) \<langle>l, x, xr\<rangle> (hi_of c)"
    using z(4) rp(1) n ds zs assms(3) by (auto simp: node_ok_def heir_def neq_Leaf_iff)
  moreover have "ctx_set c \<inter> set_tree \<langle>l, x, xr\<rangle> = {}" using ds by auto
  ultimately have "rep m4 (lo_of c) \<langle>l, x, xr\<rangle> (hi_of c)" using same_outside_rep [OF m4(4)] by blast
  moreover have "payload m4 = payload m" using m4(3) n(1,5) z(3) zs ds(1) by (auto simp: payload_def fun_eq_iff heir_def)
  moreover have "same_outside (set_tree (plug c ?t)) m m4" using m4(4) z(2) by (auto simp: same_outside_def set_plug)
  ultimately show ?thesis using e m4(2) by blast
qed

lemma unlink_inner_far:
  assumes T: "T = plug ((True, q, s) # ds @ (False, p, l) # c) \<langle>\<langle>\<rangle>, x, xr\<rangle>" and left: "all_left ds"
    and "rep m None T None" "distinct (inorder T)" "l \<noteq> \<langle>\<rangle>" "r = plug ((True, q, s) # ds) \<langle>\<langle>\<rangle>, x, xr\<rangle>" "root_of r = Some rr"
    and "base + 1 \<le> MAX_HEIGHT" "\<forall>b q s c'. c = (b, q, s) # c' \<longrightarrow> bl = b"
    and "find_next m (base + 1) rr p [] = Some (x, q, path)"
  shows "\<exists>m1. unlink_inner m (root_of T) (hd (path_of c)) bl p base =
      Some (m1, root_of (plug (ds @ (False, x, l) # c) \<langle>xr, q, s\<rangle>), path @ [Some x]) \<and>
    rep m1 (Some x) \<langle>xr, q, s\<rangle> (hi_of (ds @ (False, x, l) # c)) \<and>
    ctx_rep m1 (max (height xr + 1) (height s) + 1) (Some q) True (ds @ (False, x, l) # c) \<and>
    payload m1 = payload m \<and> same_outside (set_tree T) m m1"
proof -
  let ?C = "ds @ (False, p, l) # c" and ?X = "\<langle>\<langle>\<rangle>, x, xr\<rangle>" and ?D = "ds @ (False, x, l) # c"
  have T2: "T = plug c \<langle>l, p, r\<rangle>" using T assms(6) by (simp add: plug_append)
  have rp: "rep m (lo_of ((True, q, s) # ?C)) ?X (hi_of ((True, q, s) # ?C))" "ctx_rep m (height ?X) (Some x) True ((True, q, s) # ?C)"
    using assms(3) unfolding T rep_plug by simp_all
  have rp2: "rep m (lo_of c) \<langle>l, p, r\<rangle> (hi_of c)" "ctx_rep m (height \<langle>l, p, r\<rangle>) (Some p) True c"
    using assms(3) unfolding T2 rep_plug by simp_all
  have io: "inorder T = before c @ inorder l @ p # x # inorder xr @ q # inorder s @ behind ds @ behind c"
    using before_left [OF left] unfolding T inorder_plug by (simp add: before_behind_append)
  have cs: "ctx_set ds = set (behind ds)" by (simp add: ctx_set_def before_left [OF left])
  have d: "distinct [p, x, q]" "p \<notin> set_tree l" "x \<notin> set_tree l" "q \<notin> set_tree l" "p \<notin> set_tree xr" "x \<notin> set_tree xr" "q \<notin> set_tree xr"
    "p \<notin> set_tree s" "x \<notin> set_tree s" "q \<notin> set_tree s" "p \<notin> ctx_set ds" "x \<notin> ctx_set ds" "q \<notin> ctx_set ds"
    "p \<notin> ctx_set c" "x \<notin> ctx_set c" "q \<notin> ctx_set c" "distinct (inorder l)" "set_tree l \<inter> set_tree xr = {}" "set_tree l \<inter> set_tree s = {}"
    "set_tree l \<inter> ctx_set ds = {}" "set_tree l \<inter> ctx_set c = {}" "set_tree xr \<inter> ctx_set c = {}" "set_tree s \<inter> ctx_set c = {}"
    "ctx_set ds \<inter> ctx_set c = {}"
    using assms(4) unfolding io cs by (auto simp: ctx_set_def)
  have st: "set_tree T = ctx_set c \<union> set_tree l \<union> {p, x, q} \<union> set_tree xr \<union> set_tree s \<union> ctx_set ds"
    unfolding set_inorder [symmetric] io cs by (auto simp: ctx_set_def)
  obtain n a where n: "m p = Some n" "nd_left n = Some a" "root_of l = Some a" "nd_right n = Some rr" "nd_left_child n" "nd_right_child n"
    using rp2(1) assms(5,7) by (cases l; cases r) (auto simp: node_ok_def)
  obtain xn where xn: "m x = Some xn" "nd_right xn = link (Some q) xr" "nd_right_child xn = (xr \<noteq> \<langle>\<rangle>)"
    using rp(1) by (auto simp: node_ok_def)
  obtain qn where qn: "m q = Some qn" "nd_balance qn = int (height s) - int (height xr + 1)" "nd_left qn = Some x" "nd_left_child qn"
    "nd_right qn = link (hi_of ?C) s" "nd_right_child qn = (s \<noteq> \<langle>\<rangle>)" using rp(2) by (auto simp: frame_ok_def)
  let ?q = "refilled True (link (Some x) xr) (xr \<noteq> \<langle>\<rangle>) qn" and ?x = "xn\<lparr>nd_right_child := True, nd_right := Some rr\<rparr>"
  let ?m2 = "m(q \<mapsto> ?q, x \<mapsto> ?x)"
  have l2: "rep ?m2 (lo_of c) l (Some p)" using rp2(1) d by simp
  obtain z zn where z: "rightmost ?m2 a = Some z" "z \<in> set_tree l" "?m2 z = Some zn" "rep (?m2(z \<mapsto> zn\<lparr>nd_right := Some x\<rparr>)) (lo_of c) l (Some x)"
    using rightmost_rethread [OF l2 n(3) d(17)] by blast
  let ?m4 = "?m2(z \<mapsto> zn\<lparr>nd_right := Some x\<rparr>, x \<mapsto> heir n ?x)"
  have zs: "z \<noteq> p" "z \<noteq> x" "z \<noteq> q" "z \<notin> set_tree xr" "z \<notin> set_tree s" "z \<notin> ctx_set ds" "z \<notin> ctx_set c" using z(2) d by auto
  have c4: "ctx_rep ?m4 e (Some p) True c = ctx_rep m e (Some p) True c" for e using d zs by simp
  obtain m5 where m5: "set_child ?m4 (root_of T) (hd (path_of c)) bl x = Some (m5, if c = [] then Some x else root_of T)"
    "\<forall>e. ctx_rep m e (Some p) True c \<longrightarrow> ctx_rep m5 e (Some x) True c" "payload m5 = payload ?m4" "same_outside (ctx_set c) ?m4 m5"
    using set_child_ctx [of ?m4 _ p c "\<langle>l, p, r\<rangle>" bl, unfolded c4, OF rp2(2) _ assms(9), where root = "root_of T" and x = x]
      assms(4) unfolding T2 by blast
  have rt: "(if c = [] then Some x else root_of T) = root_of (plug ?D \<langle>xr, q, s\<rangle>)"
    using root_plug [of c "\<langle>l, p, r\<rangle>" "\<langle>l, x, plug ds \<langle>xr, q, s\<rangle>\<rangle>"] unfolding T2 by (simp add: plug_append)
  have qu: "(if nd_right_child xn then qn\<lparr>nd_left := nd_right xn\<rparr> else qn\<lparr>nd_left_child := False\<rparr>)
      \<lparr>nd_balance := nd_balance (if nd_right_child xn then qn\<lparr>nd_left := nd_right xn\<rparr> else qn\<lparr>nd_left_child := False\<rparr>) + 1\<rparr> = ?q"
    using xn qn by (cases xr) (auto simp: refilled_def intro!: avl_node.equality)
  have e: "unlink_inner m (root_of T) (hd (path_of c)) bl p base = Some (m5, root_of (plug ?D \<langle>xr, q, s\<rangle>), path @ [Some x])"
    using assms(8,10) n(1,2,4) xn(1) qn(1) z(1,3) zs m5(1) d(1) rt qu
    by (simp add: unlink_inner_def upd_def heir_def)
  have m5d: "m5 y = ?m4 y" if "y \<notin> ctx_set c" for y using m5(4) that by (simp add: same_outside_def)
  have same: "m5 y = m y" if "y \<notin> ctx_set c" "y \<noteq> q" "y \<noteq> x" "y \<noteq> z" for y using m5d [OF that(1)] that by simp
  have q5: "m5 q = Some ?q" "m5 x = Some (heir n ?x)" using m5d d zs by auto
  have "rep m5 (Some x) xr (Some q)"
    using rp(1) rep_cong [of xr m5 m] same d zs by (metis (no_types, lifting) IntI empty_iff hi_of.simps(2) rep.simps(2))
  moreover have "rep m5 (Some q) s (hi_of ?C)"
    using rp(2) rep_cong [of s m5 m] same d zs by (auto simp: frame_ok_def) (metis IntI empty_iff)
  ultimately have r5: "rep m5 (Some x) \<langle>xr, q, s\<rangle> (hi_of ?D)"
    using q5(1) qn lo_hi_left(2) [OF left, of x l c p] by (auto simp: node_ok_def refilled_def)
  have l5: "rep m5 (lo_of c) l (Some x)"
  proof -
    have "rep m5 (lo_of c) l (Some x) = rep (?m2(z \<mapsto> zn\<lparr>nd_right := Some x\<rparr>)) (lo_of c) l (Some x)"
    proof (rule rep_cong)
      fix y assume "y \<in> set_tree l"
      then have y: "y \<notin> ctx_set c" "y \<noteq> x" using d(3,21) by auto
      show "m5 y = (?m2(z \<mapsto> zn\<lparr>nd_right := Some x\<rparr>)) y" using m5d [OF y(1)] y(2) by simp
    qed
    with z(4) show ?thesis by simp
  qed
  have "ctx_rep m5 (max (height xr + 1) (height s) + 1) (Some q) True ?D"
  proof (rule ctx_swap [OF _ left])
    show "ctx_rep m (max (height xr + 1) (height s) + 1) (Some q) True ?C" using rp(2) by simp
    show "m5 y = m y" if "y \<in> ctx_set ds" for y
    proof (rule same)
      show "y \<notin> ctx_set c" "y \<noteq> q" "y \<noteq> x" "y \<noteq> z" using that d(12,13,24) zs(6) by auto
    qed
    show "ctx_rep m5 e y True ((False, x, l) # c)" if "ctx_rep m e y True ((False, p, l) # c)" for e y
      using that n l5 q5(2) m5(2) by (auto simp: frame_ok_def heir_def)
  qed
  moreover have "payload m5 = payload m" using m5(3) n(1) xn(1) qn(1) z(3) zs d(1) by (auto simp: payload_def fun_eq_iff heir_def refilled_def)
  moreover have "same_outside (set_tree T) m m5" using m5(4) z(2) unfolding st by (auto simp: same_outside_def)
  ultimately show ?thesis using e r5 by blast
qed

lemma unlink_both:
  assumes "rep m None (plug c \<langle>l, p, r\<rangle>) None" "avl_bal (plug c \<langle>l, p, r\<rangle>)" "distinct (inorder (plug c \<langle>l, p, r\<rangle>))"
    and "l \<noteq> \<langle>\<rangle>" "r \<noteq> \<langle>\<rangle>" "length c + height \<langle>l, p, r\<rangle> \<le> MAX_HEIGHT"
  shows "\<exists>m1 root path. unlink m (root_of (plug c \<langle>l, p, r\<rangle>)) p (path_of c) = Some (m1, root, path) \<and>
    unlinked m (plug c \<langle>l, p, r\<rangle>) p m1 root path"
proof -
  let ?t = "\<langle>l, p, r\<rangle>" and ?T = "plug c \<langle>l, p, r\<rangle>"
  have rp: "rep m (lo_of c) ?t (hi_of c)" "ctx_rep m (height ?t) (Some p) True c" using assms(1) rep_plug [of m c ?t] by auto
  obtain bl where bl: "is_left_of m (hd (path_of c)) p = Some bl" "\<forall>b q s c'. c = (b, q, s) # c' \<longrightarrow> bl = b"
    using is_left_hd [OF rp(2) assms(3)] by auto
  obtain n where n: "m p = Some n" "nd_left_child n" "nd_right_child n" using rp(1) assms(4,5) by (auto simp: node_ok_def)
  obtain h0 h1 where pc: "path_of c = h0 # h1" by (cases "path_of c") (auto simp: path_of_def)
  have un: "unlink m (root_of ?T) p (path_of c) =
      map_option (\<lambda>(m, root, ds). (m, root, ds @ path_of c)) (unlink_inner m (root_of ?T) (hd (path_of c)) bl p (length (path_of c)))"
    using bl(1) n by (cases "unlink_inner m (root_of ?T) (hd (path_of c)) bl p (length (path_of c))") (auto simp: unlink_def pc)
  have len: "length (path_of c) = length c + 1" by (simp add: path_of_def)
  have hr: "height r > 0" "height l > 0" using assms(4,5) by (auto simp: neq_Leaf_iff)
  then have base: "length (path_of c) + 1 \<le> MAX_HEIGHT" using assms(6) len by auto
  obtain ds0 x xr where fc: "first_ctx [] r = (ds0, \<langle>\<langle>\<rangle>, x, xr\<rangle>)" "plug ds0 \<langle>\<langle>\<rangle>, x, xr\<rangle> = r" "all_left ds0"
    using first_ctx_props [of "[]" r] assms(5) by (cases "first_ctx [] r") (auto simp: all_left_def)
  obtain rr where rr: "root_of r = Some rr" using assms(5) by (cases r) auto
  have fn: "find_next m (length (path_of c) + 1) rr p [] = Some (x, parent_of ds0 p, map (\<lambda>(b, p, s). Some p) ds0)"
    using find_next_ctx [OF _ rr fc(1), of m "Some p" "hi_of c" "length (path_of c) + 1" p] rp(1) assms(6) len by simp
  have io: "remove1 p (inorder ?T) = before c @ inorder l @ inorder r @ behind c"
    using assms(3) remove1_middle [of p "before c @ inorder l" "inorder r @ behind c"] by (auto simp: inorder_plug)
  have av: "avl_ctx (height ?t) c" "avl_bal ?t" using assms(2) avl_plug by auto
  show ?thesis
  proof (cases ds0)
    case Nil
    then have r: "r = \<langle>\<langle>\<rangle>, x, xr\<rangle>" using fc(2) by simp
    obtain m1 where m1: "unlink_inner m (root_of ?T) (hd (path_of c)) bl p (length (path_of c)) = Some (m1, root_of (plug c \<langle>l, x, xr\<rangle>), [Some x])"
      "rep m1 (lo_of c) \<langle>l, x, xr\<rangle> (hi_of c)" "ctx_rep m1 (height ?t) (Some x) True c" "payload m1 = payload m" "same_outside (set_tree ?T) m m1"
      using unlink_inner_near [OF assms(1,3) [unfolded r] assms(4) base bl(2)] unfolding r by blast
    have sh: "shrunk (height ?t) \<langle>l, x, xr\<rangle>"
      using shrunk_frame [of xr "height r" l False x] av(2) by (auto simp: r max.commute)
    have "unlinked m ?T p m1 (root_of (plug c \<langle>l, x, xr\<rangle>)) (Some x # path_of c)"
      unfolding unlinked_def using m1 sh av(1)
      by (intro conjI disjI2 exI [of _ x] exI [of _ c] exI [of _ "\<langle>l, x, xr\<rangle>"] exI [of _ "height ?t"]) (simp_all add: io, simp add: inorder_plug r)
    then show ?thesis using un m1(1) by simp
  next
    case (Cons f ds)
    then obtain q s where ds0: "ds0 = (True, q, s) # ds" and left: "all_left ds" using fc(3) by (cases f) (auto simp: all_left_def)
    let ?C = "(True, q, s) # ds @ (False, p, l) # c" and ?D = "ds @ (False, x, l) # c"
    have T: "?T = plug ?C \<langle>\<langle>\<rangle>, x, xr\<rangle>" using fc(2) by (simp add: ds0 plug_append)
    have r: "r = plug ((True, q, s) # ds) \<langle>\<langle>\<rangle>, x, xr\<rangle>" using fc(2) by (simp add: ds0)
    obtain m1 where m1: "unlink_inner m (root_of ?T) (hd (path_of c)) bl p (length (path_of c)) =
        Some (m1, root_of (plug ?D \<langle>xr, q, s\<rangle>), map (\<lambda>(b, p, s). Some p) ds0 @ [Some x])"
      "rep m1 (Some x) \<langle>xr, q, s\<rangle> (hi_of ?D)" "ctx_rep m1 (max (height xr + 1) (height s) + 1) (Some q) True ?D" "payload m1 = payload m"
      "same_outside (set_tree ?T) m m1"
      using unlink_inner_far [OF T left assms(1,3,4) r rr base bl(2)] fn by (auto simp: ds0)
    have "avl_ctx (height xr + 1) ?C \<and> avl_bal \<langle>\<langle>\<rangle>, x, xr\<rangle>" using assms(2) unfolding T avl_plug by simp
    then have sh: "shrunk (max (height xr + 1) (height s) + 1) \<langle>xr, q, s\<rangle>" "avl_ctx (max (height xr + 1) (height s) + 1) ?D"
      using shrunk_frame [of xr "height xr + 1" s True q] avl_ctx_swap [of _ ds p l c x] by simp_all
    have pa: "map (\<lambda>(b, p, s). Some p) ds0 @ [Some x] @ path_of c = Some q # path_of ?D" by (simp add: ds0 path_of_def)
    have ri: "inorder r = x # inorder xr @ q # inorder s @ behind ds" unfolding r inorder_plug by (simp add: before_left [OF left])
    have "inorder (plug ?D \<langle>xr, q, s\<rangle>) = before c @ inorder l @ x # inorder xr @ q # inorder s @ behind ds @ behind c"
      unfolding inorder_plug using before_left [OF left] by (simp add: before_behind_append)
    then have "inorder (plug ?D \<langle>xr, q, s\<rangle>) = remove1 p (inorder ?T)" unfolding io ri by simp
    then have "unlinked m ?T p m1 (root_of (plug ?D \<langle>xr, q, s\<rangle>)) (Some q # path_of ?D)"
      unfolding unlinked_def using m1 sh lo_hi_left(1) [OF left, of x l c]
      by (intro conjI disjI2 exI [of _ q] exI [of _ ?D] exI [of _ "\<langle>xr, q, s\<rangle>"] exI [of _ "max (height xr + 1) (height s) + 1"])
        (simp_all del: plug.simps)
    then show ?thesis using un m1(1) pa by simp
  qed
qed

lemma unlink_rep:
  assumes "rep m None (plug c \<langle>l, p, r\<rangle>) None" "avl_bal (plug c \<langle>l, p, r\<rangle>)" "distinct (inorder (plug c \<langle>l, p, r\<rangle>))"
    and "length c + height \<langle>l, p, r\<rangle> \<le> MAX_HEIGHT"
  shows "\<exists>m1 root path. unlink m (root_of (plug c \<langle>l, p, r\<rangle>)) p (path_of c) = Some (m1, root, path) \<and>
    unlinked m (plug c \<langle>l, p, r\<rangle>) p m1 root path"
  using unlink_small [OF assms(1-3)] unlink_both [OF assms(1-3) _ _ assms(4)] by blast

lemma del_descend_locate:
  assumes "rep m (lo_of c) t (hi_of c)" "root_of t = Some a" "compares A m k (set_tree t) f"
    and "length c + height t \<le> MAX_HEIGHT" "locate f c t = (c', t')"
  shows "del_descend A m k a (path_of c) = Some (case t' of \<langle>\<rangle> \<Rightarrow> None | \<langle>_, p, _\<rangle> \<Rightarrow> Some (p, path_of c'))"
  using assms
proof (induction t arbitrary: c a)
  case (Node l p r)
  have a: "a = p" using Node.prems(2) by simp
  obtain n where n: "m p = Some n" "nd_left n = link (lo_of c) l" "nd_left_child n = (l \<noteq> \<langle>\<rangle>)" "nd_right n = link (hi_of c) r"
    "nd_right_child n = (r \<noteq> \<langle>\<rangle>)" using Node.prems(1) by (auto simp: node_ok_def)
  note cmp = compares_node(1) [OF Node.prems(3) n(1)] and cl = compares_node(2,3) [OF Node.prems(3)]
  have rl: "rep m (lo_of ((True, p, r) # c)) l (hi_of ((True, p, r) # c))" "rep m (lo_of ((False, p, l) # c)) r (hi_of ((False, p, l) # c))"
    using Node.prems(1) by simp_all
  have len: "length ((True, p, r) # c) + height l \<le> MAX_HEIGHT" "length ((False, p, l) # c) + height r \<le> MAX_HEIGHT"
    using Node.prems(4) by auto
  consider "f p < 0" "l = \<langle>\<rangle>" | "f p < 0" "l \<noteq> \<langle>\<rangle>" | "f p > 0" "r = \<langle>\<rangle>" | "f p > 0" "r \<noteq> \<langle>\<rangle>" | "f p = 0" by linarith
  then show ?case
  proof cases
    case 2
    then obtain b where b: "root_of l = Some b" "nd_left n = Some b" using n(2) by (cases l) auto
    have "push (path_of c) p = Some (path_of ((True, p, r) # c))" using 2 by (intro push_path [OF Node.prems(4)]) (cases l; simp)
    moreover have "locate f ((True, p, r) # c) l = (c', t')" using Node.prems(5) 2 by simp
    ultimately show ?thesis using Node.IH(1) [OF rl(1) b(1) cl(1) len(1)] 2 n(1,3) b(2) cmp
      by (simp add: a del_descend.simps [of A m k p])
  next
    case 4
    then obtain b where b: "root_of r = Some b" "nd_right n = Some b" using n(4) by (cases r) auto
    have "push (path_of c) p = Some (path_of ((False, p, l) # c))" using 4 by (intro push_path [OF Node.prems(4)]) (cases r; simp)
    moreover have "locate f ((False, p, l) # c) r = (c', t')" using Node.prems(5) 4 by simp
    ultimately show ?thesis using Node.IH(2) [OF rl(2) b(1) cl(2) len(2)] 4 n(1,5) b(2) cmp
      by (simp add: a del_descend.simps [of A m k p])
  qed (use Node.prems(5) n cmp in \<open>auto simp: a del_descend.simps [of A m k p]\<close>)
qed simp

lemma unlinked_del:
  assumes "unlinked m T p m1 root path" "distinct (inorder T)" "p \<in> set_tree T"
  shows "\<exists>m2 T2. (case hd path of None \<Rightarrow> Some (m1, root) | Some q \<Rightarrow> del_rebalance m1 root q (tl path)) = Some (m2, root_of T2) \<and>
    rep (m2(p := None)) None T2 None \<and> avl_bal T2 \<and> inorder T2 = remove1 p (inorder T) \<and> payload m2 = payload m \<and>
    same_outside (set_tree T) m m2"
proof -
  have pn: "p \<notin> set_tree T2" if "inorder T2 = remove1 p (inorder T)" for T2
    using that assms(2) by (metis set_inorder in_set_remove1 distinct_remove1 set_remove1_eq Diff_iff singletonI)
  have un: "payload m1 = payload m" "same_outside (set_tree T) m m1" using assms(1) by (simp_all add: unlinked_def)
  consider (flat) T1 where "path = [None]" "root = root_of T1" "rep m1 None T1 None" "avl_bal T1" "inorder T1 = remove1 p (inorder T)"
    | (up) q c t d where "path = Some q # path_of c" "root = root_of (plug c t)" "rep m1 (lo_of c) t (hi_of c)"
       "ctx_rep m1 d (Some q) True c" "root_of t = Some q" "shrunk d t" "avl_ctx d c" "inorder (plug c t) = remove1 p (inorder T)"
    using assms(1) unfolding unlinked_def by blast
  then show ?thesis
  proof cases
    case flat
    then show ?thesis using un pn [OF flat(5)] by (intro exI [of _ m1] exI [of _ T1]) simp
  next
    case up
    have "distinct (inorder (plug c t))" unfolding up(8) using assms(2) by simp
    then obtain m2 T2 where m2: "del_rebalance m1 root q (path_of c) = Some (m2, root_of T2)" "finished m1 (plug c t) m2 T2"
      using del_rebalance_rep [OF up(3,4,5) _ up(6,7)] up(2) by auto
    have "set_tree (plug c t) \<subseteq> set_tree T" unfolding set_inorder [symmetric] up(8) by (rule set_remove1_subset)
    then have "same_outside (set_tree T) m m2" using un(2) m2(2) by (auto simp: finished_def same_outside_def)
    then show ?thesis using m2 un(1) up(1,8) pn [of T2] by (intro exI [of _ m2] exI [of _ T2]) (simp add: finished_def)
  qed
qed

context key_order
begin

lemma generic_del:
  assumes "search_tree ord valid A m t" "call_cmp A = cmp" "valid k" "node_is_empty A = Some e" "\<not> e k" "size t < 2 ^ 32"
  shows "dict_of ord m t (ord k) = None \<Longrightarrow> http2d_avl_generic_del A m k = Some (ret_not_found, None, A, m)"
    and "dict_of ord m t (ord k) = Some v \<Longrightarrow> \<exists>p m' T. http2d_avl_generic_del A m k = Some (ret_ok, Some v, A\<lparr>avl_root := root_of T\<rparr>, m') \<and>
      search_tree ord valid (A\<lparr>avl_root := root_of T\<rparr>) m' T \<and> p \<in> set_tree t \<and> set_tree T = set_tree t - {p} \<and> m' p = None \<and>
      dict_of ord m' T = (dict_of ord m t)(ord k := None) \<and> same_outside (set_tree t) m m'"
proof -
  obtain c s where ls: "locate (sign k m) [] t = (c, s)" by fastforce
  note dl = locate_dict [OF assms(1,3) ls] and bt = locate_search [OF assms(1,3) ls]
  have st: "avl_root A = root_of t" "rep m None t None" "avl_bal t" "distinct (inorder t)" "height t \<le> MAX_HEIGHT"
    using assms(1) avl_height assms(6) sorted_distinct by (auto simp: search_tree_def)
  have desc: "del_descend A m k a [None] = Some (case s of \<langle>\<rangle> \<Rightarrow> None | \<langle>_, p, _\<rangle> \<Rightarrow> Some (p, path_of c))" if "root_of t = Some a" for a
    using del_descend_locate [of m "[]" t, OF _ that sign_compares [OF assms(1-3)] _ ls] st(2,5) by simp
  show "http2d_avl_generic_del A m k = Some (ret_not_found, None, A, m)" if "dict_of ord m t (ord k) = None"
  proof -
    have "s = \<langle>\<rangle>" using dl(2) that by (cases s) auto
    then show ?thesis using assms(4,5) st(1) desc by (cases t) (simp_all add: http2d_avl_generic_del_def)
  qed
  assume v: "dict_of ord m t (ord k) = Some v"
  then obtain l p r where s: "s = \<langle>l, p, r\<rangle>" using dl(1) by (cases s) auto
  have T: "plug c \<langle>l, p, r\<rangle> = t" using plug_locate [OF ls] s by simp
  have vp: "val_at m p = v" using dl(2) [OF s] v by simp
  have p: "p \<in> set_tree t" using set_plug [of c "\<langle>l, p, r\<rangle>"] T by auto
  then obtain n where n: "m p = Some n" using rep_mem [OF st(2)] by blast
  obtain a where a: "root_of t = Some a" using p by (cases t) auto
  have len: "length c + height \<langle>l, p, r\<rangle> \<le> MAX_HEIGHT" using locate_depth [OF ls] st(5) by (simp add: s)
  obtain m1 root path where m1: "unlink m (root_of t) p (path_of c) = Some (m1, root, path)" "unlinked m t p m1 root path"
    using unlink_rep [of m c l p r, unfolded T] st len by blast
  obtain m2 T2 where m2: "(case hd path of None \<Rightarrow> Some (m1, root) | Some q \<Rightarrow> del_rebalance m1 root q (tl path)) = Some (m2, root_of T2)"
    "rep (m2(p := None)) None T2 None" "avl_bal T2" "inorder T2 = remove1 p (inorder t)" "payload m2 = payload m" "same_outside (set_tree t) m m2"
    using unlinked_del [OF m1(2) st(4) p] by blast
  let ?m = "m2(p := None)" and ?K = "\<lambda>q. ord (key_at m q)"
  have del: "http2d_avl_generic_del A m k = Some (ret_ok, Some v, A\<lparr>avl_root := root_of T2\<rparr>, ?m)"
    using assms(4,5) st(1) a desc [OF a] n m1(1) m2(1) vp by (simp add: http2d_avl_generic_del_def s)
  have io: "inorder t = before c @ inorder l @ p # inorder r @ behind c" using inorder_plug [of c "\<langle>l, p, r\<rangle>"] T by simp
  have io2: "inorder T2 = (before c @ inorder l) @ inorder r @ behind c"
    using m2(4) st(4) remove1_middle [of p "before c @ inorder l" "inorder r @ behind c"] by (simp add: io)
  have set: "set_tree T2 = set_tree t - {p}" unfolding set_inorder [symmetric] m2(4) using set_remove1_eq [OF st(4)] by simp
  have kv: "key_at ?m q = key_at m q" "val_at ?m q = val_at m q" if "q \<in> set_tree T2" for q
    using that set m2(5) by (auto simp: key_at_def val_at_def payload_def fun_eq_iff)
  have e1: "map (\<lambda>p. ord (key_at ?m p)) (inorder T2) = map ?K (inorder T2)" using kv by simp
  have so: "sorted_wrt (<) (map ?K (inorder t))" using assms(1) by (simp add: search_tree_def)
  then have dK: "distinct (map ?K (inorder t))" using strict_sorted_iff by blast
  have "sorted_wrt (<) (map ?K (inorder T2))" using so unfolding io io2 by (auto simp: sorted_wrt_append)
  then have "search_tree ord valid (A\<lparr>avl_root := root_of T2\<rparr>) ?m T2"
    using m2(2,3) assms(1) set kv unfolding search_tree_def e1 by simp
  moreover have "dict_of ord ?m T2 = (dict_of ord m t)(ord k := None)"
  proof -
    let ?f = "\<lambda>p. (?K p, val_at m p)"
    have k: "?K p = ord k" by (rule bt(2) [OF s])
    let ?xs = "map ?f (before c @ inorder l)" and ?ys = "map ?f (inorder r @ behind c)"
    have out: "ord k \<notin> fst ` set ?xs" "ord k \<notin> fst ` set ?ys" using dK unfolding io k [symmetric] by auto
    have "map ?f (inorder t) = ?xs @ (ord k, v) # ?ys" "map ?f (inorder T2) = ?xs @ ?ys" by (simp_all add: io io2 k vp)
    then have "map_of (map ?f (inorder t)) = (map_of (map ?f (inorder T2)))(ord k \<mapsto> v)" "map_of (map ?f (inorder T2)) (ord k) = None"
      using map_of_insert [OF out(1)] out by (simp_all only: map_of_eq_None_iff set_append image_Un Un_iff) blast+
    moreover have "dict_of ord ?m T2 = dict_of ord m T2" using kv by (intro dict_cong) simp
    ultimately show ?thesis by (auto simp: dict_of_def fun_eq_iff)
  qed
  moreover have "same_outside (set_tree t) m ?m" using m2(6) p by (auto simp: same_outside_def)
  ultimately show "\<exists>p m' T. http2d_avl_generic_del A m k = Some (ret_ok, Some v, A\<lparr>avl_root := root_of T\<rparr>, m') \<and>
      search_tree ord valid (A\<lparr>avl_root := root_of T\<rparr>) m' T \<and> p \<in> set_tree t \<and> set_tree T = set_tree t - {p} \<and> m' p = None \<and>
      dict_of ord m' T = (dict_of ord m t)(ord k := None) \<and> same_outside (set_tree t) m m'"
    using del p set by (intro exI [of _ p] exI [of _ ?m] exI [of _ T2]) simp
qed

end

end
