(* ===== verification/Avl_Dict.thy ===== *)
theory Avl_Dict
  imports Avl Avl_Delete "HOL-Library.List_Lexorder" "HOL-Library.Product_Lexorder"
begin

text \<open>
  What the trees of \<^verbatim>\<open>src/src/avl.c\<close> promise: they are dictionaries from texts to values. Under the order of the lengths
  first and the bytes second (\<open>key_ord\<close>) the interpretation \<open>buf_keys\<close> gives the results on search trees for the
  code's own comparison. It needs keys of fewer than 32768 bytes, because the difference of two lengths is stored
  in a \<open>short\<close>, and keys without zero bytes, where \<open>strncmp\<close> would stop.
\<close>

subsection \<open>The order of the keys\<close>

definition folding :: "bool \<Rightarrow> byte \<Rightarrow> byte" where
  "folding insensitive = (if insensitive then tolower else (\<lambda>c. c))"

definition key_text :: "bool \<Rightarrow> buffer \<Rightarrow> byte list" where
  "key_text ci b = map (folding ci) (buf_str b)"

definition key_ord :: "bool \<Rightarrow> buffer \<Rightarrow> nat \<times> byte list" where
  "key_ord ci b = (length (key_text ci b), key_text ci b)"

definition valid_key :: "buffer \<Rightarrow> bool" where
  "valid_key b \<longleftrightarrow> buf_rep b (buf_str b) \<and> length (buf_str b) < 2 ^ 15 \<and> 0 \<notin> set (buf_str b)"

lemma strncmp_by_order:
  "n \<le> length xs \<Longrightarrow> n \<le> length ys \<Longrightarrow> 0 \<notin> set (take n xs) \<Longrightarrow>
   \<exists>r. strncmp_by f xs ys n = Some r \<and> r \<in> {- 1, 0, 1} \<and> (r < 0 \<longleftrightarrow> map f (take n xs) < map f (take n ys)) \<and>
     (r > 0 \<longleftrightarrow> map f (take n ys) < map f (take n xs))"
proof (induction f xs ys n rule: strncmp_by.induct)
  case (2 f x xs y ys n)
  then show ?case by (auto simp: not_less)
qed auto

lemma short_id [simp]: "- (2 ^ 15) \<le> i \<Longrightarrow> i < 2 ^ 15 \<Longrightarrow> short i = i"
  unfolding short_def by transfer (simp add: signed_take_bit_int_eq_self)

lemma cmp_by_order:
  assumes "buf_rep a s" "buf_rep b t" "0 \<notin> set s" "length s < 2 ^ 15" "length t < 2 ^ 15"
  shows "\<exists>r. cmp_by f a b = Some r \<and> - (2 ^ 15) \<le> r \<and> r < 2 ^ 15 \<and>
    (r < 0 \<longleftrightarrow> (length s, map f s) < (length t, map f t)) \<and> (r > 0 \<longleftrightarrow> (length t, map f t) < (length s, map f s))"
proof -
  have l: "len a = length s" "len b = length t" using assms(1,2) by (auto elim!: buf_rep_cases)
  consider "length t < length s" | "length s < length t" | "length s = length t" "t = []"
    | "length s = length t" "t \<noteq> []" by fastforce
  then show ?thesis
  proof cases
    case 1
    with l assms(4) show ?thesis by (auto simp: cmp_by_def s32_id)
  next
    case 2
    define d where "d = length t - length s"
    have d: "0 < d" "d < 2 ^ 15" using 2 assms(5) by (auto simp: d_def)
    then have "sub32 0 d = 2 ^ 32 - d" by (simp add: sub32_def)
    then have "s32 (sub32 0 d) = - int d" using d by (simp add: s32_def u32_def of_nat_diff)
    then show ?thesis using 2 l d by (simp add: cmp_by_def flip: d_def)
  next
    case 3
    with l show ?thesis by (simp add: cmp_by_def)
  next
    case 4
    then obtain x y where x: "buf a = Some x" "buf b = Some y" "take (length s) x = s" "take (length t) y = t"
        "length s \<le> length x" "length t \<le> length y"
      using assms(1,2) by (auto elim!: buf_rep_cases)
    then obtain r where "strncmp_by f x y (length t) = Some r" "r \<in> {- 1, 0, 1}" "r < 0 \<longleftrightarrow> map f s < map f t" "r > 0 \<longleftrightarrow> map f t < map f s"
      using 4(1) strncmp_by_order [of "length t" x y f] assms(3) by auto
    then show ?thesis using x 4 l by (auto simp: cmp_by_def)
  qed
qed

definition buf_cmp :: "bool \<Rightarrow> buffer \<Rightarrow> buffer \<Rightarrow> int option" where
  "buf_cmp ci j k = do { r \<leftarrow> avl_node_cmp j k ci; Some (short r) }"

interpretation buf_keys: key_order "buf_cmp ci" "key_ord ci" valid_key for ci
proof
  fix j k assume v: "valid_key j" "valid_key k"
  let ?f = "folding ci"
  obtain r where "cmp_by ?f j k = Some r" "- (2 ^ 15) \<le> r" "r < 2 ^ 15"
    "r < 0 \<longleftrightarrow> (length (buf_str j), map ?f (buf_str j)) < (length (buf_str k), map ?f (buf_str k))"
    "r > 0 \<longleftrightarrow> (length (buf_str k), map ?f (buf_str k)) < (length (buf_str j), map ?f (buf_str j))"
    using cmp_by_order [of j "buf_str j" k "buf_str k" ?f] v unfolding valid_key_def by blast
  then show "\<exists>x. buf_cmp ci j k = Some x \<and> (x < 0 \<longleftrightarrow> key_ord ci j < key_ord ci k) \<and> (x > 0 \<longleftrightarrow> key_ord ci k < key_ord ci j)"
    by (auto simp: buf_cmp_def avl_node_cmp_def http2d_buffer_case_cmp_buf_def http2d_buffer_cmp_buf_def folding_def key_ord_def key_text_def)
qed

subsection \<open>Dictionaries\<close>

definition avl_dict :: "avl_t \<Rightarrow> 'v avl_buf_mem \<Rightarrow> addr set \<Rightarrow> (byte list \<Rightarrow> 'v option option) \<Rightarrow> bool" where
  "avl_dict A m S D \<longleftrightarrow> node_cmp A = Some avl_node_cmp \<and> node_is_empty A = Some avl_node_is_empty \<and>
     (\<exists>t. search_tree (key_ord (case_insensitive A)) valid_key A m t \<and> set_tree t = S \<and>
       (\<forall>k. D k = dict_of (key_ord (case_insensitive A)) m t (length k, k)))"

lemma call_cmp_buf: "node_cmp A = Some avl_node_cmp \<Longrightarrow> call_cmp A = buf_cmp (case_insensitive A)"
  by (simp add: fun_eq_iff call_cmp_def buf_cmp_def)

lemma search_tree_card:
  assumes "search_tree ord valid A m t"
  shows "size t = card (set_tree t)" "distinct (inorder t)"
proof -
  show "distinct (inorder t)" using assms sorted_distinct by (auto simp: search_tree_def)
  then show "size t = card (set_tree t)" using distinct_card by fastforce
qed

lemma valid_key_rep: "buf_rep b s \<Longrightarrow> valid_key b \<longleftrightarrow> length s < 2 ^ 15 \<and> 0 \<notin> set s"
  by (auto simp: valid_key_def buf_rep_def)

lemma tmp_key_rep:
  assumes "buf_rep b s" "s \<noteq> []"
  shows "buf_rep (tmp_key b) s" "\<not> avl_node_is_empty (tmp_key b)"
proof -
  obtain p where p: "buf b = Some p" "len b = length s" "length s < length p" "length s < 2 ^ 31 - 1" "p ! length s = 0" "take (length s) p = s"
    using assms by (auto simp: buf_rep_def buffer_ok_def buffer_term_def buf_str_def split: option.splits)
  then show "buf_rep (tmp_key b) s"
    by (simp add: buf_rep_def buffer_ok_def buffer_term_def buf_str_def tmp_key_def http2d_buffer_fake_def u32_def)
  show "\<not> avl_node_is_empty (tmp_key b)"
    using p(2) assms(2) by (simp add: avl_node_is_empty_def http2d_buffer_is_empty_def tmp_key_def http2d_buffer_fake_def)
qed

lemma valid_tmp_key:
  assumes "valid_key b" "buf_str b \<noteq> []"
  shows "valid_key (tmp_key b)" "key_text ci (tmp_key b) = key_text ci b" "key_ord ci (tmp_key b) = key_ord ci b" "\<not> avl_node_is_empty (tmp_key b)"
proof -
  have r: "buf_rep b (buf_str b)" using assms(1) by (simp add: valid_key_def)
  note t = tmp_key_rep [OF r assms(2)]
  show "valid_key (tmp_key b)" using assms(1) valid_key_rep [OF t(1)] by (simp add: valid_key_def)
  show "key_text ci (tmp_key b) = key_text ci b" using t(1) by (simp add: key_text_def buf_rep_def)
  then show "key_ord ci (tmp_key b) = key_ord ci b" by (simp add: key_ord_def)
qed (rule tmp_key_rep(2) [OF _ assms(2)], use assms(1) in \<open>simp add: valid_key_def\<close>)

lemma avl_node_new_total:
  assumes "valid_key key"
  shows "\<exists>n. avl_node_new (total_heap f) m (Some a) key = Some (ret_ok, Some a, m(a \<mapsto> n)) \<and> fresh_node n \<and> valid_key (nd_key n) \<and>
    buf_str (nd_key n) = buf_str key \<and> nd_value n = None"
proof -
  have r: "buf_rep key (buf_str key)" "length (buf_str key) < 2 ^ 15" using assms by (simp_all add: valid_key_def)
  obtain k where k: "http2d_buffer_add_buffer (total_heap f) HTTP2D_BUF_INIT key = Some (ret_ok, k)" "buf_rep k (buf_str key)"
    using http2d_buffer_add_buffer_rep [OF buf_rep_INIT r(1), of "total_heap f"] r(2) by (auto simp: grows_to_def)
  have "valid_key k" using valid_key_rep [OF k(2)] assms by (simp add: valid_key_def)
  moreover have "buf_str k = buf_str key" using k(2) by (simp add: buf_rep_def)
  ultimately show ?thesis using k(1)
    by (intro exI [of _ "\<lparr>nd_balance = 0, nd_left = None, nd_right = None, nd_left_child = False, nd_right_child = False,
      nd_value = None, nd_key = k\<rparr>"]) (simp add: avl_node_new_def fresh_node_def)
qed

lemma ord_text: "(length k, k) = key_ord ci b \<longleftrightarrow> k = key_text ci b"
  by (auto simp: key_ord_def)

lemma avl_dict_get:
  assumes "avl_dict A m S D" "valid_key key" "buf_str key \<noteq> []"
  shows "http2d_avl_get A m key =
    Some (case D (key_text (case_insensitive A) key) of None \<Rightarrow> (ret_not_found, None) | Some v \<Rightarrow> (ret_ok, Some v))"
proof -
  let ?ci = "case_insensitive A"
  obtain t where t: "search_tree (key_ord ?ci) valid_key A m t" "\<forall>k. D k = dict_of (key_ord ?ci) m t (length k, k)"
    using assms(1) by (auto simp: avl_dict_def)
  have a: "call_cmp A = buf_cmp ?ci" "node_is_empty A = Some avl_node_is_empty" using assms(1) call_cmp_buf by (auto simp: avl_dict_def)
  note v = valid_tmp_key [OF assms(2,3)]
  show ?thesis using buf_keys.generic_get [OF t(1) a(1) v(1) a(2) v(4)] t(2) v(3) by (simp add: http2d_avl_get_def key_ord_def)
qed

lemma avl_dict_add:
  assumes "avl_dict A m S D" "valid_key key" "buf_str key \<noteq> []" "card S < 2 ^ 32" "m a = None"
  shows "D (key_text (case_insensitive A) key) \<noteq> None \<Longrightarrow>
      \<exists>m'. http2d_avl_add (total_heap f) A m (Some a) key v = Some (ret_error, A, m') \<and> avl_dict A m' S D \<and> m' a = None \<and> same_outside {a} m m'"
    and "D (key_text (case_insensitive A) key) = None \<Longrightarrow>
      \<exists>A' m'. http2d_avl_add (total_heap f) A m (Some a) key v = Some (ret_ok, A', m') \<and> case_insensitive A' = case_insensitive A \<and>
        avl_dict A' m' (insert a S) (D(key_text (case_insensitive A) key \<mapsto> v)) \<and> same_outside (insert a S) m m'"
proof -
  let ?ci = "case_insensitive A"
  obtain t where t: "search_tree (key_ord ?ci) valid_key A m t" "set_tree t = S" "\<forall>k. D k = dict_of (key_ord ?ci) m t (length k, k)"
    using assms(1) by (auto simp: avl_dict_def)
  have A: "call_cmp A = buf_cmp ?ci" "node_is_empty A = Some avl_node_is_empty" "node_cmp A = Some avl_node_cmp"
    using assms(1) call_cmp_buf by (auto simp: avl_dict_def)
  obtain n where n: "avl_node_new (total_heap f) m (Some a) key = Some (ret_ok, Some a, m(a \<mapsto> n))" "fresh_node n" "valid_key (nd_key n)"
    "buf_str (nd_key n) = buf_str key" "nd_value n = None" using avl_node_new_total [OF assms(2)] by blast
  have ao: "a \<notin> set_tree t" using rep_mem [of m None t None a] t(1) assms(5) by (auto simp: search_tree_def)
  let ?m = "m(a \<mapsto> n)"
  have kv: "key_at ?m p = key_at m p" "val_at ?m p = val_at m p" if "p \<in> set_tree t" for p
    using that ao by (auto simp: key_at_def val_at_def payload_def)
  have e1: "map (\<lambda>p. key_ord ?ci (key_at ?m p)) (inorder t) = map (\<lambda>p. key_ord ?ci (key_at m p)) (inorder t)" using kv by simp
  have t': "search_tree (key_ord ?ci) valid_key A ?m t" using t(1) ao kv unfolding search_tree_def e1 by simp
  have d': "dict_of (key_ord ?ci) ?m t = dict_of (key_ord ?ci) m t" using kv by (intro dict_cong) simp
  have ne: "\<not> avl_node_is_empty (nd_key n)"
    using n(3,4) assms(3) by (auto simp: avl_node_is_empty_def valid_key_def buf_rep_empty)
  have ko: "key_ord ?ci (nd_key n) = key_ord ?ci key" "key_ord ?ci key = (length (key_text ?ci key), key_text ?ci key)"
    using n(4) by (simp_all add: key_ord_def key_text_def)
  have sz: "size t < 2 ^ 32" using search_tree_card(1) [OF t(1)] t(2) assms(4) by simp
  have ma: "?m a = Some n" by simp
  note g = buf_keys.generic_add [OF t' A(1) n(3) A(2) ne sz ma n(2) refl ao, of v, unfolded d' ko]
  have add: "http2d_avl_add (total_heap f) A m (Some a) key v = http2d_avl_generic_add A ?m a v" by (simp add: http2d_avl_add_def n(1))
  show "\<exists>m'. http2d_avl_add (total_heap f) A m (Some a) key v = Some (ret_error, A, m') \<and> avl_dict A m' S D \<and> m' a = None \<and> same_outside {a} m m'"
    if "D (key_text ?ci key) \<noteq> None"
  proof -
    have "dict_of (key_ord ?ci) m t (length (key_text ?ci key), key_text ?ci key) \<noteq> None" using that t(3) by simp
    from g(1) [OF this] obtain m' where m': "http2d_avl_generic_add A ?m a v = Some (ret_error, A, m')" "search_tree (key_ord ?ci) valid_key A m' t"
      "dict_of (key_ord ?ci) m' t = dict_of (key_ord ?ci) m t" "m' a = None" "same_outside {a} ?m m'"
      by blast
    have "avl_dict A m' S D" using m'(2,3) A t(2,3) by (auto simp: avl_dict_def)
    then show ?thesis using add m'(1,4,5) by (auto simp: same_outside_def)
  qed
  assume "D (key_text ?ci key) = None"
  then have "dict_of (key_ord ?ci) m t (length (key_text ?ci key), key_text ?ci key) = None" using t(3) by simp
  from g(2) [OF this] obtain m' T where m': "http2d_avl_generic_add A ?m a v = Some (ret_ok, A\<lparr>avl_root := root_of T\<rparr>, m')"
    "search_tree (key_ord ?ci) valid_key (A\<lparr>avl_root := root_of T\<rparr>) m' T" "set_tree T = insert a (set_tree t)"
    "dict_of (key_ord ?ci) m' T = (dict_of (key_ord ?ci) m t)((length (key_text ?ci key), key_text ?ci key) \<mapsto> v)" "same_outside (insert a (set_tree t)) ?m m'"
    by blast
  have "avl_dict (A\<lparr>avl_root := root_of T\<rparr>) m' (insert a S) (D(key_text ?ci key \<mapsto> v))"
    using m'(2-4) A t(2,3) unfolding avl_dict_def by (intro conjI exI [of _ T]) (auto simp: fun_eq_iff)
  then show "\<exists>A' m'. http2d_avl_add (total_heap f) A m (Some a) key v = Some (ret_ok, A', m') \<and> case_insensitive A' = ?ci \<and>
      avl_dict A' m' (insert a S) (D(key_text ?ci key \<mapsto> v)) \<and> same_outside (insert a S) m m'"
    using add m'(1,5) t(2) by (auto simp: same_outside_def)
qed

lemma avl_dict_del:
  assumes "avl_dict A m S D" "valid_key key" "buf_str key \<noteq> []" "card S < 2 ^ 32"
  shows "D (key_text (case_insensitive A) key) = None \<Longrightarrow> http2d_avl_del A m key = Some (ret_not_found, None, A, m)"
    and "D (key_text (case_insensitive A) key) = Some v \<Longrightarrow>
      \<exists>p A' m'. http2d_avl_del A m key = Some (ret_ok, Some v, A', m') \<and> case_insensitive A' = case_insensitive A \<and> p \<in> S \<and> m' p = None \<and>
        avl_dict A' m' (S - {p}) (D(key_text (case_insensitive A) key := None)) \<and> same_outside S m m'"
proof -
  let ?ci = "case_insensitive A"
  obtain t where t: "search_tree (key_ord ?ci) valid_key A m t" "set_tree t = S" "\<forall>k. D k = dict_of (key_ord ?ci) m t (length k, k)"
    using assms(1) by (auto simp: avl_dict_def)
  have A: "call_cmp A = buf_cmp ?ci" "node_is_empty A = Some avl_node_is_empty" "node_cmp A = Some avl_node_cmp"
    using assms(1) call_cmp_buf by (auto simp: avl_dict_def)
  note v = valid_tmp_key [OF assms(2,3)]
  have ko: "key_ord ?ci (tmp_key key) = (length (key_text ?ci key), key_text ?ci key)" using v(3) by (simp add: key_ord_def)
  have sz: "size t < 2 ^ 32" using search_tree_card(1) [OF t(1)] t(2) assms(4) by simp
  note g = buf_keys.generic_del [OF t(1) A(1) v(1) A(2) v(4) sz, unfolded ko]
  show "http2d_avl_del A m key = Some (ret_not_found, None, A, m)" if "D (key_text ?ci key) = None"
    using g(1) that t(3) by (simp add: http2d_avl_del_def)
  assume "D (key_text ?ci key) = Some v"
  then have "dict_of (key_ord ?ci) m t (length (key_text ?ci key), key_text ?ci key) = Some v" using t(3) by simp
  from g(2) [OF this] obtain p m' T where m': "http2d_avl_generic_del A m (tmp_key key) = Some (ret_ok, Some v, A\<lparr>avl_root := root_of T\<rparr>, m')"
    "search_tree (key_ord ?ci) valid_key (A\<lparr>avl_root := root_of T\<rparr>) m' T" "p \<in> set_tree t" "set_tree T = set_tree t - {p}" "m' p = None"
    "dict_of (key_ord ?ci) m' T = (dict_of (key_ord ?ci) m t)((length (key_text ?ci key), key_text ?ci key) := None)" "same_outside (set_tree t) m m'"
    by blast
  have "avl_dict (A\<lparr>avl_root := root_of T\<rparr>) m' (S - {p}) (D(key_text ?ci key := None))"
    using m'(2,4,6) A t(2,3) unfolding avl_dict_def by (intro conjI exI [of _ T]) (auto simp: fun_eq_iff)
  then show "\<exists>p A' m'. http2d_avl_del A m key = Some (ret_ok, Some v, A', m') \<and> case_insensitive A' = ?ci \<and> p \<in> S \<and> m' p = None \<and>
        avl_dict A' m' (S - {p}) (D(key_text ?ci key := None)) \<and> same_outside S m m'"
    using m'(1,3,5,7) t(2) by (intro exI [of _ p] exI [of _ "A\<lparr>avl_root := root_of T\<rparr>"] exI [of _ m']) (simp add: http2d_avl_del_def)
qed

lemma avl_dict_init: "avl_dict (snd (http2d_avl_set_case (snd (http2d_avl_init A)) ci)) m {} (\<lambda>_. None)"
  by (auto simp: avl_dict_def http2d_avl_set_case_def http2d_avl_init_def http2d_avl_generic_init_def search_tree_def dict_of_def
      intro: exI [of _ "\<langle>\<rangle>"])

lemma rep_balance:
  "rep m lo t hi \<Longrightarrow> avl_bal t \<Longrightarrow> p \<in> set_tree t \<Longrightarrow> \<exists>n. m p = Some n \<and> nd_balance n \<in> {- 1, 0, 1}"
proof (induction t arbitrary: lo hi)
  case (Node l q r)
  then consider "p = q" | "p \<in> set_tree l" | "p \<in> set_tree r" by auto
  then show ?case
  proof cases
    case 1
    obtain n where "m q = Some n" "nd_balance n = int (height r) - int (height l)" using Node.prems(1) by (auto simp: node_ok_def)
    moreover have "int (height r) - int (height l) \<in> {- 1, 0, 1}" using Node.prems(2) by auto
    ultimately show ?thesis using 1 by simp
  qed (use Node in auto)
qed simp

lemma avl_dict_whole:
  assumes "avl_dict A m S D"
  shows "http2d_avl_check A m = Some ret_ok" "card S < 2 ^ 64 \<Longrightarrow> http2d_avl_len A m = Some (ret_ok, card S)"
    "p \<in> S \<Longrightarrow> \<exists>n. m p = Some n \<and> nd_balance n \<in> {- 1, 0, 1}"
    "\<exists>vs. http2d_avl_mrproper A m = Some (ret_ok, vs, \<lambda>a. if a \<in> S then None else m a) \<and> length vs = card S"
proof -
  obtain t where t: "search_tree (key_ord (case_insensitive A)) valid_key A m t" "set_tree t = S" using assms by (auto simp: avl_dict_def)
  note c = search_tree_card [OF t(1)]
  have r: "rep m None t None" "avl_root A = root_of t" "avl_bal t" using t(1) by (simp_all add: search_tree_def)
  show "http2d_avl_check A m = Some ret_ok" using node_check_rep [OF r(1)] r(2) by (cases t) (auto simp: http2d_avl_check_def)
  show "http2d_avl_len A m = Some (ret_ok, card S)" if "card S < 2 ^ 64" using avl_len_rep [OF r(1) c(2) r(2)] c(1) t(2) that by simp
  show "\<exists>n. m p = Some n \<and> nd_balance n \<in> {- 1, 0, 1}" if "p \<in> S" using rep_balance [OF r(1,3)] t(2) that by simp
  show "\<exists>vs. http2d_avl_mrproper A m = Some (ret_ok, vs, \<lambda>a. if a \<in> S then None else m a) \<and> length vs = card S"
    using avl_mrproper_rep [OF r(1) c(2) r(2)] c(1) t(2) by simp
qed

text \<open>The trees a program can build: a tree is set up, and nodes are added, with any key the order covers and at any
  address that is free, and deleted.\<close>

inductive avl_run :: "avl_t \<Rightarrow> 'v avl_buf_mem \<Rightarrow> bool" where
  set_up: "avl_run (snd (http2d_avl_set_case (snd (http2d_avl_init A)) ci)) m"
| add: "avl_run A m \<Longrightarrow> valid_key key \<Longrightarrow> buf_str key \<noteq> [] \<Longrightarrow> m a = None \<Longrightarrow> http2d_avl_len A m = Some (ret_ok, n) \<Longrightarrow> n < 2 ^ 32 - 1 \<Longrightarrow>
    http2d_avl_add (total_heap f) A m (Some a) key v = Some (ret, A', m') \<Longrightarrow> avl_run A' m'"
| del: "avl_run A m \<Longrightarrow> valid_key key \<Longrightarrow> buf_str key \<noteq> [] \<Longrightarrow> http2d_avl_del A m key = Some (ret, x, A', m') \<Longrightarrow> avl_run A' m'"

lemma card_insert_bound: "finite S \<Longrightarrow> card S < 2 ^ 32 - 1 \<Longrightarrow> card (insert a S) < 2 ^ 32"
  using card_insert_le_m1 [of "Suc (card S)" S a] by (cases "a \<in> S") (auto simp: insert_absorb)

lemma avl_dict_finite: "avl_dict A m S D \<Longrightarrow> finite S"
  by (auto simp: avl_dict_def)

lemma avl_run_inv: "avl_run A m \<Longrightarrow> \<exists>S D. avl_dict A m S D \<and> card S < 2 ^ 32"
proof (induction rule: avl_run.induct)
  case (set_up A ci m)
  show ?case by (intro exI [of _ "{}"] exI [of _ "\<lambda>_. None"] conjI avl_dict_init) simp
next
  case (add A m key a n f v ret A' m')
  then obtain S D where d: "avl_dict A m S D" "card S < 2 ^ 32" by blast
  then have "n = card S" using avl_dict_whole(2) [OF d(1)] add.hyps(5) by simp
  then have c: "card (insert a S) < 2 ^ 32" using card_insert_bound [OF avl_dict_finite [OF d(1)]] add.hyps(6) by simp
  show ?case
  proof (cases "D (key_text (case_insensitive A) key)")
    case None
    from avl_dict_add(2) [OF d(1) add.hyps(2,3) d(2) add.hyps(4) None, of f v] add.hyps(7)
    have "avl_dict A' m' (insert a S) (D(key_text (case_insensitive A) key \<mapsto> v))" by auto
    with c show ?thesis by blast
  next
    case (Some x)
    then have "D (key_text (case_insensitive A) key) \<noteq> None" by simp
    from avl_dict_add(1) [OF d(1) add.hyps(2,3) d(2) add.hyps(4) this, of f v] add.hyps(7) have "avl_dict A' m' S D" by auto
    with d(2) show ?thesis by blast
  qed
next
  case (del A m key ret x A' m')
  then obtain S D where d: "avl_dict A m S D" "card S < 2 ^ 32" by blast
  show ?case
  proof (cases "D (key_text (case_insensitive A) key)")
    case None
    then show ?thesis using avl_dict_del(1) [OF d(1) del.hyps(2,3) d(2)] del.hyps(4) d by auto
  next
    case (Some y)
    from avl_dict_del(2) [OF d(1) del.hyps(2,3) d(2) Some] obtain p D' where "avl_dict A' m' (S - {p}) D'" using del.hyps(4) by auto
    moreover have "card (S - {p}) < 2 ^ 32" using card_Diff1_le [of S p] d(2) by linarith
    ultimately show ?thesis by blast
  qed
qed

subsection \<open>Properties\<close>

text \<open>C14: \<open>http2d_avl_add\<close> implements the update of a finite map: if the text of the key (up to case, when the tree ignores
  it) is already in the tree, the tree stands for the same map as before, the new node is freed again and \<open>ret_error\<close>
  is returned; otherwise the tree stands for the map with the new entry. Every node written to belongs to the tree,
  and no path is longer than the array \<open>path\<close>, for any tree of fewer than \<open>2\<^sup>3\<^sup>2\<close> nodes.\<close>

theorem http2d_avl_add_correct:
  assumes "avl_dict A m S D" "valid_key key" "buf_str key \<noteq> []" "card S < 2 ^ 32" "m a = None"
  shows "if D (key_text (case_insensitive A) key) = None
    then \<exists>A' m'. http2d_avl_add (total_heap f) A m (Some a) key v = Some (ret_ok, A', m') \<and>
           avl_dict A' m' (insert a S) (D(key_text (case_insensitive A) key \<mapsto> v)) \<and> (\<forall>x. x \<notin> insert a S \<longrightarrow> m' x = m x)
    else \<exists>m'. http2d_avl_add (total_heap f) A m (Some a) key v = Some (ret_error, A, m') \<and>
           avl_dict A m' S D \<and> (\<forall>x. x \<noteq> a \<longrightarrow> m' x = m x) \<and> m' a = None"
proof (cases "D (key_text (case_insensitive A) key) = None")
  case True
  show ?thesis unfolding if_P [OF True] using avl_dict_add(2) [OF assms True, of f v] unfolding same_outside_def by blast
next
  case False
  show ?thesis unfolding if_not_P [OF False] using avl_dict_add(1) [OF assms False, of f v] unfolding same_outside_def by blast
qed

lemma valid_lit: "length s < 2 ^ 15 \<Longrightarrow> 0 \<notin> set (lit s) \<Longrightarrow> valid_key (http2d_buffer_fake_str s) \<and> buf_str (http2d_buffer_fake_str s) = lit s"
  using http2d_buffer_fake_str_rep [of s] valid_key_rep [of "http2d_buffer_fake_str s" "lit s"] by (simp add: buf_rep_def)

lemma lit_ab: "valid_key (http2d_buffer_fake_str ''a'')" "buf_str (http2d_buffer_fake_str ''a'') = [97]"
  "valid_key (http2d_buffer_fake_str ''b'')" "buf_str (http2d_buffer_fake_str ''b'') = [98]"
  using valid_lit [of "''a''"] valid_lit [of "''b''"] by (simp_all add: lit_def chr_def)

theorem http2d_avl_add_correct_witness:
  "\<exists>A' m'. http2d_avl_add (total_heap (\<lambda>_. 0)) (snd (http2d_avl_set_case (snd (http2d_avl_init undefined)) False)) (\<lambda>_. None) (Some 7)
      (http2d_buffer_fake_str ''a'') (Some (1 :: nat)) = Some (ret_ok, A', m') \<and> avl_dict A' m' {7} [[97] \<mapsto> Some 1]"
proof -
  let ?A = "snd (http2d_avl_set_case (snd (http2d_avl_init undefined)) False)"
  have "key_text (case_insensitive ?A) (http2d_buffer_fake_str ''a'') = [97]"
    by (simp add: key_text_def lit_ab folding_def http2d_avl_set_case_def)
  then show ?thesis
    using http2d_avl_add_correct [OF avl_dict_init [of undefined False "\<lambda>_. None"] lit_ab(1), where a = 7 and f = "\<lambda>_. 0" and v = "Some (1 :: nat)"]
    by (auto simp: lit_ab)
qed

text \<open>C32: \<open>http2d_avl_get\<close> returns \<open>ret_ok\<close> and the value of the entry whose key has the same text, or \<open>ret_not_found\<close>.\<close>

theorem http2d_avl_get_correct:
  assumes "avl_dict A m S D" "valid_key key" "buf_str key \<noteq> []"
  shows "http2d_avl_get A m key =
    Some (case D (key_text (case_insensitive A) key) of None \<Rightarrow> (ret_not_found, None) | Some v \<Rightarrow> (ret_ok, Some v))"
  by (rule avl_dict_get [OF assms])

lemma one_entry:
  "\<exists>A' m'. avl_dict A' m' {7} [[97] \<mapsto> Some (1 :: nat)] \<and> case_insensitive A' = True"
proof -
  let ?A = "snd (http2d_avl_set_case (snd (http2d_avl_init undefined)) True)"
  have t: "key_text (case_insensitive ?A) (http2d_buffer_fake_str ''a'') = [97]" "case_insensitive ?A"
    by (simp_all add: key_text_def lit_ab folding_def http2d_avl_set_case_def tolower_def chr_def)
  from avl_dict_add(2) [OF avl_dict_init [of undefined True "\<lambda>_. None"] lit_ab(1), where a = 7 and f = "\<lambda>_. 0" and v = "Some (1 :: nat)"] t
  show ?thesis by (auto simp: lit_ab)
qed

theorem http2d_avl_get_correct_witness:
  "\<exists>A m. avl_dict A m {7} [[97] \<mapsto> Some (1 :: nat)] \<and> http2d_avl_get A m (http2d_buffer_fake_str ''A'') = Some (ret_ok, Some (Some 1)) \<and>
    http2d_avl_get A m (http2d_buffer_fake_str ''b'') = Some (ret_not_found, None)"
proof -
  obtain A m where d: "avl_dict A m {7} [[97] \<mapsto> Some (1 :: nat)]" "case_insensitive A = True" using one_entry by blast
  have v: "valid_key (http2d_buffer_fake_str ''A'')" "buf_str (http2d_buffer_fake_str ''A'') = [65]"
    using valid_lit [of "''A''"] by (simp_all add: lit_def chr_def)
  have t: "key_text True (http2d_buffer_fake_str ''A'') = [97]" "key_text True (http2d_buffer_fake_str ''b'') = [98]"
    by (simp_all add: key_text_def v lit_ab folding_def tolower_def chr_def)
  show ?thesis using http2d_avl_get_correct [OF d(1) v(1)] http2d_avl_get_correct [OF d(1) lit_ab(3)] d t v(2) lit_ab(4) by auto
qed

text \<open>C15: \<open>http2d_avl_del\<close> implements the removal from a finite map: it returns the value of the entry, unlinks and frees its
  node, and leaves a tree for the map without the entry; if there is none it changes nothing and returns
  \<open>ret_not_found\<close>.\<close>

theorem http2d_avl_del_correct:
  assumes "avl_dict A m S D" "valid_key key" "buf_str key \<noteq> []" "card S < 2 ^ 32"
  shows "case D (key_text (case_insensitive A) key) of
    None \<Rightarrow> http2d_avl_del A m key = Some (ret_not_found, None, A, m)
  | Some v \<Rightarrow> \<exists>p A' m'. http2d_avl_del A m key = Some (ret_ok, Some v, A', m') \<and> p \<in> S \<and> m' p = None \<and>
      avl_dict A' m' (S - {p}) (D(key_text (case_insensitive A) key := None)) \<and> (\<forall>x. x \<notin> S \<longrightarrow> m' x = m x)"
  using avl_dict_del [OF assms] by (cases "D (key_text (case_insensitive A) key)") (auto simp: same_outside_def)

theorem http2d_avl_del_correct_witness:
  "\<exists>A m A' m'. http2d_avl_del A m (http2d_buffer_fake_str ''a'') = Some (ret_ok, Some (Some (1 :: nat)), A', m') \<and> avl_dict A' m' {} (\<lambda>_. None) \<and>
    m' 7 = None"
proof -
  obtain A m where d: "avl_dict A m {7} [[97] \<mapsto> Some (1 :: nat)]" "case_insensitive A = True" using one_entry by blast
  have t: "key_text True (http2d_buffer_fake_str ''a'') = [97]" by (simp add: key_text_def lit_ab folding_def tolower_def chr_def)
  have n: "buf_str (http2d_buffer_fake_str ''a'') \<noteq> []" "card {7 :: nat} < 2 ^ 32" by (simp_all add: lit_ab)
  from http2d_avl_del_correct [OF d(1) lit_ab(1) n] d(2) t show ?thesis by (fastforce simp: fun_upd_idem_iff)
qed

text \<open>C16: Every tree a program builds by adding and deleting is well formed: the check of the library accepts it,
  the length it reports is the number of its nodes, the stored balance of every node is -1, 0 or 1, so that it fits
  a \<open>short\<close>, and cleaning it up frees exactly its nodes.\<close>

theorem avl_run_type:
  assumes "avl_run A m"
  shows "\<exists>S vs. http2d_avl_check A m = Some ret_ok \<and> http2d_avl_len A m = Some (ret_ok, card S) \<and>
    (\<forall>p. p \<in> S \<longrightarrow> (\<exists>n. m p = Some n \<and> nd_balance n \<in> {- 1, 0, 1})) \<and>
    http2d_avl_mrproper A m = Some (ret_ok, vs, \<lambda>a. if a \<in> S then None else m a) \<and> length vs = card S"
proof -
  obtain S D where d: "avl_dict A m S D" "card S < 2 ^ 32" using avl_run_inv [OF assms] by blast
  note w = avl_dict_whole [OF d(1)]
  obtain vs where "http2d_avl_mrproper A m = Some (ret_ok, vs, \<lambda>a. if a \<in> S then None else m a)" "length vs = card S" using w(4) by blast
  with w(1-3) d(2) show ?thesis by (intro exI [of _ S] exI [of _ vs]) simp
qed

theorem avl_run_type_witness:
  "\<exists>A (m :: nat avl_buf_mem) (S :: nat set). avl_run A m \<and> S \<noteq> {} \<and> http2d_avl_check A m = Some ret_ok \<and> http2d_avl_len A m = Some (ret_ok, card S)"
proof -
  let ?A = "snd (http2d_avl_set_case (snd (http2d_avl_init undefined)) False)"
  have r0: "avl_run ?A (\<lambda>_. None :: (buffer, nat) avl_node option)" by (rule set_up)
  have d0: "avl_dict ?A (\<lambda>_. None :: (buffer, nat) avl_node option) {} (\<lambda>_. None)" by (rule avl_dict_init)
  have l0: "http2d_avl_len ?A (\<lambda>_. None :: (buffer, nat) avl_node option) = Some (ret_ok, 0)" using avl_dict_whole(2) [OF d0] by simp
  obtain A' m' where a: "http2d_avl_add (total_heap (\<lambda>_. 0)) ?A (\<lambda>_. None) (Some 7) (http2d_buffer_fake_str ''a'') (Some (1 :: nat)) = Some (ret_ok, A', m')"
    "avl_dict A' m' {7} [key_text (case_insensitive ?A) (http2d_buffer_fake_str ''a'') \<mapsto> Some 1]"
    using avl_dict_add(2) [OF d0 lit_ab(1), where a = 7 and f = "\<lambda>_. 0" and v = "Some (1 :: nat)"] by (auto simp: lit_ab)
  have r: "avl_run A' m'" by (rule add [OF r0 lit_ab(1) _ _ l0 _ a(1)]) (simp_all add: lit_ab)
  have l: "http2d_avl_len A' m' = Some (ret_ok, 1)" using avl_dict_whole(2) [OF a(2)] by simp
  from avl_run_type [OF r] l have "http2d_avl_check A' m' = Some ret_ok" by auto
  with r l show ?thesis by (intro exI [of _ A'] exI [of _ m'] exI [of _ "{7 :: nat}"]) simp
qed

text \<open>The comparison of two keys is stored in a \<open>short\<close>: two keys whose lengths differ by 65536 count as equal, so that
  looking up the one finds the value of the other.\<close>

theorem http2d_avl_get_truncated:
  assumes "avl_root A = Some p" "node_cmp A = Some avl_node_cmp" "node_is_empty A = Some avl_node_is_empty"
    and "m p = Some n" "len key = len (nd_key n) + 65536" "len key < 2 ^ 31"
  shows "http2d_avl_get A m key = Some (ret_ok, Some (nd_value n))"
proof -
  have "cmp_by f (tmp_key key) (nd_key n) = Some 65536" for f
    using assms(5,6) by (simp add: cmp_by_def tmp_key_def http2d_buffer_fake_def s32_def u32_def)
  moreover have "short 65536 = 0" by (simp add: short_def)
  ultimately have "call_cmp A (tmp_key key) (nd_key n) = Some 0"
    by (simp add: call_cmp_def assms(2) avl_node_cmp_def http2d_buffer_case_cmp_buf_def http2d_buffer_cmp_buf_def)
  moreover have "\<not> avl_node_is_empty (tmp_key key)"
    using assms(5) by (simp add: avl_node_is_empty_def http2d_buffer_is_empty_def tmp_key_def http2d_buffer_fake_def)
  ultimately show ?thesis
    using assms(1-4) by (simp add: http2d_avl_get_def http2d_avl_generic_get_def get_loop.simps [of A m "tmp_key key" p])
qed

theorem http2d_avl_get_truncated_witness:
  "\<exists>A m. avl_dict A m {7} [[97] \<mapsto> Some (1 :: nat)] \<and>
    http2d_avl_get A m (http2d_buffer_fake (Some (replicate 65537 98 @ [0])) 65537) = Some (ret_ok, Some (Some 1))"
proof -
  obtain A m where d: "avl_dict A m {7} [[97] \<mapsto> Some (1 :: nat)]" using one_entry by blast
  obtain t where t: "search_tree (key_ord (case_insensitive A)) valid_key A m t" "set_tree t = {7}"
    "\<forall>k. [[97] \<mapsto> Some 1] k = dict_of (key_ord (case_insensitive A)) m t (length k, k)" using d unfolding avl_dict_def by blast
  have dk: "dict_of (key_ord (case_insensitive A)) m t (1, [97]) = Some (Some 1)" using spec [OF t(3), of "[97]"] by simp
  have "size t = 1" using search_tree_card(1) [OF t(1)] t(2) by simp
  then have t7: "t = \<langle>\<langle>\<rangle>, 7, \<langle>\<rangle>\<rangle>" using t(2) by (cases t) auto
  obtain n where n: "m 7 = Some n" "avl_root A = Some 7" using t(1) by (auto simp: t7 search_tree_def node_ok_def)
  have k: "key_ord (case_insensitive A) (nd_key n) = (1, [97])" "nd_value n = Some 1"
    using dk n(1) by (auto simp: t7 dict_of_def split: if_splits)
  have "buf_rep (nd_key n) (buf_str (nd_key n))" using t(1) n(1) by (auto simp: t7 search_tree_def valid_key_def)
  then have "len (nd_key n) = 1" using k(1) by (auto simp: key_ord_def key_text_def elim!: buf_rep_cases)
  then have "http2d_avl_get A m (http2d_buffer_fake (Some (replicate 65537 98 @ [0])) 65537) = Some (ret_ok, Some (nd_value n))"
    using d n by (intro http2d_avl_get_truncated) (auto simp: avl_dict_def http2d_buffer_fake_def)
  with d k(2) show ?thesis by auto
qed

end
