(* ===== verification/List_Links.thy ===== *)
theory List_Links
  imports Prelude
begin

text \<open>
  The doubly linked circular lists of \<^verbatim>\<open>src/src/list.h\<close> and \<^verbatim>\<open>src/src/list.c\<close>. The entries live in a memory of their own,
  a map from addresses to entries; a pointer is an address or \<open>None\<close>, the null pointer. The head of a list is an
  entry too. The first half holds the definitions, the second the meaning of an entry as the list of the addresses
  after it (\<open>dlist\<close>), with one lemma for each operation and the locale \<open>linked_lists\<close> for its clients.
\<close>

subsection \<open>Entries\<close>

type_synonym lptr = nat

record list_entry =
  le_next :: "lptr option"
  le_prev :: "lptr option"

type_synonym list_mem = "lptr \<Rightarrow> list_entry option"

definition set_next :: "list_mem \<Rightarrow> lptr \<Rightarrow> lptr option \<Rightarrow> list_mem option" where
  "set_next m a p = map_option (\<lambda>n. m(a \<mapsto> n\<lparr>le_next := p\<rparr>)) (m a)"

definition set_prev :: "list_mem \<Rightarrow> lptr \<Rightarrow> lptr option \<Rightarrow> list_mem option" where
  "set_prev m a p = map_option (\<lambda>n. m(a \<mapsto> n\<lparr>le_prev := p\<rparr>)) (m a)"

definition INIT_LIST_HEAD :: "list_mem \<Rightarrow> lptr \<Rightarrow> list_mem option" where
  "INIT_LIST_HEAD m ptr = do { m \<leftarrow> set_next m ptr (Some ptr); set_prev m ptr (Some ptr) }"

definition http2d_list_empty :: "list_mem \<Rightarrow> lptr \<Rightarrow> bool option" where
  "http2d_list_empty m list = do { n \<leftarrow> m list; Some (le_next n = Some list) }"

definition http2d_list_add :: "list_mem \<Rightarrow> lptr \<Rightarrow> lptr \<Rightarrow> list_mem option" where
  "http2d_list_add m new_entry head = do {
     h \<leftarrow> m head;
     m \<leftarrow> set_next m new_entry (le_next h);
     m \<leftarrow> set_prev m new_entry (Some head);
     h \<leftarrow> m head;
     n \<leftarrow> le_next h;
     m \<leftarrow> set_prev m n (Some new_entry);
     set_next m head (Some new_entry) }"

definition http2d_list_add_tail :: "list_mem \<Rightarrow> lptr \<Rightarrow> lptr \<Rightarrow> list_mem option" where
  "http2d_list_add_tail m new_entry head = do {
     m \<leftarrow> set_next m new_entry (Some head);
     h \<leftarrow> m head;
     m \<leftarrow> set_prev m new_entry (le_prev h);
     h \<leftarrow> m head;
     p \<leftarrow> le_prev h;
     m \<leftarrow> set_next m p (Some new_entry);
     set_prev m head (Some new_entry) }"

definition http2d_list_del :: "list_mem \<Rightarrow> lptr \<Rightarrow> list_mem option" where
  "http2d_list_del m entry = do {
     e \<leftarrow> m entry;
     n \<leftarrow> le_next e;
     m \<leftarrow> set_prev m n (le_prev e);
     e \<leftarrow> m entry;
     p \<leftarrow> le_prev e;
     set_next m p (le_next e) }"

definition http2d_list_reparent :: "list_mem \<Rightarrow> lptr \<Rightarrow> lptr \<Rightarrow> list_mem option" where
  "http2d_list_reparent m list new_entry = do {
     empty \<leftarrow> http2d_list_empty m list;
     if empty then Some m
     else do {
       l \<leftarrow> m list;
       m \<leftarrow> set_next m new_entry (le_next l);
       l \<leftarrow> m list;
       m \<leftarrow> set_prev m new_entry (le_prev l);
       e \<leftarrow> m new_entry;
       p \<leftarrow> le_prev e;
       m \<leftarrow> set_next m p (Some new_entry);
       e \<leftarrow> m new_entry;
       n \<leftarrow> le_next e;
       set_prev m n (Some new_entry) } }"

subsection \<open>Length, inversion\<close>

partial_function (option) len_loop :: "list_mem \<Rightarrow> lptr \<Rightarrow> lptr option \<Rightarrow> nat \<Rightarrow> nat option" where
  "len_loop m head i n =
     (if i = Some head then Some n
      else do { a \<leftarrow> i; e \<leftarrow> m a; len_loop m head (le_next e) (u32 (n + 1)) })"

definition http2d_list_get_len :: "list_mem \<Rightarrow> lptr \<Rightarrow> (ret_t \<times> nat) option" where
  "http2d_list_get_len m head = do {
     h \<leftarrow> m head;
     n \<leftarrow> len_loop m head (le_next h) 0;
     Some (ret_ok, n) }"

text \<open>The loop of \<open>list_for_each_safe\<close> reads the successor of \<open>i\<close> before the body runs.\<close>

partial_function (option) invert_loop :: "list_mem \<Rightarrow> lptr \<Rightarrow> lptr \<Rightarrow> lptr option \<Rightarrow> lptr option \<Rightarrow> list_mem option" where
  "invert_loop m head new_list i tmp =
     (if i = Some head then Some m
      else do {
        a \<leftarrow> i;
        m \<leftarrow> http2d_list_add m a new_list;
        b \<leftarrow> tmp;
        e \<leftarrow> m b;
        invert_loop m head new_list tmp (le_next e) })"

text \<open>\<open>new_list\<close> is the address of the local variable, which is gone when the function returns.\<close>

definition http2d_list_invert :: "list_mem \<Rightarrow> lptr \<Rightarrow> lptr \<Rightarrow> (ret_t \<times> list_mem) option" where
  "http2d_list_invert m new_list head = do {
     m \<leftarrow> INIT_LIST_HEAD (m(new_list \<mapsto> \<lparr>le_next = None, le_prev = None\<rparr>)) new_list;
     h \<leftarrow> m head;
     a \<leftarrow> le_next h;
     e \<leftarrow> m a;
     m \<leftarrow> invert_loop m head new_list (Some a) (le_next e);
     m \<leftarrow> http2d_list_reparent m new_list head;
     Some (ret_ok, m(new_list := None)) }"

subsection \<open>Lists of items\<close>

text \<open>An item is an entry followed by a pointer to its content. \<open>new\<close> is what \<open>malloc\<close> returns.\<close>

type_synonym 'i item_mem = "lptr \<Rightarrow> 'i option option"

definition add_content_by ::
  "(list_mem \<Rightarrow> lptr \<Rightarrow> lptr \<Rightarrow> list_mem option) \<Rightarrow> list_mem \<Rightarrow> 'i item_mem \<Rightarrow> lptr option \<Rightarrow> lptr \<Rightarrow> 'i option \<Rightarrow>
    (ret_t \<times> list_mem \<times> 'i item_mem) option" where
  "add_content_by add m im new head item =
     (case new of None \<Rightarrow> Some (ret_nomem, m, im)
      | Some n \<Rightarrow> do {
          m \<leftarrow> INIT_LIST_HEAD (m(n \<mapsto> \<lparr>le_next = None, le_prev = None\<rparr>)) n;
          im \<leftarrow> Some (im(n \<mapsto> item));
          m \<leftarrow> add m n head;
          Some (ret_ok, m, im) })"

definition http2d_list_add_content ::
  "list_mem \<Rightarrow> 'i item_mem \<Rightarrow> lptr option \<Rightarrow> lptr \<Rightarrow> 'i option \<Rightarrow> (ret_t \<times> list_mem \<times> 'i item_mem) option" where
  "http2d_list_add_content = add_content_by http2d_list_add"

definition http2d_list_add_tail_content ::
  "list_mem \<Rightarrow> 'i item_mem \<Rightarrow> lptr option \<Rightarrow> lptr \<Rightarrow> 'i option \<Rightarrow> (ret_t \<times> list_mem \<times> 'i item_mem) option" where
  "http2d_list_add_tail_content = add_content_by http2d_list_add_tail"

text \<open>The contents handed to \<open>free_func\<close>, if there is one, are collected in \<open>fs\<close>.\<close>

definition http2d_list_content_free_item ::
  "bool \<Rightarrow> list_mem \<Rightarrow> 'i item_mem \<Rightarrow> lptr \<Rightarrow> 'i list \<Rightarrow> (ret_t \<times> list_mem \<times> 'i item_mem \<times> 'i list) option" where
  "http2d_list_content_free_item has_free_func m im head fs = do {
     m \<leftarrow> http2d_list_del m head;
     info \<leftarrow> im head;
     Some (ret_ok, m(head := None), im(head := None),
       (case info of Some c \<Rightarrow> if has_free_func then fs @ [c] else fs | None \<Rightarrow> fs)) }"

definition http2d_list_content_free_item_simple ::
  "list_mem \<Rightarrow> 'i item_mem \<Rightarrow> lptr \<Rightarrow> 'i list \<Rightarrow> (ret_t \<times> list_mem \<times> 'i item_mem \<times> 'i list) option" where
  "http2d_list_content_free_item_simple m im head fs = http2d_list_content_free_item True m im head fs"

partial_function (option) content_free_loop ::
  "bool \<Rightarrow> list_mem \<Rightarrow> 'i item_mem \<Rightarrow> lptr \<Rightarrow> lptr option \<Rightarrow> lptr option \<Rightarrow> 'i list \<Rightarrow> (list_mem \<times> 'i item_mem \<times> 'i list) option" where
  "content_free_loop ff m im head i tmp fs =
     (if i = Some head then Some (m, im, fs)
      else do {
        a \<leftarrow> i;
        (_, m, im, fs) \<leftarrow> http2d_list_content_free_item ff m im a fs;
        b \<leftarrow> tmp;
        e \<leftarrow> m b;
        content_free_loop ff m im head tmp (le_next e) fs })"

definition http2d_list_content_free ::
  "bool \<Rightarrow> list_mem \<Rightarrow> 'i item_mem \<Rightarrow> lptr \<Rightarrow> (ret_t \<times> list_mem \<times> 'i item_mem \<times> 'i list) option" where
  "http2d_list_content_free has_free_func m im head = do {
     h \<leftarrow> m head;
     a \<leftarrow> le_next h;
     e \<leftarrow> m a;
     (m, im, fs) \<leftarrow> content_free_loop has_free_func m im head (Some a) (le_next e) [];
     m \<leftarrow> INIT_LIST_HEAD m head;
     Some (ret_ok, m, im, fs) }"

subsection \<open>Sorting\<close>

text \<open>The successor of \<open>q\<close>, or null when it is the entry that was the first of the ring.\<close>

definition step_in :: "list_mem \<Rightarrow> lptr option \<Rightarrow> lptr \<Rightarrow> lptr option option" where
  "step_in m oldhead q = do { n \<leftarrow> m q; Some (if le_next n = oldhead then None else le_next n) }"

text \<open>The \<open>for\<close> loop with \<open>k\<close> rounds to go, which counts in \<open>psize\<close>.\<close>

fun split_run :: "list_mem \<Rightarrow> lptr option \<Rightarrow> nat \<Rightarrow> lptr \<Rightarrow> nat \<Rightarrow> (lptr option \<times> nat) option" where
  "split_run m oldhead 0 q psize = Some (Some q, psize)"
| "split_run m oldhead (Suc k) q psize = do {
     q' \<leftarrow> step_in m oldhead q;
     (case q' of None \<Rightarrow> Some (None, psize + 1) | Some q' \<Rightarrow> split_run m oldhead k q' (psize + 1)) }"

definition append_entry ::
  "list_mem \<Rightarrow> lptr option \<Rightarrow> lptr option \<Rightarrow> lptr \<Rightarrow> (list_mem \<times> lptr option \<times> lptr option) option" where
  "append_entry m list tail e = do {
     (m, list) \<leftarrow> (case tail of Some t \<Rightarrow> do { m \<leftarrow> set_next m t (Some e); Some (m, list) } | None \<Rightarrow> Some (m, Some e));
     m \<leftarrow> set_prev m e tail;
     Some (m, list, Some e) }"

partial_function (option) merge_loop ::
  "(lptr \<Rightarrow> lptr \<Rightarrow> int) \<Rightarrow> list_mem \<Rightarrow> lptr option \<Rightarrow> lptr option \<Rightarrow> nat \<Rightarrow> lptr option \<Rightarrow> nat \<Rightarrow> lptr option \<Rightarrow> lptr option \<Rightarrow>
    (list_mem \<times> lptr option \<times> lptr option \<times> lptr option) option" where
  "merge_loop cmp m oldhead p psize q qsize list tail =
     (if \<not> (psize > 0 \<or> (qsize > 0 \<and> q \<noteq> None)) then Some (m, q, list, tail)
      else do {
        take_q \<leftarrow> (if psize = 0 then Some True
                  else if qsize = 0 \<or> q = None then Some False
                  else do { a \<leftarrow> p; b \<leftarrow> q; Some (\<not> cmp a b \<le> 0) });
        if take_q
        then do {
          e \<leftarrow> q;
          q \<leftarrow> step_in m oldhead e;
          (m, list, tail) \<leftarrow> append_entry m list tail e;
          merge_loop cmp m oldhead p psize q (qsize - 1) list tail }
        else do {
          e \<leftarrow> p;
          p \<leftarrow> step_in m oldhead e;
          (m, list, tail) \<leftarrow> append_entry m list tail e;
          merge_loop cmp m oldhead p (psize - 1) q qsize list tail } })"

partial_function (option) sort_pass ::
  "(lptr \<Rightarrow> lptr \<Rightarrow> int) \<Rightarrow> list_mem \<Rightarrow> lptr option \<Rightarrow> nat \<Rightarrow> lptr option \<Rightarrow> lptr option \<Rightarrow> lptr option \<Rightarrow> nat \<Rightarrow>
    (list_mem \<times> lptr option \<times> lptr option \<times> nat) option" where
  "sort_pass cmp m oldhead insize p list tail nmerges =
     (case p of None \<Rightarrow> Some (m, list, tail, nmerges)
      | Some a \<Rightarrow> do {
          (q, psize) \<leftarrow> split_run m oldhead insize a 0;
          (m, q, list, tail) \<leftarrow> merge_loop cmp m oldhead (Some a) psize q insize list tail;
          sort_pass cmp m oldhead insize q list tail (nmerges + 1) })"

text \<open>\<open>insize\<close> and \<open>nmerges\<close> are of type \<open>int\<close>: doubling beyond its range is a fault.\<close>

partial_function (option) sort_loop ::
  "(lptr \<Rightarrow> lptr \<Rightarrow> int) \<Rightarrow> list_mem \<Rightarrow> nat \<Rightarrow> lptr \<Rightarrow> (list_mem \<times> lptr) option" where
  "sort_loop cmp m insize list = do {
     (m, list, tail, nmerges) \<leftarrow> sort_pass cmp m (Some list) insize (Some list) None None 0;
     t \<leftarrow> tail;
     m \<leftarrow> set_next m t list;
     l \<leftarrow> list;
     m \<leftarrow> set_prev m l tail;
     if nmerges \<le> 1 then Some (m, l)
     else if insize * 2 < 2 ^ 31 then sort_loop cmp m (insize * 2) l
     else None }"

definition http2d_list_sort :: "list_mem \<Rightarrow> lptr \<Rightarrow> (lptr \<Rightarrow> lptr \<Rightarrow> int) \<Rightarrow> list_mem option" where
  "http2d_list_sort m head cmp = do {
     h \<leftarrow> m head;
     list \<leftarrow> le_next h;
     m \<leftarrow> http2d_list_del m head;
     (m, list) \<leftarrow> sort_loop cmp m 1 list;
     m \<leftarrow> set_next m head (Some list);
     l \<leftarrow> m list;
     m \<leftarrow> set_prev m head (le_prev l);
     l \<leftarrow> m list;
     p \<leftarrow> le_prev l;
     m \<leftarrow> set_next m p (Some head);
     set_prev m list (Some head) }"

subsection \<open>Chains and rings\<close>

text \<open>\<open>nexts m xs e\<close>: every entry of \<open>xs\<close> points to the one after it, and the last one to \<open>e\<close>. \<open>prevs m b xs\<close>: every
  entry points back to the one before it, and the first one to \<open>b\<close>.\<close>

definition first_of :: "lptr list \<Rightarrow> lptr option \<Rightarrow> lptr option" where
  "first_of xs e = (case xs of [] \<Rightarrow> e | x # _ \<Rightarrow> Some x)"

definition last_of :: "lptr option \<Rightarrow> lptr list \<Rightarrow> lptr option" where
  "last_of b xs = (if xs = [] then b else Some (last xs))"

fun nexts :: "list_mem \<Rightarrow> lptr list \<Rightarrow> lptr option \<Rightarrow> bool" where
  "nexts m [] e = True"
| "nexts m (x # xs) e = ((\<exists>n. m x = Some n \<and> le_next n = first_of xs e) \<and> nexts m xs e)"

fun prevs :: "list_mem \<Rightarrow> lptr option \<Rightarrow> lptr list \<Rightarrow> bool" where
  "prevs m b [] = True"
| "prevs m b (x # xs) = ((\<exists>n. m x = Some n \<and> le_prev n = b) \<and> prevs m (Some x) xs)"

definition ring :: "list_mem \<Rightarrow> lptr list \<Rightarrow> bool" where
  "ring m xs \<longleftrightarrow> distinct xs \<and> nexts m xs (first_of xs None) \<and> prevs m (last_of None xs) xs"

definition dlist :: "list_mem \<Rightarrow> lptr \<Rightarrow> lptr list \<Rightarrow> bool" where
  "dlist m h xs \<longleftrightarrow> ring m (h # xs)"

lemma first_of_simps [simp]: "first_of [] e = e" "first_of (x # xs) e = Some x" "first_of (xs @ ys) e = first_of xs (first_of ys e)"
  by (auto simp: first_of_def split: list.splits)

lemma last_of_simps [simp]: "last_of b [] = b" "last_of b (x # xs) = last_of (Some x) xs" "last_of b (xs @ ys) = last_of (last_of b xs) ys"
  by (auto simp: last_of_def)

lemma first_of_ne: "xs \<noteq> [] \<Longrightarrow> first_of xs e = Some (hd xs)" and last_of_ne: "xs \<noteq> [] \<Longrightarrow> last_of b xs = Some (last xs)"
  by (auto simp: first_of_def last_of_def neq_Nil_conv)

lemma nexts_append [simp]: "nexts m (xs @ ys) e \<longleftrightarrow> nexts m xs (first_of ys e) \<and> nexts m ys e"
  by (induction xs) auto

lemma prevs_append [simp]: "prevs m b (xs @ ys) \<longleftrightarrow> prevs m b xs \<and> prevs m (last_of b xs) ys"
  by (induction xs arbitrary: b) auto

lemma nexts_cong: "(\<And>a. a \<in> set xs \<Longrightarrow> m' a = m a) \<Longrightarrow> nexts m' xs e = nexts m xs e"
  by (induction xs) auto

lemma prevs_cong: "(\<And>a. a \<in> set xs \<Longrightarrow> m' a = m a) \<Longrightarrow> prevs m' b xs = prevs m b xs"
  by (induction xs arbitrary: b) auto

lemma nexts_upd [simp]: "a \<notin> set xs \<Longrightarrow> nexts (m(a := n)) xs e = nexts m xs e"
  by (rule nexts_cong) auto

lemma prevs_upd [simp]: "a \<notin> set xs \<Longrightarrow> prevs (m(a := n)) b xs = prevs m b xs"
  by (rule prevs_cong) auto

text \<open>Stores into the one field do not touch the chains of the other.\<close>

lemma nexts_keep: "(\<And>a. map_option le_next (m' a) = map_option le_next (m a)) \<Longrightarrow> nexts m' xs e = nexts m xs e"
proof (induction xs)
  case (Cons x xs)
  have "(\<exists>n. m' x = Some n \<and> le_next n = w) = (\<exists>n. m x = Some n \<and> le_next n = w)" for w
    using Cons.prems [of x] by (cases "m x"; cases "m' x") auto
  with Cons show ?case by simp
qed simp

lemma prevs_keep: "(\<And>a. map_option le_prev (m' a) = map_option le_prev (m a)) \<Longrightarrow> prevs m' b xs = prevs m b xs"
proof (induction xs arbitrary: b)
  case (Cons x xs)
  have "(\<exists>n. m' x = Some n \<and> le_prev n = w) = (\<exists>n. m x = Some n \<and> le_prev n = w)" for w
    using Cons.prems [of x] by (cases "m x"; cases "m' x") auto
  with Cons show ?case by simp
qed simp

definition put_next :: "list_mem \<Rightarrow> lptr \<Rightarrow> lptr option \<Rightarrow> list_mem" where
  "put_next m a p = m(a := map_option (\<lambda>n. n\<lparr>le_next := p\<rparr>) (m a))"

definition put_prev :: "list_mem \<Rightarrow> lptr \<Rightarrow> lptr option \<Rightarrow> list_mem" where
  "put_prev m a p = m(a := map_option (\<lambda>n. n\<lparr>le_prev := p\<rparr>) (m a))"

lemma set_put: "m a \<noteq> None \<Longrightarrow> set_next m a p = Some (put_next m a p)" "m a \<noteq> None \<Longrightarrow> set_prev m a p = Some (put_prev m a p)"
  by (auto simp: set_next_def set_prev_def put_next_def put_prev_def)

lemma put_dom [simp]: "put_next m a p x = None \<longleftrightarrow> m x = None" "put_prev m a p x = None \<longleftrightarrow> m x = None"
  by (auto simp: put_next_def put_prev_def)

lemma put_other [simp]: "x \<noteq> a \<Longrightarrow> put_next m a p x = m x" "x \<noteq> a \<Longrightarrow> put_prev m a p x = m x"
  by (auto simp: put_next_def put_prev_def)

lemma nexts_put_prev [simp]: "nexts (put_prev m a p) xs e = nexts m xs e"
  by (rule nexts_keep) (auto simp: put_prev_def option.map_comp comp_def)

lemma prevs_put_next [simp]: "prevs (put_next m a p) b xs = prevs m b xs"
  by (rule prevs_keep) (auto simp: put_next_def option.map_comp comp_def)

lemma nexts_put_next [simp]: "a \<notin> set xs \<Longrightarrow> nexts (put_next m a p) xs e = nexts m xs e"
  by (rule nexts_cong) (auto simp: put_next_def)

lemma prevs_put_prev [simp]: "a \<notin> set xs \<Longrightarrow> prevs (put_prev m a p) b xs = prevs m b xs"
  by (rule prevs_cong) (auto simp: put_prev_def)

lemma field_put [simp]:
  "(\<exists>n. put_prev m a p x = Some n \<and> le_next n = w) = (\<exists>n. m x = Some n \<and> le_next n = w)"
  "(\<exists>n. put_next m a p x = Some n \<and> le_prev n = w) = (\<exists>n. m x = Some n \<and> le_prev n = w)"
  "(\<exists>n. put_next m a p a = Some n \<and> le_next n = w) = (m a \<noteq> None \<and> p = w)"
  "(\<exists>n. put_prev m a p a = Some n \<and> le_prev n = w) = (m a \<noteq> None \<and> p = w)"
  by (auto simp: put_next_def put_prev_def)

lemma nexts_mem: "nexts m xs e \<Longrightarrow> a \<in> set xs \<Longrightarrow> m a \<noteq> None"
  by (induction xs) auto

lemma ring_rotate: "ring m (xs @ ys) \<Longrightarrow> ring m (ys @ xs)"
  by (cases "xs = []"; cases "ys = []") (auto simp: ring_def first_of_ne last_of_ne)

lemma ring_mem: "ring m xs \<Longrightarrow> a \<in> set xs \<Longrightarrow> m a \<noteq> None"
  using nexts_mem by (fastforce simp: ring_def)

lemma ring_cong: "(\<And>a. a \<in> set xs \<Longrightarrow> m' a = m a) \<Longrightarrow> ring m' xs = ring m xs"
  unfolding ring_def using nexts_cong [of xs m' m] prevs_cong [of xs m' m] by simp

lemma ring_next: "ring m (x # xs) \<Longrightarrow> \<exists>n. m x = Some n \<and> le_next n = first_of xs (Some x) \<and> le_prev n = last_of (Some x) xs"
  by (auto simp: ring_def)

subsection \<open>The operations on rings\<close>

definition touches :: "lptr set \<Rightarrow> list_mem \<Rightarrow> list_mem \<Rightarrow> bool" where
  "touches S m m' \<longleftrightarrow> (\<forall>x. x \<notin> S \<longrightarrow> m' x = m x) \<and> (\<forall>x. m' x = None \<longleftrightarrow> m x = None)"

lemma touches_put [simp]: "touches S m (put_next m' a p) \<longleftrightarrow> touches S m m'" "touches S m (put_prev m' a p) \<longleftrightarrow> touches S m m'" if "a \<in> S"
  using that by (auto simp: touches_def put_next_def put_prev_def)

lemma touches_refl [simp]: "touches S m m"
  by (simp add: touches_def)

lemma touches_trans: "touches S m m' \<Longrightarrow> touches S m' m'' \<Longrightarrow> touches S m m''"
  by (simp add: touches_def)

lemma touches_mono: "touches S m m' \<Longrightarrow> S \<subseteq> T \<Longrightarrow> touches T m m'"
  by (auto simp: touches_def)

lemma put_next_field [simp]: "m a = Some n \<Longrightarrow> put_next m a p a = Some (n\<lparr>le_next := p\<rparr>)" "m a = Some n \<Longrightarrow> put_prev m a p a = Some (n\<lparr>le_prev := p\<rparr>)"
  by (simp_all add: put_next_def put_prev_def)

lemma list_init: "m h \<noteq> None \<Longrightarrow> \<exists>m'. INIT_LIST_HEAD m h = Some m' \<and> dlist m' h [] \<and> touches {h} m m'"
  by (auto simp: INIT_LIST_HEAD_def set_put dlist_def ring_def)

lemma list_empty: "dlist m h xs \<Longrightarrow> http2d_list_empty m h = Some (xs = [])"
  by (cases xs) (auto simp: dlist_def ring_def http2d_list_empty_def)

lemma list_add:
  assumes "dlist m h xs" "a \<notin> set (h # xs)" "m a \<noteq> None"
  shows "\<exists>m'. http2d_list_add m a h = Some m' \<and> dlist m' h (a # xs) \<and> touches (insert a (set (h # xs))) m m'"
proof -
  obtain n where n: "m h = Some n" "le_next n = first_of xs (Some h)" using assms(1) ring_next unfolding dlist_def by blast
  obtain w where w: "first_of xs (Some h) = Some w" "w \<in> set (h # xs)" by (cases xs) auto
  have mw: "m w \<noteq> None" using ring_mem assms(1) w(2) unfolding dlist_def by blast
  let ?m = "put_next (put_prev (put_prev (put_next m a (Some w)) a (Some h)) w (Some a)) h (Some a)"
  have r: "http2d_list_add m a h = Some ?m"
    using n w assms(2,3) mw by (auto simp: http2d_list_add_def set_put)
  have "ring ?m (h # a # xs)"
  proof (cases xs)
    case Nil
    then show ?thesis using assms w by (auto simp: ring_def dlist_def)
  next
    case (Cons y ys)
    then have "w = y" using w by simp
    then show ?thesis using assms Cons by (auto simp: ring_def dlist_def)
  qed
  with r w(2) show ?thesis by (auto simp: dlist_def)
qed

lemma list_add_tail:
  assumes "dlist m h xs" "a \<notin> set (h # xs)" "m a \<noteq> None"
  shows "\<exists>m'. http2d_list_add_tail m a h = Some m' \<and> dlist m' h (xs @ [a]) \<and> touches (insert a (set (h # xs))) m m'"
proof -
  obtain n where n: "m h = Some n" "le_prev n = last_of (Some h) xs" using assms(1) ring_next unfolding dlist_def by blast
  obtain w where w: "last_of (Some h) xs = Some w" "w \<in> set (h # xs)" by (cases "xs = []") (auto simp: last_of_ne)
  have mw: "m w \<noteq> None" using ring_mem assms(1) w(2) unfolding dlist_def by blast
  let ?m = "put_prev (put_next (put_prev (put_next m a (Some h)) a (Some w)) w (Some a)) h (Some a)"
  have r: "http2d_list_add_tail m a h = Some ?m"
    using n w assms(2,3) mw by (auto simp: http2d_list_add_tail_def set_put)
  have "ring ?m (h # xs @ [a])"
  proof (cases xs rule: rev_cases)
    case Nil
    then show ?thesis using assms w by (auto simp: ring_def dlist_def)
  next
    case (snoc ys y)
    then have "w = y" using w by simp
    then show ?thesis using assms snoc by (auto simp: ring_def dlist_def)
  qed
  with r w(2) show ?thesis by (auto simp: dlist_def)
qed

text \<open>Removing an entry from the ring it is in: its own pointers stay as they are.\<close>

lemma ring_del:
  assumes "ring m (a # xs)" "xs \<noteq> []"
  shows "\<exists>m'. http2d_list_del m a = Some m' \<and> ring m' xs \<and> m' a = m a \<and> touches (set xs) m m'"
proof -
  let ?f = "hd xs" let ?l = "last xs"
  have fl: "?f \<in> set xs" "?l \<in> set xs" "a \<notin> set xs" using assms by (auto simp: ring_def)
  obtain n where n: "m a = Some n" "le_next n = Some ?f" "le_prev n = Some ?l"
    using ring_next [OF assms(1)] assms(2) by (auto simp: first_of_ne last_of_ne)
  have mm: "m ?f \<noteq> None" "m ?l \<noteq> None" using ring_mem [OF assms(1)] fl by auto
  let ?m = "put_next (put_prev m ?f (Some ?l)) ?l (Some ?f)"
  have r: "http2d_list_del m a = Some ?m"
  proof -
    have "a \<noteq> ?f" using fl by metis
    then have "put_prev m ?f (Some ?l) a = Some n" using n(1) by simp
    then show ?thesis using n mm by (simp add: http2d_list_del_def set_put)
  qed
  have "ring ?m xs"
  proof (cases "tl xs = []")
    case True
    then obtain y where "xs = [y]" using assms(2) by (cases xs) auto
    then show ?thesis using assms by (auto simp: ring_def)
  next
    case False
    then obtain y z zs where xs: "xs = y # zs @ [z]" using assms(2) by (metis append_butlast_last_id hd_Cons_tl last_tl)
    then show ?thesis using assms by (auto simp: ring_def)
  qed
  moreover have "?m a = m a" using fl by (metis put_other)
  ultimately show ?thesis using r fl by auto
qed

lemma list_del:
  assumes "dlist m h (xs @ a # ys)"
  shows "\<exists>m'. http2d_list_del m a = Some m' \<and> dlist m' h (xs @ ys) \<and> m' a = m a \<and> touches (set (h # xs @ ys)) m m'"
proof -
  have "ring m ((h # xs) @ a # ys)" using assms by (simp add: dlist_def)
  then have "ring m (a # ys @ h # xs)" using ring_rotate by fastforce
  from ring_del [OF this] obtain m' where m': "http2d_list_del m a = Some m'" "ring m' (ys @ h # xs)" "m' a = m a" "touches (set (ys @ h # xs)) m m'"
    by blast
  have "ring m' ((h # xs) @ ys)" using ring_rotate [OF m'(2)] .
  moreover have "set (ys @ h # xs) = set (h # xs @ ys)" by auto
  ultimately show ?thesis using m' by (simp add: dlist_def)
qed

text \<open>A chain, whatever its ends point to, becomes a list when a head is linked to its ends.\<close>

lemma ring_link:
  assumes "nexts m xs e" "prevs m b xs" "distinct (h # xs)" "xs \<noteq> []" "m h \<noteq> None"
  shows "ring (put_prev (put_next (put_prev (put_next m h (Some (hd xs))) h (Some (last xs))) (last xs) (Some h)) (hd xs) (Some h)) (h # xs)"
proof (cases "tl xs = []")
  case True
  then obtain y where "xs = [y]" using assms(4) by (cases xs) auto
  then show ?thesis using assms by (auto simp: ring_def)
next
  case False
  then obtain y z zs where xs: "xs = y # zs @ [z]" using assms(4) by (metis append_butlast_last_id hd_Cons_tl last_tl)
  then show ?thesis using assms by (auto simp: ring_def)
qed

lemma list_reparent:
  assumes "dlist m l xs" "xs \<noteq> []" "h \<notin> set (l # xs)" "m h \<noteq> None"
  shows "\<exists>m'. http2d_list_reparent m l h = Some m' \<and> dlist m' h xs \<and> touches (insert h (set xs)) m m'"
proof -
  let ?f = "hd xs" let ?l = "last xs"
  have fl: "?f \<in> set xs" "?l \<in> set xs" "l \<notin> set xs" using assms by (auto simp: ring_def dlist_def)
  obtain n where n: "m l = Some n" "le_next n = Some ?f" "le_prev n = Some ?l"
    using assms(1,2) ring_next [of m l xs] by (auto simp: dlist_def first_of_ne last_of_ne)
  have mm: "m ?f \<noteq> None" "m ?l \<noteq> None" using ring_mem [of m "l # xs"] assms(1) fl by (auto simp: dlist_def)
  have ne: "h \<noteq> l" "l \<noteq> h" "?f \<noteq> h" "?l \<noteq> h" "h \<noteq> ?f" "h \<noteq> ?l" using assms fl by auto
  let ?m = "put_prev (put_next (put_prev (put_next m h (Some ?f)) h (Some ?l)) ?l (Some h)) ?f (Some h)"
  have r: "http2d_list_reparent m l h = Some ?m"
    using n mm fl assms(4) ne list_empty [OF assms(1)] assms(2)
    by (auto simp: http2d_list_reparent_def set_put put_next_def put_prev_def set_next_def set_prev_def)
  have "ring ?m (h # xs)" using ring_link [of m xs "Some l" "Some l" h] assms by (auto simp: dlist_def ring_def)
  with r fl show ?thesis by (auto simp: dlist_def)
qed

lemma dlist_cong: "(\<And>a. a \<in> insert h (set xs) \<Longrightarrow> m' a = m a) \<Longrightarrow> dlist m' h xs = dlist m h xs"
  unfolding dlist_def by (rule ring_cong) simp

lemma dlist_same: "dlist m h xs \<Longrightarrow> \<forall>a. a = h \<or> a \<in> set xs \<longrightarrow> m' a = m a \<Longrightarrow> dlist m' h xs"
  using dlist_cong [of h xs m' m] by auto

lemma dlist_upd: "dlist m h xs \<Longrightarrow> a \<notin> insert h (set xs) \<Longrightarrow> dlist (m(a := n)) h xs"
  by (erule dlist_same) auto

lemma dlist_frame: "touches S m m' \<Longrightarrow> S \<inter> insert h (set xs) = {} \<Longrightarrow> dlist m h xs \<Longrightarrow> dlist m' h xs"
  using dlist_cong [of h xs m' m] unfolding touches_def by blast

lemma dlist_distinct: "dlist m h xs \<Longrightarrow> distinct (h # xs)"
  by (simp add: dlist_def ring_def)

lemma dlist_chain: "dlist m h xs \<Longrightarrow> nexts m xs (Some h) \<and> (\<exists>n. m h = Some n \<and> le_next n = first_of xs (Some h))"
  by (auto simp: dlist_def ring_def)

lemma len_loop_chain:
  "nexts m xs (Some h) \<Longrightarrow> h \<notin> set xs \<Longrightarrow> n + length xs < 2 ^ 32 \<Longrightarrow> len_loop m h (first_of xs (Some h)) n = Some (n + length xs)"
proof (induction xs arbitrary: n)
  case Nil
  then show ?case by (simp add: len_loop.simps)
next
  case (Cons x xs)
  then obtain e where "m x = Some e" "le_next e = first_of xs (Some h)" by auto
  then show ?case using Cons by (simp add: len_loop.simps [of m h "Some x"] u32_id)
qed

lemma list_get_len: "dlist m h xs \<Longrightarrow> length xs < 2 ^ 32 \<Longrightarrow> http2d_list_get_len m h = Some (ret_ok, length xs)"
  using len_loop_chain [of m xs h 0] dlist_chain [of m h xs] dlist_distinct [of m h xs] by (auto simp: http2d_list_get_len_def)

lemma invert_loop_chain:
  "nexts m (x # xs) (Some h) \<Longrightarrow> dlist m l ys \<Longrightarrow> distinct (h # l # x # xs @ ys) \<Longrightarrow> m h \<noteq> None \<Longrightarrow>
   \<exists>m'. invert_loop m h l (Some x) (first_of xs (Some h)) = Some m' \<and> dlist m' l (rev (x # xs) @ ys) \<and>
     touches (insert l (set (x # xs @ ys))) m m'"
proof (induction xs arbitrary: m x ys)
  case Nil
  obtain m' where m': "http2d_list_add m x l = Some m'" "dlist m' l (x # ys)" "touches (insert x (set (l # ys))) m m'"
    using list_add [OF Nil(2), of x] Nil(1,3) by auto
  moreover from m'(3) have "m' h = m h" using Nil(3) by (auto simp: touches_def)
  moreover from m'(3) have "touches (insert l (set (x # [] @ ys))) m m'" by (simp add: insert_commute)
  ultimately show ?case using Nil(3,4) by (auto simp: invert_loop.simps [of _ _ _ "Some _"])
next
  case (Cons y xs)
  obtain m1 where m1: "http2d_list_add m x l = Some m1" "dlist m1 l (x # ys)" "touches (insert x (set (l # ys))) m m1"
    using list_add [OF Cons.prems(2), of x] Cons.prems(1,3) by auto
  have same: "m1 a = m a" if "a \<in> insert h (set (y # xs))" for a using m1(3) Cons.prems(3) that by (auto simp: touches_def)
  have c: "nexts m1 (y # xs) (Some h)" using Cons.prems(1) nexts_cong [of "y # xs" m1 m "Some h"] same by auto
  from Cons.IH [OF c m1(2)] Cons.prems(3,4) same [of h] obtain m'
    where m': "invert_loop m1 h l (Some y) (first_of xs (Some h)) = Some m'" "dlist m' l (rev (y # xs) @ x # ys)"
      "touches (insert l (set (y # xs @ x # ys))) m1 m'" by auto
  obtain e where e: "m1 y = Some e" "le_next e = first_of xs (Some h)" using c by auto
  have "touches (insert l (set (x # (y # xs) @ ys))) m m'"
    by (rule touches_trans [OF touches_mono [OF m1(3)] touches_mono [OF m'(3)]]) auto
  moreover have "invert_loop m h l (Some x) (Some y) = Some m'"
    using m1(1) m'(1) e Cons.prems(3) by (simp add: invert_loop.simps [of m h l "Some x"])
  ultimately show ?case using m'(2) by auto
qed

lemma list_invert:
  assumes "dlist m h xs" "l \<notin> insert h (set xs)" "m l = None"
  shows "\<exists>m'. http2d_list_invert m l h = Some (ret_ok, m') \<and> dlist m' h (rev xs) \<and> touches (insert h (set xs)) m m'"
proof -
  let ?m0 = "m(l \<mapsto> \<lparr>le_next = None, le_prev = None\<rparr>)"
  obtain m1 where m1: "INIT_LIST_HEAD ?m0 l = Some m1" "dlist m1 l []" "touches {l} ?m0 m1" using list_init [of ?m0 l] by auto
  have same: "m1 a = m a" if "a \<noteq> l" for a using m1(3) that by (auto simp: touches_def)
  have d: "dlist m1 h xs" using same assms(2) by (intro dlist_same [OF assms(1)]) (metis insert_iff)
  then obtain n where n: "m1 h = Some n" "le_next n = first_of xs (Some h)" using dlist_chain by blast
  show ?thesis
  proof (cases xs)
    case Nil
    have "m1(l := None) = m" using same assms(3) by (auto simp: fun_eq_iff)
    then show ?thesis using assms(1) m1 n Nil list_empty [OF m1(2)]
      by (auto simp: http2d_list_invert_def invert_loop.simps http2d_list_reparent_def)
  next
    case (Cons x ys)
    obtain e where e: "m1 x = Some e" "le_next e = first_of ys (Some h)" using dlist_chain [OF d] Cons by auto
    have "distinct (h # l # x # ys @ [])" using dlist_distinct [OF assms(1)] assms(2) Cons by auto
    from invert_loop_chain [OF _ m1(2) this] dlist_chain [OF d] Cons
    obtain m2 where m2: "invert_loop m1 h l (Some x) (first_of ys (Some h)) = Some m2" "dlist m2 l (rev xs)" "touches (insert l (set xs)) m1 m2"
      by auto
    have "m2 h = m1 h" using m2(3) assms(1,2) dlist_distinct [OF assms(1)] by (auto simp: touches_def)
    with n assms(2) dlist_distinct [OF assms(1)] have "h \<notin> set (l # rev xs)" "m2 h \<noteq> None" "rev xs \<noteq> []" using Cons by auto
    from list_reparent [OF m2(2) this(3,1,2)]
    obtain m3 where m3: "http2d_list_reparent m2 l h = Some m3" "dlist m3 h (rev xs)" "touches (insert h (set xs)) m2 m3" by auto
    have "dlist (m3(l := None)) h (rev xs)" using assms(2) by (intro dlist_upd [OF m3(2)]) auto
    moreover have "touches (insert h (set xs)) m (m3(l := None))"
      using m2(3) m3(3) m1(3) same assms(3) unfolding touches_def by (auto split: if_splits)
    moreover have "http2d_list_invert m l h = Some (ret_ok, m3(l := None))"
      using m1(1) m2(1) m3(1) n e Cons by (simp add: http2d_list_invert_def)
    ultimately show ?thesis by blast
  qed
qed

lemma add_content:
  assumes "dlist m h xs" "m a = None"
  shows "\<exists>m'. http2d_list_add_content m im (Some a) h c = Some (ret_ok, m', im(a \<mapsto> c)) \<and> dlist m' h (a # xs)"
    and "\<exists>m'. http2d_list_add_tail_content m im (Some a) h c = Some (ret_ok, m', im(a \<mapsto> c)) \<and> dlist m' h (xs @ [a])"
proof -
  let ?m0 = "m(a \<mapsto> \<lparr>le_next = None, le_prev = None\<rparr>)"
  obtain m1 where m1: "INIT_LIST_HEAD ?m0 a = Some m1" "touches {a} ?m0 m1" using list_init [of ?m0 a] by auto
  have a: "a \<notin> set (h # xs)" using assms ring_mem [of m "h # xs" a] by (auto simp: dlist_def)
  have d: "dlist m1 h xs" using m1(2) a by (intro dlist_same [OF assms(1)]) (auto simp: touches_def)
  have ma: "m1 a \<noteq> None" using m1(2) by (auto simp: touches_def)
  show "\<exists>m'. http2d_list_add_content m im (Some a) h c = Some (ret_ok, m', im(a \<mapsto> c)) \<and> dlist m' h (a # xs)"
    using list_add [OF d a ma] m1(1) by (auto simp: http2d_list_add_content_def add_content_by_def)
  show "\<exists>m'. http2d_list_add_tail_content m im (Some a) h c = Some (ret_ok, m', im(a \<mapsto> c)) \<and> dlist m' h (xs @ [a])"
    using list_add_tail [OF d a ma] m1(1) by (auto simp: http2d_list_add_tail_content_def add_content_by_def)
qed

definition contents :: "'i item_mem \<Rightarrow> lptr list \<Rightarrow> 'i list" where
  "contents im xs = List.map_filter (\<lambda>a. case im a of Some c \<Rightarrow> c | None \<Rightarrow> None) xs"

lemma contents_simps [simp]: "contents im [] = []" "im a = Some (Some c) \<Longrightarrow> contents im (a # xs) = c # contents im xs"
  "im a = Some None \<Longrightarrow> contents im (a # xs) = contents im xs"
  by (auto simp: contents_def map_filter_def)

lemma contents_cong: "(\<And>a. a \<in> set xs \<Longrightarrow> im' a = im a) \<Longrightarrow> contents im' xs = contents im xs"
  by (induction xs) (auto simp: contents_def map_filter_def split: option.splits)

lemma content_free_loop_chain:
  "dlist m h (x # xs) \<Longrightarrow> (\<And>a. a \<in> set (x # xs) \<Longrightarrow> im a \<noteq> None) \<Longrightarrow>
   \<exists>m'. content_free_loop ff m im h (Some x) (first_of xs (Some h)) fs =
      Some (m', im |` (- set (x # xs)), if ff then fs @ contents im (x # xs) else fs) \<and>
     dlist m' h [] \<and> (\<forall>a. a \<notin> set (h # x # xs) \<longrightarrow> m' a = m a) \<and> (\<forall>a. a \<in> set (x # xs) \<longrightarrow> m' a = None)"
proof (induction xs arbitrary: m im x fs)
  case (Cons y xs)
  have "dlist m h ([] @ x # y # xs)" using Cons.prems(1) by simp
  from list_del [OF this] obtain m1 where m1: "http2d_list_del m x = Some m1" "dlist m1 h (y # xs)" "touches (set (h # y # xs)) m m1"
    by auto
  obtain c where c: "im x = Some c" using Cons.prems(2) [of x] by auto
  have dist: "distinct (h # x # y # xs)" using dlist_distinct [OF Cons.prems(1)] .
  have d: "dlist (m1(x := None)) h (y # xs)" using dist by (intro dlist_upd [OF m1(2)]) auto
  let ?im = "im(x := None)"
  let ?fs = "case c of Some c \<Rightarrow> if ff then fs @ [c] else fs | None \<Rightarrow> fs"
  have im: "?im a \<noteq> None" if "a \<in> set (y # xs)" for a using Cons.prems(2) [of a] dist that by auto
  from Cons.IH [where im = ?im and fs = ?fs, OF d im]
  obtain m' where m': "content_free_loop ff (m1(x := None)) ?im h (Some y) (first_of xs (Some h)) ?fs =
       Some (m', ?im |` (- set (y # xs)), if ff then ?fs @ contents ?im (y # xs) else ?fs)"
     "dlist m' h []" "\<forall>a. a \<notin> set (h # y # xs) \<longrightarrow> m' a = (m1(x := None)) a" "\<forall>a. a \<in> set (y # xs) \<longrightarrow> m' a = None" by blast
  have i: "?im |` (- set (y # xs)) = im |` (- set (x # y # xs))" by (auto simp: restrict_map_def fun_eq_iff)
  have k: "contents ?im (y # xs) = contents im (y # xs)" using dist by (intro contents_cong) auto
  have fs: "(if ff then ?fs @ contents im (y # xs) else ?fs) = (if ff then fs @ contents im (x # y # xs) else fs)"
    using c by (cases c) auto
  obtain e where e: "m1 y = Some e" "le_next e = first_of xs (Some h)" using dlist_chain [OF m1(2)] by auto
  have "content_free_loop ff m im h (Some x) (Some y) fs = Some (m', im |` (- set (x # y # xs)), if ff then fs @ contents im (x # y # xs) else fs)"
    using m'(1) m1(1) e c dist unfolding i k fs
    by (subst content_free_loop.simps) (simp add: http2d_list_content_free_item_def)
  moreover have "\<forall>a. a \<notin> set (h # x # y # xs) \<longrightarrow> m' a = m a" using m'(3) m1(3) by (auto simp: touches_def)
  moreover have "\<forall>a. a \<in> set (x # y # xs) \<longrightarrow> m' a = None" using m'(3,4) dist by auto
  ultimately show ?case using m'(2) by auto
next
  case Nil
  have "dlist m h ([] @ x # [])" using Nil.prems(1) by simp
  from list_del [OF this] obtain m1 where m1: "http2d_list_del m x = Some m1" "dlist m1 h []" "touches {h} m m1" by auto
  obtain c where c: "im x = Some c" using Nil.prems(2) [of x] by auto
  have dist: "h \<noteq> x" "x \<noteq> h" using dlist_distinct [OF Nil.prems(1)] by auto
  have d: "dlist (m1(x := None)) h []" using dist by (intro dlist_upd [OF m1(2)]) auto
  obtain e where e: "m1 h = Some e" using dlist_chain [OF m1(2)] by auto
  have i: "im(x := None) = im |` (- {x})" by (auto simp: restrict_map_def fun_eq_iff)
  have "content_free_loop ff m im h (Some x) (Some h) fs = Some (m1(x := None), im |` (- {x}), if ff then fs @ contents im [x] else fs)"
    using m1(1) c dist e by (subst content_free_loop.simps, subst content_free_loop.simps)
      (cases c; simp add: http2d_list_content_free_item_def i)
  moreover have "\<forall>a. a \<notin> set [h, x] \<longrightarrow> (m1(x := None)) a = m a" using m1(3) by (auto simp: touches_def)
  ultimately show ?case using d by auto
qed

lemma list_content_free:
  assumes "dlist m h xs" "\<And>a. a \<in> set xs \<Longrightarrow> im a \<noteq> None"
  shows "\<exists>m'. http2d_list_content_free ff m im h = Some (ret_ok, m', im |` (- set xs), if ff then contents im xs else []) \<and>
    dlist m' h [] \<and> (\<forall>a. a \<notin> insert h (set xs) \<longrightarrow> m' a = m a) \<and> (\<forall>a. a \<in> set xs \<longrightarrow> m' a = None)"
proof (cases xs)
  case Nil
  obtain n where n: "m h = Some n" "le_next n = Some h" using dlist_chain [OF assms(1)] Nil by auto
  obtain m' where m': "INIT_LIST_HEAD m h = Some m'" "dlist m' h []" "touches {h} m m'" using list_init [of m h] n by auto
  then show ?thesis using n Nil
    by (auto simp: http2d_list_content_free_def content_free_loop.simps touches_def restrict_map_def)
next
  case (Cons x ys)
  from content_free_loop_chain [of m h x ys im ff "[]"] assms Cons
  obtain m1 where m1: "content_free_loop ff m im h (Some x) (first_of ys (Some h)) [] = Some (m1, im |` (- set xs), if ff then contents im xs else [])"
    "dlist m1 h []" "\<forall>a. a \<notin> insert h (set xs) \<longrightarrow> m1 a = m a" "\<forall>a. a \<in> set xs \<longrightarrow> m1 a = None" by auto
  obtain n e where n: "m h = Some n" "le_next n = Some x" "m x = Some e" "le_next e = first_of ys (Some h)" using dlist_chain [OF assms(1)] Cons by auto
  obtain m' where m': "INIT_LIST_HEAD m1 h = Some m'" "dlist m' h []" "touches {h} m1 m'"
    using list_init [of m1 h] dlist_chain [OF m1(2)] by auto
  have "h \<notin> set xs" using dlist_distinct [OF assms(1)] by simp
  with m' m1 n show ?thesis by (intro exI [of _ m']) (auto simp: http2d_list_content_free_def touches_def)
qed

subsection \<open>Several lists in one memory\<close>

text \<open>What a client relies on: lists of addresses that share a memory, where adding to one and removing from one
  leave the others alone.\<close>

locale linked_lists =
  fixes is_list :: "'m \<Rightarrow> nat \<Rightarrow> nat list \<Rightarrow> bool"
    and entry :: "'m \<Rightarrow> nat \<Rightarrow> bool"
    and ins :: "'m \<Rightarrow> nat \<Rightarrow> nat \<Rightarrow> 'm option"
    and rem :: "'m \<Rightarrow> nat \<Rightarrow> 'm option"
  assumes list_distinct: "is_list m h xs \<Longrightarrow> distinct (h # xs)"
    and list_entries: "is_list m h xs \<Longrightarrow> a \<in> set (h # xs) \<Longrightarrow> entry m a"
    and ins_law: "is_list m h xs \<Longrightarrow> a \<notin> set (h # xs) \<Longrightarrow> entry m a \<Longrightarrow>
      \<exists>m'. ins m a h = Some m' \<and> is_list m' h (a # xs) \<and> (\<forall>b. entry m' b \<longleftrightarrow> entry m b) \<and>
        (\<forall>g ys. is_list m g ys \<and> set (g # ys) \<inter> set (h # a # xs) = {} \<longrightarrow> is_list m' g ys)"
    and rem_law: "is_list m h (xs @ a # ys) \<Longrightarrow>
      \<exists>m'. rem m a = Some m' \<and> is_list m' h (xs @ ys) \<and> (\<forall>b. entry m' b \<longleftrightarrow> entry m b) \<and>
        (\<forall>g zs. is_list m g zs \<and> set (g # zs) \<inter> set (h # xs @ a # ys) = {} \<longrightarrow> is_list m' g zs)"
begin

definition family :: "'m \<Rightarrow> ('i \<Rightarrow> nat) \<Rightarrow> ('i \<Rightarrow> nat list) \<Rightarrow> bool" where
  "family m H L \<longleftrightarrow> (\<forall>i. is_list m (H i) (L i)) \<and> (\<forall>i j. i \<noteq> j \<longrightarrow> set (H i # L i) \<inter> set (H j # L j) = {})"

lemma family_list: "family m H L \<Longrightarrow> is_list m (H i) (L i)"
  by (simp add: family_def)

lemma family_entry: "family m H L \<Longrightarrow> a \<in> set (H i # L i) \<Longrightarrow> entry m a"
  by (rule list_entries [OF family_list])

lemma family_disjoint: "family m H L \<Longrightarrow> i \<noteq> j \<Longrightarrow> set (H i # L i) \<inter> set (H j # L j) = {}"
  by (simp add: family_def)

lemma family_unique: "family m H L \<Longrightarrow> a \<in> set (L i) \<Longrightarrow> a \<in> set (L j) \<Longrightarrow> i = j"
  using family_disjoint [of m H L i j] by auto

lemma family_head: "family m H L \<Longrightarrow> a \<in> set (L i) \<Longrightarrow> a \<noteq> H j"
  using family_disjoint [of m H L i j] list_distinct [OF family_list, of m H L i] by (cases "i = j") auto

lemma family_ins:
  assumes "family m H L" "\<forall>i. a \<notin> set (H i # L i)" "entry m a"
  shows "\<exists>m'. ins m a (H i) = Some m' \<and> family m' H (L(i := a # L i)) \<and> (\<forall>b. entry m' b \<longleftrightarrow> entry m b)"
proof -
  obtain m' where m': "ins m a (H i) = Some m'" "is_list m' (H i) (a # L i)" "\<forall>b. entry m' b \<longleftrightarrow> entry m b"
    "\<forall>g ys. is_list m g ys \<and> set (g # ys) \<inter> set (H i # a # L i) = {} \<longrightarrow> is_list m' g ys"
    using ins_law [OF family_list [OF assms(1), of i], of a] assms(2,3) by blast
  have "is_list m' (H j) (L j)" if "j \<noteq> i" for j
    using m'(4) family_list [OF assms(1), of j] family_disjoint [OF assms(1) that] assms(2) by auto
  then have "family m' H (L(i := a # L i))" using m'(2) assms(1,2) unfolding family_def by auto
  with m' show ?thesis by blast
qed

lemma family_rem:
  assumes "family m H L" "L i = xs @ a # ys"
  shows "\<exists>m'. rem m a = Some m' \<and> family m' H (L(i := xs @ ys)) \<and> (\<forall>b. entry m' b \<longleftrightarrow> entry m b)"
proof -
  have "is_list m (H i) (xs @ a # ys)" using family_list [OF assms(1), of i] assms(2) by simp
  from rem_law [OF this] obtain m' where m': "rem m a = Some m'" "is_list m' (H i) (xs @ ys)" "\<forall>b. entry m' b \<longleftrightarrow> entry m b"
    "\<forall>g zs. is_list m g zs \<and> set (g # zs) \<inter> set (H i # xs @ a # ys) = {} \<longrightarrow> is_list m' g zs" by blast
  have "is_list m' (H j) (L j)" if "j \<noteq> i" for j
    using m'(4) family_list [OF assms(1), of j] family_disjoint [OF assms(1) that] assms(2) by auto
  note other = this
  have sub: "set (H j # (L(i := xs @ ys)) j) \<subseteq> set (H j # L j)" for j using assms(2) by auto
  have "family m' H (L(i := xs @ ys))"
    unfolding family_def
  proof (intro conjI allI impI)
    fix j k
    show "is_list m' (H j) ((L(i := xs @ ys)) j)" using m'(2) other by simp
    assume "j \<noteq> k"
    with sub [of j] sub [of k] family_disjoint [OF assms(1)] show "set (H j # (L(i := xs @ ys)) j) \<inter> set (H k # (L(i := xs @ ys)) k) = {}" by blast
  qed
  with m' show ?thesis by blast
qed

text \<open>Moving an entry to the front of a list of the family: of its own or of another one.\<close>

lemma family_move:
  assumes "family m H L" "L i = xs @ a # ys"
  shows "\<exists>m1 m'. rem m a = Some m1 \<and> ins m1 a (H j) = Some m' \<and> (\<forall>b. entry m' b \<longleftrightarrow> entry m b) \<and>
    family m' H ((L(i := xs @ ys))(j := a # (L(i := xs @ ys)) j))"
proof -
  obtain m1 where m1: "rem m a = Some m1" "family m1 H (L(i := xs @ ys))" "\<forall>b. entry m1 b \<longleftrightarrow> entry m b" using family_rem [OF assms] by blast
  have a: "a \<in> set (L i)" using assms(2) by simp
  have "a \<notin> set (xs @ ys)" using list_distinct [OF family_list [OF assms(1), of i]] assms(2) by auto
  moreover have "a \<notin> set (L k)" if "k \<noteq> i" for k using family_unique [OF assms(1) a] that by blast
  ultimately have "\<forall>k. a \<notin> set (H k # (L(i := xs @ ys)) k)" using family_head [OF assms(1) a] by auto
  moreover have "entry m1 a" using m1(3) family_entry [OF assms(1), of a i] a by simp
  ultimately show ?thesis using family_ins [OF m1(2)] m1 by blast
qed

end

interpretation dl: linked_lists dlist "\<lambda>m a. m a \<noteq> None" http2d_list_add http2d_list_del
proof unfold_locales
  fix m h xs a
  show "dlist m h xs \<Longrightarrow> distinct (h # xs)" by (rule dlist_distinct)
  show "dlist m h xs \<Longrightarrow> a \<in> set (h # xs) \<Longrightarrow> m a \<noteq> None" unfolding dlist_def by (rule ring_mem)
next
  fix m h xs a assume "dlist m h xs" "a \<notin> set (h # xs)" "m a \<noteq> None"
  from list_add [OF this] obtain m' where m': "http2d_list_add m a h = Some m'" "dlist m' h (a # xs)" "touches (insert a (set (h # xs))) m m'" by blast
  have "dlist m' g ys" if "dlist m g ys" "set (g # ys) \<inter> set (h # a # xs) = {}" for g ys
    by (rule dlist_frame [OF m'(3) _ that(1)]) (use that(2) in auto)
  then show "\<exists>m'. http2d_list_add m a h = Some m' \<and> dlist m' h (a # xs) \<and> (\<forall>b. (m' b \<noteq> None) = (m b \<noteq> None)) \<and>
      (\<forall>g ys. dlist m g ys \<and> set (g # ys) \<inter> set (h # a # xs) = {} \<longrightarrow> dlist m' g ys)"
    using m' by (intro exI [of _ m'] conjI) (simp_all add: touches_def)
next
  fix m h xs a ys assume "dlist m h (xs @ a # ys)"
  from list_del [OF this] obtain m' where m': "http2d_list_del m a = Some m'" "dlist m' h (xs @ ys)" "touches (set (h # xs @ ys)) m m'" by blast
  have "dlist m' g zs" if "dlist m g zs" "set (g # zs) \<inter> set (h # xs @ a # ys) = {}" for g zs
    by (rule dlist_frame [OF m'(3) _ that(1)]) (use that(2) in auto)
  then show "\<exists>m'. http2d_list_del m a = Some m' \<and> dlist m' h (xs @ ys) \<and> (\<forall>b. (m' b \<noteq> None) = (m b \<noteq> None)) \<and>
      (\<forall>g zs. dlist m g zs \<and> set (g # zs) \<inter> set (h # xs @ a # ys) = {} \<longrightarrow> dlist m' g zs)"
    using m' by (intro exI [of _ m'] conjI) (simp_all add: touches_def)
qed

end
