(* ===== verification/Cache.thy ===== *)
theory Cache
  imports Avl List_Links
begin

text \<open>
  The adaptive replacement cache, \<^verbatim>\<open>src/src/cache.c\<close>. An entry is the object at an address; its list links are the
  entry of the link memory at the same address, because \<open>listed\<close> is the first member of the structure. The four lists
  and their lengths are families over the names \<open>t1\<close>, \<open>t2\<close>, \<open>b1\<close>, \<open>b2\<close> that the macros paste into the field names.

  What a derived class adds to an entry is the field \<open>ce_obj\<close>; its virtual methods, which may look at the whole entry
  and change the added part and the environment \<open>c_env\<close>, are a record. Every public function holds the mutex of the
  cache from its first access to its last, so that a function is one step; the mutexes of the entries are not modelled.
  Addresses that \<open>malloc\<close> returns are arguments.
\<close>

subsection \<open>Data\<close>

datatype cache_list = cache_no_list | cache_t1 | cache_t2 | cache_b1 | cache_b2

datatype list_name = T1 | T2 | B1 | B2

fun list_tag :: "list_name \<Rightarrow> cache_list" where
  "list_tag T1 = cache_t1" | "list_tag T2 = cache_t2" | "list_tag B1 = cache_b1" | "list_tag B2 = cache_b2"

record 'x cache_entry =
  ce_key :: buffer
  in_list :: cache_list
  ref_count :: int
  ce_obj :: 'x

record ('x, 'e) cache_class =
  new_obj :: 'x
  clean_cb :: "'x cache_entry \<Rightarrow> 'e \<Rightarrow> ret_t \<times> 'x \<times> 'e"
  fetch_cb :: "('x cache_entry \<Rightarrow> 'e \<Rightarrow> ret_t \<times> 'x \<times> 'e) option"
  free_cb :: "'x cache_entry \<Rightarrow> 'e \<Rightarrow> 'e"

record ('x, 'e) cache =
  c_map :: avl_t
  c_nodes :: "lptr avl_buf_mem"
  c_links :: list_mem
  c_entries :: "lptr \<Rightarrow> 'x cache_entry option"
  c_head :: "list_name \<Rightarrow> lptr"
  c_len :: "list_name \<Rightarrow> int"
  max_size :: int
  target_t1 :: int
  c_count :: nat
  count_hit :: nat
  count_miss :: nat
  c_env :: 'e

definition DEFAULT_MAX_SIZE :: int where "DEFAULT_MAX_SIZE = 4 * 10"

definition set_entry :: "('x, 'e) cache \<Rightarrow> lptr \<Rightarrow> ('x cache_entry \<Rightarrow> 'x cache_entry) \<Rightarrow> ('x, 'e) cache option" where
  "set_entry c a f = do { e \<leftarrow> c_entries c a; Some (c\<lparr>c_entries := (c_entries c)(a \<mapsto> f e)\<rparr>) }"

text \<open>The conversion of an \<open>int\<close> to \<open>unsigned int\<close>, and the division of \<open>int\<close>s, which rounds to zero.\<close>

definition uint_of :: "int \<Rightarrow> nat" where
  "uint_of i = nat (i mod 2 ^ 32)"

definition idiv :: "int \<Rightarrow> int \<Rightarrow> int option" where
  "idiv a b = (if b = 0 then None else Some (sgn a * sgn b * (\<bar>a\<bar> div \<bar>b\<bar>)))"

subsection \<open>The lists\<close>

definition cache_list_add :: "list_name \<Rightarrow> lptr \<Rightarrow> ('x, 'e) cache \<Rightarrow> ('x, 'e) cache option" where
  "cache_list_add l a c = do {
     m \<leftarrow> http2d_list_add (c_links c) a (c_head c l);
     set_entry (c\<lparr>c_links := m, c_len := (c_len c)(l := c_len c l + 1)\<rparr>) a (\<lambda>e. e\<lparr>in_list := list_tag l\<rparr>) }"

definition cache_list_del :: "list_name \<Rightarrow> lptr \<Rightarrow> ('x, 'e) cache \<Rightarrow> ('x, 'e) cache option" where
  "cache_list_del l a c = do {
     c \<leftarrow> set_entry c a (\<lambda>e. e\<lparr>in_list := cache_no_list\<rparr>);
     m \<leftarrow> http2d_list_del (c_links c) a;
     Some (c\<lparr>c_links := m, c_len := (c_len c)(l := c_len c l - 1)\<rparr>) }"

text \<open>The variable \<open>ret_entry\<close> is null before.\<close>

definition cache_list_get_lru :: "list_name \<Rightarrow> ('x, 'e) cache \<Rightarrow> lptr option option" where
  "cache_list_get_lru l c = do {
     empty \<leftarrow> http2d_list_empty (c_links c) (c_head c l);
     h \<leftarrow> c_links c (c_head c l);
     Some (if empty then None else le_prev h) }"

definition cache_list_make_first :: "list_name \<Rightarrow> lptr \<Rightarrow> ('x, 'e) cache \<Rightarrow> ('x, 'e) cache option" where
  "cache_list_make_first l a c = do {
     m \<leftarrow> http2d_list_del (c_links c) a;
     m \<leftarrow> http2d_list_add m a (c_head c l);
     Some (c\<lparr>c_links := m\<rparr>) }"

definition cache_list_swap :: "list_name \<Rightarrow> list_name \<Rightarrow> lptr \<Rightarrow> ('x, 'e) cache \<Rightarrow> ('x, 'e) cache option" where
  "cache_list_swap from to a c = do { c \<leftarrow> cache_list_del from a c; cache_list_add to a c }"

subsection \<open>Entries\<close>

text \<open>\<open>malloc\<close> of an entry and its initialisation: what a derived class does in \<open>new_cb\<close> before it sets its own fields.\<close>

definition http2d_cache_entry_init :: "heap \<Rightarrow> 'x \<Rightarrow> ('x, 'e) cache \<Rightarrow> lptr \<Rightarrow> buffer \<Rightarrow> (ret_t \<times> ('x, 'e) cache) option" where
  "http2d_cache_entry_init h x c a key = do {
     m \<leftarrow> INIT_LIST_HEAD ((c_links c)(a \<mapsto> \<lparr>le_next = None, le_prev = None\<rparr>)) a;
     (_, k) \<leftarrow> http2d_buffer_add_buffer h HTTP2D_BUF_INIT key;
     Some (ret_ok, c\<lparr>c_links := m,
       c_entries := (c_entries c)(a \<mapsto> \<lparr>ce_key = k, in_list = cache_no_list, ref_count = 0, ce_obj = x\<rparr>)\<rparr>) }"

definition entry_free :: "('x, 'e) cache_class \<Rightarrow> ('x, 'e) cache \<Rightarrow> lptr \<Rightarrow> ('x, 'e) cache option" where
  "entry_free cls c a = do {
     e \<leftarrow> c_entries c a;
     Some (c\<lparr>c_env := free_cb cls e (c_env c), c_entries := (c_entries c)(a := None), c_links := (c_links c)(a := None)\<rparr>) }"

definition entry_parent_info_clean :: "('x, 'e) cache_class \<Rightarrow> ('x, 'e) cache \<Rightarrow> lptr \<Rightarrow> (ret_t \<times> ('x, 'e) cache) option" where
  "entry_parent_info_clean cls c a = do {
     e \<leftarrow> c_entries c a;
     if ref_count e > 0 then Some (ret_ok, c)
     else (case clean_cb cls e (c_env c) of (ret, x, env) \<Rightarrow> do {
       c \<leftarrow> set_entry (c\<lparr>c_env := env\<rparr>) a (\<lambda>e. e\<lparr>ce_obj := x\<rparr>);
       Some (ret, c) }) }"

definition entry_parent_info_fetch :: "('x, 'e) cache_class \<Rightarrow> ('x, 'e) cache \<Rightarrow> lptr \<Rightarrow> (ret_t \<times> ('x, 'e) cache) option" where
  "entry_parent_info_fetch cls c a =
     (case fetch_cb cls of None \<Rightarrow> Some (ret_error, c)
      | Some f \<Rightarrow> do {
          e \<leftarrow> c_entries c a;
          (case f e (c_env c) of (ret, x, env) \<Rightarrow> do {
             c \<leftarrow> set_entry (c\<lparr>c_env := env\<rparr>) a (\<lambda>e. e\<lparr>ce_obj := x\<rparr>);
             Some (ret, c) }) })"

definition entry_ref :: "('x, 'e) cache \<Rightarrow> lptr \<Rightarrow> ('x, 'e) cache option" where
  "entry_ref c a = set_entry c a (\<lambda>e. e\<lparr>ref_count := ref_count e + 1\<rparr>)"

definition unlist :: "cache_list \<Rightarrow> lptr \<Rightarrow> ('x, 'e) cache \<Rightarrow> ('x, 'e) cache option" where
  "unlist where_in a c =
     (case where_in of
        cache_t1 \<Rightarrow> cache_list_del T1 a c
      | cache_t2 \<Rightarrow> cache_list_del T2 a c
      | cache_b1 \<Rightarrow> cache_list_del B1 a c
      | cache_b2 \<Rightarrow> cache_list_del B2 a c
      | cache_no_list \<Rightarrow> Some c)"

text \<open>The caller's pointer is null afterwards in every case.\<close>

definition entry_unref_guts :: "('x, 'e) cache_class \<Rightarrow> ('x, 'e) cache \<Rightarrow> lptr option \<Rightarrow> (ret_t \<times> ('x, 'e) cache) option" where
  "entry_unref_guts cls c entry_p =
     (case entry_p of None \<Rightarrow> Some (ret_ok, c)
      | Some a \<Rightarrow> do {
          c \<leftarrow> set_entry c a (\<lambda>e. e\<lparr>ref_count := ref_count e - 1\<rparr>);
          e \<leftarrow> c_entries c a;
          if ref_count e > 0 then Some (ret_eagain, c)
          else do {
            (_, _, avl, nodes) \<leftarrow> http2d_avl_del (c_map c) (c_nodes c) (ce_key e);
            c \<leftarrow> Some (c\<lparr>c_map := avl, c_nodes := nodes\<rparr>);
            c \<leftarrow> unlist (in_list e) a c;
            (_, c) \<leftarrow> entry_parent_info_clean cls c a;
            c \<leftarrow> entry_free cls c a;
            Some (ret_ok, c) } })"

definition http2d_cache_entry_unref :: "('x, 'e) cache_class \<Rightarrow> ('x, 'e) cache \<Rightarrow> lptr option \<Rightarrow> (ret_t \<times> ('x, 'e) cache) option" where
  "http2d_cache_entry_unref cls c entry = (case entry of None \<Rightarrow> Some (ret_ok, c) | Some a \<Rightarrow> entry_unref_guts cls c (Some a))"

subsection \<open>The cache\<close>

text \<open>\<open>c\<close> is the uninitialised structure, \<open>priv\<close> whether the memory for its private part was available.\<close>

definition http2d_cache_init :: "bool \<Rightarrow> ('x, 'e) cache \<Rightarrow> (ret_t \<times> ('x, 'e) cache) option" where
  "http2d_cache_init priv c =
     (if \<not> priv then Some (ret_nomem, c)
      else do {
        m \<leftarrow> INIT_LIST_HEAD (c_links c) (c_head c T1);
        m \<leftarrow> INIT_LIST_HEAD m (c_head c T2);
        m \<leftarrow> INIT_LIST_HEAD m (c_head c B1);
        m \<leftarrow> INIT_LIST_HEAD m (c_head c B2);
        Some (ret_ok, c\<lparr>c_links := m, c_map := snd (http2d_avl_init (c_map c)), c_len := (\<lambda>_. 0), c_count := 0, count_hit := 0,
          count_miss := 0, max_size := DEFAULT_MAX_SIZE, target_t1 := 0\<rparr>) })"

text \<open>The values of the tree are handed to \<open>entry_free\<close> in order.\<close>

fun free_values :: "('x, 'e) cache_class \<Rightarrow> lptr option list \<Rightarrow> ('x, 'e) cache \<Rightarrow> ('x, 'e) cache option" where
  "free_values cls [] c = Some c"
| "free_values cls (v # vs) c = do { a \<leftarrow> v; c \<leftarrow> entry_free cls c a; free_values cls vs c }"

definition http2d_cache_mrproper :: "('x, 'e) cache_class \<Rightarrow> ('x, 'e) cache \<Rightarrow> (ret_t \<times> ('x, 'e) cache) option" where
  "http2d_cache_mrproper cls c = do {
     (_, vs, nodes) \<leftarrow> http2d_avl_mrproper (c_map c) (c_nodes c);
     c \<leftarrow> free_values cls vs (c\<lparr>c_nodes := nodes\<rparr>);
     Some (ret_ok, c) }"

definition move_to_ghost :: "list_name \<Rightarrow> list_name \<Rightarrow> ('x, 'e) cache_class \<Rightarrow> ('x, 'e) cache \<Rightarrow> ('x, 'e) cache option" where
  "move_to_ghost from to cls c = do {
     tmp \<leftarrow> cache_list_get_lru from c;
     (case tmp of None \<Rightarrow> Some c
      | Some a \<Rightarrow> do {
          c \<leftarrow> cache_list_del from a c;
          (_, c) \<leftarrow> entry_parent_info_clean cls c a;
          cache_list_add to a c }) }"

definition replace :: "('x, 'e) cache_class \<Rightarrow> ('x, 'e) cache \<Rightarrow> lptr option \<Rightarrow> (ret_t \<times> ('x, 'e) cache) option" where
  "replace cls c x =
     (let p = target_t1 c in do {
        x_in_b2 \<leftarrow> (case x of None \<Rightarrow> Some False | Some a \<Rightarrow> do { e \<leftarrow> c_entries c a; Some (in_list e = cache_b2) });
        c \<leftarrow> (if c_len c T1 \<ge> 1 \<and> (c_len c T1 > p \<or> (c_len c T1 = p \<and> x_in_b2))
             then move_to_ghost T1 B1 cls c
             else move_to_ghost T2 B2 cls c);
        Some (ret_ok, c) })"

text \<open>The last entry of a list leaves the cache. On an empty list the macro \<open>cache_list_del\<close> follows the null pointer.\<close>

definition evict_lru :: "list_name \<Rightarrow> ('x, 'e) cache_class \<Rightarrow> ('x, 'e) cache \<Rightarrow> ('x, 'e) cache option" where
  "evict_lru l cls c = do {
     tmp \<leftarrow> cache_list_get_lru l c;
     a \<leftarrow> tmp;
     c \<leftarrow> cache_list_del l a c;
     (_, c) \<leftarrow> entry_unref_guts cls c (Some a);
     Some c }"

definition on_new_added :: "('x, 'e) cache_class \<Rightarrow> ('x, 'e) cache \<Rightarrow> (ret_t \<times> ('x, 'e) cache) option" where
  "on_new_added cls c =
     (let cs = uint_of (max_size c);
          len_l1 = uint_of (c_len c T1 + c_len c B1);
          len_l2 = uint_of (c_len c T2 + c_len c B2);
          total_len = u32 (len_l1 + len_l2);
          c = c\<lparr>count_miss := u32 (count_miss c + 1)\<rparr>
      in if len_l1 \<ge> cs then
           (if uint_of (c_len c T1) < cs
            then do { c \<leftarrow> evict_lru B1 cls c; replace cls c None }
            else do { c \<leftarrow> evict_lru T1 cls c; Some (ret_ok, c) })
         else if len_l1 < cs \<and> total_len \<ge> cs then do {
           c \<leftarrow> (if total_len \<ge> u32 (2 * cs) then evict_lru B2 cls c else Some c);
           replace cls c None }
         else Some (ret_ok, c))"

definition update_ghost_b1 :: "('x, 'e) cache_class \<Rightarrow> ('x, 'e) cache \<Rightarrow> lptr \<Rightarrow> (ret_t \<times> ('x, 'e) cache) option" where
  "update_ghost_b1 cls c a = do {
     q \<leftarrow> idiv (c_len c B2) (c_len c B1);
     c \<leftarrow> Some (c\<lparr>target_t1 := min (max_size c) (target_t1 c + max 1 q)\<rparr>);
     (_, c) \<leftarrow> replace cls c (Some a);
     (ret, c) \<leftarrow> entry_parent_info_fetch cls c a;
     if ret \<in> {ret_ok, ret_deny, ret_ok_and_sent} then do { c \<leftarrow> cache_list_swap B1 T2 a c; Some (ret_ok, c) }
     else if ret \<in> {ret_error, ret_no_sys, ret_not_found} then Some (ret, c)
     else Some (ret_error, c) }"

definition update_ghost_b2 :: "('x, 'e) cache_class \<Rightarrow> ('x, 'e) cache \<Rightarrow> lptr \<Rightarrow> (ret_t \<times> ('x, 'e) cache) option" where
  "update_ghost_b2 cls c a = do {
     q \<leftarrow> idiv (c_len c B1) (c_len c B2);
     c \<leftarrow> Some (c\<lparr>target_t1 := max 0 (target_t1 c - max 1 q)\<rparr>);
     (_, c) \<leftarrow> replace cls c (Some a);
     (ret, c) \<leftarrow> entry_parent_info_fetch cls c a;
     if ret \<in> {ret_ok, ret_deny} then do { c \<leftarrow> cache_list_swap B2 T2 a c; Some (ret_ok, c) }
     else if ret \<in> {ret_error, ret_no_sys} then Some (ret, c)
     else Some (ret_error, c) }"

definition update_cache :: "('x, 'e) cache_class \<Rightarrow> ('x, 'e) cache \<Rightarrow> lptr \<Rightarrow> (ret_t \<times> ('x, 'e) cache) option" where
  "update_cache cls c a =
     (let c = c\<lparr>count_hit := u32 (count_hit c + 1)\<rparr> in do {
        e \<leftarrow> c_entries c a;
        (case in_list e of
           cache_t1 \<Rightarrow> do { c \<leftarrow> cache_list_swap T1 T2 a c; Some (ret_ok, c) }
         | cache_t2 \<Rightarrow> do { c \<leftarrow> cache_list_make_first T2 a c; Some (ret_ok, c) }
         | cache_b1 \<Rightarrow> do { (ret, c) \<leftarrow> update_ghost_b1 cls c a; Some (if ret \<in> {ret_ok, ret_no_sys} then ret else ret_error, c) }
         | cache_b2 \<Rightarrow> do { (ret, c) \<leftarrow> update_ghost_b2 cls c a; Some (if ret \<in> {ret_ok, ret_no_sys} then ret else ret_error, c) }
         | cache_no_list \<Rightarrow> Some (ret_error, c)) })"

text \<open>The end of \<open>http2d_cache_get\<close> from the label \<open>add_list\<close> on.\<close>

definition add_list :: "('x, 'e) cache \<Rightarrow> lptr \<Rightarrow> (ret_t \<times> lptr option \<times> ('x, 'e) cache) option" where
  "add_list c a = do {
     c \<leftarrow> cache_list_add T1 a c;
     c \<leftarrow> entry_ref c a;
     Some (ret_ok, Some a, c) }"

text \<open>\<open>new\<close> and \<open>node\<close> are the addresses of a new entry and of the node of the tree. The second component of the result is
  what is stored through \<open>ret_entry\<close>, which the caller has set to null.\<close>

definition http2d_cache_get ::
  "heap \<Rightarrow> ('x, 'e) cache_class \<Rightarrow> ('x, 'e) cache \<Rightarrow> buffer \<Rightarrow> lptr option \<Rightarrow> addr option \<Rightarrow>
    (ret_t \<times> lptr option \<times> ('x, 'e) cache) option" where
  "http2d_cache_get h cls c key new node =
     (let c = c\<lparr>c_count := u32 (c_count c + 1)\<rparr> in do {
        (ret, v) \<leftarrow> http2d_avl_get (c_map c) (c_nodes c) key;
        if ret = ret_ok then do {
          ret_entry \<leftarrow> v;
          a \<leftarrow> ret_entry;
          e \<leftarrow> c_entries c a;
          if in_list e = cache_no_list
          then do { c \<leftarrow> entry_ref c a; add_list c a }
          else do { (ret, c) \<leftarrow> update_cache cls c a; c \<leftarrow> entry_ref c a; Some (ret, Some a, c) } }
        else if ret = ret_not_found then do {
          (_, c) \<leftarrow> on_new_added cls c;
          (case new of None \<Rightarrow> Some (ret_error, None, c)
           | Some a \<Rightarrow> do {
               (_, c) \<leftarrow> http2d_cache_entry_init h (new_obj cls) c a key;
               (_, avl, nodes) \<leftarrow> http2d_avl_add h (c_map c) (c_nodes c) node key (Some a);
               c \<leftarrow> entry_ref (c\<lparr>c_map := avl, c_nodes := nodes\<rparr>) a;
               add_list c a }) }
        else Some (ret_error, None, c) })"

end
