(* ===== verification/Avl_Index.thy ===== *)
theory Avl_Index
  imports Avl_Dict
begin

text \<open>
  What a client of a dictionary relies on when the values are the addresses of its own objects and every object is
  entered under its own key (\<open>indexed\<close>): the locale \<open>text_dict\<close>, interpreted on the trees of \<^verbatim>\<open>src/src/avl.c\<close>.
\<close>

locale text_dict =
  fixes dict :: "'t \<Rightarrow> nat \<Rightarrow> (byte list \<Rightarrow> nat option) \<Rightarrow> bool"
    and lookup :: "'t \<Rightarrow> 'k \<Rightarrow> nat option option"
    and enter :: "'t \<Rightarrow> 'n \<Rightarrow> 'k \<Rightarrow> nat \<Rightarrow> 't option"
    and remove :: "'t \<Rightarrow> 'k \<Rightarrow> 't option"
    and fresh :: "'t \<Rightarrow> 'n \<Rightarrow> bool"
    and valid :: "'k \<Rightarrow> bool"
    and textof :: "'k \<Rightarrow> byte list"
    and bound :: nat
  assumes lookup_law: "dict t n D \<Longrightarrow> valid k \<Longrightarrow> lookup t k = Some (D (textof k))"
    and enter_law: "dict t n D \<Longrightarrow> valid k \<Longrightarrow> fresh t x \<Longrightarrow> n < bound \<Longrightarrow> D (textof k) = None \<Longrightarrow>
      \<exists>t'. enter t x k a = Some t' \<and> dict t' (n + 1) (D(textof k \<mapsto> a)) \<and> (\<forall>y. y \<noteq> x \<and> fresh t y \<longrightarrow> fresh t' y)"
    and remove_law: "dict t n D \<Longrightarrow> valid k \<Longrightarrow> n < bound \<Longrightarrow> D (textof k) = Some a \<Longrightarrow>
      \<exists>t'. remove t k = Some t' \<and> dict t' (n - 1) (D(textof k := None)) \<and> (\<forall>x. fresh t x \<longrightarrow> fresh t' x)"
begin

definition indexed :: "'t \<Rightarrow> (nat \<Rightarrow> byte list option) \<Rightarrow> bool" where
  "indexed t K \<longleftrightarrow> finite (dom K) \<and> (\<exists>D. dict t (card (dom K)) D \<and> (\<forall>s a. D s = Some a \<longleftrightarrow> K a = Some s))"

lemma indexed_unique: "indexed t K \<Longrightarrow> K a = Some s \<Longrightarrow> K b = Some s \<Longrightarrow> a = b"
  unfolding indexed_def by (metis option.inject)

lemma indexed_hit: "indexed t K \<Longrightarrow> valid k \<Longrightarrow> K a = Some (textof k) \<Longrightarrow> lookup t k = Some (Some a)"
  unfolding indexed_def using lookup_law by metis

lemma indexed_miss: "indexed t K \<Longrightarrow> valid k \<Longrightarrow> \<forall>a. K a \<noteq> Some (textof k) \<Longrightarrow> lookup t k = Some None"
  unfolding indexed_def using lookup_law by (metis not_Some_eq)

lemma indexed_enter:
  assumes "indexed t K" "valid k" "fresh t x" "card (dom K) < bound" "\<forall>b. K b \<noteq> Some (textof k)" "K a = None"
  shows "\<exists>t'. enter t x k a = Some t' \<and> indexed t' (K(a \<mapsto> textof k)) \<and> (\<forall>y. y \<noteq> x \<and> fresh t y \<longrightarrow> fresh t' y)"
proof -
  obtain D where D: "dict t (card (dom K)) D" "\<forall>s a. D s = Some a \<longleftrightarrow> K a = Some s" and f: "finite (dom K)"
    using assms(1) by (auto simp: indexed_def)
  then have "D (textof k) = None" using assms(5) by (metis not_Some_eq)
  from enter_law [OF D(1) assms(2-4) this, of a] obtain t' where t': "enter t x k a = Some t'" "dict t' (card (dom K) + 1) (D(textof k \<mapsto> a))"
    "\<forall>y. y \<noteq> x \<and> fresh t y \<longrightarrow> fresh t' y" by blast
  have "card (dom (K(a \<mapsto> textof k))) = card (dom K) + 1" using f assms(6) by (simp add: domIff)
  moreover have "(D(textof k \<mapsto> a)) s = Some b \<longleftrightarrow> (K(a \<mapsto> textof k)) b = Some s" for s b
    using D(2) assms(5,6) by (cases "s = textof k"; cases "b = a") auto
  ultimately have "indexed t' (K(a \<mapsto> textof k))" using t'(2) f unfolding indexed_def by (intro conjI exI [of _ "D(textof k \<mapsto> a)"]) simp_all
  with t'(1,3) show ?thesis by blast
qed

lemma indexed_remove:
  assumes "indexed t K" "valid k" "card (dom K) < bound" "K a = Some (textof k)"
  shows "\<exists>t'. remove t k = Some t' \<and> indexed t' (K(a := None)) \<and> (\<forall>x. fresh t x \<longrightarrow> fresh t' x)"
proof -
  obtain D where D: "dict t (card (dom K)) D" "\<forall>s a. D s = Some a \<longleftrightarrow> K a = Some s" and f: "finite (dom K)"
    using assms(1) by (auto simp: indexed_def)
  have "D (textof k) = Some a" using D(2) assms(4) by simp
  from remove_law [OF D(1) assms(2,3) this] obtain t' where t': "remove t k = Some t'" "dict t' (card (dom K) - 1) (D(textof k := None))"
    "\<forall>x. fresh t x \<longrightarrow> fresh t' x" by blast
  have "card (dom (K(a := None))) = card (dom K) - 1" using f assms(4) by (simp add: domIff)
  moreover have "(D(textof k := None)) s = Some b \<longleftrightarrow> (K(a := None)) b = Some s" for s b
  proof (cases "s = textof k")
    case True
    have "b \<noteq> a \<longrightarrow> K b \<noteq> Some (textof k)" using indexed_unique [OF assms(1,4)] by blast
    then show ?thesis by (simp add: True)
  next
    case False
    have "b = a \<longrightarrow> K b \<noteq> Some s" using assms(4) False by auto
    then show ?thesis using D(2) False by auto
  qed
  ultimately have "indexed t' (K(a := None))" using t'(2) f unfolding indexed_def by (intro conjI exI [of _ "D(textof k := None)"]) simp_all
  with t'(1,3) show ?thesis by blast
qed

end

subsection \<open>The trees\<close>

type_synonym 'v tree = "avl_t \<times> 'v avl_buf_mem"

definition tree_dict :: "nat tree \<Rightarrow> nat \<Rightarrow> (byte list \<Rightarrow> nat option) \<Rightarrow> bool" where
  "tree_dict t n D \<longleftrightarrow> \<not> case_insensitive (fst t) \<and> (\<exists>S. avl_dict (fst t) (snd t) S (\<lambda>s. map_option Some (D s)) \<and> card S = n)"

definition tree_lookup :: "nat tree \<Rightarrow> buffer \<Rightarrow> nat option option" where
  "tree_lookup t key = do {
     (ret, v) \<leftarrow> http2d_avl_get (fst t) (snd t) key;
     if ret = ret_ok then do { x \<leftarrow> v; a \<leftarrow> x; Some (Some a) } else if ret = ret_not_found then Some None else None }"

definition tree_enter :: "(nat \<Rightarrow> byte) \<Rightarrow> nat tree \<Rightarrow> addr \<Rightarrow> buffer \<Rightarrow> nat \<Rightarrow> nat tree option" where
  "tree_enter f t x key a = do { (_, A, m) \<leftarrow> http2d_avl_add (total_heap f) (fst t) (snd t) (Some x) key (Some a); Some (A, m) }"

definition tree_remove :: "nat tree \<Rightarrow> buffer \<Rightarrow> nat tree option" where
  "tree_remove t key = do { (_, _, A, m) \<leftarrow> http2d_avl_del (fst t) (snd t) key; Some (A, m) }"

definition text_key :: "buffer \<Rightarrow> bool" where
  "text_key key \<longleftrightarrow> valid_key key \<and> buf_str key \<noteq> []"

lemma key_text_False [simp]: "key_text False b = buf_str b"
  by (simp add: key_text_def folding_def)

lemma avl_fresh: "avl_dict A m S D \<Longrightarrow> m a = None \<Longrightarrow> a \<notin> S"
  by (auto simp: avl_dict_def search_tree_def dest!: rep_mem)

interpretation trees: text_dict tree_dict tree_lookup "tree_enter f" tree_remove "\<lambda>t x. snd t x = None" text_key buf_str "2 ^ 32" for f
proof
  fix t :: "nat tree" and n D k
  assume "tree_dict t n D" and k: "text_key k"
  then obtain S where S: "avl_dict (fst t) (snd t) S (\<lambda>s. map_option Some (D s))" "card S = n" "\<not> case_insensitive (fst t)"
    by (auto simp: tree_dict_def)
  note k = k [unfolded text_key_def]
  show "tree_lookup t k = Some (D (buf_str k))"
    using avl_dict_get [OF S(1) k [THEN conjunct1] k [THEN conjunct2]] S(3) by (auto simp: tree_lookup_def split: option.splits)
  show "\<exists>t'. tree_enter f t x k a = Some t' \<and> tree_dict t' (n + 1) (D(buf_str k \<mapsto> a)) \<and> (\<forall>y. y \<noteq> x \<and> snd t y = None \<longrightarrow> snd t' y = None)"
    if "snd t x = None" "n < 2 ^ 32" "D (buf_str k) = None" for x a
  proof -
    have "card S < 2 ^ 32" "map_option Some (D (key_text (case_insensitive (fst t)) k)) = None" using that S by simp_all
    from avl_dict_add(2) [OF S(1) k [THEN conjunct1] k [THEN conjunct2] this(1) that(1) this(2), of f "Some a"]
    obtain A' m' where A: "http2d_avl_add (total_heap f) (fst t) (snd t) (Some x) k (Some a) = Some (ret_ok, A', m')"
      "case_insensitive A' = case_insensitive (fst t)"
      "avl_dict A' m' (insert x S) ((\<lambda>s. map_option Some (D s))(key_text (case_insensitive (fst t)) k \<mapsto> Some a))"
      "same_outside (insert x S) (snd t) m'" by blast
    have "(\<lambda>s. map_option Some (D s))(key_text (case_insensitive (fst t)) k \<mapsto> Some a) = (\<lambda>s. map_option Some ((D(buf_str k \<mapsto> a)) s))"
      using S(3) by auto
    moreover have "card (insert x S) = n + 1" using S(2) avl_dict_finite [OF S(1)] avl_fresh [OF S(1) that(1)] by simp
    ultimately have "tree_dict (A', m') (n + 1) (D(buf_str k \<mapsto> a))" using A(2,3) S(3) by (auto simp: tree_dict_def)
    moreover have "m' y = None" if "y \<noteq> x" "snd t y = None" for y using avl_fresh [OF S(1) that(2)] A(4) that by (auto simp: same_outside_def)
    ultimately show ?thesis using A(1) by (simp add: tree_enter_def)
  qed
  show "\<exists>t'. tree_remove t k = Some t' \<and> tree_dict t' (n - 1) (D(buf_str k := None)) \<and>
      (\<forall>x. snd t x = None \<longrightarrow> snd t' x = None)" if "n < 2 ^ 32" "D (buf_str k) = Some a" for a
  proof -
    have "card S < 2 ^ 32" "map_option Some (D (key_text (case_insensitive (fst t)) k)) = Some (Some a)" using that S by simp_all
    from avl_dict_del(2) [OF S(1) k [THEN conjunct1] k [THEN conjunct2] this]
    obtain p A' m' where A: "http2d_avl_del (fst t) (snd t) k = Some (ret_ok, Some (Some a), A', m')" "case_insensitive A' = case_insensitive (fst t)" "p \<in> S"
      "avl_dict A' m' (S - {p}) ((\<lambda>s. map_option Some (D s))(key_text (case_insensitive (fst t)) k := None))" "same_outside S (snd t) m'" by blast
    have "(\<lambda>s. map_option Some (D s))(key_text (case_insensitive (fst t)) k := None) = (\<lambda>s. map_option Some ((D(buf_str k := None)) s))"
      using S(3) by auto
    moreover have "card (S - {p}) = n - 1" using S(2) A(3) by simp
    ultimately have "tree_dict (A', m') (n - 1) (D(buf_str k := None))" using A(2,4) S(3) by (auto simp: tree_dict_def)
    moreover have "m' x = None" if "snd t x = None" for x using avl_fresh [OF S(1) that] A(5) that by (auto simp: same_outside_def)
    ultimately show ?thesis using A(1) by (simp add: tree_remove_def)
  qed
qed

end
