(* ===== verification/Cache_Arc.thy ===== *)
theory Cache_Arc
  imports Cache Avl_Index
begin

text \<open>
  The operations of \<^verbatim>\<open>src/src/cache.c\<close> on the abstract state of the replacement policy. \<open>lists_ok\<close> relates the links, the
  tags and the lengths to four lists of addresses, \<open>keys_ok\<close> the tree to the keys of the entries, \<open>refs_ok\<close> the reference
  counts to the references that the cache and its clients hold; \<open>cache_ok\<close> is the three together. \<open>arc_hit\<close> and \<open>arc_room\<close> say
  what a hit and a miss do to the lists; the lemmas \<open>cache_get_hit\<close>, \<open>cache_get_lingering\<close> and \<open>cache_get_miss\<close> show
  that \<open>http2d_cache_get\<close> does it.
\<close>

subsection \<open>The four lists\<close>

text \<open>The abstract state of the replacement policy: the four lists of entries, the first one the one used last. An entry
  is in one of them at most, and its field \<open>in_list\<close> says in which.\<close>

type_synonym arc_lists = "list_name \<Rightarrow> lptr list"

definition tag_in :: "arc_lists \<Rightarrow> lptr \<Rightarrow> cache_list" where
  "tag_in L a =
     (if a \<in> set (L T1) then cache_t1 else if a \<in> set (L T2) then cache_t2
      else if a \<in> set (L B1) then cache_b1 else if a \<in> set (L B2) then cache_b2 else cache_no_list)"

definition lists_ok :: "('x, 'e) cache \<Rightarrow> arc_lists \<Rightarrow> bool" where
  "lists_ok c L \<longleftrightarrow> dl.family (c_links c) (c_head c) L \<and> (\<forall>l. c_len c l = int (length (L l))) \<and>
     (\<forall>l a. a \<in> set (L l) \<longrightarrow> c_entries c a \<noteq> None) \<and>
     (\<forall>a e. c_entries c a = Some e \<longrightarrow> in_list e = tag_in L a \<and> c_links c a \<noteq> None \<and> (\<forall>l. a \<noteq> c_head c l))"

text \<open>What the operations on the lists and the calls of the methods leave alone.\<close>

definition keeps :: "('x, 'e) cache \<Rightarrow> ('x, 'e) cache \<Rightarrow> bool" where
  "keeps c c' \<longleftrightarrow> c_map c' = c_map c \<and> c_nodes c' = c_nodes c \<and> c_head c' = c_head c \<and> max_size c' = max_size c \<and>
     target_t1 c' = target_t1 c \<and> c_count c' = c_count c \<and> count_hit c' = count_hit c \<and> count_miss c' = count_miss c \<and>
     (\<forall>a. map_option (\<lambda>e. (ce_key e, ref_count e)) (c_entries c' a) = map_option (\<lambda>e. (ce_key e, ref_count e)) (c_entries c a))"

lemma keeps_refl [simp]: "keeps c c"
  by (simp add: keeps_def)

lemma keeps_trans [trans]: "keeps c c' \<Longrightarrow> keeps c' c'' \<Longrightarrow> keeps c c''"
  by (simp add: keeps_def)

lemma list_name_all: "(\<forall>l. P l) \<longleftrightarrow> P T1 \<and> P T2 \<and> P B1 \<and> P B2"
  by (metis list_name.exhaust)

lemma tag_in_list:
  assumes "dl.family m H L" "a \<in> set (L l)"
  shows "tag_in L a = list_tag l"
  using dl.family_unique [OF assms] assms(2) by (cases l) (auto simp: tag_in_def)

lemma tag_in_none: "tag_in L a = cache_no_list \<longleftrightarrow> (\<forall>l. a \<notin> set (L l))"
  by (auto simp: tag_in_def list_name_all split: if_splits)

lemma list_tag_inj [simp]: "list_tag l = list_tag k \<longleftrightarrow> l = k" "list_tag l \<noteq> cache_no_list" "cache_no_list \<noteq> list_tag l"
  by (cases l; cases k; simp)+

lemma tag_in_eq:
  assumes "dl.family m H L"
  shows "tag_in L a = list_tag l \<longleftrightarrow> a \<in> set (L l)"
proof
  assume t: "tag_in L a = list_tag l"
  then obtain k where "a \<in> set (L k)" using tag_in_none [of L a] by auto
  with t tag_in_list [OF assms this] show "a \<in> set (L l)" by simp
qed (rule tag_in_list [OF assms])

lemma tag_in_cong: "(\<And>l. b \<in> set (L' l) \<longleftrightarrow> b \<in> set (L l)) \<Longrightarrow> tag_in L' b = tag_in L b"
  by (simp add: tag_in_def)

lemma lists_ok_family: "lists_ok c L \<Longrightarrow> dl.family (c_links c) (c_head c) L"
  by (simp add: lists_ok_def)

lemma lists_ok_entry: "lists_ok c L \<Longrightarrow> a \<in> set (L l) \<Longrightarrow> \<exists>e. c_entries c a = Some e \<and> in_list e = list_tag l"
  using tag_in_list [OF lists_ok_family, of c L a l] unfolding lists_ok_def by (metis not_Some_eq)

lemma lists_ok_alive: "lists_ok c L \<Longrightarrow> c_entries c b \<noteq> None \<Longrightarrow> c_links c b \<noteq> None \<and> (\<forall>l. b \<noteq> c_head c l)"
  unfolding lists_ok_def by blast

lemma lists_ok_split:
  assumes "lists_ok c L" "a \<in> set (L l)"
  obtains xs ys where "L l = xs @ a # ys" "a \<notin> set xs" "a \<notin> set ys" "remove1 a (L l) = xs @ ys"
proof -
  obtain xs ys where L: "L l = xs @ a # ys" using assms(2) by (metis split_list)
  have "distinct (L l)" using dl.list_distinct [OF dl.family_list] assms(1) unfolding lists_ok_def by fastforce
  then have "a \<notin> set xs" "a \<notin> set ys" using L by auto
  then show ?thesis using that L by (simp add: remove1_append)
qed

text \<open>Changing the place of one entry.\<close>

lemma lists_ok_update:
  assumes "lists_ok c L" "c_entries c a = Some e" "dl.family m (c_head c) L'" "\<forall>b. (m b \<noteq> None) = (c_links c b \<noteq> None)"
    and "\<forall>l. ls l = int (length (L' l))" "\<forall>b l. b \<noteq> a \<longrightarrow> (b \<in> set (L' l) \<longleftrightarrow> b \<in> set (L l))" "t = tag_in L' a"
  shows "lists_ok (c\<lparr>c_links := m, c_len := ls, c_entries := (c_entries c)(a \<mapsto> e\<lparr>in_list := t\<rparr>)\<rparr>) L'" (is "lists_ok ?c L'")
  unfolding lists_ok_def
proof (intro conjI allI impI)
  show "dl.family (c_links ?c) (c_head ?c) L'" "\<And>l. c_len ?c l = int (length (L' l))" using assms(3,5) by simp_all
  show "\<And>l b. b \<in> set (L' l) \<Longrightarrow> c_entries ?c b \<noteq> None" using assms(1,6) by (auto simp: lists_ok_def)
  fix b x assume b: "c_entries ?c b = Some x"
  then have eb: "c_entries c b \<noteq> None" using assms(2) by (auto split: if_splits)
  then show "c_links ?c b \<noteq> None" "\<And>l. b \<noteq> c_head ?c l" using lists_ok_alive [OF assms(1) eb] assms(4) by simp_all
  show "in_list x = tag_in L' b"
  proof (cases "b = a")
    case True
    then show ?thesis using b assms(7) by auto
  next
    case False
    then have "tag_in L' b = tag_in L b" using assms(6) by (intro tag_in_cong) auto
    then show ?thesis using False b assms(1) by (auto simp: lists_ok_def)
  qed
qed

lemma cache_list_del_ok:
  assumes "lists_ok c L" "a \<in> set (L l)"
  shows "\<exists>c'. cache_list_del l a c = Some c' \<and> lists_ok c' (L(l := remove1 a (L l))) \<and> keeps c c'"
proof -
  obtain xs ys where L: "L l = xs @ a # ys" "a \<notin> set xs" "a \<notin> set ys" "remove1 a (L l) = xs @ ys" using lists_ok_split [OF assms] .
  have fam: "dl.family (c_links c) (c_head c) L" using assms(1) by (simp add: lists_ok_def)
  obtain m where m: "http2d_list_del (c_links c) a = Some m" "dl.family m (c_head c) (L(l := xs @ ys))" "\<forall>b. (m b \<noteq> None) = (c_links c b \<noteq> None)"
    using dl.family_rem [OF fam L(1)] by blast
  obtain e where e: "c_entries c a = Some e" using lists_ok_entry [OF assms] by blast
  let ?L = "L(l := xs @ ys)"
  let ?c = "c\<lparr>c_links := m, c_len := (c_len c)(l := c_len c l - 1), c_entries := (c_entries c)(a \<mapsto> e\<lparr>in_list := cache_no_list\<rparr>)\<rparr>"
  have un: "a \<notin> set (?L k)" for k using dl.family_unique [OF fam assms(2), of k] L(2,3) by auto
  have "tag_in ?L a = cache_no_list" using un by (simp add: tag_in_none)
  moreover have "\<forall>k. ((c_len c)(l := c_len c l - 1)) k = int (length (?L k))" using assms(1) L(1) by (simp add: lists_ok_def)
  ultimately have "lists_ok ?c ?L" using L(1) by (intro lists_ok_update [OF assms(1) e m(2,3)]) auto
  moreover have "cache_list_del l a c = Some ?c" using m(1) e by (simp add: cache_list_del_def set_entry_def)
  moreover have "keeps c ?c" using e by (simp add: keeps_def)
  ultimately show ?thesis using L(4) by auto
qed

lemma cache_list_add_ok:
  assumes "lists_ok c L" "\<forall>l. a \<notin> set (L l)" "c_entries c a \<noteq> None"
  shows "\<exists>c'. cache_list_add l a c = Some c' \<and> lists_ok c' (L(l := a # L l)) \<and> keeps c c'"
proof -
  have fam: "dl.family (c_links c) (c_head c) L" using assms(1) by (simp add: lists_ok_def)
  obtain e where e: "c_entries c a = Some e" using assms(3) by auto
  have "\<forall>l. a \<notin> set (c_head c l # L l)" "c_links c a \<noteq> None" using lists_ok_alive [OF assms(1,3)] assms(2) by simp_all
  from dl.family_ins [OF fam this]
  obtain m where m: "http2d_list_add (c_links c) a (c_head c l) = Some m" "dl.family m (c_head c) (L(l := a # L l))" "\<forall>b. (m b \<noteq> None) = (c_links c b \<noteq> None)"
    by blast
  let ?L = "L(l := a # L l)"
  let ?c = "c\<lparr>c_links := m, c_len := (c_len c)(l := c_len c l + 1), c_entries := (c_entries c)(a \<mapsto> e\<lparr>in_list := list_tag l\<rparr>)\<rparr>"
  have "tag_in ?L a = list_tag l" using tag_in_list [OF m(2), of a l] by simp
  moreover have "\<forall>k. ((c_len c)(l := c_len c l + 1)) k = int (length (?L k))" using assms(1) by (simp add: lists_ok_def)
  ultimately have "lists_ok ?c ?L" by (intro lists_ok_update [OF assms(1) e m(2,3)]) auto
  moreover have "cache_list_add l a c = Some ?c" using m(1) e by (simp add: cache_list_add_def set_entry_def)
  moreover have "keeps c ?c" using e by (simp add: keeps_def)
  ultimately show ?thesis by blast
qed

definition move :: "lptr \<Rightarrow> list_name \<Rightarrow> list_name \<Rightarrow> arc_lists \<Rightarrow> arc_lists" where
  "move a i j L = (let L = L(i := remove1 a (L i)) in L(j := a # L j))"

lemma unlisted_after_remove:
  assumes "lists_ok c L" "a \<in> set (L i)"
  shows "\<forall>l. a \<notin> set ((L(i := remove1 a (L i))) l)"
proof
  fix l
  have "distinct (L i)" using dl.list_distinct [OF dl.family_list [OF lists_ok_family [OF assms(1)]], of i] by simp
  then show "a \<notin> set ((L(i := remove1 a (L i))) l)"
    using dl.family_unique [OF lists_ok_family [OF assms(1)] assms(2), of l] by auto
qed

lemma keeps_entry: "keeps c c' \<Longrightarrow> c_entries c a \<noteq> None \<longleftrightarrow> c_entries c' a \<noteq> None"
proof -
  assume "keeps c c'"
  then have "map_option (\<lambda>e. (ce_key e, ref_count e)) (c_entries c' a) = map_option (\<lambda>e. (ce_key e, ref_count e)) (c_entries c a)"
    by (simp add: keeps_def)
  then show ?thesis by (cases "c_entries c a"; cases "c_entries c' a") auto
qed

lemma cache_list_swap_ok:
  assumes "lists_ok c L" "a \<in> set (L i)"
  shows "\<exists>c'. cache_list_swap i j a c = Some c' \<and> lists_ok c' (move a i j L) \<and> keeps c c'"
proof -
  obtain c1 where c1: "cache_list_del i a c = Some c1" "lists_ok c1 (L(i := remove1 a (L i)))" "keeps c c1" using cache_list_del_ok [OF assms] by blast
  have "c_entries c1 a \<noteq> None" using keeps_entry [OF c1(3), of a] lists_ok_entry [OF assms] by auto
  from cache_list_add_ok [OF c1(2) unlisted_after_remove [OF assms] this]
  obtain c' where "cache_list_add j a c1 = Some c'" "lists_ok c' (move a i j L)" "keeps c1 c'" unfolding move_def Let_def by blast
  then show ?thesis using c1(1,3) keeps_trans [of c c1] by (auto simp: cache_list_swap_def)
qed

lemma cache_list_make_first_ok:
  assumes "lists_ok c L" "a \<in> set (L i)"
  shows "\<exists>c'. cache_list_make_first i a c = Some c' \<and> lists_ok c' (move a i i L) \<and> keeps c c'"
proof -
  obtain xs ys where L: "L i = xs @ a # ys" "remove1 a (L i) = xs @ ys" using lists_ok_split [OF assms] by metis
  obtain m1 m' where m: "http2d_list_del (c_links c) a = Some m1" "http2d_list_add m1 a (c_head c i) = Some m'"
    "\<forall>b. (m' b \<noteq> None) = (c_links c b \<noteq> None)" "dl.family m' (c_head c) ((L(i := xs @ ys))(i := a # (L(i := xs @ ys)) i))"
    using dl.family_move [OF lists_ok_family [OF assms(1)] L(1), of i] by blast
  have mv: "move a i i L = (L(i := xs @ ys))(i := a # (L(i := xs @ ys)) i)" unfolding move_def Let_def L(2) ..
  have "tag_in (move a i i L) b = tag_in L b" for b by (intro tag_in_cong) (auto simp: mv L(1))
  moreover have "length (move a i i L l) = length (L l)" "set (move a i i L l) = set (L l)" for l by (auto simp: mv L(1))
  ultimately have "lists_ok (c\<lparr>c_links := m'\<rparr>) (move a i i L)" using assms(1) m(3,4) unfolding lists_ok_def mv [symmetric] by simp
  then show ?thesis using m(1,2) by (auto simp: cache_list_make_first_def keeps_def)
qed

lemma cache_list_get_lru_ok:
  assumes "lists_ok c L"
  shows "cache_list_get_lru l c = Some (if L l = [] then None else Some (last (L l)))"
proof -
  have d: "dlist (c_links c) (c_head c l) (L l)" by (rule dl.family_list [OF lists_ok_family [OF assms]])
  then obtain n where "c_links c (c_head c l) = Some n" "le_prev n = last_of (Some (c_head c l)) (L l)" using ring_next unfolding dlist_def by blast
  then show ?thesis using list_empty [OF d] by (auto simp: cache_list_get_lru_def last_of_ne)
qed

text \<open>The methods of the derived class change neither the lists nor the keys.\<close>

lemma set_entry_obj:
  assumes "lists_ok c L" "c_entries c a \<noteq> None"
  shows "\<exists>c'. set_entry (c\<lparr>c_env := env\<rparr>) a (\<lambda>e. e\<lparr>ce_obj := x\<rparr>) = Some c' \<and> lists_ok c' L \<and> keeps c c'"
  using assms by (auto simp: set_entry_def lists_ok_def keeps_def)

lemma entry_parent_info_clean_ok:
  assumes "lists_ok c L" "c_entries c a \<noteq> None"
  shows "\<exists>ret c'. entry_parent_info_clean cls c a = Some (ret, c') \<and> lists_ok c' L \<and> keeps c c'"
proof -
  obtain e where e: "c_entries c a = Some e" using assms(2) by auto
  show ?thesis
  proof (cases "ref_count e > 0")
    case True
    then show ?thesis using e assms by (auto simp: entry_parent_info_clean_def)
  next
    case False
    obtain ret x env where "clean_cb cls e (c_env c) = (ret, x, env)" by (metis prod_cases3)
    then show ?thesis using False e set_entry_obj [OF assms, of env x] by (auto simp: entry_parent_info_clean_def)
  qed
qed

lemma entry_parent_info_fetch_ok:
  assumes "lists_ok c L" "c_entries c a \<noteq> None"
  shows "\<exists>ret c'. entry_parent_info_fetch cls c a = Some (ret, c') \<and> lists_ok c' L \<and> keeps c c'"
proof (cases "fetch_cb cls")
  case None
  then show ?thesis using assms by (auto simp: entry_parent_info_fetch_def)
next
  case (Some f)
  obtain e where e: "c_entries c a = Some e" using assms(2) by auto
  obtain ret x env where "f e (c_env c) = (ret, x, env)" by (metis prod_cases3)
  then show ?thesis using Some e set_entry_obj [OF assms, of env x] by (auto simp: entry_parent_info_fetch_def)
qed

text \<open>A class whose method \<open>fetch\<close> never fails: it reports success, or a denied access, which the cache counts as
  a success. Only the method decides the result of a hit, and only if the entry is in a ghost list.\<close>

definition fetch_works :: "('x, 'e) cache_class \<Rightarrow> bool" where
  "fetch_works cls \<longleftrightarrow> (\<exists>f. fetch_cb cls = Some f \<and> (\<forall>e env. fst (f e env) = ret_ok \<or> fst (f e env) = ret_deny))"

definition hit_ret :: "('x, 'e) cache_class \<Rightarrow> list_name \<Rightarrow> ret_t \<Rightarrow> bool" where
  "hit_ret cls i ret \<longleftrightarrow> ret = ret_ok \<or> (i = B1 \<or> i = B2) \<and> \<not> fetch_works cls \<and> (ret = ret_error \<or> ret = ret_no_sys)"

lemma hit_ret_top: "hit_ret cls i ret \<Longrightarrow> i = T1 \<or> i = T2 \<Longrightarrow> ret = ret_ok"
  by (auto simp: hit_ret_def)

lemma fetch_works_ret:
  "fetch_works cls \<Longrightarrow> entry_parent_info_fetch cls c a = Some (ret, c') \<Longrightarrow> ret = ret_ok \<or> ret = ret_deny"
  unfolding fetch_works_def
proof (elim exE conjE)
  fix f
  assume f: "fetch_cb cls = Some f" "\<forall>e env. fst (f e env) = ret_ok \<or> fst (f e env) = ret_deny"
    and r: "entry_parent_info_fetch cls c a = Some (ret, c')"
  then obtain e where "c_entries c a = Some e" by (auto simp: entry_parent_info_fetch_def bind_eq_Some_conv)
  then have "fst (f e (c_env c)) = ret"
    using f(1) r by (cases "f e (c_env c)") (auto simp: entry_parent_info_fetch_def bind_eq_Some_conv)
  then show "ret = ret_ok \<or> ret = ret_deny" using f(2) by metis
qed

subsection \<open>The policy on lists\<close>

definition demote :: "list_name \<Rightarrow> list_name \<Rightarrow> arc_lists \<Rightarrow> arc_lists" where
  "demote i j L = (if L i = [] then L else move (last (L i)) i j L)"

definition arc_replace :: "int \<Rightarrow> bool \<Rightarrow> arc_lists \<Rightarrow> arc_lists" where
  "arc_replace p hit_b2 L =
     (if L T1 \<noteq> [] \<and> (int (length (L T1)) > p \<or> int (length (L T1)) = p \<and> hit_b2) then demote T1 B1 L else demote T2 B2 L)"

lemma move_to_ghost_ok:
  assumes "lists_ok c L"
  shows "\<exists>c'. move_to_ghost i j cls c = Some c' \<and> lists_ok c' (demote i j L) \<and> keeps c c'"
proof (cases "L i = []")
  case True
  then show ?thesis using assms cache_list_get_lru_ok [OF assms, of i] by (simp add: move_to_ghost_def demote_def)
next
  case False
  let ?a = "last (L i)"
  have a: "?a \<in> set (L i)" using False by simp
  obtain c1 where c1: "cache_list_del i ?a c = Some c1" "lists_ok c1 (L(i := remove1 ?a (L i)))" "keeps c c1" using cache_list_del_ok [OF assms a] by blast
  have e1: "c_entries c1 ?a \<noteq> None" using keeps_entry [OF c1(3), of ?a] lists_ok_entry [OF assms a] by auto
  obtain r c2 where c2: "entry_parent_info_clean cls c1 ?a = Some (r, c2)" "lists_ok c2 (L(i := remove1 ?a (L i)))" "keeps c1 c2"
    using entry_parent_info_clean_ok [OF c1(2) e1] by blast
  have e2: "c_entries c2 ?a \<noteq> None" using keeps_entry [OF c2(3), of ?a] e1 by auto
  obtain c3 where c3: "cache_list_add j ?a c2 = Some c3" "lists_ok c3 (demote i j L)" "keeps c2 c3"
    using cache_list_add_ok [OF c2(2) unlisted_after_remove [OF assms a] e2, of j] unfolding demote_def move_def Let_def if_not_P [OF False] by blast
  then show ?thesis using c1(1) c2(1) False cache_list_get_lru_ok [OF assms, of i] keeps_trans [OF keeps_trans [OF c1(3) c2(3)] c3(3)]
    by (auto simp: move_to_ghost_def)
qed

lemma replace_ok:
  assumes "lists_ok c L" "\<forall>a. x = Some a \<longrightarrow> c_entries c a \<noteq> None"
  shows "\<exists>c'. replace cls c x = Some (ret_ok, c') \<and> keeps c c' \<and>
    lists_ok c' (arc_replace (target_t1 c) (\<exists>a. x = Some a \<and> a \<in> set (L B2)) L)"
proof -
  have len: "c_len c T1 = int (length (L T1))" using assms(1) by (simp add: lists_ok_def)
  have b2: "(case x of None \<Rightarrow> Some False | Some a \<Rightarrow> do { e \<leftarrow> c_entries c a; Some (in_list e = cache_b2) }) = Some (\<exists>a. x = Some a \<and> a \<in> set (L B2))"
  proof (cases x)
    case (Some a)
    then obtain e where "c_entries c a = Some e" "in_list e = tag_in L a" using assms unfolding lists_ok_def by blast
    then show ?thesis using Some tag_in_eq [OF lists_ok_family [OF assms(1)], of a B2] by simp
  qed simp
  have "1 \<le> int (length (L T1)) \<longleftrightarrow> L T1 \<noteq> []" by (cases "L T1") auto
  then show ?thesis using move_to_ghost_ok [OF assms(1), of T1 B1 cls] move_to_ghost_ok [OF assms(1), of T2 B2 cls]
    by (auto simp: replace_def Let_def b2 len arc_replace_def)
qed

subsection \<open>Keys and references\<close>

definition key_of :: "('x, 'e) cache \<Rightarrow> lptr \<Rightarrow> byte list option" where
  "key_of c a = map_option (\<lambda>e. buf_str (ce_key e)) (c_entries c a)"

definition keys_ok :: "('x, 'e) cache \<Rightarrow> bool" where
  "keys_ok c \<longleftrightarrow> trees.indexed (c_map c, c_nodes c) (key_of c) \<and> (\<forall>a e. c_entries c a = Some e \<longrightarrow> text_key (ce_key e))"

definition listed :: "arc_lists \<Rightarrow> lptr \<Rightarrow> bool" where
  "listed L a \<longleftrightarrow> (\<exists>l. a \<in> set (L l))"

text \<open>\<open>R a\<close> is the number of references to the entry that clients hold. The cache holds one to every entry in a list.\<close>

definition refs_ok :: "('x, 'e) cache \<Rightarrow> arc_lists \<Rightarrow> (lptr \<Rightarrow> nat) \<Rightarrow> bool" where
  "refs_ok c L R \<longleftrightarrow>
     (\<forall>a e. c_entries c a = Some e \<longrightarrow> ref_count e = int (R a) + (if listed L a then 1 else 0) \<and> ref_count e \<ge> 1) \<and>
     (\<forall>a. R a > 0 \<longrightarrow> c_entries c a \<noteq> None)"

definition cache_ok :: "('x, 'e) cache \<Rightarrow> arc_lists \<Rightarrow> (lptr \<Rightarrow> nat) \<Rightarrow> bool" where
  "cache_ok c L R \<longleftrightarrow> lists_ok c L \<and> keys_ok c \<and> refs_ok c L R"

definition frame :: "('x, 'e) cache \<Rightarrow> ('x, 'e) cache \<Rightarrow> bool" where
  "frame c c' \<longleftrightarrow> c_head c' = c_head c \<and> max_size c' = max_size c \<and> target_t1 c' = target_t1 c \<and> c_count c' = c_count c \<and>
     count_hit c' = count_hit c \<and> count_miss c' = count_miss c \<and> (\<forall>x. c_nodes c x = None \<longrightarrow> c_nodes c' x = None)"

lemma keeps_frame: "keeps c c' \<Longrightarrow> frame c c'"
  by (simp add: keeps_def frame_def)

lemma frame_trans: "frame c c' \<Longrightarrow> frame c' c'' \<Longrightarrow> frame c c''"
  by (simp add: frame_def)

lemma keeps_info:
  assumes "keeps c c'" "c_entries c' a = Some e'"
  shows "\<exists>e. c_entries c a = Some e \<and> ce_key e = ce_key e' \<and> ref_count e = ref_count e'"
proof -
  have "map_option (\<lambda>e. (ce_key e, ref_count e)) (c_entries c' a) = map_option (\<lambda>e. (ce_key e, ref_count e)) (c_entries c a)"
    using assms(1) by (simp add: keeps_def)
  then show ?thesis using assms(2) by (cases "c_entries c a") auto
qed

lemma refs_okI:
  "(\<And>a e. c_entries c a = Some e \<Longrightarrow> ref_count e = int (R a) + (if listed L a then 1 else 0) \<and> ref_count e \<ge> 1) \<Longrightarrow>
   (\<And>a. R a > 0 \<Longrightarrow> c_entries c a \<noteq> None) \<Longrightarrow> refs_ok c L R"
  unfolding refs_ok_def by blast

lemma refs_okD: "refs_ok c L R \<Longrightarrow> c_entries c a = Some e \<Longrightarrow> ref_count e = int (R a) + (if listed L a then 1 else 0) \<and> ref_count e \<ge> 1"
  unfolding refs_ok_def by blast

lemma keeps_sym: "keeps c c' \<Longrightarrow> keeps c' c"
  by (simp add: keeps_def)

lemma keeps_key_of: "keeps c c' \<Longrightarrow> key_of c' = key_of c"
proof
  fix a
  assume k: "keeps c c'"
  show "key_of c' a = key_of c a"
  proof (cases "c_entries c' a")
    case None
    then show ?thesis using keeps_entry [OF k, of a] by (simp add: key_of_def)
  next
    case (Some e')
    then show ?thesis using keeps_info [OF k Some] by (auto simp: key_of_def)
  qed
qed

lemma keeps_keys_ok: "keeps c c' \<Longrightarrow> keys_ok c \<Longrightarrow> keys_ok c'"
proof -
  assume k: "keeps c c'" and o: "keys_ok c"
  have "text_key (ce_key e)" if "c_entries c' a = Some e" for a e using keeps_info [OF k that] o by (metis keys_ok_def)
  then show ?thesis using o keeps_key_of [OF k] k by (simp add: keys_ok_def keeps_def)
qed

lemma keeps_refs_ok:
  assumes "keeps c c'" "refs_ok c L R" "\<forall>a. listed L' a = listed L a"
  shows "refs_ok c' L' R"
  unfolding refs_ok_def
proof (intro conjI allI impI)
  fix a e
  assume "c_entries c' a = Some e"
  then obtain e0 where "c_entries c a = Some e0" "ref_count e0 = ref_count e" using keeps_info [OF assms(1)] by blast
  moreover have "ref_count e0 = int (R a) + (if listed L a then 1 else 0)" "ref_count e0 \<ge> 1" using assms(2) calculation(1) unfolding refs_ok_def by blast+
  ultimately show "ref_count e = int (R a) + (if listed L' a then 1 else 0)" "ref_count e \<ge> 1" using assms(3) by simp_all
next
  fix a assume "R a > 0"
  then show "c_entries c' a \<noteq> None" using assms(2) keeps_entry [OF assms(1)] by (simp add: refs_ok_def)
qed

lemma keeps_cache_ok:
  assumes "keeps c c'" "cache_ok c L R" "lists_ok c' L'" "\<forall>a. listed L' a = listed L a"
  shows "cache_ok c' L' R"
  using assms keeps_keys_ok keeps_refs_ok [OF assms(1) _ assms(4)] by (auto simp: cache_ok_def)

lemma listed_move: "a \<in> set (L i) \<Longrightarrow> listed (move a i j L) b = listed L b"
proof (cases "b = a")
  case True
  assume "a \<in> set (L i)"
  then show ?thesis using True by (auto simp: listed_def move_def Let_def)
next
  case False
  then have "b \<in> set (move a i j L l) \<longleftrightarrow> b \<in> set (L l)" for l by (auto simp: move_def Let_def in_set_remove1)
  then show ?thesis by (simp add: listed_def)
qed

lemma listed_demote: "listed (demote i j L) b = listed L b"
  using listed_move [of "last (L i)" L i j b] by (simp add: demote_def)

lemma listed_replace: "listed (arc_replace p h L) b = listed L b"
  by (simp add: arc_replace_def listed_demote)

subsection \<open>Dropping references\<close>

lemma set_entry_ref_ok:
  assumes "lists_ok c L" "keys_ok c" "c_entries c a = Some e"
  shows "lists_ok (c\<lparr>c_entries := (c_entries c)(a \<mapsto> e\<lparr>ref_count := n\<rparr>)\<rparr>) L" "keys_ok (c\<lparr>c_entries := (c_entries c)(a \<mapsto> e\<lparr>ref_count := n\<rparr>)\<rparr>)"
proof -
  let ?c = "c\<lparr>c_entries := (c_entries c)(a \<mapsto> e\<lparr>ref_count := n\<rparr>)\<rparr>"
  show "lists_ok ?c L" using assms(1,3) by (auto simp: lists_ok_def)
  have "key_of ?c = key_of c" using assms(3) by (auto simp: key_of_def fun_eq_iff)
  then show "keys_ok ?c" using assms(2,3) by (auto simp: keys_ok_def)
qed

lemma unref_still:
  assumes "lists_ok c L" "keys_ok c" "c_entries c a = Some e" "ref_count e > 1"
  shows "\<exists>c'. entry_unref_guts cls c (Some a) = Some (ret_eagain, c') \<and> lists_ok c' L \<and> keys_ok c' \<and> frame c c' \<and>
    c_entries c' = (c_entries c)(a \<mapsto> e\<lparr>ref_count := ref_count e - 1\<rparr>)"
  using set_entry_ref_ok [OF assms(1-3), of "ref_count e - 1"] assms(3,4) by (simp add: entry_unref_guts_def set_entry_def frame_def)

lemma lists_ok_free:
  assumes "lists_ok c L" "\<not> listed L a" "c_entries c a \<noteq> None"
  shows "lists_ok (c\<lparr>c_entries := (c_entries c)(a := None), c_links := (c_links c)(a := None)\<rparr>) L" (is "lists_ok ?c L")
proof -
  have "a \<notin> insert (c_head c l) (set (L l))" for l using lists_ok_alive [OF assms(1,3)] assms(2) by (auto simp: listed_def)
  then have "dlist ((c_links c)(a := None)) (c_head c l) (L l)" for l
    using dlist_upd dl.family_list [OF lists_ok_family [OF assms(1)], of l] by blast
  then have "dl.family ((c_links c)(a := None)) (c_head c) L" using lists_ok_family [OF assms(1)] unfolding dl.family_def by blast
  then show ?thesis using assms(1,2) unfolding lists_ok_def listed_def by auto
qed

lemma lists_ok_entry_upd:
  "lists_ok c L \<Longrightarrow> c_entries c a = Some e \<Longrightarrow> in_list e' = in_list e \<Longrightarrow> lists_ok (c\<lparr>c_entries := (c_entries c)(a \<mapsto> e'), c_env := env\<rparr>) L"
  by (auto simp: lists_ok_def)

lemma unref_last:
  assumes "lists_ok c L" "keys_ok c" "c_entries c a = Some e" "ref_count e \<le> 1" "\<not> listed L a" "card (dom (c_entries c)) < 2 ^ 32"
  shows "\<exists>c'. entry_unref_guts cls c (Some a) = Some (ret_ok, c') \<and> lists_ok c' L \<and> keys_ok c' \<and> frame c c' \<and>
    c_entries c' = (c_entries c)(a := None)"
proof -
  have tag: "in_list e = cache_no_list" using assms(1,3,5) tag_in_none [of L a] unfolding lists_ok_def listed_def by auto
  have dom: "dom (key_of c) = dom (c_entries c)" by (auto simp: key_of_def)
  have k: "key_of c a = Some (buf_str (ce_key e))" "text_key (ce_key e)" using assms(2,3) by (auto simp: key_of_def keys_ok_def)
  obtain t' where t': "tree_remove (c_map c, c_nodes c) (ce_key e) = Some t'" "trees.indexed t' ((key_of c)(a := None))"
    "\<forall>x. c_nodes c x = None \<longrightarrow> snd t' x = None"
    using trees.indexed_remove [where t = "(c_map c, c_nodes c)" and K = "key_of c" and a = a, OF _ k(2) _ k(1)] assms(2,6) unfolding keys_ok_def dom snd_conv by blast
  then obtain r v A m where A: "http2d_avl_del (c_map c) (c_nodes c) (ce_key e) = Some (r, v, A, m)" "t' = (A, m)"
    by (auto simp: tree_remove_def bind_eq_Some_conv)
  let ?e = "e\<lparr>ref_count := ref_count e - 1\<rparr>"
  let ?c1 = "c\<lparr>c_entries := (c_entries c)(a \<mapsto> ?e), c_map := A, c_nodes := m\<rparr>"
  have l1: "lists_ok ?c1 L" using set_entry_ref_ok(1) [OF assms(1-3), of "ref_count e - 1"] by (simp add: lists_ok_def)
  obtain ret x env where cl: "clean_cb cls ?e (c_env c) = (ret, x, env)" by (metis prod_cases3)
  let ?c2 = "?c1\<lparr>c_entries := (c_entries c)(a \<mapsto> ?e\<lparr>ce_obj := x\<rparr>), c_env := env\<rparr>"
  have l2: "lists_ok ?c2 L" using lists_ok_entry_upd [OF l1, of a ?e "?e\<lparr>ce_obj := x\<rparr>" env] by simp
  let ?c3 = "?c2\<lparr>c_env := free_cb cls (?e\<lparr>ce_obj := x\<rparr>) env, c_entries := (c_entries c)(a := None), c_links := (c_links c)(a := None)\<rparr>"
  have "lists_ok ?c3 L" using lists_ok_free [OF l2 assms(5)] by (simp add: lists_ok_def)
  moreover have "entry_unref_guts cls c (Some a) = Some (ret_ok, ?c3)"
    using assms(3,4) A(1) tag cl by (simp add: entry_unref_guts_def set_entry_def unlist_def entry_parent_info_clean_def entry_free_def)
  moreover have "key_of ?c3 = (key_of c)(a := None)" by (auto simp: key_of_def)
  ultimately show ?thesis using t'(2,3) A(2) assms(2) by (intro exI [of _ ?c3]) (auto simp: keys_ok_def frame_def split: if_splits)
qed

definition forgotten :: "(lptr \<Rightarrow> nat) \<Rightarrow> lptr option \<Rightarrow> (lptr \<Rightarrow> byte list option) \<Rightarrow> lptr \<Rightarrow> byte list option" where
  "forgotten R x K = (case x of Some a \<Rightarrow> if R a = 0 then K(a := None) else K | None \<Rightarrow> K)"

lemma lists_ok_distinct: "lists_ok c L \<Longrightarrow> distinct (L l)"
  using dl.list_distinct [OF dl.family_list [OF lists_ok_family], of c L l] by simp

lemma remove1_last: "distinct xs \<Longrightarrow> xs \<noteq> [] \<Longrightarrow> remove1 (last xs) xs = butlast xs"
proof -
  assume "distinct xs" "xs \<noteq> []"
  then obtain ys y where "xs = ys @ [y]" "y \<notin> set ys" by (metis append_butlast_last_id distinct_append distinct.simps(2) disjoint_iff list.set_intros(1))
  then show ?thesis by (simp add: remove1_append)
qed

lemma evict_lru_ok:
  assumes "cache_ok c L R" "L l \<noteq> []" "card (dom (c_entries c)) < 2 ^ 32"
  shows "\<exists>c'. evict_lru l cls c = Some c' \<and> cache_ok c' (L(l := butlast (L l))) R \<and> frame c c' \<and>
    key_of c' = forgotten R (Some (last (L l))) (key_of c)"
proof -
  let ?a = "last (L l)" let ?L = "L(l := butlast (L l))"
  have lo: "lists_ok c L" and ko: "keys_ok c" and ro: "refs_ok c L R" using assms(1) by (auto simp: cache_ok_def)
  have a: "?a \<in> set (L l)" using assms(2) by simp
  have rm: "L(l := remove1 ?a (L l)) = ?L" using remove1_last [OF lists_ok_distinct [OF lo] assms(2)] by simp
  obtain c1 where c1: "cache_list_del l ?a c = Some c1" "lists_ok c1 ?L" "keeps c c1" using cache_list_del_ok [OF lo a] unfolding rm by blast
  have un: "\<not> listed ?L ?a" using unlisted_after_remove [OF lo a] unfolding rm by (simp add: listed_def)
  have other: "listed ?L b = listed L b" if "b \<noteq> ?a" for b
  proof -
    have "b \<in> set (?L k) \<longleftrightarrow> b \<in> set (L k)" for k using that assms(2) by (cases "k = l") (auto simp: in_set_butlastD, metis append_butlast_last_id in_set_conv_decomp set_append set_ConsD Un_iff empty_iff list.set(1))
    then show ?thesis by (simp add: listed_def)
  qed
  obtain e where e: "c_entries c1 ?a = Some e" using keeps_entry [OF c1(3), of ?a] lists_ok_entry [OF lo a] by auto
  then obtain e0 where e0: "c_entries c ?a = Some e0" "ref_count e0 = ref_count e" using keeps_info [OF c1(3) e] by blast
  have rc: "ref_count e = int (R ?a) + 1" using refs_okD [OF ro e0(1)] e0(2) a by (auto simp: listed_def)
  have ko1: "keys_ok c1" by (rule keeps_keys_ok [OF c1(3) ko])
  have R1: "ref_count x = int (R b) + (if listed ?L b then 1 else 0) \<and> ref_count x \<ge> 1" if "b \<noteq> ?a" "c_entries c1 b = Some x" for b x
  proof -
    have "\<exists>x0. c_entries c b = Some x0 \<and> ref_count x0 = ref_count x" using keeps_info [OF c1(3) that(2)] by blast
    then show ?thesis using refs_okD [OF ro, of b] other [OF that(1)] by auto
  qed
  have R2: "c_entries c1 b \<noteq> None" if "R b > 0" for b using ro that keeps_entry [OF c1(3), of b] by (simp add: refs_ok_def)
  have ev: "evict_lru l cls c = map_option snd (entry_unref_guts cls c1 (Some ?a))" if "entry_unref_guts cls c1 (Some ?a) \<noteq> None"
    using cache_list_get_lru_ok [OF lo, of l] assms(2) c1(1) that by (auto simp: evict_lru_def)
  show ?thesis
  proof (cases "R ?a = 0")
    case True
    have "dom (c_entries c1) = dom (c_entries c)" using keeps_entry [OF c1(3)] by (auto simp: domIff)
    then have "card (dom (c_entries c1)) < 2 ^ 32" using assms(3) by simp
    from unref_last [OF c1(2) ko1 e _ un this, of cls] rc True
    obtain c' where c': "entry_unref_guts cls c1 (Some ?a) = Some (ret_ok, c')" "lists_ok c' ?L" "keys_ok c'" "frame c1 c'"
      "c_entries c' = (c_entries c1)(?a := None)" by auto
    have "key_of c' = (key_of c)(?a := None)" using c'(5) keeps_key_of [OF c1(3)] by (auto simp: key_of_def fun_eq_iff)
    moreover have "refs_ok c' ?L R"
    proof (rule refs_okI)
      fix b x assume "c_entries c' b = Some x"
      then have "b \<noteq> ?a" "c_entries c1 b = Some x" using c'(5) by (auto split: if_splits)
      then show "ref_count x = int (R b) + (if listed ?L b then 1 else 0) \<and> ref_count x \<ge> 1" by (rule R1)
    next
      fix b assume "R b > 0"
      with True R2 [of b] show "c_entries c' b \<noteq> None" using c'(5) by auto
    qed
    ultimately show ?thesis using ev c' True frame_trans [OF keeps_frame [OF c1(3)] c'(4)] by (auto simp: cache_ok_def forgotten_def)
  next
    case False
    then have "ref_count e > 1" using rc by simp
    from unref_still [OF c1(2) ko1 e this, of cls]
    obtain c' where c': "entry_unref_guts cls c1 (Some ?a) = Some (ret_eagain, c')" "lists_ok c' ?L" "keys_ok c'" "frame c1 c'"
      "c_entries c' = (c_entries c1)(?a \<mapsto> e\<lparr>ref_count := ref_count e - 1\<rparr>)" by blast
    have "key_of c' = key_of c1" using c'(5) e by (auto simp: key_of_def fun_eq_iff)
    then have "key_of c' = key_of c" using keeps_key_of [OF c1(3)] by simp
    moreover have "refs_ok c' ?L R"
    proof (rule refs_okI)
      fix b x assume b: "c_entries c' b = Some x"
      show "ref_count x = int (R b) + (if listed ?L b then 1 else 0) \<and> ref_count x \<ge> 1"
      proof (cases "b = ?a")
        case True
        then show ?thesis using b c'(5) rc un False by auto
      next
        case ne: False
        then have "c_entries c1 b = Some x" using b c'(5) by simp
        then show ?thesis by (rule R1 [OF ne])
      qed
    next
      fix b assume "R b > 0"
      with R2 [of b] show "c_entries c' b \<noteq> None" using c'(5) by auto
    qed
    ultimately show ?thesis using ev c' False frame_trans [OF keeps_frame [OF c1(3)] c'(4)] by (auto simp: cache_ok_def forgotten_def)
  qed
qed

definition arc_evict :: "list_name \<Rightarrow> arc_lists \<Rightarrow> (arc_lists \<times> lptr option) option" where
  "arc_evict l L = (if L l = [] then None else Some (L(l := butlast (L l)), Some (last (L l))))"

text \<open>Making room for a new entry when \<open>n\<close> is the size of the cache: the new lists and the entry that leaves them. There is
  none when the code looks for an entry in an empty list.\<close>

definition arc_room :: "nat \<Rightarrow> int \<Rightarrow> arc_lists \<Rightarrow> (arc_lists \<times> lptr option) option" where
  "arc_room n p L =
     (let l1 = length (L T1) + length (L B1); total = l1 + length (L T2) + length (L B2)
      in if l1 \<ge> n
         then if length (L T1) < n then map_option (apfst (arc_replace p False)) (arc_evict B1 L) else arc_evict T1 L
         else if total \<ge> n
         then map_option (apfst (arc_replace p False)) (if total \<ge> 2 * n then arc_evict B2 L else Some (L, None))
         else Some (L, None))"

lemma lists_ok_total:
  assumes "lists_ok c L" "finite (dom (c_entries c))"
  shows "length (L T1) + length (L T2) + length (L B1) + length (L B2) \<le> card (dom (c_entries c))"
proof -
  note d = lists_ok_distinct [OF assms(1)]
  have dj: "set (L i) \<inter> set (L j) = {}" if "i \<noteq> j" for i j
    using dl.family_unique [OF lists_ok_family [OF assms(1)]] that by blast
  have "distinct (L T1 @ L T2 @ L B1 @ L B2)" using d dj by (simp add: Int_Un_distrib)
  then have "length (L T1 @ L T2 @ L B1 @ L B2) = card (set (L T1 @ L T2 @ L B1 @ L B2))" by (simp only: distinct_card)
  also have "\<dots> \<le> card (dom (c_entries c))" using assms by (intro card_mono) (auto simp: lists_ok_def)
  finally show ?thesis by simp
qed

lemma evict_lru_empty: "lists_ok c L \<Longrightarrow> L l = [] \<Longrightarrow> evict_lru l cls c = None"
  using cache_list_get_lru_ok [of c L l] by (simp add: evict_lru_def)

lemma evict_then_replace:
  assumes "cache_ok c L R" "card (dom (c_entries c)) < 2 ^ 32"
  shows "(case arc_evict l L of None \<Rightarrow> evict_lru l cls c = None
    | Some (L', x) \<Rightarrow> \<exists>c1 c'. evict_lru l cls c = Some c1 \<and> replace cls c1 None = Some (ret_ok, c') \<and>
        cache_ok c' (arc_replace (target_t1 c) False L') R \<and> frame c c' \<and> key_of c' = forgotten R x (key_of c))"
proof (cases "L l = []")
  case True
  then show ?thesis using evict_lru_empty assms(1) by (auto simp: arc_evict_def cache_ok_def)
next
  case False
  obtain c1 where c1: "evict_lru l cls c = Some c1" "cache_ok c1 (L(l := butlast (L l))) R" "frame c c1" "key_of c1 = forgotten R (Some (last (L l))) (key_of c)"
    using evict_lru_ok [OF assms(1) False assms(2)] by blast
  have "lists_ok c1 (L(l := butlast (L l)))" "target_t1 c1 = target_t1 c" using c1(2,3) by (auto simp: cache_ok_def frame_def)
  with replace_ok [OF this(1), of None cls] obtain c' where c': "replace cls c1 None = Some (ret_ok, c')" "keeps c1 c'"
    "lists_ok c' (arc_replace (target_t1 c) False (L(l := butlast (L l))))" by auto
  have "cache_ok c' (arc_replace (target_t1 c) False (L(l := butlast (L l)))) R"
    by (rule keeps_cache_ok [OF c'(2) c1(2) c'(3)]) (simp add: listed_replace)
  then show ?thesis using False c1 c' keeps_key_of [OF c'(2)] frame_trans [OF c1(3) keeps_frame [OF c'(2)]] by (auto simp: arc_evict_def)
qed

lemma key_of_counts [simp]:
  "key_of (c\<lparr>count_miss := n\<rparr>) = key_of c"
  "key_of (c\<lparr>count_hit := n\<rparr>) = key_of c"
  "key_of (c\<lparr>c_count := n\<rparr>) = key_of c"
  "key_of (c\<lparr>target_t1 := p\<rparr>) = key_of c"
  by (simp_all add: key_of_def fun_eq_iff)

lemma cache_ok_counts [simp]:
  "cache_ok (c\<lparr>count_miss := n\<rparr>) L R = cache_ok c L R"
  "cache_ok (c\<lparr>count_hit := n\<rparr>) L R = cache_ok c L R"
  "cache_ok (c\<lparr>c_count := n\<rparr>) L R = cache_ok c L R"
  "cache_ok (c\<lparr>target_t1 := p\<rparr>) L R = cache_ok c L R"
  by (simp_all add: cache_ok_def lists_ok_def keys_ok_def refs_ok_def)

lemma on_new_added_ok:
  assumes "cache_ok c L R" "card (dom (c_entries c)) < 2 ^ 32" "finite (dom (c_entries c))" "0 \<le> max_size c" "max_size c < 2 ^ 31"
  shows "case arc_room (nat (max_size c)) (target_t1 c) L of None \<Rightarrow> on_new_added cls c = None
    | Some (L', x) \<Rightarrow> \<exists>c'. on_new_added cls c = Some (ret_ok, c') \<and> cache_ok c' L' R \<and>
        frame (c\<lparr>count_miss := u32 (count_miss c + 1)\<rparr>) c' \<and> key_of c' = forgotten R x (key_of c)"
proof -
  let ?c = "c\<lparr>count_miss := u32 (count_miss c + 1)\<rparr>" let ?n = "nat (max_size c)"
  let ?l1 = "length (L T1) + length (L B1)" let ?l2 = "length (L T2) + length (L B2)"
  have lo: "lists_ok c L" using assms(1) by (simp add: cache_ok_def)
  have len: "c_len c l = int (length (L l))" for l using lo by (simp add: lists_ok_def)
  have tot: "?l1 + ?l2 < 2 ^ 32" using lists_ok_total [OF lo assms(3)] assms(2) by linarith
  have u: "uint_of (max_size c) = ?n" "uint_of (c_len c T1 + c_len c B1) = ?l1" "uint_of (c_len c T2 + c_len c B2) = ?l2"
    "uint_of (c_len c T1) = length (L T1)" "u32 (?l1 + ?l2) = ?l1 + ?l2" "u32 (2 * ?n) = 2 * ?n"
    using assms(4,5) tot by (simp_all add: uint_of_def len u32_id nat_add_distrib flip: of_nat_add)
  have ok: "cache_ok ?c L R" "card (dom (c_entries ?c)) < 2 ^ 32" using assms(1,2) by simp_all
  have loc: "lists_ok ?c L" using ok(1) by (simp add: cache_ok_def)
  note er = evict_then_replace [OF ok, of _ cls]
  consider "?l1 \<ge> ?n" "length (L T1) < ?n" | "?l1 \<ge> ?n" "\<not> length (L T1) < ?n"
    | "\<not> ?l1 \<ge> ?n" "?l1 + ?l2 \<ge> ?n" "?l1 + ?l2 \<ge> 2 * ?n" | "\<not> ?l1 \<ge> ?n" "?l1 + ?l2 \<ge> ?n" "\<not> ?l1 + ?l2 \<ge> 2 * ?n"
    | "\<not> ?l1 \<ge> ?n" "\<not> ?l1 + ?l2 \<ge> ?n" by linarith
  then show ?thesis
  proof cases
    case 1
    then show ?thesis using er [of B1] u
      by (cases "arc_evict B1 L") (auto simp: on_new_added_def arc_room_def Let_def len)
  next
    case 2
    then show ?thesis using evict_lru_ok [OF ok(1) _ ok(2), of T1 cls] evict_lru_empty [OF loc, of T1 cls] u
      by (cases "L T1 = []") (auto simp: on_new_added_def arc_room_def arc_evict_def Let_def len)
  next
    case 3
    then show ?thesis using er [of B2] u
      by (cases "arc_evict B2 L") (auto simp: on_new_added_def arc_room_def Let_def len add.assoc)
  next
    case 4
    from replace_ok [OF loc, of None cls] obtain c' where c': "replace cls ?c None = Some (ret_ok, c')" "keeps ?c c'"
      "lists_ok c' (arc_replace (target_t1 c) False L)" by auto
    have "cache_ok c' (arc_replace (target_t1 c) False L) R" by (rule keeps_cache_ok [OF c'(2) ok(1) c'(3)]) (simp add: listed_replace)
    then show ?thesis using 4 c' keeps_key_of [OF c'(2)] keeps_frame [OF c'(2)] u
      by (auto simp: on_new_added_def arc_room_def Let_def len forgotten_def add.assoc)
  next
    case 5
    then show ?thesis using ok u by (auto simp: on_new_added_def arc_room_def Let_def len forgotten_def add.assoc frame_def)
  qed
qed

subsection \<open>A hit\<close>

text \<open>What a hit does to the lists and to the target size: \<open>n\<close> is the size of the cache and \<open>ok\<close> says whether the data of a
  ghost entry could be fetched again.\<close>

definition arc_hit :: "int \<Rightarrow> bool \<Rightarrow> lptr \<Rightarrow> arc_lists \<Rightarrow> int \<Rightarrow> arc_lists \<times> int" where
  "arc_hit n ok a L p =
     (if a \<in> set (L T1) then (move a T1 T2 L, p)
      else if a \<in> set (L T2) then (move a T2 T2 L, p)
      else if a \<in> set (L B1) then
        (let p = min n (p + max 1 (int (length (L B2)) div int (length (L B1)))); L = arc_replace p False L
         in (if ok then move a B1 T2 L else L, p))
      else
        (let p = max 0 (p - max 1 (int (length (L B1)) div int (length (L B2)))); L = arc_replace p True L
         in (if ok then move a B2 T2 L else L, p)))"

lemma idiv_len: "n \<noteq> 0 \<Longrightarrow> idiv (int m) (int n) = Some (int m div int n)"
  by (simp add: idiv_def zdiv_int sgn_if)

lemma arc_replace_ghost: "a \<in> set (L B1) \<Longrightarrow> a \<in> set (arc_replace p h L B1)" "a \<in> set (L B2) \<Longrightarrow> a \<in> set (arc_replace p h L B2)"
  by (auto simp: arc_replace_def demote_def move_def Let_def)

text \<open>Both ghost lists work alike.\<close>

lemma ghost_hit:
  assumes "cache_ok c L R" "a \<in> set (L i)" "i = B1 \<or> i = B2"
  shows "\<exists>c1 ret c2 c3. replace cls c (Some a) = Some (ret_ok, c1) \<and> entry_parent_info_fetch cls c1 a = Some (ret, c2) \<and>
    cache_list_swap i T2 a c2 = Some c3 \<and> cache_ok c2 (arc_replace (target_t1 c) (i = B2) L) R \<and>
    cache_ok c3 (move a i T2 (arc_replace (target_t1 c) (i = B2) L)) R \<and> keeps c c2 \<and> keeps c c3 \<and>
    (fetch_works cls \<longrightarrow> ret = ret_ok \<or> ret = ret_deny)"
proof -
  let ?L = "arc_replace (target_t1 c) (i = B2) L"
  have lo: "lists_ok c L" using assms(1) by (simp add: cache_ok_def)
  have b2: "(\<exists>b. Some a = Some b \<and> b \<in> set (L B2)) = (i = B2)" using dl.family_unique [OF lists_ok_family [OF lo] assms(2), of B2] assms(2) by auto
  have ea: "c_entries c a \<noteq> None" using lists_ok_entry [OF lo assms(2)] by auto
  then have "\<forall>b. Some a = Some b \<longrightarrow> c_entries c b \<noteq> None" by simp
  from replace_ok [OF lo this, of cls] obtain c1 where c1: "replace cls c (Some a) = Some (ret_ok, c1)" "keeps c c1" "lists_ok c1 ?L"
    unfolding b2 by blast
  have "c_entries c1 a \<noteq> None" using ea keeps_entry [OF c1(2)] by simp
  from entry_parent_info_fetch_ok [OF c1(3) this, of cls] obtain ret c2
    where c2: "entry_parent_info_fetch cls c1 a = Some (ret, c2)" "lists_ok c2 ?L" "keeps c1 c2" by blast
  have ai: "a \<in> set (?L i)" using assms(2,3) arc_replace_ghost by blast
  obtain c3 where c3: "cache_list_swap i T2 a c2 = Some c3" "lists_ok c3 (move a i T2 ?L)" "keeps c2 c3" using cache_list_swap_ok [OF c2(2) ai] by blast
  have k2: "keeps c c2" by (rule keeps_trans [OF c1(2) c2(3)])
  then have "cache_ok c2 ?L R" by (rule keeps_cache_ok [OF _ assms(1) c2(2)]) (simp add: listed_replace)
  moreover from this have "cache_ok c3 (move a i T2 ?L) R" by (rule keeps_cache_ok [OF c3(3) _ c3(2)]) (use listed_move [of a ?L i T2] ai in blast)
  moreover have "fetch_works cls \<longrightarrow> ret = ret_ok \<or> ret = ret_deny" using fetch_works_ret [OF _ c2(1)] by blast
  ultimately show ?thesis using c1 c2 c3 k2 keeps_trans [OF k2 c3(3)] by blast
qed

lemma update_ghost_ok:
  assumes "cache_ok c L R" "a \<in> set (L i)" "i = B1 \<or> i = B2"
  shows "\<exists>ret c'. (if i = B1 then update_ghost_b1 cls c a else update_ghost_b2 cls c a) = Some (ret, c') \<and>
    (ret = ret_ok \<or> \<not> fetch_works cls) \<and>
    cache_ok c' (fst (arc_hit (max_size c) (ret = ret_ok) a L (target_t1 c))) R \<and>
    keeps (c\<lparr>target_t1 := snd (arc_hit (max_size c) (ret = ret_ok) a L (target_t1 c))\<rparr>) c'"
proof -
  have lo: "lists_ok c L" using assms(1) by (simp add: cache_ok_def)
  have len: "c_len c l = int (length (L l))" for l using lo by (simp add: lists_ok_def)
  have un: "a \<notin> set (L j)" if "j \<noteq> i" for j using dl.family_unique [OF lists_ok_family [OF lo] assms(2)] that by blast
  have ne: "length (L i) \<noteq> 0" using assms(2) by auto
  from assms(3) show ?thesis
  proof
    assume i: "i = B1"
    let ?p = "min (max_size c) (target_t1 c + max 1 (int (length (L B2)) div int (length (L B1))))"
    have "cache_ok (c\<lparr>target_t1 := ?p\<rparr>) L R" using assms(1) by simp
    from ghost_hit [OF this assms(2,3), of cls] i obtain c1 ret c2 c3 where
      g: "replace cls (c\<lparr>target_t1 := ?p\<rparr>) (Some a) = Some (ret_ok, c1)" "entry_parent_info_fetch cls c1 a = Some (ret, c2)"
      "cache_list_swap B1 T2 a c2 = Some c3" "cache_ok c2 (arc_replace ?p False L) R" "cache_ok c3 (move a B1 T2 (arc_replace ?p False L)) R"
      "keeps (c\<lparr>target_t1 := ?p\<rparr>) c2" "keeps (c\<lparr>target_t1 := ?p\<rparr>) c3" "fetch_works cls \<longrightarrow> ret = ret_ok \<or> ret = ret_deny" by auto
    have h: "arc_hit (max_size c) ok a L (target_t1 c) = (if ok then move a B1 T2 (arc_replace ?p False L) else arc_replace ?p False L, ?p)" for ok
      using un [of T1] un [of T2] assms(2) i by (simp add: arc_hit_def Let_def)
    have "update_ghost_b1 cls c a = Some (if ret \<in> {ret_ok, ret_deny, ret_ok_and_sent} then (ret_ok, c3)
        else if ret \<in> {ret_error, ret_no_sys, ret_not_found} then (ret, c2) else (ret_error, c2))"
      using g(1-3) ne i by (simp add: update_ghost_b1_def len idiv_len)
    then show ?thesis using i g(4-8) by (cases ret) (simp_all add: h)
  next
    assume i: "i = B2"
    let ?p = "max 0 (target_t1 c - max 1 (int (length (L B1)) div int (length (L B2))))"
    have "cache_ok (c\<lparr>target_t1 := ?p\<rparr>) L R" using assms(1) by simp
    from ghost_hit [OF this assms(2,3), of cls] i obtain c1 ret c2 c3 where
      g: "replace cls (c\<lparr>target_t1 := ?p\<rparr>) (Some a) = Some (ret_ok, c1)" "entry_parent_info_fetch cls c1 a = Some (ret, c2)"
      "cache_list_swap B2 T2 a c2 = Some c3" "cache_ok c2 (arc_replace ?p True L) R" "cache_ok c3 (move a B2 T2 (arc_replace ?p True L)) R"
      "keeps (c\<lparr>target_t1 := ?p\<rparr>) c2" "keeps (c\<lparr>target_t1 := ?p\<rparr>) c3" "fetch_works cls \<longrightarrow> ret = ret_ok \<or> ret = ret_deny" by auto
    have h: "arc_hit (max_size c) ok a L (target_t1 c) = (if ok then move a B2 T2 (arc_replace ?p True L) else arc_replace ?p True L, ?p)" for ok
      using un [of T1] un [of T2] un [of B1] assms(2) i by (simp add: arc_hit_def Let_def)
    have "update_ghost_b2 cls c a = Some (if ret \<in> {ret_ok, ret_deny} then (ret_ok, c3)
        else if ret \<in> {ret_error, ret_no_sys} then (ret, c2) else (ret_error, c2))"
      using g(1-3) ne i by (simp add: update_ghost_b2_def len idiv_len)
    then show ?thesis using i g(4-8) by (cases ret) (simp_all add: h)
  qed
qed

lemma update_cache_ok:
  assumes "cache_ok c L R" "a \<in> set (L i)"
  shows "\<exists>ret c'. update_cache cls c a = Some (ret, c') \<and> hit_ret cls i ret \<and>
    cache_ok c' (fst (arc_hit (max_size c) (ret = ret_ok) a L (target_t1 c))) R \<and>
    keeps (c\<lparr>count_hit := u32 (count_hit c + 1), target_t1 := snd (arc_hit (max_size c) (ret = ret_ok) a L (target_t1 c))\<rparr>) c'"
proof -
  let ?c = "c\<lparr>count_hit := u32 (count_hit c + 1)\<rparr>"
  have ok: "cache_ok ?c L R" using assms(1) by simp
  then have lo: "lists_ok ?c L" by (simp add: cache_ok_def)
  obtain e where e: "c_entries c a = Some e" "in_list e = list_tag i" using lists_ok_entry [OF lo assms(2)] by auto
  have un: "a \<notin> set (L j)" if "j \<noteq> i" for j using dl.family_unique [OF lists_ok_family [OF lo] assms(2)] that by blast
  show ?thesis
  proof (cases i)
    case T1
    then obtain c' where c': "cache_list_swap T1 T2 a ?c = Some c'" "lists_ok c' (move a T1 T2 L)" "keeps ?c c'"
      using cache_list_swap_ok [OF lo, of a T1 T2] assms(2) by blast
    have "cache_ok c' (move a T1 T2 L) R" by (rule keeps_cache_ok [OF c'(3) ok c'(2)]) (use listed_move assms(2) T1 in blast)
    then show ?thesis using c' e T1 assms(2) by (simp add: update_cache_def arc_hit_def keeps_def hit_ret_def)
  next
    case T2
    then obtain c' where c': "cache_list_make_first T2 a ?c = Some c'" "lists_ok c' (move a T2 T2 L)" "keeps ?c c'"
      using cache_list_make_first_ok [OF lo, of a T2] assms(2) by blast
    have "cache_ok c' (move a T2 T2 L) R" by (rule keeps_cache_ok [OF c'(3) ok c'(2)]) (use listed_move assms(2) T2 in blast)
    then show ?thesis using c' e T2 assms(2) un [of T1] by (simp add: update_cache_def arc_hit_def keeps_def hit_ret_def)
  next
    case B1
    from update_ghost_ok [OF ok, of a B1 cls] B1 assms(2) obtain ret c' where u: "update_ghost_b1 cls ?c a = Some (ret, c')" "ret = ret_ok \<or> \<not> fetch_works cls"
      "cache_ok c' (fst (arc_hit (max_size c) (ret = ret_ok) a L (target_t1 c))) R"
      "keeps (?c\<lparr>target_t1 := snd (arc_hit (max_size c) (ret = ret_ok) a L (target_t1 c))\<rparr>) c'" by auto
    let ?ret = "if ret \<in> {ret_ok, ret_no_sys} then ret else ret_error"
    have "(?ret = ret_ok) = (ret = ret_ok)" by auto
    moreover have "update_cache cls c a = Some (?ret, c')" using u(1) e B1 by (simp add: update_cache_def)
    moreover have "hit_ret cls i ?ret" using u(2) B1 by (auto simp: hit_ret_def)
    ultimately show ?thesis using u(3,4) B1 by (intro exI [of _ ?ret] exI [of _ c']) simp
  next
    case B2
    from update_ghost_ok [OF ok, of a B2 cls] B2 assms(2) obtain ret c' where u: "update_ghost_b2 cls ?c a = Some (ret, c')" "ret = ret_ok \<or> \<not> fetch_works cls"
      "cache_ok c' (fst (arc_hit (max_size c) (ret = ret_ok) a L (target_t1 c))) R"
      "keeps (?c\<lparr>target_t1 := snd (arc_hit (max_size c) (ret = ret_ok) a L (target_t1 c))\<rparr>) c'" by auto
    let ?ret = "if ret \<in> {ret_ok, ret_no_sys} then ret else ret_error"
    have "(?ret = ret_ok) = (ret = ret_ok)" by auto
    moreover have "update_cache cls c a = Some (?ret, c')" using u(1) e B2 by (simp add: update_cache_def)
    moreover have "hit_ret cls i ?ret" using u(2) B2 by (auto simp: hit_ret_def)
    ultimately show ?thesis using u(3,4) B2 by (intro exI [of _ ?ret] exI [of _ c']) simp
  qed
qed

subsection \<open>References\<close>

lemma entry_ref_ok:
  assumes "cache_ok c L R" "c_entries c a \<noteq> None"
  shows "\<exists>c'. entry_ref c a = Some c' \<and> cache_ok c' L (R(a := R a + 1)) \<and> keeps (c\<lparr>c_entries := c_entries c'\<rparr>) c' \<and> key_of c' = key_of c"
proof -
  obtain e where e: "c_entries c a = Some e" using assms(2) by auto
  have o: "lists_ok c L" "keys_ok c" "refs_ok c L R" using assms(1) by (auto simp: cache_ok_def)
  let ?c = "c\<lparr>c_entries := (c_entries c)(a \<mapsto> e\<lparr>ref_count := ref_count e + 1\<rparr>)\<rparr>"
  have "refs_ok ?c L (R(a := R a + 1))"
  proof (rule refs_okI)
    fix b x assume "c_entries ?c b = Some x"
    then show "ref_count x = int ((R(a := R a + 1)) b) + (if listed L b then 1 else 0) \<and> ref_count x \<ge> 1"
      using refs_okD [OF o(3), of b] refs_okD [OF o(3) e] by (auto split: if_splits)
  next
    fix b assume "0 < (R(a := R a + 1)) b"
    then show "c_entries ?c b \<noteq> None" using o(3) by (auto simp: refs_ok_def split: if_splits)
  qed
  then have "cache_ok ?c L (R(a := R a + 1))" using set_entry_ref_ok [OF o(1,2) e] by (simp add: cache_ok_def)
  moreover have "key_of ?c = key_of c" using e by (auto simp: key_of_def fun_eq_iff)
  ultimately show ?thesis using e by (simp add: entry_ref_def set_entry_def)
qed

lemma entry_ref_frame: "keeps (c\<lparr>c_entries := c_entries c'\<rparr>) c' \<Longrightarrow> frame c c'"
  by (simp add: keeps_def frame_def)

lemma list_entry_ok:
  assumes "cache_ok c L R" "\<not> listed L a" "R a > 0"
  shows "\<exists>c'. cache_list_add l a c = Some c' \<and> cache_ok c' (L(l := a # L l)) (R(a := R a - 1)) \<and> keeps c c'"
proof -
  have o: "lists_ok c L" "keys_ok c" "refs_ok c L R" using assms(1) by (auto simp: cache_ok_def)
  have ea: "c_entries c a \<noteq> None" using o(3) assms(3) by (simp add: refs_ok_def)
  have "\<forall>k. a \<notin> set (L k)" using assms(2) by (simp add: listed_def)
  from cache_list_add_ok [OF o(1) this ea, of l] obtain c' where c': "cache_list_add l a c = Some c'" "lists_ok c' (L(l := a # L l))" "keeps c c'" by blast
  have li: "listed (L(l := a # L l)) b \<longleftrightarrow> b = a \<or> listed L b" for b by (auto simp: listed_def)
  have "refs_ok c' (L(l := a # L l)) (R(a := R a - 1))"
  proof (rule refs_okI)
    fix b x assume "c_entries c' b = Some x"
    then obtain y where y: "c_entries c b = Some y" "ref_count y = ref_count x" using keeps_info [OF c'(3)] by blast
    then show "ref_count x = int ((R(a := R a - 1)) b) + (if listed (L(l := a # L l)) b then 1 else 0) \<and> ref_count x \<ge> 1"
      using refs_okD [OF o(3) y(1)] assms(2,3) by (auto simp: li)
  next
    fix b assume "0 < (R(a := R a - 1)) b"
    then have "0 < R b" by (auto split: if_splits)
    then show "c_entries c' b \<noteq> None" using o(3) keeps_entry [OF c'(3), of b] by (simp add: refs_ok_def)
  qed
  then show ?thesis using c' keeps_keys_ok [OF c'(3) o(2)] by (auto simp: cache_ok_def)
qed

lemma add_list_ok:
  assumes "cache_ok c L (R(a := R a + 1))" "\<not> listed L a"
  shows "\<exists>c'. add_list c a = Some (ret_ok, Some a, c') \<and> cache_ok c' (L(T1 := a # L T1)) (R(a := R a + 1)) \<and> frame c c' \<and> key_of c' = key_of c"
proof -
  obtain c1 where c1: "cache_list_add T1 a c = Some c1" "cache_ok c1 (L(T1 := a # L T1)) R" "keeps c c1"
    using list_entry_ok [OF assms, of T1] by auto
  have "c_entries c1 a \<noteq> None" using assms(1) keeps_entry [OF c1(3), of a] by (simp add: cache_ok_def refs_ok_def)
  from entry_ref_ok [OF c1(2) this] obtain c' where "entry_ref c1 a = Some c'" "cache_ok c' (L(T1 := a # L T1)) (R(a := R a + 1))"
    "frame c1 c'" "key_of c' = key_of c1" using entry_ref_frame by blast
  then show ?thesis using c1 keeps_key_of [OF c1(3)] frame_trans [OF keeps_frame [OF c1(3)]] by (auto simp: add_list_def)
qed

lemma cache_unref_ok:
  assumes "cache_ok c L R" "R a > 0" "card (dom (c_entries c)) < 2 ^ 32"
  shows "\<exists>ret c'. http2d_cache_entry_unref cls c (Some a) = Some (ret, c') \<and> cache_ok c' L (R(a := R a - 1)) \<and> frame c c' \<and>
    ret = (if R a = 1 \<and> \<not> listed L a then ret_ok else ret_eagain) \<and>
    key_of c' = (if R a = 1 \<and> \<not> listed L a then (key_of c)(a := None) else key_of c)"
proof -
  have o: "lists_ok c L" "keys_ok c" "refs_ok c L R" using assms(1) by (auto simp: cache_ok_def)
  obtain e where e: "c_entries c a = Some e" using o(3) assms(2) unfolding refs_ok_def by blast
  note rc = refs_okD [OF o(3) e]
  show ?thesis
  proof (cases "R a = 1 \<and> \<not> listed L a")
    case True
    with unref_last [OF o(1,2) e _ _ assms(3), of cls] rc
    obtain c' where c': "entry_unref_guts cls c (Some a) = Some (ret_ok, c')" "lists_ok c' L" "keys_ok c'" "frame c c'"
      "c_entries c' = (c_entries c)(a := None)" by auto
    have "refs_ok c' L (R(a := R a - 1))"
    proof (rule refs_okI)
      fix b x assume "c_entries c' b = Some x"
      then show "ref_count x = int ((R(a := R a - 1)) b) + (if listed L b then 1 else 0) \<and> ref_count x \<ge> 1"
        using refs_okD [OF o(3), of b] c'(5) by (auto split: if_splits)
    next
      fix b assume "0 < (R(a := R a - 1)) b"
      then show "c_entries c' b \<noteq> None" using o(3) c'(5) True by (auto simp: refs_ok_def split: if_splits)
    qed
    moreover have "key_of c' = (key_of c)(a := None)" using c'(5) by (auto simp: key_of_def)
    ultimately show ?thesis using c' True by (auto simp: http2d_cache_entry_unref_def cache_ok_def)
  next
    case False
    then have "ref_count e > 1" using rc assms(2) by auto
    from unref_still [OF o(1,2) e this, of cls]
    obtain c' where c': "entry_unref_guts cls c (Some a) = Some (ret_eagain, c')" "lists_ok c' L" "keys_ok c'" "frame c c'"
      "c_entries c' = (c_entries c)(a \<mapsto> e\<lparr>ref_count := ref_count e - 1\<rparr>)" by blast
    have "refs_ok c' L (R(a := R a - 1))"
    proof (rule refs_okI)
      fix b x assume "c_entries c' b = Some x"
      then show "ref_count x = int ((R(a := R a - 1)) b) + (if listed L b then 1 else 0) \<and> ref_count x \<ge> 1"
        using refs_okD [OF o(3), of b] c'(5) rc False assms(2) by (auto split: if_splits)
    next
      fix b assume "0 < (R(a := R a - 1)) b"
      then show "c_entries c' b \<noteq> None" using o(3) c'(5) by (auto simp: refs_ok_def split: if_splits)
    qed
    moreover have "key_of c' = key_of c" using c'(5) e by (auto simp: key_of_def fun_eq_iff)
    ultimately show ?thesis using c' False by (auto simp: http2d_cache_entry_unref_def cache_ok_def)
  qed
qed

subsection \<open>A new entry\<close>

lemma entry_init_ok:
  assumes "lists_ok c L" "c_entries c a = None" "\<forall>l. a \<noteq> c_head c l" "text_key key"
  shows "\<exists>c' e. http2d_cache_entry_init (total_heap f) x c a key = Some (ret_ok, c') \<and> lists_ok c' L \<and> frame c c' \<and> c_map c' = c_map c \<and>
    c_nodes c' = c_nodes c \<and> c_entries c' = (c_entries c)(a \<mapsto> e) \<and> ref_count e = 0 \<and> text_key (ce_key e) \<and> buf_str (ce_key e) = buf_str key"
proof -
  let ?m0 = "(c_links c)(a \<mapsto> \<lparr>le_next = None, le_prev = None\<rparr>)"
  obtain m where m: "INIT_LIST_HEAD ?m0 a = Some m" "touches {a} ?m0 m" using list_init [of ?m0 a] by auto
  obtain k where k: "http2d_buffer_add_buffer (total_heap f) HTTP2D_BUF_INIT key = Some (ret_ok, k)" "buf_rep k (buf_str key)"
    using http2d_buffer_add_buffer_rep [OF buf_rep_INIT, of key "buf_str key" "total_heap f"] assms(4) by (auto simp: grows_to_def text_key_def valid_key_def)
  have kk: "buf_str k = buf_str key" using k(2) by (simp add: buf_rep_def)
  have tk: "text_key k" using valid_key_rep [OF k(2)] assms(4) kk by (simp add: text_key_def valid_key_def)
  have un: "a \<notin> set (L l)" for l using lists_ok_entry [OF assms(1), of a l] assms(2) by auto
  have mb: "m a \<noteq> None" "\<And>b. b \<noteq> a \<Longrightarrow> m b = c_links c b" using m(2) by (auto simp: touches_def)
  have "dlist m (c_head c l) (L l)" for l
    using un [of l] assms(3) mb(2) by (intro dlist_same [OF dl.family_list [OF lists_ok_family [OF assms(1)]]]) metis
  then have fam: "dl.family m (c_head c) L" using lists_ok_family [OF assms(1)] unfolding dl.family_def by blast
  let ?e = "\<lparr>ce_key = k, in_list = cache_no_list, ref_count = 0, ce_obj = x\<rparr>"
  let ?c = "c\<lparr>c_links := m, c_entries := (c_entries c)(a \<mapsto> ?e)\<rparr>"
  have "tag_in L a = cache_no_list" using un by (simp add: tag_in_none)
  with mb have "lists_ok ?c L" using assms(1,3) fam unfolding lists_ok_def by (auto split: if_splits)
  then show ?thesis using m(1) k(1) tk kk by (intro exI [of _ ?c] exI [of _ ?e]) (simp add: http2d_cache_entry_init_def frame_def)
qed

lemma new_entry_ok:
  assumes "cache_ok c L R" "c_entries c a = None" "\<forall>l. a \<noteq> c_head c l" "text_key key" "c_nodes c x = None"
    and "\<forall>b. key_of c b \<noteq> Some (buf_str key)" "card (dom (c_entries c)) < 2 ^ 32"
  shows "\<exists>c1 r A m c2. http2d_cache_entry_init (total_heap f) y c a key = Some (ret_ok, c1) \<and>
    http2d_avl_add (total_heap f) (c_map c1) (c_nodes c1) (Some x) key (Some a) = Some (r, A, m) \<and>
    entry_ref (c1\<lparr>c_map := A, c_nodes := m\<rparr>) a = Some c2 \<and> cache_ok c2 L (R(a := 1)) \<and> \<not> listed L a \<and>
    max_size c2 = max_size c \<and> target_t1 c2 = target_t1 c \<and> c_head c2 = c_head c \<and> key_of c2 = (key_of c)(a \<mapsto> buf_str key) \<and>
    (\<forall>y. y \<noteq> x \<and> c_nodes c y = None \<longrightarrow> c_nodes c2 y = None)"
proof -
  have o: "lists_ok c L" "keys_ok c" "refs_ok c L R" using assms(1) by (auto simp: cache_ok_def)
  obtain c1 e where c1: "http2d_cache_entry_init (total_heap f) y c a key = Some (ret_ok, c1)" "lists_ok c1 L" "frame c c1" "c_map c1 = c_map c"
    "c_nodes c1 = c_nodes c" "c_entries c1 = (c_entries c)(a \<mapsto> e)" "ref_count e = 0" "text_key (ce_key e)" "buf_str (ce_key e) = buf_str key"
    using entry_init_ok [OF o(1) assms(2-4), of f y] by blast
  have dom: "dom (key_of c) = dom (c_entries c)" by (auto simp: key_of_def)
  have "key_of c a = None" "trees.indexed (c_map c, c_nodes c) (key_of c)" using assms(2) o(2) by (simp_all add: key_of_def keys_ok_def)
  from trees.indexed_enter [where t = "(c_map c, c_nodes c)" and K = "key_of c" and x = x and f = f, OF this(2) assms(4) _ _ assms(6) this(1)] assms(5,7)
  obtain t' where t': "tree_enter f (c_map c, c_nodes c) x key a = Some t'" "trees.indexed t' ((key_of c)(a \<mapsto> buf_str key))"
    "\<forall>y. y \<noteq> x \<and> c_nodes c y = None \<longrightarrow> snd t' y = None" unfolding dom by auto
  then obtain r A m where A: "http2d_avl_add (total_heap f) (c_map c) (c_nodes c) (Some x) key (Some a) = Some (r, A, m)" "t' = (A, m)"
    by (auto simp: tree_enter_def bind_eq_Some_conv)
  let ?c2 = "c1\<lparr>c_map := A, c_nodes := m, c_entries := (c_entries c)(a \<mapsto> e\<lparr>ref_count := 1\<rparr>)\<rparr>"
  have er: "entry_ref (c1\<lparr>c_map := A, c_nodes := m\<rparr>) a = Some ?c2" using c1(6,7) by (simp add: entry_ref_def set_entry_def)
  have l2: "lists_ok ?c2 L" using lists_ok_entry_upd [OF c1(2), of a e "e\<lparr>ref_count := 1\<rparr>" "c_env c1"] c1(6) by (simp add: lists_ok_def)
  have ko: "key_of ?c2 = (key_of c)(a \<mapsto> buf_str key)" using c1(9) by (auto simp: key_of_def)
  have "keys_ok ?c2" using t'(2) A(2) o(2) c1(8) unfolding keys_ok_def ko by auto
  moreover have un: "\<not> listed L a" using lists_ok_entry [OF o(1), of a] assms(2) by (auto simp: listed_def)
  moreover have "refs_ok ?c2 L (R(a := 1))"
  proof (rule refs_okI)
    fix b z assume "c_entries ?c2 b = Some z"
    then show "ref_count z = int ((R(a := 1)) b) + (if listed L b then 1 else 0) \<and> ref_count z \<ge> 1"
      using refs_okD [OF o(3), of b] un by (auto split: if_splits)
  next
    fix b assume "0 < (R(a := 1)) b"
    then show "c_entries ?c2 b \<noteq> None" using o(3) by (auto simp: refs_ok_def split: if_splits)
  qed
  ultimately have "cache_ok ?c2 L (R(a := 1))" using l2 by (simp add: cache_ok_def)
  then show ?thesis using c1(1,3-5) A er un ko t'(3) by (intro exI [of _ c1] exI [of _ r] exI [of _ A] exI [of _ m] exI [of _ ?c2]) (simp add: frame_def)
qed

subsection \<open>Looking up\<close>

lemma avl_get_index:
  assumes "keys_ok c" "text_key key"
  shows "key_of c a = Some (buf_str key) \<Longrightarrow> http2d_avl_get (c_map c) (c_nodes c) key = Some (ret_ok, Some (Some a))"
    and "\<forall>b. key_of c b \<noteq> Some (buf_str key) \<Longrightarrow> \<exists>v. http2d_avl_get (c_map c) (c_nodes c) key = Some (ret_not_found, v)"
proof -
  have i: "trees.indexed (c_map c, c_nodes c) (key_of c)" using assms(1) by (simp add: keys_ok_def)
  show "http2d_avl_get (c_map c) (c_nodes c) key = Some (ret_ok, Some (Some a))" if "key_of c a = Some (buf_str key)"
    using trees.indexed_hit [OF i assms(2) that] by (auto simp: tree_lookup_def bind_eq_Some_conv split: if_splits)
  show "\<exists>v. http2d_avl_get (c_map c) (c_nodes c) key = Some (ret_not_found, v)" if "\<forall>b. key_of c b \<noteq> Some (buf_str key)"
    using trees.indexed_miss [OF i assms(2) that] by (auto simp: tree_lookup_def bind_eq_Some_conv split: if_splits)
qed

definition same_config :: "('x, 'e) cache \<Rightarrow> ('x, 'e) cache \<Rightarrow> bool" where
  "same_config c c' \<longleftrightarrow> max_size c' = max_size c \<and> c_head c' = c_head c"

lemma cache_get_hit:
  assumes "cache_ok c L R" "text_key key" "key_of c a = Some (buf_str key)" "a \<in> set (L i)"
  shows "\<exists>ret c'. http2d_cache_get h cls c key new node = Some (ret, Some a, c') \<and> hit_ret cls i ret \<and>
    cache_ok c' (fst (arc_hit (max_size c) (ret = ret_ok) a L (target_t1 c))) (R(a := R a + 1)) \<and> key_of c' = key_of c \<and>
    target_t1 c' = snd (arc_hit (max_size c) (ret = ret_ok) a L (target_t1 c)) \<and> same_config c c' \<and>
    (\<forall>y. c_nodes c y = None \<longrightarrow> c_nodes c' y = None)"
proof -
  let ?c = "c\<lparr>c_count := u32 (c_count c + 1)\<rparr>"
  have ok: "cache_ok ?c L R" using assms(1) by simp
  have g: "http2d_avl_get (c_map c) (c_nodes c) key = Some (ret_ok, Some (Some a))"
    using avl_get_index(1) [OF _ assms(2,3)] assms(1) by (simp add: cache_ok_def)
  obtain e where e: "c_entries c a = Some e" "in_list e \<noteq> cache_no_list"
    using lists_ok_entry [of c L a i] assms(1,4) by (auto simp: cache_ok_def)
  obtain ret c1 where c1: "update_cache cls ?c a = Some (ret, c1)" "hit_ret cls i ret"
    "cache_ok c1 (fst (arc_hit (max_size c) (ret = ret_ok) a L (target_t1 c))) R"
    "keeps (?c\<lparr>count_hit := u32 (count_hit ?c + 1), target_t1 := snd (arc_hit (max_size c) (ret = ret_ok) a L (target_t1 c))\<rparr>) c1"
    using update_cache_ok [OF ok assms(4), of cls] by auto
  have "c_entries c1 a \<noteq> None" using keeps_entry [OF c1(4), of a] e by simp
  from entry_ref_ok [OF c1(3) this] obtain c' where c': "entry_ref c1 a = Some c'"
    "cache_ok c' (fst (arc_hit (max_size c) (ret = ret_ok) a L (target_t1 c))) (R(a := R a + 1))" "frame c1 c'" "key_of c' = key_of c1"
    using entry_ref_frame by blast
  have "http2d_cache_get h cls c key new node = Some (ret, Some a, c')"
    using g e c1(1) c'(1) by (simp add: http2d_cache_get_def Let_def)
  moreover have "key_of c' = key_of c" using c'(4) keeps_key_of [OF c1(4)] by simp
  ultimately show ?thesis using c1(2,4) c'(2,3) by (auto simp: same_config_def keeps_def frame_def)
qed

lemma cache_get_lingering:
  assumes "cache_ok c L R" "text_key key" "key_of c a = Some (buf_str key)" "\<not> listed L a"
  shows "\<exists>c'. http2d_cache_get h cls c key new node = Some (ret_ok, Some a, c') \<and> cache_ok c' (L(T1 := a # L T1)) (R(a := R a + 1)) \<and>
    key_of c' = key_of c \<and> target_t1 c' = target_t1 c \<and> same_config c c' \<and> (\<forall>y. c_nodes c y = None \<longrightarrow> c_nodes c' y = None)"
proof -
  let ?c = "c\<lparr>c_count := u32 (c_count c + 1)\<rparr>"
  have ok: "cache_ok ?c L R" using assms(1) by simp
  have g: "http2d_avl_get (c_map c) (c_nodes c) key = Some (ret_ok, Some (Some a))"
    using avl_get_index(1) [OF _ assms(2,3)] assms(1) by (simp add: cache_ok_def)
  obtain e where e: "c_entries c a = Some e" using assms(3) by (auto simp: key_of_def)
  have tag: "in_list e = cache_no_list" using assms(1,4) e tag_in_none [of L a] by (auto simp: cache_ok_def lists_ok_def listed_def)
  obtain c1 where c1: "entry_ref ?c a = Some c1" "cache_ok c1 L (R(a := R a + 1))" "frame ?c c1" "key_of c1 = key_of ?c"
    using entry_ref_ok [OF ok, of a] entry_ref_frame e by auto
  obtain c' where c': "add_list c1 a = Some (ret_ok, Some a, c')" "cache_ok c' (L(T1 := a # L T1)) (R(a := R a + 1))" "frame c1 c'" "key_of c' = key_of c1"
    using add_list_ok [OF c1(2) assms(4)] by blast
  have "http2d_cache_get h cls c key new node = Some (ret_ok, Some a, c')" using g e tag c1(1) c'(1) by (simp add: http2d_cache_get_def Let_def)
  then show ?thesis using c' c1(3,4) by (auto simp: same_config_def frame_def)
qed

lemma keys_ok_finite: "keys_ok c \<Longrightarrow> finite (dom (c_entries c))"
proof -
  assume "keys_ok c"
  then have "finite (dom (key_of c))" by (simp add: keys_ok_def trees.indexed_def)
  moreover have "dom (key_of c) = dom (c_entries c)" by (auto simp: key_of_def)
  ultimately show ?thesis by simp
qed

lemma key_dom: "dom (key_of c) = dom (c_entries c)"
  by (auto simp: key_of_def)

lemma forgotten_none: "K b = None \<Longrightarrow> forgotten R x K b = None"
  by (auto simp: forgotten_def split: option.splits)

lemma forgotten_subset: "forgotten R x K b = Some s \<Longrightarrow> K b = Some s"
  by (auto simp: forgotten_def split: option.splits if_splits)

lemma cache_get_miss:
  assumes "cache_ok c L R" "text_key key" "\<forall>b. key_of c b \<noteq> Some (buf_str key)" "c_entries c a = None" "\<forall>l. a \<noteq> c_head c l"
    and "c_nodes c x = None" "card (dom (c_entries c)) < 2 ^ 32" "0 \<le> max_size c" "max_size c < 2 ^ 31"
  shows "case arc_room (nat (max_size c)) (target_t1 c) L of None \<Rightarrow> http2d_cache_get (total_heap f) cls c key (Some a) (Some x) = None
    | Some (L', v) \<Rightarrow> \<exists>c'. http2d_cache_get (total_heap f) cls c key (Some a) (Some x) = Some (ret_ok, Some a, c') \<and>
        cache_ok c' (L'(T1 := a # L' T1)) (R(a := 1)) \<and> key_of c' = (forgotten R v (key_of c))(a \<mapsto> buf_str key) \<and>
        target_t1 c' = target_t1 c \<and> same_config c c' \<and> (\<forall>y. y \<noteq> x \<and> c_nodes c y = None \<longrightarrow> c_nodes c' y = None)"
proof -
  let ?c = "c\<lparr>c_count := u32 (c_count c + 1)\<rparr>"
  have ok: "cache_ok ?c L R" using assms(1) by simp
  obtain v0 where g: "http2d_avl_get (c_map c) (c_nodes c) key = Some (ret_not_found, v0)"
    using avl_get_index(2) [OF _ assms(2,3)] assms(1) by (auto simp: cache_ok_def)
  have fin: "finite (dom (c_entries c))" using keys_ok_finite assms(1) by (auto simp: cache_ok_def)
  have on: "case arc_room (nat (max_size c)) (target_t1 c) L of None \<Rightarrow> on_new_added cls ?c = None
    | Some (L', v) \<Rightarrow> \<exists>c'. on_new_added cls ?c = Some (ret_ok, c') \<and> cache_ok c' L' R \<and>
        frame (?c\<lparr>count_miss := u32 (count_miss ?c + 1)\<rparr>) c' \<and> key_of c' = forgotten R v (key_of ?c)"
    using on_new_added_ok [OF ok, of cls] assms(7-9) fin by simp
  show ?thesis
  proof (cases "arc_room (nat (max_size c)) (target_t1 c) L")
    case None
    then show ?thesis using on g by (simp add: http2d_cache_get_def Let_def)
  next
    case (Some r)
    obtain L' v where r: "r = (L', v)" by (cases r)
    with on Some obtain c1 where c1: "on_new_added cls ?c = Some (ret_ok, c1)" "cache_ok c1 L' R"
      "frame (?c\<lparr>count_miss := u32 (count_miss ?c + 1)\<rparr>) c1" "key_of c1 = forgotten R v (key_of c)" by auto
    have "key_of c a = None" using assms(4) by (simp add: key_of_def)
    then have "key_of c1 a = None" using forgotten_none [of "key_of c" a R v] c1(4) by simp
    then have 1: "c_entries c1 a = None" by (simp add: key_of_def)
    have 2: "\<forall>l. a \<noteq> c_head c1 l" "c_nodes c1 x = None" using c1(3) assms(5,6) by (auto simp: frame_def)
    have 3: "\<forall>b. key_of c1 b \<noteq> Some (buf_str key)" using forgotten_subset assms(3) c1(4) by metis
    have "dom (c_entries c1) \<subseteq> dom (c_entries c)" using forgotten_subset [of R v "key_of c"] c1(4) by (auto simp flip: key_dom)
    then have 4: "card (dom (c_entries c1)) < 2 ^ 32" using card_mono [OF fin] assms(7) by (meson le_less_trans)
    obtain c2 w A m c3 where c3: "http2d_cache_entry_init (total_heap f) (new_obj cls) c1 a key = Some (ret_ok, c2)"
      "http2d_avl_add (total_heap f) (c_map c2) (c_nodes c2) (Some x) key (Some a) = Some (w, A, m)"
      "entry_ref (c2\<lparr>c_map := A, c_nodes := m\<rparr>) a = Some c3" "cache_ok c3 L' (R(a := 1))" "\<not> listed L' a"
      "max_size c3 = max_size c1" "target_t1 c3 = target_t1 c1" "c_head c3 = c_head c1" "key_of c3 = (key_of c1)(a \<mapsto> buf_str key)"
      "\<forall>y. y \<noteq> x \<and> c_nodes c1 y = None \<longrightarrow> c_nodes c3 y = None"
      using new_entry_ok [OF c1(2) 1 2(1) assms(2) 2(2) 3 4, of f "new_obj cls"] by blast
    have "R a = 0" using c1(2) 1 by (auto simp: cache_ok_def refs_ok_def)
    then have "cache_ok c3 L' (R(a := R a + 1))" using c3(4) by simp
    from add_list_ok [OF this c3(5)] \<open>R a = 0\<close> obtain c' where c': "add_list c3 a = Some (ret_ok, Some a, c')" "cache_ok c' (L'(T1 := a # L' T1)) (R(a := 1))"
      "frame c3 c'" "key_of c' = key_of c3" by auto
    have "http2d_cache_get (total_heap f) cls c key (Some a) (Some x) = Some (ret_ok, Some a, c')"
      using g c1(1) c3(1-3) c'(1) by (simp add: http2d_cache_get_def Let_def)
    then show ?thesis using Some r c'(2-4) c1(3,4) c3(6-10) by (auto simp: same_config_def frame_def)
  qed
qed

subsection \<open>Bounds\<close>

definition arc_bounds :: "nat \<Rightarrow> int \<Rightarrow> arc_lists \<Rightarrow> bool" where
  "arc_bounds n p L \<longleftrightarrow> length (L T1) + length (L B1) \<le> n \<and> length (L T1) + length (L T2) \<le> n \<and>
     length (L T1) + length (L T2) + length (L B1) + length (L B2) \<le> 2 * n \<and> 0 \<le> p \<and> p \<le> int n"

lemma length_move: "a \<in> set (L i) \<Longrightarrow> length (move a i j L k) = (if k = j then length (L k) + 1 else length (L k)) - (if k = i then 1 else 0)"
  using length_pos_if_in_set [of a "L i"] by (auto simp: move_def Let_def length_remove1)

lemma length_demote:
  "length (demote i j L k) = (if L i = [] then length (L k) else (if k = j then length (L k) + 1 else length (L k)) - (if k = i then 1 else 0))"
  using length_move [of "last (L i)" L i j k] by (simp add: demote_def)

text \<open>Replacing moves one entry to its ghost list, and leaves room in the cache if \<open>T1\<close> is not full.\<close>

lemma arc_replace_room:
  assumes "length (L T1) + length (L T2) \<le> n" "length (L T1) < n \<or> h \<and> p < int n \<and> 0 < n"
  shows "length (arc_replace p h L T1) + length (arc_replace p h L T2) < n"
    "length (arc_replace p h L T1) + length (arc_replace p h L B1) = length (L T1) + length (L B1)"
    "length (arc_replace p h L T2) + length (arc_replace p h L B2) = length (L T2) + length (L B2)"
proof -
  let ?P = "L T1 \<noteq> [] \<and> (int (length (L T1)) > p \<or> int (length (L T1)) = p \<and> h)"
  have r: "arc_replace p h L = (if ?P then demote T1 B1 L else demote T2 B2 L)" by (simp add: arc_replace_def)
  have t1: "length (L T1) < n" if "\<not> ?P" using that assms(2) by (cases "L T1 = []") auto
  consider (one) k where "length (L T1) = Suc k" "arc_replace p h L = demote T1 B1 L" | (two) k where "length (L T2) = Suc k" "arc_replace p h L = demote T2 B2 L"
    | (no) "length (L T2) = 0" "arc_replace p h L = L" "length (L T1) < n"
  proof (cases ?P)
    case True
    then obtain k where "length (L T1) = Suc k" by (cases "L T1") auto
    then show ?thesis using one r unfolding if_P [OF True] by blast
  next
    case False
    have d: "arc_replace p h L = demote T2 B2 L" using r unfolding if_not_P [OF False] .
    show ?thesis
    proof (cases "L T2")
      case Nil
      then show ?thesis using no d t1 [OF False] by (simp add: demote_def)
    next
      case (Cons y ys)
      then show ?thesis using two d by (metis length_Cons)
    qed
  qed
  then have "length (arc_replace p h L T1) + length (arc_replace p h L T2) < n \<and>
    length (arc_replace p h L T1) + length (arc_replace p h L B1) = length (L T1) + length (L B1) \<and>
    length (arc_replace p h L T2) + length (arc_replace p h L B2) = length (L T2) + length (L B2)"
    using assms(1) by cases (auto simp: length_demote)
  then show "length (arc_replace p h L T1) + length (arc_replace p h L T2) < n"
    "length (arc_replace p h L T1) + length (arc_replace p h L B1) = length (L T1) + length (L B1)"
    "length (arc_replace p h L T2) + length (arc_replace p h L B2) = length (L T2) + length (L B2)" by blast+
qed

lemma arc_replace_bounds:
  assumes "length (L T1) + length (L T2) \<le> n" "length (L T1) < n" "length (L T1) + length (L B1) < n" "0 \<le> p" "p \<le> int n"
    and "length (L T1) + length (L T2) + length (L B1) + length (L B2) < 2 * n"
  shows "arc_bounds n p ((arc_replace p h L)(T1 := a # arc_replace p h L T1))"
  using arc_replace_room [of L n h p] assms by (simp add: arc_bounds_def)

lemma arc_room_bounds:
  assumes "arc_bounds n p L" "n > 0"
  shows "\<exists>L' v. arc_room n p L = Some (L', v) \<and> arc_bounds n p (L'(T1 := a # L' T1))"
proof -
  note b = assms(1) [unfolded arc_bounds_def]
  let ?l1 = "length (L T1) + length (L B1)"
  consider (b1) "?l1 \<ge> n" "length (L T1) < n" | (t1) "?l1 \<ge> n" "\<not> length (L T1) < n"
    | (b2) "\<not> ?l1 \<ge> n" "?l1 + length (L T2) + length (L B2) \<ge> 2 * n"
    | (re) "\<not> ?l1 \<ge> n" "?l1 + length (L T2) + length (L B2) \<ge> n" "\<not> ?l1 + length (L T2) + length (L B2) \<ge> 2 * n"
    | (free) "\<not> ?l1 \<ge> n" "\<not> ?l1 + length (L T2) + length (L B2) \<ge> n" by linarith
  then show ?thesis
  proof cases
    case b1
    then obtain k where ne: "length (L B1) = Suc k" by (cases "length (L B1)") auto
    then have "L B1 \<noteq> []" by auto
    let ?L = "L(B1 := butlast (L B1))"
    have "arc_room n p L = Some (arc_replace p False ?L, Some (last (L B1)))" using b1 \<open>L B1 \<noteq> []\<close> by (simp add: arc_room_def arc_evict_def Let_def)
    moreover have "arc_bounds n p ((arc_replace p False ?L)(T1 := a # arc_replace p False ?L T1))"
      by (rule arc_replace_bounds) (use b b1 ne in auto)
    ultimately show ?thesis by blast
  next
    case t1
    then obtain k where k: "length (L T1) = Suc k" using assms(2) by (cases "length (L T1)") auto
    then have "L T1 \<noteq> []" by auto
    then have "arc_room n p L = Some (L(T1 := butlast (L T1)), Some (last (L T1)))" using t1 by (simp add: arc_room_def arc_evict_def Let_def)
    then show ?thesis using b k by (auto simp: arc_bounds_def)
  next
    case b2
    then obtain k where ne: "length (L B2) = Suc k" using b by (cases "length (L B2)") auto
    then have "L B2 \<noteq> []" by auto
    let ?L = "L(B2 := butlast (L B2))"
    have "arc_room n p L = Some (arc_replace p False ?L, Some (last (L B2)))" using b2 \<open>L B2 \<noteq> []\<close> b by (simp add: arc_room_def arc_evict_def Let_def)
    moreover have "arc_bounds n p ((arc_replace p False ?L)(T1 := a # arc_replace p False ?L T1))"
      by (rule arc_replace_bounds) (use b b2 ne in auto)
    ultimately show ?thesis by blast
  next
    case re
    then have "arc_room n p L = Some (arc_replace p False L, None)" by (simp add: arc_room_def Let_def)
    moreover have "arc_bounds n p ((arc_replace p False L)(T1 := a # arc_replace p False L T1))"
      by (rule arc_replace_bounds) (use b re in auto)
    ultimately show ?thesis by blast
  next
    case free
    then have "arc_room n p L = Some (L, None)" by (simp add: arc_room_def Let_def)
    then show ?thesis using b free by (auto simp: arc_bounds_def)
  qed
qed

lemma arc_hit_bounds:
  assumes "arc_bounds n p L" "listed L a"
  shows "arc_bounds n (snd (arc_hit (int n) ok a L p)) (fst (arc_hit (int n) ok a L p))"
proof -
  note b = assms(1) [unfolded arc_bounds_def]
  consider (t1) "a \<in> set (L T1)" | (t2) "a \<notin> set (L T1)" "a \<in> set (L T2)" | (b1) "a \<notin> set (L T1)" "a \<notin> set (L T2)" "a \<in> set (L B1)"
    | (b2) "a \<notin> set (L T1)" "a \<notin> set (L T2)" "a \<notin> set (L B1)" "a \<in> set (L B2)"
    using assms(2) unfolding listed_def by (metis list_name.exhaust)
  then show ?thesis
  proof cases
    case t1
    then obtain k where "length (L T1) = Suc k" using length_pos_if_in_set [OF t1] gr0_conv_Suc by auto
    then show ?thesis using t1 b by (auto simp: arc_hit_def arc_bounds_def length_move)
  next
    case t2
    then show ?thesis using b by (auto simp: arc_hit_def arc_bounds_def length_move)
  next
    case b1
    define q where "q = min (int n) (p + max 1 (int (length (L B2)) div int (length (L B1))))"
    let ?L = "arc_replace q False L"
    note m = length_move [where L = ?L and i = B1, OF arc_replace_ghost(1) [where L = L and a = a, OF b1(3)]]
    have h: "arc_hit (int n) ok a L p = (if ok then move a B1 T2 ?L else ?L, q)" using b1 by (simp add: arc_hit_def Let_def q_def)
    obtain k where k: "length (?L B1) = Suc k" using length_pos_if_in_set [OF arc_replace_ghost(1) [where L = L and a = a, OF b1(3)]] gr0_conv_Suc by blast
    have "length (L T1) < n" using b length_pos_if_in_set [OF b1(3)] by linarith
    moreover have "0 \<le> q" "q \<le> int n" using b by (auto simp: q_def)
    ultimately show ?thesis using arc_replace_room [of L n False q] b k unfolding h by (auto simp: m arc_bounds_def)
  next
    case b2
    define q where "q = max 0 (p - max 1 (int (length (L B1)) div int (length (L B2))))"
    let ?L = "arc_replace q True L"
    note m = length_move [where L = ?L and i = B2, OF arc_replace_ghost(2) [where L = L and a = a, OF b2(4)]]
    have h: "arc_hit (int n) ok a L p = (if ok then move a B2 T2 ?L else ?L, q)" using b2 by (simp add: arc_hit_def Let_def q_def)
    obtain k where k: "length (?L B2) = Suc k" using length_pos_if_in_set [OF arc_replace_ghost(2) [where L = L and a = a, OF b2(4)]] gr0_conv_Suc by blast
    have n: "n > 0" using b length_pos_if_in_set [OF b2(4)] by linarith
    moreover have "0 \<le> q" "q < int n" using b n by (auto simp: q_def)
    ultimately show ?thesis using arc_replace_room [of L n True q] b k unfolding h by (auto simp: m arc_bounds_def)
  qed
qed

end
