(* ===== verification/Cache_Run.thy ===== *)
theory Cache_Run
  imports Cache_Arc
begin

text \<open>
  Histories of a cache: \<open>cache_run\<close> is any sequence of look-ups and of releases of references, \<open>cache_session\<close> one in which
  every client gives its reference back before the next look-up. The properties of the cache follow from the invariant
  \<open>cache_ok\<close> along them.
\<close>

subsection \<open>A new cache\<close>

definition raw_cache :: "('x, 'e) cache \<Rightarrow> bool" where
  "raw_cache c \<longleftrightarrow> (\<forall>l. c_links c (c_head c l) \<noteq> None) \<and> inj (c_head c) \<and> c_entries c = (\<lambda>_. None)"

lemma cache_init_ok:
  assumes "raw_cache c"
  shows "\<exists>c'. http2d_cache_init True c = Some (ret_ok, c') \<and> cache_ok (c'\<lparr>max_size := n\<rparr>) (\<lambda>_. []) (\<lambda>_. 0) \<and> target_t1 c' = 0 \<and>
    c_head c' = c_head c \<and> c_nodes c' = c_nodes c \<and> c_entries c' = (\<lambda>_. None)"
proof -
  let ?h = "c_head c"
  have dis: "?h i \<noteq> ?h j" if "i \<noteq> j" for i j using assms that by (auto simp: raw_cache_def dest: injD)
  have l0: "c_links c (?h l) \<noteq> None" for l using assms by (simp add: raw_cache_def)
  obtain m1 where m1: "INIT_LIST_HEAD (c_links c) (?h T1) = Some m1" "dlist m1 (?h T1) []" "touches {?h T1} (c_links c) m1" using list_init [of "c_links c" "?h T1"] l0 by blast
  then have l1: "m1 (?h l) \<noteq> None" for l using l0 by (simp add: touches_def)
  obtain m2 where m2: "INIT_LIST_HEAD m1 (?h T2) = Some m2" "dlist m2 (?h T2) []" "touches {?h T2} m1 m2" using list_init [of "m1" "?h T2"] l1 by blast
  then have l2: "m2 (?h l) \<noteq> None" for l using l1 by (simp add: touches_def)
  obtain m3 where m3: "INIT_LIST_HEAD m2 (?h B1) = Some m3" "dlist m3 (?h B1) []" "touches {?h B1} m2 m3" using list_init [of "m2" "?h B1"] l2 by blast
  then have l3: "m3 (?h l) \<noteq> None" for l using l2 by (simp add: touches_def)
  obtain m4 where m4: "INIT_LIST_HEAD m3 (?h B2) = Some m4" "dlist m4 (?h B2) []" "touches {?h B2} m3 m4" using list_init [of "m3" "?h B2"] l3 by blast
  have "dlist m2 (?h T1) []" using dlist_frame [OF m2(3) _ m1(2)] dis [of T1 T2] by auto
  then have "dlist m3 (?h T1) []" "dlist m3 (?h T2) []" using dlist_frame [OF m3(3)] m2(2) dis [of T1 B1] dis [of T2 B1] by auto
  then have "dlist m4 (?h T1) []" "dlist m4 (?h T2) []" "dlist m4 (?h B1) []"
    using dlist_frame [OF m4(3)] m3(2) dis [of T1 B2] dis [of T2 B2] dis [of B1 B2] by auto
  then have "dlist m4 (?h l) []" for l using m4(2) by (cases l) auto
  then have fam: "dl.family m4 ?h (\<lambda>_. [])" unfolding dl.family_def using dis by auto
  let ?A = "snd (http2d_avl_init (c_map c))"
  let ?c = "c\<lparr>c_links := m4, c_map := ?A, c_len := (\<lambda>_. 0), c_count := 0, count_hit := 0, count_miss := 0, max_size := DEFAULT_MAX_SIZE, target_t1 := 0\<rparr>"
  have A: "?A = snd (http2d_avl_set_case ?A False)" by (simp add: http2d_avl_set_case_def http2d_avl_init_def)
  have "avl_dict ?A (c_nodes c) {} (\<lambda>_. None)" using avl_dict_init [of "c_map c" False "c_nodes c"] A by metis
  then have "tree_dict (?A, c_nodes c) 0 (\<lambda>_. None)" unfolding tree_dict_def by (auto simp: http2d_avl_init_def intro: exI [of _ "{}"])
  then have "trees.indexed (?A, c_nodes c) (\<lambda>_. None)" unfolding trees.indexed_def by (auto simp: dom_def)
  moreover have ce: "c_entries c = (\<lambda>_. None)" using assms by (simp add: raw_cache_def)
  ultimately have "keys_ok (?c\<lparr>max_size := n\<rparr>)" by (simp add: keys_ok_def key_of_def [abs_def])
  moreover have "lists_ok (?c\<lparr>max_size := n\<rparr>) (\<lambda>_. [])" using fam ce by (simp add: lists_ok_def)
  moreover have "refs_ok (?c\<lparr>max_size := n\<rparr>) (\<lambda>_. []) (\<lambda>_. 0)" using ce by (simp add: refs_ok_def)
  ultimately have "cache_ok (?c\<lparr>max_size := n\<rparr>) (\<lambda>_. []) (\<lambda>_. 0)" by (simp add: cache_ok_def)
  moreover have "http2d_cache_init True c = Some (ret_ok, ?c)" using m1(1) m2(1) m3(1) m4(1) by (simp add: http2d_cache_init_def)
  ultimately show ?thesis using ce by (intro exI [of _ ?c]) simp
qed

subsection \<open>The use of a cache\<close>

text \<open>The addresses that \<open>malloc\<close> returns are free.\<close>

definition free_addrs :: "('x, 'e) cache \<Rightarrow> lptr \<Rightarrow> addr \<Rightarrow> bool" where
  "free_addrs c a x \<longleftrightarrow> c_entries c a = None \<and> (\<forall>l. a \<noteq> c_head c l) \<and> c_nodes c x = None"

text \<open>Any sequence of look-ups, with the references they return given back in any order. The size of the cache is what
  the configuration says.\<close>

inductive cache_run :: "('x, 'e) cache_class \<Rightarrow> ('x, 'e) cache \<Rightarrow> (lptr \<Rightarrow> nat) \<Rightarrow> bool" for cls where
  start: "raw_cache c \<Longrightarrow> http2d_cache_init True c = Some (ret, c') \<Longrightarrow> 0 < n \<Longrightarrow> n < 2 ^ 31 \<Longrightarrow> cache_run cls (c'\<lparr>max_size := n\<rparr>) (\<lambda>_. 0)"
| get: "cache_run cls c R \<Longrightarrow> text_key key \<Longrightarrow> free_addrs c a x \<Longrightarrow> card (dom (c_entries c)) < 2 ^ 32 \<Longrightarrow>
    http2d_cache_get (total_heap f) cls c key (Some a) (Some x) = Some (ret, Some b, c') \<Longrightarrow> cache_run cls c' (R(b := R b + 1))"
| unref: "cache_run cls c R \<Longrightarrow> R a > 0 \<Longrightarrow> card (dom (c_entries c)) < 2 ^ 32 \<Longrightarrow>
    http2d_cache_entry_unref cls c (Some a) = Some (ret, c') \<Longrightarrow> cache_run cls c' (R(a := R a - 1))"

lemma get_cases:
  assumes "cache_ok c L R" "text_key key" "free_addrs c a x" "card (dom (c_entries c)) < 2 ^ 32" "0 \<le> max_size c" "max_size c < 2 ^ 31"
    and "http2d_cache_get (total_heap f) cls c key (Some a) (Some x) = Some (ret, Some b, c')"
  shows "\<exists>L'. cache_ok c' L' (R(b := R b + 1)) \<and> same_config c c'"
proof (cases "\<exists>d. key_of c d = Some (buf_str key)")
  case True
  then obtain d where d: "key_of c d = Some (buf_str key)" by blast
  show ?thesis
  proof (cases "listed L d")
    case True
    then obtain i where "d \<in> set (L i)" by (auto simp: listed_def)
    from cache_get_hit [OF assms(1,2) d this, of "total_heap f" cls "Some a" "Some x"] assms(7) show ?thesis by auto
  next
    case False
    from cache_get_lingering [OF assms(1,2) d False, of "total_heap f" cls "Some a" "Some x"] assms(7) show ?thesis by auto
  qed
next
  case False
  then have m: "\<forall>d. key_of c d \<noteq> Some (buf_str key)" by blast
  have fr: "c_entries c a = None" "\<forall>l. a \<noteq> c_head c l" "c_nodes c x = None" using assms(3) by (auto simp: free_addrs_def)
  have "R a = 0" using assms(1) fr(1) by (auto simp: cache_ok_def refs_ok_def)
  then show ?thesis
    using cache_get_miss [OF assms(1,2) m fr assms(4-6), of f cls] assms(7)
    by (cases "arc_room (nat (max_size c)) (target_t1 c) L") auto
qed

lemma cache_run_inv: "cache_run cls c R \<Longrightarrow> (\<exists>L. cache_ok c L R) \<and> 0 < max_size c \<and> max_size c < 2 ^ 31"
proof (induction rule: cache_run.induct)
  case (start c ret c' n)
  then show ?case using cache_init_ok [OF start(1), of n] by auto
next
  case (get c R key a x f ret b c')
  then obtain L where L: "cache_ok c L R" "0 \<le> max_size c" "0 < max_size c" "max_size c < 2 ^ 31" by auto
  from get_cases [OF L(1) get(2,3,4) L(2,4) get(5)] obtain L' where "cache_ok c' L' (R(b := R b + 1))" "same_config c c'" by blast
  then show ?case using L(3,4) unfolding same_config_def by metis
next
  case (unref c R a ret c')
  then obtain L where L: "cache_ok c L R" "0 < max_size c" "max_size c < 2 ^ 31" by blast
  from cache_unref_ok [where a = a, OF L(1) unref(2,3), of cls] unref(4) have "cache_ok c' L (R(a := R a - 1))" "frame c c'" by auto
  moreover from this have "max_size c' = max_size c" by (simp add: frame_def)
  ultimately show ?case using L(2,3) by metis
qed

text \<open>The use by clients that give their reference back before the next look-up.\<close>

inductive cache_session :: "('x, 'e) cache_class \<Rightarrow> ('x, 'e) cache \<Rightarrow> bool" for cls where
  start: "raw_cache c \<Longrightarrow> http2d_cache_init True c = Some (ret, c') \<Longrightarrow> 0 < n \<Longrightarrow> n < 2 ^ 31 \<Longrightarrow> cache_session cls (c'\<lparr>max_size := n\<rparr>)"
| use: "cache_session cls c \<Longrightarrow> text_key key \<Longrightarrow> free_addrs c a x \<Longrightarrow>
    http2d_cache_get (total_heap f) cls c key (Some a) (Some x) = Some (ret, Some b, c1) \<Longrightarrow>
    http2d_cache_entry_unref cls c1 (Some b) = Some (ret', c2) \<Longrightarrow> cache_session cls c2"

definition session_ok :: "('x, 'e) cache \<Rightarrow> arc_lists \<Rightarrow> bool" where
  "session_ok c L \<longleftrightarrow> cache_ok c L (\<lambda>_. 0) \<and> arc_bounds (nat (max_size c)) (target_t1 c) L \<and> 0 < max_size c \<and> max_size c < 2 ^ 31"

lemma session_card:
  assumes "session_ok c L"
  shows "card (dom (c_entries c)) < 2 ^ 32" "c_entries c a \<noteq> None \<Longrightarrow> listed L a"
proof -
  show li: "listed L a" if "c_entries c a \<noteq> None" for a
    using assms that refs_okD [of c L "\<lambda>_. 0" a] by (auto simp: session_ok_def cache_ok_def split: if_splits)
  have "dom (c_entries c) \<subseteq> set (L T1 @ L T2 @ L B1 @ L B2)"
  proof
    fix b assume "b \<in> dom (c_entries c)"
    then obtain l where "b \<in> set (L l)" using li [of b] by (auto simp: listed_def domIff)
    then show "b \<in> set (L T1 @ L T2 @ L B1 @ L B2)" by (cases l) auto
  qed
  then have "card (dom (c_entries c)) \<le> length (L T1 @ L T2 @ L B1 @ L B2)" by (meson List.finite_set card_length card_mono le_trans)
  moreover have "length (L T1 @ L T2 @ L B1 @ L B2) < 2 ^ 32" using assms by (auto simp: session_ok_def arc_bounds_def)
  ultimately show "card (dom (c_entries c)) < 2 ^ 32" by linarith
qed

lemma listed_move_B1: "a \<in> set (L B1) \<Longrightarrow> listed (move a B1 j (arc_replace p h L)) b = listed L b"
  and listed_move_B2: "a \<in> set (L B2) \<Longrightarrow> listed (move a B2 j (arc_replace p h L)) b = listed L b"
  using listed_move [where L = "arc_replace p h L" and a = a and j = j and b = b] arc_replace_ghost [where L = L and a = a] listed_replace [of p h L b] by blast+

lemma listed_hit: "listed L a \<Longrightarrow> listed (fst (arc_hit n ok a L p)) b = listed L b"
proof -
  assume "listed L a"
  then consider "a \<in> set (L T1)" | "a \<notin> set (L T1)" "a \<in> set (L T2)" | "a \<notin> set (L T1)" "a \<notin> set (L T2)" "a \<in> set (L B1)"
    | "a \<notin> set (L T1)" "a \<notin> set (L T2)" "a \<notin> set (L B1)" "a \<in> set (L B2)" unfolding listed_def by (metis list_name.exhaust)
  then show ?thesis
    by cases (auto simp: arc_hit_def Let_def listed_move listed_move_B1 listed_move_B2 listed_replace)
qed

text \<open>The result of a look-up that gives the entry \<open>b\<close>: a success, or an error of the method \<open>fetch\<close> for an entry in a ghost list.\<close>

definition look_up_ret :: "('x, 'e) cache_class \<Rightarrow> ('x, 'e) cache \<Rightarrow> lptr \<Rightarrow> ret_t \<Rightarrow> bool" where
  "look_up_ret cls c b ret \<longleftrightarrow> ret = ret_ok \<or> (ret = ret_error \<or> ret = ret_no_sys) \<and> \<not> fetch_works cls \<and>
     (\<exists>e. c_entries c b = Some e \<and> (in_list e = cache_b1 \<or> in_list e = cache_b2))"

lemma hit_look_up_ret:
  assumes "lists_ok c L" "b \<in> set (L i)" "hit_ret cls i ret"
  shows "look_up_ret cls c b ret"
proof -
  obtain e where "c_entries c b = Some e" "in_list e = list_tag i" using lists_ok_entry [OF assms(1,2)] by blast
  then show ?thesis using assms(3) by (auto simp: look_up_ret_def hit_ret_def)
qed

lemma session_step:
  assumes "session_ok c L" "text_key key" "free_addrs c a x"
  shows "\<exists>ret b c1 c2 L'. http2d_cache_get (total_heap f) cls c key (Some a) (Some x) = Some (ret, Some b, c1) \<and>
    http2d_cache_entry_unref cls c1 (Some b) = Some (ret_eagain, c2) \<and> session_ok c2 L' \<and> key_of c2 b = Some (buf_str key) \<and>
    look_up_ret cls c b ret"
proof -
  have ok: "cache_ok c L (\<lambda>_. 0)" "arc_bounds (nat (max_size c)) (target_t1 c) L" "0 < max_size c" "max_size c < 2 ^ 31" "0 \<le> max_size c"
    using assms(1) by (auto simp: session_ok_def)
  have fr: "c_entries c a = None" "\<forall>l. a \<noteq> c_head c l" "c_nodes c x = None" using assms(3) by (auto simp: free_addrs_def)
  have "\<exists>ret b c1 L'. http2d_cache_get (total_heap f) cls c key (Some a) (Some x) = Some (ret, Some b, c1) \<and>
      cache_ok c1 L' ((\<lambda>_. 0)(b := 1)) \<and> listed L' b \<and> key_of c1 b = Some (buf_str key) \<and> same_config c c1 \<and>
      arc_bounds (nat (max_size c)) (target_t1 c1) L' \<and> card (dom (c_entries c1)) < 2 ^ 32 \<and> look_up_ret cls c b ret"
  proof (cases "\<exists>d. key_of c d = Some (buf_str key)")
    case True
    then obtain d where d: "key_of c d = Some (buf_str key)" by blast
    then have li: "listed L d" using session_card(2) [OF assms(1), of d] by (auto simp: key_of_def)
    then obtain i where i: "d \<in> set (L i)" by (auto simp: listed_def)
    from cache_get_hit [OF ok(1) assms(2) d this, of "total_heap f" cls "Some a" "Some x"]
    obtain ret c1 where c1: "http2d_cache_get (total_heap f) cls c key (Some a) (Some x) = Some (ret, Some d, c1)"
      "cache_ok c1 (fst (arc_hit (max_size c) (ret = ret_ok) d L (target_t1 c))) ((\<lambda>_. 0)(d := 1))" "key_of c1 = key_of c"
      "target_t1 c1 = snd (arc_hit (max_size c) (ret = ret_ok) d L (target_t1 c))" "same_config c c1" "hit_ret cls i ret" by auto
    moreover have "look_up_ret cls c d ret" using hit_look_up_ret [where L = L and i = i, OF _ i c1(6)] ok(1) by (simp add: cache_ok_def)
    moreover have "dom (c_entries c1) = dom (c_entries c)" using c1(3) key_dom by metis
    moreover have "arc_bounds (nat (max_size c)) (target_t1 c1) (fst (arc_hit (max_size c) (ret = ret_ok) d L (target_t1 c)))"
      using arc_hit_bounds [OF ok(2) li, of "ret = ret_ok"] c1(4) ok(5) by simp
    ultimately show ?thesis using d li session_card(1) [OF assms(1)] listed_hit [OF li] by metis
  next
    case False
    then have m: "\<forall>d. key_of c d \<noteq> Some (buf_str key)" by blast
    obtain L' v where r: "arc_room (nat (max_size c)) (target_t1 c) L = Some (L', v)" "arc_bounds (nat (max_size c)) (target_t1 c) (L'(T1 := a # L' T1))"
      using arc_room_bounds [OF ok(2), of a] ok(3) by auto
    from cache_get_miss [OF ok(1) assms(2) m fr session_card(1) [OF assms(1)] ok(5,4), of f cls] r(1)
    obtain c1 where c1: "http2d_cache_get (total_heap f) cls c key (Some a) (Some x) = Some (ret_ok, Some a, c1)"
      "cache_ok c1 (L'(T1 := a # L' T1)) ((\<lambda>_. 0)(a := 1))" "key_of c1 = (forgotten (\<lambda>_. 0) v (key_of c))(a \<mapsto> buf_str key)"
      "target_t1 c1 = target_t1 c" "same_config c c1" by auto
    have "dom (c_entries c1) \<subseteq> set ((L'(T1 := a # L' T1)) T1 @ L' T2 @ L' B1 @ L' B2)"
    proof
      fix b assume "b \<in> dom (c_entries c1)"
      then obtain e where e: "c_entries c1 b = Some e" by auto
      have "refs_ok c1 (L'(T1 := a # L' T1)) ((\<lambda>_. 0)(a := 1))" using c1(2) by (simp add: cache_ok_def)
      from refs_okD [OF this e] have "b \<noteq> a \<longrightarrow> listed (L'(T1 := a # L' T1)) b" by (auto split: if_splits)
      moreover have "listed (L'(T1 := a # L' T1)) a" unfolding listed_def by (intro exI [of _ T1]) simp
      ultimately have "listed (L'(T1 := a # L' T1)) b" by (cases "b = a") auto
      then obtain l where "b \<in> set ((L'(T1 := a # L' T1)) l)" by (auto simp: listed_def)
      then show "b \<in> set ((L'(T1 := a # L' T1)) T1 @ L' T2 @ L' B1 @ L' B2)" by (cases l) auto
    qed
    then have "card (dom (c_entries c1)) \<le> length ((L'(T1 := a # L' T1)) T1 @ L' T2 @ L' B1 @ L' B2)" by (meson List.finite_set card_length card_mono le_trans)
    also have "\<dots> < 2 ^ 32" using r(2) ok(3,4) by (auto simp: arc_bounds_def)
    finally have "card (dom (c_entries c1)) < 2 ^ 32" .
    moreover have "listed (L'(T1 := a # L' T1)) a" by (auto simp: listed_def)
    ultimately show ?thesis using c1 r(2) by (intro exI [of _ ret_ok] exI [of _ a] exI [of _ c1] exI [of _ "L'(T1 := a # L' T1)"]) (simp add: look_up_ret_def)
  qed
  then obtain ret b c1 L' where g: "http2d_cache_get (total_heap f) cls c key (Some a) (Some x) = Some (ret, Some b, c1)"
    "cache_ok c1 L' ((\<lambda>_. 0)(b := 1))" "listed L' b" "key_of c1 b = Some (buf_str key)" "same_config c c1"
    "arc_bounds (nat (max_size c)) (target_t1 c1) L'" "card (dom (c_entries c1)) < 2 ^ 32"
    "look_up_ret cls c b ret" by blast
  have b: "((\<lambda>_. 0 :: nat)(b := 1)) b > 0" "((\<lambda>_. 0 :: nat)(b := 1))(b := ((\<lambda>_. 0 :: nat)(b := 1)) b - 1) = (\<lambda>_. 0)" by auto
  from cache_unref_ok [where a = b, OF g(2) b(1) g(7), of cls] g(3)
  obtain c2 where c2: "http2d_cache_entry_unref cls c1 (Some b) = Some (ret_eagain, c2)"
    "cache_ok c2 L' (\<lambda>_. 0)" "frame c1 c2" "key_of c2 = key_of c1" unfolding b(2) by auto
  have "session_ok c2 L'" using c2(2,3) g(5,6) ok(3,4) by (auto simp: session_ok_def frame_def same_config_def)
  then show ?thesis using g(1,4,8) c2(1,4) by metis
qed

subsection \<open>Clients that keep their references\<close>

text \<open>Entries named by their addresses: the key of the entry at \<open>a\<close> is one byte.\<close>

definition name_key :: "nat \<Rightarrow> buffer" where
  "name_key a = http2d_buffer_fake (Some [word_of_nat a, 0]) 1"

lemma name_key:
  assumes "0 < a" "a < 256"
  shows "text_key (name_key a)" "buf_str (name_key a) = [word_of_nat a]"
proof -
  have nz: "(word_of_nat a :: byte) \<noteq> 0" using assms nat_dvd_not_less [of a 256] by (simp add: word_of_nat_eq_0_iff)
  have r: "buf_rep (name_key a) [word_of_nat a]"
    by (simp add: buf_rep_def name_key_def http2d_buffer_fake_def buffer_ok_def buffer_term_def buf_str_def u32_def)
  then show "buf_str (name_key a) = [word_of_nat a]" by (simp add: buf_rep_def)
  then show "text_key (name_key a)" using valid_key_rep [OF r] nz by (simp add: text_key_def)
qed

definition hold_step :: "nat \<Rightarrow> arc_lists \<Rightarrow> lptr list \<Rightarrow> lptr \<Rightarrow> arc_lists option" where
  "hold_step n L known a =
     (if a \<notin> set known then map_option (\<lambda>(L, _). L(T1 := a # L T1)) (arc_room n 0 L)
      else if a \<in> set (L T1) then Some (move a T1 T2 L)
      else if a \<in> set (L T2) then Some (move a T2 T2 L)
      else if a \<in> set (L B1) \<or> a \<in> set (L B2) then None
      else Some (L(T1 := a # L T1)))"

fun hold_run :: "nat \<Rightarrow> arc_lists \<Rightarrow> lptr list \<Rightarrow> lptr list \<Rightarrow> (arc_lists \<times> lptr list) option" where
  "hold_run n L known [] = Some (L, known)"
| "hold_run n L known (a # as) = do { L \<leftarrow> hold_step n L known a; hold_run n L (a # known) as }"

definition holding :: "('x, 'e) cache \<Rightarrow> arc_lists \<Rightarrow> lptr list \<Rightarrow> nat \<Rightarrow> (lptr \<Rightarrow> nat) \<Rightarrow> bool" where
  "holding c L known n R \<longleftrightarrow> cache_ok c L R \<and> (\<forall>a. a \<in> set known \<longrightarrow> R a > 0 \<and> 4 < a \<and> a < 256) \<and> max_size c = int n \<and> target_t1 c = 0 \<and>
     key_of c = (\<lambda>a. if a \<in> set known then Some [word_of_nat a] else None) \<and> (\<forall>y. y \<notin> set known \<longrightarrow> c_nodes c y = None) \<and>
     (\<forall>l. c_head c l \<le> 4)"

lemma word_inj: "a < 256 \<Longrightarrow> b < 256 \<Longrightarrow> (word_of_nat a :: byte) = word_of_nat b \<longleftrightarrow> a = b"
  by (simp add: word_of_nat_eq_iff take_bit_nat_eq_self)

lemma holding_facts:
  assumes "holding c L known n R" "4 < a" "a < 256"
  shows "key_of c b = Some (buf_str (name_key a)) \<longleftrightarrow> b = a \<and> a \<in> set known" "card (dom (c_entries c)) < 2 ^ 32"
    "b \<notin> set known \<Longrightarrow> 4 < b \<Longrightarrow> c_entries c b = None" "b \<notin> set known \<Longrightarrow> 4 < b \<Longrightarrow> \<forall>l. b \<noteq> c_head c l"
    "b \<notin> set known \<Longrightarrow> 4 < b \<Longrightarrow> c_nodes c b = None"
proof -
  note h = assms(1) [unfolded holding_def]
  have "buf_str (name_key a) = [word_of_nat a]" using name_key assms(2,3) by auto
  then show "key_of c b = Some (buf_str (name_key a)) \<longleftrightarrow> b = a \<and> a \<in> set known" using h assms(3) word_inj [of b a] by auto
  show "c_entries c b = None" if "b \<notin> set known"
  proof -
    have "key_of c b = None" using h that by simp
    then show ?thesis by (simp add: key_of_def)
  qed
  show "\<forall>l. b \<noteq> c_head c l" if "4 < b" using h that by (metis leD)
  show "c_nodes c b = None" if "b \<notin> set known" using h that by blast
  have "dom (c_entries c) \<subseteq> set known" using key_dom [of c] h by (auto split: if_splits)
  then have "card (dom (c_entries c)) \<le> card (set known)" by (simp add: card_mono)
  also have "card (set known) \<le> card {..<256 :: nat}" using h by (intro card_mono) auto
  finally show "card (dom (c_entries c)) < 2 ^ 32" by simp
qed

text \<open>Look-ups only: nobody gives a reference back.\<close>

inductive kept_gets :: "('x, 'e) cache_class \<Rightarrow> int \<Rightarrow> buffer list \<Rightarrow> ('x, 'e) cache \<Rightarrow> bool" for cls n where
  init: "raw_cache c \<Longrightarrow> http2d_cache_init True c = Some (ret, c') \<Longrightarrow> kept_gets cls n [] (c'\<lparr>max_size := n\<rparr>)"
| look_up: "kept_gets cls n keys c \<Longrightarrow> free_addrs c a x \<Longrightarrow>
    http2d_cache_get (total_heap f) cls c key (Some a) (Some x) = Some (ret_ok, Some b, c') \<Longrightarrow> kept_gets cls n (keys @ [key]) c'"

lemma holding_step:
  assumes "holding c L known n R" "4 < a" "a < 256" "hold_step n L known a = Some L'" "n < 2 ^ 31"
  shows "\<exists>c' b. free_addrs c b b \<and> http2d_cache_get (total_heap (\<lambda>_. 0)) cls c (name_key a) (Some b) (Some b) = Some (ret_ok, Some a, c') \<and>
    holding c' L' (a # known) n (R(a := R a + 1))"
proof -
  note h = assms(1) [unfolded holding_def]
  have ok: "cache_ok c L R" using h by blast
  have k: "text_key (name_key a)" "buf_str (name_key a) = [word_of_nat a]" using name_key assms(2,3) by auto
  note ka = holding_facts(1) [OF assms(1-3)] and free = holding_facts(3-5) [OF assms(1-3)] and cd = holding_facts(2) [OF assms(1-3)]
  have mx: "0 \<le> max_size c" "max_size c < 2 ^ 31" using h assms(5) by auto
  show ?thesis
  proof (cases "a \<in> set known")
    case False
    note fr = free [OF False assms(2)]
    have ms: "\<forall>b. key_of c b \<noteq> Some (buf_str (name_key a))" using ka False by blast
    obtain M v where r: "arc_room n 0 L = Some (M, v)" "L' = M(T1 := a # M T1)" using assms(4) False by (auto simp: hold_step_def)
    from cache_get_miss [OF ok k(1) ms fr cd mx, of "\<lambda>_. 0" cls] h r(1)
    obtain c' where c': "http2d_cache_get (total_heap (\<lambda>_. 0)) cls c (name_key a) (Some a) (Some a) = Some (ret_ok, Some a, c')"
      "cache_ok c' L' (R(a := 1))" "key_of c' = (forgotten R v (key_of c))(a \<mapsto> [word_of_nat a])" "target_t1 c' = 0" "same_config c c'"
      "\<forall>y. y \<noteq> a \<and> c_nodes c y = None \<longrightarrow> c_nodes c' y = None" using k(2) r(2) by auto
    have R: "R a = 0" using ok fr(1) by (auto simp: cache_ok_def refs_ok_def)
    have run: "free_addrs c a a" using fr by (simp add: free_addrs_def)
    have "forgotten R v (key_of c) = key_of c"
    proof (cases v)
      case (Some b)
      have "R b = 0 \<Longrightarrow> key_of c b = None" using h by auto
      then show ?thesis using Some by (auto simp: forgotten_def fun_eq_iff)
    qed (simp add: forgotten_def)
    then have "holding c' L' (a # known) n (R(a := R a + 1))" using c'(2-6) h assms(2,3) R by (auto simp: holding_def same_config_def)
    with run c'(1) show ?thesis by blast
  next
    case True
    have kk: "key_of c a = Some (buf_str (name_key a))" using ka True by blast
    define b :: nat where "b = 256"
    have "b \<notin> set known" "4 < b" using h by (auto simp: b_def)
    then have b: "free_addrs c b b" using free by (simp add: free_addrs_def)
    have fin: ?thesis if "http2d_cache_get (total_heap (\<lambda>_. 0)) cls c (name_key a) (Some b) (Some b) = Some (ret_ok, Some a, c')"
      "cache_ok c' L' (R(a := R a + 1))" "key_of c' = key_of c" "target_t1 c' = target_t1 c" "same_config c c'"
      "\<forall>y. c_nodes c y = None \<longrightarrow> c_nodes c' y = None" for c'
    proof -
      have "holding c' L' (a # known) n (R(a := R a + 1))" using that(2-6) h True by (auto simp: holding_def same_config_def)
      then show ?thesis using b that(1) by blast
    qed
    consider (t) i where "i = T1 \<or> i = T2" "a \<in> set (L i)" | (no) "\<not> listed L a" "L' = L(T1 := a # L T1)"
      using assms(4) True by (auto simp: hold_step_def listed_def list_name_all split: if_splits)
    then show ?thesis
    proof cases
      case t
      have "a \<notin> set (L T1)" if "i = T2" using dl.family_unique [OF lists_ok_family, of c L a T2 T1] ok t(2) that by (auto simp: cache_ok_def)
      then have hit: "arc_hit (int n) True a L 0 = (L', 0)" using assms(4) True t by (auto simp: hold_step_def arc_hit_def)
      obtain ret c' where g: "http2d_cache_get (total_heap (\<lambda>_. 0)) cls c (name_key a) (Some b) (Some b) = Some (ret, Some a, c')" "hit_ret cls i ret"
        "cache_ok c' (fst (arc_hit (max_size c) (ret = ret_ok) a L (target_t1 c))) (R(a := R a + 1))" "key_of c' = key_of c"
        "target_t1 c' = snd (arc_hit (max_size c) (ret = ret_ok) a L (target_t1 c))" "same_config c c'" "\<forall>y. c_nodes c y = None \<longrightarrow> c_nodes c' y = None"
        using cache_get_hit [OF ok k(1) kk t(2), of "total_heap (\<lambda>_. 0)" cls "Some b" "Some b"] by blast
      have g2: "ret = ret_ok" by (rule hit_ret_top [OF g(2) t(1)])
      have "arc_hit (max_size c) (ret = ret_ok) a L (target_t1 c) = (L', 0)" using hit g2 h by simp
      with g g2 h have "cache_ok c' L' (R(a := R a + 1))" "target_t1 c' = target_t1 c" by simp_all
      with g g2 show ?thesis using fin by blast
    next
      case no
      from cache_get_lingering [OF ok k(1) kk no(1), of "total_heap (\<lambda>_. 0)" cls "Some b" "Some b"] show ?thesis unfolding no(2) [symmetric] using fin by blast
    qed
  qed
qed

lemma holding_run:
  assumes "holding c L known n R" "kept_gets cls m keys c" "\<forall>a. a \<in> set as \<longrightarrow> 4 < a \<and> a < 256" "hold_run n L known as = Some (L', known')" "n < 2 ^ 31"
  shows "\<exists>c'. holding c' L' known' n (\<lambda>a. R a + count_list as a) \<and> kept_gets cls m (keys @ map name_key as) c'"
  using assms
proof (induction as arbitrary: c L known R keys)
  case Nil
  then show ?case by auto
next
  case (Cons a as)
  obtain M where M: "hold_step n L known a = Some M" "hold_run n M (a # known) as = Some (L', known')"
    using Cons.prems(4) by (auto simp: bind_eq_Some_conv)
  obtain c1 b where c1: "free_addrs c b b" "http2d_cache_get (total_heap (\<lambda>_. 0)) cls c (name_key a) (Some b) (Some b) = Some (ret_ok, Some a, c1)"
    "holding c1 M (a # known) n (R(a := R a + 1))" using holding_step [OF Cons.prems(1) _ _ M(1) Cons.prems(5), of cls] Cons.prems(3) by auto
  have k1: "kept_gets cls m (keys @ [name_key a]) c1" by (rule kept_gets.look_up [OF Cons.prems(2) c1(1,2)])
  have R: "(\<lambda>b. (R(a := R a + 1)) b + count_list as b) = (\<lambda>b. R b + count_list (a # as) b)" by (simp add: fun_eq_iff)
  from Cons.IH [OF c1(3) k1 _ M(2) Cons.prems(5)] Cons.prems(3) show ?case unfolding R by auto
qed

definition blank_cache :: "('x, 'e) cache" where
  "blank_cache = \<lparr>c_map = undefined, c_nodes = (\<lambda>_. None), c_links = (\<lambda>_. Some \<lparr>le_next = None, le_prev = None\<rparr>), c_entries = (\<lambda>_. None),
     c_head = (\<lambda>l. case l of T1 \<Rightarrow> 1 | T2 \<Rightarrow> 2 | B1 \<Rightarrow> 3 | B2 \<Rightarrow> 4), c_len = (\<lambda>_. 0), max_size = 0, target_t1 = 0, c_count = 0, count_hit = 0,
     count_miss = 0, c_env = undefined\<rparr>"

lemma raw_blank: "raw_cache blank_cache"
  by (auto simp: raw_cache_def blank_cache_def inj_def split: list_name.splits)

lemma blank_run:
  fixes cls :: "('x, 'e) cache_class"
  assumes "0 < n" "n < 2 ^ 31"
  shows "\<exists>c. cache_run cls c (\<lambda>_. 0) \<and> kept_gets cls (int n) [] c \<and> holding c (\<lambda>_. []) [] n (\<lambda>_. 0)"
proof -
  define b :: "('x, 'e) cache" where "b = blank_cache"
  have raw: "raw_cache b" by (simp add: b_def raw_blank)
  obtain c' where c': "http2d_cache_init True b = Some (ret_ok, c')" "cache_ok (c'\<lparr>max_size := int n\<rparr>) (\<lambda>_. []) (\<lambda>_. 0)" "target_t1 c' = 0"
    "c_head c' = c_head b" "c_nodes c' = c_nodes b" "c_entries c' = (\<lambda>_. None)" using cache_init_ok [OF raw, of "int n"] by blast
  have "cache_run cls (c'\<lparr>max_size := int n\<rparr>) (\<lambda>_. 0)" by (rule cache_run.start [OF raw c'(1)]) (use assms in auto)
  moreover have "kept_gets cls (int n) [] (c'\<lparr>max_size := int n\<rparr>)" by (rule kept_gets.init [OF raw c'(1)])
  moreover have "holding (c'\<lparr>max_size := int n\<rparr>) (\<lambda>_. []) [] n (\<lambda>_. 0)"
    using c' by (auto simp: holding_def key_of_def b_def blank_cache_def fun_eq_iff split: list_name.splits)
  ultimately show ?thesis by blast
qed

definition greedy_clients :: "lptr list" where
  "greedy_clients = [5, 6, 7, 8, 9, 5, 10, 6, 11, 7, 12, 8, 8, 12, 7, 11, 6, 10, 5, 9]"

lemma greedy_lists:
  "map_option (\<lambda>(L, known). (L T1, L T2, L B1, L B2, 13 \<in> set known)) (hold_run 4 (\<lambda>_. []) [] greedy_clients) =
   Some ([], [9, 5, 10, 6, 11, 7, 12, 8], [], [], False)"
  by code_simp

definition plain_class :: "(unit, unit) cache_class" where
  "plain_class = \<lparr>new_obj = (), clean_cb = (\<lambda>_ s. (ret_ok, (), s)), fetch_cb = Some (\<lambda>_ s. (ret_ok, (), s)), free_cb = (\<lambda>_ s. s)\<rparr>"

subsection \<open>Properties\<close>

text \<open>C6: \<open>http2d_cache_get\<close> implements the adaptive replacement policy on four lists. If the key is in a list, the entry is
  found and moved as \<open>arc_hit\<close> says, which also adapts the target size; if its entry has been evicted but is still in
  use, it is put back at the head of T1; otherwise room is made as \<open>arc_room\<close> says and a new entry is put there. The
  caller gets one more reference to the entry it receives. The tree, the links, the tags, the lengths and the
  references stay consistent, and an evicted entry is freed and forgotten exactly if no client refers to it.\<close>

theorem http2d_cache_get_correct:
  assumes "cache_ok c L R" "text_key key" "free_addrs c a x" "card (dom (c_entries c)) < 2 ^ 32" "0 \<le> max_size c" "max_size c < 2 ^ 31"
  shows "(\<forall>b. key_of c b = Some (buf_str key) \<and> listed L b \<longrightarrow>
      (\<exists>ret c'. http2d_cache_get (total_heap f) cls c key (Some a) (Some x) = Some (ret, Some b, c') \<and> key_of c' = key_of c \<and>
        cache_ok c' (fst (arc_hit (max_size c) (ret = ret_ok) b L (target_t1 c))) (R(b := R b + 1)) \<and>
        target_t1 c' = snd (arc_hit (max_size c) (ret = ret_ok) b L (target_t1 c)))) \<and>
    (\<forall>b. key_of c b = Some (buf_str key) \<and> \<not> listed L b \<longrightarrow>
      (\<exists>c'. http2d_cache_get (total_heap f) cls c key (Some a) (Some x) = Some (ret_ok, Some b, c') \<and> key_of c' = key_of c \<and>
        cache_ok c' (L(T1 := b # L T1)) (R(b := R b + 1)) \<and> target_t1 c' = target_t1 c)) \<and>
    ((\<forall>b. key_of c b \<noteq> Some (buf_str key)) \<longrightarrow>
      (case arc_room (nat (max_size c)) (target_t1 c) L of
         None \<Rightarrow> http2d_cache_get (total_heap f) cls c key (Some a) (Some x) = None
       | Some (L', v) \<Rightarrow> \<exists>c'. http2d_cache_get (total_heap f) cls c key (Some a) (Some x) = Some (ret_ok, Some a, c') \<and>
           key_of c' = (forgotten R v (key_of c))(a \<mapsto> buf_str key) \<and> cache_ok c' (L'(T1 := a # L' T1)) (R(a := 1)) \<and>
           target_t1 c' = target_t1 c))"
proof -
  have fr: "c_entries c a = None" "\<forall>l. a \<noteq> c_head c l" "c_nodes c x = None" using assms(3) by (auto simp: free_addrs_def)
  have 1: "\<exists>ret c'. http2d_cache_get (total_heap f) cls c key (Some a) (Some x) = Some (ret, Some b, c') \<and> key_of c' = key_of c \<and>
      cache_ok c' (fst (arc_hit (max_size c) (ret = ret_ok) b L (target_t1 c))) (R(b := R b + 1)) \<and>
      target_t1 c' = snd (arc_hit (max_size c) (ret = ret_ok) b L (target_t1 c))"
    if "key_of c b = Some (buf_str key)" "listed L b" for b
  proof -
    from \<open>listed L b\<close> have "\<exists>i. b \<in> set (L i)" by (simp add: listed_def)
    then obtain i where "b \<in> set (L i)" by blast
    with cache_get_hit [OF assms(1,2) that(1) this, of "total_heap f" cls "Some a" "Some x"] show ?thesis by blast
  qed
  have 2: "\<exists>c'. http2d_cache_get (total_heap f) cls c key (Some a) (Some x) = Some (ret_ok, Some b, c') \<and> key_of c' = key_of c \<and>
      cache_ok c' (L(T1 := b # L T1)) (R(b := R b + 1)) \<and> target_t1 c' = target_t1 c"
    if "key_of c b = Some (buf_str key)" "\<not> listed L b" for b
    using cache_get_lingering [OF assms(1,2) that, of "total_heap f" cls "Some a" "Some x"] by blast
  have 3: "case arc_room (nat (max_size c)) (target_t1 c) L of
       None \<Rightarrow> http2d_cache_get (total_heap f) cls c key (Some a) (Some x) = None
     | Some (L', v) \<Rightarrow> \<exists>c'. http2d_cache_get (total_heap f) cls c key (Some a) (Some x) = Some (ret_ok, Some a, c') \<and>
         key_of c' = (forgotten R v (key_of c))(a \<mapsto> buf_str key) \<and> cache_ok c' (L'(T1 := a # L' T1)) (R(a := 1)) \<and> target_t1 c' = target_t1 c"
    if "\<forall>b. key_of c b \<noteq> Some (buf_str key)"
    using cache_get_miss [OF assms(1,2) that fr assms(4-6), of f cls] by (cases "arc_room (nat (max_size c)) (target_t1 c) L") auto
  show ?thesis using 1 2 3 by blast
qed

theorem http2d_cache_get_correct_witness:
  "\<exists>c c'. http2d_cache_get (total_heap (\<lambda>_. 0)) plain_class c (name_key 5) (Some 5) (Some 5) = Some (ret_ok, Some 5, c') \<and>
    cache_ok c (\<lambda>_. []) (\<lambda>_. 0) \<and> cache_ok c' ((\<lambda>_. [])(T1 := [5])) ((\<lambda>_. 0)(5 := 1)) \<and> key_of c' = [5 \<mapsto> [5]]"
proof -
  obtain c :: "(unit, unit) cache" where c: "holding c (\<lambda>_. []) [] 4 (\<lambda>_. 0)" using blank_run [of 4 plain_class] by auto
  note h = c [unfolded holding_def]
  have n5: "4 < (5 :: nat)" "(5 :: nat) < 256" by simp_all
  note hf = holding_facts [OF c n5]
  have k: "text_key (name_key 5)" "buf_str (name_key 5) = [5]" using name_key [of 5] by simp_all
  have fr: "free_addrs c 5 5" using hf(3-5) [of 5] by (simp add: free_addrs_def)
  have ok: "cache_ok c (\<lambda>_. []) (\<lambda>_. 0)" "0 \<le> max_size c" "max_size c < 2 ^ 31" using h by auto
  have kc: "key_of c = (\<lambda>_. None)" using h by simp
  have "arc_room (nat (max_size c)) (target_t1 c) (\<lambda>_. []) = Some (\<lambda>_. [], None)" using h by (simp add: arc_room_def)
  with http2d_cache_get_correct [OF ok(1) k(1) fr hf(2) ok(2,3), of "\<lambda>_. 0" plain_class] kc k(2)
  obtain c' where "http2d_cache_get (total_heap (\<lambda>_. 0)) plain_class c (name_key 5) (Some 5) (Some 5) = Some (ret_ok, Some 5, c')"
    "key_of c' = (forgotten (\<lambda>_. 0) None (key_of c))(5 \<mapsto> [5])" "cache_ok c' ((\<lambda>_. [])(T1 := [5])) ((\<lambda>_. 0)(5 := 1))" by auto
  then show ?thesis using ok(1) kc by (auto simp: forgotten_def)
qed

text \<open>C7: No entry that a client refers to is freed: in every state that look-ups and releases of references reach, such an
  entry is there, counts at least the references of the clients, and is still found under its key.\<close>

theorem cache_run_safe:
  assumes "cache_run cls c R" "R a > 0"
  shows "\<exists>e. c_entries c a = Some e \<and> ref_count e \<ge> int (R a) \<and>
    http2d_avl_get (c_map c) (c_nodes c) (ce_key e) = Some (ret_ok, Some (Some a))"
proof -
  obtain L where L: "cache_ok c L R" using cache_run_inv [OF assms(1)] by blast
  then have o: "keys_ok c" "refs_ok c L R" by (auto simp: cache_ok_def)
  obtain e where e: "c_entries c a = Some e" using o(2) assms(2) unfolding refs_ok_def by blast
  have "text_key (ce_key e)" "key_of c a = Some (buf_str (ce_key e))" using o(1) e by (auto simp: keys_ok_def key_of_def)
  from avl_get_index(1) [OF o(1) this] refs_okD [OF o(2) e] e show ?thesis by (auto split: if_splits)
qed

theorem cache_run_safe_witness:
  "\<exists>(c :: (unit, unit) cache) R e. cache_run plain_class c R \<and> R 5 > 0 \<and> c_entries c 5 = Some e \<and>
    http2d_avl_get (c_map c) (c_nodes c) (ce_key e) = Some (ret_ok, Some (Some 5))"
proof -
  obtain c0 where c0: "cache_run plain_class c0 (\<lambda>_. 0)" "holding c0 (\<lambda>_. []) [] 4 (\<lambda>_. 0)" using blank_run [of 4 plain_class] by auto
  have "hold_step 4 (\<lambda>_. []) [] 5 = Some ((\<lambda>_. [])(T1 := [5]))" by (simp add: hold_step_def arc_room_def)
  from holding_step [OF c0(2) _ _ this, of plain_class] obtain b c where g: "free_addrs c0 b b"
    "http2d_cache_get (total_heap (\<lambda>_. 0)) plain_class c0 (name_key 5) (Some b) (Some b) = Some (ret_ok, Some 5, c)" by auto
  have "card (dom (c_entries c0)) < 2 ^ 32" "text_key (name_key 5)" using holding_facts(2) [OF c0(2), of 5] name_key [of 5] by simp_all
  from cache_run.get [OF c0(1) this(2) g(1) this(1) g(2)] have c: "cache_run plain_class c ((\<lambda>_. 0)(5 := 1))" by simp
  then show ?thesis using cache_run_safe [OF c, of 5] by (intro exI [of _ c] exI [of _ "(\<lambda>_. 0)(5 := 1)"]) auto
qed

text \<open>C8: When every client gives its reference back before the next look-up, the cache keeps the bounds of the policy: T1
  and B1 together, and T1 and T2 together, never exceed the configured size, all four lists never exceed twice the size, the
  target stays between 0 and the size. Every look-up then gives the entry of the key, which is in the cache afterwards. It
  reports success unless the entry was in a ghost list and the method \<open>fetch\<close> of the class is missing or can fail; then it may
  report that error. With a \<open>fetch\<close> that works, every look-up succeeds.\<close>

theorem cache_session_bounds:
  assumes "cache_session cls c"
  shows "c_len c T1 + c_len c B1 \<le> max_size c \<and> c_len c T1 + c_len c T2 \<le> max_size c \<and>
    c_len c T1 + c_len c T2 + c_len c B1 + c_len c B2 \<le> 2 * max_size c \<and> 0 \<le> target_t1 c \<and> target_t1 c \<le> max_size c \<and>
    (\<forall>key a x. text_key key \<and> free_addrs c a x \<longrightarrow>
      (\<exists>ret b c1 c2. http2d_cache_get (total_heap f) cls c key (Some a) (Some x) = Some (ret, Some b, c1) \<and>
        http2d_cache_entry_unref cls c1 (Some b) = Some (ret_eagain, c2) \<and> key_of c2 b = Some (buf_str key) \<and>
        (fetch_works cls \<longrightarrow> ret = ret_ok) \<and>
        (ret \<noteq> ret_ok \<longrightarrow> (ret = ret_error \<or> ret = ret_no_sys) \<and>
          (\<exists>e. c_entries c b = Some e \<and> (in_list e = cache_b1 \<or> in_list e = cache_b2)))))"
proof -
  have "\<exists>L. session_ok c L" using assms
  proof (induction rule: cache_session.induct)
    case (start c ret c' n)
    then show ?case using cache_init_ok [OF start(1), of n] by (intro exI [of _ "\<lambda>_. []"]) (auto simp: session_ok_def arc_bounds_def)
  next
    case (use c key a x f ret b c1 ret' c2)
    then obtain L where "session_ok c L" by blast
    from session_step [OF this use(2,3), of f cls] use(4,5) show ?case by auto
  qed
  then obtain L where L: "session_ok c L" by blast
  have len: "c_len c l = int (length (L l))" for l using L by (simp add: session_ok_def cache_ok_def lists_ok_def)
  have b: "length (L T1) + length (L B1) \<le> nat (max_size c)" "length (L T1) + length (L T2) \<le> nat (max_size c)" "0 < max_size c"
    "length (L T1) + length (L T2) + length (L B1) + length (L B2) \<le> 2 * nat (max_size c)" "0 \<le> target_t1 c" "target_t1 c \<le> max_size c"
    using L by (auto simp: session_ok_def arc_bounds_def)
  have "\<exists>ret b c1 c2. http2d_cache_get (total_heap f) cls c key (Some a) (Some x) = Some (ret, Some b, c1) \<and>
        http2d_cache_entry_unref cls c1 (Some b) = Some (ret_eagain, c2) \<and> key_of c2 b = Some (buf_str key) \<and>
        (fetch_works cls \<longrightarrow> ret = ret_ok) \<and>
        (ret \<noteq> ret_ok \<longrightarrow> (ret = ret_error \<or> ret = ret_no_sys) \<and>
          (\<exists>e. c_entries c b = Some e \<and> (in_list e = cache_b1 \<or> in_list e = cache_b2)))"
    if "text_key key" "free_addrs c a x" for key a x using session_step [OF L that, of f cls] unfolding look_up_ret_def by blast
  with b len show ?thesis by auto
qed

theorem cache_session_bounds_witness:
  "\<exists>(c :: (unit, unit) cache) b c1 c2. cache_session plain_class c \<and> max_size c = 4 \<and> c_len c T1 + c_len c T2 \<le> 4 \<and>
    http2d_cache_get (total_heap (\<lambda>_. 0)) plain_class c (name_key 5) (Some 5) (Some 5) = Some (ret_ok, Some b, c1) \<and>
    http2d_cache_entry_unref plain_class c1 (Some b) = Some (ret_eagain, c2)"
proof -
  define b :: "(unit, unit) cache" where "b = blank_cache"
  have raw: "raw_cache b" by (simp add: b_def raw_blank)
  obtain c' where c': "http2d_cache_init True b = Some (ret_ok, c')" "c_head c' = c_head b" "c_nodes c' = c_nodes b" "c_entries c' = (\<lambda>_. None)"
    using cache_init_ok [OF raw, of 4] by blast
  let ?c = "c'\<lparr>max_size := 4\<rparr>"
  have s: "cache_session plain_class ?c" by (rule cache_session.start [OF raw c'(1)]) simp_all
  have fr: "free_addrs ?c 5 5" using c' by (auto simp: free_addrs_def b_def blank_cache_def split: list_name.splits)
  have k: "text_key (name_key 5)" using name_key [of 5] by simp
  have "fetch_works plain_class" by (simp add: fetch_works_def plain_class_def)
  with cache_session_bounds [OF s, of "\<lambda>_. 0"] k fr obtain d c1 c2
    where "http2d_cache_get (total_heap (\<lambda>_. 0)) plain_class ?c (name_key 5) (Some 5) (Some 5) = Some (ret_ok, Some d, c1)"
      "http2d_cache_entry_unref plain_class c1 (Some d) = Some (ret_eagain, c2)" "c_len ?c T1 + c_len ?c T2 \<le> max_size ?c" by blast
  then show ?thesis using s by (intro exI [of _ ?c] exI [of _ d] exI [of _ c1] exI [of _ c2]) simp
qed

text \<open>C19: When clients keep their references, evicted entries come back to T1 without any other entry leaving it, so that
  the lists outgrow the size of the cache. For a size of 4, any class of entries and twenty look-ups of the eight keys 5 to 12, all of
  them successful, with no reference given back: T2 then holds the eight entries, with the two or three references of the clients
  and the one of the cache each, and the other lists are empty. The look-up of a ninth key takes the last entry of the empty
  list B2 to make room: it gets the null pointer, and follows it.\<close>

theorem http2d_cache_get_held_fault:
  fixes cls :: "('x, 'e) cache_class"
  shows "remdups (rev greedy_clients) = [12, 11, 10, 9, 8, 7, 6, 5] \<and> length greedy_clients = 20 \<and>
    (\<exists>c. kept_gets cls 4 (map name_key greedy_clients) c \<and> max_size c = 4 \<and> map (c_len c) [T1, T2, B1, B2] = [0, 8, 0, 0] \<and>
      map (\<lambda>a. map_option ref_count (c_entries c a)) [5, 6, 7, 8, 9, 10, 11, 12] = map Some [4, 4, 4, 4, 3, 3, 3, 3] \<and>
      free_addrs c 13 13 \<and> text_key (name_key 13) \<and> cache_list_get_lru B2 c = Some None \<and> evict_lru B2 cls c = None \<and>
      http2d_cache_get (total_heap f) cls c (name_key 13) (Some 13) (Some 13) = None)"
proof -
  obtain L known where r: "hold_run 4 (\<lambda>_. []) [] greedy_clients = Some (L, known)" "L T1 = []" "L T2 = [9, 5, 10, 6, 11, 7, 12, 8]" "L B1 = []" "L B2 = []"
    "13 \<notin> set known" using greedy_lists by (cases "hold_run 4 (\<lambda>_. []) [] greedy_clients") auto
  obtain c0 :: "('x, 'e) cache" where c0: "kept_gets cls 4 [] c0" "holding c0 (\<lambda>_. []) [] 4 (\<lambda>_. 0)" using blank_run [of 4 cls] by auto
  have "\<forall>a. a \<in> set greedy_clients \<longrightarrow> 4 < a \<and> a < 256" by (simp add: greedy_clients_def)
  from holding_run [OF c0(2,1) this r(1)] obtain c where c: "holding c L known 4 (count_list greedy_clients)" "kept_gets cls 4 (map name_key greedy_clients) c"
    by auto
  note h = c(1) [unfolded holding_def]
  have k: "text_key (name_key 13)" using name_key [of 13] by simp
  have n13: "4 < (13 :: nat)" "(13 :: nat) < 256" by simp_all
  note hf = holding_facts [OF c(1) n13]
  have ms: "\<forall>b. key_of c b \<noteq> Some (buf_str (name_key 13))" using hf(1) r(6) by blast
  have ok: "cache_ok c L (count_list greedy_clients)" "0 \<le> max_size c" "max_size c < 2 ^ 31" using h by auto
  then have lo: "lists_ok c L" and ro: "refs_ok c L (count_list greedy_clients)" by (auto simp: cache_ok_def)
  have "arc_room (nat (max_size c)) (target_t1 c) L = None" using h r(2-5) by (simp add: arc_room_def arc_evict_def)
  then have null: "http2d_cache_get (total_heap f) cls c (name_key 13) (Some 13) (Some 13) = None"
    using cache_get_miss [OF ok(1) k ms hf(3-5) [OF r(6) n13(1)] hf(2) ok(2,3), of f cls] by simp
  have lru: "cache_list_get_lru B2 c = Some None" using cache_list_get_lru_ok [OF lo, of B2] r(5) by simp
  have lens: "map (c_len c) [T1, T2, B1, B2] = [0, 8, 0, 0]" using lo r(2-5) by (simp add: lists_ok_def)
  have refs: "map_option ref_count (c_entries c a) = Some (int (count_list greedy_clients a) + 1)" if "a \<in> set (L T2)" for a
  proof -
    from lists_ok_entry [OF lo that] obtain e where e: "c_entries c a = Some e" by blast
    then show ?thesis using refs_okD [OF ro e] that by (auto simp: listed_def)
  qed
  have "map (\<lambda>a. map_option ref_count (c_entries c a)) [5, 6, 7, 8, 9, 10, 11, 12] =
    map (\<lambda>a. Some (int (count_list greedy_clients a) + 1)) [5, 6, 7, 8, 9, 10, 11, 12]"
    by (rule map_cong [OF refl], rule refs) (auto simp: r(3))
  also have "\<dots> = map Some [4, 4, 4, 4, 3, 3, 3, 3]" by (simp add: greedy_clients_def)
  finally have "map (\<lambda>a. map_option ref_count (c_entries c a)) [5, 6, 7, 8, 9, 10, 11, 12] = map Some [4, 4, 4, 4, 3, 3, 3, 3]" .
  moreover have "evict_lru B2 cls c = None" using lru by (simp add: evict_lru_def)
  moreover have "remdups (rev greedy_clients) = [12, 11, 10, 9, 8, 7, 6, 5]" "length greedy_clients = 20" by (simp_all add: greedy_clients_def)
  moreover have "free_addrs c 13 13" using hf(3-5) [OF r(6) n13(1)] by (simp add: free_addrs_def)
  moreover have "max_size c = 4" using h by simp
  ultimately show ?thesis using c(2) k null lru lens by (intro conjI exI [of _ c])
qed

end
