(* ===== verification/Util_Path.thy ===== *)
theory Util_Path
  imports Buffer_Edit "HOL-Library.Code_Target_Nat"
begin

text \<open>
  Paths in \<^verbatim>\<open>src/src/util.c\<close>: \<open>http2d_path_short\<close>, which resolves the segments \<open>.\<close> and \<open>..\<close> of a path in place. Pointers into the
  text are offsets from its first byte. The variable \<open>end\<close> is not set again when a segment \<open>.\<close> is removed, so that it may lie behind the
  text: the loop then looks at bytes of the chunk that no longer belong to it.
\<close>

abbreviation slash :: byte where "slash \<equiv> 47"
abbreviation dot :: byte where "dot \<equiv> 46"

function dots_from :: "block \<Rightarrow> nat \<Rightarrow> nat \<Rightarrow> nat option" where
  "dots_from m fin q =
     (if q < fin then do { c \<leftarrow> blk_get m q; if c = dot then dots_from m fin (q + 1) else Some q }
      else Some q)"
  by pat_completeness auto
termination by (relation "measure (\<lambda>(m, fin, q). fin - q)") auto

fun slash_before :: "block \<Rightarrow> nat \<Rightarrow> nat option" where
  "slash_before m q =
     (if q > 0 then do { c \<leftarrow> blk_get m q; if c \<noteq> slash then slash_before m (q - 1) else Some q }
      else Some q)"

declare dots_from.simps [simp del] slash_before.simps [simp del]

text \<open>One iteration of the loop: it returns, or goes on with \<open>p\<close> and \<open>end\<close>.\<close>

datatype path_next = Return buffer | Continue buffer nat nat

definition path_step :: "buffer \<Rightarrow> nat \<Rightarrow> nat \<Rightarrow> path_next option" where
  "path_step path p fin = do {
     m \<leftarrow> buf path;
     c \<leftarrow> blk_get m p;
     if c \<noteq> dot then Some (Continue path (p + 1) fin)
     else do {
       c1 \<leftarrow> blk_get m (p + 1);
       here \<leftarrow> (if c1 = slash \<and> p > 0 then do { c \<leftarrow> blk_get m (p - 1); Some (c = slash) } else Some False);
       if here then do {
         (_, path) \<leftarrow> http2d_buffer_remove_chunk path p 2;
         Some (Continue path (p - 1) fin) }
       else if fin < p + 2 then Some (Return path)
       else if c1 \<noteq> dot then Some (Continue path (p + 2) fin)
       else do {
         dots_end \<leftarrow> dots_from m fin (p + 2);
         if dots_end \<ge> fin then Some (Return path)
         else if p = 0 then Some (Return path)
         else do {
           c \<leftarrow> blk_get m (p - 1);
           if c \<noteq> slash then Some (Continue path dots_end fin)
           else do {
             prev_slash \<leftarrow> slash_before m (if p - 1 > 0 then p - 2 else p - 1);
             (_, path) \<leftarrow> http2d_buffer_remove_chunk path prev_slash (u32 (dots_end - prev_slash));
             Some (Continue path prev_slash (len path)) } } } } }"

partial_function (option) path_loop :: "buffer \<Rightarrow> nat \<Rightarrow> nat \<Rightarrow> buffer option" where
  "path_loop path p fin =
     (if p < fin then do {
        next \<leftarrow> path_step path p fin;
        (case next of Return path \<Rightarrow> Some path | Continue path p fin \<Rightarrow> path_loop path p fin) }
      else Some path)"

definition http2d_path_short :: "buffer \<Rightarrow> (ret_t \<times> buffer) option" where
  "http2d_path_short path = do { path \<leftarrow> path_loop path 0 (len path); Some (ret_ok, path) }"

text \<open>\<open>cwd\<close> is what \<open>getcwd\<close> returns; a null pointer when the name is longer than 511 bytes.\<close>

definition http2d_path_arg_eval :: "heap \<Rightarrow> block option \<Rightarrow> buffer \<Rightarrow> (ret_t \<times> buffer) option" where
  "http2d_path_arg_eval h cwd path = do {
     m \<leftarrow> buf path;
     c \<leftarrow> blk_get m 0;
     path \<leftarrow> (if c \<noteq> slash then do {
               (_, path) \<leftarrow> http2d_buffer_prepend h path [slash] 1;
               d \<leftarrow> cwd;
               s \<leftarrow> cstr d 0;
               (_, path) \<leftarrow> http2d_buffer_prepend h path d (length s);
               Some path }
             else Some path);
     (ret, path) \<leftarrow> http2d_path_short path;
     Some (if ret \<noteq> ret_ok then ret_error else ret_ok, path) }"

partial_function (option) fix_dirpath_loop :: "buffer \<Rightarrow> buffer option" where
  "fix_dirpath_loop b =
     (if len b > 1 then do {
        e \<leftarrow> http2d_buffer_is_ending b slash;
        if e then do { (_, b) \<leftarrow> http2d_buffer_drop_ending b 1; fix_dirpath_loop b } else Some b }
      else Some b)"

definition http2d_fix_dirpath :: "buffer \<Rightarrow> (ret_t \<times> buffer) option" where
  "http2d_fix_dirpath b = do { b \<leftarrow> fix_dirpath_loop b; Some (ret_ok, b) }"

subsection \<open>One iteration\<close>

text \<open>The text \<open>s\<close> in the chunk \<open>m\<close>, with the loop running up to \<open>fin\<close>. What lies between the text and \<open>fin\<close> has a zero in
  every pair of neighbours.\<close>

definition path_at :: "buffer \<Rightarrow> byte list \<Rightarrow> block \<Rightarrow> nat \<Rightarrow> bool" where
  "path_at b s m fin \<longleftrightarrow> buf_rep b s \<and> buf b = Some m \<and> 0 \<notin> set s \<and> length s \<le> fin \<and> fin < length m \<and>
     (\<forall>j. length s \<le> j \<and> j < fin \<longrightarrow> m ! j = 0 \<or> m ! (j + 1) = 0)"

lemma path_atD:
  assumes "path_at b s m fin"
  shows "buf_rep b s" "buf b = Some m" "0 \<notin> set s" "length s \<le> fin" "fin < length m" "m ! length s = 0"
    "\<And>j. length s \<le> j \<Longrightarrow> j < fin \<Longrightarrow> m ! j = 0 \<or> m ! (j + 1) = 0" "\<And>j. j < length s \<Longrightarrow> m ! j = s ! j" "\<And>j. j \<le> fin \<Longrightarrow> blk_get m j = Some (m ! j)"
    "len b = length s" "length s < 2 ^ 31"
proof -
  show "buf_rep b s" "buf b = Some m" "0 \<notin> set s" "length s \<le> fin" "fin < length m" and j: "\<And>j. length s \<le> j \<Longrightarrow> j < fin \<Longrightarrow> m ! j = 0 \<or> m ! (j + 1) = 0"
    using assms by (auto simp: path_at_def)
  show "\<And>j. j \<le> fin \<Longrightarrow> blk_get m j = Some (m ! j)" using assms by (auto simp: path_at_def blk_get_def)
  show "m ! length s = 0" "\<And>j. j < length s \<Longrightarrow> m ! j = s ! j" "len b = length s" "length s < 2 ^ 31"
    using assms buf_rep_read [of b s m] chunk_nth [of s m] by (auto simp: path_at_def elim!: buf_rep_cases dest: buf_rep_len)
qed

lemma path_atI:
  assumes "buf_rep b s" "buf b = Some m" "0 \<notin> set s"
  shows "path_at b s m (length s)"
  using assms by (auto simp: path_at_def elim!: buf_rep_cases)

lemma dots_from_text:
  assumes "path_at b s m fin" "q \<le> length s"
  shows "dots_from m fin q = Some (q + length (takeWhile (\<lambda>c. c = dot) (drop q s)))"
  using assms(2)
proof (induction "length s - q" arbitrary: q)
  case 0
  then have "q = length s" by simp
  then show ?case using path_atD(4,6,9) [OF assms(1)] by (subst dots_from.simps) simp
next
  case (Suc n)
  then have q: "q < length s" by simp
  then have d: "drop q s = s ! q # drop (Suc q) s" by (simp add: Cons_nth_drop_Suc)
  have "dots_from m fin (Suc q) = Some (Suc q + length (takeWhile (\<lambda>c. c = dot) (drop (Suc q) s)))" using Suc q by simp
  then show ?case using path_atD(4,8,9) [OF assms(1)] q d by (subst dots_from.simps) simp
qed

lemma slash_before_text:
  assumes "path_at b s m fin" "q < length s"
  shows "\<exists>r. slash_before m q = Some r \<and> r \<le> q \<and> (r = 0 \<or> s ! r = slash) \<and> (\<forall>j. r < j \<and> j \<le> q \<longrightarrow> s ! j \<noteq> slash)"
  using assms(2)
proof (induction q)
  case 0
  then show ?case by (subst slash_before.simps) simp
next
  case (Suc q)
  show ?case
  proof (cases "s ! Suc q = slash")
    case True
    then show ?thesis using path_atD(4,8,9) [OF assms(1)] Suc.prems by (subst slash_before.simps) auto
  next
    case False
    obtain r where "slash_before m q = Some r" "r \<le> q" "r = 0 \<or> s ! r = slash" "\<forall>j. r < j \<and> j \<le> q \<longrightarrow> s ! j \<noteq> slash"
      using Suc by auto
    with False show ?thesis using path_atD(4,8,9) [OF assms(1)] Suc.prems by (subst slash_before.simps) (auto simp: le_Suc_eq)
  qed
qed

lemma remove_text:
  assumes "path_at b s m fin" "i + n \<le> length s"
  shows "\<exists>b' m'. http2d_buffer_remove_chunk b i n = Some (ret_ok, b') \<and> len b' = length s - n \<and> path_at b' (take i s @ drop (i + n) s) m' (length s - n)"
proof -
  note D = path_atD [OF assms(1)]
  obtain b' where b': "http2d_buffer_remove_chunk b i n = Some (ret_ok, b')" "buf_rep b' (take i s @ drop (i + n) s)"
    using remove_chunk_rep [OF D(1) assms(2)] D(2) by auto
  have "buf b' \<noteq> None" using b'(1) D(2) by (auto simp: http2d_buffer_remove_chunk_def http2d_buffer_clean_def bind_eq_Some_conv split: if_splits)
  then obtain m' where "buf b' = Some m'" by auto
  moreover have "0 \<notin> set (take i s @ drop (i + n) s)" using D(3) by (auto dest: in_set_takeD in_set_dropD)
  moreover have "length (take i s @ drop (i + n) s) = length s - n" using assms(2) by simp
  ultimately show ?thesis using b' path_atI [OF b'(2)] buf_rep_len [OF b'(2)] by metis
qed

lemma remove_dot:
  assumes "path_at b s m fin" "0 < i" "i + 2 \<le> length s"
  shows "\<exists>b' m'. http2d_buffer_remove_chunk b i 2 = Some (ret_ok, b') \<and> path_at b' (take i s @ drop (i + 2) s) m' fin"
proof -
  note D = path_atD [OF assms(1)]
  obtain b' where b': "http2d_buffer_remove_chunk b i 2 = Some (ret_ok, b')" "buf_rep b' (take i s @ drop (i + 2) s)"
    using remove_chunk_rep [OF D(1) assms(3)] D(2) by auto
  define k where "k = length s - i - 1"
  have cnt: "nat ((int (length s) - int (i + 2) + 1) mod 2 ^ 64) = k" using assms(3) D(11) by (simp add: k_def)
  define m' where "m' = take i m @ take k (drop (i + 2) m) @ drop (length s - 1) m"
  have "blk_move m i (i + 2) k = Some m'" using assms(3) D(4,5) by (simp add: blk_move_in m'_def k_def)
  then have m': "buf b' = Some m'" using b'(1) D(2,10) assms(2,3) cnt by (auto simp: http2d_buffer_remove_chunk_def)
  have l: "length (take i m @ take k (drop (i + 2) m)) = length s - 1" "length m' = length m" using assms(3) D(4,5) by (auto simp: m'_def k_def)
  have hi: "m' ! j = m ! j" if "length s - 1 \<le> j" "j < length m" for j
    using that l(1) assms(3) nth_append [of "take i m @ take k (drop (i + 2) m)" "drop (length s - 1) m" j] by (simp add: m'_def)
  have nl: "m' ! (length s - 2) = 0" using buf_rep_read(3) [OF b'(2) m'] assms(3) by simp
  have st: "m' ! j = 0 \<or> m' ! (j + 1) = 0" if j: "length s - 2 \<le> j" "j < fin" for j
  proof -
    consider "j = length s - 2" | "j = length s - 1" | "length s \<le> j" using j(1) by linarith
    then show ?thesis
    proof cases
      case 2
      then have "j + 1 = length s" using assms(3) by simp
      then show ?thesis using hi [of "length s"] D(4,5,6) by simp
    next
      case 3
      then show ?thesis using hi [of j] hi [of "j + 1"] D(7) [of j] D(5) j(2) by simp
    qed (use nl in simp)
  qed
  have "0 \<notin> set (take i s @ drop (i + 2) s)" using D(3) by (auto dest: in_set_takeD in_set_dropD)
  moreover have "length (take i s @ drop (i + 2) s) = length s - 2" using assms(3) by simp
  ultimately have "path_at b' (take i s @ drop (i + 2) s) m' fin" using b'(2) m' st l(2) D(4,5) by (simp add: path_at_def)
  then show ?thesis using b'(1) by blast
qed

text \<open>What one iteration does to the text, in the order of the branches.\<close>

lemma step_over:
  assumes "path_at b s m fin" "p < fin" "length s \<le> p"
  shows "path_step b p fin = Some (Return b) \<or> (\<exists>q. p < q \<and> path_step b p fin = Some (Continue b q fin))"
proof -
  note D = path_atD [OF assms(1)]
  have "m ! p = dot \<Longrightarrow> m ! (p + 1) = 0" using D(7) [of p] assms(2,3) by auto
  then show ?thesis using D(2) D(9) [of p] D(9) [of "p + 1"] assms(2) by (auto simp: path_step_def)
qed

lemma step_char:
  assumes "path_at b s m fin" "p < length s" "s ! p \<noteq> dot"
  shows "path_step b p fin = Some (Continue b (p + 1) fin)"
  using path_atD(2,4) [OF assms(1)] path_atD(8,9) [OF assms(1), of p] assms(2,3) by (simp add: path_step_def)

lemma step_dot:
  assumes "path_at b s m fin" "p + 1 < length s" "s ! p = dot" "s ! (p + 1) = slash" "0 < p" "s ! (p - 1) = slash"
  shows "\<exists>b' m'. path_step b p fin = Some (Continue b' (p - 1) fin) \<and> path_at b' (take p s @ drop (p + 2) s) m' fin"
proof -
  note D = path_atD [OF assms(1)]
  obtain b' m' where "http2d_buffer_remove_chunk b p 2 = Some (ret_ok, b')" "path_at b' (take p s @ drop (p + 2) s) m' fin"
    using remove_dot [OF assms(1,5)] assms(2) by auto
  moreover from this(1) have "path_step b p fin = Some (Continue b' (p - 1) fin)"
    using D(2,4) D(8,9) [of p] D(8,9) [of "p + 1"] D(8,9) [of "p - 1"] assms(2-6) by (simp add: path_step_def)
  ultimately show ?thesis by blast
qed

lemma step_name:
  assumes "path_at b s m fin" "p < length s" "s ! p = dot" "p + 1 = length s \<or> s ! (p + 1) \<noteq> dot"
    "\<not> (p + 1 < length s \<and> s ! (p + 1) = slash \<and> 0 < p \<and> s ! (p - 1) = slash)"
  shows "path_step b p fin = Some (if fin < p + 2 then Return b else Continue b (p + 2) fin)"
proof -
  note D = path_atD [OF assms(1)]
  have p1: "m ! (p + 1) \<noteq> dot" "m ! (p + 1) = slash \<Longrightarrow> p + 1 < length s \<and> s ! (p + 1) = slash"
  proof -
    consider "p + 1 < length s" "m ! (p + 1) = s ! (p + 1)" "s ! (p + 1) \<noteq> dot" | "m ! (p + 1) = 0"
      using D(6) D(8) [of "p + 1"] assms(2,4) by (metis Suc_eq_plus1 Suc_lessI less_irrefl)
    then show "m ! (p + 1) \<noteq> dot" "m ! (p + 1) = slash \<Longrightarrow> p + 1 < length s \<and> s ! (p + 1) = slash" by (cases; simp)+
  qed
  have get: "blk_get m p = Some dot" "blk_get m (p + 1) = Some (m ! (p + 1))" "blk_get m (p - 1) = Some (m ! (p - 1))"
    using D(4) D(8,9) [of p] D(9) [of "p + 1"] D(9) [of "p - 1"] assms(2,3) by auto
  have "p - 1 < length s" using assms(2) by simp
  then have "m ! (p + 1) = slash \<and> 0 < p \<Longrightarrow> m ! (p - 1) \<noteq> slash" using p1(2) assms(5) D(8) [of "p - 1"] by auto
  then have "(if m ! (p + 1) = slash \<and> p > 0 then do { c \<leftarrow> blk_get m (p - 1); Some (c = slash) } else Some False) = Some False"
    using get(3) by auto
  then show ?thesis using p1(1) D(2) get(1,2) unfolding path_step_def by simp
qed

definition dots_end :: "byte list \<Rightarrow> nat \<Rightarrow> nat" where
  "dots_end s p = p + 2 + length (takeWhile (\<lambda>c. c = dot) (drop (p + 2) s))"

lemma dots_end_bounds: "p + 2 \<le> length s \<Longrightarrow> p + 2 \<le> dots_end s p \<and> dots_end s p \<le> length s"
  using length_takeWhile_le [of "\<lambda>c. c = dot" "drop (p + 2) s"] by (simp add: dots_end_def)

lemma dots_end_dots: "p + 2 \<le> j \<Longrightarrow> j < dots_end s p \<Longrightarrow> s ! j = dot"
proof -
  assume j: "p + 2 \<le> j" "j < dots_end s p"
  let ?t = "takeWhile (\<lambda>c. c = dot) (drop (p + 2) s)"
  have k: "j - (p + 2) < length ?t" using j by (simp add: dots_end_def)
  have "?t ! (j - (p + 2)) \<in> set ?t" by (rule nth_mem [OF k])
  moreover have "?t ! (j - (p + 2)) = drop (p + 2) s ! (j - (p + 2))" by (rule takeWhile_nth [OF k])
  moreover have "p + 2 \<le> length s" using j(2) length_takeWhile_le [of "\<lambda>c. c = dot" "drop (p + 2) s"] k by auto
  ultimately have "drop (p + 2) s ! (j - (p + 2)) = dot" "p + 2 \<le> length s" by (auto dest: set_takeWhileD)
  then have "s ! (p + 2 + (j - (p + 2))) = dot" by (subst (asm) nth_drop)
  moreover have "p + 2 + (j - (p + 2)) = j" using j(1) by simp
  ultimately show ?thesis by metis
qed

lemma dots_end_stop: "dots_end s p < length s \<Longrightarrow> s ! dots_end s p \<noteq> dot"
  using nth_length_takeWhile [of "\<lambda>c. c = dot" "drop (p + 2) s"] by (simp add: dots_end_def)

lemma step_dots:
  assumes "path_at b s m fin" "p + 1 < length s" "s ! p = dot" "s ! (p + 1) = dot"
  shows "dots_end s p \<ge> fin \<or> p = 0 \<Longrightarrow> path_step b p fin = Some (Return b)"
    and "dots_end s p < fin \<Longrightarrow> 0 < p \<Longrightarrow> s ! (p - 1) \<noteq> slash \<Longrightarrow> path_step b p fin = Some (Continue b (dots_end s p) fin)"
    and "dots_end s p < fin \<Longrightarrow> 0 < p \<Longrightarrow> s ! (p - 1) = slash \<Longrightarrow>
      \<exists>r b' m'. path_step b p fin = Some (Continue b' r (length s - (dots_end s p - r))) \<and> r < p \<and> (r = 0 \<or> s ! r = slash) \<and>
        (\<forall>j. r < j \<and> j < p - 1 \<longrightarrow> s ! j \<noteq> slash) \<and> (0 < p - 1 \<longrightarrow> r < p - 1) \<and>
        path_at b' (take r s @ drop (dots_end s p) s) m' (length s - (dots_end s p - r))"
proof -
  note D = path_atD [OF assms(1)]
  have c: "m ! p = dot" "m ! (p + 1) = dot" "blk_get m p = Some dot" "blk_get m (p + 1) = Some dot"
    using D(4) D(8,9) [of p] D(8,9) [of "p + 1"] assms(2-4) by auto
  have de: "dots_from m fin (p + 2) = Some (dots_end s p)" using dots_from_text [OF assms(1), of "p + 2"] assms(2) by (simp add: dots_end_def)
  have fin: "\<not> fin < p + 2" using D(4) assms(2) by simp
  have pr: "0 < p \<Longrightarrow> blk_get m (p - 1) = Some (s ! (p - 1))" using D(4) D(8,9) [of "p - 1"] assms(2) by auto
  show "dots_end s p \<ge> fin \<or> p = 0 \<Longrightarrow> path_step b p fin = Some (Return b)"
    using c de fin D(2) by (auto simp: path_step_def)
  show "dots_end s p < fin \<Longrightarrow> 0 < p \<Longrightarrow> s ! (p - 1) \<noteq> slash \<Longrightarrow> path_step b p fin = Some (Continue b (dots_end s p) fin)"
    using c de fin pr D(2) by (auto simp: path_step_def)
  assume a: "dots_end s p < fin" "0 < p" "s ! (p - 1) = slash"
  have q: "(if p - 1 > 0 then p - 2 else p - 1) < length s" using assms(2) by (cases "0 < p - 1"; cases s) auto
  obtain r where r: "slash_before m (if p - 1 > 0 then p - 2 else p - 1) = Some r" "r \<le> (if p - 1 > 0 then p - 2 else p - 1)" "r = 0 \<or> s ! r = slash"
      "\<forall>j. r < j \<and> j \<le> (if p - 1 > 0 then p - 2 else p - 1) \<longrightarrow> s ! j \<noteq> slash"
    using slash_before_text [OF assms(1) q] by blast
  have db: "dots_end s p \<le> length s" "p + 2 \<le> dots_end s p" using dots_end_bounds [of p s] assms(2) by auto
  have rp: "r < p" "0 < p - 1 \<longrightarrow> r < p - 1" using r(2) a(2) by (auto split: if_splits)
  have u: "u32 (dots_end s p - r) = dots_end s p - r" using db D(11) by (intro u32_id) simp
  have "r + (dots_end s p - r) \<le> length s" "r + (dots_end s p - r) = dots_end s p" using db rp by auto
  from remove_text [OF assms(1) this(1)] this(2) obtain b' m' where b': "http2d_buffer_remove_chunk b r (dots_end s p - r) = Some (ret_ok, b')"
    "len b' = length s - (dots_end s p - r)" "path_at b' (take r s @ drop (dots_end s p) s) m' (length s - (dots_end s p - r))" by auto
  have "path_step b p fin = Some (Continue b' r (length s - (dots_end s p - r)))"
    using c de fin pr a D(2) r(1) u b'(1,2) by (simp add: path_step_def)
  moreover have "\<forall>j. r < j \<and> j < p - 1 \<longrightarrow> s ! j \<noteq> slash"
  proof (intro allI impI)
    fix j assume "r < j \<and> j < p - 1"
    then show "s ! j \<noteq> slash" using r(4) by (simp split: if_splits)
  qed
  ultimately show "\<exists>r b' m'. path_step b p fin = Some (Continue b' r (length s - (dots_end s p - r))) \<and> r < p \<and> (r = 0 \<or> s ! r = slash) \<and>
        (\<forall>j. r < j \<and> j < p - 1 \<longrightarrow> s ! j \<noteq> slash) \<and> (0 < p - 1 \<longrightarrow> r < p - 1) \<and>
        path_at b' (take r s @ drop (dots_end s p) s) m' (length s - (dots_end s p - r))"
    using rp r(3) b'(3) by (intro exI [of _ r] exI [of _ b'] exI [of _ m'] conjI) auto
qed

subsection \<open>No way up\<close>

text \<open>\<open>/../\<close> at position \<open>i\<close>.\<close>

definition climbs :: "byte list \<Rightarrow> nat \<Rightarrow> bool" where
  "climbs s i \<longleftrightarrow> i + 3 < length s \<and> s ! i = slash \<and> s ! (i + 1) = dot \<and> s ! (i + 2) = dot \<and> s ! (i + 3) = slash"

definition path_inv :: "byte list \<Rightarrow> nat \<Rightarrow> bool" where
  "path_inv s p \<longleftrightarrow> (s = [] \<or> hd s \<noteq> dot) \<and> (\<forall>i. climbs s i \<longrightarrow> p \<le> i + 1)"

lemma climbs_take: "climbs (take n s) i \<Longrightarrow> climbs s i"
  by (auto simp: climbs_def)

text \<open>An occurrence in the text without the chunk from \<open>i\<close> to \<open>j\<close> that does not lie behind it.\<close>

lemma climbs_cut:
  assumes "climbs (take i s @ drop j s) k" "k < i" "i \<le> j" "j \<le> length s"
  shows "k + 4 \<le> i \<and> climbs s k \<or> k + 3 = i \<and> s ! k = slash \<and> s ! (k + 1) = dot \<and> s ! (k + 2) = dot \<and> j < length s \<and> s ! j = slash \<or>
    k + 2 = i \<and> j < length s \<and> s ! j = dot \<or> k + 1 = i \<and> j < length s \<and> s ! j = dot"
proof -
  have n: "(take i s @ drop j s) ! q = (if q < i then s ! q else s ! (j + (q - i)))" for q
    using assms(3,4) by (auto simp: nth_append)
  have l: "length (take i s @ drop j s) = i + (length s - j)" using assms(3,4) by simp
  consider "k + 4 \<le> i" | "k + 3 = i" | "k + 2 = i" | "k + 1 = i" using assms(2) by linarith
  then show ?thesis
  proof cases
    case 1
    then show ?thesis using assms(1,3,4) unfolding climbs_def n l by simp
  next
    case 2
    then show ?thesis using assms(1) unfolding climbs_def n l by auto
  next
    case 3
    then show ?thesis using assms(1) unfolding climbs_def n l by auto
  next
    case 4
    then show ?thesis using assms(1) unfolding climbs_def n l by auto
  qed
qed

definition smaller :: "nat \<times> nat \<Rightarrow> nat \<times> nat \<Rightarrow> bool" where
  "smaller x y \<longleftrightarrow> (x, y) \<in> less_than <*lex*> less_than"

text \<open>An iteration returns a text without \<open>/../\<close>, or goes on with less to do.\<close>

fun step_ok :: "byte list \<Rightarrow> nat \<Rightarrow> nat \<Rightarrow> path_next \<Rightarrow> bool" where
  "step_ok s p fin (Return b) \<longleftrightarrow> (\<forall>i. \<not> climbs s i) \<and> (s = [] \<or> hd s \<noteq> dot) \<and> buf_rep b s"
| "step_ok s p fin (Continue b q fin') \<longleftrightarrow>
     (\<exists>s' m'. path_at b s' m' fin' \<and> path_inv s' q \<and> length s' \<le> length s \<and> smaller (length s', fin' - q) (length s, fin - p))"

lemma forward_ok:
  assumes "path_at b s m fin" "p < q" "p < fin" "s = [] \<or> hd s \<noteq> dot" "\<And>i. climbs s i \<Longrightarrow> q \<le> i + 1"
  shows "step_ok s p fin (Continue b q fin)"
  unfolding step_ok.simps using assms by (intro exI [of _ s] exI [of _ m]) (auto simp: path_inv_def smaller_def)

lemma path_step_ok:
  assumes at: "path_at b s m fin" and p: "p < fin" and inv: "path_inv s p"
  shows "\<exists>n. path_step b p fin = Some n \<and> step_ok s p fin n"
proof -
  note D = path_atD [OF at]
  have h: "s = [] \<or> hd s \<noteq> dot" and c: "\<And>i. climbs s i \<Longrightarrow> p \<le> i + 1" using inv by (auto simp: path_inv_def)
  have len: "i + 3 < length s" if "climbs s i" for i using that by (simp add: climbs_def)
  consider (over) "length s \<le> p" | (char) "p < length s" "s ! p \<noteq> dot"
    | (dot) "p + 1 < length s" "s ! p = dot" "s ! (p + 1) = slash" "0 < p" "s ! (p - 1) = slash"
    | (name) "p < length s" "s ! p = dot" "p + 1 = length s \<or> s ! (p + 1) \<noteq> dot"
        "\<not> (p + 1 < length s \<and> s ! (p + 1) = slash \<and> 0 < p \<and> s ! (p - 1) = slash)"
    | (dots) "p + 1 < length s" "s ! p = dot" "s ! (p + 1) = dot"
    by linarith
  then show ?thesis
  proof cases
    case over
    have "\<not> climbs s i" for i using c [of i] len [of i] over by linarith
    then show ?thesis using step_over [OF at p over] forward_ok [OF at _ p h] D(1) h by fastforce
  next
    case char
    have "p + 1 \<le> i + 1" if "climbs s i" for i using c [OF that] that char(2) by (cases "p = i + 1") (auto simp: climbs_def)
    then show ?thesis using step_char [OF at char] forward_ok [OF at _ p h, of "p + 1"] by auto
  next
    case dot
    obtain b' m' where b': "path_step b p fin = Some (Continue b' (p - 1) fin)" "path_at b' (take p s @ drop (p + 2) s) m' fin"
      using step_dot [OF at dot] by blast
    have l: "p \<le> p + 2" "p + 2 \<le> length s" using dot(1) by auto
    have "p - 1 \<le> k + 1" if k: "climbs (take p s @ drop (p + 2) s) k" for k
    proof (rule ccontr)
      assume n: "\<not> p - 1 \<le> k + 1"
      then have kp: "k < p" "k + 2 < p" by auto
      have "\<not> climbs s k" using c [of k] kp by auto
      with climbs_cut [OF k kp(1) l] kp(2) have "p = k + 3" "s ! (k + 2) = dot" by auto
      then show False using dot(5) by simp
    qed
    moreover have "take p s @ drop (p + 2) s = [] \<or> hd (take p s @ drop (p + 2) s) \<noteq> dot" using h dot(4) by (cases s; cases p) auto
    moreover have "length (take p s @ drop (p + 2) s) < length s" using dot(1) by simp
    ultimately show ?thesis using b' by (auto simp: path_inv_def smaller_def)
  next
    case name
    have f: "p + 2 \<le> i + 1" if "climbs s i" for i
    proof -
      have "i + 1 \<noteq> p" "i \<noteq> p" using that name(2,3) len [OF that] by (auto simp: climbs_def)
      then show ?thesis using c [OF that] by simp
    qed
    have n: "\<not> climbs s i" if "fin < p + 2" for i
    proof
      assume i: "climbs s i"
      show False using f [OF i] len [OF i] that D(4) by linarith
    qed
    show ?thesis
    proof (cases "fin < p + 2")
      case True
      then show ?thesis using step_name [OF at name] n D(1) h by simp
    next
      case False
      then show ?thesis using step_name [OF at name] forward_ok [OF at _ p h f] by simp
    qed
  next
    case dots
    define q where "q = dots_end s p"
    have q: "p + 2 \<le> q" "q \<le> length s" using dots_end_bounds [of p s] dots(1) by (auto simp: q_def)
    have d: "s ! j = dot" if "p \<le> j" "j < q" for j
      using that dots dots_end_dots [of p j s] by (cases "j = p"; cases "j = p + 1") (auto simp: q_def)
    have r: "0 < p" using h dots(1,2) by (cases p; cases s) auto
    have f: "q \<le> i" if "climbs s i" "p \<le> i" for i using that d [of i] by (cases "i < q") (auto simp: climbs_def)
    consider "q \<ge> fin" | "q < fin" "s ! (p - 1) \<noteq> slash" | "q < fin" "s ! (p - 1) = slash" by linarith
    then show ?thesis
    proof cases
      case 1
      then have e: "q = length s" "fin = length s" using q D(4) by auto
      have "\<not> climbs s i" for i
      proof
        assume i: "climbs s i"
        have "i + 1 = p" using c [OF i] f [OF i] len [OF i] e(1) by linarith
        then show False using i d [of "i + 3"] len [OF i] e(1) by (auto simp: climbs_def)
      qed
      then show ?thesis using step_dots(1) [OF at dots] 1 D(1) h by (auto simp: q_def)
    next
      case 2
      have "q \<le> i + 1" if "climbs s i" for i
      proof -
        have "i + 1 \<noteq> p" using 2(2) that by (auto simp: climbs_def)
        then show ?thesis using c [OF that] f [OF that] by simp
      qed
      then show ?thesis using step_dots(2) [OF at dots] 2 r forward_ok [OF at _ p h, of q] q(1) by (auto simp: q_def)
    next
      case 3
      obtain r b' m' where s: "path_step b p fin = Some (Continue b' r (length s - (q - r)))" "r < p" "r = 0 \<or> s ! r = slash"
        "path_at b' (take r s @ drop q s) m' (length s - (q - r))"
        using step_dots(3) [OF at dots _ r] 3 by (auto simp: q_def)
      have l: "r \<le> q" "q \<le> length s" using q s(2) by auto
      have stop: "q < length s \<Longrightarrow> s ! q \<noteq> dot" using dots_end_stop [of s p] by (simp add: q_def)
      have "r \<le> k + 1" if k: "climbs (take r s @ drop q s) k" for k
      proof (rule ccontr)
        assume n: "\<not> r \<le> k + 1"
        then have kr: "k < r" "k + 1 < r" by auto
        have "\<not> climbs s k" using c [of k] kr s(2) by auto
        with climbs_cut [OF k kr(1) l] kr(2) stop have "r = k + 3" "s ! k = slash" "s ! (k + 1) = dot" "s ! (k + 2) = dot" by auto
        moreover from this have "s ! r = slash" using s(3) by simp
        ultimately have "climbs s k" using s(2) dots(1) by (simp add: climbs_def)
        with \<open>\<not> climbs s k\<close> show False ..
      qed
      moreover have "take r s @ drop q s = [] \<or> hd (take r s @ drop q s) \<noteq> dot"
      proof (cases "r = 0")
        case True
        then show ?thesis using stop by (cases "q < length s") (auto simp: hd_drop_conv_nth)
      next
        case False
        then show ?thesis using h s(2) dots(1) by (cases s; cases r) auto
      qed
      moreover have "length (take r s @ drop q s) < length s" using l q(1) s(2) by simp
      ultimately show ?thesis using s(1,4) by (auto simp: path_inv_def smaller_def)
    qed
  qed
qed

lemma path_loop_ok:
  "path_at b s m fin \<Longrightarrow> path_inv s p \<Longrightarrow>
   \<exists>b' s'. path_loop b p fin = Some b' \<and> buf_rep b' s' \<and> (\<forall>i. \<not> climbs s' i) \<and> (s' = [] \<or> hd s' \<noteq> dot) \<and> length s' \<le> length s"
proof (induction "(length s, fin - p)" arbitrary: b s m fin p rule: wf_induct_rule [OF wf_lex_prod [OF wf_less_than wf_less_than]])
  case (1 s fin p b m)
  show ?case
  proof (cases "p < fin")
    case False
    have "\<not> climbs s i" for i
    proof
      assume i: "climbs s i"
      then have "p \<le> i + 1" "i + 3 < length s" using 1(3) by (auto simp: path_inv_def climbs_def)
      then show False using False path_atD(4) [OF 1(2)] by simp
    qed
    then show ?thesis using False 1(2,3) by (subst path_loop.simps) (auto simp: path_at_def path_inv_def)
  next
    case True
    obtain n where n: "path_step b p fin = Some n" "step_ok s p fin n" using path_step_ok [OF 1(2) True 1(3)] by blast
    show ?thesis
    proof (cases n)
      case (Return b')
      then show ?thesis using n True by (subst path_loop.simps) auto
    next
      case (Continue b' q fin')
      obtain s' m' where s': "path_at b' s' m' fin'" "path_inv s' q" "length s' \<le> length s" "smaller (length s', fin' - q) (length s, fin - p)"
        using n(2) Continue by auto
      have "path_loop b p fin = path_loop b' q fin'" using n(1) Continue True by (subst path_loop.simps) simp
      then show ?thesis using 1(1) [OF s'(4) [unfolded smaller_def] s'(1,2)] s'(3) by fastforce
    qed
  qed
qed

lemma climbs_text: "climbs (u @ [slash, dot, dot, slash] @ v) (length u)"
  by (simp add: climbs_def nth_append)

declare path_loop.simps [code]

definition shortened :: "string \<Rightarrow> byte list option" where
  "shortened s = map_option (\<lambda>(_, b). buf_str b) (http2d_path_short (http2d_buffer_fake_str s))"

subsection \<open>Properties\<close>

text \<open>C27: \<open>http2d_path_short\<close> ends for every path that does not begin with a dot, never touches memory outside the chunk of
  the buffer although it may look behind the end of the text, and leaves a path without \<open>/../\<close>, not longer than the given
  one and again without a dot at its beginning.\<close>

theorem http2d_path_short_safe:
  assumes "buf_rep b s" "buf b \<noteq> None" "0 \<notin> set s" "s = [] \<or> hd s \<noteq> dot"
  shows "\<exists>b' s'. http2d_path_short b = Some (ret_ok, b') \<and> buf_rep b' s' \<and> length s' \<le> length s \<and>
    (s' = [] \<or> hd s' \<noteq> dot) \<and> (\<forall>u v. s' \<noteq> u @ lit ''/../'' @ v)"
proof -
  obtain m where "buf b = Some m" using assms(2) by auto
  then have "path_at b s m (length s)" using path_atI [OF assms(1) _ assms(3)] by blast
  moreover have "path_inv s 0" using assms(4) by (simp add: path_inv_def)
  ultimately obtain b' s' where b': "path_loop b 0 (length s) = Some b'" "buf_rep b' s'" "\<forall>i. \<not> climbs s' i"
    "s' = [] \<or> hd s' \<noteq> dot" "length s' \<le> length s" using path_loop_ok by blast
  have "lit ''/../'' = [slash, dot, dot, slash]" by (simp add: lit_def chr_def)
  then have "\<forall>u v. s' \<noteq> u @ lit ''/../'' @ v" using b'(3) climbs_text by metis
  with b' buf_rep_len [OF assms(1)] show ?thesis by (auto simp: http2d_path_short_def)
qed

theorem http2d_path_short_safe_witness:
  "\<exists>b' s'. http2d_path_short (http2d_buffer_fake_str ''/a/../../etc/passwd'') = Some (ret_ok, b') \<and> buf_rep b' s' \<and>
    (\<forall>u v. s' \<noteq> u @ lit ''/../'' @ v)"
proof -
  have "buf_rep (http2d_buffer_fake_str ''/a/../../etc/passwd'') (lit ''/a/../../etc/passwd'')" by (rule http2d_buffer_fake_str_rep) simp
  moreover have "0 \<notin> set (lit ''/a/../../etc/passwd'')" "hd (lit ''/a/../../etc/passwd'') \<noteq> dot" by (simp_all add: lit_def chr_def)
  ultimately show ?thesis using http2d_path_short_safe [of "http2d_buffer_fake_str ''/a/../../etc/passwd''"]
    by (simp add: http2d_buffer_fake_str_def http2d_buffer_fake_def) blast
qed

text \<open>What \<open>http2d_path_short\<close> does not do: a last segment \<open>..\<close> stays, unless a segment \<open>.\<close> has been removed before, when the
  whole path is emptied; and a name that begins with two dots is cut like the parent directory.\<close>

theorem http2d_path_short_gaps:
  "shortened ''/a/..'' = Some (lit ''/a/..'') \<and> shortened ''/a/./..'' = Some [] \<and> shortened ''/a/..b/c'' = Some (lit ''b/c'')"
  by code_simp


end
