(* ===== verification/Util.thy ===== *)
theory Util
  imports Buffer_Edit Buffer_Num
begin

text \<open>
  The functions of \<^verbatim>\<open>src/src/util.c\<close> on texts: numbers, searching, the end of an HTTP header and its lines, host names,
  and the vectors of a gathering write. A pointer into a text is the offset from its first byte.
\<close>

subsection \<open>Numbers\<close>

text \<open>\<open>strtol\<close> with base 10: blanks, a sign, digits; the value is clipped to the range of \<open>long\<close>, and the second component
  says whether \<open>errno\<close> has become \<open>ERANGE\<close>. Without digits the value is 0 and \<open>errno\<close> is left alone.\<close>

definition isspace :: "byte \<Rightarrow> bool" where
  "isspace c \<longleftrightarrow> c = 32 \<or> (9 \<le> c \<and> c \<le> 13)"

definition isdigit :: "byte \<Rightarrow> bool" where
  "isdigit c \<longleftrightarrow> 48 \<le> c \<and> c \<le> 57"

fun read_dec :: "byte list \<Rightarrow> nat \<Rightarrow> nat" where
  "read_dec [] n = n"
| "read_dec (c # s) n = (if isdigit c then read_dec s (10 * n + (unat c - 48)) else n)"

definition strtol :: "byte list \<Rightarrow> int \<times> bool" where
  "strtol s =
     (let s = dropWhile isspace s;
          v = (case s of [] \<Rightarrow> 0
               | c # t \<Rightarrow> if c = chr CHR ''-'' then - int (read_dec t 0)
                         else if c = chr CHR ''+'' then int (read_dec t 0)
                         else int (read_dec s 0))
      in if v < - (2 ^ 63) then (- (2 ^ 63), True)
         else if v \<ge> 2 ^ 63 then (2 ^ 63 - 1, True)
         else (v, False))"

text \<open>A \<open>long\<close> assigned to an \<open>int\<close>.\<close>

definition int_of_long :: "int \<Rightarrow> int" where
  "int_of_long v = sint (word_of_int v :: 32 word)"

text \<open>The second component is what is stored through \<open>ret_value\<close>, if anything.\<close>

definition http2d_atoi :: "block \<Rightarrow> nat \<Rightarrow> (ret_t \<times> int option) option" where
  "http2d_atoi m i = do {
     s \<leftarrow> cstr m i;
     (let (v, range) = strtol s; tmp = int_of_long v
      in if range then Some (ret_error, None) else Some (ret_ok, Some tmp)) }"

definition http2d_atob :: "block \<Rightarrow> nat \<Rightarrow> (ret_t \<times> bool option) option" where
  "http2d_atob m i = do {
     (ret, tmp) \<leftarrow> http2d_atoi m i;
     if ret \<noteq> ret_ok then Some (ret, None) else Some (ret_ok, map_option (\<lambda>t. t \<noteq> 0) tmp) }"

definition atoi :: "block \<Rightarrow> nat \<Rightarrow> int option" where
  "atoi m i = do { s \<leftarrow> cstr m i; Some (int_of_long (fst (strtol s))) }"

subsection \<open>Searching\<close>

definition http2d_min_str :: "nat option \<Rightarrow> nat option \<Rightarrow> nat option" where
  "http2d_min_str s1 s2 =
     (case (s1, s2) of (None, None) \<Rightarrow> None | (Some a, None) \<Rightarrow> Some a | (None, Some b) \<Rightarrow> Some b
      | (Some a, Some b) \<Rightarrow> if a < b then Some a else Some b)"

definition http2d_max_str :: "nat option \<Rightarrow> nat option \<Rightarrow> nat option" where
  "http2d_max_str s1 s2 =
     (case (s1, s2) of (None, None) \<Rightarrow> None | (Some a, None) \<Rightarrow> Some a | (None, Some b) \<Rightarrow> Some b
      | (Some a, Some b) \<Rightarrow> if a > b then Some a else Some b)"

text \<open>The macro \<open>HTTP2D_CHAR_TO_LOWER\<close>.\<close>

definition HTTP2D_CHAR_TO_LOWER :: "byte \<Rightarrow> byte" where
  "HTTP2D_CHAR_TO_LOWER c = c OR 32"

function casestr_loop :: "block \<Rightarrow> nat \<Rightarrow> nat \<Rightarrow> byte \<Rightarrow> block \<Rightarrow> nat \<Rightarrow> nat option option" where
  "casestr_loop m s slen c pat plen =
     (if slen < 1 then Some None
      else do {
        sc \<leftarrow> blk_get m s;
        if sc = 0 then Some None
        else if HTTP2D_CHAR_TO_LOWER sc \<noteq> HTTP2D_CHAR_TO_LOWER c then casestr_loop m (s + 1) (slen - 1) c pat plen
        else if plen > slen - 1 then Some None
        else do {
          r \<leftarrow> strncmp_by tolower (drop (s + 1) m) pat plen;
          if r \<noteq> 0 then casestr_loop m (s + 1) (slen - 1) c pat plen else Some (Some s) } })"
  by pat_completeness auto
termination by (relation "measure (\<lambda>(m, s, slen, c, pat, plen). slen)") auto

definition strncasestrn :: "block \<Rightarrow> nat \<Rightarrow> nat \<Rightarrow> block option \<Rightarrow> nat \<Rightarrow> nat option option" where
  "strncasestrn m s slen pat plen =
     (case pat of None \<Rightarrow> Some (Some s)
      | Some f \<Rightarrow>
          if plen = 0 then Some (Some s)
          else do {
            c \<leftarrow> blk_get f 0;
            if c = 0 then Some (Some s) else casestr_loop m s slen c (drop 1 f) (plen - 1) })"

definition strncasestr :: "block \<Rightarrow> nat \<Rightarrow> block \<Rightarrow> nat \<Rightarrow> nat option option" where
  "strncasestr m s pat slen = do { f \<leftarrow> cstr pat 0; strncasestrn m s slen (Some pat) (length f) }"

text \<open>The results are the offset of the arguments, if there are any, and their length. \<open>init_pos\<close> is not negative.\<close>

definition http2d_split_arguments :: "buffer \<Rightarrow> nat \<Rightarrow> (ret_t \<times> nat option \<times> int) option" where
  "http2d_split_arguments request init_pos = do {
     m \<leftarrow> buf request;
     s \<leftarrow> cstr m init_pos;
     (case strchr s (chr CHR ''?'') of
        None \<Rightarrow> Some (ret_ok, None, 0)
      | Some k \<Rightarrow> let a = init_pos + k + 1 in Some (ret_ok, Some a, int (len request) - int a)) }"

subsection \<open>HTTP headers\<close>

definition MAX_HEADER_LEN :: nat where "MAX_HEADER_LEN = 16 * 1024"

definition CR :: byte where "CR = 13"
definition LF :: byte where "LF = 10"
definition SP :: byte where "SP = 32"
definition HT :: byte where "HT = 9"

text \<open>How the inner loop over line ends is left: the separator is found, it is refused, or the text goes on at a position.\<close>

datatype run_end = Separator nat nat | Refused | Goes_on nat

function eol_run :: "block \<Rightarrow> nat \<Rightarrow> nat \<Rightarrow> nat \<Rightarrow> nat \<Rightarrow> nat \<Rightarrow> run_end option" where
  "eol_run m fin begin p cr_n lf_n =
     (if p < fin then do {
        c \<leftarrow> blk_get m p;
        if c = LF \<and> lf_n + 1 = 2 then Some (Separator begin ((p - begin) + 1))
        else if c \<noteq> LF \<and> c \<noteq> CR then Some (Goes_on p)
        else (let lf_n = (if c = LF then lf_n + 1 else lf_n); cr_n = (if c = LF then cr_n else cr_n + 1)
              in if (cr_n = 1 \<and> lf_n = 2) \<or> (cr_n = 2 \<and> lf_n = 0) then Some Refused
                 else eol_run m fin begin (p + 1) cr_n lf_n) }
      else Some (Goes_on p))"
  by pat_completeness auto
termination by (relation "measure (\<lambda>(m, fin, begin, p, cr_n, lf_n). fin - p)") auto

text \<open>The results are the values stored through \<open>end\<close> and \<open>sep_len\<close>.\<close>

partial_function (option) header_end_loop :: "block \<Rightarrow> nat \<Rightarrow> nat \<Rightarrow> (ret_t \<times> (nat \<times> nat) option) option" where
  "header_end_loop m fin p =
     (if p < fin then do {
        c \<leftarrow> blk_get m p;
        if c = CR \<or> c = LF then do {
          r \<leftarrow> eol_run m fin p p 0 0;
          (case r of
             Separator b n \<Rightarrow> Some (ret_ok, Some (b, n))
           | Refused \<Rightarrow> Some (ret_error, None)
           | Goes_on p \<Rightarrow> header_end_loop m fin (p + 1)) }
        else header_end_loop m fin (p + 1) }
      else Some (ret_not_found, None))"

definition http2d_find_header_end_cstr :: "block option \<Rightarrow> int \<Rightarrow> (ret_t \<times> (nat \<times> nat) option) option" where
  "http2d_find_header_end_cstr c_str c_len =
     (case c_str of None \<Rightarrow> Some (ret_not_found, None)
      | Some m \<Rightarrow>
          if c_len \<le> 0 then Some (ret_not_found, None)
          else header_end_loop m (nat (min c_len (int MAX_HEADER_LEN))) 0)"

definition http2d_find_header_end :: "buffer \<Rightarrow> (ret_t \<times> (nat \<times> nat) option) option" where
  "http2d_find_header_end b = http2d_find_header_end_cstr (buf b) (s32 (len b))"


text \<open>\<open>start\<close> is where the whole line begins, \<open>end2\<close> where the search goes on.\<close>

partial_function (option) next_line_loop :: "block \<Rightarrow> nat \<Rightarrow> nat \<Rightarrow> nat option option" where
  "next_line_loop m start end2 = do {
     s \<leftarrow> cstr m end2;
     (case strchr s LF of
        None \<Rightarrow> Some None
      | Some k \<Rightarrow> do {
          end1 \<leftarrow> (if end2 + k \<noteq> start then do { c \<leftarrow> blk_get m (end2 + k - 1); Some (if c = CR then end2 + k - 1 else end2 + k) }
                 else Some (end2 + k));
          c \<leftarrow> blk_get m (end2 + k + 1);
          if c = SP \<or> c = HT then next_line_loop m start (end2 + k + 1) else Some (Some end1) }) }"

definition http2d_header_get_next_line :: "block \<Rightarrow> nat \<Rightarrow> nat option option" where
  "http2d_header_get_next_line m string = next_line_loop m string string"

partial_function (option) skip_eols :: "block \<Rightarrow> nat \<Rightarrow> nat option" where
  "skip_eols m p = do { c \<leftarrow> blk_get m p; if c = CR \<or> c = LF then skip_eols m (p + 1) else Some p }"

partial_function (option) del_entry_loop :: "buffer \<Rightarrow> block \<Rightarrow> block \<Rightarrow> nat \<Rightarrow> nat \<Rightarrow> nat \<Rightarrow> (ret_t \<times> buffer) option" where
  "del_entry_loop header m header_name header_name_len header_end begin =
     (if begin < header_end then do {
        e \<leftarrow> http2d_header_get_next_line m begin;
        (case e of None \<Rightarrow> Some (ret_not_found, header)
         | Some fin \<Rightarrow> do {
             r \<leftarrow> strncmp_by tolower (drop begin m) header_name header_name_len;
             fin \<leftarrow> skip_eols m fin;
             if r = 0 then do {
               (_, header) \<leftarrow> http2d_buffer_remove_chunk header begin (u32 (fin - begin));
               Some (ret_ok, header) }
             else del_entry_loop header m header_name header_name_len header_end fin }) }
      else Some (ret_not_found, header))"

definition http2d_header_del_entry :: "buffer \<Rightarrow> block \<Rightarrow> nat \<Rightarrow> (ret_t \<times> buffer) option" where
  "http2d_header_del_entry header header_name header_name_len =
     (case buf header of
        None \<Rightarrow> if len header > 0 then None else Some (ret_not_found, header)
      | Some m \<Rightarrow> del_entry_loop header m header_name header_name_len (len header) 0)"

subsection \<open>Host names\<close>

definition strrchr :: "byte list \<Rightarrow> byte \<Rightarrow> nat option" where
  "strrchr s c = map_option (\<lambda>k. length s - 1 - k) (strchr (rev s) c)"

text \<open>The code that is compiled with \<open>HAVE_IPV6\<close>. The second component is what is stored through \<open>port\<close>, if anything.\<close>

definition http2d_parse_host :: "heap \<Rightarrow> buffer \<Rightarrow> buffer \<Rightarrow> (ret_t \<times> nat option \<times> buffer) option" where
  "http2d_parse_host h b host = do {
     m \<leftarrow> buf b;
     s \<leftarrow> cstr m 0;
     (case strchr s (chr CHR '':'') of
        None \<Rightarrow> do { (_, host) \<leftarrow> http2d_buffer_add_buffer h host b; Some (ret_ok, None, host) }
      | Some colon \<Rightarrow>
          (case strchr (drop (colon + 1) s) (chr CHR '':'') of
             None \<Rightarrow> do {
               port \<leftarrow> atoi m (colon + 1);
               (_, host) \<leftarrow> http2d_buffer_add h host (Ext m) colon;
               Some (ret_ok, Some (nat (port mod 2 ^ 32)), host) }
           | Some p \<Rightarrow>
               if hd s \<noteq> chr CHR ''['' then do { (_, host) \<leftarrow> http2d_buffer_add_buffer h host b; Some (ret_ok, None, host) }
               else (case strrchr s (chr CHR '']'') of
                 None \<Rightarrow> Some (ret_error, None, host)
               | Some colon \<Rightarrow> do {
                   c \<leftarrow> blk_get m (colon + 1);
                   if c \<noteq> chr CHR '':'' then Some (ret_error, None, host)
                   else do {
                     port \<leftarrow> atoi m (colon + 2);
                     (_, host) \<leftarrow> http2d_buffer_add h host (Ext (drop 1 m)) (colon - 1);
                     Some (ret_ok, Some (nat (port mod 2 ^ 32)), host) } }))) }"

fun colons_loop :: "block \<Rightarrow> nat list \<Rightarrow> nat \<Rightarrow> bool option" where
  "colons_loop m [] colons = Some False"
| "colons_loop m (i # is) colons = do {
     c \<leftarrow> blk_get m i;
     if c = chr CHR '':'' then (if colons + 1 = 2 then Some True else colons_loop m is (colons + 1))
     else colons_loop m is colons }"

definition http2d_string_is_ipv6 :: "buffer \<Rightarrow> bool option" where
  "http2d_string_is_ipv6 ip = (if len ip = 0 then Some False else do { m \<leftarrow> buf ip; colons_loop m [0..<len ip] 0 })"

subsection \<open>Vectors of a gathering write\<close>

text \<open>\<open>struct iovec\<close>: an address and a length.\<close>

record iovec =
  iov_base :: nat
  iov_len :: nat

text \<open>\<open>dest\<close> is the part of the array \<open>dest\<close> that has been filled, so that \<open>j\<close> is its length. The number of vectors is a \<open>uint16_t\<close> in C; it
  is the length of the list.\<close>

fun skip_sent_loop :: "iovec list \<Rightarrow> nat \<Rightarrow> nat \<Rightarrow> iovec list \<Rightarrow> iovec list" where
  "skip_sent_loop [] sent tot dest = dest"
| "skip_sent_loop (v # vs) sent tot dest =
     (if sent \<ge> u64 (tot + iov_len v) then skip_sent_loop vs sent (u64 (tot + iov_len v)) dest
      else if length dest > 0 then skip_sent_loop vs sent tot (dest @ [v])
      else skip_sent_loop vs sent tot
        (dest @ [\<lparr>iov_base = u64 (iov_base v + sub64 sent tot), iov_len = sub64 (iov_len v) (sub64 sent tot)\<rparr>]))"

definition http2d_iovec_skip_sent :: "iovec list \<Rightarrow> nat \<Rightarrow> ret_t \<times> iovec list" where
  "http2d_iovec_skip_sent orig sent = (ret_ok, skip_sent_loop orig sent 0 [])"

fun was_sent_loop :: "iovec list \<Rightarrow> nat \<Rightarrow> nat \<Rightarrow> ret_t" where
  "was_sent_loop [] sent tot = ret_ok"
| "was_sent_loop (v # vs) sent tot =
     (let tot = u64 (tot + iov_len v) in if tot > sent then ret_eagain else was_sent_loop vs sent tot)"

definition http2d_iovec_was_sent :: "iovec list \<Rightarrow> nat \<Rightarrow> ret_t" where
  "http2d_iovec_was_sent orig sent = was_sent_loop orig sent 0"

end
