(* ===== verification/Config_Node.thy ===== *)
theory Config_Node
  imports Util
begin

text \<open>
  The tree of configuration keys, \<^verbatim>\<open>src/src/config_node.c\<close> and \<^verbatim>\<open>src/src/config_node.h\<close>. A node owns its children, which hang on
  its list \<open>child\<close>; a tree is a datatype, and a pointer to a node of it is the list of the positions on the way down from the
  root. A key such as \<open>vserver!10!nick\<close> names the children on that way, separated by exclamation marks.
\<close>

subsection \<open>Data\<close>

datatype config_node = Config_Node (cn_key: buffer) (cn_val: buffer) (cn_child: "config_node list")

type_synonym node_ptr = "nat list"

definition sizeof_config_node :: nat where "sizeof_config_node = 64"
definition sizeof_list_item :: nat where "sizeof_list_item = 24"

definition http2d_config_node_init :: "ret_t \<times> config_node" where
  "http2d_config_node_init = (ret_ok, Config_Node HTTP2D_BUF_INIT HTTP2D_BUF_INIT [])"

definition http2d_config_node_new :: "heap \<Rightarrow> ret_t \<times> config_node option" where
  "http2d_config_node_new h =
     (if \<not> malloc_ok h sizeof_config_node then (ret_nomem, None)
      else case http2d_config_node_init of (ret, n) \<Rightarrow> if ret \<noteq> ret_ok then (ret, None) else (ret_ok, Some n))"

fun node_at :: "config_node \<Rightarrow> node_ptr \<Rightarrow> config_node option" where
  "node_at n [] = Some n"
| "node_at n (i # p) = (if i < length (cn_child n) then node_at (cn_child n ! i) p else None)"

fun change_at :: "config_node \<Rightarrow> node_ptr \<Rightarrow> (config_node \<Rightarrow> config_node) \<Rightarrow> config_node option" where
  "change_at n [] f = Some (f n)"
| "change_at n (i # p) f =
     (if i < length (cn_child n)
      then do { c \<leftarrow> change_at (cn_child n ! i) p f; Some (Config_Node (cn_key n) (cn_val n) ((cn_child n)[i := c])) }
      else None)"

definition set_val :: "buffer \<Rightarrow> config_node \<Rightarrow> config_node" where
  "set_val v n = Config_Node (cn_key n) v (cn_child n)"

subsection \<open>Looking up and adding\<close>

text \<open>The position of the child among its siblings, if there is one. \<open>strcmp\<close> follows both pointers.\<close>

definition key_cstr :: "buffer \<Rightarrow> byte list option" where
  "key_cstr b = do { m \<leftarrow> buf b; cstr m 0 }"

fun search_child :: "config_node list \<Rightarrow> buffer \<Rightarrow> nat option option" where
  "search_child [] child = Some None"
| "search_child (entry # entries) child = do {
     s \<leftarrow> key_cstr (cn_key entry);
     t \<leftarrow> key_cstr child;
     if s = t then Some (Some 0) else do { i \<leftarrow> search_child entries child; Some (map_option Suc i) } }"

definition add_new_child :: "heap \<Rightarrow> config_node list \<Rightarrow> buffer \<Rightarrow> config_node list option option" where
  "add_new_child h entries key =
     (case http2d_config_node_new h of
        (_, None) \<Rightarrow> Some None
      | (_, Some n) \<Rightarrow> do {
          (_, k) \<leftarrow> http2d_buffer_add_buffer h (cn_key n) key;
          Some (Some (entries @ [Config_Node k (cn_val n) (cn_child n)])) })"

text \<open>The part of the key from \<open>begin\<close> up to the next exclamation mark, and where the part behind it begins.\<close>

definition next_part :: "heap \<Rightarrow> block \<Rightarrow> nat \<Rightarrow> buffer \<Rightarrow> (buffer \<times> nat option) option" where
  "next_part h key begin tmp = do {
     s \<leftarrow> cstr key begin;
     (case strchr s (chr CHR ''!'') of
        Some k \<Rightarrow> do { (_, tmp) \<leftarrow> http2d_buffer_add h tmp (Ext (drop begin key)) k; Some (tmp, Some (begin + k + 1)) }
      | None \<Rightarrow> do { (_, tmp) \<leftarrow> http2d_buffer_add h tmp (Ext (drop begin key)) (length s); Some (tmp, None) }) }"

text \<open>The loop goes down the tree; the call for the child stands for the next iteration.\<close>

partial_function (option) add_loop :: "heap \<Rightarrow> block \<Rightarrow> nat \<Rightarrow> buffer \<Rightarrow> buffer \<Rightarrow> config_node \<Rightarrow> (ret_t \<times> config_node) option" where
  "add_loop h key begin tmp val current = do {
     (tmp, next) \<leftarrow> next_part h key begin tmp;
     child \<leftarrow> search_child (cn_child current) tmp;
     entries \<leftarrow> (case child of Some i \<Rightarrow> Some (Some (cn_child current)) | None \<Rightarrow> add_new_child h (cn_child current) tmp);
     (case entries of
        None \<Rightarrow> Some (ret_error, current)
      | Some cs \<Rightarrow>
          (let i = (case child of Some i \<Rightarrow> i | None \<Rightarrow> length cs - 1) in do {
             tmp' \<leftarrow> http2d_buffer_clean tmp;
             (case next of
                None \<Rightarrow> do {
                  v \<leftarrow> http2d_buffer_clean (cn_val (cs ! i));
                  (_, v) \<leftarrow> http2d_buffer_add_buffer h v val;
                  Some (ret_ok, Config_Node (cn_key current) (cn_val current) (cs[i := set_val v (cs ! i)])) }
              | Some begin \<Rightarrow> do {
                  (ret, c) \<leftarrow> add_loop h key begin tmp' val (cs ! i);
                  Some (ret, Config_Node (cn_key current) (cn_val current) (cs[i := c])) }) })) }"

text \<open>\<open>reader\<close> is \<open>http2d_config_reader_parse\<close>.\<close>

definition http2d_config_node_add_buf ::
  "heap \<Rightarrow> (config_node \<Rightarrow> buffer \<Rightarrow> (ret_t \<times> config_node) option) \<Rightarrow> config_node \<Rightarrow> buffer \<Rightarrow> buffer \<Rightarrow> (ret_t \<times> config_node) option" where
  "http2d_config_node_add_buf h reader conf key val = do {
     inc \<leftarrow> http2d_buffer_cmp key (lit ''include'' @ [0]) 7;
     if inc = 0 then reader conf val
     else do {
       try \<leftarrow> http2d_buffer_cmp key (lit ''try_include'' @ [0]) 11;
       conf \<leftarrow> (if try = 0 then do { (_, conf) \<leftarrow> reader conf val; Some conf } else Some conf);
       k \<leftarrow> buf key;
       add_loop h k 0 HTTP2D_BUF_INIT val conf } }"

partial_function (option) get_loop :: "heap \<Rightarrow> block \<Rightarrow> nat \<Rightarrow> buffer \<Rightarrow> config_node \<Rightarrow> (ret_t \<times> node_ptr option) option" where
  "get_loop h key begin tmp current = do {
     (tmp, next) \<leftarrow> next_part h key begin tmp;
     child \<leftarrow> search_child (cn_child current) tmp;
     (case child of
        None \<Rightarrow> Some (ret_not_found, None)
      | Some i \<Rightarrow> do {
          tmp' \<leftarrow> http2d_buffer_clean tmp;
          (case next of
             None \<Rightarrow> Some (ret_ok, Some [i])
           | Some begin \<Rightarrow> do {
               (ret, p) \<leftarrow> get_loop h key begin tmp' (cn_child current ! i);
               Some (ret, map_option (Cons i) p) }) }) }"

text \<open>The second component is what is stored through \<open>entry\<close>.\<close>

definition http2d_config_node_get :: "heap \<Rightarrow> config_node \<Rightarrow> block \<Rightarrow> (ret_t \<times> node_ptr option) option" where
  "http2d_config_node_get h conf key = get_loop h key 0 HTTP2D_BUF_INIT conf"

definition http2d_config_node_get_buf :: "heap \<Rightarrow> config_node \<Rightarrow> buffer \<Rightarrow> (ret_t \<times> node_ptr option) option" where
  "http2d_config_node_get_buf h conf key = do { k \<leftarrow> buf key; http2d_config_node_get h conf k }"

text \<open>The children of a node are visited in order until the callback, which may change its own state, does not return
  \<open>ret_ok\<close>.\<close>

fun while_children :: "(config_node \<Rightarrow> 's \<Rightarrow> ret_t \<times> 's) \<Rightarrow> config_node list \<Rightarrow> 's \<Rightarrow> ret_t \<times> 's" where
  "while_children func [] s = (ret_ok, s)"
| "while_children func (c # cs) s =
     (case func c s of (ret, s) \<Rightarrow> if ret \<noteq> ret_ok then (ret, s) else while_children func cs s)"

definition http2d_config_node_while :: "config_node \<Rightarrow> (config_node \<Rightarrow> 's \<Rightarrow> ret_t \<times> 's) \<Rightarrow> 's \<Rightarrow> ret_t \<times> 's" where
  "http2d_config_node_while conf func s = while_children func (cn_child conf) s"

subsection \<open>Retrieving values\<close>

definition found :: "heap \<Rightarrow> config_node \<Rightarrow> block \<Rightarrow> (ret_t \<times> (node_ptr \<times> config_node) option) option" where
  "found h conf key = do {
     (ret, p) \<leftarrow> http2d_config_node_get h conf key;
     if ret \<noteq> ret_ok then Some (ret, None)
     else do { p \<leftarrow> p; n \<leftarrow> node_at conf p; Some (ret_ok, Some (p, n)) } }"

text \<open>The pointer to the value is the one to its node.\<close>

definition http2d_config_node_read :: "heap \<Rightarrow> config_node \<Rightarrow> block \<Rightarrow> (ret_t \<times> node_ptr option) option" where
  "http2d_config_node_read h conf key = do {
     (ret, r) \<leftarrow> found h conf key;
     if ret \<noteq> ret_ok then Some (ret, None) else Some (ret_ok, map_option fst r) }"

definition http2d_config_node_copy :: "heap \<Rightarrow> config_node \<Rightarrow> block \<Rightarrow> buffer \<Rightarrow> (ret_t \<times> buffer) option" where
  "http2d_config_node_copy h conf key b = do {
     (ret, r) \<leftarrow> http2d_config_node_read h conf key;
     if ret \<noteq> ret_ok then Some (ret, b)
     else do { p \<leftarrow> r; n \<leftarrow> node_at conf p; http2d_buffer_add_buffer h b (cn_val n) } }"

definition http2d_config_node_read_int :: "heap \<Rightarrow> config_node \<Rightarrow> block \<Rightarrow> (ret_t \<times> int option) option" where
  "http2d_config_node_read_int h conf key = do {
     (ret, r) \<leftarrow> found h conf key;
     if ret \<noteq> ret_ok then Some (ret, None)
     else do {
       (_, n) \<leftarrow> r;
       if http2d_buffer_is_empty (cn_val n) then Some (ret_not_found, None)
       else do {
         m \<leftarrow> buf (cn_val n);
         (ret, v) \<leftarrow> http2d_atoi m 0;
         if ret \<noteq> ret_ok then Some (ret_error, None) else Some (ret_ok, v) } } }"

text \<open>\<open>atol\<close> is \<open>strtol\<close> without a look at \<open>errno\<close>.\<close>

definition http2d_config_node_read_long :: "heap \<Rightarrow> config_node \<Rightarrow> block \<Rightarrow> (ret_t \<times> int option) option" where
  "http2d_config_node_read_long h conf key = do {
     (ret, r) \<leftarrow> found h conf key;
     if ret \<noteq> ret_ok then Some (ret, None)
     else do {
       (_, n) \<leftarrow> r;
       if http2d_buffer_is_empty (cn_val n) then Some (ret_not_found, None)
       else do { m \<leftarrow> buf (cn_val n); s \<leftarrow> cstr m 0; Some (ret_ok, Some (fst (strtol s))) } } }"

definition http2d_config_node_read_bool :: "heap \<Rightarrow> config_node \<Rightarrow> block \<Rightarrow> (ret_t \<times> bool option) option" where
  "http2d_config_node_read_bool h conf key = do {
     (ret, v) \<leftarrow> http2d_config_node_read_int h conf key;
     if ret \<noteq> ret_ok then Some (ret, None) else Some (ret_ok, map_option (\<lambda>t. t \<noteq> 0) v) }"

text \<open>The node that \<open>key\<close> names, or the given one if it is null.\<close>

definition named :: "heap \<Rightarrow> config_node \<Rightarrow> block option \<Rightarrow> (ret_t \<times> (node_ptr \<times> config_node) option) option" where
  "named h conf key = (case key of Some k \<Rightarrow> found h conf k | None \<Rightarrow> Some (ret_ok, Some ([], conf)))"

definition http2d_config_node_read_path :: "heap \<Rightarrow> config_node \<Rightarrow> block option \<Rightarrow> (ret_t \<times> node_ptr option \<times> config_node) option" where
  "http2d_config_node_read_path h conf key = do {
     (ret, r) \<leftarrow> named h conf key;
     if ret \<noteq> ret_ok then Some (ret, None, conf)
     else do {
       (p, n) \<leftarrow> r;
       if http2d_buffer_is_empty (cn_val n) then Some (ret_not_found, None, conf)
       else do {
         e \<leftarrow> http2d_buffer_end_char (cn_val n);
         v \<leftarrow> (if e \<noteq> chr CHR ''/'' then do { (_, v) \<leftarrow> http2d_buffer_add_str h (cn_val n) ''/''; Some v } else Some (cn_val n));
         conf \<leftarrow> change_at conf p (set_val v);
         Some (ret_ok, Some p, conf) } } }"

partial_function (option) skip_spaces :: "block \<Rightarrow> nat \<Rightarrow> nat option" where
  "skip_spaces m p = do { c \<leftarrow> blk_get m p; if c = chr CHR '' '' then skip_spaces m (p + 1) else Some p }"

text \<open>The callback gets the string that begins at the pointer. When it does not return \<open>ret_ok\<close> the comma is not put back.\<close>

partial_function (option) read_list_loop ::
  "block \<Rightarrow> nat \<Rightarrow> (byte list \<Rightarrow> 's \<Rightarrow> (ret_t \<times> 's) option) \<Rightarrow> 's \<Rightarrow> (ret_t \<times> block \<times> 's) option" where
  "read_list_loop m p func s = do {
     p \<leftarrow> skip_spaces m p;
     t \<leftarrow> cstr m p;
     (case strchr t (chr CHR '','') of
        None \<Rightarrow> do { (ret, s) \<leftarrow> func t s; Some (ret, m, s) }
      | Some k \<Rightarrow> do {
          m \<leftarrow> blk_set m (p + k) 0;
          t \<leftarrow> cstr m p;
          (ret, s) \<leftarrow> func t s;
          if ret \<noteq> ret_ok then Some (ret, m, s)
          else do { m \<leftarrow> blk_set m (p + k) (chr CHR '',''); read_list_loop m (p + k + 1) func s } }) }"

definition http2d_config_node_read_list ::
  "heap \<Rightarrow> config_node \<Rightarrow> block option \<Rightarrow> (byte list \<Rightarrow> 's \<Rightarrow> (ret_t \<times> 's) option) \<Rightarrow> 's \<Rightarrow> (ret_t \<times> 's \<times> config_node) option" where
  "http2d_config_node_read_list h conf key func s = do {
     (ret, r) \<leftarrow> named h conf key;
     if ret \<noteq> ret_ok then Some (ret, s, conf)
     else do {
       (p, n) \<leftarrow> r;
       if http2d_buffer_is_empty (cn_val n) then Some (ret_not_found, s, conf)
       else (case buf (cn_val n) of
         None \<Rightarrow> Some (ret_not_found, s, conf)
       | Some m \<Rightarrow> do {
           (ret, m, s) \<leftarrow> read_list_loop m 0 func s;
           conf \<leftarrow> change_at conf p (set_val ((cn_val n)\<lparr>buf := Some m\<rparr>));
           Some (ret, s, conf) }) } }"

text \<open>\<open>data\<close> is the list that is built, in order.\<close>

definition convert_to_list_step :: "heap \<Rightarrow> byte list \<Rightarrow> buffer list \<Rightarrow> (ret_t \<times> buffer list) option" where
  "convert_to_list_step h entry data =
     (case http2d_buffer_new h of
        (_, None) \<Rightarrow> Some (ret_nomem, data)
      | (_, Some b) \<Rightarrow> do {
          (_, b) \<leftarrow> http2d_buffer_add h b (Ext (entry @ [0])) (length entry);
          Some (if malloc_ok h sizeof_list_item then (ret_ok, data @ [b]) else (ret_nomem, data)) })"

definition http2d_config_node_convert_list ::
  "heap \<Rightarrow> config_node \<Rightarrow> block option \<Rightarrow> buffer list \<Rightarrow> (ret_t \<times> buffer list \<times> config_node) option" where
  "http2d_config_node_convert_list h conf key data = http2d_config_node_read_list h conf key (convert_to_list_step h) data"

end
