(* ===== verification/Config_Reader.thy ===== *)
theory Config_Reader
  imports Config_Node List_Links
begin

text \<open>
  The reader of configuration files, \<^verbatim>\<open>src/src/config_reader.c\<close>, with \<open>http2d_buffer_read_file\<close> of \<^verbatim>\<open>src/src/buffer.c\<close>: lines of the form
  \<open>key = value\<close> are added to the tree, whose lists are then sorted and checked. The file system is a parameter. Files include one
  another, so that the reader may call itself without end; the depth of inclusion is a parameter, and a reader whose depth is
  used up has no result.
\<close>

subsection \<open>Files\<close>

text \<open>What \<open>stat\<close> says of a path (the size of a regular file; the names in a directory, if it can be opened), and what \<open>open\<close> and \<open>read\<close>
  make of it: no descriptor, an error, or at most as many bytes as asked for.\<close>

datatype inode = Regular nat | Directory "byte list list option" | Special

record files =
  stat_path :: "byte list \<Rightarrow> inode option"
  read_bytes :: "byte list \<Rightarrow> nat \<Rightarrow> byte list option option"

definition http2d_buffer_read_file :: "heap \<Rightarrow> files \<Rightarrow> buffer \<Rightarrow> byte list \<Rightarrow> (ret_t \<times> buffer) option" where
  "http2d_buffer_read_file h fs b filename =
     (case stat_path fs filename of
        Some (Regular st_size) \<Rightarrow>
          (case http2d_buffer_ensure_size h b (u64 (len b + st_size + 1)) of (ret, b) \<Rightarrow>
             if ret \<noteq> ret_ok then Some (ret, b)
             else (case read_bytes fs filename st_size of
               None \<Rightarrow> Some (ret_error, b)
             | Some None \<Rightarrow> do { m \<leftarrow> buf b; m \<leftarrow> blk_set m (len b) 0; Some (ret_error, b\<lparr>buf := Some m\<rparr>) }
             | Some (Some bs) \<Rightarrow> do {
                 m \<leftarrow> buf b;
                 m \<leftarrow> blk_write m (len b) bs;
                 m \<leftarrow> blk_set m (u32 (len b + length bs)) 0;
                 Some (ret_ok, b\<lparr>buf := Some m, len := u32 (len b + length bs)\<rparr>) }))
      | _ \<Rightarrow> Some (ret_error, b))"

subsection \<open>Sorting and checking\<close>

text \<open>The number a key begins with, as an \<open>int\<close>.\<close>

definition node_num :: "config_node \<Rightarrow> int option" where
  "node_num c = do { s \<leftarrow> key_cstr (cn_key c); Some (int_of_long (fst (strtol s))) }"

text \<open>The comparison follows the keys, which are strings whenever it is called. The differences of \<open>int\<close>s wrap around.\<close>

definition cmp_num :: "config_node \<Rightarrow> config_node \<Rightarrow> int" where
  "cmp_num a b =
     (let an = the (node_num a); bn = the (node_num b)
      in if an = bn then 0 else if an < bn then int_of_long (bn - an) else int_of_long (- (an - bn)))"

text \<open>The assignment in \<open>(re == 0) && (errno = EINVAL)\<close> is always true.\<close>

fun all_num :: "config_node list \<Rightarrow> bool option" where
  "all_num [] = Some True"
| "all_num (c # cs) = do { re \<leftarrow> node_num c; if re = 0 then Some False else all_num cs }"

text \<open>The list of the children in the memory of links: its head is at address 0 and the child at position \<open>i\<close> at address \<open>i + 1\<close>. What
  the list holds after it has been sorted is read off from its head.\<close>

definition child_links :: "nat \<Rightarrow> list_mem" where
  "child_links n a =
     (if a \<le> n then Some \<lparr>le_next = Some (if a = n then 0 else a + 1), le_prev = Some (if a = 0 then n else a - 1)\<rparr> else None)"

fun walk :: "list_mem \<Rightarrow> lptr \<Rightarrow> nat \<Rightarrow> lptr list option" where
  "walk m a 0 = Some []"
| "walk m a (Suc k) = do { e \<leftarrow> m a; b \<leftarrow> le_next e; bs \<leftarrow> walk m b k; Some (b # bs) }"

definition child_order :: "config_node list \<Rightarrow> lptr list option" where
  "child_order cs = do {
     m \<leftarrow> http2d_list_sort (child_links (length cs)) 0 (\<lambda>a b. cmp_num (cs ! (a - 1)) (cs ! (b - 1)));
     walk m 0 (length cs) }"

text \<open>The order of the children depends on their keys only, which the calls for the children leave alone.\<close>

fun sort_lists :: "config_node \<Rightarrow> config_node option" where
  "sort_lists (Config_Node k v cs) = do {
     num \<leftarrow> all_num cs;
     order \<leftarrow> (if num then child_order cs else Some [1..<Suc (length cs)]);
     cs \<leftarrow> those (map sort_lists cs);
     Some (Config_Node k v (map (\<lambda>a. cs ! (a - 1)) order)) }"

fun check_pairs :: "config_node list \<Rightarrow> (nat \<times> nat) list \<Rightarrow> ret_t option" where
  "check_pairs cs [] = Some ret_ok"
| "check_pairs cs ((i, j) # ps) =
     (if i = j then check_pairs cs ps
      else do {
        re \<leftarrow> http2d_buffer_case_cmp_buf (cn_key (cs ! i)) (cn_key (cs ! j));
        if re = 0 then Some ret_error else check_pairs cs ps })"

definition check_config_node_sanity :: "config_node \<Rightarrow> ret_t option" where
  "check_config_node_sanity conf =
     check_pairs (cn_child conf) (List.product [0..<length (cn_child conf)] [0..<length (cn_child conf)])"

subsection \<open>Lines\<close>

partial_function (option) skip_white :: "block \<Rightarrow> nat \<Rightarrow> nat \<Rightarrow> nat option" where
  "skip_white m eof begin =
     (if begin < eof then do {
        c \<leftarrow> blk_get m begin;
        if c = 32 \<or> c = 9 \<or> c = 13 \<or> c = 10 then skip_white m eof (begin + 1) else Some begin }
      else Some begin)"

definition find_eol :: "block \<Rightarrow> nat \<Rightarrow> nat \<Rightarrow> nat option" where
  "find_eol m eof begin = do {
     s \<leftarrow> cstr m begin;
     Some (case http2d_min_str (map_option ((+) begin) (strchr s 10)) (map_option ((+) begin) (strchr s 13)) of
             None \<Rightarrow> eof | Some e \<Rightarrow> e) }"

text \<open>\<open>while (*tmp == ' ') tmp--;\<close>\<close>

fun key_end :: "block \<Rightarrow> nat \<Rightarrow> nat option" where
  "key_end m q = do { c \<leftarrow> blk_get m q; if c \<noteq> 32 then Some q else if q = 0 then None else key_end m (q - 1) }"

fun val_end :: "block \<Rightarrow> nat \<Rightarrow> nat \<Rightarrow> nat option" where
  "val_end m tmp n =
     (if n \<ge> 1 then do { c \<leftarrow> blk_get m (tmp + n - 1); if c = 32 then val_end m tmp (n - 1) else Some n } else Some n)"

declare key_end.simps [simp del] val_end.simps [simp del]

type_synonym reader = "config_node \<Rightarrow> buffer \<Rightarrow> (ret_t \<times> config_node) option"

definition parse_line ::
  "heap \<Rightarrow> reader \<Rightarrow> block \<Rightarrow> nat \<Rightarrow> buffer \<Rightarrow> buffer \<Rightarrow> config_node \<Rightarrow> (ret_t \<times> buffer \<times> buffer \<times> config_node) option" where
  "parse_line h reader m begin key val conf = do {
     s \<leftarrow> cstr m begin;
     (case strstr s (lit '' = '') of
        None \<Rightarrow> Some (ret_error, key, val, conf)
      | Some e \<Rightarrow> do {
          tmp \<leftarrow> key_end m (begin + e);
          (_, key) \<leftarrow> http2d_buffer_add h key (Ext (drop begin m)) (sub64 (tmp + 1) begin);
          tmp \<leftarrow> skip_spaces m (begin + e + 3);
          t \<leftarrow> cstr m tmp;
          val_len \<leftarrow> val_end m tmp (u32 (length t));
          (_, val) \<leftarrow> http2d_buffer_add h val (Ext (drop tmp m)) val_len;
          (ret, conf) \<leftarrow> http2d_config_node_add_buf h reader conf key val;
          Some (ret, key, val, conf) }) }"

text \<open>What an iteration does with the line from \<open>begin\<close> to \<open>eol\<close>.\<close>

definition line_part ::
  "heap \<Rightarrow> reader \<Rightarrow> block \<Rightarrow> nat \<Rightarrow> nat \<Rightarrow> buffer \<Rightarrow> buffer \<Rightarrow> config_node \<Rightarrow> (ret_t \<times> block \<times> buffer \<times> buffer \<times> config_node) option" where
  "line_part h reader m begin eol key val conf =
     (if int eol - int begin \<le> 4 then Some (ret_ok, m, key, val, conf)
      else do {
        m \<leftarrow> blk_set m eol 0;
        c \<leftarrow> blk_get m begin;
        if c \<noteq> chr CHR ''#'' then do {
          (ret, key, val, conf) \<leftarrow> parse_line h reader m begin key val conf;
          Some (ret, m, key, val, conf) }
        else Some (ret_ok, m, key, val, conf) })"

partial_function (option) parse_loop ::
  "heap \<Rightarrow> reader \<Rightarrow> nat \<Rightarrow> block \<Rightarrow> nat \<Rightarrow> buffer \<Rightarrow> buffer \<Rightarrow> config_node \<Rightarrow> (ret_t \<times> block \<times> config_node) option" where
  "parse_loop h reader eof m begin key val conf = do {
     begin \<leftarrow> skip_white m eof begin;
     eol \<leftarrow> find_eol m eof begin;
     (ret, m, key, val, conf) \<leftarrow> line_part h reader m begin eol key val conf;
     if ret \<noteq> ret_ok then Some (ret_error, m, conf)
     else if eol + 1 \<ge> eof then Some (ret_ok, m, conf)
     else do {
       key \<leftarrow> http2d_buffer_clean key;
       val \<leftarrow> http2d_buffer_clean val;
       parse_loop h reader eof m (eol + 1) key val conf } }"

text \<open>The text of the buffer is cut into pieces on the way.\<close>

definition http2d_config_reader_parse_string :: "heap \<Rightarrow> reader \<Rightarrow> config_node \<Rightarrow> buffer \<Rightarrow> (ret_t \<times> buffer \<times> config_node) option" where
  "http2d_config_reader_parse_string h reader conf b = do {
     m \<leftarrow> buf b;
     (ret, m, conf) \<leftarrow> parse_loop h reader (len b) m 0 HTTP2D_BUF_INIT HTTP2D_BUF_INIT conf;
     if ret \<noteq> ret_ok then Some (ret_error, b\<lparr>buf := Some m\<rparr>, conf)
     else do {
       conf \<leftarrow> sort_lists conf;
       ret \<leftarrow> check_config_node_sanity conf;
       Some (ret, b\<lparr>buf := Some m\<rparr>, conf) } }"

subsection \<open>Files and directories\<close>

definition do_parse_file :: "heap \<Rightarrow> files \<Rightarrow> reader \<Rightarrow> config_node \<Rightarrow> byte list \<Rightarrow> (ret_t \<times> config_node) option" where
  "do_parse_file h fs reader conf file = do {
     (ret, b) \<leftarrow> http2d_buffer_read_file h fs HTTP2D_BUF_INIT file;
     if ret \<noteq> ret_ok then Some (ret_error, conf)
     else do {
       (ret, b, conf) \<leftarrow> http2d_config_reader_parse_string h reader conf b;
       if ret \<noteq> ret_ok then Some (ret_error, conf) else Some (ret_ok, conf) } }"

text \<open>Names that are not looked at: those of backup files. The path of an entry is built with \<open>http2d_buffer_add_va\<close>, for which the memory is taken to
  suffice.\<close>

definition ignored_name :: "byte list \<Rightarrow> bool" where
  "ignored_name d_name \<longleftrightarrow> d_name = [] \<or> hd d_name = chr CHR ''.'' \<or> hd d_name = chr CHR ''#'' \<or> last d_name = chr CHR ''~''"

fun include_entries :: "heap \<Rightarrow> files \<Rightarrow> reader \<Rightarrow> byte list \<Rightarrow> byte list list \<Rightarrow> config_node \<Rightarrow> (ret_t \<times> config_node) option" where
  "include_entries h fs reader path [] conf = Some (ret_ok, conf)"
| "include_entries h fs reader path (d_name # names) conf =
     (if ignored_name d_name then include_entries h fs reader path names conf
      else do {
        (ret, conf) \<leftarrow> do_parse_file h fs reader conf (path @ chr CHR ''/'' # d_name);
        if ret \<noteq> ret_ok then Some (ret, conf) else include_entries h fs reader path names conf })"

definition do_include :: "heap \<Rightarrow> files \<Rightarrow> reader \<Rightarrow> config_node \<Rightarrow> buffer \<Rightarrow> (ret_t \<times> config_node) option" where
  "do_include h fs reader conf path = do {
     p \<leftarrow> key_cstr path;
     (case stat_path fs p of
        None \<Rightarrow> Some (ret_error, conf)
      | Some (Regular _) \<Rightarrow> do_parse_file h fs reader conf p
      | Some (Directory None) \<Rightarrow> Some (ret_error, conf)
      | Some (Directory (Some names)) \<Rightarrow> include_entries h fs reader p names conf
      | Some Special \<Rightarrow> Some (ret_error, conf)) }"

text \<open>\<open>depth\<close> bounds the nesting of files.\<close>

primrec http2d_config_reader_parse :: "heap \<Rightarrow> files \<Rightarrow> nat \<Rightarrow> config_node \<Rightarrow> buffer \<Rightarrow> (ret_t \<times> config_node) option" where
  "http2d_config_reader_parse h fs 0 conf path = None"
| "http2d_config_reader_parse h fs (Suc depth) conf path = do_include h fs (http2d_config_reader_parse h fs depth) conf path"

end
