(* ===== verification/Util_Text.thy ===== *)
theory Util_Text
  imports Util
begin

text \<open>
  What the functions of \<^verbatim>\<open>src/src/util.c\<close> on texts do: numbers that are rendered are read back, the vectors of a
  gathering write, the end of an HTTP header (\<open>header_scan\<close> is the scanner on byte lists), and the deletion of a header line.
\<close>

subsection \<open>Numbers are read back\<close>

lemma isdigit_digit: "isdigit (word_of_nat (n mod 10 + 48))" "unat (word_of_nat (n mod 10 + 48) :: byte) - 48 = n mod 10"
proof -
  have u: "unat (word_of_nat (n mod 10 + 48) :: byte) = n mod 10 + 48" by (rule unat_digit)
  then show "unat (word_of_nat (n mod 10 + 48) :: byte) - 48 = n mod 10" by simp
  have "n mod 10 < 10" by simp
  then show "isdigit (word_of_nat (n mod 10 + 48))" unfolding isdigit_def word_le_nat_alt u by simp
qed

lemma read_dec_append: "(\<forall>c. c \<in> set s \<longrightarrow> isdigit c) \<Longrightarrow> read_dec (s @ t) n = read_dec t (read_dec s n)"
  by (induction s arbitrary: n) auto

lemma show_dec_digits: "c \<in> set (show_dec n) \<Longrightarrow> isdigit c"
proof (induction n rule: show_dec.induct)
  case (1 n)
  then show ?case using isdigit_digit(1) [of n]
    by (cases "n < 10") (auto simp: show_dec_digit show_dec_step simp del: show_dec.simps)
qed

lemma read_dec_show: "read_dec (show_dec n) 0 = n"
proof (induction n rule: show_dec.induct)
  case (1 n)
  show ?case
  proof (cases "n < 10")
    case True
    then show ?thesis using isdigit_digit [of n] by (simp add: show_dec_digit del: show_dec.simps)
  next
    case False
    have "read_dec (show_dec (n div 10) @ [word_of_nat (n mod 10 + 48)]) 0 = n"
      using 1 False isdigit_digit [of n] by (subst read_dec_append) (auto intro: show_dec_digits)
    with False show ?thesis by (simp add: show_dec_step del: show_dec.simps)
  qed
qed

lemma digit_not: "isdigit c \<Longrightarrow> \<not> isspace c \<and> c \<noteq> 45 \<and> c \<noteq> 43 \<and> c \<noteq> 0"
  by (auto simp: isdigit_def isspace_def word_le_nat_alt)

lemma show_dec_head: "\<exists>c t. show_dec n = c # t \<and> isdigit c"
proof (cases "show_dec n")
  case Nil
  then show ?thesis using show_dec_pos [of n] by simp
next
  case (Cons c t)
  then show ?thesis using show_dec_digits [of c n] by simp
qed

lemma strtol_show: "- (2 ^ 63) \<le> k \<Longrightarrow> k < 2 ^ 63 \<Longrightarrow> strtol (show_int k) = (k, False)"
proof -
  assume k: "- (2 ^ 63) \<le> k" "k < 2 ^ 63"
  obtain c t where c: "show_dec (nat \<bar>k\<bar>) = c # t" "isdigit c" using show_dec_head by blast
  have r: "read_dec (c # t) 0 = nat \<bar>k\<bar>" using read_dec_show [of "nat \<bar>k\<bar>"] c(1) by simp
  have "\<not> isspace 45" "chr CHR ''+'' = 43" by (simp_all add: isspace_def chr_def)
  with k c(1) r digit_not [OF c(2)] show ?thesis
    by (cases "k < 0") (auto simp: strtol_def show_int_def Let_def)
qed

lemma int_of_long_id: "- (2 ^ 31) \<le> k \<Longrightarrow> k < 2 ^ 31 \<Longrightarrow> int_of_long k = k"
  by (simp add: int_of_long_def int_word_sint mod_pos_pos_trivial)

subsection \<open>Vectors\<close>

text \<open>The bytes that a list of vectors describes, in a memory.\<close>

definition iov_bytes :: "(nat \<Rightarrow> byte) \<Rightarrow> iovec \<Rightarrow> byte list" where
  "iov_bytes mem v = map mem [iov_base v..<iov_base v + iov_len v]"

definition gathered :: "(nat \<Rightarrow> byte) \<Rightarrow> iovec list \<Rightarrow> byte list" where
  "gathered mem vs = concat (map (iov_bytes mem) vs)"

definition iov_total :: "iovec list \<Rightarrow> nat" where
  "iov_total vs = sum_list (map iov_len vs)"

definition iov_ok :: "iovec list \<Rightarrow> bool" where
  "iov_ok vs \<longleftrightarrow> iov_total vs < 2 ^ 64 \<and> (\<forall>v. v \<in> set vs \<longrightarrow> iov_base v + iov_len v < 2 ^ 64)"

text \<open>What the loop keeps of the vectors behind the one that has been sent in part, of which \<open>k\<close> bytes have been sent.\<close>

fun keep :: "nat \<Rightarrow> iovec list \<Rightarrow> iovec list" where
  "keep k [] = []"
| "keep k (v # vs) = (if iov_len v \<le> k then keep (k - iov_len v) vs else v # keep k vs)"

definition rest_of :: "nat \<Rightarrow> iovec \<Rightarrow> iovec" where
  "rest_of k v = \<lparr>iov_base = iov_base v + k, iov_len = iov_len v - k\<rparr>"

lemma length_gathered: "length (gathered mem vs) = iov_total vs"
  by (induction vs) (simp_all add: gathered_def iov_total_def iov_bytes_def)

lemma gathered_simps [simp]: "gathered mem [] = []" "gathered mem (v # vs) = iov_bytes mem v @ gathered mem vs"
  "gathered mem (us @ vs) = gathered mem us @ gathered mem vs"
  by (simp_all add: gathered_def)

lemma iov_total_simps [simp]: "iov_total [] = 0" "iov_total (v # vs) = iov_len v + iov_total vs" "iov_total (us @ vs) = iov_total us + iov_total vs"
  by (simp_all add: iov_total_def)

lemma rest_of_bytes: "k \<le> iov_len v \<Longrightarrow> iov_bytes mem (rest_of k v) = drop k (iov_bytes mem v)"
  by (simp add: rest_of_def iov_bytes_def drop_map)

lemma keep_loop:
  "dest \<noteq> [] \<Longrightarrow> t \<le> sent \<Longrightarrow> t + iov_total vs < 2 ^ 64 \<Longrightarrow> skip_sent_loop vs sent t dest = dest @ keep (sent - t) vs"
proof (induction vs arbitrary: t dest)
  case (Cons v vs)
  then have "u64 (t + iov_len v) = t + iov_len v" by (simp add: int_simps)
  with Cons show ?case by auto
qed simp

lemma skip_whole:
  "t + iov_total us \<le> sent \<Longrightarrow> t + iov_total (us @ vs) < 2 ^ 64 \<Longrightarrow>
   skip_sent_loop (us @ vs) sent t [] = skip_sent_loop vs sent (t + iov_total us) []"
proof (induction us arbitrary: t)
  case (Cons v us)
  then have "u64 (t + iov_len v) = t + iov_len v" by (simp add: int_simps)
  with Cons show ?case by (simp add: add.assoc)
qed simp

lemma skip_sent_split:
  assumes "iov_ok (us @ v # vs)" "k < iov_len v"
  shows "http2d_iovec_skip_sent (us @ v # vs) (iov_total us + k) = (ret_ok, rest_of k v # keep k vs)"
proof -
  have u: "iov_total us + iov_len v + iov_total vs < 2 ^ 64" "iov_base v + iov_len v < 2 ^ 64"
    using assms(1) by (auto simp: iov_ok_def)
  then have w: "u64 (iov_total us + iov_len v) = iov_total us + iov_len v" "sub64 (iov_total us + k) (iov_total us) = k"
    "u64 (iov_base v + k) = iov_base v + k" "sub64 (iov_len v) k = iov_len v - k" using assms(2) by (simp_all add: int_simps)
  have "skip_sent_loop (us @ v # vs) (iov_total us + k) 0 [] = skip_sent_loop (v # vs) (iov_total us + k) (iov_total us) []"
    using skip_whole [of 0 us "iov_total us + k" "v # vs"] u by simp
  also have "\<dots> = skip_sent_loop vs (iov_total us + k) (iov_total us) [rest_of k v]"
    using assms(2) w by (simp add: rest_of_def)
  also have "\<dots> = rest_of k v # keep k vs" using keep_loop [of "[rest_of k v]" "iov_total us"] u by simp
  finally show ?thesis by (simp add: http2d_iovec_skip_sent_def)
qed

lemma keep_total: "iov_total (keep k vs) \<le> iov_total vs"
  by (induction k vs rule: keep.induct) (auto intro: trans_le_add2)

lemma keep_lossless: "\<forall>w. w \<in> set vs \<and> 0 < iov_len w \<longrightarrow> k < iov_len w \<Longrightarrow> gathered mem (keep k vs) = gathered mem vs"
proof (induction vs)
  case (Cons v vs)
  have "iov_bytes mem v = []" if "iov_len v \<le> k"
  proof -
    have "iov_len v = 0" using Cons.prems that by (metis list.set_intros(1) not_gr_zero not_le)
    then show ?thesis by (simp add: iov_bytes_def)
  qed
  moreover have "iov_len v = 0" if "iov_len v \<le> k" using Cons.prems that by (metis list.set_intros(1) not_gr_zero not_le)
  ultimately show ?case using Cons by auto
qed simp

lemma keep_loses: "w \<in> set vs \<Longrightarrow> 0 < iov_len w \<Longrightarrow> iov_len w \<le> k \<Longrightarrow> iov_total (keep k vs) < iov_total vs"
proof (induction vs)
  case (Cons v vs)
  show ?case
  proof (cases "0 < iov_len v \<and> iov_len v \<le> k")
    case True
    then show ?thesis using keep_total [of "k - iov_len v" vs] by simp
  next
    case False
    then have "w \<in> set vs" using Cons.prems by auto
    from Cons.IH [OF this Cons.prems(2,3)] show ?thesis using False by auto
  qed
qed simp

lemma was_sent_spec: "t + iov_total vs < 2 ^ 64 \<Longrightarrow> t \<le> sent \<Longrightarrow> was_sent_loop vs sent t = (if t + iov_total vs \<le> sent then ret_ok else ret_eagain)"
proof (induction vs arbitrary: t)
  case (Cons v vs)
  then have "u64 (t + iov_len v) = t + iov_len v" by (simp add: int_simps)
  with Cons.prems Cons.IH [of "t + iov_len v"] show ?case by (auto simp: Let_def add.assoc)
qed simp

text \<open>C29: \<open>http2d_iovec_was_sent\<close> says whether \<open>sent\<close> bytes are all the vectors describe. When the \<open>sent\<close> bytes end inside
  the vector \<open>v\<close>, after \<open>k\<close> bytes of it, \<open>http2d_iovec_skip_sent\<close> returns vectors for exactly the bytes not yet
  sent if no later vector has a length from 1 to \<open>k\<close>. If any of them has, bytes are lost, because such a vector is taken for one that has
  been sent.\<close>

theorem http2d_iovec_skip_sent_correct:
  assumes "iov_ok (us @ v # vs)" "k < iov_len v"
  shows "(http2d_iovec_was_sent (us @ v # vs) n = (if iov_total (us @ v # vs) \<le> n then ret_ok else ret_eagain)) \<and>
    (if \<exists>w. w \<in> set vs \<and> 0 < iov_len w \<and> iov_len w \<le> k
     then length (gathered mem (snd (http2d_iovec_skip_sent (us @ v # vs) (iov_total us + k)))) <
       length (drop (iov_total us + k) (gathered mem (us @ v # vs)))
     else gathered mem (snd (http2d_iovec_skip_sent (us @ v # vs) (iov_total us + k))) = drop (iov_total us + k) (gathered mem (us @ v # vs)))"
proof -
  have 1: "http2d_iovec_was_sent (us @ v # vs) n = (if iov_total (us @ v # vs) \<le> n then ret_ok else ret_eagain)"
    using was_sent_spec [of 0 "us @ v # vs" n] assms(1) unfolding http2d_iovec_was_sent_def iov_ok_def by simp
  have r: "iov_bytes mem (rest_of k v) = drop k (iov_bytes mem v)" using assms(2) by (simp add: rest_of_bytes)
  have l: "length (iov_bytes mem v) = iov_len v" "length (gathered mem us) = iov_total us"
    by (simp_all add: iov_bytes_def length_gathered)
  have d: "drop (iov_total us + k) (gathered mem (us @ v # vs)) = drop k (iov_bytes mem v) @ gathered mem vs"
    using assms(2) l by simp
  note s = skip_sent_split [OF assms]
  show ?thesis
  proof (cases "\<exists>w. w \<in> set vs \<and> 0 < iov_len w \<and> iov_len w \<le> k")
    case True
    then have "iov_total (keep k vs) < iov_total vs" using keep_loses by blast
    then show ?thesis using 1 True unfolding d by (simp add: s r length_gathered)
  next
    case False
    then have "gathered mem (keep k vs) = gathered mem vs" by (intro keep_lossless) auto
    then show ?thesis using 1 False unfolding d by (simp add: s r)
  qed
qed

theorem http2d_iovec_skip_sent_correct_witness:
  "length (gathered (\<lambda>_. 0) (snd (http2d_iovec_skip_sent [\<lparr>iov_base = 0, iov_len = 10\<rparr>, \<lparr>iov_base = 100, iov_len = 2\<rparr>] 5))) < 7"
  using http2d_iovec_skip_sent_correct [of "[]" "\<lparr>iov_base = 0, iov_len = 10\<rparr>" "[\<lparr>iov_base = 100, iov_len = 2\<rparr>]" 5 0 "\<lambda>_. 0"]
  by (simp add: iov_ok_def iov_bytes_def)

subsection \<open>The end of a header\<close>

text \<open>What a loop up to \<open>fin\<close> still sees at position \<open>p\<close>.\<close>

definition sees :: "block \<Rightarrow> nat \<Rightarrow> nat \<Rightarrow> byte list \<Rightarrow> bool" where
  "sees m fin p xs \<longleftrightarrow> fin \<le> length m \<and> drop p (take fin m) = xs"

lemma sees_Nil: "sees m fin p [] \<Longrightarrow> \<not> p < fin"
  by (auto simp: sees_def)

lemma sees_Cons: "sees m fin p (c # xs) \<Longrightarrow> p < fin \<and> blk_get m p = Some c \<and> sees m fin (Suc p) xs"
proof -
  assume s: "sees m fin p (c # xs)"
  then have p: "p < fin" "fin \<le> length m" by (auto simp: sees_def not_less[symmetric] intro: ccontr)
  have "drop p (take fin m) = take fin m ! p # drop (Suc p) (take fin m)" using p by (intro Cons_nth_drop_Suc [symmetric]) simp
  with s p show ?thesis by (auto simp: sees_def blk_get_in)
qed

text \<open>The two loops on the text they see.\<close>

fun run_on :: "byte list \<Rightarrow> nat \<Rightarrow> nat \<Rightarrow> nat \<Rightarrow> nat \<Rightarrow> run_end" where
  "run_on [] b p cr lf = Goes_on p"
| "run_on (c # xs) b p cr lf =
     (if c = LF \<and> lf = 1 then Separator b (Suc (p - b))
      else if c \<noteq> LF \<and> c \<noteq> CR then Goes_on p
      else if c = LF then (if cr = 1 \<and> lf = 1 then Refused else run_on xs b (Suc p) cr (Suc lf))
      else if (cr = 0 \<and> lf = 2) \<or> (cr = 1 \<and> lf = 0) then Refused else run_on xs b (Suc p) (Suc cr) lf)"

function header_scan :: "byte list \<Rightarrow> nat \<Rightarrow> ret_t \<times> (nat \<times> nat) option" where
  "header_scan [] p = (ret_not_found, None)"
| "header_scan (c # xs) p =
     (if c = CR \<or> c = LF then
        (case run_on (c # xs) p p 0 0 of
           Separator b n \<Rightarrow> (ret_ok, Some (b, n)) | Refused \<Rightarrow> (ret_error, None)
         | Goes_on q \<Rightarrow> header_scan (drop (q - p) xs) (Suc q))
      else header_scan xs (Suc p))"
  by pat_completeness auto
termination by (relation "measure (\<lambda>(xs, p). length xs)") auto

lemma eol_run_sees: "sees m fin p xs \<Longrightarrow> eol_run m fin b p cr lf = Some (run_on xs b p cr lf)"
proof (induction xs b p cr lf rule: run_on.induct)
  case (1 b p cr lf)
  then show ?case using sees_Nil by (subst eol_run.simps) simp
next
  case (2 c xs b p cr lf)
  note s = sees_Cons [OF 2(3)]
  show ?case using s 2(1,2) by (subst eol_run.simps) (auto simp: Let_def CR_def LF_def)
qed

lemma run_on_pos: "run_on xs b p cr lf = Goes_on q \<Longrightarrow> p \<le> q"
  by (induction xs b p cr lf rule: run_on.induct) (auto split: if_splits)

lemma sees_drop: "sees m fin p xs \<Longrightarrow> sees m fin (p + n) (drop n xs)"
  by (auto simp: sees_def add.commute)

lemma header_end_sees: "sees m fin p xs \<Longrightarrow> header_end_loop m fin p = Some (header_scan xs p)"
proof (induction xs p rule: header_scan.induct)
  case (1 p)
  then show ?case using sees_Nil by (subst header_end_loop.simps) simp
next
  case (2 c xs p)
  note s = sees_Cons [OF 2(3)]
  have r: "eol_run m fin p p 0 0 = Some (run_on (c # xs) p p 0 0)" by (rule eol_run_sees [OF 2(3)])
  have g: "sees m fin (Suc q) (drop (q - p) xs)" if "run_on (c # xs) p p 0 0 = Goes_on q" for q
    using sees_drop [of m fin "Suc p" xs "q - p"] s run_on_pos [OF that] by simp
  show ?case using s r g 2(1,2) by (subst header_end_loop.simps) (auto split: run_end.splits simp del: run_on.simps)
qed

definition eol :: "byte list \<Rightarrow> bool" where
  "eol e \<longleftrightarrow> e = [LF] \<or> e = [CR, LF]"

definition plain :: "byte list \<Rightarrow> bool" where
  "plain l \<longleftrightarrow> CR \<notin> set l \<and> LF \<notin> set l"

text \<open>A header: lines that are not empty, each with its line end.\<close>

definition head_lines :: "(byte list \<times> byte list) list \<Rightarrow> bool" where
  "head_lines ls \<longleftrightarrow> (\<forall>l e. (l, e) \<in> set ls \<longrightarrow> l \<noteq> [] \<and> plain l \<and> eol e)"

definition head_text :: "(byte list \<times> byte list) list \<Rightarrow> byte list" where
  "head_text ls = concat (map (\<lambda>(l, e). l @ e) ls)"

lemma head_text_simps [simp]: "head_lines []" "head_text [] = []" "head_text ((l, e) # ls) = l @ e @ head_text ls"
  "head_lines ((l, e) # ls) \<longleftrightarrow> l \<noteq> [] \<and> plain l \<and> eol e \<and> head_lines ls"
  by (auto simp: head_lines_def head_text_def)

lemma skip_plain: "plain l \<Longrightarrow> header_scan (l @ xs) p = header_scan xs (p + length l)"
  by (induction l arbitrary: p) (auto simp: plain_def)

lemma CR_LF [simp]: "CR \<noteq> LF" "LF \<noteq> CR"
  by (simp_all add: CR_def LF_def)

lemma eol_next: "eol e \<Longrightarrow> c \<noteq> CR \<Longrightarrow> c \<noteq> LF \<Longrightarrow> header_scan (e @ c # xs) p = header_scan xs (p + length e + 1)"
  by (auto simp: eol_def)

lemma eol_blank: "eol e \<Longrightarrow> eol d \<Longrightarrow> header_scan (e @ d @ xs) p = (ret_ok, Some (p, length e + length d))"
  by (auto simp: eol_def)

lemma eol_cut: "eol e \<Longrightarrow> eol d \<Longrightarrow> k < length e + length d \<Longrightarrow> header_scan (take k (e @ d)) p = (ret_not_found, None)"
  by (auto simp: eol_def less_Suc_eq numeral_2_eq_2)

lemma header_scan_lines:
  "plain l \<Longrightarrow> eol e \<Longrightarrow> head_lines ls \<Longrightarrow> eol d \<Longrightarrow>
   header_scan (l @ e @ head_text ls @ d @ xs) p =
     (ret_ok, Some (p + length (l @ e @ head_text ls) - length (snd (last ((l, e) # ls))), length (snd (last ((l, e) # ls))) + length d))"
proof (induction ls arbitrary: l e p)
  case Nil
  then show ?case using eol_blank [of e d xs "p + length l"] by (simp add: skip_plain)
next
  case (Cons x ls)
  obtain c l1 e1 where x: "x = (c # l1, e1)" using Cons.prems(3) by (cases x; cases "fst x") auto
  have c: "c \<noteq> CR" "c \<noteq> LF" "plain l1" "eol e1" "head_lines ls" using Cons.prems(3) x by (auto simp: plain_def)
  have "header_scan (l @ e @ head_text (x # ls) @ d @ xs) p = header_scan (l1 @ e1 @ head_text ls @ d @ xs) (p + length l + length e + 1)"
    using eol_next [OF Cons.prems(2) c(1,2)] Cons.prems(1) by (simp add: x skip_plain)
  also have "\<dots> = (ret_ok, Some (p + length l + length e + 1 + length (l1 @ e1 @ head_text ls) - length (snd (last ((l1, e1) # ls))),
      length (snd (last ((l1, e1) # ls))) + length d))"
    by (rule Cons.IH [OF c(3-5) Cons.prems(4)])
  finally show ?case by (simp add: x add.assoc)
qed

lemma header_scan_cut:
  "plain l \<Longrightarrow> eol e \<Longrightarrow> head_lines ls \<Longrightarrow> eol d \<Longrightarrow> k < length (l @ e @ head_text ls @ d) \<Longrightarrow>
   header_scan (take k (l @ e @ head_text ls @ d)) p = (ret_not_found, None)"
proof (induction ls arbitrary: l e p k)
  case Nil
  have "plain (take k l)" using Nil.prems(1) by (auto simp: plain_def dest: in_set_takeD)
  then have "header_scan (take k (l @ e @ d)) p = header_scan (take (k - length l) (e @ d)) (p + min (length l) k)"
    using skip_plain [of "take k l"] by (simp add: min.commute)
  with Nil.prems eol_cut [of e d "k - length l"] show ?case by (cases "k \<le> length l") auto
next
  case (Cons x ls)
  obtain c l1 e1 where x: "x = (c # l1, e1)" using Cons.prems(3) by (cases x; cases "fst x") auto
  have c: "c \<noteq> CR" "c \<noteq> LF" "plain l1" "eol e1" "head_lines ls" using Cons.prems(3) x by (auto simp: plain_def)
  have "plain (take k l)" using Cons.prems(1) by (auto simp: plain_def dest: in_set_takeD)
  then have 1: "header_scan (take k (l @ e @ head_text (x # ls) @ d)) p =
      header_scan (take (k - length l) (e @ head_text (x # ls) @ d)) (p + min (length l) k)"
    using skip_plain [of "take k l"] by (simp add: min.commute)
  show ?case
  proof (cases "k - length l \<le> length e")
    case True
    then have "take (k - length l) (e @ head_text (x # ls) @ d) = take (k - length l) (e @ [LF])" by simp
    moreover have "eol [LF]" by (simp add: eol_def)
    ultimately show ?thesis using eol_cut [OF Cons.prems(2), of "[LF]" "k - length l"] True 1 by simp
  next
    case False
    then obtain j where j: "k - length l = length e + Suc j" by (metis add_Suc_right less_imp_Suc_add not_le)
    then have "header_scan (take (k - length l) (e @ head_text (x # ls) @ d)) q =
        header_scan (take j (l1 @ e1 @ head_text ls @ d)) (q + length e + 1)" for q
      using eol_next [OF Cons.prems(2) c(1,2), of "take j (l1 @ e1 @ head_text ls @ d)" q] by (simp add: x)
    moreover have "j < length (l1 @ e1 @ head_text ls @ d)" using j Cons.prems(5) by (simp add: x)
    ultimately show ?thesis using Cons.IH [OF c(3-5) Cons.prems(4)] 1 by simp
  qed
qed

lemma sees_buf:
  assumes "buf_rep b s" "s \<noteq> []"
  shows "http2d_find_header_end b = Some (header_scan (take MAX_HEADER_LEN s) 0)"
proof -
  obtain m where m: "buf b = Some m" "take (length s) m = s" "length s < length m" "length s < 2 ^ 31"
    using assms by (auto elim!: buf_rep_cases)
  have n: "s32 (len b) = int (length s)" using buf_rep_len [OF assms(1)] m(4) by (simp add: int_simps)
  have k: "nat (min (int (length s)) (int MAX_HEADER_LEN)) = min (length s) MAX_HEADER_LEN" by simp
  have "take (min (length s) MAX_HEADER_LEN) m = take MAX_HEADER_LEN s" using m(2) by (metis min.commute take_take)
  then have "sees m (min (length s) MAX_HEADER_LEN) 0 (take MAX_HEADER_LEN s)" using m(3) by (simp add: sees_def)
  from header_end_sees [OF this] show ?thesis using m(1) n k assms(2)
    by (simp add: http2d_find_header_end_def http2d_find_header_end_cstr_def)
qed

text \<open>C28: \<open>http2d_find_header_end\<close> on a header whose lines end in LF or CRLF, each of them in its own way, and whose blank line
  has the line end of the last line, which makes the separator LF LF or CR LF CR LF: once the blank line has
  arrived, whatever follows it, the separator is found with its length; as long as any
  byte of it is missing the answer is \<open>ret_not_found\<close>. The header has to fit into \<open>MAX_HEADER_LEN\<close> bytes.\<close>

theorem http2d_find_header_end_correct:
  assumes "head_lines ls" "ls \<noteq> []" "snd (last ls) = d" "length (head_text ls @ d) \<le> MAX_HEADER_LEN"
  shows "(d = [LF] \<or> d = [CR, LF]) \<and>
    (buf_rep b (head_text ls @ d @ rest) \<longrightarrow> http2d_find_header_end b =
      Some (ret_ok, Some (length (head_text ls) - length d, 2 * length d))) \<and>
    (buf_rep b (take k (head_text ls @ d)) \<and> k < length (head_text ls @ d) \<longrightarrow>
      http2d_find_header_end b = Some (ret_not_found, None))"
proof -
  obtain l e ls' where ls: "ls = (l, e) # ls'" using assms(2) by (cases ls) auto
  have l: "l \<noteq> []" "plain l" "eol e" "head_lines ls'" using assms(1) by (auto simp: ls)
  have "(fst (last ls), d) \<in> set ls" using assms(2,3) by (metis last_in_set prod.collapse)
  then have ed: "eol d" using assms(1) unfolding head_lines_def by blast
  have 1: "http2d_find_header_end b = Some (ret_ok, Some (length (head_text ls) - length d, 2 * length d))"
    if "buf_rep b (head_text ls @ d @ rest)"
  proof -
    have "take MAX_HEADER_LEN ((head_text ls @ d) @ rest) = (head_text ls @ d) @ take (MAX_HEADER_LEN - length (head_text ls @ d)) rest"
      using assms(4) by (metis take_all take_append)
    then show ?thesis using sees_buf [OF that] header_scan_lines [OF l(2-4) ed] l(1) assms(3) by (simp add: ls mult_2)
  qed
  have 2: "http2d_find_header_end b = Some (ret_not_found, None)"
    if "buf_rep b (take k (head_text ls @ d))" "k < length (head_text ls @ d)"
  proof (cases "k = 0")
    case True
    with that(1) have "len b = 0" using buf_rep_len by fastforce
    then show ?thesis by (simp add: http2d_find_header_end_def http2d_find_header_end_cstr_def s32_def u32_def split: option.split)
  next
    case False
    have ne: "take k (head_text ls @ d) \<noteq> []" using False l(1) by (simp add: ls)
    have t: "take MAX_HEADER_LEN (take k (head_text ls @ d)) = take k (head_text ls @ d)" by (rule take_all) (use assms(4) in simp)
    have h: "head_text ls @ d = l @ e @ head_text ls' @ d" by (simp add: ls)
    have "header_scan (take k (head_text ls @ d)) 0 = (ret_not_found, None)"
      unfolding h by (rule header_scan_cut [OF l(2-4) ed]) (use that(2) h in simp)
    then show ?thesis using sees_buf [OF that(1) ne] t by simp
  qed
  show ?thesis using 1 2 ed unfolding eol_def by blast
qed

theorem http2d_find_header_end_correct_witness:
  "http2d_find_header_end (http2d_buffer_fake (Some (lit ''GET /'' @ [LF] @ lit ''Host: a'' @ [CR, LF, CR, LF] @ lit ''body'' @ [0])) 21) =
    Some (ret_ok, Some (13, 4))"
proof -
  let ?ls = "[(lit ''GET /'', [LF]), (lit ''Host: a'', [CR, LF])]"
  have "buf_rep (http2d_buffer_fake (Some (lit ''GET /'' @ [LF] @ lit ''Host: a'' @ [CR, LF, CR, LF] @ lit ''body'' @ [0])) 21)
      (head_text ?ls @ [CR, LF] @ lit ''body'')"
    by (simp add: buf_rep_def http2d_buffer_fake_def buffer_ok_def buffer_term_def buf_str_def u32_def lit_def)
  moreover have "head_lines ?ls" "snd (last ?ls) = [CR, LF]" by (auto simp: plain_def eol_def lit_def chr_def CR_def LF_def)
  ultimately show ?thesis using http2d_find_header_end_correct [of ?ls "[CR, LF]"] by (auto simp: MAX_HEADER_LEN_def)
qed

subsection \<open>Deleting a header line\<close>

text \<open>Lines as the parser of a header expects them: no zero, and no blank that would make them continue the line before.\<close>

definition entry_lines :: "(byte list \<times> byte list) list \<Rightarrow> bool" where
  "entry_lines ls \<longleftrightarrow> head_lines ls \<and> (\<forall>l e. (l, e) \<in> set ls \<longrightarrow> 0 \<notin> set l \<and> hd l \<noteq> SP \<and> hd l \<noteq> HT)"

definition starts :: "byte list \<Rightarrow> byte list \<Rightarrow> bool" where
  "starts l name \<longleftrightarrow> length name \<le> length l \<and> map tolower (take (length name) l) = map tolower name"

lemma entry_simps [simp]: "entry_lines []"
  "entry_lines ((l, e) # ls) \<longleftrightarrow> l \<noteq> [] \<and> plain l \<and> eol e \<and> 0 \<notin> set l \<and> hd l \<noteq> SP \<and> hd l \<noteq> HT \<and> entry_lines ls"
  "entry_lines (us @ vs) \<longleftrightarrow> entry_lines us \<and> entry_lines vs"
  by (auto simp: entry_lines_def head_lines_def)

lemma ctl_simps [simp]: "CR \<noteq> 0" "LF \<noteq> 0" "SP \<noteq> CR" "SP \<noteq> LF" "HT \<noteq> CR" "HT \<noteq> LF" "CR \<noteq> SP" "LF \<noteq> SP" "CR \<noteq> HT" "LF \<noteq> HT" "SP \<noteq> 0" "HT \<noteq> 0"
  "0 \<noteq> CR" "0 \<noteq> LF" "0 \<noteq> SP" "0 \<noteq> HT"
  by (simp_all add: CR_def LF_def SP_def HT_def)

lemma eol_nz: "eol e \<Longrightarrow> 0 \<notin> set e"
  by (auto simp: eol_def)

lemma entry_text_nz: "entry_lines ls \<Longrightarrow> 0 \<notin> set (head_text ls)"
  by (induction ls) (auto simp: eol_nz)

lemma tolower_eol: "c = CR \<or> c = LF \<Longrightarrow> tolower x = tolower c \<Longrightarrow> x = c"
proof -
  assume c: "c = CR \<or> c = LF" and t: "tolower x = tolower c"
  have "tolower c = c" using c by (auto simp: tolower_def CR_def LF_def chr_def word_le_nat_alt)
  moreover have "unat (tolower x) \<ge> 97" if "tolower x \<noteq> x"
  proof -
    have u: "65 \<le> unat x" "unat x \<le> 90" using that by (auto simp: tolower_def chr_def word_le_nat_alt split: if_splits)
    then have "unat (x + 32) = unat x + 32" by (simp add: unat_word_ariths)
    then show ?thesis using that u by (auto simp: tolower_def split: if_splits)
  qed
  moreover have "unat c < 97" using c by (auto simp: CR_def LF_def)
  ultimately show "x = c" using t by (metis not_le)
qed

lemma strncmp_line:
  "0 \<notin> set l \<Longrightarrow> c = CR \<or> c = LF \<Longrightarrow> plain name \<Longrightarrow>
   \<exists>r. strncmp_by tolower (l @ c # xs) name (length name) = Some r \<and> (r = 0 \<longleftrightarrow> starts l name)"
proof (induction l arbitrary: name)
  case Nil
  then show ?case
  proof (cases name)
    case (Cons y ys)
    then have "tolower c \<noteq> tolower y" using Nil tolower_eol [of c y] by (auto simp: plain_def)
    then have "tolower c < tolower y \<or> tolower y < tolower c" by auto
    then show ?thesis using Cons by (auto simp: starts_def)
  qed (simp add: starts_def)
next
  case (Cons x l)
  show ?case
  proof (cases name)
    case Nil
    then show ?thesis by (simp add: starts_def)
  next
    case (Cons y ys)
    have "\<exists>r. strncmp_by tolower (l @ c # xs) ys (length ys) = Some r \<and> (r = 0 \<longleftrightarrow> starts l ys)"
      by (rule Cons.IH) (use Cons.prems Cons in \<open>auto simp: plain_def\<close>)
    moreover have "tolower x < tolower y \<or> tolower y < tolower x \<or> tolower x = tolower y" by auto
    ultimately show ?thesis using Cons.prems Cons by (auto simp: starts_def)
  qed
qed

lemma strchr_line: "plain l \<Longrightarrow> eol e \<Longrightarrow> strchr (l @ e @ xs) LF = Some (length l + length e - 1)"
  by (induction l) (auto simp: plain_def eol_def)

lemma drop_nth: "drop p m = xs @ c # ys \<Longrightarrow> blk_get m (p + length xs) = Some c"
proof -
  assume d: "drop p m = xs @ c # ys"
  have "length (drop p m) = Suc (length xs + length ys)" by (simp add: d)
  then have l: "p + length xs < length m" by simp
  then have "m ! (p + length xs) = drop p m ! length xs" by simp
  also have "\<dots> = c" by (simp add: d)
  finally show ?thesis using l by (simp add: blk_get_in)
qed

lemma cstr_drop0: "drop p m = s @ 0 # ys \<Longrightarrow> 0 \<notin> set s \<Longrightarrow> cstr m p = Some s"
proof -
  assume "drop p m = s @ 0 # ys" "0 \<notin> set s"
  moreover have "0 \<notin> set s \<Longrightarrow> takeWhile (\<lambda>c. c \<noteq> 0) (s @ 0 # ys) = s" by (induction s) auto
  ultimately show ?thesis by (simp add: cstr_def)
qed

lemma skip_eols_run:
  "(\<forall>c. c \<in> set e \<longrightarrow> c = CR \<or> c = LF) \<Longrightarrow> drop p m = e @ c # xs \<Longrightarrow> c \<noteq> CR \<Longrightarrow> c \<noteq> LF \<Longrightarrow> skip_eols m p = Some (p + length e)"
proof (induction e arbitrary: p)
  case Nil
  then show ?case using drop_nth [of p m "[]" c xs] by (subst skip_eols.simps) simp
next
  case (Cons x e)
  have "drop (Suc p) m = e @ c # xs" using Cons.prems(2) by (metis append_Cons drop_Suc list.sel(3) tl_drop)
  with Cons show ?case using drop_nth [of p m "[]" x "e @ c # xs"] by (subst skip_eols.simps) auto
qed

text \<open>The blank line at the end may be missing.\<close>

definition blank_end :: "byte list \<Rightarrow> bool" where
  "blank_end d \<longleftrightarrow> d = [] \<or> eol d"

lemma after_line:
  assumes "entry_lines vs" "blank_end d"
  shows "\<exists>c ys. head_text vs @ d @ 0 # xs = c # ys \<and> c \<noteq> SP \<and> c \<noteq> HT"
proof (cases vs)
  case Nil
  then show ?thesis using assms(2) by (auto simp: blank_end_def eol_def)
next
  case (Cons v vs')
  obtain l e where "v = (l, e)" by (cases v)
  then show ?thesis using assms(1) Cons by (cases l) auto
qed

lemma next_line_at:
  assumes "drop p m = l @ e @ head_text vs @ d @ 0 # xs" "entry_lines ((l, e) # vs)" "blank_end d"
  shows "http2d_header_get_next_line m p = Some (Some (p + length l))"
proof -
  have nz: "0 \<notin> set (l @ e @ head_text vs @ d)" using assms(2,3) entry_text_nz [of vs] by (auto simp: eol_nz blank_end_def)
  have c: "cstr m p = Some (l @ e @ head_text vs @ d)" using cstr_drop0 [OF _ nz, of p m xs] assms(1) by simp
  have le: "plain l" "eol e" "l \<noteq> []" using assms(2) by auto
  obtain c2 ys where n: "head_text vs @ d @ 0 # xs = c2 # ys" "c2 \<noteq> SP" "c2 \<noteq> HT" using after_line assms(2,3) by fastforce
  have k: "strchr (l @ e @ head_text vs @ d) LF = Some (length l + length e - 1)" by (rule strchr_line [OF le(1,2)])
  have b: "blk_get m (p + length l + length e) = Some c2" using drop_nth [of p m "l @ e" c2 ys] assms(1) n(1) by (simp add: add.assoc)
  obtain l' x where l': "l = l' @ [x]" using le(3) by (cases l rule: rev_cases) auto
  have x: "x \<noteq> CR" using le(1) l' by (auto simp: plain_def)
  from le(2) consider "e = [LF]" | "e = [CR, LF]" by (auto simp: eol_def)
  then show ?thesis
  proof cases
    case 1
    have "blk_get m (p + length l - 1) = Some x" using drop_nth [of p m l' x "e @ head_text vs @ d @ 0 # xs"] assms(1) l' by simp
    with 1 b c k n l' x show ?thesis unfolding http2d_header_get_next_line_def by (subst next_line_loop.simps) simp
  next
    case 2
    have "blk_get m (p + length l) = Some CR" using drop_nth [of p m l CR "LF # head_text vs @ d @ 0 # xs"] assms(1) 2 by simp
    with 2 b c k n show ?thesis unfolding http2d_header_get_next_line_def by (subst next_line_loop.simps) simp
  qed
qed

text \<open>Where the next line begins, or the text ends.\<close>

lemma skip_line:
  assumes "drop p m = l @ e @ head_text vs @ d @ 0 # xs" "entry_lines ((l, e) # vs)" "blank_end d"
  shows "skip_eols m (p + length l) = Some (p + length l + length e + (if vs = [] then length d else 0))"
proof -
  have d: "drop (p + length l) m = e @ head_text vs @ d @ 0 # xs" using arg_cong [OF assms(1), of "drop (length l)"] by (simp add: add.commute)
  have e: "\<forall>c. c \<in> set e \<longrightarrow> c = CR \<or> c = LF" using assms(2) by (auto simp: eol_def)
  show ?thesis
  proof (cases vs)
    case Nil
    have "\<forall>c. c \<in> set (e @ d) \<longrightarrow> c = CR \<or> c = LF" using e assms(3) by (auto simp: blank_end_def eol_def)
    from skip_eols_run [OF this, of "p + length l" m 0 xs] d Nil show ?thesis by simp
  next
    case (Cons v vs')
    obtain l2 e2 where v: "v = (l2, e2)" by (cases v)
    then obtain c l3 where c: "l2 = c # l3" "c \<noteq> CR" "c \<noteq> LF" using assms(2) Cons by (cases l2) (auto simp: plain_def)
    from skip_eols_run [OF e _ c(2,3), of "p + length l" m "l3 @ e2 @ head_text vs' @ d @ 0 # xs"] d Cons v c(1) show ?thesis by simp
  qed
qed

lemma del_entry_at:
  assumes "drop p m = head_text us @ head_text ((l, e) # vs) @ d @ 0 # xs" "entry_lines (us @ (l, e) # vs)" "blank_end d" "plain name"
    "list_all (\<lambda>u. \<not> starts (fst u) name) us" "starts l name" "n = p + length (head_text (us @ (l, e) # vs) @ d)"
  shows "del_entry_loop header m name (length name) n p = do {
    (_, header) \<leftarrow> http2d_buffer_remove_chunk header (p + length (head_text us)) (u32 (length (l @ e) + (if vs = [] then length d else 0)));
    Some (ret_ok, header) }"
  using assms
proof (induction us arbitrary: p)
  case Nil
  have d: "drop p m = l @ e @ head_text vs @ d @ 0 # xs" using Nil.prems(1) by simp
  have ok: "entry_lines ((l, e) # vs)" using Nil.prems(2) by simp
  obtain c y where e: "e = c # y" "c = CR \<or> c = LF" using ok by (auto simp: eol_def)
  obtain r where r: "strncmp_by tolower (drop p m) name (length name) = Some r" "r = 0"
    using strncmp_line [of l c name "y @ head_text vs @ d @ 0 # xs"] ok e Nil.prems(4,6) d by auto
  have "p < n" using Nil.prems(2,7) by simp
  then show ?case using next_line_at [OF d ok assms(3)] skip_line [OF d ok assms(3)] r
    by (subst del_entry_loop.simps) (simp add: add.assoc)
next
  case (Cons u us)
  obtain k f where u: "u = (k, f)" by (cases u)
  have d: "drop p m = k @ f @ head_text (us @ (l, e) # vs) @ d @ 0 # xs" using Cons.prems(1) u by (simp add: head_text_def)
  have ok: "entry_lines ((k, f) # us @ (l, e) # vs)" using Cons.prems(2) u by simp
  obtain c y where e: "f = c # y" "c = CR \<or> c = LF" using ok by (auto simp: eol_def)
  obtain r where r: "strncmp_by tolower (drop p m) name (length name) = Some r" "r \<noteq> 0"
    using strncmp_line [of k c name "y @ head_text (us @ (l, e) # vs) @ d @ 0 # xs"] ok e Cons.prems(4,5) d u by auto
  have "p < n" using Cons.prems(2,7) u by simp
  then have "del_entry_loop header m name (length name) n p = del_entry_loop header m name (length name) n (p + length k + length f)"
    using next_line_at [OF d ok assms(3)] skip_line [OF d ok assms(3)] r by (subst del_entry_loop.simps) simp
  moreover have "drop (p + length k + length f) m = head_text us @ head_text ((l, e) # vs) @ d @ 0 # xs"
    using arg_cong [OF d, of "drop (length k + length f)"] by (simp add: head_text_def add.commute add.left_commute)
  ultimately show ?case using Cons.IH [of "p + length k + length f"] Cons.prems u by (simp add: add.assoc cong: if_cong)
qed

lemma del_entry_none:
  assumes "drop p m = head_text us @ d @ 0 # xs" "entry_lines us" "blank_end d" "plain name"
    "list_all (\<lambda>u. \<not> starts (fst u) name) us" "n = p + length (head_text us @ d)" "us \<noteq> []"
  shows "del_entry_loop header m name (length name) n p = Some (ret_not_found, header)"
  using assms
proof (induction us arbitrary: p)
  case (Cons u us)
  obtain k f where u: "u = (k, f)" by (cases u)
  have d: "drop p m = k @ f @ head_text us @ d @ 0 # xs" using Cons.prems(1) u by simp
  have ok: "entry_lines ((k, f) # us)" using Cons.prems(2) u by simp
  obtain c y where e: "f = c # y" "c = CR \<or> c = LF" using ok by (auto simp: eol_def)
  obtain r where r: "strncmp_by tolower (drop p m) name (length name) = Some r" "r \<noteq> 0"
    using strncmp_line [of k c name "y @ head_text us @ d @ 0 # xs"] ok e Cons.prems(4,5) d u by auto
  define q where "q = p + length k + length f + (if us = [] then length d else 0)"
  have "p < n" using Cons.prems(2,6) u by simp
  then have s: "del_entry_loop header m name (length name) n p = del_entry_loop header m name (length name) n q"
    using next_line_at [OF d ok assms(3)] skip_line [OF d ok assms(3)] r by (subst del_entry_loop.simps) (simp add: q_def)
  show ?case
  proof (cases "us = []")
    case True
    then have "\<not> q < n" using Cons.prems(6) u by (simp add: q_def)
    then show ?thesis unfolding s by (subst del_entry_loop.simps) simp
  next
    case False
    have "drop q m = head_text us @ d @ 0 # xs"
      using arg_cong [OF d, of "drop (length k + length f)"] False by (simp add: q_def add.commute add.left_commute)
    then show ?thesis unfolding s using Cons.IH [of q] Cons.prems u False by (simp add: q_def add.assoc)
  qed
qed simp

lemma buf_rep_drop0:
  assumes "buf_rep b s" "s \<noteq> []"
  obtains m xs where "buf b = Some m" "drop 0 m = s @ 0 # xs"
proof -
  obtain m where m: "buf b = Some m" "take (length s) m = s" "length s < length m" "m ! length s = 0"
    using assms by (auto elim!: buf_rep_cases)
  have "m = s @ 0 # drop (Suc (length s)) m" using id_take_nth_drop [OF m(3)] m(2,4) by simp
  with m(1) show thesis using that by simp
qed

lemma buf_rep_cstr:
  assumes "buf_rep b s" "buf b = Some m" "0 \<notin> set s"
  shows "cstr m 0 = Some s"
  using buf_rep_read [OF assms(1,2)] assms(3) cstr_Some [of "length s" 0 m s] by simp

lemma literal_rep: "length s < 2 ^ 31 - 1 \<Longrightarrow> buf_rep (http2d_buffer_fake (Some (lit s @ [0])) (length s)) (lit s)"
  using http2d_buffer_fake_str_rep [of s] by (simp add: http2d_buffer_fake_str_def)

lemma cmp_literal:
  assumes "buf_rep b s" "0 \<notin> set s" "length t < 2 ^ 31 - 1"
  shows "\<exists>r. http2d_buffer_cmp b (lit t @ [0]) (length t) = Some r \<and> (r = 0 \<longleftrightarrow> s = lit t)"
  using cmp_by_zero [OF assms(1) literal_rep [OF assms(3)] assms(2), of "\<lambda>c. c"]
  by (simp add: http2d_buffer_cmp_def http2d_buffer_cmp_buf_def)

text \<open>\<open>http2d_header_del_entry\<close> deletes the first line of a header that starts with the given name, in any case of
  letters, with its line end, and leaves the other lines alone; but if that is the last line, the blank line that ends the
  header goes with it. If no line starts with the name the header stays as it is.\<close>

theorem http2d_header_del_entry_correct:
  assumes "entry_lines (us @ vs)" "us @ vs \<noteq> []" "blank_end d" "plain name" "list_all (\<lambda>u. \<not> starts (fst u) name) us" "buf_rep b (head_text (us @ vs) @ d)"
  shows "(vs = [] \<longrightarrow> http2d_header_del_entry b name (length name) = Some (ret_not_found, b)) \<and>
    (vs \<noteq> [] \<and> starts (fst (hd vs)) name \<longrightarrow>
      (\<exists>b'. http2d_header_del_entry b name (length name) = Some (ret_ok, b') \<and>
        buf_rep b' (if tl vs = [] then head_text us else head_text (us @ tl vs) @ d)))"
proof -
  have ne: "head_text (us @ vs) @ d \<noteq> []" using assms(1,2) by (cases "us @ vs") auto
  obtain m xs where m: "buf b = Some m" "drop 0 m = (head_text (us @ vs) @ d) @ 0 # xs" using buf_rep_drop0 [OF assms(6) ne] by blast
  have n: "len b = length (head_text (us @ vs) @ d)" using buf_rep_len [OF assms(6)] .
  have 1: "http2d_header_del_entry b name (length name) = Some (ret_not_found, b)" if "vs = []"
    using del_entry_none [of 0 m us d xs name "len b" b] m n assms that by (simp add: http2d_header_del_entry_def)
  have 2: "\<exists>b'. http2d_header_del_entry b name (length name) = Some (ret_ok, b') \<and>
      buf_rep b' (if tl vs = [] then head_text us else head_text (us @ tl vs) @ d)" if v: "vs \<noteq> []" "starts (fst (hd vs)) name"
  proof -
    obtain l e ws where vs: "vs = (l, e) # ws" using v(1) by (cases vs) auto
    define k where "k = length (l @ e) + (if ws = [] then length d else 0)"
    have t: "head_text (us @ vs) @ d = head_text us @ (l @ e) @ head_text ws @ d" by (simp add: vs head_text_def)
    have k: "length (head_text us) + k \<le> length (head_text (us @ vs) @ d)" unfolding t by (simp add: k_def)
    have "length (head_text (us @ vs) @ d) < 2 ^ 31" using assms(6) by (auto elim!: buf_rep_cases)
    then have u: "u32 k = k" using k by (intro u32_id) (simp del: length_append)
    have "drop 0 m = head_text us @ head_text ((l, e) # ws) @ d @ 0 # xs" using m(2) t by simp
    from del_entry_at [OF this _ assms(3,4,5)] have "http2d_header_del_entry b name (length name) = do {
        (_, b) \<leftarrow> http2d_buffer_remove_chunk b (length (head_text us)) k; Some (ret_ok, b) }"
      using m(1) n assms(1) v(2) vs u by (simp add: http2d_header_del_entry_def k_def)
    moreover obtain b' where "http2d_buffer_remove_chunk b (length (head_text us)) k = Some (ret_ok, b')"
      "buf_rep b' (take (length (head_text us)) (head_text (us @ vs) @ d) @ drop (length (head_text us) + k) (head_text (us @ vs) @ d))"
      using remove_chunk_rep [OF assms(6) k] m(1) by auto
    moreover have "take (length (head_text us)) (head_text (us @ vs) @ d) @ drop (length (head_text us) + k) (head_text (us @ vs) @ d) =
        (if ws = [] then head_text us else head_text (us @ ws) @ d)" unfolding t by (simp add: k_def head_text_def)
    ultimately show ?thesis by (auto simp: vs)
  qed
  show ?thesis using 1 2 by blast
qed

theorem http2d_header_del_entry_correct_witness:
  "\<exists>b'. http2d_header_del_entry (http2d_buffer_fake (Some (lit ''Host: a'' @ [CR, LF] @ lit ''Range: 1'' @ [CR, LF, CR, LF, 0])) 21) (lit ''range'') 5 =
    Some (ret_ok, b') \<and> buf_rep b' (lit ''Host: a'' @ [CR, LF])"
proof -
  let ?us = "[(lit ''Host: a'', [CR, LF])]" and ?vs = "[(lit ''Range: 1'', [CR, LF])]"
  let ?b = "http2d_buffer_fake (Some (lit ''Host: a'' @ [CR, LF] @ lit ''Range: 1'' @ [CR, LF, CR, LF, 0])) 21"
  have "buf_rep ?b (head_text (?us @ ?vs) @ [CR, LF])"
    by (simp add: buf_rep_def http2d_buffer_fake_def buffer_ok_def buffer_term_def buf_str_def u32_def lit_def)
  moreover have "entry_lines (?us @ ?vs)" "blank_end [CR, LF]" "plain (lit ''range'')" "list_all (\<lambda>u. \<not> starts (fst u) (lit ''range'')) ?us"
    "starts (fst (hd ?vs)) (lit ''range'')"
    by (auto simp: plain_def eol_def lit_def chr_def CR_def LF_def SP_def HT_def blank_end_def starts_def tolower_def)
  ultimately show ?thesis using http2d_header_del_entry_correct [of ?us ?vs "[CR, LF]" "lit ''range''" ?b] by (simp add: eval_nat_numeral)
qed

end
