(* ===== verification/Config_Tree.thy ===== *)
theory Config_Tree
  imports Config_Node Util_Text "HOL-Library.Sublist"
begin

text \<open>
  The tree of \<^verbatim>\<open>src/src/config_node.c\<close> as a map from paths to values: \<open>cn_ok\<close> is the type invariant (keys are strings, and different
  among siblings), \<open>cn_lookup\<close> the abstraction and \<open>upd\<close> what adding does to it. \<open>feed\<close> and \<open>items\<close> say what reading a
  list does.
\<close>

subsection \<open>The tree as a map from paths to values\<close>

definition key_ok :: "buffer \<Rightarrow> bool" where
  "key_ok b \<longleftrightarrow> buf b \<noteq> None \<and> buf_rep b (buf_str b) \<and> 0 \<notin> set (buf_str b)"

abbreviation name :: "config_node \<Rightarrow> byte list" where
  "name c \<equiv> buf_str (cn_key c)"

fun cn_ok :: "config_node \<Rightarrow> bool" where
  "cn_ok (Config_Node k v cs) \<longleftrightarrow>
     buf_rep v (buf_str v) \<and> distinct (map name cs) \<and> list_all (\<lambda>c. key_ok (cn_key c)) cs \<and> list_all cn_ok cs"

definition child_of :: "config_node list \<Rightarrow> byte list \<Rightarrow> config_node option" where
  "child_of cs k = find (\<lambda>c. name c = k) cs"

fun cn_lookup :: "config_node \<Rightarrow> byte list list \<Rightarrow> byte list option" where
  "cn_lookup n [] = Some (buf_str (cn_val n))"
| "cn_lookup n (k # ks) = (case child_of (cn_child n) k of None \<Rightarrow> None | Some c \<Rightarrow> cn_lookup c ks)"

text \<open>Adding a value under a path also makes the way to it.\<close>

definition upd :: "byte list list \<Rightarrow> byte list \<Rightarrow> (byte list list \<Rightarrow> byte list option) \<Rightarrow> byte list list \<Rightarrow> byte list option" where
  "upd ks v M p = (if p = ks then Some v else if prefix p ks \<and> M p = None then Some [] else M p)"

lemma cn_ok_alt: "cn_ok n \<longleftrightarrow> buf_rep (cn_val n) (buf_str (cn_val n)) \<and> distinct (map name (cn_child n)) \<and>
    list_all (\<lambda>c. key_ok (cn_key c)) (cn_child n) \<and> list_all cn_ok (cn_child n)"
  by (cases n) simp

lemma key_okI: "buf_rep b s \<Longrightarrow> s \<noteq> [] \<Longrightarrow> 0 \<notin> set s \<Longrightarrow> key_ok b \<and> buf_str b = s"
  by (auto simp: key_ok_def buf_rep_def buf_str_def split: option.splits)

lemma key_cstr_ok: "key_ok b \<Longrightarrow> key_cstr b = Some (buf_str b)"
  using buf_rep_cstr [of b "buf_str b"] by (auto simp: key_ok_def key_cstr_def)

lemma child_of_simps [simp]: "child_of [] k = None" "child_of (c # cs) k = (if name c = k then Some c else child_of cs k)"
  by (simp_all add: child_of_def)

lemma search_child_ok:
  assumes "list_all (\<lambda>c. key_ok (cn_key c)) cs" "key_ok b"
  shows "(case child_of cs (buf_str b) of
      None \<Rightarrow> search_child cs b = Some None
    | Some c \<Rightarrow> \<exists>i. search_child cs b = Some (Some i) \<and> i < length cs \<and> cs ! i = c \<and> name c = buf_str b)"
  using assms(1)
proof (induction cs)
  case (Cons c cs)
  then show ?case using assms(2) by (cases "child_of cs (buf_str b)") (auto simp: key_cstr_ok)
qed simp

lemma child_of_mem: "child_of cs k = Some c \<Longrightarrow> c \<in> set cs \<and> name c = k"
  by (induction cs) (auto split: if_splits)

lemma child_of_None: "child_of cs k = None \<longleftrightarrow> k \<notin> set (map name cs)"
  by (induction cs) auto

lemma child_of_update:
  "distinct (map name cs) \<Longrightarrow> i < length cs \<Longrightarrow> name c = name (cs ! i) \<Longrightarrow>
   child_of (cs[i := c]) k = (if k = name (cs ! i) then Some c else child_of cs k)"
proof (induction cs arbitrary: i)
  case (Cons d cs)
  then show ?case by (cases i) auto
qed simp

lemma child_of_append: "child_of (cs @ ds) k = (case child_of cs k of None \<Rightarrow> child_of ds k | Some c \<Rightarrow> Some c)"
  by (induction cs) auto

lemma lookup_change:
  assumes "child_of (cn_child n') k = Some c'" "\<And>j. j \<noteq> k \<Longrightarrow> child_of (cn_child n') j = child_of (cn_child n) j" "cn_val n' = cn_val n"
    "cn_lookup c' = upd ks v (case child_of (cn_child n) k of None \<Rightarrow> \<lambda>p. if p = [] then Some [] else None | Some c \<Rightarrow> cn_lookup c)"
  shows "cn_lookup n' = upd (k # ks) v (cn_lookup n)"
proof
  fix p
  show "cn_lookup n' p = upd (k # ks) v (cn_lookup n) p"
  proof (cases p)
    case Nil
    then show ?thesis using assms(3) by (simp add: upd_def)
  next
    case (Cons j q)
    show ?thesis
    proof (cases "j = k")
      case True
      show ?thesis using assms(1,4) Cons True by (cases "child_of (cn_child n) k") (auto simp: upd_def)
    next
      case False
      then show ?thesis using assms(2) Cons by (auto simp: upd_def split: option.splits)
    qed
  qed
qed

text \<open>A path as it is written.\<close>

fun join :: "byte list list \<Rightarrow> byte list" where
  "join [] = []"
| "join [k] = k"
| "join (k # ks) = k @ chr CHR ''!'' # join ks"

definition parts_ok :: "byte list list \<Rightarrow> bool" where
  "parts_ok ks \<longleftrightarrow> list_all (\<lambda>k. k \<noteq> [] \<and> 0 \<notin> set k \<and> chr CHR ''!'' \<notin> set k \<and> length k + 17 < 2 ^ 31) ks"

lemma bang: "chr CHR ''!'' = 33" "chr CHR ''!'' \<noteq> 0"
  by (simp_all add: chr_def)

lemma join_Cons: "ks \<noteq> [] \<Longrightarrow> join (k # ks) = k @ 33 # join ks"
  by (cases ks) (simp_all add: bang)

lemma join_nz: "parts_ok ks \<Longrightarrow> 0 \<notin> set (join ks)"
  by (induction ks rule: join.induct) (auto simp: parts_ok_def bang)

lemma strchr_append: "c \<notin> set s \<Longrightarrow> strchr (s @ c # t) c = Some (length s)"
  by (induction s) auto

lemma strchr_none: "c \<notin> set s \<Longrightarrow> strchr s c = None"
  by (induction s) auto

lemma next_part_ok:
  assumes "drop p key = join (k # ks) @ 0 # xs" "parts_ok (k # ks)" "buf_rep tmp []"
  shows "\<exists>t. next_part (total_heap f) key p tmp = Some (t, if ks = [] then None else Some (p + length k + 1)) \<and> key_ok t \<and> buf_str t = k"
proof -
  have c: "cstr key p = Some (join (k # ks))" by (rule cstr_drop0 [OF assms(1) join_nz [OF assms(2)]])
  have k: "k \<noteq> []" "0 \<notin> set k" "33 \<notin> set k" "length k + 17 < 2 ^ 31" using assms(2) by (auto simp: parts_ok_def bang)
  have t: "take (length k) (drop p key) = k" "length k \<le> length (drop p key)"
    unfolding assms(1) by (cases ks; simp add: join_Cons)+
  obtain t where t: "http2d_buffer_add (total_heap f) tmp (Ext (drop p key)) (length k) = Some (ret_ok, t)" "buf_rep t k"
    using grows_to_total [OF http2d_buffer_add_rep [OF assms(3) t(2), of "total_heap f"]] k(4) t(1) by auto
  have "key_ok t \<and> buf_str t = k" by (rule key_okI [OF t(2) k(1,2)])
  moreover have "next_part (total_heap f) key p tmp = Some (t, if ks = [] then None else Some (p + length k + 1))"
  proof (cases ks)
    case Nil
    then show ?thesis using c t(1) k(3) by (simp add: next_part_def bang strchr_none)
  next
    case (Cons j js)
    then show ?thesis using c t(1) k(3) by (simp add: next_part_def bang join_Cons strchr_append)
  qed
  ultimately show ?thesis by blast
qed

lemma clean_ok:
  assumes "key_ok b" shows "\<exists>b'. http2d_buffer_clean b = Some b' \<and> buf_rep b' []"
  using http2d_buffer_clean_rep [of b] assms by (metis key_ok_def buf_rep_def)

lemma set_value_ok:
  assumes "buf_rep v s" "buf_rep val t" "length t + 17 < 2 ^ 31"
  shows "\<exists>v1 v2. http2d_buffer_clean v = Some v1 \<and> http2d_buffer_add_buffer (total_heap f) v1 val = Some (ret_ok, v2) \<and> buf_rep v2 t"
proof -
  obtain v1 where v1: "http2d_buffer_clean v = Some v1" "buf_rep v1 []" using http2d_buffer_clean_rep [of v] assms(1) by (metis buf_rep_def)
  obtain v2 where "http2d_buffer_add_buffer (total_heap f) v1 val = Some (ret_ok, v2)" "buf_rep v2 t"
    using grows_to_total [OF http2d_buffer_add_buffer_rep [OF v1(2) assms(2), of "total_heap f"]] assms(3) by auto
  with v1 show ?thesis by blast
qed

text \<open>The child for the next part of the path: the one that is there, or a new one.\<close>

definition fresh_child :: "buffer \<Rightarrow> config_node" where
  "fresh_child k = Config_Node k HTTP2D_BUF_INIT []"

lemma buf_str_INIT [simp]: "buf_str HTTP2D_BUF_INIT = []"
  by (simp add: HTTP2D_BUF_INIT_def buf_str_def)

lemma fresh_lookup: "cn_lookup (fresh_child k) p = (if p = [] then Some [] else None)"
  by (cases p) (simp_all add: fresh_child_def)

lemma cn_ok_fresh: "cn_ok (fresh_child k)"
  by (simp add: fresh_child_def)

lemma add_new_child_ok:
  assumes "key_ok t" "buf_str t \<noteq> []" "length (buf_str t) + 17 < 2 ^ 31"
  shows "\<exists>k. add_new_child (total_heap f) cs t = Some (Some (cs @ [fresh_child k])) \<and> key_ok k \<and> buf_str k = buf_str t"
proof -
  have r: "buf_rep t (buf_str t)" "0 \<notin> set (buf_str t)" using assms(1) by (auto simp: key_ok_def)
  obtain k where k: "http2d_buffer_add_buffer (total_heap f) HTTP2D_BUF_INIT t = Some (ret_ok, k)" "buf_rep k (buf_str t)"
    using grows_to_total [OF http2d_buffer_add_buffer_rep [OF buf_rep_INIT r(1), of "total_heap f"]] assms(3) by auto
  then show ?thesis using key_okI [OF k(2) assms(2) r(2)]
    by (auto simp: add_new_child_def http2d_config_node_new_def http2d_config_node_init_def fresh_child_def)
qed

text \<open>The entries that an iteration of the loop goes on with, and the position of the child among them.\<close>

definition child_ready :: "config_node \<Rightarrow> byte list \<Rightarrow> config_node list \<Rightarrow> nat \<Rightarrow> bool" where
  "child_ready n k cs i \<longleftrightarrow> i < length cs \<and> name (cs ! i) = k \<and> cn_ok (cs ! i) \<and>
     cn_lookup (cs ! i) = (case child_of (cn_child n) k of None \<Rightarrow> \<lambda>p. if p = [] then Some [] else None | Some c \<Rightarrow> cn_lookup c) \<and>
     distinct (map name cs) \<and> list_all (\<lambda>c. key_ok (cn_key c)) cs \<and> list_all cn_ok cs \<and>
     (\<forall>j. j \<noteq> k \<longrightarrow> child_of cs j = child_of (cn_child n) j)"

lemma child_step:
  assumes "cn_ok n" "key_ok t" "buf_str t = k" "k \<noteq> []" "length k + 17 < 2 ^ 31"
  shows "\<exists>child cs i. search_child (cn_child n) t = Some child \<and>
    (case child of Some i \<Rightarrow> Some (Some (cn_child n)) | None \<Rightarrow> add_new_child (total_heap f) (cn_child n) t) = Some (Some cs) \<and>
    i = (case child of Some i \<Rightarrow> i | None \<Rightarrow> length cs - 1) \<and> child_ready n k cs i"
proof -
  have n: "distinct (map name (cn_child n))" "list_all (\<lambda>c. key_ok (cn_key c)) (cn_child n)" "list_all cn_ok (cn_child n)"
    using assms(1) by (auto simp: cn_ok_alt)
  note s = search_child_ok [OF n(2) assms(2), unfolded assms(3)]
  show ?thesis
  proof (cases "child_of (cn_child n) k")
    case (Some c)
    then obtain i where i: "search_child (cn_child n) t = Some (Some i)" "i < length (cn_child n)" "cn_child n ! i = c" "name c = k" using s by auto
    then have "cn_ok c" using n(3) by (auto simp: list_all_length)
    then have "child_ready n k (cn_child n) i" using i n Some by (simp add: child_ready_def)
    then show ?thesis using i(1) by (intro exI [of _ "Some i"] exI [of _ "cn_child n"] exI [of _ i]) simp
  next
    case None
    obtain b where b: "add_new_child (total_heap f) (cn_child n) t = Some (Some (cn_child n @ [fresh_child b]))" "key_ok b" "buf_str b = k"
      using add_new_child_ok [of t f "cn_child n"] assms by auto
    have nm: "name (fresh_child b) = k" "cn_key (fresh_child b) = b" by (simp_all add: fresh_child_def b(3))
    have "k \<notin> set (map name (cn_child n))" using None by (simp add: child_of_None)
    then have "child_ready n k (cn_child n @ [fresh_child b]) (length (cn_child n))" using b(2) n None nm
      by (auto simp: child_ready_def fresh_lookup cn_ok_fresh child_of_append fun_eq_iff split: option.splits)
    then show ?thesis using s b(1) None
      by (intro exI [of _ None] exI [of _ "cn_child n @ [fresh_child b]"] exI [of _ "length (cn_child n)"]) simp
  qed
qed

text \<open>Once the child has been changed, the node is as it should be.\<close>

lemma child_replaced:
  assumes "child_ready n k cs i" "cn_ok n" "cn_key c = cn_key (cs ! i)" "cn_ok c" "cn_lookup c = upd ks v (cn_lookup (cs ! i))"
  shows "cn_ok (Config_Node (cn_key n) (cn_val n) (cs[i := c]))"
    and "cn_lookup (Config_Node (cn_key n) (cn_val n) (cs[i := c])) = upd (k # ks) v (cn_lookup n)"
proof -
  note r = assms(1) [unfolded child_ready_def]
  have nm: "name c = name (cs ! i)" "name c = k" using assms(3) r by simp_all
  have "map name (cs[i := c]) = (map name cs)[i := name (cs ! i)]" by (simp add: map_update nm(1))
  also have "\<dots> = map name cs" using r by (metis list_update_id nth_map)
  finally have m: "map name (cs[i := c]) = map name cs" .
  have "cn_key c = cn_key (cs ! i)" "key_ok (cn_key (cs ! i))" using assms(3) r by (auto simp: list_all_length)
  then have l: "list_all (\<lambda>c. key_ok (cn_key c)) (cs[i := c])" "list_all cn_ok (cs[i := c])"
    using r assms(4) by (auto simp: list_all_length nth_list_update)
  have "buf_rep (cn_val n) (buf_str (cn_val n))" using assms(2) by (simp add: cn_ok_alt)
  then show "cn_ok (Config_Node (cn_key n) (cn_val n) (cs[i := c]))" using m l r by simp
  show "cn_lookup (Config_Node (cn_key n) (cn_val n) (cs[i := c])) = upd (k # ks) v (cn_lookup n)"
  proof (rule lookup_change [where c' = c])
    have "distinct (map name cs)" "i < length cs" using r by simp_all
    then show "child_of (cn_child (Config_Node (cn_key n) (cn_val n) (cs[i := c]))) k = Some c"
      "\<And>j. j \<noteq> k \<Longrightarrow> child_of (cn_child (Config_Node (cn_key n) (cn_val n) (cs[i := c]))) j = child_of (cn_child n) j"
      using child_of_update [of cs i c] nm r by simp_all
    show "cn_lookup c = upd ks v (case child_of (cn_child n) k of None \<Rightarrow> \<lambda>p. if p = [] then Some [] else None | Some c \<Rightarrow> cn_lookup c)"
      using assms(5) r by simp
  qed simp
qed

lemma add_loop_ok:
  assumes "cn_ok n" "drop p key = join (k # ks) @ 0 # xs" "parts_ok (k # ks)" "buf_rep tmp []" "buf_rep val v" "length v + 17 < 2 ^ 31"
  shows "\<exists>n'. add_loop (total_heap f) key p tmp val n = Some (ret_ok, n') \<and> cn_ok n' \<and> cn_key n' = cn_key n \<and> cn_val n' = cn_val n \<and>
    cn_lookup n' = upd (k # ks) v (cn_lookup n)"
  using assms
proof (induction ks arbitrary: n p k tmp)
  case Nil
  obtain t where t: "next_part (total_heap f) key p tmp = Some (t, None)" "key_ok t" "buf_str t = k"
    using next_part_ok [OF Nil.prems(2-4), of f] by auto
  have k: "k \<noteq> []" "length k + 17 < 2 ^ 31" using Nil.prems(3) by (auto simp: parts_ok_def)
  obtain child cs i where s: "search_child (cn_child n) t = Some child"
    "(case child of Some i \<Rightarrow> Some (Some (cn_child n)) | None \<Rightarrow> add_new_child (total_heap f) (cn_child n) t) = Some (Some cs)"
    "i = (case child of Some i \<Rightarrow> i | None \<Rightarrow> length cs - 1)" "child_ready n k cs i"
    using child_step [OF Nil.prems(1) t(2,3) k, of f] by blast
  obtain t' where t': "http2d_buffer_clean t = Some t'" using clean_ok [OF t(2)] by blast
  have ci: "cn_ok (cs ! i)" using s(4) by (simp add: child_ready_def)
  then have "buf_rep (cn_val (cs ! i)) (buf_str (cn_val (cs ! i)))" by (simp add: cn_ok_alt)
  from set_value_ok [OF this Nil.prems(5,6), of f] obtain v1 v2 where v: "http2d_buffer_clean (cn_val (cs ! i)) = Some v1"
    "http2d_buffer_add_buffer (total_heap f) v1 val = Some (ret_ok, v2)" "buf_rep v2 v" by blast
  define c where "c = set_val v2 (cs ! i)"
  have "add_loop (total_heap f) key p tmp val n = Some (ret_ok, Config_Node (cn_key n) (cn_val n) (cs[i := c]))"
    using t(1) s(1-3) t' v(1,2) by (subst add_loop.simps) (simp add: Let_def c_def)
  moreover have "cn_key c = cn_key (cs ! i)" "cn_ok c" using ci v(3) by (auto simp: c_def set_val_def cn_ok_alt buf_rep_def)
  moreover have "cn_lookup c = upd [] v (cn_lookup (cs ! i))"
  proof
    fix q
    show "cn_lookup c q = upd [] v (cn_lookup (cs ! i)) q" using v(3) by (cases q) (auto simp: c_def set_val_def upd_def buf_rep_def)
  qed
  ultimately show ?case using child_replaced [OF s(4) Nil.prems(1)] by auto
next
  case (Cons k2 ks)
  obtain t where t: "next_part (total_heap f) key p tmp = Some (t, Some (p + length k + 1))" "key_ok t" "buf_str t = k"
    using next_part_ok [OF Cons.prems(2-4), of f] by auto
  have k: "k \<noteq> []" "length k + 17 < 2 ^ 31" "parts_ok (k2 # ks)" using Cons.prems(3) by (auto simp: parts_ok_def)
  obtain child cs i where s: "search_child (cn_child n) t = Some child"
    "(case child of Some i \<Rightarrow> Some (Some (cn_child n)) | None \<Rightarrow> add_new_child (total_heap f) (cn_child n) t) = Some (Some cs)"
    "i = (case child of Some i \<Rightarrow> i | None \<Rightarrow> length cs - 1)" "child_ready n k cs i"
    using child_step [OF Cons.prems(1) t(2,3) k(1,2), of f] by blast
  obtain t' where t': "http2d_buffer_clean t = Some t'" "buf_rep t' []" using clean_ok [OF t(2)] by blast
  have d: "drop (p + length k + 1) key = join (k2 # ks) @ 0 # xs"
    using arg_cong [OF Cons.prems(2), of "drop (length k + 1)"] by (simp add: bang add.commute add.left_commute)
  have "cn_ok (cs ! i)" using s(4) by (simp add: child_ready_def)
  from Cons.IH [OF this d k(3) t'(2) Cons.prems(5,6)] obtain c
    where c: "add_loop (total_heap f) key (p + length k + 1) t' val (cs ! i) = Some (ret_ok, c)" "cn_ok c" "cn_key c = cn_key (cs ! i)"
      "cn_lookup c = upd (k2 # ks) v (cn_lookup (cs ! i))" by blast
  have "add_loop (total_heap f) key p tmp val n = Some (ret_ok, Config_Node (cn_key n) (cn_val n) (cs[i := c]))"
    using t(1) s(1-3) t'(1) c(1) by (subst add_loop.simps) (simp add: Let_def)
  then show ?case using child_replaced [OF s(4) Cons.prems(1) c(3,2,4)] by auto
qed

text \<open>Looking up goes the same way.\<close>

lemma get_loop_ok:
  assumes "cn_ok n" "drop p key = join (k # ks) @ 0 # xs" "parts_ok (k # ks)" "buf_rep tmp []"
  shows "case cn_lookup n (k # ks) of None \<Rightarrow> get_loop (total_heap f) key p tmp n = Some (ret_not_found, None)
    | Some v \<Rightarrow> \<exists>q c. get_loop (total_heap f) key p tmp n = Some (ret_ok, Some q) \<and> node_at n q = Some c \<and> buf_str (cn_val c) = v \<and> cn_ok c"
  using assms
proof (induction ks arbitrary: n p k tmp)
  case Nil
  obtain t where t: "next_part (total_heap f) key p tmp = Some (t, None)" "key_ok t" "buf_str t = k"
    using next_part_ok [OF Nil.prems(2-4), of f] by auto
  obtain t' where t': "http2d_buffer_clean t = Some t'" using clean_ok [OF t(2)] by blast
  have "list_all (\<lambda>c. key_ok (cn_key c)) (cn_child n)" "list_all cn_ok (cn_child n)" using Nil.prems(1) by (simp_all add: cn_ok_alt)
  with search_child_ok [OF this(1) t(2)] t t' show ?case
    by (subst (1 2) get_loop.simps) (auto simp: list_all_length split: option.splits)
next
  case (Cons k2 ks)
  obtain t where t: "next_part (total_heap f) key p tmp = Some (t, Some (p + length k + 1))" "key_ok t" "buf_str t = k"
    using next_part_ok [OF Cons.prems(2-4), of f] by auto
  have k: "parts_ok (k2 # ks)" using Cons.prems(3) by (auto simp: parts_ok_def)
  obtain t' where t': "http2d_buffer_clean t = Some t'" "buf_rep t' []" using clean_ok [OF t(2)] by blast
  have d: "drop (p + length k + 1) key = join (k2 # ks) @ 0 # xs"
    using arg_cong [OF Cons.prems(2), of "drop (length k + 1)"] by (simp add: bang add.commute add.left_commute)
  have n: "list_all (\<lambda>c. key_ok (cn_key c)) (cn_child n)" "list_all cn_ok (cn_child n)" using Cons.prems(1) by (simp_all add: cn_ok_alt)
  note s = search_child_ok [OF n(1) t(2), unfolded t(3)]
  show ?case
  proof (cases "child_of (cn_child n) k")
    case None
    then show ?thesis using s t(1) by (subst (1 2) get_loop.simps) simp
  next
    case (Some c)
    then obtain i where i: "search_child (cn_child n) t = Some (Some i)" "i < length (cn_child n)" "cn_child n ! i = c" using s by auto
    then have c: "cn_ok c" using n(2) by (auto simp: list_all_length)
    have g: "get_loop (total_heap f) key p tmp n = do {
        (ret, q) \<leftarrow> get_loop (total_heap f) key (p + length k + 1) t' c; Some (ret, map_option (Cons i) q) }"
      using t(1) t'(1) i by (subst get_loop.simps) simp
    show ?thesis using Cons.IH [OF c d k t'(2)] Some i unfolding g by (auto split: option.splits)
  qed
qed

lemma join_ne: "parts_ok (k # ks) \<Longrightarrow> join (k # ks) \<noteq> []"
  by (cases ks) (auto simp: parts_ok_def)

lemma get_buf_ok:
  assumes "cn_ok n" "parts_ok (k # ks)" "buf_rep b (join (k # ks))"
  shows "case cn_lookup n (k # ks) of None \<Rightarrow> http2d_config_node_get_buf (total_heap f) n b = Some (ret_not_found, None)
    | Some v \<Rightarrow> \<exists>q c. http2d_config_node_get_buf (total_heap f) n b = Some (ret_ok, Some q) \<and> node_at n q = Some c \<and> buf_str (cn_val c) = v \<and> cn_ok c"
proof -
  obtain m xs where m: "buf b = Some m" "drop 0 m = join (k # ks) @ 0 # xs" using buf_rep_drop0 [OF assms(3) join_ne [OF assms(2)]] by blast
  have e: "http2d_config_node_get_buf (total_heap f) n b = get_loop (total_heap f) m 0 HTTP2D_BUF_INIT n"
    using m(1) by (simp add: http2d_config_node_get_buf_def http2d_config_node_get_def)
  show ?thesis unfolding e by (rule get_loop_ok [OF assms(1) m(2) assms(2) buf_rep_INIT])
qed

definition include_key :: "byte list \<Rightarrow> bool" where
  "include_key s \<longleftrightarrow> s = lit ''include'' \<or> s = lit ''try_include''"

lemma add_buf_ok:
  assumes "cn_ok n" "parts_ok (k # ks)" "buf_rep b (join (k # ks))" "\<not> include_key (join (k # ks))" "buf_rep val v" "length v + 17 < 2 ^ 31"
  shows "\<exists>n'. http2d_config_node_add_buf (total_heap f) reader n b val = Some (ret_ok, n') \<and> cn_ok n' \<and> cn_key n' = cn_key n \<and>
    cn_val n' = cn_val n \<and> cn_lookup n' = upd (k # ks) v (cn_lookup n)"
proof -
  obtain m xs where m: "buf b = Some m" "drop 0 m = join (k # ks) @ 0 # xs" using buf_rep_drop0 [OF assms(3) join_ne [OF assms(2)]] by blast
  have nz: "0 \<notin> set (join (k # ks))" by (rule join_nz [OF assms(2)])
  have l: "length ''include'' = 7" "length ''try_include'' = 11" by simp_all
  obtain r where r: "http2d_buffer_cmp b (lit ''include'' @ [0]) 7 = Some r" "r \<noteq> 0"
    using cmp_literal [OF assms(3) nz, of "''include''", unfolded l(1)] assms(4) by (auto simp: include_key_def)
  obtain q where q: "http2d_buffer_cmp b (lit ''try_include'' @ [0]) 11 = Some q" "q \<noteq> 0"
    using cmp_literal [OF assms(3) nz, of "''try_include''", unfolded l(2)] assms(4) by (auto simp: include_key_def)
  from add_loop_ok [OF assms(1) m(2) assms(2) buf_rep_INIT assms(5,6), of f] m(1) r q show ?thesis
    by (auto simp: http2d_config_node_add_buf_def)
qed

subsection \<open>Lists in values\<close>

text \<open>The pieces of a text between the occurrences of \<open>c\<close>, and the callback run on them until it fails.\<close>

function splits :: "byte \<Rightarrow> byte list \<Rightarrow> byte list list" where
  "splits c s = (case dropWhile (\<lambda>x. x \<noteq> c) s of [] \<Rightarrow> [s] | _ # r \<Rightarrow> takeWhile (\<lambda>x. x \<noteq> c) s # splits c r)"
  by pat_completeness auto
termination
proof (relation "measure (\<lambda>(c, s). length s)")
  fix c s x r
  assume "dropWhile (\<lambda>x. x \<noteq> c) s = x # r"
  then have "length (x # r) \<le> length s" by (metis length_dropWhile_le)
  then show "((c, r), (c, s)) \<in> measure (\<lambda>(c, s). length s)" by simp
qed simp

declare splits.simps [simp del]

fun feed :: "(byte list \<Rightarrow> 's \<Rightarrow> ret_t \<times> 's) \<Rightarrow> byte list list \<Rightarrow> 's \<Rightarrow> ret_t \<times> 's" where
  "feed g [] s = (ret_ok, s)"
| "feed g (t # ts) s = (case g t s of (ret, s) \<Rightarrow> if ret \<noteq> ret_ok then (ret, s) else feed g ts s)"

lemma splits_none: "c \<notin> set s \<Longrightarrow> splits c s = [s]"
proof -
  assume "c \<notin> set s"
  then have d: "dropWhile (\<lambda>x. x \<noteq> c) s = []" by (auto simp: dropWhile_eq_Nil_conv)
  show ?thesis by (subst splits.simps) (simp only: d list.case)
qed

lemma splits_Cons: "c \<notin> set s \<Longrightarrow> splits c (s @ c # r) = s # splits c r"
proof -
  assume c: "c \<notin> set s"
  then have "dropWhile (\<lambda>x. x \<noteq> c) (s @ c # r) = c # r" "takeWhile (\<lambda>x. x \<noteq> c) (s @ c # r) = s" by (induction s) auto
  then show ?thesis by (subst splits.simps) simp
qed

definition items :: "byte list \<Rightarrow> byte list list" where
  "items v = map (dropWhile (\<lambda>c. c = 32)) (splits 44 v)"

lemma skip_spaces_text:
  assumes "drop p m = s @ 0 # xs"
  shows "skip_spaces m p = Some (p + length (takeWhile (\<lambda>c. c = 32) s))"
  using assms
proof (induction s arbitrary: p)
  case Nil
  then show ?case using drop_nth [of p m "[]" 0 xs] by (subst skip_spaces.simps) (simp add: chr_def)
next
  case (Cons c s)
  have "drop (Suc p) m = s @ 0 # xs" using Cons.prems by (metis append_Cons drop_Suc list.sel(3) tl_drop)
  then show ?case using Cons.IH [of "Suc p"] drop_nth [of p m "[]" c "s @ 0 # xs"] Cons.prems by (subst skip_spaces.simps) (auto simp: chr_def)
qed

text \<open>The text before a comma, cut off and put back.\<close>

lemma read_list_loop_ok:
  assumes "drop p m = v @ 0 # xs" "0 \<notin> set v" "\<And>t s. func t s = Some (g t s)"
  shows "\<exists>m'. read_list_loop m p func s = (case feed g (items v) s of (ret, s') \<Rightarrow> Some (ret, m', s')) \<and> length m' = length m \<and>
    (fst (feed g (items v) s) = ret_ok \<longrightarrow> m' = m)"
  using assms(1,2)
proof (induction "length v" arbitrary: p v s rule: less_induct)
  case less
  define b where "b = length (takeWhile (\<lambda>c. c = 32) v)"
  define w where "w = dropWhile (\<lambda>c. c = 32) v"
  have v: "v = replicate b 32 @ w"
  proof -
    have "takeWhile (\<lambda>c. c = 32) v = replicate b 32" unfolding b_def by (induction v) auto
    then show ?thesis unfolding w_def by (metis takeWhile_dropWhile_id)
  qed
  have sk: "skip_spaces m p = Some (p + b)" using skip_spaces_text [OF less.prems(1)] by (simp add: b_def)
  have d: "drop (p + b) m = w @ 0 # xs" using arg_cong [OF less.prems(1), of "drop b"] by (simp add: v add.commute)
  have nz: "0 \<notin> set w" using less.prems(2) by (simp add: v)
  have c: "cstr m (p + b) = Some w" by (rule cstr_drop0 [OF d nz])
  have comma: "chr CHR '','' = 44" by (simp add: chr_def)
  show ?case
  proof (cases "44 \<in> set w")
    case False
    then have "splits 44 v = [v]" by (intro splits_none) (auto simp: v)
    then have i: "items v = [w]" by (simp add: items_def w_def)
    show ?thesis unfolding i using sk c False comma assms(3)
      by (subst read_list_loop.simps) (auto simp: strchr_none split: prod.splits intro!: exI [of _ m])
  next
    case True
    then obtain t r where w: "w = t @ 44 # r" "44 \<notin> set t" by (meson split_list_first)
    have t0: "0 \<notin> set t" "0 \<notin> set r" using nz by (auto simp: w(1))
    have "t = [] \<or> hd t \<noteq> 32" using w(1) by (cases t) (auto simp: w_def dropWhile_eq_Cons_conv)
    then have dt: "dropWhile (\<lambda>c. c = 32) (replicate b 32 @ t) = t" by (cases t) (auto simp: dropWhile_append)
    have i: "items v = t # items r"
    proof -
      have "splits 44 ((replicate b 32 @ t) @ 44 # r) = (replicate b 32 @ t) # splits 44 r" by (rule splits_Cons) (use w(2) in auto)
      then show ?thesis using dt by (simp add: items_def v w(1))
    qed
    have k: "strchr w 44 = Some (length t)" unfolding w(1) by (rule strchr_append [OF w(2)])
    have l: "p + b + length t < length m"
    proof -
      have "length (drop (p + b) m) > length t" by (simp add: d w(1))
      then show ?thesis by simp
    qed
    define m1 where "m1 = m[p + b + length t := 0]"
    have d1: "drop (p + b) m1 = t @ 0 # r @ 0 # xs" using d by (simp add: m1_def drop_update_swap w(1) list_update_append)
    have c1: "cstr m1 (p + b) = Some t" by (rule cstr_drop0 [OF d1 t0(1)])
    have bk: "m1[p + b + length t := 44] = m"
    proof -
      have "m ! (p + b + length t) = 44" using drop_nth [of "p + b" m t 44 "r @ 0 # xs"] d l by (simp add: w(1) blk_get_def split: if_splits)
      then show ?thesis by (simp add: m1_def) (metis list_update_id)
    qed
    have dr: "drop (p + b + length t + 1) m = r @ 0 # xs" using arg_cong [OF d, of "drop (length t + 1)"] by (simp add: w(1) add.commute add.left_commute)
    obtain ret s1 where g: "g t s = (ret, s1)" by (cases "g t s")
    have step: "read_list_loop m p func s = (if ret \<noteq> ret_ok then Some (ret, m1, s1) else read_list_loop m (p + b + length t + 1) func s1)"
      using sk c k comma l c1 bk g assms(3) by (subst read_list_loop.simps) (simp add: blk_set_def m1_def)
    show ?thesis
    proof (cases "ret = ret_ok")
      case False
      then show ?thesis using g by (simp add: step i m1_def)
    next
      case True
      have "length r < length v" by (simp add: v w(1))
      from less.hyps [OF this dr t0(2), of s1] show ?thesis using True g by (simp add: step i)
    qed
  qed
qed

subsection \<open>Properties\<close>

text \<open>C21: The tree implements a map from paths to values. Adding a value under a path of parts that are not empty, any key but
  the two that include files, gives it that value, makes the nodes on the way that were missing with an empty
  value, and changes nothing else; looking up any path then finds the node that holds the value, or \<open>ret_not_found\<close>.\<close>

theorem http2d_config_node_add_get_correct:
  assumes "cn_ok conf" "parts_ok (k # ks)" "buf_rep key (join (k # ks))" "\<not> include_key (join (k # ks))" "buf_rep val v" "length v + 17 < 2 ^ 31"
    and "parts_ok (j # js)" "buf_rep key2 (join (j # js))"
  shows "\<exists>conf'. http2d_config_node_add_buf (total_heap f) reader conf key val = Some (ret_ok, conf') \<and> cn_ok conf' \<and>
    cn_lookup conf' = upd (k # ks) v (cn_lookup conf) \<and>
    (case upd (k # ks) v (cn_lookup conf) (j # js) of
       None \<Rightarrow> http2d_config_node_get_buf (total_heap f) conf' key2 = Some (ret_not_found, None)
     | Some w \<Rightarrow> \<exists>p c. http2d_config_node_get_buf (total_heap f) conf' key2 = Some (ret_ok, Some p) \<and>
         node_at conf' p = Some c \<and> buf_str (cn_val c) = w)"
proof -
  obtain conf' where c: "http2d_config_node_add_buf (total_heap f) reader conf key val = Some (ret_ok, conf')" "cn_ok conf'"
    "cn_lookup conf' = upd (k # ks) v (cn_lookup conf)" using add_buf_ok [OF assms(1-6)] by blast
  show ?thesis using get_buf_ok [OF c(2) assms(7,8), of f] c by (auto split: option.splits)
qed

theorem http2d_config_node_add_get_correct_witness:
  "\<exists>conf p c. http2d_config_node_add_buf (total_heap (\<lambda>_. 0)) (\<lambda>_ _. None) (snd http2d_config_node_init)
      (http2d_buffer_fake_str ''server!port'') (http2d_buffer_fake_str ''80'') = Some (ret_ok, conf) \<and>
    http2d_config_node_get_buf (total_heap (\<lambda>_. 0)) conf (http2d_buffer_fake_str ''server'') = Some (ret_ok, Some p) \<and>
    node_at conf p = Some c \<and> buf_str (cn_val c) = []"
proof -
  have ok: "cn_ok (snd http2d_config_node_init)" by (simp add: http2d_config_node_init_def)
  have j: "join [lit ''server'', lit ''port''] = lit ''server!port''" "join [lit ''server''] = lit ''server''" by (simp_all add: lit_def)
  have p: "parts_ok [lit ''server'', lit ''port'']" "parts_ok [lit ''server'']" by (simp_all add: parts_ok_def lit_def chr_def)
  have i: "\<not> include_key (join [lit ''server'', lit ''port''])" by (simp add: include_key_def lit_def chr_def)
  have r: "buf_rep (http2d_buffer_fake_str ''server!port'') (join [lit ''server'', lit ''port''])"
    "buf_rep (http2d_buffer_fake_str ''80'') (lit ''80'')" "buf_rep (http2d_buffer_fake_str ''server'') (join [lit ''server''])"
    unfolding j by (rule http2d_buffer_fake_str_rep; simp)+
  have u: "upd [lit ''server'', lit ''port''] (lit ''80'') (cn_lookup (snd http2d_config_node_init)) [lit ''server''] = Some []"
    by (simp add: upd_def http2d_config_node_init_def)
  show ?thesis
    using http2d_config_node_add_get_correct [OF ok p(1) r(1) i r(2) _ p(2) r(3), of "\<lambda>_. 0" "\<lambda>_ _. None"] unfolding u by auto
qed

text \<open>\<open>http2d_config_node_read_list\<close> hands the pieces of a value between commas, without the blanks before them, to the callback
  one after the other until it fails, and returns what the callback has returned last; if it never fails
  the value is as it was, although commas have been overwritten on the way.\<close>

theorem http2d_config_node_read_list_correct:
  assumes "buf_rep (cn_val conf) v" "v \<noteq> []" "0 \<notin> set v" "\<And>t s. func t s = Some (g t s)"
  shows "\<exists>conf'. http2d_config_node_read_list h conf None func s = (case feed g (items v) s of (ret, s') \<Rightarrow> Some (ret, s', conf')) \<and>
    (fst (feed g (items v) s) = ret_ok \<longrightarrow> conf' = conf)"
proof -
  obtain m xs where m: "buf (cn_val conf) = Some m" "drop 0 m = v @ 0 # xs" using buf_rep_drop0 [OF assms(1,2)] by blast
  obtain m' where m': "read_list_loop m 0 func s = (case feed g (items v) s of (ret, s') \<Rightarrow> Some (ret, m', s'))"
    "fst (feed g (items v) s) = ret_ok \<longrightarrow> m' = m" using read_list_loop_ok [where func = func and g = g, OF m(2) assms(3,4)] by blast
  obtain ret s' where f: "feed g (items v) s = (ret, s')" by (cases "feed g (items v) s")
  have e: "\<not> http2d_buffer_is_empty (cn_val conf)" using buf_rep_empty [OF assms(1)] assms(2) by simp
  have "http2d_config_node_read_list h conf None func s = Some (ret, s', set_val ((cn_val conf)\<lparr>buf := Some m'\<rparr>) conf)"
    using m(1) m'(1) f e by (simp add: http2d_config_node_read_list_def named_def)
  moreover have "set_val ((cn_val conf)\<lparr>buf := Some m\<rparr>) conf = conf" using m(1) by (cases conf) (simp add: set_val_def)
  ultimately show ?thesis using f m'(2) by auto
qed

theorem http2d_config_node_read_list_correct_witness:
  "\<exists>conf'. http2d_config_node_read_list (total_heap (\<lambda>_. 0)) (Config_Node HTTP2D_BUF_INIT (http2d_buffer_fake_str ''a, bc,d'') []) None
      (\<lambda>t s. Some (ret_ok, s @ [t])) [] = Some (ret_ok, [lit ''a'', lit ''bc'', lit ''d''], conf')"
proof -
  let ?n = "Config_Node HTTP2D_BUF_INIT (http2d_buffer_fake_str ''a, bc,d'') []"
  have v: "lit ''a, bc,d'' = lit ''a'' @ 44 # (lit '' bc'' @ 44 # lit ''d'')" by (simp add: lit_def chr_def)
  have i: "items (lit ''a, bc,d'') = [lit ''a'', lit ''bc'', lit ''d'']"
  proof -
    have n: "44 \<notin> set (lit ''a'')" "44 \<notin> set (lit '' bc'')" "44 \<notin> set (lit ''d'')" by (simp_all add: lit_def chr_def)
    have "items (lit ''a, bc,d'') = map (dropWhile (\<lambda>c. c = 32)) [lit ''a'', lit '' bc'', lit ''d'']"
      unfolding items_def v splits_Cons [OF n(1)] splits_Cons [OF n(2)] splits_none [OF n(3)] ..
    then show ?thesis by (simp add: lit_def chr_def)
  qed
  have r: "buf_rep (cn_val ?n) (lit ''a, bc,d'')" unfolding config_node.sel by (rule http2d_buffer_fake_str_rep) simp
  have "lit ''a, bc,d'' \<noteq> []" "0 \<notin> set (lit ''a, bc,d'')" by (simp_all add: lit_def chr_def)
  from http2d_config_node_read_list_correct [OF r this, of "\<lambda>t s. Some (ret_ok, s @ [t])" "\<lambda>t s. (ret_ok, s @ [t])" "total_heap (\<lambda>_. 0)" "[]"]
  show ?thesis unfolding i by auto
qed

text \<open>A key that begins with an exclamation mark, so that its first part is empty, is fatal as soon as the tree has a child:
  looking it up and adding it both follow a null pointer.\<close>

theorem http2d_config_node_empty_part:
  assumes "cn_ok conf" "cn_child conf \<noteq> []" "s = chr CHR ''!'' # t" "0 \<notin> set t" "buf_rep key s"
  shows "http2d_config_node_get_buf h conf key = None \<and> http2d_config_node_add_buf h reader conf key val = None"
proof -
  have s0: "s \<noteq> []" "0 \<notin> set s" using assms(3,4) by (auto simp: chr_def)
  obtain m xs where m: "buf key = Some m" "drop 0 m = s @ 0 # xs" using buf_rep_drop0 [OF assms(5) s0(1)] by blast
  have "next_part h m 0 HTTP2D_BUF_INIT = Some (HTTP2D_BUF_INIT, Some 1)"
    using cstr_drop0 [OF m(2) s0(2)] assms(3) by (simp add: next_part_def http2d_buffer_add_def)
  moreover have "search_child (cn_child conf) HTTP2D_BUF_INIT = None"
    using assms(1,2) by (cases "cn_child conf") (auto simp: cn_ok_alt key_cstr_ok, simp add: key_cstr_def HTTP2D_BUF_INIT_def)
  ultimately have l: "get_loop h m 0 HTTP2D_BUF_INIT conf = None \<and> add_loop h m 0 HTTP2D_BUF_INIT val conf = None"
    by (subst get_loop.simps, subst add_loop.simps) simp
  have n: "length ''include'' = 7" "length ''try_include'' = 11" by simp_all
  obtain r where r: "http2d_buffer_cmp key (lit ''include'' @ [0]) 7 = Some r" "r \<noteq> 0"
    using cmp_literal [OF assms(5) s0(2), of "''include''", unfolded n(1)] assms(3) by (auto simp: lit_def chr_def)
  obtain q where q: "http2d_buffer_cmp key (lit ''try_include'' @ [0]) 11 = Some q" "q \<noteq> 0"
    using cmp_literal [OF assms(5) s0(2), of "''try_include''", unfolded n(2)] assms(3) by (auto simp: lit_def chr_def)
  show ?thesis using l m(1) r q
    by (simp add: http2d_config_node_get_buf_def http2d_config_node_get_def http2d_config_node_add_buf_def)
qed

theorem http2d_config_node_empty_part_witness:
  "http2d_config_node_get_buf (total_heap (\<lambda>_. 0))
     (Config_Node HTTP2D_BUF_INIT HTTP2D_BUF_INIT [Config_Node (http2d_buffer_fake_str ''a'') HTTP2D_BUF_INIT []]) (http2d_buffer_fake_str ''!b'') = None"
proof -
  let ?c = "Config_Node HTTP2D_BUF_INIT HTTP2D_BUF_INIT [Config_Node (http2d_buffer_fake_str ''a'') HTTP2D_BUF_INIT []]"
  have a: "buf_rep (http2d_buffer_fake_str ''a'') (lit ''a'')" "buf_rep (http2d_buffer_fake_str ''!b'') (lit ''!b'')"
    by (rule http2d_buffer_fake_str_rep; simp)+
  have "key_ok (http2d_buffer_fake_str ''a'')" using key_okI [OF a(1)] by (simp add: lit_def chr_def)
  then have "cn_ok ?c" by simp
  from http2d_config_node_empty_part [OF this _ _ _ a(2), of "lit ''b''"] show ?thesis by (simp add: lit_def chr_def)
qed

end
