(* ===== verification/List_Sort.thy ===== *)
theory List_Sort
  imports List_Links "HOL-Library.Multiset"
begin

text \<open>
  The sort of \<^verbatim>\<open>src/src/list.c\<close>: the loops on pointers compute a merge sort on lists of addresses (\<open>merge_sort\<close>), which is
  the stable sort of the library of HOL.
\<close>

subsection \<open>Merge sort on lists of addresses\<close>

fun merge_runs :: "(lptr \<Rightarrow> lptr \<Rightarrow> int) \<Rightarrow> lptr list \<Rightarrow> lptr list \<Rightarrow> lptr list" where
  "merge_runs cmp [] ys = ys"
| "merge_runs cmp (x # xs) [] = x # xs"
| "merge_runs cmp (x # xs) (y # ys) =
     (if cmp x y \<le> 0 then x # merge_runs cmp xs (y # ys) else y # merge_runs cmp (x # xs) ys)"

function merge_pass :: "(lptr \<Rightarrow> lptr \<Rightarrow> int) \<Rightarrow> nat \<Rightarrow> lptr list \<Rightarrow> lptr list" where
  "merge_pass cmp k xs =
     (if k = 0 \<or> xs = [] then xs
      else merge_runs cmp (take k xs) (take k (drop k xs)) @ merge_pass cmp k (drop (2 * k) xs))"
  by pat_completeness auto
termination by (relation "measure (\<lambda>(_, _, xs). length xs)") auto

function merge_sort :: "(lptr \<Rightarrow> lptr \<Rightarrow> int) \<Rightarrow> nat \<Rightarrow> lptr list \<Rightarrow> lptr list" where
  "merge_sort cmp k xs =
     (if k = 0 \<or> length xs \<le> 2 * k then merge_pass cmp k xs else merge_sort cmp (2 * k) (merge_pass cmp k xs))"
  by pat_completeness auto

declare merge_pass.simps [simp del]

lemma set_merge_runs [simp]: "set (merge_runs cmp xs ys) = set xs \<union> set ys"
  by (induction cmp xs ys rule: merge_runs.induct) auto

lemma length_merge_runs [simp]: "length (merge_runs cmp xs ys) = length xs + length ys"
  by (induction cmp xs ys rule: merge_runs.induct) auto

lemma length_merge_pass [simp]: "length (merge_pass cmp k xs) = length xs"
proof (induction cmp k xs rule: merge_pass.induct)
  case (1 cmp k xs)
  show ?case
  proof (cases "k = 0 \<or> xs = []")
    case False
    then show ?thesis by (subst merge_pass.simps) (simp add: 1 [OF False])
  qed (subst merge_pass.simps, auto)
qed

termination merge_sort
  by (relation "measure (\<lambda>(_, k, xs). length xs - k)") auto

declare merge_sort.simps [simp del]

subsection \<open>The sorted order, and its stability\<close>

definition decides :: "(lptr \<Rightarrow> 'k :: linorder) \<Rightarrow> (lptr \<Rightarrow> lptr \<Rightarrow> int) \<Rightarrow> lptr set \<Rightarrow> bool" where
  "decides f cmp A \<longleftrightarrow> (\<forall>a. a \<in> A \<longrightarrow> (\<forall>b. b \<in> A \<longrightarrow> (cmp a b \<le> 0 \<longleftrightarrow> f a \<le> f b)))"

lemma decides_mono: "decides f cmp A \<Longrightarrow> B \<subseteq> A \<Longrightarrow> decides f cmp B"
  by (auto simp: decides_def)

lemma merge_runs_sorted:
  "decides f cmp (set xs \<union> set ys) \<Longrightarrow> sorted (map f xs) \<Longrightarrow> sorted (map f ys) \<Longrightarrow> sorted (map f (merge_runs cmp xs ys))"
proof (induction cmp xs ys rule: merge_runs.induct)
  case (3 cmp x xs y ys)
  have d: "cmp x y \<le> 0 \<longleftrightarrow> f x \<le> f y" using "3.prems"(1) by (auto simp: decides_def)
  have "decides f cmp (set xs \<union> set (y # ys))" "decides f cmp (set (x # xs) \<union> set ys)" by (rule decides_mono [OF "3.prems"(1)], auto)+
  then show ?case using 3 d by auto
qed auto

lemma merge_runs_stable:
  "decides f cmp (set xs \<union> set ys) \<Longrightarrow> sorted (map f xs) \<Longrightarrow> sorted (map f ys) \<Longrightarrow>
   filter (\<lambda>a. f a = v) (merge_runs cmp xs ys) = filter (\<lambda>a. f a = v) xs @ filter (\<lambda>a. f a = v) ys"
proof (induction cmp xs ys rule: merge_runs.induct)
  case (3 cmp x xs y ys)
  have d: "cmp x y \<le> 0 \<longleftrightarrow> f x \<le> f y" using "3.prems"(1) by (auto simp: decides_def)
  have "decides f cmp (set xs \<union> set (y # ys))" "decides f cmp (set (x # xs) \<union> set ys)" by (rule decides_mono [OF "3.prems"(1)], auto)+
  moreover have "filter (\<lambda>a. f a = v) (x # xs) = []" if "f y < f x" "f y = v" using "3.prems"(2) that by (auto simp: filter_empty_conv)
  ultimately show ?case using 3 d by (auto simp: not_le)
qed auto

function runs :: "(lptr \<Rightarrow> 'k :: linorder) \<Rightarrow> nat \<Rightarrow> lptr list \<Rightarrow> bool" where
  "runs f k xs = (if k = 0 \<or> xs = [] then True else sorted (map f (take k xs)) \<and> runs f k (drop k xs))"
  by pat_completeness auto
termination by (relation "measure (\<lambda>(_, _, xs). length xs)") auto

declare runs.simps [simp del]

lemma runs_two:
  assumes "runs f k xs" "k \<noteq> 0" "xs \<noteq> []"
  shows "sorted (map f (take k xs))" "sorted (map f (take k (drop k xs)))" "runs f k (drop (2 * k) xs)"
proof -
  show "sorted (map f (take k xs))" using assms runs.simps [of f k xs] by simp
  have "runs f k (drop k xs)" using assms runs.simps [of f k xs] by simp
  then have "sorted (map f (take k (drop k xs))) \<and> runs f k (drop k (drop k xs))"
    using assms(2) runs.simps [of f k "drop k xs"] runs.simps [of f k "[]"] by (cases "drop k xs = []") auto
  moreover have "drop k (drop k xs) = drop (2 * k) xs" by (simp add: mult_2 add.commute)
  ultimately show "sorted (map f (take k (drop k xs)))" "runs f k (drop (2 * k) xs)" by simp_all
qed

lemma runs_one: "runs f 1 xs"
proof (induction xs)
  case (Cons x xs)
  have "length (take 1 (x # xs)) = 1" by simp
  then show ?case using Cons by (subst runs.simps) simp
qed (simp add: runs.simps)

lemma runs_short: "length xs \<le> k \<Longrightarrow> k \<noteq> 0 \<Longrightarrow> runs f k xs \<longleftrightarrow> sorted (map f xs)"
  by (subst runs.simps, cases xs) (auto simp: runs.simps [of f k "[]"])

lemma runs_append: "length xs = k \<Longrightarrow> sorted (map f xs) \<Longrightarrow> runs f k ys \<Longrightarrow> runs f k (xs @ ys)"
  by (subst runs.simps) auto

lemma set_take_two: "set (take k xs) \<union> set (take k (drop k xs)) \<subseteq> set xs"
  using set_take_subset [of k xs] set_take_subset [of k "drop k xs"] set_drop_subset [of k xs] by blast

lemma merge_pass_runs:
  "decides f cmp (set xs) \<Longrightarrow> runs f k xs \<Longrightarrow> k \<noteq> 0 \<Longrightarrow>
   runs f (2 * k) (merge_pass cmp k xs) \<and> (\<forall>v. filter (\<lambda>a. f a = v) (merge_pass cmp k xs) = filter (\<lambda>a. f a = v) xs)"
proof (induction cmp k xs rule: merge_pass.induct)
  case (1 cmp k xs)
  show ?case
  proof (cases "xs = []")
    case True
    then show ?thesis by (simp add: merge_pass.simps runs.simps)
  next
    case False
    let ?M = "merge_runs cmp (take k xs) (take k (drop k xs))" let ?R = "merge_pass cmp k (drop (2 * k) xs)"
    have nz: "\<not> (k = 0 \<or> xs = [])" using False "1.prems" by simp
    note two = runs_two [OF "1.prems"(2,3) False]
    have dec: "decides f cmp (set (take k xs) \<union> set (take k (drop k xs)))" "decides f cmp (set (drop (2 * k) xs))"
      using decides_mono [OF "1.prems"(1) set_take_two] decides_mono [OF "1.prems"(1) set_drop_subset] by auto
    have IH: "runs f (2 * k) ?R" "\<And>v. filter (\<lambda>a. f a = v) ?R = filter (\<lambda>a. f a = v) (drop (2 * k) xs)"
      using "1.IH" [OF nz dec(2) two(3) "1.prems"(3)] by auto
    have mp: "merge_pass cmp k xs = ?M @ ?R" using nz by (simp add: merge_pass.simps [of cmp k xs])
    have so: "sorted (map f ?M)" by (rule merge_runs_sorted [OF dec(1) two(1,2)])
    have le: "length ?M = min (2 * k) (length xs)" by simp
    have "runs f (2 * k) (?M @ ?R)"
    proof (cases "length xs \<le> 2 * k")
      case True
      then have "?R = []" by (simp add: merge_pass.simps)
      then show ?thesis using so le True "1.prems"(3) by (simp add: runs_short)
    next
      case False
      then show ?thesis using runs_append [OF _ so IH(1)] le by simp
    qed
    moreover have "filter (\<lambda>a. f a = v) (?M @ ?R) = filter (\<lambda>a. f a = v) xs" for v
    proof -
      have "xs = take k xs @ take k (drop k xs) @ drop (2 * k) xs"
        by (metis append_take_drop_id drop_drop mult_2 add.commute)
      then have "filter (\<lambda>a. f a = v) xs = filter (\<lambda>a. f a = v) (take k xs) @ filter (\<lambda>a. f a = v) (take k (drop k xs)) @ filter (\<lambda>a. f a = v) (drop (2 * k) xs)"
        by (metis filter_append)
      then show ?thesis using merge_runs_stable [OF dec(1) two(1,2), of v] IH(2) by simp
    qed
    ultimately show ?thesis unfolding mp by blast
  qed
qed

lemma filter_keys_set: "(\<forall>v. filter (\<lambda>a. f a = v) ys = filter (\<lambda>a. f a = v) xs) \<Longrightarrow> set ys = set xs \<and> mset ys = mset xs"
proof -
  assume a: "\<forall>v. filter (\<lambda>a. f a = v) ys = filter (\<lambda>a. f a = v) xs"
  have "count (mset ys) x = count (mset xs) x" for x
  proof -
    have "count (mset (filter (\<lambda>a. f a = f x) ys)) x = count (mset (filter (\<lambda>a. f a = f x) xs)) x" using a by simp
    then show ?thesis by simp
  qed
  then have "mset ys = mset xs" by (simp add: multiset_eq_iff)
  then show ?thesis using mset_eq_setD by blast
qed

lemma merge_sort_correct:
  "decides f cmp (set xs) \<Longrightarrow> runs f k xs \<Longrightarrow> k \<noteq> 0 \<Longrightarrow>
   sorted (map f (merge_sort cmp k xs)) \<and> (\<forall>v. filter (\<lambda>a. f a = v) (merge_sort cmp k xs) = filter (\<lambda>a. f a = v) xs)"
proof (induction cmp k xs rule: merge_sort.induct)
  case (1 cmp k xs)
  note p = merge_pass_runs [OF "1.prems"]
  have s: "set (merge_pass cmp k xs) = set xs" using filter_keys_set p by blast
  show ?case
  proof (cases "length xs \<le> 2 * k")
    case True
    have "sorted (map f (merge_pass cmp k xs))" using p True "1.prems"(3) runs_short [of "merge_pass cmp k xs" "2 * k" f] by simp
    then show ?thesis using True p by (subst merge_sort.simps, subst (2) merge_sort.simps) simp
  next
    case False
    then show ?thesis using "1.IH" [of] "1.prems" s p by (subst merge_sort.simps, subst (2) merge_sort.simps) simp
  qed
qed

lemma merge_sort_key:
  assumes "decides f cmp (set xs)"
  shows "merge_sort cmp 1 xs = sort_key f xs"
proof -
  have m: "sorted (map f (merge_sort cmp 1 xs))" "\<forall>v. filter (\<lambda>a. f a = v) (merge_sort cmp 1 xs) = filter (\<lambda>a. f a = v) xs"
    using merge_sort_correct [OF assms runs_one] by auto
  show ?thesis using properties_for_sort_key [of "merge_sort cmp 1 xs" xs f] m filter_keys_set [OF m(2)] by (metis (mono_tags, lifting) filter_cong)
qed

subsection \<open>The loops of the sort\<close>

lemma in_tl: "a \<in> set (tl xs) \<Longrightarrow> a \<in> set xs"
  by (cases xs) auto

lemma step_in_chain:
  assumes "nexts m (x # xs) (Some o1)" "o1 \<notin> set xs"
  shows "step_in m (Some o1) x = Some (first_of xs None)"
  using assms by (cases xs) (auto simp: step_in_def)

lemma split_run_chain:
  "nexts m (x # xs) (Some o1) \<Longrightarrow> o1 \<notin> set xs \<Longrightarrow>
   split_run m (Some o1) k x n = Some (first_of (drop k (x # xs)) None, n + length (take k (x # xs)))"
proof (induction k arbitrary: x xs n)
  case (Suc k)
  show ?case
  proof (cases xs)
    case Nil
    then show ?thesis using step_in_chain [OF Suc.prems] by simp
  next
    case (Cons y ys)
    then show ?thesis using step_in_chain [OF Suc.prems] Suc.IH [of y ys "n + 1"] Suc.prems by simp
  qed
qed simp

text \<open>The list built so far: linked in both directions, the last entry pointing anywhere.\<close>

definition built :: "list_mem \<Rightarrow> lptr list \<Rightarrow> bool" where
  "built m out \<longleftrightarrow> (\<exists>e. nexts m out e) \<and> prevs m None out"

lemma append_entry_built:
  assumes "built m out" "e \<notin> set out" "distinct out" "m e \<noteq> None"
  shows "\<exists>m'. append_entry m (first_of out None) (last_of None out) e = Some (m', first_of (out @ [e]) None, last_of None (out @ [e])) \<and>
    built m' (out @ [e]) \<and> touches (insert e (set out)) m m'"
proof (cases out rule: rev_cases)
  case Nil
  then show ?thesis using assms by (auto simp: append_entry_def set_put built_def)
next
  case (snoc ys y)
  let ?m = "put_prev (put_next m y (Some e)) e (Some y)"
  obtain w where w: "nexts m (ys @ [y]) w" "prevs m None (ys @ [y])" using assms(1) snoc by (auto simp: built_def)
  then have "m y \<noteq> None" by auto
  then have "append_entry m (first_of out None) (last_of None out) e = Some (?m, first_of (out @ [e]) None, last_of None (out @ [e]))"
    using snoc assms(4) by (cases ys) (auto simp: append_entry_def set_put)
  moreover have "nexts ?m (out @ [e]) (le_next (the (m e)))" using w snoc assms by auto
  moreover have "prevs ?m None (out @ [e])" using w snoc assms by auto
  moreover have "touches (insert e (set out)) m ?m" using snoc by simp
  ultimately show ?thesis unfolding built_def by blast
qed

lemma nexts_touch: "touches S m m' \<Longrightarrow> nexts m xs e \<Longrightarrow> S \<inter> set xs = {} \<Longrightarrow> nexts m' xs e"
  using nexts_cong [of xs m' m e] unfolding touches_def by blast

lemma step_in_part:
  assumes "nexts m (x # xs) e" "o1 \<notin> set xs"
  shows "\<exists>p. step_in m (Some o1) x = Some p \<and> (xs \<noteq> [] \<longrightarrow> p = Some (hd xs))"
  using assms by (cases xs) (auto simp: step_in_def)

lemma merge_loop_chain:
  "built m out \<Longrightarrow> nexts m ps e \<Longrightarrow> nexts m qs (Some o1) \<Longrightarrow> distinct (out @ ps @ qs) \<Longrightarrow> o1 \<notin> set (tl ps) \<union> set qs \<Longrightarrow>
   (ps \<noteq> [] \<longrightarrow> p = Some (hd ps)) \<Longrightarrow>
   \<exists>m'. merge_loop cmp m (Some o1) p (length ps) (first_of qs None) k (first_of out None) (last_of None out) =
        Some (m', first_of (drop k qs) None, first_of (out @ merge_runs cmp ps (take k qs)) None,
          last_of None (out @ merge_runs cmp ps (take k qs))) \<and>
      built m' (out @ merge_runs cmp ps (take k qs)) \<and> nexts m' (drop k qs) (Some o1) \<and> touches (set (out @ ps @ qs)) m m'"
proof (induction "length ps + k" arbitrary: m out ps qs p k rule: less_induct)
  case less
  show ?case
  proof (cases "ps = [] \<and> (k = 0 \<or> qs = [])")
    case True
    then show ?thesis using less.prems by (subst merge_loop.simps) auto
  next
    case False
    consider (q) "qs \<noteq> []" "k \<noteq> 0" "ps = [] \<or> \<not> cmp (hd ps) (hd qs) \<le> 0" | (p) "ps \<noteq> []" "k = 0 \<or> qs = [] \<or> cmp (hd ps) (hd qs) \<le> 0"
      using False by (cases "ps = []"; cases "k = 0 \<or> qs = [] \<or> cmp (hd ps) (hd qs) \<le> 0") auto
    then show ?thesis
    proof cases
      case q
      obtain y ys where qs: "qs = y # ys" using q(1) by (cases qs) auto
      obtain j where k: "k = Suc j" using q(2) by (cases k) auto
      have st: "step_in m (Some o1) y = Some (first_of ys None)" using step_in_chain [of m y ys o1] less.prems(3,5) qs by auto
      obtain m1 where m1: "append_entry m (first_of out None) (last_of None out) y = Some (m1, first_of (out @ [y]) None, last_of None (out @ [y]))"
        "built m1 (out @ [y])" "touches (insert y (set out)) m m1"
        using append_entry_built [OF less.prems(1), of y] less.prems(3,4) qs by auto
      have c: "nexts m1 ps e" "nexts m1 ys (Some o1)"
        using nexts_touch [OF m1(3), of ps e] nexts_touch [OF m1(3), of ys "Some o1"] less.prems(2-4) qs by auto
      have mr: "merge_runs cmp ps (take k qs) = y # merge_runs cmp ps (take j ys)" using q(3) qs k by (cases ps) auto
      have "length ps + j < length ps + k" "distinct ((out @ [y]) @ ps @ ys)" "o1 \<notin> set (tl ps) \<union> set ys" using k less.prems(4,5) qs by auto
      from less.hyps [OF this(1) m1(2) c this(2,3) less.prems(6)]
      obtain m' where m': "merge_loop cmp m1 (Some o1) p (length ps) (first_of ys None) j (first_of (out @ [y]) None) (last_of None (out @ [y])) =
          Some (m', first_of (drop j ys) None, first_of ((out @ [y]) @ merge_runs cmp ps (take j ys)) None,
            last_of None ((out @ [y]) @ merge_runs cmp ps (take j ys)))"
        "built m' ((out @ [y]) @ merge_runs cmp ps (take j ys))" "nexts m' (drop j ys) (Some o1)" "touches (set ((out @ [y]) @ ps @ ys)) m1 m'"
        by blast
      have "merge_loop cmp m (Some o1) p (length ps) (first_of qs None) k (first_of out None) (last_of None out) =
          merge_loop cmp m1 (Some o1) p (length ps) (first_of ys None) j (first_of (out @ [y]) None) (last_of None (out @ [y]))"
        using q(3) qs k st m1(1) less.prems(6) by (subst merge_loop.simps, cases ps) simp_all
      moreover have "touches (set (out @ ps @ qs)) m m'"
        by (rule touches_trans [OF touches_mono [OF m1(3)] touches_mono [OF m'(4)]]) (auto simp: qs)
      ultimately show ?thesis using m' mr qs k by (intro exI [of _ m']) simp
    next
      case p
      obtain x xs where ps: "ps = x # xs" using p(1) by (cases ps) auto
      obtain p1 where st: "step_in m (Some o1) x = Some p1" "xs \<noteq> [] \<longrightarrow> p1 = Some (hd xs)"
        using step_in_part [of m x xs e o1] less.prems(2,5) ps by auto
      obtain m1 where m1: "append_entry m (first_of out None) (last_of None out) x = Some (m1, first_of (out @ [x]) None, last_of None (out @ [x]))"
        "built m1 (out @ [x])" "touches (insert x (set out)) m m1"
        using append_entry_built [OF less.prems(1), of x] less.prems(2,4) ps by auto
      have c: "nexts m1 xs e" "nexts m1 qs (Some o1)"
        using nexts_touch [OF m1(3), of xs e] nexts_touch [OF m1(3), of qs "Some o1"] less.prems(2-4) ps by auto
      have mr: "merge_runs cmp ps (take k qs) = x # merge_runs cmp xs (take k qs)" using p(2) ps by (cases k; cases qs; cases xs) auto
      have "length xs + k < length ps + k" "distinct ((out @ [x]) @ xs @ qs)" "o1 \<notin> set (tl xs) \<union> set qs"
        using less.prems(4,5) ps by (auto dest: in_tl)
      from less.hyps [OF this(1) m1(2) c this(2,3) st(2)]
      obtain m' where m': "merge_loop cmp m1 (Some o1) p1 (length xs) (first_of qs None) k (first_of (out @ [x]) None) (last_of None (out @ [x])) =
          Some (m', first_of (drop k qs) None, first_of ((out @ [x]) @ merge_runs cmp xs (take k qs)) None,
            last_of None ((out @ [x]) @ merge_runs cmp xs (take k qs)))"
        "built m' ((out @ [x]) @ merge_runs cmp xs (take k qs))" "nexts m' (drop k qs) (Some o1)" "touches (set ((out @ [x]) @ xs @ qs)) m1 m'"
        by blast
      have "merge_loop cmp m (Some o1) p (length ps) (first_of qs None) k (first_of out None) (last_of None out) =
          merge_loop cmp m1 (Some o1) p1 (length xs) (first_of qs None) k (first_of (out @ [x]) None) (last_of None (out @ [x]))"
        using p(2) ps st(1) m1(1) less.prems(6) by (subst merge_loop.simps, cases qs) auto
      moreover have "touches (set (out @ ps @ qs)) m m'"
        by (rule touches_trans [OF touches_mono [OF m1(3)] touches_mono [OF m'(4)]]) (auto simp: ps)
      ultimately show ?thesis using m' mr ps by (intro exI [of _ m']) simp
    qed
  qed
qed

lemma sort_pass_chain:
  "built m out \<Longrightarrow> nexts m xs (Some o1) \<Longrightarrow> distinct (out @ xs) \<Longrightarrow> o1 \<notin> set (tl xs) \<Longrightarrow> k \<noteq> 0 \<Longrightarrow>
   \<exists>m'. sort_pass cmp m (Some o1) k (first_of xs None) (first_of out None) (last_of None out) n =
        Some (m', first_of (out @ merge_pass cmp k xs) None, last_of None (out @ merge_pass cmp k xs), n + (length xs + (2 * k - 1)) div (2 * k)) \<and>
      built m' (out @ merge_pass cmp k xs) \<and> touches (set (out @ xs)) m m'"
proof (induction "length xs" arbitrary: m out xs n rule: less_induct)
  case less
  show ?case
  proof (cases xs)
    case Nil
    then show ?thesis using less.prems by (subst sort_pass.simps) (simp add: merge_pass.simps)
  next
    case (Cons x ys)
    let ?P = "take k xs" let ?Q = "drop k xs"
    have ne: "?P \<noteq> []" "hd ?P = x" using Cons less.prems(5) by (cases k; simp)+
    have sp: "split_run m (Some o1) k x 0 = Some (first_of ?Q None, length ?P)"
      using split_run_chain [of m x ys o1 k 0] less.prems(2,4) Cons by simp
    have "nexts m (?P @ ?Q) (Some o1)" using less.prems(2) by simp
    then have c: "nexts m ?P (first_of ?Q (Some o1))" "nexts m ?Q (Some o1)" unfolding nexts_append by blast+
    have d: "distinct (out @ ?P @ ?Q)" using less.prems(3) by simp
    have tl: "set (tl ?P) \<union> set ?Q \<subseteq> set (tl xs)"
      using Cons less.prems(5) set_take_subset [of "k - 1" ys] set_drop_subset [of "k - 1" ys] by (cases k) auto
    then have o1: "o1 \<notin> set (tl ?P) \<union> set ?Q" using less.prems(4) by blast
    have p: "?P \<noteq> [] \<longrightarrow> Some x = Some (hd ?P)" using ne(2) by simp
    let ?M = "out @ merge_runs cmp ?P (take k ?Q)"
    obtain m1 where m1: "merge_loop cmp m (Some o1) (Some x) (length ?P) (first_of ?Q None) k (first_of out None) (last_of None out) =
        Some (m1, first_of (drop k ?Q) None, first_of ?M None, last_of None ?M)"
      "built m1 ?M" "nexts m1 (drop k ?Q) (Some o1)" "touches (set (out @ ?P @ ?Q)) m m1"
      using merge_loop_chain [OF less.prems(1) c d o1 p] by blast
    have dd: "drop k ?Q = drop (2 * k) xs" by (simp add: mult_2)
    have sm: "set (take k ?Q) \<union> set (drop (2 * k) xs) = set ?Q" unfolding dd [symmetric] by (metis append_take_drop_id set_append)
    have d1: "distinct (?M @ drop (2 * k) xs)"
    proof -
      have "distinct (take k ?Q @ drop k ?Q)" unfolding append_take_drop_id using d by simp
      then have "set (take k ?Q) \<inter> set (drop k ?Q) = {}" unfolding distinct_append by blast
      then have "set (take k ?Q) \<inter> set (drop (2 * k) xs) = {}" unfolding dd .
      moreover have "distinct (merge_runs cmp ?P (take k ?Q))"
      proof (rule card_distinct)
        have "set ?P \<inter> set (take k ?Q) = {}" 
          using set_take_disj_set_drop_if_distinct [of xs k k] less.prems(3) set_take_subset [of k ?Q] by auto
        then show "card (set (merge_runs cmp ?P (take k ?Q))) = length (merge_runs cmp ?P (take k ?Q))"
          using d by (simp add: card_Un_disjoint distinct_card del: length_take)
      qed
      moreover have "set ?P \<inter> set (drop (2 * k) xs) = {}" using set_take_disj_set_drop_if_distinct [of xs k "2 * k"] less.prems(3) by simp
      ultimately show ?thesis using less.prems(3) sm set_take_subset [of k xs] set_drop_subset [of k xs] by auto
    qed
    have o2: "o1 \<notin> set (tl (drop (2 * k) xs))" using tl less.prems(4) sm by (auto dest: in_tl)
    have "length (drop (2 * k) xs) < length xs" using Cons less.prems(5) by simp
    from less.hyps [OF this m1(2) m1(3) [unfolded dd] d1 o2 less.prems(5), of "n + 1"]
    obtain m' where m': "sort_pass cmp m1 (Some o1) k (first_of (drop (2 * k) xs) None) (first_of ?M None) (last_of None ?M) (n + 1) =
        Some (m', first_of (?M @ merge_pass cmp k (drop (2 * k) xs)) None, last_of None (?M @ merge_pass cmp k (drop (2 * k) xs)),
          n + 1 + (length (drop (2 * k) xs) + (2 * k - 1)) div (2 * k))"
      "built m' (?M @ merge_pass cmp k (drop (2 * k) xs))" "touches (set (?M @ drop (2 * k) xs)) m1 m'" by blast
    have mp: "?M @ merge_pass cmp k (drop (2 * k) xs) = out @ merge_pass cmp k xs"
    proof -
      have "xs \<noteq> []" using Cons by simp
      then show ?thesis using less.prems(5) by (simp add: merge_pass.simps [of cmp k xs])
    qed
    have ct: "n + 1 + (length (drop (2 * k) xs) + (2 * k - 1)) div (2 * k) = n + (length xs + (2 * k - 1)) div (2 * k)"
    proof (cases "2 * k \<le> length xs")
      case True
      let ?L = "length (drop (2 * k) xs) + (2 * k - 1)"
      have e: "length xs + (2 * k - 1) = ?L + 2 * k" using True by simp
      have "(?L + 2 * k) div (2 * k) = ?L div (2 * k) + 1" by (rule div_add_self2) (use less.prems(5) in simp)
      then show ?thesis unfolding e by simp
    next
      case False
      then have "(length xs + (2 * k - 1)) div (2 * k) = 1" using Cons less.prems(5) by (intro div_nat_eqI) auto
      then show ?thesis using False by simp
    qed
    have "sort_pass cmp m (Some o1) k (first_of xs None) (first_of out None) (last_of None out) n =
        sort_pass cmp m1 (Some o1) k (first_of (drop (2 * k) xs) None) (first_of ?M None) (last_of None ?M) (n + 1)"
      using Cons sp m1(1) unfolding dd by (subst sort_pass.simps) simp
    moreover have "touches (set (out @ xs)) m m'"
    proof (rule touches_trans [OF touches_mono [OF m1(4)] touches_mono [OF m'(3)]])
      show "set (out @ ?P @ ?Q) \<subseteq> set (out @ xs)" by simp
      show "set (?M @ drop (2 * k) xs) \<subseteq> set (out @ xs)"
        using set_take_subset [of k xs] set_drop_subset [of k xs] sm by auto
    qed
    ultimately show ?thesis using m'(1,2) unfolding mp ct by (intro exI [of _ m']) simp
  qed
qed

lemma set_merge_pass [simp]: "set (merge_pass cmp k xs) = set xs"
proof (induction cmp k xs rule: merge_pass.induct)
  case (1 cmp k xs)
  show ?case
  proof (cases "k = 0 \<or> xs = []")
    case False
    have "set xs = set (take k xs) \<union> set (take k (drop k xs)) \<union> set (drop (2 * k) xs)"
      by (metis Un_assoc append_take_drop_id drop_drop mult_2 set_append)
    then show ?thesis using False 1 [OF False] by (subst merge_pass.simps) simp
  qed (subst merge_pass.simps, auto)
qed

lemma distinct_merge_pass: "distinct xs \<Longrightarrow> distinct (merge_pass cmp k xs)"
  by (rule card_distinct) (simp add: distinct_card)

lemma ring_close:
  assumes "built m xs" "distinct xs" "xs \<noteq> []"
  shows "\<exists>m1 m'. set_next m (last xs) (Some (hd xs)) = Some m1 \<and> set_prev m1 (hd xs) (Some (last xs)) = Some m' \<and> ring m' xs \<and>
    touches (set xs) m m'"
proof -
  obtain e where e: "nexts m xs e" "prevs m None xs" using assms(1) by (auto simp: built_def)
  let ?m = "put_prev (put_next m (last xs) (Some (hd xs))) (hd xs) (Some (last xs))"
  have mm: "m (hd xs) \<noteq> None" "m (last xs) \<noteq> None" using nexts_mem [OF e(1)] assms(3) by auto
  have "nexts ?m xs (Some (hd xs))"
  proof -
    have "xs = butlast xs @ [last xs]" using assms(3) by simp
    then have b: "nexts m (butlast xs @ [last xs]) e" "last xs \<notin> set (butlast xs)" using e(1) assms(2) by (metis, metis distinct_butlast not_distinct_conv_prefix)
    then have "nexts ?m (butlast xs @ [last xs]) (Some (hd xs))" using mm by simp
    then show ?thesis using assms(3) by simp
  qed
  moreover have "prevs ?m (Some (last xs)) xs" using e(2) assms(2,3) mm by (cases xs) auto
  ultimately have "ring ?m xs" using assms(2,3) by (simp add: ring_def first_of_ne last_of_ne)
  then show ?thesis using mm assms(3) by (auto simp: set_put)
qed

lemma sort_loop_ring:
  "ring m xs \<Longrightarrow> xs \<noteq> [] \<Longrightarrow> k \<noteq> 0 \<Longrightarrow> length xs < 2 ^ 31 \<Longrightarrow>
   \<exists>m'. sort_loop cmp m k (hd xs) = Some (m', hd (merge_sort cmp k xs)) \<and> ring m' (merge_sort cmp k xs) \<and> touches (set xs) m m' \<and>
     set (merge_sort cmp k xs) = set xs \<and> merge_sort cmp k xs \<noteq> []"
proof (induction cmp k xs arbitrary: m rule: merge_sort.induct)
  case (1 cmp k xs)
  let ?o = "hd xs" let ?ys = "merge_pass cmp k xs"
  have x: "first_of xs None = Some ?o" "?o \<notin> set (tl xs)" "distinct xs" "nexts m xs (Some ?o)"
    using "1.prems"(1,2) by (auto simp: ring_def first_of_ne neq_Nil_conv)
  have "built m []" "distinct ([] @ xs)" using x(3) by (simp_all add: built_def)
  from sort_pass_chain [OF this(1) x(4) this(2) x(2) "1.prems"(3), of cmp 0]
  obtain m1 where m1: "sort_pass cmp m (Some ?o) k (Some ?o) None None 0 =
      Some (m1, first_of ?ys None, last_of None ?ys, (length xs + (2 * k - 1)) div (2 * k))" "built m1 ?ys" "touches (set xs) m m1"
    by (auto simp: x(1))
  have ne: "?ys \<noteq> []" using "1.prems"(2) by (metis length_merge_pass length_0_conv)
  then have fl: "first_of ?ys None = Some (hd ?ys)" "last_of None ?ys = Some (last ?ys)" by (simp_all add: first_of_ne last_of_ne)
  obtain m2 m3 where m3: "set_next m1 (last ?ys) (Some (hd ?ys)) = Some m2" "set_prev m2 (hd ?ys) (Some (last ?ys)) = Some m3" "ring m3 ?ys"
    "touches (set xs) m1 m3" using ring_close [OF m1(2) distinct_merge_pass [OF x(3)] ne] by auto
  have t: "touches (set xs) m m3" by (rule touches_trans [OF m1(3) m3(4)])
  have nm: "(length xs + (2 * k - 1)) div (2 * k) \<le> 1 \<longleftrightarrow> length xs \<le> 2 * k"
    using div_less_iff_less_mult [of "2 * k" "length xs + (2 * k - 1)" 2] "1.prems"(3) by linarith
  have unf: "sort_loop cmp m k ?o = (if length xs \<le> 2 * k then Some (m3, hd ?ys)
      else if k * 2 < 2 ^ 31 then sort_loop cmp m3 (k * 2) (hd ?ys) else None)"
    using m1(1) m3(1,2) nm fl by (subst sort_loop.simps) simp
  show ?case
  proof (cases "length xs \<le> 2 * k")
    case True
    then show ?thesis using unf m3(3) t ne by (simp add: merge_sort.simps [of cmp k xs])
  next
    case False
    have "\<not> (k = 0 \<or> length xs \<le> 2 * k)" "2 * k \<noteq> 0" "length ?ys < 2 ^ 31" using False "1.prems"(3,4) by simp_all
    from "1.IH" [OF this(1) m3(3) ne this(2,3)]
    obtain m' where m': "sort_loop cmp m3 (2 * k) (hd ?ys) = Some (m', hd (merge_sort cmp (2 * k) ?ys))" "ring m' (merge_sort cmp (2 * k) ?ys)"
      "touches (set xs) m3 m'" "set (merge_sort cmp (2 * k) ?ys) = set xs" "merge_sort cmp (2 * k) ?ys \<noteq> []" by auto
    have "merge_sort cmp k xs = merge_sort cmp (2 * k) ?ys" using False "1.prems"(3) by (simp add: merge_sort.simps [of cmp k xs])
    moreover have "k * 2 < 2 ^ 31" using False "1.prems"(4) by simp
    ultimately show ?thesis using unf m' touches_trans [OF t m'(3)] False by (simp add: mult.commute)
  qed
qed

lemma list_sort:
  assumes "dlist m h xs" "length xs < 2 ^ 31 - 1"
  shows "\<exists>m'. http2d_list_sort m h cmp = Some m' \<and> dlist m' h (merge_sort cmp 1 xs) \<and> touches (insert h (set xs)) m m'"
proof (cases "xs = []")
  case True
  have ms: "merge_sort cmp 1 [] = []" "merge_sort cmp 1 [h] = [h]" by (simp_all add: merge_sort.simps merge_pass.simps)
  obtain n where n: "m h = Some n" "le_next n = Some h" "le_prev n = Some h" using assms(1) True by (auto simp: dlist_def ring_def)
  then have del: "http2d_list_del m h = Some m" by (simp add: http2d_list_del_def set_next_def set_prev_def fun_upd_idem)
  have "ring m [h]" using assms(1) True by (simp add: dlist_def)
  from sort_loop_ring [OF this, of 1 cmp] obtain m1 where m1: "sort_loop cmp m 1 h = Some (m1, h)" "ring m1 [h]" "touches {h} m m1"
    unfolding ms by auto
  obtain n1 where n1: "m1 h = Some n1" "le_next n1 = Some h" "le_prev n1 = Some h" using m1(2) by (auto simp: ring_def)
  then have "http2d_list_sort m h cmp = Some m1"
    using n del m1(1) by (simp add: http2d_list_sort_def set_next_def set_prev_def fun_upd_idem)
  then show ?thesis using m1 True ms by (simp add: dlist_def)
next
  case False
  let ?ys = "merge_sort cmp 1 xs"
  obtain n where n: "m h = Some n" "le_next n = Some (hd xs)" using dlist_chain [OF assms(1)] False by (auto simp: first_of_ne)
  obtain m1 where m1: "http2d_list_del m h = Some m1" "ring m1 xs" "m1 h = m h" "touches (set xs) m m1"
    using ring_del [of m h xs] assms(1) False by (auto simp: dlist_def)
  have len: "length xs < 2 ^ 31" "(1 :: nat) \<noteq> 0" using assms(2) by simp_all
  from sort_loop_ring [OF m1(2) False len(2,1), of cmp]
  obtain m2 where m2: "sort_loop cmp m1 1 (hd xs) = Some (m2, hd ?ys)" "ring m2 ?ys" "touches (set xs) m1 m2" "set ?ys = set xs" "?ys \<noteq> []" by blast
  have h: "h \<notin> set xs" using dlist_distinct [OF assms(1)] by simp
  have m2h: "m2 h = Some n" using m2(3) m1(3) n(1) h by (auto simp: touches_def)
  let ?f = "hd ?ys" let ?l = "last ?ys"
  have fl: "?f \<in> set xs" "?l \<in> set xs" using m2(4,5) hd_in_set last_in_set by blast+
  have ne: "?f \<noteq> h" "?l \<noteq> h" "h \<noteq> ?f" "h \<noteq> ?l" using fl h by metis+
  have mm: "m2 ?f \<noteq> None" "m2 ?l \<noteq> None" using ring_mem [OF m2(2)] fl m2(4) by auto
  obtain g where g: "m2 ?f = Some g" "le_prev g = Some ?l"
    using m2(2,5) by (cases ?ys) (auto simp: ring_def last_of_def split: if_splits)
  let ?m = "put_prev (put_next (put_prev (put_next m2 h (Some ?f)) h (Some ?l)) ?l (Some h)) ?f (Some h)"
  have "http2d_list_sort m h cmp = Some ?m"
    using n m1(1) m2(1) m2h mm g ne by (simp add: http2d_list_sort_def set_put)
  moreover have "ring ?m (h # ?ys)"
    using ring_link [of m2 ?ys "Some ?f" "Some ?l" h] m2(2,4,5) m2h h by (auto simp: ring_def first_of_ne last_of_ne)
  moreover have "touches (insert h (set xs)) m ?m"
    using fl touches_mono [OF touches_trans [OF m1(4) m2(3)], of "insert h (set xs)"] by auto
  ultimately show ?thesis by (auto simp: dlist_def)
qed

subsection \<open>Properties\<close>

text \<open>C13: \<open>http2d_list_sort\<close> is a stable merge sort: it terminates, follows no null or dangling pointer, writes only to the
  entries of the list, and leaves the circular list of exactly the entries that \<open>sort_key\<close> gives for any key the
  comparison decides by, in particular entries with equal keys in their old order. An empty list stays empty.\<close>

theorem http2d_list_sort_correct:
  assumes "dlist m head xs" "decides f cmp (set xs)" "length xs < 2 ^ 31 - 1"
  shows "\<exists>m'. http2d_list_sort m head cmp = Some m' \<and> dlist m' head (sort_key f xs) \<and> touches (insert head (set xs)) m m'"
  using list_sort [OF assms(1,3), of cmp] merge_sort_key [OF assms(2)] by simp

theorem http2d_list_sort_correct_witness:
  "\<exists>m m'. dlist m 9 [3, 1, 4, 2] \<and> http2d_list_sort m 9 (\<lambda>a b. int (a div 2) - int (b div 2)) = Some m' \<and> dlist m' 9 [1, 3, 2, 4]"
proof -
  let ?e = "\<lambda>n p. Some \<lparr>le_next = Some n, le_prev = Some p\<rparr>"
  let ?m = "(\<lambda>_. None)(9 := ?e 3 2, 3 := ?e 1 9, 1 := ?e 4 3, 4 := ?e 2 1, 2 := ?e 9 4)"
  let ?f = "\<lambda>a. a div (2 :: nat)"
  have d: "dlist ?m 9 [3, 1, 4, 2]" by (simp add: dlist_def ring_def)
  have "decides ?f (\<lambda>a b. int (a div 2) - int (b div 2)) (set [3, 1, 4, 2])" by (simp add: decides_def)
  from http2d_list_sort_correct [OF d this] show ?thesis using d by (auto simp: sort_key_def)
qed

end
