(* ===== verification/Config_Sort.thy ===== *)
theory Config_Sort
  imports Config_Reader Config_Tree List_Sort
begin

text \<open>
  Sorting and checking a tree of configuration keys: what \<open>sort_lists\<close> and \<open>check_config_node_sanity\<close> of
  \<^verbatim>\<open>src/src/config_reader.c\<close> make of the map that the tree stands for (nothing), and of the order of the children.
\<close>

subsection \<open>The list of the children\<close>

lemma child_links_nexts: "0 < k \<Longrightarrow> k \<le> n \<Longrightarrow> nexts (child_links (n - 1)) [k..<n] (Some 0)"
proof (induction "n - k" arbitrary: k)
  case (Suc d)
  then have k: "[k..<n] = k # [Suc k..<n]" by (simp add: upt_conv_Cons)
  have "nexts (child_links (n - 1)) [Suc k..<n] (Some 0)" using Suc.hyps(1) [of "Suc k"] Suc.hyps(2) Suc.prems by simp
  moreover have "first_of [Suc k..<n] (Some 0) = Some (if k = n - 1 then 0 else k + 1)"
    using Suc.hyps(2) by (auto simp: first_of_def upt_conv_Cons)
  ultimately show ?case unfolding k using Suc.hyps(2) by (simp add: child_links_def)
qed simp

lemma child_links_prevs: "k \<le> n \<Longrightarrow> prevs (child_links (n - 1)) (Some (if k = 0 then n - 1 else k - 1)) [k..<n]"
proof (induction "n - k" arbitrary: k)
  case (Suc d)
  then have k: "[k..<n] = k # [Suc k..<n]" by (simp add: upt_conv_Cons)
  have "prevs (child_links (n - 1)) (Some k) [Suc k..<n]" using Suc.hyps(1) [of "Suc k"] Suc.hyps(2) Suc.prems by simp
  then show ?case unfolding k using Suc.hyps(2) by (auto simp: child_links_def)
qed simp

lemma child_links_dlist: "dlist (child_links n) 0 [1..<Suc n]"
proof -
  have l: "0 # [1..<Suc n] = [0..<Suc n]" by (simp add: upt_conv_Cons del: upt_Suc)
  have f: "first_of [1..<Suc n] (Some 0) = Some (if n = 0 then 0 else 1)" by (cases n) (simp_all add: upt_rec [of "Suc 0"] first_of_def del: upt_Suc)
  have "nexts (child_links n) (0 # [1..<Suc n]) (Some 0)"
    using child_links_nexts [of 1 "Suc n"] f by (auto simp: child_links_def simp del: upt_Suc)
  moreover have "prevs (child_links n) (Some n) [0..<Suc n]" using child_links_prevs [of 0 "Suc n"] by (simp del: upt_Suc)
  moreover have "first_of [0..<Suc n] None = Some 0" by (subst l [symmetric]) simp
  moreover have "last_of None [0..<Suc n] = Some n" by (simp add: last_of_def del: upt_Suc)
  ultimately show ?thesis unfolding dlist_def ring_def l by simp
qed

lemma walk_chain: "nexts m (x # xs) e \<Longrightarrow> walk m x (length xs) = Some xs"
proof (induction xs arbitrary: x)
  case (Cons y ys)
  then show ?case by (auto simp: first_of_def)
qed simp

lemma walk_dlist: "dlist m h xs \<Longrightarrow> walk m h (length xs) = Some xs"
  by (rule walk_chain) (auto simp: dlist_def ring_def)

lemma set_merge_sort [simp]: "set (merge_sort cmp k xs) = set xs"
proof (induction cmp k xs rule: merge_sort.induct)
  case (1 cmp k xs)
  then show ?case by (subst merge_sort.simps) simp
qed

lemma length_merge_sort [simp]: "length (merge_sort cmp k xs) = length xs"
proof (induction cmp k xs rule: merge_sort.induct)
  case (1 cmp k xs)
  then show ?case by (subst merge_sort.simps) simp
qed

lemma child_order_ok:
  assumes "length cs < 2 ^ 31 - 1"
  shows "child_order cs = Some (merge_sort (\<lambda>a b. cmp_num (cs ! (a - 1)) (cs ! (b - 1))) 1 [1..<Suc (length cs)])" (is "_ = Some ?ys")
    and "distinct (merge_sort (\<lambda>a b. cmp_num (cs ! (a - 1)) (cs ! (b - 1))) 1 [1..<Suc (length cs)])"
proof -
  have "length [1..<Suc (length cs)] < 2 ^ 31 - 1" using assms by (simp del: upt_Suc)
  from list_sort [OF child_links_dlist this] obtain m' where
    m': "http2d_list_sort (child_links (length cs)) 0 (\<lambda>a b. cmp_num (cs ! (a - 1)) (cs ! (b - 1))) = Some m'" "dlist m' 0 ?ys" by blast
  have "walk m' 0 (length ?ys) = Some ?ys" by (rule walk_dlist [OF m'(2)])
  then show "child_order cs = Some ?ys" using m'(1) by (simp add: child_order_def del: upt_Suc)
  show "distinct ?ys" using dlist_distinct [OF m'(2)] by simp
qed

subsection \<open>The order of the children\<close>

definition number :: "config_node \<Rightarrow> int" where
  "number c = int_of_long (fst (strtol (name c)))"

definition all_numbers :: "config_node list \<Rightarrow> bool" where
  "all_numbers cs \<longleftrightarrow> list_all (\<lambda>c. number c \<noteq> 0) cs"

definition reorder :: "config_node list \<Rightarrow> config_node list" where
  "reorder cs =
     (if all_numbers cs
      then map (\<lambda>a. cs ! (a - 1)) (merge_sort (\<lambda>a b. cmp_num (cs ! (a - 1)) (cs ! (b - 1))) 1 [1..<Suc (length cs)])
      else cs)"

fun arranged :: "config_node \<Rightarrow> config_node" where
  "arranged (Config_Node k v cs) = Config_Node k v (reorder (map arranged cs))"

fun narrow :: "config_node \<Rightarrow> bool" where
  "narrow (Config_Node k v cs) \<longleftrightarrow> length cs < 2 ^ 31 - 1 \<and> list_all narrow cs"

lemma arranged_sel [simp]: "cn_key (arranged n) = cn_key n" "cn_val (arranged n) = cn_val n"
  by (cases n, simp)+

lemma number_arranged [simp]: "number (arranged c) = number c"
  by (simp add: number_def)

lemma node_num_ok: "key_ok (cn_key c) \<Longrightarrow> node_num c = Some (number c)"
  by (simp add: node_num_def key_cstr_ok number_def)

lemma all_num_ok: "list_all (\<lambda>c. key_ok (cn_key c)) cs \<Longrightarrow> all_num cs = Some (all_numbers cs)"
  by (induction cs) (auto simp: node_num_ok all_numbers_def)

lemma merge_runs_cong: "(\<And>a b. a \<in> set xs \<union> set ys \<Longrightarrow> b \<in> set xs \<union> set ys \<Longrightarrow> c a b = d a b) \<Longrightarrow> merge_runs c xs ys = merge_runs d xs ys"
  by (induction c xs ys rule: merge_runs.induct) auto

lemma those_map_Some: "(\<And>x. x \<in> set xs \<Longrightarrow> f x = Some (g x)) \<Longrightarrow> those (map f xs) = Some (map g xs)"
  by (induction xs) auto

lemma cmp_num_key: "cn_key a = cn_key c \<Longrightarrow> cn_key b = cn_key d \<Longrightarrow> cmp_num a b = cmp_num c d"
  by (simp add: cmp_num_def node_num_def)

lemma merge_pass_cong: "(\<And>a b. a \<in> set xs \<Longrightarrow> b \<in> set xs \<Longrightarrow> c a b = d a b) \<Longrightarrow> merge_pass c k xs = merge_pass d k xs"
proof (induction c k xs rule: merge_pass.induct)
  case (1 c k xs)
  show ?case
  proof (cases "k = 0 \<or> xs = []")
    case False
    have "set (take k xs) \<union> set (take k (drop k xs)) \<subseteq> set xs" by (rule set_take_two)
    then have r: "merge_runs c (take k xs) (take k (drop k xs)) = merge_runs d (take k xs) (take k (drop k xs))"
      by (intro merge_runs_cong "1.prems") auto
    have "merge_pass c k (drop (2 * k) xs) = merge_pass d k (drop (2 * k) xs)"
      by (rule "1.IH" [OF False]) (auto intro!: "1.prems" dest: in_set_dropD)
    then show ?thesis using r by (subst merge_pass.simps, subst (2) merge_pass.simps) simp
  qed (subst merge_pass.simps, subst merge_pass.simps, simp)
qed

lemma merge_sort_cong: "(\<And>a b. a \<in> set xs \<Longrightarrow> b \<in> set xs \<Longrightarrow> c a b = d a b) \<Longrightarrow> merge_sort c k xs = merge_sort d k xs"
proof (induction c k xs rule: merge_sort.induct)
  case (1 c k xs)
  have p: "merge_pass c k xs = merge_pass d k xs" by (rule merge_pass_cong [OF "1.prems"])
  show ?case
  proof (cases "k = 0 \<or> length xs \<le> 2 * k")
    case False
    have "merge_sort c (2 * k) (merge_pass c k xs) = merge_sort d (2 * k) (merge_pass c k xs)"
      by (rule "1.IH" [OF False]) (auto intro: "1.prems")
    then show ?thesis using p False by (subst merge_sort.simps, subst (2) merge_sort.simps) simp
  qed (subst merge_sort.simps, subst merge_sort.simps, simp add: p)
qed

lemma sort_lists_arranged: "cn_ok n \<Longrightarrow> narrow n \<Longrightarrow> sort_lists n = Some (arranged n)"
proof (induction n)
  case (Config_Node k v cs)
  have ih: "those (map sort_lists cs) = Some (map arranged cs)"
    using Config_Node by (intro those_map_Some) (auto simp: list_all_iff)
  have keys: "list_all (\<lambda>c. key_ok (cn_key c)) cs" and len: "length cs < 2 ^ 31 - 1" using Config_Node.prems by auto
  have c: "merge_sort (\<lambda>a b. cmp_num (map arranged cs ! (a - 1)) (map arranged cs ! (b - 1))) 1 [1..<Suc (length cs)] =
      merge_sort (\<lambda>a b. cmp_num (cs ! (a - 1)) (cs ! (b - 1))) 1 [1..<Suc (length cs)]"
    by (rule merge_sort_cong, rule cmp_num_key) auto
  have "all_numbers (map arranged cs) = all_numbers cs" by (simp add: all_numbers_def list_all_iff)
  moreover have "map (\<lambda>a. cs ! (a - 1)) [1..<Suc (length cs)] = cs" for cs :: "config_node list"
    by (rule nth_equalityI) (auto simp del: upt_Suc)
  from this [of "map arranged cs"] have i: "map (\<lambda>a. map arranged cs ! (a - 1)) [1..<Suc (length cs)] = map arranged cs" by simp
  ultimately show ?case using ih all_num_ok [OF keys] child_order_ok(1) [OF len] i unfolding arranged.simps reorder_def length_map c
    by (simp del: upt_Suc)
qed

text \<open>The children are the same, in another order, so that the map is the same.\<close>

lemma pick_all: "map (\<lambda>a. cs ! (a - 1)) [1..<Suc (length cs)] = cs"
  by (rule nth_equalityI) (auto simp del: upt_Suc)

lemma mset_reorder:
  assumes "length cs < 2 ^ 31 - 1"
  shows "mset (reorder cs) = mset cs"
proof (cases "all_numbers cs")
  case True
  let ?ys = "merge_sort (\<lambda>a b. cmp_num (cs ! (a - 1)) (cs ! (b - 1))) 1 [1..<Suc (length cs)]"
  have "mset ?ys = mset [1..<Suc (length cs)]"
    by (rule iffD1 [OF set_eq_iff_mset_eq_distinct [OF child_order_ok(2) [OF assms] distinct_upt]]) simp
  then have "mset (map (\<lambda>a. cs ! (a - 1)) ?ys) = mset (map (\<lambda>a. cs ! (a - 1)) [1..<Suc (length cs)])" unfolding mset_map by (rule arg_cong)
  then show ?thesis using True unfolding pick_all by (simp add: reorder_def del: upt_Suc)
qed (simp add: reorder_def)

lemma child_of_Some: "distinct (map name cs) \<Longrightarrow> child_of cs k = Some c \<longleftrightarrow> c \<in> set cs \<and> name c = k"
  by (induction cs) auto

lemma child_of_mset:
  assumes "mset ds = mset cs" "distinct (map name cs)"
  shows "child_of ds k = child_of cs k"
proof -
  have "mset (map name ds) = mset (map name cs)" using assms(1) by simp
  then have "distinct (map name ds)" using assms(2) by (metis mset_eq_imp_distinct_iff)
  then have "child_of ds k = Some c \<longleftrightarrow> child_of cs k = Some c" for c
    using assms mset_eq_setD [OF assms(1)] by (simp add: child_of_Some)
  then show ?thesis by (metis option.exhaust)
qed

lemma child_of_arranged: "child_of (map arranged cs) k = map_option arranged (child_of cs k)"
  by (induction cs) auto

lemma arranged_ok:
  "cn_ok n \<Longrightarrow> narrow n \<Longrightarrow> cn_ok (arranged n) \<and> cn_lookup (arranged n) = cn_lookup n \<and> mset (map name (cn_child (arranged n))) = mset (map name (cn_child n))"
proof (induction n)
  case (Config_Node k v cs)
  let ?ds = "map arranged cs"
  have len: "length cs < 2 ^ 31 - 1" and d: "distinct (map name cs)" using Config_Node.prems by auto
  have m: "mset (reorder ?ds) = mset ?ds" by (rule mset_reorder) (use len in simp)
  have nm: "map name ?ds = map name cs" by simp
  have mn: "mset (map name (reorder ?ds)) = mset (map name cs)" using m nm by (metis mset_map)
  have ih: "cn_ok (arranged c)" "cn_lookup (arranged c) = cn_lookup c" if "c \<in> set cs" for c
    using Config_Node.IH [OF that] Config_Node.prems that by (auto simp: list_all_iff)
  have "cn_ok (arranged (Config_Node k v cs))"
    using Config_Node.prems ih mset_eq_setD [OF m] mset_eq_imp_distinct_iff [OF mn] by (auto simp: list_all_iff)
  moreover have "cn_lookup (arranged (Config_Node k v cs)) p = cn_lookup (Config_Node k v cs) p" for p
  proof (cases p)
    case (Cons j q)
    have "child_of (reorder ?ds) j = map_option arranged (child_of cs j)"
      using child_of_mset [OF m] d child_of_arranged by (metis nm)
    then show ?thesis using Cons ih child_of_mem [of cs j] by (auto split: option.splits)
  qed simp
  ultimately show ?case using mn by (auto simp: fun_eq_iff)
qed

text \<open>A tree with few paths has few children everywhere.\<close>

lemma finite_lookup: "finite (dom (cn_lookup n))"
proof (induction n)
  case (Config_Node k v cs)
  have "dom (cn_lookup (Config_Node k v cs)) \<subseteq> insert [] (\<Union>c\<in>set cs. Cons (name c) ` dom (cn_lookup c))"
  proof
    fix p
    assume p: "p \<in> dom (cn_lookup (Config_Node k v cs))"
    show "p \<in> insert [] (\<Union>c\<in>set cs. Cons (name c) ` dom (cn_lookup c))"
    proof (cases p)
      case (Cons j q)
      then have "\<exists>c. child_of cs j = Some c \<and> q \<in> dom (cn_lookup c)" using p by (auto split: option.splits)
      then obtain c where "child_of cs j = Some c" "q \<in> dom (cn_lookup c)" by blast
      then show ?thesis using child_of_mem [of cs j c] Cons by auto
    qed simp
  qed
  then show ?case by (rule finite_subset) (use Config_Node.IH in simp)
qed

lemma narrow_dom: "cn_ok n \<Longrightarrow> card (dom (cn_lookup n)) < 2 ^ 31 - 1 \<Longrightarrow> narrow n"
proof (induction n)
  case (Config_Node k v cs)
  let ?n = "Config_Node k v cs"
  have d: "distinct (map name cs)" and ok: "list_all cn_ok cs" using Config_Node.prems by auto
  have s: "(\<lambda>j. [j]) ` set (map name cs) \<subseteq> dom (cn_lookup ?n)"
  proof
    fix p
    assume "p \<in> (\<lambda>j. [j]) ` set (map name cs)"
    then obtain c where c: "c \<in> set cs" "p = [name c]" by auto
    then have "child_of cs (name c) = Some c" using d child_of_Some by blast
    then show "p \<in> dom (cn_lookup ?n)" using c(2) by auto
  qed
  have "length cs = card ((\<lambda>j. [j]) ` set (map name cs))" using distinct_card [OF d] by (simp add: card_image inj_on_def)
  also have "\<dots> \<le> card (dom (cn_lookup ?n))" by (rule card_mono [OF finite_lookup s])
  finally have l: "length cs < 2 ^ 31 - 1" using Config_Node.prems(2) by simp
  have "narrow c" if c: "c \<in> set cs" for c
  proof -
    have "child_of cs (name c) = Some c" using d c child_of_Some by blast
    then have "Cons (name c) ` dom (cn_lookup c) \<subseteq> dom (cn_lookup ?n)" by auto
    then have "card (Cons (name c) ` dom (cn_lookup c)) \<le> card (dom (cn_lookup ?n))" by (rule card_mono [OF finite_lookup])
    moreover have "card (Cons (name c) ` dom (cn_lookup c)) = card (dom (cn_lookup c))" by (simp add: card_image)
    ultimately show ?thesis using Config_Node.IH [OF c] Config_Node.prems(2) ok c by (simp add: list_all_iff)
  qed
  then show ?case using l by (simp add: list_all_iff)
qed

lemma sort_lists_ok:
  assumes "cn_ok n" "card (dom (cn_lookup n)) < 2 ^ 31 - 1"
  shows "\<exists>n'. sort_lists n = Some n' \<and> cn_ok n' \<and> cn_lookup n' = cn_lookup n \<and> cn_key n' = cn_key n \<and> cn_val n' = cn_val n \<and>
    mset (map name (cn_child n')) = mset (map name (cn_child n))"
  using sort_lists_arranged [OF assms(1) narrow_dom [OF assms]] arranged_ok [OF assms(1) narrow_dom [OF assms]] by simp

subsection \<open>Numbers in descending order\<close>

text \<open>The reference: children whose keys are all numbers other than 0 stand in descending order, other children as they were.\<close>

fun by_number :: "config_node \<Rightarrow> config_node" where
  "by_number (Config_Node k v cs) =
     Config_Node k v (if all_numbers cs then sort_key (\<lambda>c. - number c) (map by_number cs) else map by_number cs)"

fun small_numbers :: "config_node \<Rightarrow> bool" where
  "small_numbers (Config_Node k v cs) \<longleftrightarrow> list_all (\<lambda>c. \<bar>number c\<bar> < 2 ^ 30) cs \<and> list_all small_numbers cs"

lemma insort_key_map: "insort_key g (h x) (map h ys) = map h (insort_key (\<lambda>a. g (h a)) x ys)"
  by (induction ys) auto

lemma sort_key_map: "sort_key g (map h xs) = map h (sort_key (\<lambda>a. g (h a)) xs)"
  by (induction xs) (simp_all add: insort_key_map)

lemma cmp_num_le:
  assumes "key_ok (cn_key a)" "key_ok (cn_key b)" "\<bar>number a\<bar> < 2 ^ 30" "\<bar>number b\<bar> < 2 ^ 30"
  shows "cmp_num a b \<le> 0 \<longleftrightarrow> - number a \<le> - number b"
  using assms by (auto simp: cmp_num_def node_num_ok int_of_long_id Let_def)

lemma reorder_sorted:
  assumes "list_all (\<lambda>c. key_ok (cn_key c)) cs" "list_all (\<lambda>c. \<bar>number c\<bar> < 2 ^ 30) cs"
  shows "reorder cs = (if all_numbers cs then sort_key (\<lambda>c. - number c) cs else cs)"
proof (cases "all_numbers cs")
  case True
  have "decides (\<lambda>a. - number (cs ! (a - 1))) (\<lambda>a b. cmp_num (cs ! (a - 1)) (cs ! (b - 1))) (set [1..<Suc (length cs)])"
    unfolding decides_def using assms by (intro allI impI cmp_num_le) (auto simp: list_all_length)
  note m = merge_sort_key [OF this]
  have "map (\<lambda>a. cs ! (a - 1)) (sort_key (\<lambda>a. - number (cs ! (a - 1))) [1..<Suc (length cs)]) =
      sort_key (\<lambda>c. - number c) (map (\<lambda>a. cs ! (a - 1)) [1..<Suc (length cs)])"
    using sort_key_map [of "\<lambda>c. - number c" "\<lambda>a. cs ! (a - 1)"] by simp
  then show ?thesis using True m pick_all [of cs] by (simp add: reorder_def del: upt_Suc)
qed (simp add: reorder_def)

lemma arranged_by_number: "cn_ok n \<Longrightarrow> small_numbers n \<Longrightarrow> arranged n = by_number n"
proof (induction n)
  case (Config_Node k v cs)
  have m: "map arranged cs = map by_number cs" using Config_Node by (auto simp: list_all_iff)
  have "reorder (map arranged cs) = (if all_numbers (map arranged cs) then sort_key (\<lambda>c. - number c) (map arranged cs) else map arranged cs)"
    by (rule reorder_sorted) (use Config_Node.prems in \<open>auto simp: list_all_iff\<close>)
  moreover have "all_numbers (map arranged cs) = all_numbers cs" by (simp add: all_numbers_def list_all_iff)
  ultimately show ?case unfolding arranged.simps m by simp
qed

subsection \<open>Keys that differ only in case\<close>

lemma check_pairs_ok:
  assumes "list_all (\<lambda>c. key_ok (cn_key c)) cs" "list_all (\<lambda>(i, j). i < length cs \<and> j < length cs) ps"
  shows "check_pairs cs ps =
    Some (if list_all (\<lambda>(i, j). i = j \<or> map tolower (name (cs ! i)) \<noteq> map tolower (name (cs ! j))) ps then ret_ok else ret_error)"
  using assms(2)
proof (induction ps)
  case (Cons p ps)
  obtain i j where p: "p = (i, j)" by (cases p)
  then have k: "key_ok (cn_key (cs ! i))" "key_ok (cn_key (cs ! j))" using assms(1) Cons.prems by (auto simp: list_all_length)
  then obtain r where "cmp_by tolower (cn_key (cs ! i)) (cn_key (cs ! j)) = Some r"
    "r = 0 \<longleftrightarrow> map tolower (name (cs ! i)) = map tolower (name (cs ! j))"
    using cmp_by_zero [of "cn_key (cs ! i)" "name (cs ! i)" "cn_key (cs ! j)" "name (cs ! j)" tolower] by (auto simp: key_ok_def)
  then show ?case using Cons p by (simp add: http2d_buffer_case_cmp_buf_def)
qed simp

definition same_but_case :: "byte list set \<Rightarrow> bool" where
  "same_but_case A \<longleftrightarrow> (\<exists>s. s \<in> A \<and> (\<exists>t. t \<in> A \<and> s \<noteq> t \<and> map tolower s = map tolower t))"

lemma check_sanity_ok:
  assumes "cn_ok n"
  shows "check_config_node_sanity n = Some (if same_but_case (set (map name (cn_child n))) then ret_error else ret_ok)"
proof -
  let ?cs = "cn_child n" let ?ps = "List.product [0..<length ?cs] [0..<length ?cs]"
  have k: "list_all (\<lambda>c. key_ok (cn_key c)) ?cs" and d: "distinct (map name ?cs)" using assms by (simp_all add: cn_ok_alt)
  have c: "check_config_node_sanity n =
      Some (if list_all (\<lambda>(i, j). i = j \<or> map tolower (name (?cs ! i)) \<noteq> map tolower (name (?cs ! j))) ?ps then ret_ok else ret_error)"
    unfolding check_config_node_sanity_def by (rule check_pairs_ok [OF k]) (auto simp: list_all_iff)
  have "list_all (\<lambda>(i, j). i = j \<or> map tolower (name (?cs ! i)) \<noteq> map tolower (name (?cs ! j))) ?ps \<longleftrightarrow> \<not> same_but_case (set (map name ?cs))"
    using nth_eq_iff_index_eq [OF d] by (fastforce simp: list_all_iff same_but_case_def in_set_conv_nth)
  then show ?thesis using c by simp
qed

subsection \<open>Properties\<close>

text \<open>C26: \<open>sort_lists\<close> sorts every list of a tree whose keys are all numbers other than 0 in descending order, leaves the other lists as they
  are, and ends; the tree stands for the same map as before. Numbers are smaller than \<open>2 ^ 30\<close> in size, so that the
  differences of the comparison do not overflow.\<close>

theorem sort_lists_correct:
  assumes "cn_ok n" "card (dom (cn_lookup n)) < 2 ^ 31 - 1" "small_numbers n"
  shows "sort_lists n = Some (by_number n) \<and> cn_ok (by_number n) \<and> cn_lookup (by_number n) = cn_lookup n"
  using sort_lists_arranged [OF assms(1) narrow_dom [OF assms(1,2)]] arranged_ok [OF assms(1) narrow_dom [OF assms(1,2)]]
    arranged_by_number [OF assms(1,3)] by simp

theorem sort_lists_correct_witness:
  "\<exists>n'. sort_lists (Config_Node HTTP2D_BUF_INIT HTTP2D_BUF_INIT
      [Config_Node (http2d_buffer_fake_str ''9'') HTTP2D_BUF_INIT [], Config_Node (http2d_buffer_fake_str ''10'') HTTP2D_BUF_INIT []]) = Some n' \<and>
    map name (cn_child n') = [lit ''10'', lit ''9'']"
proof -
  let ?a = "Config_Node (http2d_buffer_fake_str ''9'') HTTP2D_BUF_INIT []" let ?b = "Config_Node (http2d_buffer_fake_str ''10'') HTTP2D_BUF_INIT []"
  let ?n = "Config_Node HTTP2D_BUF_INIT HTTP2D_BUF_INIT [?a, ?b]"
  have r: "buf_rep (http2d_buffer_fake_str ''9'') (lit ''9'')" "buf_rep (http2d_buffer_fake_str ''10'') (lit ''10'')"
    by (rule http2d_buffer_fake_str_rep; simp)+
  have k: "key_ok (cn_key ?a) \<and> name ?a = lit ''9''" "key_ok (cn_key ?b) \<and> name ?b = lit ''10''"
    using key_okI [OF r(1)] key_okI [OF r(2)] by (simp_all add: lit_def chr_def)
  have ok: "cn_ok ?n" using k by (simp add: lit_def chr_def)
  have "dom (cn_lookup ?n) \<subseteq> {[], [lit ''9''], [lit ''10'']}"
  proof
    fix p assume "p \<in> dom (cn_lookup ?n)"
    then show "p \<in> {[], [lit ''9''], [lit ''10'']}" using k by (cases p; cases "tl p") (auto split: if_splits)
  qed
  then have "card (dom (cn_lookup ?n)) \<le> card {[], [lit ''9''], [lit ''10'']}" by (rule card_mono [rotated]) simp
  also have "\<dots> < 2 ^ 31 - 1" by (simp add: card_insert_if)
  finally have c: "card (dom (cn_lookup ?n)) < 2 ^ 31 - 1" .
  have num: "number ?a = 9" "number ?b = 10"
    using k by (simp_all add: number_def strtol_def int_of_long_id isdigit_def isspace_def lit_def chr_def)
  then have "small_numbers ?n" by simp
  from sort_lists_correct [OF ok c this] show ?thesis using k num by (simp add: all_numbers_def)
qed

end
