(* ===== verification/Config_Parse.thy ===== *)
theory Config_Parse
  imports Config_Sort
begin

text \<open>
  Parsing in \<^verbatim>\<open>src/src/config_reader.c\<close>: a text of settings and remarks, with blanks wherever the reader skips them, has the effect of
  its settings, one after the other, on the map of the tree.
\<close>

subsection \<open>Texts\<close>

datatype cline = Setting "byte list list" nat nat "byte list" nat | Include nat nat "byte list" nat | Remark "byte list"

abbreviation line_with :: "byte list \<Rightarrow> nat \<Rightarrow> nat \<Rightarrow> byte list \<Rightarrow> nat \<Rightarrow> byte list" where
  "line_with k a b v c \<equiv> k @ replicate a 32 @ [32, 61, 32] @ replicate b 32 @ v @ replicate c 32"

fun content_text :: "cline \<Rightarrow> byte list" where
  "content_text (Setting ks a b v c) = line_with (join ks) a b v c"
| "content_text (Include a b v c) = line_with (lit ''include'') a b v c"
| "content_text (Remark t) = 35 # t"

definition blank :: "byte \<Rightarrow> bool" where
  "blank c \<longleftrightarrow> c = 32 \<or> c = 9 \<or> c = 13 \<or> c = 10"

definition one_line :: "byte list \<Rightarrow> bool" where
  "one_line s \<longleftrightarrow> 0 \<notin> set s \<and> 10 \<notin> set s \<and> 13 \<notin> set s"

definition key_text :: "byte list \<Rightarrow> bool" where
  "key_text k \<longleftrightarrow> k \<noteq> [] \<and> one_line k \<and> 32 \<notin> set k \<and> hd k \<noteq> 9 \<and> hd k \<noteq> 35"

definition val_text :: "byte list \<Rightarrow> bool" where
  "val_text v \<longleftrightarrow> one_line v \<and> (v \<noteq> [] \<longrightarrow> hd v \<noteq> 32 \<and> last v \<noteq> 32)"

fun content_ok :: "cline \<Rightarrow> bool" where
  "content_ok (Setting ks a b v c) \<longleftrightarrow>
     ks \<noteq> [] \<and> parts_ok ks \<and> \<not> include_key (join ks) \<and> key_text (join ks) \<and> val_text v \<and> length (join ks) + a + b + length v + c \<ge> 2"
| "content_ok (Include a b v c) \<longleftrightarrow> v \<noteq> [] \<and> val_text v"
| "content_ok (Remark t) \<longleftrightarrow> one_line t"

fun line_ok :: "byte list \<times> cline \<times> byte \<Rightarrow> bool" where
  "line_ok (w, c, e) \<longleftrightarrow> list_all blank w \<and> content_ok c \<and> (e = 10 \<or> e = 13)"

fun line_text :: "byte list \<times> cline \<times> byte \<Rightarrow> byte list" where
  "line_text (w, c, e) = w @ content_text c @ [e]"

text \<open>What a line does to the map of the tree. \<open>inc\<close> says what a file does; it may have no result.\<close>

type_synonym cmap = "byte list list \<Rightarrow> byte list option"

fun effect :: "(byte list \<Rightarrow> cmap \<Rightarrow> cmap option) \<Rightarrow> cline \<Rightarrow> cmap \<Rightarrow> cmap option" where
  "effect inc (Setting ks a b v c) M = Some (upd ks v M)"
| "effect inc (Include a b v c) M = inc v M"
| "effect inc (Remark t) M = Some M"

fun effects :: "(byte list \<Rightarrow> cmap \<Rightarrow> cmap option) \<Rightarrow> cline list \<Rightarrow> cmap \<Rightarrow> cmap option" where
  "effects inc [] M = Some M"
| "effects inc (c # cs) M = do { M \<leftarrow> effect inc c M; effects inc cs M }"

text \<open>A map that passes the checks: no two keys at the root differ only in case, and there are not too many paths.\<close>

definition fine :: "cmap \<Rightarrow> bool" where
  "fine M \<longleftrightarrow> finite (dom M) \<and> \<not> same_but_case {k. M [k] \<noteq> None} \<and> card (dom M) < 2 ^ 31 - 1"

definition grows :: "(byte list \<Rightarrow> cmap \<Rightarrow> cmap option) \<Rightarrow> bool" where
  "grows inc \<longleftrightarrow> (\<forall>p M M'. inc p M = Some M' \<longrightarrow> dom M \<subseteq> dom M')"

definition reads_as :: "reader \<Rightarrow> (byte list \<Rightarrow> cmap \<Rightarrow> cmap option) \<Rightarrow> bool" where
  "reads_as reader inc \<longleftrightarrow> (\<forall>conf path p M'. cn_ok conf \<longrightarrow> key_cstr path = Some p \<longrightarrow> inc p (cn_lookup conf) = Some M' \<longrightarrow> fine M' \<longrightarrow>
     (\<exists>conf'. reader conf path = Some (ret_ok, conf') \<and> cn_ok conf' \<and> cn_lookup conf' = M'))"

lemma fine_mono: "fine M' \<Longrightarrow> dom M \<subseteq> dom M' \<Longrightarrow> fine M"
proof -
  assume a: "fine M'" "dom M \<subseteq> dom M'"
  then have "{k. M [k] \<noteq> None} \<subseteq> {k. M' [k] \<noteq> None}" by auto
  then have "\<not> same_but_case {k. M [k] \<noteq> None}" using a(1) unfolding fine_def same_but_case_def by blast
  moreover have "card (dom M) \<le> card (dom M')" using a by (intro card_mono) (auto simp: fine_def)
  ultimately show ?thesis using a finite_subset [OF a(2)] by (auto simp: fine_def)
qed

lemma upd_dom: "dom M \<subseteq> dom (upd ks v M)"
  by (auto simp: upd_def)

lemma effect_grows: "grows inc \<Longrightarrow> effect inc c M = Some M' \<Longrightarrow> dom M \<subseteq> dom M'"
  by (cases c) (simp_all add: grows_def, metis upd_dom)

lemma effects_grows: "grows inc \<Longrightarrow> effects inc cs M = Some M' \<Longrightarrow> dom M \<subseteq> dom M'"
proof (induction cs arbitrary: M)
  case (Cons c cs)
  then obtain M1 where "effect inc c M = Some M1" "effects inc cs M1 = Some M'" by (auto split: Option.bind_splits)
  then show ?case using Cons effect_grows by blast
qed simp

lemma one_line_append [simp]: "one_line (s @ t) \<longleftrightarrow> one_line s \<and> one_line t" "one_line []"
  "one_line (c # s) \<longleftrightarrow> c \<noteq> 0 \<and> c \<noteq> 10 \<and> c \<noteq> 13 \<and> one_line s"
  by (auto simp: one_line_def)

lemma one_line_spaces [simp]: "one_line (replicate n 32)"
  by (auto simp: one_line_def)

lemma include_text: "key_text (lit ''include'')"
  by (simp add: key_text_def lit_def chr_def)

lemma content_one_line: "content_ok c \<Longrightarrow> one_line (content_text c)"
  using include_text by (cases c) (auto simp: key_text_def val_text_def)

lemma key_start: "key_text k \<Longrightarrow> \<exists>x s. k = x # s \<and> \<not> blank x \<and> x \<noteq> 35"
  by (cases k) (auto simp: key_text_def blank_def)

lemma content_start: "content_ok c \<Longrightarrow> \<exists>x s. content_text c = x # s \<and> \<not> blank x \<and> (x = 35 \<longleftrightarrow> (\<exists>t. c = Remark t))"
  using key_start [OF include_text] by (cases c) (auto simp: blank_def dest: key_start)

subsection \<open>One line\<close>

lemma drop_tl: "drop p m = c # s \<Longrightarrow> drop (Suc p) m = s"
  by (metis drop_Suc list.sel(3) tl_drop)

lemma drop_part: "drop p m = s @ t \<Longrightarrow> drop (p + length s) m = t"
  by (metis add.commute append_eq_conv_conj drop_drop)

lemma skip_white_ok:
  "drop p m = w @ c # r \<Longrightarrow> list_all blank w \<Longrightarrow> p + length w \<le> eof \<Longrightarrow> (p + length w < eof \<Longrightarrow> \<not> blank c) \<Longrightarrow>
   skip_white m eof p = Some (p + length w)"
proof (induction w arbitrary: p)
  case Nil
  then show ?case using drop_nth [of p m "[]" c r] by (subst skip_white.simps) (auto simp: blank_def)
next
  case (Cons x w)
  have "drop (Suc p) m = w @ c # r" using Cons.prems(1) by (simp add: drop_tl)
  then have "skip_white m eof (Suc p) = Some (Suc p + length w)" using Cons.IH [of "Suc p"] Cons.prems by simp
  then show ?case using Cons.prems drop_nth [of p m "[]" x "w @ c # r"] by (subst skip_white.simps) (auto simp: blank_def)
qed

lemma strchr_skip: "c \<notin> set t \<Longrightarrow> strchr (t @ s) c = map_option ((+) (length t)) (strchr s c)"
  by (cases "strchr s c"; induction t) auto

lemma find_eol_line:
  assumes "drop p m = t @ e # r" "one_line t" "e = 10 \<or> e = 13" "0 \<in> set r"
  shows "find_eol m eof p = Some (p + length t)"
proof -
  obtain s xs where r: "r = s @ 0 # xs" "0 \<notin> set s" using assms(4) by (metis split_list_first)
  have "cstr m p = Some (t @ e # s)" by (rule cstr_drop0 [of _ _ _ xs]) (use assms r in \<open>auto simp: one_line_def\<close>)
  then show ?thesis using assms(2,3) unfolding find_eol_def
    by (cases "strchr s 10"; cases "strchr s 13") (auto simp: strchr_skip one_line_def http2d_min_str_def)
qed

lemma find_eol_end: "drop p m = t @ 0 # r \<Longrightarrow> one_line t \<Longrightarrow> find_eol m eof p = Some eof"
  using cstr_drop0 [of p m t r] by (simp add: one_line_def find_eol_def strchr_none http2d_min_str_def)

lemma strstr_skip:
  assumes "32 \<notin> set k"
  shows "strstr (k @ replicate a 32 @ [32, 61, 32] @ t) [32, 61, 32] = Some (length k + a)"
proof -
  have "strstr (replicate a 32 @ [32, 61, 32] @ t) [32, 61, 32 :: byte] = Some a"
  proof (induction a)
    case (Suc a)
    have "take (Suc (Suc (Suc 0))) ((32 :: byte) # replicate a 32 @ [32, 61, 32] @ t) \<noteq> [32, 61, 32]" by (cases a) simp_all
    then show ?case using Suc by simp
  qed simp
  with assms show ?thesis
  proof (induction k)
    case (Cons c k)
    have "take (Suc (Suc (Suc 0))) ((c :: byte) # k @ replicate a 32 @ [32, 61, 32] @ t) \<noteq> [32, 61, 32]" using Cons.prems by simp
    then show ?case using Cons by simp
  qed simp
qed

lemma key_end_ok: "drop p m = k @ replicate n 32 @ x # r \<Longrightarrow> k \<noteq> [] \<Longrightarrow> last k \<noteq> 32 \<Longrightarrow> x = 32 \<Longrightarrow> key_end m (p + length k + n) = Some (p + length k - 1)"
proof (induction n arbitrary: r x)
  case 0
  have s: "drop p m = butlast k @ last k # x # r" using 0 by simp
  have g: "blk_get m (p + length k - 1) = Some (last k)" "blk_get m (p + length k) = Some 32"
    using drop_nth [OF s] drop_nth [of p m k x r] 0 by (simp_all add: Suc_leI)
  have "key_end m (p + length k - 1) = Some (p + length k - 1)" using g(1) 0 by (subst key_end.simps) simp
  then show ?case using g(2) 0 by (subst key_end.simps) simp
next
  case (Suc n)
  have s: "drop p m = k @ replicate n 32 @ 32 # x # r" using Suc.prems(1) by (simp add: replicate_app_Cons_same)
  have g: "blk_get m (p + length k + Suc n) = Some 32" using drop_nth [of p m "k @ replicate (Suc n) 32" x r] Suc.prems by (simp add: add.assoc)
  show ?case using Suc.IH [OF s] Suc.prems g by (subst key_end.simps) simp
qed

lemma val_end_ok: "drop p m = v @ replicate n 32 @ r \<Longrightarrow> v = [] \<or> last v \<noteq> 32 \<Longrightarrow> val_end m p (length v + n) = Some (length v)"
proof (induction n arbitrary: r)
  case 0
  show ?case
  proof (cases "v = []")
    case False
    then have s: "drop p m = butlast v @ last v # r" using 0 by simp
    have "blk_get m (p + length v - 1) = Some (last v)" using drop_nth [OF s] False by (simp add: Suc_leI)
    then show ?thesis using False 0 by (subst val_end.simps) (simp add: Suc_leI)
  qed (subst val_end.simps, simp)
next
  case (Suc n)
  have s: "drop p m = v @ replicate n 32 @ 32 # r" using Suc.prems(1) by (simp add: replicate_app_Cons_same)
  have g: "blk_get m (p + (length v + n)) = Some 32" using drop_nth [of p m "v @ replicate n 32" 32 r] s by (simp add: add.assoc)
  show ?case using Suc.IH [OF s] Suc.prems g by (subst val_end.simps) (simp add: add.assoc)
qed

lemma skip_value:
  assumes "drop p m = replicate b 32 @ v @ replicate c 32 @ 0 # r" "v \<noteq> [] \<Longrightarrow> hd v \<noteq> 32"  "0 \<notin> set v"
  shows "\<exists>q n. skip_spaces m p = Some q \<and> drop q m = v @ replicate n 32 @ 0 # r \<and> n \<le> c"
proof -
  let ?t = "replicate b 32 @ v @ replicate c 32"
  have s: "skip_spaces m p = Some (p + length (takeWhile (\<lambda>c. c = 32) ?t))" using skip_spaces_text [of p m ?t r] assms(1) by simp
  show ?thesis
  proof (cases v)
    case Nil
    have tw: "takeWhile (\<lambda>c. c = 32) ?t = ?t" unfolding takeWhile_eq_all_conv using Nil by (simp add: set_replicate_conv_if)
    have "drop (p + length ?t) m = 0 # r" using drop_part [of p m ?t "0 # r"] assms(1) by simp
    then have "drop (p + length ?t) m = v @ replicate 0 32 @ 0 # r" using Nil by simp
    then show ?thesis using s unfolding tw by blast
  next
    case (Cons x w)
    have "takeWhile (\<lambda>c. c = 32) ?t = replicate b 32" using Cons assms(2) by (induction b) simp_all
    moreover have "drop (p + b) m = v @ replicate c 32 @ 0 # r" using drop_part [OF assms(1)] by simp
    ultimately show ?thesis using s by auto
  qed
qed

text \<open>Cutting a line into its key and its value.\<close>

lemma parse_line_cut:
  assumes "key_text k" "val_text v" "drop p m = line_with k a b v c @ 0 # r" "buf_rep key []" "buf_rep val []"
    and "p + length (line_with k a b v c) + 17 < 2 ^ 31"
  shows "\<exists>key' val'. buf_rep key' k \<and> buf_rep val' v \<and> (\<forall>reader conf. parse_line (total_heap f) reader m p key val conf =
    do { (ret, conf) \<leftarrow> http2d_config_node_add_buf (total_heap f) reader conf key' val'; Some (ret, key', val', conf) })"
proof -
  have ok: "k \<noteq> []" "one_line k" "32 \<notin> set k" "one_line v" "v \<noteq> [] \<longrightarrow> hd v \<noteq> 32 \<and> last v \<noteq> 32"
    using assms(1,2) by (auto simp: key_text_def val_text_def)
  have kl: "last k \<noteq> 32" using ok(1,3) last_in_set by metis
  have d: "drop p m = k @ replicate a 32 @ [32, 61, 32] @ replicate b 32 @ v @ replicate c 32 @ 0 # r" using assms(3) by simp
  have s: "cstr m p = Some (line_with k a b v c)"
    by (rule cstr_drop0 [OF assms(3)]) (use ok in \<open>auto simp: one_line_def\<close>)
  have e: "strstr (line_with k a b v c) (lit '' = '') = Some (length k + a)"
    using strstr_skip [OF ok(3)] by (simp add: lit_def chr_def)
  have ke: "key_end m (p + (length k + a)) = Some (p + length k - 1)"
    using key_end_ok [of p m k a 32 "61 # 32 # replicate b 32 @ v @ replicate c 32 @ 0 # r"] d ok(1) kl by (simp add: add.assoc)
  have sub: "sub64 (p + length k - 1 + 1) p = length k" using assms(6) ok(1) by (simp add: sub64_id Suc_leI)
  obtain key' where key': "http2d_buffer_add (total_heap f) key (Ext (drop p m)) (length k) = Some (ret_ok, key')" "buf_rep key' k"
    using grows_to_total [OF http2d_buffer_add_rep [OF assms(4), of "length k" "drop p m" "total_heap f"]] d assms(6) by auto
  have d2: "drop (p + (length k + a) + 3) m = replicate b 32 @ v @ replicate c 32 @ 0 # r"
    using drop_part [of p m "k @ replicate a 32 @ [32, 61, 32]"] d by (simp add: numeral_3_eq_3)
  obtain q n where q: "skip_spaces m (p + (length k + a) + 3) = Some q" "drop q m = v @ replicate n 32 @ 0 # r" "n \<le> c"
    using skip_value [OF d2] ok(4,5) by (auto simp: one_line_def)
  have t: "cstr m q = Some (v @ replicate n 32)"
    by (rule cstr_drop0 [of _ _ _ r]) (use q(2) ok(4) in \<open>auto simp: one_line_def\<close>)
  have ve: "val_end m q (u32 (length (v @ replicate n 32))) = Some (length v)"
    using val_end_ok [OF q(2)] ok(5) assms(6) q(3) by (cases "v = []") (simp_all add: u32_id)
  obtain val' where val': "http2d_buffer_add (total_heap f) val (Ext (drop q m)) (length v) = Some (ret_ok, val')" "buf_rep val' v"
    using grows_to_total [OF http2d_buffer_add_rep [OF assms(5), of "length v" "drop q m" "total_heap f"]] q(2) assms(6) by auto
  show ?thesis using s e ke sub key' q(1) t ve val' by (intro exI [of _ key'] exI [of _ val']) (simp add: parse_line_def)
qed

lemma include_first:
  assumes "buf_rep key (lit ''include'')"
  shows "http2d_config_node_add_buf h reader conf key val = reader conf val"
proof -
  have l: "length ''include'' = 7" "0 \<notin> set (lit ''include'')" by (simp_all add: lit_def chr_def)
  show ?thesis using cmp_literal [OF assms l(2), of "''include''", unfolded l(1)] by (auto simp: http2d_config_node_add_buf_def)
qed

lemma parse_line_ok:
  assumes "content_ok c" "\<And>t. c \<noteq> Remark t" "drop p m = content_text c @ 0 # r" "buf_rep key []" "buf_rep val []" "cn_ok conf"
    and "p + length (content_text c) + 17 < 2 ^ 31" "reads_as reader inc" "effect inc c (cn_lookup conf) = Some M'" "fine M'"
  shows "\<exists>key' val' conf'. parse_line (total_heap f) reader m p key val conf = Some (ret_ok, key', val', conf') \<and>
    (\<exists>k. buf_rep key' k) \<and> (\<exists>v. buf_rep val' v) \<and> cn_ok conf' \<and> cn_lookup conf' = M'"
proof (cases c)
  case (Setting ks a b v d)
  have ok: "parts_ok ks" "\<not> include_key (join ks)" "ks \<noteq> []" "key_text (join ks)" "val_text v" using assms(1) Setting by auto
  obtain j js where ks: "ks = j # js" using ok(3) by (cases ks) auto
  from parse_line_cut [OF ok(4,5) assms(3)[unfolded Setting content_text.simps] assms(4,5), of f] obtain key' val' where
    cut: "buf_rep key' (join ks)" "buf_rep val' v" "\<And>reader conf. parse_line (total_heap f) reader m p key val conf =
    do { (ret, conf) \<leftarrow> http2d_config_node_add_buf (total_heap f) reader conf key' val'; Some (ret, key', val', conf) }"
    using assms(7) Setting by auto
  have "length v + 17 < 2 ^ 31" using assms(7) Setting by simp
  from add_buf_ok [OF assms(6) ok(1)[unfolded ks] cut(1)[unfolded ks] ok(2)[unfolded ks] cut(2) this, of f reader] obtain conf' where
    "http2d_config_node_add_buf (total_heap f) reader conf key' val' = Some (ret_ok, conf')" "cn_ok conf'" "cn_lookup conf' = upd ks v (cn_lookup conf)"
    unfolding ks by blast
  then show ?thesis using cut assms(9) Setting by auto
next
  case (Include a b v d)
  have ok: "v \<noteq> []" "val_text v" using assms(1) Include by auto
  from parse_line_cut [OF include_text ok(2) assms(3)[unfolded Include content_text.simps] assms(4,5), of f] obtain key' val' where
    cut: "buf_rep key' (lit ''include'')" "buf_rep val' v" "\<And>reader conf. parse_line (total_heap f) reader m p key val conf =
    do { (ret, conf) \<leftarrow> http2d_config_node_add_buf (total_heap f) reader conf key' val'; Some (ret, key', val', conf) }"
    using assms(7) Include by auto
  have "key_cstr val' = Some v"
    using key_okI [OF cut(2) ok(1)] key_cstr_ok [of val'] ok(2) by (auto simp: val_text_def one_line_def)
  then obtain conf' where "reader conf val' = Some (ret_ok, conf')" "cn_ok conf'" "cn_lookup conf' = M'"
    using assms(6,8-10) Include unfolding reads_as_def by fastforce
  then show ?thesis using cut include_first [OF cut(1)] by auto
qed (use assms(2) in simp)

lemma drop_set:
  assumes "drop p m = s @ x # r"
  shows "blk_set m (p + length s) y = Some (m[p + length s := y])" "drop p (m[p + length s := y]) = s @ y # r" "drop (p + length s + 1) (m[p + length s := y]) = r"
proof -
  have l: "length (drop p m) = length s + 1 + length r" using assms by simp
  then show "blk_set m (p + length s) y = Some (m[p + length s := y])" by (simp add: blk_set_def)
  show d: "drop p (m[p + length s := y]) = s @ y # r" using assms l by (simp add: drop_update_swap list_update_append)
  show "drop (p + length s + 1) (m[p + length s := y]) = r" using drop_part [of p "m[p + length s := y]" "s @ [y]" r] d by simp
qed

abbreviation emptied :: "buffer \<Rightarrow> bool" where
  "emptied b \<equiv> buf_rep b []"

definition written :: "buffer \<Rightarrow> bool" where
  "written b \<longleftrightarrow> buf_rep b (buf_str b)"

lemma writtenI: "buf_rep b s \<Longrightarrow> written b"
  unfolding written_def by (metis buf_rep_def)

lemma clean_written: "written b \<Longrightarrow> \<exists>b'. http2d_buffer_clean b = Some b' \<and> emptied b'"
  using http2d_buffer_clean_rep [of b] unfolding written_def by (metis buf_rep_def)

lemma line_part_ok:
  assumes "content_ok c" "drop q m = content_text c @ x # r" "e = q + length (content_text c)"
    and "emptied key" "emptied val" "cn_ok conf" "e + 17 < 2 ^ 31" "reads_as reader inc" "effect inc c (cn_lookup conf) = Some M'" "fine M'"
  shows "\<exists>m' key' val' conf'. line_part (total_heap f) reader m q e key val conf = Some (ret_ok, m', key', val', conf') \<and> drop (e + 1) m' = r \<and>
    written key' \<and> written val' \<and> cn_ok conf' \<and> cn_lookup conf' = M'"
proof -
  note w = writtenI [OF assms(4)] writtenI [OF assms(5)]
  have r: "drop (e + 1) m = r" using drop_part [of q m "content_text c @ [x]" r] assms(2,3) by simp
  note set = drop_set [OF assms(2), of 0, folded assms(3)]
  obtain y t where y: "content_text c = y # t" "y = 35 \<longleftrightarrow> (\<exists>t. c = Remark t)" using content_start [OF assms(1)] by blast
  then have g: "blk_get (m[e := 0]) q = Some y" using drop_nth [of q "m[e := 0]" "[]" y "t @ 0 # r"] set(2) by simp
  show ?thesis
  proof (cases "\<exists>t. c = Remark t")
    case False
    then have l: "\<not> int e - int q \<le> 4" and n: "y \<noteq> 35" using assms(1,3) y(2) by (cases c; simp)+
    have "q + length (content_text c) + 17 < 2 ^ 31" using assms(3,7) by simp
    from parse_line_ok [OF assms(1) _ set(2) assms(4-6) this assms(8-10), of f] obtain key' val' conf' k v where
      "parse_line (total_heap f) reader (m[e := 0]) q key val conf = Some (ret_ok, key', val', conf')" "buf_rep key' k"
      "buf_rep val' v" "cn_ok conf'" "cn_lookup conf' = M'" using False by blast
    then show ?thesis using l n set(1,3) g writtenI by (auto simp: line_part_def chr_def)
  next
    case True
    then show ?thesis using y r set g w assms(6,9) by (auto simp: line_part_def chr_def)
  qed
qed

lemma parse_loop_step:
  assumes "skip_white m eof p = Some q" "find_eol m eof q = Some e" "line_part h reader m q e key val conf = Some (ret_ok, m', key', val', conf')"
  shows "parse_loop h reader eof m p key val conf =
    (if e + 1 \<ge> eof then Some (ret_ok, m', conf')
     else do { key \<leftarrow> http2d_buffer_clean key'; val \<leftarrow> http2d_buffer_clean val'; parse_loop h reader eof m' (e + 1) key val conf' })"
  by (subst parse_loop.simps) (simp add: assms)

subsection \<open>The whole text\<close>

text \<open>A text: lines with their ends, blanks, and perhaps a last line without an end.\<close>

fun final_text :: "cline option \<Rightarrow> byte list" where
  "final_text None = []"
| "final_text (Some c) = content_text c"

definition config_text :: "(byte list \<times> cline \<times> byte) list \<Rightarrow> byte list \<Rightarrow> cline option \<Rightarrow> byte list" where
  "config_text ls w fin = concat (map line_text ls) @ w @ final_text fin"

definition config_ok :: "(byte list \<times> cline \<times> byte) list \<Rightarrow> byte list \<Rightarrow> cline option \<Rightarrow> bool" where
  "config_ok ls w fin \<longleftrightarrow> list_all line_ok ls \<and> list_all blank w \<and> pred_option content_ok fin"

definition contents :: "(byte list \<times> cline \<times> byte) list \<Rightarrow> cline option \<Rightarrow> cline list" where
  "contents ls fin = map (fst \<circ> snd) ls @ (case fin of None \<Rightarrow> [] | Some c \<Rightarrow> [c])"

lemma parse_final:
  assumes "config_ok [] w fin" "drop p m = config_text [] w fin @ 0 # r" "emptied key" "emptied val" "cn_ok conf"
    and "eof = p + length (config_text [] w fin)" "eof + 17 < 2 ^ 31"
    and "reads_as reader inc" "effects inc (contents [] fin) (cn_lookup conf) = Some M'" "fine M'"
  shows "\<exists>m' conf'. parse_loop (total_heap f) reader eof m p key val conf = Some (ret_ok, m', conf') \<and> cn_ok conf' \<and> cn_lookup conf' = M'"
proof (cases fin)
  case None
  then have d: "drop p m = w @ 0 # r" "eof = p + length w" and w: "list_all blank w"
    using assms(1,2,6) by (auto simp: config_text_def config_ok_def)
  have s: "skip_white m eof p = Some eof" using skip_white_ok [OF d(1) w] d(2) by simp
  have "find_eol m eof eof = Some eof" using find_eol_end [of eof m "[]" r eof] drop_part [OF d(1)] d(2) by simp
  from parse_loop_step [OF s this] show ?thesis using None assms(5,9) by (simp add: line_part_def contents_def)
next
  case (Some c)
  let ?q = "p + length w"
  have ok: "content_ok c" "list_all blank w" using assms(1) Some by (auto simp: config_ok_def)
  have eff: "effect inc c (cn_lookup conf) = Some M'" using assms(9) Some by (simp add: contents_def split: Option.bind_splits)
  have d: "drop p m = w @ content_text c @ 0 # r" and e: "eof = ?q + length (content_text c)" using assms(2,6) Some by (auto simp: config_text_def)
  obtain y t where y: "content_text c = y # t" "\<not> blank y" using content_start [OF ok(1)] by blast
  have s: "skip_white m eof p = Some ?q" using skip_white_ok [of p m w y "t @ 0 # r" eof] d e ok(2) y by simp
  have dq: "drop ?q m = content_text c @ 0 # r" using drop_part [OF d] .
  have l: "find_eol m eof ?q = Some eof" by (rule find_eol_end [OF dq content_one_line [OF ok(1)]])
  from line_part_ok [OF ok(1) dq e assms(3-5,7,8) eff assms(10), of f] obtain m' key' val' conf' where
    c: "line_part (total_heap f) reader m ?q eof key val conf = Some (ret_ok, m', key', val', conf')" "cn_ok conf'" "cn_lookup conf' = M'" by blast
  from parse_loop_step [OF s l c(1)] show ?thesis using c(2,3) by simp
qed

lemma text_empty:
  assumes "config_ok ls w fin" "config_text ls w fin = []"
  shows "ls = [] \<and> fin = None"
proof -
  have "fin = None" using assms content_start by (cases fin) (fastforce simp: config_text_def config_ok_def)+
  moreover have "ls = []" using assms(2) by (cases ls) (auto simp: config_text_def)
  ultimately show ?thesis by simp
qed

lemma parse_loop_ok:
  assumes "config_ok ls w fin" "drop p m = config_text ls w fin @ 0 # r" "emptied key" "emptied val" "cn_ok conf"
    and "eof = p + length (config_text ls w fin)" "effects inc (contents ls fin) (cn_lookup conf) = Some M'"
    and "eof + 17 < 2 ^ 31" "reads_as reader inc" "fine M'" "grows inc"
  shows "\<exists>m' conf'. parse_loop (total_heap f) reader eof m p key val conf = Some (ret_ok, m', conf') \<and> cn_ok conf' \<and> cn_lookup conf' = M'"
  using assms(1-7)
proof (induction ls arbitrary: p m key val conf)
  case Nil
  then show ?case using parse_final [OF Nil(1-6) assms(8,9) Nil(7) assms(10)] by blast
next
  case (Cons l ls)
  obtain i c x where l: "l = (i, c, x)" by (cases l)
  let ?q = "p + length i" and ?t = "config_text ls w fin"
  let ?e = "?q + length (content_text c)"
  have n: "contents (l # ls) fin = c # contents ls fin" by (simp add: contents_def l)
  have ok: "content_ok c" "list_all blank i" "x = 10 \<or> x = 13" "config_ok ls w fin" using Cons.prems(1) l by (auto simp: config_ok_def)
  have d: "drop p m = i @ content_text c @ x # ?t @ 0 # r" and e: "eof = ?e + 1 + length ?t" using Cons.prems(2,6) l by (auto simp: config_text_def)
  obtain M1 where M1: "effect inc c (cn_lookup conf) = Some M1" "effects inc (contents ls fin) M1 = Some M'"
    using Cons.prems(7) unfolding n by (auto split: Option.bind_splits)
  have fine: "fine M1" using effects_grows [OF assms(11) M1(2)] fine_mono [OF assms(10)] by blast
  obtain y t where y: "content_text c = y # t" "\<not> blank y" using content_start [OF ok(1)] by blast
  have s: "skip_white m eof p = Some ?q" using skip_white_ok [of p m i y "t @ x # ?t @ 0 # r" eof] d e ok(2) y by simp
  have dq: "drop ?q m = content_text c @ x # ?t @ 0 # r" using drop_part [OF d] .
  have f: "find_eol m eof ?q = Some ?e" by (rule find_eol_line [OF dq content_one_line [OF ok(1)] ok(3)]) simp
  have b: "?e + 17 < 2 ^ 31" using e assms(8) by simp
  from line_part_ok [OF ok(1) dq refl Cons.prems(3-5) b assms(9) M1(1) fine, of f] obtain m' key' val' conf' where
    c: "line_part (total_heap f) reader m ?q ?e key val conf = Some (ret_ok, m', key', val', conf')" "drop (?e + 1) m' = ?t @ 0 # r"
    "written key'" "written val'" "cn_ok conf'" "cn_lookup conf' = M1" by blast
  note step = parse_loop_step [OF s f c(1)]
  show ?case
  proof (cases "?t = []")
    case True
    then show ?thesis using step e c(5,6) M1(2) text_empty [OF ok(4)] by (simp add: contents_def)
  next
    case False
    obtain k v where kv: "http2d_buffer_clean key' = Some k" "emptied k" "http2d_buffer_clean val' = Some v" "emptied v"
      using clean_written c(3,4) by blast
    have "\<not> ?e + 1 \<ge> eof" using False e by simp
    then have "parse_loop (total_heap f) reader eof m p key val conf = parse_loop (total_heap f) reader eof m' (?e + 1) k v conf'"
      using step kv(1,3) by simp
    then show ?thesis using Cons.IH [OF ok(4) c(2) kv(2,4) c(5)] e M1(2) c(6) by simp
  qed
qed

lemma root_names: "{k. cn_lookup n [k] \<noteq> None} = set (map name (cn_child n))"
  using child_of_None [of "cn_child n"] by (auto split: option.splits)

lemma parse_string_ok:
  assumes "config_ok ls w fin" "buf b = Some m" "drop 0 m = config_text ls w fin @ 0 # r" "len b = length (config_text ls w fin)" "cn_ok conf"
    and "effects inc (contents ls fin) (cn_lookup conf) = Some M'" "len b + 17 < 2 ^ 31" "reads_as reader inc" "fine M'" "grows inc"
  shows "\<exists>b' conf'. http2d_config_reader_parse_string (total_heap f) reader conf b = Some (ret_ok, b', conf') \<and> cn_ok conf' \<and> cn_lookup conf' = M'"
proof -
  obtain m' conf1 where l: "parse_loop (total_heap f) reader (len b) m 0 HTTP2D_BUF_INIT HTTP2D_BUF_INIT conf = Some (ret_ok, m', conf1)"
    "cn_ok conf1" "cn_lookup conf1 = M'"
    using parse_loop_ok [OF assms(1,3) buf_rep_INIT buf_rep_INIT assms(5) _ assms(6,7-10), of f] assms(4) by auto
  obtain conf2 where s: "sort_lists conf1 = Some conf2" "cn_ok conf2" "cn_lookup conf2 = M'"
    using sort_lists_ok [OF l(2)] l(3) assms(9) by (auto simp: fine_def)
  have "\<not> same_but_case (set (map name (cn_child conf2)))" using assms(9) unfolding root_names [symmetric] s(3) fine_def by blast
  then have "check_config_node_sanity conf2 = Some ret_ok" using check_sanity_ok [OF s(2)] by simp
  then show ?thesis using l(1) s assms(2) by (simp add: http2d_config_reader_parse_string_def)
qed

subsection \<open>Files\<close>

lemma read_file_ok:
  assumes "buf_rep b s" "stat_path fs p = Some (Regular n)" "read_bytes fs p n = Some (Some bs)" "length bs \<le> n" "length s + n + 1 < 2 ^ 31"
  shows "\<exists>b' m xs. http2d_buffer_read_file (total_heap f) fs b p = Some (ret_ok, b') \<and> buf_rep b' (s @ bs) \<and> buf b' = Some m \<and> drop 0 m = (s @ bs) @ 0 # xs"
proof -
  have ok: "buffer_ok b" "len b = length s" using assms(1) by (auto elim!: buf_rep_cases simp: buf_rep_def)
  obtain c where c: "http2d_buffer_ensure_size (total_heap f) b (length s + n + 1) = (ret_ok, c)" "buffer_ok c" "buf_str c = s" "len c = length s"
    "length s + n + 1 \<le> bsize c" "buf c \<noteq> None"
  proof (rule http2d_buffer_ensure_size_ok [OF ok(1) assms(5), of "total_heap f"])
    show "malloc_ok (total_heap f) (length s + n + 1)" by simp
  qed (use assms(1) ok(2) in \<open>auto simp: buf_rep_def\<close>)
  obtain m where m: "buf c = Some m" "length s + n + 1 \<le> length m" "take (length s) m = s"
    using c(2-6) by (cases "buf c") (auto simp: buffer_ok_def buf_str_def)
  let ?m = "take (length s) m @ bs @ drop (length s + length bs) m"
  have l: "length s + length bs < length ?m" using m(2) assms(4) by simp
  have u: "u32 (length s + length bs) = length s + length bs" using assms(4,5) by (simp add: u32_id)
  let ?b = "c\<lparr>buf := Some (?m[length s + length bs := 0]), len := length s + length bs\<rparr>"
  have "http2d_buffer_read_file (total_heap f) fs b p = Some (ret_ok, ?b)"
    using assms(2-5) ok(2) c(1,4) m(1,2) u l by (simp add: http2d_buffer_read_file_def u64_id blk_write_def blk_set_def)
  moreover have t: "?m[length s + length bs := 0] = (s @ bs) @ 0 # drop (Suc (length s + length bs)) m"
  proof -
    have "drop (length s + length bs) m = m ! (length s + length bs) # drop (Suc (length s + length bs)) m"
      using m(2) assms(4) by (intro Cons_nth_drop_Suc [symmetric]) simp
    then show ?thesis using m(3) by (simp add: list_update_append)
  qed
  moreover have "buf_rep ?b (s @ bs)" using c(2,5) m(1,2) assms(4) l unfolding t
    by (auto simp: buf_rep_def buffer_ok_def buffer_term_def buf_str_def nth_append)
  ultimately show ?thesis by auto
qed

text \<open>What the files say: a file of lines, or a directory with names.\<close>

datatype doc = File "(byte list \<times> cline \<times> byte) list" "byte list" "cline option" | Folder "byte list list"

type_synonym docs = "byte list \<Rightarrow> doc option"

definition holds :: "files \<Rightarrow> docs \<Rightarrow> bool" where
  "holds fs docs \<longleftrightarrow> (\<forall>p d. docs p = Some d \<longrightarrow>
     (case d of
        File ls w fin \<Rightarrow> config_ok ls w fin \<and> (\<exists>n. stat_path fs p = Some (Regular n) \<and> n + 18 < 2 ^ 31 \<and> length (config_text ls w fin) \<le> n \<and>
          read_bytes fs p n = Some (Some (config_text ls w fin)))
      | Folder names \<Rightarrow> stat_path fs p = Some (Directory (Some names))))"

definition file_part :: "docs \<Rightarrow> (byte list \<Rightarrow> cmap \<Rightarrow> cmap option) \<Rightarrow> byte list \<Rightarrow> cmap \<Rightarrow> cmap option" where
  "file_part docs inc p M = (case docs p of Some (File ls w fin) \<Rightarrow> effects inc (contents ls fin) M | _ \<Rightarrow> None)"

fun folder_part :: "docs \<Rightarrow> (byte list \<Rightarrow> cmap \<Rightarrow> cmap option) \<Rightarrow> byte list \<Rightarrow> byte list list \<Rightarrow> cmap \<Rightarrow> cmap option" where
  "folder_part docs inc p [] M = Some M"
| "folder_part docs inc p (x # xs) M =
     (if ignored_name x then folder_part docs inc p xs M
      else do { M \<leftarrow> file_part docs inc (p @ chr CHR ''/'' # x) M; folder_part docs inc p xs M })"

text \<open>What including a path does, with at most \<open>d\<close> files open at a time.\<close>

primrec doc_effect :: "docs \<Rightarrow> nat \<Rightarrow> byte list \<Rightarrow> cmap \<Rightarrow> cmap option" where
  "doc_effect docs 0 p M = None"
| "doc_effect docs (Suc d) p M =
     (case docs p of
        None \<Rightarrow> None
      | Some (File ls w fin) \<Rightarrow> file_part docs (doc_effect docs d) p M
      | Some (Folder names) \<Rightarrow> folder_part docs (doc_effect docs d) p names M)"

lemma file_part_grows: "grows inc \<Longrightarrow> grows (file_part docs inc)"
  unfolding grows_def [of "file_part docs inc"] file_part_def using effects_grows by (auto split: option.splits doc.splits)

lemma folder_part_grows: "grows inc \<Longrightarrow> folder_part docs inc p xs M = Some M' \<Longrightarrow> dom M \<subseteq> dom M'"
proof (induction xs arbitrary: M)
  case (Cons x xs)
  show ?case
  proof (cases "ignored_name x")
    case False
    then obtain M1 where M1: "file_part docs inc (p @ chr CHR ''/'' # x) M = Some M1" "folder_part docs inc p xs M1 = Some M'"
      using Cons.prems(2) by (auto split: Option.bind_splits)
    have "dom M \<subseteq> dom M1" using file_part_grows [OF Cons.prems(1)] M1(1) unfolding grows_def by blast
    then show ?thesis using Cons.IH [OF Cons.prems(1) M1(2)] by blast
  qed (use Cons in simp)
qed simp

lemma doc_effect_grows: "grows (doc_effect docs d)"
proof (induction d)
  case (Suc d)
  show ?case unfolding grows_def
  proof (intro allI impI)
    fix p M M'
    assume "doc_effect docs (Suc d) p M = Some M'"
    then show "dom M \<subseteq> dom M'" using folder_part_grows [OF Suc] file_part_grows [OF Suc, of docs]
      unfolding grows_def [of "file_part docs (doc_effect docs d)"] by (auto split: option.splits doc.splits)
  qed
qed (simp add: grows_def)

lemma do_parse_file_ok:
  assumes "holds fs docs" "file_part docs inc p (cn_lookup conf) = Some M'" "fine M'" "cn_ok conf" "reads_as reader inc" "grows inc"
  shows "\<exists>conf'. do_parse_file (total_heap f) fs reader conf p = Some (ret_ok, conf') \<and> cn_ok conf' \<and> cn_lookup conf' = M'"
proof -
  obtain ls w fin where d: "docs p = Some (File ls w fin)" "effects inc (contents ls fin) (cn_lookup conf) = Some M'"
    using assms(2) by (auto simp: file_part_def split: option.splits doc.splits)
  let ?t = "config_text ls w fin"
  have ok: "config_ok ls w fin" using assms(1) d(1) unfolding holds_def by fastforce
  obtain n where n: "stat_path fs p = Some (Regular n)" "n + 18 < 2 ^ 31" "length ?t \<le> n" "read_bytes fs p n = Some (Some ?t)"
    using assms(1) d(1) unfolding holds_def by fastforce
  have l: "length ([] :: byte list) + n + 1 < 2 ^ 31" using n(2) by simp
  from read_file_ok [where f = f, OF buf_rep_INIT n(1,4,3) l, unfolded append_Nil] obtain b m xs where
    b: "http2d_buffer_read_file (total_heap f) fs HTTP2D_BUF_INIT p = Some (ret_ok, b)" "buf_rep b ?t" "buf b = Some m" "drop 0 m = ?t @ 0 # xs"
    by blast
  have lb: "len b = length ?t" "len b + 17 < 2 ^ 31" using b(2) n(2,3) by (auto elim!: buf_rep_cases)
  from parse_string_ok [OF ok b(3,4) lb(1) assms(4) d(2) lb(2) assms(5,3,6), of f] b(1) show ?thesis by (auto simp: do_parse_file_def)
qed

lemma include_entries_ok:
  assumes "holds fs docs" "reads_as reader inc" "grows inc"
  shows "folder_part docs inc p names (cn_lookup conf) = Some M' \<Longrightarrow> fine M' \<Longrightarrow> cn_ok conf \<Longrightarrow>
    \<exists>conf'. include_entries (total_heap f) fs reader p names conf = Some (ret_ok, conf') \<and> cn_ok conf' \<and> cn_lookup conf' = M'"
proof (induction names arbitrary: conf)
  case (Cons x xs)
  show ?case
  proof (cases "ignored_name x")
    case False
    then obtain M1 where M1: "file_part docs inc (p @ chr CHR ''/'' # x) (cn_lookup conf) = Some M1" "folder_part docs inc p xs M1 = Some M'"
      using Cons.prems(1) by (auto split: Option.bind_splits)
    have "fine M1" using folder_part_grows [OF assms(3) M1(2)] fine_mono Cons.prems(2) by blast
    from do_parse_file_ok [OF assms(1) M1(1) this Cons.prems(3) assms(2,3), of f] obtain conf1 where
      c: "do_parse_file (total_heap f) fs reader conf (p @ chr CHR ''/'' # x) = Some (ret_ok, conf1)" "cn_ok conf1" "cn_lookup conf1 = M1" by blast
    then show ?thesis using Cons.IH [of conf1] M1(2) Cons.prems(2) False by simp
  qed (use Cons in simp)
qed simp

lemma reader_reads: "holds fs docs \<Longrightarrow> reads_as (http2d_config_reader_parse (total_heap f) fs d) (doc_effect docs d)"
proof (induction d)
  case (Suc d)
  note ih = Suc.IH [OF Suc.prems]
  show ?case unfolding reads_as_def
  proof (intro allI impI)
    fix conf path p M'
    assume a: "cn_ok conf" "key_cstr path = Some p" "doc_effect docs (Suc d) p (cn_lookup conf) = Some M'" "fine M'"
    show "\<exists>conf'. http2d_config_reader_parse (total_heap f) fs (Suc d) conf path = Some (ret_ok, conf') \<and> cn_ok conf' \<and> cn_lookup conf' = M'"
    proof (cases "docs p")
      case (Some doc)
      show ?thesis
      proof (cases doc)
        case (File ls w fin)
        then obtain n where "stat_path fs p = Some (Regular n)" using Suc.prems Some unfolding holds_def by fastforce
        then show ?thesis using do_parse_file_ok [OF Suc.prems _ a(4,1) ih doc_effect_grows, of p f] a(2,3) Some File
          by (simp add: do_include_def)
      next
        case (Folder names)
        then have "stat_path fs p = Some (Directory (Some names))" using Suc.prems Some unfolding holds_def by fastforce
        then show ?thesis using include_entries_ok [OF Suc.prems ih doc_effect_grows _ a(4,1), of p names f] a(2,3) Some Folder
          by (simp add: do_include_def)
      qed
    qed (use a(3) in simp)
  qed
qed (simp add: reads_as_def)

text \<open>The first line of a file includes a file, and reading that one does not end (\<open>None\<close>) or ends with an error and the tree \<open>t\<close>
  (\<open>Some t\<close>): this decides what comes of the file.\<close>

abbreviation failed :: "config_node option \<Rightarrow> (ret_t \<times> config_node) option" where
  "failed r \<equiv> map_option (Pair ret_error) r"

lemma line_part_stuck:
  assumes "content_ok (Include a b v d)" "drop q m = content_text (Include a b v d) @ x # rs" "e = q + length (content_text (Include a b v d))"
    and "e + 17 < 2 ^ 31" "\<And>path. key_cstr path = Some v \<Longrightarrow> reader conf path = failed r"
  shows "map_option (\<lambda>(ret, m, key, val, conf). (ret, conf)) (line_part (total_heap f) reader m q e HTTP2D_BUF_INIT HTTP2D_BUF_INIT conf) = failed r"
proof -
  have ok: "v \<noteq> []" "val_text v" using assms(1) by auto
  note set = drop_set [OF assms(2), of 0, folded assms(3)]
  obtain y t where y: "content_text (Include a b v d) = y # t" "y \<noteq> 35" using content_start [OF assms(1)] by auto
  then have g: "blk_get (m[e := 0]) q = Some y" using drop_nth [of q "m[e := 0]" "[]" y "t @ 0 # rs"] set(2) by simp
  have "q + length (line_with (lit ''include'') a b v d) + 17 < 2 ^ 31" using assms(3,4) by simp
  from parse_line_cut [OF include_text ok(2) set(2)[unfolded content_text.simps] buf_rep_INIT buf_rep_INIT this, of f] obtain key val where
    cut: "buf_rep key (lit ''include'')" "buf_rep val v" "\<And>reader conf. parse_line (total_heap f) reader (m[e := 0]) q HTTP2D_BUF_INIT HTTP2D_BUF_INIT conf =
    do { (ret, conf) \<leftarrow> http2d_config_node_add_buf (total_heap f) reader conf key val; Some (ret, key, val, conf) }" by blast
  have "key_cstr val = Some v" using key_okI [OF cut(2) ok(1)] key_cstr_ok [of val] ok(2) by (auto simp: val_text_def one_line_def)
  then have "parse_line (total_heap f) reader (m[e := 0]) q HTTP2D_BUF_INIT HTTP2D_BUF_INIT conf =
      map_option (\<lambda>t. (ret_error, key, val, t)) r"
    using cut(3) include_first [OF cut(1)] assms(5) by (cases r) simp_all
  then show ?thesis using assms(3) set(1) g y(2) by (cases r) (simp_all add: line_part_def chr_def)
qed

lemma parse_loop_stuck:
  assumes "skip_white m eof p = Some q" "find_eol m eof q = Some e" "map_option (\<lambda>(ret, m, key, val, conf). (ret, conf)) (line_part h reader m q e key val conf) = failed r"
  shows "map_option (\<lambda>(ret, m, conf). (ret, conf)) (parse_loop h reader eof m p key val conf) = failed r"
  using assms by (subst parse_loop.simps) (cases r; cases "line_part h reader m q e key val conf"; auto)

lemma first_include_stuck:
  assumes "config_ok ls w fin" "contents ls fin = Include a b v c # rest" "drop 0 m = config_text ls w fin @ 0 # rs"
    and "eof = length (config_text ls w fin)" "eof + 17 < 2 ^ 31" "\<And>path. key_cstr path = Some v \<Longrightarrow> reader conf path = failed r"
  shows "map_option (\<lambda>(ret, m, conf). (ret, conf)) (parse_loop (total_heap f) reader eof m 0 HTTP2D_BUF_INIT HTTP2D_BUF_INIT conf) = failed r"
proof -
  let ?c = "Include a b v c"
  have "\<exists>i x r'. list_all blank i \<and> content_ok ?c \<and> drop 0 m = i @ content_text ?c @ x # r' \<and> length i + length (content_text ?c) \<le> eof \<and>
      (x = 0 \<and> eof = length i + length (content_text ?c) \<or> (x = 10 \<or> x = 13) \<and> 0 \<in> set r')"
  proof (cases ls)
    case Nil
    then have "fin = Some ?c" using assms(2) by (auto simp: contents_def split: option.splits)
    then show ?thesis using assms(1,3,4) Nil
      by (intro exI [of _ w] exI [of _ 0] exI [of _ rs]) (auto simp: config_ok_def config_text_def)
  next
    case (Cons l ls')
    then obtain i x where l: "l = (i, ?c, x)" using assms(2) by (cases l) (auto simp: contents_def)
    then show ?thesis using assms(1,3,4) Cons
      by (intro exI [of _ i] exI [of _ x] exI [of _ "config_text ls' w fin @ 0 # rs"]) (auto simp: config_ok_def config_text_def)
  qed
  then obtain i x r' where i: "list_all blank i" "content_ok ?c" "drop 0 m = i @ content_text ?c @ x # r'" "length i + length (content_text ?c) \<le> eof"
    "x = 0 \<and> eof = length i + length (content_text ?c) \<or> (x = 10 \<or> x = 13) \<and> 0 \<in> set r'" by blast
  let ?e = "length i + length (content_text ?c)"
  obtain y t where y: "content_text ?c = y # t" "\<not> blank y" using content_start [OF i(2)] by blast
  have "drop 0 m = i @ y # t @ x # r'" using i(3) unfolding y(1) by simp
  from skip_white_ok [OF this i(1), of eof] have s: "skip_white m eof 0 = Some (length i)" using i(4) y(2) by simp
  have dq: "drop (length i) m = content_text ?c @ x # r'" using drop_part [OF i(3)] by simp
  have f: "find_eol m eof (length i) = Some ?e"
    using i(5) find_eol_line [OF dq content_one_line [OF i(2)]] find_eol_end [of "length i" m "content_text ?c" r'] dq content_one_line [OF i(2)] by auto
  have b: "?e + 17 < 2 ^ 31" using i(4) assms(5) by simp
  show ?thesis by (rule parse_loop_stuck [OF s f line_part_stuck [where reader = reader and conf = conf and r = r, OF i(2) dq refl b assms(6)]])
qed

text \<open>A call for a file whose first line includes the file itself first of all calls the reader for the same file and the same tree, and does what
  that call does.\<close>

lemma self_include:
  assumes "holds fs docs" "docs p = Some (File ls w fin)" "contents ls fin = Include a b p c # rest" "key_cstr path = Some p"
    and "\<And>path. key_cstr path = Some p \<Longrightarrow> reader conf path = failed r"
  shows "do_include (total_heap f) fs reader conf path = failed r"
proof -
  let ?t = "config_text ls w fin"
  have ok: "config_ok ls w fin" using assms(1,2) unfolding holds_def by fastforce
  obtain n where n: "stat_path fs p = Some (Regular n)" "n + 18 < 2 ^ 31" "length ?t \<le> n" "read_bytes fs p n = Some (Some ?t)"
    using assms(1,2) unfolding holds_def by fastforce
  have l: "length ([] :: byte list) + n + 1 < 2 ^ 31" using n(2) by simp
  from read_file_ok [where f = f, OF buf_rep_INIT n(1,4,3) l, unfolded append_Nil] obtain b m xs where
    b: "http2d_buffer_read_file (total_heap f) fs HTTP2D_BUF_INIT p = Some (ret_ok, b)" "buf_rep b ?t" "buf b = Some m" "drop 0 m = ?t @ 0 # xs"
    by blast
  have lb: "len b = length ?t" "len b + 17 < 2 ^ 31" using b(2) n(2,3) by (auto elim!: buf_rep_cases)
  have "map_option (\<lambda>(ret, b, conf). (ret, conf)) (http2d_config_reader_parse_string (total_heap f) reader conf b) = failed r"
    using first_include_stuck [where f = f and conf = conf and reader = reader and r = r, OF ok assms(3) b(4) lb(1,2) assms(5)] b(3)
    by (cases r; cases "parse_loop (total_heap f) reader (len b) m 0 HTTP2D_BUF_INIT HTTP2D_BUF_INIT conf")
      (auto simp: http2d_config_reader_parse_string_def)
  then show ?thesis using assms(4) n(1) b(1)
    by (cases r; cases "http2d_config_reader_parse_string (total_heap f) reader conf b") (auto simp: do_include_def do_parse_file_def)
qed

lemma self_include_nested:
  assumes "holds fs docs" "docs p = Some (File ls w fin)" "contents ls fin = Include a b p c # rest"
    and "\<And>path. key_cstr path = Some p \<Longrightarrow> reader conf path = failed r"
  shows "key_cstr path = Some p \<Longrightarrow> (do_include (total_heap f) fs ^^ n) reader conf path = failed r"
proof (induction n arbitrary: path)
  case (Suc n)
  show ?case using self_include [where conf = conf and r = r and reader = "(do_include (total_heap f) fs ^^ n) reader", OF assms(1-3) Suc.prems Suc.IH] by simp
qed (use assms(4) in simp)

lemma parse_nested: "http2d_config_reader_parse h fs n = (do_include h fs ^^ n) (\<lambda>_ _. None)"
  by (induction n) auto

subsection \<open>Properties\<close>

text \<open>C20: Reading a configuration from the file system, with the files and directories it includes, has on the map of the tree the
  effect of its settings in the order in which they are met: blanks around keys and values, blank lines and remarks do not count,
  backup files of a directory are passed over. This holds whenever the files are nested no deeper than \<open>depth\<close>,
  and the resulting map passes the check that no two keys at the root differ only in case.\<close>

theorem http2d_config_reader_parse_correct:
  assumes "holds fs docs" "cn_ok conf" "key_cstr path = Some p" "doc_effect docs depth p (cn_lookup conf) = Some M" "fine M"
  shows "\<exists>conf'. http2d_config_reader_parse (total_heap f) fs depth conf path = Some (ret_ok, conf') \<and> cn_ok conf' \<and> cn_lookup conf' = M"
  using reader_reads [OF assms(1), of f depth] assms(2-5) unfolding reads_as_def by blast

definition two_docs :: docs where
  "two_docs = [lit ''a'' \<mapsto> File [([], Include 0 0 (lit ''b'') 0, 10)] [] None, lit ''b'' \<mapsto> File [] [32] (Some (Setting [lit ''port''] 1 0 (lit ''80'') 0))]"

definition two_files :: files where
  "two_files = \<lparr>stat_path = (\<lambda>p. if p \<in> {lit ''a'', lit ''b''} then Some (Regular 20) else None),
     read_bytes = (\<lambda>p n. Some (Some (case two_docs p of Some (File ls w fin) \<Rightarrow> config_text ls w fin | _ \<Rightarrow> [])))\<rparr>"

lemma two_files_hold: "holds two_files two_docs"
proof -
  have ab: "lit ''a'' \<noteq> lit ''b''" by (simp add: lit_def chr_def)
  have v: "val_text (lit ''b'')" "val_text (lit ''80'')" "key_text (lit ''port'')" "parts_ok [lit ''port'']" "\<not> include_key (lit ''port'')"
    by (simp_all add: val_text_def key_text_def one_line_def parts_ok_def include_key_def lit_def chr_def)
  have "config_ok [([], Include 0 0 (lit ''b'') 0, 10)] [] None"
    using v by (simp add: config_ok_def) (simp add: lit_def)
  moreover have "config_ok [] [32] (Some (Setting [lit ''port''] 1 0 (lit ''80'') 0))" using v by (simp add: config_ok_def blank_def)
  ultimately show ?thesis using ab unfolding holds_def
    by (auto simp: two_docs_def two_files_def config_text_def split: doc.splits if_splits)
qed

theorem http2d_config_reader_parse_correct_witness:
  "\<exists>conf'. http2d_config_reader_parse (total_heap (\<lambda>_. 0)) two_files 2 (snd http2d_config_node_init) (http2d_buffer_fake_str ''a'') = Some (ret_ok, conf') \<and>
    cn_lookup conf' [lit ''port''] = Some (lit ''80'')"
proof -
  let ?n = "snd http2d_config_node_init"
  have ok: "cn_ok ?n" by (simp add: http2d_config_node_init_def)
  have r: "buf_rep (http2d_buffer_fake_str ''a'') (lit ''a'')" by (rule http2d_buffer_fake_str_rep) simp
  have k: "key_cstr (http2d_buffer_fake_str ''a'') = Some (lit ''a'')"
    using key_okI [OF r] key_cstr_ok [of "http2d_buffer_fake_str ''a''"] by (simp add: lit_def chr_def)
  have ab: "lit ''a'' \<noteq> lit ''b''" by (simp add: lit_def chr_def)
  let ?M = "upd [lit ''port''] (lit ''80'') (cn_lookup ?n)"
  have e: "doc_effect two_docs 2 (lit ''a'') (cn_lookup ?n) = Some ?M"
    using ab by (simp add: numeral_2_eq_2 two_docs_def file_part_def contents_def)
  have "cn_lookup ?n x = (if x = [] then Some [] else None)" for x by (cases x) (simp_all add: http2d_config_node_init_def)
  then have "x \<in> dom ?M \<Longrightarrow> x = [] \<or> x = [lit ''port'']" for x
    by (cases "x = [lit ''port'']"; cases "x = []") (auto simp: upd_def prefix_Cons split: if_splits)
  then have d: "dom ?M \<subseteq> {[], [lit ''port'']}" by blast
  then have "card (dom ?M) \<le> card {[], [lit ''port'']}" by (rule card_mono [rotated]) simp
  moreover have "{k. ?M [k] \<noteq> None} \<subseteq> {lit ''port''}" using d by auto
  ultimately have "fine ?M" using finite_subset [OF d] unfolding fine_def same_but_case_def by (auto simp: card_insert_if)
  moreover have "?M [lit ''port''] = Some (lit ''80'')" by (simp add: upd_def)
  ultimately show ?thesis using http2d_config_reader_parse_correct [OF two_files_hold ok k e, of "\<lambda>_. 0"] by metis
qed

text \<open>C30: A file whose first line includes the file itself is read without end. For every \<open>n\<close> the call of the reader that is nested
  \<open>n\<close> deep is reached, for the same file and the same tree, without a fault before it: if that call alone were to end, with an error
  and any tree, all calls around it would end so. As there is always another call inside, none of them ever returns: no bound of the depth is
  enough.\<close>

theorem http2d_config_reader_parse_self_include:
  assumes "holds fs docs" "docs p = Some (File ls w fin)" "contents ls fin = Include a b p c # rest" "key_cstr path = Some p"
  shows "(do_include (total_heap f) fs ^^ n) (\<lambda>conf' q. if conf' = conf \<and> key_cstr q = Some p then Some (ret_error, t) else None) conf path =
      Some (ret_error, t) \<and>
    http2d_config_reader_parse (total_heap f) fs depth conf path = None"
proof
  show "(do_include (total_heap f) fs ^^ n) (\<lambda>conf' q. if conf' = conf \<and> key_cstr q = Some p then Some (ret_error, t) else None) conf path =
      Some (ret_error, t)"
    using self_include_nested [where conf = conf and r = "Some t" and f = f and n = n and
      reader = "\<lambda>conf' q. if conf' = conf \<and> key_cstr q = Some p then Some (ret_error, t) else None", OF assms(1-3) _ assms(4)]
    by simp
  show "http2d_config_reader_parse (total_heap f) fs depth conf path = None"
    unfolding parse_nested using self_include_nested [where conf = conf and r = None and f = f and reader = "\<lambda>_ _. None", OF assms(1-3) _ assms(4)] by simp
qed

theorem http2d_config_reader_parse_self_include_witness:
  "\<exists>fs. stat_path fs (lit ''a'') = Some (Regular 20) \<and> read_bytes fs (lit ''a'') 20 = Some (Some (lit ''include = a'')) \<and>
    (\<forall>n. (do_include (total_heap (\<lambda>_. 0)) fs ^^ n)
        (\<lambda>c q. if c = snd http2d_config_node_init \<and> key_cstr q = Some (lit ''a'') then Some (ret_error, c) else None)
        (snd http2d_config_node_init) (http2d_buffer_fake_str ''a'') = Some (ret_error, snd http2d_config_node_init)) \<and>
    (\<forall>depth. http2d_config_reader_parse (total_heap (\<lambda>_. 0)) fs depth (snd http2d_config_node_init) (http2d_buffer_fake_str ''a'') = None)"
proof -
  let ?docs = "[lit ''a'' \<mapsto> File [] [] (Some (Include 0 0 (lit ''a'') 0))]"
  let ?fs = "\<lparr>stat_path = (\<lambda>p. if p = lit ''a'' then Some (Regular 20) else None), read_bytes = (\<lambda>p n. Some (Some (lit ''include = a'')))\<rparr>"
  have t: "config_text [] [] (Some (Include 0 0 (lit ''a'') 0)) = lit ''include = a''" by (simp add: config_text_def lit_def chr_def)
  have "config_ok [] [] (Some (Include 0 0 (lit ''a'') 0))" by (simp add: config_ok_def val_text_def one_line_def lit_def chr_def)
  then have h: "holds ?fs ?docs" using t unfolding holds_def by auto
  have r: "buf_rep (http2d_buffer_fake_str ''a'') (lit ''a'')" by (rule http2d_buffer_fake_str_rep) simp
  have k: "key_cstr (http2d_buffer_fake_str ''a'') = Some (lit ''a'')"
    using key_okI [OF r] key_cstr_ok [of "http2d_buffer_fake_str ''a''"] by (simp add: lit_def chr_def)
  have c: "contents [] (Some (Include 0 0 (lit ''a'') 0)) = Include 0 0 (lit ''a'') 0 # []" by (simp add: contents_def)
  have "?docs (lit ''a'') = Some (File [] [] (Some (Include 0 0 (lit ''a'') 0)))" by simp
  from http2d_config_reader_parse_self_include [where f = "\<lambda>_. 0" and conf = "snd http2d_config_node_init" and t = "snd http2d_config_node_init", OF h this c k]
  show ?thesis by (intro exI [of _ ?fs] conjI allI) (simp_all cong: if_cong)
qed

end
