(* ===== verification/Resolv.thy ===== *)
theory Resolv
  imports Util Avl
begin

text \<open>
  Names and addresses: \<^verbatim>\<open>src/src/resolv_cache.c\<close>, with \<open>http2d_gethostbyname\<close> and \<open>http2d_ntop\<close> of \<^verbatim>\<open>src/src/util.c\<close> and
  \<open>http2d_socket_update_from_addrinfo\<close> of \<^verbatim>\<open>src/src/socket.c\<close>. The resolver and the conversion of addresses are functions of the
  system, the parameter \<open>inet\<close>. Addresses are the bytes of a \<open>struct sockaddr\<close>: reading one as if it belonged to another family may
  leave its memory.
\<close>

subsection \<open>Addresses\<close>

datatype family = AF_INET | AF_INET6 | AF_OTHER nat

text \<open>An element of the list that \<open>getaddrinfo\<close> returns; \<open>ai_next\<close> is the rest of the list, and the null pointer is the empty list.\<close>

record addrinfo =
  ai_family :: family
  ai_addrlen :: nat
  ai_addr :: block

text \<open>\<open>inet_ntop\<close> takes the size of the array for the text, \<open>getaddrinfo\<close> the flag \<open>AI_ADDRCONFIG\<close>.\<close>

record inet =
  inet_pton :: "family \<Rightarrow> byte list \<Rightarrow> byte list option"
  inet_ntop :: "family \<Rightarrow> byte list \<Rightarrow> nat \<Rightarrow> byte list option"
  getaddrinfo :: "byte list \<Rightarrow> bool \<Rightarrow> int \<times> addrinfo list"

text \<open>The fields \<open>sin_addr\<close> of \<open>struct sockaddr_in\<close> and \<open>sin6_addr\<close> of \<open>struct sockaddr_in6\<close>.\<close>

definition sin_addr :: "block \<Rightarrow> byte list option" where
  "sin_addr m = blk_read m 4 4"

definition sin6_addr :: "block \<Rightarrow> byte list option" where
  "sin6_addr m = blk_read m 8 16"

definition IN6_IS_ADDR_V4MAPPED :: "byte list \<Rightarrow> bool" where
  "IN6_IS_ADDR_V4MAPPED a \<longleftrightarrow> take 12 a = replicate 10 0 @ [255, 255]"

definition IN6_IS_ADDR_V4COMPAT :: "byte list \<Rightarrow> bool" where
  "IN6_IS_ADDR_V4COMPAT a \<longleftrightarrow> take 12 a = replicate 12 0 \<and> drop 12 a \<noteq> [0, 0, 0, 0] \<and> drop 12 a \<noteq> [0, 0, 0, 1]"

text \<open>What is stored in \<open>dst\<close>; nothing means the empty string, together with \<open>ret_error\<close>.\<close>

definition http2d_ntop :: "inet \<Rightarrow> family \<Rightarrow> block \<Rightarrow> nat \<Rightarrow> (ret_t \<times> byte list option) option" where
  "http2d_ntop net family addr cnt = do {
     str \<leftarrow>
       (if family = AF_INET6 then do {
          addr6 \<leftarrow> sin6_addr addr;
          Some (if IN6_IS_ADDR_V4MAPPED addr6 \<or> IN6_IS_ADDR_V4COMPAT addr6 then inet_ntop net AF_INET (drop 12 addr6) cnt
                else inet_ntop net AF_INET6 addr6 cnt) }
        else do { addr4 \<leftarrow> sin_addr addr; Some (inet_ntop net AF_INET addr4 cnt) });
     Some (if str = None then ret_error else ret_ok, str) }"

fun is_one_of :: "buffer \<Rightarrow> string list \<Rightarrow> bool option" where
  "is_one_of b [] = Some False"
| "is_one_of b (s # ss) = do {
     r \<leftarrow> http2d_buffer_cmp b (lit s @ [0]) (length s);
     if r = 0 then Some True else is_one_of b ss }"

text \<open>The list is what is stored through \<open>addr\<close> if the call succeeds.\<close>

definition http2d_gethostbyname :: "inet \<Rightarrow> buffer \<Rightarrow> (ret_t \<times> addrinfo list) option" where
  "http2d_gethostbyname net hostname = do {
     loopback \<leftarrow> is_one_of hostname
       [''::1'', ''127.0.0.1'', ''localhost'', ''localhost6'', ''localhost.localdomain'', ''localhost6.localdomain6''];
     m \<leftarrow> buf hostname;
     s \<leftarrow> cstr m 0;
     (let (n, addr) = getaddrinfo net s loopback
      in if n < 0 then Some (ret_error, []) else Some (ret_ok, addr)) }"

subsection \<open>Entries of the cache\<close>

record resolv_entry =
  re_addr :: "addrinfo list"
  ip_str :: buffer
  ip_str_all :: buffer

definition sizeof_resolv_entry :: nat where "sizeof_resolv_entry = 40"

definition entry_new :: "heap \<Rightarrow> ret_t \<times> resolv_entry option" where
  "entry_new h =
     (if malloc_ok h sizeof_resolv_entry then (ret_ok, Some \<lparr>re_addr = [], ip_str = HTTP2D_BUF_INIT, ip_str_all = HTTP2D_BUF_INIT\<rparr>)
      else (ret_nomem, None))"

text \<open>Every address is converted as one of the family of the first, \<open>af\<close>. The size of the array is that of the longest address.\<close>

fun all_texts :: "heap \<Rightarrow> inet \<Rightarrow> family \<Rightarrow> addrinfo list \<Rightarrow> buffer \<Rightarrow> (ret_t \<times> buffer) option" where
  "all_texts h net af [] b = Some (ret_ok, b)"
| "all_texts h net af (addr # rest) b = do {
     (ret, str) \<leftarrow> http2d_ntop net af (ai_addr addr) 46;
     if ret \<noteq> ret_ok then Some (ret_error, b)
     else do {
       tmp \<leftarrow> str;
       (_, b) \<leftarrow> http2d_buffer_add_char h b (chr CHR '','');
       (_, b) \<leftarrow> http2d_buffer_add h b (Ext (tmp @ [0])) (length tmp);
       all_texts h net af rest b } }"

text \<open>\<open>http2d_gethostbyname\<close> never returns \<open>ret_eagain\<close>, so that the loop around it is left after the first call.\<close>

definition entry_fill_up :: "heap \<Rightarrow> inet \<Rightarrow> resolv_entry \<Rightarrow> buffer \<Rightarrow> (ret_t \<times> resolv_entry) option" where
  "entry_fill_up h net e domain = do {
     (ret, addr) \<leftarrow> http2d_gethostbyname net domain;
     if ret \<noteq> ret_ok then Some (ret_error, e)
     else (let e = e\<lparr>re_addr := addr\<rparr> in
       (case addr of
          [] \<Rightarrow> Some (ret_error, e)
        | first # _ \<Rightarrow> do {
            (ret, str) \<leftarrow> http2d_ntop net (ai_family first) (ai_addr first) 46;
            if ret \<noteq> ret_ok then Some (ret_error, e)
            else do {
              tmp \<leftarrow> str;
              (_, ip) \<leftarrow> http2d_buffer_add h (ip_str e) (Ext (tmp @ [0])) (length tmp);
              (_, ips) \<leftarrow> http2d_buffer_add_buffer h (ip_str_all e) ip;
              (ret, ips) \<leftarrow> all_texts h net (ai_family first) addr ips;
              Some (ret, e\<lparr>ip_str := ip, ip_str_all := ips\<rparr>) } })) }"

subsection \<open>The cache\<close>

text \<open>The values of the tree are the entries themselves: nobody changes an entry that has been entered.\<close>

record resolv_cache =
  table :: avl_t
  nodes :: "resolv_entry avl_buf_mem"

definition http2d_resolv_cache_init :: "resolv_cache \<Rightarrow> ret_t \<times> resolv_cache" where
  "http2d_resolv_cache_init r =
     (case http2d_avl_init (table r) of (ret, t) \<Rightarrow>
        if ret \<noteq> ret_ok then (ret, r\<lparr>table := t\<rparr>)
        else (case http2d_avl_set_case t True of (ret, t) \<Rightarrow> if ret \<noteq> ret_ok then (ret, r\<lparr>table := t\<rparr>) else (ret_ok, r\<lparr>table := t\<rparr>)))"

text \<open>The list is that of the entries that are released. The tree keeps the pointer to its root.\<close>

definition http2d_resolv_cache_mrproper :: "resolv_cache \<Rightarrow> (ret_t \<times> resolv_entry option list \<times> resolv_cache) option" where
  "http2d_resolv_cache_mrproper r = do {
     (_, vs, m) \<leftarrow> http2d_avl_mrproper (table r) (nodes r);
     Some (ret_ok, vs, r\<lparr>nodes := m\<rparr>) }"

definition http2d_resolv_cache_clean :: "resolv_cache \<Rightarrow> (ret_t \<times> resolv_entry option list \<times> resolv_cache) option" where
  "http2d_resolv_cache_clean r = do {
     (_, vs, m) \<leftarrow> http2d_avl_mrproper (table r) (nodes r);
     Some (ret_ok, vs, r\<lparr>nodes := m\<rparr>) }"

text \<open>\<open>glob\<close> is the variable \<open>__global_resolv\<close>, \<open>new\<close> the uninitialised structure that \<open>malloc\<close> returns, if it does.\<close>

definition http2d_resolv_cache_get_default :: "resolv_cache option \<Rightarrow> resolv_cache option \<Rightarrow> ret_t \<times> resolv_cache option" where
  "http2d_resolv_cache_get_default glob new =
     (case glob of
        Some r \<Rightarrow> (ret_ok, glob)
      | None \<Rightarrow>
          (case new of
             None \<Rightarrow> (ret_nomem, glob)
           | Some n \<Rightarrow> (case http2d_resolv_cache_init n of (ret, n) \<Rightarrow> if ret \<noteq> ret_ok then (ret, glob) else (ret_ok, Some n))))"

text \<open>\<open>node\<close> is the address that \<open>malloc\<close> returns for the node of the tree, if it does. What adding to the tree returns is not looked at.\<close>

definition table_add_new_entry ::
  "heap \<Rightarrow> inet \<Rightarrow> resolv_cache \<Rightarrow> addr option \<Rightarrow> buffer \<Rightarrow> (ret_t \<times> resolv_entry option \<times> resolv_cache) option" where
  "table_add_new_entry h net r node domain =
     (case entry_new h of
        (ret, None) \<Rightarrow> Some (ret, None, r)
      | (_, Some n) \<Rightarrow> do {
          (ret, n) \<leftarrow> entry_fill_up h net n domain;
          if ret \<noteq> ret_ok then Some (ret, None, r)
          else do {
            (_, t, m) \<leftarrow> http2d_avl_add h (table r) (nodes r) node domain (Some n);
            Some (ret_ok, Some n, r\<lparr>table := t, nodes := m\<rparr>) } })"

definition get_entry ::
  "heap \<Rightarrow> inet \<Rightarrow> resolv_cache \<Rightarrow> addr option \<Rightarrow> buffer \<Rightarrow> (ret_t \<times> resolv_entry option \<times> resolv_cache) option" where
  "get_entry h net r node domain = do {
     (ret, v) \<leftarrow> http2d_avl_get (table r) (nodes r) domain;
     if ret \<noteq> ret_ok then table_add_new_entry h net r node domain
     else do { e \<leftarrow> v; Some (ret_ok, e, r) } }"

definition http2d_resolv_cache_get_ipstr ::
  "heap \<Rightarrow> inet \<Rightarrow> resolv_cache \<Rightarrow> addr option \<Rightarrow> buffer \<Rightarrow> (ret_t \<times> block option \<times> resolv_cache) option" where
  "http2d_resolv_cache_get_ipstr h net r node domain = do {
     (ret, e, r) \<leftarrow> get_entry h net r node domain;
     if ret \<noteq> ret_ok then Some (ret, None, r)
     else do { e \<leftarrow> e; Some (ret_ok, buf (ip_str e), r) } }"

definition http2d_resolv_cache_get_addrinfo ::
  "heap \<Rightarrow> inet \<Rightarrow> resolv_cache \<Rightarrow> addr option \<Rightarrow> buffer \<Rightarrow> (ret_t \<times> addrinfo list \<times> resolv_cache) option" where
  "http2d_resolv_cache_get_addrinfo h net r node domain = do {
     (ret, e, r) \<leftarrow> get_entry h net r node domain;
     if ret \<noteq> ret_ok then Some (ret, [], r)
     else do { e \<leftarrow> e; Some (ret_ok, re_addr e, r) } }"

subsection \<open>Addresses of sockets\<close>

text \<open>The peer of a socket: \<open>SOCKET_AF\<close> and the bytes of the union \<open>http2d_sockaddr_t\<close>.\<close>

record peer =
  sock_af :: family
  client_addr :: block
  client_addr_len :: nat

fun nth_addr :: "addrinfo list \<Rightarrow> nat \<Rightarrow> addrinfo option" where
  "nth_addr [] num = None"
| "nth_addr (ai # rest) num = (if num > 0 then nth_addr rest (num - 1) else Some ai)"

text \<open>The family is that of the first address, the bytes are those of the address with the number \<open>num\<close>.\<close>

definition http2d_socket_update_from_addrinfo :: "peer \<Rightarrow> addrinfo list \<Rightarrow> nat \<Rightarrow> (ret_t \<times> peer) option" where
  "http2d_socket_update_from_addrinfo sock addr num =
     (case addr of
        [] \<Rightarrow> Some (ret_error, sock)
      | first # _ \<Rightarrow>
          (case nth_addr addr num of
             None \<Rightarrow> Some (ret_not_found, sock)
           | Some ai \<Rightarrow>
               (let sock = sock\<lparr>sock_af := ai_family first, client_addr_len := ai_addrlen first\<rparr> in
                (case ai_family first of
                   AF_INET \<Rightarrow> do { a \<leftarrow> sin_addr (ai_addr ai); m \<leftarrow> blk_write (client_addr sock) 4 a; Some (ret_ok, sock\<lparr>client_addr := m\<rparr>) }
                 | AF_INET6 \<Rightarrow> do { a \<leftarrow> sin6_addr (ai_addr ai); m \<leftarrow> blk_write (client_addr sock) 8 a; Some (ret_ok, sock\<lparr>client_addr := m\<rparr>) }
                 | AF_OTHER _ \<Rightarrow> Some (ret_error, sock)))))"

definition http2d_resolv_cache_get_host ::
  "heap \<Rightarrow> inet \<Rightarrow> resolv_cache \<Rightarrow> addr option \<Rightarrow> buffer \<Rightarrow> peer \<Rightarrow> (ret_t \<times> peer \<times> resolv_cache) option" where
  "http2d_resolv_cache_get_host h net r node domain sock = do {
     (ret, addr, r) \<leftarrow> http2d_resolv_cache_get_addrinfo h net r node domain;
     if ret \<noteq> ret_ok then Some (ret, sock, r)
     else do {
       (ret, sock) \<leftarrow> http2d_socket_update_from_addrinfo sock addr 0;
       Some (if ret \<noteq> ret_ok then ret else ret_ok, sock, r) } }"

end
