(* ===== verification/Access.thy ===== *)
theory Access
  imports Resolv Config_Node
begin

text \<open>
  Lists of addresses and networks, \<^verbatim>\<open>src/src/access.c\<close>, compiled with \<open>HAVE_IPV6\<close> and \<open>HAVE_INET_PTON\<close>. The lists that hang on an
  \<open>http2d_access_t\<close> are HOL lists of their items, in the order of the links; arguments of type \<open>char *\<close> are their texts. An address
  is the 16 bytes of the union \<open>ip_t\<close>, in the order of the network.
\<close>

subsection \<open>Items\<close>

type_synonym ip_t = "byte list"

abbreviation "ipv4 \<equiv> AF_INET"
abbreviation "ipv6 \<equiv> AF_INET6"

record ip_item =
  ip_type :: family
  ip :: ip_t

record subnet_item = ip_item +
  ip_mask :: ip_t

record access =
  list_ips :: "ip_item list"
  list_subnets :: "subnet_item list"

definition sizeof_ip_item :: nat where "sizeof_ip_item = 40"
definition sizeof_subnet_item :: nat where "sizeof_subnet_item = 56"

text \<open>The field \<open>type\<close> of a new item is not set; it is before it is read.\<close>

definition new_ip :: "heap \<Rightarrow> ip_item option" where
  "new_ip h = (if malloc_ok h sizeof_ip_item then Some \<lparr>ip_type = AF_OTHER 0, ip = replicate 16 0\<rparr> else None)"

definition new_subnet :: "heap \<Rightarrow> subnet_item option" where
  "new_subnet h =
     (if malloc_ok h sizeof_subnet_item then Some \<lparr>ip_type = AF_OTHER 0, ip = replicate 16 0, ip_mask = replicate 16 0\<rparr> else None)"

definition http2d_access_init :: "ret_t \<times> access" where
  "http2d_access_init = (ret_ok, \<lparr>list_ips = [], list_subnets = []\<rparr>)"

text \<open>The items that are freed are the ones of the lists.\<close>

definition http2d_access_mrproper :: "access \<Rightarrow> ret_t \<times> access" where
  "http2d_access_mrproper entry = (ret_ok, entry\<lparr>list_ips := [], list_subnets := []\<rparr>)"

subsection \<open>Parsing\<close>

text \<open>\<open>inet_pton\<close> writes the 4 or 16 bytes of an address, or nothing.\<close>

definition store_addr :: "ip_t \<Rightarrow> byte list option \<Rightarrow> ip_t" where
  "store_addr a b = (case b of None \<Rightarrow> a | Some bs \<Rightarrow> bs @ drop (length bs) a)"

definition parse_ip :: "inet \<Rightarrow> byte list \<Rightarrow> 'a ip_item_scheme \<Rightarrow> ret_t \<times> 'a ip_item_scheme" where
  "parse_ip net s n =
     (let t = (if strchr s (chr CHR '':'') \<noteq> None \<or> length s > 15 then ipv6 else ipv4);
          r = inet_pton net t s;
          n = n\<lparr>ip_type := t, ip := store_addr (ip n) r\<rparr>
      in if t = ipv6 \<and> IN6_IS_ADDR_V4MAPPED (ip n) then (ret_error, n)
         else (if r \<noteq> None then ret_ok else ret_error, n))"

fun mask_bits :: "nat \<Rightarrow> byte \<Rightarrow> byte \<Rightarrow> byte" where
  "mask_bits 0 m maskbit = m"
| "mask_bits (Suc jj) m maskbit = mask_bits jj (m OR maskbit) (drop_bit 1 maskbit)"

text \<open>The value of \<open>s_addr\<close> is the word that the four bytes make from the most significant one, so that \<open>htonl\<close> does not show.\<close>

definition addr4 :: "32 word \<Rightarrow> ip_t \<Rightarrow> ip_t" where
  "addr4 w a = [ucast (drop_bit 24 w), ucast (drop_bit 16 w), ucast (drop_bit 8 w), ucast w] @ drop 4 a"

definition parse_netmask :: "inet \<Rightarrow> byte list \<Rightarrow> subnet_item \<Rightarrow> ret_t \<times> subnet_item" where
  "parse_netmask net netmask n =
     (if strchr netmask (chr CHR '':'') \<noteq> None \<or> strchr netmask (chr CHR ''.'') \<noteq> None
      then (let r = inet_pton net (ip_type n) netmask
            in (if r \<noteq> None then ret_ok else ret_error, n\<lparr>ip_mask := store_addr (ip_mask n) r\<rparr>))
      else if length netmask > 3 then (ret_error, n)
      else (let num = int_of_long (fst (strtol netmask)) in
        if num < 0 then (ret_error, n)
        else if ip_type n = ipv4 \<and> num > 32 then (ret_error, n)
        else if ip_type n = ipv6 \<and> num > 128 then (ret_error, n)
        else if num > 128 then (ret_error, n)
        else if num = 128 then (ret_ok, n\<lparr>ip_mask := replicate 16 0\<rparr>)
        else if ip_type n = ipv6 then
          (let j = nat num div 8; jj = nat num mod 8
           in (ret_ok, n\<lparr>ip_mask := (replicate j 255 @ drop j (ip_mask n))[j := mask_bits jj 0 128]\<rparr>))
        else if num = 0 then (ret_ok, n\<lparr>ip_mask := addr4 0 (ip_mask n)\<rparr>)
        else (ret_ok, n\<lparr>ip_mask := addr4 (ucast (push_bit (32 - nat num) (- 1 :: 64 word))) (ip_mask n)\<rparr>)))"

subsection \<open>Adding\<close>

definition http2d_access_add_ip :: "heap \<Rightarrow> inet \<Rightarrow> access \<Rightarrow> byte list \<Rightarrow> ret_t \<times> access" where
  "http2d_access_add_ip h net entry s =
     (case new_ip h of
        None \<Rightarrow> (ret_error, entry)
      | Some n \<Rightarrow>
          (case parse_ip net s n of (ret, n) \<Rightarrow>
             if ret_code ret < ret_code ret_ok then (ret, entry)
             else (ret, entry\<lparr>list_ips := n # list_ips entry\<rparr>)))"

fun add_addrs :: "heap \<Rightarrow> inet \<Rightarrow> addrinfo list \<Rightarrow> access \<Rightarrow> (ret_t \<times> access) option" where
  "add_addrs h net [] entry = Some (ret_ok, entry)"
| "add_addrs h net (addr # rest) entry = do {
     (ret, str) \<leftarrow> http2d_ntop net (ai_family addr) (ai_addr addr) 46;
     if ret \<noteq> ret_ok then Some (ret, entry)
     else do {
       s \<leftarrow> str;
       (case http2d_access_add_ip h net entry s of (ret, entry) \<Rightarrow>
          if ret \<noteq> ret_ok then Some (ret, entry) else add_addrs h net rest entry) } }"

text \<open>The cache of names is the global one; \<open>new\<close> and \<open>node\<close> are what \<open>malloc\<close> returns for it and for a node of its tree.\<close>

definition http2d_access_add_domain ::
  "heap \<Rightarrow> inet \<Rightarrow> resolv_cache option \<Rightarrow> resolv_cache option \<Rightarrow> addr option \<Rightarrow> access \<Rightarrow> byte list \<Rightarrow> (ret_t \<times> access \<times> resolv_cache option) option" where
  "http2d_access_add_domain h net glob new node entry domain =
     (case http2d_resolv_cache_get_default glob new of
        (ret, None) \<Rightarrow> Some (ret, entry, glob)
      | (ret, Some r) \<Rightarrow> do {
          (ret, addr, r) \<leftarrow> http2d_resolv_cache_get_addrinfo h net r node (http2d_buffer_fake (Some (domain @ [0])) (length domain));
          if ret \<noteq> ret_ok then Some (ret, entry, Some r)
          else do {
            (ret, entry) \<leftarrow> add_addrs h net addr entry;
            Some (ret, entry, Some r) } })"

text \<open>The new item is in the list before anything is parsed, and stays in it.\<close>

definition http2d_access_add_subnet :: "heap \<Rightarrow> inet \<Rightarrow> access \<Rightarrow> byte list \<Rightarrow> (ret_t \<times> access) option" where
  "http2d_access_add_subnet h net entry subnet =
     (case strpbrk subnet (lit (CHR ''/'' # [CHR 0x5C])) of
        None \<Rightarrow> Some (ret_error, entry)
      | Some slash \<Rightarrow> do {
          (_, ip) \<leftarrow> http2d_buffer_add h HTTP2D_BUF_INIT (Ext (subnet @ [0])) slash;
          (case new_subnet h of
             None \<Rightarrow> Some (ret_error, entry)
           | Some n \<Rightarrow> do {
               s \<leftarrow> key_cstr ip;
               (case parse_ip net s n of (ret, n) \<Rightarrow>
                  if ret_code ret < ret_code ret_ok then Some (ret_error, entry\<lparr>list_subnets := n # list_subnets entry\<rparr>)
                  else
                    (case parse_netmask net (drop (slash + 1) subnet) n of (ret, n) \<Rightarrow>
                       if ret_code ret < ret_code ret_ok then Some (ret_error, entry\<lparr>list_subnets := n # list_subnets entry\<rparr>)
                       else Some (ret_ok, entry\<lparr>list_subnets := n # list_subnets entry\<rparr>))) }) })"

definition is_letter :: "byte \<Rightarrow> bool" where
  "is_letter c \<longleftrightarrow> (chr CHR ''a'' \<le> c \<and> c \<le> chr CHR ''z'') \<or> (chr CHR ''A'' \<le> c \<and> c \<le> chr CHR ''Z'')"

text \<open>The separator that is overwritten while a single address is added is put back.\<close>

definition http2d_access_add ::
  "heap \<Rightarrow> inet \<Rightarrow> resolv_cache option \<Rightarrow> resolv_cache option \<Rightarrow> addr option \<Rightarrow> access \<Rightarrow> byte list \<Rightarrow> (ret_t \<times> access \<times> resolv_cache option) option" where
  "http2d_access_add h net glob new node entry s =
     (let colon = strchr s (chr CHR '':'') \<noteq> None in
      (case strpbrk s (lit (CHR ''/'' # [CHR 0x5C])) of
         None \<Rightarrow>
           if \<not> colon \<and> (\<exists>c \<in> set s. is_letter c) then http2d_access_add_domain h net glob new node entry s
           else (case http2d_access_add_ip h net entry s of (ret, entry) \<Rightarrow> Some (ret, entry, glob))
       | Some slash \<Rightarrow> do {
           (ret, num) \<leftarrow> http2d_atoi (s @ [0]) (slash + 1);
           if ret \<noteq> ret_ok then Some (ret_error, entry, glob)
           else if (colon \<and> num = Some 128) \<or> (strchr s (chr CHR ''.'') \<noteq> None \<and> num = Some 32) then
             (case http2d_access_add_ip h net entry (take slash s) of (ret, entry) \<Rightarrow> Some (ret, entry, glob))
           else do {
             (ret, entry) \<leftarrow> http2d_access_add_subnet h net entry s;
             Some (ret, entry, glob) } }))"

subsection \<open>Matching\<close>

definition s_addr :: "ip_t \<Rightarrow> byte list" where
  "s_addr a = take 4 a"

definition masked :: "byte list \<Rightarrow> byte list \<Rightarrow> byte list" where
  "masked a m = map2 (AND) a m"

text \<open>The answer of one item, if it ends the search.\<close>

definition ip_answer :: "peer \<Rightarrow> ip_item \<Rightarrow> ret_t option option" where
  "ip_answer sock i = do {
     mapped \<leftarrow>
       (if sock_af sock = ipv6 \<and> ip_type i = ipv4 then do {
          a \<leftarrow> sin6_addr (client_addr sock);
          Some (IN6_IS_ADDR_V4MAPPED a \<and> drop 12 a = s_addr (ip i)) }
        else Some False);
     if mapped then Some (Some ret_ok)
     else if sock_af sock = ip_type i then
       (case ip_type i of
          AF_INET \<Rightarrow> do { a \<leftarrow> sin_addr (client_addr sock); Some (if a = s_addr (ip i) then Some ret_ok else None) }
        | AF_INET6 \<Rightarrow> do { a \<leftarrow> sin6_addr (client_addr sock); Some (if a = ip i then Some ret_ok else None) }
        | AF_OTHER _ \<Rightarrow> Some (Some ret_error))
     else Some None }"

definition subnet_answer :: "peer \<Rightarrow> subnet_item \<Rightarrow> ret_t option option" where
  "subnet_answer sock i = do {
     mapped \<leftarrow>
       (if sock_af sock = ipv6 \<and> ip_type i = ipv4 then do {
          a \<leftarrow> sin6_addr (client_addr sock);
          Some (IN6_IS_ADDR_V4MAPPED a \<and> masked (drop 12 a) (s_addr (ip_mask i)) = masked (s_addr (ip i)) (s_addr (ip_mask i))) }
        else Some False);
     if mapped then Some (Some ret_ok)
     else if sock_af sock = ip_type i then
       (case ip_type i of
          AF_INET \<Rightarrow> do {
            a \<leftarrow> sin_addr (client_addr sock);
            Some (if masked a (s_addr (ip_mask i)) = masked (s_addr (ip i)) (s_addr (ip_mask i)) then Some ret_ok else None) }
        | AF_INET6 \<Rightarrow> do {
            a \<leftarrow> sin6_addr (client_addr sock);
            Some (if masked (ip i) (ip_mask i) = masked a (ip_mask i) then Some ret_ok else None) }
        | AF_OTHER _ \<Rightarrow> Some (Some ret_error))
     else Some None }"

fun first_answer :: "('i \<Rightarrow> ret_t option option) \<Rightarrow> 'i list \<Rightarrow> ret_t option option" where
  "first_answer f [] = Some None"
| "first_answer f (i # is) = do { r \<leftarrow> f i; if r = None then first_answer f is else Some r }"

definition http2d_access_ip_match :: "access \<Rightarrow> peer \<Rightarrow> ret_t option" where
  "http2d_access_ip_match entry sock = do {
     r \<leftarrow> first_answer (ip_answer sock) (list_ips entry);
     (case r of
        Some ret \<Rightarrow> Some ret
      | None \<Rightarrow> do {
          r \<leftarrow> first_answer (subnet_answer sock) (list_subnets entry);
          Some (case r of Some ret \<Rightarrow> ret | None \<Rightarrow> ret_not_found) }) }"

end
