(* ===== verification/Resolv_Cache.thy ===== *)
theory Resolv_Cache
  imports Resolv Avl_Dict Util_Text
begin

text \<open>
  The cache of names implements a map from names, up to case, to lists of addresses, which is filled by asking the system once; what
  happens when the addresses of a name are of several families, and what \<open>http2d_resolv_cache_clean\<close> leaves behind.
\<close>

subsection \<open>Buffers that are not much larger than their text\<close>

definition lean :: "buffer \<Rightarrow> bool" where
  "lean b \<longleftrightarrow> bsize b \<le> len b + 19"

lemma lean_INIT [simp]: "lean HTTP2D_BUF_INIT"
  by (simp add: lean_def HTTP2D_BUF_INIT_def)

lemma add_lean:
  assumes "buf_rep b s" "lean b" "n \<le> length bs" "length s + n + 17 < 2 ^ 31"
  shows "\<exists>b'. http2d_buffer_add (total_heap f) b (Ext bs) n = Some (ret_ok, b') \<and> buf_rep b' (s @ take n bs) \<and> lean b'"
proof -
  obtain b' where b': "http2d_buffer_add (total_heap f) b (Ext bs) n = Some (ret_ok, b')" "buf_rep b' (s @ take n bs)"
    using grows_to_total [OF http2d_buffer_add_rep [OF assms(1,3,4), of "total_heap f"]] by auto
  have l: "len b = length s" "len b' = length s + n" using buf_rep_len [OF assms(1)] buf_rep_len [OF b'(2)] assms(3) by simp_all
  have k: "bsize b < 2 ^ 31" "len b \<le> bsize b" using assms(1) by (auto simp: buf_rep_def dest: buffer_ok_bounds)
  have "bsize b' = bsize b \<or> bsize b' = length s + n + 17"
    using b'(1) assms(4) l(1) k
    by (auto simp: http2d_buffer_add_def realloc_inc_bufsize_def realloc_def total_heap_def REALLOC_EXTRA_SIZE_def Let_def sub32_id sub64_id u64_id u32_id sext64_id
        split: if_splits Option.bind_splits)
  then have "lean b'" using assms(2) l by (auto simp: lean_def)
  with b' show ?thesis by blast
qed

lemma add_char_lean:
  assumes "buf_rep b s" "lean b" "length s + 38 < 2 ^ 31"
  shows "\<exists>b'. http2d_buffer_add_char (total_heap f) b c = Some (ret_ok, b') \<and> buf_rep b' (s @ [c]) \<and> lean b'"
proof -
  have l: "len b = length s" using buf_rep_len [OF assms(1)] .
  have s: "bsize b + 18 < 2 ^ 31" using assms(2,3) l by (simp add: lean_def)
  have ok: "buffer_ok b" "buf_str b = s" using assms(1) by (simp_all add: buf_rep_def)
  obtain b' where b': "http2d_buffer_add_char (total_heap f) b c = Some (ret_ok, b')" "buf_rep b' (s @ [c])"
    using grows_to_total [OF http2d_buffer_add_char_grows [OF ok(1) s, of "total_heap f" c]] ok(2) by auto
  have l': "len b' = length s + 1" using buf_rep_len [OF b'(2)] by simp
  have u: "u32 (Suc (length s)) = Suc (length s)" using assms(3) by (simp add: u32_id)
  have "bsize b' = bsize b \<or> bsize b' = bsize b + 18 \<and> bsize b \<le> length s + 1"
    using b'(1) s l u
    by (auto simp: http2d_buffer_add_char_def realloc_inc_bufsize_def realloc_def total_heap_def REALLOC_EXTRA_SIZE_def Let_def u64_id u32_id
        split: if_splits Option.bind_splits)
  then have "lean b'" using assms(2) l l' by (auto simp: lean_def)
  with b' show ?thesis by blast
qed

subsection \<open>Asking the system\<close>

definition loopback_names :: "byte list list" where
  "loopback_names = [lit ''::1'', lit ''127.0.0.1'', lit ''localhost'', lit ''localhost6'', lit ''localhost.localdomain'', lit ''localhost6.localdomain6'']"

definition answer :: "inet \<Rightarrow> byte list \<Rightarrow> int \<times> addrinfo list" where
  "answer net s = getaddrinfo net s (s \<in> set loopback_names)"

lemma is_one_of_ok:
  assumes "buf_rep b s" "0 \<notin> set s" "list_all (\<lambda>t. length t < 100) ss"
  shows "is_one_of b ss = Some (s \<in> set (map lit ss))"
  using assms(3)
proof (induction ss)
  case (Cons t ts)
  have "length t < 2 ^ 31 - 1" using Cons.prems by simp
  then obtain r where "http2d_buffer_cmp b (lit t @ [0]) (length t) = Some r" "r = 0 \<longleftrightarrow> s = lit t" using cmp_literal [OF assms(1,2)] by blast
  then show ?case using Cons by auto
qed simp

lemma gethostbyname_ok:
  assumes "valid_key b" "buf_str b \<noteq> []"
  shows "http2d_gethostbyname net b =
    Some (if fst (answer net (buf_str b)) < 0 then (ret_error, []) else (ret_ok, snd (answer net (buf_str b))))"
proof -
  have v: "buf_rep b (buf_str b)" "0 \<notin> set (buf_str b)" using assms(1) by (simp_all add: valid_key_def)
  obtain m xs where m: "buf b = Some m" "drop 0 m = buf_str b @ 0 # xs" using buf_rep_drop0 [OF v(1) assms(2)] by blast
  have "cstr m 0 = Some (buf_str b)" by (rule cstr_drop0 [OF m(2) v(2)])
  moreover have "is_one_of b [''::1'', ''127.0.0.1'', ''localhost'', ''localhost6'', ''localhost.localdomain'', ''localhost6.localdomain6''] =
      Some (buf_str b \<in> set loopback_names)"
    by (subst is_one_of_ok [OF v]) (simp_all add: loopback_names_def)
  ultimately show ?thesis using m(1) unfolding http2d_gethostbyname_def answer_def by (simp split: prod.splits)
qed

text \<open>The texts of a list of addresses of one family.\<close>

definition text_of :: "inet \<Rightarrow> addrinfo \<Rightarrow> byte list option" where
  "text_of net a = do { (_, t) \<leftarrow> http2d_ntop net (ai_family a) (ai_addr a) 46; t }"

definition renderable :: "inet \<Rightarrow> addrinfo list \<Rightarrow> bool" where
  "renderable net as \<longleftrightarrow> as \<noteq> [] \<and> length as < 2 ^ 24 \<and>
     list_all (\<lambda>a. ai_family a = ai_family (hd as) \<and> (\<exists>t. text_of net a = Some t \<and> length t < 46)) as"

lemma ntop_text: "text_of net a = Some t \<Longrightarrow> http2d_ntop net (ai_family a) (ai_addr a) 46 = Some (ret_ok, Some t)"
  by (auto simp: text_of_def http2d_ntop_def split: Option.bind_splits if_splits)

definition commas :: "inet \<Rightarrow> addrinfo list \<Rightarrow> byte list" where
  "commas net as = concat (map (\<lambda>a. chr CHR '','' # the (text_of net a)) as)"

lemma all_texts_ok:
  assumes "list_all (\<lambda>a. ai_family a = af \<and> (\<exists>t. text_of net a = Some t \<and> length t < 46)) as" "buf_rep b s" "lean b"
    and "length s + 47 * length as + 100 < 2 ^ 31"
  shows "\<exists>b'. all_texts (total_heap f) net af as b = Some (ret_ok, b') \<and> buf_rep b' (s @ commas net as)"
  using assms
proof (induction as arbitrary: b s)
  case (Cons a as)
  then obtain t where t: "text_of net a = Some t" "length t < 46" "ai_family a = af" by auto
  obtain b1 where b1: "http2d_buffer_add_char (total_heap f) b (chr CHR '','') = Some (ret_ok, b1)" "buf_rep b1 (s @ [chr CHR '',''])" "lean b1"
    using add_char_lean [OF Cons.prems(2,3), of f "chr CHR '',''"] Cons.prems(4) by auto
  have "length (s @ [chr CHR '','']) + length t + 17 < 2 ^ 31" using Cons.prems(4) t(2) by simp
  from add_lean [OF b1(2,3) _ this, of "t @ [0]" f] obtain b2 where
    b2: "http2d_buffer_add (total_heap f) b1 (Ext (t @ [0])) (length t) = Some (ret_ok, b2)" "buf_rep b2 ((s @ [chr CHR '','']) @ t)" "lean b2" by auto
  have "length ((s @ [chr CHR '','']) @ t) + 47 * length as + 100 < 2 ^ 31" using Cons.prems(4) t(2) by simp
  from Cons.IH [OF _ b2(2,3) this] obtain b' where
    "all_texts (total_heap f) net af as b2 = Some (ret_ok, b')" "buf_rep b' (((s @ [chr CHR '','']) @ t) @ commas net as)" using Cons.prems(1) by auto
  then show ?case using ntop_text [OF t(1)] t(1,3) b1(1) b2(1) by (simp add: commas_def)
qed (simp add: commas_def)

text \<open>The entry for a name: its addresses, the text of the first, and the texts of all, with that of the first twice.\<close>

definition entry_for :: "inet \<Rightarrow> addrinfo list \<Rightarrow> resolv_entry \<Rightarrow> bool" where
  "entry_for net as e \<longleftrightarrow> re_addr e = as \<and> buf_rep (ip_str e) (the (text_of net (hd as))) \<and>
     buf_rep (ip_str_all e) (the (text_of net (hd as)) @ commas net as)"

lemma fill_up_ok:
  assumes "valid_key b" "buf_str b \<noteq> []" "answer net (buf_str b) = (n, as)" "0 \<le> n" "renderable net as"
  shows "\<exists>e. entry_fill_up (total_heap f) net \<lparr>re_addr = [], ip_str = HTTP2D_BUF_INIT, ip_str_all = HTTP2D_BUF_INIT\<rparr> b = Some (ret_ok, e) \<and> entry_for net as e"
proof -
  obtain a as' where as: "as = a # as'" using assms(5) by (cases as) (auto simp: renderable_def)
  obtain t where t: "text_of net a = Some t" "length t < 46" using assms(5) as by (auto simp: renderable_def)
  have l: "length ([] :: byte list) + length t + 17 < 2 ^ 31" using t(2) by simp
  obtain ip where ip: "http2d_buffer_add (total_heap f) HTTP2D_BUF_INIT (Ext (t @ [0])) (length t) = Some (ret_ok, ip)" "buf_rep ip t"
    using add_lean [OF buf_rep_INIT lean_INIT _ l, of "t @ [0]" f] by auto
  have bp: "len ip = length t" "\<exists>bs. buf_ptr ip = Ext bs \<and> take (length t) bs = t \<and> length t \<le> length bs"
  proof -
    show "len ip = length t" using buf_rep_len [OF ip(2)] .
    show "\<exists>bs. buf_ptr ip = Ext bs \<and> take (length t) bs = t \<and> length t \<le> length bs"
      using ip(2) by (cases "buf ip") (auto simp: buf_ptr_def elim!: buf_rep_cases)
  qed
  then obtain bs where bs: "buf_ptr ip = Ext bs" "take (length t) bs = t" "length t \<le> length bs" by blast
  obtain ips where ips: "http2d_buffer_add_buffer (total_heap f) HTTP2D_BUF_INIT ip = Some (ret_ok, ips)" "buf_rep ips t" "lean ips"
    using add_lean [OF buf_rep_INIT lean_INIT bs(3) l, of f] bs bp(1) by (auto simp: http2d_buffer_add_buffer_def)
  have r: "list_all (\<lambda>x. ai_family x = ai_family a \<and> (\<exists>t. text_of net x = Some t \<and> length t < 46)) as" "length as < 2 ^ 24"
    using assms(5) as by (auto simp: renderable_def)
  have "length t + 47 * length as + 100 < 2 ^ 31" using t(2) r(2) by simp
  from all_texts_ok [OF r(1) ips(2,3) this, of f] obtain ips' where
    "all_texts (total_heap f) net (ai_family a) as ips = Some (ret_ok, ips')" "buf_rep ips' (t @ commas net as)" by blast
  then show ?thesis using gethostbyname_ok [OF assms(1,2), of net] assms(3,4) as ip ips(1) ntop_text [OF t(1)] t(1)
    by (simp add: entry_fill_up_def entry_for_def del: all_texts.simps)
qed

lemma fill_up_failed:
  assumes "valid_key b" "buf_str b \<noteq> []" "fst (answer net (buf_str b)) < 0 \<or> snd (answer net (buf_str b)) = []"
  shows "\<exists>e'. entry_fill_up h net e b = Some (ret_error, e')"
  using gethostbyname_ok [OF assms(1,2), of net] assms(3) by (auto simp: entry_fill_up_def)

subsection \<open>The cache as a map\<close>

definition resolv_dict :: "resolv_cache \<Rightarrow> addr set \<Rightarrow> (byte list \<Rightarrow> resolv_entry option) \<Rightarrow> bool" where
  "resolv_dict r S D \<longleftrightarrow> case_insensitive (table r) \<and> avl_dict (table r) (nodes r) S (\<lambda>s. map_option Some (D s))"

abbreviation name_of :: "buffer \<Rightarrow> byte list" where
  "name_of b \<equiv> map tolower (buf_str b)"

lemma key_text_True [simp]: "key_text True b = name_of b"
  by (simp add: key_text_def folding_def)

lemma resolv_init: "resolv_dict (snd (http2d_resolv_cache_init r)) {} (\<lambda>_. None)"
proof -
  have "snd (http2d_resolv_cache_init r) = r\<lparr>table := snd (http2d_avl_set_case (snd (http2d_avl_init (table r))) True)\<rparr>"
    by (simp add: http2d_resolv_cache_init_def http2d_avl_init_def http2d_avl_set_case_def)
  then show ?thesis using avl_dict_init [of "table r" True "nodes r"]
    by (simp add: resolv_dict_def http2d_avl_set_case_def)
qed

lemma resolv_get:
  assumes "resolv_dict r S D" "valid_key b" "buf_str b \<noteq> []"
  shows "http2d_avl_get (table r) (nodes r) b = Some (case D (name_of b) of None \<Rightarrow> (ret_not_found, None) | Some e \<Rightarrow> (ret_ok, Some (Some e)))"
  using avl_dict_get [of "table r" "nodes r" S "\<lambda>s. map_option Some (D s)" b] assms by (auto simp: resolv_dict_def split: option.splits)

lemma get_entry_hit:
  assumes "resolv_dict r S D" "valid_key b" "buf_str b \<noteq> []" "D (name_of b) = Some e"
  shows "get_entry h net r node b = Some (ret_ok, Some e, r)"
  using resolv_get [OF assms(1-3)] assms(4) by (simp add: get_entry_def)

lemma get_entry_miss:
  assumes "resolv_dict r S D" "valid_key b" "buf_str b \<noteq> []" "D (name_of b) = None" "card S < 2 ^ 32" "nodes r x = None"
    and "answer net (buf_str b) = (n, as)" "0 \<le> n" "renderable net as"
  shows "\<exists>e r'. get_entry (total_heap f) net r (Some x) b = Some (ret_ok, Some e, r') \<and> entry_for net as e \<and>
    resolv_dict r' (insert x S) (D(name_of b \<mapsto> e)) \<and> (\<forall>y. y \<notin> insert x S \<longrightarrow> nodes r' y = nodes r y)"
proof -
  obtain e where e: "entry_fill_up (total_heap f) net \<lparr>re_addr = [], ip_str = HTTP2D_BUF_INIT, ip_str_all = HTTP2D_BUF_INIT\<rparr> b = Some (ret_ok, e)"
    "entry_for net as e" using fill_up_ok [OF assms(2,3,7-9), of f] by blast
  have d: "avl_dict (table r) (nodes r) S (\<lambda>s. map_option Some (D s))" and ci: "case_insensitive (table r)" using assms(1) by (simp_all add: resolv_dict_def)
  obtain t m where t: "http2d_avl_add (total_heap f) (table r) (nodes r) (Some x) b (Some e) = Some (ret_ok, t, m)" "case_insensitive t"
    "avl_dict t m (insert x S) ((\<lambda>s. map_option Some (D s))(name_of b \<mapsto> Some e))" "same_outside (insert x S) (nodes r) m"
    using avl_dict_add(2) [OF d assms(2,3,5,6), of f "Some e"] assms(4) ci by auto
  have "(\<lambda>s. map_option Some (D s))(name_of b \<mapsto> Some e) = (\<lambda>s. map_option Some ((D(name_of b \<mapsto> e)) s))" by auto
  then have "resolv_dict (r\<lparr>table := t, nodes := m\<rparr>) (insert x S) (D(name_of b \<mapsto> e))" using t(2,3) by (simp add: resolv_dict_def)
  moreover have "get_entry (total_heap f) net r (Some x) b = Some (ret_ok, Some e, r\<lparr>table := t, nodes := m\<rparr>)"
    using resolv_get [OF assms(1-3)] assms(4) e(1) t(1)
    by (simp add: get_entry_def table_add_new_entry_def entry_new_def)
  ultimately show ?thesis using e(2) t(4) by (intro exI [of _ e] exI [of _ "r\<lparr>table := t, nodes := m\<rparr>"]) (auto simp: same_outside_def)
qed

lemma get_entry_failed:
  assumes "resolv_dict r S D" "valid_key b" "buf_str b \<noteq> []" "D (name_of b) = None"
    and "fst (answer net (buf_str b)) < 0 \<or> snd (answer net (buf_str b)) = []"
  shows "get_entry (total_heap f) net r node b = Some (ret_error, None, r)"
proof -
  obtain e' where "entry_fill_up (total_heap f) net \<lparr>re_addr = [], ip_str = HTTP2D_BUF_INIT, ip_str_all = HTTP2D_BUF_INIT\<rparr> b = Some (ret_error, e')"
    using fill_up_failed [OF assms(2,3,5)] by blast
  then show ?thesis using resolv_get [OF assms(1-3)] assms(4) by (simp add: get_entry_def table_add_new_entry_def entry_new_def)
qed

text \<open>A system that knows one name, and the cache that has asked it.\<close>

definition www_addr :: "addrinfo list" where
  "www_addr = [\<lparr>ai_family = AF_INET, ai_addrlen = 16, ai_addr = [2, 0, 0, 0, 10, 0, 0, 1] @ replicate 8 0\<rparr>]"

definition one_host :: inet where
  "one_host = \<lparr>inet_pton = (\<lambda>t s. if t = AF_INET \<and> s = lit ''10.0.0.1'' then Some [10, 0, 0, 1] else None),
     inet_ntop = (\<lambda>t a n. if t = AF_INET \<and> a = [10, 0, 0, 1] then Some (lit ''10.0.0.1'') else None),
     getaddrinfo = (\<lambda>s _. if s = lit ''www'' then (0, www_addr) else (- 2, []))\<rparr>"

definition no_names :: resolv_cache where
  "no_names = snd (http2d_resolv_cache_init \<lparr>table = undefined, nodes = (\<lambda>_. None)\<rparr>)"

lemma www_facts:
  "valid_key (http2d_buffer_fake_str ''www'')" "buf_str (http2d_buffer_fake_str ''www'') = lit ''www''"
  "valid_key (http2d_buffer_fake_str ''WWW'')" "buf_str (http2d_buffer_fake_str ''WWW'') = lit ''WWW''" "lit ''www'' \<noteq> []" "lit ''WWW'' \<noteq> []"
  "map tolower (lit ''WWW'') = map tolower (lit ''www'')"
  "answer one_host (lit ''www'') = (0, www_addr)" "renderable one_host www_addr" "resolv_dict no_names {} (\<lambda>_. None)" "nodes no_names x = None"
proof -
  have rep: "buf_rep (http2d_buffer_fake_str ''www'') (lit ''www'')" "buf_rep (http2d_buffer_fake_str ''WWW'') (lit ''WWW'')"
    by (rule http2d_buffer_fake_str_rep; simp)+
  then show "buf_str (http2d_buffer_fake_str ''www'') = lit ''www''" "buf_str (http2d_buffer_fake_str ''WWW'') = lit ''WWW''" by (simp_all add: buf_rep_def)
  show "valid_key (http2d_buffer_fake_str ''www'')" "valid_key (http2d_buffer_fake_str ''WWW'')"
    using rep valid_key_rep by (auto simp: lit_def chr_def)
  show "renderable one_host www_addr"
    by (simp add: renderable_def text_of_def http2d_ntop_def sin_addr_def blk_read_def one_host_def www_addr_def lit_def)
  show "nodes no_names x = None" by (simp add: no_names_def http2d_resolv_cache_init_def http2d_avl_init_def http2d_avl_set_case_def)
  show "resolv_dict no_names {} (\<lambda>_. None)" unfolding no_names_def by (rule resolv_init)
qed (simp_all add: lit_def chr_def tolower_def answer_def one_host_def www_addr_def)

subsection \<open>Properties\<close>

text \<open>C23: The cache of names implements a map from names, up to case, to lists of addresses. A name that is in it is answered from it, whatever the
  system would say. For a name that is not, and is none of the names of the local host, the system is asked: if it knows the name and all
  its addresses are of one family and have texts, they are returned and kept, and every later look-up of the name, in any case of letters, gives
  the same addresses without the system; if it does not know the name, nothing changes. Names with addresses of several families are not covered.\<close>

theorem http2d_resolv_cache_get_addrinfo_correct:
  assumes "resolv_dict r S D" "valid_key b" "buf_str b \<noteq> []" "card S < 2 ^ 32" "nodes r x = None"
    and "buf_str b \<notin> set loopback_names" "getaddrinfo net (buf_str b) False = (n, as)"
  shows "(D (name_of b) = Some e \<longrightarrow> http2d_resolv_cache_get_addrinfo (total_heap f) net r (Some x) b = Some (ret_ok, re_addr e, r)) \<and>
    (D (name_of b) = None \<and> n = 0 \<and> renderable net as \<longrightarrow>
      (\<exists>e r'. http2d_resolv_cache_get_addrinfo (total_heap f) net r (Some x) b = Some (ret_ok, as, r') \<and> re_addr e = as \<and>
         resolv_dict r' (insert x S) (D(name_of b \<mapsto> e)) \<and>
         (\<forall>net' b' y. valid_key b' \<and> buf_str b' \<noteq> [] \<and> name_of b' = name_of b \<longrightarrow>
            http2d_resolv_cache_get_addrinfo (total_heap f) net' r' y b' = Some (ret_ok, as, r')))) \<and>
    (D (name_of b) = None \<and> (n < 0 \<or> n = 0 \<and> as = []) \<longrightarrow> http2d_resolv_cache_get_addrinfo (total_heap f) net r (Some x) b = Some (ret_error, [], r))"
proof (intro conjI impI)
  have a: "answer net (buf_str b) = (n, as)" using assms(6,7) by (simp add: answer_def)
  show "http2d_resolv_cache_get_addrinfo (total_heap f) net r (Some x) b = Some (ret_ok, re_addr e, r)" if "D (name_of b) = Some e"
    using get_entry_hit [OF assms(1-3) that] by (simp add: http2d_resolv_cache_get_addrinfo_def)
  show "\<exists>e r'. http2d_resolv_cache_get_addrinfo (total_heap f) net r (Some x) b = Some (ret_ok, as, r') \<and> re_addr e = as \<and>
      resolv_dict r' (insert x S) (D(name_of b \<mapsto> e)) \<and>
      (\<forall>net' b' y. valid_key b' \<and> buf_str b' \<noteq> [] \<and> name_of b' = name_of b \<longrightarrow>
         http2d_resolv_cache_get_addrinfo (total_heap f) net' r' y b' = Some (ret_ok, as, r'))"
    if q: "D (name_of b) = None \<and> n = 0 \<and> renderable net as"
  proof -
    obtain e r' where e: "get_entry (total_heap f) net r (Some x) b = Some (ret_ok, Some e, r')" "entry_for net as e"
      "resolv_dict r' (insert x S) (D(name_of b \<mapsto> e))"
      using get_entry_miss [OF assms(1-3) _ assms(4,5) a, of f] q by auto
    have "http2d_resolv_cache_get_addrinfo (total_heap f) net' r' y b' = Some (ret_ok, as, r')"
      if "valid_key b'" "buf_str b' \<noteq> []" "name_of b' = name_of b" for net' b' y
      using get_entry_hit [OF e(3) that(1,2), of e] that(3) e(2) by (simp add: http2d_resolv_cache_get_addrinfo_def entry_for_def)
    then show ?thesis using e by (intro exI [of _ e] exI [of _ r']) (simp add: http2d_resolv_cache_get_addrinfo_def entry_for_def)
  qed
  show "http2d_resolv_cache_get_addrinfo (total_heap f) net r (Some x) b = Some (ret_error, [], r)" if "D (name_of b) = None \<and> (n < 0 \<or> n = 0 \<and> as = [])"
    using get_entry_failed [OF assms(1-3), of net f "Some x"] that a by (auto simp: http2d_resolv_cache_get_addrinfo_def)
qed

theorem http2d_resolv_cache_get_addrinfo_correct_witness:
  "\<exists>r'. http2d_resolv_cache_get_addrinfo (total_heap (\<lambda>_. 0)) one_host no_names (Some 5) (http2d_buffer_fake_str ''www'') =
      Some (ret_ok, www_addr, r') \<and>
    (\<forall>net. http2d_resolv_cache_get_addrinfo (total_heap (\<lambda>_. 0)) net r' (Some 6) (http2d_buffer_fake_str ''WWW'') = Some (ret_ok, www_addr, r'))"
proof -
  let ?b = "http2d_buffer_fake_str ''www''" let ?c = "http2d_buffer_fake_str ''WWW''"
  have a: "getaddrinfo one_host (buf_str ?b) False = (0, www_addr)" "buf_str ?b \<notin> set loopback_names"
    using www_facts(2) by (simp_all add: one_host_def www_addr_def loopback_names_def lit_def chr_def)
  have ne: "buf_str ?b \<noteq> []" "buf_str ?c \<noteq> []" "name_of ?c = name_of ?b" using www_facts by simp_all
  have c0: "card {} < (2 :: nat) ^ 32" by simp
  from http2d_resolv_cache_get_addrinfo_correct [OF www_facts(10,1) ne(1) c0 www_facts(11) a(2,1), where x = 5 and f = "\<lambda>_. 0"] www_facts(3,9) ne(2,3)
  show ?thesis by auto
qed

text \<open>When a name has an IPv6 address first and an IPv4 address after it, filling the entry reads the second as if it were an IPv6
  address, behind the end of its 16 bytes.\<close>

theorem http2d_resolv_cache_mixed_families:
  assumes "resolv_dict r S D" "valid_key b" "buf_str b \<noteq> []" "D (name_of b) = None"
    and "answer net (buf_str b) = (n, a # c # as)" "0 \<le> n" "ai_family a = AF_INET6" "text_of net a = Some t" "length t < 46"
    and "length (ai_addr c) = 16"
  shows "http2d_resolv_cache_get_addrinfo (total_heap f) net r node b = None"
proof -
  let ?e = "\<lparr>re_addr = a # c # as, ip_str = HTTP2D_BUF_INIT, ip_str_all = HTTP2D_BUF_INIT\<rparr>"
  have l: "length ([] :: byte list) + length t + 17 < 2 ^ 31" using assms(9) by simp
  obtain ip where ip: "http2d_buffer_add (total_heap f) HTTP2D_BUF_INIT (Ext (t @ [0])) (length t) = Some (ret_ok, ip)"
    using add_lean [OF buf_rep_INIT lean_INIT _ l, of "t @ [0]" f] by auto
  have "http2d_ntop net AF_INET6 (ai_addr c) 46 = None" using assms(10) by (simp add: http2d_ntop_def sin6_addr_def blk_read_def)
  then have s: "all_texts (total_heap f) net AF_INET6 (c # as) x = None" for x by simp
  have "all_texts (total_heap f) net AF_INET6 (a # c # as) x = None" for x
    using ntop_text [OF assms(8)] assms(7) s by (auto simp del: all_texts.simps(2) simp: all_texts.simps(2) [of _ _ _ a] split: Option.bind_splits)
  then have "entry_fill_up (total_heap f) net \<lparr>re_addr = [], ip_str = HTTP2D_BUF_INIT, ip_str_all = HTTP2D_BUF_INIT\<rparr> b = None"
    using gethostbyname_ok [OF assms(2,3), of net] assms(5-7) ntop_text [OF assms(8)] ip
    by (auto simp: entry_fill_up_def simp del: all_texts.simps split: Option.bind_splits)
  then show ?thesis using resolv_get [OF assms(1-3)] assms(4)
    by (simp add: http2d_resolv_cache_get_addrinfo_def get_entry_def table_add_new_entry_def entry_new_def)
qed

theorem http2d_resolv_cache_mixed_families_witness:
  "\<exists>net. http2d_resolv_cache_get_addrinfo (total_heap (\<lambda>_. 0)) net no_names (Some 5) (http2d_buffer_fake_str ''www'') = None"
proof -
  let ?b = "http2d_buffer_fake_str ''www''"
  let ?six = "\<lparr>ai_family = AF_INET6, ai_addrlen = 28, ai_addr = replicate 28 1\<rparr>" and ?four = "\<lparr>ai_family = AF_INET, ai_addrlen = 16, ai_addr = replicate 16 1\<rparr>"
  let ?net = "\<lparr>inet_pton = (\<lambda>_ _. None), inet_ntop = (\<lambda>_ _ _. Some (lit ''1'')), getaddrinfo = (\<lambda>_ _. (0, [?six, ?four]))\<rparr>"
  have a: "answer ?net (buf_str ?b) = (0, ?six # ?four # [])" by (simp add: answer_def)
  have t: "text_of ?net ?six = Some (lit ''1'')"
    by (simp add: text_of_def http2d_ntop_def sin6_addr_def blk_read_def IN6_IS_ADDR_V4MAPPED_def)
  have ne: "buf_str ?b \<noteq> []" using www_facts by simp
  from http2d_resolv_cache_mixed_families [OF www_facts(10,1) ne refl a _ _ t] show ?thesis by auto
qed

text \<open>C31: \<open>http2d_resolv_cache_clean\<close> releases every entry of the cache but leaves the root of the tree where it was: the next look-up, of any
  name, follows a dangling pointer, unless the cache was empty.\<close>

theorem http2d_resolv_cache_clean_dangling:
  assumes "resolv_dict r S D" "S \<noteq> {}"
  shows "\<exists>vs r'. http2d_resolv_cache_clean r = Some (ret_ok, vs, r') \<and> length vs = card S \<and> (\<forall>a. a \<in> S \<longrightarrow> nodes r' a = None) \<and>
    (\<forall>b node. valid_key b \<and> buf_str b \<noteq> [] \<longrightarrow> http2d_resolv_cache_get_addrinfo h net r' node b = None)"
proof -
  have d: "avl_dict (table r) (nodes r) S (\<lambda>s. map_option Some (D s))" using assms(1) by (simp add: resolv_dict_def)
  obtain vs where vs: "http2d_avl_mrproper (table r) (nodes r) = Some (ret_ok, vs, \<lambda>a. if a \<in> S then None else nodes r a)" "length vs = card S"
    using avl_dict_whole(4) [OF d] by blast
  let ?r = "r\<lparr>nodes := \<lambda>a. if a \<in> S then None else nodes r a\<rparr>"
  obtain t where t: "search_tree (key_ord True) valid_key (table r) (nodes r) t" "set_tree t = S"
    using d assms(1) by (auto simp: avl_dict_def resolv_dict_def)
  then obtain p where p: "avl_root (table r) = Some p" "p \<in> S" using assms(2) by (cases t) (auto simp: search_tree_def)
  have "http2d_avl_get (table r) (nodes ?r) b = None" if "valid_key b" "buf_str b \<noteq> []" for b
  proof -
    have e: "node_is_empty (table r) = Some avl_node_is_empty" using d by (simp add: avl_dict_def)
    have k: "\<not> avl_node_is_empty (tmp_key b)" using valid_tmp_key(4) [OF that] .
    show ?thesis using p e k by (simp add: http2d_avl_get_def http2d_avl_generic_get_def get_loop.simps)
  qed
  then have "http2d_resolv_cache_get_addrinfo h net ?r node b = None" if "valid_key b" "buf_str b \<noteq> []" for b node
    using that by (simp add: http2d_resolv_cache_get_addrinfo_def get_entry_def)
  with vs show ?thesis by (intro exI [of _ vs] exI [of _ ?r]) (simp add: http2d_resolv_cache_clean_def)
qed

theorem http2d_resolv_cache_clean_dangling_witness:
  "\<exists>r vs r'. http2d_resolv_cache_clean r = Some (ret_ok, vs, r') \<and> length vs = 1 \<and>
    http2d_resolv_cache_get_addrinfo (total_heap (\<lambda>_. 0)) one_host r' (Some 6) (http2d_buffer_fake_str ''www'') = None"
proof -
  let ?b = "http2d_buffer_fake_str ''www''"
  have a: "answer one_host (buf_str ?b) = (0, www_addr)" and ne: "buf_str ?b \<noteq> []" using www_facts by simp_all
  have c0: "card {} < (2 :: nat) ^ 32" by simp
  obtain e r where e: "resolv_dict r {5} [name_of ?b \<mapsto> e]"
    using get_entry_miss [OF www_facts(10,1) ne _ c0 www_facts(11) a _ www_facts(9), where x = 5 and f = "\<lambda>_. 0"] by auto
  have "{5 :: nat} \<noteq> {}" by simp
  from http2d_resolv_cache_clean_dangling [OF e this] obtain vs r' where
    "http2d_resolv_cache_clean r = Some (ret_ok, vs, r')" "length vs = card {5 :: nat}"
    "\<forall>b node. valid_key b \<and> buf_str b \<noteq> [] \<longrightarrow> http2d_resolv_cache_get_addrinfo (total_heap (\<lambda>_. 0)) one_host r' node b = None" by blast
  then show ?thesis using www_facts(1) ne by (intro exI [of _ r] exI [of _ vs] exI [of _ r']) simp
qed

end
