(* ===== verification/Access_Match.thy ===== *)
theory Access_Match
  imports Access Resolv_Cache
begin

text \<open>
  Access lists as sets of addresses: \<open>allowed\<close> is the set, matching decides membership, and adding an address, a network or a
  domain adds the address, the addresses with the same first bits, or the addresses of the name. A network whose mask is refused adds
  every address.
\<close>

subsection \<open>The set of a list\<close>

definition addr_size :: "family \<Rightarrow> nat" where
  "addr_size t = (if t = ipv6 then 16 else 4)"

definition inet_family :: "family \<Rightarrow> bool" where
  "inet_family t \<longleftrightarrow> t = ipv4 \<or> t = ipv6"

definition item_ok :: "'a ip_item_scheme \<Rightarrow> bool" where
  "item_ok i \<longleftrightarrow> inet_family (ip_type i) \<and> length (ip i) = 16"

definition access_ok :: "access \<Rightarrow> bool" where
  "access_ok e \<longleftrightarrow> list_all item_ok (list_ips e) \<and> list_all (\<lambda>i. item_ok i \<and> length (ip_mask i) = 16) (list_subnets e)"

definition host :: "'a ip_item_scheme \<Rightarrow> family \<times> byte list" where
  "host i = (ip_type i, take (addr_size (ip_type i)) (ip i))"

definition net_of :: "subnet_item \<Rightarrow> (family \<times> byte list) set" where
  "net_of i = {(t, a). t = ip_type i \<and> length a = addr_size t \<and>
     masked a (take (addr_size t) (ip_mask i)) = masked (take (addr_size t) (ip i)) (take (addr_size t) (ip_mask i))}"

definition allowed :: "access \<Rightarrow> (family \<times> byte list) set" where
  "allowed e = host ` set (list_ips e) \<union> \<Union> (net_of ` set (list_subnets e))"

text \<open>The addresses a socket stands for: an IPv6 socket with a mapped IPv4 address has two.\<close>

definition peer_ok :: "peer \<Rightarrow> bool" where
  "peer_ok sock \<longleftrightarrow> 24 \<le> length (client_addr sock)"

definition peer4 :: "peer \<Rightarrow> byte list" where
  "peer4 sock = take 4 (drop 4 (client_addr sock))"

definition peer6 :: "peer \<Rightarrow> byte list" where
  "peer6 sock = take 16 (drop 8 (client_addr sock))"

definition peers :: "peer \<Rightarrow> (family \<times> byte list) set" where
  "peers sock =
     (case sock_af sock of
        AF_INET \<Rightarrow> {(ipv4, peer4 sock)}
      | AF_INET6 \<Rightarrow> {(ipv6, peer6 sock)} \<union> (if IN6_IS_ADDR_V4MAPPED (peer6 sock) then {(ipv4, drop 12 (peer6 sock))} else {})
      | AF_OTHER _ \<Rightarrow> {})"

lemma peer_read: "peer_ok sock \<Longrightarrow> sin_addr (client_addr sock) = Some (peer4 sock) \<and> sin6_addr (client_addr sock) = Some (peer6 sock) \<and>
    length (peer4 sock) = 4 \<and> length (peer6 sock) = 16"
  by (simp add: peer_ok_def sin_addr_def sin6_addr_def blk_read_def peer4_def peer6_def)

lemma first_answer_ok:
  "(\<And>i. i \<in> set is \<Longrightarrow> f i = Some (if P i then Some ret_ok else None)) \<Longrightarrow>
   first_answer f is = Some (if list_ex P is then Some ret_ok else None)"
  by (induction "is") auto

lemma ip_answer_ok:
  assumes "item_ok i" "peer_ok sock"
  shows "ip_answer sock i = Some (if host i \<in> peers sock then Some ret_ok else None)"
  using assms peer_read [OF assms(2)]
  by (cases "ip_type i"; cases "sock_af sock")
    (auto simp: ip_answer_def item_ok_def inet_family_def host_def peers_def addr_size_def s_addr_def)

lemma subnet_answer_ok:
  assumes "item_ok i" "length (ip_mask i) = 16" "peer_ok sock"
  shows "subnet_answer sock i = Some (if net_of i \<inter> peers sock \<noteq> {} then Some ret_ok else None)"
  using assms peer_read [OF assms(3)]
  by (cases "ip_type i"; cases "sock_af sock")
    (auto simp: subnet_answer_def item_ok_def inet_family_def net_of_def peers_def addr_size_def s_addr_def)

lemma ip_match_ok:
  assumes "access_ok e" "peer_ok sock"
  shows "http2d_access_ip_match e sock = Some (if allowed e \<inter> peers sock \<noteq> {} then ret_ok else ret_not_found)"
proof -
  have i: "first_answer (ip_answer sock) (list_ips e) = Some (if list_ex (\<lambda>i. host i \<in> peers sock) (list_ips e) then Some ret_ok else None)"
    using assms by (intro first_answer_ok ip_answer_ok) (auto simp: access_ok_def list_all_iff)
  have s: "first_answer (subnet_answer sock) (list_subnets e) =
      Some (if list_ex (\<lambda>i. net_of i \<inter> peers sock \<noteq> {}) (list_subnets e) then Some ret_ok else None)"
    using assms by (intro first_answer_ok subnet_answer_ok) (auto simp: access_ok_def list_all_iff)
  have "allowed e \<inter> peers sock \<noteq> {} \<longleftrightarrow> list_ex (\<lambda>i. host i \<in> peers sock) (list_ips e) \<or> list_ex (\<lambda>i. net_of i \<inter> peers sock \<noteq> {}) (list_subnets e)"
    by (auto simp: allowed_def list_ex_iff)
  then show ?thesis unfolding http2d_access_ip_match_def i s by simp
qed

subsection \<open>Masks\<close>

text \<open>The bits of an address, from the first of its first byte on.\<close>

definition addr_bit :: "byte list \<Rightarrow> nat \<Rightarrow> bool" where
  "addr_bit a i = bit (a ! (i div 8)) (7 - i mod 8)"

definition prefix_mask :: "byte list \<Rightarrow> nat \<Rightarrow> bool" where
  "prefix_mask m n \<longleftrightarrow> (\<forall>i. i < 8 * length m \<longrightarrow> (addr_bit m i \<longleftrightarrow> i < n))"

lemma byte_eq_bits: "x = y \<longleftrightarrow> (\<forall>k. k < 8 \<longrightarrow> bit x (7 - k) = bit y (7 - k))" for x y :: byte
proof
  assume b: "\<forall>k. k < 8 \<longrightarrow> bit x (7 - k) = bit y (7 - k)"
  show "x = y"
  proof (rule bit_word_eqI)
    fix n
    assume "n < LENGTH(8)"
    then show "bit x n = bit y n" using b [rule_format, of "7 - n"] by simp
  qed
qed simp

lemma addr_eq_bits: "length a = length b \<Longrightarrow> a = b \<longleftrightarrow> (\<forall>i. i < 8 * length a \<longrightarrow> addr_bit a i = addr_bit b i)"
proof
  assume l: "length a = length b" and b: "\<forall>i. i < 8 * length a \<longrightarrow> addr_bit a i = addr_bit b i"
  show "a = b"
  proof (rule nth_equalityI [OF l])
    fix j
    assume j: "j < length a"
    show "a ! j = b ! j"
    proof (rule iffD2 [OF byte_eq_bits], intro allI impI)
      fix k :: nat
      assume k: "k < 8"
      then have "8 * j + k < 8 * length a" "(8 * j + k) div 8 = j" "(8 * j + k) mod 8 = k" using j by auto
      then show "bit (a ! j) (7 - k) = bit (b ! j) (7 - k)" using b [rule_format, of "8 * j + k"] by (simp add: addr_bit_def)
    qed
  qed
qed simp

lemma masked_bits:
  assumes "length a = length m" "length b = length m" "prefix_mask m n" "n \<le> 8 * length m"
  shows "masked a m = masked b m \<longleftrightarrow> (\<forall>i. i < n \<longrightarrow> addr_bit a i = addr_bit b i)"
proof -
  have l: "length (masked a m) = length m" "length (masked b m) = length m" using assms by (simp_all add: masked_def)
  have b: "addr_bit (masked a m) i = (addr_bit a i \<and> addr_bit m i)" "addr_bit (masked b m) i = (addr_bit b i \<and> addr_bit m i)" if "i < 8 * length m" for i
  proof -
    have "i div 8 < length m" using that by auto
    then show "addr_bit (masked a m) i = (addr_bit a i \<and> addr_bit m i)" "addr_bit (masked b m) i = (addr_bit b i \<and> addr_bit m i)"
      using assms(1,2) by (simp_all add: addr_bit_def masked_def bit_and_iff)
  qed
  have "masked a m = masked b m \<longleftrightarrow> (\<forall>i. i < 8 * length m \<longrightarrow> (addr_bit a i \<and> i < n) = (addr_bit b i \<and> i < n))"
    using addr_eq_bits [of "masked a m" "masked b m"] l assms(3) b by (simp add: prefix_mask_def)
  also have "\<dots> \<longleftrightarrow> (\<forall>i. i < n \<longrightarrow> addr_bit a i = addr_bit b i)" using assms(4) less_le_trans by blast
  finally show ?thesis .
qed

lemma prefix_mask_nth:
  assumes "\<And>j. j < length m \<Longrightarrow> \<forall>k. k < 8 \<longrightarrow> bit (m ! j) (7 - k) = (8 * j + k < n)"
  shows "prefix_mask m n"
  unfolding prefix_mask_def addr_bit_def
proof (intro allI impI)
  fix i
  assume "i < 8 * length m"
  then have j: "i div 8 < length m" by auto
  have "8 * (i div 8) + i mod 8 = i" by simp
  then show "bit (m ! (i div 8)) (7 - i mod 8) \<longleftrightarrow> i < n" using assms [OF j, rule_format, of "i mod 8"] by simp
qed

lemma mask_bits_bit: "jj < 8 \<Longrightarrow> k < 8 \<Longrightarrow> bit (mask_bits jj 0 128) (7 - k) = (k < jj)"
proof -
  have "list_all (\<lambda>jj. list_all (\<lambda>k. bit (mask_bits jj 0 128) (7 - k) = (k < jj)) [0..<8]) [0..<8]" by code_simp
  then show "jj < 8 \<Longrightarrow> k < 8 \<Longrightarrow> bit (mask_bits jj 0 128) (7 - k) = (k < jj)" by (simp only: list_all_iff set_upt atLeastLessThan_iff) simp
qed

lemma mask6:
  assumes "n < 128" "length a = 16" "a = replicate 16 0"
  shows "prefix_mask ((replicate (n div 8) 255 @ drop (n div 8) a)[n div 8 := mask_bits (n mod 8) 0 128]) n"
proof (rule prefix_mask_nth)
  let ?j = "n div 8"
  let ?m = "(replicate ?j 255 @ drop ?j a)[?j := mask_bits (n mod 8) 0 128]"
  have j: "?j < 16" using assms(1) by auto
  fix i
  assume "i < length ?m"
  then have i: "i < 16" using assms(2) j by simp
  consider "i < ?j" | "i = ?j" | "?j < i" by linarith
  then show "\<forall>k. k < 8 \<longrightarrow> bit (?m ! i) (7 - k) = (8 * i + k < n)"
  proof cases
    case 1
    then have "?m ! i = 255" by (simp add: nth_append)
    moreover have "bit (255 :: byte) (7 - k)" for k :: nat 
    proof -
      have "(255 :: byte) = - 1" by simp
      then show ?thesis by (simp only: bit_minus_1_iff) simp
    qed
    moreover have "8 * i + k < n" if "k < 8" for k using 1 that by linarith
    ultimately show ?thesis by simp
  next
    case 2
    then have "?m ! i = mask_bits (n mod 8) 0 128" using assms(2) j by simp
    moreover have "8 * ?j + k < n \<longleftrightarrow> k < n mod 8" for k
    proof -
      have "8 * ?j + n mod 8 = n" by simp
      then show ?thesis by linarith
    qed
    ultimately show ?thesis using mask_bits_bit [of "n mod 8"] 2 by auto
  next
    case 3
    then have "?m ! i = 0" using assms(2,3) i by (simp add: nth_append)
    moreover have "\<not> 8 * i + k < n" for k using 3 by linarith
    ultimately show ?thesis by simp
  qed
qed

lemma mask4:
  assumes "n \<le> 32" "0 < n"
  shows "prefix_mask (take 4 (addr4 (ucast (push_bit (32 - n) (- 1 :: 64 word))) a)) n"
proof (rule prefix_mask_nth)
  let ?w = "ucast (push_bit (32 - n) (- 1 :: 64 word)) :: 32 word"
  have b: "bit ?w k = (k < 32 \<and> 32 - n \<le> k)" for k by (auto simp: bit_simps)
  fix j
  assume "j < length (take 4 (addr4 ?w a))"
  then have "j < 4" by simp
  then consider "j = 0" | "j = 1" | "j = 2" | "j = 3" by linarith
  then show "\<forall>k. k < 8 \<longrightarrow> bit (take 4 (addr4 ?w a) ! j) (7 - k) = (8 * j + k < n)"
    by cases (auto simp: addr4_def bit_simps b)
qed

subsection \<open>Adding\<close>

text \<open>What the system makes of the text of an address. A mapped IPv4 address is refused.\<close>

definition family_of :: "byte list \<Rightarrow> family" where
  "family_of s = (if 58 \<in> set s \<or> length s > 15 then ipv6 else ipv4)"

definition parses :: "inet \<Rightarrow> byte list \<Rightarrow> byte list \<Rightarrow> bool" where
  "parses net s a \<longleftrightarrow> inet_pton net (family_of s) s = Some a \<and> length a = addr_size (family_of s) \<and> \<not> (family_of s = ipv6 \<and> IN6_IS_ADDR_V4MAPPED a)"

lemma strchr_mem: "strchr s c \<noteq> None \<longleftrightarrow> c \<in> set s"
  by (induction s) auto

lemma chars [simp]: "chr CHR '':'' = 58" "chr CHR ''.'' = 46" "chr CHR ''/'' = 47" "chr CHR 0x5C = 92"
  by (simp_all add: chr_def)

lemma inet_family_of [simp]: "inet_family (family_of s)"
  by (simp add: inet_family_def family_of_def)

lemma parse_ip_ok:
  assumes "parses net s a" "length (ip n) = 16"
  shows "\<exists>n'. parse_ip net s n = (ret_ok, n') \<and> item_ok n' \<and> host n' = (family_of s, a) \<and> ip_item.more n' = ip_item.more n"
proof -
  let ?n = "n\<lparr>ip_type := family_of s, ip := store_addr (ip n) (Some a)\<rparr>"
  have l: "length a \<le> 16" using assms(1) by (simp add: parses_def addr_size_def split: if_splits)
  then have li: "length (store_addr (ip n) (Some a)) = 16" using assms(2) by (simp add: store_addr_def)
  have t: "take (length a) (store_addr (ip n) (Some a)) = a" by (simp add: store_addr_def)
  have m: "IN6_IS_ADDR_V4MAPPED (store_addr (ip n) (Some a)) = IN6_IS_ADDR_V4MAPPED a" if "family_of s = ipv6"
    using assms(1) that by (simp add: IN6_IS_ADDR_V4MAPPED_def store_addr_def parses_def addr_size_def)
  have "parse_ip net s n = (ret_ok, ?n)"
    using assms(1) m unfolding parse_ip_def family_of_def [symmetric] strchr_mem chars parses_def
    by (auto simp: Let_def)
  moreover have "item_ok ?n" using li by (simp add: item_ok_def)
  moreover have "host ?n = (family_of s, a)" using t assms(1) by (simp add: host_def parses_def)
  ultimately show ?thesis by auto
qed

lemma new_ip_total: "new_ip (total_heap f) = Some \<lparr>ip_type = AF_OTHER 0, ip = replicate 16 0\<rparr>"
  by (simp add: new_ip_def)

lemma new_subnet_total: "new_subnet (total_heap f) = Some \<lparr>ip_type = AF_OTHER 0, ip = replicate 16 0, ip_mask = replicate 16 0\<rparr>"
  by (simp add: new_subnet_def)

lemma add_ip_ok:
  assumes "access_ok e" "parses net s a"
  shows "\<exists>e'. http2d_access_add_ip (total_heap f) net e s = (ret_ok, e') \<and> access_ok e' \<and> allowed e' = insert (family_of s, a) (allowed e)"
proof -
  obtain n :: ip_item where n: "parse_ip net s \<lparr>ip_type = AF_OTHER 0, ip = replicate 16 0\<rparr> = (ret_ok, n)" "item_ok n" "host n = (family_of s, a)"
    using parse_ip_ok [OF assms(2), of "\<lparr>ip_type = AF_OTHER 0, ip = replicate 16 0\<rparr> :: ip_item"] by auto
  have "http2d_access_add_ip (total_heap f) net e s = (ret_ok, e\<lparr>list_ips := n # list_ips e\<rparr>)"
    using n(1) by (simp add: http2d_access_add_ip_def new_ip_total)
  then show ?thesis using assms(1) n(2,3) by (simp add: access_ok_def allowed_def)
qed

definition subnet_of :: "family \<Rightarrow> byte list \<Rightarrow> nat \<Rightarrow> (family \<times> byte list) set" where
  "subnet_of t a n = {(t', b). t' = t \<and> length b = addr_size t \<and> (\<forall>i. i < n \<longrightarrow> addr_bit b i = addr_bit a i)}"

text \<open>The text of an address, a slash, and the text behind it.\<close>

definition before_slash :: "byte list \<Rightarrow> bool" where
  "before_slash s \<longleftrightarrow> s \<noteq> [] \<and> 0 \<notin> set s \<and> 47 \<notin> set s \<and> 92 \<notin> set s \<and> length s < 2 ^ 15"

lemma slash_at:
  assumes "before_slash s"
  shows "strpbrk (s @ 47 # t) (lit (CHR ''/'' # [CHR 0x5C])) = Some (length s)"
proof -
  have "takeWhile (\<lambda>c. c \<noteq> 47 \<and> c \<noteq> 92) (s @ 47 # t) = s" using assms by (auto simp: before_slash_def takeWhile_append)
  moreover have "(\<lambda>c. c \<notin> set (lit (CHR ''/'' # [CHR 0x5C]))) = (\<lambda>c. c \<noteq> 47 \<and> c \<noteq> 92)" by (auto simp: lit_def)
  ultimately show ?thesis by (simp add: strpbrk_def strcspn_def)
qed

lemma show_dec_text: "c \<in> set (show_dec n) \<Longrightarrow> c \<noteq> 58 \<and> c \<noteq> 46 \<and> c \<noteq> 0"
  using show_dec_digits [of c n] by (auto simp: isdigit_def)

lemma strtol_dec: "n < 2 ^ 31 \<Longrightarrow> strtol (show_dec n) = (int n, False)"
  using strtol_show [of "int n"] by (simp add: show_int_def)

lemma show_dec_short: "n < 1000 \<Longrightarrow> length (show_dec n) \<le> 3"
  using show_dec_length [of n 3] by simp

text \<open>A mask given as a number of bits, accepted or refused.\<close>

lemma netmask_number:
  assumes "bits < 1000"
  shows "parse_netmask net (show_dec bits) n =
    (if ip_type n = ipv4 \<and> bits > 32 \<or> bits > 128 then (ret_error, n)
     else if bits = 128 then (ret_ok, n\<lparr>ip_mask := replicate 16 0\<rparr>)
     else if ip_type n = ipv6 then (ret_ok, n\<lparr>ip_mask := (replicate (bits div 8) 255 @ drop (bits div 8) (ip_mask n))[bits div 8 := mask_bits (bits mod 8) 0 128]\<rparr>)
     else if bits = 0 then (ret_ok, n\<lparr>ip_mask := addr4 0 (ip_mask n)\<rparr>)
     else (ret_ok, n\<lparr>ip_mask := addr4 (ucast (push_bit (32 - bits) (- 1 :: 64 word))) (ip_mask n)\<rparr>))"
proof -
  have c: "58 \<notin> set (show_dec bits)" "46 \<notin> set (show_dec bits)" using show_dec_text by blast+
  have v: "int_of_long (fst (strtol (show_dec bits))) = int bits" using strtol_dec [of bits] int_of_long_id [of "int bits"] assms by simp
  have l: "\<not> length (show_dec bits) > 3" using show_dec_short [OF assms] by simp
  show ?thesis using c l unfolding parse_netmask_def strchr_mem chars v Let_def by auto
qed

lemma net_of_prefix:
  assumes "item_ok n" "host n = (t, a)" "length (ip_mask n) = 16" "prefix_mask (take (addr_size t) (ip_mask n)) bits" "bits \<le> 8 * addr_size t"
  shows "net_of n = subnet_of t a bits"
proof -
  have t: "t = ip_type n" "a = take (addr_size t) (ip n)" using assms(2) by (auto simp: host_def)
  have s: "addr_size t \<le> 16" by (simp add: addr_size_def)
  then have l: "length (take (addr_size t) (ip n)) = addr_size t" "length (take (addr_size t) (ip_mask n)) = addr_size t"
    using assms(1,3) by (simp_all add: item_ok_def)
  have "masked b (take (addr_size t) (ip_mask n)) = masked (take (addr_size t) (ip n)) (take (addr_size t) (ip_mask n)) \<longleftrightarrow>
      (\<forall>i. i < bits \<longrightarrow> addr_bit b i = addr_bit (take (addr_size t) (ip n)) i)" if "length b = addr_size t" for b
    using masked_bits [of b _ _ bits] that l assms(4,5) by simp
  then show ?thesis unfolding net_of_def subnet_of_def t(1) [symmetric] t(2) by auto
qed

lemma prefix_mask_0: "prefix_mask (take 4 (addr4 0 a)) 0"
proof (rule prefix_mask_nth)
  fix j
  assume "j < length (take 4 (addr4 0 a))"
  then consider "j = 0" | "j = 1" | "j = 2" | "j = 3" by (simp add: addr4_def) linarith
  then show "\<forall>k. k < 8 \<longrightarrow> bit (take 4 (addr4 0 a) ! j) (7 - k) = (8 * j + k < 0)" by cases (auto simp: addr4_def)
qed

lemma netmask_ok:
  assumes "bits < 1000" "item_ok n" "host n = (t, a)" "ip_mask n = replicate 16 0" "t = ipv4 \<longrightarrow> bits \<le> 32" "t = ipv6 \<longrightarrow> bits < 128"
  shows "\<exists>n'. parse_netmask net (show_dec bits) n = (ret_ok, n') \<and> item_ok n' \<and> length (ip_mask n') = 16 \<and> net_of n' = subnet_of t a bits"
proof -
  have t: "t = ip_type n" "inet_family t" using assms(2,3) by (auto simp: host_def item_ok_def)
  show ?thesis
  proof (cases "t = ipv6")
    case True
    let ?m = "(replicate (bits div 8) 255 @ drop (bits div 8) (ip_mask n))[bits div 8 := mask_bits (bits mod 8) 0 128]"
    let ?n = "n\<lparr>ip_mask := ?m\<rparr>"
    have bits: "bits < 128" using assms(6) True by simp
    then have l: "length ?m = 16" using assms(4) by auto
    have i: "item_ok ?n" "host ?n = (t, a)" using assms(2,3) by (auto simp: item_ok_def host_def)
    have "prefix_mask (take (addr_size t) (ip_mask ?n)) bits" using mask6 [OF bits _ assms(4)] assms(4) l True by (simp add: addr_size_def)
    from net_of_prefix [OF i _ this] have "net_of ?n = subnet_of t a bits" using l bits True by (simp add: addr_size_def)
    moreover have "parse_netmask net (show_dec bits) n = (ret_ok, ?n)" using netmask_number [OF assms(1), of net n] t(1) [symmetric] True bits by simp
    ultimately show ?thesis using i(1) l by (intro exI [of _ ?n]) simp
  next
    case False
    then have v4: "t = ipv4" using t(2) by (simp add: inet_family_def)
    then have bits: "bits \<le> 32" using assms(5) by simp
    let ?m = "addr4 (if bits = 0 then 0 else ucast (push_bit (32 - bits) (- 1 :: 64 word))) (ip_mask n)"
    let ?n = "n\<lparr>ip_mask := ?m\<rparr>"
    have l: "length ?m = 16" using assms(4) by (simp add: addr4_def)
    have i: "item_ok ?n" "host ?n = (t, a)" using assms(2,3) by (auto simp: item_ok_def host_def)
    have "prefix_mask (take (addr_size t) (ip_mask ?n)) bits" using mask4 [OF bits] prefix_mask_0 v4 by (simp add: addr_size_def)
    from net_of_prefix [OF i _ this] have "net_of ?n = subnet_of t a bits" using l bits v4 by (simp add: addr_size_def)
    moreover have "parse_netmask net (show_dec bits) n = (ret_ok, ?n)" using netmask_number [OF assms(1), of net n] t(1) [symmetric] v4 bits by simp
    ultimately show ?thesis using i(1) l by (intro exI [of _ ?n]) simp
  qed
qed

lemma net_of_blank:
  assumes "item_ok n" "ip_mask n = replicate 16 0"
  shows "net_of n = {(t, b). t = ip_type n \<and> length b = addr_size t}"
proof -
  have z: "masked b (replicate k 0) = replicate k 0" if "length b = k" for b k
    using that unfolding masked_def by (induction b arbitrary: k) auto
  show ?thesis using assms by (auto simp: net_of_def item_ok_def addr_size_def z)
qed

text \<open>The steps that come before the mask is looked at.\<close>

lemma add_subnet_start:
  assumes "before_slash s" "parses net s a"
  shows "\<exists>n :: subnet_item. item_ok n \<and> host n = (family_of s, a) \<and> ip_mask n = replicate 16 0 \<and>
    http2d_access_add_subnet (total_heap f) net e (s @ 47 # t) =
      (case parse_netmask net t n of (ret, n) \<Rightarrow>
         Some (if ret_code ret < ret_code ret_ok then ret_error else ret_ok, e\<lparr>list_subnets := n # list_subnets e\<rparr>))"
proof -
  let ?n = "\<lparr>ip_type = AF_OTHER 0, ip = replicate 16 0, ip_mask = replicate 16 0\<rparr> :: subnet_item"
  obtain n where n: "parse_ip net s ?n = (ret_ok, n)" "item_ok n" "host n = (family_of s, a)" "ip_item.more n = ip_item.more ?n"
    using parse_ip_ok [OF assms(2), of ?n] by auto
  have b: "s \<noteq> []" "0 \<notin> set s" "length s < 2 ^ 15" using assms(1) by (simp_all add: before_slash_def)
  have l: "length ([] :: byte list) + length s + 17 < 2 ^ 31" using b(3) by simp
  obtain ip where ip: "http2d_buffer_add (total_heap f) HTTP2D_BUF_INIT (Ext (s @ 47 # t @ [0])) (length s) = Some (ret_ok, ip)" "buf_rep ip s"
    using add_lean [OF buf_rep_INIT lean_INIT _ l, of "s @ 47 # t @ [0]" f] by auto
  obtain m xs where m: "buf ip = Some m" "drop 0 m = s @ 0 # xs" using buf_rep_drop0 [OF ip(2) b(1)] by blast
  have k: "key_cstr ip = Some s" using cstr_drop0 [OF m(2) b(2)] m(1) by (simp add: key_cstr_def)
  have "ip_mask n = replicate 16 0" using n(4) by (cases n) simp
  moreover have "http2d_access_add_subnet (total_heap f) net e (s @ 47 # t) =
      (case parse_netmask net t n of (ret, n) \<Rightarrow>
         Some (if ret_code ret < ret_code ret_ok then ret_error else ret_ok, e\<lparr>list_subnets := n # list_subnets e\<rparr>))"
    using slash_at [OF assms(1), of t] ip(1) k n(1) by (simp add: http2d_access_add_subnet_def new_subnet_total split: prod.splits)
  ultimately show ?thesis using n(2,3) by blast
qed

lemma access_ok_subnet:
  "access_ok e \<Longrightarrow> item_ok n \<Longrightarrow> length (ip_mask n) = 16 \<Longrightarrow>
   access_ok (e\<lparr>list_subnets := n # list_subnets e\<rparr>) \<and> allowed (e\<lparr>list_subnets := n # list_subnets e\<rparr>) = net_of n \<union> allowed e"
  by (auto simp: access_ok_def allowed_def)

lemma add_subnet_ok:
  assumes "access_ok e" "before_slash s" "parses net s a" "bits < 1000" "family_of s = ipv4 \<longrightarrow> bits \<le> 32" "family_of s = ipv6 \<longrightarrow> bits < 128"
  shows "\<exists>e'. http2d_access_add_subnet (total_heap f) net e (s @ 47 # show_dec bits) = Some (ret_ok, e') \<and> access_ok e' \<and>
    allowed e' = subnet_of (family_of s) a bits \<union> allowed e"
proof -
  obtain n where n: "item_ok n" "host n = (family_of s, a)" "ip_mask n = replicate 16 0" "http2d_access_add_subnet (total_heap f) net e (s @ 47 # show_dec bits) =
      (case parse_netmask net (show_dec bits) n of (ret, n) \<Rightarrow>
         Some (if ret_code ret < ret_code ret_ok then ret_error else ret_ok, e\<lparr>list_subnets := n # list_subnets e\<rparr>))"
    using add_subnet_start [OF assms(2,3), of f e "show_dec bits"] by blast
  from netmask_ok [OF assms(4) n(1-3) assms(5,6), of net] obtain n' where
    "parse_netmask net (show_dec bits) n = (ret_ok, n')" "item_ok n'" "length (ip_mask n') = 16" "net_of n' = subnet_of (family_of s) a bits" by blast
  then show ?thesis using n(4) access_ok_subnet [OF assms(1), of n'] by auto
qed

lemma add_subnet_refused:
  assumes "access_ok e" "before_slash s" "parses net s a" "bits < 1000" "family_of s = ipv4 \<and> 32 < bits \<or> 128 < bits"
  shows "\<exists>e'. http2d_access_add_subnet (total_heap f) net e (s @ 47 # show_dec bits) = Some (ret_error, e') \<and> access_ok e' \<and>
    allowed e' = {(t, b). t = family_of s \<and> length b = addr_size t} \<union> allowed e"
proof -
  obtain n where n: "item_ok n" "host n = (family_of s, a)" "ip_mask n = replicate 16 0" "http2d_access_add_subnet (total_heap f) net e (s @ 47 # show_dec bits) =
      (case parse_netmask net (show_dec bits) n of (ret, n) \<Rightarrow>
         Some (if ret_code ret < ret_code ret_ok then ret_error else ret_ok, e\<lparr>list_subnets := n # list_subnets e\<rparr>))"
    using add_subnet_start [OF assms(2,3), of f e "show_dec bits"] by blast
  have t: "ip_type n = family_of s" using n(2) by (simp add: host_def)
  have "parse_netmask net (show_dec bits) n = (ret_error, n)" using netmask_number [OF assms(4), of net n] assms(5) t by simp
  then show ?thesis using n(4) net_of_blank [OF n(1,3)] access_ok_subnet [OF assms(1) n(1)] n(3) t by simp
qed

subsection \<open>The texts of an access list\<close>

lemma subnet_of_all: "length a = addr_size t \<Longrightarrow> bits = 8 * addr_size t \<Longrightarrow> subnet_of t a bits = {(t, a)}"
  using addr_eq_bits [of _ a] by (auto simp: subnet_of_def)

text \<open>A single address: there is no slash, and nothing makes it a name.\<close>

definition plain_text :: "byte list \<Rightarrow> bool" where
  "plain_text s \<longleftrightarrow> before_slash s \<and> (58 \<in> set s \<or> (\<forall>c \<in> set s. \<not> is_letter c))"

text \<open>The lengths of a prefix that are taken for what they say.\<close>

definition good_bits :: "byte list \<Rightarrow> nat \<Rightarrow> bool" where
  "good_bits s bits \<longleftrightarrow> (if 58 \<in> set s then bits \<le> 128 \<and> \<not> (46 \<in> set s \<and> bits = 32) else length s \<le> 15 \<and> bits \<le> 32)"

lemma no_slash:
  assumes "before_slash s"
  shows "strpbrk s (lit (CHR ''/'' # [CHR 0x5C])) = None"
proof -
  have t: "takeWhile (\<lambda>c. c \<noteq> 47 \<and> c \<noteq> 92) s = s" using assms by (auto simp: before_slash_def takeWhile_eq_all_conv)
  have f: "(\<lambda>c. c \<notin> set (lit (CHR ''/'' # [CHR 0x5C]))) = (\<lambda>c. c \<noteq> 47 \<and> c \<noteq> 92)" by (auto simp: lit_def)
  show ?thesis unfolding strpbrk_def strcspn_def f t by simp
qed

lemma atoi_mask:
  assumes "bits < 1000"
  shows "http2d_atoi ((s @ 47 # show_dec bits) @ [0]) (length s + 1) = Some (ret_ok, Some (int bits))"
proof -
  have z: "0 \<notin> set (show_dec bits)" using show_dec_nonzero by blast
  have "cstr ((s @ 47 # show_dec bits) @ [0]) (length s + 1) = Some (show_dec bits)"
    by (rule cstr_drop0 [of _ _ _ "[]"]) (use z in simp_all)
  then show ?thesis using strtol_dec [of bits] int_of_long_id [of "int bits"] assms by (simp add: http2d_atoi_def)
qed

lemma add_plain:
  assumes "access_ok e" "plain_text s" "parses net s a"
  shows "\<exists>e'. http2d_access_add (total_heap f) net glob new node e s = Some (ret_ok, e', glob) \<and> access_ok e' \<and>
    allowed e' = insert (family_of s, a) (allowed e)"
proof -
  have "strpbrk s (lit (CHR ''/'' # [CHR 0x5C])) = None" "58 \<in> set s \<or> (\<forall>c \<in> set s. \<not> is_letter c)"
    using assms(2) no_slash [of s] by (simp_all add: plain_text_def)
  then show ?thesis using add_ip_ok [OF assms(1,3), of f] unfolding http2d_access_add_def strchr_mem chars Let_def by auto
qed

text \<open>What happens to a text with a slash depends on the number behind it.\<close>

lemma add_slash:
  assumes "before_slash s" "bits < 1000"
  shows "http2d_access_add (total_heap f) net glob new node e (s @ 47 # show_dec bits) =
    (if 58 \<in> set s \<and> bits = 128 \<or> 46 \<in> set s \<and> bits = 32
     then (case http2d_access_add_ip (total_heap f) net e s of (ret, e) \<Rightarrow> Some (ret, e, glob))
     else do { (ret, e) \<leftarrow> http2d_access_add_subnet (total_heap f) net e (s @ 47 # show_dec bits); Some (ret, e, glob) })"
proof -
  have "58 \<notin> set (show_dec bits)" "46 \<notin> set (show_dec bits)" using show_dec_text by blast+
  then show ?thesis using slash_at [OF assms(1), of "show_dec bits"] atoi_mask [OF assms(2), of s]
    unfolding http2d_access_add_def strchr_mem chars Let_def by (auto simp del: append_assoc append_Cons)
qed

lemma add_mask:
  assumes "access_ok e" "before_slash s" "parses net s a" "good_bits s bits"
  shows "\<exists>e'. http2d_access_add (total_heap f) net glob new node e (s @ 47 # show_dec bits) = Some (ret_ok, e', glob) \<and> access_ok e' \<and>
    allowed e' = subnet_of (family_of s) a bits \<union> allowed e"
proof -
  have b: "bits < 1000" using assms(4) by (auto simp: good_bits_def split: if_splits)
  show ?thesis
  proof (cases "58 \<in> set s \<and> bits = 128 \<or> 46 \<in> set s \<and> bits = 32")
    case True
    then have "bits = 8 * addr_size (family_of s)" using assms(4) by (auto simp: good_bits_def addr_size_def family_of_def split: if_splits)
    then have "subnet_of (family_of s) a bits = {(family_of s, a)}" using subnet_of_all assms(3) by (simp add: parses_def)
    then show ?thesis using add_slash [OF assms(2) b] True add_ip_ok [OF assms(1,3), of f] by auto
  next
    case False
    then have "family_of s = ipv4 \<longrightarrow> bits \<le> 32" "family_of s = ipv6 \<longrightarrow> bits < 128"
      using assms(4) by (auto simp: good_bits_def family_of_def split: if_splits)
    then show ?thesis using add_slash [OF assms(2) b] False add_subnet_ok [OF assms(1-3) b, of f] by auto
  qed
qed

text \<open>The addresses that a text stands for.\<close>

inductive denotes :: "inet \<Rightarrow> byte list \<Rightarrow> (family \<times> byte list) set \<Rightarrow> bool" for net where
  denotes_host: "plain_text s \<Longrightarrow> parses net s a \<Longrightarrow> denotes net s {(family_of s, a)}"
| denotes_net: "before_slash s \<Longrightarrow> parses net s a \<Longrightarrow> good_bits s bits \<Longrightarrow> denotes net (s @ 47 # show_dec bits) (subnet_of (family_of s) a bits)"

lemma add_denotes:
  "denotes net s N \<Longrightarrow> access_ok e \<Longrightarrow>
   \<exists>e'. http2d_access_add (total_heap f) net glob new node e s = Some (ret_ok, e', glob) \<and> access_ok e' \<and> allowed e' = N \<union> allowed e"
proof (induction rule: denotes.induct)
  case (denotes_host s a)
  then show ?case using add_plain [of e s net a f glob new node] by simp
next
  case (denotes_net s a bits)
  then show ?case using add_mask [of e s net a bits f glob new node] by simp
qed

text \<open>A system that reads one address.\<close>

definition ten_net :: inet where
  "ten_net = \<lparr>inet_pton = (\<lambda>t s. if t = AF_INET \<and> s = lit ''10.0.0.0'' then Some [10, 0, 0, 0] else None), inet_ntop = (\<lambda>_ _ _. None),
     getaddrinfo = (\<lambda>_ _. (- 2, []))\<rparr>"

definition no_access :: access where
  "no_access = snd http2d_access_init"

lemma no_access_facts: "access_ok no_access" "allowed no_access = {}"
  by (simp_all add: no_access_def http2d_access_init_def access_ok_def allowed_def)

lemma ten_facts:
  "parses ten_net (lit ''10.0.0.0'') [10, 0, 0, 0]" "before_slash (lit ''10.0.0.0'')" "family_of (lit ''10.0.0.0'') = ipv4"
  "plain_text (lit ''10.0.0.0'')" "good_bits (lit ''10.0.0.0'') 8"
  by (simp_all add: parses_def ten_net_def family_of_def addr_size_def before_slash_def plain_text_def good_bits_def is_letter_def lit_def chr_def
      IN6_IS_ADDR_V4MAPPED_def)

lemma show_dec_small: "show_dec 8 = [56]" "show_dec 33 = [51, 51]"
  using show_dec_digit [of 8] show_dec_step [of 33] show_dec_digit [of 3] by simp_all

definition peer_v4 :: "byte list \<Rightarrow> peer" where
  "peer_v4 a = \<lparr>sock_af = AF_INET, client_addr = [2, 0, 0, 0] @ a @ replicate 20 0, client_addr_len = 16\<rparr>"

lemma peer_v4_facts: "length a = 4 \<Longrightarrow> peer_ok (peer_v4 a)" "length a = 4 \<Longrightarrow> peers (peer_v4 a) = {(ipv4, a)}"
  by (simp_all add: peer_ok_def peer_v4_def peers_def peer4_def)

subsection \<open>Names\<close>

text \<open>The address that the bytes of an element of the list of the system hold: that of its family, or the IPv4 address that an IPv6 address
  embeds.\<close>

definition addr_of :: "addrinfo \<Rightarrow> (family \<times> byte list) option" where
  "addr_of x =
     (if ai_family x = AF_INET6 then do {
        a \<leftarrow> sin6_addr (ai_addr x);
        Some (if IN6_IS_ADDR_V4MAPPED a \<or> IN6_IS_ADDR_V4COMPAT a then (ipv4, drop 12 a) else (ipv6, a)) }
      else if ai_family x = AF_INET then do { a \<leftarrow> sin_addr (ai_addr x); Some (ipv4, a) }
      else None)"

text \<open>What the documentation of the system says of the text of an address: that of an IPv4 address has at most 15 characters and no colon,
  that of an IPv6 address fits into 45 characters and has a colon; and reading the text gives the address back.\<close>

definition round_trip :: "inet \<Rightarrow> family \<times> byte list \<Rightarrow> bool" where
  "round_trip net p \<longleftrightarrow> (\<exists>t. inet_ntop net (fst p) (snd p) 46 = Some t \<and> inet_pton net (fst p) t = Some (snd p) \<and>
     (if fst p = ipv6 then 58 \<in> set t \<and> length t < 46 else 58 \<notin> set t \<and> length t \<le> 15))"

definition reads :: "inet \<Rightarrow> addrinfo \<Rightarrow> family \<times> byte list \<Rightarrow> bool" where
  "reads net x p \<longleftrightarrow> (\<exists>t a. text_of net x = Some t \<and> length t < 46 \<and> parses net t a \<and> p = (family_of t, a))"

lemma addr_of_cases:
  assumes "addr_of x = Some (t, a)"
  shows "t = ipv4 \<and> length a = 4 \<or> t = ipv6 \<and> length a = 16 \<and> \<not> IN6_IS_ADDR_V4MAPPED a"
    and "http2d_ntop net (ai_family x) (ai_addr x) 46 = Some (if inet_ntop net t a 46 = None then ret_error else ret_ok, inet_ntop net t a 46)"
  using assms by (auto simp: addr_of_def http2d_ntop_def sin_addr_def sin6_addr_def blk_read_def split: if_splits Option.bind_splits)

lemma addr_of_reads:
  assumes "addr_of x = Some p" "round_trip net p"
  shows "reads net x p"
proof -
  obtain t a where p: "p = (t, a)" by (cases p)
  obtain s where s: "inet_ntop net t a 46 = Some s" "inet_pton net t s = Some a"
    "if t = ipv6 then 58 \<in> set s \<and> length s < 46 else 58 \<notin> set s \<and> length s \<le> 15" using assms(2) p by (auto simp: round_trip_def)
  note c = addr_of_cases [OF assms(1)[unfolded p]]
  have f: "family_of s = t" using c(1) s(3) by (auto simp: family_of_def)
  moreover have "parses net s a" using c(1) s(2) f by (auto simp: parses_def addr_size_def)
  moreover have "text_of net x = Some s" using c(2) [of net] s(1) by (simp add: text_of_def)
  moreover have "length s < 46" using s(3) by (simp split: if_splits)
  ultimately show ?thesis using p by (auto simp: reads_def)
qed

lemma all_read:
  "map addr_of as = map Some ps \<Longrightarrow> list_all (round_trip net) ps \<Longrightarrow> list_all2 (reads net) as ps"
proof (induction ps arbitrary: as)
  case (Cons p ps)
  then obtain x xs where x: "as = x # xs" "addr_of x = Some p" "map addr_of xs = map Some ps" by (cases as) simp_all
  have "reads net x p" using addr_of_reads [OF x(2)] Cons.prems(2) by simp
  moreover have "list_all2 (reads net) xs ps" using Cons.IH [OF x(3)] Cons.prems(2) by simp
  ultimately show ?case using x(1) by simp
qed simp

lemma all_renderable:
  assumes "list_all2 (reads net) as ps" "as \<noteq> []" "length as < 2 ^ 24" "list_all (\<lambda>a. ai_family a = ai_family (hd as)) as"
  shows "renderable net as"
proof -
  have t: "\<exists>t. text_of net a = Some t \<and> length t < 46" if "a \<in> set as" for a
  proof -
    from that obtain i where i: "i < length as" "a = as ! i" by (auto simp: in_set_conv_nth)
    then have "reads net a (ps ! i)" using list_all2_nthD [OF assms(1) i(1)] by simp
    then show ?thesis by (auto simp: reads_def)
  qed
  have "list_all (\<lambda>a. ai_family a = ai_family (hd as) \<and> (\<exists>t. text_of net a = Some t \<and> length t < 46)) as"
    using assms(4) t unfolding list_all_iff by blast
  then show ?thesis using assms(2,3) unfolding renderable_def by blast
qed

lemma add_addrs_ok:
  "list_all2 (reads net) as ps \<Longrightarrow> access_ok e \<Longrightarrow>
   \<exists>e'. add_addrs (total_heap f) net as e = Some (ret_ok, e') \<and> access_ok e' \<and> allowed e' = set ps \<union> allowed e"
proof (induction arbitrary: e rule: list_all2_induct)
  case (Cons x xs y ys)
  obtain t a where t: "text_of net x = Some t" "parses net t a" "y = (family_of t, a)" using Cons.hyps(1) by (auto simp: reads_def)
  obtain e1 where e1: "http2d_access_add_ip (total_heap f) net e t = (ret_ok, e1)" "access_ok e1" "allowed e1 = insert (family_of t, a) (allowed e)"
    using add_ip_ok [OF Cons.prems t(2)] by blast
  from Cons.IH [OF e1(2)] ntop_text [OF t(1)] e1(1,3) t(3) show ?case by auto
qed simp

definition name_text :: "byte list \<Rightarrow> bool" where
  "name_text s \<longleftrightarrow> before_slash s \<and> 58 \<notin> set s \<and> (\<exists>c \<in> set s. is_letter c)"

lemma name_text_key:
  assumes "name_text s"
  shows "valid_key (http2d_buffer_fake (Some (s @ [0])) (length s))" "buf_str (http2d_buffer_fake (Some (s @ [0])) (length s)) = s" "s \<noteq> []"
proof -
  have s: "before_slash s" using assms by (simp add: name_text_def)
  have "buf_rep (http2d_buffer_fake (Some (s @ [0])) (length s)) s"
    by (rule buf_repI [where m = "s @ [0]"]) (use s in \<open>auto simp: http2d_buffer_fake_def before_slash_def nth_append u32_id\<close>)
  then show "valid_key (http2d_buffer_fake (Some (s @ [0])) (length s))" "buf_str (http2d_buffer_fake (Some (s @ [0])) (length s)) = s"
    using valid_key_rep s by (auto simp: buf_rep_def before_slash_def http2d_buffer_fake_def)
  show "s \<noteq> []" using s by (simp add: before_slash_def)
qed

lemma add_name:
  "name_text s \<Longrightarrow> http2d_access_add h net glob new node e s = http2d_access_add_domain h net glob new node e s"
  using no_slash [of s] unfolding http2d_access_add_def strchr_mem chars name_text_def Let_def by auto

subsection \<open>Properties\<close>

text \<open>C22: Access lists are sets of addresses. Adding the text of an address, or of an address, a slash and the length of a prefix, adds that
  address, or every address whose first bits are those of the given one; and a socket matches exactly if one of the addresses it stands
  for, which for an IPv6 socket with a mapped IPv4 address are two, is in the set.\<close>

theorem http2d_access_add_correct:
  assumes "access_ok e" "denotes net s N"
  shows "\<exists>e'. http2d_access_add (total_heap f) net glob new node e s = Some (ret_ok, e', glob) \<and> access_ok e' \<and> allowed e' = N \<union> allowed e \<and>
    (\<forall>sock. peer_ok sock \<longrightarrow> http2d_access_ip_match e' sock = Some (if (N \<union> allowed e) \<inter> peers sock \<noteq> {} then ret_ok else ret_not_found))"
proof -
  obtain e' where "http2d_access_add (total_heap f) net glob new node e s = Some (ret_ok, e', glob)" "access_ok e'" "allowed e' = N \<union> allowed e"
    using add_denotes [OF assms(2,1)] by blast
  then show ?thesis using ip_match_ok [of e'] by auto
qed

theorem http2d_access_add_correct_witness:
  "\<exists>e. http2d_access_add (total_heap (\<lambda>_. 0)) ten_net None None None no_access (lit ''10.0.0.0/8'') = Some (ret_ok, e, None) \<and>
    http2d_access_ip_match e (peer_v4 [10, 1, 2, 3]) = Some ret_ok \<and> http2d_access_ip_match e (peer_v4 [11, 0, 0, 0]) = Some ret_not_found"
proof -
  let ?N = "subnet_of ipv4 [10, 0, 0, 0] 8"
  have t: "lit ''10.0.0.0/8'' = lit ''10.0.0.0'' @ 47 # show_dec 8" by (simp add: show_dec_small lit_def chr_def)
  have d: "denotes ten_net (lit ''10.0.0.0/8'') ?N" unfolding t using denotes_net [OF ten_facts(2,1,5)] by (simp only: ten_facts(3))
  have "(ipv4, [10, 1, 2, 3]) \<in> ?N" by (auto simp: subnet_of_def addr_size_def addr_bit_def)
  moreover have "(ipv4, [11, 0, 0, 0]) \<notin> ?N"
  proof
    assume "(ipv4, [11, 0, 0, 0]) \<in> ?N"
    then have "addr_bit [11, 0, 0, 0] 7 = addr_bit [10, 0, 0, 0] 7" unfolding subnet_of_def by auto
    then show False by (simp add: addr_bit_def bit_simps)
  qed
  ultimately show ?thesis
    using http2d_access_add_correct [OF no_access_facts(1) d, of "\<lambda>_. 0" None None None] peer_v4_facts no_access_facts(2) by auto
qed

text \<open>C25: A network whose prefix is too long is refused with \<open>ret_error\<close>, and is in the list all the same, with a mask of zeros: from
  then on every address of that family matches.\<close>

theorem http2d_access_add_refused_matches_all:
  assumes "access_ok e" "before_slash s" "parses net s a" "bits < 1000" "family_of s = ipv4 \<and> 32 < bits \<or> 128 < bits"
  shows "\<exists>e'. http2d_access_add (total_heap f) net glob new node e (s @ 47 # show_dec bits) = Some (ret_error, e', glob) \<and> access_ok e' \<and>
    (\<forall>sock b. peer_ok sock \<and> (family_of s, b) \<in> peers sock \<longrightarrow> http2d_access_ip_match e' sock = Some ret_ok)"
proof -
  have "\<not> (58 \<in> set s \<and> bits = 128 \<or> 46 \<in> set s \<and> bits = 32)" using assms(5) by (auto simp: family_of_def)
  moreover obtain e' where e': "http2d_access_add_subnet (total_heap f) net e (s @ 47 # show_dec bits) = Some (ret_error, e')" "access_ok e'"
    "allowed e' = {(t, b). t = family_of s \<and> length b = addr_size t} \<union> allowed e"
    using add_subnet_refused [OF assms, of f] by blast
  moreover have "http2d_access_ip_match e' sock = Some ret_ok" if "peer_ok sock" "(family_of s, b) \<in> peers sock" for sock b
  proof -
    have "length b = addr_size (family_of s)" using peer_read [OF that(1)] that(2) by (auto simp: peers_def addr_size_def split: family.splits if_splits)
    then have "(family_of s, b) \<in> allowed e' \<inter> peers sock" using that(2) e'(3) by auto
    then show ?thesis using ip_match_ok [OF e'(2) that(1)] by auto
  qed
  ultimately show ?thesis using add_slash [OF assms(2,4), of f net glob new node e] by (intro exI [of _ e']) auto
qed

theorem http2d_access_add_refused_matches_all_witness:
  "\<exists>e. http2d_access_add (total_heap (\<lambda>_. 0)) ten_net None None None no_access (lit ''10.0.0.0/33'') = Some (ret_error, e, None) \<and>
    http2d_access_ip_match e (peer_v4 [192, 168, 0, 1]) = Some ret_ok"
proof -
  have t: "lit ''10.0.0.0/33'' = lit ''10.0.0.0'' @ 47 # show_dec 33" by (simp add: show_dec_small lit_def chr_def)
  have b: "(33 :: nat) < 1000" "family_of (lit ''10.0.0.0'') = ipv4 \<and> 32 < (33 :: nat) \<or> 128 < (33 :: nat)" using ten_facts(3) by simp_all
  show ?thesis unfolding t
    using http2d_access_add_refused_matches_all [OF no_access_facts(1) ten_facts(2,1) b, of "\<lambda>_. 0" None None None] ten_facts(3)
      peer_v4_facts [of "[192, 168, 0, 1]"] by auto
qed

text \<open>C24: Adding a name adds the addresses of the name, as their bytes have them, and nothing else. They are those that the cache of names
  has for it, which stays as it is; or, if it has none and the name is none of the names of the local host, those the system gives, and the name is
  in the cache with them afterwards, provided that they are of one family. A name that the system does not know adds nothing. An IPv6
  address that embeds an IPv4 address counts as that one. The system is taken to read the texts it writes for the addresses.\<close>

theorem http2d_access_add_name_correct:
  assumes "access_ok e" "name_text s" "resolv_dict r S D" "card S < 2 ^ 32" "nodes r x = None" "s \<notin> set loopback_names"
    and "getaddrinfo net s False = (n, as)" "list_all (round_trip net) ps"
  shows "(D (map tolower s) = Some en \<and> map addr_of (re_addr en) = map Some ps \<longrightarrow>
      (\<exists>e'. http2d_access_add (total_heap f) net (Some r) new (Some x) e s = Some (ret_ok, e', Some r) \<and>
         access_ok e' \<and> allowed e' = set ps \<union> allowed e)) \<and>
    (D (map tolower s) = None \<and> n = 0 \<and> as \<noteq> [] \<and> length as < 2 ^ 24 \<and> list_all (\<lambda>a. ai_family a = ai_family (hd as)) as \<and>
       map addr_of as = map Some ps \<longrightarrow>
      (\<exists>e' r' en. http2d_access_add (total_heap f) net (Some r) new (Some x) e s = Some (ret_ok, e', Some r') \<and>
         access_ok e' \<and> allowed e' = set ps \<union> allowed e \<and> resolv_dict r' (insert x S) (D(map tolower s \<mapsto> en)) \<and> re_addr en = as)) \<and>
    (D (map tolower s) = None \<and> (n < 0 \<or> n = 0 \<and> as = []) \<longrightarrow>
      http2d_access_add (total_heap f) net (Some r) new (Some x) e s = Some (ret_error, e, Some r))"
proof (intro conjI impI)
  note key = name_text_key [OF assms(2)]
  let ?b = "http2d_buffer_fake (Some (s @ [0])) (length s)"
  have b: "buf_str ?b \<noteq> []" "name_of ?b = map tolower s" "answer net (buf_str ?b) = (n, as)" using key assms(6,7) by (simp_all add: answer_def)
  show "\<exists>e'. http2d_access_add (total_heap f) net (Some r) new (Some x) e s = Some (ret_ok, e', Some r) \<and>
      access_ok e' \<and> allowed e' = set ps \<union> allowed e"
    if g: "D (map tolower s) = Some en \<and> map addr_of (re_addr en) = map Some ps"
  proof -
    have "get_entry (total_heap f) net r (Some x) ?b = Some (ret_ok, Some en, r)" using get_entry_hit [OF assms(3) key(1) b(1)] g b(2) by simp
    moreover obtain e' where "add_addrs (total_heap f) net (re_addr en) e = Some (ret_ok, e')" "access_ok e'" "allowed e' = set ps \<union> allowed e"
      using add_addrs_ok [OF all_read assms(1), of "re_addr en" ps net f] g assms(8) by blast
    ultimately show ?thesis unfolding add_name [OF assms(2)]
      by (auto simp: http2d_access_add_domain_def http2d_resolv_cache_get_default_def http2d_resolv_cache_get_addrinfo_def)
  qed
  show "\<exists>e' r' en. http2d_access_add (total_heap f) net (Some r) new (Some x) e s = Some (ret_ok, e', Some r') \<and>
      access_ok e' \<and> allowed e' = set ps \<union> allowed e \<and> resolv_dict r' (insert x S) (D(map tolower s \<mapsto> en)) \<and> re_addr en = as"
    if g: "D (map tolower s) = None \<and> n = 0 \<and> as \<noteq> [] \<and> length as < 2 ^ 24 \<and> list_all (\<lambda>a. ai_family a = ai_family (hd as)) as \<and>
       map addr_of as = map Some ps"
  proof -
    have rd: "list_all2 (reads net) as ps" using all_read g assms(8) by blast
    then have "renderable net as" using all_renderable g by blast
    then obtain en r' where r: "get_entry (total_heap f) net r (Some x) ?b = Some (ret_ok, Some en, r')" "entry_for net as en"
      "resolv_dict r' (insert x S) (D(name_of ?b \<mapsto> en))"
      using get_entry_miss [OF assms(3) key(1) b(1) _ assms(4,5) b(3), of f] g b(2) by auto
    obtain e' where "add_addrs (total_heap f) net as e = Some (ret_ok, e')" "access_ok e'" "allowed e' = set ps \<union> allowed e"
      using add_addrs_ok [OF rd assms(1), of f] by blast
    then show ?thesis using r b(2) unfolding add_name [OF assms(2)]
      by (auto simp: http2d_access_add_domain_def http2d_resolv_cache_get_default_def http2d_resolv_cache_get_addrinfo_def entry_for_def)
  qed
  show "http2d_access_add (total_heap f) net (Some r) new (Some x) e s = Some (ret_error, e, Some r)"
    if "D (map tolower s) = None \<and> (n < 0 \<or> n = 0 \<and> as = [])"
    using get_entry_failed [OF assms(3) key(1) b(1), of net f "Some x"] that b(2,3) unfolding add_name [OF assms(2)]
    by (auto simp: http2d_access_add_domain_def http2d_resolv_cache_get_default_def http2d_resolv_cache_get_addrinfo_def)
qed

theorem http2d_access_add_name_correct_witness:
  "\<exists>e r. http2d_access_add (total_heap (\<lambda>_. 0)) one_host (Some no_names) None (Some 5) no_access (lit ''www'') = Some (ret_ok, e, Some r) \<and>
    map addr_of www_addr = [Some (ipv4, [10, 0, 0, 1])] \<and> allowed e = {(ipv4, [10, 0, 0, 1])}"
proof -
  have s: "name_text (lit ''www'')" by (auto simp: name_text_def before_slash_def is_letter_def lit_def chr_def)
  have l: "lit ''www'' \<notin> set loopback_names" by (simp add: loopback_names_def lit_def chr_def)
  have a: "getaddrinfo one_host (lit ''www'') False = (0, www_addr)" by (simp add: one_host_def)
  have o: "map addr_of www_addr = map Some [(ipv4, [10, 0, 0, 1])]" by (simp add: addr_of_def www_addr_def sin_addr_def blk_read_def)
  have r: "list_all (round_trip one_host) [(ipv4, [10, 0, 0, 1])]" by (simp add: round_trip_def one_host_def lit_def chr_def)
  have w: "www_addr \<noteq> []" "length www_addr < 2 ^ 24" "list_all (\<lambda>a. ai_family a = ai_family (hd www_addr)) www_addr" by (simp_all add: www_addr_def)
  have c: "card {} < (2 :: nat) ^ 32" by simp
  from http2d_access_add_name_correct [OF no_access_facts(1) s www_facts(10) c www_facts(11) l a r, where x = 5 and f = "\<lambda>_. 0" and new = None]
  show ?thesis using w o no_access_facts(2) by auto
qed

end
