(* ===== verification/Cache_Own.thy ===== *)
theory Cache_Own
  imports Cache_Run "HOL-Library.Multiset"
begin

text \<open>
  What the entries of a cache own. A derived class may acquire resources for an entry (mappings, descriptors) in the environment of its
  methods; the locale \<open>owning_class\<close> says that its methods move resources only between the environment and the entry they are called
  for. Then no operation of the cache loses a resource: what the environment holds is always what the entries own, and what nobody of the
  cache owns.
\<close>

locale owning_class =
  fixes cls :: "('x, 'e) cache_class" and own :: "'x \<Rightarrow> 'm multiset" and pool :: "'e \<Rightarrow> 'm multiset"
  assumes own_new: "own (new_obj cls) = {#}"
    and own_clean: "clean_cb cls e env = (r, x, env') \<Longrightarrow> own (ce_obj e) \<subseteq># pool env \<Longrightarrow> own x = {#} \<and> pool env' + own (ce_obj e) = pool env"
    and own_fetch: "fetch_cb cls = Some f \<Longrightarrow> f e env = (r, x, env') \<Longrightarrow> own (ce_obj e) \<subseteq># pool env \<Longrightarrow>
      pool env' + own (ce_obj e) = pool env + own x"
    and own_free: "pool (free_cb cls e env) = pool env"

context owning_class
begin

text \<open>The environment holds \<open>X\<close> and what the entries own.\<close>

definition owned :: "('x, 'e) cache \<Rightarrow> 'm multiset" where
  "owned c = (\<Sum>a \<in> dom (c_entries c). own (ce_obj (the (c_entries c a))))"

definition balance :: "('x, 'e) cache \<Rightarrow> 'm multiset \<Rightarrow> bool" where
  "balance c X \<longleftrightarrow> finite (dom (c_entries c)) \<and> pool (c_env c) = X + owned c"

definition steady :: "('x, 'e) cache \<Rightarrow> ('x, 'e) cache \<Rightarrow> bool" where
  "steady c c' \<longleftrightarrow> dom (c_entries c') \<subseteq> dom (c_entries c) \<and> (\<forall>X. balance c X \<longrightarrow> balance c' X)"

lemma steady_refl [simp]: "steady c c"
  by (simp add: steady_def)

lemma steady_trans [trans]: "steady c c' \<Longrightarrow> steady c' c'' \<Longrightarrow> steady c c''"
  unfolding steady_def using subset_trans by metis

lemma owned_insert:
  "finite (dom (c_entries c)) \<Longrightarrow> c_entries c a = Some e \<Longrightarrow>
   owned c = own (ce_obj e) + (\<Sum>b \<in> dom (c_entries c) - {a}. own (ce_obj (the (c_entries c b))))"
  unfolding owned_def by (subst sum.remove [of _ a]) auto

lemma owned_rest:
  assumes "finite (dom (c_entries c))" "c_entries c a = Some e" "c_entries c' = (c_entries c)(a \<mapsto> e')"
  shows "owned c' + own (ce_obj e) = owned c + own (ce_obj e')"
proof -
  have d: "dom (c_entries c') = dom (c_entries c)" using assms(2,3) by auto
  have "(\<Sum>b \<in> dom (c_entries c) - {a}. own (ce_obj (the (c_entries c' b)))) = (\<Sum>b \<in> dom (c_entries c) - {a}. own (ce_obj (the (c_entries c b))))"
    using assms(3) by (intro sum.cong) auto
  then show ?thesis using owned_insert [OF assms(1,2)] owned_insert [of c' a e'] assms(1,3) d by simp
qed

lemma balance_own: "balance c X \<Longrightarrow> c_entries c a = Some e \<Longrightarrow> own (ce_obj e) \<subseteq># pool (c_env c)"
  unfolding balance_def using owned_insert [of c a e] by simp

text \<open>A step that only changes one object and the environment.\<close>

lemma steady_upd:
  assumes "c_entries c a = Some e" "c_entries c' = (c_entries c)(a \<mapsto> e')"
    and "own (ce_obj e) \<subseteq># pool (c_env c) \<Longrightarrow> pool (c_env c') + own (ce_obj e) = pool (c_env c) + own (ce_obj e')"
  shows "steady c c'"
  unfolding steady_def
proof (intro conjI allI impI)
  show "dom (c_entries c') \<subseteq> dom (c_entries c)" using assms(1,2) by auto
  fix X
  assume b: "balance c X"
  then have f: "finite (dom (c_entries c))" and p: "pool (c_env c) = X + owned c" by (simp_all add: balance_def)
  have "pool (c_env c') + own (ce_obj e) = X + (owned c + own (ce_obj e'))" using assms(3) balance_own [OF b assms(1)] p by (simp add: add.assoc)
  also have "\<dots> = X + (owned c' + own (ce_obj e))" using owned_rest [OF f assms(1,2)] by simp
  finally have "pool (c_env c') + own (ce_obj e) = X + owned c' + own (ce_obj e)" by (simp only: add.assoc)
  then have "pool (c_env c') = X + owned c'" by (simp only: add_right_cancel)
  moreover have "finite (dom (c_entries c'))" using f assms(2) by simp
  ultimately show "balance c' X" by (simp add: balance_def)
qed

lemma steady_fields:
  "steady c (c'\<lparr>c_map := t, c_nodes := n\<rparr>) \<longleftrightarrow> steady c c'" "steady (c\<lparr>c_map := t, c_nodes := n\<rparr>) c' \<longleftrightarrow> steady c c'"
  "steady c (c'\<lparr>target_t1 := i\<rparr>) \<longleftrightarrow> steady c c'" "steady (c\<lparr>target_t1 := i\<rparr>) c' \<longleftrightarrow> steady c c'"
  "steady (c\<lparr>count_miss := k\<rparr>) c' \<longleftrightarrow> steady c c'" "steady (c\<lparr>count_hit := k\<rparr>) c' \<longleftrightarrow> steady c c'" "steady (c\<lparr>c_count := k\<rparr>) c' \<longleftrightarrow> steady c c'"
  by (simp_all add: steady_def balance_def owned_def)

subsection \<open>The operations of the cache\<close>

lemma set_entry_steady:
  assumes "set_entry c a f = Some c'" "\<And>e. ce_obj (f e) = ce_obj e"
  shows "steady c c'"
proof -
  obtain e where e: "c_entries c a = Some e" "c' = c\<lparr>c_entries := (c_entries c)(a \<mapsto> f e)\<rparr>" using assms(1) by (auto simp: set_entry_def bind_eq_Some_conv)
  show ?thesis by (rule steady_upd [OF e(1), of _ "f e"]) (use e(2) assms(2) in simp_all)
qed

lemma set_tag_steady: "set_entry c a (in_list_update (\<lambda>_. t)) = Some c' \<Longrightarrow> steady c c'"
  using set_entry_steady [of c a "in_list_update (\<lambda>_. t)" c'] by simp

lemma set_count_steady: "set_entry c a (\<lambda>e. e\<lparr>ref_count := g e\<rparr>) = Some c' \<Longrightarrow> steady c c'"
  using set_entry_steady [of c a "\<lambda>e. e\<lparr>ref_count := g e\<rparr>" c'] by simp

lemma steady_links: "steady (c\<lparr>c_links := m\<rparr>) c' \<longleftrightarrow> steady c c'" "steady (c\<lparr>c_links := m, c_len := n\<rparr>) c' \<longleftrightarrow> steady c c'"
  "steady c (c'\<lparr>c_links := m\<rparr>) \<longleftrightarrow> steady c c'" "steady c (c'\<lparr>c_links := m, c_len := n\<rparr>) \<longleftrightarrow> steady c c'"
  by (simp_all add: steady_def balance_def owned_def)

lemma entry_ref_steady: "entry_ref c a = Some c' \<Longrightarrow> steady c c'"
  using set_count_steady [of c a "\<lambda>e. ref_count e + 1" c'] by (simp add: entry_ref_def)

lemma cache_list_add_steady: "cache_list_add l a c = Some c' \<Longrightarrow> steady c c'"
  using steady_links by (auto simp: cache_list_add_def bind_eq_Some_conv dest!: set_tag_steady)

lemma cache_list_del_steady: "cache_list_del l a c = Some c' \<Longrightarrow> steady c c'"
  using steady_links by (auto simp: cache_list_del_def bind_eq_Some_conv dest!: set_tag_steady)

lemma cache_list_swap_steady: "cache_list_swap i j a c = Some c' \<Longrightarrow> steady c c'"
  unfolding cache_list_swap_def bind_eq_Some_conv using cache_list_add_steady cache_list_del_steady steady_trans by blast

lemma cache_list_make_first_steady: "cache_list_make_first l a c = Some c' \<Longrightarrow> steady c c'"
  using steady_links by (auto simp: cache_list_make_first_def bind_eq_Some_conv)

lemma unlist_steady: "unlist t a c = Some c' \<Longrightarrow> steady c c'"
  by (auto simp: unlist_def dest: cache_list_del_steady split: cache_list.splits)

lemma clean_steady:
  assumes "entry_parent_info_clean cls c a = Some (r, c')"
  shows "steady c c'" "c_entries c a = Some e \<Longrightarrow> ref_count e \<le> 0 \<Longrightarrow> balance c X \<Longrightarrow> \<exists>e'. c_entries c' a = Some e' \<and> own (ce_obj e') = {#}"
proof -
  obtain e0 where e0: "c_entries c a = Some e0" using assms by (auto simp: entry_parent_info_clean_def bind_eq_Some_conv)
  obtain r1 x env where cb: "clean_cb cls e0 (c_env c) = (r1, x, env)" by (metis prod_cases3)
  let ?c = "c\<lparr>c_env := env, c_entries := (c_entries c)(a \<mapsto> e0\<lparr>ce_obj := x\<rparr>)\<rparr>"
  have c: "c' = (if ref_count e0 > 0 then c else ?c)" using assms e0 cb by (auto simp: entry_parent_info_clean_def set_entry_def)
  have "steady c ?c" by (rule steady_upd [OF e0, of _ "e0\<lparr>ce_obj := x\<rparr>"]) (use own_clean [OF cb] in auto)
  then show "steady c c'" using c by simp
  show "\<exists>e'. c_entries c' a = Some e' \<and> own (ce_obj e') = {#}" if "c_entries c a = Some e" "ref_count e \<le> 0" "balance c X"
    using that c e0 own_clean [OF cb balance_own [OF that(3) e0]] by auto
qed

lemma fetch_steady:
  assumes "entry_parent_info_fetch cls c a = Some (r, c')"
  shows "steady c c'"
proof (cases "fetch_cb cls")
  case None
  then show ?thesis using assms by (simp add: entry_parent_info_fetch_def)
next
  case (Some f)
  obtain e where e: "c_entries c a = Some e" using assms Some by (auto simp: entry_parent_info_fetch_def bind_eq_Some_conv)
  obtain r1 x env where cb: "f e (c_env c) = (r1, x, env)" by (metis prod_cases3)
  have c: "c' = c\<lparr>c_env := env, c_entries := (c_entries c)(a \<mapsto> e\<lparr>ce_obj := x\<rparr>)\<rparr>"
    using assms Some e cb by (auto simp: entry_parent_info_fetch_def set_entry_def)
  show ?thesis by (rule steady_upd [OF e, of _ "e\<lparr>ce_obj := x\<rparr>"]) (use c own_fetch [OF Some cb] in auto)
qed

text \<open>An entry that owns nothing may be freed.\<close>

lemma free_steady:
  assumes "entry_free cls c a = Some c'" "\<And>X. balance c X \<Longrightarrow> own (ce_obj (the (c_entries c a))) = {#}"
  shows "steady c c'"
proof -
  obtain e where e: "c_entries c a = Some e" "c' = c\<lparr>c_env := free_cb cls e (c_env c), c_entries := (c_entries c)(a := None), c_links := (c_links c)(a := None)\<rparr>"
    using assms(1) by (auto simp: entry_free_def bind_eq_Some_conv)
  have d: "dom (c_entries c') = dom (c_entries c) - {a}" using e by auto
  have "owned c' = (\<Sum>b \<in> dom (c_entries c) - {a}. own (ce_obj (the (c_entries c b))))"
    unfolding owned_def d using e(2) by (intro sum.cong) auto
  then have "owned c = owned c'" if "balance c X" for X
    using owned_insert [of c a e] e(1) assms(2) [OF that] that by (simp add: balance_def)
  then show ?thesis using d e(2) own_free by (auto simp: steady_def balance_def)
qed

lemma unref_steady:
  assumes "entry_unref_guts cls c p = Some (r, c')"
  shows "steady c c'"
proof (cases p)
  case (Some a)
  obtain c1 where c1: "set_entry c a (\<lambda>e. e\<lparr>ref_count := ref_count e - 1\<rparr>) = Some c1" using assms Some by (auto simp: entry_unref_guts_def bind_eq_Some_conv)
  then obtain e where e: "c_entries c1 a = Some e" by (auto simp: set_entry_def bind_eq_Some_conv)
  have s1: "steady c c1" using set_count_steady [of c a "\<lambda>e. ref_count e - 1" c1] c1 by simp
  show ?thesis
  proof (cases "ref_count e > 0")
    case True
    then show ?thesis using assms Some c1 e s1 by (auto simp: entry_unref_guts_def)
  next
    case False
    then obtain t n c2 r2 c3 where c2: "unlist (in_list e) a (c1\<lparr>c_map := t, c_nodes := n\<rparr>) = Some c2"
      "entry_parent_info_clean cls c2 a = Some (r2, c3)" "entry_free cls c3 a = Some c'"
      using assms Some c1 e by (auto simp: entry_unref_guts_def bind_eq_Some_conv)
    have "map_option ref_count (c_entries c2 a) = map_option ref_count (c_entries c1 a)"
      using c2(1) by (auto simp: unlist_def cache_list_del_def set_entry_def bind_eq_Some_conv split: cache_list.splits)
    then obtain e2 where e2: "c_entries c2 a = Some e2" "ref_count e2 \<le> 0" using e False by auto
    have s2: "steady c c2" using steady_trans [OF s1] unlist_steady [OF c2(1)] steady_fields by blast
    have s3: "steady c2 c3" using clean_steady(1) [OF c2(2)] .
    have d: "dom (c_entries c') \<subseteq> dom (c_entries c3)" using c2(3) by (auto simp: entry_free_def bind_eq_Some_conv split: if_splits)
    have s: "steady c c3" using steady_trans [OF s2 s3] .
    show ?thesis
    proof (cases "\<exists>X. balance c2 X")
      case True
      then obtain e3 where "c_entries c3 a = Some e3" "own (ce_obj e3) = {#}" using clean_steady(2) [OF c2(2) e2] by blast
      then have "own (ce_obj (the (c_entries c3 a))) = {#}" by simp
      then have "steady c3 c'" by (intro free_steady [OF c2(3)])
      then show ?thesis by (rule steady_trans [OF s])
    next
      case False
      then show ?thesis using s s2 d unfolding steady_def by blast
    qed
  qed
qed (use assms in \<open>simp add: entry_unref_guts_def\<close>)

lemma move_to_ghost_steady: "move_to_ghost i j cls c = Some c' \<Longrightarrow> steady c c'"
proof -
  assume m: "move_to_ghost i j cls c = Some c'"
  then obtain v where v: "cache_list_get_lru i c = Some v" by (auto simp: move_to_ghost_def bind_eq_Some_conv)
  show "steady c c'"
  proof (cases v)
    case None
    then show ?thesis using m v by (simp add: move_to_ghost_def)
  next
    case (Some a)
    then obtain c1 r c2 where "cache_list_del i a c = Some c1" "entry_parent_info_clean cls c1 a = Some (r, c2)" "cache_list_add j a c2 = Some c'"
      using m v by (auto simp: move_to_ghost_def bind_eq_Some_conv)
    then show ?thesis using cache_list_del_steady clean_steady(1) cache_list_add_steady steady_trans by meson
  qed
qed

lemma replace_steady: "replace cls c x = Some (r, c') \<Longrightarrow> steady c c'"
  by (auto simp: replace_def Let_def bind_eq_Some_conv dest: move_to_ghost_steady split: if_splits)

lemma evict_lru_steady: "evict_lru l cls c = Some c' \<Longrightarrow> steady c c'"
proof -
  assume "evict_lru l cls c = Some c'"
  then obtain a c1 r where "cache_list_del l a c = Some c1" "entry_unref_guts cls c1 (Some a) = Some (r, c')"
    by (auto simp: evict_lru_def bind_eq_Some_conv)
  then show ?thesis using cache_list_del_steady unref_steady steady_trans by blast
qed

lemma on_new_added_steady:
  assumes "on_new_added cls c = Some (r, c')"
  shows "steady c c'"
proof -
  let ?c = "c\<lparr>count_miss := u32 (count_miss c + 1)\<rparr>"
  obtain c1 where "c1 = ?c \<or> (\<exists>l. evict_lru l cls ?c = Some c1)" "c1 = c' \<or> replace cls c1 None = Some (r, c')"
    using assms by (auto simp: on_new_added_def Let_def bind_eq_Some_conv split: if_splits)
  then have "steady ?c c1" "steady c1 c'" using evict_lru_steady replace_steady by auto
  then show ?thesis using steady_trans steady_fields(5) by blast
qed

lemma update_ghost_steady:
  "update_ghost_b1 cls c a = Some (r, c') \<Longrightarrow> steady c c'"
  "update_ghost_b2 cls c a = Some (r, c') \<Longrightarrow> steady c c'"
proof -
  show "steady c c'" if u: "update_ghost_b1 cls c a = Some (r, c')"
  proof -
    obtain t r1 c1 r2 c2 where "replace cls (c\<lparr>target_t1 := t\<rparr>) (Some a) = Some (r1, c1)" "entry_parent_info_fetch cls c1 a = Some (r2, c2)"
      "c' = c2 \<or> cache_list_swap B1 T2 a c2 = Some c'"
      using u by (auto simp: update_ghost_b1_def bind_eq_Some_conv split: if_splits)
    then show ?thesis using replace_steady fetch_steady cache_list_swap_steady steady_trans steady_fields(4) by (metis steady_refl)
  qed
  show "steady c c'" if u: "update_ghost_b2 cls c a = Some (r, c')"
  proof -
    obtain t r1 c1 r2 c2 where "replace cls (c\<lparr>target_t1 := t\<rparr>) (Some a) = Some (r1, c1)" "entry_parent_info_fetch cls c1 a = Some (r2, c2)"
      "c' = c2 \<or> cache_list_swap B2 T2 a c2 = Some c'"
      using u by (auto simp: update_ghost_b2_def bind_eq_Some_conv split: if_splits)
    then show ?thesis using replace_steady fetch_steady cache_list_swap_steady steady_trans steady_fields(4) by (metis steady_refl)
  qed
qed

lemma update_cache_steady:
  assumes "update_cache cls c a = Some (r, c')"
  shows "steady c c'"
proof -
  let ?c = "c\<lparr>count_hit := u32 (count_hit c + 1)\<rparr>"
  have "c' = ?c \<or> cache_list_swap T1 T2 a ?c = Some c' \<or> cache_list_make_first T2 a ?c = Some c' \<or>
      (\<exists>r. update_ghost_b1 cls ?c a = Some (r, c')) \<or> (\<exists>r. update_ghost_b2 cls ?c a = Some (r, c'))"
  proof -
    obtain e where e: "c_entries c a = Some e" using assms by (auto simp: update_cache_def Let_def bind_eq_Some_conv)
    show ?thesis using assms e by (cases "in_list e") (auto simp: update_cache_def Let_def bind_eq_Some_conv)
  qed
  then have "steady ?c c'" using cache_list_swap_steady cache_list_make_first_steady update_ghost_steady steady_refl by blast
  then show ?thesis using steady_fields(6) by blast
qed

lemma add_list_steady: "add_list c a = Some (r, v, c') \<Longrightarrow> steady c c'"
  unfolding add_list_def bind_eq_Some_conv using cache_list_add_steady entry_ref_steady steady_trans by blast

text \<open>A new entry owns nothing.\<close>

lemma entry_init_balance:
  assumes "http2d_cache_entry_init h (new_obj cls) c a key = Some (r, c')" "c_entries c a = None" "balance c X"
  shows "balance c' X"
proof -
  obtain m k where c': "c' = c\<lparr>c_links := m, c_entries := (c_entries c)(a \<mapsto> \<lparr>ce_key = k, in_list = cache_no_list, ref_count = 0, ce_obj = new_obj cls\<rparr>)\<rparr>"
    using assms(1) by (auto simp: http2d_cache_entry_init_def bind_eq_Some_conv)
  have f: "finite (dom (c_entries c'))" using assms(3) c' by (simp add: balance_def)
  have "owned c' = own (new_obj cls) + (\<Sum>b \<in> dom (c_entries c') - {a}. own (ce_obj (the (c_entries c' b))))"
    using owned_insert [OF f, of a] c' by simp
  also have "(\<Sum>b \<in> dom (c_entries c') - {a}. own (ce_obj (the (c_entries c' b)))) = owned c"
    unfolding owned_def using assms(2) c' by (intro sum.cong) auto
  finally show ?thesis using f assms(3) c' own_new by (simp add: balance_def)
qed

lemma cache_get_balance:
  assumes "http2d_cache_get h cls c key new node = Some (r, v, c')" "\<And>a. new = Some a \<Longrightarrow> c_entries c a = None" "balance c X"
  shows "balance c' X"
proof -
  let ?c = "c\<lparr>c_count := u32 (c_count c + 1)\<rparr>"
  have s0: "steady c d \<longleftrightarrow> steady ?c d" for d using steady_fields(7) by blast
  obtain g w where g: "http2d_avl_get (c_map c) (c_nodes c) key = Some (g, w)"
    using assms(1) by (auto simp: http2d_cache_get_def Let_def bind_eq_Some_conv)
  consider "g = ret_ok" | "g = ret_not_found" | "g \<noteq> ret_ok" "g \<noteq> ret_not_found" by blast
  then show ?thesis
  proof cases
    case 1
    then obtain a e where a: "c_entries c a = Some e"
      "in_list e = cache_no_list \<and> (\<exists>c1. entry_ref ?c a = Some c1 \<and> add_list c1 a = Some (r, v, c')) \<or>
       (\<exists>c1. update_cache cls ?c a = Some (r, c1) \<and> entry_ref c1 a = Some c')"
      using assms(1) g by (auto simp: http2d_cache_get_def Let_def bind_eq_Some_conv split: if_splits)
    then have "steady ?c c'" using entry_ref_steady add_list_steady update_cache_steady steady_trans by blast
    then have "steady c c'" using s0 by blast
    then show ?thesis using assms(3) by (simp add: steady_def)
  next
    case 2
    then obtain r1 c1 where c1: "on_new_added cls ?c = Some (r1, c1)" using assms(1) g by (auto simp: http2d_cache_get_def Let_def bind_eq_Some_conv)
    then have st: "steady c c1" using on_new_added_steady s0 by blast
    then have b1: "balance c1 X" using assms(3) by (simp add: steady_def)
    show ?thesis
    proof (cases new)
      case None
      then show ?thesis using assms(1) g 2 c1 b1 by (simp add: http2d_cache_get_def Let_def)
    next
      case (Some a)
      then obtain r2 c2 t n c3 where c2: "http2d_cache_entry_init h (new_obj cls) c1 a key = Some (r2, c2)"
        "entry_ref (c2\<lparr>c_map := t, c_nodes := n\<rparr>) a = Some c3" "add_list c3 a = Some (r, v, c')"
        using assms(1) g 2 c1 by (auto simp: http2d_cache_get_def Let_def bind_eq_Some_conv)
      have "c_entries c1 a = None" using st assms(2) [OF Some] unfolding steady_def by blast
      from entry_init_balance [OF c2(1) this b1] have "balance c2 X" .
      moreover have "steady c2 c'" using entry_ref_steady [OF c2(2)] add_list_steady [OF c2(3)] steady_trans steady_fields(2) by blast
      ultimately show ?thesis by (simp add: steady_def)
    qed
  next
    case 3
    then show ?thesis using assms(1,3) g by (auto simp: http2d_cache_get_def Let_def balance_def owned_def)
  qed
qed

lemma cache_unref_balance: "http2d_cache_entry_unref cls c p = Some (r, c') \<Longrightarrow> balance c X \<Longrightarrow> balance c' X"
  by (auto simp: http2d_cache_entry_unref_def steady_def dest!: unref_steady split: option.splits)

lemma cache_init_balance:
  "http2d_cache_init p c = Some (r, c') \<Longrightarrow> c_entries c = (\<lambda>_. None) \<Longrightarrow> pool (c_env c) = X \<Longrightarrow> balance c' X"
  by (auto simp: http2d_cache_init_def balance_def owned_def bind_eq_Some_conv split: if_splits)

text \<open>\<open>http2d_cache_mrproper\<close> frees the entries without cleaning them: what they own is nobody's afterwards.\<close>

lemma free_values_pool: "free_values cls vs c = Some c' \<Longrightarrow> pool (c_env c') = pool (c_env c)"
proof (induction vs arbitrary: c)
  case (Cons v vs)
  then obtain a c1 where "entry_free cls c a = Some c1" "free_values cls vs c1 = Some c'" by (auto simp: bind_eq_Some_conv)
  then show ?case using Cons.IH own_free by (auto simp: entry_free_def bind_eq_Some_conv)
qed simp

lemma mrproper_pool: "http2d_cache_mrproper cls c = Some (r, c') \<Longrightarrow> pool (c_env c') = pool (c_env c)"
  by (auto simp: http2d_cache_mrproper_def bind_eq_Some_conv dest!: free_values_pool)

end

end
