(* ===== verification/Iocache.thy ===== *)
theory Iocache
  imports Complex_Main "HOL-Library.Multiset" Cache Config_Node
begin

text \<open>
  The cache of files, \<^verbatim>\<open>src/src/iocache.c\<close> and \<^verbatim>\<open>src/src/iocache.h\<close>, and \<open>http2d_cache_configure\<close> of \<^verbatim>\<open>src/src/cache.c\<close>. It derives from
  the adaptive replacement cache: an entry has the result of \<open>stat\<close> and a mapping of the file, each of which expires. The calls of the
  kernel are functions in the environment of the cache, next to the mappings and the open descriptors of the process. The mutexes of the
  entries are not modelled: an operation is one step.
\<close>

subsection \<open>The kernel\<close>

text \<open>The codes of \<open>errno\<close> that the code of files asks for, next to those of the code of descriptors.\<close>

datatype file_errno = EACCES | ENOENT | ENOTDIR | ENOMEM | ENFILE | E_io errno

text \<open>Of \<open>struct stat\<close>: whether \<open>st_mode\<close> is that of a regular file, and the size.\<close>

record file_stat =
  S_ISREG :: bool
  st_size :: int

text \<open>The argument of \<open>stat\<close> and \<open>open\<close> is the string at \<open>key.buf\<close>, or the null pointer. The clock is a \<open>double\<close>. A mapping is its
  address and its length.\<close>

record io_env =
  BOGONOW :: rat
  sys_stat :: "byte list option \<Rightarrow> file_errno + file_stat"
  sys_open :: "byte list option \<Rightarrow> file_errno + nat"
  sys_mmap :: "nat \<Rightarrow> int \<Rightarrow> file_errno + addr"
  maps :: "(addr \<times> nat) multiset"
  fds :: "int multiset"

text \<open>The pointer that \<open>mmap\<close> returns.\<close>

datatype map_ptr = NULL_PTR | MAP_FAILED | Mapped addr

definition munmap :: "map_ptr \<Rightarrow> nat \<Rightarrow> io_env \<Rightarrow> io_env" where
  "munmap p n env = (case p of Mapped a \<Rightarrow> env\<lparr>maps := maps env - {#(a, n)#}\<rparr> | _ \<Rightarrow> env)"

definition http2d_fd_close :: "int \<Rightarrow> io_env \<Rightarrow> io_env" where
  "http2d_fd_close fd env = env\<lparr>fds := fds env - {#fd#}\<rparr>"

subsection \<open>Data\<close>

type_synonym iocache_info = "32 word"

definition iocache_nothing :: iocache_info where "iocache_nothing = 0"
definition iocache_stat :: iocache_info where "iocache_stat = 1"
definition iocache_mmap :: iocache_info where "iocache_mmap = push_bit 1 1"

text \<open>What the class adds to an entry of the cache; \<open>state_ret\<close> may hold a number that is no return code.\<close>

record io_obj =
  info :: iocache_info
  state :: file_stat
  state_ret :: int
  mmaped :: map_ptr
  mmaped_len :: nat
  stat_expiration :: int
  mmap_expiration :: int

record io_limits =
  max_file_size :: nat
  min_file_size :: nat
  lasting_mmap :: nat
  lasting_stat :: nat

record iocache =
  io_base :: "(io_obj, io_env) cache"
  io_lim :: io_limits

definition LASTING_MMAP :: nat where "LASTING_MMAP = 5 * 60"
definition LASTING_STAT :: nat where "LASTING_STAT = 5 * 60"
definition MIN_FILE_SIZE :: nat where "MIN_FILE_SIZE = 1"
definition MAX_FILE_SIZE :: nat where "MAX_FILE_SIZE = 128 * 1024"

subsection \<open>Updating an entry\<close>

definition errno_ret :: "file_errno \<Rightarrow> ret_t" where
  "errno_ret e = (case e of EACCES \<Rightarrow> ret_deny | ENOENT \<Rightarrow> ret_not_found | ENOTDIR \<Rightarrow> ret_not_found | _ \<Rightarrow> ret_error)"

definition expiration :: "io_env \<Rightarrow> nat \<Rightarrow> int" where
  "expiration env lasting = \<lfloor>BOGONOW env + of_nat lasting\<rfloor>"

definition ioentry_update_stat :: "io_limits \<Rightarrow> io_obj cache_entry \<Rightarrow> io_obj \<Rightarrow> io_env \<Rightarrow> ret_t \<times> io_obj" where
  "ioentry_update_stat lm e x env =
     (if of_int (stat_expiration x) \<ge> BOGONOW env
      then (if state_ret x \<noteq> ret_code ret_ok then ret_deny else ret_ok_and_sent, x)
      else
        (let (ret, x) = (case sys_stat env (key_cstr (ce_key e)) of Inl err \<Rightarrow> (errno_ret err, x) | Inr st \<Rightarrow> (ret_ok, x\<lparr>state := st\<rparr>));
             x = x\<lparr>stat_expiration := expiration env (lasting_stat lm), state_ret := ret_code ret, info := info x OR iocache_stat\<rparr>
         in (if ret = ret_ok then ret_ok else ret_deny, x)))"

text \<open>The label \<open>error\<close>, and what the two ways out have in common. \<open>fd\<close> is the value behind the pointer of the caller, if there is one.\<close>

definition close_local :: "int option \<Rightarrow> int \<Rightarrow> io_env \<Rightarrow> io_env" where
  "close_local fd fd_local env = (if fd = None \<and> fd_local \<noteq> - 1 then http2d_fd_close fd_local env else env)"

definition mmap_error :: "ret_t \<Rightarrow> io_obj \<Rightarrow> int option \<Rightarrow> int \<Rightarrow> io_env \<Rightarrow> ret_t \<times> io_obj \<times> int option \<times> io_env" where
  "mmap_error ret x fd fd_local env = (ret, x\<lparr>info := info x AND NOT iocache_mmap\<rparr>, fd, close_local fd fd_local env)"

text \<open>The file is open: the old mapping goes, a new one comes.\<close>

definition map_file :: "io_limits \<Rightarrow> io_obj \<Rightarrow> int option \<Rightarrow> int \<Rightarrow> io_env \<Rightarrow> ret_t \<times> io_obj \<times> int option \<times> io_env" where
  "map_file lm x fd fd_local env =
     (let env = munmap (mmaped x) (mmaped_len x) env;
          x = (if mmaped x \<noteq> NULL_PTR then x\<lparr>mmaped := NULL_PTR, mmaped_len := 0\<rparr> else x);
          size = nat (st_size (state x) mod 2 ^ 64)
      in case sys_mmap env size fd_local of
           Inl err \<Rightarrow> mmap_error (if err \<in> {E_io EAGAIN, ENOMEM, ENFILE} then ret_eagain else ret_not_found) (x\<lparr>mmaped := MAP_FAILED\<rparr>) fd fd_local env
         | Inr a \<Rightarrow>
             (let env = env\<lparr>maps := maps env + {#(a, size)#}\<rparr>;
                  x = x\<lparr>mmaped := Mapped a, mmaped_len := size, mmap_expiration := expiration env (lasting_mmap lm), info := info x OR iocache_mmap\<rparr>
              in (ret_ok, x, fd, close_local fd fd_local env)))"

definition ioentry_update_mmap ::
  "io_limits \<Rightarrow> io_obj cache_entry \<Rightarrow> io_obj \<Rightarrow> int option \<Rightarrow> io_env \<Rightarrow> ret_t \<times> io_obj \<times> int option \<times> io_env" where
  "ioentry_update_mmap lm e x fd env =
     (let fd_local = (case fd of None \<Rightarrow> - 1 | Some d \<Rightarrow> d) in
      if of_int (mmap_expiration x) \<ge> BOGONOW env then (ret_ok, x, fd, env)
      else if \<not> S_ISREG (state x) then mmap_error ret_deny x fd fd_local env
      else if fd_local < 0 then
        (case sys_open env (key_cstr (ce_key e)) of
           Inl err \<Rightarrow>
             mmap_error (errno_ret err) (x\<lparr>stat_expiration := expiration env (lasting_stat lm), state_ret := ret_code (errno_ret err)\<rparr>) fd (- 1) env
         | Inr d \<Rightarrow> map_file lm x (map_option (\<lambda>_. int d) fd) (int d) (env\<lparr>fds := fds env + {#int d#}\<rparr>))
      else map_file lm x fd fd_local env)"

text \<open>The result of the first update of the state is not looked at.\<close>

definition entry_update_fd ::
  "io_limits \<Rightarrow> io_obj cache_entry \<Rightarrow> iocache_info \<Rightarrow> int option \<Rightarrow> io_env \<Rightarrow> ret_t \<times> io_obj \<times> int option \<times> io_env" where
  "entry_update_fd lm e what fd env =
     (let x = ce_obj e in
      if ref_count e > 2 \<and> info x \<noteq> iocache_nothing then (ret_ok_and_sent, x, fd, env)
      else
        (let x = (if what AND iocache_stat \<noteq> 0 then snd (ioentry_update_stat lm e x env) else x)
         in if what AND iocache_mmap \<noteq> 0 then
              (case ioentry_update_stat lm e x env of (ret, x) \<Rightarrow>
                 if ret \<noteq> ret_ok \<and> ret \<noteq> ret_ok_and_sent then (ret_deny, x, fd, env)
                 else if st_size (state x) < int (min_file_size lm) \<or> st_size (state x) > int (max_file_size lm) then (ret_no_sys, x, fd, env)
                 else ioentry_update_mmap lm e x fd env)
            else (ret_ok, x, fd, env)))"

subsection \<open>The class\<close>

definition clean_info_cb :: "io_obj cache_entry \<Rightarrow> io_env \<Rightarrow> ret_t \<times> io_obj \<times> io_env" where
  "clean_info_cb e env =
     (let x = (ce_obj e)\<lparr>info := iocache_nothing, state_ret := 123456, mmap_expiration := 0, stat_expiration := 0\<rparr>
      in if mmaped x \<noteq> NULL_PTR then (ret_ok, x\<lparr>mmaped := NULL_PTR, mmaped_len := 0\<rparr>, munmap (mmaped x) (mmaped_len x) env)
         else (ret_ok, x, env))"

definition fetch_info_cb :: "io_limits \<Rightarrow> io_obj cache_entry \<Rightarrow> io_env \<Rightarrow> ret_t \<times> io_obj \<times> io_env" where
  "fetch_info_cb lm e env =
     (case entry_update_fd lm e (iocache_stat OR iocache_mmap) None env of (_, x, _, env) \<Rightarrow> (ret_ok, x, env))"

text \<open>\<open>st\<close> is what the memory of a new entry holds where the state will be.\<close>

definition iocache_entry_new_cb :: "file_stat \<Rightarrow> io_obj" where
  "iocache_entry_new_cb st =
     \<lparr>info = 0, state = st, state_ret = ret_code ret_ok, mmaped = NULL_PTR, mmaped_len = 0, stat_expiration = 0, mmap_expiration = 0\<rparr>"

definition iocache_class :: "file_stat \<Rightarrow> io_limits \<Rightarrow> (io_obj, io_env) cache_class" where
  "iocache_class st lm =
     \<lparr>new_obj = iocache_entry_new_cb st, clean_cb = clean_info_cb, fetch_cb = Some (fetch_info_cb lm), free_cb = (\<lambda>_ env. env)\<rparr>"

subsection \<open>Configuration\<close>

text \<open>The first multiple of 4 from \<open>n\<close> on; incrementing the largest \<open>int\<close> is a fault.\<close>

function round_up4 :: "int \<Rightarrow> int option" where
  "round_up4 n = (if n mod 4 = 0 then Some n else if n + 1 \<ge> 2 ^ 31 then None else round_up4 (n + 1))"
  by pat_completeness auto
termination
proof (relation "measure (\<lambda>n. nat ((- n) mod 4))")
  fix n :: int
  assume "n mod 4 \<noteq> 0"
  then have "(- (n + 1)) mod 4 < (- n) mod 4" by presburger
  then show "(n + 1, n) \<in> measure (\<lambda>n. nat ((- n) mod 4))" by simp
qed simp

declare round_up4.simps [simp del]

text \<open>A child with one of the names sets a number; the first name that fits counts.\<close>

fun number_for :: "config_node \<Rightarrow> (string \<times> 'f) list \<Rightarrow> ('f \<times> ret_t \<times> int option) option option" where
  "number_for n [] = Some None"
| "number_for n ((s, f) # names) = do {
     r \<leftarrow> http2d_buffer_case_cmp (cn_key n) (lit s @ [0]) (length s);
     if r = 0 then do { m \<leftarrow> buf (cn_val n); (ret, v) \<leftarrow> http2d_atoi m 0; Some (Some (f, ret, v)) }
     else number_for n names }"

fun set_numbers :: "config_node list \<Rightarrow> (string \<times> (int \<Rightarrow> 's \<Rightarrow> 's)) list \<Rightarrow> 's \<Rightarrow> (ret_t \<times> 's) option" where
  "set_numbers [] names s = Some (ret_ok, s)"
| "set_numbers (n # ns) names s = do {
     r \<leftarrow> number_for n names;
     (case r of
        None \<Rightarrow> set_numbers ns names s
      | Some (f, ret, v) \<Rightarrow> if ret \<noteq> ret_ok then Some (ret_error, s) else do { v \<leftarrow> v; set_numbers ns names (f v s) }) }"

definition http2d_cache_configure :: "('x, 'e) cache \<Rightarrow> config_node \<Rightarrow> (ret_t \<times> ('x, 'e) cache) option" where
  "http2d_cache_configure c conf = do {
     (ret, c) \<leftarrow> set_numbers (cn_child conf) [(''max_size'', \<lambda>v c. c\<lparr>max_size := v\<rparr>)] c;
     if ret \<noteq> ret_ok then Some (ret_error, c)
     else do { n \<leftarrow> round_up4 (max_size c); Some (ret_ok, c\<lparr>max_size := n\<rparr>) } }"

definition http2d_iocache_configure :: "iocache \<Rightarrow> config_node \<Rightarrow> (ret_t \<times> iocache) option" where
  "http2d_iocache_configure io conf = do {
     (ret, c) \<leftarrow> http2d_cache_configure (io_base io) conf;
     if ret \<noteq> ret_ok then Some (ret, io\<lparr>io_base := c\<rparr>)
     else do {
       (ret, lm) \<leftarrow> set_numbers (cn_child conf)
         [(''max_file_size'', \<lambda>v l. l\<lparr>max_file_size := uint_of v\<rparr>), (''min_file_size'', \<lambda>v l. l\<lparr>min_file_size := uint_of v\<rparr>),
          (''lasting_stat'', \<lambda>v l. l\<lparr>lasting_stat := uint_of v\<rparr>), (''lasting_mmap'', \<lambda>v l. l\<lparr>lasting_mmap := uint_of v\<rparr>)] (io_lim io);
       Some (ret, io\<lparr>io_base := c, io_lim := lm\<rparr>) } }"

definition http2d_iocache_init :: "bool \<Rightarrow> iocache \<Rightarrow> (ret_t \<times> iocache) option" where
  "http2d_iocache_init priv io = do {
     (ret, c) \<leftarrow> http2d_cache_init priv (io_base io);
     if ret \<noteq> ret_ok then Some (ret, io\<lparr>io_base := c\<rparr>)
     else Some (ret_ok, io\<lparr>io_base := c, io_lim := \<lparr>max_file_size = MAX_FILE_SIZE, min_file_size = MIN_FILE_SIZE,
       lasting_mmap = LASTING_MMAP, lasting_stat = LASTING_STAT\<rparr>\<rparr>) }"

definition http2d_iocache_mrproper :: "file_stat \<Rightarrow> iocache \<Rightarrow> (ret_t \<times> iocache) option" where
  "http2d_iocache_mrproper st io = do {
     (ret, c) \<leftarrow> http2d_cache_mrproper (iocache_class st (io_lim io)) (io_base io);
     Some (ret, io\<lparr>io_base := c\<rparr>) }"

subsection \<open>Getting and giving back\<close>

definition http2d_iocache_entry_unref :: "file_stat \<Rightarrow> iocache \<Rightarrow> lptr option \<Rightarrow> (ret_t \<times> iocache) option" where
  "http2d_iocache_entry_unref st io entry = do {
     (ret, c) \<leftarrow> http2d_cache_entry_unref (iocache_class st (io_lim io)) (io_base io) entry;
     Some (ret, io\<lparr>io_base := c\<rparr>) }"

text \<open>\<open>entry_update_fd\<close> on the entry at an address. \<open>entry_update\<close> is the call with the null pointer for \<open>fd\<close>.\<close>

definition update_at :: "iocache \<Rightarrow> lptr \<Rightarrow> iocache_info \<Rightarrow> int option \<Rightarrow> (ret_t \<times> int option \<times> iocache) option" where
  "update_at io a what fd = do {
     e \<leftarrow> c_entries (io_base io) a;
     (case entry_update_fd (io_lim io) e what fd (c_env (io_base io)) of (ret, x, fd, env) \<Rightarrow> do {
        c \<leftarrow> set_entry ((io_base io)\<lparr>c_env := env\<rparr>) a (\<lambda>e. e\<lparr>ce_obj := x\<rparr>);
        Some (ret, fd, io\<lparr>io_base := c\<rparr>) }) }"

text \<open>\<open>st\<close>, \<open>new\<close> and \<open>node\<close> describe the memory that \<open>malloc\<close> returns for a new entry and a node of the tree.\<close>

definition iocache_get ::
  "heap \<Rightarrow> file_stat \<Rightarrow> iocache \<Rightarrow> buffer \<Rightarrow> iocache_info \<Rightarrow> int option \<Rightarrow> lptr option \<Rightarrow> addr option \<Rightarrow>
    (ret_t \<times> lptr option \<times> int option \<times> iocache) option" where
  "iocache_get h st io file what fd new node = do {
     (ret, entry, c) \<leftarrow> http2d_cache_get h (iocache_class st (io_lim io)) (io_base io) file new node;
     if ret \<in> {ret_ok, ret_ok_and_sent} then do {
       a \<leftarrow> entry;
       (ret, fd, io) \<leftarrow> update_at (io\<lparr>io_base := c\<rparr>) a what fd;
       Some (ret, Some a, fd, io) }
     else Some (ret_error, None, fd, io\<lparr>io_base := c\<rparr>) }"

text \<open>\<open>entry\<close> is the value of \<open>*ret_io\<close> at the call. The keys are only compared to report a misuse.\<close>

definition http2d_iocache_autoget_fd ::
  "heap \<Rightarrow> file_stat \<Rightarrow> iocache \<Rightarrow> buffer \<Rightarrow> iocache_info \<Rightarrow> int option \<Rightarrow> lptr option \<Rightarrow> lptr option \<Rightarrow> addr option \<Rightarrow>
    (ret_t \<times> lptr option \<times> int option \<times> iocache) option" where
  "http2d_iocache_autoget_fd h st io file what fd entry new node =
     (case entry of
        Some a \<Rightarrow> do {
          e \<leftarrow> c_entries (io_base io) a;
          _ \<leftarrow> http2d_buffer_cmp_buf file (ce_key e);
          (ret, fd, io) \<leftarrow> update_at io a what fd;
          Some (ret, Some a, fd, io) }
      | None \<Rightarrow> iocache_get h st io file what fd new node)"

definition http2d_iocache_autoget ::
  "heap \<Rightarrow> file_stat \<Rightarrow> iocache \<Rightarrow> buffer \<Rightarrow> iocache_info \<Rightarrow> lptr option \<Rightarrow> lptr option \<Rightarrow> addr option \<Rightarrow>
    (ret_t \<times> lptr option \<times> iocache) option" where
  "http2d_iocache_autoget h st io file what entry new node =
     (case entry of
        Some a \<Rightarrow> do {
          e \<leftarrow> c_entries (io_base io) a;
          _ \<leftarrow> http2d_buffer_cmp_buf file (ce_key e);
          (ret, _, io) \<leftarrow> update_at io a what None;
          Some (ret, Some a, io) }
      | None \<Rightarrow> do { (ret, a, _, io) \<leftarrow> iocache_get h st io file what None new node; Some (ret, a, io) })"

subsection \<open>Statistics\<close>

partial_function (option) sum_mmaped :: "(io_obj, io_env) cache \<Rightarrow> lptr \<Rightarrow> lptr option \<Rightarrow> nat \<Rightarrow> nat option" where
  "sum_mmaped c head i tot = do {
     a \<leftarrow> i;
     if a = head then Some tot
     else do {
       e \<leftarrow> c_entries c a;
       n \<leftarrow> c_links c a;
       sum_mmaped c head (le_next n) (u64 (tot + mmaped_len (ce_obj e))) } }"

definition http2d_iocache_get_mmaped_size :: "iocache \<Rightarrow> (ret_t \<times> nat) option" where
  "http2d_iocache_get_mmaped_size io =
     (let c = io_base io in do {
        h \<leftarrow> c_links c (c_head c T1);
        tot \<leftarrow> sum_mmaped c (c_head c T1) (le_next h) 0;
        h \<leftarrow> c_links c (c_head c T2);
        tot \<leftarrow> sum_mmaped c (c_head c T2) (le_next h) tot;
        Some (ret_ok, tot) })"

definition get_stats_cb :: "heap \<Rightarrow> iocache \<Rightarrow> buffer \<Rightarrow> (ret_t \<times> buffer) option" where
  "get_stats_cb h io info_text = do {
     (_, tot) \<leftarrow> http2d_iocache_get_mmaped_size io;
     (_, info_text) \<leftarrow> http2d_buffer_add_str h info_text ''IOcache mappped: '';
     (_, info_text) \<leftarrow> http2d_buffer_add_fsize h info_text (int tot);
     (_, info_text) \<leftarrow> http2d_buffer_add_str h info_text [CHR 0x0A];
     Some (ret_ok, info_text) }"

end
