(* ===== verification/Iocache_Run.thy ===== *)
theory Iocache_Run
  imports Cache_Own Iocache Util_Text
begin

text \<open>
  Histories of the cache of files: no mapping and no descriptor is lost or given back twice, whatever the kernel answers; what the first
  look-up of a file and a look-up in a fresh entry return; and what \<open>http2d_iocache_mrproper\<close> leaves behind.
\<close>

subsection \<open>What an entry owns\<close>

definition held :: "io_obj \<Rightarrow> (addr \<times> nat) multiset" where
  "held x = (case mmaped x of Mapped a \<Rightarrow> {#(a, mmaped_len x)#} | _ \<Rightarrow> {#})"

text \<open>The functions of the kernel and the clock.\<close>

definition kernel :: "io_env \<Rightarrow> rat \<times> (byte list option \<Rightarrow> file_errno + file_stat) \<times> (byte list option \<Rightarrow> file_errno + nat) \<times> (nat \<Rightarrow> int \<Rightarrow> file_errno + addr)" where
  "kernel env = (BOGONOW env, sys_stat env, sys_open env, sys_mmap env)"

lemma held_upd [simp]:
  "held (x\<lparr>info := i\<rparr>) = held x" "held (x\<lparr>state := s\<rparr>) = held x" "held (x\<lparr>state_ret := r\<rparr>) = held x"
  "held (x\<lparr>stat_expiration := t\<rparr>) = held x" "held (x\<lparr>mmap_expiration := t\<rparr>) = held x"
  "held (x\<lparr>mmaped := NULL_PTR\<rparr>) = {#}" "held (x\<lparr>mmaped := MAP_FAILED\<rparr>) = {#}" "held (x\<lparr>mmaped := Mapped a, mmaped_len := n\<rparr>) = {#(a, n)#}"
  by (simp_all add: held_def split: map_ptr.split)

lemma munmap_held: "held x \<subseteq># maps env \<Longrightarrow> maps (munmap (mmaped x) (mmaped_len x) env) + held x = maps env"
  by (cases "mmaped x") (auto simp: munmap_def held_def)

lemma munmap_other [simp]: "fds (munmap p n env) = fds env" "BOGONOW (munmap p n env) = BOGONOW env"
    "sys_stat (munmap p n env) = sys_stat env" "sys_open (munmap p n env) = sys_open env" "sys_mmap (munmap p n env) = sys_mmap env"
  by (simp_all add: munmap_def split: map_ptr.split)

lemma close_local [simp]: "maps (close_local fd d env) = maps env" "BOGONOW (close_local fd d env) = BOGONOW env"
    "sys_stat (close_local fd d env) = sys_stat env" "sys_open (close_local fd d env) = sys_open env" "sys_mmap (close_local fd d env) = sys_mmap env"
    "fds (close_local None (int n) env) = fds env - {#int n#}" "close_local None (- 1) env = env"
  by (simp_all add: close_local_def http2d_fd_close_def)

text \<open>Updating an entry moves mappings between it and the environment only, and closes the descriptors that it has opened for itself.\<close>

lemma map_file_balance:
  assumes "map_file lm x fd d env = (ret, x', fd', env')"
  shows "held x \<subseteq># maps env \<Longrightarrow> maps env' + held x = maps env + held x'" "kernel env' = kernel env"
    "fd = None \<Longrightarrow> d = int n \<Longrightarrow> fds env' = fds env - {#int n#}"
  using assms munmap_held [of x env]
  by (auto simp: map_file_def mmap_error_def Let_def kernel_def split: sum.splits if_splits)

lemma update_stat_other:
  assumes "ioentry_update_stat lm e x env = (ret, x')"
  shows "held x' = held x" "mmaped x' = mmaped x" "mmaped_len x' = mmaped_len x"
  using assms by (auto simp: ioentry_update_stat_def Let_def split: sum.splits if_splits)

lemma update_mmap_balance:
  assumes "ioentry_update_mmap lm e x fd env = (ret, x', fd', env')"
  shows "held x \<subseteq># maps env \<Longrightarrow> maps env' + held x = maps env + held x'" "kernel env' = kernel env" "fd = None \<Longrightarrow> fds env' = fds env"
proof -
  let ?d = "case fd of None \<Rightarrow> - 1 | Some d \<Rightarrow> d"
  let ?P = "(held x \<subseteq># maps env \<longrightarrow> maps env' + held x = maps env + held x') \<and> kernel env' = kernel env \<and> (fd = None \<longrightarrow> fds env' = fds env)"
  have err: ?P if "mmap_error r y fd ?d env = (ret, x', fd', env')" "held y = held x" for r y
    using that by (cases fd) (auto simp: mmap_error_def kernel_def)
  have mapped: ?P if "map_file lm x fd0 d env0 = (ret, x', fd', env')" "maps env0 = maps env" "kernel env0 = kernel env"
    "fd = None \<longrightarrow> fd0 = None \<and> (\<exists>n. d = int n \<and> fds env0 = fds env + {#int n#})" for d fd0 env0
    using map_file_balance [OF that(1)] that(2-4) by auto
  have ?P
  proof (cases "of_int (mmap_expiration x) \<ge> BOGONOW env")
    case True
    then show ?thesis using assms by (simp add: ioentry_update_mmap_def Let_def)
  next
    case nf: False
    show ?thesis
    proof (cases "S_ISREG (state x)")
      case False
      then show ?thesis using assms nf err [of ret_deny x] by (simp add: ioentry_update_mmap_def Let_def)
    next
      case reg: True
      show ?thesis
      proof (cases "?d < 0")
        case False
        have "fd \<noteq> None" using False by (cases fd) auto
        moreover have "map_file lm x fd ?d env = (ret, x', fd', env')" using assms nf reg False by (simp add: ioentry_update_mmap_def Let_def)
        ultimately show ?thesis using mapped [of fd ?d env] by simp
      next
        case neg: True
        show ?thesis
        proof (cases "sys_open env (key_cstr (ce_key e))")
          case (Inl c)
          then show ?thesis using assms nf reg neg by (auto simp: ioentry_update_mmap_def Let_def mmap_error_def kernel_def close_local_def)
        next
          case (Inr n)
          let ?env = "env\<lparr>fds := fds env + {#int n#}\<rparr>"
          have "map_file lm x (map_option (\<lambda>_. int n) fd) (int n) ?env = (ret, x', fd', env')"
            using assms nf reg neg Inr by (simp add: ioentry_update_mmap_def Let_def)
          then show ?thesis by (rule mapped) (simp_all add: kernel_def)
        qed
      qed
    qed
  qed
  then show "held x \<subseteq># maps env \<Longrightarrow> maps env' + held x = maps env + held x'" "kernel env' = kernel env" "fd = None \<Longrightarrow> fds env' = fds env" by auto
qed

lemma entry_update_balance:
  assumes "entry_update_fd lm e what fd env = (ret, x', fd', env')"
  shows "held (ce_obj e) \<subseteq># maps env \<Longrightarrow> maps env' + held (ce_obj e) = maps env + held x'" "kernel env' = kernel env" "fd = None \<Longrightarrow> fds env' = fds env"
proof -
  define y where "y = (if what AND iocache_stat \<noteq> 0 then snd (ioentry_update_stat lm e (ce_obj e) env) else ce_obj e)"
  obtain r z where z: "ioentry_update_stat lm e y env = (r, z)" by (cases "ioentry_update_stat lm e y env") auto
  obtain r0 y0 where y0: "ioentry_update_stat lm e (ce_obj e) env = (r0, y0)" by (cases "ioentry_update_stat lm e (ce_obj e) env") auto
  have hy: "held y = held (ce_obj e)" using update_stat_other(1) [OF y0] y0 by (simp add: y_def)
  have hz: "held z = held (ce_obj e)" using update_stat_other(1) [OF z] hy by simp
  have "(held x' = held (ce_obj e) \<and> env' = env) \<or> ioentry_update_mmap lm e z fd env = (ret, x', fd', env')"
    using assms z hy hz unfolding entry_update_fd_def Let_def y_def [symmetric] by (simp split: if_splits)
  then show "held (ce_obj e) \<subseteq># maps env \<Longrightarrow> maps env' + held (ce_obj e) = maps env + held x'" "kernel env' = kernel env" "fd = None \<Longrightarrow> fds env' = fds env"
    using update_mmap_balance [of lm e z fd env ret x' fd' env'] hz by auto
qed

text \<open>The class owns mappings, keeps no descriptors, and does not change the rest of the world.\<close>

lemma fetch_update:
  "fetch_info_cb lm e env = (r, x, env') \<Longrightarrow> \<exists>ret fd'. entry_update_fd lm e (iocache_stat OR iocache_mmap) None env = (ret, x, fd', env')"
  by (auto simp: fetch_info_cb_def split: prod.splits)

lemma clean_held:
  assumes "clean_info_cb e env = (r, x, env')"
  shows "held (ce_obj e) \<subseteq># maps env \<Longrightarrow> held x = {#} \<and> maps env' + held (ce_obj e) = maps env" "fds env' = fds env" "kernel env' = kernel env"
  using assms munmap_held [of "ce_obj e" env]
  by (auto simp: clean_info_cb_def Let_def held_def kernel_def split: if_splits map_ptr.splits)

lemma new_held: "held (iocache_entry_new_cb st) = {#}"
  by (simp add: iocache_entry_new_cb_def held_def)

interpretation io_maps: owning_class "iocache_class st lm" held maps for st lm
proof
  fix e env r x env' f
  show "held (new_obj (iocache_class st lm)) = {#}" by (simp add: iocache_class_def new_held)
  show "held x = {#} \<and> maps env' + held (ce_obj e) = maps env"
    if "clean_cb (iocache_class st lm) e env = (r, x, env')" "held (ce_obj e) \<subseteq># maps env"
    using clean_held(1) [of e env r x env'] that by (simp add: iocache_class_def)
  show "maps env' + held (ce_obj e) = maps env + held x"
    if "fetch_cb (iocache_class st lm) = Some f" "f e env = (r, x, env')" "held (ce_obj e) \<subseteq># maps env"
    using that fetch_update [of lm e env r x env'] entry_update_balance(1) by (auto simp: iocache_class_def)
  show "maps (free_cb (iocache_class st lm) e env) = maps env" by (simp add: iocache_class_def)
qed


interpretation io_fds: owning_class "iocache_class st lm" "\<lambda>_. {#}" fds for st lm
proof
  fix e :: "io_obj cache_entry" and env r x env' f
  show "{#} = {#} \<and> fds env' + {#} = fds env" if "clean_cb (iocache_class st lm) e env = (r, x, env')"
    using clean_held(2) [of e env r x env'] that by (simp add: iocache_class_def)
  show "fds env' + {#} = fds env + {#}" if "fetch_cb (iocache_class st lm) = Some f" "f e env = (r, x, env')"
    using that fetch_update [of lm e env r x env'] entry_update_balance(3) by (auto simp: iocache_class_def)
  show "fds (free_cb (iocache_class st lm) e env) = fds env" by (simp add: iocache_class_def)
qed simp

interpretation io_kernel: owning_class "iocache_class st lm" "\<lambda>_. {#}" "\<lambda>env. {#kernel env#}" for st lm
proof
  fix e :: "io_obj cache_entry" and env r x env' f
  show "{#} = {#} \<and> {#kernel env'#} + {#} = {#kernel env#}" if "clean_cb (iocache_class st lm) e env = (r, x, env')"
    using clean_held(3) [of e env r x env'] that by (simp add: iocache_class_def)
  show "{#kernel env'#} + {#} = {#kernel env#} + {#}" if "fetch_cb (iocache_class st lm) = Some f" "f e env = (r, x, env')"
    using that fetch_update [of lm e env r x env'] entry_update_balance(2) by (auto simp: iocache_class_def)
  show "{#kernel (free_cb (iocache_class st lm) e env)#} = {#kernel env#}" by (simp add: iocache_class_def)
qed simp


subsection \<open>Histories\<close>

text \<open>The steps are look-ups, repeated look-ups with the entry at hand, releases, and whatever happens to the clock and the files outside.\<close>

inductive io_run :: "(addr \<times> nat) multiset \<Rightarrow> int multiset \<Rightarrow> iocache \<Rightarrow> (lptr \<Rightarrow> nat) \<Rightarrow> bool" for X Y where
  start: "raw_cache (io_base io) \<Longrightarrow> maps (c_env (io_base io)) = X \<Longrightarrow> fds (c_env (io_base io)) = Y \<Longrightarrow>
    http2d_iocache_init True io = Some (r, io1) \<Longrightarrow> http2d_iocache_configure io1 conf = Some (r', io2) \<Longrightarrow>
    0 < max_size (io_base io2) \<Longrightarrow> max_size (io_base io2) < 2 ^ 31 \<Longrightarrow> io_run X Y io2 (\<lambda>_. 0)"
| look_up: "io_run X Y io R \<Longrightarrow> text_key file \<Longrightarrow> free_addrs (io_base io) a x \<Longrightarrow> card (dom (c_entries (io_base io))) < 2 ^ 32 \<Longrightarrow>
    http2d_iocache_autoget (total_heap f) st io file what None (Some a) (Some x) = Some (ret, Some b, io') \<Longrightarrow> io_run X Y io' (R(b := R b + 1))"
| again: "io_run X Y io R \<Longrightarrow> R b > 0 \<Longrightarrow> http2d_iocache_autoget h st io file what (Some b) new node = Some (ret, e, io') \<Longrightarrow> io_run X Y io' R"
| release: "io_run X Y io R \<Longrightarrow> R b > 0 \<Longrightarrow> card (dom (c_entries (io_base io))) < 2 ^ 32 \<Longrightarrow>
    http2d_iocache_entry_unref st io (Some b) = Some (ret, io') \<Longrightarrow> io_run X Y io' (R(b := R b - 1))"
| world: "io_run X Y io R \<Longrightarrow> maps env = maps (c_env (io_base io)) \<Longrightarrow> fds env = fds (c_env (io_base io)) \<Longrightarrow>
    io_run X Y (io\<lparr>io_base := (io_base io)\<lparr>c_env := env\<rparr>\<rparr>) R"

lemma update_at_cases:
  assumes "update_at io a what fd = Some (ret, fd', io')"
  shows "\<exists>e x env. c_entries (io_base io) a = Some e \<and> entry_update_fd (io_lim io) e what fd (c_env (io_base io)) = (ret, x, fd', env) \<and>
    io' = io\<lparr>io_base := (io_base io)\<lparr>c_env := env, c_entries := (c_entries (io_base io))(a \<mapsto> e\<lparr>ce_obj := x\<rparr>)\<rparr>\<rparr>"
proof -
  obtain e where e: "c_entries (io_base io) a = Some e" using assms by (auto simp: update_at_def bind_eq_Some_conv)
  obtain r x d env where "entry_update_fd (io_lim io) e what fd (c_env (io_base io)) = (r, x, d, env)" by (metis prod_cases4)
  then show ?thesis using assms e by (auto simp: update_at_def set_entry_def)
qed

lemma cache_ok_obj:
  assumes "cache_ok c L R" "c_entries c a = Some e"
  shows "cache_ok (c\<lparr>c_env := env, c_entries := (c_entries c)(a \<mapsto> e\<lparr>ce_obj := x\<rparr>)\<rparr>) L R"
proof -
  let ?c = "c\<lparr>c_env := env, c_entries := (c_entries c)(a \<mapsto> e\<lparr>ce_obj := x\<rparr>)\<rparr>"
  have "keeps c ?c" using assms(2) by (simp add: keeps_def)
  moreover have "lists_ok ?c L" using assms set_entry_obj [of c L a env x] by (auto simp: cache_ok_def set_entry_def)
  ultimately show ?thesis using keeps_cache_ok assms(1) by metis
qed

lemma update_at_keeps:
  assumes "update_at io a what fd = Some (ret, fd', io')" "cache_ok (io_base io) L R"
  shows "cache_ok (io_base io') L R" "max_size (io_base io') = max_size (io_base io)" "io_lim io' = io_lim io"
    "io_maps.balance (io_base io) X \<Longrightarrow> io_maps.balance (io_base io') X" "fd = None \<Longrightarrow> io_fds.balance (io_base io) Y \<Longrightarrow> io_fds.balance (io_base io') Y"
proof -
  obtain e x env where u: "c_entries (io_base io) a = Some e" "entry_update_fd (io_lim io) e what fd (c_env (io_base io)) = (ret, x, fd', env)"
    "io' = io\<lparr>io_base := (io_base io)\<lparr>c_env := env, c_entries := (c_entries (io_base io))(a \<mapsto> e\<lparr>ce_obj := x\<rparr>)\<rparr>\<rparr>"
    using update_at_cases [OF assms(1)] by blast
  show "cache_ok (io_base io') L R" "max_size (io_base io') = max_size (io_base io)" "io_lim io' = io_lim io"
    using cache_ok_obj [OF assms(2) u(1)] u(3) by simp_all
  note b = entry_update_balance [OF u(2)]
  have "io_maps.steady (io_base io) (io_base io')" by (rule io_maps.steady_upd [OF u(1), of _ "e\<lparr>ce_obj := x\<rparr>"]) (use u(3) b(1) in auto)
  then show "io_maps.balance (io_base io) X \<Longrightarrow> io_maps.balance (io_base io') X" by (simp add: io_maps.steady_def)
  have "fd = None \<Longrightarrow> io_fds.steady (io_base io) (io_base io')" by (rule io_fds.steady_upd [OF u(1), of _ "e\<lparr>ce_obj := x\<rparr>"]) (use u(3) b(3) in auto)
  then show "fd = None \<Longrightarrow> io_fds.balance (io_base io) Y \<Longrightarrow> io_fds.balance (io_base io') Y" by (simp add: io_fds.steady_def)
qed

lemma number_for_name: "number_for n names = Some (Some (f, r, v)) \<Longrightarrow> \<exists>s. (s, f) \<in> set names"
proof (induction names)
  case (Cons p names)
  obtain s g where p: "p = (s, g)" by (cases p)
  then obtain k where "http2d_buffer_case_cmp (cn_key n) (lit s @ [0]) (length s) = Some k" using Cons.prems by (auto simp: bind_eq_Some_conv)
  then show ?case using Cons p by (cases "k = 0") (auto simp: bind_eq_Some_conv)
qed simp

lemma set_numbers_step:
  assumes "set_numbers (n # ns) names s = Some (ret, s')"
  shows "set_numbers ns names s = Some (ret, s') \<or> s' = s \<or> (\<exists>t f v. (t, f) \<in> set names \<and> set_numbers ns names (f v s) = Some (ret, s'))"
proof -
  obtain k where k: "number_for n names = Some k" using assms by (auto simp: bind_eq_Some_conv)
  show ?thesis
  proof (cases k)
    case None
    then show ?thesis using assms k by simp
  next
    case (Some p)
    obtain f r v where p: "p = (f, r, v)" by (metis prod_cases3)
    obtain t where "(t, f) \<in> set names" using number_for_name [of n names f r v] k Some p by auto
    then show ?thesis using assms k Some p by (cases "r = ret_ok") (auto simp: bind_eq_Some_conv)
  qed
qed

lemma set_max_size: "set_numbers ns [(name, \<lambda>v c. c\<lparr>max_size := v\<rparr>)] c = Some (ret, c') \<Longrightarrow> \<exists>n. c' = c\<lparr>max_size := n\<rparr>"
proof (induction ns arbitrary: c)
  case (Cons n ns)
  from set_numbers_step [OF Cons.prems] consider "set_numbers ns [(name, \<lambda>v c. c\<lparr>max_size := v\<rparr>)] c = Some (ret, c')" | "c' = c"
    | k where "set_numbers ns [(name, \<lambda>v c. c\<lparr>max_size := v\<rparr>)] (c\<lparr>max_size := k\<rparr>) = Some (ret, c')" by auto
  then show ?case
  proof cases
    case 2
    then show ?thesis by (intro exI [of _ "max_size c"]) simp
  qed (use Cons.IH in fastforce)+
next
  case Nil
  then show ?case by (intro exI [of _ "max_size c"]) simp
qed

lemma configure_base:
  assumes "http2d_iocache_configure io conf = Some (ret, io')"
  shows "\<exists>n. io_base io' = (io_base io)\<lparr>max_size := n\<rparr>"
proof -
  obtain r c where c: "http2d_cache_configure (io_base io) conf = Some (r, c)" using assms by (auto simp: http2d_iocache_configure_def bind_eq_Some_conv)
  then obtain r1 c1 where c1: "set_numbers (cn_child conf) [(''max_size'', \<lambda>v c. c\<lparr>max_size := v\<rparr>)] (io_base io) = Some (r1, c1)"
    "c = c1 \<or> (\<exists>n. c = c1\<lparr>max_size := n\<rparr>)" by (auto simp: http2d_cache_configure_def bind_eq_Some_conv split: if_splits)
  from set_max_size [OF c1(1)] c1(2) have "\<exists>n. c = (io_base io)\<lparr>max_size := n\<rparr>" by auto
  moreover have "io_base io' = c" using assms c by (auto simp: http2d_iocache_configure_def bind_eq_Some_conv split: if_splits)
  ultimately show ?thesis by simp
qed


lemma autoget_new_cases:
  assumes "http2d_iocache_autoget h st io file what None new node = Some (ret, Some b, io')"
  shows "\<exists>r c fd. http2d_cache_get h (iocache_class st (io_lim io)) (io_base io) file new node = Some (r, Some b, c) \<and>
    update_at (io\<lparr>io_base := c\<rparr>) b what None = Some (ret, fd, io')"
proof -
  obtain r v c where g: "http2d_cache_get h (iocache_class st (io_lim io)) (io_base io) file new node = Some (r, v, c)"
    using assms by (auto simp: http2d_iocache_autoget_def iocache_get_def bind_eq_Some_conv)
  show ?thesis using assms g by (auto simp: http2d_iocache_autoget_def iocache_get_def bind_eq_Some_conv split: if_splits)
qed

lemma autoget_again_cases:
  assumes "http2d_iocache_autoget h st io file what (Some b) new node = Some (ret, e, io')"
  shows "\<exists>fd. update_at io b what None = Some (ret, fd, io')"
  using assms by (auto simp: http2d_iocache_autoget_def bind_eq_Some_conv)

lemma io_run_inv:
  "io_run X Y io R \<Longrightarrow> (\<exists>L. cache_ok (io_base io) L R) \<and> 0 < max_size (io_base io) \<and> max_size (io_base io) < 2 ^ 31 \<and>
    io_maps.balance (io_base io) X \<and> io_fds.balance (io_base io) Y"
proof (induction rule: io_run.induct)
  case (start io r io1 r' conf io2)
  obtain r0 c where c: "http2d_cache_init True (io_base io) = Some (r0, c)" "io_base io1 = c"
    using start(4) by (auto simp: http2d_iocache_init_def bind_eq_Some_conv split: if_splits)
  obtain n where n: "io_base io2 = c\<lparr>max_size := n\<rparr>" using configure_base [OF start(5)] c(2) by blast
  from cache_init_ok [OF start(1), of n] c(1) have ok: "cache_ok (io_base io2) (\<lambda>_. []) (\<lambda>_. 0)" using n by auto
  have ce: "c_entries (io_base io) = (\<lambda>_. None)" using start(1) by (simp add: raw_cache_def)
  have "io_maps.balance c X" "io_fds.balance c Y" using io_maps.cache_init_balance [OF c(1) ce start(2)] io_fds.cache_init_balance [OF c(1) ce start(3)] .
  then have "io_maps.balance (io_base io2) X" "io_fds.balance (io_base io2) Y"
    using n by (simp_all add: io_maps.balance_def io_fds.balance_def io_maps.owned_def io_fds.owned_def)
  then show ?case using ok start(6,7) by blast
next
  case (look_up io R name a x f st what ret b io')
  then obtain L where L: "cache_ok (io_base io) L R" "0 < max_size (io_base io)" "max_size (io_base io) < 2 ^ 31"
    "io_maps.balance (io_base io) X" "io_fds.balance (io_base io) Y" by blast
  obtain r c fd where g: "http2d_cache_get (total_heap f) (iocache_class st (io_lim io)) (io_base io) name (Some a) (Some x) = Some (r, Some b, c)"
    "update_at (io\<lparr>io_base := c\<rparr>) b what None = Some (ret, fd, io')" using autoget_new_cases [OF look_up(5)] by blast
  have "0 \<le> max_size (io_base io)" using L(2) by simp
  from get_cases [OF L(1) look_up(2-4) this L(3) g(1)] obtain L' where L': "cache_ok c L' (R(b := R b + 1))" "max_size c = max_size (io_base io)"
    by (auto simp: same_config_def)
  have n: "Some a = Some a' \<Longrightarrow> c_entries (io_base io) a' = None" for a' using look_up(3) by (auto simp: free_addrs_def)
  have b: "io_maps.balance c X" "io_fds.balance c Y"
    using io_maps.cache_get_balance [OF g(1) n L(4)] io_fds.cache_get_balance [OF g(1) n L(5)] by blast+
  have ok: "cache_ok (io_base (io\<lparr>io_base := c\<rparr>)) L' (R(b := R b + 1))" using L'(1) by simp
  note k = update_at_keeps [OF g(2) ok]
  have "io_maps.balance (io_base io') X" "io_fds.balance (io_base io') Y" using k(4) [of X] k(5) [of Y] b by simp_all
  moreover have "max_size (io_base io') = max_size (io_base io)" using k(2) L'(2) by simp
  moreover have "\<exists>L. cache_ok (io_base io') L (R(b := R b + 1))" using k(1) by blast
  ultimately show ?case using L(2,3) by metis
next
  case (again io R b h st name what new node ret e io')
  then obtain L where L: "cache_ok (io_base io) L R" by blast
  obtain fd where u: "update_at io b what None = Some (ret, fd, io')" using autoget_again_cases [OF again(3)] by blast
  note k = update_at_keeps [OF u L]
  show ?case using k(1,2) k(4) [of X] k(5) [of Y] again by auto
next
  case (release io R b st ret io')
  then obtain L where L: "cache_ok (io_base io) L R" "0 < max_size (io_base io)" "max_size (io_base io) < 2 ^ 31"
    "io_maps.balance (io_base io) X" "io_fds.balance (io_base io) Y" by blast
  obtain c where c: "http2d_cache_entry_unref (iocache_class st (io_lim io)) (io_base io) (Some b) = Some (ret, c)" "io' = io\<lparr>io_base := c\<rparr>"
    using release(4) by (auto simp: http2d_iocache_entry_unref_def bind_eq_Some_conv)
  from cache_unref_ok [where a = b, OF L(1) release(2,3), of "iocache_class st (io_lim io)"] c(1)
  have ok: "cache_ok c L (R(b := R b - 1))" "max_size c = max_size (io_base io)" by (auto simp: frame_def)
  have "\<exists>L. cache_ok c L (R(b := R b - 1))" using ok(1) by blast
  moreover have "max_size c = max_size (io_base io)" "io_base io' = c" using ok(2) c(2) by simp_all
  ultimately show ?case using io_maps.cache_unref_balance [OF c(1) L(4)] io_fds.cache_unref_balance [OF c(1) L(5)] L(2,3) by metis
next
  case (world io R env)
  then obtain L where L: "cache_ok (io_base io) L R" by blast
  let ?c = "(io_base io)\<lparr>c_env := env\<rparr>"
  have "keeps (io_base io) ?c" "lists_ok ?c L" using L by (simp_all add: keeps_def cache_ok_def lists_ok_def)
  then have "cache_ok ?c L R" using keeps_cache_ok L by metis
  then show ?case using world by (auto simp: io_maps.balance_def io_fds.balance_def io_maps.owned_def io_fds.owned_def)
qed


subsection \<open>New entries\<close>

lemma set_entry_entry: "set_entry c a f = Some c' \<Longrightarrow> c_entries c a = Some e \<Longrightarrow> c_entries c' a = Some (f e)"
  by (auto simp: set_entry_def)

lemma cache_get_new_obj:
  assumes "http2d_cache_get h cls c key (Some a) node = Some (r, v, c')" "http2d_avl_get (c_map c) (c_nodes c) key = Some (ret_not_found, w)"
  shows "\<exists>e. c_entries c' a = Some e \<and> ce_obj e = new_obj cls"
proof -
  obtain r1 c1 r2 c2 t n c3 where c: "http2d_cache_entry_init h (new_obj cls) c1 a key = Some (r2, c2)"
    "entry_ref (c2\<lparr>c_map := t, c_nodes := n\<rparr>) a = Some c3" "add_list c3 a = Some (r, v, c')"
    using assms by (auto simp: http2d_cache_get_def Let_def bind_eq_Some_conv)
  obtain e2 where e2: "c_entries c2 a = Some e2" "ce_obj e2 = new_obj cls" using c(1) by (auto simp: http2d_cache_entry_init_def bind_eq_Some_conv)
  have e3: "c_entries c3 a = Some (e2\<lparr>ref_count := ref_count e2 + 1\<rparr>)" using c(2) e2(1) set_entry_entry [of _ a _ c3 e2] by (auto simp: entry_ref_def)
  obtain c4 where c4: "cache_list_add T1 a c3 = Some c4" "entry_ref c4 a = Some c'" using c(3) by (auto simp: add_list_def bind_eq_Some_conv)
  then obtain m where "set_entry (c3\<lparr>c_links := m, c_len := (c_len c3)(T1 := c_len c3 T1 + 1)\<rparr>) a (\<lambda>e. e\<lparr>in_list := list_tag T1\<rparr>) = Some c4"
    by (auto simp: cache_list_add_def bind_eq_Some_conv)
  from set_entry_entry [OF this] e3 have "\<exists>e. c_entries c4 a = Some e \<and> ce_obj e = new_obj cls" using e2(2) by simp
  then show ?thesis using c4(2) set_entry_entry [of c4 a _ c'] by (auto simp: entry_ref_def)
qed

text \<open>What the first look-up of a file finds.\<close>

definition file_answer :: "io_limits \<Rightarrow> io_env \<Rightarrow> byte list \<Rightarrow> ret_t \<times> map_ptr" where
  "file_answer lm env name =
     (case sys_stat env (Some name) of
        Inl err \<Rightarrow> (ret_deny, NULL_PTR)
      | Inr s \<Rightarrow>
          if st_size s < int (min_file_size lm) \<or> st_size s > int (max_file_size lm) then (ret_no_sys, NULL_PTR)
          else if \<not> S_ISREG s then (ret_deny, NULL_PTR)
          else (case sys_open env (Some name) of
             Inl err \<Rightarrow> (errno_ret err, NULL_PTR)
           | Inr d \<Rightarrow>
               (case sys_mmap env (nat (st_size s mod 2 ^ 64)) (int d) of
                  Inl err \<Rightarrow> (if err \<in> {E_io EAGAIN, ENOMEM, ENFILE} then ret_eagain else ret_not_found, MAP_FAILED)
                | Inr p \<Rightarrow> (ret_ok, Mapped p))))"

lemma info_bits: "(iocache_stat OR iocache_mmap) AND iocache_stat \<noteq> 0" "(iocache_stat OR iocache_mmap) AND iocache_mmap \<noteq> 0"
  by (simp_all add: iocache_stat_def iocache_mmap_def)

lemma errno_ret_code: "ret_code (errno_ret err) \<noteq> ret_code ret_ok" "errno_ret err \<noteq> ret_ok"
  by (simp_all add: errno_ret_def split: file_errno.split)

lemma text_key_cstr: "text_key b \<Longrightarrow> key_cstr b = Some (buf_str b)"
proof -
  assume "text_key b"
  then have v: "buf_rep b (buf_str b)" "0 \<notin> set (buf_str b)" "buf_str b \<noteq> []" by (simp_all add: text_key_def valid_key_def)
  obtain m xs where "buf b = Some m" "drop 0 m = buf_str b @ 0 # xs" using buf_rep_drop0 [OF v(1,3)] by blast
  then show ?thesis using cstr_drop0 [of 0 m "buf_str b" xs] v(2) by (simp add: key_cstr_def)
qed

lemma text_key_cmp: "text_key a \<Longrightarrow> text_key b \<Longrightarrow> \<exists>i. http2d_buffer_cmp_buf a b = Some i"
  using cmp_by_zero [of a "buf_str a" b "buf_str b" "\<lambda>c. c"] by (auto simp: text_key_def valid_key_def http2d_buffer_cmp_buf_def)

text \<open>The two updates of the state: the second finds it fresh, or does the same again.\<close>

lemma update_stat_twice:
  assumes "of_int (stat_expiration x) < BOGONOW env" "ioentry_update_stat lm e x env = (r1, x1)" "ioentry_update_stat lm e x1 env = (r2, x2)"
  shows "case sys_stat env (key_cstr (ce_key e)) of
      Inl err \<Rightarrow> r2 = ret_deny \<and> state x2 = state x
    | Inr s \<Rightarrow> (r2 = ret_ok \<or> r2 = ret_ok_and_sent) \<and> state x2 = s"
    "mmaped x2 = mmaped x" "mmap_expiration x2 = mmap_expiration x"
  using assms errno_ret_code by (auto simp: ioentry_update_stat_def Let_def split: sum.splits if_splits)

lemma first_update:
  assumes "0 < BOGONOW env" "ce_obj e = iocache_entry_new_cb st" "key_cstr (ce_key e) = Some name"
  shows "\<exists>x env'. entry_update_fd lm e (iocache_stat OR iocache_mmap) None env = (fst (file_answer lm env name), x, None, env') \<and>
    mmaped x = snd (file_answer lm env name) \<and> (\<forall>s. sys_stat env (Some name) = Inr s \<longrightarrow> state x = s) \<and>
    (\<forall>p. mmaped x = Mapped p \<longrightarrow> mmaped_len x = nat (st_size (state x) mod 2 ^ 64))"
proof -
  let ?x = "ce_obj e"
  have x: "info ?x = iocache_nothing" "of_int (stat_expiration ?x) < BOGONOW env" "\<not> BOGONOW env \<le> of_int (mmap_expiration ?x)" "mmaped ?x = NULL_PTR"
    using assms(1,2) by (simp_all add: iocache_entry_new_cb_def iocache_nothing_def)
  obtain r1 x1 where x1: "ioentry_update_stat lm e ?x env = (r1, x1)" by (cases "ioentry_update_stat lm e ?x env") auto
  obtain r2 x2 where x2: "ioentry_update_stat lm e x1 env = (r2, x2)" by (cases "ioentry_update_stat lm e x1 env") auto
  note tw = update_stat_twice [OF x(2) x1 x2, unfolded assms(3)]
  have u: "entry_update_fd lm e (iocache_stat OR iocache_mmap) None env =
      (if r2 \<noteq> ret_ok \<and> r2 \<noteq> ret_ok_and_sent then (ret_deny, x2, None, env)
       else if st_size (state x2) < int (min_file_size lm) \<or> st_size (state x2) > int (max_file_size lm) then (ret_no_sys, x2, None, env)
       else ioentry_update_mmap lm e x2 None env)"
    using x(1) x1 x2 info_bits by (simp add: entry_update_fd_def Let_def)
  have m: "mmaped x2 = NULL_PTR" "\<not> BOGONOW env \<le> of_int (mmap_expiration x2)" using tw(2,3) x(3,4) by simp_all
  show ?thesis
  proof (cases "sys_stat env (Some name)")
    case (Inl err)
    then show ?thesis using tw(1) u m(1) by (simp add: file_answer_def)
  next
    case (Inr s)
    then have r: "r2 = ret_ok \<or> r2 = ret_ok_and_sent" "state x2 = s" using tw(1) by simp_all
    show ?thesis
    proof (cases "st_size s < int (min_file_size lm) \<or> st_size s > int (max_file_size lm)")
      case True
      then show ?thesis using u r m(1) Inr by (auto simp: file_answer_def)
    next
      case False
      then have v: "entry_update_fd lm e (iocache_stat OR iocache_mmap) None env = ioentry_update_mmap lm e x2 None env" using u r by auto
      show ?thesis
      proof (cases "S_ISREG s")
        case reg: True
        show ?thesis
        proof (cases "sys_open env (Some name)")
          case (Inl err)
          then show ?thesis unfolding v using False reg r(2) m Inr assms(3)
            by (auto simp: ioentry_update_mmap_def file_answer_def mmap_error_def Let_def)
        next
          case o: (Inr d)
          then show ?thesis unfolding v using False reg r(2) m Inr assms(3)
            by (cases "sys_mmap env (nat (st_size s mod 2 ^ 64)) (int d)")
              (auto simp: ioentry_update_mmap_def file_answer_def mmap_error_def map_file_def munmap_def Let_def)
        qed
      next
        case not_reg: False
        then show ?thesis unfolding v using False r(2) m Inr by (auto simp: ioentry_update_mmap_def file_answer_def mmap_error_def Let_def)
      qed
    qed
  qed
qed

text \<open>Freeing the entries.\<close>

lemma free_values_ok:
  "distinct as \<Longrightarrow> set as \<subseteq> dom (c_entries c) \<Longrightarrow>
   \<exists>c'. free_values (iocache_class st lm) (map Some as) c = Some c' \<and> c_env c' = c_env c \<and> c_entries c' = (c_entries c) |` (- set as)"
proof (induction as arbitrary: c)
  case (Cons a as)
  obtain e where e: "c_entries c a = Some e" using Cons.prems(2) by auto
  let ?c = "c\<lparr>c_entries := (c_entries c)(a := None), c_links := (c_links c)(a := None)\<rparr>"
  have f: "entry_free (iocache_class st lm) c a = Some ?c" using e by (simp add: entry_free_def iocache_class_def)
  have "set as \<subseteq> dom (c_entries ?c)" "distinct as" using Cons.prems by auto
  from Cons.IH [OF this(2,1)] obtain c' where c': "free_values (iocache_class st lm) (map Some as) ?c = Some c'" "c_env c' = c_env ?c"
    "c_entries c' = (c_entries ?c) |` (- set as)" by blast
  have "(c_entries ?c) |` (- set as) = (c_entries c) |` (- set (a # as))" by (simp add: restrict_map_def fun_eq_iff)
  then show ?case using f c' by (intro exI [of _ c']) simp
qed (simp add: restrict_map_def)

lemma indexed_values:
  assumes "trees.indexed (A, m) K"
  shows "\<exists>as m'. http2d_avl_mrproper A m = Some (ret_ok, map Some as, m') \<and> distinct as \<and> set as = dom K"
proof -
  obtain D where D: "tree_dict (A, m) (card (dom K)) D" "\<forall>s a. D s = Some a \<longleftrightarrow> K a = Some s" using assms by (auto simp: trees.indexed_def)
  then obtain S where "avl_dict A m S (\<lambda>s. map_option Some (D s))" by (auto simp: tree_dict_def)
  then obtain t where t: "search_tree (key_ord (case_insensitive A)) valid_key A m t"
    "\<forall>k. map_option Some (D k) = dict_of (key_ord (case_insensitive A)) m t (length k, k)" by (auto simp: avl_dict_def)
  let ?ord = "\<lambda>p. key_ord (case_insensitive A) (key_at m p)"
  let ?al = "map (\<lambda>p. (?ord p, val_at m p)) (inorder t)"
  have so: "sorted_wrt (<) (map ?ord (inorder t))" "rep m None t None" "avl_root A = root_of t" using t(1) by (simp_all add: search_tree_def)
  then have d: "distinct (map ?ord (inorder t))" using strict_sorted_iff by blast
  have di: "distinct (inorder t)" using d by (simp add: distinct_map)
  have v: "\<exists>a s. val_at m p = Some a \<and> K a = Some s \<and> ?ord p = (length s, s)" if "p \<in> set (inorder t)" for p
  proof -
    obtain s where s: "?ord p = (length s, s)" by (simp add: key_ord_def)
    have "map_of ?al (?ord p) = Some (val_at m p)" using d that by (intro map_of_is_SomeI) (auto simp: comp_def)
    then have "map_option Some (D s) = Some (val_at m p)" using t(2) s by (simp add: dict_of_def)
    then obtain a where "D s = Some a" "val_at m p = Some a" by (cases "D s") auto
    then show ?thesis using D(2) s by blast
  qed
  define as where "as = map (\<lambda>p. the (val_at m p)) (inorder t)"
  have vs: "map (val_at m) (inorder t) = map Some as" unfolding as_def map_map comp_def using v by (intro map_cong) fastforce+
  have inj: "inj_on (\<lambda>p. the (val_at m p)) (set (inorder t))"
  proof (rule inj_onI)
    fix p q
    assume "p \<in> set (inorder t)" "q \<in> set (inorder t)" "the (val_at m p) = the (val_at m q)"
    then have "?ord p = ?ord q" using v [of p] v [of q] by auto
    then show "p = q" using d \<open>p \<in> set (inorder t)\<close> \<open>q \<in> set (inorder t)\<close> by (auto simp: distinct_map dest: inj_onD)
  qed
  have "set as = dom K"
  proof (intro set_eqI iffI)
    show "a \<in> dom K" if a: "a \<in> set as" for a
    proof -
      obtain p where "p \<in> set (inorder t)" "a = the (val_at m p)" using a by (auto simp: as_def)
      then show ?thesis using v [of p] by auto
    qed
    fix a
    assume "a \<in> dom K"
    then obtain s where "D s = Some a" using D(2) by auto
    moreover have "map_option Some (D s) = map_of ?al (length s, s)" using t(2) by (simp add: dict_of_def)
    ultimately have "((length s, s), Some a) \<in> set ?al" by (intro map_of_SomeD) simp
    then obtain p where "p \<in> set (inorder t)" "val_at m p = Some a" by auto
    then show "a \<in> set as" unfolding as_def by (metis (no_types, lifting) image_eqI list.set_map option.sel)
  qed
  moreover have "distinct as" using inj di by (simp add: as_def distinct_map)
  ultimately show ?thesis using avl_mrproper_rep [OF so(2) di so(3)] vs by auto
qed


lemma autoget_first:
  assumes "cache_ok (io_base io) L R" "text_key k" "free_addrs (io_base io) a x" "card (dom (c_entries (io_base io))) < 2 ^ 32"
    and "0 \<le> max_size (io_base io)" "max_size (io_base io) < 2 ^ 31" "\<forall>b. key_of (io_base io) b \<noteq> Some (buf_str k)"
    and "arc_room (nat (max_size (io_base io))) (target_t1 (io_base io)) L = Some (L', v)" "0 < BOGONOW (c_env (io_base io))"
  shows "\<exists>io' e. http2d_iocache_autoget (total_heap f) st io k (iocache_stat OR iocache_mmap) None (Some a) (Some x) =
      Some (fst (file_answer (io_lim io) (c_env (io_base io)) (buf_str k)), Some a, io') \<and>
    cache_ok (io_base io') (L'(T1 := a # L' T1)) (R(a := 1)) \<and> c_entries (io_base io') a = Some e \<and> buf_str (ce_key e) = buf_str k \<and>
    mmaped (ce_obj e) = snd (file_answer (io_lim io) (c_env (io_base io)) (buf_str k)) \<and>
    (\<forall>s. sys_stat (c_env (io_base io)) (Some (buf_str k)) = Inr s \<longrightarrow> state (ce_obj e) = s) \<and>
    (\<forall>p. mmaped (ce_obj e) = Mapped p \<longrightarrow> mmaped_len (ce_obj e) = nat (st_size (state (ce_obj e)) mod 2 ^ 64))"
proof -
  let ?cls = "iocache_class st (io_lim io)" and ?c = "io_base io"
  obtain c where c: "http2d_cache_get (total_heap f) ?cls ?c k (Some a) (Some x) = Some (ret_ok, Some a, c)"
    "key_of c = (forgotten R v (key_of ?c))(a \<mapsto> buf_str k)" "cache_ok c (L'(T1 := a # L' T1)) (R(a := 1))"
    using cache_get_miss [OF assms(1,2,7) _ _ _ assms(4-6), of a x f ?cls] assms(3,8) by (auto simp: free_addrs_def)
  obtain w where "http2d_avl_get (c_map ?c) (c_nodes ?c) k = Some (ret_not_found, w)"
    using avl_get_index(2) [OF _ assms(2,7)] assms(1) by (auto simp: cache_ok_def)
  from cache_get_new_obj [OF c(1) this] obtain e where e: "c_entries c a = Some e" "ce_obj e = iocache_entry_new_cb st"
    by (auto simp: iocache_class_def)
  have key: "buf_str (ce_key e) = buf_str k" using c(2) e(1) by (auto simp: key_of_def fun_eq_iff dest: spec [of _ a])
  have "text_key (ce_key e)" using c(3) e(1) by (auto simp: cache_ok_def keys_ok_def)
  then have ks: "key_cstr (ce_key e) = Some (buf_str k)" using text_key_cstr key by simp
  have "io_kernel.balance ?c {#kernel (c_env ?c)#}"
    using assms(1) keys_ok_finite by (auto simp: io_kernel.balance_def io_kernel.owned_def cache_ok_def)
  then have "io_kernel.balance c {#kernel (c_env ?c)#}" using assms(3) by (intro io_kernel.cache_get_balance [OF c(1)]) (auto simp: free_addrs_def)
  then have kn: "kernel (c_env c) = kernel (c_env ?c)" by (simp add: io_kernel.balance_def io_kernel.owned_def)
  then have q: "BOGONOW (c_env c) = BOGONOW (c_env ?c)" "sys_stat (c_env c) = sys_stat (c_env ?c)" "sys_open (c_env c) = sys_open (c_env ?c)"
    "sys_mmap (c_env c) = sys_mmap (c_env ?c)" by (simp_all add: kernel_def)
  have fa: "file_answer lm (c_env c) = file_answer lm (c_env ?c)" for lm by (intro ext) (simp only: file_answer_def q)
  have now: "0 < BOGONOW (c_env c)" using assms(9) q(1) by simp
  obtain y env where y: "entry_update_fd (io_lim io) e (iocache_stat OR iocache_mmap) None (c_env c) =
      (fst (file_answer (io_lim io) (c_env ?c) (buf_str k)), y, None, env)"
    "mmaped y = snd (file_answer (io_lim io) (c_env ?c) (buf_str k))" "\<forall>s. sys_stat (c_env ?c) (Some (buf_str k)) = Inr s \<longrightarrow> state y = s"
    "\<forall>p. mmaped y = Mapped p \<longrightarrow> mmaped_len y = nat (st_size (state y) mod 2 ^ 64)"
    using first_update [OF now e(2) ks, of "io_lim io"] fa q(2) by auto
  let ?io = "io\<lparr>io_base := c\<lparr>c_env := env, c_entries := (c_entries c)(a \<mapsto> e\<lparr>ce_obj := y\<rparr>)\<rparr>\<rparr>"
  have "update_at (io\<lparr>io_base := c\<rparr>) a (iocache_stat OR iocache_mmap) None =
      Some (fst (file_answer (io_lim io) (c_env ?c) (buf_str k)), None, ?io)" using e(1) y(1) by (simp add: update_at_def set_entry_def)
  then have "http2d_iocache_autoget (total_heap f) st io k (iocache_stat OR iocache_mmap) None (Some a) (Some x) =
      Some (fst (file_answer (io_lim io) (c_env ?c) (buf_str k)), Some a, ?io)" using c(1) by (simp add: http2d_iocache_autoget_def iocache_get_def)
  moreover have "cache_ok (io_base ?io) (L'(T1 := a # L' T1)) (R(a := 1))" using cache_ok_obj [OF c(3) e(1)] by simp
  ultimately show ?thesis using y(2-4) key by (intro exI [of _ ?io] exI [of _ "e\<lparr>ce_obj := y\<rparr>"]) simp
qed

text \<open>A kernel with one file, and a cache that has been set up there.\<close>

definition no_stat :: file_stat where "no_stat = \<lparr>S_ISREG = False, st_size = 0\<rparr>"

definition one_file :: io_env where
  "one_file = \<lparr>BOGONOW = 1000, sys_stat = (\<lambda>_. Inr \<lparr>S_ISREG = True, st_size = 100\<rparr>), sys_open = (\<lambda>_. Inr 3), sys_mmap = (\<lambda>_ _. Inr 7),
     maps = {#}, fds = {#}\<rparr>"

definition set_up :: "iocache \<Rightarrow> bool" where
  "set_up io \<longleftrightarrow> io_run {#} {#} io (\<lambda>_. 0) \<and> cache_ok (io_base io) (\<lambda>_. []) (\<lambda>_. 0) \<and> c_env (io_base io) = one_file \<and>
    io_lim io = \<lparr>max_file_size = 131072, min_file_size = 1, lasting_mmap = 300, lasting_stat = 300\<rparr> \<and> max_size (io_base io) = 40 \<and>
    target_t1 (io_base io) = 0 \<and> c_entries (io_base io) = (\<lambda>_. None) \<and> (\<forall>l. c_head (io_base io) l \<noteq> 5) \<and> c_nodes (io_base io) = (\<lambda>_. None)"

lemma set_up_run: "\<exists>io. set_up io"
proof -
  define b :: "(io_obj, io_env) cache" where "b = blank_cache\<lparr>c_env := one_file\<rparr>"
  define io :: iocache where "io = \<lparr>io_base = b, io_lim = undefined\<rparr>"
  let ?conf = "Config_Node HTTP2D_BUF_INIT HTTP2D_BUF_INIT []"
  have raw: "raw_cache b" using raw_blank by (simp add: b_def raw_cache_def)
  obtain c where c: "http2d_cache_init True b = Some (ret_ok, c)" "cache_ok (c\<lparr>max_size := 40\<rparr>) (\<lambda>_. []) (\<lambda>_. 0)" "target_t1 c = 0"
    "c_head c = c_head b" "c_nodes c = c_nodes b" "c_entries c = (\<lambda>_. None)" using cache_init_ok [OF raw, of 40] by blast
  have m: "max_size c = 40" "c_env c = one_file" using c(1) by (auto simp: http2d_cache_init_def DEFAULT_MAX_SIZE_def bind_eq_Some_conv b_def)
  then have c40: "c\<lparr>max_size := 40\<rparr> = c" by (metis cache.surjective cache.update_convs(7))
  define io1 where "io1 = io\<lparr>io_base := c, io_lim := \<lparr>max_file_size = 131072, min_file_size = 1, lasting_mmap = 300, lasting_stat = 300\<rparr>\<rparr>"
  have i: "http2d_iocache_init True io = Some (ret_ok, io1)"
    using c(1) by (simp add: http2d_iocache_init_def io_def io1_def MAX_FILE_SIZE_def MIN_FILE_SIZE_def LASTING_MMAP_def LASTING_STAT_def)
  have "round_up4 40 = Some 40" by (simp add: round_up4.simps)
  then have f: "http2d_iocache_configure io1 ?conf = Some (ret_ok, io1)"
    using m c40 by (simp add: http2d_iocache_configure_def http2d_cache_configure_def io1_def)
  have "io_run {#} {#} io1 (\<lambda>_. 0)" by (rule io_run.start [OF _ _ _ i f]) (use raw m in \<open>simp_all add: io_def io1_def b_def one_file_def\<close>)
  moreover have "c_head c l \<noteq> 5" "c_nodes c = (\<lambda>_. None)" for l using c(4,5) by (simp_all add: b_def blank_cache_def split: list_name.split)
  ultimately show ?thesis using c m c40 by (intro exI [of _ io1]) (simp add: io1_def set_up_def)
qed

lemma set_up_facts:
  assumes "set_up io"
  shows "io_run {#} {#} io (\<lambda>_. 0)" "cache_ok (io_base io) (\<lambda>_. []) (\<lambda>_. 0)" "text_key (name_key 5)" "free_addrs (io_base io) 5 5"
    "card (dom (c_entries (io_base io))) < 2 ^ 32" "0 \<le> max_size (io_base io)" "max_size (io_base io) < 2 ^ 31"
    "\<forall>b. key_of (io_base io) b \<noteq> Some (buf_str (name_key 5))"
    "arc_room (nat (max_size (io_base io))) (target_t1 (io_base io)) (\<lambda>_. []) = Some (\<lambda>_. [], None)" "0 < BOGONOW (c_env (io_base io))"
    "file_answer (io_lim io) (c_env (io_base io)) s = (ret_ok, Mapped 7)" "c_env (io_base io) = one_file"
  using assms name_key [of 5] unfolding set_up_def
  by (auto simp: free_addrs_def key_of_def arc_room_def one_file_def file_answer_def)

lemma one_run:
  "\<exists>io e. io_run {#} {#} io ((\<lambda>_. 0)(5 := 1)) \<and> dom (c_entries (io_base io)) = {5} \<and> c_entries (io_base io) 5 = Some e \<and>
    held (ce_obj e) = {#(7, 100)#}"
proof -
  obtain io where "set_up io" using set_up_run by blast
  note f = set_up_facts [OF this]
  fix st
  obtain io' e where g: "http2d_iocache_autoget (total_heap (\<lambda>_. 0)) st io (name_key 5) (iocache_stat OR iocache_mmap) None (Some 5) (Some 5) =
      Some (ret_ok, Some 5, io')" "cache_ok (io_base io') ((\<lambda>_. [])(T1 := [5])) ((\<lambda>_. 0)(5 := 1))" "c_entries (io_base io') 5 = Some e"
    "mmaped (ce_obj e) = Mapped 7" "state (ce_obj e) = \<lparr>S_ISREG = True, st_size = 100\<rparr>" "mmaped_len (ce_obj e) = nat (st_size (state (ce_obj e)) mod 2 ^ 64)"
    using autoget_first [OF f(2-10), of "\<lambda>_. 0" st] f(11,12) by (auto simp: one_file_def)
  have "io_run {#} {#} io' ((\<lambda>_. 0)(5 := (\<lambda>_. 0) 5 + 1))" by (rule io_run.look_up [OF f(1,3-5) g(1)])
  moreover have "a = 5" if "c_entries (io_base io') a \<noteq> None" for a
    using g(2) that by (auto simp: cache_ok_def refs_ok_def listed_def split: if_splits)
  then have "dom (c_entries (io_base io')) = {5}" using g(3) by auto
  ultimately show ?thesis using g(3-6) by (intro exI [of _ io'] exI [of _ e]) (simp add: held_def)
qed

subsection \<open>Properties\<close>

text \<open>C9: Whatever clients do with a cache of files, and whatever the kernel answers, the mappings of the process are those it had before and
  exactly one for every entry that says so: none is lost, none is unmapped twice, and none of somebody else's is unmapped. No descriptor that
  the cache opens for itself stays open. An entry that a client refers to is there.\<close>

theorem io_run_mappings:
  assumes "io_run X Y io R"
  shows "finite (dom (c_entries (io_base io))) \<and>
    maps (c_env (io_base io)) = X + (\<Sum>a \<in> dom (c_entries (io_base io)). held (ce_obj (the (c_entries (io_base io) a)))) \<and>
    fds (c_env (io_base io)) = Y \<and> (\<forall>a. R a > 0 \<longrightarrow> c_entries (io_base io) a \<noteq> None)"
proof -
  obtain L where L: "cache_ok (io_base io) L R" "io_maps.balance (io_base io) X" "io_fds.balance (io_base io) Y"
    using io_run_inv [OF assms] by blast
  then show ?thesis by (simp add: io_maps.balance_def io_maps.owned_def io_fds.balance_def io_fds.owned_def cache_ok_def refs_ok_def)
qed

theorem io_run_mappings_witness: "\<exists>io R. io_run {#} {#} io R \<and> maps (c_env (io_base io)) = {#(7, 100)#} \<and> fds (c_env (io_base io)) = {#}"
proof -
  obtain io e where r: "io_run {#} {#} io ((\<lambda>_. 0)(5 := 1))" "dom (c_entries (io_base io)) = {5}" "c_entries (io_base io) 5 = Some e"
    "held (ce_obj e) = {#(7, 100)#}" using one_run by blast
  show ?thesis using io_run_mappings [OF r(1)] r by (intro exI [of _ io]) auto
qed

text \<open>C10: The first look-up of a file that is there, when the policy has room for it and \<open>mmap\<close> does not fail: a file
  whose size is outside of the limits gives \<open>ret_no_sys\<close>, anything but a regular file \<open>ret_deny\<close>, a file that cannot be opened the
  code of the error of \<open>open\<close>, and none of them a mapping; every other file is mapped as a whole, and the result is \<open>ret_ok\<close>. The new entry keeps
  the key, what \<open>stat\<close> said and the mapping, and the lists and references are as after any look-up. A file without a state is not
  covered.\<close>

theorem http2d_iocache_autoget_new:
  assumes "cache_ok (io_base io) L R" "text_key k" "free_addrs (io_base io) a x" "card (dom (c_entries (io_base io))) < 2 ^ 32"
    and "0 \<le> max_size (io_base io)" "max_size (io_base io) < 2 ^ 31" "\<forall>b. key_of (io_base io) b \<noteq> Some (buf_str k)"
    and "arc_room (nat (max_size (io_base io))) (target_t1 (io_base io)) L = Some (L', v)" "0 < BOGONOW (c_env (io_base io))"
    and "sys_stat (c_env (io_base io)) (Some (buf_str k)) = Inr s" "\<forall>d. sys_mmap (c_env (io_base io)) (nat (st_size s mod 2 ^ 64)) d = Inr (mp d)"
  shows "\<exists>io' e ret. http2d_iocache_autoget (total_heap f) st io k (iocache_stat OR iocache_mmap) None (Some a) (Some x) = Some (ret, Some a, io') \<and>
    cache_ok (io_base io') (L'(T1 := a # L' T1)) (R(a := 1)) \<and> c_entries (io_base io') a = Some e \<and> buf_str (ce_key e) = buf_str k \<and>
    state (ce_obj e) = s \<and>
    (ret, mmaped (ce_obj e)) =
      (if st_size s < int (min_file_size (io_lim io)) \<or> st_size s > int (max_file_size (io_lim io)) then (ret_no_sys, NULL_PTR)
       else if \<not> S_ISREG s then (ret_deny, NULL_PTR)
       else case sys_open (c_env (io_base io)) (Some (buf_str k)) of
              Inl err \<Rightarrow> (errno_ret err, NULL_PTR) | Inr d \<Rightarrow> (ret_ok, Mapped (mp (int d)))) \<and>
    (ret = ret_ok \<longrightarrow> mmaped_len (ce_obj e) = nat (st_size s mod 2 ^ 64))"
proof -
  let ?fa = "file_answer (io_lim io) (c_env (io_base io)) (buf_str k)"
  have fa: "?fa = (if st_size s < int (min_file_size (io_lim io)) \<or> st_size s > int (max_file_size (io_lim io)) then (ret_no_sys, NULL_PTR)
       else if \<not> S_ISREG s then (ret_deny, NULL_PTR)
       else case sys_open (c_env (io_base io)) (Some (buf_str k)) of
              Inl err \<Rightarrow> (errno_ret err, NULL_PTR) | Inr d \<Rightarrow> (ret_ok, Mapped (mp (int d))))"
    using assms(10,11) by (simp add: file_answer_def split: sum.split)
  have "\<exists>p. snd ?fa = Mapped p" if "fst ?fa = ret_ok"
    using that errno_ret_code unfolding fa by (auto split: if_splits sum.splits)
  then show ?thesis using autoget_first [OF assms(1-9), of f st] assms(10) unfolding fa [symmetric] by (metis prod.collapse)
qed

theorem http2d_iocache_autoget_new_witness:
  "\<exists>io io' e. http2d_iocache_autoget (total_heap (\<lambda>_. 0)) no_stat io (name_key 5) (iocache_stat OR iocache_mmap) None (Some 5) (Some 5) =
      Some (ret_ok, Some 5, io') \<and> c_entries (io_base io') 5 = Some e \<and> mmaped (ce_obj e) = Mapped 7 \<and> mmaped_len (ce_obj e) = 100"
proof -
  obtain io where io: "set_up io" using set_up_run by blast
  note f = set_up_facts [OF io]
  have st: "sys_stat (c_env (io_base io)) (Some (buf_str (name_key 5))) = Inr \<lparr>S_ISREG = True, st_size = 100\<rparr>"
    and mm: "\<forall>d. sys_mmap (c_env (io_base io)) (nat (st_size \<lparr>S_ISREG = True, st_size = 100\<rparr> mod 2 ^ 64)) d = Inr ((\<lambda>_. 7) d)"
    using f(12) by (simp_all add: one_file_def)
  have lm: "io_lim io = \<lparr>max_file_size = 131072, min_file_size = 1, lasting_mmap = 300, lasting_stat = 300\<rparr>" using io by (simp add: set_up_def)
  have op: "sys_open (c_env (io_base io)) n = Inr 3" for n using f(12) by (simp add: one_file_def)
  from http2d_iocache_autoget_new [OF f(2-10) st mm, of "\<lambda>_. 0" no_stat] show ?thesis
    unfolding lm op by - (rule exI [of _ io], auto)
qed

text \<open>C12: \<open>http2d_iocache_mrproper\<close> frees every entry of the cache but leaves all their mappings behind.\<close>

theorem http2d_iocache_mrproper_leaks:
  assumes "io_run X Y io R"
  shows "\<exists>io'. http2d_iocache_mrproper st io = Some (ret_ok, io') \<and> c_entries (io_base io') = (\<lambda>_. None) \<and>
    maps (c_env (io_base io')) = X + (\<Sum>a \<in> dom (c_entries (io_base io)). held (ce_obj (the (c_entries (io_base io) a))))"
proof -
  let ?c = "io_base io"
  obtain L where L: "cache_ok ?c L R" "io_maps.balance ?c X" using io_run_inv [OF assms] by blast
  then have "trees.indexed (c_map ?c, c_nodes ?c) (key_of ?c)" by (simp add: cache_ok_def keys_ok_def)
  from indexed_values [OF this] obtain as m' where as: "http2d_avl_mrproper (c_map ?c) (c_nodes ?c) = Some (ret_ok, map Some as, m')"
    "distinct as" "set as = dom (c_entries ?c)" by (auto simp: key_dom)
  have "set as \<subseteq> dom (c_entries (?c\<lparr>c_nodes := m'\<rparr>))" using as(3) by simp
  from free_values_ok [OF as(2) this, of st "io_lim io"] obtain c' where c': "free_values (iocache_class st (io_lim io)) (map Some as) (?c\<lparr>c_nodes := m'\<rparr>) = Some c'"
    "c_env c' = c_env ?c" "c_entries c' = (c_entries ?c) |` (- set as)" by auto
  have "c_entries c' = (\<lambda>_. None)" using c'(3) as(3) by (auto simp: restrict_map_def fun_eq_iff)
  then show ?thesis using as(1) c'(1,2) L(2)
    by (simp add: http2d_iocache_mrproper_def http2d_cache_mrproper_def io_maps.balance_def io_maps.owned_def)
qed

theorem http2d_iocache_mrproper_leaks_witness:
  "\<exists>io io'. http2d_iocache_mrproper no_stat io = Some (ret_ok, io') \<and> c_entries (io_base io') = (\<lambda>_. None) \<and> maps (c_env (io_base io')) = {#(7, 100)#}"
proof -
  obtain io e where r: "io_run {#} {#} io ((\<lambda>_. 0)(5 := 1))" "dom (c_entries (io_base io)) = {5}" "c_entries (io_base io) 5 = Some e"
    "held (ce_obj e) = {#(7, 100)#}" using one_run by blast
  show ?thesis using http2d_iocache_mrproper_leaks [OF r(1), of no_stat] r(2-4) by - (rule exI [of _ io], auto)
qed

text \<open>C11: A call for the state and the mapping of a file with the entry already at hand (\<open>*ret_io\<close> is not null), while the state and the
  mapping of the entry have not expired, its last \<open>stat\<close> was a success and the size is within the limits: the call succeeds and leaves everything as it
  was, the entry, the lists, the references, the mappings and the descriptors, whatever the kernel would say of the file by now.\<close>

theorem http2d_iocache_autoget_fresh:
  assumes "c_entries (io_base io) b = Some e" "text_key k" "text_key (ce_key e)" "state_ret (ce_obj e) = ret_code ret_ok"
    and "BOGONOW (c_env (io_base io)) \<le> of_int (stat_expiration (ce_obj e))" "BOGONOW (c_env (io_base io)) \<le> of_int (mmap_expiration (ce_obj e))"
    and "int (min_file_size (io_lim io)) \<le> st_size (state (ce_obj e))" "st_size (state (ce_obj e)) \<le> int (max_file_size (io_lim io))"
  shows "http2d_iocache_autoget h st io k (iocache_stat OR iocache_mmap) (Some b) new node =
    Some (if ref_count e > 2 \<and> info (ce_obj e) \<noteq> iocache_nothing then ret_ok_and_sent else ret_ok, Some b, io)"
proof -
  have u: "ioentry_update_stat (io_lim io) e (ce_obj e) (c_env (io_base io)) = (ret_ok_and_sent, ce_obj e)"
    using assms(4,5) by (simp add: ioentry_update_stat_def)
  have "entry_update_fd (io_lim io) e (iocache_stat OR iocache_mmap) None (c_env (io_base io)) =
      (if ref_count e > 2 \<and> info (ce_obj e) \<noteq> iocache_nothing then ret_ok_and_sent else ret_ok, ce_obj e, None, c_env (io_base io))"
    using u assms(6-8) info_bits by (auto simp: entry_update_fd_def ioentry_update_mmap_def Let_def)
  moreover have "(c_entries (io_base io))(b \<mapsto> e) = c_entries (io_base io)" using assms(1) by auto
  moreover obtain i where "http2d_buffer_cmp_buf k (ce_key e) = Some i" using text_key_cmp [OF assms(2,3)] by blast
  ultimately show ?thesis using assms(1) by (simp add: http2d_iocache_autoget_def update_at_def set_entry_def)
qed

theorem http2d_iocache_autoget_fresh_witness:
  "\<exists>io :: iocache. c_entries (io_base io) 5 \<noteq> None \<and>
    http2d_iocache_autoget (total_heap (\<lambda>_. 0)) no_stat io (name_key 5) (iocache_stat OR iocache_mmap) (Some 5) None None = Some (ret_ok, Some 5, io)"
proof -
  let ?x = "\<lparr>info = iocache_stat OR iocache_mmap, state = \<lparr>S_ISREG = True, st_size = 100\<rparr>, state_ret = ret_code ret_ok, mmaped = Mapped 7,
    mmaped_len = 100, stat_expiration = 1300, mmap_expiration = 1300\<rparr>"
  let ?e = "\<lparr>ce_key = name_key 5, in_list = cache_t1, ref_count = 2, ce_obj = ?x\<rparr>"
  let ?io = "\<lparr>io_base = blank_cache\<lparr>c_env := one_file, c_entries := [5 \<mapsto> ?e]\<rparr>,
    io_lim = \<lparr>max_file_size = 131072, min_file_size = 1, lasting_mmap = 300, lasting_stat = 300\<rparr>\<rparr>"
  have k: "text_key (name_key 5)" using name_key [of 5] by simp
  have e: "c_entries (io_base ?io) 5 = Some ?e" by simp
  show ?thesis using http2d_iocache_autoget_fresh [OF e k, of "total_heap (\<lambda>_. 0)" no_stat None None] k e by (intro exI [of _ ?io]) (simp add: one_file_def)
qed

end
