(* ===== verification/Spec2Isabelle.thy ===== *)
theory Spec2Isabelle
  imports Connection_Spdy Avl_Dict Cache_Run Util_Path Config_Parse Access_Match Iocache_Run
begin

text \<open>
  A verification of http2d, a web server in C that speaks SPDY version 3 (and, in outline, HTTP 1.1). This theory only
  collects the others; each of them models one part of \<^verbatim>\<open>src/src\<close> and proves what that part promises.

  \<^bold>\<open>The program and its parts.\<close> A thread of the server owns connections; a connection owns a socket, buffers for what has
  been read and what is to be written, the two compression streams of SPDY, and the list of its requests. When the
  event loop reports the socket as readable, \<open>do_io\<close> in \<^verbatim>\<open>connection-spdy.c\<close> reads into the buffer, cuts frames off it
  (\<^verbatim>\<open>spdy.c\<close>), decompresses the header block of a SYN_STREAM frame (\<^verbatim>\<open>spdy-zlib.c\<close>) into the header of a new request
  (\<^verbatim>\<open>header.c\<close>, \<^verbatim>\<open>request.c\<close>), steps every request (\<^verbatim>\<open>request-spdy.c\<close>), which appends its reply to the output, and
  writes. Everything rests on growable byte strings (\<^verbatim>\<open>buffer.c\<close>). Beside that path stand the containers of the server:
  linked lists (\<^verbatim>\<open>list.c\<close>), dictionaries (\<^verbatim>\<open>avl_generic.c\<close>, \<^verbatim>\<open>avl.c\<close>) and, on top of both, an adaptive replacement cache
  (\<^verbatim>\<open>cache.c\<close>), of which the cache of files (\<^verbatim>\<open>iocache.c\<close>) is a client. The functions of \<^verbatim>\<open>util.c\<close> work on texts, paths and vectors. Before it serves anything the server reads its
  configuration: \<^verbatim>\<open>config_reader.c\<close> cuts files into lines \<open>key = value\<close> and adds them to a tree (\<^verbatim>\<open>config_node.c\<close>), in which the other
  parts look values up. Lists of addresses (\<^verbatim>\<open>access.c\<close>) decide whether a peer matches; the names in them are looked up in a cache of names
  (\<^verbatim>\<open>resolv_cache.c\<close>), a dictionary.

  \<^bold>\<open>How C is modelled.\<close> An operation is a function from the state it works on to \<open>None\<close>, which stands for a fault (an access
  outside a block or through a null or dangling pointer, an overflow of a signed integer, a division by zero) or for a loop that does not
  return, or to \<open>Some\<close> of the return code \<open>ret_t\<close>, the output parameters and the new state. Theorems that a result is
  \<open>Some\<close> therefore also say that no such fault happens and that the loops end. Unsigned integers are reduced modulo their width at every operation (\<open>u32\<close>, \<open>u64\<close>)
  or are words.
  \<^item> A chunk of memory is a list of bytes (\<open>block\<close>) with checked access; the buffer keeps \<open>buf\<close>, \<open>bsize\<close> and \<open>len\<close> as in C.
  \<^item> \<open>malloc\<close> and \<open>realloc\<close> are a parameter \<open>heap\<close> that may refuse memory and leaves arbitrary contents in fresh
  memory; \<open>total_heap\<close> is the one that never refuses.
  \<^item> Pointers that the code follows (nodes of trees, entries of lists, entries of the cache) are addresses into a map from
  addresses to records; freed addresses have no record. The addresses that \<open>malloc\<close> returns are arguments.
  \<^item> The kernel and OpenSSL are the parameter \<open>os\<close> (\<open>Socket\<close>), zlib is the parameter \<open>zlib\<close> (\<open>Spdy_Zlib\<close>) with the
  hypotheses its manual documents, the virtual methods of the entries of a cache are a record
  \<open>cache_class\<close> over an environment of their own, and the name of the package is an argument.
  \<^item> Loops are structural or well-founded recursions, or \<open>partial_function (option)\<close> where the loop may fail to end; for the latter
  either an end is proved (sorting, compression, the operations on trees and lists) or that there is none (frames that
  arrive in pieces). Configuration files include one another, so that the reader calls itself: the depth of nesting is an argument of
  \<open>http2d_config_reader_parse\<close>, and a reader whose depth is used up has no result. Any depth that is at least the nesting of the
  files is enough. For files that include themselves no depth is, as the nested call of every depth is reached.
  \<^item> The file system is the parameter \<open>files\<close> (\<open>Config_Reader\<close>): what \<open>stat\<close>, \<open>opendir\<close> and \<open>read\<close> say of a path. The
  resolver and the conversion of addresses are the parameter \<open>inet\<close> (\<open>Resolv\<close>): \<open>getaddrinfo\<close>, \<open>inet_pton\<close> and \<open>inet_ntop\<close>.

  \<^bold>\<open>Theories.\<close>
  \<^item> \<open>Prelude\<close>: return codes, blocks, heaps, C strings, machine arithmetic, and the lemmas on lists and words that
  the others share.
  \<^item> \<open>Buffer\<close>: the buffer of \<^verbatim>\<open>buffer.c\<close> with its invariant \<open>buffer_ok\<close>, the abstraction \<open>buf_rep\<close> to a byte string, life cycle,
  appending and prepending. The locale \<open>text_store\<close> is what clients rely on; it is interpreted on the buffer.
  \<open>Buffer_Num\<close>: rendering of numbers. \<open>Buffer_Edit\<close>: slices, trimming, moving, repeating. \<open>Buffer_Subst\<close>: searching and
  replacing. \<open>Buffer_Escape\<close>: UTF-8, URI and HTML escapes. \<open>Buffer_Codec\<close>: base 64 and hexadecimal.
  \<^item> \<open>Spdy\<close>: frame headers (\<^verbatim>\<open>spdy.c\<close>). \<open>Http\<close>: methods, codes and protocols (\<^verbatim>\<open>http.c\<close>, \<^verbatim>\<open>protocol.c\<close>).
  \<open>Header\<close>: the header of a request (\<^verbatim>\<open>header.c\<close>). \<open>Spdy_Zlib\<close>: compression (\<^verbatim>\<open>spdy-zlib.c\<close>).
  \<^item> \<open>Socket\<close>: reading, writing, shutdown and the handshake of TLS (\<^verbatim>\<open>socket.c\<close>, \<^verbatim>\<open>socket-ssl.c\<close>).
  \<^item> \<open>Connection\<close> (\<^verbatim>\<open>connection.c\<close>), \<open>Request\<close> (\<^verbatim>\<open>request.c\<close>, \<^verbatim>\<open>request-spdy.c\<close>, \<^verbatim>\<open>request-http.c\<close>), whose locale
  \<open>header_sink\<close> is the interface of the functions that add reply headers, and \<open>Connection_Spdy\<close>
  (\<^verbatim>\<open>connection-spdy.c\<close>), which composes all of the above; its reachable states are the inductive predicate \<open>conn_run\<close>.
  \<^item> \<open>Avl_Generic\<close> and \<open>Avl\<close>: the operations of \<^verbatim>\<open>avl_generic.c\<close> and \<^verbatim>\<open>avl.c\<close> in a memory of nodes. \<open>Avl_Tree\<close>, \<open>Avl_Search\<close> and
  \<open>Avl_Delete\<close> prove them correct for the shape of a tree and any comparison that satisfies the locale \<open>key_order\<close>; \<open>Avl_Dict\<close>
  interprets it on buffers and states what a dictionary promises. \<open>Avl_Index\<close>: the locale \<open>text_dict\<close>, the interface for
  clients that enter their own objects.
  \<^item> \<open>List_Links\<close>: the operations of \<^verbatim>\<open>list.h\<close> and \<^verbatim>\<open>list.c\<close> in a memory of links, and the locale \<open>linked_lists\<close> for clients with
  several lists. \<open>List_Sort\<close>: the merge sort.
  \<^item> \<open>Util\<close>: numbers, searching, HTTP headers, host names and vectors of \<^verbatim>\<open>util.c\<close>; \<open>Util_Text\<close>: their properties. \<open>Util_Path\<close>: the
  shortening of paths.
  \<^item> \<open>Config_Node\<close>: the tree of \<^verbatim>\<open>config_node.c\<close>, a datatype; a pointer to a node is the way to it. \<open>Config_Tree\<close>: it implements a map from
  paths to values. \<open>Config_Reader\<close>: the operations of \<^verbatim>\<open>config_reader.c\<close>. \<open>Config_Sort\<close>: sorting keeps the map and orders numbers;
  \<open>Config_Parse\<close>: a text has the effect of its settings, also across files and directories.
  \<^item> \<open>Resolv\<close>: the operations of \<^verbatim>\<open>resolv_cache.c\<close>; \<open>Resolv_Cache\<close>: they implement a map from names to addresses. \<open>Access\<close>: the
  operations of \<^verbatim>\<open>access.c\<close>; \<open>Access_Match\<close>: an access list is a set of addresses, and matching is membership.
  \<^item> \<open>Cache\<close>: the operations of \<^verbatim>\<open>cache.c\<close>. \<open>Cache_Arc\<close>: they implement the replacement policy on four lists. \<open>Cache_Run\<close>:
  what holds along every history of look-ups and releases. \<open>Cache_Own\<close>: the locale \<open>owning_class\<close> for derived classes whose entries own
  resources, and that no operation of the cache loses one.
  \<^item> \<open>Iocache\<close>: the operations of \<^verbatim>\<open>iocache.c\<close>, a class derived from the cache; the kernel is in the environment of its methods.
  \<open>Iocache_Run\<close>: interprets \<open>owning_class\<close> for mappings, descriptors and the kernel, and states what look-ups return.

  \<^bold>\<open>What is shown.\<close> Buffers: every operation keeps the invariant and has the stated effect on the text, with the
  branches on which memory is refused; optimised routines equal reference functions; encodings round trip. SPDY: headers
  round trip and have the layout of the protocol; a SYN_STREAM frame becomes a request, requests become a
  SYN_REPLY and a DATA frame, writing is a queue; the phases of a connection are an invariant of its reachable states.
  Dictionaries: adding, deleting and looking up implement a finite map, every tree the code builds is a well-formed
  AVL tree. Lists: the sort equals a stable sort. Cache: look-ups implement the adaptive replacement policy, references are safe, and the
  sizes stay in their bounds if references are given back. Cache of files: no mapping and no descriptor is lost along any history. Utilities: the end of a header whose blank line ends like its last line is found exactly when it is complete, paths lose
  every \<open>/../\<close> without an access outside their chunk. Configuration: the tree is a map from paths to values, and reading files
  has the effect of their settings on it. Access lists: adding the text of an address or a network adds exactly its addresses, adding a name those the system or the cache of names has for it, if they are of one family, and a
  socket matches if it stands for one of them. Where the code does not do what it is meant to do, a theorem states what it
  does (frames that arrive in pieces, frames behind a GOAWAY, keys whose lengths differ by 65536, slices with a negative end, bytes from 128
  on in base 64, clients of the cache that keep their references, vectors not longer than the part sent of an earlier one, keys with an empty
  part, files that include themselves, networks whose prefix is too long, names with addresses of several families, the cache of names after it
  has been cleaned, the mappings of a cache of files that is torn down).

  \<^bold>\<open>Bounds.\<close> Texts stay below \<open>2 ^ 31 - 17\<close> bytes, the longest for which the sizes of a buffer do not wrap. Keys of trees are shorter than
  \<open>2 ^ 15\<close> bytes, because their comparison is a difference of lengths kept in a \<open>short\<close>. A path of a tree has at most \<open>MAX_HEIGHT\<close> = 45
  nodes, which is enough for \<open>2 ^ 32\<close> nodes. A list that is sorted has fewer than \<open>2 ^ 31 - 1\<close> entries, the range of its counters. The size of a cache is below \<open>2 ^ 31\<close>, the range of its field; the lengths of its lists and
  its reference counts are integers without a bound, where C has \<open>int\<close>: to overflow they would take \<open>2 ^ 31\<close> references or entries. Numbers
  by which children of the configuration are sorted are below \<open>2 ^ 30\<close> in size, so that their differences are \<open>int\<close>s, and a tree has fewer than
  \<open>2 ^ 31 - 1\<close> paths.

  \<^bold>\<open>Not modelled.\<close> Concurrency between threads: every connection belongs to one thread, and every public function of the
  cache holds its mutex throughout, so that an operation is one step. The event loop (libev), start-up, the use of the configuration by the server and the TLS contexts, and plug-ins are calls
  of libraries with little logic in between. Tracing, error messages and the tests have no effect on the state. The manifest lists every part of
  the program with what is left out of it.
\<close>

end
